(* ===== verification/KPrelude.thy ===== *)
theory KPrelude
  imports Main "HOL-Library.Word"
begin

text \<open>
  Shared vocabulary of the KnitOS development: machine-integer types, the two loop
  shapes the kernel uses everywhere (search a table for the first matching slot, copy a
  C string into a bounded buffer), and the list and word facts the components share.
\<close>

unbundle bit_operations_syntax

type_synonym u8 = "8 word"
type_synonym u16 = "16 word"
type_synonym u32 = "32 word"

named_theorems slot_simps "facts about first-match table searches"
named_theorems word_nat "reading words as natural numbers"

section \<open>First-match search of a table\<close>

text \<open>
  The kernel's tables are arrays searched by
  \<^verbatim>\<open>for (i = 0; i < MAX; i++) if (cond(table[i])) return i; return -1;\<close>
  The model of this loop is \<open>find_slot\<close>: the index, or None for the final -1.
\<close>

fun find_slot :: "('a \<Rightarrow> bool) \<Rightarrow> 'a list \<Rightarrow> nat option" where
  "find_slot P [] = None"
| "find_slot P (x # xs) = (if P x then Some 0 else map_option Suc (find_slot P xs))"

lemma find_slot_None [slot_simps]: "find_slot P xs = None \<longleftrightarrow> (\<forall>x \<in> set xs. \<not> P x)"
  by (induction xs) auto

lemma find_slot_Some:
  "find_slot P xs = Some i \<longleftrightarrow> i < length xs \<and> P (xs ! i) \<and> (\<forall>j < i. \<not> P (xs ! j))"
proof (induction xs arbitrary: i)
  case Nil
  then show ?case by simp
next
  case (Cons x xs)
  show ?case
  proof (cases i)
    case 0
    then show ?thesis by auto
  next
    case (Suc k)
    then show ?thesis
      using Cons.IH [of k] by (auto simp: less_Suc_eq_0_disj)
  qed
qed

lemma find_slot_SomeD:
  assumes "find_slot P xs = Some i"
  shows "i < length xs" and "P (xs ! i)" and "\<And>j. j < i \<Longrightarrow> \<not> P (xs ! j)"
  using assms by (auto simp: find_slot_Some)

lemma find_slot_ex:
  assumes "i < length xs" and "P (xs ! i)"
  shows "\<exists>j. find_slot P xs = Some j \<and> j \<le> i"
proof (cases "find_slot P xs")
  case None
  then show ?thesis using assms by (auto simp: find_slot_None)
next
  case (Some j)
  then have "j \<le> i" using assms by (meson find_slot_SomeD(3) not_le)
  with Some show ?thesis by blast
qed

lemma find_slot_map_eq:
  "map f xs = map f ys \<Longrightarrow> (\<And>x y. f x = f y \<Longrightarrow> P x = P y) \<Longrightarrow> find_slot P xs = find_slot P ys"
proof (induction xs arbitrary: ys)
  case (Cons x xs)
  from Cons.prems(1) obtain y ys' where y: "ys = y # ys'" "f x = f y" "map f xs = map f ys'"
    by (cases ys) auto
  have "find_slot P xs = find_slot P ys'" by (rule Cons.IH [OF y(3)]) (rule Cons.prems(2))
  moreover have "P x = P y" by (rule Cons.prems(2) [OF y(2)])
  ultimately show ?case using y(1) by simp
qed simp

lemma find_slot_replicate [simp]:
  "find_slot P (replicate n x) = (if 0 < n \<and> P x then Some 0 else None)"
  by (induction n) auto

lemma find_slot_cong:
  "(\<And>x. x \<in> set xs \<Longrightarrow> P x = Q x) \<Longrightarrow> find_slot P xs = find_slot Q xs"
  by (induction xs) auto

lemma find_slot_update_same: "i < length xs \<Longrightarrow> P (xs ! i) = P y \<Longrightarrow> find_slot P (xs[i := y]) = find_slot P xs"
proof (induction xs arbitrary: i)
  case (Cons x xs)
  then show ?case by (cases i) auto
qed simp

lemma find_slot_update_new: "i < length xs \<Longrightarrow> P y \<Longrightarrow> find_slot P xs = None \<Longrightarrow> find_slot P (xs[i := y]) = Some i"
proof (induction xs arbitrary: i)
  case (Cons x xs)
  then show ?case by (cases i) (auto split: if_splits)
qed simp

section \<open>Tables with a key\<close>

text \<open>A table in which the entries in use have different keys.\<close>

definition uniq_on :: "('a \<Rightarrow> bool) \<Rightarrow> ('a \<Rightarrow> 'k) \<Rightarrow> 'a list \<Rightarrow> bool" where
  "uniq_on P f xs \<longleftrightarrow> distinct (map f (filter P xs))"

lemma uniq_on_eq: "uniq_on P f xs \<Longrightarrow> x \<in> set xs \<Longrightarrow> y \<in> set xs \<Longrightarrow> P x \<Longrightarrow> P y \<Longrightarrow> f x = f y \<Longrightarrow> x = y"
  unfolding uniq_on_def distinct_map inj_on_def by simp

lemma uniq_on_remove: "uniq_on P f (a @ x # b) \<Longrightarrow> uniq_on P f (a @ b)"
  by (cases "P x") (simp_all add: uniq_on_def)

lemma uniq_on_insert: "uniq_on P f (a @ b) \<Longrightarrow> (\<And>x. x \<in> set a \<union> set b \<Longrightarrow> P x \<Longrightarrow> P y \<Longrightarrow> f x \<noteq> f y) \<Longrightarrow> uniq_on P f (a @ y # b)"
  by (cases "P y") (fastforce simp: uniq_on_def)+

lemma uniq_on_put:
  assumes "uniq_on P f xs" and "\<And>j. j < length xs \<Longrightarrow> j \<noteq> i \<Longrightarrow> P (xs ! j) \<Longrightarrow> P y \<Longrightarrow> f (xs ! j) \<noteq> f y"
  shows "uniq_on P f (xs[i := y])"
proof (cases "i < length xs")
  case True
  have "uniq_on P f (take i xs @ drop (Suc i) xs)" using assms(1) True by (metis uniq_on_remove id_take_nth_drop)
  moreover have "f x \<noteq> f y" if "x \<in> set (take i xs) \<union> set (drop (Suc i) xs)" "P x" "P y" for x
  proof -
    from that(1) consider j where "j < i" "xs ! j = x" | j where "Suc i + j < length xs" "xs ! (Suc i + j) = x"
      using True by (auto simp: in_set_conv_nth less_diff_conv add.commute)
    then show ?thesis using assms(2) that(2,3) True by cases fastforce+
  qed
  ultimately show ?thesis unfolding upd_conv_take_nth_drop [OF True] by (rule uniq_on_insert)
next
  case False
  then show ?thesis using assms(1) by (simp add: list_update_beyond)
qed

lemma uniq_on_nth: "uniq_on P f xs \<Longrightarrow> i < length xs \<Longrightarrow> j < length xs \<Longrightarrow> P (xs ! i) \<Longrightarrow> P (xs ! j) \<Longrightarrow> f (xs ! i) = f (xs ! j) \<Longrightarrow> i = j"
proof (induction xs arbitrary: i j)
  case (Cons x xs)
  have t: "uniq_on P f xs" using uniq_on_remove [of P f "[]" x xs] Cons.prems(1) by simp
  have n: "f x \<noteq> f y" if "y \<in> set xs" "P x" "P y" for y using Cons.prems(1) that by (auto simp: uniq_on_def)
  show ?case
  proof (cases i; cases j)
    fix k l
    assume "i = Suc k" "j = Suc l"
    then show ?thesis using Cons.IH [OF t, of k l] Cons.prems by simp
  qed (use Cons.prems n in \<open>auto dest: nth_mem simp: eq_commute [of "f (xs ! _)" "f x"]\<close>)
qed simp

section \<open>Bounded copies of C strings\<close>

text \<open>
  A C string argument is modelled by its content, a HOL string without the terminating
  NUL. The copy loop
  \<^verbatim>\<open>while (src[i] && i + 1 < cap) { dst[i] = src[i]; i++; } dst[i] = 0;\<close>
  leaves in \<^verbatim>\<open>dst\<close> the content \<open>cstr_copy cap src\<close>.
\<close>

fun cstr_copy :: "nat \<Rightarrow> string \<Rightarrow> string" where
  "cstr_copy cap [] = []"
| "cstr_copy cap (c # cs) = (if 1 < cap then c # cstr_copy (cap - 1) cs else [])"

lemma cstr_copy_take: "cstr_copy cap s = take (cap - 1) s"
proof (induction cap s rule: cstr_copy.induct)
  case (1 cap)
  then show ?case by simp
next
  case (2 cap c cs)
  then show ?case by (cases "cap - 1") (auto simp: numeral_2_eq_2 diff_Suc split: nat.splits)
qed

lemma cstr_copy_id: "length s < cap \<Longrightarrow> cstr_copy cap s = s"
  by (simp add: cstr_copy_take)

lemma length_cstr_copy: "0 < cap \<Longrightarrow> length (cstr_copy cap s) < cap"
  by (auto simp: cstr_copy_take)

section \<open>Words\<close>

lemma uint_inject [simp]: "uint a = uint b \<longleftrightarrow> a = b"
  by (simp add: word_uint_eq_iff)

lemma uint_less_iff [word_nat]: "uint a < uint b \<longleftrightarrow> a < b"
  by (simp add: word_less_def)

lemma unat_inc [word_nat]:
  fixes w :: "'a::len word"
  assumes "unat w + 1 < 2 ^ LENGTH('a)"
  shows "unat (w + 1) = unat w + 1"
  using assms by (simp add: unat_word_ariths)

lemma unat_dec [word_nat]:
  fixes w :: "'a::len word"
  shows "w \<noteq> 0 \<Longrightarrow> unat (w - 1) = unat w - 1"
  by (simp add: unat_minus_one)

lemma unat_lt32: "unat (w :: u32) < 2 ^ 32"
  using unsigned_less [of w] by simp

lemma unat_of_nat32 [word_nat]: "n < 2 ^ 32 \<Longrightarrow> unat (of_nat n :: u32) = n"
  by (simp add: unat_of_nat)

lemma of_nat_eq32: "m < 2 ^ 32 \<Longrightarrow> n < 2 ^ 32 \<Longrightarrow> (of_nat m :: u32) = of_nat n \<longleftrightarrow> m = n"
  by (metis unat_of_nat32)

lemma le_of_nat32: "n < 2 ^ 32 \<Longrightarrow> (w :: u32) \<le> of_nat n \<longleftrightarrow> unat w \<le> n"
  by (simp add: word_le_nat_alt unat_of_nat32)

end
