(* ===== verification/KString.thy ===== *)
theory KString
  imports KPrelude
begin

text \<open>
  The freestanding string library, src/kernel/string.cpp. Memory is a function from
  addresses to bytes, a pointer is an address and NULL is address 0, so that overlapping
  arguments and in-place updates behave as in the code. A loop that only stops at a NUL
  byte is a \<open>partial_function (option)\<close>: None is a loop that never returns.
\<close>

type_synonym mem = "nat \<Rightarrow> u8"

section \<open>Memory blocks\<close>

fun copy_up :: "nat \<Rightarrow> nat \<Rightarrow> nat \<Rightarrow> nat \<Rightarrow> mem \<Rightarrow> mem" where
  "copy_up d s i 0 m = m"
| "copy_up d s i (Suc k) m = copy_up d s (Suc i) k (m(d + i := m (s + i)))"

fun copy_down :: "nat \<Rightarrow> nat \<Rightarrow> nat \<Rightarrow> mem \<Rightarrow> mem" where
  "copy_down d s 0 m = m"
| "copy_down d s (Suc i) m = copy_down d s i (m(d + i := m (s + i)))"

definition memcpy :: "mem \<Rightarrow> nat \<Rightarrow> nat \<Rightarrow> nat \<Rightarrow> mem" where
  "memcpy m dest src n = copy_up dest src 0 n m"

definition memmove :: "mem \<Rightarrow> nat \<Rightarrow> nat \<Rightarrow> nat \<Rightarrow> mem" where
  "memmove m dest src n =
     (if dest = src \<or> n = 0 then m
      else if dest < src then copy_up dest src 0 n m
      else copy_down dest src n m)"

fun set_up :: "nat \<Rightarrow> u8 \<Rightarrow> nat \<Rightarrow> nat \<Rightarrow> mem \<Rightarrow> mem" where
  "set_up d v i 0 m = m"
| "set_up d v i (Suc k) m = set_up d v (Suc i) k (m(d + i := v))"

definition memset :: "mem \<Rightarrow> nat \<Rightarrow> int \<Rightarrow> nat \<Rightarrow> mem" where
  "memset m dest val n = set_up dest (word_of_int val) 0 n m"

fun memcmp_loop :: "mem \<Rightarrow> nat \<Rightarrow> nat \<Rightarrow> nat \<Rightarrow> nat \<Rightarrow> int" where
  "memcmp_loop m a b i 0 = 0"
| "memcmp_loop m a b i (Suc k) =
     (if m (a + i) \<noteq> m (b + i) then uint (m (a + i)) - uint (m (b + i))
      else memcmp_loop m a b (Suc i) k)"

definition memcmp :: "mem \<Rightarrow> nat \<Rightarrow> nat \<Rightarrow> nat \<Rightarrow> int" where
  "memcmp m a b n = memcmp_loop m a b 0 n"

section \<open>C strings\<close>

partial_function (option) strlen_loop :: "mem \<Rightarrow> nat \<Rightarrow> nat \<Rightarrow> nat option" where
  "strlen_loop m s n = (if m (s + n) \<noteq> 0 then strlen_loop m s (n + 1) else Some n)"

definition strlen :: "mem \<Rightarrow> nat \<Rightarrow> nat option" where
  "strlen m s = (if s = 0 then Some 0 else strlen_loop m s 0)"

partial_function (option) strcmp_loop :: "mem \<Rightarrow> nat \<Rightarrow> nat \<Rightarrow> int option" where
  "strcmp_loop m a b =
     (if m a \<noteq> 0 \<and> m a = m b then strcmp_loop m (a + 1) (b + 1)
      else Some (uint (m a) - uint (m b)))"

definition strcmp :: "mem \<Rightarrow> nat \<Rightarrow> nat \<Rightarrow> int option" where
  "strcmp m a b =
     (if a = 0 \<or> b = 0 then Some (if a = b then 0 else if a \<noteq> 0 then 1 else -1)
      else strcmp_loop m a b)"

fun strncmp_loop :: "mem \<Rightarrow> nat \<Rightarrow> nat \<Rightarrow> nat \<Rightarrow> nat \<Rightarrow> int" where
  "strncmp_loop m a b i 0 = 0"
| "strncmp_loop m a b i (Suc k) =
     (let ca = m (a + i); cb = m (b + i) in
      if ca \<noteq> cb then uint ca - uint cb
      else if ca = 0 then 0
      else strncmp_loop m a b (Suc i) k)"

definition strncmp :: "mem \<Rightarrow> nat \<Rightarrow> nat \<Rightarrow> nat \<Rightarrow> int" where
  "strncmp m a b n =
     (if a = 0 \<or> b = 0 then (if a = b then 0 else if a \<noteq> 0 then 1 else -1)
      else strncmp_loop m a b 0 n)"

partial_function (option) strcpy_loop :: "mem \<Rightarrow> nat \<Rightarrow> nat \<Rightarrow> mem option" where
  "strcpy_loop m d s =
     (if m s \<noteq> 0 then strcpy_loop (m(d := m s)) (d + 1) (s + 1) else Some (m(d := m s)))"

definition strcpy :: "mem \<Rightarrow> nat \<Rightarrow> nat \<Rightarrow> mem option" where
  "strcpy m dest src = (if dest = 0 \<or> src = 0 then Some m else strcpy_loop m dest src)"

fun strncpy_loop :: "mem \<Rightarrow> nat \<Rightarrow> nat \<Rightarrow> nat \<Rightarrow> nat \<Rightarrow> mem" where
  "strncpy_loop m dest src i 0 = m"
| "strncpy_loop m dest src i (Suc k) =
     (if m (src + i) \<noteq> 0
      then strncpy_loop (m(dest + i := m (src + i))) dest src (Suc i) k
      else set_up dest 0 i (Suc k) m)"

definition strncpy :: "mem \<Rightarrow> nat \<Rightarrow> nat \<Rightarrow> nat \<Rightarrow> mem" where
  "strncpy m dest src n =
     (if dest = 0 then m
      else if src = 0 then (if n \<noteq> 0 then m(dest := 0) else m)
      else strncpy_loop m dest src 0 n)"

definition strcat :: "mem \<Rightarrow> nat \<Rightarrow> nat \<Rightarrow> mem option" where
  "strcat m dest src =
     (if dest = 0 \<or> src = 0 then Some m
      else case strlen m dest of None \<Rightarrow> None | Some k \<Rightarrow> strcpy_loop m (dest + k) src)"

partial_function (option) strchr_loop :: "mem \<Rightarrow> nat \<Rightarrow> u8 \<Rightarrow> nat option" where
  "strchr_loop m s ch =
     (if m s \<noteq> 0 then (if m s = ch then Some s else strchr_loop m (s + 1) ch)
      else Some (if ch = 0 then s else 0))"

definition strchr :: "mem \<Rightarrow> nat \<Rightarrow> int \<Rightarrow> nat option" where
  "strchr m s c = (if s = 0 then Some 0 else strchr_loop m s (word_of_int c))"

partial_function (option) strrchr_loop :: "mem \<Rightarrow> nat \<Rightarrow> u8 \<Rightarrow> nat \<Rightarrow> nat option" where
  "strrchr_loop m s ch lst =
     (if m s \<noteq> 0 then strrchr_loop m (s + 1) ch (if m s = ch then s else lst)
      else Some (if ch = 0 then s else lst))"

definition strrchr :: "mem \<Rightarrow> nat \<Rightarrow> int \<Rightarrow> nat option" where
  "strrchr m s c = (if s = 0 then Some 0 else strrchr_loop m s (word_of_int c) 0)"

partial_function (option) strstr_match :: "mem \<Rightarrow> nat \<Rightarrow> nat \<Rightarrow> bool option" where
  "strstr_match m a b =
     (if m a \<noteq> 0 \<and> m b \<noteq> 0 \<and> m a = m b then strstr_match m (a + 1) (b + 1)
      else Some (m b = 0))"

partial_function (option) strstr_loop :: "mem \<Rightarrow> nat \<Rightarrow> nat \<Rightarrow> nat option" where
  "strstr_loop m h needle =
     (if m h = 0 then Some 0
      else Option.bind (strstr_match m h needle)
             (\<lambda>hit. if hit then Some h else strstr_loop m (h + 1) needle))"

definition strstr :: "mem \<Rightarrow> nat \<Rightarrow> nat \<Rightarrow> nat option" where
  "strstr m haystack needle =
     (if haystack = 0 \<or> needle = 0 then Some 0
      else if m needle = 0 then Some haystack
      else strstr_loop m haystack needle)"

text \<open>
  \<^verbatim>\<open>strtok\<close> keeps the resume pointer in a static variable; the model threads it. The scan
  over the delimiter set is \<open>is_delim\<close>.
\<close>

partial_function (option) is_delim :: "mem \<Rightarrow> u8 \<Rightarrow> nat \<Rightarrow> bool option" where
  "is_delim m c d = (if m d = 0 then Some False else if c = m d then Some True else is_delim m c (d + 1))"

partial_function (option) strtok_skip :: "mem \<Rightarrow> nat \<Rightarrow> nat \<Rightarrow> nat option" where
  "strtok_skip m s delim =
     (if m s = 0 then Some s
      else Option.bind (is_delim m (m s) delim)
             (\<lambda>b. if b then strtok_skip m (s + 1) delim else Some s))"

partial_function (option) strtok_scan :: "mem \<Rightarrow> nat \<Rightarrow> nat \<Rightarrow> (mem \<times> nat) option" where
  "strtok_scan m s delim =
     (if m s = 0 then Some (m, 0)
      else Option.bind (is_delim m (m s) delim)
             (\<lambda>b. if b then Some (m(s := 0), s + 1) else strtok_scan m (s + 1) delim))"

text \<open>Result: the token (0 for NULL), the memory, the saved pointer.\<close>

definition strtok :: "mem \<Rightarrow> nat \<Rightarrow> nat \<Rightarrow> nat \<Rightarrow> (nat \<times> mem \<times> nat) option" where
  "strtok m save str delim =
     (if delim = 0 then Some (0, m, save)
      else let s = (if str \<noteq> 0 then str else save) in
        if s = 0 then Some (0, m, save)
        else Option.bind (strtok_skip m s delim)
          (\<lambda>t. if m t = 0 then Some (0, m, 0)
               else Option.bind (strtok_scan m t delim) (\<lambda>(m', save'). Some (t, m', save'))))"

section \<open>Block operations: what they compute\<close>

lemma copy_up_eq:
  assumes "d \<le> s \<or> s + k \<le> d"
  shows "copy_up d s i k m a = (if d + i \<le> a \<and> a < d + i + k then m (s + (a - d)) else m a)"
  using assms
proof (induction k arbitrary: i m)
  case 0
  then show ?case by auto
next
  case (Suc k)
  have pre: "d \<le> s \<or> s + k \<le> d" using Suc.prems by auto
  show ?case
    using Suc.prems by (auto simp: Suc.IH [OF pre] not_less_eq_eq)
qed

lemma copy_down_eq:
  assumes "s \<le> d"
  shows "copy_down d s k m a = (if d \<le> a \<and> a < d + k then m (s + (a - d)) else m a)"
  using assms
proof (induction k arbitrary: m)
  case 0
  then show ?case by auto
next
  case (Suc k)
  then show ?case by (auto simp: Suc.IH)
qed

lemma set_up_eq: "set_up d v i k m a = (if d + i \<le> a \<and> a < d + i + k then v else m a)"
  by (induction k arbitrary: i m) auto

text \<open>
  A copy moves the source block as it was before the call, and leaves every other address
  alone.
\<close>

lemma memcpy_eq:
  assumes "dest \<le> src \<or> src + n \<le> dest"
  shows "memcpy m dest src n a = (if dest \<le> a \<and> a < dest + n then m (src + (a - dest)) else m a)"
  using copy_up_eq [OF assms, of 0 m a] by (simp add: memcpy_def)

lemma memmove_eq:
  "memmove m dest src n a = (if dest \<le> a \<and> a < dest + n then m (src + (a - dest)) else m a)"
  by (auto simp: memmove_def copy_up_eq copy_down_eq)

lemma memset_eq:
  "memset m dest v n a = (if dest \<le> a \<and> a < dest + n then word_of_int v else m a)"
  by (simp add: memset_def set_up_eq)

lemma memcmp_loop_zero:
  "memcmp_loop m a b i k = 0 \<longleftrightarrow> (\<forall>j < k. m (a + i + j) = m (b + i + j))"
proof (induction k arbitrary: i)
  case 0
  then show ?case by simp
next
  case (Suc k)
  then show ?case by (auto simp: less_Suc_eq_0_disj)
qed

lemma memcmp_zero: "memcmp m a b n = 0 \<longleftrightarrow> (\<forall>j < n. m (a + j) = m (b + j))"
  using memcmp_loop_zero [of m a b 0 n] by (simp add: memcmp_def)

section \<open>C strings in memory\<close>

text \<open>\<open>cstr m p xs\<close>: the bytes at \<open>p\<close> are the non-zero bytes \<open>xs\<close> and then a NUL.\<close>

fun cstr :: "mem \<Rightarrow> nat \<Rightarrow> u8 list \<Rightarrow> bool" where
  "cstr m p [] = (m p = 0)"
| "cstr m p (x # xs) = (x \<noteq> 0 \<and> m p = x \<and> cstr m (p + 1) xs)"

lemma cstr_nth:
  "cstr m p xs \<longleftrightarrow>
     (\<forall>i < length xs. m (p + i) = xs ! i) \<and> m (p + length xs) = 0 \<and> 0 \<notin> set xs"
proof (induction xs arbitrary: p)
  case Nil
  then show ?case by simp
next
  case (Cons x xs)
  show ?case
    using Cons.IH [of "p + 1"] by (auto simp: less_Suc_eq_0_disj)
qed

lemma cstr_append: "cstr m p (xs @ ys) \<Longrightarrow> cstr m (p + length xs) ys"
  by (simp add: cstr_nth nth_append add.assoc)

lemma cstr_cut: "cstr m p (xs @ ys) \<Longrightarrow> cstr (m(p + length xs := 0)) p xs"
proof -
  assume "cstr m p (xs @ ys)"
  then have "m (p + i) = xs ! i" if "i < length xs" for i
    using that by (auto simp: cstr_nth nth_append dest: spec [of _ i])
  with \<open>cstr m p (xs @ ys)\<close> show ?thesis by (simp add: cstr_nth)
qed

lemma cstr_unchanged:
  "cstr m p xs \<Longrightarrow> (\<And>a. p \<le> a \<Longrightarrow> a \<le> p + length xs \<Longrightarrow> m' a = m a) \<Longrightarrow> cstr m' p xs"
  by (simp add: cstr_nth)

lemma strlen_loop_cstr: "cstr m (s + n) xs \<Longrightarrow> strlen_loop m s n = Some (n + length xs)"
proof (induction xs arbitrary: n)
  case Nil
  then show ?case by (subst strlen_loop.simps) simp
next
  case (Cons x xs)
  then show ?case by (subst strlen_loop.simps) (auto simp: algebra_simps)
qed

lemma strlen_cstr: "cstr m s xs \<Longrightarrow> s \<noteq> 0 \<Longrightarrow> strlen m s = Some (length xs)"
  using strlen_loop_cstr [of m s 0 xs] by (simp add: strlen_def)

lemma strcmp_loop_cstr:
  assumes "cstr m a xs" and "cstr m b ys"
  shows "\<exists>r. strcmp_loop m a b = Some r \<and> (r = 0 \<longleftrightarrow> xs = ys) \<and>
             (r < 0 \<longleftrightarrow> ord_class.lexordp xs ys)"
  using assms
proof (induction xs arbitrary: a b ys)
  case Nil
  show ?case
  proof (cases ys)
    case Nil
    with Nil.prems \<open>cstr m a []\<close> show ?thesis by (subst strcmp_loop.simps) simp
  next
    case (Cons y ys')
    with Nil.prems have "m a = 0" "m b = y" "y \<noteq> 0" by auto
    moreover have "0 < uint y" using \<open>y \<noteq> 0\<close> by (metis uint_0_iff uint_ge_0 order_le_less)
    ultimately show ?thesis using Cons by (subst strcmp_loop.simps) auto
  qed
next
  case (Cons x xs)
  note IH = Cons.IH and prems = Cons.prems
  show ?case
  proof (cases ys)
    case Nil
    with prems have "m a = x" "m b = 0" "x \<noteq> 0" by auto
    then show ?thesis using Nil by (subst strcmp_loop.simps) (auto simp: uint_0_iff not_less)
  next
    case (Cons y ys')
    with prems have m: "m a = x" "m b = y" "x \<noteq> 0" and tl: "cstr m (a + 1) xs" "cstr m (b + 1) ys'"
      by auto
    show ?thesis
    proof (cases "x = y")
      case True
      with IH [OF tl] m Cons show ?thesis by (subst strcmp_loop.simps) auto
    next
      case False
      with m Cons show ?thesis by (subst strcmp_loop.simps) (auto simp: word_nat)
    qed
  qed
qed

lemma strncmp_loop_zero:
  "strncmp_loop m a b i k = 0 \<longleftrightarrow>
     (\<forall>j < k. m (a + i + j) = m (b + i + j) \<or> (\<exists>l < j. m (a + i + l) = 0 \<and> m (b + i + l) = 0))"
proof (induction k arbitrary: i)
  case 0
  then show ?case by simp
next
  case (Suc k)
  show ?case
  proof (cases "m (a + i) = m (b + i) \<and> m (a + i) \<noteq> 0")
    case True
    have ex: "(\<exists>l < Suc j. P l) \<longleftrightarrow> P 0 \<or> (\<exists>l < j. P (Suc l))" for P and j
      by (auto simp: less_Suc_eq_0_disj)
    show ?thesis
      using True Suc.IH [of "Suc i"] by (simp add: Let_def All_less_Suc2 ex)
  next
    case False
    then show ?thesis
      by (auto simp: Let_def less_Suc_eq_0_disj)
  qed
qed

lemma strcpy_loop_cstr:
  assumes "cstr m s xs" and "d + length xs < s \<or> s + length xs < d"
  shows "\<exists>m'. strcpy_loop m d s = Some m' \<and> cstr m' d xs \<and>
              (\<forall>a. a < d \<or> d + length xs < a \<longrightarrow> m' a = m a)"
  using assms
proof (induction xs arbitrary: m d s)
  case Nil
  then show ?case by (subst strcpy_loop.simps) auto
next
  case (Cons x xs)
  let ?m = "m(d := x)"
  have m: "m s = x" "x \<noteq> 0" and tl: "cstr m (s + 1) xs" using Cons.prems by auto
  have "cstr ?m (s + 1) xs"
    using tl Cons.prems(2) by (rule_tac cstr_unchanged [OF tl]) auto
  moreover have "d + 1 + length xs < s + 1 \<or> s + 1 + length xs < d + 1"
    using Cons.prems(2) by auto
  ultimately obtain m' where m': "strcpy_loop ?m (d + 1) (s + 1) = Some m'" "cstr m' (d + 1) xs"
      "\<And>a. a < d + 1 \<or> d + 1 + length xs < a \<Longrightarrow> m' a = ?m a"
    using Cons.IH [of ?m "s + 1" "d + 1"] by blast
  have "m' d = x" using m'(3) [of d] by simp
  with m m' show ?case by (subst strcpy_loop.simps) (auto simp: fun_upd_def)
qed

lemma strncpy_loop_eq:
  assumes "cstr m (src + i) xs" and "dest + i + k \<le> src + i \<or> src + i + length xs < dest + i"
  shows "strncpy_loop m dest src i k a =
     (if dest + i \<le> a \<and> a < dest + i + k
      then (if a - (dest + i) < length xs then xs ! (a - (dest + i)) else 0) else m a)"
  using assms
proof (induction k arbitrary: i m xs)
  case 0
  then show ?case by auto
next
  case (Suc k)
  show ?case
  proof (cases xs)
    case Nil
    with Suc.prems show ?thesis by (auto simp: set_up_eq)
  next
    case (Cons x ys)
    let ?m = "m(dest + i := x)"
    have mx: "m (src + i) = x" "x \<noteq> 0" and tl: "cstr m (src + Suc i) ys"
      using Suc.prems(1) Cons by auto
    have tl': "cstr ?m (src + Suc i) ys"
      using Suc.prems(2) Cons by (intro cstr_unchanged [OF tl]) auto
    have "dest + Suc i + k \<le> src + Suc i \<or> src + Suc i + length ys < dest + Suc i"
      using Suc.prems(2) Cons by auto
    note ih = Suc.IH [OF tl' this]
    have eq: "strncpy_loop m dest src i (Suc k) = strncpy_loop ?m dest src (Suc i) k"
      using mx by simp
    have "a - (dest + i) = Suc (a - (dest + Suc i))" if "dest + i < a"
      using that by simp
    then show ?thesis
      unfolding eq ih Cons by (auto simp: not_less_eq_eq le_eq_less_or_eq)
  qed
qed

lemma strchr_loop_cstr:
  assumes "cstr m s xs"
  shows "strchr_loop m s ch =
    Some (if ch = 0 then s + length xs
          else case find_slot (\<lambda>x. x = ch) xs of None \<Rightarrow> 0 | Some i \<Rightarrow> s + i)"
  using assms
proof (induction xs arbitrary: s)
  case Nil
  then show ?case by (subst strchr_loop.simps) auto
next
  case (Cons x xs)
  then show ?case
    by (subst strchr_loop.simps) (auto split: option.splits)
qed

lemma strrchr_loop_cstr:
  assumes "cstr m s xs" and "ch \<noteq> 0"
  shows "strrchr_loop m s ch lst =
    Some (case find_slot (\<lambda>x. x = ch) (rev xs) of None \<Rightarrow> lst | Some i \<Rightarrow> s + length xs - 1 - i)"
  using assms
proof (induction xs arbitrary: s lst)
  case Nil
  then show ?case by (subst strrchr_loop.simps) auto
next
  case (Cons x xs)
  have app: "find_slot P (zs @ [z]) =
      (case find_slot P zs of Some i \<Rightarrow> Some i | None \<Rightarrow> if P z then Some (length zs) else None)"
    for P and zs :: "u8 list" and z
    by (induction zs) (auto split: option.splits)
  have "strrchr_loop m s ch lst = strrchr_loop m (s + 1) ch (if x = ch then s else lst)"
    using Cons.prems by (subst strrchr_loop.simps) auto
  also have "\<dots> = Some (case find_slot (\<lambda>x. x = ch) (rev xs) of
      None \<Rightarrow> (if x = ch then s else lst) | Some i \<Rightarrow> s + 1 + length xs - 1 - i)"
    using Cons.IH [of "s + 1"] Cons.prems by simp
  finally show ?case by (auto simp: app split: option.splits)
qed

lemma strstr_match_cstr:
  assumes "cstr m a xs" and "cstr m b ys"
  shows "strstr_match m a b = Some (take (length ys) xs = ys)"
  using assms
proof (induction ys arbitrary: a b xs)
  case Nil
  then show ?case by (subst strstr_match.simps) simp
next
  case (Cons y ys)
  then show ?case
    by (cases xs) (subst strstr_match.simps, auto)+
qed

lemma strstr_loop_cstr:
  assumes "cstr m h xs" and "cstr m needle ys" and "ys \<noteq> []"
  shows "strstr_loop m h needle =
    Some (case find_slot (\<lambda>i. take (length ys) (drop i xs) = ys) [0..<length xs] of
            None \<Rightarrow> 0 | Some i \<Rightarrow> h + i)"
  using assms
proof (induction xs arbitrary: h)
  case Nil
  then show ?case by (subst strstr_loop.simps) simp
next
  case (Cons x xs)
  have upt: "[0..<Suc (length xs)] = 0 # map Suc [0..<length xs]"
    by (simp add: upt_conv_Cons map_Suc_upt del: upt_Suc)
  have shift: "find_slot P (map Suc zs) = find_slot (\<lambda>i. P (Suc i)) zs" for P and zs
    by (induction zs) auto
  have "m h \<noteq> 0" "strstr_match m h needle = Some (take (length ys) (x # xs) = ys)"
    using Cons.prems strstr_match_cstr [OF Cons.prems(1,2)] by auto
  then show ?case
    using Cons.IH [of "h + 1"] Cons.prems
    by (subst strstr_loop.simps) (auto simp: upt shift simp del: upt_Suc split: option.splits)
qed

lemma is_delim_cstr: "cstr m d ds \<Longrightarrow> is_delim m c d = Some (c \<in> set ds)"
proof (induction ds arbitrary: d)
  case Nil
  then show ?case by (subst is_delim.simps) simp
next
  case (Cons y ds)
  then show ?case by (subst is_delim.simps) auto
qed

lemma strtok_skip_cstr:
  assumes "cstr m s xs" and "cstr m delim ds"
  shows "strtok_skip m s delim = Some (s + length (takeWhile (\<lambda>x. x \<in> set ds) xs))"
  using assms
proof (induction xs arbitrary: s)
  case Nil
  then show ?case by (subst strtok_skip.simps) simp
next
  case (Cons x xs)
  then show ?case by (subst strtok_skip.simps) (auto simp: is_delim_cstr)
qed

lemma strtok_scan_cstr:
  assumes "cstr m s xs" and "cstr m delim ds"
  defines "tok \<equiv> takeWhile (\<lambda>x. x \<notin> set ds) xs"
  shows "strtok_scan m s delim =
    Some (if tok = xs then (m, 0) else (m(s + length tok := 0), s + length tok + 1))"
  using assms(1,2) unfolding tok_def
proof (induction xs arbitrary: s)
  case Nil
  then show ?case by (subst strtok_scan.simps) simp
next
  case (Cons x xs)
  then show ?case by (subst strtok_scan.simps) (auto simp: is_delim_cstr)
qed

section \<open>Properties\<close>

text \<open>
  Fact: memmove copies the n source bytes as they were before the call, whatever the overlap
  of the two blocks, and writes nothing outside the destination block.
\<close>

theorem memmove_correct:
  "memmove m dest src n =
     (\<lambda>a. if dest \<le> a \<and> a < dest + n then m (src + (a - dest)) else m a)"
  by (rule ext) (rule memmove_eq)

text \<open>
  Fact: on two NUL-terminated strings strcmp returns; its result is zero exactly for equal
  strings and negative exactly when the first is smaller in the unsigned lexicographic order.
\<close>

theorem strcmp_correct:
  assumes "cstr m a xs" and "cstr m b ys" and "a \<noteq> 0" and "b \<noteq> 0"
  shows "\<exists>r. strcmp m a b = Some r \<and> (r = 0 \<longleftrightarrow> xs = ys) \<and>
             (r < 0 \<longleftrightarrow> ord_class.lexordp xs ys)"
  using strcmp_loop_cstr [OF assms(1,2)] assms(3,4) by (simp add: strcmp_def)

text \<open>
  Fact: strtok on a fresh string skips leading delimiters and returns the maximal
  delimiter-free run that follows, terminated in place, with the saved pointer just after
  the delimiter that ended it (or NULL at the end of the string); with no token left it
  returns NULL and clears the saved pointer.
\<close>

theorem strtok_correct:
  assumes "cstr m s xs" and "cstr m delim ds" and "s \<noteq> 0" and "delim \<noteq> 0"
  defines "lead \<equiv> length (takeWhile (\<lambda>x. x \<in> set ds) xs)"
  defines "rest \<equiv> dropWhile (\<lambda>x. x \<in> set ds) xs"
  defines "tok \<equiv> takeWhile (\<lambda>x. x \<notin> set ds) rest"
  shows "if rest = [] then strtok m save s delim = Some (0, m, 0)
         else \<exists>m' save'. strtok m save s delim = Some (s + lead, m', save') \<and>
                cstr m' (s + lead) tok \<and>
                (if tok = rest then save' = 0
                 else save' = s + lead + length tok + 1 \<and> cstr m' save' (drop (Suc (length tok)) rest))"
proof -
  have skip: "strtok_skip m s delim = Some (s + lead)"
    using strtok_skip_cstr [OF assms(1,2)] by (simp add: lead_def)
  have rest: "cstr m (s + lead) rest"
    using cstr_append [of m s "takeWhile (\<lambda>x. x \<in> set ds) xs" rest] assms(1)
    by (simp add: lead_def rest_def)
  note scan = strtok_scan_cstr [OF rest assms(2), folded tok_def]
  show ?thesis
  proof (cases "rest = []")
    case True
    with rest skip assms(3,4) show ?thesis by (simp add: strtok_def Let_def)
  next
    case False
    then have nz: "m (s + lead) \<noteq> 0" using rest by (cases rest) auto
    let ?m = "m(s + lead + length tok := 0)" and ?tl = "dropWhile (\<lambda>x. x \<notin> set ds) rest"
    have split: "rest = tok @ ?tl" by (simp add: tok_def)
    then have tok_cstr: "cstr ?m (s + lead) tok" using cstr_cut rest by metis
    have tail: "cstr ?m (s + lead + length tok + 1) (drop (Suc (length tok)) rest)" if "tok \<noteq> rest"
    proof -
      have "?tl \<noteq> []" using that split by (metis append_Nil2)
      then obtain y ys where tl: "?tl = y # ys" by (meson neq_Nil_conv)
      have "cstr m (s + lead + length tok) (y # ys)"
        using cstr_append rest split tl by metis
      then have "cstr m (s + lead + length tok + 1) ys" by simp
      then have "cstr ?m (s + lead + length tok + 1) ys" by (rule cstr_unchanged) auto
      moreover have "drop (Suc (length tok)) rest = ys"
        by (subst split) (simp add: tl)
      ultimately show ?thesis by simp
    qed
    show ?thesis
      using False nz skip scan assms(3,4) rest tok_cstr tail
      by (auto simp: strtok_def Let_def)
  qed
qed

text \<open>
  Witnesses: a memory image holding the strings "ab" at 1, "ac" at 4 and the delimiter
  string at 7.
\<close>

definition demo_mem :: mem where
  "demo_mem = (\<lambda>_. 0)(1 := 0x61, 2 := 0x62, 4 := 0x61, 5 := 0x63, 7 := 0x62)"

theorem strcmp_correct_witness:
  "\<exists>r. strcmp demo_mem 1 4 = Some r \<and> r < 0"
proof -
  have "cstr demo_mem 1 [0x61, 0x62]" and "cstr demo_mem 4 [0x61, 0x63]"
    by (simp_all add: demo_mem_def)
  from strcmp_correct [OF this] show ?thesis by auto
qed

theorem strtok_correct_witness:
  "\<exists>m'. strtok demo_mem 0 1 7 = Some (1, m', 3) \<and> cstr m' 1 [0x61]"
proof -
  have "cstr demo_mem 1 [0x61, 0x62]" and "cstr demo_mem 7 [0x62]"
    by (simp_all add: demo_mem_def)
  from strtok_correct [OF this, of 0] show ?thesis by auto
qed

end
