(* ===== verification/KHeap.thy ===== *)
theory KHeap
  imports KString
begin

text \<open>
  The kernel heap, src/kernel/heap.cpp: a first-fit allocator over a static arena of
  HEAP_SIZE bytes. The linked list of block headers is the list of its blocks in link
  order; a block's address and a pointer are offsets into \<^verbatim>\<open>heap_arena\<close>, and NULL is None.
  Payload bytes live in \<open>hmem\<close>. On the 32-bit target \<^verbatim>\<open>sizeof(heap_block)\<close> is 12. Passing
  free or realloc a pointer that no header precedes is undefined behaviour: result None.
\<close>

definition HEAP_SIZE :: nat where "HEAP_SIZE = 512 * 1024"

abbreviation (input) HEAP_ALIGN :: nat where "HEAP_ALIGN \<equiv> 8"

abbreviation (input) HDR :: nat where "HDR \<equiv> 12"

abbreviation (input) GUARD :: nat where "GUARD \<equiv> 100000"

record heap_block =
  baddr :: nat
  bsize :: nat
  bfree :: bool

record heap =
  ready :: bool
  blocks :: "heap_block list"
  hmem :: mem

definition align_up :: "nat \<Rightarrow> nat" where
  "align_up n = (n + (HEAP_ALIGN - 1)) mod 2 ^ 32 div HEAP_ALIGN * HEAP_ALIGN"

definition heap_init :: "heap \<Rightarrow> heap" where
  "heap_init h =
     (if ready h then h
      else h\<lparr>blocks := [\<lparr>baddr = 0, bsize = HEAP_SIZE - HDR, bfree = True\<rparr>], ready := True\<rparr>)"

fun heap_coalesce :: "nat \<Rightarrow> heap_block list \<Rightarrow> heap_block list" where
  "heap_coalesce guard (cur # nxt # rest) =
     (if guard + 1 > GUARD then cur # nxt # rest
      else if bfree cur \<and> bfree nxt
      then heap_coalesce (guard + 1) (cur\<lparr>bsize := bsize cur + HDR + bsize nxt\<rparr> # rest)
      else cur # heap_coalesce (guard + 1) (nxt # rest))"
| "heap_coalesce guard bs = bs"

text \<open>The first-fit scan: the new block list and the payload pointer.\<close>

fun malloc_scan :: "nat \<Rightarrow> nat \<Rightarrow> heap_block list \<Rightarrow> (heap_block list \<times> nat) option" where
  "malloc_scan guard sz [] = None"
| "malloc_scan guard sz (cur # rest) =
     (if guard + 1 > GUARD then None
      else if bfree cur \<and> sz \<le> bsize cur then
        (let remain = bsize cur - sz in
         if remain > HDR + HEAP_ALIGN
         then Some (cur\<lparr>bsize := sz, bfree := False\<rparr>
                    # \<lparr>baddr = baddr cur + HDR + sz, bsize = remain - HDR, bfree = True\<rparr> # rest,
                    baddr cur + HDR)
         else Some (cur\<lparr>bfree := False\<rparr> # rest, baddr cur + HDR))
      else map_option (\<lambda>(bs, p). (cur # bs, p)) (malloc_scan (guard + 1) sz rest))"

definition malloc :: "nat \<Rightarrow> heap \<Rightarrow> nat option \<times> heap" where
  "malloc sz h =
     (if sz = 0 then (None, h)
      else let h = heap_init h in
        if sz > HEAP_SIZE then (None, h)
        else let sz = align_up sz in
          if sz > HEAP_SIZE - HDR then (None, h)
          else case malloc_scan 0 sz (blocks h) of
                 None \<Rightarrow> (None, h)
               | Some (bs, p) \<Rightarrow> (Some p, h\<lparr>blocks := bs\<rparr>))"

abbreviation header_of :: "nat \<Rightarrow> heap_block \<Rightarrow> bool" where
  "header_of p b \<equiv> baddr b + HDR = p"

text \<open>The pointer is an offset that may lie outside the arena, where free ignores it.\<close>

definition free :: "int option \<Rightarrow> heap \<Rightarrow> heap option" where
  "free ptr h =
     (case ptr of
        None \<Rightarrow> Some h
      | Some p \<Rightarrow>
        (let h = heap_init h; blk = p - int HDR in
         if blk < 0 \<or> int HEAP_SIZE \<le> blk then Some h
         else case find_slot (header_of (nat p)) (blocks h) of
                None \<Rightarrow> None
              | Some i \<Rightarrow>
                  Some (h\<lparr>blocks := heap_coalesce 0 ((blocks h)[i := (blocks h ! i)\<lparr>bfree := True\<rparr>])\<rparr>)))"

definition calloc :: "nat \<Rightarrow> nat \<Rightarrow> heap \<Rightarrow> nat option \<times> heap" where
  "calloc nmemb sz h =
     (let total = nmemb * sz mod 2 ^ 32 in
      case malloc total h of
        (None, h) \<Rightarrow> (None, h)
      | (Some p, h) \<Rightarrow> (Some p, h\<lparr>hmem := set_up p 0 0 total (hmem h)\<rparr>))"

definition realloc :: "nat option \<Rightarrow> nat \<Rightarrow> heap \<Rightarrow> (nat option \<times> heap) option" where
  "realloc ptr sz h =
     (case ptr of
        None \<Rightarrow> Some (malloc sz h)
      | Some p \<Rightarrow>
        if sz = 0 then map_option (\<lambda>h. (None, h)) (free (Some (int p)) h)
        else case find_slot (header_of p) (blocks h) of
               None \<Rightarrow> None
             | Some i \<Rightarrow>
                 (let have = bsize (blocks h ! i) in
                  if sz \<le> have then Some (Some p, h)
                  else case malloc sz h of
                         (None, h) \<Rightarrow> Some (None, h)
                       | (Some n, h) \<Rightarrow>
                           map_option (\<lambda>h. (Some n, h))
                             (free (Some (int p)) (h\<lparr>hmem := copy_up n p 0 (min have sz) (hmem h)\<rparr>))))"

fun stats_scan :: "nat \<Rightarrow> u32 \<Rightarrow> heap_block list \<Rightarrow> u32" where
  "stats_scan guard tot [] = tot"
| "stats_scan guard tot (cur # rest) =
     (if guard + 1 > GUARD then tot
      else stats_scan (guard + 1)
             (if bfree cur then tot + (of_nat (bsize cur) + of_nat HDR) else tot) rest)"

text \<open>Result: total, used and free bytes.\<close>

definition heap_get_stats :: "heap \<Rightarrow> heap \<times> u32 \<times> u32 \<times> u32" where
  "heap_get_stats h =
     (let h = heap_init h; fr = stats_scan 0 0 (blocks h) in
      (h, of_nat HEAP_SIZE, (if fr \<le> of_nat HEAP_SIZE then of_nat HEAP_SIZE - fr else 0), fr))"

section \<open>The heap invariant\<close>

text \<open>The blocks tile the arena in address order, header after header.\<close>

fun tiles :: "nat \<Rightarrow> heap_block list \<Rightarrow> bool" where
  "tiles a [] = (a = HEAP_SIZE)"
| "tiles a (b # bs) = (baddr b = a \<and> 4 dvd bsize b \<and> tiles (a + HDR + bsize b) bs)"

definition heap_inv :: "heap \<Rightarrow> bool" where
  "heap_inv h \<longleftrightarrow> (ready h \<longrightarrow> tiles 0 (blocks h))"

text \<open>The allocated payload ranges: start and size.\<close>

definition live :: "heap_block list \<Rightarrow> (nat \<times> nat) set" where
  "live bs = {(baddr b + HDR, bsize b) | b. b \<in> set bs \<and> \<not> bfree b}"

definition heap_live :: "heap \<Rightarrow> (nat \<times> nat) set" where
  "heap_live h = (if ready h then live (blocks h) else {})"

fun no_adjacent_free :: "heap_block list \<Rightarrow> bool" where
  "no_adjacent_free (a # b # bs) = (\<not> (bfree a \<and> bfree b) \<and> no_adjacent_free (b # bs))"
| "no_adjacent_free bs = True"

lemma live_Cons [simp]:
  "live (b # bs) = (if bfree b then live bs else insert (baddr b + HDR, bsize b) (live bs))"
  by (auto simp: live_def)

lemma live_Nil [simp]: "live [] = {}"
  by (simp add: live_def)

lemma tiles_bound: "tiles a bs \<Longrightarrow> a + HDR * length bs \<le> HEAP_SIZE"
  by (induction bs arbitrary: a) fastforce+

lemma tiles_guard: "tiles a bs \<Longrightarrow> length bs < GUARD"
  using tiles_bound [of a bs] by (simp add: HEAP_SIZE_def)

lemma tiles_live:
  "tiles a bs \<Longrightarrow> (p, n) \<in> live bs \<Longrightarrow> a + HDR \<le> p \<and> p + n \<le> HEAP_SIZE"
proof (induction bs arbitrary: a)
  case Nil
  then show ?case by simp
next
  case (Cons b bs)
  have "a + HDR + bsize b \<le> HEAP_SIZE" using Cons.prems tiles_bound [of _ bs] by fastforce
  then show ?case using Cons.prems Cons.IH [of "a + HDR + bsize b"] by (auto split: if_splits)
qed

lemma align_up_ge:
  assumes "sz \<le> HEAP_SIZE"
  shows "sz \<le> align_up sz \<and> align_up sz < sz + 8 \<and> 8 dvd align_up sz"
proof -
  have "sz + 7 < 2 ^ 32" using assms by (simp add: HEAP_SIZE_def)
  then have "align_up sz = (sz + 7) div 8 * 8" by (simp add: align_up_def)
  then show ?thesis by (simp add: algebra_simps) presburger
qed

fun chain :: "nat \<Rightarrow> heap_block list \<Rightarrow> bool" where
  "chain a [] = True"
| "chain a (b # bs) = (baddr b = a \<and> 4 dvd bsize b \<and> chain (a + HDR + bsize b) bs)"

fun span :: "heap_block list \<Rightarrow> nat" where
  "span [] = 0"
| "span (b # bs) = HDR + bsize b + span bs"

lemma tiles_append: "tiles a (xs @ ys) \<longleftrightarrow> chain a xs \<and> tiles (a + span xs) ys"
  by (induction xs arbitrary: a) (auto simp: algebra_simps)

lemma live_append [simp]: "live (xs @ ys) = live xs \<union> live ys"
  by (auto simp: live_def)

lemma chain_live: "chain a xs \<Longrightarrow> (p, n) \<in> live xs \<Longrightarrow> a + HDR \<le> p \<and> p + n \<le> a + span xs"
  by (induction xs arbitrary: a) (fastforce split: if_splits)+

lemma chain_header: "chain a xs \<Longrightarrow> b \<in> set xs \<Longrightarrow> a \<le> baddr b \<and> baddr b < a + span xs"
  by (induction xs arbitrary: a) fastforce+

lemma live_split:
  assumes "(p, n) \<in> live bs"
  obtains xs b ys where "bs = xs @ b # ys" "\<not> bfree b" "p = baddr b + HDR" "n = bsize b"
  using assms unfolding live_def by (auto dest: split_list)

lemma tiles_disjoint:
  assumes "tiles a bs" "(p, n) \<in> live bs" "(q, k) \<in> live bs"
  shows "(p, n) = (q, k) \<or> p + n \<le> q \<or> q + k \<le> p"
  using assms
proof (induction bs arbitrary: a)
  case Nil
  then show ?case by simp
next
  case (Cons b bs)
  have lower: "a + HDR + bsize b \<le> r" if "(r, l) \<in> live bs" for r l
    using Cons.prems(1) tiles_live [OF _ that] by fastforce
  show ?case
    using Cons.prems Cons.IH [of "a + HDR + bsize b"] lower by (auto split: if_splits)
qed

lemma tiles_find_header:
  assumes "tiles a (xs @ b # ys)"
  shows "find_slot (header_of (baddr b + HDR)) (xs @ b # ys) = Some (length xs)"
proof -
  have "baddr x \<noteq> baddr b" if "x \<in> set xs" for x
    using assms that chain_header [of a xs x] by (auto simp: tiles_append)
  then have "\<not> header_of (baddr b + HDR) ((xs @ b # ys) ! j)" if "j < length xs" for j
    using that by (auto simp: nth_append)
  then show ?thesis by (auto simp: find_slot_Some nth_append)
qed

lemma tiles_notin_live:
  assumes "tiles a (xs @ b # ys)"
  shows "(baddr b + HDR, n) \<notin> live xs \<union> live ys"
proof -
  have "chain a xs" and b: "baddr b = a + span xs" and ys: "tiles (a + span xs + HDR + bsize b) ys"
    using assms by (auto simp: tiles_append algebra_simps)
  then have "(baddr b + HDR, n) \<notin> live xs"
    using chain_live [of a xs "baddr b + HDR" n] by auto
  moreover have "(baddr b + HDR, n) \<notin> live ys"
    using tiles_live [OF ys, of "baddr b + HDR" n] b by auto
  ultimately show ?thesis by simp
qed

section \<open>Allocation\<close>

text \<open>What the scan puts in place of the block it takes.\<close>

definition carve :: "nat \<Rightarrow> heap_block \<Rightarrow> heap_block list" where
  "carve sz b =
     (if bsize b - sz > HDR + HEAP_ALIGN
      then [b\<lparr>bsize := sz, bfree := False\<rparr>,
            \<lparr>baddr = baddr b + HDR + sz, bsize = bsize b - sz - HDR, bfree = True\<rparr>]
      else [b\<lparr>bfree := False\<rparr>])"

lemma malloc_scan_decomp:
  assumes "malloc_scan g sz bs = Some (bs', p)"
  shows "\<exists>xs b ys. bs = xs @ b # ys \<and> bfree b \<and> sz \<le> bsize b \<and>
           (\<forall>x \<in> set xs. \<not> (bfree x \<and> sz \<le> bsize x)) \<and>
           p = baddr b + HDR \<and> bs' = xs @ carve sz b @ ys"
  using assms
proof (induction g sz bs arbitrary: bs' rule: malloc_scan.induct)
  case (1 guard sz)
  then show ?case by simp
next
  case (2 guard sz cur rest)
  show ?case
  proof (cases "bfree cur \<and> sz \<le> bsize cur")
    case True
    then show ?thesis
      using "2.prems" by (intro exI [of _ "[]"]) (auto simp: carve_def Let_def split: if_splits)
  next
    case False
    with "2.prems" obtain cs where cs: "malloc_scan (guard + 1) sz rest = Some (cs, p)"
        and bs': "bs' = cur # cs" and g: "\<not> guard + 1 > GUARD"
      by (auto split: if_splits)
    from "2.IH" [OF g False cs] obtain xs b ys where
      "rest = xs @ b # ys" "bfree b" "sz \<le> bsize b" "\<forall>x \<in> set xs. \<not> (bfree x \<and> sz \<le> bsize x)"
      "p = baddr b + HDR" "cs = xs @ carve sz b @ ys" by blast
    then show ?thesis using False bs' by (intro exI [of _ "cur # xs"]) auto
  qed
qed

lemma malloc_scan_None:
  assumes "g + length bs \<le> GUARD"
  shows "malloc_scan g sz bs = None \<longleftrightarrow> (\<forall>b \<in> set bs. \<not> (bfree b \<and> sz \<le> bsize b))"
  using assms by (induction g sz bs rule: malloc_scan.induct) (auto simp: Let_def)

lemma tiles_carve:
  assumes "tiles a (xs @ b # ys)" and "sz \<le> bsize b" and "4 dvd sz"
  shows "tiles a (xs @ carve sz b @ ys)"
  using assms by (auto simp: tiles_append carve_def algebra_simps)

lemma live_carve:
  assumes "bfree b" and "sz \<le> bsize b"
  obtains n where "sz \<le> n" "live (xs @ carve sz b @ ys) = insert (baddr b + HDR, n) (live (xs @ b # ys))"
  using assms by (cases "bsize b - sz > HDR + HEAP_ALIGN") (auto simp: carve_def)

lemma malloc_scan_sound:
  assumes "malloc_scan g sz bs = Some (bs', p)" and "tiles a bs" and "4 dvd sz"
  shows "tiles a bs' \<and> (\<exists>n \<ge> sz. live bs' = insert (p, n) (live bs) \<and> (p, n) \<notin> live bs)"
proof -
  from malloc_scan_decomp [OF assms(1)] obtain xs b ys where d:
    "bs = xs @ b # ys" "bfree b" "sz \<le> bsize b" "p = baddr b + HDR" "bs' = xs @ carve sz b @ ys"
    by blast
  obtain n where n: "sz \<le> n" "live bs' = insert (p, n) (live bs)"
    using live_carve [OF d(2,3)] d by metis
  have "tiles a bs'" using tiles_carve assms(2,3) d by blast
  moreover have "(p, n) \<notin> live bs"
    using tiles_notin_live [of a xs b ys n] assms(2) d by simp
  ultimately show ?thesis using n by blast
qed

lemma heap_init_inv: "heap_inv h \<Longrightarrow> heap_inv (heap_init h) \<and> ready (heap_init h)"
  by (simp add: heap_inv_def heap_init_def HEAP_SIZE_def)

lemma heap_init_live: "live (blocks (heap_init h)) = heap_live h"
  by (simp add: heap_init_def heap_live_def)

section \<open>Coalescing and release\<close>

lemma heap_coalesce_tiles: "tiles a bs \<Longrightarrow> tiles a (heap_coalesce g bs)"
  by (induction g bs arbitrary: a rule: heap_coalesce.induct) (auto simp: algebra_simps)

lemma heap_coalesce_live: "live (heap_coalesce g bs) = live bs"
  by (induction g bs rule: heap_coalesce.induct) auto

lemma heap_coalesce_hd:
  "\<exists>b' bs'. heap_coalesce g (b # bs) = b' # bs' \<and> bfree b' = bfree b"
proof (induction "length bs" arbitrary: g b bs)
  case 0
  then show ?case by simp
next
  case (Suc k)
  then obtain c cs where bs: "bs = c # cs" by (cases bs) auto
  with Suc.hyps(1) [of cs "g + 1" "b\<lparr>bsize := bsize b + HDR + bsize c\<rparr>"] Suc.hyps(2)
  show ?case by auto
qed

lemma heap_coalesce_no_adjacent:
  assumes "g + length bs \<le> GUARD"
  shows "no_adjacent_free (heap_coalesce g bs)"
  using assms
proof (induction g bs rule: heap_coalesce.induct)
  case (1 g cur nxt rest)
  show ?case
  proof (cases "bfree cur \<and> bfree nxt")
    case True
    with 1 show ?thesis by simp
  next
    case False
    obtain b' bs' where "heap_coalesce (g + 1) (nxt # rest) = b' # bs'" "bfree b' = bfree nxt"
      using heap_coalesce_hd by blast
    with 1 False show ?thesis by auto
  qed
qed auto

lemma heap_coalesce_id: "no_adjacent_free bs \<Longrightarrow> heap_coalesce g bs = bs"
  by (induction g bs rule: heap_coalesce.induct) auto

lemma heap_coalesce_merge:
  assumes "bfree b" "bfree c" "g + length xs < GUARD"
    and "no_adjacent_free (xs @ b\<lparr>bsize := bsize b + HDR + bsize c\<rparr> # ys)"
  shows "heap_coalesce g (xs @ b # c # ys) = xs @ b\<lparr>bsize := bsize b + HDR + bsize c\<rparr> # ys"
  using assms
proof (induction xs arbitrary: g)
  case Nil
  then show ?case by (simp add: heap_coalesce_id)
next
  case (Cons x xs)
  show ?case
  proof (cases xs)
    case Nil
    with Cons show ?thesis by (simp add: heap_coalesce_id)
  next
    case (Cons y zs)
    with Cons.IH [of "g + 1"] Cons.prems show ?thesis by auto
  qed
qed

lemma heap_live_free_one:
  assumes "tiles a (xs @ b # ys)"
  shows "live (xs @ b\<lparr>bfree := True\<rparr> # ys) = live (xs @ b # ys) - {(baddr b + HDR, bsize b)}"
  using tiles_notin_live [OF assms, of "bsize b"] by auto

lemma free_live_eq:
  assumes "heap_inv h" and "ready h" and "blocks h = xs @ b # ys"
  shows "free (Some (int (baddr b + HDR))) h =
           Some (h\<lparr>blocks := heap_coalesce 0 (xs @ b\<lparr>bfree := True\<rparr> # ys)\<rparr>)"
proof -
  have t: "tiles 0 (xs @ b # ys)" using assms by (simp add: heap_inv_def)
  then have "baddr b < HEAP_SIZE"
    using tiles_bound [of "baddr b" "b # ys"] by (auto simp: tiles_append)
  moreover have "nat (int (baddr b + HDR)) = baddr b + HDR" by simp
  ultimately show ?thesis
    using tiles_find_header [OF t] assms(2,3)
    by (simp add: free_def heap_init_def Let_def list_update_append nth_append nat_add_distrib)
qed

lemma tiles_aligned: "tiles a bs \<Longrightarrow> 4 dvd a \<Longrightarrow> (p, n) \<in> live bs \<Longrightarrow> 4 dvd p"
proof (induction bs arbitrary: a)
  case Nil
  then show ?case by simp
next
  case (Cons b bs)
  have "4 dvd a + HDR + bsize b" "4 dvd a + HDR" using Cons.prems by auto
  with Cons show ?case by (auto split: if_splits)
qed

lemma malloc_sound:
  assumes "heap_inv h" and "malloc sz h = (Some p, h')"
  shows "heap_inv h' \<and>
         4 dvd p \<and> (\<exists>n \<ge> sz. p + n \<le> HEAP_SIZE \<and> heap_live h' = insert (p, n) (heap_live h) \<and>
            (\<forall>(q, k) \<in> heap_live h. p + n \<le> q \<or> q + k \<le> p))"
proof -
  let ?h = "heap_init h"
  have inv: "tiles 0 (blocks ?h)" and rdy: "ready ?h"
    using heap_init_inv [OF assms(1)] by (auto simp: heap_inv_def)
  from assms(2) obtain bs where le: "sz \<le> HEAP_SIZE"
      and scan: "malloc_scan 0 (align_up sz) (blocks ?h) = Some (bs, p)" and h': "h' = ?h\<lparr>blocks := bs\<rparr>"
    by (auto simp: malloc_def Let_def split: if_splits option.splits)
  note al = align_up_ge [OF le]
  have "4 dvd align_up sz" using al by presburger
  from malloc_scan_sound [OF scan inv this] obtain n where n: "align_up sz \<le> n"
      "live bs = insert (p, n) (heap_live h)" "(p, n) \<notin> heap_live h" and t: "tiles 0 bs"
    by (auto simp: heap_init_live)
  have "p + n \<le> HEAP_SIZE" using tiles_live [OF t, of p n] n by auto
  moreover have "\<forall>(q, k) \<in> heap_live h. p + n \<le> q \<or> q + k \<le> p"
    using tiles_disjoint [OF t, of p n] n by blast
  moreover have "4 dvd p" using tiles_aligned [OF t, of p n] n by simp
  ultimately show ?thesis
    using h' t rdy n al by (auto simp: heap_inv_def heap_live_def intro!: exI [of _ n])
qed

lemma free_sound:
  assumes "heap_inv h" and "(p, n) \<in> heap_live h"
  shows "\<exists>h'. free (Some (int p)) h = Some h' \<and> heap_inv h' \<and>
              heap_live h' = heap_live h - {(p, n)} \<and> no_adjacent_free (blocks h') \<and>
              hmem h' = hmem h"
proof -
  have rdy: "ready h" and lv: "(p, n) \<in> live (blocks h)"
    using assms(2) by (auto simp: heap_live_def split: if_splits)
  from live_split [OF lv] obtain xs b ys where d: "blocks h = xs @ b # ys" "p = baddr b + HDR" "n = bsize b"
    by metis
  have t: "tiles 0 (xs @ b # ys)" using assms(1) rdy d by (simp add: heap_inv_def)
  then have t': "tiles 0 (xs @ b\<lparr>bfree := True\<rparr> # ys)" by (simp add: tiles_append)
  note eq = free_live_eq [OF assms(1) rdy d(1)]
  have "length (xs @ b\<lparr>bfree := True\<rparr> # ys) \<le> GUARD" using tiles_guard [OF t'] by simp
  then have "no_adjacent_free (heap_coalesce 0 (xs @ b\<lparr>bfree := True\<rparr> # ys))"
    by (intro heap_coalesce_no_adjacent) simp
  then show ?thesis
    using eq d rdy heap_coalesce_tiles [OF t'] heap_live_free_one [OF t]
    by (auto simp: heap_inv_def heap_live_def heap_coalesce_live)
qed

section \<open>Statistics\<close>

definition free_bytes :: "heap_block list \<Rightarrow> nat" where
  "free_bytes bs = span (filter bfree bs)"

lemma span_filter: "span (filter P bs) + span (filter (\<lambda>b. \<not> P b) bs) = span bs"
  by (induction bs) auto

lemma tiles_span: "tiles a bs \<Longrightarrow> a + span bs = HEAP_SIZE"
proof (induction bs arbitrary: a)
  case Nil
  then show ?case by simp
next
  case (Cons b bs)
  have "a + HDR + bsize b + span bs = HEAP_SIZE" using Cons.prems by (intro Cons.IH) simp
  then show ?case by simp
qed

lemma stats_scan_unat:
  assumes "g + length bs \<le> GUARD" and "unat tot + span bs < 2 ^ 32"
  shows "unat (stats_scan g tot bs) = unat tot + free_bytes bs"
  using assms
proof (induction g tot bs rule: stats_scan.induct)
  case (1 g tot)
  then show ?case by (simp add: free_bytes_def)
next
  case (2 g tot cur rest)
  have "unat (tot + (of_nat (bsize cur) + of_nat HDR)) = unat tot + (bsize cur + HDR)"
    using "2.prems"(2) by (simp add: unat_word_ariths unat_of_nat)
  with 2 show ?case by (auto simp: free_bytes_def)
qed

section \<open>Properties\<close>


lemma malloc_None_iff:
  assumes "heap_inv h" and "0 < sz" and "sz \<le> HEAP_SIZE - HDR - HEAP_ALIGN"
  shows "fst (malloc sz h) = None \<longleftrightarrow>
         (\<forall>b \<in> set (blocks (heap_init h)). bfree b \<longrightarrow> bsize b < align_up sz)"
proof -
  have t: "tiles 0 (blocks (heap_init h))"
    using heap_init_inv [OF assms(1)] by (auto simp: heap_inv_def)
  have "sz \<le> HEAP_SIZE" "align_up sz \<le> HEAP_SIZE - HDR"
    using assms(3) align_up_ge [of sz] by (auto simp: HEAP_SIZE_def)
  then have "fst (malloc sz h) = None \<longleftrightarrow> malloc_scan 0 (align_up sz) (blocks (heap_init h)) = None"
    using assms(2) by (auto simp: malloc_def Let_def split: option.splits)
  then show ?thesis
    using malloc_scan_None [of 0 "blocks (heap_init h)" "align_up sz"] tiles_guard [OF t]
    by (auto simp: not_le)
qed

text \<open>
  Fact: malloc is a complete first-fit: for a request of positive size it returns NULL only
  when no free block is large enough for the aligned size (the corruption guard never fires).
\<close>

theorem malloc_complete:
  assumes "heap_inv h" and "0 < sz" and "sz \<le> HEAP_SIZE - HDR - HEAP_ALIGN"
  shows "fst (malloc sz h) = None \<longleftrightarrow>
         (\<forall>b \<in> set (blocks (heap_init h)). bfree b \<longrightarrow> bsize b < align_up sz)"
  by (rule malloc_None_iff [OF assms])

text \<open>
  C7: freeing an allocated range succeeds, removes exactly that range from the allocated
  ones, keeps the invariant and leaves no two adjacent free blocks.
\<close>

theorem free_correct:
  assumes "heap_inv h" and "(p, n) \<in> heap_live h"
  shows "\<exists>h'. free (Some (int p)) h = Some h' \<and> heap_inv h' \<and>
              heap_live h' = heap_live h - {(p, n)} \<and> no_adjacent_free (blocks h')"
  using free_sound [OF assms] by blast

lemma malloc_free_id:
  assumes "heap_inv h" and "ready h" and "no_adjacent_free (blocks h)"
    and "malloc sz h = (Some p, h')"
  shows "free (Some (int p)) h' = Some h"
proof -
  have h0: "heap_init h = h" using assms(2) by (simp add: heap_init_def)
  from assms(4) h0 obtain bs where le: "sz \<le> HEAP_SIZE"
      and scan: "malloc_scan 0 (align_up sz) (blocks h) = Some (bs, p)" and h': "h' = h\<lparr>blocks := bs\<rparr>"
    by (auto simp: malloc_def Let_def split: if_splits option.splits)
  from malloc_scan_decomp [OF scan] obtain xs b ys where d: "blocks h = xs @ b # ys" "bfree b"
      "align_up sz \<le> bsize b" "p = baddr b + HDR" "bs = xs @ carve (align_up sz) b @ ys" by blast
  have inv': "heap_inv h'" using malloc_sound [OF assms(1,4)] by blast
  have g: "length xs < GUARD"
    using tiles_guard [of 0 "blocks h"] assms(1,2) d by (simp add: heap_inv_def)
  obtain u rest where u: "carve (align_up sz) b = u # rest" "baddr u = baddr b"
    by (cases "bsize b - align_up sz > HDR + HEAP_ALIGN") (auto simp: carve_def)
  have "blocks h' = xs @ u # (rest @ ys)" and "ready h'" using h' d u assms(2) by auto
  note eq = free_live_eq [OF inv' this(2,1)]
  have "heap_coalesce 0 (xs @ u\<lparr>bfree := True\<rparr> # rest @ ys) = xs @ b # ys"
  proof (cases "bsize b - align_up sz > HDR + HEAP_ALIGN")
    case True
    let ?b = "b\<lparr>bsize := align_up sz\<rparr>"
      and ?c = "\<lparr>baddr = baddr b + HDR + align_up sz, bsize = bsize b - align_up sz - HDR, bfree = True\<rparr>"
    have m: "?b\<lparr>bsize := bsize ?b + HDR + bsize ?c\<rparr> = b" using True by simp
    have "u\<lparr>bfree := True\<rparr> = ?b" "rest = [?c]" using True u(1) d(2) by (auto simp: carve_def)
    then show ?thesis
      using heap_coalesce_merge [of ?b ?c 0 xs ys] g d(1,2) assms(3) m by simp
  next
    case False
    then have "u\<lparr>bfree := True\<rparr> = b" "rest = []" using u(1) d(2) by (auto simp: carve_def)
    then show ?thesis using heap_coalesce_id assms(3) d(1) by simp
  qed
  then show ?thesis using eq h' d u(2) by simp
qed

text \<open>
  Fact: on a coalesced heap, freeing what malloc has just returned restores the block list
  exactly, whether or not malloc split a block.
\<close>

theorem malloc_free_roundtrip:
  assumes "heap_inv h" and "ready h" and "no_adjacent_free (blocks h)"
    and "malloc sz h = (Some p, h')"
  shows "free (Some (int p)) h' = Some h"
  by (rule malloc_free_id [OF assms])

text \<open>
  Fact: on a well-formed heap the statistics add up: the free total is the bytes of the free
  blocks with their headers, and used plus free is the arena size.
\<close>

theorem heap_get_stats_correct:
  assumes "heap_inv h" and "heap_get_stats h = (h', tot, used, fr)"
  shows "heap_inv h' \<and> unat tot = HEAP_SIZE \<and> unat fr = free_bytes (blocks h') \<and>
         unat used + unat fr = HEAP_SIZE"
proof -
  let ?h = "heap_init h"
  have t: "tiles 0 (blocks ?h)" and i: "heap_inv ?h"
    using heap_init_inv [OF assms(1)] by (auto simp: heap_inv_def)
  have h': "h' = ?h" and tot: "tot = of_nat HEAP_SIZE" and fr: "fr = stats_scan 0 0 (blocks ?h)"
    using assms(2) by (auto simp: heap_get_stats_def Let_def)
  have sp: "span (blocks ?h) = HEAP_SIZE" using tiles_span [OF t] by simp
  have f: "unat fr = free_bytes (blocks ?h)"
    using stats_scan_unat [of 0 "blocks ?h" 0] tiles_guard [OF t] sp fr by (simp add: HEAP_SIZE_def)
  have u: "unat (of_nat HEAP_SIZE :: u32) = HEAP_SIZE" by (simp add: HEAP_SIZE_def)
  have "free_bytes (blocks ?h) \<le> HEAP_SIZE"
    using span_filter [of bfree "blocks ?h"] sp by (simp add: free_bytes_def)
  then have le: "fr \<le> of_nat HEAP_SIZE" using f u by (simp add: word_le_nat_alt)
  then have "used = of_nat HEAP_SIZE - fr"
    using assms(2) fr h' by (auto simp: heap_get_stats_def Let_def)
  then have "unat used = HEAP_SIZE - unat fr" using le u by (simp add: unat_sub)
  then show ?thesis using f h' i tot u le by (simp add: word_le_nat_alt)
qed

text \<open>
  Fact: when nmemb * size does not overflow, calloc returns a range of at least that size
  with every byte zero.
\<close>

theorem calloc_correct:
  assumes "heap_inv h" and "nmemb * sz < 2 ^ 32" and "calloc nmemb sz h = (Some p, h')"
  shows "\<exists>n \<ge> nmemb * sz. (p, n) \<in> heap_live h' \<and> (\<forall>i < nmemb * sz. hmem h' (p + i) = 0)"
proof -
  from assms(2,3) obtain h1 where m: "malloc (nmemb * sz) h = (Some p, h1)"
      and h': "h' = h1\<lparr>hmem := set_up p 0 0 (nmemb * sz) (hmem h1)\<rparr>"
    by (auto simp: calloc_def Let_def split: prod.splits option.splits)
  from malloc_sound [OF assms(1) m] h' show ?thesis
    by (auto simp: heap_live_def set_up_eq split: if_splits)
qed

definition heap0 :: heap where
  "heap0 = \<lparr>ready = False, blocks = [], hmem = \<lambda>_. 0\<rparr>"

text \<open>
  Fact: calloc multiplies in 32 bits without an overflow check, so a request for 65537 * 65536
  bytes succeeds on a fresh heap with a range of only 65536 bytes.
\<close>

theorem calloc_overflow:
  "fst (calloc 65537 65536 heap0) = Some 12 \<and>
   heap_live (snd (calloc 65537 65536 heap0)) = {(12, 65536)} \<and> 65536 < 65537 * (65536 :: nat)"
  by (simp add: calloc_def malloc_def heap0_def heap_init_def align_up_def HEAP_SIZE_def Let_def
      heap_live_def)

text \<open>
  Fact: a realloc that moves the block copies the old contents to the new range.
\<close>

theorem realloc_preserves_contents:
  assumes "heap_inv h" and "(p, n) \<in> heap_live h" and "n < sz"
    and "realloc (Some p) sz h = Some (Some q, h')"
  shows "(\<forall>i < n. hmem h' (q + i) = hmem h (p + i)) \<and>
         (\<exists>k \<ge> sz. (q, k) \<in> heap_live h')"
proof -
  have rdy: "ready h" and lv: "(p, n) \<in> live (blocks h)"
    using assms(2) by (auto simp: heap_live_def split: if_splits)
  from live_split [OF lv] obtain xs b ys where d: "blocks h = xs @ b # ys" "p = baddr b + HDR" "n = bsize b"
    by metis
  have fs: "find_slot (header_of p) (blocks h) = Some (length xs)"
    using tiles_find_header [of 0 xs b ys] assms(1) rdy d by (simp add: heap_inv_def)
  then have "bsize (blocks h ! length xs) = n" using d by simp
  with assms(3,4) fs obtain h1 where m: "malloc sz h = (Some q, h1)"
      and fr: "free (Some (int p)) (h1\<lparr>hmem := copy_up q p 0 n (hmem h1)\<rparr>) = Some h'"
    by (auto simp: realloc_def Let_def min_def split: if_splits option.splits prod.splits)
  from malloc_sound [OF assms(1) m] obtain k where inv1: "heap_inv h1" and k: "sz \<le> k"
      "heap_live h1 = insert (q, k) (heap_live h)" "q + k \<le> p \<or> p + n \<le> q"
    using assms(2) by fastforce
  let ?h1 = "h1\<lparr>hmem := copy_up q p 0 n (hmem h1)\<rparr>"
  have inv: "heap_inv ?h1" using inv1 by (simp add: heap_inv_def)
  have live1: "heap_live ?h1 = heap_live h1" by (simp add: heap_live_def)
  have hm: "hmem h1 = hmem h"
    using m by (auto simp: malloc_def Let_def heap_init_def split: if_splits option.splits)
  from free_sound [OF inv, of p n] live1 k(2) assms(2) fr
  have "heap_live h' = heap_live h1 - {(p, n)}" "hmem h' = hmem ?h1" by auto
  then show ?thesis
    using k assms(3) hm by (auto simp: copy_up_eq)
qed

section \<open>Witnesses\<close>

definition heap1 :: heap where
  "heap1 = snd (malloc 100 heap0)"

lemma heap1_eq:
  "malloc 100 heap0 = (Some 12, heap1)"
  "heap1 = \<lparr>ready = True,
     blocks = [\<lparr>baddr = 0, bsize = 104, bfree = False\<rparr>, \<lparr>baddr = 116, bsize = 524160, bfree = True\<rparr>],
     hmem = \<lambda>_. 0\<rparr>"
  by (simp_all add: heap1_def malloc_def heap0_def heap_init_def align_up_def HEAP_SIZE_def Let_def)

lemma heap_wf_examples: "heap_inv heap0" "heap_inv heap1" "heap_live heap1 = {(12, 104)}"
  by (simp_all add: heap_inv_def heap0_def heap1_eq heap_live_def HEAP_SIZE_def)


theorem malloc_complete_witness: "fst (malloc 500000 heap1) \<noteq> None"
proof -
  have b: "(0 :: nat) < 500000" "(500000 :: nat) \<le> HEAP_SIZE - HDR - HEAP_ALIGN"
    by (simp_all add: HEAP_SIZE_def)
  have "\<not> (\<forall>b \<in> set (blocks (heap_init heap1)). bfree b \<longrightarrow> bsize b < align_up 500000)"
    by (simp add: heap1_eq(2) heap_init_def align_up_def)
  then show ?thesis using malloc_complete [OF heap_wf_examples(2) b] by blast
qed

theorem free_correct_witness:
  "\<exists>h'. free (Some 12) heap1 = Some h' \<and> heap_live h' = {}"
  using free_correct [OF heap_wf_examples(2), of 12 104] by (simp add: heap_wf_examples(3)) blast

theorem malloc_free_roundtrip_witness:
  "free (Some 128) (snd (malloc 50 heap1)) = Some heap1"
proof -
  have "malloc 50 heap1 = (Some 128, snd (malloc 50 heap1))"
    by (simp add: heap1_eq(2) malloc_def heap_init_def align_up_def HEAP_SIZE_def Let_def)
  from malloc_free_roundtrip [OF heap_wf_examples(2) _ _ this] show ?thesis
    by (simp add: heap1_eq(2))
qed

theorem heap_get_stats_correct_witness:
  "\<exists>h' tot used fr. heap_get_stats heap1 = (h', tot, used, fr) \<and> unat used + unat fr = HEAP_SIZE"
proof -
  obtain h' tot used fr where e: "heap_get_stats heap1 = (h', tot, used, fr)"
    by (metis prod.exhaust)
  from heap_get_stats_correct [OF heap_wf_examples(2) e] e show ?thesis by blast
qed

theorem calloc_correct_witness:
  "\<forall>i < 40. hmem (snd (calloc 4 10 heap0)) (12 + i) = 0"
proof -
  have "calloc 4 10 heap0 = (Some 12, snd (calloc 4 10 heap0))"
    by (simp add: calloc_def malloc_def heap0_def heap_init_def align_up_def HEAP_SIZE_def Let_def)
  from calloc_correct [OF heap_wf_examples(1) _ this] show ?thesis by auto
qed

theorem realloc_preserves_contents_witness:
  "\<exists>h'. realloc (Some 12) 200 heap1 = Some (Some 128, h') \<and> (\<exists>k \<ge> 200. (128, k) \<in> heap_live h')"
proof -
  obtain h' where e: "realloc (Some 12) 200 heap1 = Some (Some 128, h')"
    by (simp add: heap1_eq(2) realloc_def malloc_def free_def heap_init_def align_up_def
        HEAP_SIZE_def Let_def)
  from realloc_preserves_contents [OF heap_wf_examples(2) _ _ e, of 104] e show ?thesis
    by (auto simp: heap_wf_examples(3))
qed

end
