(* ===== verification/KRing.thy ===== *)
theory KRing
  imports KPrelude
begin

text \<open>
  Bounded FIFO queues. The interface \<open>bounded_fifo\<close> is what the pipe, the
  pseudo-terminal and the packet queue rely on: a push that is refused when the queue is
  full, a pop from the other end. The byte ring of src/kernel/pty.cpp (ring_push,
  ring_pop; the same index arithmetic is inlined in src/kernel/pipe.cpp) provides it.
\<close>

section \<open>The interface\<close>

text \<open>Repeated pops, at most n, as in \<^verbatim>\<open>while (i < n && pop(&out[i])) i++;\<close>.\<close>

fun drain :: "('q \<Rightarrow> ('a \<times> 'q) option) \<Rightarrow> nat \<Rightarrow> 'q \<Rightarrow> 'a list \<times> 'q" where
  "drain pop 0 q = ([], q)"
| "drain pop (Suc n) q =
     (case pop q of None \<Rightarrow> ([], q)
      | Some (x, q') \<Rightarrow> (case drain pop n q' of (xs, q'') \<Rightarrow> (x # xs, q'')))"

locale bounded_fifo =
  fixes push :: "'a \<Rightarrow> 'q \<Rightarrow> 'q"
    and pop :: "'q \<Rightarrow> ('a \<times> 'q) option"
    and contents :: "'q \<Rightarrow> 'a list"
    and cap :: nat
    and inv :: "'q \<Rightarrow> bool"
  assumes push_inv: "inv q \<Longrightarrow> inv (push x q)"
    and push_contents:
      "inv q \<Longrightarrow> contents (push x q) = (if length (contents q) < cap then contents q @ [x] else contents q)"
    and pop_None: "inv q \<Longrightarrow> pop q = None \<longleftrightarrow> contents q = []"
    and pop_Some: "inv q \<Longrightarrow> pop q = Some (x, q') \<Longrightarrow> inv q' \<and> contents q = x # contents q'"
    and contents_bound: "inv q \<Longrightarrow> length (contents q) \<le> cap"
begin

lemma fold_push:
  assumes "inv q"
  shows "inv (fold push xs q) \<and>
         contents (fold push xs q) = contents q @ take (cap - length (contents q)) xs"
  using assms
proof (induction xs arbitrary: q)
  case Nil
  then show ?case by simp
next
  case (Cons x xs)
  note ih = Cons.IH [OF push_inv [OF Cons.prems, of x]]
  show ?case
  proof (cases "length (contents q) < cap")
    case True
    then have "cap - length (contents q) = Suc (cap - Suc (length (contents q)))" by simp
    with True ih Cons.prems show ?thesis by (simp add: push_contents)
  next
    case False
    with ih Cons.prems show ?thesis by (simp add: push_contents)
  qed
qed

lemma fold_push_room:
  assumes "inv q" and "length (contents q) + length xs \<le> cap"
  shows "contents (fold push xs q) = contents q @ xs"
  using fold_push [OF assms(1), of xs] assms(2) by simp

lemma fold_push_inv: "inv q \<Longrightarrow> inv (fold push xs q)"
  using fold_push by blast

lemma pop_step:
  assumes "inv q" and "contents q = x # xs"
  obtains q' where "pop q = Some (x, q')" "inv q'" "contents q' = xs"
proof -
  obtain y q' where "pop q = Some (y, q')" using pop_None [OF assms(1)] assms(2) by auto
  with pop_Some [OF assms(1) this] assms(2) that show ?thesis by auto
qed

lemma drain_contents:
  assumes "inv q"
  shows "fst (drain pop n q) = take n (contents q) \<and> inv (snd (drain pop n q)) \<and>
         contents (snd (drain pop n q)) = drop n (contents q)"
  using assms
proof (induction n arbitrary: q)
  case 0
  then show ?case by simp
next
  case (Suc n)
  show ?case
  proof (cases "pop q")
    case None
    then have "contents q = []" using pop_None [OF Suc.prems] by simp
    with None Suc.prems show ?thesis by simp
  next
    case (Some r)
    obtain x q' where r: "r = (x, q')" by (cases r)
    with Some pop_Some Suc.prems have "inv q'" "contents q = x # contents q'" by auto
    with Suc.IH [of q'] Some r show ?thesis by (auto split: prod.splits)
  qed
qed

text \<open>First in, first out: draining as many as were pushed on an empty queue returns them in order.\<close>

lemma push_drain_fifo:
  assumes "inv q" and "contents q = []" and "length xs \<le> cap"
  shows "fst (drain pop (length xs) (fold push xs q)) = xs"
  using drain_contents [OF fold_push_inv [OF assms(1)], of "length xs" xs] fold_push_room [OF assms(1), of xs] assms
  by simp

end

section \<open>The ring buffer\<close>

record 'a ring =
  rbuf :: "'a list"
  rhead :: nat
  rtail :: nat
  rcount :: nat

definition ring_push :: "nat \<Rightarrow> 'a \<Rightarrow> 'a ring \<Rightarrow> 'a ring" where
  "ring_push n c r =
     (if rcount r \<ge> n then r
      else r\<lparr>rbuf := (rbuf r)[rhead r := c], rhead := (rhead r + 1) mod n, rcount := rcount r + 1\<rparr>)"

definition ring_pop :: "nat \<Rightarrow> 'a ring \<Rightarrow> ('a \<times> 'a ring) option" where
  "ring_pop n r =
     (if rcount r = 0 then None
      else Some (rbuf r ! rtail r, r\<lparr>rtail := (rtail r + 1) mod n, rcount := rcount r - 1\<rparr>))"

definition ring_reset :: "'a ring \<Rightarrow> 'a ring" where
  "ring_reset r = r\<lparr>rhead := 0, rtail := 0, rcount := 0\<rparr>"

definition ring_inv :: "nat \<Rightarrow> 'a ring \<Rightarrow> bool" where
  "ring_inv n r \<longleftrightarrow> 0 < n \<and> length (rbuf r) = n \<and> rtail r < n \<and> rcount r \<le> n \<and>
     rhead r = (rtail r + rcount r) mod n"

definition ring_contents :: "'a ring \<Rightarrow> 'a list" where
  "ring_contents r = map (\<lambda>i. rbuf r ! ((rtail r + i) mod length (rbuf r))) [0..<rcount r]"

lemma length_ring_contents [simp]: "length (ring_contents r) = rcount r"
  by (simp add: ring_contents_def)

lemma ring_reset_inv: "0 < n \<Longrightarrow> length (rbuf r) = n \<Longrightarrow> ring_inv n (ring_reset r)"
  by (simp add: ring_inv_def ring_reset_def)

lemma ring_contents_reset [simp]: "ring_contents (ring_reset r) = []"
  by (simp add: ring_contents_def ring_reset_def)

text \<open>Within one lap of the ring, distinct offsets are distinct slots.\<close>

lemma ring_slot_distinct:
  assumes "t < n" and "i < c" and "c < (n::nat)"
  shows "(t + i) mod n \<noteq> (t + c) mod n"
proof
  assume "(t + i) mod n = (t + c) mod n"
  then have "n dvd c - i" using assms mod_eq_dvd_iff_nat [of "t + i" "t + c" n] by simp
  then show False using assms by (auto dest: dvd_imp_le)
qed

lemma ring_push_inv: "ring_inv n r \<Longrightarrow> ring_inv n (ring_push n c r)"
  by (auto simp: ring_inv_def ring_push_def mod_Suc_eq)

lemma ring_push_contents:
  assumes "ring_inv n r"
  shows "ring_contents (ring_push n c r) =
           (if rcount r < n then ring_contents r @ [c] else ring_contents r)"
proof (cases "rcount r < n")
  case True
  let ?t = "rtail r" and ?k = "rcount r" and ?b = "rbuf r"
  have n: "length ?b = n" "?t < n" "rhead r = (?t + ?k) mod n" "0 < n"
    using assms by (auto simp: ring_inv_def)
  have old: "?b[rhead r := c] ! ((?t + i) mod n) = ?b ! ((?t + i) mod n)" if "i < ?k" for i
    using ring_slot_distinct [OF n(2) that True] n by (simp add: nth_list_update)
  have new: "?b[rhead r := c] ! ((?t + ?k) mod n) = c" using n by simp
  show ?thesis
    using True old new n(1) by (auto simp: ring_contents_def ring_push_def)
next
  case False
  then show ?thesis by (simp add: ring_push_def)
qed

lemma ring_pop_inv: "ring_inv n r \<Longrightarrow> ring_pop n r = Some (c, r') \<Longrightarrow> ring_inv n r'"
  by (cases "rcount r") (auto simp: ring_inv_def ring_pop_def mod_simps split: if_splits)

lemma ring_pop_contents:
  assumes "ring_inv n r" and "ring_pop n r = Some (c, r')"
  shows "ring_contents r = c # ring_contents r'"
proof -
  have n: "length (rbuf r) = n" "rtail r < n" and k: "rcount r \<noteq> 0"
    and r': "r' = r\<lparr>rtail := (rtail r + 1) mod n, rcount := rcount r - 1\<rparr>" and c: "c = rbuf r ! rtail r"
    using assms by (auto simp: ring_inv_def ring_pop_def split: if_splits)
  have "[0..<rcount r] = 0 # map Suc [0..<rcount r - 1]"
    using k by (simp add: upt_conv_Cons map_Suc_upt)
  then show ?thesis
    using n c by (simp add: ring_contents_def r' mod_add_left_eq comp_def)
qed

lemma ring_pop_empty: "ring_pop n r = None \<longleftrightarrow> ring_contents r = []"
  by (auto simp: ring_pop_def ring_contents_def)

interpretation rb: bounded_fifo "ring_push n" "ring_pop n" ring_contents n "ring_inv n" for n
proof
  show "ring_inv n q \<Longrightarrow> ring_inv n (ring_push n x q)" for q and x :: 'a
    by (rule ring_push_inv)
  show "ring_inv n q \<Longrightarrow> ring_contents (ring_push n x q) =
      (if length (ring_contents q) < n then ring_contents q @ [x] else ring_contents q)"
    for q and x :: 'a
    by (simp add: ring_push_contents)
  show "ring_inv n q \<Longrightarrow> (ring_pop n q = None) = (ring_contents q = [])" for q :: "'a ring"
    by (rule ring_pop_empty)
  show "ring_inv n q \<Longrightarrow> ring_pop n q = Some (x, q') \<Longrightarrow>
      ring_inv n q' \<and> ring_contents q = x # ring_contents q'" for q q' and x :: 'a
    by (simp add: ring_pop_inv ring_pop_contents)
  show "ring_inv n q \<Longrightarrow> length (ring_contents q) \<le> n" for q :: "'a ring"
    by (simp add: ring_inv_def)
qed

end
