(* ===== verification/KPipe.thy ===== *)
theory KPipe
  imports KRing
begin

text \<open>
  Kernel pipes, src/kernel/pipe.cpp. The byte ring of a pipe is a \<open>ring\<close>; the pipe table
  is the list of its KPIPE_MAX entries. A loop that calls sched_yield stops with a Blocked
  result holding the state it waits in: the code resumes the same loop in whatever state
  the other tasks leave. The interleaving of a reader's and a writer's loop iterations is
  the step relation \<open>pipe_step\<close>.
\<close>

definition KPIPE_MAX :: nat where "KPIPE_MAX = 8"

definition KPIPE_BUF :: nat where "KPIPE_BUF = 4096"

datatype 'a io = Done 'a | Blocked 'a

record kpipe =
  pused :: bool
  pring :: "u8 ring"
  readers :: nat
  writers :: nat

definition pipe_valid :: "kpipe list \<Rightarrow> int \<Rightarrow> bool" where
  "pipe_valid ps idx \<longleftrightarrow> \<not> (idx < 0 \<or> idx \<ge> int KPIPE_MAX \<or> \<not> pused (ps ! nat idx))"

definition pipe_create :: "kpipe list \<Rightarrow> int \<times> kpipe list" where
  "pipe_create ps =
     (case find_slot (\<lambda>p. \<not> pused p) ps of
        None \<Rightarrow> (-1, ps)
      | Some i \<Rightarrow> (int i, ps[i := (ps ! i)\<lparr>pused := True, pring := ring_reset (pring (ps ! i)),
                                      readers := 1, writers := 1\<rparr>]))"

fun pipe_read_loop :: "nat \<Rightarrow> nat \<Rightarrow> kpipe \<Rightarrow> (u8 list \<times> kpipe) io" where
  "pipe_read_loop i 0 p = Done ([], p)"
| "pipe_read_loop i (Suc k) p =
     (case ring_pop KPIPE_BUF (pring p) of
        None \<Rightarrow> (if i > 0 then Done ([], p) else if writers p = 0 then Done ([], p) else Blocked ([], p))
      | Some (c, r) \<Rightarrow>
          (case pipe_read_loop (i + 1) k (p\<lparr>pring := r\<rparr>) of
             Done (cs, p') \<Rightarrow> Done (c # cs, p')
           | Blocked (cs, p') \<Rightarrow> Blocked (c # cs, p')))"

definition pipe_read :: "kpipe list \<Rightarrow> int \<Rightarrow> nat \<Rightarrow> (int \<times> u8 list \<times> kpipe list) io" where
  "pipe_read ps idx n =
     (if \<not> pipe_valid ps idx then Done (-1, [], ps)
      else case pipe_read_loop 0 n (ps ! nat idx) of
             Done (cs, p) \<Rightarrow> Done (int (length cs), cs, ps[nat idx := p])
           | Blocked (cs, p) \<Rightarrow> Blocked (int (length cs), cs, ps[nat idx := p]))"

text \<open>The write loop: finished, refused because no reader is left, or waiting for room with
  the rest of the bytes.\<close>

datatype write_outcome = WDone kpipe | WFail kpipe | WBlocked "u8 list" kpipe

fun pipe_write_loop :: "u8 list \<Rightarrow> kpipe \<Rightarrow> write_outcome" where
  "pipe_write_loop [] p = WDone p"
| "pipe_write_loop (c # cs) p =
     (if readers p = 0 then WFail p
      else if rcount (pring p) = KPIPE_BUF then WBlocked (c # cs) p
      else pipe_write_loop cs (p\<lparr>pring := ring_push KPIPE_BUF c (pring p)\<rparr>))"

text \<open>Result: the return value, the bytes still to write, the table.\<close>

definition pipe_write :: "kpipe list \<Rightarrow> int \<Rightarrow> u8 list \<Rightarrow> (int \<times> u8 list \<times> kpipe list) io" where
  "pipe_write ps idx buf =
     (if \<not> pipe_valid ps idx then Done (-1, buf, ps)
      else case pipe_write_loop buf (ps ! nat idx) of
             WDone p \<Rightarrow> Done (int (length buf), [], ps[nat idx := p])
           | WFail p \<Rightarrow> Done (-1, [], ps[nat idx := p])
           | WBlocked rest p \<Rightarrow> Blocked (int (length buf - length rest), rest, ps[nat idx := p]))"

definition pipe_close :: "kpipe list \<Rightarrow> int \<Rightarrow> bool \<Rightarrow> kpipe list" where
  "pipe_close ps idx write_end =
     (if \<not> pipe_valid ps idx then ps
      else let p = ps ! nat idx;
               p = (if write_end then (if writers p > 0 then p\<lparr>writers := writers p - 1\<rparr> else p)
                    else (if readers p > 0 then p\<lparr>readers := readers p - 1\<rparr> else p));
               p = (if readers p = 0 \<and> writers p = 0 then p\<lparr>pused := False\<rparr> else p)
           in ps[nat idx := p])"

definition pipe_ref :: "kpipe list \<Rightarrow> int \<Rightarrow> bool \<Rightarrow> kpipe list" where
  "pipe_ref ps idx write_end =
     (if \<not> pipe_valid ps idx then ps
      else let p = ps ! nat idx in
        ps[nat idx := (if write_end then p\<lparr>writers := writers p + 1\<rparr>
                       else p\<lparr>readers := readers p + 1\<rparr>)])"

text \<open>One pipe, the bytes a writer has still to write and the bytes a reader has received.\<close>

inductive pipe_step :: "kpipe \<times> u8 list \<times> u8 list \<Rightarrow> kpipe \<times> u8 list \<times> u8 list \<Rightarrow> bool" where
  write_iter: "readers p \<noteq> 0 \<Longrightarrow> rcount (pring p) \<noteq> KPIPE_BUF \<Longrightarrow>
     pipe_step (p, c # w, r) (p\<lparr>pring := ring_push KPIPE_BUF c (pring p)\<rparr>, w, r)"
| read_iter: "ring_pop KPIPE_BUF (pring p) = Some (c, rg) \<Longrightarrow>
     pipe_step (p, w, r) (p\<lparr>pring := rg\<rparr>, w, r @ [c])"

section \<open>Invariants\<close>

abbreviation pinv :: "kpipe \<Rightarrow> bool" where "pinv p \<equiv> ring_inv KPIPE_BUF (pring p)"

abbreviation pdata :: "kpipe \<Rightarrow> u8 list" where "pdata p \<equiv> ring_contents (pring p)"

text \<open>A used entry has a well-formed ring and at least one open end.\<close>

definition pipes_inv :: "kpipe list \<Rightarrow> bool" where
  "pipes_inv ps \<longleftrightarrow> length ps = KPIPE_MAX \<and>
     (\<forall>p \<in> set ps. length (rbuf (pring p)) = KPIPE_BUF \<and>
        (pused p \<longrightarrow> pinv p \<and> (readers p > 0 \<or> writers p > 0)))"

lemma pipes_inv_nth:
  assumes "pipes_inv ps" and "pipe_valid ps idx"
  shows "nat idx < length ps" "pused (ps ! nat idx)" "pinv (ps ! nat idx)"
    "readers (ps ! nat idx) > 0 \<or> writers (ps ! nat idx) > 0"
proof -
  show i: "nat idx < length ps" and u: "pused (ps ! nat idx)"
    using assms by (auto simp: pipes_inv_def pipe_valid_def)
  then have "ps ! nat idx \<in> set ps" by simp
  with u assms(1) show "pinv (ps ! nat idx)"
    "readers (ps ! nat idx) > 0 \<or> writers (ps ! nat idx) > 0"
    by (auto simp: pipes_inv_def)
qed

lemma pipes_inv_update:
  assumes "pipes_inv ps" and "i < length ps" and "length (rbuf (pring p)) = KPIPE_BUF"
    and "pused p \<Longrightarrow> pinv p \<and> (readers p > 0 \<or> writers p > 0)"
  shows "pipes_inv (ps[i := p])"
  using assms by (auto simp: pipes_inv_def dest!: set_update_subset_insert [THEN subsetD])

lemma pinv_len: "pinv p \<Longrightarrow> length (rbuf (pring p)) = KPIPE_BUF"
  by (simp add: ring_inv_def)

lemma ring_pop_pinv:
  assumes "pinv p" and "ring_pop KPIPE_BUF (pring p) = Some (c, r)"
  shows "ring_inv KPIPE_BUF r" "pdata p = c # ring_contents r"
  using rb.pop_Some [OF assms] by auto

text \<open>The read loop stops empty-handed only to wait, and otherwise returns what is buffered,
  at most n bytes, in order.\<close>

lemma pipe_read_loop_result:
  assumes "pinv p"
  shows "pipe_read_loop i n p =
    (if 0 < n \<and> pdata p = [] \<and> i = 0 \<and> writers p \<noteq> 0 then Blocked ([], p)
     else Done (take n (pdata p), p\<lparr>pring := snd (drain (ring_pop KPIPE_BUF) n (pring p))\<rparr>))"
  using assms
proof (induction i n p rule: pipe_read_loop.induct)
  case (1 i p)
  then show ?case by simp
next
  case (2 i k p)
  show ?case
  proof (cases "ring_pop KPIPE_BUF (pring p)")
    case None
    then show ?thesis using rb.pop_None [OF "2.prems"] by auto
  next
    case (Some x)
    obtain c r where x: "x = (c, r)" by (cases x)
    note r = ring_pop_pinv [OF "2.prems" Some [unfolded x]]
    then show ?thesis
      using "2.IH" [OF Some x [symmetric]] Some x by (auto split: prod.splits)
  qed
qed

lemma drain_pinv:
  "pinv p \<Longrightarrow> fst (drain (ring_pop KPIPE_BUF) n (pring p)) = take n (pdata p) \<and>
     ring_inv KPIPE_BUF (snd (drain (ring_pop KPIPE_BUF) n (pring p))) \<and>
     ring_contents (snd (drain (ring_pop KPIPE_BUF) n (pring p))) = drop n (pdata p)"
  by (rule rb.drain_contents)

lemma pipe_push_pinv:
  assumes "pinv p" and "rcount (pring p) \<noteq> KPIPE_BUF"
  shows "ring_inv KPIPE_BUF (ring_push KPIPE_BUF c (pring p))"
    "ring_contents (ring_push KPIPE_BUF c (pring p)) = pdata p @ [c]"
proof -
  have "rcount (pring p) < KPIPE_BUF" using assms by (simp add: ring_inv_def)
  then show "ring_inv KPIPE_BUF (ring_push KPIPE_BUF c (pring p))"
    "ring_contents (ring_push KPIPE_BUF c (pring p)) = pdata p @ [c]"
    using assms(1) by (simp_all add: ring_push_inv ring_push_contents)
qed

lemma pipe_write_loop_result:
  assumes "pinv p"
  shows "pipe_write_loop cs p =
     (let room = KPIPE_BUF - length (pdata p);
          p' = p\<lparr>pring := fold (ring_push KPIPE_BUF) (take room cs) (pring p)\<rparr>
      in if cs \<noteq> [] \<and> readers p = 0 then WFail p
         else if length cs \<le> room then WDone p' else WBlocked (drop room cs) p')"
  using assms
proof (induction cs p rule: pipe_write_loop.induct)
  case (1 p)
  then show ?case by simp
next
  case (2 c cs p)
  have le: "rcount (pring p) \<le> KPIPE_BUF" using "2.prems" by (simp add: ring_inv_def)
  show ?case
  proof (cases "readers p = 0 \<or> rcount (pring p) = KPIPE_BUF")
    case True
    then show ?thesis by (auto simp: Let_def)
  next
    case False
    let ?q = "p\<lparr>pring := ring_push KPIPE_BUF c (pring p)\<rparr>"
    have q: "rcount (ring_push KPIPE_BUF c (pring p)) = Suc (rcount (pring p))"
      using arg_cong [OF pipe_push_pinv(2) [OF "2.prems"], of length] False by simp
    obtain k where k: "KPIPE_BUF - rcount (pring p) = Suc k" "KPIPE_BUF - Suc (rcount (pring p)) = k"
      using le False by (cases "KPIPE_BUF - rcount (pring p)") auto
    show ?thesis
      using "2.IH" False pipe_push_pinv(1) [OF "2.prems"] q k by (simp add: Let_def)
  qed
qed

text \<open>
  Fact: reading from a pipe. An index out of range or an unused pipe gives -1; an empty pipe
  that still has a writer makes the reader wait; otherwise the call returns the oldest
  min n count bytes in the order they were written and removes exactly those.
\<close>

theorem pipe_read_correct:
  assumes "pipes_inv ps"
  shows "pipe_read ps idx n =
    (if \<not> pipe_valid ps idx then Done (-1, [], ps)
     else let p = ps ! nat idx in
       if 0 < n \<and> pdata p = [] \<and> writers p \<noteq> 0 then Blocked (0, [], ps)
       else Done (int (min n (length (pdata p))), take n (pdata p),
              ps[nat idx := p\<lparr>pring := snd (drain (ring_pop KPIPE_BUF) n (pring p))\<rparr>]))
   \<and> (pipe_valid ps idx \<longrightarrow>
        ring_contents (snd (drain (ring_pop KPIPE_BUF) n (pring (ps ! nat idx)))) =
          drop n (pdata (ps ! nat idx)))"
proof (cases "pipe_valid ps idx")
  case True
  note p = pipes_inv_nth [OF assms True]
  then show ?thesis
    using True pipe_read_loop_result [OF p(3), of 0 n] drain_pinv [OF p(3), of n]
    by (auto simp: pipe_read_def Let_def min.commute)
qed (simp add: pipe_read_def)

text \<open>
  Fact: writing to a pipe. A write to a pipe with no reader fails with -1; a write that fits
  appends all its bytes and returns their number; one that does not fit appends the bytes
  there is room for and waits with the rest.
\<close>

theorem pipe_write_correct:
  assumes "pipes_inv ps" and "pipe_valid ps idx"
  defines "p \<equiv> ps ! nat idx"
  defines "room \<equiv> KPIPE_BUF - length (pdata p)"
  shows "\<exists>p'. pdata p' = pdata p @ take room buf \<and> readers p' = readers p \<and> writers p' = writers p \<and>
     pipe_write ps idx buf =
       (if buf \<noteq> [] \<and> readers p = 0 then Done (-1, [], ps)
        else if length buf \<le> room then Done (int (length buf), [], ps[nat idx := p'])
        else Blocked (int room, drop room buf, ps[nat idx := p']))"
proof -
  note v = pipes_inv_nth [OF assms(1,2), folded p_def]
  let ?p = "p\<lparr>pring := fold (ring_push KPIPE_BUF) (take room buf) (pring p)\<rparr>"
  have "pdata ?p = pdata p @ take room buf"
    using rb.fold_push [OF v(3), of "take room buf"] by (simp add: room_def)
  moreover have "ps[nat idx := p] = ps" by (simp add: p_def)
  ultimately show ?thesis
    using pipe_write_loop_result [OF v(3), of buf] assms(2)
    by (intro exI [of _ ?p]) (auto simp: pipe_write_def room_def p_def Let_def)
qed

section \<open>Preservation of the table invariant\<close>

lemma pipe_create_inv: "pipes_inv ps \<Longrightarrow> pipes_inv (snd (pipe_create ps))"
proof -
  assume inv: "pipes_inv ps"
  show ?thesis
  proof (cases "find_slot (\<lambda>p. \<not> pused p) ps")
    case (Some i)
    then have i: "i < length ps" by (auto simp: find_slot_Some)
    then have "length (rbuf (pring (ps ! i))) = KPIPE_BUF" using inv by (auto simp: pipes_inv_def)
    with i inv Some show ?thesis
      by (auto simp: pipe_create_def KPIPE_BUF_def ring_reset_def intro!: pipes_inv_update ring_reset_inv [unfolded ring_reset_def])
  qed (simp add: pipe_create_def inv)
qed

text \<open>The operations on a valid pipe store one updated entry, which must be well-formed.\<close>

lemma pipes_inv_put:
  assumes "pipes_inv ps" and "pipe_valid ps idx"
    and "pinv p" and "pused p \<Longrightarrow> readers p > 0 \<or> writers p > 0"
  shows "pipes_inv (ps[nat idx := p])"
  using assms pipes_inv_nth(1) [OF assms(1,2)] by (simp add: pipes_inv_update pinv_len)

lemma pipe_read_inv:
  assumes "pipes_inv ps" and "pipe_read ps idx n \<in> {Done (r, cs, ps'), Blocked (r, cs, ps')}"
  shows "pipes_inv ps'"
proof (cases "pipe_valid ps idx")
  case True
  note p = pipes_inv_nth [OF assms(1) True]
  have "pipes_inv (ps[nat idx := (ps ! nat idx)\<lparr>pring := snd (drain (ring_pop KPIPE_BUF) n (pring (ps ! nat idx)))\<rparr>])"
    using drain_pinv [OF p(3), of n] p(4) by (intro pipes_inv_put [OF assms(1) True]) simp_all
  then show ?thesis
    using assms True pipe_read_loop_result [OF p(3), of 0 n]
    by (simp add: pipe_read_def split: if_splits)
qed (use assms in \<open>simp add: pipe_read_def\<close>)

lemma pipe_write_inv:
  assumes "pipes_inv ps" and "pipe_write ps idx buf \<in> {Done (r, cs, ps'), Blocked (r, cs, ps')}"
  shows "pipes_inv ps'"
proof (cases "pipe_valid ps idx")
  case True
  note p = pipes_inv_nth [OF assms(1) True]
  have "pipes_inv (ps[nat idx := (ps ! nat idx)\<lparr>pring := fold (ring_push KPIPE_BUF) xs (pring (ps ! nat idx))\<rparr>])" for xs
    using rb.fold_push_inv [OF p(3)] p(4) by (intro pipes_inv_put [OF assms(1) True]) simp_all
  then show ?thesis
    using assms True pipe_write_loop_result [OF p(3), of buf]
    by (auto simp: pipe_write_def Let_def split: if_splits)
qed (use assms in \<open>simp add: pipe_write_def\<close>)

lemma pipe_close_inv:
  assumes "pipes_inv ps"
  shows "pipes_inv (pipe_close ps idx w)"
proof (cases "pipe_valid ps idx")
  case True
  note p = pipes_inv_nth [OF assms True]
  from p(3,4) True assms show ?thesis
    unfolding pipe_close_def Let_def
    by (simp del: neq0_conv) (intro conjI impI pipes_inv_put [OF assms True]; simp)
qed (simp add: pipe_close_def assms)

lemma pipe_ref_inv:
  assumes "pipes_inv ps"
  shows "pipes_inv (pipe_ref ps idx w)"
proof (cases "pipe_valid ps idx")
  case True
  note p = pipes_inv_nth [OF assms True]
  from p(3,4) True show ?thesis
    unfolding pipe_ref_def Let_def
    by (simp del: neq0_conv) (intro conjI impI pipes_inv_put [OF assms True]; simp)
qed (simp add: pipe_ref_def assms)


text \<open>The zero-initialised table, and the tables the operations lead to.\<close>

definition g_pipes :: "kpipe list" where
  "g_pipes = replicate KPIPE_MAX \<lparr>pused = False,
     pring = \<lparr>rbuf = replicate KPIPE_BUF 0, rhead = 0, rtail = 0, rcount = 0\<rparr>, readers = 0, writers = 0\<rparr>"

inductive pipe_reachable :: "kpipe list \<Rightarrow> bool" where
  boot: "pipe_reachable g_pipes"
| r_create: "pipe_reachable ps \<Longrightarrow> pipe_reachable (snd (pipe_create ps))"
| r_read: "pipe_reachable ps \<Longrightarrow> pipe_read ps idx n \<in> {Done (r, cs, ps'), Blocked (r, cs, ps')} \<Longrightarrow>
    pipe_reachable ps'"
| r_write: "pipe_reachable ps \<Longrightarrow> pipe_write ps idx buf \<in> {Done (r, cs, ps'), Blocked (r, cs, ps')} \<Longrightarrow>
    pipe_reachable ps'"
| r_close: "pipe_reachable ps \<Longrightarrow> pipe_reachable (pipe_close ps idx w)"
| r_ref: "pipe_reachable ps \<Longrightarrow> pipe_reachable (pipe_ref ps idx w)"

lemma g_pipes_inv: "pipes_inv g_pipes"
  by (auto simp: pipes_inv_def g_pipes_def)

text \<open>
  Fact: in every table the pipe calls can lead to, each open pipe has a well-formed ring
  (indices in range, count at most KPIPE_BUF, head = tail + count) and an open end, and an
  entry is free as soon as both its ends are closed.
\<close>

theorem pipes_invariant:
  assumes "pipe_reachable ps"
  shows "pipes_inv ps"
  using assms
proof induction
  case (r_read ps idx n r cs ps')
  then show ?case using pipe_read_inv by blast
next
  case (r_write ps idx buf r cs ps')
  then show ?case using pipe_write_inv by blast
qed (simp_all add: g_pipes_inv pipe_create_inv pipe_close_inv pipe_ref_inv)

theorem pipes_invariant_witness:
  "pipes_inv (pipe_close (pipe_ref (snd (pipe_create g_pipes)) 0 True) 0 False)"
  by (intro pipes_invariant r_close r_ref r_create boot)

text \<open>After the first create, entry 0 is open and empty.\<close>

lemma pipe_create_boot:
  "pipe_valid (snd (pipe_create g_pipes)) 0"
  "pdata (snd (pipe_create g_pipes) ! 0) = []"
  "writers (snd (pipe_create g_pipes) ! 0) = 1" "readers (snd (pipe_create g_pipes) ! 0) = 1"
  "fst (pipe_create g_pipes) = 0"
  by (simp_all add: pipe_create_def g_pipes_def KPIPE_MAX_def pipe_valid_def)

theorem pipe_read_correct_witness:
  "pipe_read (snd (pipe_create g_pipes)) 0 5 = Blocked (0, [], snd (pipe_create g_pipes))"
  using pipe_read_correct [OF pipe_create_inv [OF g_pipes_inv], of 0 5] pipe_create_boot by simp

theorem pipe_write_correct_witness:
  "\<exists>ps'. pipe_write (snd (pipe_create g_pipes)) 0 [104, 105] = Done (2, [], ps')"
  using pipe_write_correct [OF pipe_create_inv [OF g_pipes_inv] pipe_create_boot(1), of "[104, 105]"]
    pipe_create_boot by (auto simp: KPIPE_BUF_def)

section \<open>Concurrent readers and writers\<close>

text \<open>Running a call's loop is a sequence of steps of the relation.\<close>

lemma pipe_write_loop_steps:
  "pipe_write_loop cs p \<in> {WDone p', WFail p', WBlocked w' p'} \<Longrightarrow>
   \<exists>w''. pipe_step\<^sup>*\<^sup>* (p, cs, r) (p', w'', r)"
proof (induction cs p rule: pipe_write_loop.induct)
  case (2 c cs p)
  show ?case
  proof (cases "readers p = 0 \<or> rcount (pring p) = KPIPE_BUF")
    case False
    with "2.prems" "2.IH" obtain w'' where
      "pipe_step\<^sup>*\<^sup>* (p\<lparr>pring := ring_push KPIPE_BUF c (pring p)\<rparr>, cs, r) (p', w'', r)" by auto
    moreover have "pipe_step (p, c # cs, r) (p\<lparr>pring := ring_push KPIPE_BUF c (pring p)\<rparr>, cs, r)"
      using False by (simp add: write_iter)
    ultimately show ?thesis using converse_rtranclp_into_rtranclp by fast
  qed (use "2.prems" in \<open>auto split: if_splits\<close>)
qed auto

lemma pipe_read_loop_steps:
  "pipe_read_loop i n p \<in> {Done (cs, p'), Blocked (cs, p')} \<Longrightarrow>
   pipe_step\<^sup>*\<^sup>* (p, w, r) (p', w, r @ cs)"
proof (induction i n p arbitrary: cs r rule: pipe_read_loop.induct)
  case (2 i k p)
  show ?case
  proof (cases "ring_pop KPIPE_BUF (pring p)")
    case None
    with "2.prems" show ?thesis by (auto split: if_splits)
  next
    case (Some x)
    obtain c rg where x: "x = (c, rg)" by (cases x)
    from "2.prems" Some x obtain cs' where cs:
      "pipe_read_loop (i + 1) k (p\<lparr>pring := rg\<rparr>) \<in> {Done (cs', p'), Blocked (cs', p')}" "cs = c # cs'"
      by (auto split: io.splits)
    have "pipe_step (p, w, r) (p\<lparr>pring := rg\<rparr>, w, r @ [c])" using Some x by (simp add: read_iter)
    with "2.IH" [OF Some x [symmetric] cs(1), of "r @ [c]"] cs(2) show ?thesis
      by (simp add: converse_rtranclp_into_rtranclp)
  qed
qed auto

lemma pipe_step_conserves:
  assumes "pipe_step (p, w, r) (p', w', r')" and "pinv p"
  shows "pinv p' \<and> readers p' = readers p \<and> r' @ pdata p' @ w' = r @ pdata p @ w \<and>
    2 * length w' + length (pdata p') < 2 * length w + length (pdata p)"
  using assms(1)
proof cases
  case (write_iter c)
  with pipe_push_pinv [OF assms(2), of c] show ?thesis
    using arg_cong [OF pipe_push_pinv(2) [OF assms(2), of c], of length] by simp
next
  case (read_iter c rg)
  with ring_pop_pinv [OF assms(2), of c rg] show ?thesis
    using arg_cong [OF ring_pop_pinv(2) [OF assms(2), of c rg], of length] by simp
qed

lemma pipe_steps_conserve:
  assumes "pipe_step\<^sup>*\<^sup>* (p, w, r) (p', w', r')" and "pinv p"
  shows "pinv p' \<and> readers p' = readers p \<and> r' @ pdata p' @ w' = r @ pdata p @ w"
  using assms
proof (induction "(p', w', r')" arbitrary: p' w' r' rule: rtranclp_induct)
  case base
  then show ?case by simp
next
  case (step s)
  obtain p1 w1 r1 where s: "s = (p1, w1, r1)" by (cases s)
  with step.hyps(3) step.prems pipe_step_conserves [OF step.hyps(2) [unfolded s]] show ?case
    by simp
qed

lemma pipe_step_possible:
  assumes "pinv p" and "readers p \<noteq> 0" and "w \<noteq> [] \<or> pdata p \<noteq> []"
  shows "\<exists>s. pipe_step (p, w, r) s"
proof (cases "pdata p")
  case Nil
  with assms(3) obtain c w' where "w = c # w'" by (cases w) auto
  moreover have "rcount (pring p) = 0" using Nil by (simp add: ring_contents_def)
  then have "rcount (pring p) \<noteq> KPIPE_BUF" by (simp add: KPIPE_BUF_def)
  ultimately show ?thesis using write_iter [OF assms(2)] by blast
next
  case (Cons c cs)
  obtain rg where "ring_pop KPIPE_BUF (pring p) = Some (c, rg)"
    by (rule rb.pop_step [OF assms(1) Cons])
  then show ?thesis using read_iter by blast
qed

lemma pipe_run_ends:
  assumes "pinv p" and "readers p \<noteq> 0"
  shows "\<exists>p' r'. pipe_step\<^sup>*\<^sup>* (p, w, r) (p', [], r') \<and> pdata p' = []"
  using assms
proof (induction "2 * length w + length (pdata p)" arbitrary: p w r rule: less_induct)
  case less
  show ?case
  proof (cases "w = [] \<and> pdata p = []")
    case True
    then show ?thesis by blast
  next
    case False
    then obtain s where "pipe_step (p, w, r) s"
      using pipe_step_possible [OF less.prems, of w r] by blast
    then obtain p' w' r' where st: "pipe_step (p, w, r) (p', w', r')" by (cases s) simp
    note c = pipe_step_conserves [OF st less.prems(1)]
    then obtain p2 r2 where "pipe_step\<^sup>*\<^sup>* (p', w', r') (p2, [], r2)" "pdata p2 = []"
      using less.hyps [of w' p' r'] less.prems(2) by auto
    with converse_rtranclp_into_rtranclp [of pipe_step, OF st] show ?thesis by blast
  qed
qed


text \<open>
  Fact: delivery. While the read end is open the interleaving cannot deadlock, every run
  ends, and when no iteration of either side is possible any more the reader has the whole
  stream.
\<close>

theorem pipe_delivers:
  assumes "pinv p" and "readers p \<noteq> 0"
  shows "(\<exists>p' r'. pipe_step\<^sup>*\<^sup>* (p, w, []) (p', [], r') \<and> r' = pdata p @ w) \<and>
    (\<forall>p' w' r'. pipe_step\<^sup>*\<^sup>* (p, w, []) (p', w', r') \<and> (\<nexists>s. pipe_step (p', w', r') s) \<longrightarrow>
       r' = pdata p @ w)"
proof (intro conjI allI impI)
  obtain p' r' where "pipe_step\<^sup>*\<^sup>* (p, w, []) (p', [], r')" "pdata p' = []"
    using pipe_run_ends [OF assms, of w "[]"] by blast
  with pipe_steps_conserve [OF this(1) assms(1)]
  show "\<exists>p' r'. pipe_step\<^sup>*\<^sup>* (p, w, []) (p', [], r') \<and> r' = pdata p @ w" by auto
next
  fix p' w' r'
  assume "pipe_step\<^sup>*\<^sup>* (p, w, []) (p', w', r') \<and> (\<nexists>s. pipe_step (p', w', r') s)"
  then have run: "pipe_step\<^sup>*\<^sup>* (p, w, []) (p', w', r')" and stop: "\<nexists>s. pipe_step (p', w', r') s"
    by simp_all
  note c = pipe_steps_conserve [OF run assms(1)]
  then have "w' = []" "pdata p' = []" using stop assms(2) pipe_step_possible [of p' w' r'] by auto
  with c show "r' = pdata p @ w" by simp
qed


theorem pipe_delivers_witness:
  "\<exists>p'. pipe_step\<^sup>*\<^sup>* (snd (pipe_create g_pipes) ! 0, [7, 8], []) (p', [], [7, 8])"
  using pipe_delivers [OF pipes_inv_nth(3) [OF pipe_create_inv [OF g_pipes_inv] pipe_create_boot(1)], of "[7, 8]"]
    pipe_create_boot by auto

end
