(* ===== verification/KPty.thy ===== *)
theory KPty
  imports KRing KPipe
begin

text \<open>
  Pseudo-terminals, src/kernel/pty.cpp: two byte rings (input for the slave, output for
  the master) and the canonical line discipline between the master's writes and the
  slave's input. The abstract line discipline \<open>ld\<close> has unbounded queues; the model
  refines it up to the capacity of the rings.
\<close>

definition KPTY_MAX :: nat where "KPTY_MAX = 8"

definition KPTY_BUF :: nat where "KPTY_BUF = 4096"

record kpty =
  used :: bool
  inq :: "u8 ring"
  outq :: "u8 ring"
  line :: "u8 list"
  line_len :: nat
  master_refs :: nat
  slave_refs :: nat
  sigint :: int
  eof :: bool
  raw :: bool

definition pty_valid :: "kpty list \<Rightarrow> int \<Rightarrow> bool" where
  "pty_valid ts idx \<longleftrightarrow> \<not> (idx < 0 \<or> idx \<ge> int KPTY_MAX \<or> \<not> used (ts ! nat idx))"

definition pty_create :: "kpty list \<Rightarrow> int \<times> kpty list" where
  "pty_create ts =
     (case find_slot (\<lambda>t. \<not> used t) ts of
        None \<Rightarrow> (-1, ts)
      | Some i \<Rightarrow>
          (int i, ts[i := (ts ! i)\<lparr>used := True, inq := ring_reset (inq (ts ! i)),
             outq := ring_reset (outq (ts ! i)), line_len := 0, master_refs := 0, slave_refs := 0,
             sigint := 0, eof := False, raw := False\<rparr>]))"

definition pty_ref :: "kpty list \<Rightarrow> int \<Rightarrow> bool \<Rightarrow> kpty list" where
  "pty_ref ts idx master =
     (if \<not> pty_valid ts idx then ts
      else let t = ts ! nat idx in
        ts[nat idx := (if master then t\<lparr>master_refs := master_refs t + 1\<rparr>
                       else t\<lparr>slave_refs := slave_refs t + 1\<rparr>)])"

definition pty_unref :: "kpty list \<Rightarrow> int \<Rightarrow> bool \<Rightarrow> kpty list" where
  "pty_unref ts idx master =
     (if \<not> pty_valid ts idx then ts
      else let t = ts ! nat idx;
               t = (if master then (if master_refs t > 0 then t\<lparr>master_refs := master_refs t - 1\<rparr> else t)
                    else (if slave_refs t > 0 then t\<lparr>slave_refs := slave_refs t - 1\<rparr> else t));
               t = (if master_refs t = 0 \<and> slave_refs t = 0 then t\<lparr>used := False\<rparr> else t)
           in ts[nat idx := t])"

definition push_in :: "u8 \<Rightarrow> kpty \<Rightarrow> kpty" where
  "push_in c t = t\<lparr>inq := ring_push KPTY_BUF c (inq t)\<rparr>"

definition push_out :: "u8 \<Rightarrow> kpty \<Rightarrow> kpty" where
  "push_out c t = t\<lparr>outq := ring_push KPTY_BUF c (outq t)\<rparr>"

definition pty_echo :: "u8 list \<Rightarrow> kpty \<Rightarrow> kpty" where
  "pty_echo s t = fold push_out s t"

text \<open>The body of the loop of pty_master_write in canonical mode.\<close>

definition pty_key :: "u8 \<Rightarrow> kpty \<Rightarrow> kpty" where
  "pty_key c t =
     (if c = 13 \<or> c = 10 then
        let t = pty_echo [13, 10] t;
            t = fold push_in (map (\<lambda>k. line t ! k) [0..<line_len t]) t;
            t = push_in 10 t
        in t\<lparr>line_len := 0\<rparr>
      else if c = 0x7f \<or> c = 0x08 then
        (if line_len t > 0 then pty_echo [8, 32, 8] (t\<lparr>line_len := line_len t - 1\<rparr>) else t)
      else if c = 0x03 then (push_in 0x03 (t\<lparr>sigint := 1\<rparr>))\<lparr>line_len := 0\<rparr>
      else if c = 0x04 then
        (fold push_in (map (\<lambda>k. line t ! k) [0..<line_len t]) t)\<lparr>line_len := 0, eof := True\<rparr>
      else
        push_out c (if line_len t < KPTY_BUF
                    then t\<lparr>line := (line t)[line_len t := c], line_len := line_len t + 1\<rparr> else t))"

definition pty_master_write :: "kpty list \<Rightarrow> int \<Rightarrow> u8 list \<Rightarrow> int \<times> kpty list" where
  "pty_master_write ts idx buf =
     (if \<not> pty_valid ts idx then (-1, ts)
      else let t = ts ! nat idx in
        (int (length buf),
         ts[nat idx := (if raw t then fold push_in buf t else fold pty_key buf t)]))"

fun master_read_loop :: "nat \<Rightarrow> nat \<Rightarrow> kpty \<Rightarrow> (u8 list \<times> kpty) io" where
  "master_read_loop i 0 t = Done ([], t)"
| "master_read_loop i (Suc k) t =
     (case ring_pop KPTY_BUF (outq t) of
        Some (c, r) \<Rightarrow>
          (case master_read_loop (i + 1) k (t\<lparr>outq := r\<rparr>) of
             Done (cs, t') \<Rightarrow> Done (c # cs, t')
           | Blocked (cs, t') \<Rightarrow> Blocked (c # cs, t'))
      | None \<Rightarrow> if i > 0 then Done ([], t) else if slave_refs t = 0 then Done ([], t) else Blocked ([], t))"

fun slave_read_loop :: "nat \<Rightarrow> nat \<Rightarrow> kpty \<Rightarrow> (u8 list \<times> kpty) io" where
  "slave_read_loop i 0 t = Done ([], t)"
| "slave_read_loop i (Suc k) t =
     (case ring_pop KPTY_BUF (inq t) of
        Some (c, r) \<Rightarrow>
          (case slave_read_loop (i + 1) k (t\<lparr>inq := r\<rparr>) of
             Done (cs, t') \<Rightarrow> Done (c # cs, t')
           | Blocked (cs, t') \<Rightarrow> Blocked (c # cs, t'))
      | None \<Rightarrow>
          if i > 0 then Done ([], t)
          else if rcount (inq t) = 0 \<and> eof t then Done ([], t\<lparr>eof := False\<rparr>)
          else if master_refs t = 0 then Done ([], t) else Blocked ([], t))"

text \<open>A call that reads: validate, run the loop on the entry, store the entry back.\<close>

definition pty_call :: "(kpty \<Rightarrow> (u8 list \<times> kpty) io) \<Rightarrow> kpty list \<Rightarrow> int \<Rightarrow> (int \<times> u8 list \<times> kpty list) io" where
  "pty_call f ts idx =
     (if \<not> pty_valid ts idx then Done (-1, [], ts)
      else case f (ts ! nat idx) of
             Done (cs, t) \<Rightarrow> Done (int (length cs), cs, ts[nat idx := t])
           | Blocked (cs, t) \<Rightarrow> Blocked (int (length cs), cs, ts[nat idx := t]))"

definition pty_master_read :: "kpty list \<Rightarrow> int \<Rightarrow> nat \<Rightarrow> (int \<times> u8 list \<times> kpty list) io" where
  "pty_master_read ts idx n = pty_call (master_read_loop 0 n) ts idx"

definition pty_master_read_nb :: "kpty list \<Rightarrow> int \<Rightarrow> nat \<Rightarrow> (int \<times> u8 list \<times> kpty list) io" where
  "pty_master_read_nb ts idx n =
     pty_call (\<lambda>t. case drain (ring_pop KPTY_BUF) n (outq t) of (cs, r) \<Rightarrow> Done (cs, t\<lparr>outq := r\<rparr>)) ts idx"

definition pty_slave_read :: "kpty list \<Rightarrow> int \<Rightarrow> nat \<Rightarrow> (int \<times> u8 list \<times> kpty list) io" where
  "pty_slave_read ts idx n = pty_call (slave_read_loop 0 n) ts idx"

definition pty_slave_write :: "kpty list \<Rightarrow> int \<Rightarrow> u8 list \<Rightarrow> int \<times> kpty list" where
  "pty_slave_write ts idx buf =
     (if \<not> pty_valid ts idx then (-1, ts)
      else (int (length buf),
            ts[nat idx := fold (\<lambda>c t. push_out c (if c = 10 then push_out 13 t else t)) buf (ts ! nat idx)]))"

definition pty_take_signal :: "kpty list \<Rightarrow> int \<Rightarrow> int \<times> kpty list" where
  "pty_take_signal ts idx =
     (if \<not> pty_valid ts idx then (0, ts)
      else (sigint (ts ! nat idx), ts[nat idx := (ts ! nat idx)\<lparr>sigint := 0\<rparr>]))"

definition pty_set_raw :: "kpty list \<Rightarrow> int \<Rightarrow> int \<Rightarrow> kpty list" where
  "pty_set_raw ts idx r =
     (if \<not> pty_valid ts idx then ts
      else ts[nat idx := (ts ! nat idx)\<lparr>raw := (r \<noteq> 0)\<rparr>])"

section \<open>The abstract line discipline\<close>

text \<open>The edit line (at most KPTY_BUF bytes), the bytes delivered to the slave and the
  bytes echoed to the master, for a sequence of keys.\<close>

definition ld_key :: "u8 \<Rightarrow> u8 list \<Rightarrow> u8 list \<times> u8 list \<times> u8 list" where
  "ld_key c l =
     (if c \<in> {13, 10} then ([], l @ [10], [13, 10])
      else if c \<in> {0x7f, 0x08} then (butlast l, [], if l = [] then [] else [8, 32, 8])
      else if c = 0x03 then ([], [0x03], [])
      else if c = 0x04 then ([], l, [])
      else (if length l < KPTY_BUF then l @ [c] else l, [], [c]))"

fun ld :: "u8 list \<Rightarrow> u8 list \<Rightarrow> u8 list \<times> u8 list \<times> u8 list" where
  "ld l [] = (l, [], [])"
| "ld l (c # cs) =
     (case ld_key c l of (l1, i1, e1) \<Rightarrow> case ld l1 cs of (l2, i2, e2) \<Rightarrow> (l2, i1 @ i2, e1 @ e2))"

section \<open>Invariant\<close>

abbreviation idata :: "kpty \<Rightarrow> u8 list" where "idata t \<equiv> ring_contents (inq t)"

abbreviation odata :: "kpty \<Rightarrow> u8 list" where "odata t \<equiv> ring_contents (outq t)"

abbreviation edit :: "kpty \<Rightarrow> u8 list" where "edit t \<equiv> take (line_len t) (line t)"

definition pty_inv :: "kpty \<Rightarrow> bool" where
  "pty_inv t \<longleftrightarrow> ring_inv KPTY_BUF (inq t) \<and> ring_inv KPTY_BUF (outq t) \<and>
     length (line t) = KPTY_BUF \<and> line_len t \<le> KPTY_BUF"

text \<open>What a state has become after delivering \<open>is\<close> to the slave and echoing \<open>os\<close>: the rings
  keep what they have room for and drop the rest.\<close>

definition emitted :: "kpty \<Rightarrow> u8 list \<Rightarrow> u8 list \<Rightarrow> kpty \<Rightarrow> bool" where
  "emitted t is os t' \<longleftrightarrow> pty_inv t' \<and>
     idata t' = idata t @ take (KPTY_BUF - length (idata t)) is \<and>
     odata t' = odata t @ take (KPTY_BUF - length (odata t)) os \<and>
     used t' = used t \<and> raw t' = raw t \<and> master_refs t' = master_refs t \<and> slave_refs t' = slave_refs t"

lemma take_room_append:
  "xs @ take (n - length xs) ys @
     take (n - length (xs @ take (n - length xs) ys)) zs = xs @ take (n - length xs) (ys @ zs)"
  by (cases "length ys \<le> n - length xs") simp_all

lemma emitted_refl: "pty_inv t \<Longrightarrow> emitted t [] [] t"
  by (simp add: emitted_def)

lemma emitted_trans:
  assumes "emitted t i1 o1 t1" and "emitted t1 i2 o2 t2"
  shows "emitted t (i1 @ i2) (o1 @ o2) t2"
  using assms take_room_append [of "idata t" KPTY_BUF i1 i2] take_room_append [of "odata t" KPTY_BUF o1 o2]
  by (simp only: emitted_def append_assoc)


lemma fold_push_in: "fold push_in xs t = t\<lparr>inq := fold (ring_push KPTY_BUF) xs (inq t)\<rparr>"
  by (induction xs arbitrary: t) (simp_all add: push_in_def)

lemma fold_push_out: "fold push_out xs t = t\<lparr>outq := fold (ring_push KPTY_BUF) xs (outq t)\<rparr>"
  by (induction xs arbitrary: t) (simp_all add: push_out_def)

lemma emitted_fold_in: "pty_inv t \<Longrightarrow> emitted t xs [] (fold push_in xs t)"
  using rb.fold_push [of KPTY_BUF "inq t" xs] by (simp add: emitted_def fold_push_in pty_inv_def)

lemma emitted_fold_out: "pty_inv t \<Longrightarrow> emitted t [] xs (fold push_out xs t)"
  using rb.fold_push [of KPTY_BUF "outq t" xs] by (simp add: emitted_def fold_push_out pty_inv_def)

lemma emitted_inv: "emitted t i e t' \<Longrightarrow> pty_inv t'"
  by (simp add: emitted_def)

lemma emitted_in_out:
  assumes "pty_inv t"
  shows "emitted t is os (fold push_in is (fold push_out os t))"
proof -
  note o = emitted_fold_out [OF assms, of os]
  from emitted_trans [OF o emitted_fold_in [OF emitted_inv [OF o], of "is"]] show ?thesis by simp
qed

text \<open>Changes of the edit line and of the flags emit nothing.\<close>

lemma emitted_line:
  assumes "emitted t i e t'" and "length l = KPTY_BUF" and "k \<le> KPTY_BUF"
  shows "emitted t i e (t'\<lparr>line := l, line_len := k, sigint := g, eof := b\<rparr>)"
  using assms by (simp add: emitted_def pty_inv_def)

lemma emitted_line_len:
  assumes "emitted t i e t'" and "k \<le> KPTY_BUF"
  shows "emitted t i e (t'\<lparr>line_len := k\<rparr>)"
  using assms by (simp add: emitted_def pty_inv_def)

lemma line_bytes: "pty_inv t \<Longrightarrow> map (\<lambda>k. line t ! k) [0..<line_len t] = edit t"
  by (intro nth_equalityI) (simp_all add: pty_inv_def)

lemma fold_push_line [simp]:
  "line (fold push_out xs t) = line t" "line_len (fold push_out xs t) = line_len t"
  "line (fold push_in xs t) = line t" "line_len (fold push_in xs t) = line_len t"
  "line (push_out c t) = line t" "line_len (push_out c t) = line_len t"
  by (simp_all add: fold_push_in fold_push_out push_out_def)

text \<open>One key of the model is one key of the abstract line discipline.\<close>

lemma pty_key_newline:
  assumes "pty_inv t" and "c = 13 \<or> c = 10"
  shows "pty_key c t = (fold push_in (edit t @ [10]) (fold push_out [13, 10] t))\<lparr>line_len := 0\<rparr>"
proof -
  have "map (\<lambda>k. line (fold push_out [13, 10] t) ! k) [0..<line_len (fold push_out [13, 10] t)] = edit t"
    using line_bytes [OF assms(1)] by (simp only: fold_push_line)
  with assms(2) show ?thesis
    by (simp only: pty_key_def if_True Let_def pty_echo_def fold_append comp_def fold_simps)
qed

lemma pty_key_refines:
  assumes "pty_inv t"
  shows "case ld_key c (edit t) of (l, is, os) \<Rightarrow> emitted t is os (pty_key c t) \<and> edit (pty_key c t) = l"
proof -
  have len: "length (line t) = KPTY_BUF" "line_len t \<le> KPTY_BUF" using assms by (auto simp: pty_inv_def)
  consider (nl) "c = 13 \<or> c = 10" | (bs) "c = 0x7f \<or> c = 0x08" | (intr) "c = 3" | (eot) "c = 4"
    | (plain) "\<not> (c = 13 \<or> c = 10)" "\<not> (c = 0x7f \<or> c = 0x08)" "c \<noteq> 3" "c \<noteq> 4" by blast
  then show ?thesis
  proof cases
    case nl
    have "emitted t (edit t @ [10]) [13, 10] (pty_key c t)"
      unfolding pty_key_newline [OF assms nl] using emitted_in_out [OF assms] by (rule emitted_line_len) simp
    with nl show ?thesis by (auto simp: ld_key_def pty_key_newline [OF assms nl])
  next
    case bs
    show ?thesis
    proof (cases "line_len t")
      case 0
      with bs show ?thesis by (auto simp: ld_key_def pty_key_def emitted_refl [OF assms])
    next
      case (Suc k)
      have i: "pty_inv (t\<lparr>line_len := k\<rparr>)" using assms Suc by (simp add: pty_inv_def)
      have "emitted t [] [8, 32, 8] (fold push_out [8, 32, 8] (t\<lparr>line_len := k\<rparr>))"
        using emitted_fold_out [OF i, of "[8, 32, 8]"] by (simp add: emitted_def)
      then show ?thesis
        using bs Suc len by (auto simp: ld_key_def pty_key_def pty_echo_def butlast_take take_eq_Nil simp del: fold_simps)
    qed
  next
    case intr
    have i: "pty_inv (t\<lparr>sigint := 1\<rparr>)" using assms by (simp add: pty_inv_def)
    have "emitted t [3] [] ((fold push_in [3] (t\<lparr>sigint := 1\<rparr>))\<lparr>line_len := 0\<rparr>)"
      using emitted_line_len [OF emitted_fold_in [OF i, of "[3]"], of 0] by (simp add: emitted_def)
    with intr show ?thesis by (simp add: ld_key_def pty_key_def)
  next
    case eot
    have "emitted t (edit t) [] ((fold push_in (edit t) t)\<lparr>line_len := 0, eof := True\<rparr>)"
      using emitted_fold_in [OF assms, of "edit t"] by (simp add: emitted_def pty_inv_def)
    with eot show ?thesis by (simp add: ld_key_def pty_key_def line_bytes [OF assms])
  next
    case plain
    let ?t = "if line_len t < KPTY_BUF then t\<lparr>line := (line t)[line_len t := c], line_len := line_len t + 1\<rparr> else t"
    have i: "pty_inv ?t" using assms by (simp add: pty_inv_def)
    have "emitted t [] [c] (fold push_out [c] ?t)"
      using emitted_fold_out [OF i, of "[c]"] by (simp add: emitted_def split: if_splits)
    with plain len show ?thesis
      by (simp add: ld_key_def pty_key_def push_out_def take_Suc_conv_app_nth split: if_splits)
  qed
qed

lemma pty_keys_refine:
  assumes "pty_inv t"
  shows "case ld (edit t) cs of (l, is, os) \<Rightarrow>
    emitted t is os (fold pty_key cs t) \<and> edit (fold pty_key cs t) = l"
  using assms
proof (induction cs arbitrary: t)
  case Nil
  then show ?case by (simp add: emitted_refl)
next
  case (Cons c cs)
  note k = pty_key_refines [OF Cons.prems, of c]
  then have "pty_inv (pty_key c t)" by (auto simp: emitted_def split: prod.splits)
  from Cons.IH [OF this] k show ?case
    by (auto split: prod.splits dest: emitted_trans)
qed


lemma pty_valid_nth:
  assumes "length ts = KPTY_MAX" and "pty_valid ts idx"
  shows "nat idx < length ts" "used (ts ! nat idx)"
  using assms by (auto simp: pty_valid_def)

section \<open>Properties\<close>


text \<open>Reading: the loops return what is buffered, and wait only when there is nothing.\<close>

lemma master_read_loop_result:
  assumes "ring_inv KPTY_BUF (outq t)"
  shows "master_read_loop i n t =
    (if 0 < n \<and> odata t = [] \<and> i = 0 \<and> slave_refs t \<noteq> 0 then Blocked ([], t)
     else Done (take n (odata t), t\<lparr>outq := snd (drain (ring_pop KPTY_BUF) n (outq t))\<rparr>))"
  using assms
proof (induction i n t rule: master_read_loop.induct)
  case (1 i t)
  then show ?case by simp
next
  case (2 i k t)
  show ?case
  proof (cases "ring_pop KPTY_BUF (outq t)")
    case None
    then show ?thesis using rb.pop_None [OF "2.prems"] by auto
  next
    case (Some x)
    obtain c r where x: "x = (c, r)" by (cases x)
    then show ?thesis
      using "2.IH" [OF Some x [symmetric]] Some rb.pop_Some [OF "2.prems", of c r] by (auto split: prod.splits)
  qed
qed

lemma slave_read_loop_result:
  assumes "ring_inv KPTY_BUF (inq t)"
  shows "slave_read_loop i n t =
    (if 0 < n \<and> idata t = [] \<and> i = 0 \<and> \<not> eof t \<and> master_refs t \<noteq> 0 then Blocked ([], t)
     else Done (take n (idata t),
            t\<lparr>inq := snd (drain (ring_pop KPTY_BUF) n (inq t)),
              eof := eof t \<and> \<not> (0 < n \<and> idata t = [] \<and> i = 0)\<rparr>))"
  using assms
proof (induction i n t rule: slave_read_loop.induct)
  case (1 i t)
  then show ?case by simp
next
  case (2 i k t)
  show ?case
  proof (cases "ring_pop KPTY_BUF (inq t)")
    case None
    then have "idata t = []" "rcount (inq t) = 0"
      using rb.pop_None [OF "2.prems"] by (auto simp: ring_pop_def split: if_splits)
    with None show ?thesis by auto
  next
    case (Some x)
    obtain c r where x: "x = (c, r)" by (cases x)
    then show ?thesis
      using "2.IH" [OF Some x [symmetric]] Some rb.pop_Some [OF "2.prems", of c r] by (auto split: prod.splits)
  qed
qed

text \<open>
  Fact: end of file. After Ctrl+D the reader first gets the pending bytes; the next read of
  the empty queue returns 0 once and clears the flag, so that the read after it waits for
  the master again.
\<close>

theorem pty_eof_once:
  assumes "length ts = KPTY_MAX" and "pty_valid ts idx" and "pty_inv (ts ! nat idx)"
    and "idata (ts ! nat idx) = []" and "eof (ts ! nat idx)" and "master_refs (ts ! nat idx) \<noteq> 0" and "0 < n"
  shows "\<exists>ts'. pty_slave_read ts idx n = Done (0, [], ts') \<and>
    (\<exists>ts''. pty_slave_read ts' idx n = Blocked (0, [], ts''))"
proof -
  let ?t = "ts ! nat idx" and ?d = "snd (drain (ring_pop KPTY_BUF) n (inq (ts ! nat idx)))"
  let ?t' = "?t\<lparr>inq := ?d, eof := False\<rparr>"
  have i: "ring_inv KPTY_BUF (inq ?t)" using assms(3) by (simp add: pty_inv_def)
  note d = rb.drain_contents [OF i, of n]
  have 1: "pty_slave_read ts idx n = Done (0, [], ts[nat idx := ?t'])"
    using assms slave_read_loop_result [OF i, of 0 n] by (simp add: pty_slave_read_def pty_call_def)
  have "nat idx < length ts" "used ?t" using pty_valid_nth [OF assms(1,2)] by auto
  moreover have "pty_valid (ts[nat idx := ?t']) idx"
    using assms(2) calculation by (simp add: pty_valid_def)
  moreover have "slave_read_loop 0 n ?t' = Blocked ([], ?t')"
    using slave_read_loop_result [of ?t' 0 n] d assms(4,6,7) by simp
  ultimately show ?thesis using 1 by (simp add: pty_slave_read_def pty_call_def)
qed

text \<open>
  Fact: raw mode passes bytes through: what the master writes to an empty queue (at most
  KPTY_BUF bytes) is what the slave reads.
\<close>

theorem pty_raw_roundtrip:
  assumes "length ts = KPTY_MAX" and "pty_valid ts idx" and "pty_inv (ts ! nat idx)"
    and "raw (ts ! nat idx)" and "idata (ts ! nat idx) = []" and "buf \<noteq> []" and "length buf \<le> KPTY_BUF"
  shows "\<exists>ts'. pty_slave_read (snd (pty_master_write ts idx buf)) idx (length buf) =
    Done (int (length buf), buf, ts')"
proof -
  let ?t = "fold push_in buf (ts ! nat idx)"
  have e: "emitted (ts ! nat idx) buf [] ?t" by (rule emitted_fold_in [OF assms(3)])
  then have c: "idata ?t = buf" "ring_inv KPTY_BUF (inq ?t)" "used ?t = used (ts ! nat idx)"
    using assms(5,7) by (auto simp: emitted_def pty_inv_def)
  have v: "pty_valid (ts[nat idx := ?t]) idx"
    using assms(2) pty_valid_nth [OF assms(1,2)] c(3) by (simp add: pty_valid_def)
  show ?thesis
    using slave_read_loop_result [OF c(2), of 0 "length buf"] v c(1) assms(2,4,6) pty_valid_nth [OF assms(1,2)]
    by (simp add: pty_slave_read_def pty_call_def pty_master_write_def Let_def)
qed


text \<open>The terminal's newline translation on output.\<close>

definition onlcr :: "u8 list \<Rightarrow> u8 list" where
  "onlcr cs = concat (map (\<lambda>c. if c = 10 then [13, 10] else [c]) cs)"

lemma slave_write_fold:
  "fold (\<lambda>c t. push_out c (if c = 10 then push_out 13 t else t)) buf t = fold push_out (onlcr buf) t"
  by (induction buf arbitrary: t) (auto simp: onlcr_def)

section \<open>Every reachable table is well-formed\<close>

definition g_ptys :: "kpty list" where
  "g_ptys =
     (let r = \<lparr>rbuf = replicate KPTY_BUF 0, rhead = 0, rtail = 0, rcount = 0\<rparr> in
      replicate KPTY_MAX \<lparr>used = False, inq = r, outq = r, line = replicate KPTY_BUF 0, line_len = 0,
        master_refs = 0, slave_refs = 0, sigint = 0, eof = False, raw = False\<rparr>)"

definition ptys_inv :: "kpty list \<Rightarrow> bool" where
  "ptys_inv ts \<longleftrightarrow> length ts = KPTY_MAX \<and> (\<forall>t \<in> set ts. pty_inv t)"

inductive pty_reachable :: "kpty list \<Rightarrow> bool" where
  p_boot: "pty_reachable g_ptys"
| p_create: "pty_reachable ts \<Longrightarrow> pty_reachable (snd (pty_create ts))"
| p_ref: "pty_reachable ts \<Longrightarrow> pty_reachable (pty_ref ts idx m)"
| p_unref: "pty_reachable ts \<Longrightarrow> pty_reachable (pty_unref ts idx m)"
| p_mwrite: "pty_reachable ts \<Longrightarrow> pty_reachable (snd (pty_master_write ts idx buf))"
| p_swrite: "pty_reachable ts \<Longrightarrow> pty_reachable (snd (pty_slave_write ts idx buf))"
| p_mread: "pty_reachable ts \<Longrightarrow> pty_master_read ts idx n \<in> {Done (r, cs, ts'), Blocked (r, cs, ts')} \<Longrightarrow> pty_reachable ts'"
| p_mread_nb: "pty_reachable ts \<Longrightarrow> pty_master_read_nb ts idx n \<in> {Done (r, cs, ts'), Blocked (r, cs, ts')} \<Longrightarrow> pty_reachable ts'"
| p_sread: "pty_reachable ts \<Longrightarrow> pty_slave_read ts idx n \<in> {Done (r, cs, ts'), Blocked (r, cs, ts')} \<Longrightarrow> pty_reachable ts'"
| p_signal: "pty_reachable ts \<Longrightarrow> pty_reachable (snd (pty_take_signal ts idx))"
| p_raw: "pty_reachable ts \<Longrightarrow> pty_reachable (pty_set_raw ts idx b)"

lemma g_ptys_inv: "ptys_inv g_ptys"
  by (simp add: ptys_inv_def g_ptys_def Let_def pty_inv_def ring_inv_def KPTY_BUF_def)

lemma ptys_inv_nth: "ptys_inv ts \<Longrightarrow> pty_valid ts idx \<Longrightarrow> pty_inv (ts ! nat idx)"
  using pty_valid_nth(1) [of ts idx] by (auto simp: ptys_inv_def)

lemma ptys_inv_put: "ptys_inv ts \<Longrightarrow> pty_inv t \<Longrightarrow> ptys_inv (ts[i := t])"
  by (auto simp: ptys_inv_def dest!: set_update_subset_insert [THEN subsetD])

lemma pty_call_inv:
  assumes "ptys_inv ts" and "pty_call f ts idx \<in> {Done (r, cs, ts'), Blocked (r, cs, ts')}"
    and "\<And>t cs t'. pty_inv t \<Longrightarrow> f t \<in> {Done (cs, t'), Blocked (cs, t')} \<Longrightarrow> pty_inv t'"
  shows "ptys_inv ts'"
proof (cases "pty_valid ts idx")
  case True
  note t = ptys_inv_nth [OF assms(1) True]
  obtain cs' t' where f: "f (ts ! nat idx) \<in> {Done (cs', t'), Blocked (cs', t')}"
    by (cases "f (ts ! nat idx)") (metis insertI1 insertI2 old.prod.exhaust)+
  with assms(2) True have "ts' = ts[nat idx := t']" by (auto simp: pty_call_def)
  with assms(3) [OF t f] assms(1) show ?thesis by (simp add: ptys_inv_put)
next
  case False
  with assms(1,2) show ?thesis by (simp add: pty_call_def)
qed

lemma pty_inv_drain:
  assumes "pty_inv t"
  shows "pty_inv (t\<lparr>outq := snd (drain (ring_pop KPTY_BUF) n (outq t))\<rparr>)"
    "pty_inv (t\<lparr>inq := snd (drain (ring_pop KPTY_BUF) n (inq t)), eof := b\<rparr>)"
  using assms rb.drain_contents [of KPTY_BUF "outq t" n] rb.drain_contents [of KPTY_BUF "inq t" n]
  by (simp_all add: pty_inv_def)

lemma pty_reads_inv:
  assumes "pty_inv t"
  shows "master_read_loop i n t \<in> {Done (cs, t'), Blocked (cs, t')} \<Longrightarrow> pty_inv t'"
    "slave_read_loop i n t \<in> {Done (cs, t'), Blocked (cs, t')} \<Longrightarrow> pty_inv t'"
  using assms master_read_loop_result [of t i n] slave_read_loop_result [of t i n]
    pty_inv_drain(1) [OF assms, of n] pty_inv_drain(2) [OF assms, of _ n]
  by (auto simp: pty_inv_def split: if_splits)

lemma pty_create_inv: "ptys_inv ts \<Longrightarrow> ptys_inv (snd (pty_create ts))"
proof (cases "find_slot (\<lambda>t. \<not> used t) ts")
  case (Some i)
  assume inv: "ptys_inv ts"
  with Some have "pty_inv (ts ! i)" by (auto simp: find_slot_Some ptys_inv_def)
  then show ?thesis
    using inv Some by (simp add: pty_create_def ptys_inv_put pty_inv_def ring_inv_def ring_reset_def)
qed (simp add: pty_create_def)

lemma pty_refs_inv:
  "ptys_inv ts \<Longrightarrow> ptys_inv (pty_ref ts idx m)"
  "ptys_inv ts \<Longrightarrow> ptys_inv (pty_unref ts idx m)"
  "ptys_inv ts \<Longrightarrow> ptys_inv (snd (pty_take_signal ts idx))"
  "ptys_inv ts \<Longrightarrow> ptys_inv (pty_set_raw ts idx b)"
  by (auto simp: pty_ref_def pty_unref_def pty_take_signal_def pty_set_raw_def Let_def pty_inv_def
      intro!: ptys_inv_put dest: ptys_inv_nth)

lemma pty_writes_inv:
  assumes "ptys_inv ts"
  shows "ptys_inv (snd (pty_master_write ts idx buf))" "ptys_inv (snd (pty_slave_write ts idx buf))"
proof -
  show "ptys_inv (snd (pty_master_write ts idx buf))"
  proof (cases "pty_valid ts idx")
    case True
    note t = ptys_inv_nth [OF assms True]
    have "pty_inv (fold pty_key buf (ts ! nat idx))"
      using pty_keys_refine [OF t, of buf] by (auto simp: emitted_def split: prod.splits)
    with emitted_inv [OF emitted_fold_in [OF t]] assms True show ?thesis
      by (simp add: pty_master_write_def Let_def ptys_inv_put)
  qed (simp add: pty_master_write_def assms)
  show "ptys_inv (snd (pty_slave_write ts idx buf))"
  proof (cases "pty_valid ts idx")
    case True
    with emitted_inv [OF emitted_fold_out [OF ptys_inv_nth [OF assms True]]] assms show ?thesis
      by (simp add: pty_slave_write_def slave_write_fold ptys_inv_put)
  qed (simp add: pty_slave_write_def assms)
qed

text \<open>
  Fact: in every table the pseudo-terminal calls can lead to, all ring indices and counts and
  the length of the edited line stay within the KPTY_BUF-byte arrays.
\<close>

theorem ptys_invariant:
  assumes "pty_reachable ts"
  shows "ptys_inv ts"
  using assms
proof induction
  case (p_mread ts idx n r cs ts')
  show ?case
    by (rule pty_call_inv [OF p_mread.IH p_mread.hyps(2) [unfolded pty_master_read_def]])
      (rule pty_reads_inv(1))
next
  case (p_mread_nb ts idx n r cs ts')
  show ?case
    by (rule pty_call_inv [OF p_mread_nb.IH p_mread_nb.hyps(2) [unfolded pty_master_read_nb_def]])
      (use pty_inv_drain(1) [of _ n] in \<open>fastforce split: prod.splits\<close>)
next
  case (p_sread ts idx n r cs ts')
  show ?case
    by (rule pty_call_inv [OF p_sread.IH p_sread.hyps(2) [unfolded pty_slave_read_def]])
      (rule pty_reads_inv(2))
qed (simp_all add: g_ptys_inv pty_create_inv pty_refs_inv pty_writes_inv)

theorem ptys_invariant_witness:
  "ptys_inv (snd (pty_master_write (pty_ref (snd (pty_create g_ptys)) 0 True) 0 [104, 10]))"
  by (intro ptys_invariant p_mwrite p_ref p_create p_boot)

text \<open>
  Fact: output translation: a slave write appends its bytes with CR inserted before every LF,
  cut off where the output ring is full, while the call reports all of them written.
\<close>

theorem pty_slave_write_onlcr:
  assumes "ptys_inv ts" and "pty_valid ts idx"
  shows "\<exists>t'. pty_slave_write ts idx buf = (int (length buf), ts[nat idx := t']) \<and>
     odata t' = odata (ts ! nat idx) @ take (KPTY_BUF - length (odata (ts ! nat idx))) (onlcr buf) \<and>
     idata t' = idata (ts ! nat idx)"
  using emitted_fold_out [OF ptys_inv_nth [OF assms], of "onlcr buf"] assms(2)
  by (auto simp: pty_slave_write_def slave_write_fold emitted_def)

text \<open>A terminal opened on both sides after boot, for the concrete instances.\<close>

definition tty0 :: "kpty list" where
  "tty0 = pty_ref (pty_ref (snd (pty_create g_ptys)) 0 True) 0 False"

lemma tty0_inv: "ptys_inv tty0"
  unfolding tty0_def by (intro pty_refs_inv pty_create_inv g_ptys_inv)

lemma tty0_entry:
  "length tty0 = KPTY_MAX" "pty_valid tty0 0" "idata (tty0 ! 0) = []" "odata (tty0 ! 0) = []" "line_len (tty0 ! 0) = 0"
  "\<not> raw (tty0 ! 0)" "\<not> eof (tty0 ! 0)" "master_refs (tty0 ! 0) = 1" "pty_inv (tty0 ! 0)"
  using ptys_inv_nth [OF tty0_inv, of 0]
  by (simp_all add: tty0_def pty_ref_def pty_create_def g_ptys_def Let_def KPTY_MAX_def pty_valid_def)

theorem pty_slave_write_onlcr_witness:
  "\<exists>t'. pty_slave_write tty0 0 [104, 10] = (2, tty0[0 := t']) \<and> odata t' = [104, 13, 10]"
  using pty_slave_write_onlcr [OF tty0_inv tty0_entry(2), of "[104, 10]"] tty0_entry(4)
  by (auto simp: onlcr_def KPTY_BUF_def)


theorem pty_eof_once_witness:
  "\<exists>ts' ts''. pty_slave_read (snd (pty_master_write tty0 0 [4])) 0 8 = Done (0, [], ts') \<and>
     pty_slave_read ts' 0 8 = Blocked (0, [], ts'')"
proof -
  let ?ts = "snd (pty_master_write tty0 0 [4])"
  have e: "?ts ! 0 = (tty0 ! 0)\<lparr>line_len := 0, eof := True\<rparr>"
    using tty0_entry by (simp add: pty_master_write_def Let_def pty_key_def KPTY_MAX_def)
  have "length ?ts = KPTY_MAX" "pty_valid ?ts 0" "pty_inv (?ts ! 0)"
    using tty0_entry e pty_valid_nth [OF tty0_entry(1,2)] ptys_inv_nth [OF pty_writes_inv(1) [OF tty0_inv]]
    by (simp_all add: pty_master_write_def Let_def pty_valid_def pty_inv_def)
  with pty_eof_once [of ?ts 0 8] e tty0_entry show ?thesis by fastforce
qed

theorem pty_raw_roundtrip_witness:
  "\<exists>ts'. pty_slave_read (snd (pty_master_write (pty_set_raw tty0 0 1) 0 [3, 4, 13])) 0 3 = Done (3, [3, 4, 13], ts')"
proof -
  let ?ts = "pty_set_raw tty0 0 1"
  have e: "?ts ! 0 = (tty0 ! 0)\<lparr>raw := True\<rparr>" "length ?ts = KPTY_MAX" "pty_valid ?ts 0"
    using tty0_entry by (simp_all add: pty_set_raw_def KPTY_MAX_def pty_valid_def)
  with pty_raw_roundtrip [of ?ts 0 "[3, 4, 13]"] tty0_entry show ?thesis
    by (simp add: pty_inv_def KPTY_BUF_def numeral_3_eq_3)
qed

end
