(* ===== verification/KBytes.thy ===== *)
theory KBytes
  imports KPrelude
begin

text \<open>
  The bytes of integers: little-endian as the packed structs of the file system are laid
  out in memory and on disk.
\<close>

definition le16 :: "u16 \<Rightarrow> u8 list" where
  "le16 w = [ucast w, ucast (drop_bit 8 w)]"

definition le32 :: "u32 \<Rightarrow> u8 list" where
  "le32 w = [ucast w, ucast (drop_bit 8 w), ucast (drop_bit 16 w), ucast (drop_bit 24 w)]"

definition get16 :: "u8 list \<Rightarrow> nat \<Rightarrow> u16" where
  "get16 bs i = ucast (bs ! i) OR push_bit 8 (ucast (bs ! (i + 1)))"

definition get32 :: "u8 list \<Rightarrow> nat \<Rightarrow> u32" where
  "get32 bs i = ucast (bs ! i) OR push_bit 8 (ucast (bs ! (i + 1))) OR
     push_bit 16 (ucast (bs ! (i + 2))) OR push_bit 24 (ucast (bs ! (i + 3)))"

lemma length_le [simp]: "length (le16 w) = 2" "length (le32 v) = 4"
  by (simp_all add: le16_def le32_def)

lemma byte_of_index:
  assumes "(n::nat) < 32"
  obtains "n < 8" | k where "k < 8" "n = k + 8" | k where "k < 8" "n = k + 16" | k where "k < 8" "n = k + 24"
proof -
  have "n < 8 \<or> (n - 8 < 8 \<and> n = n - 8 + 8) \<or> (n - 16 < 8 \<and> n = n - 16 + 16) \<or> (n - 24 < 8 \<and> n = n - 24 + 24)"
    using assms by linarith
  with that show thesis by blast
qed

lemma join16:
  fixes w :: u16
  shows "ucast (ucast w :: u8) OR push_bit 8 (ucast (ucast (drop_bit 8 w) :: u8)) = w"
  by (rule bit_word_eqI) (auto simp: bit_simps)

lemma join32:
  fixes w :: u32
  shows "ucast (ucast w :: u8) OR push_bit 8 (ucast (ucast (drop_bit 8 w) :: u8)) OR
    push_bit 16 (ucast (ucast (drop_bit 16 w) :: u8)) OR push_bit 24 (ucast (ucast (drop_bit 24 w) :: u8)) = w" (is "?l = w")
proof (rule bit_word_eqI)
  fix n :: nat
  assume "n < LENGTH(32)"
  then have "n < 32" by simp
  then show "bit ?l n \<longleftrightarrow> bit w n"
    by (cases rule: byte_of_index) (auto simp: bit_simps add.commute)
qed

text \<open>Reading back at the offset where a field was written.\<close>

lemma get16_le16: "i = length xs \<Longrightarrow> get16 (xs @ le16 w @ ys) i = w"
  by (simp only: get16_def le16_def nth_append_length nth_append_length_plus append_Cons append_Nil) (simp add: join16 nth_append)

lemma get32_le32: "i = length xs \<Longrightarrow> get32 (xs @ le32 w @ ys) i = w"
  by (simp only: get32_def le32_def nth_append_length nth_append_length_plus append_Cons append_Nil) (simp add: join32 nth_append)

end
