(* ===== verification/KSectors.thy ===== *)
theory KSectors
  imports KPrelude
begin

text \<open>
  Sector devices. \<open>disk_ops\<close> is the driver interface under disk_read_sector and
  disk_write_sector (the port I/O below it is a parameter); \<open>sector_store\<close> is the contract
  the file system relies on when it reads and writes sectors through the cache, with the
  lemmas on multi-sector transfers and on ordered lists of writes proved once from it.
\<close>

type_synonym sector = "u8 list"

text \<open>The driver's read fills the caller's buffer even when it then reports an error. The
  field \<open>media\<close> is what the medium holds; no code reads it.\<close>

record 'd disk_ops =
  dk_read :: "'d \<Rightarrow> u32 \<Rightarrow> sector \<Rightarrow> bool \<times> sector \<times> 'd"
  dk_write :: "'d \<Rightarrow> u32 \<Rightarrow> sector \<Rightarrow> bool \<times> 'd"
  media :: "'d \<Rightarrow> u32 \<Rightarrow> sector"

definition disk_ok :: "'d disk_ops \<Rightarrow> bool" where
  "disk_ok dk \<longleftrightarrow>
     (\<forall>d l b ok b' d'. dk_read dk d l b = (ok, b', d') \<longrightarrow>
        media dk d' = media dk d \<and> (ok \<longrightarrow> b' = media dk d l)) \<and>
     (\<forall>d l x ok d'. dk_write dk d l x = (ok, d') \<longrightarrow>
        (\<forall>k. k \<noteq> l \<longrightarrow> media dk d' k = media dk d k) \<and> (ok \<longrightarrow> media dk d' l = x))"

lemma disk_ok_read:
  assumes "disk_ok dk" and "dk_read dk d l b = (ok, b', d')"
  shows "media dk d' = media dk d" and "ok \<Longrightarrow> b' = media dk d l"
proof -
  from assms have "media dk d' = media dk d \<and> (ok \<longrightarrow> b' = media dk d l)"
    unfolding disk_ok_def by blast
  then show "media dk d' = media dk d" and "ok \<Longrightarrow> b' = media dk d l" by auto
qed

lemma disk_ok_write:
  assumes "disk_ok dk" and "dk_write dk d l x = (ok, d')"
  shows "k \<noteq> l \<Longrightarrow> media dk d' k = media dk d k" and "ok \<Longrightarrow> media dk d' = (media dk d)(l := x)"
proof -
  from assms have w: "(\<forall>k. k \<noteq> l \<longrightarrow> media dk d' k = media dk d k) \<and> (ok \<longrightarrow> media dk d' l = x)"
    unfolding disk_ok_def by blast
  then show "k \<noteq> l \<Longrightarrow> media dk d' k = media dk d k" by blast
  show "ok \<Longrightarrow> media dk d' = (media dk d)(l := x)" using w by (intro ext) simp
qed

text \<open>A disk that never fails: the medium itself.\<close>

definition perfect_disk :: "(u32 \<Rightarrow> sector) disk_ops" where
  "perfect_disk = \<lparr>dk_read = \<lambda>d l b. (True, d l, d), dk_write = \<lambda>d l x. (True, d(l := x)), media = \<lambda>d. d\<rparr>"

lemma perfect_disk_ok: "disk_ok perfect_disk"
  by (simp add: disk_ok_def perfect_disk_def)

text \<open>Lists of writes, and of reads, that stop at the first failure.\<close>

fun store_all :: "(u32 \<Rightarrow> sector \<Rightarrow> 's \<Rightarrow> bool \<times> 's) \<Rightarrow> (u32 \<times> sector) list \<Rightarrow> 's \<Rightarrow> bool \<times> 's" where
  "store_all wr [] s = (True, s)"
| "store_all wr ((l, x) # ps) s =
     (case wr l x s of (False, s') \<Rightarrow> (False, s') | (True, s') \<Rightarrow> store_all wr ps s')"

fun load_all :: "(u32 \<Rightarrow> 's \<Rightarrow> sector option \<times> 's) \<Rightarrow> u32 list \<Rightarrow> 's \<Rightarrow> bool \<times> sector list \<times> 's" where
  "load_all rd [] s = (True, [], s)"
| "load_all rd (l # ls) s =
     (case rd l s of (None, s') \<Rightarrow> (False, [], s')
      | (Some x, s') \<Rightarrow> (case load_all rd ls s' of (ok, xs, s'') \<Rightarrow> (ok, x # xs, s'')))"

definition put_all :: "(u32 \<times> sector) list \<Rightarrow> (u32 \<Rightarrow> sector) \<Rightarrow> u32 \<Rightarrow> sector" where
  "put_all ps v = fold (\<lambda>(l, x) v. v(l := x)) ps v"

lemma put_all_simps [simp]:
  "put_all [] v = v" "put_all ((l, x) # ps) v = put_all ps (v(l := x))"
  "put_all (ps @ qs) v = put_all qs (put_all ps v)"
  by (simp_all add: put_all_def)

lemma put_all_other: "l \<notin> fst ` set ps \<Longrightarrow> put_all ps v l = v l"
  by (induction ps arbitrary: v) (auto simp: put_all_def)

lemma put_all_cong: "v l = w l \<Longrightarrow> put_all ps v l = put_all ps w l"
proof (induction ps arbitrary: v w)
  case (Cons p ps)
  obtain a b where p: "p = (a, b)" by (cases p)
  have "put_all ps (v(a := b)) l = put_all ps (w(a := b)) l" by (rule Cons.IH) (simp add: Cons.prems)
  then show ?case by (simp only: p put_all_simps)
qed simp

lemma put_all_indep: "l \<in> fst ` set ps \<Longrightarrow> put_all ps v l = put_all ps w l"
proof (induction ps arbitrary: v w)
  case (Cons p ps)
  obtain a b where p: "p = (a, b)" by (cases p)
  have "put_all ps (v(a := b)) l = put_all ps (w(a := b)) l"
  proof (cases "l \<in> fst ` set ps")
    case True
    then show ?thesis by (rule Cons.IH)
  next
    case False
    with Cons.prems p show ?thesis by (simp add: put_all_other)
  qed
  then show ?case by (simp only: p put_all_simps)
qed simp

text \<open>Writing again what was partly written before.\<close>

lemma put_all_absorb: "fst ` set qs \<subseteq> fst ` set ps \<Longrightarrow> put_all ps (put_all qs v) l = put_all ps v l"
proof (cases "l \<in> fst ` set ps")
  case True
  then show ?thesis by (rule put_all_indep)
next
  case False
  moreover assume "fst ` set qs \<subseteq> fst ` set ps"
  ultimately have "l \<notin> fst ` set qs" by blast
  with False show ?thesis by (simp add: put_all_other)
qed

lemma put_all_at:
  assumes "distinct (map fst ps)" and "(l, x) \<in> set ps"
  shows "put_all ps v l = x"
  using assms
proof (induction ps arbitrary: v)
  case (Cons p ps)
  obtain a b where p: "p = (a, b)" by (cases p)
  show ?case
  proof (cases "(l, x) = (a, b)")
    case True
    with Cons.prems(1) p have "l \<notin> fst ` set ps" by simp
    with True p show ?thesis by (simp add: put_all_other)
  next
    case False
    with Cons p show ?thesis by auto
  qed
qed simp

lemma put_all_last:
  "map_of (rev ps) l = Some x \<Longrightarrow> put_all ps v l = x"
proof (induction ps rule: rev_induct)
  case (snoc p ps)
  then show ?case by (cases p) (auto split: if_splits)
qed simp

locale sector_store =
  fixes rd :: "u32 \<Rightarrow> 's \<Rightarrow> sector option \<times> 's"
    and wr :: "u32 \<Rightarrow> sector \<Rightarrow> 's \<Rightarrow> bool \<times> 's"
    and sync :: "'s \<Rightarrow> bool \<times> 's"
    and view :: "'s \<Rightarrow> u32 \<Rightarrow> sector"
    and stable :: "'s \<Rightarrow> u32 \<Rightarrow> sector"
    and inv :: "'s \<Rightarrow> bool"
  assumes rd_ok: "inv s \<Longrightarrow> rd l s = (Some x, s') \<Longrightarrow> inv s' \<and> view s' = view s \<and> x = view s l"
    and wr_ok: "inv s \<Longrightarrow> wr l x s = (True, s') \<Longrightarrow> inv s' \<and> view s' = (view s)(l := x)"
    and wr_fail: "inv s \<Longrightarrow> wr l x s = (False, s') \<Longrightarrow> inv s' \<and> view s' = view s"
    and sync_view: "inv s \<Longrightarrow> sync s = (ok, s') \<Longrightarrow> inv s' \<and> view s' = view s"
    and sync_ok: "inv s \<Longrightarrow> sync s = (True, s') \<Longrightarrow> stable s' = view s'"
begin

lemma store_all_ok:
  "inv s \<Longrightarrow> store_all wr ps s = (True, s') \<Longrightarrow> inv s' \<and> view s' = put_all ps (view s)"
proof (induction ps arbitrary: s)
  case (Cons p ps)
  obtain l x where p: "p = (l, x)" by (cases p)
  from Cons.prems(2) obtain s1 where w: "wr l x s = (True, s1)" "store_all wr ps s1 = (True, s')"
    by (auto simp: p split: prod.splits bool.splits)
  note s1 = wr_ok [OF Cons.prems(1) w(1)]
  with Cons.IH [OF _ w(2)] have "inv s' \<and> view s' = put_all ps (view s1)" by blast
  with s1 show ?case by (simp only: p put_all_simps)
qed simp

text \<open>Also when the list is cut short, the view is that of a prefix of the writes.\<close>

lemma store_all_prefix:
  "inv s \<Longrightarrow> store_all wr ps s = (ok, s') \<Longrightarrow>
     inv s' \<and> (\<exists>k \<le> length ps. view s' = put_all (take k ps) (view s))"
proof (induction ps arbitrary: s)
  case (Cons p ps)
  obtain l x where p: "p = (l, x)" by (cases p)
  obtain b s1 where w: "wr l x s = (b, s1)" by (cases "wr l x s")
  show ?case
  proof (cases b)
    case True
    with w Cons.prems(2) have "store_all wr ps s1 = (ok, s')" by (simp add: p)
    with Cons.IH [of s1] wr_ok [OF Cons.prems(1)] w True obtain k where
      "inv s'" "k \<le> length ps" "view s' = put_all (take k ps) ((view s)(l := x))" by auto
    then show ?thesis by (intro conjI exI [of _ "Suc k"]) (simp_all add: p)
  next
    case False
    with w Cons.prems(2) have "s1 = s'" by (simp add: p)
    with wr_fail [OF Cons.prems(1)] w False show ?thesis by (auto intro!: exI [of _ 0])
  qed
qed simp

lemma load_all_ok:
  "inv s \<Longrightarrow> load_all rd ls s = (True, xs, s') \<Longrightarrow>
     inv s' \<and> view s' = view s \<and> xs = map (view s) ls"
proof (induction ls arbitrary: s xs)
  case (Cons l ls)
  from Cons.prems(2) obtain x s1 xs1 where r: "rd l s = (Some x, s1)"
      "load_all rd ls s1 = (True, xs1, s')" "xs = x # xs1"
    by (auto split: prod.splits option.splits)
  with Cons.IH [of s1 xs1] rd_ok [OF Cons.prems(1) r(1)] show ?case by simp
qed simp

end

text \<open>A store on a disk without faults: every request succeeds.\<close>

definition fault_free :: "'d disk_ops \<Rightarrow> bool" where
  "fault_free dk \<longleftrightarrow> disk_ok dk \<and> (\<forall>d l b. fst (dk_read dk d l b)) \<and> (\<forall>d l x. fst (dk_write dk d l x))"

lemma perfect_disk_fault_free: "fault_free perfect_disk"
  using perfect_disk_ok by (simp add: fault_free_def perfect_disk_def)

locale reliable_store = sector_store +
  assumes rd_total: "inv s \<Longrightarrow> \<exists>x s'. rd l s = (Some x, s')"
    and wr_total: "inv s \<Longrightarrow> \<exists>s'. wr l x s = (True, s')"
    and sync_total: "inv s \<Longrightarrow> \<exists>s'. sync s = (True, s')"
begin

lemma rd_eq:
  assumes "inv s"
  obtains s' where "rd l s = (Some (view s l), s')" "inv s'" "view s' = view s"
proof -
  obtain x s' where r: "rd l s = (Some x, s')" using rd_total [OF assms] by blast
  with rd_ok [OF assms r] that show thesis by auto
qed

lemma wr_eq:
  assumes "inv s"
  obtains s' where "wr l x s = (True, s')" "inv s'" "view s' = (view s)(l := x)"
proof -
  obtain s' where r: "wr l x s = (True, s')" using wr_total [OF assms] by blast
  with wr_ok [OF assms r] that show thesis by auto
qed

lemma sync_eq:
  assumes "inv s"
  obtains s' where "sync s = (True, s')" "inv s'" "view s' = view s" "stable s' = view s"
proof -
  obtain s' where r: "sync s = (True, s')" using sync_total [OF assms] by blast
  with sync_view [OF assms r] sync_ok [OF assms r] that show thesis by auto
qed

lemma store_all_total: "inv s \<Longrightarrow> fst (store_all wr ps s)"
proof (induction ps arbitrary: s)
  case (Cons p ps)
  obtain l x where p: "p = (l, x)" by (cases p)
  obtain s' where "wr l x s = (True, s')" "inv s'" using wr_eq [OF Cons.prems] by metis
  with Cons.IH [of s'] show ?case by (simp add: p)
qed simp

text \<open>Copying sectors one after the other, each source read before its target is written.\<close>

lemma copy_all:
  assumes "inv s" and "\<And>a s. step a s = (case rd (src a) s of (None, s) \<Rightarrow> s | (Some x, s) \<Rightarrow> snd (wr (dst a) x s))"
  shows "inv (fold step as s) \<and>
    view (fold step as s) = fold (\<lambda>a v. v(dst a := v (src a))) as (view s)"
  using assms(1)
proof (induction as arbitrary: s)
  case (Cons a as)
  obtain s1 where r: "rd (src a) s = (Some (view s (src a)), s1)" "inv s1" "view s1 = view s"
    using rd_eq [OF Cons.prems] by metis
  obtain s2 where w: "wr (dst a) (view s (src a)) s1 = (True, s2)" "inv s2"
      "view s2 = (view s1)(dst a := view s (src a))"
    using wr_eq [OF r(2)] by metis
  have "step a s = s2" using r(1) w(1) by (simp add: assms(2))
  with Cons.IH [OF w(2)] w(3) r(3) show ?case by (simp only: fold_simps)
qed simp

end

end
