(* ===== verification/KFsCache.thy ===== *)
theory KFsCache
  imports KSectors
begin

text \<open>
  The write-back sector cache, src/kernel/fs_cache.cpp: FS_CACHE_SLOTS slots, looked up by
  LBA, filled on a miss, evicted by least recent stamp with write-back of a dirty victim.
  Its contract is \<open>sector_store\<close>: reads return the last write, whatever is cached.
\<close>

definition FS_CACHE_SLOTS :: nat where "FS_CACHE_SLOTS = 256"

abbreviation (input) FS_SECTOR_SIZE :: nat where "FS_SECTOR_SIZE \<equiv> 512"

record cache_slot =
  sused :: bool
  dirty :: bool
  slba :: u32
  stamp :: u32
  sdata :: sector

record 'd fs_cache =
  slots :: "cache_slot list"
  clock :: u32
  hits :: u32
  misses :: u32
  cready :: bool
  dev :: 'd
  dops :: "'d disk_ops"

definition disk_read_sector :: "u32 \<Rightarrow> sector \<Rightarrow> 'd fs_cache \<Rightarrow> bool \<times> sector \<times> 'd fs_cache" where
  "disk_read_sector l b c = (case dk_read (dops c) (dev c) l b of (ok, b', d) \<Rightarrow> (ok, b', c\<lparr>dev := d\<rparr>))"

definition disk_write_sector :: "u32 \<Rightarrow> sector \<Rightarrow> 'd fs_cache \<Rightarrow> bool \<times> 'd fs_cache" where
  "disk_write_sector l x c = (case dk_write (dops c) (dev c) l x of (ok, d) \<Rightarrow> (ok, c\<lparr>dev := d\<rparr>))"

definition fs_cache_init :: "'d fs_cache \<Rightarrow> 'd fs_cache" where
  "fs_cache_init c =
     c\<lparr>slots := replicate FS_CACHE_SLOTS
         \<lparr>sused = False, dirty = False, slba = 0, stamp = 0, sdata = replicate FS_SECTOR_SIZE 0\<rparr>,
       clock := 1, hits := 0, misses := 0, cready := True\<rparr>"

definition fs_cache_invalidate_all :: "'d fs_cache \<Rightarrow> 'd fs_cache" where
  "fs_cache_invalidate_all c = c\<lparr>slots := map (\<lambda>s. s\<lparr>sused := False, dirty := False\<rparr>) (slots c)\<rparr>"

definition slot_find :: "u32 \<Rightarrow> 'd fs_cache \<Rightarrow> nat option" where
  "slot_find l c = find_slot (\<lambda>s. sused s \<and> slba s = l) (slots c)"

text \<open>The second loop of slot_evict, from slot i on: the first slot with the least stamp. (Of
  the first loop only the search for an unused slot has an effect: the clean victim it
  picks is overwritten by \<^verbatim>\<open>best = 0\<close>.)\<close>

fun oldest :: "nat \<Rightarrow> nat \<Rightarrow> u32 \<Rightarrow> cache_slot list \<Rightarrow> nat" where
  "oldest i best best_stamp [] = best"
| "oldest i best best_stamp (s # ss) =
     (if stamp s < best_stamp then oldest (i + 1) i (stamp s) ss else oldest (i + 1) best best_stamp ss)"

definition set_slot :: "nat \<Rightarrow> (cache_slot \<Rightarrow> cache_slot) \<Rightarrow> 'd fs_cache \<Rightarrow> 'd fs_cache" where
  "set_slot i f c = c\<lparr>slots := (slots c)[i := f (slots c ! i)]\<rparr>"

definition slot_evict :: "'d fs_cache \<Rightarrow> nat option \<times> 'd fs_cache" where
  "slot_evict c =
     (case find_slot (\<lambda>s. \<not> sused s) (slots c) of
        Some i \<Rightarrow> (Some i, c)
      | None \<Rightarrow>
          let best = oldest 1 0 (stamp (slots c ! 0)) (tl (slots c)); v = slots c ! best in
          if dirty v then
            (case disk_write_sector (slba v) (sdata v) c of
               (False, c) \<Rightarrow> (None, c)
             | (True, c) \<Rightarrow> (Some best, set_slot best (\<lambda>s. s\<lparr>dirty := False\<rparr>) c))
          else (Some best, c))"

text \<open>The loop of fs_cache_sync from slot i, n slots left.\<close>

fun sync_from :: "nat \<Rightarrow> nat \<Rightarrow> 'd fs_cache \<Rightarrow> bool \<times> 'd fs_cache" where
  "sync_from i 0 c = (True, c)"
| "sync_from i (Suc n) c =
     (let s = slots c ! i in
      if sused s \<and> dirty s then
        (case disk_write_sector (slba s) (sdata s) c of
           (False, c) \<Rightarrow> (False, c)
         | (True, c) \<Rightarrow> sync_from (i + 1) n (set_slot i (\<lambda>s. s\<lparr>dirty := False\<rparr>) c))
      else sync_from (i + 1) n c)"

definition fs_cache_sync :: "'d fs_cache \<Rightarrow> bool \<times> 'd fs_cache" where
  "fs_cache_sync c = (if \<not> cready c then (True, c) else sync_from 0 FS_CACHE_SLOTS c)"

definition fs_cache_read_sector :: "u32 \<Rightarrow> 'd fs_cache \<Rightarrow> sector option \<times> 'd fs_cache" where
  "fs_cache_read_sector l c =
     (if \<not> cready c then
        (case disk_read_sector l (replicate FS_SECTOR_SIZE 0) c of
           (True, b, c) \<Rightarrow> (Some b, c) | (False, b, c) \<Rightarrow> (None, c))
      else case slot_find l c of
        Some i \<Rightarrow>
          (let c = c\<lparr>hits := hits c + 1, clock := clock c + 1\<rparr>;
               c = set_slot i (\<lambda>s. s\<lparr>stamp := clock c\<rparr>) c
           in (Some (sdata (slots c ! i)), c))
      | None \<Rightarrow>
          (case slot_evict (c\<lparr>misses := misses c + 1\<rparr>) of
             (None, c) \<Rightarrow> (None, c)
           | (Some i, c) \<Rightarrow>
               (case disk_read_sector l (sdata (slots c ! i)) c of
                  (False, b, c) \<Rightarrow> (None, set_slot i (\<lambda>s. s\<lparr>sdata := b\<rparr>) c)
                | (True, b, c) \<Rightarrow>
                    (let c = c\<lparr>clock := clock c + 1\<rparr>;
                         c = set_slot i (\<lambda>s. s\<lparr>sdata := b, sused := True, dirty := False, slba := l,
                                               stamp := clock c\<rparr>) c
                     in (Some (sdata (slots c ! i)), c)))))"

definition fs_cache_write_sector :: "u32 \<Rightarrow> sector \<Rightarrow> 'd fs_cache \<Rightarrow> bool \<times> 'd fs_cache" where
  "fs_cache_write_sector l x c =
     (if \<not> cready c then disk_write_sector l x c
      else case (case slot_find l c of
                   Some i \<Rightarrow> (Some i, c)
                 | None \<Rightarrow>
                     (case slot_evict c of
                        (None, c) \<Rightarrow> (None, c)
                      | (Some i, c) \<Rightarrow> (Some i, set_slot i (\<lambda>s. s\<lparr>sused := True, slba := l\<rparr>) c))) of
        (None, c) \<Rightarrow> (False, c)
      | (Some i, c) \<Rightarrow>
          (let c = c\<lparr>clock := clock c + 1\<rparr> in
           (True, set_slot i (\<lambda>s. s\<lparr>sdata := x, dirty := True, stamp := clock c\<rparr>) c)))"

definition fs_cache_read_sectors :: "u32 \<Rightarrow> nat \<Rightarrow> 'd fs_cache \<Rightarrow> bool \<times> sector list \<times> 'd fs_cache" where
  "fs_cache_read_sectors l n c = load_all fs_cache_read_sector (map (\<lambda>i. l + of_nat i) [0..<n]) c"

definition fs_cache_write_sectors :: "u32 \<Rightarrow> sector list \<Rightarrow> 'd fs_cache \<Rightarrow> bool \<times> 'd fs_cache" where
  "fs_cache_write_sectors l xs c =
     store_all fs_cache_write_sector (zip (map (\<lambda>i. l + of_nat i) [0..<length xs]) xs) c"

definition fs_cache_hits :: "'d fs_cache \<Rightarrow> u32" where "fs_cache_hits c = hits c"

definition fs_cache_misses :: "'d fs_cache \<Rightarrow> u32" where "fs_cache_misses c = misses c"

section \<open>Coherence of a table of slots with a medium\<close>

abbreviation holds :: "u32 \<Rightarrow> cache_slot \<Rightarrow> bool" where
  "holds l s \<equiv> sused s \<and> slba s = l"

definition slots_view :: "cache_slot list \<Rightarrow> (u32 \<Rightarrow> sector) \<Rightarrow> u32 \<Rightarrow> sector" where
  "slots_view ss m l = (case find_slot (holds l) ss of Some i \<Rightarrow> sdata (ss ! i) | None \<Rightarrow> m l)"

text \<open>No LBA is cached twice, and a clean slot agrees with the medium.\<close>

definition coherent :: "cache_slot list \<Rightarrow> (u32 \<Rightarrow> sector) \<Rightarrow> bool" where
  "coherent ss m \<longleftrightarrow> length ss = FS_CACHE_SLOTS \<and>
     (\<forall>i < length ss. \<forall>j < length ss. \<forall>l. holds l (ss ! i) \<and> holds l (ss ! j) \<longrightarrow> i = j) \<and>
     (\<forall>i < length ss. sused (ss ! i) \<and> \<not> dirty (ss ! i) \<longrightarrow> sdata (ss ! i) = m (slba (ss ! i)))"

lemma coherent_unique:
  "coherent ss m \<Longrightarrow> i < length ss \<Longrightarrow> j < length ss \<Longrightarrow> holds l (ss ! i) \<Longrightarrow> holds l (ss ! j) \<Longrightarrow> i = j"
  unfolding coherent_def by blast

lemma coherent_clean:
  "coherent ss m \<Longrightarrow> i < length ss \<Longrightarrow> holds l (ss ! i) \<Longrightarrow> \<not> dirty (ss ! i) \<Longrightarrow> sdata (ss ! i) = m l"
  unfolding coherent_def by blast

lemma slots_view_hit:
  assumes "coherent ss m" and "i < length ss" and "holds l (ss ! i)"
  shows "slots_view ss m l = sdata (ss ! i)"
proof -
  obtain j where j: "find_slot (holds l) ss = Some j" using find_slot_ex [of i ss "holds l"] assms by blast
  then have "j < length ss" "holds l (ss ! j)" by (auto dest: find_slot_SomeD)
  with coherent_unique [OF assms(1,2)] assms(3) have "j = i" by blast
  with j show ?thesis by (simp add: slots_view_def)
qed

lemma slots_view_miss:
  "\<forall>j < length ss. \<not> holds l (ss ! j) \<Longrightarrow> slots_view ss m l = m l"
  by (auto simp: slots_view_def slot_simps find_slot_Some split: option.splits)

text \<open>Making slot i hold sector l: it already does, or it is free to be reused.\<close>

lemma slots_replace:
  assumes "coherent ss m" and "i < length ss"
    and "holds l (ss ! i) \<or> (\<forall>j < length ss. \<not> holds l (ss ! j)) \<and> (sused (ss ! i) \<longrightarrow> \<not> dirty (ss ! i))"
    and "holds l s'" and "\<not> dirty s' \<Longrightarrow> sdata s' = m l"
  shows "coherent (ss[i := s']) m" "slots_view (ss[i := s']) m = (slots_view ss m)(l := sdata s')"
proof -
  have other: "j = i" if "j < length ss" "holds l (ss ! j)" for j
    using assms(3) that coherent_unique [OF assms(1,2), of j l] by blast
  show co: "coherent (ss[i := s']) m"
    unfolding coherent_def
  proof (intro conjI allI impI)
    show "length (ss[i := s']) = FS_CACHE_SLOTS" using assms(1) by (simp add: coherent_def)
  next
    fix a b k
    assume "a < length (ss[i := s'])" "b < length (ss[i := s'])"
      and h: "holds k (ss[i := s'] ! a) \<and> holds k (ss[i := s'] ! b)"
    then have ab: "a < length ss" "b < length ss" by auto
    show "a = b"
    proof (cases "k = l")
      case True
      have "a = i" using h ab(1) True by (cases "a = i") (auto intro: other)
      moreover have "b = i" using h ab(2) True by (cases "b = i") (auto intro: other)
      ultimately show ?thesis by simp
    next
      case False
      with h ab assms(4) have n: "a \<noteq> i" "b \<noteq> i" by auto
      then have "holds k (ss ! a)" "holds k (ss ! b)" using h by simp_all
      then show ?thesis by (rule coherent_unique [OF assms(1) ab])
    qed
  next
    fix a
    assume "a < length (ss[i := s'])" "sused (ss[i := s'] ! a) \<and> \<not> dirty (ss[i := s'] ! a)"
    then show "sdata (ss[i := s'] ! a) = m (slba (ss[i := s'] ! a))"
      using assms(4,5) coherent_clean [OF assms(1), of a] by (cases "a = i") auto
  qed
  show "slots_view (ss[i := s']) m = (slots_view ss m)(l := sdata s')"
  proof
    fix k
    consider "k = l" | j where "k \<noteq> l" "j \<noteq> i" "j < length ss" "holds k (ss ! j)"
      | "k \<noteq> l" "\<forall>j < length ss. j \<noteq> i \<longrightarrow> \<not> holds k (ss ! j)" by blast
    then show "slots_view (ss[i := s']) m k = ((slots_view ss m)(l := sdata s')) k"
    proof cases
      case 1
      then show ?thesis using slots_view_hit [OF co, of i l] assms(2,4) by simp
    next
      case (2 j)
      then show ?thesis
        using slots_view_hit [OF co, of j k] slots_view_hit [OF assms(1), of j k] by simp
    next
      case 3
      have "slots_view (ss[i := s']) m k = m k"
        using 3 assms(2,4) by (intro slots_view_miss) (auto simp: nth_list_update)
      moreover have "slots_view ss m k = m k"
      proof (cases "holds k (ss ! i)")
        case True
        with assms(3) 3(1) have "\<not> dirty (ss ! i)" by auto
        with coherent_clean [OF assms(1,2) True] slots_view_hit [OF assms(1,2) True] show ?thesis by simp
      next
        case False
        with 3(2) have "\<forall>j < length ss. \<not> holds k (ss ! j)" by blast
        then show ?thesis by (rule slots_view_miss)
      qed
      ultimately show ?thesis using 3(1) by simp
    qed
  qed
qed

text \<open>A write of the sector of a dirty slot, successful or not, cannot be observed.\<close>

lemma slots_write_back:
  assumes "coherent ss m" and "i < length ss" and "holds l (ss ! i)" and "dirty (ss ! i)"
    and "\<And>k. k \<noteq> l \<Longrightarrow> m' k = m k"
  shows "coherent ss m'" "slots_view ss m' = slots_view ss m"
proof -
  have o: "j = i" if "j < length ss" "holds l (ss ! j)" for j
    using coherent_unique [OF assms(1,2) that(1) assms(3) that(2)] by simp
  show "coherent ss m'"
    unfolding coherent_def
  proof (intro conjI allI impI)
    show "length ss = FS_CACHE_SLOTS" using assms(1) by (simp add: coherent_def)
    show "a = b" if "a < length ss" "b < length ss" "holds k (ss ! a) \<and> holds k (ss ! b)" for a b k
      using coherent_unique [OF assms(1) that(1,2)] that(3) by blast
    show "sdata (ss ! a) = m' (slba (ss ! a))" if a: "a < length ss" "sused (ss ! a) \<and> \<not> dirty (ss ! a)" for a
    proof -
      have "slba (ss ! a) \<noteq> l" using o [OF a(1)] a(2) assms(4) by blast
      with coherent_clean [OF assms(1) a(1), of "slba (ss ! a)"] a(2) show ?thesis by (simp add: assms(5))
    qed
  qed
  show "slots_view ss m' = slots_view ss m"
  proof
    fix k
    obtain j where "find_slot (holds l) ss = Some j" using find_slot_ex [of i ss "holds l"] assms(2,3) by blast
    then show "slots_view ss m' k = slots_view ss m k"
      by (cases "k = l") (simp_all add: slots_view_def assms(5) split: option.split)
  qed
qed

section \<open>The cache implements the sector store\<close>

abbreviation cmedia :: "'d fs_cache \<Rightarrow> u32 \<Rightarrow> sector" where
  "cmedia c \<equiv> media (dops c) (dev c)"

text \<open>What a sector is, as seen through the cache.\<close>

definition cview :: "'d fs_cache \<Rightarrow> u32 \<Rightarrow> sector" where
  "cview c = slots_view (slots c) (cmedia c)"

definition cache_inv :: "'d fs_cache \<Rightarrow> bool" where
  "cache_inv c \<longleftrightarrow> cready c \<and> disk_ok (dops c) \<and> coherent (slots c) (cmedia c)"


lemma slot_find_None: "slot_find l c = None \<longleftrightarrow> (\<forall>j < length (slots c). \<not> holds l (slots c ! j))"
  by (simp add: slot_find_def slot_simps all_set_conv_all_nth)

lemma slot_find_Some: "slot_find l c = Some i \<Longrightarrow> i < length (slots c) \<and> holds l (slots c ! i)"
  by (auto simp: slot_find_def dest: find_slot_SomeD)

lemma cache_inv_dev:
  assumes "cache_inv c" and "media (dops c) d = cmedia c"
  shows "cache_inv (c\<lparr>dev := d\<rparr>)" "cview (c\<lparr>dev := d\<rparr>) = cview c"
  using assms by (simp_all add: cache_inv_def cview_def)

lemma cache_write_back:
  assumes "cache_inv c" and "i < length (slots c)" and "sused (slots c ! i)" and "dirty (slots c ! i)"
    and "disk_write_sector (slba (slots c ! i)) (sdata (slots c ! i)) c = (ok, c')"
  shows "cache_inv c' \<and> cview c' = cview c \<and> slots c' = slots c"
    and "ok \<Longrightarrow> cmedia c' (slba (slots c ! i)) = sdata (slots c ! i)"
proof -
  obtain d where d: "dk_write (dops c) (dev c) (slba (slots c ! i)) (sdata (slots c ! i)) = (ok, d)"
      and c': "c' = c\<lparr>dev := d\<rparr>"
    using assms(5) by (auto simp: disk_write_sector_def split: prod.splits)
  have dk: "disk_ok (dops c)" using assms(1) by (simp add: cache_inv_def)
  note w = disk_ok_write [OF dk d]
  have co: "coherent (slots c) (cmedia c)" using assms(1) by (simp add: cache_inv_def)
  have h: "holds (slba (slots c ! i)) (slots c ! i)" using assms(3) by simp
  show "cache_inv c' \<and> cview c' = cview c \<and> slots c' = slots c"
    using slots_write_back [OF co assms(2) h assms(4), of "media (dops c) d"] w(1) assms(1)
    by (simp add: c' cache_inv_def cview_def)
  show "ok \<Longrightarrow> cmedia c' (slba (slots c ! i)) = sdata (slots c ! i)"
    using w(2) by (simp add: c')
qed

lemma cache_replace:
  assumes "cache_inv c" and "i < length (slots c)"
    and "holds l (slots c ! i) \<or> slot_find l c = None \<and> (sused (slots c ! i) \<longrightarrow> \<not> dirty (slots c ! i))"
    and "holds l (f (slots c ! i))" and "\<not> dirty (f (slots c ! i)) \<Longrightarrow> sdata (f (slots c ! i)) = cmedia c l"
  shows "cache_inv (set_slot i f c)" "cview (set_slot i f c) = (cview c)(l := sdata (f (slots c ! i)))"
proof -
  have co: "coherent (slots c) (cmedia c)" using assms(1) by (simp add: cache_inv_def)
  have "holds l (slots c ! i) \<or> (\<forall>j < length (slots c). \<not> holds l (slots c ! j)) \<and>
      (sused (slots c ! i) \<longrightarrow> \<not> dirty (slots c ! i))"
    using assms(3) by (simp add: slot_find_None)
  from slots_replace [OF co assms(2) this assms(4,5)] assms(1)
  show "cache_inv (set_slot i f c)" "cview (set_slot i f c) = (cview c)(l := sdata (f (slots c ! i)))"
    by (simp_all add: cache_inv_def cview_def set_slot_def)
qed

lemma cview_hit: "cache_inv c \<Longrightarrow> i < length (slots c) \<Longrightarrow> holds l (slots c ! i) \<Longrightarrow> cview c l = sdata (slots c ! i)"
  by (simp add: cache_inv_def cview_def slots_view_hit)

lemma cview_miss: "slot_find l c = None \<Longrightarrow> cview c l = cmedia c l"
  by (simp add: slot_find_None cview_def slots_view_miss)

lemma clean_slot:
  assumes "cache_inv c" and "i < length (slots c)" and "sused (slots c ! i)"
    and "cmedia c (slba (slots c ! i)) = sdata (slots c ! i)"
  defines "c' \<equiv> set_slot i (\<lambda>s. s\<lparr>dirty := False\<rparr>) c"
  shows "cache_inv c'" "cview c' = cview c"
  using cache_replace [OF assms(1,2), of "slba (slots c ! i)" "\<lambda>s. s\<lparr>dirty := False\<rparr>"]
    cview_hit [OF assms(1,2), of "slba (slots c ! i)"] assms(3,4)
  by (simp_all add: c'_def fun_upd_idem)

section \<open>Eviction\<close>

lemma oldest_bound:
  "best < n \<Longrightarrow> i + length ss \<le> n \<Longrightarrow> oldest i best bs ss < n"
  by (induction i best bs ss rule: oldest.induct) auto

lemma oldest_least:
  assumes "pre @ ss = all" and "length pre = i" and "best < i" and "bs = stamp (all ! best)"
    and "\<forall>j < i. bs \<le> stamp (all ! j)"
  shows "\<forall>j < length all. stamp (all ! oldest i best bs ss) \<le> stamp (all ! j)"
  using assms
proof (induction i best bs ss arbitrary: pre rule: oldest.induct)
  case (1 i best bs)
  then show ?case by simp
next
  case (2 i best bs s ss)
  have s: "all ! i = s" "(pre @ [s]) @ ss = all" "length (pre @ [s]) = i + 1" using "2.prems"(1,2) by auto
  show ?case
  proof (cases "stamp s < bs")
    case True
    have "\<forall>j < i + 1. stamp s \<le> stamp (all ! j)"
      using "2.prems"(5) True s(1) by (auto simp: less_Suc_eq intro: order.trans less_imp_le)
    with "2.IH"(1) [OF True s(2,3)] s(1) True show ?thesis by simp
  next
    case False
    have "\<forall>j < i + 1. bs \<le> stamp (all ! j)"
      using "2.prems"(5) False s(1) by (auto simp: less_Suc_eq)
    with "2.IH"(2) [OF False s(2,3)] "2.prems"(3,4) False show ?thesis by simp
  qed
qed

lemma cache_slots_pos: "cache_inv c \<Longrightarrow> length (slots c) = FS_CACHE_SLOTS \<and> 0 < length (slots c)"
  by (simp add: cache_inv_def coherent_def FS_CACHE_SLOTS_def)

lemma slot_evict_ok:
  assumes "cache_inv c" and "slot_evict c = (r, c')"
  shows "cache_inv c'" "cview c' = cview c" "slot_find l c' = slot_find l c"
    "r = Some i \<Longrightarrow> i < length (slots c') \<and> (sused (slots c' ! i) \<longrightarrow> \<not> dirty (slots c' ! i))"
proof -
  let ?b = "oldest 1 0 (stamp (slots c ! 0)) (tl (slots c))"
  note n = cache_slots_pos [OF assms(1)]
  have b: "?b < length (slots c)" using n by (intro oldest_bound) (auto simp: FS_CACHE_SLOTS_def)
  have "cache_inv c' \<and> cview c' = cview c \<and> slot_find l c' = slot_find l c \<and>
    (r = Some i \<longrightarrow> i < length (slots c') \<and> (sused (slots c' ! i) \<longrightarrow> \<not> dirty (slots c' ! i)))"
  proof (cases "find_slot (\<lambda>s. \<not> sused s) (slots c)")
    case (Some j)
    with assms show ?thesis by (auto simp: slot_evict_def dest: find_slot_SomeD)
  next
    case None
    then have u: "sused (slots c ! ?b)" using b by (auto simp: slot_simps)
    show ?thesis
    proof (cases "dirty (slots c ! ?b)")
      case False
      with None assms b show ?thesis by (auto simp: slot_evict_def Let_def)
    next
      case True
      obtain ok c1 where w: "disk_write_sector (slba (slots c ! ?b)) (sdata (slots c ! ?b)) c = (ok, c1)"
        by (cases "disk_write_sector (slba (slots c ! ?b)) (sdata (slots c ! ?b)) c")
      note wb = cache_write_back [OF assms(1) b u True w]
      show ?thesis
      proof (cases ok)
        case False
        with w None True assms(2) wb show ?thesis by (auto simp: slot_evict_def Let_def slot_find_def)
      next
        case ok: True
        have c': "r = Some ?b" "c' = set_slot ?b (\<lambda>s. s\<lparr>dirty := False\<rparr>) c1"
          using w None True assms(2) ok by (auto simp: slot_evict_def Let_def)
        have "cache_inv c'" "cview c' = cview c1"
          using clean_slot [of c1 ?b] wb ok b u by (simp_all add: c')
        moreover have "map (\<lambda>s. (sused s, slba s)) (slots c') = map (\<lambda>s. (sused s, slba s)) (slots c)"
          using wb(1) b by (simp add: c' set_slot_def map_update list_update_same_conv [THEN iffD2])
        then have "slot_find l c' = slot_find l c" unfolding slot_find_def by (rule find_slot_map_eq) auto
        ultimately show ?thesis using wb(1) b by (simp add: c' set_slot_def)
      qed
    qed
  qed
  then show "cache_inv c'" "cview c' = cview c" "slot_find l c' = slot_find l c"
    "r = Some i \<Longrightarrow> i < length (slots c') \<and> (sused (slots c' ! i) \<longrightarrow> \<not> dirty (slots c' ! i))"
    by auto
qed


section \<open>Reads, writes and sync\<close>

lemma cache_inv_counters [simp]:
  "cache_inv (c\<lparr>hits := a\<rparr>) = cache_inv c" "cache_inv (c\<lparr>misses := a\<rparr>) = cache_inv c"
  "cache_inv (c\<lparr>clock := a\<rparr>) = cache_inv c" "cview (c\<lparr>hits := a\<rparr>) = cview c"
  "cview (c\<lparr>misses := a\<rparr>) = cview c" "cview (c\<lparr>clock := a\<rparr>) = cview c"
  "slot_find l (c\<lparr>hits := a\<rparr>) = slot_find l c" "slot_find l (c\<lparr>misses := a\<rparr>) = slot_find l c"
  "slot_find l (c\<lparr>clock := a\<rparr>) = slot_find l c"
  by (simp_all add: cache_inv_def cview_def slot_find_def)

lemma slots_set_slot [simp]: "i < length (slots c) \<Longrightarrow> slots (set_slot i f c) ! i = f (slots c ! i)"
  by (simp add: set_slot_def)

lemma read_hit_ok:
  fixes k :: u32
  assumes "cache_inv c" and "slot_find l c = Some i"
  defines "c' \<equiv> set_slot i (\<lambda>s. s\<lparr>stamp := k\<rparr>) c"
  shows "cache_inv c'" "cview c' = cview c" "sdata (slots c' ! i) = cview c l"
proof -
  have i: "i < length (slots c)" "holds l (slots c ! i)" using slot_find_Some [OF assms(2)] by auto
  note v = cview_hit [OF assms(1) i]
  have cl: "\<not> dirty (slots c ! i) \<Longrightarrow> sdata (slots c ! i) = cmedia c l"
    using coherent_clean [of "slots c" "cmedia c" i l] assms(1) i by (simp add: cache_inv_def)
  show "cache_inv c'" "cview c' = cview c"
    using cache_replace [OF assms(1) i(1), of l "\<lambda>s. s\<lparr>stamp := k\<rparr>"] i(2) cl v
    by (simp_all add: c'_def fun_upd_idem)
  show "sdata (slots c' ! i) = cview c l" using i(1) v by (simp add: c'_def)
qed

lemma fs_cache_read_ok:
  assumes "cache_inv c" and "fs_cache_read_sector l c = (Some x, c')"
  shows "cache_inv c' \<and> cview c' = cview c \<and> x = cview c l"
proof (cases "slot_find l c")
  case (Some i)
  let ?c = "c\<lparr>hits := hits c + 1, clock := clock c + 1\<rparr>"
  have "cache_inv ?c" "slot_find l ?c = Some i" using assms(1) Some by simp_all
  from read_hit_ok [OF this, of "clock c + 1"] assms Some show ?thesis
    by (auto simp: fs_cache_read_sector_def cache_inv_def Let_def)
next
  case None
  obtain i c1 where e: "slot_evict (c\<lparr>misses := misses c + 1\<rparr>) = (Some i, c1)"
    using assms None
    by (auto simp: fs_cache_read_sector_def cache_inv_def split: prod.splits option.splits)
  have inv: "cache_inv (c\<lparr>misses := misses c + 1\<rparr>)" using assms(1) by simp
  note ev = slot_evict_ok [OF inv e]
  have i: "i < length (slots c1)" "sused (slots c1 ! i) \<longrightarrow> \<not> dirty (slots c1 ! i)" using ev(4) by auto
  have m: "slot_find l c1 = None" using ev(3) None by simp
  obtain b d where rd: "dk_read (dops c1) (dev c1) l (sdata (slots c1 ! i)) = (True, b, d)"
    using assms None e
    by (auto simp: fs_cache_read_sector_def cache_inv_def disk_read_sector_def split: prod.splits bool.splits)
  have dk: "disk_ok (dops c1)" using ev(1) by (simp add: cache_inv_def)
  note r = disk_ok_read [OF dk rd, simplified]
  let ?c2 = "c1\<lparr>dev := d, clock := clock c1 + 1\<rparr>"
  let ?f = "\<lambda>s. s\<lparr>sdata := b, sused := True, dirty := False, slba := l, stamp := clock c1 + 1\<rparr>"
  have c': "c' = set_slot i ?f ?c2" "x = b"
    using assms None e rd i(1)
    by (auto simp: fs_cache_read_sector_def cache_inv_def disk_read_sector_def Let_def set_slot_def)
  have c2: "cache_inv ?c2" "cview ?c2 = cview c1" "slot_find l ?c2 = None"
    using cache_inv_dev [OF ev(1) r(1)] m by (simp_all add: slot_find_def)
  have v: "b = cview c l" using cview_miss [OF m] r ev(2) by simp
  have "cache_inv c'" "cview c' = (cview ?c2)(l := b)"
    using cache_replace [OF c2(1), of i l ?f] i c2(3) r by (simp_all add: c')
  with c2(2) ev(2) v show ?thesis by (simp add: c'(2) fun_upd_idem)
qed

lemma fs_cache_write_ok:
  assumes "cache_inv c" and "fs_cache_write_sector l x c = (ok, c')"
  shows "cache_inv c' \<and> cview c' = (if ok then (cview c)(l := x) else cview c)"
proof (cases "slot_find l c")
  case (Some i)
  then have i: "i < length (slots c)" "holds l (slots c ! i)" using slot_find_Some [OF Some] by auto
  let ?c = "c\<lparr>clock := clock c + 1\<rparr>" and ?f = "\<lambda>s. s\<lparr>sdata := x, dirty := True, stamp := clock c + 1\<rparr>"
  have "ok" "c' = set_slot i ?f ?c"
    using assms Some by (auto simp: fs_cache_write_sector_def cache_inv_def Let_def)
  with cache_replace [of ?c i l ?f] assms(1) i show ?thesis by simp
next
  case None
  obtain r c1 where e: "slot_evict c = (r, c1)" by (cases "slot_evict c")
  note ev = slot_evict_ok [OF assms(1) e]
  show ?thesis
  proof (cases r)
    case None
    with \<open>slot_find l c = None\<close> e ev assms show ?thesis
      by (auto simp: fs_cache_write_sector_def cache_inv_def)
  next
    case (Some i)
    let ?c = "c1\<lparr>clock := clock c1 + 1\<rparr>"
    let ?f = "\<lambda>s. s\<lparr>sused := True, slba := l, sdata := x, dirty := True, stamp := clock c1 + 1\<rparr>"
    have i: "i < length (slots c1)" "sused (slots c1 ! i) \<longrightarrow> \<not> dirty (slots c1 ! i)"
      using ev(4) Some by auto
    have "ok" "c' = set_slot i ?f ?c"
      using assms \<open>slot_find l c = None\<close> e Some i(1)
      by (auto simp: fs_cache_write_sector_def cache_inv_def Let_def set_slot_def)
    with cache_replace [of ?c i l ?f] ev(1,2,3) i None show ?thesis by simp
  qed
qed

lemma sync_from_ok:
  assumes "cache_inv c" and "i + n \<le> length (slots c)" and "sync_from i n c = (ok, c')"
  shows "cache_inv c' \<and> cview c' = cview c \<and> (\<forall>j < i. slots c' ! j = slots c ! j) \<and>
    (ok \<longrightarrow> (\<forall>j \<in> {i..<i + n}. \<not> (sused (slots c' ! j) \<and> dirty (slots c' ! j))))"
  using assms
proof (induction i n c rule: sync_from.induct)
  case (1 i c)
  then show ?case by auto
next
  case (2 i n c)
  have i: "i < length (slots c)" using "2.prems"(2) by simp
  have ivl: "{i..<i + Suc n} = insert i {i + 1..<i + 1 + n}" by auto
  show ?case
  proof (cases "sused (slots c ! i) \<and> dirty (slots c ! i)")
    case False
    with "2.prems" "2.IH"(2) [OF refl False] show ?thesis unfolding ivl by simp
  next
    case True
    obtain b c1 where w: "disk_write_sector (slba (slots c ! i)) (sdata (slots c ! i)) c = (b, c1)"
      by (cases "disk_write_sector (slba (slots c ! i)) (sdata (slots c ! i)) c")
    note wb = cache_write_back [OF "2.prems"(1) i _ _ w]
    show ?thesis
    proof (cases b)
      case False
      with "2.prems"(3) True w wb show ?thesis by auto
    next
      case b: True
      let ?c2 = "set_slot i (\<lambda>s. s\<lparr>dirty := False\<rparr>) c1"
      have c2: "cache_inv ?c2" "cview ?c2 = cview c" "length (slots ?c2) = length (slots c)"
        "\<forall>j < i. slots ?c2 ! j = slots c ! j" "\<not> dirty (slots ?c2 ! i)"
        using clean_slot [of c1 i] wb True b i by (auto simp: set_slot_def)
      have "sync_from (i + 1) n ?c2 = (ok, c')" using "2.prems"(3) True w b by simp
      with "2.IH"(1) [OF refl True w [symmetric]] b c2 "2.prems"(2)
      show ?thesis unfolding ivl by simp
    qed
  qed
qed


lemma all_clean_stable:
  assumes "cache_inv c" and "\<forall>j < length (slots c). \<not> (sused (slots c ! j) \<and> dirty (slots c ! j))"
  shows "cmedia c = cview c"
proof
  fix l
  show "cmedia c l = cview c l"
  proof (cases "slot_find l c")
    case None
    then show ?thesis by (simp add: cview_miss)
  next
    case (Some i)
    then have i: "i < length (slots c)" "holds l (slots c ! i)" using slot_find_Some [OF Some] by auto
    with assms coherent_clean [of "slots c" "cmedia c" i l] show ?thesis
      by (simp add: cview_hit [OF assms(1) i] cache_inv_def)
  qed
qed

lemma fs_cache_sync_ok:
  assumes "cache_inv c" and "fs_cache_sync c = (ok, c')"
  shows "cache_inv c' \<and> cview c' = cview c \<and> (ok \<longrightarrow> cmedia c' = cview c')"
proof -
  note n = cache_slots_pos [OF assms(1)]
  have "sync_from 0 FS_CACHE_SLOTS c = (ok, c')"
    using assms by (simp add: fs_cache_sync_def cache_inv_def)
  from sync_from_ok [OF assms(1) _ this] n have s: "cache_inv c'" "cview c' = cview c"
    "ok \<longrightarrow> (\<forall>j \<in> {0..<FS_CACHE_SLOTS}. \<not> (sused (slots c' ! j) \<and> dirty (slots c' ! j)))" by auto
  with cache_slots_pos [OF s(1)] all_clean_stable [OF s(1)] show ?thesis by auto
qed

interpretation cs: sector_store fs_cache_read_sector fs_cache_write_sector fs_cache_sync cview cmedia cache_inv
proof
  fix s s' :: "'d fs_cache" and l x ok
  assume inv: "cache_inv s"
  show "fs_cache_read_sector l s = (Some x, s') \<Longrightarrow> cache_inv s' \<and> cview s' = cview s \<and> x = cview s l"
    by (rule fs_cache_read_ok [OF inv])
  show "fs_cache_write_sector l x s = (True, s') \<Longrightarrow> cache_inv s' \<and> cview s' = (cview s)(l := x)"
    using fs_cache_write_ok [OF inv] by fastforce
  show "fs_cache_write_sector l x s = (False, s') \<Longrightarrow> cache_inv s' \<and> cview s' = cview s"
    using fs_cache_write_ok [OF inv] by fastforce
  show "fs_cache_sync s = (ok, s') \<Longrightarrow> cache_inv s' \<and> cview s' = cview s"
    using fs_cache_sync_ok [OF inv] by blast
  show "fs_cache_sync s = (True, s') \<Longrightarrow> cmedia s' = cview s'"
    using fs_cache_sync_ok [OF inv] by blast
qed

text \<open>On a disk without faults no request fails.\<close>

definition cache_inv_ff :: "'d fs_cache \<Rightarrow> bool" where
  "cache_inv_ff c \<longleftrightarrow> cache_inv c \<and> fault_free (dops c)"

lemma dops_set_slot [simp]: "dops (set_slot i f c) = dops c"
  by (simp add: set_slot_def)

lemma disk_total:
  assumes "fault_free (dops c)"
  obtains b c' where "disk_read_sector l b0 c = (True, b, c')" "dops c' = dops c" "slots c' = slots c"
proof -
  obtain ok b d where r: "dk_read (dops c) (dev c) l b0 = (ok, b, d)" by (metis prod_cases3)
  then have "ok" using assms unfolding fault_free_def by (metis fst_conv)
  with r that [of b "c\<lparr>dev := d\<rparr>"] show thesis by (simp add: disk_read_sector_def)
qed

lemma disk_write_total:
  assumes "fault_free (dops c)"
  obtains c' where "disk_write_sector l x c = (True, c')" "dops c' = dops c" "slots c' = slots c"
proof -
  obtain ok d where r: "dk_write (dops c) (dev c) l x = (ok, d)" by (metis surj_pair)
  then have "ok" using assms unfolding fault_free_def by (metis fst_conv)
  with r that [of "c\<lparr>dev := d\<rparr>"] show thesis by (simp add: disk_write_sector_def)
qed

lemma slot_evict_total:
  assumes "fault_free (dops c)"
  obtains i c' where "slot_evict c = (Some i, c')" "dops c' = dops c"
proof (cases "find_slot (\<lambda>s. \<not> sused s) (slots c)")
  case (Some i)
  with that show thesis by (simp add: slot_evict_def)
next
  case None
  let ?b = "oldest 1 0 (stamp (slots c ! 0)) (tl (slots c))"
  obtain c' where "disk_write_sector (slba (slots c ! ?b)) (sdata (slots c ! ?b)) c = (True, c')" "dops c' = dops c"
    using disk_write_total [OF assms] by metis
  with None that show thesis by (cases "dirty (slots c ! ?b)") (simp_all add: slot_evict_def Let_def)
qed

lemma fs_cache_read_total:
  assumes "fault_free (dops c)"
  shows "\<exists>x c'. fs_cache_read_sector l c = (Some x, c') \<and> dops c' = dops c"
proof -
  have "fault_free (dops (c\<lparr>misses := misses c + 1\<rparr>))" using assms by simp
  then obtain i c1 where e: "slot_evict (c\<lparr>misses := misses c + 1\<rparr>) = (Some i, c1)" "dops c1 = dops c"
    by (rule slot_evict_total) simp
  have "fault_free (dops c1)" using assms e(2) by simp
  then obtain b c2 where r: "disk_read_sector l (sdata (slots c1 ! i)) c1 = (True, b, c2)" "dops c2 = dops c1"
    by (rule disk_total)
  obtain b' c3 where r': "disk_read_sector l (replicate FS_SECTOR_SIZE 0) c = (True, b', c3)" "dops c3 = dops c"
    using disk_total [OF assms] by metis
  show ?thesis
    using e r r' by (cases "slot_find l c") (simp_all add: fs_cache_read_sector_def Let_def)
qed

lemma fs_cache_write_total:
  assumes "fault_free (dops c)"
  shows "\<exists>c'. fs_cache_write_sector l x c = (True, c') \<and> dops c' = dops c"
proof -
  obtain i c1 where e: "slot_evict c = (Some i, c1)" "dops c1 = dops c" by (rule slot_evict_total [OF assms])
  obtain c2 where w: "disk_write_sector l x c = (True, c2)" "dops c2 = dops c" by (rule disk_write_total [OF assms])
  show ?thesis
    using e w by (cases "slot_find l c") (simp_all add: fs_cache_write_sector_def Let_def)
qed

lemma sync_from_total:
  "fault_free (dops c) \<Longrightarrow> \<exists>c'. sync_from i n c = (True, c') \<and> dops c' = dops c"
proof (induction n arbitrary: i c)
  case (Suc n)
  obtain c1 where w: "disk_write_sector (slba (slots c ! i)) (sdata (slots c ! i)) c = (True, c1)" "dops c1 = dops c"
    using disk_write_total [OF Suc.prems] by metis
  have "fault_free (dops (set_slot i (\<lambda>s. s\<lparr>dirty := False\<rparr>) c1))" using w(2) Suc.prems by simp
  from Suc.IH [OF this, of "i + 1"] Suc.IH [OF Suc.prems, of "i + 1"] w show ?case
    by (simp add: Let_def)
qed simp

interpretation rs: reliable_store fs_cache_read_sector fs_cache_write_sector fs_cache_sync cview cmedia cache_inv_ff
proof
  fix s s' :: "'d fs_cache" and l x ok
  assume inv: "cache_inv_ff s"
  then have i: "cache_inv s" and f: "fault_free (dops s)" by (simp_all add: cache_inv_ff_def)
  show "fs_cache_read_sector l s = (Some x, s') \<Longrightarrow> cache_inv_ff s' \<and> cview s' = cview s \<and> x = cview s l"
    using fs_cache_read_ok [OF i] fs_cache_read_total [OF f, of l] f by (auto simp: cache_inv_ff_def)
  show "fs_cache_write_sector l x s = (True, s') \<Longrightarrow> cache_inv_ff s' \<and> cview s' = (cview s)(l := x)"
    using fs_cache_write_ok [OF i, of l x True s'] fs_cache_write_total [OF f, of l x] f by (auto simp: cache_inv_ff_def)
  show "fs_cache_write_sector l x s = (False, s') \<Longrightarrow> cache_inv_ff s' \<and> cview s' = cview s"
    using fs_cache_write_total [OF f, of l x] by auto
  show "fs_cache_sync s = (ok, s') \<Longrightarrow> cache_inv_ff s' \<and> cview s' = cview s"
    using fs_cache_sync_ok [OF i, of ok s'] sync_from_total [OF f, of 0 FS_CACHE_SLOTS] f i
    by (auto simp: cache_inv_ff_def fs_cache_sync_def cache_inv_def)
  show "fs_cache_sync s = (True, s') \<Longrightarrow> cmedia s' = cview s'"
    using fs_cache_sync_ok [OF i] by blast
  show "\<exists>x s'. fs_cache_read_sector l s = (Some x, s')" using fs_cache_read_total [OF f] by blast
  show "\<exists>s'. fs_cache_write_sector l x s = (True, s')" using fs_cache_write_total [OF f] by blast
  show "\<exists>s'. fs_cache_sync s = (True, s')"
    using sync_from_total [OF f, of 0 FS_CACHE_SLOTS] by (auto simp: fs_cache_sync_def)
qed

section \<open>Properties\<close>

text \<open>A client's requests, on the cache and on a flat array of sectors.\<close>

datatype cache_op = Read u32 | Write u32 sector | Sync

fun run_cache :: "cache_op list \<Rightarrow> 'd fs_cache \<Rightarrow> (sector list \<times> 'd fs_cache) option" where
  "run_cache [] c = Some ([], c)"
| "run_cache (Read l # ops) c =
     (case fs_cache_read_sector l c of (None, c) \<Rightarrow> None
      | (Some x, c) \<Rightarrow> map_option (\<lambda>(xs, c). (x # xs, c)) (run_cache ops c))"
| "run_cache (Write l x # ops) c =
     (case fs_cache_write_sector l x c of (False, c) \<Rightarrow> None | (True, c) \<Rightarrow> run_cache ops c)"
| "run_cache (Sync # ops) c =
     (case fs_cache_sync c of (False, c) \<Rightarrow> None | (True, c) \<Rightarrow> run_cache ops c)"

fun run_flat :: "cache_op list \<Rightarrow> (u32 \<Rightarrow> sector) \<Rightarrow> sector list \<times> (u32 \<Rightarrow> sector)" where
  "run_flat [] m = ([], m)"
| "run_flat (Read l # ops) m = (case run_flat ops m of (xs, m') \<Rightarrow> (m l # xs, m'))"
| "run_flat (Write l x # ops) m = run_flat ops (m(l := x))"
| "run_flat (Sync # ops) m = run_flat ops m"


text \<open>
  Fact: a successful fs_cache_sync makes the cache durable: the medium then holds exactly what
  the cache shows; a failing one loses nothing.
\<close>

theorem fs_cache_sync_durable:
  assumes "cache_inv c" and "fs_cache_sync c = (ok, c')"
  shows "cache_inv c' \<and> cview c' = cview c \<and> (ok \<longrightarrow> cmedia c' = cview c)"
  using fs_cache_sync_ok [OF assms] by auto

text \<open>
  Fact: eviction is LRU. With every slot in use the victim has the least stamp; a dirty victim
  is written back before it is reused, and no sector's visible contents change.
\<close>

theorem slot_evict_lru:
  assumes "cache_inv c" and "\<forall>s \<in> set (slots c). sused s" and "slot_evict c = (Some i, c')"
  shows "(\<forall>j < FS_CACHE_SLOTS. stamp (slots c ! i) \<le> stamp (slots c ! j)) \<and>
    cview c' = cview c \<and> cmedia c' (slba (slots c ! i)) = sdata (slots c ! i)"
proof -
  let ?b = "oldest 1 0 (stamp (slots c ! 0)) (tl (slots c))"
  note n = cache_slots_pos [OF assms(1)]
  have "find_slot (\<lambda>s. \<not> sused s) (slots c) = None" using assms(2) by (simp add: slot_simps)
  then have i: "i = ?b" using assms(3) by (auto simp: slot_evict_def Let_def split: if_splits prod.splits bool.splits)
  have all: "[hd (slots c)] @ tl (slots c) = slots c" using n by (cases "slots c") auto
  have "\<forall>j < length (slots c). stamp (slots c ! ?b) \<le> stamp (slots c ! j)"
    by (rule oldest_least [OF all]) simp_all
  moreover note ev = slot_evict_ok [OF assms(1,3)]
  moreover have "cmedia c' (slba (slots c ! i)) = sdata (slots c ! i)"
  proof -
    let ?l = "slba (slots c ! i)"
    have b: "?b < length (slots c)" using n by (intro oldest_bound) (auto simp: FS_CACHE_SLOTS_def)
    then have h: "holds ?l (slots c ! i)" "i < length (slots c)" using assms(2) i by auto
    obtain j where j: "slot_find ?l c = Some j" using slot_find_None [of ?l c] h by (cases "slot_find ?l c") auto
    have "j = i" using coherent_unique [of "slots c" "cmedia c"] slot_find_Some [OF j] h assms(1)
      by (auto simp: cache_inv_def)
    then have h': "i < length (slots c')" "holds ?l (slots c' ! i)" using slot_find_Some [of ?l c' i] ev(3) j by auto
    have "cmedia c' ?l = sdata (slots c' ! i)"
      using coherent_clean [of "slots c'" "cmedia c'" i ?l] ev(1) ev(4) [of i] h' by (simp add: cache_inv_def)
    then show ?thesis using cview_hit [OF ev(1) h'] cview_hit [OF assms(1) h(2,1)] ev(2) by simp
  qed
  ultimately show ?thesis using n i by simp
qed


section \<open>Concrete caches\<close>

lemma fs_cache_init_inv:
  assumes "disk_ok (dops c)"
  shows "cache_inv (fs_cache_init c)" "cview (fs_cache_init c) = cmedia c"
  using assms
  by (auto simp: cache_inv_def coherent_def fs_cache_init_def cview_def slots_view_def FS_CACHE_SLOTS_def)

definition cache_at_boot :: "(u32 \<Rightarrow> sector) fs_cache" where
  "cache_at_boot = fs_cache_init \<lparr>slots = [], clock = 0, hits = 0, misses = 0, cready = False,
     dev = (\<lambda>_. replicate FS_SECTOR_SIZE 0), dops = perfect_disk\<rparr>"

lemma cache_at_boot_inv: "cache_inv cache_at_boot"
  unfolding cache_at_boot_def by (rule fs_cache_init_inv) (simp add: perfect_disk_ok)

text \<open>A cache that holds the first 256 sectors of its disk, the oldest in slot 0.\<close>

definition full_cache :: "'d disk_ops \<Rightarrow> 'd \<Rightarrow> 'd fs_cache" where
  "full_cache dk d =
     \<lparr>slots = map (\<lambda>i. \<lparr>sused = True, dirty = False, slba = of_nat i, stamp = of_nat i,
                        sdata = media dk d (of_nat i)\<rparr>) [0..<FS_CACHE_SLOTS],
      clock = 300, hits = 0, misses = 0, cready = True, dev = d, dops = dk\<rparr>"

lemma full_cache_inv: "disk_ok dk \<Longrightarrow> cache_inv (full_cache dk d)"
  by (auto simp: cache_inv_def coherent_def full_cache_def FS_CACHE_SLOTS_def word_unat_eq_iff unat_of_nat)

lemma oldest_zero: "oldest i best 0 ss = best"
  by (induction ss arbitrary: i) auto

lemma slot_evict_clean0:
  "\<forall>s \<in> set (slots c). sused s \<Longrightarrow> \<not> dirty (slots c ! 0) \<Longrightarrow> stamp (slots c ! 0) = 0 \<Longrightarrow>
    slot_evict c = (Some 0, c)"
  using find_slot_None [of "\<lambda>s. \<not> sused s" "slots c"] by (simp add: slot_evict_def Let_def oldest_zero)

lemma full_cache_slots:
  "\<forall>s \<in> set (slots (full_cache dk d)). sused s" "slots (full_cache dk d) \<noteq> []"
  "slots (full_cache dk d) ! 0 = \<lparr>sused = True, dirty = False, slba = 0, stamp = 0, sdata = media dk d 0\<rparr>"
  by (auto simp: full_cache_def FS_CACHE_SLOTS_def)

lemma slot_evict_full: "slot_evict (full_cache dk d) = (Some 0, full_cache dk d)"
  by (rule slot_evict_clean0) (simp_all add: full_cache_slots)

lemma find_slot_first: "xs \<noteq> [] \<Longrightarrow> P (xs ! 0) \<Longrightarrow> find_slot P xs = Some 0"
  by (cases xs) auto

lemma find_slot_update0: "xs \<noteq> [] \<Longrightarrow> P x \<Longrightarrow> find_slot P (xs[0 := x]) = Some 0"
  by (cases xs) auto


lemma sync_from_clean:
  "\<forall>j. \<not> (sused (slots c ! j) \<and> dirty (slots c ! j)) \<or> \<not> j < i + n \<Longrightarrow> sync_from i n c = (True, c)"
proof (induction n arbitrary: i)
  case (Suc n)
  then have "\<not> (sused (slots c ! i) \<and> dirty (slots c ! i))" by auto
  with Suc.IH [of "i + 1"] Suc.prems show ?case by auto
qed simp

theorem fs_cache_sync_durable_witness:
  "fs_cache_sync cache_at_boot = (True, cache_at_boot) \<and> cmedia cache_at_boot = cview cache_at_boot"
proof -
  have "fs_cache_sync cache_at_boot = (True, cache_at_boot)"
    unfolding fs_cache_sync_def
    by (subst sync_from_clean) (auto simp: cache_at_boot_def fs_cache_init_def)
  with fs_cache_sync_durable [OF cache_at_boot_inv this] show ?thesis by simp
qed

theorem slot_evict_lru_witness:
  "\<forall>j < FS_CACHE_SLOTS. stamp (slots (full_cache perfect_disk (\<lambda>_. [])) ! 0) \<le>
     stamp (slots (full_cache perfect_disk (\<lambda>_. [])) ! j)"
  using slot_evict_lru [OF full_cache_inv [OF perfect_disk_ok] _ slot_evict_full, of "\<lambda>_. []"]
  by (auto simp: full_cache_def)

text \<open>A disk whose sectors from 256 on are unreadable: the transfer fills the buffer with
  0xFF and then reports the error, as ata_transfer does.\<close>

definition flaky_disk :: "(u32 \<Rightarrow> sector) disk_ops" where
  "flaky_disk = \<lparr>dk_read = \<lambda>d l b. if l < 256 then (True, d l, d) else (False, replicate FS_SECTOR_SIZE 0xFF, d),
     dk_write = \<lambda>d l x. (True, d(l := x)), media = \<lambda>d. d\<rparr>"

text \<open>
  Fact: a failed read corrupts another sector. fs_cache_read_sector reads into the evicted
  slot while that slot is still marked as holding its old sector; when the disk reports an
  error the slot keeps its old LBA with the clobbered data, and the next read of that LBA
  hits it and returns the wrong bytes.
\<close>

theorem fs_cache_failed_read_clobbers:
  defines "c \<equiv> full_cache flaky_disk (\<lambda>_. replicate FS_SECTOR_SIZE 0)"
  shows "cache_inv c \<and> fst (fs_cache_read_sector 0 c) = Some (replicate FS_SECTOR_SIZE 0) \<and>
    fst (fs_cache_read_sector 999 c) = None \<and>
    fst (fs_cache_read_sector 0 (snd (fs_cache_read_sector 999 c))) = Some (replicate FS_SECTOR_SIZE 0xFF)"
proof -
  have "disk_ok flaky_disk" by (auto simp: disk_ok_def flaky_disk_def split: if_splits)
  then have inv: "cache_inv c" unfolding c_def by (rule full_cache_inv)
  have s0: "slots c \<noteq> []" "slots c ! 0 = \<lparr>sused = True, dirty = False, slba = 0, stamp = 0, sdata = replicate FS_SECTOR_SIZE 0\<rparr>"
    by (simp_all add: c_def full_cache_def FS_CACHE_SLOTS_def flaky_disk_def)
  have f0: "slot_find 0 c = Some 0"
    using s0 by (simp add: slot_find_def find_slot_first)
  have f9: "slot_find 999 c = None"
    by (auto simp: slot_find_None c_def full_cache_def FS_CACHE_SLOTS_def word_unat_eq_iff unat_of_nat)
  have ev: "slot_evict (c\<lparr>misses := misses c + 1\<rparr>) = (Some 0, c\<lparr>misses := misses c + 1\<rparr>)"
    by (rule slot_evict_clean0) (simp_all add: c_def full_cache_slots)
  have d: "dops c = flaky_disk" "cready c" by (simp_all add: c_def full_cache_def)
  let ?c' = "snd (fs_cache_read_sector 999 c)"
  have r9: "fs_cache_read_sector 999 c =
      (None, set_slot 0 (\<lambda>s. s\<lparr>sdata := replicate FS_SECTOR_SIZE 0xFF\<rparr>) (c\<lparr>misses := misses c + 1\<rparr>))"
    using f9 ev d by (simp add: fs_cache_read_sector_def disk_read_sector_def flaky_disk_def)
  then have "slot_find 0 ?c' = Some 0" "sdata (slots ?c' ! 0) = replicate FS_SECTOR_SIZE 0xFF"
    using find_slot_update0 [OF s0(1), of "holds 0"] s0 by (simp_all add: slot_find_def set_slot_def)
  then show ?thesis
    using inv f0 r9 s0 d by (simp add: fs_cache_read_sector_def Let_def set_slot_def)
qed

end
