(* ===== verification/KFsLayout.thy ===== *)
theory KFsLayout
  imports KBytes KFsCache KHeap
begin

text \<open>
  The MOS file system: constants and on-disk structures of src/kernel/fs.h with their byte
  layout (packed, little-endian), and the state of src/kernel/fs.cpp.
\<close>

abbreviation (input) FS_MAGIC :: u32 where "FS_MAGIC \<equiv> 0x4D4F5320"
abbreviation (input) FS_VERSION :: u32 where "FS_VERSION \<equiv> 3"
abbreviation (input) FS_MAX_INODES :: nat where "FS_MAX_INODES \<equiv> 1024"
abbreviation (input) FS_FILENAME_LEN :: nat where "FS_FILENAME_LEN \<equiv> 255"
abbreviation (input) FS_ROOT_INO :: nat where "FS_ROOT_INO \<equiv> 1"
abbreviation (input) FS_SYMLINK_MAX :: nat where "FS_SYMLINK_MAX \<equiv> 8"
abbreviation (input) FS_JOURNAL_MAX_SEC :: nat where "FS_JOURNAL_MAX_SEC \<equiv> 32"
abbreviation (input) FS_DIRECT_EXTENTS :: nat where "FS_DIRECT_EXTENTS \<equiv> 4"
abbreviation (input) FS_INDIRECT_MAX :: nat where "FS_INDIRECT_MAX \<equiv> 64"
abbreviation (input) FS_SYMLINK_INLINE :: nat where "FS_SYMLINK_INLINE \<equiv> 60"
abbreviation (input) INODE_BYTES :: nat where "INODE_BYTES \<equiv> 136"

abbreviation (input) FS_FLAG_OCCUPIED :: u16 where "FS_FLAG_OCCUPIED \<equiv> 0x01"
abbreviation (input) FS_FLAG_DIRECTORY :: u16 where "FS_FLAG_DIRECTORY \<equiv> 0x02"
abbreviation (input) FS_FLAG_SYMLINK :: u16 where "FS_FLAG_SYMLINK \<equiv> 0x04"
abbreviation (input) FS_FLAG_SPECIAL :: u16 where "FS_FLAG_SPECIAL \<equiv> 0x78"

abbreviation (input) FS_MODE_FILE :: u16 where "FS_MODE_FILE \<equiv> 0x1A4"
abbreviation (input) FS_MODE_DIR :: u16 where "FS_MODE_DIR \<equiv> 0x1ED"
abbreviation (input) FS_MODE_LINK :: u16 where "FS_MODE_LINK \<equiv> 0x1FF"

text \<open>FS_FLAG_SPECIAL is FIFO | SOCK | BLK | CHR. A flag test \<^verbatim>\<open>flags & F\<close>:\<close>

definition has_flag :: "u16 \<Rightarrow> u16 \<Rightarrow> bool" where
  "has_flag fl f \<longleftrightarrow> fl AND f \<noteq> 0"

record fs_extent =
  e_lba :: u32
  e_count :: u32

record fs_inode =
  i_mode :: u16
  i_flags :: u16
  i_uid :: u16
  i_gid :: u16
  i_nlink :: u16
  i_pad0 :: u16
  i_size :: u32
  i_atime :: u32
  i_mtime :: u32
  i_ctime :: u32
  i_parent :: u32
  i_direct :: "fs_extent list"
  i_indirect :: u32
  i_xattr :: u32
  i_rdev :: u32
  i_symlink :: "u8 list"

record fs_boot_sector =
  b_magic :: u32
  b_version :: u32
  b_total :: u32
  b_inode_table :: u32
  b_data_start :: u32
  b_inode_count :: u32
  b_bitmap_sector :: u32
  b_bitmap_size :: u32
  b_log_start :: u32
  b_log_size :: u32
  b_log_next :: u32
  b_log_magic :: u32
  b_inode_slots :: u32
  b_root_ino :: u32
  b_quota :: u32
  b_reserved :: "u8 list"

section \<open>Byte layout\<close>

definition enc_extent :: "fs_extent \<Rightarrow> u8 list" where
  "enc_extent e = le32 (e_lba e) @ le32 (e_count e)"

definition dec_extent :: "u8 list \<Rightarrow> nat \<Rightarrow> fs_extent" where
  "dec_extent bs i = \<lparr>e_lba = get32 bs i, e_count = get32 bs (i + 4)\<rparr>"

text \<open>An array of extents, as an indirect block holds it.\<close>

definition enc_extents :: "fs_extent list \<Rightarrow> u8 list" where
  "enc_extents es = concat (map enc_extent es)"

definition dec_extents :: "nat \<Rightarrow> u8 list \<Rightarrow> nat \<Rightarrow> fs_extent list" where
  "dec_extents n bs i = map (\<lambda>k. dec_extent bs (i + 8 * k)) [0..<n]"

definition enc_inode :: "fs_inode \<Rightarrow> u8 list" where
  "enc_inode i =
     le16 (i_mode i) @ le16 (i_flags i) @ le16 (i_uid i) @ le16 (i_gid i) @ le16 (i_nlink i) @ le16 (i_pad0 i) @
     le32 (i_size i) @ le32 (i_atime i) @ le32 (i_mtime i) @ le32 (i_ctime i) @ le32 (i_parent i) @
     enc_extents (i_direct i) @ le32 (i_indirect i) @ le32 (i_xattr i) @ le32 (i_rdev i) @ i_symlink i"

definition dec_inode :: "u8 list \<Rightarrow> fs_inode" where
  "dec_inode bs =
     \<lparr>i_mode = get16 bs 0, i_flags = get16 bs 2, i_uid = get16 bs 4, i_gid = get16 bs 6, i_nlink = get16 bs 8,
      i_pad0 = get16 bs 10, i_size = get32 bs 12, i_atime = get32 bs 16, i_mtime = get32 bs 20,
      i_ctime = get32 bs 24, i_parent = get32 bs 28, i_direct = dec_extents FS_DIRECT_EXTENTS bs 32,
      i_indirect = get32 bs 64, i_xattr = get32 bs 68, i_rdev = get32 bs 72,
      i_symlink = take FS_SYMLINK_INLINE (drop 76 bs)\<rparr>"

definition enc_boot :: "fs_boot_sector \<Rightarrow> u8 list" where
  "enc_boot b =
     le32 (b_magic b) @ le32 (b_version b) @ le32 (b_total b) @ le32 (b_inode_table b) @ le32 (b_data_start b) @
     le32 (b_inode_count b) @ le32 (b_bitmap_sector b) @ le32 (b_bitmap_size b) @ le32 (b_log_start b) @
     le32 (b_log_size b) @ le32 (b_log_next b) @ le32 (b_log_magic b) @ le32 (b_inode_slots b) @
     le32 (b_root_ino b) @ le32 (b_quota b) @ b_reserved b"

definition dec_boot :: "u8 list \<Rightarrow> fs_boot_sector" where
  "dec_boot bs =
     \<lparr>b_magic = get32 bs 0, b_version = get32 bs 4, b_total = get32 bs 8, b_inode_table = get32 bs 12,
      b_data_start = get32 bs 16, b_inode_count = get32 bs 20, b_bitmap_sector = get32 bs 24,
      b_bitmap_size = get32 bs 28, b_log_start = get32 bs 32, b_log_size = get32 bs 36, b_log_next = get32 bs 40,
      b_log_magic = get32 bs 44, b_inode_slots = get32 bs 48, b_root_ino = get32 bs 52, b_quota = get32 bs 56,
      b_reserved = drop 60 bs\<rparr>"

definition inode_wf :: "fs_inode \<Rightarrow> bool" where
  "inode_wf i \<longleftrightarrow> length (i_direct i) = FS_DIRECT_EXTENTS \<and> length (i_symlink i) = FS_SYMLINK_INLINE"

definition boot_wf :: "fs_boot_sector \<Rightarrow> bool" where
  "boot_wf b \<longleftrightarrow> length (b_reserved b) = FS_SECTOR_SIZE - 60"

lemma get_append [simp]:
  "i + 2 \<le> length xs \<Longrightarrow> get16 (xs @ ys) i = get16 xs i"
  "length xs \<le> i \<Longrightarrow> get16 (xs @ ys) i = get16 ys (i - length xs)"
  "i + 4 \<le> length xs \<Longrightarrow> get32 (xs @ ys) i = get32 xs i"
  "length xs \<le> i \<Longrightarrow> get32 (xs @ ys) i = get32 ys (i - length xs)"
  by (simp_all add: get16_def get32_def nth_append Suc_diff_le)

lemma get_le [simp]: "get16 (le16 w) 0 = w" "get32 (le32 v) 0 = v"
  using get16_le16 [of 0 "[]" w "[]"] get32_le32 [of 0 "[]" v "[]"] by simp_all

lemma length_enc_extents [simp]: "length (enc_extents es) = 8 * length es"
  by (induction es) (simp_all add: enc_extents_def enc_extent_def)

lemma dec_enc_extents:
  assumes "k < length es" and "i = length xs + 8 * k"
  shows "dec_extent (xs @ enc_extents es @ ys) i = es ! k"
  using assms
proof (induction es arbitrary: k xs i)
  case (Cons e es)
  have e: "enc_extents (e # es) = enc_extent e @ enc_extents es" by (simp add: enc_extents_def)
  show ?case
  proof (cases k)
    case 0
    then show ?thesis using Cons.prems by (simp add: e dec_extent_def enc_extent_def)
  next
    case (Suc k')
    then have "dec_extent ((xs @ enc_extent e) @ enc_extents es @ ys) i = es ! k'"
      using Cons.prems by (intro Cons.IH) (simp_all add: enc_extent_def)
    then show ?thesis by (simp add: e Suc)
  qed
qed simp

lemma dec_extents_enc:
  "n = length es \<Longrightarrow> i = length xs \<Longrightarrow> dec_extents n (xs @ enc_extents es @ ys) i = es"
  by (intro nth_equalityI) (simp_all add: dec_extents_def dec_enc_extents)

lemma length_enc_inode: "inode_wf i \<Longrightarrow> length (enc_inode i) = INODE_BYTES"
  by (simp add: enc_inode_def inode_wf_def)

lemma length_enc_boot: "boot_wf b \<Longrightarrow> length (enc_boot b) = FS_SECTOR_SIZE"
  by (simp add: enc_boot_def boot_wf_def)

lemma dec_enc_inode:
  assumes "inode_wf i"
  shows "dec_inode (enc_inode i @ ys) = i"
proof -
  let ?hd = "le16 (i_mode i) @ le16 (i_flags i) @ le16 (i_uid i) @ le16 (i_gid i) @ le16 (i_nlink i) @ le16 (i_pad0 i) @
     le32 (i_size i) @ le32 (i_atime i) @ le32 (i_mtime i) @ le32 (i_ctime i) @ le32 (i_parent i)"
  have d: "dec_extents FS_DIRECT_EXTENTS (enc_inode i @ ys) 32 = i_direct i"
    using dec_extents_enc [of FS_DIRECT_EXTENTS "i_direct i" 32 ?hd] assms
    by (simp add: enc_inode_def inode_wf_def)
  show ?thesis
    using assms by (simp add: dec_inode_def d) (simp add: enc_inode_def inode_wf_def)
qed

lemma dec_enc_boot: "dec_boot (enc_boot b) = b"
  by (simp add: dec_boot_def enc_boot_def)

end
