(* ===== verification/KFsAlloc.thy ===== *)
theory KFsAlloc
  imports KFsLayout
begin

text \<open>
  The state of the MOS file system and its block allocator (src/kernel/fs.cpp: bitmap test
  and set, first-fit allocation of a run of sectors, release).
\<close>

text \<open>The kernel heap is used for buffers; \<open>task_cred\<close> is the uid and gid of the current task
  once the scheduler runs, \<open>now\<close> the time of the RTC or the timer. Two fields are arbitrary:
  \<open>beyond\<close> is what the memory outside the array \<^verbatim>\<open>inodes\<close> holds, for the code that indexes it
  without a bounds check, and \<open>junk\<close> what an uninitialised buffer holds.\<close>

record 'd fs =
  boot :: fs_boot_sector
  inodes :: "fs_inode list"
  initialized :: bool
  bitmap :: "u8 list option"
  bitmap_sectors :: u32
  g_uid :: u16
  g_gid :: u16
  blocks_used :: u32
  cache :: "'d fs_cache"
  hp :: heap
  task_cred :: "(u16 \<times> u16) option"
  now :: u32
  beyond :: "int \<Rightarrow> fs_inode"
  junk :: "nat \<Rightarrow> u8"

definition d_read :: "u32 \<Rightarrow> 'd fs \<Rightarrow> sector option \<times> 'd fs" where
  "d_read l s = (case fs_cache_read_sector l (cache s) of (r, c) \<Rightarrow> (r, s\<lparr>cache := c\<rparr>))"

definition d_write :: "u32 \<Rightarrow> sector \<Rightarrow> 'd fs \<Rightarrow> bool \<times> 'd fs" where
  "d_write l x s = (case fs_cache_write_sector l x (cache s) of (ok, c) \<Rightarrow> (ok, s\<lparr>cache := c\<rparr>))"

definition d_read_n :: "u32 \<Rightarrow> nat \<Rightarrow> 'd fs \<Rightarrow> bool \<times> sector list \<times> 'd fs" where
  "d_read_n l n s = (case fs_cache_read_sectors l n (cache s) of (ok, xs, c) \<Rightarrow> (ok, xs, s\<lparr>cache := c\<rparr>))"

definition d_write_n :: "u32 \<Rightarrow> sector list \<Rightarrow> 'd fs \<Rightarrow> bool \<times> 'd fs" where
  "d_write_n l xs s = (case fs_cache_write_sectors l xs (cache s) of (ok, c) \<Rightarrow> (ok, s\<lparr>cache := c\<rparr>))"

definition d_sync :: "'d fs \<Rightarrow> bool \<times> 'd fs" where
  "d_sync s = (case fs_cache_sync (cache s) of (ok, c) \<Rightarrow> (ok, s\<lparr>cache := c\<rparr>))"

text \<open>Buffers: \<^verbatim>\<open>p = malloc(n); if (!p) return -1; ... free(p);\<close>\<close>

definition fs_malloc :: "nat \<Rightarrow> 'd fs \<Rightarrow> nat option \<times> 'd fs" where
  "fs_malloc n s = (case malloc n (hp s) of (p, h) \<Rightarrow> (p, s\<lparr>hp := h\<rparr>))"

definition fs_free :: "nat \<Rightarrow> 'd fs \<Rightarrow> 'd fs" where
  "fs_free p s = (case free (Some (int p)) (hp s) of Some h \<Rightarrow> s\<lparr>hp := h\<rparr> | None \<Rightarrow> s)"

definition fs_current_uid :: "'d fs \<Rightarrow> u16" where
  "fs_current_uid s = (case task_cred s of Some (u, g) \<Rightarrow> u | None \<Rightarrow> g_uid s)"

definition fs_current_gid :: "'d fs \<Rightarrow> u16" where
  "fs_current_gid s = (case task_cred s of Some (u, g) \<Rightarrow> g | None \<Rightarrow> g_gid s)"

definition fs_set_current_uid :: "u16 \<Rightarrow> 'd fs \<Rightarrow> 'd fs" where
  "fs_set_current_uid u s = s\<lparr>g_uid := u\<rparr>"

definition fs_set_current_gid :: "u16 \<Rightarrow> 'd fs \<Rightarrow> 'd fs" where
  "fs_set_current_gid g s = s\<lparr>g_gid := g\<rparr>"

definition fs_inode_sectors :: "fs_boot_sector \<Rightarrow> u32" where
  "fs_inode_sectors b =
     (let n = (if b_inode_slots b \<noteq> 0 then b_inode_slots b else of_nat FS_MAX_INODES);
          n = (if n > of_nat FS_MAX_INODES then of_nat FS_MAX_INODES else n)
      in (n * of_nat INODE_BYTES + 512 - 1) div 512)"

text \<open>The buffer is installed before it is read: a failed read leaves it in place.\<close>

definition fs_load_bitmap :: "'d fs \<Rightarrow> bool \<times> 'd fs" where
  "fs_load_bitmap s =
     (if bitmap s \<noteq> None then (True, s)
      else let n = (b_bitmap_size (boot s) + 512 - 1) div 512; s = s\<lparr>bitmap_sectors := n\<rparr> in
        if n = 0 then (False, s)
        else case fs_malloc (unat (n * 512)) s of
          (None, s) \<Rightarrow> (False, s)
        | (Some p, s) \<Rightarrow>
            (case d_read_n (b_bitmap_sector (boot s)) (unat n) s of
               (ok, xs, s) \<Rightarrow>
                 (ok, s\<lparr>bitmap := Some (concat xs @ replicate (unat (n * 512) - length (concat xs)) 0)\<rparr>)))"

definition fs_bitmap_test :: "'d fs \<Rightarrow> u32 \<Rightarrow> bool" where
  "fs_bitmap_test s sec =
     (case bitmap s of
        None \<Rightarrow> True
      | Some bm \<Rightarrow>
          if sec \<ge> b_total (boot s) then True
          else (ucast (bm ! unat (sec div 8)) AND push_bit (unat (sec mod 8)) 1 :: u32) \<noteq> 0)"

definition fs_bitmap_set :: "u32 \<Rightarrow> bool \<Rightarrow> 'd fs \<Rightarrow> 'd fs" where
  "fs_bitmap_set sec occupied s =
     (case bitmap s of
        None \<Rightarrow> s
      | Some bm \<Rightarrow>
          if sec \<ge> b_total (boot s) then s
          else let b = ucast (push_bit (unat (sec mod 8)) 1 :: u32) :: u8; k = unat (sec div 8) in
            s\<lparr>bitmap := Some (bm[k := if occupied then (bm ! k) OR b else (bm ! k) AND NOT b])\<rparr>)"

definition fs_alloc_base_sector :: "fs_boot_sector \<Rightarrow> u32" where
  "fs_alloc_base_sector b =
     (let base = b_data_start b;
          base = (if b_log_size b > 0 \<and> b_log_start b + b_log_size b > base
                  then b_log_start b + b_log_size b else base);
          table_end = b_inode_table b + fs_inode_sectors b
      in if table_end > base then table_end else base)"

text \<open>The scan of fs_alloc_blocks: the sector that completes a free run of count sectors.\<close>

fun alloc_scan :: "(nat \<Rightarrow> bool) \<Rightarrow> nat \<Rightarrow> nat \<Rightarrow> nat list \<Rightarrow> nat option" where
  "alloc_scan occ count run [] = None"
| "alloc_scan occ count run (i # is) =
     (if \<not> occ i then (if run + 1 \<ge> count then Some i else alloc_scan occ count (run + 1) is)
      else alloc_scan occ count 0 is)"

definition set_run :: "u32 \<Rightarrow> nat \<Rightarrow> 'd fs \<Rightarrow> 'd fs" where
  "set_run start n s = fold (\<lambda>j. fs_bitmap_set (start + of_nat j) True) [0..<n] s"

definition fs_alloc_blocks :: "u32 \<Rightarrow> 'd fs \<Rightarrow> u32 option \<times> 'd fs" where
  "fs_alloc_blocks count s =
     (if bitmap s = None \<or> count = 0 then (None, s)
      else case alloc_scan (\<lambda>i. fs_bitmap_test s (of_nat i)) (unat count) 0
                  [unat (fs_alloc_base_sector (boot s))..<unat (b_total (boot s))] of
             None \<Rightarrow> (None, s)
           | Some i \<Rightarrow>
               (let start = of_nat i - count + 1; s = set_run start (unat count) s in
                (Some start, s\<lparr>blocks_used := blocks_used s + count\<rparr>)))"

definition fs_free_block :: "u32 \<Rightarrow> 'd fs \<Rightarrow> 'd fs" where
  "fs_free_block sec s =
     (if fs_bitmap_test s sec then
        let s = fs_bitmap_set sec False s in
        if blocks_used s \<noteq> 0 then s\<lparr>blocks_used := blocks_used s - 1\<rparr> else s
      else s)"

definition fs_free_blocks :: "u32 \<Rightarrow> u32 \<Rightarrow> 'd fs \<Rightarrow> 'd fs" where
  "fs_free_blocks start count s = fold (\<lambda>i. fs_free_block (start + of_nat i)) [0..<unat count] s"

section \<open>The bitmap\<close>

text \<open>A bitmap is loaded and has a bit for every sector.\<close>

definition bitmap_ok :: "'d fs \<Rightarrow> bool" where
  "bitmap_ok s \<longleftrightarrow> (case bitmap s of None \<Rightarrow> False | Some bm \<Rightarrow> unat (b_total (boot s)) \<le> 8 * length bm)"

abbreviation total_of :: "'d fs \<Rightarrow> nat" where "total_of s \<equiv> unat (b_total (boot s))"

text \<open>The occupied sectors, by number.\<close>

definition occ :: "'d fs \<Rightarrow> nat \<Rightarrow> bool" where
  "occ s n = fs_bitmap_test s (of_nat n)"

lemma byte_bit_test:
  fixes b :: u8
  assumes "k < 8"
  shows "(ucast b AND 2 ^ k :: u32) = 0 \<longleftrightarrow> \<not> bit b k"
proof -
  have b: "bit (ucast b AND push_bit k 1 :: u32) i \<longleftrightarrow> i = k \<and> bit b k" for i
    using assms by (auto simp: bit_simps simp del: push_bit_of_1)
  have "(ucast b AND push_bit k 1 :: u32) = 0" if "\<not> bit b k"
    by (rule bit_word_eqI) (simp only: b that bit_0_eq bot_apply bot_bool_def simp_thms)
  moreover have "\<not> bit b k" if "(ucast b AND push_bit k 1 :: u32) = 0"
    using b [of k] unfolding that by simp
  ultimately show ?thesis by auto
qed

lemma byte_mask: "k < 8 \<Longrightarrow> ucast (2 ^ k :: u32) = (2 ^ k :: u8)"
  unfolding push_bit_of_1 [symmetric] by (rule bit_word_eqI) (auto simp: bit_simps simp del: push_bit_of_1)

lemma occ_bit:
  assumes "bitmap s = Some bm" and "n < total_of s"
  shows "occ s n \<longleftrightarrow> bit (bm ! (n div 8)) (n mod 8)"
proof -
  have n: "n < 2 ^ 32" using assms(2) unat_lt32 [of "b_total (boot s)"] by simp
  have d: "unat (of_nat n div 8 :: u32) = n div 8" "unat (of_nat n mod 8 :: u32) = n mod 8"
    by (simp_all only: unat_div unat_mod unat_of_nat32 [OF n]) simp_all
  have "\<not> b_total (boot s) \<le> of_nat n" using assms(2) by (simp add: le_of_nat32 [OF n])
  then show ?thesis using assms(1) by (simp add: occ_def fs_bitmap_test_def d byte_bit_test)
qed

lemma occ_outside: "total_of s \<le> n \<Longrightarrow> n < 2 ^ 32 \<Longrightarrow> occ s n"
  by (auto simp: occ_def fs_bitmap_test_def le_of_nat32 split: option.split)

lemma fs_bitmap_set_frame [simp]:
  "boot (fs_bitmap_set x b s) = boot s" "cache (fs_bitmap_set x b s) = cache s"
  "inodes (fs_bitmap_set x b s) = inodes s" "hp (fs_bitmap_set x b s) = hp s"
  "bitmap_ok (fs_bitmap_set x b s) = bitmap_ok s" "blocks_used (fs_bitmap_set x b s) = blocks_used s"
  by (auto simp: fs_bitmap_set_def bitmap_ok_def Let_def split: option.splits)

lemma fs_bitmap_set_in:
  assumes "bitmap s = Some bm" and "m < total_of s"
  shows "bitmap (fs_bitmap_set (of_nat m) b s) =
     Some (bm[m div 8 := if b then set_bit (m mod 8) (bm ! (m div 8)) else unset_bit (m mod 8) (bm ! (m div 8))])"
proof -
  have m: "m < 2 ^ 32" using assms(2) unat_lt32 [of "b_total (boot s)"] by simp
  have d: "unat (of_nat m div 8 :: u32) = m div 8" "unat (of_nat m mod 8 :: u32) = m mod 8"
    by (simp_all only: unat_div unat_mod unat_of_nat32 [OF m]) simp_all
  have "\<not> b_total (boot s) \<le> of_nat m" using assms(2) by (simp add: le_of_nat32 [OF m])
  then show ?thesis
    using assms(1) by (simp add: fs_bitmap_set_def d byte_mask Let_def set_bit_eq_or unset_bit_eq_and_not)
qed

lemma fs_bitmap_set_out:
  "total_of s \<le> m \<Longrightarrow> m < 2 ^ 32 \<Longrightarrow> fs_bitmap_set (of_nat m) b s = s"
  by (auto simp: fs_bitmap_set_def le_of_nat32 split: option.split)

lemma occ_set:
  assumes "bitmap_ok s" and "m < 2 ^ 32" and "n < 2 ^ 32"
  shows "occ (fs_bitmap_set (of_nat m) b s) n = (if n = m \<and> m < total_of s then b else occ s n)"
proof (cases "m < total_of s \<and> n < total_of s")
  case True
  obtain bm where bm: "bitmap s = Some bm" "total_of s \<le> 8 * length bm"
    using assms(1) by (auto simp: bitmap_ok_def split: option.splits)
  have k: "m div 8 < length bm" "n div 8 < length bm"
    using True bm(2) by (simp_all add: less_mult_imp_div_less mult.commute)
  have o: "occ (fs_bitmap_set (of_nat m) b s) n \<longleftrightarrow>
      bit (bm[m div 8 := if b then set_bit (m mod 8) (bm ! (m div 8)) else unset_bit (m mod 8) (bm ! (m div 8))]
        ! (n div 8)) (n mod 8)"
    by (rule occ_bit [OF fs_bitmap_set_in [OF bm(1)]]) (use True in simp_all)
  show ?thesis
  proof (cases "m div 8 = n div 8")
    case same: True
    show ?thesis
    proof (cases "m mod 8 = n mod 8")
      case True
      with same have "n = m" by (metis div_mult_mod_eq)
      with k o \<open>m < total_of s \<and> n < total_of s\<close> show ?thesis by (simp add: bit_simps)
    next
      case False
      then have "bit (set_bit (m mod 8) (bm ! (n div 8))) (n mod 8) = bit (bm ! (n div 8)) (n mod 8)"
        "bit (unset_bit (m mod 8) (bm ! (n div 8))) (n mod 8) = bit (bm ! (n div 8)) (n mod 8)" "n \<noteq> m"
        by (auto simp: bit_simps)
      with same k o occ_bit [OF bm(1), of n] True show ?thesis by simp
    qed
  next
    case False
    then have "n \<noteq> m" by blast
    with False o occ_bit [OF bm(1), of n] True show ?thesis by simp
  qed
next
  case False
  show ?thesis
  proof (cases "m < total_of s")
    case True
    with False have n: "total_of s \<le> n" by simp
    from occ_outside [OF n assms(3)] occ_outside [of "fs_bitmap_set (of_nat m) b s", OF _ assms(3)] n True
    show ?thesis by simp
  next
    case out: False
    then have "total_of s \<le> m" by simp
    from fs_bitmap_set_out [OF this assms(2)] out show ?thesis by simp
  qed
qed


section \<open>First-fit search\<close>

definition free_run :: "(nat \<Rightarrow> bool) \<Rightarrow> nat \<Rightarrow> nat \<Rightarrow> bool" where
  "free_run oc lo n \<longleftrightarrow> (\<forall>k < n. \<not> oc (lo + k))"

text \<open>The scan at sector b with a free run of r sectors just before it.\<close>

lemma alloc_scan_result:
  assumes "r < c" and "lo0 + r = b" and "free_run oc lo0 r"
  shows "case alloc_scan oc c r [b..<t] of
      Some i \<Rightarrow> lo0 \<le> i + 1 - c \<and> c \<le> i + 1 \<and> i < t \<and> free_run oc (i + 1 - c) c \<and>
        (\<forall>lo. lo0 \<le> lo \<and> lo < i + 1 - c \<longrightarrow> \<not> free_run oc lo c)
    | None \<Rightarrow> (\<forall>lo. lo0 \<le> lo \<and> lo + c \<le> t \<longrightarrow> \<not> free_run oc lo c)"
  using assms
proof (induction "t - b" arbitrary: b r lo0)
  case 0
  then show ?case by auto
next
  case (Suc n)
  then have u: "[b..<t] = b # [b + 1..<t]" by (simp add: upt_conv_Cons)
  show ?case
  proof (cases "oc b")
    case True
    have none: "\<not> free_run oc lo c" if "lo0 \<le> lo" "lo \<le> b" for lo
      using that True Suc.prems(1,2) by (auto simp: free_run_def intro!: exI [of _ "b - lo"])
    have le: "lo0 \<le> b" using Suc.prems(2) by simp
    have "free_run oc (b + 1) 0" by (simp add: free_run_def)
    with Suc.hyps(1) [of "b + 1" 0 "b + 1"] Suc.prems(1) Suc.hyps(2)
    have H: "case alloc_scan oc c 0 [b + 1..<t] of
        Some i \<Rightarrow> b + 1 \<le> i + 1 - c \<and> c \<le> i + 1 \<and> i < t \<and> free_run oc (i + 1 - c) c \<and>
          (\<forall>lo. b + 1 \<le> lo \<and> lo < i + 1 - c \<longrightarrow> \<not> free_run oc lo c)
      | None \<Rightarrow> (\<forall>lo. b + 1 \<le> lo \<and> lo + c \<le> t \<longrightarrow> \<not> free_run oc lo c)" by simp
    have split: "\<not> free_run oc lo c" if "lo0 \<le> lo" "b + 1 \<le> lo \<Longrightarrow> \<not> free_run oc lo c" for lo
      using none [OF that(1)] that(2) by (cases "lo \<le> b") auto
    show ?thesis
    proof (cases "alloc_scan oc c 0 [b + 1..<t]")
      case None
      then have "\<forall>lo. b + 1 \<le> lo \<and> lo + c \<le> t \<longrightarrow> \<not> free_run oc lo c" using H by simp
      then have "\<forall>lo. lo0 \<le> lo \<and> lo + c \<le> t \<longrightarrow> \<not> free_run oc lo c" using split by blast
      with None True show ?thesis by (simp add: u)
    next
      case (Some i)
      then have i: "b + 1 \<le> i + 1 - c \<and> c \<le> i + 1 \<and> i < t \<and> free_run oc (i + 1 - c) c \<and>
          (\<forall>lo. b + 1 \<le> lo \<and> lo < i + 1 - c \<longrightarrow> \<not> free_run oc lo c)" using H by simp
      then have "\<forall>lo. lo0 \<le> lo \<and> lo < i + 1 - c \<longrightarrow> \<not> free_run oc lo c" using split by blast
      with i Some True le show ?thesis by (simp add: u)
    qed
  next
    case False
    have run: "free_run oc lo0 (r + 1)"
      using Suc.prems False by (auto simp: free_run_def less_Suc_eq)
    show ?thesis
    proof (cases "r + 1 \<ge> c")
      case True
      then have "c = r + 1" using Suc.prems(1) by simp
      with False run Suc.prems(2) Suc.hyps(2) show ?thesis by (auto simp: u)
    next
      case more: False
      with Suc.hyps(1) [of "b + 1" "r + 1" lo0] run False Suc.hyps(2) Suc.prems(2) show ?thesis
        by (simp add: u)
    qed
  qed
qed

lemma set_run_frame [simp]:
  "boot (set_run a n s) = boot s" "cache (set_run a n s) = cache s" "inodes (set_run a n s) = inodes s"
  "hp (set_run a n s) = hp s" "bitmap_ok (set_run a n s) = bitmap_ok s" "blocks_used (set_run a n s) = blocks_used s"
  by (induction n) (simp_all add: set_run_def)

lemma occ_set_run:
  assumes "bitmap_ok s" and "a + n \<le> total_of s" and "k < 2 ^ 32"
  shows "occ (set_run (of_nat a) n s) k \<longleftrightarrow> occ s k \<or> a \<le> k \<and> k < a + n"
  using assms(2)
proof (induction n)
  case 0
  then show ?case by (auto simp: set_run_def)
next
  case (Suc n)
  have lt: "a + n < 2 ^ 32" using Suc.prems unat_lt32 [of "b_total (boot s)"] by simp
  have "set_run (of_nat a) (Suc n) s = fs_bitmap_set (of_nat (a + n)) True (set_run (of_nat a) n s)"
    by (simp add: set_run_def)
  then show ?case
    using occ_set [of "set_run (of_nat a) n s" "a + n" k True] lt assms(1,3) Suc by auto
qed

lemma fs_alloc_blocks_cases:
  assumes "bitmap_ok s" and "count \<noteq> 0"
  shows "(fs_alloc_blocks count s = (None, s) \<and>
          (\<forall>lo \<ge> unat (fs_alloc_base_sector (boot s)). lo + unat count \<le> total_of s \<longrightarrow>
             \<not> free_run (occ s) lo (unat count))) \<or>
    (\<exists>a. fs_alloc_blocks count s =
          (Some (of_nat a), (set_run (of_nat a) (unat count) s)\<lparr>blocks_used := blocks_used s + count\<rparr>) \<and>
          unat (fs_alloc_base_sector (boot s)) \<le> a \<and> a + unat count \<le> total_of s \<and>
          free_run (occ s) a (unat count) \<and>
          (\<forall>lo. unat (fs_alloc_base_sector (boot s)) \<le> lo \<and> lo < a \<longrightarrow> \<not> free_run (occ s) lo (unat count)))"
proof -
  let ?b = "unat (fs_alloc_base_sector (boot s))" and ?c = "unat count"
  have c: "0 < ?c" using assms(2) by (simp add: unat_gt_0)
  have oc: "(\<lambda>i. fs_bitmap_test s (of_nat i)) = occ s" by (simp add: occ_def fun_eq_iff)
  have bm: "bitmap s \<noteq> None" using assms(1) by (auto simp: bitmap_ok_def split: option.splits)
  have sc: "case alloc_scan (occ s) ?c 0 [?b..<total_of s] of
      Some i \<Rightarrow> ?b \<le> i + 1 - ?c \<and> ?c \<le> i + 1 \<and> i < total_of s \<and> free_run (occ s) (i + 1 - ?c) ?c \<and>
        (\<forall>lo. ?b \<le> lo \<and> lo < i + 1 - ?c \<longrightarrow> \<not> free_run (occ s) lo ?c)
    | None \<Rightarrow> (\<forall>lo. ?b \<le> lo \<and> lo + ?c \<le> total_of s \<longrightarrow> \<not> free_run (occ s) lo ?c)"
    using alloc_scan_result [of 0 ?c ?b ?b "occ s" "total_of s"] c by (simp add: free_run_def)
  show ?thesis
  proof (cases "alloc_scan (occ s) ?c 0 [?b..<total_of s]")
    case None
    with sc bm assms(2) show ?thesis by (simp add: fs_alloc_blocks_def oc)
  next
    case (Some i)
    have st: "of_nat i - count + 1 = (of_nat (i + 1 - ?c) :: u32)"
      using sc Some by (simp add: of_nat_diff)
    show ?thesis
      using sc Some bm assms(2)
      by (intro disjI2 exI [of _ "i + 1 - ?c"]) (simp add: fs_alloc_blocks_def oc st Let_def)
  qed
qed


lemma occ_blocks_used [simp]: "occ (s\<lparr>blocks_used := b\<rparr>) = occ s"
  by (simp add: occ_def fs_bitmap_test_def fun_eq_iff split: option.split)

lemma bitmap_ok_blocks_used [simp]: "bitmap_ok (s\<lparr>blocks_used := b\<rparr>) = bitmap_ok s"
  by (simp add: bitmap_ok_def split: option.split)

lemma fs_free_block_frame [simp]:
  "boot (fs_free_block x s) = boot s" "cache (fs_free_block x s) = cache s"
  "inodes (fs_free_block x s) = inodes s" "hp (fs_free_block x s) = hp s"
  "bitmap_ok (fs_free_block x s) = bitmap_ok s"
  by (simp_all add: fs_free_block_def Let_def)

lemma occ_free_block:
  assumes "bitmap_ok s" and "m < 2 ^ 32" and "n < 2 ^ 32"
  shows "occ (fs_free_block (of_nat m) s) n \<longleftrightarrow> occ s n \<and> \<not> (n = m \<and> m < total_of s)"
  using occ_set [OF assms, of False] by (auto simp: fs_free_block_def Let_def occ_def [symmetric])

lemma fs_free_blocks_frame [simp]:
  "boot (fs_free_blocks a n s) = boot s" "cache (fs_free_blocks a n s) = cache s"
  "inodes (fs_free_blocks a n s) = inodes s" "hp (fs_free_blocks a n s) = hp s"
  "bitmap_ok (fs_free_blocks a n s) = bitmap_ok s"
proof -
  have "boot (fold (\<lambda>i. fs_free_block (a + of_nat i)) [0..<k] s) = boot s \<and>
    cache (fold (\<lambda>i. fs_free_block (a + of_nat i)) [0..<k] s) = cache s \<and>
    inodes (fold (\<lambda>i. fs_free_block (a + of_nat i)) [0..<k] s) = inodes s \<and>
    hp (fold (\<lambda>i. fs_free_block (a + of_nat i)) [0..<k] s) = hp s \<and>
    bitmap_ok (fold (\<lambda>i. fs_free_block (a + of_nat i)) [0..<k] s) = bitmap_ok s" for k
    by (induction k) simp_all
  then show "boot (fs_free_blocks a n s) = boot s" "cache (fs_free_blocks a n s) = cache s"
    "inodes (fs_free_blocks a n s) = inodes s" "hp (fs_free_blocks a n s) = hp s"
    "bitmap_ok (fs_free_blocks a n s) = bitmap_ok s"
    by (simp_all add: fs_free_blocks_def)
qed

lemma occ_free_blocks:
  assumes "bitmap_ok s" and "a + unat n \<le> total_of s" and "k < 2 ^ 32"
  shows "occ (fs_free_blocks (of_nat a) n s) k \<longleftrightarrow> occ s k \<and> \<not> (a \<le> k \<and> k < a + unat n)"
proof -
  have "occ (fold (\<lambda>i. fs_free_block (of_nat a + of_nat i)) [0..<j] s) k \<longleftrightarrow>
      occ s k \<and> \<not> (a \<le> k \<and> k < a + j)" if "a + j \<le> total_of s" for j
    using that
  proof (induction j)
    case (Suc j)
    let ?s = "fold (\<lambda>i. fs_free_block (of_nat a + of_nat i)) [0..<j] s"
    have lt: "a + j < 2 ^ 32" using Suc.prems unat_lt32 [of "b_total (boot s)"] by simp
    have ok: "bitmap_ok ?s" "boot ?s = boot s" using assms(1) by (induction j) simp_all
    show ?case
      using occ_free_block [OF ok(1) lt assms(3)] Suc ok(2) by auto
  qed auto
  from this [OF assms(2)] show ?thesis by (simp add: fs_free_blocks_def)
qed

section \<open>Properties\<close>

text \<open>
  Fact: block allocation. On success the sectors returned lie in the data area, were all free
  and are now occupied, no other sector changes, and the run is the first one that fits; it
  fails exactly when no run of that many free sectors exists.
\<close>

theorem fs_alloc_blocks_correct:
  assumes "bitmap_ok s" and "count \<noteq> 0"
  shows "(\<exists>a s'. fs_alloc_blocks count s = (Some (of_nat a), s') \<and>
       unat (fs_alloc_base_sector (boot s)) \<le> a \<and> a + unat count \<le> total_of s \<and>
       free_run (occ s) a (unat count) \<and>
       (\<forall>lo. unat (fs_alloc_base_sector (boot s)) \<le> lo \<and> lo < a \<longrightarrow> \<not> free_run (occ s) lo (unat count)) \<and>
       (\<forall>k < 2 ^ 32. occ s' k \<longleftrightarrow> occ s k \<or> a \<le> k \<and> k < a + unat count) \<and>
       boot s' = boot s \<and> inodes s' = inodes s \<and> cache s' = cache s) \<or>
     fs_alloc_blocks count s = (None, s) \<and>
       (\<forall>lo \<ge> unat (fs_alloc_base_sector (boot s)). lo + unat count \<le> total_of s \<longrightarrow>
          \<not> free_run (occ s) lo (unat count))"
  using fs_alloc_blocks_cases [OF assms]
proof (elim disjE exE conjE)
  fix a
  assume f: "fs_alloc_blocks count s =
      (Some (of_nat a), (set_run (of_nat a) (unat count) s)\<lparr>blocks_used := blocks_used s + count\<rparr>)"
    and r: "a + unat count \<le> total_of s" "unat (fs_alloc_base_sector (boot s)) \<le> a" "free_run (occ s) a (unat count)"
      "\<forall>lo. unat (fs_alloc_base_sector (boot s)) \<le> lo \<and> lo < a \<longrightarrow> \<not> free_run (occ s) lo (unat count)"
  show ?thesis
    using occ_set_run [OF assms(1) r(1)] f r
    by (intro disjI1 exI [of _ a]
        exI [of _ "(set_run (of_nat a) (unat count) s)\<lparr>blocks_used := blocks_used s + count\<rparr>"]) simp
qed blast

text \<open>
  Fact: releasing what was allocated restores the bitmap: every sector is occupied afterwards
  exactly if it was before.
\<close>

theorem fs_alloc_free_roundtrip:
  assumes "bitmap_ok s" and "fs_alloc_blocks count s = (Some start, s')"
  shows "\<forall>k < 2 ^ 32. occ (fs_free_blocks start count s') k = occ s k"
proof -
  have c: "count \<noteq> 0" using assms(2) by (auto simp: fs_alloc_blocks_def)
  from fs_alloc_blocks_cases [OF assms(1) c] assms(2) obtain a where
    a: "start = of_nat a" "s' = (set_run (of_nat a) (unat count) s)\<lparr>blocks_used := blocks_used s + count\<rparr>"
      "a + unat count \<le> total_of s" "free_run (occ s) a (unat count)"
    by auto
  have ok: "bitmap_ok s'" "total_of s' = total_of s" using assms(1) by (simp_all add: a(2))
  have fr: "\<not> occ s k" if "a \<le> k" "k < a + unat count" for k
    using a(4) that unfolding free_run_def by (metis le_add_diff_inverse nat_add_left_cancel_less)
  show ?thesis
    using occ_free_blocks [OF ok(1), of a count] occ_set_run [OF assms(1) a(3)] a(1,2,3) ok(2) fr by auto
qed


text \<open>A small empty file system on a perfect disk, for the concrete instances: 16 sectors, the
  inode table in sectors 1 and 2, data from sector 8 on.\<close>

definition small_boot :: fs_boot_sector where
  "small_boot = \<lparr>b_magic = FS_MAGIC, b_version = FS_VERSION, b_total = 16, b_inode_table = 1, b_data_start = 8,
     b_inode_count = 1, b_bitmap_sector = 3, b_bitmap_size = 2, b_log_start = 4, b_log_size = 4, b_log_next = 0,
     b_log_magic = 0x4C4F4700, b_inode_slots = 4, b_root_ino = 1, b_quota = 0,
     b_reserved = replicate 452 0\<rparr>"

definition zero_inode :: fs_inode where
  "zero_inode = \<lparr>i_mode = 0, i_flags = 0, i_uid = 0, i_gid = 0, i_nlink = 0, i_pad0 = 0, i_size = 0, i_atime = 0,
     i_mtime = 0, i_ctime = 0, i_parent = 0, i_direct = replicate 4 \<lparr>e_lba = 0, e_count = 0\<rparr>, i_indirect = 0,
     i_xattr = 0, i_rdev = 0, i_symlink = replicate 60 0\<rparr>"

definition small_fs :: "(u32 \<Rightarrow> sector) fs" where
  "small_fs = \<lparr>boot = small_boot, inodes = replicate FS_MAX_INODES zero_inode, initialized = True,
     bitmap = Some (replicate FS_SECTOR_SIZE 0), bitmap_sectors = 1, g_uid = 0, g_gid = 0, blocks_used = 0,
     cache = cache_at_boot, hp = \<lparr>ready = False, blocks = [], hmem = \<lambda>_. 0\<rparr>, task_cred = None, now = 7,
     beyond = \<lambda>_. zero_inode, junk = \<lambda>_. 0\<rparr>"

lemma small_fs_alloc:
  "bitmap_ok small_fs" "unat (fs_alloc_base_sector (boot small_fs)) = 8" "total_of small_fs = 16"
  "n < 16 \<Longrightarrow> \<not> occ small_fs n"
proof -
  show "bitmap_ok small_fs" "unat (fs_alloc_base_sector (boot small_fs)) = 8" "total_of small_fs = 16"
    by (simp_all add: bitmap_ok_def small_fs_def small_boot_def fs_alloc_base_sector_def fs_inode_sectors_def Let_def)
  then show "n < 16 \<Longrightarrow> \<not> occ small_fs n"
    using occ_bit [of small_fs "replicate FS_SECTOR_SIZE 0" n] by (simp add: small_fs_def)
qed

theorem fs_alloc_blocks_correct_witness:
  "\<exists>s'. fs_alloc_blocks 3 small_fs = (Some 8, s') \<and> (\<forall>k < 2 ^ 32. occ s' k \<longleftrightarrow> occ small_fs k \<or> 8 \<le> k \<and> k < 11)"
proof -
  have run: "free_run (occ small_fs) 8 3" by (auto simp: free_run_def small_fs_alloc(4))
  have u: "unat (3 :: u32) = 3" by simp
  from fs_alloc_blocks_correct [OF small_fs_alloc(1), of 3] run obtain a s' where
    a: "fs_alloc_blocks 3 small_fs = (Some (of_nat a), s')" "8 \<le> a"
      "\<forall>lo. 8 \<le> lo \<and> lo < a \<longrightarrow> \<not> free_run (occ small_fs) lo 3"
      "\<forall>k < 2 ^ 32. occ s' k \<longleftrightarrow> occ small_fs k \<or> a \<le> k \<and> k < a + 3"
    unfolding small_fs_alloc u by fastforce
  with run have "a = 8" by (cases "8 < a") auto
  with a show ?thesis by auto
qed

theorem fs_alloc_free_roundtrip_witness:
  "\<forall>k < 2 ^ 32. occ (fs_free_blocks 8 3 (snd (fs_alloc_blocks 3 small_fs))) k = occ small_fs k"
proof -
  have "alloc_scan (occ small_fs) 3 0 [8..<16] = Some 10"
    by (simp add: upt_rec small_fs_alloc)
  then have "fs_alloc_blocks 3 small_fs = (Some 8, snd (fs_alloc_blocks 3 small_fs))"
    using small_fs_alloc by (simp add: fs_alloc_blocks_def occ_def [abs_def] Let_def bitmap_ok_def small_fs_def)
  from fs_alloc_free_roundtrip [OF small_fs_alloc(1) this] show ?thesis .
qed

end
