(* ===== verification/KFsJournal.thy ===== *)
theory KFsJournal
  imports KFsAlloc
begin

text \<open>
  The metadata journal of src/kernel/fs.cpp: fs_csum32, fs_journal_commit, fs_recover,
  fs_persist_meta and the journal self-test. All sector I/O goes through the cache, used
  here only by its contract \<open>sector_store\<close>.
\<close>

abbreviation (input) FS_TXN_MAGIC :: u32 where "FS_TXN_MAGIC \<equiv> 0x4A524E31"

text \<open>\<^verbatim>\<open>if (f() != 0) return -1;\<close> followed by the rest of the function.\<close>

definition attempt :: "bool \<times> 's \<Rightarrow> ('s \<Rightarrow> bool \<times> 's) \<Rightarrow> bool \<times> 's" where
  "attempt r k = (case r of (ok, s) \<Rightarrow> if ok then k s else (False, s))"

definition fs_csum32 :: "u8 list \<Rightarrow> u32" where
  "fs_csum32 bs = fold (\<lambda>b sum. let sum = sum + ucast b in push_bit 1 sum OR drop_bit 31 sum) bs 0"

definition hdr_prefix :: "u32 list \<Rightarrow> u8 list" where
  "hdr_prefix lbas = le32 FS_TXN_MAGIC @ le32 (of_nat (length lbas)) @ concat (map le32 lbas)"

text \<open>struct fs_txn_hdr: magic, nsec, the LBA array, the checksum of the used part, padding.\<close>

definition enc_txn_hdr :: "u32 list \<Rightarrow> sector" where
  "enc_txn_hdr lbas =
     hdr_prefix lbas @ replicate (4 * (FS_JOURNAL_MAX_SEC - length lbas)) 0 @
     le32 (fs_csum32 (hdr_prefix lbas)) @ replicate 372 0"

definition hdr_lba :: "sector \<Rightarrow> nat \<Rightarrow> u32" where
  "hdr_lba h i = get32 h (8 + 4 * i)"

definition set_log_next :: "u32 \<Rightarrow> 'd fs \<Rightarrow> 'd fs" where
  "set_log_next n s = s\<lparr>boot := (boot s)\<lparr>b_log_next := n\<rparr>\<rparr>"

definition replay :: "sector \<Rightarrow> nat \<Rightarrow> 'd fs \<Rightarrow> 'd fs" where
  "replay h i s =
     (case d_read (b_log_start (boot s) + 1 + of_nat i) s of
        (None, s) \<Rightarrow> s
      | (Some x, s) \<Rightarrow> snd (d_write (hdr_lba h i) x s))"

definition close_log :: "'d fs \<Rightarrow> 'd fs" where
  "close_log s = (let s = set_log_next 0 s in snd (d_write 0 (enc_boot (boot s)) s))"

definition fs_recover :: "'d fs \<Rightarrow> bool \<times> 'd fs" where
  "fs_recover s =
     (if b_log_size (boot s) = 0 \<or> b_log_next (boot s) = 0 then (True, s)
      else case d_read (b_log_start (boot s)) s of
        (None, s) \<Rightarrow> (False, s)
      | (Some h, s) \<Rightarrow>
          (let magic = get32 h 0; nsec = get32 h 4 in
           if magic \<noteq> FS_TXN_MAGIC \<or> nsec = 0 \<or> nsec > of_nat FS_JOURNAL_MAX_SEC then (True, close_log s)
           else if fs_csum32 (take (4 * (2 + unat nsec)) h) \<noteq> get32 h (8 + 4 * FS_JOURNAL_MAX_SEC)
           then (True, close_log s)
           else let s = fold (replay h) [0..<unat nsec] s in (True, snd (d_sync (close_log s)))))"

definition log_entries :: "u32 \<Rightarrow> sector list \<Rightarrow> (u32 \<times> sector) list" where
  "log_entries start xs = zip (map (\<lambda>i. start + 1 + of_nat i) [0..<length xs]) xs"

definition fs_journal_commit :: "(u32 \<times> sector) list \<Rightarrow> 'd fs \<Rightarrow> bool \<times> 'd fs" where
  "fs_journal_commit ps s =
     (let n = length ps in
      if n = 0 \<or> n > FS_JOURNAL_MAX_SEC then (False, s)
      else if b_log_size (boot s) < of_nat n + 1 then (False, s)
      else
        attempt (d_write (b_log_start (boot s)) (enc_txn_hdr (map fst ps)) s) (\<lambda>s.
        attempt (store_all d_write (log_entries (b_log_start (boot s)) (map snd ps)) s) (\<lambda>s.
        let s = set_log_next (of_nat n + 1) s in
        attempt (d_write 0 (enc_boot (boot s)) s) (\<lambda>s.
        attempt (store_all d_write ps s) (\<lambda>s.
        let s = set_log_next 0 s in
        attempt (d_write 0 (enc_boot (boot s)) s) d_sync)))))"

text \<open>The inode table and the bitmap as the sectors that fs_persist_meta copies out.\<close>

definition inode_bytes :: "'d fs \<Rightarrow> u8 list" where
  "inode_bytes s = concat (map enc_inode (inodes s))"

definition chunk :: "u8 list \<Rightarrow> nat \<Rightarrow> sector" where
  "chunk bs i = take FS_SECTOR_SIZE (drop (i * FS_SECTOR_SIZE) bs)"

definition meta_txn :: "'d fs \<Rightarrow> (u32 \<times> sector) list" where
  "meta_txn s =
     (let tsec = unat (fs_inode_sectors (boot s)); n = min tsec (FS_JOURNAL_MAX_SEC - 2) in
      map (\<lambda>i. (b_inode_table (boot s) + of_nat i, chunk (inode_bytes s) i)) [0..<n] @
      (case bitmap s of
         Some bm \<Rightarrow> if bitmap_sectors s > 0 then [(b_bitmap_sector (boot s), chunk bm 0)] else []
       | None \<Rightarrow> []))"

definition fs_persist_meta :: "'d fs \<Rightarrow> bool \<times> 'd fs" where
  "fs_persist_meta s =
     (let tsec = unat (fs_inode_sectors (boot s)); n = min tsec (FS_JOURNAL_MAX_SEC - 2) in
      attempt (fs_journal_commit (meta_txn s) s) (\<lambda>s.
      attempt (if tsec > n
               then d_write_n (b_inode_table (boot s) + of_nat n) (map (chunk (inode_bytes s)) [n..<tsec]) s
               else (True, s)) (\<lambda>s.
      attempt (case bitmap s of
                 Some bm \<Rightarrow>
                   if bitmap_sectors s > 1
                   then d_write_n (b_bitmap_sector (boot s) + 1) (map (chunk bm) [1..<unat (bitmap_sectors s)]) s
                   else (True, s)
               | None \<Rightarrow> (True, s)) (\<lambda>s.
      attempt (d_write 0 (enc_boot (boot s)) s) d_sync))))"

definition fs_sync :: "'d fs \<Rightarrow> bool \<times> 'd fs" where
  "fs_sync s = fs_persist_meta s"

definition fs_journal_selftest :: "'d fs \<Rightarrow> bool \<times> 'd fs" where
  "fs_journal_selftest s =
     (if \<not> initialized s \<or> b_log_size (boot s) < 2 then (False, s)
      else case fs_alloc_blocks 1 s of
        (None, s) \<Rightarrow> (False, s)
      | (Some start, s) \<Rightarrow>
          attempt (fs_journal_commit [(start, replicate FS_SECTOR_SIZE 0xA5)] s) (\<lambda>s.
          let s = set_log_next 2 s;
              s = snd (d_write 0 (enc_boot (boot s)) s);
              s = snd (fs_recover s)
          in case d_read start s of
               (None, s) \<Rightarrow> (False, s)
             | (Some v, s) \<Rightarrow>
                 if list_all (\<lambda>b. b = 0xA5) v then fs_persist_meta (fs_free_blocks start 1 s) else (False, s)))"

section \<open>The file system's view of the sectors\<close>

abbreviation fview :: "'d fs \<Rightarrow> u32 \<Rightarrow> sector" where "fview s \<equiv> cview (cache s)"

abbreviation fmedia :: "'d fs \<Rightarrow> u32 \<Rightarrow> sector" where "fmedia s \<equiv> cmedia (cache s)"

definition fs_io :: "'d fs \<Rightarrow> bool" where "fs_io s \<longleftrightarrow> cache_inv (cache s)"

definition fs_io_ff :: "'d fs \<Rightarrow> bool" where "fs_io_ff s \<longleftrightarrow> cache_inv_ff (cache s)"

interpretation ds: sector_store d_read d_write d_sync fview fmedia fs_io
proof
  fix s s' :: "'d fs" and l x ok
  assume "fs_io s"
  then have i: "cache_inv (cache s)" by (simp add: fs_io_def)
  show "d_read l s = (Some x, s') \<Longrightarrow> fs_io s' \<and> fview s' = fview s \<and> x = fview s l"
    using cs.rd_ok [OF i] by (auto simp: d_read_def fs_io_def split: prod.splits)
  show "d_write l x s = (True, s') \<Longrightarrow> fs_io s' \<and> fview s' = (fview s)(l := x)"
    using cs.wr_ok [OF i] by (auto simp: d_write_def fs_io_def split: prod.splits)
  show "d_write l x s = (False, s') \<Longrightarrow> fs_io s' \<and> fview s' = fview s"
    using cs.wr_fail [OF i] by (auto simp: d_write_def fs_io_def split: prod.splits)
  show "d_sync s = (ok, s') \<Longrightarrow> fs_io s' \<and> fview s' = fview s"
    using cs.sync_view [OF i] by (auto simp: d_sync_def fs_io_def split: prod.splits)
  show "d_sync s = (True, s') \<Longrightarrow> fmedia s' = fview s'"
    using cs.sync_ok [OF i] by (auto simp: d_sync_def split: prod.splits)
qed

interpretation dr: reliable_store d_read d_write d_sync fview fmedia fs_io_ff
proof
  fix s s' :: "'d fs" and l x ok
  assume "fs_io_ff s"
  then have i: "cache_inv_ff (cache s)" by (simp add: fs_io_ff_def)
  show "d_read l s = (Some x, s') \<Longrightarrow> fs_io_ff s' \<and> fview s' = fview s \<and> x = fview s l"
    using rs.rd_ok [OF i] by (auto simp: d_read_def fs_io_ff_def split: prod.splits)
  show "d_write l x s = (True, s') \<Longrightarrow> fs_io_ff s' \<and> fview s' = (fview s)(l := x)"
    using rs.wr_ok [OF i] by (auto simp: d_write_def fs_io_ff_def split: prod.splits)
  show "d_write l x s = (False, s') \<Longrightarrow> fs_io_ff s' \<and> fview s' = fview s"
    using rs.wr_fail [OF i] by (auto simp: d_write_def fs_io_ff_def split: prod.splits)
  show "d_sync s = (ok, s') \<Longrightarrow> fs_io_ff s' \<and> fview s' = fview s"
    using rs.sync_view [OF i] by (auto simp: d_sync_def fs_io_ff_def split: prod.splits)
  show "d_sync s = (True, s') \<Longrightarrow> fmedia s' = fview s'"
    using rs.sync_ok [OF i] by (auto simp: d_sync_def split: prod.splits)
  show "\<exists>x s'. d_read l s = (Some x, s')"
    using rs.rd_total [OF i, of l] by (auto simp: d_read_def)
  show "\<exists>s'. d_write l x s = (True, s')"
    using rs.wr_total [OF i, of l x] by (auto simp: d_write_def)
  show "\<exists>s'. d_sync s = (True, s')"
    using rs.sync_total [OF i] by (auto simp: d_sync_def)
qed


section \<open>Decomposition of a successful commit\<close>

lemma attempt_True: "attempt r k = (True, s') \<longleftrightarrow> (\<exists>s. r = (True, s) \<and> k s = (True, s'))"
  by (cases r) (auto simp: attempt_def)

text \<open>Sector I/O changes only the cache; the journal also changes the boot sector.\<close>

definition meta_of where
  "meta_of s = (inodes s, initialized s, bitmap s, bitmap_sectors s, g_uid s, g_gid s, blocks_used s, hp s,
     task_cred s, now s, beyond s, junk s)"

definition same_meta :: "'d fs \<Rightarrow> 'd fs \<Rightarrow> bool" where
  "same_meta s s' \<longleftrightarrow> boot s' = boot s \<and> meta_of s' = meta_of s"

lemma same_meta_refl [simp]: "same_meta s s"
  by (simp add: same_meta_def)

lemma same_meta_trans: "same_meta s s1 \<Longrightarrow> same_meta s1 s2 \<Longrightarrow> same_meta s s2"
  by (simp add: same_meta_def)

lemma meta_ofD:
  assumes "meta_of s' = meta_of s"
  shows "inodes s' = inodes s" "bitmap s' = bitmap s" "bitmap_sectors s' = bitmap_sectors s"
    "hp s' = hp s" "initialized s' = initialized s" "blocks_used s' = blocks_used s" "now s' = now s"
    "task_cred s' = task_cred s" "g_uid s' = g_uid s" "g_gid s' = g_gid s"
    "beyond s' = beyond s" "junk s' = junk s"
  using assms by (simp_all add: meta_of_def)

lemma same_metaD: "same_meta s s' \<Longrightarrow> boot s' = boot s" "same_meta s s' \<Longrightarrow> meta_of s' = meta_of s"
  by (simp_all add: same_meta_def)

lemma io_same_meta:
  "d_read l s = (r, s') \<Longrightarrow> same_meta s s'" "d_write l x s = (ok, s') \<Longrightarrow> same_meta s s'"
  "d_sync s = (ok, s') \<Longrightarrow> same_meta s s'" "d_write_n l xs s = (ok, s') \<Longrightarrow> same_meta s s'"
  "d_read_n l n s = (ok, ys, s') \<Longrightarrow> same_meta s s'"
  by (auto simp: d_read_def d_write_def d_sync_def d_write_n_def d_read_n_def same_meta_def meta_of_def split: prod.splits)

lemma store_all_same_meta: "store_all d_write ps s = (ok, s') \<Longrightarrow> same_meta s s'"
proof (induction ps arbitrary: s)
  case (Cons p ps)
  obtain l x where p: "p = (l, x)" by (cases p)
  obtain b s1 where w: "d_write l x s = (b, s1)" by (cases "d_write l x s")
  with Cons p have "same_meta s1 s'" by (cases b) auto
  with io_same_meta(2) [OF w] show ?case by (rule same_meta_trans)
qed simp

lemma d_write_n_store_all:
  "d_write_n l xs s = store_all d_write (zip (map (\<lambda>i. l + of_nat i) [0..<length xs]) xs) s"
proof -
  have "(case store_all fs_cache_write_sector ps (cache s) of (ok, c) \<Rightarrow> (ok, s\<lparr>cache := c\<rparr>)) = store_all d_write ps s" for ps
  proof (induction ps arbitrary: s)
    case (Cons p ps)
    obtain k x where p: "p = (k, x)" by (cases p)
    obtain b c where "fs_cache_write_sector k x (cache s) = (b, c)" by (cases "fs_cache_write_sector k x (cache s)")
    with Cons [of "s\<lparr>cache := c\<rparr>"] p show ?case by (cases b) (simp_all add: d_write_def)
  qed simp
  then show ?thesis by (simp add: d_write_n_def fs_cache_write_sectors_def)
qed

definition with_log_next :: "u32 \<Rightarrow> fs_boot_sector \<Rightarrow> sector" where
  "with_log_next n b = enc_boot (b\<lparr>b_log_next := n\<rparr>)"

text \<open>The writes of a commit, in order.\<close>

definition commit_writes :: "fs_boot_sector \<Rightarrow> (u32 \<times> sector) list \<Rightarrow> (u32 \<times> sector) list" where
  "commit_writes b ps =
     (b_log_start b, enc_txn_hdr (map fst ps)) # log_entries (b_log_start b) (map snd ps) @
     (0, with_log_next (of_nat (length ps) + 1) b) # ps @ [(0, with_log_next 0 b)]"

lemma fview_set_log_next [simp]: "fview (set_log_next n s) = fview s" "fs_io (set_log_next n s) = fs_io s"
  "fs_io_ff (set_log_next n s) = fs_io_ff s" "fmedia (set_log_next n s) = fmedia s"
  by (simp_all add: set_log_next_def fs_io_def fs_io_ff_def)

lemma fs_journal_commit_ok:
  assumes "fs_io s" and "fs_journal_commit ps s = (True, s')"
  shows "fs_io s' \<and> fview s' = put_all (commit_writes (boot s) ps) (fview s) \<and> fmedia s' = fview s' \<and>
    boot s' = (boot s)\<lparr>b_log_next := 0\<rparr> \<and> meta_of s' = meta_of s"
proof -
  let ?n = "of_nat (length ps) + 1 :: u32"
  from assms(2) obtain s1 s2 s3 s4 s5 where
    w1: "d_write (b_log_start (boot s)) (enc_txn_hdr (map fst ps)) s = (True, s1)" and
    w2: "store_all d_write (log_entries (b_log_start (boot s1)) (map snd ps)) s1 = (True, s2)" and
    w3: "d_write 0 (enc_boot (boot (set_log_next ?n s2))) (set_log_next ?n s2) = (True, s3)" and
    w4: "store_all d_write ps s3 = (True, s4)" and
    w5: "d_write 0 (enc_boot (boot (set_log_next 0 s4))) (set_log_next 0 s4) = (True, s5)" and
    w6: "d_sync s5 = (True, s')"
    by (auto simp: fs_journal_commit_def Let_def attempt_True split: if_splits)
  note m1 = io_same_meta(2) [OF w1] and m2 = store_all_same_meta [OF w2] and m3 = io_same_meta(2) [OF w3]
    and m4 = store_all_same_meta [OF w4] and m5 = io_same_meta(2) [OF w5] and m6 = io_same_meta(3) [OF w6]
  have b2: "boot s1 = boot s" "boot s2 = boot s" using same_metaD(1) [OF m1] same_metaD(1) [OF m2] by simp_all
  have b4: "boot s4 = (boot s)\<lparr>b_log_next := ?n\<rparr>"
    using same_metaD(1) [OF m4] same_metaD(1) [OF m3] b2 by (simp add: set_log_next_def)
  have v1: "fs_io s1" "fview s1 = (fview s)(b_log_start (boot s) := enc_txn_hdr (map fst ps))"
    using ds.wr_ok [OF assms(1) w1] by auto
  have v2: "fs_io s2" "fview s2 = put_all (log_entries (b_log_start (boot s)) (map snd ps)) (fview s1)"
    using ds.store_all_ok [OF v1(1) w2] b2 by auto
  have v3: "fs_io s3" "fview s3 = (fview s2)(0 := with_log_next ?n (boot s))"
    using ds.wr_ok [OF _ w3] v2(1) b2 by (auto simp: with_log_next_def set_log_next_def fs_io_def)
  have v4: "fs_io s4" "fview s4 = put_all ps (fview s3)" using ds.store_all_ok [OF v3(1) w4] by auto
  have v5: "fs_io s5" "fview s5 = (fview s4)(0 := with_log_next 0 (boot s))"
    using ds.wr_ok [OF _ w5] v4(1) b4 by (auto simp: with_log_next_def set_log_next_def fs_io_def)
  have v6: "fs_io s'" "fview s' = fview s5" "fmedia s' = fview s'"
    using ds.sync_view [OF v5(1) w6] ds.sync_ok [OF v5(1) w6] by auto
  have "fview s' = put_all (commit_writes (boot s) ps) (fview s)"
    unfolding v6(2) v5(2) v4(2) v3(2) v2(2) v1(2) commit_writes_def by simp
  moreover have "boot s' = (boot s)\<lparr>b_log_next := 0\<rparr> \<and> meta_of s' = meta_of s"
    using same_metaD [OF m1] same_metaD [OF m2] same_metaD [OF m3] same_metaD [OF m4] same_metaD [OF m5]
      same_metaD [OF m6] by (simp add: set_log_next_def meta_of_def)
  ultimately show ?thesis using v6 by simp
qed


section \<open>Reading a transaction header back\<close>

lemma length_le32s [simp]: "length (concat (map le32 ws)) = 4 * length ws"
  by (induction ws) simp_all

lemma length_hdr_prefix [simp]: "length (hdr_prefix lbas) = 4 * (2 + length lbas)"
  by (simp add: hdr_prefix_def)

lemma get32_concat: "k < length ws \<Longrightarrow> get32 (concat (map le32 ws)) (4 * k) = ws ! k"
proof (induction ws arbitrary: k)
  case (Cons w ws)
  then show ?case by (cases k) simp_all
qed simp

lemma txn_hdr_fields:
  assumes "length lbas \<le> FS_JOURNAL_MAX_SEC"
  shows "get32 (enc_txn_hdr lbas) 0 = FS_TXN_MAGIC" "get32 (enc_txn_hdr lbas) 4 = of_nat (length lbas)"
    "k < length lbas \<Longrightarrow> hdr_lba (enc_txn_hdr lbas) k = lbas ! k"
    "get32 (enc_txn_hdr lbas) (8 + 4 * FS_JOURNAL_MAX_SEC) = fs_csum32 (hdr_prefix lbas)"
    "take (4 * (2 + length lbas)) (enc_txn_hdr lbas) = hdr_prefix lbas"
proof -
  show "get32 (enc_txn_hdr lbas) 0 = FS_TXN_MAGIC" "get32 (enc_txn_hdr lbas) 4 = of_nat (length lbas)"
    by (simp_all add: enc_txn_hdr_def hdr_prefix_def)
  show "hdr_lba (enc_txn_hdr lbas) k = lbas ! k" if "k < length lbas"
    using that by (simp add: hdr_lba_def enc_txn_hdr_def hdr_prefix_def get32_concat)
  have 4: "4 * (FS_JOURNAL_MAX_SEC - length lbas) + 4 * (2 + length lbas) = 8 + 4 * FS_JOURNAL_MAX_SEC"
    using assms by simp
  have "get32 ((hdr_prefix lbas @ replicate (4 * (FS_JOURNAL_MAX_SEC - length lbas)) 0) @
      le32 (fs_csum32 (hdr_prefix lbas)) @ replicate 372 0) (8 + 4 * FS_JOURNAL_MAX_SEC) = fs_csum32 (hdr_prefix lbas)"
    by (rule get32_le32) (use 4 in simp)
  then show "get32 (enc_txn_hdr lbas) (8 + 4 * FS_JOURNAL_MAX_SEC) = fs_csum32 (hdr_prefix lbas)"
    by (simp add: enc_txn_hdr_def)
  show "take (4 * (2 + length lbas)) (enc_txn_hdr lbas) = hdr_prefix lbas"
    by (simp add: enc_txn_hdr_def)
qed

section \<open>Recovery\<close>

text \<open>The sectors of a transaction of n sectors in the log: the header and its n copies.\<close>

definition log_area :: "fs_boot_sector \<Rightarrow> nat \<Rightarrow> u32 set" where
  "log_area b n = (\<lambda>i. b_log_start b + of_nat i) ` {0..n}"

text \<open>A transaction that the journal accepts and whose targets are neither in its log area
  nor the boot sector.\<close>

definition txn_ok :: "fs_boot_sector \<Rightarrow> (u32 \<times> sector) list \<Rightarrow> bool" where
  "txn_ok b ps \<longleftrightarrow> 0 < length ps \<and> length ps \<le> FS_JOURNAL_MAX_SEC \<and> b_log_size b \<noteq> 0 \<and>
     0 \<notin> log_area b (length ps) \<and> 0 \<notin> fst ` set ps \<and> fst ` set ps \<inter> log_area b (length ps) = {}"

lemma log_offset_inj:
  assumes "i < 2 ^ 32" and "j < 2 ^ 32"
  shows "(a :: u32) + of_nat i = a + of_nat j \<longleftrightarrow> i = j"
  using of_nat_eq32 [OF assms] by simp

lemma log_entries_fst: "map fst (log_entries a xs) = map (\<lambda>i. a + 1 + of_nat i) [0..<length xs]"
  by (simp add: log_entries_def)

lemma log_entries_area: "fst ` set (log_entries (b_log_start b) xs) \<subseteq> log_area b (length xs)"
proof
  fix l
  assume "l \<in> fst ` set (log_entries (b_log_start b) xs)"
  then have "l \<in> set (map fst (log_entries (b_log_start b) xs))" by simp
  then obtain i where "l = b_log_start b + of_nat (i + 1)" "i < length xs"
    unfolding log_entries_fst by (auto simp: algebra_simps)
  then show "l \<in> log_area b (length xs)" unfolding log_area_def by (intro image_eqI [of _ _ "i + 1"]) auto
qed

lemma log_entries_distinct: "length xs \<le> FS_JOURNAL_MAX_SEC \<Longrightarrow> distinct (map fst (log_entries a xs))"
  unfolding log_entries_fst
  by (auto simp: distinct_map inj_on_def of_nat_eq32)

lemma log_entries_in: "i < length xs \<Longrightarrow> (a + 1 + of_nat i, xs ! i) \<in> set (log_entries a xs)"
  by (auto simp: log_entries_def set_zip intro!: exI [of _ i])

text \<open>A complete log: the header and the copies of the transaction, untouched since.\<close>

definition log_complete :: "fs_boot_sector \<Rightarrow> (u32 \<times> sector) list \<Rightarrow> (u32 \<Rightarrow> sector) \<Rightarrow> bool" where
  "log_complete b ps v \<longleftrightarrow> v (b_log_start b) = enc_txn_hdr (map fst ps) \<and>
     (\<forall>i < length ps. v (b_log_start b + 1 + of_nat i) = snd (ps ! i))"

lemma log_written_complete:
  assumes "txn_ok b ps"
  shows "log_complete b ps
    (put_all ((b_log_start b, enc_txn_hdr (map fst ps)) # log_entries (b_log_start b) (map snd ps)) v)"
proof -
  have n: "length (map snd ps) \<le> FS_JOURNAL_MAX_SEC" using assms by (simp add: txn_ok_def)
  have "b_log_start b \<notin> fst ` set (log_entries (b_log_start b) (map snd ps))"
  proof
    assume "b_log_start b \<in> fst ` set (log_entries (b_log_start b) (map snd ps))"
    then have "b_log_start b \<in> set (map fst (log_entries (b_log_start b) (map snd ps)))" by simp
    then obtain i where "b_log_start b = b_log_start b + of_nat (i + 1)" "i < length ps"
      unfolding log_entries_fst by (auto simp: algebra_simps)
    then show False using log_offset_inj [of 0 "i + 1" "b_log_start b"] n by simp
  qed
  then have h: "put_all (log_entries (b_log_start b) (map snd ps)) (v(b_log_start b := h)) (b_log_start b) = h" for h
    by (simp add: put_all_other)
  have "put_all (log_entries (b_log_start b) (map snd ps)) w (b_log_start b + 1 + of_nat i) = snd (ps ! i)"
    if "i < length ps" for i w
    using put_all_at [OF log_entries_distinct [OF n] log_entries_in] that by simp
  with h show ?thesis by (simp add: log_complete_def)
qed

lemma log_complete_cong:
  assumes "log_complete b ps v" and "\<And>l. l \<in> log_area b (length ps) \<Longrightarrow> w l = v l"
  shows "log_complete b ps w"
proof -
  have "b_log_start b + of_nat 0 \<in> log_area b (length ps)" unfolding log_area_def by (intro imageI) simp
  moreover have "b_log_start b + 1 + of_nat i \<in> log_area b (length ps)" if "i < length ps" for i
    unfolding log_area_def using that by (intro image_eqI [of _ _ "i + 1"]) (auto simp: algebra_simps)
  ultimately show ?thesis using assms by (simp add: log_complete_def)
qed

lemma replay_fold:
  assumes "txn_ok b ps" and "log_complete b ps v" and "k \<le> length ps"
  shows "fold (\<lambda>i v. v(map fst ps ! i := v (b_log_start b + 1 + of_nat i))) [0..<k] v = put_all (take k ps) v"
  using assms(3)
proof (induction k)
  case (Suc k)
  have k: "k < length ps" using Suc.prems by simp
  have "b_log_start b + 1 + of_nat k \<in> log_area b (length ps)"
    unfolding log_area_def using k by (intro image_eqI [of _ _ "k + 1"]) (auto simp: algebra_simps)
  then have "b_log_start b + 1 + of_nat k \<notin> fst ` set (take k ps)"
    using assms(1) set_take_subset [of k ps] unfolding txn_ok_def by blast
  then have "put_all (take k ps) v (b_log_start b + 1 + of_nat k) = snd (ps ! k)"
    using assms(2) k by (simp add: put_all_other log_complete_def)
  then have "put_all (take (Suc k) ps) v = (put_all (take k ps) v)(map fst ps ! k :=
      put_all (take k ps) v (b_log_start b + 1 + of_nat k))"
    using k by (cases "ps ! k") (simp add: take_Suc_conv_app_nth)
  moreover have "[0..<Suc k] = [0..<k] @ [k]" by simp
  ultimately show ?case using Suc by (simp only: fold_append fold_simps comp_def)
qed simp

lemma replay_meta: "same_meta s (fold (replay h) is s)"
proof (induction "is" arbitrary: s)
  case (Cons i "is")
  have "same_meta s (replay h i s)"
    by (auto simp: replay_def split: prod.splits option.splits dest!: io_same_meta(1) intro: same_meta_trans)
      (metis io_same_meta(2) prod.collapse same_meta_trans)
  with Cons [of "replay h i s"] show ?case by (auto intro: same_meta_trans)
qed simp


lemma close_log_ok:
  assumes "fs_io_ff s"
  shows "fs_io_ff (close_log s)" "fview (close_log s) = (fview s)(0 := with_log_next 0 (boot s))"
    "b_log_next (boot (close_log s)) = 0"
proof -
  have i: "fs_io_ff (set_log_next 0 s)" using assms by simp
  obtain s' where w: "d_write 0 (enc_boot (boot (set_log_next 0 s))) (set_log_next 0 s) = (True, s')" "fs_io_ff s'"
      "fview s' = (fview (set_log_next 0 s))(0 := enc_boot (boot (set_log_next 0 s)))"
    using dr.wr_eq [OF i] by metis
  have c: "close_log s = s'" using w(1) by (simp add: close_log_def)
  show "fs_io_ff (close_log s)" using w(2) c by simp
  show "fview (close_log s) = (fview s)(0 := with_log_next 0 (boot s))"
    unfolding c w(3) by (simp add: set_log_next_def with_log_next_def)
  show "b_log_next (boot (close_log s)) = 0"
    using same_metaD(1) [OF io_same_meta(2) [OF w(1)]] c by (simp add: set_log_next_def)
qed

lemma fs_recover_clean: "b_log_next (boot s) = 0 \<Longrightarrow> fs_recover s = (True, s)"
  by (simp add: fs_recover_def)

text \<open>With the log start fixed, a replay step is a copy of one sector.\<close>

lemma replay_steps:
  assumes "boot x = b"
  shows "fold (replay h) is x = fold (\<lambda>a x. case d_read (b_log_start b + 1 + of_nat a) x of (None, x) \<Rightarrow> x
      | (Some y, x) \<Rightarrow> snd (d_write (hdr_lba h a) y x)) is x"
  using assms
proof (induction "is" arbitrary: x)
  case (Cons i "is")
  have "boot (replay h i x) = b" using same_metaD(1) [OF replay_meta, of h "[i]" x] Cons.prems by simp
  with Cons show ?case by (simp add: replay_def)
qed simp

lemma replay_all:
  assumes "fs_io_ff s" and "txn_ok (boot s) ps" and "log_complete (boot s) ps (fview s)"
  shows "fs_io_ff (fold (replay (enc_txn_hdr (map fst ps))) [0..<length ps] s)"
    "fview (fold (replay (enc_txn_hdr (map fst ps))) [0..<length ps] s) = put_all ps (fview s)"
proof -
  let ?b = "boot s" and ?h = "enc_txn_hdr (map fst ps)"
  let ?step = "\<lambda>a x. case d_read (b_log_start ?b + 1 + of_nat a) x of (None, x) \<Rightarrow> x
      | (Some y, x) \<Rightarrow> snd (d_write (hdr_lba ?h a) y x)"
  have cp: "fs_io_ff (fold ?step is s) \<and> fview (fold ?step is s) =
      fold (\<lambda>i v. v(hdr_lba ?h i := v (b_log_start ?b + 1 + of_nat i))) is (fview s)" for "is"
    by (rule dr.copy_all [OF assms(1)]) simp
  have lb: "hdr_lba ?h i = map fst ps ! i" if "i \<in> set [0..<length ps]" for i
    using txn_hdr_fields(3) [of "map fst ps" i] that assms(2) by (simp add: txn_ok_def)
  show "fs_io_ff (fold (replay ?h) [0..<length ps] s)" using cp unfolding replay_steps [OF refl] by blast
  have "fview (fold (replay ?h) [0..<length ps] s) =
      fold (\<lambda>i v. v(hdr_lba ?h i := v (b_log_start ?b + 1 + of_nat i))) [0..<length ps] (fview s)"
    using cp unfolding replay_steps [OF refl] by blast
  also have "\<dots> = fold (\<lambda>i v. v(map fst ps ! i := v (b_log_start ?b + 1 + of_nat i))) [0..<length ps] (fview s)"
    by (rule fold_cong [OF refl refl]) (simp only: lb)
  also have "\<dots> = put_all ps (fview s)" using replay_fold [OF assms(2,3), of "length ps"] by simp
  finally show "fview (fold (replay ?h) [0..<length ps] s) = put_all ps (fview s)" .
qed

lemma fs_recover_replays:
  assumes "fs_io_ff s" and "txn_ok (boot s) ps" and "b_log_next (boot s) \<noteq> 0"
    and "log_complete (boot s) ps (fview s)"
  shows "\<exists>s'. fs_recover s = (True, s') \<and> fs_io_ff s' \<and> b_log_next (boot s') = 0 \<and> fmedia s' = fview s' \<and>
    fview s' = (put_all ps (fview s))(0 := with_log_next 0 (boot s))"
proof -
  let ?b = "boot s" and ?h = "enc_txn_hdr (map fst ps)"
  have n: "0 < length ps" "length ps \<le> FS_JOURNAL_MAX_SEC" "b_log_size ?b \<noteq> 0" using assms(2) by (auto simp: txn_ok_def)
  then have nw: "of_nat (length ps) \<noteq> (0 :: u32)" "\<not> of_nat (length ps) > (of_nat FS_JOURNAL_MAX_SEC :: u32)"
      "unat (of_nat (length ps) :: u32) = length ps"
    by (simp_all add: word_less_nat_alt unat_of_nat32 word_unat_eq_iff [of "of_nat (length ps)" 0])
  obtain s1 where r: "d_read (b_log_start ?b) s = (Some (fview s (b_log_start ?b)), s1)" "fs_io_ff s1" "fview s1 = fview s"
    using dr.rd_eq [OF assms(1)] by metis
  have b1: "boot s1 = ?b" by (rule same_metaD(1) [OF io_same_meta(1) [OF r(1)]])
  have h: "fview s (b_log_start ?b) = ?h" using assms(4) by (simp add: log_complete_def)
  let ?s2 = "fold (replay ?h) [0..<length ps] s1"
  have v2: "fs_io_ff ?s2" "fview ?s2 = put_all ps (fview s)"
    using replay_all [OF r(2), of ps] assms(2,4) b1 r(3) by auto
  have b2: "boot ?s2 = ?b" using same_metaD(1) [OF replay_meta] b1 by metis
  note cl = close_log_ok [OF v2(1)]
  obtain s3 where y: "d_sync (close_log ?s2) = (True, s3)" "fs_io_ff s3" "fview s3 = fview (close_log ?s2)"
      "fmedia s3 = fview (close_log ?s2)" using dr.sync_eq [OF cl(1)] by metis
  have "fs_recover s = (True, s3)"
    using r(1) h assms(3) n nw y(1) txn_hdr_fields [of "map fst ps"]
    by (simp add: fs_recover_def Let_def)
  moreover have "b_log_next (boot s3) = 0" using same_metaD(1) [OF io_same_meta(3) [OF y(1)]] cl(3) by simp
  moreover have "fview s3 = (put_all ps (fview s))(0 := with_log_next 0 ?b)" unfolding y(3) cl(2) v2(2) b2 ..
  ultimately show ?thesis using y by auto
qed

lemma fs_journal_commit_view:
  assumes "fs_io s" and "txn_ok (boot s) ps" and "fs_journal_commit ps s = (True, s')"
  shows "\<forall>l. l \<noteq> 0 \<and> l \<notin> log_area (boot s) (length ps) \<longrightarrow> fview s' l = put_all ps (fview s) l"
proof (intro allI impI)
  fix l
  let ?b = "boot s" and ?log = "log_entries (b_log_start (boot s)) (map snd ps)"
  assume l: "l \<noteq> 0 \<and> l \<notin> log_area ?b (length ps)"
  have "b_log_start ?b \<in> log_area ?b (length ps)"
    unfolding log_area_def by (intro image_eqI [of _ _ 0]) auto
  with l have "l \<noteq> b_log_start ?b" "l \<notin> fst ` set ?log" using log_entries_area [of ?b "map snd ps"] by auto
  then have "put_all ps (w(0 := x)) l = put_all ps (fview s) l"
    if "w = put_all ?log ((fview s)(b_log_start ?b := h))" for w x h
    by (intro put_all_cong) (simp add: that l put_all_other)
  with fs_journal_commit_ok [OF assms(1,3)] l show "fview s' l = put_all ps (fview s) l"
    by (simp add: commit_writes_def)
qed

section \<open>Properties\<close>

text \<open>
  Fact: a committed transaction. When fs_journal_commit reports success, every target sector
  holds its new contents (the last one given for it), every sector outside the targets, the
  log and the boot sector is unchanged, all of it is on the medium, and the log is marked
  empty.
\<close>

theorem fs_journal_commit_correct:
  assumes "fs_io s" and "txn_ok (boot s) ps" and "fs_journal_commit ps s = (True, s')"
  shows "(\<forall>l. l \<noteq> 0 \<and> l \<notin> log_area (boot s) (length ps) \<longrightarrow> fview s' l = put_all ps (fview s) l) \<and>
    fview s' 0 = enc_boot (boot s') \<and> b_log_next (boot s') = 0 \<and> fmedia s' = fview s' \<and> meta_of s' = meta_of s"
  using fs_journal_commit_view [OF assms] fs_journal_commit_ok [OF assms(1,3)]
  by (simp add: commit_writes_def with_log_next_def)


lemma log_area_next [simp]: "log_area (b\<lparr>b_log_next := n\<rparr>) k = log_area b k"
  by (simp add: log_area_def)

lemma txn_ok_next [simp]: "txn_ok (b\<lparr>b_log_next := n\<rparr>) ps = txn_ok b ps"
  by (simp add: txn_ok_def)

lemma log_complete_next [simp]: "log_complete (b\<lparr>b_log_next := n\<rparr>) ps v = log_complete b ps v"
  by (simp add: log_complete_def)

lemma dec_with_log_next [simp]: "dec_boot (with_log_next n b) = b\<lparr>b_log_next := n\<rparr>"
  by (simp add: with_log_next_def dec_enc_boot)

text \<open>The writes up to the commit record touch only the log.\<close>

definition log_writes :: "fs_boot_sector \<Rightarrow> (u32 \<times> sector) list \<Rightarrow> (u32 \<times> sector) list" where
  "log_writes b ps = (b_log_start b, enc_txn_hdr (map fst ps)) # log_entries (b_log_start b) (map snd ps)"

lemma log_writes_area: "fst ` set (log_writes b ps) \<subseteq> log_area b (length ps)"
proof -
  have "b_log_start b \<in> log_area b (length ps)" unfolding log_area_def by (intro image_eqI [of _ _ 0]) auto
  then show ?thesis using log_entries_area [of b "map snd ps"] by (simp add: log_writes_def)
qed

lemma log_writes_outside:
  "l \<notin> log_area b (length ps) \<Longrightarrow> put_all (take k (log_writes b ps)) v l = v l"
  using log_writes_area [of b ps] set_take_subset [of k "log_writes b ps"] by (intro put_all_other) blast

lemma commit_writes_split:
  "commit_writes b ps = log_writes b ps @ (0, with_log_next (of_nat (length ps) + 1) b) # ps @ [(0, with_log_next 0 b)]"
  by (simp add: commit_writes_def log_writes_def)

lemma commit_prefix_cases:
  assumes "k \<le> length (commit_writes b ps)"
  obtains (log) j where "take k (commit_writes b ps) = take j (log_writes b ps)"
    | (committed) j where "j \<le> length ps"
        "take k (commit_writes b ps) = log_writes b ps @ (0, with_log_next (of_nat (length ps) + 1) b) # take j ps"
    | (all) "take k (commit_writes b ps) = commit_writes b ps"
proof -
  let ?n = "length (log_writes b ps)"
  consider "k \<le> ?n" | j where "k = ?n + 1 + j" "j \<le> length ps" | "k = ?n + 1 + length ps + 1"
  proof -
    have "k \<le> ?n \<or> (\<exists>j \<le> length ps. k = ?n + 1 + j) \<or> k = ?n + 1 + length ps + 1"
      using assms le_Suc_ex [of "?n + 1" k] by (auto simp: commit_writes_split)
    with that show thesis by blast
  qed
  then show thesis
  proof cases
    case 1
    then show ?thesis by (intro log [of k]) (simp add: commit_writes_split)
  next
    case (2 j)
    then show ?thesis by (intro committed [of j]) (simp_all add: commit_writes_split)
  next
    case 3
    then show ?thesis by (intro all) (simp add: commit_writes_split)
  qed
qed

lemma committed_log_complete:
  assumes "txn_ok b ps"
  shows "log_complete b ps (put_all (log_writes b ps @ (0, z) # take j ps) v)"
proof (rule log_complete_cong)
  show "log_complete b ps (put_all (log_writes b ps) v)"
    using log_written_complete [OF assms] by (simp add: log_writes_def)
  fix l
  assume l: "l \<in> log_area b (length ps)"
  then have "l \<noteq> 0" "l \<notin> fst ` set ps" using assms by (auto simp: txn_ok_def)
  then have "l \<noteq> 0" "l \<notin> fst ` set (take j ps)" using set_take_subset [of j ps] by blast+
  then show "put_all (log_writes b ps @ (0, z) # take j ps) v l = put_all (log_writes b ps) v l"
    by (simp add: put_all_other)
qed



section \<open>Durability of the metadata\<close>

abbreviation tsecs :: "'d fs \<Rightarrow> nat" where "tsecs s \<equiv> unat (fs_inode_sectors (boot s))"

abbreviation bsecs :: "'d fs \<Rightarrow> nat" where "bsecs s \<equiv> unat (bitmap_sectors s)"

definition area :: "u32 \<Rightarrow> nat \<Rightarrow> u32 set" where
  "area l n = (\<lambda>i. l + of_nat i) ` {0..<n}"

text \<open>Boot sector, inode table, bitmap and log do not overlap, and the log has room.\<close>

definition meta_layout :: "'d fs \<Rightarrow> bool" where
  "meta_layout s \<longleftrightarrow> 0 < tsecs s \<and> 0 < bsecs s \<and> bitmap s \<noteq> None \<and> b_log_size (boot s) \<noteq> 0 \<and>
     (let T = area (b_inode_table (boot s)) (tsecs s); B = area (b_bitmap_sector (boot s)) (bsecs s);
          L = log_area (boot s) FS_JOURNAL_MAX_SEC in
      0 \<notin> T \<and> 0 \<notin> B \<and> 0 \<notin> L \<and> T \<inter> B = {} \<and> T \<inter> L = {} \<and> B \<inter> L = {})"

lemma area_mono: "m \<le> n \<Longrightarrow> area l m \<subseteq> area l n"
  unfolding area_def by (intro image_mono) auto

lemma in_area: "i < n \<Longrightarrow> l + of_nat i \<in> area l n"
  unfolding area_def by (intro imageI) simp

lemma log_area_mono: "m \<le> n \<Longrightarrow> log_area b m \<subseteq> log_area b n"
  unfolding log_area_def by (intro image_mono) auto

lemma area_suffix: "(\<lambda>i. l + of_nat m + of_nat i) ` {0..<n - m} \<subseteq> area l n"
proof
  fix a
  assume "a \<in> (\<lambda>i. l + of_nat m + of_nat i) ` {0..<n - m}"
  then obtain i where i: "i < n - m" "a = l + of_nat (m + i)" by (auto simp: algebra_simps)
  then show "a \<in> area l n" using in_area [of "m + i" n l] by (simp add: i(2) algebra_simps)
qed

text \<open>A run of sectors written by d_write_n.\<close>

lemma put_run:
  assumes "i < length xs" and "length xs \<le> 2 ^ 32"
  shows "put_all (zip (map (\<lambda>i. l + of_nat i) [0..<length xs]) xs) v (l + of_nat i) = xs ! i"
proof (rule put_all_at)
  show "distinct (map fst (zip (map (\<lambda>i. l + of_nat i :: u32) [0..<length xs]) xs))"
    using assms(2) by (auto simp: distinct_map inj_on_def of_nat_eq32)
  show "(l + of_nat i, xs ! i) \<in> set (zip (map (\<lambda>i. l + of_nat i) [0..<length xs]) xs)"
    using assms(1) by (auto simp: set_zip intro!: exI [of _ i])
qed

lemma put_run_other:
  "k \<notin> area l (length xs) \<Longrightarrow> put_all (zip (map (\<lambda>i. l + of_nat i) [0..<length xs]) xs) v k = v k"
  by (rule put_all_other) (auto simp: area_def set_zip)

lemma d_write_n_ok:
  assumes "fs_io s" and "d_write_n l xs s = (True, s')"
  shows "fs_io s'" "fview s' = put_all (zip (map (\<lambda>i. l + of_nat i) [0..<length xs]) xs) (fview s)"
  using ds.store_all_ok [OF assms(1)] assms(2) unfolding d_write_n_store_all by blast+

text \<open>The transaction of fs_persist_meta: the first table sectors and the first bitmap sector.\<close>

lemma meta_txn_shape:
  assumes "meta_layout s" and "bitmap s = Some bm"
  defines "n \<equiv> min (tsecs s) (FS_JOURNAL_MAX_SEC - 2)"
  shows "meta_txn s = map (\<lambda>i. (b_inode_table (boot s) + of_nat i, chunk (inode_bytes s) i)) [0..<n] @
      [(b_bitmap_sector (boot s), chunk bm 0)]"
    "txn_ok (boot s) (meta_txn s)" "distinct (map fst (meta_txn s))"
proof -
  note ml = assms(1) [unfolded meta_layout_def Let_def]
  have bs: "bitmap_sectors s > 0" using ml by (simp add: word_gt_0_no word_neq_0_conv unat_gt_0)
  then show eq: "meta_txn s = map (\<lambda>i. (b_inode_table (boot s) + of_nat i, chunk (inode_bytes s) i)) [0..<n] @
      [(b_bitmap_sector (boot s), chunk bm 0)]"
    by (simp add: meta_txn_def Let_def assms(2) n_def)
  have len: "length (meta_txn s) = n + 1" "n + 1 \<le> FS_JOURNAL_MAX_SEC" by (simp_all add: eq n_def)
  have T: "fst ` set (map (\<lambda>i. (b_inode_table (boot s) + of_nat i, chunk (inode_bytes s) i)) [0..<n])
      \<subseteq> area (b_inode_table (boot s)) (tsecs s)"
    by (auto simp: n_def intro!: in_area)
  have B: "b_bitmap_sector (boot s) \<in> area (b_bitmap_sector (boot s)) (bsecs s)"
    using in_area [of 0 "bsecs s" "b_bitmap_sector (boot s)"] ml by simp
  have L: "log_area (boot s) (length (meta_txn s)) \<subseteq> log_area (boot s) FS_JOURNAL_MAX_SEC"
    unfolding len(1) by (rule log_area_mono [OF len(2)])
  have tgt: "fst ` set (meta_txn s) \<subseteq> area (b_inode_table (boot s)) (tsecs s) \<union> area (b_bitmap_sector (boot s)) (bsecs s)"
    using T B by (auto simp: eq)
  show "txn_ok (boot s) (meta_txn s)"
    unfolding txn_ok_def using len ml L tgt by (auto simp only: length_0_conv)
      (use len ml L tgt in blast)+
  have "distinct (map (\<lambda>i. b_inode_table (boot s) + of_nat i) [0..<n])"
    by (auto simp: distinct_map inj_on_def of_nat_eq32 n_def)
  moreover have "b_bitmap_sector (boot s) \<notin> set (map (\<lambda>i. b_inode_table (boot s) + of_nat i) [0..<n])"
    using B T ml by (auto simp: image_image)
  ultimately show "distinct (map fst (meta_txn s))" by (simp add: eq comp_def)
qed

lemma meta_txn_at:
  assumes "meta_layout s" and "bitmap s = Some bm"
  shows "i < min (tsecs s) (FS_JOURNAL_MAX_SEC - 2) \<Longrightarrow>
      put_all (meta_txn s) v (b_inode_table (boot s) + of_nat i) = chunk (inode_bytes s) i"
    "put_all (meta_txn s) v (b_bitmap_sector (boot s)) = chunk bm 0"
proof -
  note sh = meta_txn_shape [OF assms]
  show "put_all (meta_txn s) v (b_inode_table (boot s) + of_nat i) = chunk (inode_bytes s) i"
    if "i < min (tsecs s) (FS_JOURNAL_MAX_SEC - 2)"
    using that by (intro put_all_at [OF sh(3)]) (simp add: sh(1))
  show "put_all (meta_txn s) v (b_bitmap_sector (boot s)) = chunk bm 0"
    by (intro put_all_at [OF sh(3)]) (simp add: sh(1))
qed

text \<open>Sectors written from offset n on, and those before it.\<close>

lemma put_tail:
  assumes "n \<le> t" and "t \<le> 2 ^ 32" and "i < t"
  shows "put_all (zip (map (\<lambda>k. l + of_nat n + of_nat k) [0..<t - n]) (map f [n..<t])) v (l + of_nat i) =
    (if n \<le> i then f i else v (l + of_nat i))"
proof (cases "n \<le> i")
  case True
  then have "l + of_nat i = l + of_nat n + of_nat (i - n)" by (simp add: of_nat_diff)
  then show ?thesis
    using put_run [of "i - n" "map f [n..<t]" "l + of_nat n" v] True assms by simp
next
  case False
  have "l + of_nat i \<notin> area (l + of_nat n) (t - n)"
  proof
    assume "l + of_nat i \<in> area (l + of_nat n) (t - n)"
    then obtain k where k: "k < t - n" "l + of_nat i = l + of_nat (n + k)" by (auto simp: area_def algebra_simps)
    then have "i = n + k" using log_offset_inj [of i "n + k" l] assms(2,3) by simp
    with False show False by simp
  qed
  with False show ?thesis using put_run_other [of "l + of_nat i" "l + of_nat n" "map f [n..<t]" v] by simp
qed

lemma put_tail_other:
  assumes "k \<notin> area l t"
  shows "put_all (zip (map (\<lambda>k. l + of_nat n + of_nat k) [0..<t - n]) (map f [n..<t])) v k = v k"
proof -
  have "k \<notin> area (l + of_nat n) (length (map f [n..<t]))"
    using assms area_suffix [of l n t] by (auto simp: area_def)
  then show ?thesis using put_run_other [of k "l + of_nat n" "map f [n..<t]" v] by simp
qed

text \<open>The optional transfers of fs_persist_meta behind the journalled sectors.\<close>

lemma tail_written:
  assumes "fs_io s" and "n \<le> t"
    and "(if t > n then d_write_n (l + of_nat n) (map f [n..<t]) s else (True, s)) = (True, s')"
  shows "fs_io s'" "same_meta s s'"
    "fview s' = put_all (zip (map (\<lambda>k. l + of_nat n + of_nat k) [0..<t - n]) (map f [n..<t])) (fview s)"
proof -
  have "fs_io s' \<and> same_meta s s' \<and>
    fview s' = put_all (zip (map (\<lambda>k. l + of_nat n + of_nat k) [0..<t - n]) (map f [n..<t])) (fview s)"
  proof (cases "t > n")
    case True
    with assms(3) have w: "d_write_n (l + of_nat n) (map f [n..<t]) s = (True, s')" by simp
    from d_write_n_ok [OF assms(1) w] io_same_meta(4) [OF w] show ?thesis by simp
  next
    case False
    with assms show ?thesis by simp
  qed
  then show "fs_io s'" "same_meta s s'"
    "fview s' = put_all (zip (map (\<lambda>k. l + of_nat n + of_nat k) [0..<t - n]) (map f [n..<t])) (fview s)" by blast+
qed

lemma fs_persist_meta_ok:
  assumes "fs_io s" and "meta_layout s" and "bitmap s = Some bm" and "fs_persist_meta s = (True, s')"
  defines "n \<equiv> min (tsecs s) (FS_JOURNAL_MAX_SEC - 2)"
  shows "\<exists>v. (\<forall>l. l \<noteq> 0 \<and> l \<notin> log_area (boot s) FS_JOURNAL_MAX_SEC \<longrightarrow> v l = put_all (meta_txn s) (fview s) l) \<and>
    fview s' =
      (put_all (zip (map (\<lambda>k. b_bitmap_sector (boot s) + of_nat 1 + of_nat k) [0..<bsecs s - 1]) (map (chunk bm) [1..<bsecs s]))
       (put_all (zip (map (\<lambda>k. b_inode_table (boot s) + of_nat n + of_nat k) [0..<tsecs s - n])
          (map (chunk (inode_bytes s)) [n..<tsecs s])) v)) (0 := enc_boot (boot s')) \<and>
    fmedia s' = fview s' \<and> fs_io s' \<and> meta_of s' = meta_of s \<and> boot s' = (boot s)\<lparr>b_log_next := 0\<rparr>"
proof -
  note sh = meta_txn_shape [OF assms(2,3)]
  have bs: "1 \<le> bsecs s" using assms(2) by (simp add: meta_layout_def Let_def Suc_le_eq)
  from assms(4) obtain s1 s2 s3 s4 where
    c1: "fs_journal_commit (meta_txn s) s = (True, s1)" and
    c2: "(if tsecs s > n then d_write_n (b_inode_table (boot s1) + of_nat n) (map (chunk (inode_bytes s1)) [n..<tsecs s]) s1
          else (True, s1)) = (True, s2)" and
    c3: "(case bitmap s2 of Some bm \<Rightarrow> if bitmap_sectors s2 > 1
            then d_write_n (b_bitmap_sector (boot s2) + 1) (map (chunk bm) [1..<unat (bitmap_sectors s2)]) s2
            else (True, s2) | None \<Rightarrow> (True, s2)) = (True, s3)" and
    c4: "d_write 0 (enc_boot (boot s3)) s3 = (True, s4)" and c5: "d_sync s4 = (True, s')"
    unfolding fs_persist_meta_def Let_def attempt_True n_def by blast
  note j = fs_journal_commit_view [OF assms(1) sh(2) c1] and k = fs_journal_commit_ok [OF assms(1) c1]
  have len: "length (meta_txn s) \<le> FS_JOURNAL_MAX_SEC" using sh(2) by (simp add: txn_ok_def)
  have b1: "boot s1 = (boot s)\<lparr>b_log_next := 0\<rparr>" "meta_of s1 = meta_of s" using k by auto
  have ib: "inode_bytes s1 = inode_bytes s" using meta_ofD(1) [OF b1(2)] by (simp add: inode_bytes_def)
  have c2': "(if tsecs s > n then d_write_n (b_inode_table (boot s) + of_nat n) (map (chunk (inode_bytes s)) [n..<tsecs s]) s1
      else (True, s1)) = (True, s2)" using c2 b1(1) ib by (simp split: if_splits)
  have io1: "fs_io s1" and le: "n \<le> tsecs s" using k by (simp_all add: n_def)
  note t2 = tail_written [OF io1 le c2']
  have m2: "meta_of s2 = meta_of s" "boot s2 = (boot s)\<lparr>b_log_next := 0\<rparr>" using same_metaD [OF t2(2)] b1 by auto
  have g: "bitmap_sectors s > 1 \<longleftrightarrow> bsecs s > 1" by (simp add: word_less_nat_alt)
  have c3': "(if bsecs s > 1 then d_write_n (b_bitmap_sector (boot s) + of_nat 1) (map (chunk bm) [1..<bsecs s]) s2
      else (True, s2)) = (True, s3)" using c3 meta_ofD(2,3) [OF m2(1)] m2(2) assms(3) g by (simp split: if_splits)
  note t3 = tail_written [OF t2(1) bs c3']
  have v4: "fs_io s4" "fview s4 = (fview s3)(0 := enc_boot (boot s3))" using ds.wr_ok [OF t3(1) c4] by auto
  have v5: "fs_io s'" "fview s' = fview s4" "fmedia s' = fview s'"
    using ds.sync_view [OF v4(1) c5] ds.sync_ok [OF v4(1) c5] by auto
  have bt: "boot s' = boot s3" "boot s3 = boot s2" "meta_of s' = meta_of s2"
    using same_metaD [OF io_same_meta(2) [OF c4]] same_metaD [OF io_same_meta(3) [OF c5]] same_metaD [OF t3(2)] by auto
  have "\<forall>l. l \<noteq> 0 \<and> l \<notin> log_area (boot s) FS_JOURNAL_MAX_SEC \<longrightarrow> fview s1 l = put_all (meta_txn s) (fview s) l"
    using j log_area_mono [OF len, of "boot s"] by blast
  moreover have "fview s' = (fview s3)(0 := enc_boot (boot s'))" unfolding v5(2) v4(2) bt(1) ..
  ultimately show ?thesis
    using v5 bt m2 unfolding t3(3) t2(3) by (intro exI [of _ "fview s1"] conjI) simp_all
qed

lemma fs_sync_media:
  assumes "fs_io s" and "meta_layout s" and "bitmap s = Some bm" and "fs_sync s = (True, s')"
  shows "(\<forall>i < tsecs s. fmedia s' (b_inode_table (boot s) + of_nat i) = chunk (inode_bytes s') i) \<and>
    (\<forall>i < bsecs s. fmedia s' (b_bitmap_sector (boot s) + of_nat i) = chunk bm i) \<and>
    fmedia s' 0 = enc_boot (boot s') \<and> meta_of s' = meta_of s"
proof -
  let ?T = "area (b_inode_table (boot s)) (tsecs s)" and ?B = "area (b_bitmap_sector (boot s)) (bsecs s)"
  let ?n = "min (tsecs s) (FS_JOURNAL_MAX_SEC - 2)"
  note ml = assms(2) [unfolded meta_layout_def Let_def]
  have t: "?n \<le> tsecs s" "tsecs s \<le> 2 ^ 32" "1 \<le> bsecs s" "bsecs s \<le> 2 ^ 32"
    by (rule min.cobounded1, rule less_imp_le [OF unat_lt32])
      (rule Suc_leI [OF conjunct1 [OF conjunct2 [OF ml]], folded One_nat_def], rule less_imp_le [OF unat_lt32])
  have d: "0 \<notin> ?T" "0 \<notin> ?B" "?T \<inter> ?B = {}" "?T \<inter> log_area (boot s) FS_JOURNAL_MAX_SEC = {}"
      "?B \<inter> log_area (boot s) FS_JOURNAL_MAX_SEC = {}" by (insert ml, (elim conjE, assumption)+)
  obtain v where
    v: "\<forall>l. l \<noteq> 0 \<and> l \<notin> log_area (boot s) FS_JOURNAL_MAX_SEC \<longrightarrow> v l = put_all (meta_txn s) (fview s) l" and
    w: "fview s' =
      (put_all (zip (map (\<lambda>k. b_bitmap_sector (boot s) + of_nat 1 + of_nat k) [0..<bsecs s - 1]) (map (chunk bm) [1..<bsecs s]))
       (put_all (zip (map (\<lambda>k. b_inode_table (boot s) + of_nat ?n + of_nat k) [0..<tsecs s - ?n])
          (map (chunk (inode_bytes s)) [?n..<tsecs s])) v)) (0 := enc_boot (boot s'))" and
    r: "fmedia s' = fview s'" "meta_of s' = meta_of s"
    using fs_persist_meta_ok [OF assms(1,2,3) assms(4) [unfolded fs_sync_def]] by (elim exE conjE) (rule that)
  have "fview s' (b_inode_table (boot s) + of_nat i) = chunk (inode_bytes s) i" if i: "i < tsecs s" for i
  proof -
    have l: "b_inode_table (boot s) + of_nat i \<in> ?T" by (rule in_area [OF i])
    then have o: "b_inode_table (boot s) + of_nat i \<noteq> 0" "b_inode_table (boot s) + of_nat i \<notin> ?B"
        "b_inode_table (boot s) + of_nat i \<notin> log_area (boot s) FS_JOURNAL_MAX_SEC"
      using d(1) IntI [of _ ?T ?B] IntI [of _ ?T "log_area (boot s) FS_JOURNAL_MAX_SEC"] unfolding d(3,4) by auto
    have "fview s' (b_inode_table (boot s) + of_nat i) =
        (if ?n \<le> i then chunk (inode_bytes s) i else v (b_inode_table (boot s) + of_nat i))"
      unfolding w fun_upd_other [OF o(1)] put_tail_other [OF o(2)] by (rule put_tail [OF t(1,2) i])
    then show ?thesis
      using spec [OF v, of "b_inode_table (boot s) + of_nat i"] o(1,3) meta_txn_at(1) [OF assms(2,3), of i "fview s"]
      by (simp add: not_le split: if_splits)
  qed
  moreover have "fview s' (b_bitmap_sector (boot s) + of_nat i) = chunk bm i" if i: "i < bsecs s" for i
  proof -
    have l: "b_bitmap_sector (boot s) + of_nat i \<in> ?B" by (rule in_area [OF i])
    then have o: "b_bitmap_sector (boot s) + of_nat i \<noteq> 0" "b_bitmap_sector (boot s) + of_nat i \<notin> ?T"
        "b_bitmap_sector (boot s) + of_nat i \<notin> log_area (boot s) FS_JOURNAL_MAX_SEC"
      using d(2) IntI [of _ ?T ?B] IntI [of _ ?B "log_area (boot s) FS_JOURNAL_MAX_SEC"] unfolding d(3,5) by auto
    have "fview s' (b_bitmap_sector (boot s) + of_nat i) =
        (if 1 \<le> i then chunk bm i else v (b_bitmap_sector (boot s) + of_nat i))"
      unfolding w fun_upd_other [OF o(1)] put_tail [OF t(3,4) i] put_tail_other [OF o(2)] ..
    then show ?thesis
      using spec [OF v, of "b_bitmap_sector (boot s) + of_nat i"] o(1,3) meta_txn_at(2) [OF assms(2,3), of "fview s"]
      by (cases i) simp_all
  qed
  moreover have "inode_bytes s' = inode_bytes s" using meta_ofD(1) [OF r(2)] by (simp add: inode_bytes_def)
  moreover have "fview s' 0 = enc_boot (boot s')" unfolding w by simp
  ultimately show ?thesis using r by simp
qed

text \<open>
  C26: fs_sync is durable. When it reports success, the medium holds the whole inode table, the
  whole bitmap and the boot sector exactly as they are in memory.
\<close>

theorem fs_sync_durable:
  assumes "fs_io s" and "meta_layout s" and "bitmap s = Some bm" and "fs_sync s = (True, s')"
  shows "(\<forall>i < tsecs s. fmedia s' (b_inode_table (boot s) + of_nat i) = chunk (inode_bytes s') i) \<and>
    (\<forall>i < bsecs s. fmedia s' (b_bitmap_sector (boot s) + of_nat i) = chunk bm i) \<and>
    fmedia s' 0 = enc_boot (boot s') \<and> meta_of s' = meta_of s"
  by (rule fs_sync_media [OF assms])

text \<open>Instances: a two-sector transaction on the small file system.\<close>

definition txn2 :: "(u32 \<times> sector) list" where "txn2 = [(9, [1]), (10, [2])]"

lemma txn2_area: "log_area small_boot (length txn2) = {4, 5, 6}"
proof -
  have "length txn2 = 2" "{0..2 :: nat} = {0, 1, 2}" by (auto simp: txn2_def)
  then show ?thesis by (simp add: log_area_def small_boot_def)
qed

lemma txn2_ok: "txn_ok small_boot txn2"
  unfolding txn_ok_def txn2_area by (simp add: txn2_def small_boot_def)

lemma small_fs_io: "fs_io small_fs" "fs_io_ff small_fs"
proof -
  have "dops cache_at_boot = perfect_disk" by (simp add: cache_at_boot_def fs_cache_init_def)
  then show "fs_io small_fs" "fs_io_ff small_fs"
    using cache_at_boot_inv perfect_disk_fault_free
    by (simp_all add: fs_io_def fs_io_ff_def cache_inv_ff_def small_fs_def)
qed

text \<open>On a disk without faults a well-formed transaction commits.\<close>

abbreviation ok_ff :: "bool \<times> 'd fs \<Rightarrow> bool" where "ok_ff r \<equiv> fst r \<and> fs_io_ff (snd r)"

lemma attempt_ff: "ok_ff r \<Longrightarrow> (\<And>s. fs_io_ff s \<Longrightarrow> ok_ff (k s)) \<Longrightarrow> ok_ff (attempt r k)"
  by (cases r) (simp add: attempt_def)

lemma d_write_ff: "fs_io_ff s \<Longrightarrow> ok_ff (d_write l x s)"
  using dr.wr_eq [of s l x] by (metis fst_conv snd_conv)

lemma store_all_ff: "fs_io_ff s \<Longrightarrow> ok_ff (store_all d_write qs s)"
  using dr.store_all_total [of s qs] dr.store_all_ok [of s qs "snd (store_all d_write qs s)"]
  by (metis (full_types) prod.collapse)

lemma d_sync_ff: "fs_io_ff s \<Longrightarrow> ok_ff (d_sync s)"
  using dr.sync_eq [of s] by (metis fst_conv snd_conv)

lemma d_write_n_ff: "fs_io_ff s \<Longrightarrow> ok_ff (d_write_n l xs s)"
  by (simp add: d_write_n_store_all store_all_ff)

lemma fs_journal_commit_total:
  assumes "fs_io_ff s" and "0 < length ps" and "length ps \<le> FS_JOURNAL_MAX_SEC"
    and "\<not> b_log_size (boot s) < of_nat (length ps) + 1"
  shows "ok_ff (fs_journal_commit ps s)"
proof -
  have "\<not> (length ps = 0 \<or> FS_JOURNAL_MAX_SEC < length ps)" using assms(2,3) by simp
  then show ?thesis
    unfolding fs_journal_commit_def Let_def if_not_P [OF assms(4)]
    by (simp only: if_False) (intro attempt_ff d_write_ff store_all_ff d_sync_ff;
        simp only: assms(1) fview_set_log_next)
qed

theorem fs_journal_commit_correct_witness:
  "fview (snd (fs_journal_commit txn2 small_fs)) 9 = [1] \<and> fview (snd (fs_journal_commit txn2 small_fs)) 10 = [2]"
proof -
  have b: "boot small_fs = small_boot" by (simp add: small_fs_def)
  have "fst (fs_journal_commit txn2 small_fs)"
    using fs_journal_commit_total [OF small_fs_io(2), of txn2] by (simp add: txn2_def small_fs_def small_boot_def)
  then have c: "fs_journal_commit txn2 small_fs = (True, snd (fs_journal_commit txn2 small_fs))"
    by (metis (full_types) prod.collapse)
  have l: "9 \<notin> log_area (boot small_fs) (length txn2)" "10 \<notin> log_area (boot small_fs) (length txn2)"
    unfolding b txn2_area by simp_all
  from fs_journal_commit_correct [OF small_fs_io(1) _ c] txn2_ok l b show ?thesis
    by (simp add: txn2_def)
qed

text \<open>The small file system's disk after the first four writes of the commit of \<open>txn2\<close> (header,
  both copies, commit record), freshly mounted.\<close>

definition crashed_disk :: "u32 \<Rightarrow> sector" where
  "crashed_disk = put_all (take 4 (commit_writes small_boot txn2)) ((\<lambda>_. []) (0 := enc_boot small_boot))"

definition crashed_fs :: "(u32 \<Rightarrow> sector) fs" where
  "crashed_fs = small_fs\<lparr>cache := fs_cache_init ((cache small_fs)\<lparr>dev := crashed_disk\<rparr>),
     boot := dec_boot (crashed_disk 0)\<rparr>"


text \<open>fs_sync of the small file system.\<close>

lemma small_fs_layout: "meta_layout small_fs"
proof -
  have t: "tsecs small_fs = 2" "bsecs small_fs = 1"
    by (simp_all add: small_fs_def small_boot_def fs_inode_sectors_def Let_def)
  have a: "{0..<2 :: nat} = {0, 1}" by auto
  have "log_area (boot small_fs) 32 = (\<lambda>i. of_nat (i + 4)) ` {0..32}"
    by (simp add: log_area_def small_fs_def small_boot_def add.commute)
  then have L: "(of_nat k :: u32) \<notin> log_area (boot small_fs) 32" if "k < 4" for k
    using that by (auto simp: of_nat_eq32 simp del: of_nat_add)
  have "0 \<notin> log_area (boot small_fs) 32" "1 \<notin> log_area (boot small_fs) 32" "2 \<notin> log_area (boot small_fs) 32"
    "3 \<notin> log_area (boot small_fs) 32"
    using L [of 0] L [of 1] L [of 2] L [of 3] by simp_all
  then show ?thesis
    unfolding meta_layout_def Let_def t area_def a
    by (simp add: small_fs_def small_boot_def)
qed

lemma fs_persist_meta_total:
  assumes "fs_io_ff s" and "0 < length (meta_txn s)" and "length (meta_txn s) \<le> FS_JOURNAL_MAX_SEC"
    and "\<not> b_log_size (boot s) < of_nat (length (meta_txn s)) + 1"
  shows "ok_ff (fs_persist_meta s)"
  unfolding fs_persist_meta_def Let_def
proof (intro attempt_ff fs_journal_commit_total [OF assms] d_write_ff d_sync_ff)
  fix s :: "'a fs"
  assume ff: "fs_io_ff s"
  show "ok_ff (if b then d_write_n l xs s else (True, s))" for b l xs
    using d_write_n_ff [OF ff] ff by simp
  then show "ok_ff (case bitmap s of None \<Rightarrow> (True, s) | Some bm \<Rightarrow>
      if 1 < bitmap_sectors s then d_write_n (b_bitmap_sector (boot s) + 1) (map (chunk bm) [1..<bsecs s]) s
      else (True, s))" using ff by (simp split: option.split)
qed

lemma fs_sync_small: "fs_sync small_fs = (True, snd (fs_sync small_fs))"
proof -
  have t: "tsecs small_fs = 2" by (simp add: small_fs_def small_boot_def fs_inode_sectors_def Let_def)
  have "length (meta_txn small_fs) = 3" unfolding meta_txn_def Let_def t by (simp add: small_fs_def)
  then have "fst (fs_persist_meta small_fs)"
    using fs_persist_meta_total [OF small_fs_io(2)] by (simp add: small_fs_def small_boot_def)
  then show ?thesis unfolding fs_sync_def by (metis (full_types) prod.collapse)
qed

theorem fs_sync_durable_witness:
  "fmedia (snd (fs_sync small_fs)) 1 = chunk (inode_bytes (snd (fs_sync small_fs))) 0 \<and>
   fmedia (snd (fs_sync small_fs)) 3 = chunk (replicate FS_SECTOR_SIZE 0) 0"
proof -
  have b: "bitmap small_fs = Some (replicate FS_SECTOR_SIZE 0)" "b_inode_table (boot small_fs) = 1"
      "b_bitmap_sector (boot small_fs) = 3" by (simp_all add: small_fs_def small_boot_def)
  have t: "0 < tsecs small_fs" "0 < bsecs small_fs" using small_fs_layout by (simp_all add: meta_layout_def)
  from fs_sync_durable [OF small_fs_io(1) small_fs_layout b(1) fs_sync_small] t
  show ?thesis unfolding b by fastforce
qed

end
