(* ===== verification/KFsExtent.thy ===== *)
theory KFsExtent
  imports KFsJournal
begin

text \<open>
  Extents of an inode, src/kernel/fs.cpp: four direct extents and an indirect block of 64.
  The functions take the inode (the code passes a pointer to it) and return it updated.
\<close>

definition total_or :: "fs_boot_sector \<Rightarrow> u32" where
  "total_or b = (if b_total b \<noteq> 0 then b_total b else 1024)"

definition extent_count_sane :: "fs_boot_sector \<Rightarrow> u32 \<Rightarrow> u32" where
  "extent_count_sane b count = (if count > total_or b then 0 else count)"

text \<open>The counting loop: Inl on the early return, Inr with the sum so far.\<close>

fun count_extents :: "fs_boot_sector \<Rightarrow> u32 \<Rightarrow> fs_extent list \<Rightarrow> u32 + u32" where
  "count_extents b n [] = Inr n"
| "count_extents b n (e # es) =
     (let c = extent_count_sane b (e_count e) in
      if n > total_or b - c then Inl (total_or b) else count_extents b (n + c) es)"

definition ind_extents :: "sector \<Rightarrow> fs_extent list" where
  "ind_extents blk = dec_extents FS_INDIRECT_MAX blk 0"

definition inode_sector_count :: "fs_inode \<Rightarrow> 'd fs \<Rightarrow> u32 \<times> 'd fs" where
  "inode_sector_count i s =
     (case count_extents (boot s) 0 (i_direct i) of
        Inl m \<Rightarrow> (m, s)
      | Inr n \<Rightarrow>
          if i_indirect i = 0 then (n, s)
          else case d_read (i_indirect i) s of
            (None, s) \<Rightarrow> (n, s)
          | (Some blk, s) \<Rightarrow>
              (case count_extents (boot s) n (ind_extents blk) of Inl m \<Rightarrow> (m, s) | Inr n \<Rightarrow> (n, s)))"

text \<open>The mapping loop: Inl with its return value, Inr with the sectors left to skip.\<close>

fun map_extents :: "fs_boot_sector \<Rightarrow> fs_extent list \<Rightarrow> u32 \<Rightarrow> u32 option + u32" where
  "map_extents b [] left = Inr left"
| "map_extents b (e # es) left =
     (let c = extent_count_sane b (e_count e) in
      if c \<noteq> 0 \<and> left < c then
        (let lba = e_lba e + left in Inl (if b_total b \<noteq> 0 \<and> lba \<ge> b_total b then None else Some lba))
      else map_extents b es (left - c))"

definition inode_map_sector :: "fs_inode \<Rightarrow> u32 \<Rightarrow> 'd fs \<Rightarrow> u32 option \<times> 'd fs" where
  "inode_map_sector i sec s =
     (case map_extents (boot s) (i_direct i) sec of
        Inl r \<Rightarrow> (r, s)
      | Inr left \<Rightarrow>
          if i_indirect i = 0 then (None, s)
          else case d_read (i_indirect i) s of
            (None, s) \<Rightarrow> (None, s)
          | (Some blk, s) \<Rightarrow>
              (case map_extents (boot s) (ind_extents blk) left of Inl r \<Rightarrow> (r, s) | Inr _ \<Rightarrow> (None, s)))"

abbreviation no_extent :: fs_extent where "no_extent \<equiv> \<lparr>e_lba = 0, e_count = 0\<rparr>"

definition free_extents :: "fs_extent list \<Rightarrow> 'd fs \<Rightarrow> 'd fs" where
  "free_extents es s = fold (\<lambda>e s. if e_count e \<noteq> 0 then fs_free_blocks (e_lba e) (e_count e) s else s) es s"

definition inode_clear_extents :: "fs_inode \<Rightarrow> 'd fs \<Rightarrow> fs_inode \<times> 'd fs" where
  "inode_clear_extents i s =
     (let s = free_extents (i_direct i) s; i = i\<lparr>i_direct := map (\<lambda>_. no_extent) (i_direct i)\<rparr> in
      if i_indirect i = 0 then (i, s)
      else
        (let s = (case d_read (i_indirect i) s of
                    (None, s) \<Rightarrow> s
                  | (Some blk, s) \<Rightarrow> free_extents (ind_extents blk) s);
             s = fs_free_blocks (i_indirect i) 1 s
         in (i\<lparr>i_indirect := 0\<rparr>, s)))"

text \<open>The loop over an extent array: the first unused entry, or the first entry that ends where
  the new extent starts.\<close>

fun add_extent :: "u32 \<Rightarrow> u32 \<Rightarrow> fs_extent list \<Rightarrow> fs_extent list option" where
  "add_extent l c [] = None"
| "add_extent l c (e # es) =
     (if e_count e = 0 then Some (\<lparr>e_lba = l, e_count = c\<rparr> # es)
      else if e_lba e + e_count e = l then Some (e\<lparr>e_count := e_count e + c\<rparr> # es)
      else map_option (\<lambda>es. e # es) (add_extent l c es))"

definition add_indirect :: "u32 \<Rightarrow> u32 \<Rightarrow> fs_inode \<Rightarrow> fs_extent list \<Rightarrow> 'd fs \<Rightarrow> bool \<times> fs_inode \<times> 'd fs" where
  "add_indirect l c i ind s =
     (case add_extent l c ind of
        None \<Rightarrow> (False, i, s)
      | Some ind \<Rightarrow> (case d_write (i_indirect i) (enc_extents ind) s of (ok, s) \<Rightarrow> (ok, i, s)))"

definition inode_add_extent :: "fs_inode \<Rightarrow> u32 \<Rightarrow> u32 \<Rightarrow> 'd fs \<Rightarrow> bool \<times> fs_inode \<times> 'd fs" where
  "inode_add_extent i l c s =
     (case add_extent l c (i_direct i) of
        Some es \<Rightarrow> (True, i\<lparr>i_direct := es\<rparr>, s)
      | None \<Rightarrow>
          if i_indirect i = 0 then
            (case fs_alloc_blocks 1 s of
               (None, s) \<Rightarrow> (False, i, s)
             | (Some ns, s) \<Rightarrow> add_indirect l c (i\<lparr>i_indirect := ns\<rparr>) (replicate FS_INDIRECT_MAX no_extent) s)
          else case d_read (i_indirect i) s of
            (None, s) \<Rightarrow> (False, i, s)
          | (Some blk, s) \<Rightarrow> add_indirect l c i (ind_extents blk) s)"

text \<open>\<^verbatim>\<open>while (want > 0 && fs_alloc_blocks(want, &start) != 0) want--;\<close>\<close>

fun alloc_shrink :: "nat \<Rightarrow> 'd fs \<Rightarrow> (nat \<times> u32) option \<times> 'd fs" where
  "alloc_shrink 0 s = (None, s)"
| "alloc_shrink (Suc k) s =
     (case fs_alloc_blocks (of_nat (Suc k)) s of
        (Some start, s) \<Rightarrow> (Some (Suc k, start), s)
      | (None, s) \<Rightarrow> alloc_shrink k s)"

lemma alloc_shrink_bound: "alloc_shrink w s = (Some (k, a), s') \<Longrightarrow> 0 < k \<and> k \<le> w"
  by (induction w s rule: alloc_shrink.induct) (auto split: option.splits prod.splits)

function grow_loop :: "nat \<Rightarrow> nat \<Rightarrow> fs_inode \<Rightarrow> 'd fs \<Rightarrow> bool \<times> fs_inode \<times> 'd fs" where
  "grow_loop have_secs need i s =
     (if \<not> have_secs < need then (True, i, s)
      else case alloc_shrink (min (need - have_secs) 8) s of
        (None, s) \<Rightarrow> (False, i, s)
      | (Some (want, start), s) \<Rightarrow>
          (case inode_add_extent i start (of_nat want) s of
             (False, i, s) \<Rightarrow> (False, i, fs_free_blocks start (of_nat want) s)
           | (True, i, s) \<Rightarrow> grow_loop (have_secs + want) need i s))"
  by pat_completeness auto

termination
  by (relation "measure (\<lambda>(h, n, i, s). n - h)") (auto dest!: alloc_shrink_bound [OF sym])

declare grow_loop.simps [simp del]

definition inode_grow_sectors :: "fs_inode \<Rightarrow> u32 \<Rightarrow> 'd fs \<Rightarrow> bool \<times> fs_inode \<times> 'd fs" where
  "inode_grow_sectors i need s =
     (case inode_sector_count i s of (n, s) \<Rightarrow> grow_loop (unat n) (unat need) i s)"


text \<open>The loop of inode_shrink_to that saves the kept sectors.\<close>

fun read_mapped :: "fs_inode \<Rightarrow> nat list \<Rightarrow> 'd fs \<Rightarrow> sector list option \<times> 'd fs" where
  "read_mapped i [] s = (Some [], s)"
| "read_mapped i (k # ks) s =
     (case inode_map_sector i (of_nat k) s of
        (None, s) \<Rightarrow> (None, s)
      | (Some lba, s) \<Rightarrow>
          (case d_read lba s of
             (None, s) \<Rightarrow> (None, s)
           | (Some x, s) \<Rightarrow> (case read_mapped i ks s of (r, s) \<Rightarrow> (map_option (\<lambda>xs. x # xs) r, s))))"

fun write_mapped :: "fs_inode \<Rightarrow> (nat \<times> sector) list \<Rightarrow> 'd fs \<Rightarrow> bool \<times> 'd fs" where
  "write_mapped i [] s = (True, s)"
| "write_mapped i ((k, x) # ks) s =
     (case inode_map_sector i (of_nat k) s of
        (None, s) \<Rightarrow> (False, s)
      | (Some lba, s) \<Rightarrow> attempt (d_write lba x s) (write_mapped i ks))"

text \<open>The saved data goes to one new run if there is one, else to a regrown extent list.\<close>

definition shrink_rewrite :: "fs_inode \<Rightarrow> u32 \<Rightarrow> nat \<Rightarrow> sector list \<Rightarrow> 'd fs \<Rightarrow> bool \<times> fs_inode \<times> 'd fs" where
  "shrink_rewrite i need p buf s =
     (case inode_clear_extents i s of
        (i, s) \<Rightarrow>
          (case fs_alloc_blocks need s of
             (None, s) \<Rightarrow>
               (case inode_grow_sectors i need s of
                  (False, i, s) \<Rightarrow> (False, i, fs_free p s)
                | (True, i, s) \<Rightarrow>
                    (case write_mapped i (zip [0..<unat need] buf) s of
                       (False, s) \<Rightarrow> (False, i, fs_free p s)
                     | (True, s) \<Rightarrow> (case d_sync (fs_free p s) of (ok, s) \<Rightarrow> (ok, i, s))))
           | (Some start, s) \<Rightarrow>
               (case d_write_n start buf s of
                  (False, s) \<Rightarrow> (False, i, fs_free p (fs_free_blocks start need s))
                | (True, s) \<Rightarrow>
                    (case inode_add_extent i start need (fs_free p s) of
                       (False, i, s) \<Rightarrow> (False, i, fs_free_blocks start need s)
                     | (True, i, s) \<Rightarrow> (case d_sync s of (ok, s) \<Rightarrow> (ok, i, s))))))"

definition inode_shrink_to :: "fs_inode \<Rightarrow> u32 \<Rightarrow> 'd fs \<Rightarrow> bool \<times> fs_inode \<times> 'd fs" where
  "inode_shrink_to i need s =
     (case inode_sector_count i s of
        (old, s) \<Rightarrow>
          if need \<ge> old then (True, i, s)
          else if need = 0 then (case inode_clear_extents i s of (i, s) \<Rightarrow> (True, i, s))
          else case fs_malloc (unat (need * 512)) s of
            (None, s) \<Rightarrow> (False, i, s)
          | (Some p, s) \<Rightarrow>
              (case read_mapped i [0..<unat need] s of
                 (None, s) \<Rightarrow> (False, i, fs_free p s)
               | (Some buf, s) \<Rightarrow> shrink_rewrite i need p buf s))"

definition inode_byte_capacity :: "fs_inode \<Rightarrow> 'd fs \<Rightarrow> u32 \<times> 'd fs" where
  "inode_byte_capacity i s =
     (case inode_sector_count i s of
        (secs, s) \<Rightarrow> (if secs > 0xFFFFFFFF div 512 then 0xFFFFFFFF else secs * 512, s))"

section \<open>What an extent list maps\<close>

text \<open>The sectors of a file in order, for extents of sane length.\<close>

definition extent_lbas :: "fs_extent \<Rightarrow> u32 list" where
  "extent_lbas e = map (\<lambda>k. e_lba e + of_nat k) [0..<unat (e_count e)]"

definition file_lbas :: "fs_extent list \<Rightarrow> u32 list" where
  "file_lbas es = concat (map extent_lbas es)"

definition extent_ok :: "fs_boot_sector \<Rightarrow> fs_extent \<Rightarrow> bool" where
  "extent_ok b e \<longleftrightarrow> unat (e_lba e) + unat (e_count e) \<le> unat (b_total b)"

lemma extent_sane: "b_total b \<noteq> 0 \<Longrightarrow> extent_ok b e \<Longrightarrow> extent_count_sane b (e_count e) = e_count e"
  by (auto simp: extent_count_sane_def total_or_def extent_ok_def word_less_nat_alt)

lemma extent_lba_in:
  assumes "extent_ok b e" and "left < e_count e"
  shows "\<not> e_lba e + left \<ge> b_total b" "unat (e_lba e + left) = unat (e_lba e) + unat left"
proof -
  have l: "unat left < unat (e_count e)" using assms(2) by (simp add: word_less_nat_alt)
  then have "unat (e_lba e) + unat left < 2 ^ 32"
    using assms(1) unat_lt32 [of "b_total b"] by (simp add: extent_ok_def)
  then show u: "unat (e_lba e + left) = unat (e_lba e) + unat left" by (simp add: unat_word_ariths)
  show "\<not> e_lba e + left \<ge> b_total b" using l assms(1) u by (simp add: word_le_nat_alt extent_ok_def)
qed

lemma length_extent_lbas [simp]: "length (extent_lbas e) = unat (e_count e)"
  by (simp add: extent_lbas_def)

lemma file_lbas_simps [simp]:
  "file_lbas [] = []" "file_lbas (e # es) = extent_lbas e @ file_lbas es"
  "file_lbas (es @ fs) = file_lbas es @ file_lbas fs"
  by (simp_all add: file_lbas_def)

lemma extent_lbas_zero [simp]: "e_count e = 0 \<Longrightarrow> extent_lbas e = []"
  by (simp add: extent_lbas_def)

text \<open>The mapping loop finds the sector at the given position of the file, or reports how many
  sectors lie beyond the listed extents.\<close>

lemma map_extents_correct:
  assumes "b_total b \<noteq> 0" and "\<forall>e \<in> set es. extent_ok b e"
  shows "map_extents b es left =
    (if unat left < length (file_lbas es) then Inl (Some (file_lbas es ! unat left))
     else Inr (left - of_nat (length (file_lbas es))))"
  using assms(2)
proof (induction es arbitrary: left)
  case Nil
  then show ?case by simp
next
  case (Cons e es)
  have ok: "extent_ok b e" using Cons.prems by simp
  note sane = extent_sane [OF assms(1) ok]
  show ?case
  proof (cases "left < e_count e")
    case True
    then have l: "unat left < unat (e_count e)" by (simp add: word_less_nat_alt)
    then have "e_count e \<noteq> 0" by auto
    with True l extent_lba_in [OF ok True] show ?thesis
      by (simp add: Let_def sane nth_append extent_lbas_def)
  next
    case False
    then have l: "unat (e_count e) \<le> unat left" by (simp add: word_less_nat_alt)
    then have u: "unat (left - e_count e) = unat left - unat (e_count e)" by (simp add: unat_sub word_le_nat_alt)
    with Cons.IH [of "left - e_count e"] Cons.prems False l show ?thesis
      by (auto simp: Let_def sane nth_append algebra_simps)
  qed
qed


lemma count_extents_correct:
  assumes "b_total b \<noteq> 0" and "\<forall>e \<in> set es. extent_ok b e"
    and "unat n + length (file_lbas es) \<le> unat (b_total b)"
  shows "count_extents b n es = Inr (n + of_nat (length (file_lbas es)))"
  using assms(2,3)
proof (induction es arbitrary: n)
  case Nil
  then show ?case by simp
next
  case (Cons e es)
  have ok: "extent_ok b e" using Cons.prems by simp
  note sane = extent_sane [OF assms(1) ok]
  have le: "unat n + unat (e_count e) \<le> unat (b_total b)" using Cons.prems(2) by simp
  then have u: "unat (n + e_count e) = unat n + unat (e_count e)"
    using unat_lt32 [of "b_total b"] by (simp add: unat_word_ariths)
  have "unat (b_total b - e_count e) = unat (b_total b) - unat (e_count e)"
    using le by (simp add: unat_sub word_le_nat_alt)
  then have "\<not> n > total_or b - e_count e"
    using le assms(1) by (simp add: word_less_nat_alt total_or_def)
  moreover have "count_extents b (n + e_count e) es = Inr (n + e_count e + of_nat (length (file_lbas es)))"
    using Cons.prems u by (intro Cons.IH) simp_all
  ultimately show ?case by (simp add: Let_def sane algebra_simps)
qed

text \<open>The extents of an inode, the indirect block read from the sectors v.\<close>

definition inode_extents :: "fs_inode \<Rightarrow> (u32 \<Rightarrow> sector) \<Rightarrow> fs_extent list" where
  "inode_extents i v = i_direct i @ (if i_indirect i = 0 then [] else ind_extents (v (i_indirect i)))"

definition inode_lbas :: "fs_inode \<Rightarrow> (u32 \<Rightarrow> sector) \<Rightarrow> u32 list" where
  "inode_lbas i v = file_lbas (inode_extents i v)"

text \<open>All extents lie on the disk and together are no larger than it.\<close>

definition inode_ok :: "fs_boot_sector \<Rightarrow> fs_inode \<Rightarrow> (u32 \<Rightarrow> sector) \<Rightarrow> bool" where
  "inode_ok b i v \<longleftrightarrow> b_total b \<noteq> 0 \<and> (\<forall>e \<in> set (inode_extents i v). extent_ok b e) \<and>
     length (inode_lbas i v) \<le> unat (b_total b)"

lemma inode_map_sector_eq:
  assumes "fs_io_ff s" and "inode_ok (boot s) i (fview s)"
  obtains s' where "inode_map_sector i sec s =
      (if unat sec < length (inode_lbas i (fview s)) then Some (inode_lbas i (fview s) ! unat sec) else None, s')"
    "fs_io_ff s'" "fview s' = fview s" "same_meta s s'"
proof -
  let ?b = "boot s"
  have tot: "b_total ?b \<noteq> 0" and d: "\<forall>e \<in> set (i_direct i). extent_ok ?b e"
    using assms(2) by (auto simp: inode_ok_def inode_extents_def)
  note md = map_extents_correct [OF tot d, of sec]
  show thesis
  proof (cases "unat sec < length (file_lbas (i_direct i)) \<or> i_indirect i = 0")
    case True
    with md that [of s] assms(1) show thesis
      by (auto simp: inode_map_sector_def inode_lbas_def inode_extents_def nth_append)
  next
    case False
    obtain s1 where r: "d_read (i_indirect i) s = (Some (fview s (i_indirect i)), s1)" "fs_io_ff s1" "fview s1 = fview s"
      using dr.rd_eq [OF assms(1)] by metis
    have m: "same_meta s s1" by (rule io_same_meta(1) [OF r(1)])
    have ind: "\<forall>e \<in> set (ind_extents (fview s (i_indirect i))). extent_ok ?b e"
      using assms(2) False by (auto simp: inode_ok_def inode_extents_def)
    have le: "length (file_lbas (i_direct i)) \<le> unat sec" "length (file_lbas (i_direct i)) < 2 ^ 32"
      using False unat_lt32 [of sec] by auto
    have u: "unat (sec - of_nat (length (file_lbas (i_direct i)))) = unat sec - length (file_lbas (i_direct i))"
      using le by (simp add: unat_sub word_le_nat_alt unat_of_nat32)
    from map_extents_correct [OF tot ind, of "sec - of_nat (length (file_lbas (i_direct i)))"] md r m False that [of s1] u le
    show thesis
      by (simp add: inode_map_sector_def inode_lbas_def inode_extents_def same_metaD(1) nth_append less_diff_conv split: if_splits)
  qed
qed

lemma inode_sector_count_eq:
  assumes "fs_io_ff s" and "inode_ok (boot s) i (fview s)"
  obtains s' where "inode_sector_count i s = (of_nat (length (inode_lbas i (fview s))), s')"
    "fs_io_ff s'" "fview s' = fview s" "same_meta s s'"
proof -
  let ?b = "boot s"
  have tot: "b_total ?b \<noteq> 0" and d: "\<forall>e \<in> set (i_direct i). extent_ok ?b e"
    and len: "length (inode_lbas i (fview s)) \<le> unat (b_total ?b)"
    using assms(2) by (auto simp: inode_ok_def inode_extents_def)
  have cd: "count_extents ?b 0 (i_direct i) = Inr (of_nat (length (file_lbas (i_direct i))))"
    using count_extents_correct [OF tot d, of 0] len by (simp add: inode_lbas_def inode_extents_def)
  show thesis
  proof (cases "i_indirect i = 0")
    case True
    with cd that [of s] assms(1) show thesis by (simp add: inode_sector_count_def inode_lbas_def inode_extents_def)
  next
    case False
    obtain s1 where r: "d_read (i_indirect i) s = (Some (fview s (i_indirect i)), s1)" "fs_io_ff s1" "fview s1 = fview s"
      using dr.rd_eq [OF assms(1)] by metis
    have m: "same_meta s s1" by (rule io_same_meta(1) [OF r(1)])
    have ind: "\<forall>e \<in> set (ind_extents (fview s (i_indirect i))). extent_ok ?b e"
      using assms(2) False by (auto simp: inode_ok_def inode_extents_def)
    have le: "length (file_lbas (i_direct i)) < 2 ^ 32"
      using len False unat_lt32 [of "b_total ?b"] by (simp add: inode_lbas_def inode_extents_def)
    have "count_extents ?b (of_nat (length (file_lbas (i_direct i)))) (ind_extents (fview s (i_indirect i))) =
        Inr (of_nat (length (inode_lbas i (fview s))))"
      using count_extents_correct [OF tot ind, of "of_nat (length (file_lbas (i_direct i)))"] len False le
      by (simp add: inode_lbas_def inode_extents_def unat_of_nat32)
    with cd r m False that [of s1] show thesis
      by (simp add: inode_sector_count_def same_metaD(1))
  qed
qed


section \<open>Adding an extent\<close>

text \<open>Used entries first, and the new run does not start where an entry other than the last used
  one ends.\<close>

fun append_place :: "u32 \<Rightarrow> fs_extent list \<Rightarrow> bool" where
  "append_place l [] = True"
| "append_place l [e] = True"
| "append_place l (e # f # es) =
     (if e_count e = 0 then \<forall>g \<in> set (f # es). e_count g = 0
      else (e_count f = 0 \<and> (\<forall>g \<in> set es. e_count g = 0) \<or> e_lba e + e_count e \<noteq> l) \<and> append_place l (f # es))"

lemma extent_lbas_extend:
  assumes "e_lba e + e_count e = l" and "unat (e_count e) + unat c < 2 ^ 32"
  shows "extent_lbas (e\<lparr>e_count := e_count e + c\<rparr>) = extent_lbas e @ extent_lbas \<lparr>e_lba = l, e_count = c\<rparr>"
proof -
  have u: "unat (e_count e + c) = unat (e_count e) + unat c" using assms(2) by (simp add: unat_word_ariths)
  have "map (\<lambda>k. e_lba e + of_nat k) [unat (e_count e)..<unat (e_count e) + unat c] =
      map (\<lambda>k. l + of_nat k) [0..<unat c]"
    by (intro nth_equalityI) (simp_all add: assms(1) [symmetric])
  then show ?thesis using upt_add_eq_append [of 0 "unat (e_count e)" "unat c"] by (simp add: extent_lbas_def u)
qed

lemma file_lbas_unused: "\<forall>g \<in> set es. e_count g = 0 \<Longrightarrow> file_lbas es = []"
  by (induction es) simp_all

lemma add_extent_appends:
  assumes "append_place l es" and "add_extent l c es = Some es'"
    and "\<forall>e \<in> set es. unat (e_count e) + unat c < 2 ^ 32"
  shows "file_lbas es' = file_lbas es @ extent_lbas \<lparr>e_lba = l, e_count = c\<rparr>"
  using assms
proof (induction l es arbitrary: es' rule: append_place.induct)
  case (1 l)
  then show ?case by simp
next
  case (2 l e)
  then show ?case by (auto simp: extent_lbas_extend split: if_splits)
next
  case (3 l e f es)
  show ?case
  proof (cases "e_count e = 0")
    case True
    with "3.prems"(1) have "file_lbas (f # es) = []" by (intro file_lbas_unused) simp
    with True "3.prems"(2) show ?thesis by auto
  next
    case False
    show ?thesis
    proof (cases "e_lba e + e_count e = l")
      case True
      with False "3.prems"(1) have "file_lbas (f # es) = []" by (intro file_lbas_unused) simp
      with True False "3.prems"(2,3) show ?thesis by (auto simp: extent_lbas_extend)
    next
      case ne: False
      then obtain es1 where e1: "add_extent l c (f # es) = Some es1" "es' = e # es1"
        using "3.prems"(2) False by (auto split: if_splits)
      have "file_lbas es1 = file_lbas (f # es) @ extent_lbas \<lparr>e_lba = l, e_count = c\<rparr>"
        using "3.IH" [OF False _ e1(1)] False "3.prems"(1,3) by simp
      then show ?thesis by (simp add: e1(2))
    qed
  qed
qed

text \<open>
  Fact: inode_map_sector is the file's sector list. Within the direct and indirect extents it
  returns the LBA at that position; beyond them it fails; nothing changes.
\<close>

theorem inode_map_sector_correct:
  assumes "fs_io_ff s" and "inode_ok (boot s) i (fview s)"
  shows "fst (inode_map_sector i sec s) =
      (if unat sec < length (inode_lbas i (fview s)) then Some (inode_lbas i (fview s) ! unat sec) else None) \<and>
    fview (snd (inode_map_sector i sec s)) = fview s"
  by (rule inode_map_sector_eq [OF assms, of sec]) simp

text \<open>
  Fact: inode_add_extent appends to the file when the new run does not start at the end of an
  extent before the last one: the sectors already in the file keep their positions.
\<close>

theorem inode_add_extent_appends:
  assumes "append_place l (i_direct i)" and "\<forall>e \<in> set (i_direct i). unat (e_count e) + unat c < 2 ^ 32"
    and "i_indirect i = 0" and "add_extent l c (i_direct i) \<noteq> None"
  shows "\<exists>i'. inode_add_extent i l c s = (True, i', s) \<and>
    inode_lbas i' (fview s) = inode_lbas i (fview s) @ extent_lbas \<lparr>e_lba = l, e_count = c\<rparr>"
proof -
  obtain es where es: "add_extent l c (i_direct i) = Some es" using assms(4) by auto
  with add_extent_appends [OF assms(1) es assms(2)] assms(3) show ?thesis
    by (simp add: inode_add_extent_def inode_lbas_def inode_extents_def)
qed

text \<open>A file of two extents, sectors 10, 11 and 14, 15; sectors 12 and 13 have become free.\<close>

definition gap_inode :: fs_inode where
  "gap_inode = zero_inode\<lparr>i_direct := [\<lparr>e_lba = 10, e_count = 2\<rparr>, \<lparr>e_lba = 14, e_count = 2\<rparr>, no_extent, no_extent]\<rparr>"

text \<open>
  Fact: the merge of inode_add_extent is wrong when the new run fills the gap after an extent
  that is not the last: the comment says \<^emph>\<open>merge into last direct if contiguous\<close>, the loop
  merges into the first that fits. The file's sectors 2 and 3, which were on LBAs 14 and 15,
  are then read from the new blocks 12 and 13, and the old data is shifted to the end.
\<close>

theorem inode_add_extent_misplaces:
  "(\<exists>i'. inode_add_extent gap_inode 12 2 small_fs = (True, i', small_fs) \<and>
      fst (inode_map_sector gap_inode 2 small_fs) = Some 14 \<and> fst (inode_map_sector i' 2 small_fs) = Some 12 \<and>
      inode_lbas gap_inode (fview small_fs) = [10, 11, 14, 15] \<and>
      inode_lbas i' (fview small_fs) = [10, 11, 12, 13, 14, 15])"
proof -
  have b: "b_total (boot small_fs) = 16" by (simp add: small_fs_def small_boot_def)
  show ?thesis
    by (simp add: inode_add_extent_def gap_inode_def zero_inode_def inode_map_sector_def extent_count_sane_def
        total_or_def b inode_lbas_def inode_extents_def extent_lbas_def upt_rec)
qed

theorem inode_map_sector_correct_witness:
  "fst (inode_map_sector gap_inode 3 small_fs) = Some 15 \<and> fst (inode_map_sector gap_inode 4 small_fs) = None"
proof -
  have ok: "inode_ok (boot small_fs) gap_inode (fview small_fs)"
    by (simp add: inode_ok_def inode_extents_def inode_lbas_def gap_inode_def zero_inode_def extent_ok_def
        small_fs_alloc(3) word_unat_eq_iff [of "b_total (boot small_fs)"])
  have "inode_lbas gap_inode (fview small_fs) = [10, 11, 14, 15]"
    by (simp add: gap_inode_def zero_inode_def inode_lbas_def inode_extents_def extent_lbas_def upt_rec)
  with inode_map_sector_correct [OF small_fs_io(2) ok, of 3] inode_map_sector_correct [OF small_fs_io(2) ok, of 4]
  show ?thesis by simp
qed

theorem inode_add_extent_appends_witness:
  "\<exists>i'. inode_add_extent gap_inode 8 1 small_fs = (True, i', small_fs) \<and>
     inode_lbas i' (fview small_fs) = [10, 11, 14, 15, 8]"
proof -
  have "append_place 8 (i_direct gap_inode)" "\<forall>e \<in> set (i_direct gap_inode). unat (e_count e) + unat (1 :: u32) < 2 ^ 32"
    "i_indirect gap_inode = 0" "add_extent 8 1 (i_direct gap_inode) \<noteq> None"
    by (simp_all add: gap_inode_def zero_inode_def)
  from inode_add_extent_appends [OF this, of small_fs] show ?thesis
    by (simp add: gap_inode_def zero_inode_def inode_lbas_def inode_extents_def extent_lbas_def upt_rec)
qed

end
