(* ===== verification/KFsInode.thy ===== *)
theory KFsInode
  imports KFsExtent
begin

text \<open>
  Inode-level operations of src/kernel/fs.cpp: permission check, stat, read, truncate, write,
  inode allocation and disk usage. A return value of -1 is None (or False).
\<close>

definition ino_range :: "int \<Rightarrow> bool" where
  "ino_range idx \<longleftrightarrow> \<not> (idx \<le> 0 \<or> idx \<ge> int FS_MAX_INODES)"

abbreviation ino :: "'d fs \<Rightarrow> int \<Rightarrow> fs_inode" where "ino s idx \<equiv> inodes s ! nat idx"

definition put_ino :: "int \<Rightarrow> fs_inode \<Rightarrow> 'd fs \<Rightarrow> 'd fs" where
  "put_ino idx i s = s\<lparr>inodes := (inodes s)[nat idx := i]\<rparr>"

definition iflag :: "fs_inode \<Rightarrow> u16 \<Rightarrow> bool" where
  "iflag i f = has_flag (i_flags i) f"

definition fs_entry_at :: "int \<Rightarrow> 'd fs \<Rightarrow> fs_inode option" where
  "fs_entry_at idx s =
     (if \<not> ino_range idx then None else if \<not> iflag (ino s idx) FS_FLAG_OCCUPIED then None else Some (ino s idx))"

definition fs_access_ok :: "int \<Rightarrow> bool \<Rightarrow> 'd fs \<Rightarrow> bool" where
  "fs_access_ok idx want_write s =
     (if \<not> ino_range idx then False
      else if \<not> iflag (ino s idx) FS_FLAG_OCCUPIED then False
      else if fs_current_uid s = 0 then True
      else let m = i_mode (ino s idx) in
        if i_uid (ino s idx) = fs_current_uid s then has_flag m (if want_write then 0x80 else 0x100)
        else if i_gid (ino s idx) = fs_current_gid s then has_flag m (if want_write then 0x10 else 0x20)
        else has_flag m (if want_write then 0x02 else 0x04))"

record fs_stat =
  st_size :: u32
  st_mode :: u32
  st_mtime :: u32
  st_atime :: u32
  st_ctime :: u32
  st_nlink :: u32
  st_uid :: u16
  st_gid :: u16
  st_flags :: u8
  st_start :: u32
  st_secs :: u32

definition fs_index_stat :: "int \<Rightarrow> 'd fs \<Rightarrow> fs_stat option \<times> 'd fs" where
  "fs_index_stat idx s =
     (if \<not> ino_range idx then (None, s)
      else if \<not> iflag (ino s idx) FS_FLAG_OCCUPIED then (None, s)
      else let i = ino s idx in
        case inode_sector_count i s of
          (n, s) \<Rightarrow>
            (Some \<lparr>st_size = i_size i, st_mode = ucast (i_mode i), st_mtime = i_mtime i, st_atime = i_atime i,
               st_ctime = i_ctime i, st_nlink = ucast (i_nlink i), st_uid = i_uid i, st_gid = i_gid i,
               st_flags = ucast (i_flags i), st_start = e_lba (i_direct i ! 0), st_secs = n\<rparr>, s))"

text \<open>The copy loop of fs_index_read at file position pos with rem bytes to go; a sector that
  is not mapped reads as zeros.\<close>

function read_loop :: "fs_inode \<Rightarrow> nat \<Rightarrow> nat \<Rightarrow> 'd fs \<Rightarrow> u8 list option \<times> 'd fs" where
  "read_loop i pos rem s =
     (if rem = 0 then (Some [], s)
      else let off = pos mod 512; n = min (512 - off) rem in
        case inode_map_sector i (of_nat (pos div 512)) s of
          (None, s) \<Rightarrow>
            (case read_loop i (pos + n) (rem - n) s of (r, s) \<Rightarrow> (map_option (\<lambda>bs. replicate n 0 @ bs) r, s))
        | (Some lba, s) \<Rightarrow>
            (case d_read lba s of
               (None, s) \<Rightarrow> (None, s)
             | (Some x, s) \<Rightarrow>
                 (case read_loop i (pos + n) (rem - n) s of
                    (r, s) \<Rightarrow> (map_option (\<lambda>bs. take n (drop off x) @ bs) r, s))))"
  by pat_completeness auto

termination by (relation "measure (\<lambda>(i, pos, rem, s). rem)") auto

declare read_loop.simps [simp del]

definition fs_index_read :: "int \<Rightarrow> u32 \<Rightarrow> nat \<Rightarrow> 'd fs \<Rightarrow> u8 list option \<times> 'd fs" where
  "fs_index_read idx offset sz s =
     (if \<not> ino_range idx then (None, s)
      else if \<not> iflag (ino s idx) FS_FLAG_OCCUPIED then (None, s)
      else if iflag (ino s idx) FS_FLAG_SPECIAL then (None, s)
      else if \<not> fs_access_ok idx False s then (None, s)
      else
        let s = (if iflag (ino s idx) FS_FLAG_DIRECTORY then s
                 else put_ino idx ((ino s idx)\<lparr>i_atime := now s\<rparr>) s);
            i = ino s idx
        in case inode_byte_capacity i s of
             (cap, s) \<Rightarrow>
               (let logical = (if i_size i > cap then cap else i_size i) in
                if offset \<ge> logical then (Some [], s)
                else read_loop i (unat offset) (min sz (unat (logical - offset))) s))"

definition fs_index_truncate :: "int \<Rightarrow> u32 \<Rightarrow> 'd fs \<Rightarrow> bool \<times> 'd fs" where
  "fs_index_truncate idx new_size s =
     (if \<not> ino_range idx then (False, s)
      else if \<not> iflag (ino s idx) FS_FLAG_OCCUPIED then (False, s)
      else if \<not> fs_access_ok idx True s then (False, s)
      else attempt (if bitmap s = None then fs_load_bitmap s else (True, s)) (\<lambda>s.
        let need = (if new_size \<noteq> 0 then (new_size + 512 - 1) div 512 else 0) in
        case inode_sector_count (ino s idx) s of
          (n, s) \<Rightarrow>
            (case (if need > n then inode_grow_sectors (ino s idx) need s
                   else if need < n then inode_shrink_to (ino s idx) need s
                   else (True, ino s idx, s)) of
               (False, i, s) \<Rightarrow> (False, put_ino idx i s)
             | (True, i, s) \<Rightarrow>
                 fs_persist_meta (put_ino idx (i\<lparr>i_size := new_size, i_mtime := now s, i_ctime := now s\<rparr>) s))))"

function write_loop :: "fs_inode \<Rightarrow> nat \<Rightarrow> u8 list \<Rightarrow> 'd fs \<Rightarrow> bool \<times> 'd fs" where
  "write_loop i pos bs s =
     (if bs = [] then (True, s)
      else let off = pos mod 512; n = min (512 - off) (length bs) in
        case inode_map_sector i (of_nat (pos div 512)) s of
          (None, s) \<Rightarrow> (False, s)
        | (Some lba, s) \<Rightarrow>
            (case d_read lba s of
               (None, s) \<Rightarrow> (False, s)
             | (Some x, s) \<Rightarrow>
                 attempt (d_write lba (take off x @ take n bs @ drop (off + n) x) s)
                   (write_loop i (pos + n) (drop n bs))))"
  by pat_completeness auto

termination by (relation "measure (\<lambda>(i, pos, bs, s). length bs)") auto

declare write_loop.simps [simp del]

definition fs_index_write :: "int \<Rightarrow> u32 \<Rightarrow> u8 list \<Rightarrow> 'd fs \<Rightarrow> nat option \<times> 'd fs" where
  "fs_index_write idx offset bs s =
     (if \<not> ino_range idx then (None, s)
      else if \<not> iflag (ino s idx) FS_FLAG_OCCUPIED then (None, s)
      else if iflag (ino s idx) FS_FLAG_SPECIAL then (None, s)
      else if \<not> fs_access_ok idx True s then (None, s)
      else let fin = offset + of_nat (length bs) in
        if fin < offset then (None, s)
        else
          case (if fin > i_size (ino s idx) then fs_index_truncate idx fin s else (True, s)) of
            (False, s) \<Rightarrow> (None, s)
          | (True, s) \<Rightarrow>
              if bs = [] then (Some 0, s)
              else
                case attempt (write_loop (ino s idx) (unat offset) bs s) (\<lambda>s.
                     attempt (d_sync s) (\<lambda>s.
                     fs_persist_meta (put_ino idx ((ino s idx)\<lparr>i_mtime := now s, i_ctime := now s\<rparr>) s))) of
                  (False, s) \<Rightarrow> (None, s)
                | (True, s) \<Rightarrow> (Some (length bs), s))"

definition fs_alloc_inode :: "'d fs \<Rightarrow> int" where
  "fs_alloc_inode s =
     (case find_slot (\<lambda>i. \<not> iflag i FS_FLAG_OCCUPIED) (tl (inodes s)) of None \<Rightarrow> -1 | Some k \<Rightarrow> int (k + 1))"

definition fs_get_disk_usage :: "'d fs \<Rightarrow> (u32 \<times> u32 \<times> u32) option" where
  "fs_get_disk_usage s =
     (if \<not> initialized s then None
      else let total = b_total (boot s) * 512;
               used_sec = fold (\<lambda>i n. if fs_bitmap_test s (of_nat i) then n + 1 else n) [0..<unat (b_total (boot s))] (0 :: u32);
               used = used_sec * 512
           in Some (total, used, if total > used then total - used else 0))"


section \<open>File contents\<close>

definition file_bytes :: "fs_inode \<Rightarrow> (u32 \<Rightarrow> sector) \<Rightarrow> u8 list" where
  "file_bytes i v = concat (map v (inode_lbas i v))"

text \<open>The file's sectors are whole sectors, all different, and none is its indirect block.\<close>

definition file_ok :: "fs_boot_sector \<Rightarrow> fs_inode \<Rightarrow> (u32 \<Rightarrow> sector) \<Rightarrow> bool" where
  "file_ok b i v \<longleftrightarrow> inode_ok b i v \<and> (\<forall>l \<in> set (inode_lbas i v). length (v l) = 512) \<and>
     distinct (inode_lbas i v) \<and> i_indirect i \<notin> set (inode_lbas i v)"

lemma length_concat512: "\<forall>x \<in> set xs. length x = 512 \<Longrightarrow> length (concat xs) = 512 * length xs"
  by (induction xs) auto

lemma length_file_bytes: "file_ok b i v \<Longrightarrow> length (file_bytes i v) = 512 * length (inode_lbas i v)"
  by (simp add: file_bytes_def length_concat512 file_ok_def)

lemma take_concat512:
  assumes "\<forall>x \<in> set xs. length x = 512"
  shows "take (512 * k) (concat xs) = concat (take k xs)"
  using assms
proof (induction xs arbitrary: k)
  case (Cons x xs)
  then show ?case by (cases k) (simp_all add: take_Cons')
qed simp

lemma drop_concat512:
  assumes "\<forall>x \<in> set xs. length x = 512"
  shows "drop (512 * k) (concat xs) = concat (drop k xs)"
  using assms
proof (induction xs arbitrary: k)
  case (Cons x xs)
  then show ?case by (cases k) simp_all
qed simp

text \<open>The bytes at a position, up to the end of its sector.\<close>

lemma drop_in_sector:
  assumes "\<forall>x \<in> set xs. length x = 512" and "pos div 512 < length xs"
  shows "drop pos (concat xs) = drop (pos mod 512) (xs ! (pos div 512)) @ concat (drop (pos div 512 + 1) xs)"
proof -
  let ?k = "pos div 512"
  have len: "length (xs ! ?k) = 512" using assms by simp
  have "drop pos (concat xs) = drop (pos mod 512) (drop (512 * ?k) (concat xs))"
    by simp
  also have "\<dots> = drop (pos mod 512) (concat (xs ! ?k # drop (?k + 1) xs))"
    using Cons_nth_drop_Suc [OF assms(2)] by (simp add: drop_concat512 [OF assms(1)])
  also have "\<dots> = drop (pos mod 512) (xs ! ?k) @ concat (drop (?k + 1) xs)"
    using len by (simp add: less_imp_le)
  finally show ?thesis .
qed

lemma take_in_sector:
  assumes "\<forall>x \<in> set xs. length x = 512" and "pos div 512 < length xs" and "n \<le> 512 - pos mod 512"
  shows "take n (drop pos (concat xs)) = take n (drop (pos mod 512) (xs ! (pos div 512)))"
proof -
  have "length (xs ! (pos div 512)) = 512" using assms by simp
  then show ?thesis using assms(3) by (simp add: drop_in_sector [OF assms(1,2)])
qed

lemma read_loop_correct:
  assumes "fs_io_ff s" and "file_ok (boot s) i (fview s)" and "pos + rem \<le> 512 * length (inode_lbas i (fview s))"
  shows "\<exists>s'. read_loop i pos rem s = (Some (take rem (drop pos (file_bytes i (fview s)))), s') \<and>
    fs_io_ff s' \<and> fview s' = fview s \<and> same_meta s s'"
  using assms
proof (induction i pos rem s rule: read_loop.induct)
  case (1 i pos rem s)
  let ?v = "fview s" and ?L = "inode_lbas i (fview s)" and ?off = "pos mod 512" and ?k = "pos div 512"
  let ?n = "min (512 - ?off) rem" and ?xs = "map (fview s) (inode_lbas i (fview s))"
  show ?case
  proof (cases "rem = 0")
    case True
    with "1.prems"(1) show ?thesis by (simp add: read_loop.simps)
  next
    case False
    have k: "?k < length ?L" using "1.prems"(3) False by (auto simp: less_mult_imp_div_less)
    have io: "inode_ok (boot s) i ?v" and sz: "\<forall>x \<in> set ?xs. length x = 512" using "1.prems"(2) by (auto simp: file_ok_def)
    have len: "length ?L < 2 ^ 32" using io unat_lt32 [of "b_total (boot s)"] by (simp add: inode_ok_def)
    then have u: "unat (of_nat ?k :: u32) = ?k" using k by (simp add: unat_of_nat32)
    obtain s1 where m: "inode_map_sector i (of_nat ?k) s = (Some (?L ! ?k), s1)" "fs_io_ff s1" "fview s1 = ?v" "same_meta s s1"
      by (rule inode_map_sector_eq [OF "1.prems"(1) io, of "of_nat ?k"]) (use u k in simp)
    obtain s2 where r: "d_read (?L ! ?k) s1 = (Some (?v (?L ! ?k)), s2)" "fs_io_ff s2" "fview s2 = ?v"
      by (rule dr.rd_eq [OF m(2), of "?L ! ?k"]) (use m(3) in simp)
    have sm: "same_meta s s2" using same_meta_trans [OF m(4) io_same_meta(1) [OF r(1)]] .
    have n: "0 < ?n" "?n \<le> 512 - ?off" "?n \<le> rem" using False by auto
    have p2: "file_ok (boot s2) i (fview s2)" using "1.prems"(2) unfolding same_metaD(1) [OF sm] r(3) .
    have p3: "pos + ?n + (rem - ?n) \<le> 512 * length (inode_lbas i (fview s2))"
      using "1.prems"(3) n(3) unfolding r(3) by linarith
    from "1.IH"(2) [OF False refl refl m(1) [symmetric] refl r(1) [symmetric] refl r(2) p2 p3]
    obtain s' where s': "read_loop i (pos + ?n) (rem - ?n) s2 = (Some (take (rem - ?n) (drop (pos + ?n) (file_bytes i ?v))), s')"
      "fs_io_ff s'" "fview s' = ?v" "same_meta s2 s'" unfolding r(3) by blast
    have "take ?n (drop ?off (?v (?L ! ?k))) @ take (rem - ?n) (drop (pos + ?n) (file_bytes i ?v)) = take rem (drop pos (file_bytes i ?v))"
    proof -
      have "take ?n (drop ?off (?v (?L ! ?k))) = take ?n (drop pos (file_bytes i ?v))"
        using take_in_sector [OF sz _ n(2)] k by (simp add: file_bytes_def)
      moreover have "take rem (drop pos (file_bytes i ?v)) =
          take ?n (drop pos (file_bytes i ?v)) @ take (rem - ?n) (drop ?n (drop pos (file_bytes i ?v)))"
        using n(3) take_add [of ?n "rem - ?n" "drop pos (file_bytes i ?v)"] by simp
      ultimately show ?thesis by (simp add: add.commute)
    qed
    then show ?thesis
      using s' m(1) r(1) False same_meta_trans [OF sm s'(4)]
      by (simp add: read_loop.simps [of i pos rem s] Let_def)
  qed
qed


section \<open>Writing in place\<close>

definition splice :: "nat \<Rightarrow> 'a list \<Rightarrow> 'a list \<Rightarrow> 'a list" where
  "splice pos bs old = take pos old @ bs @ drop (pos + length bs) old"

lemma length_splice: "pos + length bs \<le> length old \<Longrightarrow> length (splice pos bs old) = length old"
  by (simp add: splice_def)

lemma take_drop_append: "take n xs @ drop n xs @ ys = xs @ ys"
  by (metis append_assoc append_take_drop_id)

lemma splice_split:
  assumes "n \<le> length bs" and "pos + length bs \<le> length old"
  shows "splice (pos + n) (drop n bs) (splice pos (take n bs) old) = splice pos bs old"
  using assms by (simp add: splice_def min_def take_drop_append add.commute)

lemma splice_read: "pos + length bs \<le> length old \<Longrightarrow> take (length bs) (drop pos (splice pos bs old)) = bs"
  by (simp add: splice_def)

lemma map_upd_distinct:
  "distinct L \<Longrightarrow> k < length L \<Longrightarrow> map (v(L ! k := x)) L = (map v L)[k := x]"
  by (intro nth_equalityI) (auto simp: nth_list_update nth_eq_iff_index_eq)

lemma concat_update:
  assumes "\<forall>x \<in> set xs. length x = 512" and "k < length xs"
  shows "concat (xs[k := y]) = take (512 * k) (concat xs) @ y @ drop (512 * (k + 1)) (concat xs)"
  using assms(2) by (simp add: upd_conv_take_nth_drop take_concat512 [OF assms(1)] drop_concat512 [OF assms(1), of "k + 1", simplified])

text \<open>Replacing part of one sector is splicing the file.\<close>

lemma sector_splice:
  assumes "\<forall>x \<in> set xs. length x = 512" and "k < length xs" and "off + length ys \<le> 512"
  shows "concat (xs[k := take off (xs ! k) @ ys @ drop (off + length ys) (xs ! k)]) =
    splice (512 * k + off) ys (concat xs)"
proof -
  let ?c = "concat xs"
  have len: "length (xs ! k) = 512" "length ?c = 512 * length xs" using assms(1,2) by (simp_all add: length_concat512)
  have s: "?c = take (512 * k) ?c @ xs ! k @ drop (512 * (k + 1)) ?c"
    using concat_update [OF assms(1,2), of "xs ! k"] by simp
  have l: "length (take (512 * k) ?c) = 512 * k" using len(2) assms(2) by simp
  have "splice (512 * k + off) ys (take (512 * k) ?c @ xs ! k @ drop (512 * (k + 1)) ?c) =
      take (512 * k) ?c @ (take off (xs ! k) @ ys @ drop (off + length ys) (xs ! k)) @ drop (512 * (k + 1)) ?c"
    using l len(1) assms(3) by (simp add: splice_def min_def)
  then show ?thesis using concat_update [OF assms(1,2)] s by simp
qed

lemma inode_lbas_upd:
  "i_indirect i \<noteq> l \<or> i_indirect i = 0 \<Longrightarrow> inode_lbas i (v(l := x)) = inode_lbas i v"
  by (auto simp: inode_lbas_def inode_extents_def)

lemma file_sector_write:
  assumes "file_ok b i v" and "k < length (inode_lbas i v)" and "off + length ys \<le> 512"
  defines "l \<equiv> inode_lbas i v ! k"
  defines "v' \<equiv> v(l := take off (v l) @ ys @ drop (off + length ys) (v l))"
  shows "file_ok b i v'" "inode_lbas i v' = inode_lbas i v"
    "file_bytes i v' = splice (512 * k + off) ys (file_bytes i v)"
proof -
  let ?L = "inode_lbas i v"
  have mem: "l \<in> set ?L" using assms(2) by (simp add: l_def)
  then have ind: "i_indirect i \<noteq> l" using assms(1) by (auto simp: file_ok_def)
  then show L: "inode_lbas i v' = ?L" by (simp add: v'_def inode_lbas_upd)
  have sz: "\<forall>x \<in> set (map v ?L). length x = 512" using assms(1) by (simp add: file_ok_def)
  have "inode_extents i v' = inode_extents i v" using ind by (simp add: inode_extents_def v'_def)
  moreover have "\<forall>a \<in> set ?L. length (v' a) = 512"
    using sz mem assms(3) by (auto simp: v'_def)
  ultimately show "file_ok b i v'" using assms(1) L by (simp add: file_ok_def inode_ok_def)
  have "map v' ?L = (map v ?L)[k := take off (v l) @ ys @ drop (off + length ys) (v l)]"
    using assms(1,2) unfolding v'_def l_def by (intro map_upd_distinct) (simp_all add: file_ok_def)
  then show "file_bytes i v' = splice (512 * k + off) ys (file_bytes i v)"
    using sector_splice [OF sz, of k off ys] assms(2,3) by (simp add: file_bytes_def L l_def)
qed

lemma write_loop_correct:
  assumes "fs_io_ff s" and "file_ok (boot s) i (fview s)" and "pos + length bs \<le> 512 * length (inode_lbas i (fview s))"
  shows "\<exists>s'. write_loop i pos bs s = (True, s') \<and> fs_io_ff s' \<and> same_meta s s' \<and> file_ok (boot s) i (fview s') \<and>
    inode_lbas i (fview s') = inode_lbas i (fview s) \<and> file_bytes i (fview s') = splice pos bs (file_bytes i (fview s)) \<and>
    (\<forall>l. l \<notin> set (inode_lbas i (fview s)) \<longrightarrow> fview s' l = fview s l)"
  using assms
proof (induction i pos bs s rule: write_loop.induct)
  case (1 i pos bs s)
  let ?v = "fview s" and ?L = "inode_lbas i (fview s)" and ?off = "pos mod 512" and ?k = "pos div 512"
  let ?n = "min (512 - ?off) (length bs)"
  show ?case
  proof (cases "bs = []")
    case True
    with "1.prems" show ?thesis by (simp add: write_loop.simps splice_def)
  next
    case False
    then have n: "0 < ?n" "?off + ?n \<le> 512" "?n \<le> length bs" by auto
    have "pos < length ?L * 512" using "1.prems"(3) n(1,3) by linarith
    then have k: "?k < length ?L" by (rule less_mult_imp_div_less)
    have io: "inode_ok (boot s) i ?v" using "1.prems"(2) by (auto simp: file_ok_def)
    have u: "unat (of_nat ?k :: u32) = ?k"
      using k io unat_lt32 [of "b_total (boot s)"] by (simp add: inode_ok_def unat_of_nat32)
    obtain s1 where m: "inode_map_sector i (of_nat ?k) s = (Some (?L ! ?k), s1)" "fs_io_ff s1" "fview s1 = ?v" "same_meta s s1"
      by (rule inode_map_sector_eq [OF "1.prems"(1) io, of "of_nat ?k"]) (use u k in simp)
    obtain s2 where r: "d_read (?L ! ?k) s1 = (Some (?v (?L ! ?k)), s2)" "fs_io_ff s2" "fview s2 = ?v"
      by (rule dr.rd_eq [OF m(2), of "?L ! ?k"]) (use m(3) in simp)
    let ?x = "take ?off (?v (?L ! ?k)) @ take ?n bs @ drop (?off + ?n) (?v (?L ! ?k))"
    obtain s3 where w: "d_write (?L ! ?k) ?x s2 = (True, s3)" "fs_io_ff s3" "fview s3 = ?v(?L ! ?k := ?x)"
      by (rule dr.wr_eq [OF r(2), of "?L ! ?k" ?x]) (use r(3) in simp)
    have sm: "same_meta s s3"
      using same_meta_trans [OF m(4) same_meta_trans [OF io_same_meta(1) [OF r(1)] io_same_meta(2) [OF w(1)]]] .
    have ln: "length (take ?n bs) = ?n" by simp
    have pos: "512 * ?k + ?off = pos" by simp
    note fw = file_sector_write [OF "1.prems"(2) k, of ?off "take ?n bs", unfolded ln pos, OF n(2), folded w(3)]
    have p2: "file_ok (boot s3) i (fview s3)" using fw(1) unfolding same_metaD(1) [OF sm] .
    have p3: "pos + ?n + length (drop ?n bs) \<le> 512 * length (inode_lbas i (fview s3))"
      using "1.prems"(3) n(3) unfolding fw(2) by simp
    from "1.IH" [OF False refl refl m(1) [symmetric] refl r(1) [symmetric] refl w(2) p2 p3]
    obtain s' where s': "write_loop i (pos + ?n) (drop ?n bs) s3 = (True, s')" "fs_io_ff s'" "same_meta s3 s'"
      "file_ok (boot s3) i (fview s')" "inode_lbas i (fview s') = ?L"
      "file_bytes i (fview s') = splice (pos + ?n) (drop ?n bs) (file_bytes i (fview s3))"
      "\<forall>l. l \<notin> set ?L \<longrightarrow> fview s' l = fview s3 l" unfolding fw(2) by blast
    have "pos + length bs \<le> length (file_bytes i ?v)" using "1.prems"(3) length_file_bytes [OF "1.prems"(2)] by simp
    then have "file_bytes i (fview s') = splice pos bs (file_bytes i ?v)"
      unfolding s'(6) fw(3) by (rule splice_split [OF n(3)])
    moreover have "write_loop i pos bs s = (True, s')"
      using m(1) r(1) w(1) s'(1) False by (simp add: write_loop.simps [of i pos bs s] Let_def attempt_def)
    moreover have "\<forall>l. l \<notin> set ?L \<longrightarrow> fview s' l = ?v l" using s'(7) k unfolding w(3) by auto
    ultimately show ?thesis
      using s'(2,4,5) same_meta_trans [OF sm s'(3)] unfolding same_metaD(1) [OF sm] by blast
  qed
qed


section \<open>The operations on a file that is in order\<close>

lemma inode_times [simp]:
  "inode_extents (i\<lparr>i_atime := t\<rparr>) v = inode_extents i v" "inode_extents (i\<lparr>i_mtime := t\<rparr>) v = inode_extents i v"
  "inode_extents (i\<lparr>i_ctime := t\<rparr>) v = inode_extents i v"
  "inode_lbas (i\<lparr>i_atime := t\<rparr>) v = inode_lbas i v" "inode_lbas (i\<lparr>i_mtime := t\<rparr>) v = inode_lbas i v"
  "inode_lbas (i\<lparr>i_ctime := t\<rparr>) v = inode_lbas i v"
  "file_bytes (i\<lparr>i_atime := t\<rparr>) v = file_bytes i v" "file_bytes (i\<lparr>i_mtime := t\<rparr>) v = file_bytes i v"
  "file_bytes (i\<lparr>i_ctime := t\<rparr>) v = file_bytes i v"
  "file_ok b (i\<lparr>i_atime := t\<rparr>) v = file_ok b i v" "file_ok b (i\<lparr>i_mtime := t\<rparr>) v = file_ok b i v"
  "file_ok b (i\<lparr>i_ctime := t\<rparr>) v = file_ok b i v"
  "inode_extents (i\<lparr>i_size := t\<rparr>) v = inode_extents i v" "inode_lbas (i\<lparr>i_size := t\<rparr>) v = inode_lbas i v"
  "file_bytes (i\<lparr>i_size := t\<rparr>) v = file_bytes i v" "file_ok b (i\<lparr>i_size := t\<rparr>) v = file_ok b i v"
  by (simp_all add: inode_extents_def inode_lbas_def file_bytes_def file_ok_def inode_ok_def)

lemma file_ok_next [simp]: "file_ok (b\<lparr>b_log_next := n\<rparr>) i v = file_ok b i v"
  by (simp add: file_ok_def inode_ok_def extent_ok_def)

lemma file_cong:
  assumes "file_ok b i v" and "\<forall>l \<in> set (inode_lbas i v) \<union> {i_indirect i} - {0}. w l = v l" and "0 \<notin> set (inode_lbas i v)"
  shows "inode_lbas i w = inode_lbas i v" "file_bytes i w = file_bytes i v" "file_ok b i w"
proof -
  have e: "inode_extents i w = inode_extents i v" using assms(2) by (simp add: inode_extents_def)
  then show l: "inode_lbas i w = inode_lbas i v" by (simp add: inode_lbas_def)
  have eq: "w a = v a" if "a \<in> set (inode_lbas i v)" for a
    using assms(2,3) that by (cases "a = 0") auto
  then show "file_bytes i w = file_bytes i v" using l by (simp add: file_bytes_def cong: map_cong)
  show "file_ok b i w" using assms(1) e l eq by (simp add: file_ok_def inode_ok_def)
qed

definition meta_area :: "'d fs \<Rightarrow> u32 set" where
  "meta_area s = {0} \<union> area (b_inode_table (boot s)) (tsecs s) \<union> area (b_bitmap_sector (boot s)) (bsecs s) \<union>
     log_area (boot s) FS_JOURNAL_MAX_SEC"

definition log_room :: "'d fs \<Rightarrow> bool" where
  "log_room s \<longleftrightarrow> \<not> b_log_size (boot s) < of_nat (length (meta_txn s)) + 1"

lemma fs_persist_meta_frame:
  assumes "fs_io_ff s" and "meta_layout s" and "log_room s"
  shows "\<exists>s'. fs_persist_meta s = (True, s') \<and> fs_io_ff s' \<and> meta_of s' = meta_of s \<and>
    boot s' = (boot s)\<lparr>b_log_next := 0\<rparr> \<and> (\<forall>l. l \<notin> meta_area s \<longrightarrow> fview s' l = fview s l)"
proof -
  obtain bm where bm: "bitmap s = Some bm" using assms(2) by (auto simp: meta_layout_def)
  note sh = meta_txn_shape [OF assms(2) bm]
  have ok: "ok_ff (fs_persist_meta s)"
    using fs_persist_meta_total [OF assms(1)] sh(2) assms(3) by (simp add: txn_ok_def log_room_def)
  obtain r s' where p: "fs_persist_meta s = (r, s')" by (cases "fs_persist_meta s")
  with ok have r: "fs_persist_meta s = (True, s')" "fs_io_ff s'" by auto
  have io: "fs_io s" using assms(1) by (simp add: fs_io_def fs_io_ff_def cache_inv_ff_def)
  let ?n = "min (tsecs s) (FS_JOURNAL_MAX_SEC - 2)"
  obtain v where
    v: "\<forall>l. l \<noteq> 0 \<and> l \<notin> log_area (boot s) FS_JOURNAL_MAX_SEC \<longrightarrow> v l = put_all (meta_txn s) (fview s) l" and
    w: "fview s' =
      (put_all (zip (map (\<lambda>k. b_bitmap_sector (boot s) + of_nat 1 + of_nat k) [0..<bsecs s - 1]) (map (chunk bm) [1..<bsecs s]))
       (put_all (zip (map (\<lambda>k. b_inode_table (boot s) + of_nat ?n + of_nat k) [0..<tsecs s - ?n])
          (map (chunk (inode_bytes s)) [?n..<tsecs s])) v)) (0 := enc_boot (boot s'))" and
    q: "meta_of s' = meta_of s" "boot s' = (boot s)\<lparr>b_log_next := 0\<rparr>"
    using fs_persist_meta_ok [OF io assms(2) bm r(1)] by (elim exE conjE) (rule that)
  have "fview s' l = fview s l" if l: "l \<notin> meta_area s" for l
  proof -
    have o: "l \<noteq> 0" "l \<notin> area (b_inode_table (boot s)) (tsecs s)" "l \<notin> area (b_bitmap_sector (boot s)) (bsecs s)"
        "l \<notin> log_area (boot s) FS_JOURNAL_MAX_SEC" using l by (simp_all add: meta_area_def)
    have "b_bitmap_sector (boot s) \<in> area (b_bitmap_sector (boot s)) (bsecs s)"
      using in_area [of 0 "bsecs s" "b_bitmap_sector (boot s)"] assms(2) by (simp add: meta_layout_def)
    then have "l \<notin> fst ` set (meta_txn s)" using o(2,3) by (auto simp: sh(1) intro: in_area)
    then have "v l = fview s l" using spec [OF v, of l] o(1,4) by (simp add: put_all_other)
    then show ?thesis unfolding w fun_upd_other [OF o(1)] put_tail_other [OF o(3)] put_tail_other [OF o(2)] .
  qed
  with r q show ?thesis by blast
qed

text \<open>An open file in order: usable by the caller, its sectors apart from the metadata, its size
  within its sectors, and a journal large enough for the metadata.\<close>

definition file_ready :: "int \<Rightarrow> 'd fs \<Rightarrow> bool" where
  "file_ready idx s \<longleftrightarrow> ino_range idx \<and> length (inodes s) = FS_MAX_INODES \<and> iflag (ino s idx) FS_FLAG_OCCUPIED \<and>
     \<not> iflag (ino s idx) FS_FLAG_SPECIAL \<and> fs_access_ok idx True s \<and> fs_access_ok idx False s \<and>
     fs_io_ff s \<and> meta_layout s \<and> log_room s \<and> file_ok (boot s) (ino s idx) (fview s) \<and>
     (set (inode_lbas (ino s idx) (fview s)) \<union> {i_indirect (ino s idx)} - {0}) \<inter> meta_area s = {} \<and>
     0 \<notin> set (inode_lbas (ino s idx) (fview s)) \<and>
     unat (i_size (ino s idx)) \<le> 512 * length (inode_lbas (ino s idx) (fview s))"

lemma put_ino_simps [simp]:
  "boot (put_ino idx i s) = boot s" "cache (put_ino idx i s) = cache s" "bitmap (put_ino idx i s) = bitmap s"
  "bitmap_sectors (put_ino idx i s) = bitmap_sectors s" "now (put_ino idx i s) = now s"
  "fs_io_ff (put_ino idx i s) = fs_io_ff s" "fs_current_uid (put_ino idx i s) = fs_current_uid s"
  "fs_current_gid (put_ino idx i s) = fs_current_gid s" "length (inodes (put_ino idx i s)) = length (inodes s)"
  "nat idx < length (inodes s) \<Longrightarrow> ino (put_ino idx i s) idx = i"
  by (simp_all add: put_ino_def fs_io_ff_def fs_current_uid_def fs_current_gid_def split: option.split)

lemma meta_put_ino [simp]:
  "meta_area (put_ino idx i s) = meta_area s" "meta_layout (put_ino idx i s) = meta_layout s"
  "log_room (put_ino idx i s) = log_room s"
  by (simp_all add: meta_area_def meta_layout_def log_room_def meta_txn_def Let_def split: option.split)

lemma fs_access_put_ino [simp]:
  assumes "nat idx < length (inodes s)" and "i_mode i = i_mode (ino s idx)" and "i_flags i = i_flags (ino s idx)"
    and "i_uid i = i_uid (ino s idx)" and "i_gid i = i_gid (ino s idx)"
  shows "fs_access_ok idx w (put_ino idx i s) = fs_access_ok idx w s"
  using assms by (simp add: fs_access_ok_def iflag_def)


lemma inode_byte_capacity_ok:
  assumes "fs_io_ff s" and "inode_ok (boot s) i (fview s)" and "unat n \<le> 512 * length (inode_lbas i (fview s))"
  obtains cap s' where "inode_byte_capacity i s = (cap, s')" "\<not> n > cap" "fs_io_ff s'" "fview s' = fview s" "same_meta s s'"
proof -
  let ?k = "length (inode_lbas i (fview s))"
  obtain s' where c: "inode_sector_count i s = (of_nat ?k, s')" "fs_io_ff s'" "fview s' = fview s" "same_meta s s'"
    by (rule inode_sector_count_eq [OF assms(1,2)])
  have k: "unat (of_nat ?k :: u32) = ?k"
    using assms(2) unat_lt32 [of "b_total (boot s)"] by (simp add: inode_ok_def unat_of_nat32)
  let ?cap = "if of_nat ?k > (0xFFFFFFFF :: u32) div 512 then 0xFFFFFFFF else of_nat ?k * 512 :: u32"
  have "\<not> n > ?cap"
  proof (cases "of_nat ?k > (0xFFFFFFFF :: u32) div 512")
    case True
    have "unat (0xFFFFFFFF :: u32) = 4294967295" by simp
    with True unat_lt32 [of n] show ?thesis by (simp add: word_less_nat_alt)
  next
    case False
    then have "?k \<le> 8388607" using k by (simp add: word_less_nat_alt)
    then have "unat (of_nat ?k * 512 :: u32) = ?k * 512" using k by (simp add: unat_word_ariths)
    with False assms(3) show ?thesis by (simp add: word_less_nat_alt)
  qed
  with c that [of ?cap s'] show thesis by (simp add: inode_byte_capacity_def)
qed

lemma file_readyD:
  assumes "file_ready idx s"
  shows "ino_range idx" "length (inodes s) = FS_MAX_INODES" "iflag (ino s idx) FS_FLAG_OCCUPIED"
    "\<not> iflag (ino s idx) FS_FLAG_SPECIAL" "fs_access_ok idx True s" "fs_access_ok idx False s"
    "fs_io_ff s" "meta_layout s" "log_room s" "file_ok (boot s) (ino s idx) (fview s)"
    "(set (inode_lbas (ino s idx) (fview s)) \<union> {i_indirect (ino s idx)} - {0}) \<inter> meta_area s = {}"
    "0 \<notin> set (inode_lbas (ino s idx) (fview s))"
    "unat (i_size (ino s idx)) \<le> 512 * length (inode_lbas (ino s idx) (fview s))" "nat idx < length (inodes s)"
  using assms by (simp_all add: file_ready_def) (auto simp: ino_range_def nat_less_iff)

lemma fs_index_read_bytes:
  assumes "file_ready idx s" and "unat off + n \<le> unat (i_size (ino s idx))"
  shows "\<exists>s'. fs_index_read idx off n s = (Some (take n (drop (unat off) (file_bytes (ino s idx) (fview s)))), s') \<and>
    fview s' = fview s \<and> fs_io_ff s' \<and> (iflag (ino s idx) FS_FLAG_DIRECTORY \<longrightarrow> same_meta s s')"
proof -
  note f = file_readyD [OF assms(1)]
  define s0 where "s0 = (if iflag (ino s idx) FS_FLAG_DIRECTORY then s else put_ino idx ((ino s idx)\<lparr>i_atime := now s\<rparr>) s)"
  define i where "i = ino s0 idx"
  have s0: "fs_io_ff s0" "fview s0 = fview s" "boot s0 = boot s" using f(7) by (simp_all add: s0_def)
  have i: "inode_lbas i v = inode_lbas (ino s idx) v" "file_bytes i v = file_bytes (ino s idx) v"
      "file_ok b i v = file_ok b (ino s idx) v" "i_size i = i_size (ino s idx)" for v b
    using f(14) by (simp_all add: i_def s0_def)
  have ok: "inode_ok (boot s0) i (fview s0)" "file_ok (boot s0) i (fview s0)"
    using f(10) by (simp_all add: i s0) (simp add: file_ok_def i(1) [symmetric] inode_ok_def i_def s0_def f(14))
  obtain cap s1 where c: "inode_byte_capacity i s0 = (cap, s1)" "\<not> i_size i > cap" "fs_io_ff s1" "fview s1 = fview s0" "same_meta s0 s1"
    by (rule inode_byte_capacity_ok [OF s0(1) ok(1), of "i_size i"]) (use f(13) in \<open>simp add: i s0\<close>)
  have eq: "fs_index_read idx off n s = (if off \<ge> i_size i then (Some [], s1)
      else read_loop i (unat off) (min n (unat (i_size i - off))) s1)"
    using f(1,3,4,6) c(1,2) unfolding fs_index_read_def Let_def s0_def [symmetric] i_def [symmetric] by simp
  show ?thesis
  proof (cases "off \<ge> i_size i")
    case True
    with assms(2) have "n = 0" by (simp add: word_le_nat_alt i)
    with True eq c(3-5) s0(2) show ?thesis by (auto simp: s0_def)
  next
    case False
    then have "unat (i_size i - off) = unat (i_size i) - unat off" by (simp add: unat_sub word_le_nat_alt)
    then have m: "min n (unat (i_size i - off)) = n" using assms(2) by (simp add: i)
    have p: "file_ok (boot s1) i (fview s1)" "unat off + n \<le> 512 * length (inode_lbas i (fview s1))"
      using ok(2) f(13) assms(2) unfolding same_metaD(1) [OF c(5)] c(4) s0 i by simp_all
    from read_loop_correct [OF c(3) p] obtain s' where
      "read_loop i (unat off) n s1 = (Some (take n (drop (unat off) (file_bytes i (fview s1)))), s')"
      "fs_io_ff s'" "fview s' = fview s1" "same_meta s1 s'" by blast
    with False eq m c(4,5) s0(2) same_meta_trans [of s0 s1 s'] show ?thesis by (auto simp: i s0_def)
  qed
qed


text \<open>What an operation on one inode leaves alone: all other inodes and the rest of the state but
  the cache and the journal state.\<close>

definition file_frame :: "int \<Rightarrow> 'd fs \<Rightarrow> 'd fs \<Rightarrow> bool" where
  "file_frame idx s s' \<longleftrightarrow> (boot s')\<lparr>b_log_next := 0\<rparr> = (boot s)\<lparr>b_log_next := 0\<rparr> \<and>
     meta_of (s'\<lparr>inodes := []\<rparr>) = meta_of (s\<lparr>inodes := []\<rparr>) \<and> length (inodes s') = length (inodes s) \<and>
     (\<forall>j. j \<noteq> nat idx \<longrightarrow> inodes s' ! j = inodes s ! j)"

lemma file_frame_refl [simp]: "file_frame idx s s"
  by (simp add: file_frame_def)

lemma file_frame_trans: "file_frame idx s s1 \<Longrightarrow> file_frame idx s1 s2 \<Longrightarrow> file_frame idx s s2"
  by (simp add: file_frame_def)

lemma file_frame_meta: "same_meta s s' \<Longrightarrow> file_frame idx s s'"
  by (simp add: same_meta_def file_frame_def meta_of_def)

lemma file_frame_step:
  assumes "same_meta s s1" and "boot s' = (boot s)\<lparr>b_log_next := 0\<rparr>" and "meta_of s' = meta_of (put_ino idx i s1)"
  shows "file_frame idx s s'"
  using assms by (simp add: same_meta_def file_frame_def meta_of_def put_ino_def)

lemma file_ready_step:
  fixes t :: u32 and sz :: u32
  assumes "file_ready idx s" and "same_meta s s1" and "fs_io_ff s1"
    and "file_ok (boot s) (ino s idx) (fview s1)" "inode_lbas (ino s idx) (fview s1) = inode_lbas (ino s idx) (fview s)"
    and "unat sz \<le> 512 * length (inode_lbas (ino s idx) (fview s))"
  defines "s3 \<equiv> put_ino idx ((ino s1 idx)\<lparr>i_size := sz, i_mtime := t, i_ctime := t\<rparr>) s1"
  shows "\<exists>s'. fs_persist_meta s3 = (True, s') \<and> file_ready idx s' \<and> ino s' idx = (ino s idx)\<lparr>i_size := sz, i_mtime := t, i_ctime := t\<rparr> \<and>
    file_bytes (ino s' idx) (fview s') = file_bytes (ino s idx) (fview s1) \<and>
    (\<forall>l. l \<notin> meta_area s \<longrightarrow> fview s' l = fview s1 l) \<and>
    boot s' = (boot s)\<lparr>b_log_next := 0\<rparr> \<and> meta_of s' = meta_of s3 \<and>
    inodes s' = (inodes s)[nat idx := (ino s idx)\<lparr>i_size := sz, i_mtime := t, i_ctime := t\<rparr>]"
proof -
  note f = file_readyD [OF assms(1)] and b1 = same_metaD(1) [OF assms(2)] and m1 = meta_ofD [OF same_metaD(2) [OF assms(2)]]
  let ?i = "ino s idx" and ?L = "inode_lbas (ino s idx) (fview s)"
  have area: "meta_area s1 = meta_area s" "meta_layout s1 = meta_layout s" "log_room s1 = log_room s"
    by (simp_all add: meta_area_def meta_layout_def log_room_def meta_txn_def Let_def b1 m1 inode_bytes_def split: option.split)
  obtain s' where p: "fs_persist_meta s3 = (True, s')" "fs_io_ff s'" "meta_of s' = meta_of s3"
      "boot s' = (boot s)\<lparr>b_log_next := 0\<rparr>" "\<forall>l. l \<notin> meta_area s \<longrightarrow> fview s' l = fview s1 l"
    using fs_persist_meta_frame [of s3] assms(3) f(8,9) by (auto simp: s3_def area b1)
  note m' = meta_ofD [OF p(3)]
  have n: "nat idx < length (inodes s1)" using f(14) by (simp add: m1)
  have ino': "ino s' idx = ?i\<lparr>i_size := sz, i_mtime := t, i_ctime := t\<rparr>" using n by (simp add: m' s3_def m1)
  have eq: "\<forall>l \<in> set (inode_lbas ?i (fview s1)) \<union> {i_indirect ?i} - {0}. fview s' l = fview s1 l"
  proof
    fix l assume "l \<in> set (inode_lbas ?i (fview s1)) \<union> {i_indirect ?i} - {0}"
    then have "l \<notin> meta_area s" using f(11) unfolding assms(5) disjoint_iff by simp
    then show "fview s' l = fview s1 l" using p(5) by simp
  qed
  have z: "0 \<notin> set (inode_lbas ?i (fview s1))" using f(12) assms(5) by simp
  note c = file_cong [OF assms(4) eq z]
  have cred: "fs_current_uid s' = fs_current_uid s" "fs_current_gid s' = fs_current_gid s"
    by (simp_all add: fs_current_uid_def fs_current_gid_def m' s3_def put_ino_def m1 split: option.split)
  have acc: "fs_access_ok idx w s' = fs_access_ok idx w s" for w
    by (simp add: fs_access_ok_def ino' iflag_def cred)
  have ar': "meta_area s' = meta_area s" "meta_layout s' = meta_layout s" "log_room s' = log_room s"
    by (simp_all add: meta_area_def meta_layout_def log_room_def meta_txn_def Let_def p(4) m' s3_def put_ino_def m1
        fs_inode_sectors_def log_area_def split: option.split)
  have "file_ready idx s'"
    unfolding file_ready_def ino'
    using f c p(2,4) assms(6) by (simp add: acc ar' iflag_def assms(5) m' s3_def m1)
  moreover have "inodes s' = (inodes s)[nat idx := ?i\<lparr>i_size := sz, i_mtime := t, i_ctime := t\<rparr>]"
    by (simp add: m' s3_def put_ino_def m1)
  ultimately show ?thesis using p(1,3,4,5) c(2) ino' by simp
qed

text \<open>A change of size that needs exactly the sectors the file has.\<close>

lemma fs_index_truncate_in_place:
  assumes "file_ready idx s" and "unat n + 511 < 2 ^ 32" and "(unat n + 511) div 512 = length (inode_lbas (ino s idx) (fview s))"
  shows "\<exists>s'. fs_index_truncate idx n s = (True, s') \<and> file_ready idx s' \<and>
    file_bytes (ino s' idx) (fview s') = file_bytes (ino s idx) (fview s) \<and>
    ino s' idx = (ino s idx)\<lparr>i_size := n, i_mtime := i_mtime (ino s' idx), i_ctime := i_ctime (ino s' idx)\<rparr> \<and> file_frame idx s s' \<and>
    (\<forall>l. l \<notin> meta_area s \<longrightarrow> fview s' l = fview s l)"
proof -
  note f = file_readyD [OF assms(1)]
  let ?k = "length (inode_lbas (ino s idx) (fview s))"
  let ?need = "if n \<noteq> 0 then (n + 512 - 1) div 512 else 0 :: u32"
  have ok: "inode_ok (boot s) (ino s idx) (fview s)" using f(10) by (simp add: file_ok_def)
  obtain s1 where c: "inode_sector_count (ino s idx) s = (of_nat ?k, s1)" "fs_io_ff s1" "fview s1 = fview s" "same_meta s s1"
    by (rule inode_sector_count_eq [OF f(7) ok])
  have a: "n + 512 - 1 = n + 511" by simp
  have "unat ((n + 511) div 512) = (unat n + 511) div 512" using assms(2) by (simp add: unat_div unat_word_ariths)
  then have "unat ?need = ?k" using assms(3) unfolding a by auto
  then have need: "?need = of_nat ?k" by (simp only: word_unat_eq_iff unat_of_nat32 unat_lt32 flip: \<open>unat ?need = ?k\<close>)
  have bm: "bitmap s \<noteq> None" using f(8) by (simp add: meta_layout_def)
  have i1: "ino s1 idx = ino s idx" by (simp add: meta_ofD(1) [OF same_metaD(2) [OF c(4)]])
  have "x \<le> 512 * ((x + 511) div 512)" for x :: nat
    using div_mult_mod_eq [of "x + 511" 512] mod_less_divisor [of 512 "x + 511"] by linarith
  then have sz: "unat n \<le> 512 * ?k" unfolding assms(3) [symmetric] by simp
  have ok1: "file_ok (boot s) (ino s idx) (fview s1)" "inode_lbas (ino s idx) (fview s1) = inode_lbas (ino s idx) (fview s)"
    using f(10) c(3) by simp_all
  from file_ready_step [OF assms(1) c(4,2) ok1 sz, of "now s1"] obtain s' where
    s': "fs_persist_meta (put_ino idx ((ino s1 idx)\<lparr>i_size := n, i_mtime := now s1, i_ctime := now s1\<rparr>) s1) = (True, s')"
      "file_ready idx s'" "ino s' idx = (ino s idx)\<lparr>i_size := n, i_mtime := now s1, i_ctime := now s1\<rparr>"
      "file_bytes (ino s' idx) (fview s') = file_bytes (ino s idx) (fview s1)"
      "\<forall>l. l \<notin> meta_area s \<longrightarrow> fview s' l = fview s1 l"
      "boot s' = (boot s)\<lparr>b_log_next := 0\<rparr>"
      "meta_of s' = meta_of (put_ino idx ((ino s1 idx)\<lparr>i_size := n, i_mtime := now s1, i_ctime := now s1\<rparr>) s1)"
    by blast
  have "fs_index_truncate idx n s = (True, s')"
    using f(1,3,5) s'(1) c(1) unfolding fs_index_truncate_def Let_def need if_not_P [OF bm] by (simp add: attempt_def)
  then show ?thesis using s' c(3) file_frame_step [OF c(4) s'(6,7)] by simp
qed

lemma fs_index_write_in_place:
  assumes "file_ready idx s" and "unat off + length bs \<le> unat (i_size (ino s idx))"
  shows "\<exists>s'. fs_index_write idx off bs s = (Some (length bs), s') \<and> file_ready idx s' \<and>
    file_bytes (ino s' idx) (fview s') = splice (unat off) bs (file_bytes (ino s idx) (fview s)) \<and>
    i_size (ino s' idx) = i_size (ino s idx) \<and>
    ino s' idx = (ino s idx)\<lparr>i_mtime := i_mtime (ino s' idx), i_ctime := i_ctime (ino s' idx)\<rparr> \<and> file_frame idx s s' \<and>
    (\<forall>l. l \<notin> set (inode_lbas (ino s idx) (fview s)) \<union> meta_area s \<longrightarrow> fview s' l = fview s l)"
proof -
  note f = file_readyD [OF assms(1)]
  let ?fin = "off + of_nat (length bs) :: u32"
  have lt: "unat off + length bs < 2 ^ 32" using assms(2) unat_lt32 [of "i_size (ino s idx)"] by simp
  then have "unat ?fin = unat off + length bs" by (simp add: unat_word_ariths unat_of_nat32)
  then have g: "\<not> ?fin < off" "\<not> ?fin > i_size (ino s idx)" using assms(2) by (simp_all add: word_less_nat_alt)
  show ?thesis
  proof (cases "bs = []")
    case True
    with f assms(1) g show ?thesis
      by (intro exI [of _ s]) (simp add: fs_index_write_def Let_def splice_def)
  next
    case False
    have p: "unat off + length bs \<le> 512 * length (inode_lbas (ino s idx) (fview s))" using assms(2) f(13) by simp
    obtain s1 where w: "write_loop (ino s idx) (unat off) bs s = (True, s1)" "fs_io_ff s1" "same_meta s s1"
        "file_ok (boot s) (ino s idx) (fview s1)" "inode_lbas (ino s idx) (fview s1) = inode_lbas (ino s idx) (fview s)"
        "file_bytes (ino s idx) (fview s1) = splice (unat off) bs (file_bytes (ino s idx) (fview s))"
        "\<forall>l. l \<notin> set (inode_lbas (ino s idx) (fview s)) \<longrightarrow> fview s1 l = fview s l"
      using write_loop_correct [OF f(7,10) p] by blast
    obtain s2 where y: "d_sync s1 = (True, s2)" "fs_io_ff s2" "fview s2 = fview s1"
      by (rule dr.sync_eq [OF w(2)])
    have sm: "same_meta s s2" using same_meta_trans [OF w(3) io_same_meta(3) [OF y(1)]] .
    have sz: "(ino s idx)\<lparr>i_size := i_size (ino s idx), i_mtime := t, i_ctime := t\<rparr> =
        (ino s idx)\<lparr>i_mtime := t, i_ctime := t\<rparr>" "ino s2 idx = ino s idx" for t
      by (simp_all add: meta_ofD(1) [OF same_metaD(2) [OF sm]])
    from file_ready_step [OF assms(1) sm y(2) _ _ f(13), of "now s2"] w(4,5) obtain s' where
      s': "fs_persist_meta (put_ino idx ((ino s2 idx)\<lparr>i_mtime := now s2, i_ctime := now s2\<rparr>) s2) = (True, s')"
        "file_ready idx s'" "ino s' idx = (ino s idx)\<lparr>i_mtime := now s2, i_ctime := now s2\<rparr>"
        "file_bytes (ino s' idx) (fview s') = file_bytes (ino s idx) (fview s1)"
        "\<forall>l. l \<notin> meta_area s \<longrightarrow> fview s' l = fview s1 l"
        "boot s' = (boot s)\<lparr>b_log_next := 0\<rparr>"
        "meta_of s' = meta_of (put_ino idx ((ino s2 idx)\<lparr>i_mtime := now s2, i_ctime := now s2\<rparr>) s2)"
      unfolding y(3) sz by blast
    have "fs_index_write idx off bs s = (Some (length bs), s')"
      using f(1,3,4,5) g False w(1) y(1) s'(1) by (simp add: fs_index_write_def Let_def attempt_def)
    then show ?thesis using s' w(6,7) file_frame_step [OF sm s'(6,7)] by auto
  qed
qed

text \<open>
  C5: reading back a write. On a file in order, writing bytes within the file's size succeeds,
  a read of the same range returns exactly those bytes, a read of the whole file returns the
  old contents with that range replaced, and no sector outside the file and the metadata
  changes.
\<close>

theorem fs_index_write_read:
  assumes "file_ready idx s" and "unat off + length bs \<le> unat (i_size (ino s idx))"
  shows "\<exists>s'. fs_index_write idx off bs s = (Some (length bs), s') \<and>
    fst (fs_index_read idx off (length bs) s') = Some bs \<and>
    fst (fs_index_read idx 0 (unat (i_size (ino s idx))) s') =
      Some (take (unat (i_size (ino s idx))) (splice (unat off) bs (file_bytes (ino s idx) (fview s)))) \<and>
    (\<forall>l. l \<notin> set (inode_lbas (ino s idx) (fview s)) \<union> meta_area s \<longrightarrow> fview s' l = fview s l)"
proof -
  from fs_index_write_in_place [OF assms] obtain s' where
    w: "fs_index_write idx off bs s = (Some (length bs), s')" "file_ready idx s'"
      "file_bytes (ino s' idx) (fview s') = splice (unat off) bs (file_bytes (ino s idx) (fview s))"
      "i_size (ino s' idx) = i_size (ino s idx)"
      "\<forall>l. l \<notin> set (inode_lbas (ino s idx) (fview s)) \<union> meta_area s \<longrightarrow> fview s' l = fview s l" by blast
  have "unat off + length bs \<le> length (file_bytes (ino s idx) (fview s))"
    using assms(2) file_readyD(13) [OF assms(1)] length_file_bytes [OF file_readyD(10) [OF assms(1)]] by simp
  then have "take (length bs) (drop (unat off) (file_bytes (ino s' idx) (fview s'))) = bs"
    unfolding w(3) by (rule splice_read)
  with fs_index_read_bytes [OF w(2), of off "length bs"] fs_index_read_bytes [OF w(2), of 0 "unat (i_size (ino s idx))"] assms(2) w
  show ?thesis by auto
qed


text \<open>A file system with room for data behind the largest log, with one file of two sectors and
  600 bytes as inode 1; the caller of the second one has user id 7.\<close>

definition file_inode :: fs_inode where
  "file_inode = zero_inode\<lparr>i_flags := FS_FLAG_OCCUPIED, i_mode := 0x180, i_size := 600,
     i_direct := [\<lparr>e_lba = 40, e_count = 2\<rparr>, no_extent, no_extent, no_extent]\<rparr>"

definition file_fs :: "(u32 \<Rightarrow> sector) fs" where
  "file_fs = put_ino 1 file_inode (small_fs\<lparr>boot := small_boot\<lparr>b_total := 64, b_data_start := 40\<rparr>\<rparr>)"

definition file_fs7 :: "(u32 \<Rightarrow> sector) fs" where
  "file_fs7 = file_fs\<lparr>task_cred := Some (7, 7)\<rparr>"

lemma file_fs_layout: "meta_layout file_fs" "meta_area file_fs = meta_area small_fs" "log_room file_fs"
proof -
  have t: "tsecs file_fs = tsecs small_fs" "bsecs file_fs = bsecs small_fs" "tsecs file_fs = 2" "bitmap file_fs = bitmap small_fs"
    by (simp_all add: file_fs_def small_fs_def small_boot_def fs_inode_sectors_def Let_def)
  have b: "b_inode_table (boot file_fs) = b_inode_table (boot small_fs)" "b_log_start (boot file_fs) = b_log_start (boot small_fs)"
      "b_bitmap_sector (boot file_fs) = b_bitmap_sector (boot small_fs)" "b_log_size (boot file_fs) = 4"
    by (simp_all add: file_fs_def small_fs_def small_boot_def)
  show "meta_layout file_fs" using small_fs_layout
    unfolding meta_layout_def Let_def t(1,2,4) by (simp add: b log_area_def)
  show "meta_area file_fs = meta_area small_fs" by (simp add: meta_area_def t(1,2) b log_area_def)
  have "length (meta_txn file_fs) = 3" unfolding meta_txn_def Let_def t(3,4) by (simp add: small_fs_def file_fs_def)
  then show "log_room file_fs" by (simp add: log_room_def b)
qed

lemma small_meta_area: "x \<in> meta_area small_fs \<Longrightarrow> unat x < 40"
proof -
  have "unat x < 40" if "x \<in> log_area (boot small_fs) 32" for x
  proof -
    from that obtain i where "x = of_nat (i + 4)" "i \<le> 32"
      by (auto simp: log_area_def small_fs_def small_boot_def add.commute)
    then show ?thesis by (simp add: unat_of_nat32 del: of_nat_add)
  qed
  moreover have "unat x < 40" if "x \<in> {0} \<union> area (b_inode_table (boot small_fs)) (tsecs small_fs) \<union>
      area (b_bitmap_sector (boot small_fs)) (bsecs small_fs)" for x
  proof -
    have t: "tsecs small_fs = 2" "bsecs small_fs = 1" "b_inode_table (boot small_fs) = 1" "b_bitmap_sector (boot small_fs) = 3"
      by (simp_all add: small_fs_def small_boot_def fs_inode_sectors_def Let_def)
    have a: "{0..<2 :: nat} = {0, 1}" by auto
    from that show ?thesis unfolding area_def t a by auto
  qed
  ultimately show "x \<in> meta_area small_fs \<Longrightarrow> unat x < 40" unfolding meta_area_def by fastforce
qed

lemma small_fs_view: "fview small_fs l = replicate 512 0"
proof -
  have "fview small_fs = cmedia cache_at_boot"
    unfolding small_fs_def cache_at_boot_def by (simp add: fs_cache_init_inv(2) perfect_disk_ok) (simp add: fs_cache_init_def)
  then show ?thesis by (simp add: cache_at_boot_def fs_cache_init_def perfect_disk_def)
qed

lemma file_fs_ino: "ino file_fs 1 = file_inode" "ino file_fs7 1 = file_inode"
  by (simp_all add: file_fs_def file_fs7_def small_fs_def put_ino_def)

lemma file_fs_ready: "file_ready 1 file_fs"
proof -
  note i = file_fs_ino(1)
  have v: "fview file_fs = fview small_fs" "fs_io_ff file_fs"
    using small_fs_io(2) by (simp_all add: file_fs_def fs_io_ff_def)
  have l: "inode_lbas file_inode w = [40, 41]" for w
    by (simp add: file_inode_def zero_inode_def inode_lbas_def inode_extents_def extent_lbas_def upt_rec)
  have s: "fview small_fs l = replicate 512 0" for l
    using small_fs_view by simp
  have "file_ok (boot file_fs) file_inode (fview file_fs)"
    by (simp add: file_ok_def inode_ok_def l v(1) s)
       (simp add: file_inode_def zero_inode_def inode_extents_def extent_ok_def file_fs_def small_boot_def)
  moreover have "40 \<notin> meta_area small_fs" "41 \<notin> meta_area small_fs" using small_meta_area by fastforce+
  moreover have "length (inodes file_fs) = FS_MAX_INODES" "fs_current_uid file_fs = 0"
    by (simp_all add: file_fs_def) (simp_all add: small_fs_def fs_current_uid_def)
  moreover have "iflag file_inode FS_FLAG_OCCUPIED" "\<not> iflag file_inode FS_FLAG_SPECIAL" "i_size file_inode = 600"
      "i_indirect file_inode = 0"
    by (simp_all add: file_inode_def zero_inode_def iflag_def has_flag_def)
  ultimately show ?thesis
    using file_fs_layout v(2) unfolding file_ready_def fs_access_ok_def i l
    by (simp add: ino_range_def)
qed

theorem fs_index_write_read_witness:
  "\<exists>s'. fs_index_write 1 510 [1, 2, 3] file_fs = (Some 3, s') \<and> fst (fs_index_read 1 510 3 s') = Some [1, 2, 3]"
proof -
  have n: "length [1, 2, 3 :: u8] = 3" by simp
  have "i_size (ino file_fs 1) = 600" unfolding file_fs_ino by (simp add: file_inode_def)
  with fs_index_write_read [OF file_fs_ready, of 510 "[1, 2, 3]", unfolded n] show ?thesis by auto
qed


end
