(* ===== verification/KFsDir.thy ===== *)
theory KFsDir
  imports KFsInode
begin

text \<open>
  Directories of src/kernel/fs.cpp. A directory file is a sequence of records: the inode
  number, the length of the name, the name, padded to four bytes. The functions read the whole
  directory into a heap buffer and walk it.
\<close>

text \<open>The bytes of a C string.\<close>

definition cbytes :: "string \<Rightarrow> u8 list" where
  "cbytes n = map of_char n"

definition cstring :: "u8 list \<Rightarrow> string" where
  "cstring bs = map (\<lambda>b. char_of (unat b)) (takeWhile (\<lambda>b. b \<noteq> 0) bs)"

text \<open>\<^verbatim>\<open>p = malloc(n); if (!p) return e; ... free(p); return r;\<close>\<close>

definition with_buf :: "nat \<Rightarrow> 'a \<Rightarrow> ('d fs \<Rightarrow> 'a \<times> 'd fs) \<Rightarrow> 'd fs \<Rightarrow> 'a \<times> 'd fs" where
  "with_buf n e body s =
     (case fs_malloc n s of
        (None, s) \<Rightarrow> (e, s)
      | (Some p, s) \<Rightarrow> (case body s of (r, s) \<Rightarrow> (r, fs_free p s)))"

definition fill :: "'d fs \<Rightarrow> nat \<Rightarrow> u8 list \<Rightarrow> u8 list" where
  "fill s n bs = bs @ map (junk s) [length bs..<n]"

definition dir_logical_size :: "int \<Rightarrow> 'd fs \<Rightarrow> u32 \<times> 'd fs" where
  "dir_logical_size dir s =
     (if \<not> ino_range dir then (0, s)
      else case inode_byte_capacity (ino s dir) s of
        (cap, s) \<Rightarrow>
          (let n = i_size (ino s dir); n = (if n > cap then cap else n)
           in (if n > 65536 then 65536 else n, s)))"

abbreviation (input) FS_DIRENT_HDR :: nat where "FS_DIRENT_HDR \<equiv> 5"

text \<open>The length of a record, \<^verbatim>\<open>(FS_DIRENT_HDR + nl + 3u) & ~3u\<close>.\<close>

definition rec_len :: "nat \<Rightarrow> nat" where
  "rec_len nl = (FS_DIRENT_HDR + nl + 3) div 4 * 4"

text \<open>Offsets stay below \<open>65536 + 264\<close>, so the sums of dirent_next do not wrap.\<close>

definition dirent_next :: "nat \<Rightarrow> nat \<Rightarrow> u8 list \<Rightarrow> (u32 \<times> nat \<times> nat) option" where
  "dirent_next off n blob =
     (if off + FS_DIRENT_HDR > n then None
      else let num = get32 blob off; nl = unat (blob ! (off + 4)); rec = rec_len nl in
        if rec < FS_DIRENT_HDR then None
        else if off + rec > n then None
        else if nl \<noteq> 0 \<and> off + FS_DIRENT_HDR + nl > n then None
        else Some (num, nl, rec))"

lemma dirent_next_pos: "dirent_next off n blob = Some (i, nl, rec) \<Longrightarrow> 0 < rec"
  by (auto simp: dirent_next_def Let_def split: if_splits)

text \<open>The records that the loop \<^verbatim>\<open>while (off < size) { if (dirent_next(...) != 0) break; ... off += rec; }\<close>
  visits, each with its offset.\<close>

function dirents :: "nat \<Rightarrow> nat \<Rightarrow> u8 list \<Rightarrow> (nat \<times> u32 \<times> nat \<times> nat) list" where
  "dirents off n blob =
     (if off < n then
        (case dirent_next off n blob of
           None \<Rightarrow> []
         | Some (num, nl, rec) \<Rightarrow> (off, num, nl, rec) # dirents (off + rec) n blob)
      else [])"
  by pat_completeness auto

termination
  by (relation "measure (\<lambda>(off, n, blob). n - off)") (auto dest: dirent_next_pos)

declare dirents.simps [simp del]

definition is_entry :: "u8 list \<Rightarrow> string \<Rightarrow> nat \<times> u32 \<times> nat \<times> nat \<Rightarrow> bool" where
  "is_entry blob name = (\<lambda>(off, num, nl, rec).
     num \<noteq> 0 \<and> nl = length name \<and> take nl (drop (off + 5) blob) = cbytes name)"

definition dir_find_name :: "int \<Rightarrow> string \<Rightarrow> 'd fs \<Rightarrow> int \<times> 'd fs" where
  "dir_find_name dir name s =
     (if \<not> ino_range dir \<or> \<not> iflag (ino s dir) FS_FLAG_DIRECTORY then (-1, s)
      else case dir_logical_size dir s of
        (n, s) \<Rightarrow>
          if n = 0 then (-1, s)
          else with_buf (unat n) (-1) (\<lambda>s.
            case fs_index_read dir 0 (unat n) s of
              (None, s) \<Rightarrow> (-1, s)
            | (Some bs, s) \<Rightarrow>
                (let blob = fill s (unat n) bs in
                 case find (is_entry blob name) (dirents 0 (unat n) blob) of
                   None \<Rightarrow> (-1, s)
                 | Some (off, num, nl, rec) \<Rightarrow> (sint num, s))) s)"

definition dir_add_entry :: "int \<Rightarrow> u32 \<Rightarrow> string \<Rightarrow> 'd fs \<Rightarrow> bool \<times> 'd fs" where
  "dir_add_entry dir child name s =
     (let nlen = length name in
      if nlen = 0 \<or> nlen > FS_FILENAME_LEN then (False, s)
      else case dir_find_name dir name s of
        (r, s) \<Rightarrow>
          if r \<ge> 0 then (False, s)
          else case dir_logical_size dir s of
            (old, s) \<Rightarrow>
              (let rec = rec_len nlen; total = old + of_nat rec in
               with_buf (unat total) False (\<lambda>s.
                 case (if old \<noteq> 0 then fs_index_read dir 0 (unat old) s else (Some [], s)) of
                   (None, s) \<Rightarrow> (False, s)
                 | (Some bs, s) \<Rightarrow>
                     (let blob = bs @ replicate (unat old - length bs) 0 @ le32 child @ [of_nat nlen] @ cbytes name @
                                 replicate (rec - FS_DIRENT_HDR - nlen) 0 in
                      case fs_index_truncate dir total s of
                        (False, s) \<Rightarrow> (False, s)
                      | (True, s) \<Rightarrow>
                          (case fs_index_write dir 0 blob s of (wr, s) \<Rightarrow> (wr = Some (unat total), s)))) s))"

definition dir_remove_entry :: "int \<Rightarrow> string \<Rightarrow> 'd fs \<Rightarrow> bool \<times> 'd fs" where
  "dir_remove_entry dir name s =
     (case dir_logical_size dir s of
        (n, s) \<Rightarrow>
          if n = 0 then (False, s)
          else with_buf (unat n) False (\<lambda>s.
            case fs_index_read dir 0 (unat n) s of
              (None, s) \<Rightarrow> (False, s)
            | (Some bs, s) \<Rightarrow>
                (let blob = fill s (unat n) bs in
                 case find (is_entry blob name) (dirents 0 (unat n) blob) of
                   None \<Rightarrow> (False, s)
                 | Some (off, num, nl, rec) \<Rightarrow>
                     (let blob = take off blob @ drop (off + rec) blob; m = unat n - rec in
                      case fs_index_truncate dir (of_nat m) s of
                        (False, s) \<Rightarrow> (False, s)
                      | (True, s) \<Rightarrow>
                          if m \<noteq> 0 then (case fs_index_write dir 0 blob s of (wr, s) \<Rightarrow> (wr = Some m, s))
                          else (True, s)))) s)"

definition dir_is_empty :: "int \<Rightarrow> 'd fs \<Rightarrow> bool \<times> 'd fs" where
  "dir_is_empty dir s =
     (case dir_logical_size dir s of
        (n, s) \<Rightarrow>
          if n = 0 then (True, s)
          else with_buf (unat n) False (\<lambda>s.
            case fs_index_read dir 0 (unat n) s of
              (None, s) \<Rightarrow> (False, s)
            | (Some bs, s) \<Rightarrow>
                (list_all (\<lambda>(off, num, nl, rec). num = 0) (dirents 0 (unat n) (fill s (unat n) bs)), s)) s)"


section \<open>Records and their bytes\<close>

lemma of_char_u8: "(of_char c :: u8) = of_nat (of_char c)"
  by (simp add: of_char_def)

lemma cbytes_inject [simp]: "cbytes a = cbytes b \<longleftrightarrow> a = b"
proof -
  have "inj (of_char :: char \<Rightarrow> u8)"
  proof (rule injI)
    fix c d :: char
    assume "(of_char c :: u8) = of_char d"
    then have "unat (of_nat (of_char c) :: u8) = unat (of_nat (of_char d) :: u8)" by (simp add: of_char_u8)
    then have "(of_char c :: nat) = of_char d" by (simp add: unat_of_nat of_char_mod_256)
    then show "c = d" by simp
  qed
  then show ?thesis unfolding cbytes_def by (simp add: inj_map_eq_map)
qed

lemma length_cbytes [simp]: "length (cbytes n) = length n"
  by (simp add: cbytes_def)

lemma rec_len_bounds: "5 + n \<le> rec_len n" "rec_len n \<le> n + 8" "0 < rec_len n"
  unfolding rec_len_def by presburger+

text \<open>A directory as a list of numbers and names; the bytes of one record and of all.\<close>

type_synonym entry = "u32 \<times> string"

definition enc_dirent :: "entry \<Rightarrow> u8 list" where
  "enc_dirent = (\<lambda>(i, n). le32 i @ [of_nat (length n)] @ cbytes n @ replicate (rec_len (length n) - 5 - length n) 0)"

definition enc_dir :: "entry list \<Rightarrow> u8 list" where
  "enc_dir es = concat (map enc_dirent es)"

definition names_ok :: "entry list \<Rightarrow> bool" where
  "names_ok es \<longleftrightarrow> (\<forall>e \<in> set es. length (snd e) \<le> 255)"

lemma length_enc_dirent [simp]: "length (enc_dirent (i, n)) = rec_len (length n)"
  using rec_len_bounds [of "length n"] by (simp add: enc_dirent_def)

lemma enc_dir_simps [simp]:
  "enc_dir [] = []" "enc_dir (e # es) = enc_dirent e @ enc_dir es" "enc_dir (es @ fs) = enc_dir es @ enc_dir fs"
  by (simp_all add: enc_dir_def)

lemma dirent_next_enc:
  assumes "length n \<le> 255" and "N = length (pre @ enc_dirent (i, n) @ post)"
  shows "dirent_next (length pre) N (pre @ enc_dirent (i, n) @ post) = Some (i, length n, rec_len (length n))"
proof -
  let ?blob = "pre @ enc_dirent (i, n) @ post"
  have g: "get32 ?blob (length pre) = i"
    using get32_le32 [of "length pre" pre i] by (simp add: enc_dirent_def)
  have "?blob ! (length pre + 4) = of_nat (length n)"
    by (simp add: nth_append enc_dirent_def)
  then have l: "unat (?blob ! (length pre + 4)) = length n" using assms(1) by (simp add: unat_of_nat)
  show ?thesis
    unfolding dirent_next_def Let_def g l using rec_len_bounds [of "length n"] by (simp add: assms(2))
qed

text \<open>The walk of the bytes of a directory visits its records in order.\<close>

fun walk :: "nat \<Rightarrow> entry list \<Rightarrow> (nat \<times> u32 \<times> nat \<times> nat) list" where
  "walk off [] = []"
| "walk off ((i, n) # es) = (off, i, length n, rec_len (length n)) # walk (off + rec_len (length n)) es"

lemma dirents_enc:
  assumes "names_ok es" and "N = length (pre @ enc_dir es)"
  shows "dirents (length pre) N (pre @ enc_dir es) = walk (length pre) es"
  using assms
proof (induction es arbitrary: pre)
  case Nil
  then show ?case by (simp add: dirents.simps)
next
  case (Cons e es)
  obtain i n where e: "e = (i, n)" by (cases e)
  have l: "length n \<le> 255" "names_ok es" using Cons.prems(1) by (auto simp: names_ok_def e)
  have d: "dirent_next (length pre) N (pre @ enc_dir (e # es)) = Some (i, length n, rec_len (length n))"
    using dirent_next_enc [OF l(1), of N pre i "enc_dir es"] Cons.prems(2) by (simp add: e)
  have lt: "length pre < N" using Cons.prems(2) rec_len_bounds(3) [of "length n"] by (simp add: e)
  have "dirents (length pre + rec_len (length n)) N (pre @ enc_dir (e # es)) = walk (length pre + rec_len (length n)) es"
    using Cons.IH [OF l(2), of "pre @ enc_dirent (i, n)"] Cons.prems(2) by (simp add: e)
  with d lt show ?case by (simp add: dirents.simps [of "length pre"] e)
qed

lemma enc_dirent_name: "take (length n) (drop (length pre + 5) (pre @ enc_dirent (i, n) @ post)) = cbytes n"
  by (simp add: enc_dirent_def le32_def)

definition entry_of :: "string \<Rightarrow> entry \<Rightarrow> bool" where
  "entry_of name e \<longleftrightarrow> fst e \<noteq> 0 \<and> snd e = name"

lemma is_entry_enc:
  "is_entry (pre @ enc_dirent (i, n) @ post) name (length pre, i, length n, r) \<longleftrightarrow> entry_of name (i, n)"
  using enc_dirent_name [of n pre i post] by (auto simp: is_entry_def entry_of_def)

text \<open>The first record of a name: what comes before, the record, what comes after.\<close>

lemma find_walk:
  assumes "names_ok es"
  shows "find (is_entry (pre @ enc_dir es) name) (walk (length pre) es) =
    (case find (entry_of name) es of
       None \<Rightarrow> None
     | Some (i, n) \<Rightarrow> Some (length (pre @ enc_dir (takeWhile (\<lambda>e. \<not> entry_of name e) es)), i, length n, rec_len (length n)))"
  using assms
proof (induction es arbitrary: pre)
  case (Cons e es)
  obtain i n where e: "e = (i, n)" by (cases e)
  have "names_ok es" using Cons.prems by (simp add: names_ok_def)
  from Cons.IH [OF this, of "pre @ enc_dirent (i, n)"] show ?case
    using is_entry_enc [of pre i n "enc_dir es" name "rec_len (length n)"] by (auto simp: e split: option.split)
qed simp

lemma find_takeWhile:
  "find P xs = Some x \<Longrightarrow> xs = takeWhile (\<lambda>y. \<not> P y) xs @ x # tl (dropWhile (\<lambda>y. \<not> P y) xs) \<and> P x"
  by (induction xs) (auto split: if_splits)

text \<open>
  Fact: the directory format. On a directory built from records with names of at most 255
  bytes, the walk that all directory functions share visits exactly those records, and the
  search for a name stops at the first record in use with that name.
\<close>

theorem dir_walk_roundtrip:
  assumes "names_ok es"
  shows "map (\<lambda>(off, num, nl, rec). (num, take nl (drop (off + 5) (enc_dir es)))) (dirents 0 (length (enc_dir es)) (enc_dir es)) =
      map (\<lambda>(i, n). (i, cbytes n)) es \<and>
    map_option (fst \<circ> snd) (find (is_entry (enc_dir es) name) (dirents 0 (length (enc_dir es)) (enc_dir es))) =
      map_option fst (find (entry_of name) es)"
proof -
  have d: "dirents 0 (length (enc_dir es)) (enc_dir es) = walk 0 es"
    using dirents_enc [OF assms, of _ "[]"] by simp
  have "map (\<lambda>(off, num, nl, rec). (num, take nl (drop (off + 5) (pre @ enc_dir es)))) (walk (length pre) es) =
      map (\<lambda>(i, n). (i, cbytes n)) es" for pre
  proof (induction es arbitrary: pre)
    case (Cons e es)
    obtain i n where e: "e = (i, n)" by (cases e)
    from Cons.IH [of "pre @ enc_dirent (i, n)"] show ?case
      using enc_dirent_name [of n pre i "enc_dir es"] by (simp add: e)
  qed simp
  from this [of "[]"] find_walk [OF assms, of "[]" name] show ?thesis
    unfolding d by (auto split: option.split)
qed

theorem dir_walk_roundtrip_witness:
  "map_option (fst \<circ> snd) (find (is_entry (enc_dir [(3, ''bin''), (0, ''x''), (4, ''x'')]) ''x'')
      (dirents 0 (length (enc_dir [(3, ''bin''), (0, ''x''), (4, ''x'')])) (enc_dir [(3, ''bin''), (0, ''x''), (4, ''x'')]))) =
    Some 4"
proof -
  have "names_ok [(3, ''bin''), (0, ''x''), (4, ''x'')]" by (simp add: names_ok_def)
  from dir_walk_roundtrip [OF this, of "''x''"] show ?thesis by (simp add: entry_of_def)
qed


section \<open>Directories in order\<close>

text \<open>A heap with room for buffers of up to N bytes whose free blocks are coalesced.\<close>

definition heap_room :: "nat \<Rightarrow> heap \<Rightarrow> bool" where
  "heap_room N h \<longleftrightarrow> heap_inv h \<and> ready h \<and> no_adjacent_free (blocks h) \<and> (\<forall>n. 0 < n \<and> n \<le> N \<longrightarrow> fst (malloc n h) \<noteq> None)"

lemma with_buf_eq:
  assumes "heap_room N (hp s)" and "0 < n" and "n \<le> N"
    and "\<And>h. \<exists>s2. body (s\<lparr>hp := h\<rparr>) = (r, s2) \<and> hp s2 = h \<and> Q (s2\<lparr>hp := hp s\<rparr>)"
  shows "\<exists>s'. with_buf n e body s = (r, s') \<and> Q s' \<and> hp s' = hp s"
proof -
  obtain p h where m: "malloc n (hp s) = (Some p, h)"
    using assms(1-3) by (cases "malloc n (hp s)") (auto simp: heap_room_def)
  from assms(4) [of h] obtain s2 where b: "body (s\<lparr>hp := h\<rparr>) = (r, s2)" "hp s2 = h" "Q (s2\<lparr>hp := hp s\<rparr>)" by blast
  have "free (Some (int p)) h = Some (hp s)"
    using malloc_free_id [OF _ _ _ m] assms(1) by (simp add: heap_room_def)
  with m b show ?thesis by (simp add: with_buf_def fs_malloc_def fs_free_def)
qed

lemma hp_indep [simp]:
  "fs_current_uid (s\<lparr>hp := h\<rparr>) = fs_current_uid s" "fs_current_gid (s\<lparr>hp := h\<rparr>) = fs_current_gid s"
  "fs_access_ok idx w (s\<lparr>hp := h\<rparr>) = fs_access_ok idx w s" "fs_io_ff (s\<lparr>hp := h\<rparr>) = fs_io_ff s"
  "meta_area (s\<lparr>hp := h\<rparr>) = meta_area s" "meta_layout (s\<lparr>hp := h\<rparr>) = meta_layout s"
  "log_room (s\<lparr>hp := h\<rparr>) = log_room s"
proof -
  show u: "fs_current_uid (s\<lparr>hp := h\<rparr>) = fs_current_uid s" "fs_current_gid (s\<lparr>hp := h\<rparr>) = fs_current_gid s"
    by (simp_all add: fs_current_uid_def fs_current_gid_def split: option.split)
  then show "fs_access_ok idx w (s\<lparr>hp := h\<rparr>) = fs_access_ok idx w s" by (simp add: fs_access_ok_def)
qed (simp_all add: fs_io_ff_def meta_area_def meta_layout_def log_room_def meta_txn_def inode_bytes_def Let_def split: option.split)

lemma cache_indep [simp]:
  "meta_area (s\<lparr>cache := c\<rparr>) = meta_area s" "meta_layout (s\<lparr>cache := c\<rparr>) = meta_layout s"
  "log_room (s\<lparr>cache := c\<rparr>) = log_room s"
  by (simp_all add: meta_area_def meta_layout_def log_room_def meta_txn_def inode_bytes_def Let_def split: option.split)

lemma file_ready_hp [simp]: "file_ready idx (s\<lparr>hp := h\<rparr>) = file_ready idx s"
  by (simp add: file_ready_def)

lemma file_ready_same:
  assumes "file_ready idx s" and "same_meta s s'" and "fs_io_ff s'" and "fview s' = fview s"
  shows "file_ready idx s'"
proof -
  note b = same_metaD(1) [OF assms(2)] and m = meta_ofD [OF same_metaD(2) [OF assms(2)]]
  have "meta_area s' = meta_area s" "meta_layout s' = meta_layout s" "log_room s' = log_room s"
    by (simp_all add: meta_area_def meta_layout_def log_room_def meta_txn_def Let_def b m inode_bytes_def split: option.split)
  moreover have "fs_access_ok idx w s' = fs_access_ok idx w s" for w
    by (simp add: fs_access_ok_def fs_current_uid_def fs_current_gid_def m cong: option.case_cong)
  ultimately show ?thesis using assms(1,3) unfolding file_ready_def by (simp add: assms(4) b m)
qed

definition dir_ready :: "int \<Rightarrow> entry list \<Rightarrow> 'd fs \<Rightarrow> bool" where
  "dir_ready d es s \<longleftrightarrow> file_ready d s \<and> iflag (ino s d) FS_FLAG_DIRECTORY \<and> names_ok es \<and>
     unat (i_size (ino s d)) = length (enc_dir es) \<and> length (enc_dir es) \<le> 65536 \<and>
     take (length (enc_dir es)) (file_bytes (ino s d) (fview s)) = enc_dir es"

lemma dir_ready_same:
  assumes "dir_ready d es s" and "same_meta s s'" and "fs_io_ff s'" and "fview s' = fview s"
  shows "dir_ready d es s'"
  using assms(1) file_ready_same [OF _ assms(2-4)] assms(4)
  by (simp add: dir_ready_def meta_ofD(1) [OF same_metaD(2) [OF assms(2)]])

lemma same_meta_hp: "same_meta (s\<lparr>hp := h\<rparr>) s2 \<Longrightarrow> hp s2 = h \<and> same_meta s (s2\<lparr>hp := hp s\<rparr>)"
  by (simp add: same_meta_def meta_of_def)

lemma dir_logical_size_eq:
  assumes "dir_ready d es s"
  obtains s' where "dir_logical_size d s = (of_nat (length (enc_dir es)), s')" "same_meta s s'" "fs_io_ff s'" "fview s' = fview s"
proof -
  have f: "file_ready d s" and z: "unat (i_size (ino s d)) = length (enc_dir es)" "length (enc_dir es) \<le> 65536"
    using assms by (simp_all add: dir_ready_def)
  note r = file_readyD [OF f]
  have ok: "inode_ok (boot s) (ino s d) (fview s)" using r(10) by (simp add: file_ok_def)
  obtain cap s' where c: "inode_byte_capacity (ino s d) s = (cap, s')" "\<not> i_size (ino s d) > cap" "fs_io_ff s'" "fview s' = fview s" "same_meta s s'"
    by (rule inode_byte_capacity_ok [OF r(7) ok r(13)])
  have e: "i_size (ino s d) = of_nat (length (enc_dir es))"
    by (simp flip: z(1))
  have "\<not> i_size (ino s d) > 65536" using z by (simp add: word_less_nat_alt)
  with c r(1) e that show thesis
    by (simp add: dir_logical_size_def Let_def meta_ofD(1) [OF same_metaD(2) [OF c(5)]])
qed

lemma read_dir:
  assumes "dir_ready d es s"
  obtains s' where "fs_index_read d 0 (length (enc_dir es)) s = (Some (enc_dir es), s')"
    "same_meta s s'" "fs_io_ff s'" "fview s' = fview s"
proof -
  have z: "file_ready d s" "unat 0 + length (enc_dir es) \<le> unat (i_size (ino s d))" using assms by (simp_all add: dir_ready_def)
  from fs_index_read_bytes [OF z] assms that show thesis by (auto simp: dir_ready_def)
qed

lemma dir_ready_hp [simp]: "dir_ready d es (s\<lparr>hp := h\<rparr>) = dir_ready d es s"
  by (simp add: dir_ready_def)

lemma fill_exact [simp]: "n = length bs \<Longrightarrow> fill s n bs = bs"
  by (simp add: fill_def)

lemma dirents_dir: "names_ok es \<Longrightarrow> dirents 0 (length (enc_dir es)) (enc_dir es) = walk 0 es"
  using dirents_enc [of es _ "[]"] by simp

lemma find_dir:
  assumes "names_ok es"
  shows "find (is_entry (enc_dir es) name) (walk 0 es) =
    (case find (entry_of name) es of
       None \<Rightarrow> None
     | Some (i, n) \<Rightarrow> Some (length (enc_dir (takeWhile (\<lambda>e. \<not> entry_of name e) es)), i, length n, rec_len (length n)))"
  using find_walk [OF assms, of "[]" name] by (simp split: option.split)

abbreviation lookup_in :: "entry list \<Rightarrow> string \<Rightarrow> int" where
  "lookup_in es name \<equiv> (case find (entry_of name) es of None \<Rightarrow> -1 | Some e \<Rightarrow> sint (fst e))"

lemma enc_dir_empty: "enc_dir es = [] \<longleftrightarrow> es = []"
proof (cases es)
  case (Cons e es')
  then show ?thesis using rec_len_bounds(3) [of "length (snd e)"] length_enc_dirent [of "fst e" "snd e"]
    by (cases "enc_dirent e") auto
qed simp

lemma dir_find_name_eq:
  assumes "dir_ready d es s" and "heap_room 65536 (hp s)"
  shows "\<exists>s'. dir_find_name d name s = (lookup_in es name, s') \<and> same_meta s s' \<and> fs_io_ff s' \<and> fview s' = fview s"
proof -
  let ?n = "length (enc_dir es)"
  have z: "?n \<le> 65536" "names_ok es" "iflag (ino s d) FS_FLAG_DIRECTORY" "ino_range d"
    using assms(1) file_readyD(1) by (auto simp: dir_ready_def)
  then have u: "unat (of_nat ?n :: u32) = ?n" by (simp add: unat_of_nat32)
  obtain s1 where s1: "dir_logical_size d s = (of_nat ?n, s1)" "same_meta s s1" "fs_io_ff s1" "fview s1 = fview s"
    by (rule dir_logical_size_eq [OF assms(1)])
  have r1: "dir_ready d es s1" by (rule dir_ready_same [OF assms(1) s1(2-4)])
  show ?thesis
  proof (cases "es = []")
    case True
    then show ?thesis using s1 z(3,4) by (auto simp: dir_find_name_def)
  next
    case False
    then have nz: "(of_nat ?n :: u32) \<noteq> 0" "0 < ?n" using z(1) of_nat_eq32 [of ?n 0] enc_dir_empty [of es] by auto
    let ?body = "\<lambda>s. case fs_index_read d 0 ?n s of (None, s) \<Rightarrow> (- 1, s)
      | (Some bs, s) \<Rightarrow> (case find (is_entry (fill s ?n bs) name) (dirents 0 ?n (fill s ?n bs)) of
          None \<Rightarrow> (- 1, s) | Some (off, num, nl, rec) \<Rightarrow> (sint num, s))"
    have "\<exists>s2. ?body (s1\<lparr>hp := h\<rparr>) = (lookup_in es name, s2) \<and> hp s2 = h \<and> same_meta s1 (s2\<lparr>hp := hp s1\<rparr>) \<and>
        fs_io_ff (s2\<lparr>hp := hp s1\<rparr>) \<and> fview (s2\<lparr>hp := hp s1\<rparr>) = fview s1" for h
    proof -
      have "dir_ready d es (s1\<lparr>hp := h\<rparr>)" using r1 by simp
      then obtain s2 where s2: "fs_index_read d 0 ?n (s1\<lparr>hp := h\<rparr>) = (Some (enc_dir es), s2)"
          "same_meta (s1\<lparr>hp := h\<rparr>) s2" "fs_io_ff s2" "fview s2 = fview (s1\<lparr>hp := h\<rparr>)" by (rule read_dir)
      show ?thesis using s2 same_meta_hp [OF s2(2)]
        by (auto simp: dirents_dir [OF z(2)] find_dir [OF z(2)] fs_io_ff_def split: option.split)
    qed
    moreover have "heap_room 65536 (hp s1)" using assms(2) by (simp add: meta_ofD(4) [OF same_metaD(2) [OF s1(2)]])
    ultimately have "\<exists>s'. with_buf ?n (- 1) ?body s1 = (lookup_in es name, s') \<and>
        (same_meta s1 s' \<and> fs_io_ff s' \<and> fview s' = fview s1) \<and> hp s' = hp s1"
      by (intro with_buf_eq [where N = 65536]) (use nz z in simp_all)
    then obtain s' where s': "with_buf ?n (- 1) ?body s1 = (lookup_in es name, s')" "same_meta s1 s'" "fs_io_ff s'" "fview s' = fview s1"
      by blast
    have "dir_find_name d name s = with_buf ?n (- 1) ?body s1"
      using z(3,4) s1(1) nz(1) by (simp add: dir_find_name_def u Let_def cong: prod.case_cong option.case_cong)
    then show ?thesis using s' s1(4) same_meta_trans [OF s1(2) s'(2)] by auto
  qed
qed


text \<open>Rewriting a directory within its sectors, as dir_add_entry and dir_remove_entry do.\<close>

lemma file_frame_area:
  assumes "file_frame idx s s'"
  shows "meta_area s' = meta_area s"
proof -
  have b: "(boot s')\<lparr>b_log_next := 0\<rparr> = (boot s)\<lparr>b_log_next := 0\<rparr>" and m: "bitmap_sectors s' = bitmap_sectors s"
    using assms by (simp_all add: file_frame_def meta_of_def)
  have "b_inode_table (boot s') = b_inode_table (boot s)" "b_inode_slots (boot s') = b_inode_slots (boot s)"
      "b_bitmap_sector (boot s') = b_bitmap_sector (boot s)" "b_log_start (boot s') = b_log_start (boot s)"
    using arg_cong [OF b, of b_inode_table] arg_cong [OF b, of b_inode_slots] arg_cong [OF b, of b_bitmap_sector]
      arg_cong [OF b, of b_log_start] by simp_all
  then show ?thesis by (simp add: meta_area_def fs_inode_sectors_def log_area_def m)
qed

lemma file_frame_hp:
  "file_frame idx (s\<lparr>hp := h\<rparr>) s2 \<Longrightarrow> hp s2 = h \<and> file_frame idx s (s2\<lparr>hp := hp s\<rparr>)"
  by (simp add: file_frame_def meta_of_def)

definition dir_step :: "int \<Rightarrow> 'd fs \<Rightarrow> 'd fs \<Rightarrow> bool" where
  "dir_step d s s' \<longleftrightarrow> file_frame d s s' \<and> hp s' = hp s \<and>
     ino s' d = (ino s d)\<lparr>i_size := i_size (ino s' d), i_mtime := i_mtime (ino s' d), i_ctime := i_ctime (ino s' d)\<rparr> \<and>
     (\<forall>l. l \<notin> set (inode_lbas (ino s d) (fview s)) \<union> meta_area s \<longrightarrow> fview s' l = fview s l)"

lemma store_dir:
  assumes "dir_ready d es s" and "names_ok es'" and "length (enc_dir es') \<le> 65536"
    and "(length (enc_dir es') + 511) div 512 = length (inode_lbas (ino s d) (fview s))"
  shows "\<exists>s1 s'. fs_index_truncate d (of_nat (length (enc_dir es'))) s = (True, s1) \<and>
    fs_index_write d 0 (enc_dir es') s1 = (Some (length (enc_dir es')), s') \<and> dir_ready d es' s' \<and> dir_step d s s'"
proof -
  let ?N = "length (enc_dir es')" and ?L = "inode_lbas (ino s d) (fview s)"
  have u: "unat (of_nat ?N :: u32) = ?N" using assms(3) by (simp add: unat_of_nat32)
  have r: "file_ready d s" "iflag (ino s d) FS_FLAG_DIRECTORY" using assms(1) by (simp_all add: dir_ready_def)
  obtain s1 where t: "fs_index_truncate d (of_nat ?N) s = (True, s1)" "file_ready d s1"
      "file_bytes (ino s1 d) (fview s1) = file_bytes (ino s d) (fview s)"
      "ino s1 d = (ino s d)\<lparr>i_size := of_nat ?N, i_mtime := i_mtime (ino s1 d), i_ctime := i_ctime (ino s1 d)\<rparr>"
      "file_frame d s s1" "\<forall>l. l \<notin> meta_area s \<longrightarrow> fview s1 l = fview s l"
    using fs_index_truncate_in_place [OF r(1), of "of_nat ?N"] assms(3,4) unfolding u by auto
  have z1: "i_size (ino s1 d) = of_nat ?N" using arg_cong [OF t(4), of i_size] by simp
  have w1: "unat (0 :: u32) + ?N \<le> unat (i_size (ino s1 d))" by (simp add: z1 u)
  from fs_index_write_in_place [OF t(2) w1] obtain s' where
    w: "fs_index_write d 0 (enc_dir es') s1 = (Some ?N, s')" "file_ready d s'"
      "file_bytes (ino s' d) (fview s') = splice (unat (0 :: u32)) (enc_dir es') (file_bytes (ino s1 d) (fview s1))"
      "i_size (ino s' d) = i_size (ino s1 d)"
      "ino s' d = (ino s1 d)\<lparr>i_mtime := i_mtime (ino s' d), i_ctime := i_ctime (ino s' d)\<rparr>" "file_frame d s1 s'"
      "\<forall>l. l \<notin> set (inode_lbas (ino s1 d) (fview s1)) \<union> meta_area s1 \<longrightarrow> fview s' l = fview s1 l"
    by blast
  have L1: "inode_lbas (ino s1 d) v = inode_lbas (ino s d) v" "i_indirect (ino s1 d) = i_indirect (ino s d)" for v
    using arg_cong [OF t(4), of "\<lambda>i. inode_lbas i v"] arg_cong [OF t(4), of i_indirect] by simp_all
  have eq: "\<forall>l \<in> set ?L \<union> {i_indirect (ino s d)} - {0}. fview s1 l = fview s l"
    using t(6) file_readyD(11) [OF r(1)] by (simp add: disjoint_iff)
  have "inode_lbas (ino s1 d) (fview s1) = ?L"
    unfolding L1 by (rule file_cong(1) [OF file_readyD(10) [OF r(1)] eq file_readyD(12) [OF r(1)]])
  then have fr: "\<forall>l. l \<notin> set ?L \<union> meta_area s \<longrightarrow> fview s' l = fview s l"
    using w(7) t(6) file_frame_area [OF t(5)] by simp
  have "iflag (ino s' d) FS_FLAG_DIRECTORY"
    using r(2) arg_cong [OF t(4), of i_flags] arg_cong [OF w(5), of i_flags] by (simp add: iflag_def)
  then have "dir_ready d es' s'"
    using w(2,3,4) z1 u assms(2,3) by (simp add: dir_ready_def splice_def)
  moreover have "ino s' d = (ino s d)\<lparr>i_size := i_size (ino s' d), i_mtime := i_mtime (ino s' d), i_ctime := i_ctime (ino s' d)\<rparr>"
  proof -
    obtain a b where t4: "ino s1 d = (ino s d)\<lparr>i_size := of_nat ?N, i_mtime := a, i_ctime := b\<rparr>" using t(4) by blast
    obtain a' b' where w5: "ino s' d = (ino s1 d)\<lparr>i_mtime := a', i_ctime := b'\<rparr>" using w(5) by blast
    show ?thesis unfolding w5 t4 by simp
  qed
  moreover have "hp s' = hp s" using file_frame_trans [OF t(5) w(6)] by (simp add: file_frame_def meta_of_def)
  ultimately show ?thesis using t(1) w(1) fr file_frame_trans [OF t(5) w(6)] unfolding dir_step_def by blast
qed


lemma dir_step_same:
  assumes "same_meta s s1" and "fview s1 = fview s" and "dir_step d s1 s'"
  shows "dir_step d s s'"
proof -
  note m = same_metaD(1) [OF assms(1)] meta_ofD [OF same_metaD(2) [OF assms(1)]]
  have "meta_area s1 = meta_area s" by (simp add: meta_area_def m)
  then show ?thesis using assms(2,3) file_frame_trans [OF file_frame_meta [OF assms(1)]] by (auto simp: dir_step_def m)
qed

lemma dir_step_hp: "dir_step d (s\<lparr>hp := h\<rparr>) s2 \<Longrightarrow> hp s2 = h \<and> dir_step d s (s2\<lparr>hp := hp s\<rparr>)"
  using file_frame_hp [of d h s s2] by (simp add: dir_step_def)

lemma dir_add_entry_eq:
  fixes d child name es
  defines "es' \<equiv> es @ [(child, name)]"
  assumes "dir_ready d es s" and "heap_room 65536 (hp s)" and "name \<noteq> []" and "length name \<le> 255"
    and new: "\<not> list_ex (entry_of name) es" and fits: "length (enc_dir es') \<le> 65536"
      "(length (enc_dir es') + 511) div 512 = length (inode_lbas (ino s d) (fview s))"
  shows "\<exists>s'. dir_add_entry d child name s = (True, s') \<and> dir_ready d es' s' \<and> dir_step d s s'"
proof -
  let ?n = "length (enc_dir es)" and ?N = "length (enc_dir es')" and ?r = "rec_len (length name)"
  have "find (entry_of name) es = None" using new by (auto simp: find_None_iff list_ex_iff)
  with dir_find_name_eq [OF assms(2,3), of name] obtain s0 where
    s0: "dir_find_name d name s = (- 1, s0)" "same_meta s s0" "fs_io_ff s0" "fview s0 = fview s" by auto
  have r0: "dir_ready d es s0" by (rule dir_ready_same [OF assms(2) s0(2-4)])
  obtain s1 where s1: "dir_logical_size d s0 = (of_nat ?n, s1)" "same_meta s0 s1" "fs_io_ff s1" "fview s1 = fview s0"
    by (rule dir_logical_size_eq [OF r0])
  have r1: "dir_ready d es s1" by (rule dir_ready_same [OF r0 s1(2-4)])
  have sm: "same_meta s s1" by (rule same_meta_trans [OF s0(2) s1(2)])
  note i1 = meta_ofD [OF same_metaD(2) [OF sm]]
  have N: "?N = ?n + ?r" by (simp add: es'_def)
  have tot: "of_nat ?n + of_nat ?r = (of_nat ?N :: u32)" by (simp add: N)
  have u: "unat (of_nat ?N :: u32) = ?N" "unat (of_nat ?n :: u32) = ?n"
    by (rule unat_of_nat32, use fits(1) N in simp)+
  have pos: "0 < ?N" using rec_len_bounds(3) [of "length name"] N by simp
  have nm: "names_ok es'" using r1 assms(5) by (simp add: dir_ready_def names_ok_def es'_def)
  have blob: "enc_dir es @ le32 child @ [of_nat (length name)] @ cbytes name @ replicate (?r - FS_DIRENT_HDR - length name) 0 = enc_dir es'"
    by (simp add: es'_def enc_dirent_def)
  let ?body = "\<lambda>s. case (if (of_nat ?n :: u32) \<noteq> 0 then fs_index_read d 0 ?n s else (Some [], s)) of
      (None, s) \<Rightarrow> (False, s)
    | (Some bs, s) \<Rightarrow>
        (case fs_index_truncate d (of_nat ?N) s of (False, s) \<Rightarrow> (False, s)
         | (True, s) \<Rightarrow> (case fs_index_write d 0 (bs @ replicate (?n - length bs) 0 @ le32 child @ [of_nat (length name)] @ cbytes name @
               replicate (?r - FS_DIRENT_HDR - length name) 0) s of (wr, s) \<Rightarrow> (wr = Some ?N, s)))"
  have "\<exists>s2. ?body (s1\<lparr>hp := h\<rparr>) = (True, s2) \<and> hp s2 = h \<and> (dir_ready d es' (s2\<lparr>hp := hp s1\<rparr>) \<and> dir_step d s1 (s2\<lparr>hp := hp s1\<rparr>))" for h
  proof -
    have rh: "dir_ready d es (s1\<lparr>hp := h\<rparr>)" using r1 by simp
    obtain sa where sa: "(if (of_nat ?n :: u32) \<noteq> 0 then fs_index_read d 0 ?n (s1\<lparr>hp := h\<rparr>) else (Some [], s1\<lparr>hp := h\<rparr>)) = (Some (enc_dir es), sa)"
        "same_meta (s1\<lparr>hp := h\<rparr>) sa" "fs_io_ff sa" "fview sa = fview (s1\<lparr>hp := h\<rparr>)"
    proof (cases "(of_nat ?n :: u32) \<noteq> 0")
      case True
      from read_dir [OF rh] that True show ?thesis by auto
    next
      case False
      then have "?n = 0" using u(2) by simp
      with False that [of "s1\<lparr>hp := h\<rparr>"] rh show ?thesis using file_readyD(7) by (auto simp: dir_ready_def)
    qed
    have ra: "dir_ready d es sa" by (rule dir_ready_same [OF rh sa(2-4)])
    have "ino sa d = ino s d" "fview sa = fview s"
      using meta_ofD(1) [OF same_metaD(2) [OF sa(2)]] sa(4) i1(1) s1(4) s0(4) by simp_all
    then have "(?N + 511) div 512 = length (inode_lbas (ino sa d) (fview sa))" using fits(2) by simp
    from store_dir [OF ra nm fits(1) this] obtain sb s2 where
      t: "fs_index_truncate d (of_nat ?N) sa = (True, sb)" "fs_index_write d 0 (enc_dir es') sb = (Some ?N, s2)"
        "dir_ready d es' s2" "dir_step d sa s2" by blast
    have "dir_step d (s1\<lparr>hp := h\<rparr>) s2" by (rule dir_step_same [OF sa(2,4) t(4)])
    from dir_step_hp [OF this] t show ?thesis by (simp add: sa(1) blob [simplified])
  qed
  moreover have "heap_room 65536 (hp s1)" using assms(3) by (simp add: i1)
  ultimately have "\<exists>s'. with_buf ?N False ?body s1 = (True, s') \<and> (dir_ready d es' s' \<and> dir_step d s1 s') \<and> hp s' = hp s1"
    by (intro with_buf_eq [where N = 65536]) (use pos fits(1) in simp_all)
  moreover have "dir_add_entry d child name s = with_buf ?N False ?body s1"
    using assms(4,5) unfolding dir_add_entry_def Let_def s0(1) prod.case s1(1) tot u by simp
  ultimately show ?thesis using dir_step_same [OF sm] s1(4) s0(4) by auto
qed





text \<open>A directory on sector 40 with two entries, as inode 1.\<close>

definition two_entries :: "entry list" where
  "two_entries = [(2, ''etc''), (3, ''tmp'')]"

definition dir_disk :: "u32 \<Rightarrow> sector" where
  "dir_disk l = (if l = 40 then enc_dir two_entries @ replicate (512 - length (enc_dir two_entries)) 0 else replicate 512 0)"

definition dir_inode :: fs_inode where
  "dir_inode = zero_inode\<lparr>i_flags := 3, i_mode := 0x1ED, i_size := 16,
     i_direct := [\<lparr>e_lba = 40, e_count = 1\<rparr>, no_extent, no_extent, no_extent]\<rparr>"

definition dir_fs :: "(u32 \<Rightarrow> sector) fs" where
  "dir_fs = put_ino 1 dir_inode (file_fs\<lparr>cache := fs_cache_init ((cache small_fs)\<lparr>dev := dir_disk\<rparr>), hp := heap_init heap0\<rparr>)"

lemma heap0_room: "heap_room 65536 (heap_init heap0)"
proof -
  have i: "heap_inv (heap_init heap0)" using heap_init_inv [OF heap_wf_examples(1)] by simp
  have e: "heap_init (heap_init heap0) = heap_init heap0" by (simp add: heap_init_def)
  have "fst (malloc n (heap_init heap0)) \<noteq> None" if "0 < n" "n \<le> 65536" for n
  proof -
    have "n \<le> HEAP_SIZE - HDR - HEAP_ALIGN" "align_up n \<le> 65543" using that by (simp_all add: HEAP_SIZE_def align_up_def)
    then show ?thesis
      using malloc_None_iff [OF i that(1)] by (simp add: e) (simp add: heap_init_def heap0_def HEAP_SIZE_def)
  qed
  then show ?thesis using i by (simp add: heap_room_def) (simp add: heap_init_def heap0_def)
qed

lemma fresh_cache:
  "cview (fs_cache_init ((cache small_fs)\<lparr>dev := D\<rparr>)) = D" "cache_inv_ff (fs_cache_init ((cache small_fs)\<lparr>dev := D\<rparr>))"
proof -
  have ops: "dops (cache small_fs) = perfect_disk" by (simp add: small_fs_def cache_at_boot_def fs_cache_init_def)
  note i = fs_cache_init_inv [of "(cache small_fs)\<lparr>dev := D\<rparr>"]
  show "cview (fs_cache_init ((cache small_fs)\<lparr>dev := D\<rparr>)) = D"
    using i(2) by (simp add: ops perfect_disk_ok) (simp add: perfect_disk_def)
  show "cache_inv_ff (fs_cache_init ((cache small_fs)\<lparr>dev := D\<rparr>))"
    using i(1) perfect_disk_fault_free by (simp add: cache_inv_ff_def ops perfect_disk_ok fs_cache_init_def)
qed

lemma dir_fs_view: "fview dir_fs = dir_disk" "fs_io_ff dir_fs"
  using fresh_cache [of dir_disk] by (simp_all add: dir_fs_def fs_io_ff_def)

lemma two_entries_bytes: "length (enc_dir two_entries) = 16" "names_ok two_entries"
  by (simp_all add: two_entries_def rec_len_def names_ok_def)

lemma dir_fs_ready: "dir_ready 1 two_entries dir_fs"
proof -
  have i: "ino dir_fs 1 = dir_inode" by (simp add: dir_fs_def file_fs_def small_fs_def put_ino_def)
  have l: "inode_lbas dir_inode w = [40]" for w
    by (simp add: dir_inode_def zero_inode_def inode_lbas_def inode_extents_def extent_lbas_def upt_rec)
  have s: "length (dir_disk l) = 512" for l by (simp add: dir_disk_def two_entries_bytes)
  have "file_ok (boot dir_fs) dir_inode (fview dir_fs)"
    by (simp add: file_ok_def inode_ok_def l dir_fs_view(1) s)
       (simp add: dir_inode_def zero_inode_def inode_extents_def extent_ok_def dir_fs_def file_fs_def small_boot_def)
  moreover have "meta_area dir_fs = meta_area small_fs" "meta_layout dir_fs" "log_room dir_fs"
    using file_fs_layout by (simp_all add: dir_fs_def)
  moreover have "40 \<notin> meta_area small_fs" using small_meta_area by fastforce
  moreover have "length (inodes dir_fs) = FS_MAX_INODES" "fs_current_uid dir_fs = 0"
    by (simp_all add: dir_fs_def) (simp_all add: file_fs_def small_fs_def fs_current_uid_def put_ino_def)
  moreover have "iflag dir_inode FS_FLAG_OCCUPIED" "\<not> iflag dir_inode FS_FLAG_SPECIAL" "i_size dir_inode = 16"
      "iflag dir_inode FS_FLAG_DIRECTORY" "i_indirect dir_inode = 0"
    by (simp_all add: dir_inode_def zero_inode_def iflag_def has_flag_def)
  moreover have "take 16 (file_bytes dir_inode dir_disk) = enc_dir two_entries"
    by (simp add: file_bytes_def l dir_disk_def two_entries_bytes)
  ultimately show ?thesis
    using dir_fs_view two_entries_bytes unfolding dir_ready_def file_ready_def fs_access_ok_def i l
    by (simp add: ino_range_def)
qed

lemma dir_fs_lbas: "inode_lbas (ino dir_fs 1) (fview dir_fs) = [40]" "hp dir_fs = heap_init heap0"
  by (simp_all add: dir_fs_def file_fs_def small_fs_def put_ino_def dir_inode_def zero_inode_def inode_lbas_def
      inode_extents_def extent_lbas_def upt_rec)



end
