(* ===== verification/KFsPath.thy ===== *)
theory KFsPath
  imports KFsDir
begin

text \<open>
  Path resolution of src/kernel/fs.cpp: the walk over the components of a path and the
  symbolic links on it, and the split of a path into parent directory and last name.
\<close>

text \<open>The array \<^verbatim>\<open>inodes\<close> indexed as the code does it, without a bounds check: outside of the array
  the access meets whatever memory is there.\<close>

definition inode_at :: "'d fs \<Rightarrow> int \<Rightarrow> fs_inode" where
  "inode_at s idx = (if 0 \<le> idx \<and> nat idx < length (inodes s) then ino s idx else beyond s idx)"

definition put_inode :: "int \<Rightarrow> fs_inode \<Rightarrow> 'd fs \<Rightarrow> 'd fs" where
  "put_inode idx i s =
     (if 0 \<le> idx \<and> nat idx < length (inodes s) then put_ino idx i s else s\<lparr>beyond := (beyond s)(idx := i)\<rparr>)"

abbreviation (input) FS_ROOT_IDX :: int where "FS_ROOT_IDX \<equiv> 1"

abbreviation slash :: char where "slash \<equiv> CHR ''/''"

text \<open>One step of the component scan: the name, at most 254 characters, and the rest of the path
  behind the name and one slash.\<close>

definition next_component :: "string \<Rightarrow> string \<times> string" where
  "next_component p =
     (let k = min (length (takeWhile (\<lambda>c. c \<noteq> slash) p)) (FS_FILENAME_LEN - 1); q = drop k p
      in (take k p, if q \<noteq> [] \<and> hd q = slash then tl q else q))"

lemma next_component_shorter: "p \<noteq> [] \<Longrightarrow> length (snd (next_component p)) < length p"
  by (cases p) (auto simp: next_component_def Let_def)

function
  fs_resolve_component :: "string \<Rightarrow> bool \<Rightarrow> nat \<Rightarrow> 'd fs \<Rightarrow> int \<times> 'd fs" and
  resolve_loop :: "string \<Rightarrow> int \<Rightarrow> int \<Rightarrow> bool \<Rightarrow> nat \<Rightarrow> 'd fs \<Rightarrow> int \<times> 'd fs" and
  fs_follow_if_link :: "int \<Rightarrow> bool \<Rightarrow> nat \<Rightarrow> 'd fs \<Rightarrow> int \<times> 'd fs" where
  "fs_resolve_component path follow depth s =
     (if path = [] then (-1, s)
      else if path = ''/'' then (FS_ROOT_IDX, s)
      else let tmp = cstr_copy 256 path; p = (if hd tmp = slash then tl tmp else tmp)
        in resolve_loop p FS_ROOT_IDX FS_ROOT_IDX follow depth s)"
| "resolve_loop p parent lst follow depth s =
     (if p = [] then (lst, s)
      else let (name, q) = next_component p in
        if name = [] then resolve_loop q parent lst follow depth s
        else if name = ''.'' then resolve_loop q parent lst follow depth s
        else if name = ''..'' then
          (if parent = FS_ROOT_IDX then resolve_loop q parent lst follow depth s
           else let par = sint (i_parent (inode_at s parent)); par = (if par = 0 then FS_ROOT_IDX else par)
             in resolve_loop q par par follow depth s)
        else case dir_find_name parent name s of
          (idx, s) \<Rightarrow>
            if idx < 0 then (-1, s)
            else (case fs_follow_if_link idx (follow \<and> (q \<noteq> [] \<or> follow)) depth s of
              (idx, s) \<Rightarrow>
                if idx < 0 then (-1, s)
                else if q \<noteq> [] then
                  (if \<not> iflag (inode_at s idx) FS_FLAG_DIRECTORY then (-1, s)
                   else resolve_loop q idx idx follow depth s)
                else resolve_loop q parent idx follow depth s))"
| "fs_follow_if_link idx follow depth s =
     (if idx < 0 then (idx, s)
      else let i = inode_at s idx; n = unat (i_size i) in
        if \<not> follow \<or> \<not> iflag i FS_FLAG_SYMLINK then (idx, s)
        else if depth \<ge> FS_SYMLINK_MAX then (-1, s)
        else if n = 0 \<or> n \<ge> FS_FILENAME_LEN then (-1, s)
        else if n < FS_SYMLINK_INLINE \<and> i_symlink i ! 0 \<noteq> 0 then
          fs_resolve_component (cstring (take n (i_symlink i))) True (depth + 1) s
        else case fs_index_read idx 0 n s of
          (None, s) \<Rightarrow> (-1, s)
        | (Some bs, s) \<Rightarrow> fs_resolve_component (cstring (fill s n bs)) True (depth + 1) s)"
  by pat_completeness auto

text \<open>Resolution ends: a link is followed only below the depth limit, and a step of the loop
  shortens the path.\<close>

termination
  by (relation "inv_image (less_than <*lex*> less_than <*lex*> less_than)
      (case_sum (\<lambda>(path, follow, depth, s). (FS_SYMLINK_MAX - depth, 2, 0))
        (case_sum (\<lambda>(p, parent, lst, follow, depth, s). (FS_SYMLINK_MAX - depth, 1, length p))
          (\<lambda>(idx, follow, depth, s). (FS_SYMLINK_MAX - depth, 0, 0))))")
     (auto dest: next_component_shorter simp: prod_eq_iff)


declare fs_resolve_component.simps [simp del] resolve_loop.simps [simp del] fs_follow_if_link.simps [simp del]

definition fs_lookup_index :: "string \<Rightarrow> bool \<Rightarrow> 'd fs \<Rightarrow> int \<times> 'd fs" where
  "fs_lookup_index path follow_symlinks s =
     (if \<not> initialized s then (-1, s) else fs_resolve_component path follow_symlinks 0 s)"

text \<open>The text behind the last slash (strrchr), copied by strncpy into a buffer of 255 bytes.\<close>

definition base_name :: "string \<Rightarrow> string" where
  "base_name path = rev (takeWhile (\<lambda>c. c \<noteq> slash) (rev path))"

definition fs_parent_and_name :: "string \<Rightarrow> 'd fs \<Rightarrow> (int \<times> string) option \<times> 'd fs" where
  "fs_parent_and_name path s =
     (if path = [] \<or> hd path \<noteq> slash then (None, s)
      else let base = base_name path; name = take (FS_FILENAME_LEN - 1) base; len = length path - length base - 1 in
        if base = [] then (None, s)
        else if len = 0 then (Some (FS_ROOT_IDX, name), s)
        else if len \<ge> 256 then (None, s)
        else case fs_lookup_index (take len path) True s of
          (didx, s) \<Rightarrow>
            if didx < 0 \<or> \<not> iflag (inode_at s didx) FS_FLAG_DIRECTORY then (None, s)
            else (Some (didx, name), s))"


section \<open>Paths as walks in a tree of directories\<close>

function components :: "string \<Rightarrow> string list" where
  "components p = (if p = [] then [] else let (name, q) = next_component p in name # components q)"
  by pat_completeness auto

termination by (relation "measure length") (auto dest: next_component_shorter simp: prod_eq_iff)

declare components.simps [simp del]

lemma components_Nil [simp]: "components p = [] \<longleftrightarrow> p = []" "components [] = []"
  by (auto simp: components.simps [of p] components.simps [of "[]"] split: prod.split)

text \<open>The specification: \<open>D\<close> gives the entries of a directory, \<open>I\<close> the inode of a number. A
  component that is not the last must be a directory; the root is its own parent.\<close>

fun tree_walk :: "(int \<Rightarrow> entry list) \<Rightarrow> (int \<Rightarrow> fs_inode) \<Rightarrow> string list \<Rightarrow> int \<Rightarrow> int \<Rightarrow> int" where
  "tree_walk D I [] parent lst = lst"
| "tree_walk D I (c # cs) parent lst =
     (if c = [] \<or> c = ''.'' then tree_walk D I cs parent lst
      else if c = ''..'' then
        (if parent = FS_ROOT_IDX then tree_walk D I cs parent lst
         else let par = sint (i_parent (I parent)); par = (if par = 0 then FS_ROOT_IDX else par)
           in tree_walk D I cs par par)
      else let idx = lookup_in (D parent) c in
        if idx < 0 then -1
        else if cs = [] then idx
        else if iflag (I idx) FS_FLAG_DIRECTORY then tree_walk D I cs idx idx
        else -1)"

text \<open>All directories are in order, \<open>D\<close> lists their entries, and the heap has room for buffers.\<close>

definition dir_table :: "(int \<Rightarrow> entry list) \<Rightarrow> 'd fs \<Rightarrow> bool" where
  "dir_table D s \<longleftrightarrow> heap_room 65536 (hp s) \<and> fs_io_ff s \<and>
     (\<forall>d. if ino_range d \<and> iflag (ino s d) FS_FLAG_DIRECTORY then dir_ready d (D d) s else D d = [])"

definition no_links :: "'d fs \<Rightarrow> bool" where
  "no_links s \<longleftrightarrow> (\<forall>idx. \<not> iflag (inode_at s idx) FS_FLAG_SYMLINK)"

text \<open>States that differ in what the cache holds but not in what it shows.\<close>

definition same_view :: "'d fs \<Rightarrow> 'd fs \<Rightarrow> bool" where
  "same_view s s' \<longleftrightarrow> same_meta s s' \<and> fs_io_ff s' \<and> fview s' = fview s"

lemma same_view_trans: "same_view s s1 \<Longrightarrow> same_view s1 s2 \<Longrightarrow> same_view s s2"
  unfolding same_view_def using same_meta_trans by metis

lemma same_view_inode_at: "same_view s s' \<Longrightarrow> inode_at s' = inode_at s"
  unfolding same_view_def
proof (elim conjE, intro ext)
  fix idx
  assume "same_meta s s'"
  note m = meta_ofD [OF same_metaD(2) [OF this]]
  show "inode_at s' idx = inode_at s idx" by (simp add: inode_at_def m)
qed

lemma same_view_table:
  assumes "same_view s s'" and "dir_table D s"
  shows "dir_table D s'"
proof -
  have m: "same_meta s s'" "fs_io_ff s'" "fview s' = fview s" using assms(1) by (simp_all add: same_view_def)
  note i = meta_ofD [OF same_metaD(2) [OF m(1)]]
  show ?thesis using assms(2) m(2) dir_ready_same [OF _ m] unfolding dir_table_def i by metis
qed

lemma same_view_links: "same_view s s' \<Longrightarrow> no_links s' = no_links s"
  by (simp add: no_links_def same_view_inode_at)

lemma dir_table_find:
  assumes "dir_table D s"
  obtains s' where "dir_find_name d name s = (lookup_in (D d) name, s')" "same_view s s'"
proof (cases "ino_range d \<and> iflag (ino s d) FS_FLAG_DIRECTORY")
  case True
  then have "dir_ready d (D d) s" using assms unfolding dir_table_def by meson
  from dir_find_name_eq [OF this] assms that show thesis by (auto simp: dir_table_def same_view_def)
next
  case False
  then have "D d = []" using assms unfolding dir_table_def by meson
  then have "dir_find_name d name s = (lookup_in (D d) name, s)" using False by (auto simp: dir_find_name_def)
  moreover have "same_view s s" using assms by (simp add: same_view_def dir_table_def)
  ultimately show thesis by (rule that)
qed

lemma resolve_loop_refines:
  assumes "dir_table D s" and "follow \<longrightarrow> no_links s"
  shows "\<exists>s'. resolve_loop p parent lst follow depth s = (tree_walk D (inode_at s) (components p) parent lst, s') \<and> same_view s s'"
  using assms
proof (induction "length p" arbitrary: p parent lst s rule: less_induct)
  case less
  have refl: "same_view s s" using less.prems(1) by (simp add: same_view_def dir_table_def)
  show ?case
  proof (cases "p = []")
    case True
    then show ?thesis using refl by (simp add: resolve_loop.simps)
  next
    case False
    obtain name q where nc: "next_component p = (name, q)" by (cases "next_component p")
    have c: "components p = name # components q" using False by (simp add: components.simps [of p] nc)
    have lt: "length q < length p" using next_component_shorter [OF False] by (simp add: nc)
    note IH = less.hyps [OF lt]
    consider "name = [] \<or> name = ''.''" | "name = ''..''" | "name \<noteq> []" "name \<noteq> ''.''" "name \<noteq> ''..''" by blast
    then show ?thesis
    proof cases
      case 1
      then show ?thesis using IH [OF less.prems] False by (auto simp: resolve_loop.simps [of p] nc c)
    next
      case 2
      then show ?thesis using IH [OF less.prems] False by (simp add: resolve_loop.simps [of p] nc c Let_def)
    next
      case 3
      obtain s1 where s1: "dir_find_name parent name s = (lookup_in (D parent) name, s1)" "same_view s s1"
        by (rule dir_table_find [OF less.prems(1)])
      have t1: "dir_table D s1" "follow \<longrightarrow> no_links s1"
        using same_view_table [OF s1(2)] same_view_links [OF s1(2)] less.prems by simp_all
      have f: "fs_follow_if_link idx follow depth s1 = (idx, s1)" for idx
        using t1(2) by (simp add: fs_follow_if_link.simps no_links_def Let_def)
      have i1: "inode_at s1 = inode_at s" by (rule same_view_inode_at [OF s1(2)])
      have q: "(follow \<and> (q \<noteq> [] \<or> follow)) = follow" by blast
      let ?idx = "lookup_in (D parent) name"
      obtain s2 where s2: "resolve_loop q ?idx ?idx follow depth s1 = (tree_walk D (inode_at s) (components q) ?idx ?idx, s2)" "same_view s s2"
        using IH [OF t1, of ?idx ?idx] same_view_trans [OF s1(2)] unfolding i1 by blast
      show ?thesis
        using False 3 s1 s2 by (simp add: resolve_loop.simps [of p] nc c q f i1 Let_def) (simp add: resolve_loop.simps [of "[]"])
    qed
  qed
qed

definition lookup_spec :: "(int \<Rightarrow> entry list) \<Rightarrow> (int \<Rightarrow> fs_inode) \<Rightarrow> string \<Rightarrow> int" where
  "lookup_spec D I path =
     (if path = [] then -1
      else let t = take 255 path in tree_walk D I (components (if hd t = slash then tl t else t)) FS_ROOT_IDX FS_ROOT_IDX)"

definition parent_spec :: "(int \<Rightarrow> entry list) \<Rightarrow> (int \<Rightarrow> fs_inode) \<Rightarrow> string \<Rightarrow> (int \<times> string) option" where
  "parent_spec D I path =
     (let base = base_name path; name = take 254 base; len = length path - length base - 1;
          d = (if len = 0 then FS_ROOT_IDX else lookup_spec D I (take len path))
      in if path = [] \<or> hd path \<noteq> slash \<or> base = [] \<or> len \<ge> 256 \<or>
            (len \<noteq> 0 \<and> (d < 0 \<or> \<not> iflag (I d) FS_FLAG_DIRECTORY)) then None
         else Some (d, name))"

lemma fs_lookup_eq:
  assumes "dir_table D s" and "follow \<longrightarrow> no_links s" and "initialized s"
  obtains s' where "fs_lookup_index path follow s = (lookup_spec D (inode_at s) path, s')" "same_view s s'"
proof -
  have refl: "same_view s s" using assms(1) by (simp add: same_view_def dir_table_def)
  have t: "cstr_copy 256 path = take 255 path" by (simp add: cstr_copy_take)
  let ?p = "if hd (take 255 path) = slash then tl (take 255 path) else take 255 path"
  obtain s' where s': "resolve_loop ?p FS_ROOT_IDX FS_ROOT_IDX follow 0 s =
      (tree_walk D (inode_at s) (components ?p) FS_ROOT_IDX FS_ROOT_IDX, s')" "same_view s s'"
    using resolve_loop_refines [OF assms(1,2)] by blast
  show thesis
  proof (cases "path = [] \<or> path = ''/''")
    case True
    then have "fs_lookup_index path follow s = (lookup_spec D (inode_at s) path, s)"
      using assms(3) by (auto simp: fs_lookup_index_def fs_resolve_component.simps lookup_spec_def)
    then show thesis using refl by (rule that)
  next
    case False
    then have "fs_lookup_index path follow s = (lookup_spec D (inode_at s) path, s')"
      using assms(3) s'(1) unfolding fs_lookup_index_def fs_resolve_component.simps [of path] lookup_spec_def t Let_def by simp
    then show thesis using s'(2) by (rule that)
  qed
qed

lemma fs_parent_eq:
  assumes "dir_table D s" and "no_links s" and "initialized s"
  obtains s' where "fs_parent_and_name path s = (parent_spec D (inode_at s) path, s')" "same_view s s'"
proof -
  have refl: "same_view s s" using assms(1) by (simp add: same_view_def dir_table_def)
  let ?len = "length path - length (base_name path) - 1"
  obtain s' where s': "fs_lookup_index (take ?len path) True s = (lookup_spec D (inode_at s) (take ?len path), s')" "same_view s s'"
    by (rule fs_lookup_eq [of D s True]) (use assms in auto)
  have i: "inode_at s' = inode_at s" by (rule same_view_inode_at [OF s'(2)])
  show thesis
  proof (cases "path = [] \<or> hd path \<noteq> slash \<or> base_name path = [] \<or> ?len = 0 \<or> ?len \<ge> 256")
    case True
    then have "fs_parent_and_name path s = (parent_spec D (inode_at s) path, s)"
      unfolding fs_parent_and_name_def parent_spec_def Let_def by auto
    then show thesis using refl by (rule that)
  next
    case False
    then have "fs_parent_and_name path s = (parent_spec D (inode_at s) path, s')"
      using s'(1) unfolding fs_parent_and_name_def parent_spec_def Let_def by (simp add: i)
    then show thesis using s'(2) by (rule that)
  qed
qed


text \<open>The small file system with a root of two entries.\<close>

abbreviation root_only :: "int \<Rightarrow> entry list" where
  "root_only \<equiv> (\<lambda>d. if d = 1 then two_entries else [])"

lemma dir_fs_inodes: "ino_range d \<Longrightarrow> ino dir_fs d = (if d = 1 then dir_inode else zero_inode)"
  by (auto simp: dir_fs_def file_fs_def small_fs_def put_ino_def ino_range_def nth_list_update nat_less_iff)

lemma dir_fs_table: "dir_table root_only dir_fs" "no_links dir_fs" "initialized dir_fs"
proof -
  have z: "\<not> iflag zero_inode f" "iflag dir_inode FS_FLAG_DIRECTORY" "\<not> iflag dir_inode FS_FLAG_SYMLINK" for f
    by (simp_all add: dir_inode_def zero_inode_def iflag_def has_flag_def)
  have "if ino_range d \<and> iflag (ino dir_fs d) FS_FLAG_DIRECTORY then dir_ready d (root_only d) dir_fs else root_only d = []" for d
  proof (cases "d = 1")
    case True
    then show ?thesis using dir_fs_ready dir_fs_inodes [of 1] z(2) by (simp add: ino_range_def)
  next
    case False
    then show ?thesis using dir_fs_inodes [of d] z(1) by auto
  qed
  then show "dir_table root_only dir_fs"
    unfolding dir_table_def dir_fs_lbas(2) using heap0_room dir_fs_view(2) by (intro conjI allI)
  have b: "beyond dir_fs = (\<lambda>_. zero_inode)" by (simp add: dir_fs_def file_fs_def small_fs_def put_ino_def)
  have n: "ino dir_fs 0 = zero_inode" "length (inodes dir_fs) = FS_MAX_INODES"
    by (simp_all add: dir_fs_def file_fs_def small_fs_def put_ino_def)
  have "\<not> iflag (inode_at dir_fs idx) FS_FLAG_SYMLINK" for idx
  proof (cases "ino_range idx \<or> idx = 0")
    case True
    then show ?thesis using dir_fs_inodes [of idx] z(1,3) n by (auto simp: inode_at_def b split: if_splits)
  next
    case False
    then have "\<not> (0 \<le> idx \<and> nat idx < 1024)" by (auto simp: ino_range_def)
    then show ?thesis using z(1) by (auto simp: inode_at_def n b)
  qed
  then show "no_links dir_fs" by (simp add: no_links_def)
  show "initialized dir_fs" by (simp add: dir_fs_def file_fs_def small_fs_def put_ino_def)
qed


end
