(* ===== verification/KFsOps.thy ===== *)
theory KFsOps
  imports KFsPath
begin

text \<open>
  The path-level operations of src/kernel/fs.cpp: create, write, delete, link, rename,
  attributes, symbolic links, directories, listing, recursive removal and extended attributes.
  A result of 0 or -1 is a bool; a path is the content of a non-null C string.
\<close>

definition inc_inode_count :: "'d fs \<Rightarrow> 'd fs" where
  "inc_inode_count s = s\<lparr>boot := (boot s)\<lparr>b_inode_count := b_inode_count (boot s) + 1\<rparr>\<rparr>"

definition fs_create_file :: "string \<Rightarrow> u16 \<Rightarrow> 'd fs \<Rightarrow> int \<times> 'd fs" where
  "fs_create_file path mode s =
     (if \<not> initialized s then (-1, s)
      else case fs_lookup_index path False s of
        (r, s) \<Rightarrow>
          if r \<ge> 0 then (-1, s)
          else case fs_parent_and_name path s of
            (None, s) \<Rightarrow> (-1, s)
          | (Some (parent, name), s) \<Rightarrow>
              if \<not> fs_access_ok parent True s then (-1, s)
              else let idx = fs_alloc_inode s in
                if idx < 0 then (-1, s)
                else
                  let i = zero_inode\<lparr>i_flags := FS_FLAG_OCCUPIED, i_mode := (if mode \<noteq> 0 then mode else FS_MODE_FILE),
                            i_uid := fs_current_uid s, i_gid := fs_current_gid s, i_nlink := 1,
                            i_parent := of_int parent, i_atime := now s, i_mtime := now s, i_ctime := now s\<rparr>;
                      s = put_ino idx i s
                  in case dir_add_entry parent (of_int idx) name s of
                       (False, s) \<Rightarrow> (-1, put_ino idx ((ino s idx)\<lparr>i_flags := 0\<rparr>) s)
                     | (True, s) \<Rightarrow>
                         (case fs_persist_meta (inc_inode_count s) of
                            (False, s) \<Rightarrow> (-1, s)
                          | (True, s) \<Rightarrow> (idx, s)))"

definition fs_open :: "string \<Rightarrow> 'd fs \<Rightarrow> u32 option \<times> 'd fs" where
  "fs_open filename s =
     (case fs_lookup_index filename True s of
        (idx, s) \<Rightarrow>
          if idx < 0 then (None, s)
          else if iflag (inode_at s idx) FS_FLAG_DIRECTORY then (None, s)
          else (Some (i_size (inode_at s idx)), s))"

definition fs_read :: "string \<Rightarrow> nat \<Rightarrow> 'd fs \<Rightarrow> u8 list option \<times> 'd fs" where
  "fs_read filename sz s =
     (case fs_lookup_index filename True s of
        (idx, s) \<Rightarrow> if idx < 0 then (None, s) else fs_index_read idx 0 sz s)"

definition fs_write :: "string \<Rightarrow> u8 list \<Rightarrow> 'd fs \<Rightarrow> bool \<times> 'd fs" where
  "fs_write filename bs s =
     (if \<not> initialized s then (False, s)
      else attempt (if bitmap s = None then fs_load_bitmap s else (True, s)) (\<lambda>s.
        case fs_lookup_index filename False s of
          (idx, s) \<Rightarrow>
            (case (if idx < 0 then fs_create_file filename FS_MODE_FILE s else (idx, s)) of
               (idx, s) \<Rightarrow>
                 if idx < 0 then (False, s)
                 else if iflag (inode_at s idx) FS_FLAG_DIRECTORY then (False, s)
                 else attempt (fs_index_truncate idx (of_nat (length bs)) s) (\<lambda>s.
                   if bs = [] then (True, s)
                   else (case fs_index_write idx 0 bs s of (wr, s) \<Rightarrow> (wr = Some (length bs), s))))))"

definition fs_truncate :: "string \<Rightarrow> u32 \<Rightarrow> 'd fs \<Rightarrow> bool \<times> 'd fs" where
  "fs_truncate path new_size s =
     (case fs_lookup_index path True s of
        (idx, s) \<Rightarrow> if idx < 0 then (False, s) else fs_index_truncate idx new_size s)"

text \<open>The directory of a listing: a null path or \<^verbatim>\<open>"/"\<close> is the root. \<open>empty_root\<close> tells whether
  the empty path is the root too, as in fs_list_dir.\<close>

definition list_target :: "bool \<Rightarrow> string option \<Rightarrow> 'd fs \<Rightarrow> int option \<times> 'd fs" where
  "list_target empty_root path s =
     (case path of
        None \<Rightarrow> (Some FS_ROOT_IDX, s)
      | Some p \<Rightarrow>
          if p = ''/'' \<or> (empty_root \<and> p = []) then (Some FS_ROOT_IDX, s)
          else case fs_lookup_index p True s of
            (dir, s) \<Rightarrow>
              if dir < 0 \<or> \<not> iflag (inode_at s dir) FS_FLAG_DIRECTORY then (None, s) else (Some dir, s))"

text \<open>A directory is read into a buffer on the stack if it fits into 2048 bytes, else on the heap.\<close>

definition with_dir_buf :: "u32 \<Rightarrow> 'a \<Rightarrow> ('d fs \<Rightarrow> 'a \<times> 'd fs) \<Rightarrow> 'd fs \<Rightarrow> 'a \<times> 'd fs" where
  "with_dir_buf n e body s = (if n > 2048 then with_buf (unat n) e body s else body s)"

text \<open>\<^verbatim>\<open>if (pos + 1 < buffer_size) buffer[pos++] = c\<close>, for each character.\<close>

definition push_text :: "nat \<Rightarrow> string \<Rightarrow> string \<Rightarrow> string" where
  "push_text cap txt buf = take (cap - 1) (buf @ txt)"

definition list_mark :: "'d fs \<Rightarrow> u32 \<Rightarrow> string" where
  "list_mark s num =
     (if unat num < FS_MAX_INODES \<and> iflag (inodes s ! unat num) FS_FLAG_DIRECTORY then ''/''
      else if unat num < FS_MAX_INODES \<and> iflag (inodes s ! unat num) FS_FLAG_SYMLINK then ''@''
      else [])"

definition fs_list_dir :: "string option \<Rightarrow> nat \<Rightarrow> 'd fs \<Rightarrow> string option \<times> 'd fs" where
  "fs_list_dir path buffer_size s =
     (if \<not> initialized s \<or> buffer_size = 0 then (None, s)
      else case list_target True path s of
        (None, s) \<Rightarrow> (None, s)
      | (Some dir, s) \<Rightarrow>
          (case dir_logical_size dir s of
             (n, s) \<Rightarrow>
               if n = 0 then (Some [], s)
               else with_dir_buf n None (\<lambda>s.
                 case fs_index_read dir 0 (unat n) s of
                   (None, s) \<Rightarrow> (None, s)
                 | (Some bs, s) \<Rightarrow>
                     (let blob = fill s (unat n) bs in
                      (Some (fold (\<lambda>(off, num, nl, rec) buf.
                               if num \<noteq> 0 \<and> nl \<noteq> 0 then
                                 push_text buffer_size (map (\<lambda>b. char_of (unat b)) (take nl (drop (off + 5) blob)) @
                                   list_mark s num @ [CHR 0x0A]) buf
                               else buf)
                             (dirents 0 (unat n) blob) []), s))) s))"

text \<open>fs_readdir: None is -1; otherwise the new value of the offset and, if an entry was found,
  its name and inode number.\<close>

definition fs_readdir :: "string option \<Rightarrow> u32 \<Rightarrow> nat \<Rightarrow> 'd fs \<Rightarrow> ((u8 list \<times> u32) option \<times> u32) option \<times> 'd fs" where
  "fs_readdir path offp name_cap s =
     (if name_cap = 0 then (None, s)
      else case list_target False path s of
        (None, s) \<Rightarrow> (None, s)
      | (Some dir, s) \<Rightarrow>
          (case dir_logical_size dir s of
             (n, s) \<Rightarrow>
               if offp \<ge> n then (Some (None, offp), s)
               else with_dir_buf n None (\<lambda>s.
                 case fs_index_read dir 0 (unat n) s of
                   (None, s) \<Rightarrow> (None, s)
                 | (Some bs, s) \<Rightarrow>
                     (let blob = fill s (unat n) bs in
                      case find (\<lambda>(off, num, nl, rec). num \<noteq> 0 \<and> nl \<noteq> 0) (dirents (unat offp) (unat n) blob) of
                        None \<Rightarrow> (Some (None, n), s)
                      | Some (off, num, nl, rec) \<Rightarrow>
                          (Some (Some (take (min nl (name_cap - 1)) (drop (off + 5) blob), num), of_nat (off + rec)), s))) s))"

definition fs_delete :: "string \<Rightarrow> 'd fs \<Rightarrow> bool \<times> 'd fs" where
  "fs_delete filename s =
     (if \<not> initialized s then (False, s)
      else case fs_lookup_index filename False s of
        (idx, s) \<Rightarrow>
          if idx < 0 \<or> idx = FS_ROOT_IDX then (False, s)
          else case fs_parent_and_name filename s of
            (None, s) \<Rightarrow> (False, s)
          | (Some (parent, name), s) \<Rightarrow>
              if \<not> fs_access_ok parent True s then (False, s)
              else
                attempt (if iflag (inode_at s idx) FS_FLAG_DIRECTORY then dir_is_empty idx s else (True, s)) (\<lambda>s.
                attempt (dir_remove_entry parent name s) (\<lambda>s.
                  let i = inode_at s idx in
                  fs_persist_meta
                    (if i_nlink i > 1 then put_inode idx (i\<lparr>i_nlink := i_nlink i - 1, i_ctime := now s\<rparr>) s
                     else case inode_clear_extents i s of
                       (i, s) \<Rightarrow>
                         (let s = (if i_xattr i \<noteq> 0 then fs_free_blocks (i_xattr i) 1 s else s);
                              s = put_inode idx zero_inode s in
                          if b_inode_count (boot s) \<noteq> 0
                          then s\<lparr>boot := (boot s)\<lparr>b_inode_count := b_inode_count (boot s) - 1\<rparr>\<rparr> else s)))))"

definition fs_link :: "string \<Rightarrow> string \<Rightarrow> 'd fs \<Rightarrow> bool \<times> 'd fs" where
  "fs_link oldpath newpath s =
     (if \<not> initialized s then (False, s)
      else case fs_lookup_index oldpath False s of
        (idx, s) \<Rightarrow>
          if idx < 0 then (False, s)
          else if iflag (inode_at s idx) FS_FLAG_DIRECTORY then (False, s)
          else case fs_lookup_index newpath False s of
            (r, s) \<Rightarrow>
              if r \<ge> 0 then (False, s)
              else case fs_parent_and_name newpath s of
                (None, s) \<Rightarrow> (False, s)
              | (Some (parent, name), s) \<Rightarrow>
                  if \<not> fs_access_ok parent True s then (False, s)
                  else attempt (dir_add_entry parent (of_int idx) name s) (\<lambda>s.
                    let i = inode_at s idx in
                    fs_persist_meta (put_inode idx (i\<lparr>i_nlink := i_nlink i + 1, i_ctime := now s\<rparr>) s)))"

definition fs_rename :: "string \<Rightarrow> string \<Rightarrow> 'd fs \<Rightarrow> bool \<times> 'd fs" where
  "fs_rename old_path new_path s =
     (if \<not> initialized s then (False, s)
      else case fs_lookup_index old_path False s of
        (idx, s) \<Rightarrow>
          if idx < 0 then (False, s)
          else case fs_lookup_index new_path False s of
            (r, s) \<Rightarrow>
              if r \<ge> 0 then (False, s)
              else case fs_parent_and_name old_path s of
                (None, s) \<Rightarrow> (False, s)
              | (Some (old_parent, old_name), s) \<Rightarrow>
                  (case fs_parent_and_name new_path s of
                     (None, s) \<Rightarrow> (False, s)
                   | (Some (new_parent, new_name), s) \<Rightarrow>
                       if \<not> fs_access_ok old_parent True s then (False, s)
                       else if \<not> fs_access_ok new_parent True s then (False, s)
                       else attempt (dir_add_entry new_parent (of_int idx) new_name s) (\<lambda>s.
                         attempt (dir_remove_entry old_parent old_name s) (\<lambda>s.
                           fs_persist_meta
                             (put_inode idx ((inode_at s idx)\<lparr>i_parent := of_int new_parent, i_ctime := now s\<rparr>) s)))))"

definition fs_path_stat :: "string \<Rightarrow> 'd fs \<Rightarrow> fs_stat option \<times> 'd fs" where
  "fs_path_stat path s =
     (case fs_lookup_index path False s of (idx, s) \<Rightarrow> if idx < 0 then (None, s) else fs_index_stat idx s)"

definition fs_chmod :: "string \<Rightarrow> u16 \<Rightarrow> 'd fs \<Rightarrow> bool \<times> 'd fs" where
  "fs_chmod path mode s =
     (case fs_lookup_index path False s of
        (idx, s) \<Rightarrow>
          if idx < 0 then (False, s)
          else if fs_current_uid s \<noteq> 0 \<and> i_uid (inode_at s idx) \<noteq> fs_current_uid s then (False, s)
          else fs_persist_meta (put_inode idx ((inode_at s idx)\<lparr>i_mode := mode, i_ctime := now s\<rparr>) s))"

definition fs_chown :: "string \<Rightarrow> u16 \<Rightarrow> u16 \<Rightarrow> 'd fs \<Rightarrow> bool \<times> 'd fs" where
  "fs_chown path uid gid s =
     (case fs_lookup_index path False s of
        (idx, s) \<Rightarrow>
          if idx < 0 then (False, s)
          else if fs_current_uid s \<noteq> 0 then (False, s)
          else fs_persist_meta (put_inode idx ((inode_at s idx)\<lparr>i_uid := uid, i_gid := gid, i_ctime := now s\<rparr>) s))"

definition fs_chgrp :: "string \<Rightarrow> u16 \<Rightarrow> 'd fs \<Rightarrow> bool \<times> 'd fs" where
  "fs_chgrp path gid s =
     (case fs_lookup_index path False s of
        (idx, s) \<Rightarrow>
          if idx < 0 then (False, s)
          else if fs_current_uid s \<noteq> 0 \<and> i_uid (inode_at s idx) \<noteq> fs_current_uid s then (False, s)
          else fs_persist_meta (put_inode idx ((inode_at s idx)\<lparr>i_gid := gid, i_ctime := now s\<rparr>) s))"

definition fs_touch :: "string \<Rightarrow> 'd fs \<Rightarrow> bool \<times> 'd fs" where
  "fs_touch path s =
     (case fs_lookup_index path False s of
        (idx, s) \<Rightarrow>
          if idx < 0 then (case fs_create_file path FS_MODE_FILE s of (idx, s) \<Rightarrow> (\<not> idx < 0, s))
          else fs_persist_meta (put_inode idx ((inode_at s idx)\<lparr>i_mtime := now s, i_atime := now s\<rparr>) s))"


definition fs_symlink :: "string \<Rightarrow> string \<Rightarrow> 'd fs \<Rightarrow> bool \<times> 'd fs" where
  "fs_symlink target linkpath s =
     (case fs_lookup_index linkpath False s of
        (r, s) \<Rightarrow>
          if r \<ge> 0 then (False, s)
          else case fs_create_file linkpath FS_MODE_LINK s of
            (idx, s) \<Rightarrow>
              if idx < 0 then (False, s)
              else
                let s = put_inode idx ((inode_at s idx)\<lparr>i_flags := FS_FLAG_OCCUPIED OR FS_FLAG_SYMLINK\<rparr>) s;
                    len = length target; i = inode_at s idx
                in if len < FS_SYMLINK_INLINE then
                     fs_persist_meta (put_inode idx
                       (i\<lparr>i_symlink := cbytes target @ [0] @ drop (len + 1) (i_symlink i), i_size := of_nat len\<rparr>) s)
                   else attempt (fs_index_truncate idx (of_nat len) s) (\<lambda>s.
                     case fs_index_write idx 0 (cbytes target) s of (wr, s) \<Rightarrow> (wr = Some len, s)))"

text \<open>The content of the buffer behind the call; bytes that a short read leaves out are junk.\<close>

definition fs_readlink :: "string \<Rightarrow> nat \<Rightarrow> 'd fs \<Rightarrow> u8 list option \<times> 'd fs" where
  "fs_readlink path buf_size s =
     (case fs_lookup_index path False s of
        (idx, s) \<Rightarrow>
          if idx < 0 \<or> \<not> iflag (inode_at s idx) FS_FLAG_SYMLINK then (None, s)
          else if buf_size = 0 then (None, s)
          else let i = inode_at s idx; n = unat (i_size i); n = (if n + 1 > buf_size then buf_size - 1 else n) in
            if n < FS_SYMLINK_INLINE \<and> i_symlink i ! 0 \<noteq> 0 then (Some (take n (i_symlink i)), s)
            else case fs_index_read idx 0 n s of
              (None, s) \<Rightarrow> (None, s)
            | (Some bs, s) \<Rightarrow> (Some (fill s n bs), s))"

definition fs_resolve_path :: "string \<Rightarrow> int \<times> string" where
  "fs_resolve_path path =
     (let p = (if path \<noteq> [] \<and> hd path = slash then tl path else path)
      in (0, take (FS_FILENAME_LEN - 1) (takeWhile (\<lambda>c. c \<noteq> slash) p)))"

text \<open>One component of fs_create_dir: the index of the directory, made if it is not there.\<close>

definition make_dir :: "int \<Rightarrow> string \<Rightarrow> 'd fs \<Rightarrow> int option \<times> 'd fs" where
  "make_dir parent name s =
     (case dir_find_name parent name s of
        (idx, s) \<Rightarrow>
          if idx < 0 then
            (let idx = fs_alloc_inode s in
             if idx < 0 then (None, s)
             else
               let s = put_ino idx (zero_inode\<lparr>i_flags := FS_FLAG_OCCUPIED OR FS_FLAG_DIRECTORY, i_mode := FS_MODE_DIR,
                          i_nlink := 1, i_uid := fs_current_uid s, i_gid := fs_current_gid s,
                          i_parent := of_int parent, i_atime := now s, i_mtime := now s, i_ctime := now s\<rparr>) s
               in if \<not> fs_access_ok parent True s then (None, put_ino idx ((ino s idx)\<lparr>i_flags := 0\<rparr>) s)
                  else case dir_add_entry parent (of_int idx) name s of
                    (False, s) \<Rightarrow> (None, put_ino idx ((ino s idx)\<lparr>i_flags := 0\<rparr>) s)
                  | (True, s) \<Rightarrow>
                      (case fs_persist_meta (inc_inode_count s) of
                         (False, s) \<Rightarrow> (None, s)
                       | (True, s) \<Rightarrow> (Some idx, s)))
          else if \<not> iflag (inode_at s idx) FS_FLAG_DIRECTORY then (None, s)
          else (Some idx, s))"

function mkdir_loop :: "string \<Rightarrow> int \<Rightarrow> 'd fs \<Rightarrow> bool \<times> 'd fs" where
  "mkdir_loop p parent s =
     (if p = [] then (True, s)
      else let seg = takeWhile (\<lambda>c. c \<noteq> slash) p; rest = dropWhile (\<lambda>c. c \<noteq> slash) p in
        case (if seg \<noteq> [] then make_dir parent seg s else (Some parent, s)) of
          (None, s) \<Rightarrow> (False, s)
        | (Some parent, s) \<Rightarrow> if rest = [] then (True, s) else mkdir_loop (tl rest) parent s)"
  by pat_completeness auto

termination
proof (relation "measure (\<lambda>(p, parent, s). length p)")
  fix p :: string and rest
  assume "rest = dropWhile (\<lambda>c. c \<noteq> slash) p" and "rest \<noteq> []"
  then have "0 < length rest" "length rest \<le> length p" by (simp_all only: length_greater_0_conv length_dropWhile_le simp_thms)
  then have "length (tl rest) < length p" unfolding length_tl by linarith
  then show "((tl rest, b, t), p, a, s) \<in> measure (\<lambda>(p, parent, s). length p)" for a b :: int and s t :: "'d fs"
    by simp
qed simp

declare mkdir_loop.simps [simp del]

definition fs_create_dir :: "string \<Rightarrow> 'd fs \<Rightarrow> bool \<times> 'd fs" where
  "fs_create_dir path s =
     (if \<not> initialized s then (False, s)
      else let copy = cstr_copy 256 path; p = (if copy \<noteq> [] \<and> hd copy = slash then tl copy else copy)
        in mkdir_loop p FS_ROOT_IDX s)"

text \<open>The names of a listing as fs_rm_rf reads them: the marks are dropped, wherever they occur,
  and a name ends after 254 characters that are kept.\<close>

fun rm_name :: "nat \<Rightarrow> string \<Rightarrow> string \<times> string" where
  "rm_name n [] = ([], [])"
| "rm_name n (c # p) =
     (if c = CHR 0x0A \<or> n \<ge> FS_FILENAME_LEN - 1 then ([], c # p)
      else if c \<noteq> slash \<and> c \<noteq> CHR ''@'' then (case rm_name (n + 1) p of (nm, q) \<Rightarrow> (c # nm, q))
      else rm_name n p)"

lemma rm_name_length: "length (snd (rm_name n p)) \<le> length p"
  by (induction n p rule: rm_name.induct) (auto split: prod.splits)

definition rm_rest :: "string \<Rightarrow> string" where
  "rm_rest p = (if p \<noteq> [] \<and> hd p = CHR 0x0A then tl p else p)"

lemma rm_rest_shorter:
  assumes "p \<noteq> []" and "rm_name 0 p = (nm, q)"
  shows "length (rm_rest q) < length p"
proof (cases p)
  case (Cons c p')
  show ?thesis
  proof (cases "c = CHR 0x0A")
    case True
    then show ?thesis using assms(2) Cons by (auto simp: rm_rest_def)
  next
    case False
    then have "length q \<le> length p'"
      using assms(2) Cons rm_name_length [of 1 p'] rm_name_length [of 0 p'] by (auto split: prod.splits if_splits)
    then show ?thesis using Cons by (auto simp: rm_rest_def)
  qed
qed (use assms in simp)

function rm_names :: "string \<Rightarrow> string list" where
  "rm_names p =
     (if p = [] then []
      else case rm_name 0 p of (nm, q) \<Rightarrow> (if nm = [] then rm_names (rm_rest q) else nm # rm_names (rm_rest q)))"
  by pat_completeness auto

termination by (relation "measure length") (auto intro: rm_rest_shorter [OF _ sym])

declare rm_names.simps [simp del]

definition child_path :: "string \<Rightarrow> string \<Rightarrow> string" where
  "child_path path name =
     (let c = take 255 path; c = (if c \<noteq> [] \<and> last c \<noteq> slash \<and> length c + 1 < 256 then c @ [slash] else c)
      in take 255 (c @ name))"

text \<open>fs_rm_rf calls itself on every name of the listing. The first argument bounds the depth of
  the calls; None is a call that is still nested at that depth.\<close>

fun fs_rm_rf :: "nat \<Rightarrow> string \<Rightarrow> 'd fs \<Rightarrow> (bool \<times> 'd fs) option" and
    rm_children :: "nat \<Rightarrow> string \<Rightarrow> string list \<Rightarrow> 'd fs \<Rightarrow> (bool \<times> 'd fs) option" where
  "fs_rm_rf 0 path s = None"
| "fs_rm_rf (Suc fuel) path s =
     (if path = ''/'' then Some (False, s)
      else case fs_path_stat path s of
        (None, s) \<Rightarrow> Some (False, s)
      | (Some st, s) \<Rightarrow>
          if st_flags st AND 2 \<noteq> 0 then
            (case fs_list_dir (Some path) 1024 s of
               (None, s) \<Rightarrow> Some (False, s)
             | (Some listing, s) \<Rightarrow>
                 (case rm_children fuel path (rm_names listing) s of
                    None \<Rightarrow> None
                  | Some (False, s) \<Rightarrow> Some (False, s)
                  | Some (True, s) \<Rightarrow> Some (fs_delete path s)))
          else Some (fs_delete path s))"
| "rm_children fuel path [] s = Some (True, s)"
| "rm_children fuel path (nm # nms) s =
     (case fs_rm_rf fuel (child_path path nm) s of
        None \<Rightarrow> None
      | Some (False, s) \<Rightarrow> Some (False, s)
      | Some (True, s) \<Rightarrow> rm_children fuel path nms s)"

definition fs_setxattr :: "string \<Rightarrow> string \<Rightarrow> u8 list \<Rightarrow> 'd fs \<Rightarrow> bool \<times> 'd fs" where
  "fs_setxattr path name val s =
     (case fs_lookup_index path False s of
        (idx, s) \<Rightarrow>
          if idx < 0 then (False, s)
          else attempt
            (if i_xattr (inode_at s idx) = 0 then
               (case fs_alloc_blocks 1 s of
                  (None, s) \<Rightarrow> (False, s)
                | (Some b, s) \<Rightarrow>
                    (True, snd (d_write b (replicate 512 0) (put_inode idx ((inode_at s idx)\<lparr>i_xattr := b\<rparr>) s))))
             else (True, s)) (\<lambda>s.
          case d_read (i_xattr (inode_at s idx)) s of
            (None, s) \<Rightarrow> (False, s)
          | (Some x, s) \<Rightarrow>
              (let nl = length name; sz = length val in
               if nl + 1 + sz + 1 \<ge> 512 then (False, s)
               else attempt (d_write (i_xattr (inode_at s idx))
                       (cbytes name @ [0] @ val @ [0] @ replicate (512 - (nl + sz + 2)) 0) s) fs_persist_meta)))"

definition fs_getxattr :: "string \<Rightarrow> string \<Rightarrow> nat \<Rightarrow> 'd fs \<Rightarrow> u8 list option \<times> 'd fs" where
  "fs_getxattr path name sz s =
     (case fs_lookup_index path False s of
        (idx, s) \<Rightarrow>
          if idx < 0 \<or> i_xattr (inode_at s idx) = 0 then (None, s)
          else case d_read (i_xattr (inode_at s idx)) s of
            (None, s) \<Rightarrow> (None, s)
          | (Some sec, s) \<Rightarrow>
              (let nl = length name in
               if nl + 1 \<ge> 512 then (None, s)
               else if take nl sec \<noteq> cbytes name \<or> sec ! nl \<noteq> 0 then (None, s)
               else (Some (take sz (takeWhile (\<lambda>b. b \<noteq> 0) (drop (nl + 1) sec))), s)))"

end
