(* ===== verification/KFsCreate.thy ===== *)
theory KFsCreate
  imports KFsOps
begin

text \<open>
  Creation of a file, from the path down to the sectors of the parent directory: the tree of
  directories changes by one entry and nothing else does.
\<close>

section \<open>Keeping files in order\<close>

text \<open>What a file in order depends on.\<close>

definition same_base :: "'d fs \<Rightarrow> 'd fs \<Rightarrow> bool" where
  "same_base s s' \<longleftrightarrow>
     (boot s')\<lparr>b_log_next := 0, b_inode_count := 0\<rparr> = (boot s)\<lparr>b_log_next := 0, b_inode_count := 0\<rparr> \<and>
     bitmap s' = bitmap s \<and> bitmap_sectors s' = bitmap_sectors s \<and> fs_current_uid s' = fs_current_uid s \<and>
     fs_current_gid s' = fs_current_gid s \<and> length (inodes s') = length (inodes s)"

lemma same_base_refl: "same_base s s"
  by (simp add: same_base_def)

lemma same_base_trans: "same_base s s1 \<Longrightarrow> same_base s1 s2 \<Longrightarrow> same_base s s2"
  by (simp add: same_base_def)

lemma cred_cong:
  "task_cred s' = task_cred s \<Longrightarrow> g_uid s' = g_uid s \<Longrightarrow> g_gid s' = g_gid s \<Longrightarrow>
    fs_current_uid s' = fs_current_uid s \<and> fs_current_gid s' = fs_current_gid s"
  by (simp add: fs_current_uid_def fs_current_gid_def split: option.split)

lemma same_base_boot:
  assumes "same_base s s'"
  shows "b_inode_table (boot s') = b_inode_table (boot s)" "b_bitmap_sector (boot s') = b_bitmap_sector (boot s)"
    "b_log_start (boot s') = b_log_start (boot s)" "b_log_size (boot s') = b_log_size (boot s)" "b_total (boot s') = b_total (boot s)"
    "fs_inode_sectors (boot s') = fs_inode_sectors (boot s)"
proof -
  have b: "(boot s')\<lparr>b_log_next := 0, b_inode_count := 0\<rparr> = (boot s)\<lparr>b_log_next := 0, b_inode_count := 0\<rparr>"
    using assms by (simp add: same_base_def)
  show "b_inode_table (boot s') = b_inode_table (boot s)" "b_bitmap_sector (boot s') = b_bitmap_sector (boot s)"
    "b_log_start (boot s') = b_log_start (boot s)" "b_log_size (boot s') = b_log_size (boot s)" "b_total (boot s') = b_total (boot s)"
    using arg_cong [OF b, of b_inode_table] arg_cong [OF b, of b_bitmap_sector] arg_cong [OF b, of b_log_start]
      arg_cong [OF b, of b_log_size] arg_cong [OF b, of b_total] by simp_all
  show "fs_inode_sectors (boot s') = fs_inode_sectors (boot s)"
    using arg_cong [OF b, of b_inode_slots] by (simp add: fs_inode_sectors_def)
qed

lemma same_base_meta:
  assumes "same_base s s'"
  shows "meta_area s' = meta_area s" "meta_layout s' = meta_layout s" "log_room s' = log_room s"
proof -
  note b = same_base_boot [OF assms]
  have m: "bitmap s' = bitmap s" "bitmap_sectors s' = bitmap_sectors s" using assms by (simp_all add: same_base_def)
  show "meta_area s' = meta_area s" "meta_layout s' = meta_layout s" "log_room s' = log_room s"
    by (simp_all add: meta_area_def meta_layout_def log_room_def meta_txn_def log_area_def Let_def b m split: option.split)
qed

lemma file_ready_cong:
  assumes "file_ready d s" and "same_base s s'" and "fs_io_ff s'" and "ino s' d = ino s d"
    and "\<forall>l \<in> set (inode_lbas (ino s d) (fview s)) \<union> {i_indirect (ino s d)} - {0}. fview s' l = fview s l"
  shows "file_ready d s'" "file_bytes (ino s' d) (fview s') = file_bytes (ino s d) (fview s)"
    "inode_lbas (ino s' d) (fview s') = inode_lbas (ino s d) (fview s)"
proof -
  note f = file_readyD [OF assms(1)]
  note c = file_cong [OF f(10) assms(5) f(12)]
  show "file_bytes (ino s' d) (fview s') = file_bytes (ino s d) (fview s)"
    "inode_lbas (ino s' d) (fview s') = inode_lbas (ino s d) (fview s)" using c assms(4) by simp_all
  have ok: "file_ok (boot s') i v = file_ok (boot s) i v" for i v
    by (simp add: file_ok_def inode_ok_def extent_ok_def same_base_boot [OF assms(2)])
  have "fs_access_ok d w s' = fs_access_ok d w s" for w
    using assms(2) by (simp add: fs_access_ok_def assms(4) same_base_def)
  moreover have "length (inodes s') = length (inodes s)" using assms(2) by (simp add: same_base_def)
  ultimately show "file_ready d s'"
    using f c assms(3) unfolding file_ready_def assms(4) ok same_base_meta [OF assms(2)] by simp
qed

lemma dir_ready_cong:
  assumes "dir_ready d es s" and "same_base s s'" and "fs_io_ff s'" and "ino s' d = ino s d"
    and "\<forall>l \<in> set (inode_lbas (ino s d) (fview s)) \<union> {i_indirect (ino s d)} - {0}. fview s' l = fview s l"
  shows "dir_ready d es s'"
proof -
  have "file_ready d s" using assms(1) by (simp add: dir_ready_def)
  note c = file_ready_cong [OF this assms(2-5)]
  show ?thesis using assms(1) c unfolding dir_ready_def by (simp add: assms(4))
qed

lemma same_view_base:
  assumes "same_view s s'"
  shows "same_base s s'" "inodes s' = inodes s" "hp s' = hp s" "fs_io_ff s'" "fview s' = fview s" "now s' = now s"
proof -
  have m: "same_meta s s'" "fs_io_ff s'" "fview s' = fview s" using assms by (simp_all add: same_view_def)
  note i = meta_ofD [OF same_metaD(2) [OF m(1)]] same_metaD(1) [OF m(1)]
  show "same_base s s'" using cred_cong [of s' s] by (simp add: same_base_def i)
  show "inodes s' = inodes s" "hp s' = hp s" "fs_io_ff s'" "fview s' = fview s" "now s' = now s" using m i by simp_all
qed

lemma put_ino_base: "same_base s (put_ino k i s)" "ino_range d \<Longrightarrow> d \<noteq> k \<Longrightarrow> ino_range k \<Longrightarrow> ino (put_ino k i s) d = ino s d"
  by (simp_all add: same_base_def) (auto simp: put_ino_def ino_range_def)

lemma hp_put_ino [simp]: "hp (put_ino k i s) = hp s"
  by (simp add: put_ino_def)

lemma frame_base: "file_frame idx s s' \<Longrightarrow> same_base s s'"
  using cred_cong [of s' s] by (simp add: file_frame_def same_base_def meta_of_def)

lemma inc_inode_base:
  "same_base s (inc_inode_count s)" "inodes (inc_inode_count s) = inodes s" "fview (inc_inode_count s) = fview s"
  "hp (inc_inode_count s) = hp s" "fs_io_ff (inc_inode_count s) = fs_io_ff s"
  using cred_cong [of "inc_inode_count s" s]
  by (simp_all add: same_base_def inc_inode_count_def fs_io_ff_def)

text \<open>Directories of different numbers share no sectors.\<close>

definition dirs_apart :: "'d fs \<Rightarrow> bool" where
  "dirs_apart s \<longleftrightarrow> (\<forall>d e. ino_range d \<and> ino_range e \<and> d \<noteq> e \<and> iflag (ino s d) FS_FLAG_DIRECTORY \<and> iflag (ino s e) FS_FLAG_DIRECTORY \<longrightarrow>
     (set (inode_lbas (ino s e) (fview s)) \<union> {i_indirect (ino s e)} - {0}) \<inter> set (inode_lbas (ino s d) (fview s)) = {})"

lemma fs_alloc_inode_free:
  assumes "fs_alloc_inode s = idx" and "0 \<le> idx" and "length (inodes s) = FS_MAX_INODES"
  shows "ino_range idx" "\<not> iflag (ino s idx) FS_FLAG_OCCUPIED"
    "\<forall>j. 0 < j \<and> j < idx \<longrightarrow> iflag (ino s j) FS_FLAG_OCCUPIED"
proof -
  from assms(1,2) obtain k where k: "find_slot (\<lambda>i. \<not> iflag i FS_FLAG_OCCUPIED) (tl (inodes s)) = Some k" "idx = int (k + 1)"
    by (auto simp: fs_alloc_inode_def split: option.splits)
  note d = find_slot_SomeD [OF k(1)]
  have nt: "tl (inodes s) ! j = inodes s ! (j + 1)" if "j < 1023" for j
    using that assms(3) by (simp add: nth_tl)
  show "ino_range idx" "\<not> iflag (ino s idx) FS_FLAG_OCCUPIED"
    using d(1,2) nt [of k] k(2) assms(3) by (simp_all add: ino_range_def nat_add_distrib)
  show "\<forall>j. 0 < j \<and> j < idx \<longrightarrow> iflag (ino s j) FS_FLAG_OCCUPIED"
  proof (intro allI impI)
    fix j :: int
    assume j: "0 < j \<and> j < idx"
    then have "nat j - 1 < k" "nat j - 1 + 1 = nat j" using k(2) by auto
    then show "iflag (ino s j) FS_FLAG_OCCUPIED" using d(3) [of "nat j - 1"] nt [of "nat j - 1"] d(1) assms(3) by simp
  qed
qed


lemma persist_ready:
  assumes "fs_io_ff s" and "meta_layout s" and "log_room s"
  obtains s' where "fs_persist_meta s = (True, s')" "same_base s s'" "inodes s' = inodes s" "hp s' = hp s" "fs_io_ff s'"
    "\<forall>l. l \<notin> meta_area s \<longrightarrow> fview s' l = fview s l" "meta_of s' = meta_of s"
proof -
  from fs_persist_meta_frame [OF assms] obtain s' where
    s': "fs_persist_meta s = (True, s')" "fs_io_ff s'" "meta_of s' = meta_of s" "boot s' = (boot s)\<lparr>b_log_next := 0\<rparr>"
      "\<forall>l. l \<notin> meta_area s \<longrightarrow> fview s' l = fview s l" by blast
  note m = meta_ofD [OF s'(3)]
  have "same_base s s'" using cred_cong [of s' s] by (simp add: same_base_def m s'(4))
  then show thesis using that s'(1,2,3,5) m by simp
qed

text \<open>The inode that fs_create_file writes.\<close>

definition new_inode :: "u16 \<Rightarrow> int \<Rightarrow> 'd fs \<Rightarrow> fs_inode" where
  "new_inode mode parent s = zero_inode\<lparr>i_flags := FS_FLAG_OCCUPIED, i_mode := (if mode \<noteq> 0 then mode else FS_MODE_FILE),
     i_uid := fs_current_uid s, i_gid := fs_current_gid s, i_nlink := 1, i_parent := of_int parent,
     i_atime := now s, i_mtime := now s, i_ctime := now s\<rparr>"

text \<open>The tree after adding an entry: the other directories are as they were.\<close>

lemma dir_table_add:
  assumes t: "dir_table D s" and apart: "dirs_apart s" and p: "ino_range parent" "iflag (ino s parent) FS_FLAG_DIRECTORY"
    and idx: "ino_range idx" "\<not> iflag (ino s idx) FS_FLAG_OCCUPIED" "\<not> iflag (ino s' idx) FS_FLAG_DIRECTORY"
    and b: "same_base s s'" "hp s' = hp s" "fs_io_ff s'" "dir_ready parent es s'"
    and i: "\<forall>d. ino_range d \<and> d \<noteq> parent \<and> d \<noteq> idx \<longrightarrow> ino s' d = ino s d"
    and v: "\<forall>l. l \<notin> set (inode_lbas (ino s parent) (fview s)) \<union> meta_area s \<longrightarrow> fview s' l = fview s l"
  shows "dir_table (D(parent := es)) s'"
proof -
  have "D idx = []"
  proof (rule ccontr)
    assume "D idx \<noteq> []"
    then have "dir_ready idx (D idx) s" using t unfolding dir_table_def by metis
    then show False using idx(2) file_readyD(3) by (auto simp: dir_ready_def)
  qed
  have pd: "iflag (ino s' parent) FS_FLAG_DIRECTORY" using b(4) by (simp add: dir_ready_def)
  have "if ino_range d \<and> iflag (ino s' d) FS_FLAG_DIRECTORY then dir_ready d ((D(parent := es)) d) s' else (D(parent := es)) d = []" for d
  proof (cases "d = parent \<or> d = idx \<or> \<not> ino_range d")
    case True
    have "\<not> ino_range d \<longrightarrow> D d = []" using t unfolding dir_table_def by metis
    with True show ?thesis using b(4) pd p(1) idx(1,3) \<open>D idx = []\<close> by auto
  next
    case False
    then have d: "d \<noteq> parent" "ino_range d" "ino s' d = ino s d" using i by simp_all
    show ?thesis
    proof (cases "iflag (ino s d) FS_FLAG_DIRECTORY")
      case True
      then have r: "dir_ready d (D d) s" using t d(2) unfolding dir_table_def by metis
      then have f: "file_ready d s" by (simp add: dir_ready_def)
      have "\<forall>l \<in> set (inode_lbas (ino s d) (fview s)) \<union> {i_indirect (ino s d)} - {0}. fview s' l = fview s l"
      proof
        fix l assume l: "l \<in> set (inode_lbas (ino s d) (fview s)) \<union> {i_indirect (ino s d)} - {0}"
        then have "l \<notin> meta_area s" using file_readyD(11) [OF f] by (meson disjoint_iff)
        moreover have "l \<notin> set (inode_lbas (ino s parent) (fview s))"
          using l apart p d(1,2) True unfolding dirs_apart_def by (metis disjoint_iff)
        ultimately show "fview s' l = fview s l" using v by simp
      qed
      then have "dir_ready d (D d) s'" using dir_ready_cong [OF r b(1,3) d(3)] by simp
      then show ?thesis using d True by simp
    next
      case False
      then have "D d = []" using t unfolding dir_table_def by metis
      then show ?thesis using False d by simp
    qed
  qed
  then show ?thesis using t b(2,3) unfolding dir_table_def by metis
qed

lemma add_and_persist:
  fixes es child name
  defines "es' \<equiv> es @ [(child, name)]"
  assumes "dir_ready d es s" and "heap_room 65536 (hp s)" and "name \<noteq> []" and "length name \<le> 255" and "\<not> list_ex (entry_of name) es"
    and "length (enc_dir es') \<le> 65536" "(length (enc_dir es') + 511) div 512 = length (inode_lbas (ino s d) (fview s))"
  obtains s1 s2 where "dir_add_entry d child name s = (True, s1)" "fs_persist_meta (inc_inode_count s1) = (True, s2)"
    "dir_ready d es' s2" "same_base s s2" "hp s2 = hp s" "fs_io_ff s2" "\<forall>j. j \<noteq> nat d \<longrightarrow> inodes s2 ! j = inodes s ! j"
    "\<forall>l. l \<notin> set (inode_lbas (ino s d) (fview s)) \<union> meta_area s \<longrightarrow> fview s2 l = fview s l"
proof -
  from dir_add_entry_eq [OF assms(2-6), of child] assms(7,8) obtain s1 where
    s1: "dir_add_entry d child name s = (True, s1)" "dir_ready d es' s1" "dir_step d s s1" unfolding es'_def by blast
  have fr: "file_frame d s s1" "hp s1 = hp s"
      "\<forall>l. l \<notin> set (inode_lbas (ino s d) (fview s)) \<union> meta_area s \<longrightarrow> fview s1 l = fview s l"
    using s1(3) by (simp_all add: dir_step_def)
  note b1 = frame_base [OF fr(1)]
  note f = file_readyD [OF conjunct1 [OF s1(2) [unfolded dir_ready_def]]]
  obtain s2 where s2: "fs_persist_meta (inc_inode_count s1) = (True, s2)" "same_base (inc_inode_count s1) s2" "inodes s2 = inodes s1"
      "hp s2 = hp s1" "fs_io_ff s2" "\<forall>l. l \<notin> meta_area s1 \<longrightarrow> fview s2 l = fview s1 l"
    using persist_ready [of "inc_inode_count s1"] f(7-9) unfolding inc_inode_base same_base_meta [OF inc_inode_base(1), of s1] by metis
  note b2 = same_base_trans [OF inc_inode_base(1) s2(2)]
  have "dir_ready d es' s2"
    by (rule dir_ready_cong [OF s1(2) b2 s2(5)]) (use s2(3,6) f(11) in \<open>auto simp: disjoint_iff\<close>)
  moreover have "\<forall>l. l \<notin> set (inode_lbas (ino s d) (fview s)) \<union> meta_area s \<longrightarrow> fview s2 l = fview s l"
    using fr(3) s2(6) same_base_meta(1) [OF b1] by simp
  moreover have "\<forall>j. j \<noteq> nat d \<longrightarrow> inodes s2 ! j = inodes s ! j" using fr(1) by (simp add: s2(3) file_frame_def)
  ultimately show thesis using that s1(1) s2(1,4,5) fr(2) same_base_trans [OF b1 b2] by simp
qed



end
