(* ===== verification/KFsCheck.thy ===== *)
theory KFsCheck
  imports KFsCreate
begin

text \<open>
  The checker fs_fsck, the test of the superblock and the initialisation fs_init of
  src/kernel/fs.cpp. What fs_init calls of the disk manager (selecting the disk, its size) is
  an argument.
\<close>

definition fs_layout_valid :: "fs_boot_sector \<Rightarrow> bool" where
  "fs_layout_valid b =
     (if b_magic b \<noteq> FS_MAGIC then False
      else if b_version b \<noteq> FS_VERSION then False
      else if b_inode_table b = 0 \<or> b_bitmap_sector b = 0 then False
      else if b_total b < 64 then False
      else if b_inode_slots b = 0 \<or> b_inode_slots b > of_nat FS_MAX_INODES then False
      else if b_root_ino b \<noteq> of_nat FS_ROOT_INO then False
      else let table_end = b_inode_table b + fs_inode_sectors b in
        if table_end \<ge> b_total b then False
        else if b_bitmap_sector b < table_end then False
        else let bitmap_end = b_bitmap_sector b + (b_bitmap_size b + 512 - 1) div 512 in
          if bitmap_end > b_total b then False
          else if b_data_start b < bitmap_end then False
          else if b_log_size b > 0 then
            (if b_log_start b = 0 then False
             else if b_log_start b + b_log_size b > b_total b then False
             else True)
          else True)"

text \<open>The counters, the marked sectors and the link counts of a run of fs_fsck.\<close>

record fsck =
  errs :: nat
  reps :: nat
  mark :: "bool list"
  links :: "u32 list"

definition err :: "fsck \<Rightarrow> fsck" where "err f = f\<lparr>errs := errs f + 1\<rparr>"

definition rep :: "fsck \<Rightarrow> fsck" where "rep f = f\<lparr>reps := reps f + 1\<rparr>"

definition set_mark :: "u32 \<Rightarrow> fsck \<Rightarrow> fsck" where "set_mark l f = f\<lparr>mark := (mark f)[unat l := True]\<rparr>"

definition fsck_sector :: "bool \<Rightarrow> nat \<Rightarrow> nat \<Rightarrow> fsck \<times> 'd fs \<Rightarrow> fsck \<times> 'd fs" where
  "fsck_sector repair i k = (\<lambda>(f, s).
     case inode_map_sector (inodes s ! i) (of_nat k) s of
       (None, s) \<Rightarrow> (err f, s)
     | (Some lba, s) \<Rightarrow>
         if lba \<ge> b_total (boot s) then (err f, s)
         else let f = set_mark lba (if mark f ! unat lba then err f else f) in
           if \<not> fs_bitmap_test s lba then
             (if repair then (rep (err f), fs_bitmap_set lba True s) else (err f, s))
           else (f, s))"

text \<open>The walk over the records of a directory: a record of a free or impossible inode has its
  number cleared by a repair, any other counts as a link.\<close>

definition fsck_dirent :: "bool \<Rightarrow> 'd fs \<Rightarrow> nat \<times> u32 \<times> nat \<times> nat \<Rightarrow> fsck \<times> u8 list \<times> bool \<Rightarrow> fsck \<times> u8 list \<times> bool" where
  "fsck_dirent repair s = (\<lambda>(off, num, nl, rec) (f, blob, touched).
     if num = 0 then (f, blob, touched)
     else if unat num \<ge> FS_MAX_INODES \<or> \<not> iflag (inodes s ! unat num) FS_FLAG_OCCUPIED then
       (if repair then (rep (err f), take off blob @ [0, 0, 0, 0] @ drop (off + 4) blob, True) else (err f, blob, touched))
     else (f\<lparr>links := (links f)[unat num := links f ! unat num + 1]\<rparr>, blob, touched))"

definition fsck_dir :: "bool \<Rightarrow> nat \<Rightarrow> fsck \<Rightarrow> 'd fs \<Rightarrow> fsck \<times> 'd fs" where
  "fsck_dir repair i f s =
     (case inode_byte_capacity (inodes s ! i) s of
        (cap, s) \<Rightarrow>
          (let (f, s) = (if i_size (inodes s ! i) > cap then
                           (if repair then (rep (err f), s\<lparr>inodes := (inodes s)[i := (inodes s ! i)\<lparr>i_size := cap\<rparr>]\<rparr>)
                            else (err f, s))
                         else (f, s))
           in case dir_logical_size (int i) s of
                (n, s) \<Rightarrow>
                  if n = 0 then (f, s)
                  else with_buf (unat n) f (\<lambda>s.
                    case fs_index_read (int i) 0 (unat n) s of
                      (None, s) \<Rightarrow> (f, s)
                    | (Some bs, s) \<Rightarrow>
                        (let blob = fill s (unat n) bs in
                         case fold (fsck_dirent repair s) (dirents 0 (unat n) blob) (f, blob, False) of
                           (f, blob, touched) \<Rightarrow>
                             (f, if repair \<and> touched then snd (fs_index_write (int i) 0 blob s) else s))) s))"

definition fsck_inode :: "bool \<Rightarrow> nat \<Rightarrow> fsck \<times> 'd fs \<Rightarrow> fsck \<times> 'd fs" where
  "fsck_inode repair i = (\<lambda>(f, s).
     if \<not> iflag (inodes s ! i) FS_FLAG_OCCUPIED then (f, s)
     else case inode_sector_count (inodes s ! i) s of
       (secs, s) \<Rightarrow>
         (case fold (fsck_sector repair i) [0..<unat secs] (f, s) of
            (f, s) \<Rightarrow>
              (let ind = i_indirect (inodes s ! i);
                   f = (if ind \<noteq> 0 \<and> ind < b_total (boot s) then set_mark ind f else f)
               in if iflag (inodes s ! i) FS_FLAG_DIRECTORY then fsck_dir repair i f s else (f, s))))"

definition fsck_link :: "bool \<Rightarrow> nat \<Rightarrow> fsck \<times> 'd fs \<Rightarrow> fsck \<times> 'd fs" where
  "fsck_link repair i = (\<lambda>(f, s).
     if \<not> iflag (inodes s ! i) FS_FLAG_OCCUPIED then (f, s)
     else if i = FS_ROOT_INO then (f, s)
     else let expect = ucast (links f ! i) :: u16 in
       if expect = 0 then
         (if repair then
            (case inode_clear_extents (inodes s ! i) s of
               (_, s) \<Rightarrow> (rep (err f), s\<lparr>inodes := (inodes s)[i := zero_inode]\<rparr>))
          else (err f, s))
       else if i_nlink (inodes s ! i) \<noteq> expect then
         (if repair then (rep (err f), s\<lparr>inodes := (inodes s)[i := (inodes s ! i)\<lparr>i_nlink := expect\<rparr>]\<rparr>)
          else (err f, s))
       else (f, s))"

definition fsck_free :: "nat \<Rightarrow> fsck \<times> 'd fs \<Rightarrow> fsck \<times> 'd fs" where
  "fsck_free i = (\<lambda>(f, s).
     if \<not> mark f ! i \<and> fs_bitmap_test s (of_nat i) then (rep f, fs_bitmap_set (of_nat i) False s) else (f, s))"

text \<open>The result is the number of repairs or of errors; None is -1. The buffer of the marks is
  live during the whole run.\<close>

definition fs_fsck :: "bool \<Rightarrow> 'd fs \<Rightarrow> nat option \<times> 'd fs" where
  "fs_fsck repair s =
     (if \<not> initialized s then (None, s)
      else case fs_malloc (unat (b_total (boot s))) s of
        (None, s) \<Rightarrow> (None, s)
      | (Some p, s) \<Rightarrow>
          (let base = unat (fs_alloc_base_sector (boot s)); total = unat (b_total (boot s));
               f = \<lparr>errs = 0, reps = 0, mark = map (\<lambda>i. i < base) [0..<total], links = replicate FS_MAX_INODES 0\<rparr>;
               (f, s) = fold (fsck_inode repair) [1..<FS_MAX_INODES] (f, s);
               (f, s) = fold (fsck_link repair) [1..<FS_MAX_INODES] (f, s);
               (f, s) = (if repair then
                           (case fold fsck_free [base..<total] (f, s) of (f, s) \<Rightarrow> (f, snd (fs_persist_meta s)))
                         else (f, s))
           in (Some (if repair then reps f else errs f), fs_free p s)))"

definition fs_check_integrity :: "'d fs \<Rightarrow> nat option \<times> 'd fs" where
  "fs_check_integrity s = fs_fsck False s"

section \<open>Initialisation\<close>

text \<open>Transfers of several sectors past the cache, sector by sector as the drivers do them.\<close>

fun disk_read_sectors :: "u32 \<Rightarrow> nat \<Rightarrow> 'd fs_cache \<Rightarrow> bool \<times> u8 list \<times> 'd fs_cache" where
  "disk_read_sectors l 0 c = (True, [], c)"
| "disk_read_sectors l (Suc n) c =
     (case disk_read_sector l (replicate 512 0) c of
        (False, x, c) \<Rightarrow> (False, [], c)
      | (True, x, c) \<Rightarrow> (case disk_read_sectors (l + 1) n c of (ok, xs, c) \<Rightarrow> (ok, x @ xs, c)))"

fun disk_write_sectors :: "u32 \<Rightarrow> sector list \<Rightarrow> 'd fs_cache \<Rightarrow> bool \<times> 'd fs_cache" where
  "disk_write_sectors l [] c = (True, c)"
| "disk_write_sectors l (x # xs) c =
     (case disk_write_sector l x c of (False, c) \<Rightarrow> (False, c) | (True, c) \<Rightarrow> disk_write_sectors (l + 1) xs c)"

definition raw_write :: "u32 \<Rightarrow> sector list \<Rightarrow> 'd fs \<Rightarrow> bool \<times> 'd fs" where
  "raw_write l xs s = (case disk_write_sectors l xs (cache s) of (ok, c) \<Rightarrow> (ok, s\<lparr>cache := c\<rparr>))"

definition new_boot :: "u32 \<Rightarrow> fs_boot_sector" where
  "new_boot disk_size =
     (let total = (if disk_size = 0 then 1024 else disk_size);
          b = \<lparr>b_magic = FS_MAGIC, b_version = FS_VERSION, b_total = total, b_inode_table = 1, b_data_start = 0,
               b_inode_count = 0, b_bitmap_sector = 0, b_bitmap_size = 0, b_log_start = 0, b_log_size = 0, b_log_next = 0,
               b_log_magic = 0, b_inode_slots = of_nat FS_MAX_INODES, b_root_ino = of_nat FS_ROOT_INO, b_quota = 0,
               b_reserved = replicate 452 0\<rparr>;
          b = b\<lparr>b_bitmap_sector := 1 + fs_inode_sectors b, b_bitmap_size := (total + 7) div 8\<rparr>;
          data = b_bitmap_sector b + (b_bitmap_size b + 512 - 1) div 512
      in b\<lparr>b_data_start := data, b_log_start := data, b_log_size := 64, b_log_magic := 0x4C4F4700, b_inode_count := 1\<rparr>)"

definition root_inode :: "u32 \<Rightarrow> fs_inode" where
  "root_inode t = zero_inode\<lparr>i_flags := FS_FLAG_OCCUPIED OR FS_FLAG_DIRECTORY, i_mode := FS_MODE_DIR, i_nlink := 1,
     i_parent := of_nat FS_ROOT_INO, i_atime := t, i_mtime := t, i_ctime := t\<rparr>"

abbreviation (input) initial_dirs :: "string list" where
  "initial_dirs \<equiv> [''/bin'', ''/usr'', ''/usr/bin'', ''/etc'', ''/etc/network'', ''/dev'', ''/mnt'', ''/home'', ''/tmp'',
     ''/www'', ''/var'']"

definition fs_format :: "u32 \<Rightarrow> 'd fs \<Rightarrow> bool \<times> 'd fs" where
  "fs_format disk_size s =
     (let b = new_boot disk_size; n = (b_bitmap_size b + 512 - 1) div 512;
          s = s\<lparr>boot := b, inodes := (replicate FS_MAX_INODES zero_inode)[FS_ROOT_INO := root_inode (now s)], bitmap_sectors := n\<rparr>
      in case fs_malloc (unat (n * 512)) s of
           (None, s) \<Rightarrow> (False, s\<lparr>bitmap := None\<rparr>)
         | (Some p, s) \<Rightarrow>
             (let s = s\<lparr>bitmap := Some (replicate (unat (n * 512)) 0)\<rparr>;
                  s = fold (\<lambda>i. fs_bitmap_set (of_nat i) True) [0..<unat (b_data_start b + 64)] s
              in attempt (raw_write (b_bitmap_sector b) (map (chunk (the (bitmap s))) [0..<unat n]) s) (\<lambda>s.
                 attempt (raw_write 0 [enc_boot (boot s)] s) (\<lambda>s.
                 attempt (raw_write (b_inode_table b) (map (chunk (inode_bytes s)) [0..<unat (fs_inode_sectors b)]) s) (\<lambda>s.
                   let s = s\<lparr>initialized := True, cache := fs_cache_invalidate_all (cache s)\<rparr>;
                       s = snd (fs_load_bitmap s)
                   in (True, fold (\<lambda>d s. snd (fs_create_dir d s)) initial_dirs s))))))"

definition dec_inodes :: "u8 list \<Rightarrow> fs_inode list" where
  "dec_inodes bs = map (\<lambda>k. dec_inode (drop (INODE_BYTES * k) bs)) [0..<FS_MAX_INODES]"

definition clamp_size :: "nat \<Rightarrow> 'd fs \<Rightarrow> 'd fs" where
  "clamp_size i s =
     (if \<not> iflag (inodes s ! i) FS_FLAG_OCCUPIED then s
      else case inode_byte_capacity (inodes s ! i) s of
        (cap, s) \<Rightarrow>
          if i_size (inodes s ! i) > cap then s\<lparr>inodes := (inodes s)[i := (inodes s ! i)\<lparr>i_size := cap\<rparr>]\<rparr> else s)"

text \<open>The inode table is read into the array; a table shorter than the array leaves its tail.\<close>

definition fs_load :: "'d fs \<Rightarrow> bool \<times> 'd fs" where
  "fs_load s =
     (case disk_read_sectors (b_inode_table (boot s)) (unat (fs_inode_sectors (boot s))) (cache s) of
        (ok, bs, c) \<Rightarrow>
          (let s = s\<lparr>cache := c, inodes := dec_inodes (bs @ drop (length bs) (inode_bytes s))\<rparr>
           in if \<not> ok then (False, s)
              else attempt (fs_load_bitmap (s\<lparr>initialized := True\<rparr>)) (\<lambda>s.
                let s = (if b_log_next (boot s) > 0 then snd (fs_recover s) else s);
                    s = fold clamp_size [1..<FS_MAX_INODES] s
                in (True, snd (fs_fsck True s)))))"

definition fs_init :: "int \<Rightarrow> bool \<Rightarrow> u32 \<Rightarrow> 'd fs \<Rightarrow> bool \<times> 'd fs" where
  "fs_init disk_id selected disk_size s =
     (if disk_id \<ge> 0 \<and> \<not> selected then (False, s)
      else if initialized s then (True, s)
      else let c = fs_cache_init (cache s) in
        case disk_read_sector 0 (enc_boot (boot s)) c of
          (ok, x, c) \<Rightarrow>
            (let s = s\<lparr>cache := c, boot := dec_boot x\<rparr> in
             if \<not> ok then (False, s)
             else if \<not> fs_layout_valid (boot s) then fs_format disk_size s
             else fs_load s))"


section \<open>The layout of a new file system\<close>

lemma new_boot_fields:
  assumes "n \<noteq> 0" and "unat n < 2 ^ 32 - 7"
  shows "b_total (new_boot n) = n" "b_inode_table (new_boot n) = 1" "b_bitmap_sector (new_boot n) = 273"
    "fs_inode_sectors (new_boot n) = 272" "b_log_size (new_boot n) = 64" "b_log_start (new_boot n) = b_data_start (new_boot n)"
    "unat (b_bitmap_size (new_boot n)) = (unat n + 7) div 8"
    "unat (b_data_start (new_boot n)) = 273 + ((unat n + 7) div 8 + 511) div 512"
    "unat ((b_bitmap_size (new_boot n) + 512 - 1) div 512) = ((unat n + 7) div 8 + 511) div 512"
proof -
  have f: "b_total (new_boot n) = n" "b_inode_table (new_boot n) = 1" "b_bitmap_sector (new_boot n) = 273"
    "fs_inode_sectors (new_boot n) = 272" "b_log_size (new_boot n) = 64" "b_log_start (new_boot n) = b_data_start (new_boot n)"
    "b_bitmap_size (new_boot n) = (n + 7) div 8"
    "b_data_start (new_boot n) = 273 + ((n + 7) div 8 + 512 - 1) div 512"
    using assms(1) by (simp_all add: new_boot_def fs_inode_sectors_def Let_def)
  then show "b_total (new_boot n) = n" "b_inode_table (new_boot n) = 1" "b_bitmap_sector (new_boot n) = 273"
    "fs_inode_sectors (new_boot n) = 272" "b_log_size (new_boot n) = 64" "b_log_start (new_boot n) = b_data_start (new_boot n)"
    by simp_all
  have a: "(n + 7) div 8 + 512 - 1 = (n + 7) div 8 + 511" by simp
  have u: "unat ((n + 7) div 8) = (unat n + 7) div 8" using assms(2) by (simp add: unat_div unat_word_ariths)
  moreover have "(unat n + 7) div 8 < 2 ^ 29" using assms(2) by (simp add: less_mult_imp_div_less)
  ultimately have v: "unat (((n + 7) div 8 + 511) div 512) = ((unat n + 7) div 8 + 511) div 512"
    by (simp add: unat_div unat_word_ariths)
  show "unat (b_bitmap_size (new_boot n)) = (unat n + 7) div 8" using u f(7) by simp
  show "unat ((b_bitmap_size (new_boot n) + 512 - 1) div 512) = ((unat n + 7) div 8 + 511) div 512" unfolding f(7) a by (rule v)
  have "((unat n + 7) div 8 + 511) div 512 < 2 ^ 29" using \<open>(unat n + 7) div 8 < 2 ^ 29\<close> by (simp add: less_mult_imp_div_less)
  then show "unat (b_data_start (new_boot n)) = 273 + ((unat n + 7) div 8 + 511) div 512"
    unfolding f(8) a v [symmetric] by (simp add: unat_word_ariths(1))
qed

lemma new_boot_ids:
  "b_magic (new_boot n) = FS_MAGIC" "b_version (new_boot n) = FS_VERSION" "b_inode_slots (new_boot n) = 1024" "b_root_ino (new_boot n) = 1"
  by (simp_all add: new_boot_def Let_def)

text \<open>
  C27: a disk formatted by fs_init is accepted by the test of the superblock at the next mount
  exactly if it has at least 338 sectors; then the bitmap has a bit for every sector and the
  journal lies behind it, inside the disk. (A smaller disk is formatted again on every mount.)
\<close>

theorem fs_format_layout:
  assumes "n \<noteq> 0" and "unat n < 2 ^ 32 - 7"
  shows "(fs_layout_valid (dec_boot (enc_boot (new_boot n))) \<longleftrightarrow> 338 \<le> unat n) \<and>
    unat n \<le> 8 * (512 * unat ((b_bitmap_size (new_boot n) + 512 - 1) div 512)) \<and>
    (338 \<le> unat n \<longrightarrow> unat (b_log_start (new_boot n)) + unat (b_log_size (new_boot n)) \<le> unat n)"
proof -
  note f = new_boot_fields [OF assms]
  let ?q = "((unat n + 7) div 8 + 511) div 512"
  have "(x + 7) div 8 * 8 \<ge> x" "(x + 511) div 512 * 512 \<ge> x" for x :: nat
    using div_mult_mod_eq [of "x + 7" 8] mod_less_divisor [of 8 "x + 7"] div_mult_mod_eq [of "x + 511" 512] mod_less_divisor [of 512 "x + 511"]
    by linarith+
  from this(1) [of "unat n"] this(2) [of "(unat n + 7) div 8"] have c: "unat n \<le> 8 * (512 * ?q)" by linarith
  have q: "?q * 4096 \<le> unat n + 4095"
  proof -
    have "?q * 512 \<le> (unat n + 7) div 8 + 511" "(unat n + 7) div 8 * 8 \<le> unat n + 7" by (rule div_times_less_eq_dividend)+
    then show ?thesis by linarith
  qed
  have q0: "1 \<le> ?q" using assms(1) c by (cases "?q = 0") (simp_all add: unat_eq_zero)
  have big: "337 + ?q \<le> unat n" if "338 \<le> unat n" using q that by linarith
  have lt: "unat n < 2 ^ 32" by (rule unat_lt32)
  have e: "273 + (b_bitmap_size (new_boot n) + 512 - 1) div 512 = b_data_start (new_boot n)"
    using f(8,9) q lt by (simp add: word_unat_eq_iff unat_word_ariths)
  have l: "unat (b_data_start (new_boot n) + 64) = 337 + ?q" using f(8) q lt by (simp add: unat_word_ariths)
  have "fs_layout_valid (new_boot n) \<longleftrightarrow> 338 \<le> unat n"
  proof (cases "338 \<le> unat n")
    case True
    then show ?thesis using big [OF True] q0 f(8) l unfolding fs_layout_valid_def Let_def e f(1-6) new_boot_ids
      by (simp add: word_less_nat_alt word_le_nat_alt word_unat_eq_iff)
  next
    case False
    then show ?thesis using q0 l unfolding fs_layout_valid_def Let_def e f(1-6) by (simp add: word_less_nat_alt word_le_nat_alt)
  qed
  then show ?thesis using c big f(8) unfolding f(5,6,9) dec_enc_boot by auto
qed

theorem fs_format_layout_witness:
  "fs_layout_valid (dec_boot (enc_boot (new_boot 2048))) \<and> \<not> fs_layout_valid (dec_boot (enc_boot (new_boot 200)))"
  using fs_format_layout [of 2048] fs_format_layout [of 200] by simp


section \<open>Recovery at mount\<close>

lemma close_log_meta: "meta_of (close_log s) = meta_of s \<and> boot (close_log s) = (boot s)\<lparr>b_log_next := 0\<rparr>"
proof -
  obtain ok s' where d: "d_write 0 (enc_boot (boot (set_log_next 0 s))) (set_log_next 0 s) = (ok, s')" by fastforce
  show ?thesis using io_same_meta(2) [OF d] d by (simp add: close_log_def Let_def same_meta_def set_log_next_def meta_of_def)
qed

lemma fs_recover_base:
  assumes "fs_recover s = (ok, s')"
  shows "meta_of s' = meta_of s" "(boot s')\<lparr>b_log_next := 0\<rparr> = (boot s)\<lparr>b_log_next := 0\<rparr>"
proof -
  have read: "meta_of s1 = meta_of s \<and> boot s1 = boot s" if "d_read l s = (r, s1)" for l r s1
    using io_same_meta(1) [OF that] by (simp add: same_meta_def)
  have fin: "meta_of (snd (d_sync (close_log (fold (replay h) is s1)))) = meta_of s1 \<and>
      boot (snd (d_sync (close_log (fold (replay h) is s1)))) = (boot s1)\<lparr>b_log_next := 0\<rparr>" for h "is" s1
  proof -
    obtain k s2 where d: "d_sync (close_log (fold (replay h) is s1)) = (k, s2)" by fastforce
    show ?thesis using io_same_meta(3) [OF d] d close_log_meta [of "fold (replay h) is s1"] replay_meta [of s1 h "is"]
      by (simp add: same_meta_def)
  qed
  have "meta_of s' = meta_of s \<and> (boot s')\<lparr>b_log_next := 0\<rparr> = (boot s)\<lparr>b_log_next := 0\<rparr>"
    using assms unfolding fs_recover_def Let_def
    by (auto simp: close_log_meta fin split: if_splits prod.splits option.splits dest!: read)
  then show "meta_of s' = meta_of s" "(boot s')\<lparr>b_log_next := 0\<rparr> = (boot s)\<lparr>b_log_next := 0\<rparr>" by simp_all
qed



text \<open>A disk with one sector of the inode table in a complete log.\<close>

definition logged_disk :: "u32 \<Rightarrow> sector" where
  "logged_disk = put_all ((4, enc_txn_hdr [1]) # log_entries 4 [replicate 512 9]) (\<lambda>_. replicate 512 0)"

definition logged_fs :: "(u32 \<Rightarrow> sector) fs" where
  "logged_fs = small_fs\<lparr>boot := small_boot\<lparr>b_log_next := 2\<rparr>, cache := fs_cache_init ((cache small_fs)\<lparr>dev := logged_disk\<rparr>)\<rparr>"



section \<open>Checking without repair\<close>

text \<open>States that agree in all but the heap and what the cache holds.\<close>

definition quiet :: "'d fs \<Rightarrow> 'd fs \<Rightarrow> bool" where
  "quiet s s' \<longleftrightarrow> boot s' = boot s \<and> meta_of (s'\<lparr>hp := hp s\<rparr>) = meta_of s \<and> (fs_io_ff s \<longrightarrow> fs_io_ff s' \<and> fview s' = fview s)"

lemma quiet_refl [simp]: "quiet s s"
  by (simp add: quiet_def meta_of_def)

lemma quiet_trans: "quiet s s1 \<Longrightarrow> quiet s1 s2 \<Longrightarrow> quiet s s2"
  by (simp add: quiet_def meta_of_def)

lemma quiet_hp [simp]: "quiet s (s\<lparr>hp := h\<rparr>)"
  by (simp add: quiet_def meta_of_def fs_io_ff_def)

lemma quiet_inodes: "quiet s s' \<Longrightarrow> inodes s' = inodes s"
  by (simp add: quiet_def meta_of_def)

lemma quiet_read: "d_read l s = (r, s') \<Longrightarrow> quiet s s'"
  using io_same_meta(1) [of l s r s'] dr.rd_total [of s l] dr.rd_ok [of s l _ s']
  by (auto simp: quiet_def same_meta_def meta_of_def)

text \<open>An operation is quiet if every run of it is.\<close>

abbreviation silent :: "('d fs \<Rightarrow> 'a \<times> 'd fs) \<Rightarrow> bool" where
  "silent op \<equiv> (\<forall>s. quiet s (snd (op s)))"

lemma silentD: "silent op \<Longrightarrow> op s = (r, s') \<Longrightarrow> quiet s s'"
  by (metis snd_conv)

lemma silent_extents: "silent (inode_sector_count i)" "silent (inode_map_sector i k)" "silent (inode_byte_capacity i)"
proof -
  show c: "silent (inode_sector_count i)"
    by (auto simp: inode_sector_count_def split: sum.split prod.split option.split dest: quiet_read)
  show "silent (inode_map_sector i k)"
    by (auto simp: inode_map_sector_def split: sum.split prod.split option.split dest: quiet_read)
  show "silent (inode_byte_capacity i)" using c by (simp add: inode_byte_capacity_def split_def)
qed

lemma silent_read_loop: "quiet s (snd (read_loop i pos rem s))"
proof (induction i pos rem s rule: read_loop.induct)
  case (1 i pos rem s)
  show ?case
  proof (cases "rem = 0")
    case True
    then show ?thesis by (simp add: read_loop.simps)
  next
    case False
    obtain r s1 where m: "inode_map_sector i (of_nat (pos div 512)) s = (r, s1)" by fastforce
    note q1 = silentD [OF silent_extents(2) m]
    let ?n = "min (512 - pos mod 512) rem"
    show ?thesis
    proof (cases r)
      case None
      from 1(1) [OF False refl refl m [symmetric] None] show ?thesis
        using quiet_trans [OF q1] False m None by (simp add: read_loop.simps [of i pos] Let_def split_def)
    next
      case (Some lba)
      obtain x s2 where d: "d_read lba s1 = (x, s2)" by fastforce
      note q2 = quiet_trans [OF q1 quiet_read [OF d]]
      show ?thesis
      proof (cases x)
        case None
        then show ?thesis using q2 False m Some d by (simp add: read_loop.simps [of i pos] Let_def)
      next
        case (Some y)
        from 1(2) [OF False refl refl m [symmetric] \<open>r = Some lba\<close> d [symmetric] Some] show ?thesis
          using quiet_trans [OF q2] False m \<open>r = Some lba\<close> d Some by (simp add: read_loop.simps [of i pos] Let_def split_def)
      qed
    qed
  qed
qed

lemma quiet_read_dir:
  assumes "iflag (ino s d) FS_FLAG_DIRECTORY"
  shows "quiet s (snd (fs_index_read d off n s))"
proof -
  obtain cap s1 where c: "inode_byte_capacity (ino s d) s = (cap, s1)" by fastforce
  note q = silentD [OF silent_extents(3) c]
  show ?thesis using q quiet_trans [OF q silent_read_loop] assms c by (simp add: fs_index_read_def Let_def)
qed

lemma quiet_with_buf:
  assumes "\<And>h. quiet s (snd (body (s\<lparr>hp := h\<rparr>)))"
  shows "quiet s (snd (with_buf n e body s))"
proof -
  have f: "quiet s1 (fs_free p s1)" for p and s1 :: "'a fs" by (auto simp: fs_free_def split: option.split)
  obtain r h where m: "malloc n (hp s) = (r, h)" by fastforce
  obtain x s1 where b: "body (s\<lparr>hp := h\<rparr>) = (x, s1)" by fastforce
  show ?thesis using assms [of h] quiet_trans [OF _ f] m b
    by (auto simp: with_buf_def fs_malloc_def split: option.split)
qed

lemma fsck_sector_quiet: "quiet s (snd (fsck_sector False i k (f, s)))"
proof -
  obtain r s1 where m: "inode_map_sector (inodes s ! i) (of_nat k) s = (r, s1)" by fastforce
  from silentD [OF silent_extents(2) m] m show ?thesis by (auto simp: fsck_sector_def Let_def split: option.split)
qed

lemma fold_quiet:
  assumes "\<And>x f s. quiet s (snd (g x (f, s)))"
  shows "quiet s (snd (fold g xs (f, s)))"
proof (induction xs arbitrary: f s)
  case (Cons x xs)
  obtain f' s' where g: "g x (f, s) = (f', s')" by fastforce
  from quiet_trans [OF _ Cons.IH, of s s' f'] assms [of s x f] g show ?case by simp
qed simp

lemma fsck_dir_quiet:
  assumes "iflag (inodes s ! i) FS_FLAG_DIRECTORY"
  shows "quiet s (snd (fsck_dir False i f s))"
proof -
  obtain cap s1 where c: "inode_byte_capacity (inodes s ! i) s = (cap, s1)" by fastforce
  note q1 = silentD [OF silent_extents(3) c]
  obtain n s2 where d: "dir_logical_size (int i) s1 = (n, s2)" by fastforce
  have "quiet s1 s2" using d silentD [OF silent_extents(3)]
    by (auto simp: dir_logical_size_def Let_def split: if_splits prod.splits)
  then have q2: "quiet s s2" using quiet_trans [OF q1] by blast
  have "quiet s2 (snd (with_buf k g (\<lambda>s. case fs_index_read (int i) 0 m s of (None, s) \<Rightarrow> (g, s)
      | (Some bs, s) \<Rightarrow> (case fold (fsck_dirent False s) (dirents 0 m (fill s m bs)) (g, fill s m bs, False) of
          (f, blob, touched) \<Rightarrow> (f, if False \<and> touched then snd (fs_index_write (int i) 0 blob s) else s))) s2))" for k m g
  proof (rule quiet_with_buf)
    fix h
    obtain r s3 where rd: "fs_index_read (int i) 0 m (s2\<lparr>hp := h\<rparr>) = (r, s3)" by fastforce
    have "quiet (s2\<lparr>hp := h\<rparr>) s3"
      using quiet_read_dir [of "s2\<lparr>hp := h\<rparr>" "int i" 0 m] assms quiet_inodes [OF q2] rd by simp
    then show "quiet s2 (snd (case fs_index_read (int i) 0 m (s2\<lparr>hp := h\<rparr>) of (None, s) \<Rightarrow> (g, s)
      | (Some bs, s) \<Rightarrow> (case fold (fsck_dirent False s) (dirents 0 m (fill s m bs)) (g, fill s m bs, False) of
          (f, blob, touched) \<Rightarrow> (f, if False \<and> touched then snd (fs_index_write (int i) 0 blob s) else s))))"
      using quiet_trans [OF quiet_hp] rd by (auto split: option.split prod.split)
  qed
  note q3 = quiet_trans [OF q2 this]
  show ?thesis
  proof (cases "i_size (inodes s1 ! i) > cap")
    case True
    then show ?thesis using q2 q3 unfolding fsck_dir_def c prod.case Let_def if_P [OF True] if_False d by simp
  next
    case False
    then show ?thesis using q2 q3 unfolding fsck_dir_def c prod.case Let_def if_not_P [OF False] if_False d by simp
  qed
qed

lemma fsck_steps_quiet: "quiet s (snd (fsck_inode False i (f, s)))" "quiet s (snd (fsck_link False i (f, s)))"
proof -
  show "quiet s (snd (fsck_link False i (f, s)))" by (simp add: fsck_link_def Let_def)
  obtain n s1 where c: "inode_sector_count (inodes s ! i) s = (n, s1)" by fastforce
  note q1 = silentD [OF silent_extents(1) c]
  obtain g s2 where d: "fold (fsck_sector False i) [0..<unat n] (f, s1) = (g, s2)" by fastforce
  have "quiet s1 s2" using fold_quiet [of "fsck_sector False i" s1 "[0..<unat n]" f, OF fsck_sector_quiet] d by simp
  then have q2: "quiet s s2" using quiet_trans [OF q1] by blast
  show "quiet s (snd (fsck_inode False i (f, s)))"
    using q2 quiet_trans [OF q2 fsck_dir_quiet] c d by (simp add: fsck_inode_def Let_def)
qed

text \<open>
  Fact: fs_check_integrity only looks. Whatever the file system holds, a check without repair
  leaves the inodes, the bitmap, the boot sector, the credentials and the contents of the disk
  as they were.
\<close>

theorem fs_check_integrity_readonly:
  assumes "fs_io_ff s"
  shows "let s' = snd (fs_check_integrity s) in
    inodes s' = inodes s \<and> bitmap s' = bitmap s \<and> boot s' = boot s \<and> fview s' = fview s \<and> meta_of (s'\<lparr>hp := hp s\<rparr>) = meta_of s"
proof -
  have f: "quiet s1 (fs_free p s1)" for p and s1 :: "'a fs" by (auto simp: fs_free_def split: option.split)
  have i: "quiet s1 (snd (fold (fsck_inode False) is (g, s1)))" "quiet s1 (snd (fold (fsck_link False) is (g, s1)))" for g "is" and s1 :: "'a fs"
    by (rule fold_quiet, rule fsck_steps_quiet)+
  obtain r h where m: "malloc (unat (b_total (boot s))) (hp s) = (r, h)" by fastforce
  have "quiet s (snd (fs_check_integrity s))"
  proof (cases r)
    case None
    then show ?thesis by (simp add: fs_check_integrity_def fs_fsck_def fs_malloc_def m)
  next
    case (Some p)
    let ?f = "\<lparr>errs = 0, reps = 0, mark = map (\<lambda>i. i < unat (fs_alloc_base_sector (boot s))) [0..<unat (b_total (boot s))],
      links = replicate FS_MAX_INODES 0\<rparr>"
    obtain g1 s1 where 1: "fold (fsck_inode False) [1..<FS_MAX_INODES] (?f, s\<lparr>hp := h\<rparr>) = (g1, s1)" by fastforce
    obtain g2 s2 where 2: "fold (fsck_link False) [1..<FS_MAX_INODES] (g1, s1) = (g2, s2)" by fastforce
    have "quiet s s2" using quiet_trans [OF quiet_trans [OF quiet_hp i(1)] i(2)] 1 2 by (metis snd_conv)
    then have "quiet s (fs_free p s2)" using quiet_trans [OF _ f] by blast
    moreover have "snd (fs_check_integrity s) = (if initialized s then fs_free p s2 else s)"
      unfolding fs_check_integrity_def fs_fsck_def fs_malloc_def m Some Let_def using 1 2 by simp
    ultimately show ?thesis by simp
  qed
  then show ?thesis using assms by (simp add: quiet_def Let_def meta_of_def)
qed


theorem fs_check_integrity_readonly_witness:
  "inodes (snd (fs_check_integrity dir_fs)) = inodes dir_fs \<and> fview (snd (fs_check_integrity dir_fs)) 40 = dir_disk 40"
  using fs_check_integrity_readonly [OF dir_fs_view(2)] by (simp add: Let_def dir_fs_view(1))

end
