(* ===== verification/KFsAttr.thy ===== *)
theory KFsAttr
  imports KFsCreate
begin

text \<open>
  Extended attributes, ownership and names: facts about the operations of src/kernel/fs.cpp
  that change one inode or read a listing.
\<close>

lemma dir_table_cong:
  assumes t: "dir_table D s" and b: "same_base s s'" "inodes s' = inodes s" "hp s' = hp s" "fs_io_ff s'"
    and v: "\<forall>d l. ino_range d \<and> iflag (ino s d) FS_FLAG_DIRECTORY \<and>
      l \<in> set (inode_lbas (ino s d) (fview s)) \<union> {i_indirect (ino s d)} - {0} \<longrightarrow> fview s' l = fview s l"
  shows "dir_table D s'"
proof -
  have "if ino_range d \<and> iflag (ino s' d) FS_FLAG_DIRECTORY then dir_ready d (D d) s' else D d = []" for d
  proof (cases "ino_range d \<and> iflag (ino s d) FS_FLAG_DIRECTORY")
    case True
    then have r: "dir_ready d (D d) s" using t unfolding dir_table_def by metis
    have "dir_ready d (D d) s'" by (rule dir_ready_cong [OF r b(1,4)]) (use v True b(2) in auto)
    then show ?thesis using True b(2) by simp
  next
    case False
    then have "D d = []" using t unfolding dir_table_def by metis
    then show ?thesis using False b(2) by auto
  qed
  then show ?thesis using t b(3,4) unfolding dir_table_def by metis
qed

lemma cbytes_nonzero:
  assumes "CHR 0x00 \<notin> set name"
  shows "0 \<notin> set (cbytes name)"
proof -
  have "(of_char c :: u8) = 0 \<longleftrightarrow> c = CHR 0x00" for c
    using cbytes_inject [of "[c]" "[CHR 0x00]"] by (simp only: cbytes_def list.map list.inject simp_thms of_char_Char of_bool_eq horner_sum_simps) simp
  with assms show ?thesis unfolding cbytes_def set_map image_iff by metis
qed

lemma takeWhile_nul: "0 \<notin> set a \<Longrightarrow> takeWhile (\<lambda>b. b \<noteq> 0) (a @ 0 # ys) = a" for a :: "u8 list"
  by (induction a) auto

lemma name_at_start:
  assumes "CHR 0x00 \<notin> set name" "CHR 0x00 \<notin> set other"
    and "take (length other) (cbytes name @ [0] @ r) = cbytes other" "(cbytes name @ [0] @ r) ! length other = 0"
    and "length other < length (cbytes name @ [0] @ r)"
  shows "other = name"
proof -
  let ?x = "cbytes name @ [0] @ r"
  have "?x = cbytes other @ 0 # drop (Suc (length other)) ?x"
    using id_take_nth_drop [OF assms(5)] unfolding assms(3,4) .
  then have "takeWhile (\<lambda>b. b \<noteq> 0) ?x = cbytes other"
    using takeWhile_nul [OF cbytes_nonzero [OF assms(2)]] by metis
  moreover have "takeWhile (\<lambda>b. b \<noteq> 0) ?x = cbytes name"
    using takeWhile_nul [OF cbytes_nonzero [OF assms(1)], of r] by simp
  ultimately show ?thesis using cbytes_inject by metis
qed

lemma inode_at_meta: "meta_of s' = meta_of s \<Longrightarrow> inode_at s' = inode_at s \<and> initialized s' = initialized s"
  using meta_ofD [of s' s] by (auto simp: inode_at_def)

text \<open>Writing one sector that belongs neither to a directory nor to the metadata, and the
  metadata after it.\<close>

lemma sector_step:
  assumes t: "dir_table D s" and m: "meta_layout s" "log_room s" and x: "x \<notin> meta_area s"
      "\<forall>d. ino_range d \<and> iflag (ino s d) FS_FLAG_DIRECTORY \<longrightarrow> x \<notin> set (inode_lbas (ino s d) (fview s)) \<union> {i_indirect (ino s d)}"
  obtains s1 s2 where "d_write x sec s = (True, s1)" "fs_persist_meta s1 = (True, s2)" "dir_table D s2"
    "inode_at s2 = inode_at s" "initialized s2 = initialized s" "fview s2 x = sec"
proof -
  have io: "fs_io_ff s" using t by (simp add: dir_table_def)
  obtain s1 where s1: "d_write x sec s = (True, s1)" "fs_io_ff s1" "fview s1 = (fview s)(x := sec)" by (rule dr.wr_eq [OF io])
  note sm = io_same_meta(2) [OF s1(1)]
  note i = meta_ofD [OF same_metaD(2) [OF sm]] same_metaD(1) [OF sm]
  have b1: "same_base s s1" using cred_cong [of s1 s] by (simp add: same_base_def i)
  obtain s2 where s2: "fs_persist_meta s1 = (True, s2)" "same_base s1 s2" "inodes s2 = inodes s1" "hp s2 = hp s1" "fs_io_ff s2"
      "\<forall>l. l \<notin> meta_area s1 \<longrightarrow> fview s2 l = fview s1 l" "meta_of s2 = meta_of s1"
    using persist_ready [OF s1(2)] m same_base_meta [OF b1] by metis
  have v: "fview s2 l = (if l = x then sec else fview s l)" if "l \<notin> meta_area s" for l
    using s2(6) that same_base_meta(1) [OF b1] by (simp add: s1(3))
  have "dir_table D s2"
  proof (rule dir_table_cong [OF t same_base_trans [OF b1 s2(2)]])
    show "inodes s2 = inodes s" "hp s2 = hp s" "fs_io_ff s2" using s2(3-5) i by simp_all
    show "\<forall>d l. ino_range d \<and> iflag (ino s d) FS_FLAG_DIRECTORY \<and>
        l \<in> set (inode_lbas (ino s d) (fview s)) \<union> {i_indirect (ino s d)} - {0} \<longrightarrow> fview s2 l = fview s l"
    proof (intro allI impI, elim conjE)
      fix d l
      assume d: "ino_range d" "iflag (ino s d) FS_FLAG_DIRECTORY" "l \<in> set (inode_lbas (ino s d) (fview s)) \<union> {i_indirect (ino s d)} - {0}"
      then have "file_ready d s" using t unfolding dir_table_def dir_ready_def by metis
      then have "l \<notin> meta_area s" using file_readyD(11) d(3) by (metis disjoint_iff)
      moreover have "l \<noteq> x" using x(2) d by auto
      ultimately show "fview s2 l = fview s l" using v by simp
    qed
  qed
  moreover have "meta_of s2 = meta_of s" using s2(7) sm by (simp add: same_meta_def)
  ultimately show thesis using that s1(1) s2(1) v [OF x(1)] inode_at_meta by metis
qed

text \<open>
  Fact: an extended attribute reads back. On a file that has its attribute sector, apart from
  the metadata and from all directories, fs_setxattr with a name and a value that fit succeeds,
  and fs_getxattr then returns the value up to the size of the buffer, or fails for a name
  that is not stored.
\<close>

theorem fs_xattr_roundtrip:
  assumes t: "dir_table D s" "initialized s" and idx: "lookup_spec D (inode_at s) path = idx" "0 \<le> idx"
    and x: "i_xattr (inode_at s idx) = x" "x \<noteq> 0" "x \<notin> meta_area s"
      "\<forall>d. ino_range d \<and> iflag (ino s d) FS_FLAG_DIRECTORY \<longrightarrow> x \<notin> set (inode_lbas (ino s d) (fview s)) \<union> {i_indirect (ino s d)}"
    and m: "meta_layout s" "log_room s" and fits: "length name + length val + 2 < 512"
    and nul: "0 \<notin> set val" "CHR 0x00 \<notin> set name" "CHR 0x00 \<notin> set other" "length other < 511"
  shows "\<exists>s'. fs_setxattr path name val s = (True, s') \<and>
    fst (fs_getxattr path other n s') = (if other = name then Some (take n val) else None)"
proof -
  obtain s0 where s0: "fs_lookup_index path False s = (idx, s0)" "same_view s s0"
    using fs_lookup_eq [OF t(1) _ t(2), of False path] idx(1) by auto
  note b0 = same_view_base [OF s0(2)]
  obtain s1 where s1: "d_read x s0 = (Some (fview s0 x), s1)" "fs_io_ff s1" "fview s1 = fview s0" by (rule dr.rd_eq [OF b0(4)])
  have sv: "same_view s s1"
    using same_meta_trans [OF _ io_same_meta(1) [OF s1(1)]] s0(2) s1(2,3) by (simp add: same_view_def)
  note b1 = same_view_base [OF sv] and i = same_view_inode_at [OF s0(2)] same_view_inode_at [OF sv]
  let ?sec = "cbytes name @ [0] @ val @ [0] @ replicate (512 - (length name + length val + 2)) 0"
  obtain s2 s3 where s3: "d_write x ?sec s1 = (True, s2)" "fs_persist_meta s2 = (True, s3)" "dir_table D s3"
      "inode_at s3 = inode_at s" "initialized s3" "fview s3 x = ?sec"
    using sector_step [OF same_view_table [OF sv t(1)], of x ?sec] m x(3,4) t(2) same_base_meta [OF b1(1)]
      meta_ofD(5) [OF same_metaD(2), of s s1] sv by (auto simp: b1(2,5) i same_view_def)
  have set: "fs_setxattr path name val s = (True, s3)"
    using s0(1) idx(2) x(1,2) i s1(1) fits s3(1,2) by (simp add: fs_setxattr_def attempt_def Let_def)
  obtain s4 where s4: "fs_lookup_index path False s3 = (idx, s4)" "same_view s3 s4"
    using fs_lookup_eq [OF s3(3) _ s3(5), of False path] idx(1) s3(4) by auto
  note b4 = same_view_base [OF s4(2)] and i4 = same_view_inode_at [OF s4(2)]
  obtain s5 where s5: "d_read x s4 = (Some (fview s4 x), s5)" by (rule dr.rd_eq [OF b4(4)])
  have v: "fview s4 x = ?sec" using s3(6) b4(5) by simp
  note tw = takeWhile_nul [OF nul(1)]
  have z: "(cbytes name @ 0 # ys) ! length name = 0" for ys by (simp add: nth_append)
  have ne: "other = name" if "take (length other) ?sec = cbytes other" "?sec ! length other = 0"
    by (rule name_at_start [OF _ _ that]) (use nul fits in simp_all)
  have "fst (fs_getxattr path other n s3) = (if other = name then Some (take n val) else None)"
    using s4(1) idx(2) x(1,2) i4 s3(4) s5 v nul(4) ne tw z by (auto simp: fs_getxattr_def Let_def)
  then show ?thesis using set by blast
qed

text \<open>Replacing an inode that is no directory by another that is none.\<close>

lemma dir_table_put:
  assumes t: "dir_table D s" and k: "ino_range k" "\<not> iflag (ino s k) FS_FLAG_DIRECTORY" "\<not> iflag n FS_FLAG_DIRECTORY"
    and l: "length (inodes s) = FS_MAX_INODES"
  shows "dir_table D (put_ino k n s)"
proof -
  let ?s = "put_ino k n s"
  have io: "fs_io_ff ?s" using t by (simp add: dir_table_def)
  have n: "ino ?s k = n" using k(1) l by (simp add: put_ino_def ino_range_def nat_less_iff)
  have "if ino_range d \<and> iflag (ino ?s d) FS_FLAG_DIRECTORY then dir_ready d (D d) ?s else D d = []" for d
  proof (cases "d = k \<or> \<not> ino_range d")
    case True
    then show ?thesis using t k n unfolding dir_table_def by metis
  next
    case False
    then have d: "ino ?s d = ino s d" using put_ino_base(2) k(1) by blast
    show ?thesis using t dir_ready_cong [OF _ put_ino_base(1) io d] unfolding dir_table_def d by simp
  qed
  then show ?thesis using t io unfolding dir_table_def by simp
qed

definition attr_fs :: "(u32 \<Rightarrow> sector) fs" where
  "attr_fs = put_ino 3 (zero_inode\<lparr>i_xattr := 41\<rparr>) dir_fs"

theorem fs_xattr_roundtrip_witness:
  "\<exists>s'. fs_setxattr ''/tmp'' ''tag'' [7, 9] attr_fs = (True, s') \<and> fst (fs_getxattr ''/tmp'' ''tag'' 1 s') = Some [7]"
proof -
  have l: "lookup_spec root_only i ''/tmp'' = 3" for i
    by (simp add: lookup_spec_def components.simps next_component_def Let_def two_entries_def entry_of_def)
  have f: "\<not> iflag (zero_inode\<lparr>i_xattr := 41\<rparr>) FS_FLAG_DIRECTORY" "\<not> iflag zero_inode FS_FLAG_DIRECTORY"
    by (simp_all add: zero_inode_def iflag_def has_flag_def)
  have r: "ino_range 3" "ino_range 1" by (simp_all add: ino_range_def)
  have n: "length (inodes dir_fs) = FS_MAX_INODES" "initialized attr_fs"
    by (simp_all add: attr_fs_def dir_fs_def file_fs_def small_fs_def put_ino_def)
  have t: "dir_table root_only attr_fs"
    unfolding attr_fs_def by (rule dir_table_put [OF dir_fs_table(1) r(1) _ f(1) n(1)]) (use dir_fs_inodes [OF r(1)] f in simp)
  have x: "i_xattr (inode_at attr_fs 3) = 41"
    by (simp add: inode_at_def attr_fs_def put_ino_def n(1))
  have fr: "file_ready 1 dir_fs" using dir_fs_ready by (simp add: dir_ready_def)
  note m = same_base_meta [OF put_ino_base(1) [of dir_fs 3 "zero_inode\<lparr>i_xattr := 41\<rparr>"], folded attr_fs_def]
  have "meta_area dir_fs = meta_area small_fs" using file_fs_layout by (simp add: dir_fs_def)
  then have a: "41 \<notin> meta_area attr_fs" unfolding m using small_meta_area by fastforce
  have d: "\<forall>d. ino_range d \<and> iflag (ino attr_fs d) FS_FLAG_DIRECTORY \<longrightarrow>
      41 \<notin> set (inode_lbas (ino attr_fs d) (fview attr_fs)) \<union> {i_indirect (ino attr_fs d)}"
  proof (intro allI impI, elim conjE)
    fix d
    assume d: "ino_range d" "iflag (ino attr_fs d) FS_FLAG_DIRECTORY"
    then have "d \<noteq> 3" using f(1) n(1) by (auto simp: attr_fs_def put_ino_def)
    then have e: "ino attr_fs d = ino dir_fs d" unfolding attr_fs_def using put_ino_base(2) d(1) r(1) by blast
    then have "d = 1" using d dir_fs_inodes [OF d(1)] f(2) by (auto split: if_splits)
    then show "41 \<notin> set (inode_lbas (ino attr_fs d) (fview attr_fs)) \<union> {i_indirect (ino attr_fs d)}"
      using e dir_fs_lbas(1) dir_fs_inodes [OF r(2)] by (simp add: attr_fs_def) (simp add: dir_inode_def zero_inode_def)
  qed
  show ?thesis
    using fs_xattr_roundtrip [OF t n(2) l _ x _ a d, of "''tag''" "[7, 9]" "''tag''" 1] m file_readyD [OF fr] by simp
qed

section \<open>Ownership\<close>

text \<open>
  Fact: only the owner of a file and the super-user change its mode and its group, and only the
  super-user its owner. For anybody else fs_chmod, fs_chgrp and fs_chown fail and leave the
  inodes and the sectors as they are.
\<close>

theorem fs_ownership_enforced:
  assumes t: "dir_table D s" "initialized s" and u: "fs_current_uid s \<noteq> 0"
    and o: "i_uid (inode_at s (lookup_spec D (inode_at s) path)) \<noteq> fs_current_uid s"
  shows "\<exists>s'. fs_chmod path mode s = (False, s') \<and> fs_chgrp path gid s = (False, s') \<and>
    fs_chown path uid gid s = (False, s') \<and> same_view s s'"
proof -
  obtain s' where s': "fs_lookup_index path False s = (lookup_spec D (inode_at s) path, s')" "same_view s s'"
    using fs_lookup_eq [OF t(1) _ t(2), of False path] by auto
  have "fs_current_uid s' = fs_current_uid s" using same_view_base(1) [OF s'(2)] by (simp add: same_base_def)
  with s' u o show ?thesis
    by (simp add: fs_chmod_def fs_chgrp_def fs_chown_def same_view_inode_at [OF s'(2)])
qed

text \<open>A root directory that everybody may write, and a task that is not the super-user.\<close>

definition other_fs :: "(u32 \<Rightarrow> sector) fs" where
  "other_fs = put_ino 1 (dir_inode\<lparr>i_mode := 0x1FF\<rparr>) (dir_fs\<lparr>task_cred := Some (7, 7)\<rparr>)"

lemma other_fs_inodes: "ino_range d \<Longrightarrow> ino other_fs d = (if d = 1 then dir_inode\<lparr>i_mode := 0x1FF\<rparr> else zero_inode)"
  by (auto simp: other_fs_def dir_fs_def file_fs_def small_fs_def put_ino_def ino_range_def nth_list_update nat_less_iff)

lemma other_fs_ready: "dir_ready 1 two_entries other_fs"
proof -
  have r: "ino_range 1" by (simp add: ino_range_def)
  let ?i = "dir_inode\<lparr>i_mode := 0x1FF\<rparr>"
  have i: "ino other_fs 1 = ?i" "ino dir_fs 1 = dir_inode" using other_fs_inodes [OF r] dir_fs_inodes [OF r] by simp_all
  have e: "inode_lbas ?i v = inode_lbas dir_inode v" "inode_ok b ?i v = inode_ok b dir_inode v"
      "file_ok b ?i v = file_ok b dir_inode v" "file_bytes ?i v = file_bytes dir_inode v" for v b
    by (simp_all add: file_bytes_def file_ok_def inode_lbas_def inode_ok_def inode_extents_def)
  have o: "boot other_fs = boot dir_fs" "fview other_fs = fview dir_fs" "fs_io_ff other_fs = fs_io_ff dir_fs"
      "meta_area other_fs = meta_area dir_fs" "meta_layout other_fs = meta_layout dir_fs" "log_room other_fs = log_room dir_fs"
      "length (inodes other_fs) = length (inodes dir_fs)"
    by (simp_all add: other_fs_def)
       (simp_all add: fs_io_ff_def meta_area_def meta_layout_def log_room_def meta_txn_def inode_bytes_def Let_def split: option.split)
  have f: "iflag ?i g = iflag dir_inode g" "i_size ?i = i_size dir_inode" "i_indirect ?i = i_indirect dir_inode" for g
    by (simp_all add: iflag_def)
  have c: "fs_current_uid other_fs = 7" "fs_current_gid other_fs = 7"
    by (simp_all add: other_fs_def fs_current_uid_def fs_current_gid_def put_ino_def)
  have d: "i_uid ?i = 0" "i_gid ?i = 0" "has_flag (0x1FF :: u16) 2" "has_flag (0x1FF :: u16) 4"
    by (simp_all add: dir_inode_def zero_inode_def has_flag_def)
  have "iflag dir_inode FS_FLAG_OCCUPIED" by (simp add: dir_inode_def zero_inode_def iflag_def has_flag_def)
  then have a: "fs_access_ok 1 w other_fs" for w unfolding fs_access_ok_def i c Let_def by (simp add: r d f)
  show ?thesis using dir_fs_ready a unfolding dir_ready_def file_ready_def o i e f by blast
qed

lemma other_fs_table: "dir_table root_only other_fs" "initialized other_fs"
proof -
  have z: "\<not> iflag zero_inode f" "iflag (dir_inode\<lparr>i_mode := 0x1FF\<rparr>) FS_FLAG_DIRECTORY" for f
    by (simp_all add: dir_inode_def zero_inode_def iflag_def has_flag_def)
  have "if ino_range d \<and> iflag (ino other_fs d) FS_FLAG_DIRECTORY then dir_ready d (root_only d) other_fs else root_only d = []" for d
  proof (cases "d = 1")
    case True
    then show ?thesis using other_fs_ready other_fs_inodes [of 1] z(2) by (simp add: ino_range_def)
  next
    case False
    then show ?thesis using other_fs_inodes [of d] z(1) by auto
  qed
  moreover have "hp other_fs = heap_init heap0" "fs_io_ff other_fs"
    using dir_fs_lbas(2) dir_fs_view(2) by (simp_all add: other_fs_def fs_io_ff_def)
  ultimately show "dir_table root_only other_fs" unfolding dir_table_def using heap0_room by (intro conjI allI) simp_all
  show "initialized other_fs" using dir_fs_table(3) by (simp add: other_fs_def put_ino_def)
qed

theorem fs_ownership_enforced_witness: "\<not> fst (fs_chmod ''/tmp'' 0x1FF other_fs) \<and> \<not> fst (fs_chown ''/tmp'' 7 7 other_fs)"
proof -
  have l: "lookup_spec root_only i ''/tmp'' = 3" for i
    by (simp add: lookup_spec_def components.simps next_component_def Let_def two_entries_def entry_of_def)
  have c: "fs_current_uid other_fs = 7"
    by (simp add: other_fs_def fs_current_uid_def put_ino_def)
  have "i_uid (inode_at other_fs 3) = 0"
    by (simp add: other_fs_def inode_at_def put_ino_def dir_fs_def file_fs_def small_fs_def zero_inode_def)
  then show ?thesis using fs_ownership_enforced [OF other_fs_table, where path = "''/tmp''" and mode = "0x1FF" and gid = 7 and uid = 7] l c by fastforce
qed

section \<open>The names of a recursive removal\<close>

definition unmarked :: "string \<Rightarrow> string" where
  "unmarked nm = filter (\<lambda>c. c \<noteq> slash \<and> c \<noteq> CHR ''@'') nm"

lemma rm_name_line:
  assumes "CHR 0x0A \<notin> set nm" "n + length nm < FS_FILENAME_LEN - 1"
  shows "rm_name n (nm @ CHR 0x0A # r) = (unmarked nm, CHR 0x0A # r)"
  using assms
proof (induction nm arbitrary: n)
  case (Cons c nm)
  then show ?case using Cons.IH [of n] Cons.IH [of "n + 1"] by (auto simp: unmarked_def)
qed (simp add: unmarked_def)

text \<open>
  Fact: the names fs_rm_rf visits. From the text that fs_list_dir leaves, one line for each entry
  with a mark behind directories and links, it takes the names without the characters that
  serve as marks. So a name is read back if and only if neither character occurs in it.
\<close>

theorem fs_rm_rf_names:
  assumes "\<forall>(nm, mk) \<in> set ls. CHR 0x0A \<notin> set (nm @ mk) \<and> length (nm @ mk) < 254 \<and> unmarked mk = [] \<and> unmarked nm \<noteq> []"
  shows "rm_names (concat (map (\<lambda>(nm, mk). nm @ mk @ [CHR 0x0A]) ls)) = map (\<lambda>(nm, mk). unmarked nm) ls \<and>
    (unmarked nm = nm \<longleftrightarrow> slash \<notin> set nm \<and> CHR ''@'' \<notin> set nm)"
proof
  show "rm_names (concat (map (\<lambda>(nm, mk). nm @ mk @ [CHR 0x0A]) ls)) = map (\<lambda>(nm, mk). unmarked nm) ls"
    using assms
  proof (induction ls)
    case (Cons l ls)
    obtain nm mk where l: "l = (nm, mk)" by force
    have "rm_name 0 ((nm @ mk) @ CHR 0x0A # r) = (unmarked nm, CHR 0x0A # r)" for r
      using rm_name_line [of "nm @ mk" 0 r] Cons.prems l by (auto simp: unmarked_def)
    then show ?case using Cons l by (subst rm_names.simps) (auto simp: rm_rest_def)
  qed (simp add: rm_names.simps)
  show "unmarked nm = nm \<longleftrightarrow> slash \<notin> set nm \<and> CHR ''@'' \<notin> set nm"
    by (auto simp: unmarked_def filter_id_conv)
qed

theorem fs_rm_rf_names_witness:
  "rm_names (concat (map (\<lambda>(nm, mk). nm @ mk @ [CHR 0x0A]) [(''bin'', ''/''), (''a@b'', [])])) = [''bin'', ''ab'']"
  using fs_rm_rf_names [of "[(''bin'', ''/''), (''a@b'', [])]"] by (simp add: unmarked_def)

end
