(* ===== verification/KDriver.thy ===== *)
theory KDriver
  imports KPrelude
begin

text \<open>
  The driver manager, src/kernel/driver_manager.cpp, and the calls of src/kernel/kernel_api.cpp
  that pass through it. A device is reached through the operations its driver registers; they
  are functions on the state \<open>'w\<close> of the devices, which the hardware defines.
\<close>

datatype driver_type = DRIVER_STORAGE | DRIVER_INPUT | DRIVER_VIDEO | DRIVER_NETWORK | DRIVER_OTHER

text \<open>The operations of a driver that the manager calls. A result is the value returned, the
  bytes left in the buffer and the new state of the devices.\<close>

record ('p, 'w) driver_ops =
  op_read :: "('p \<Rightarrow> nat \<Rightarrow> u32 \<Rightarrow> 'w \<Rightarrow> int \<times> u8 list \<times> 'w) option"
  op_write :: "('p \<Rightarrow> u8 list \<Rightarrow> u32 \<Rightarrow> 'w \<Rightarrow> int \<times> 'w) option"
  op_ioctl :: "('p \<Rightarrow> u32 \<Rightarrow> 'w \<Rightarrow> int \<times> u32 \<times> 'w) option"

record ('p, 'w) driver =
  dr_name :: string
  dr_type :: driver_type
  dr_id :: u32
  dr_data :: 'p
  dr_ops :: "('p, 'w) driver_ops"
  dr_initialized :: bool
  dr_active :: bool

record ('p, 'w) drivers =
  driver_list :: "('p, 'w) driver list"
  dm_ready :: bool
  next_device_id :: u32

abbreviation (input) MAX_DRIVERS :: nat where "MAX_DRIVERS \<equiv> 32"

definition driver_manager_init :: "('p, 'w) drivers \<Rightarrow> ('p, 'w) drivers" where
  "driver_manager_init m =
     (if dm_ready m then m else \<lparr>driver_list = [], dm_ready = True, next_device_id = 1\<rparr>)"

text \<open>The list holds the first driver_count_internal slots of the array. The result is False for
  -1; the second component is the device id that the call leaves in its argument.\<close>

definition driver_register :: "('p, 'w) driver \<Rightarrow> ('p, 'w) drivers \<Rightarrow> bool \<times> u32 \<times> ('p, 'w) drivers" where
  "driver_register drv m =
     (if \<not> dm_ready m \<or> length (driver_list m) \<ge> MAX_DRIVERS \<or> dr_name drv = [] then (False, dr_id drv, m)
      else if list_ex (\<lambda>d. dr_name d = dr_name drv) (driver_list m) then (False, dr_id drv, m)
      else let (i, n) = (if dr_id drv = 0 then (next_device_id m, next_device_id m + 1) else (dr_id drv, next_device_id m))
        in (True, i, m\<lparr>driver_list := driver_list m @ [drv\<lparr>dr_name := cstr_copy 32 (dr_name drv), dr_id := i\<rparr>],
                       next_device_id := n\<rparr>))"

definition driver_find_by_type :: "driver_type \<Rightarrow> int \<Rightarrow> ('p, 'w) drivers \<Rightarrow> ('p, 'w) driver option" where
  "driver_find_by_type ty index m =
     (let ds = filter (\<lambda>d. dr_type d = ty \<and> dr_initialized d) (driver_list m)
      in if dm_ready m \<and> 0 \<le> index \<and> nat index < length ds then Some (ds ! nat index) else None)"

definition driver_find_by_name :: "string \<Rightarrow> ('p, 'w) drivers \<Rightarrow> ('p, 'w) driver option" where
  "driver_find_by_name name m = (if dm_ready m then find (\<lambda>d. dr_name d = name) (driver_list m) else None)"

definition driver_find_by_id :: "u32 \<Rightarrow> ('p, 'w) drivers \<Rightarrow> ('p, 'w) driver option" where
  "driver_find_by_id i m = (if dm_ready m then find (\<lambda>d. dr_id d = i) (driver_list m) else None)"

definition driver_list_by_type :: "driver_type \<Rightarrow> nat \<Rightarrow> ('p, 'w) drivers \<Rightarrow> ('p, 'w) driver list" where
  "driver_list_by_type ty max_count m =
     (if dm_ready m then take max_count (filter (\<lambda>d. dr_type d = ty \<and> dr_initialized d) (driver_list m)) else [])"

definition driver_count :: "('p, 'w) drivers \<Rightarrow> nat" where
  "driver_count m = length (driver_list m)"

definition driver_read :: "u32 \<Rightarrow> nat \<Rightarrow> u32 \<Rightarrow> ('p, 'w) drivers \<Rightarrow> 'w \<Rightarrow> int \<times> u8 list \<times> 'w" where
  "driver_read i n off m w =
     (case driver_find_by_id i m of
        None \<Rightarrow> (-1, [], w)
      | Some d \<Rightarrow>
          if \<not> dr_initialized d \<or> \<not> dr_active d then (-1, [], w)
          else case op_read (dr_ops d) of None \<Rightarrow> (-1, [], w) | Some f \<Rightarrow> f (dr_data d) n off w)"

definition driver_write :: "u32 \<Rightarrow> u8 list \<Rightarrow> u32 \<Rightarrow> ('p, 'w) drivers \<Rightarrow> 'w \<Rightarrow> int \<times> 'w" where
  "driver_write i bs off m w =
     (case driver_find_by_id i m of
        None \<Rightarrow> (-1, w)
      | Some d \<Rightarrow>
          if \<not> dr_initialized d \<or> \<not> dr_active d then (-1, w)
          else case op_write (dr_ops d) of None \<Rightarrow> (-1, w) | Some f \<Rightarrow> f (dr_data d) bs off w)"

definition driver_ioctl :: "u32 \<Rightarrow> u32 \<Rightarrow> ('p, 'w) drivers \<Rightarrow> 'w \<Rightarrow> int \<times> u32 \<times> 'w" where
  "driver_ioctl i cmd m w =
     (case driver_find_by_id i m of
        None \<Rightarrow> (-1, 0, w)
      | Some d \<Rightarrow>
          if \<not> dr_initialized d \<or> \<not> dr_active d then (-1, 0, w)
          else case op_ioctl (dr_ops d) of None \<Rightarrow> (-1, 0, w) | Some f \<Rightarrow> f (dr_data d) cmd w)"

text \<open>The calls of the kernel interface.\<close>

definition kernel_device_read :: "u32 \<Rightarrow> nat \<Rightarrow> u32 \<Rightarrow> ('p, 'w) drivers \<Rightarrow> 'w \<Rightarrow> int \<times> u8 list \<times> 'w" where
  "kernel_device_read = driver_read"

definition kernel_device_write :: "u32 \<Rightarrow> u8 list \<Rightarrow> u32 \<Rightarrow> ('p, 'w) drivers \<Rightarrow> 'w \<Rightarrow> int \<times> 'w" where
  "kernel_device_write = driver_write"

definition kernel_device_ioctl :: "u32 \<Rightarrow> u32 \<Rightarrow> ('p, 'w) drivers \<Rightarrow> 'w \<Rightarrow> int \<times> u32 \<times> 'w" where
  "kernel_device_ioctl = driver_ioctl"

definition kernel_device_list :: "driver_type \<Rightarrow> nat \<Rightarrow> ('p, 'w) drivers \<Rightarrow> ('p, 'w) driver list" where
  "kernel_device_list = driver_list_by_type"

definition kernel_device_get_info :: "u32 \<Rightarrow> ('p, 'w) drivers \<Rightarrow> ('p, 'w) driver option" where
  "kernel_device_get_info = driver_find_by_id"

definition kernel_device_find_by_name :: "string \<Rightarrow> ('p, 'w) drivers \<Rightarrow> ('p, 'w) driver option" where
  "kernel_device_find_by_name = driver_find_by_name"

definition kernel_device_find_by_type :: "driver_type \<Rightarrow> int \<Rightarrow> ('p, 'w) drivers \<Rightarrow> ('p, 'w) driver option" where
  "kernel_device_find_by_type = driver_find_by_type"

section \<open>The list of drivers\<close>

text \<open>Names are different and fit their field, there are at most as many drivers as slots, and the
  ids given so far are below the counter.\<close>

definition drivers_inv :: "('p, 'w) drivers \<Rightarrow> bool" where
  "drivers_inv m \<longleftrightarrow> dm_ready m \<and> length (driver_list m) \<le> MAX_DRIVERS \<and> distinct (map dr_name (driver_list m)) \<and>
     (\<forall>d \<in> set (driver_list m). dr_name d \<noteq> [] \<and> length (dr_name d) < 32)"

definition auto_ids :: "('p, 'w) drivers \<Rightarrow> bool" where
  "auto_ids m \<longleftrightarrow> distinct (map dr_id (driver_list m)) \<and> 0 < unat (next_device_id m) \<and>
     unat (next_device_id m) \<le> length (driver_list m) + 1 \<and>
     (\<forall>d \<in> set (driver_list m). 0 < unat (dr_id d) \<and> unat (dr_id d) < unat (next_device_id m))"

lemma find_append: "find P (xs @ ys) = (case find P xs of None \<Rightarrow> find P ys | Some x \<Rightarrow> Some x)"
  by (induction xs) auto

lemma driver_register_inv:
  assumes "drivers_inv m" and "length (dr_name drv) < 32" and "driver_register drv m = (ok, i, m')"
  shows "drivers_inv m'"
  using assms by (auto simp: drivers_inv_def driver_register_def cstr_copy_id Let_def list_ex_iff split: if_splits prod.splits) metis+

lemma driver_register_ids:
  assumes "auto_ids m" and "dr_id drv = 0" and "driver_register drv m = (ok, i, m')"
  shows "auto_ids m'"
proof (cases ok)
  case False
  then have "m' = m" using assms(3) by (auto simp: driver_register_def Let_def split: if_splits prod.splits)
  then show ?thesis using assms(1) by simp
next
  case True
  let ?d = "drv\<lparr>dr_name := cstr_copy 32 (dr_name drv), dr_id := next_device_id m\<rparr>"
  have m': "m' = m\<lparr>driver_list := driver_list m @ [?d], next_device_id := next_device_id m + 1\<rparr>" "length (driver_list m) < MAX_DRIVERS"
    using assms(2,3) True by (auto simp: driver_register_def Let_def split: if_splits prod.splits)
  then have "unat (next_device_id m + 1) = unat (next_device_id m) + 1"
    using assms(1) by (intro unat_inc) (simp add: auto_ids_def)
  then show ?thesis using assms(1) m' by (auto simp: auto_ids_def)
qed

text \<open>
  Fact: registering a driver. On a list in order, a driver with a new name that fits its field is
  registered as long as there is a free slot; it is then found under its name and under the
  id the call reports, and drivers found by their id before are still found. The list stays in order, and ids the manager assigns itself are all different.
\<close>

theorem driver_register_correct:
  assumes "drivers_inv m" and "auto_ids m" and "dr_name drv \<noteq> []" and "length (dr_name drv) < 32" and "dr_id drv = 0"
    and "driver_find_by_name (dr_name drv) m = None" and "driver_count m < MAX_DRIVERS"
  shows "\<exists>i m'. driver_register drv m = (True, i, m') \<and> drivers_inv m' \<and> auto_ids m' \<and>
    driver_find_by_name (dr_name drv) m' = Some (drv\<lparr>dr_id := i\<rparr>) \<and>
    driver_find_by_id i m' = Some (drv\<lparr>dr_id := i\<rparr>) \<and>
    (\<forall>j d. driver_find_by_id j m = Some d \<longrightarrow> driver_find_by_id j m' = Some d)"
proof -
  have r: "dm_ready m" using assms(1) by (simp add: drivers_inv_def)
  have new: "\<not> list_ex (\<lambda>d. dr_name d = dr_name drv) (driver_list m)"
    using assms(6) r by (auto simp: driver_find_by_name_def find_None_iff list_ex_iff)
  obtain i m' where m': "driver_register drv m = (True, i, m')"
    "m' = m\<lparr>driver_list := driver_list m @ [drv\<lparr>dr_id := i\<rparr>], next_device_id := i + 1\<rparr>" "i = next_device_id m"
    using new r assms(3,4,5,7) by (simp add: driver_register_def driver_count_def cstr_copy_id)
  have n: "find (\<lambda>d. dr_id d = i) (driver_list m) = None" using assms(2) m'(3) by (auto simp: auto_ids_def find_None_iff)
  have "find (\<lambda>d. dr_name d = dr_name drv) (driver_list m) = None" using new by (auto simp: find_None_iff list_ex_iff)
  then have "driver_find_by_name (dr_name drv) m' = Some (drv\<lparr>dr_id := i\<rparr>)" "driver_find_by_id i m' = Some (drv\<lparr>dr_id := i\<rparr>)"
    "\<forall>j d. driver_find_by_id j m = Some d \<longrightarrow> driver_find_by_id j m' = Some d"
    using r n by (simp_all add: m'(2) driver_find_by_name_def driver_find_by_id_def find_append)
  then show ?thesis
    using m'(1) driver_register_inv [OF assms(1,4) m'(1)] driver_register_ids [OF assms(2,5) m'(1)] by blast
qed

definition disk_driver :: "(unit, nat) driver" where
  "disk_driver = \<lparr>dr_name = ''nvme0'', dr_type = DRIVER_STORAGE, dr_id = 0, dr_data = (),
     dr_ops = \<lparr>op_read = None, op_write = None, op_ioctl = Some (\<lambda>_ _ w. (0, 4096, w))\<rparr>, dr_initialized = True, dr_active = True\<rparr>"

definition no_drivers :: "(unit, nat) drivers" where
  "no_drivers = driver_manager_init \<lparr>driver_list = [], dm_ready = False, next_device_id = 0\<rparr>"

theorem driver_register_correct_witness:
  "\<exists>i m'. driver_register disk_driver no_drivers = (True, i, m') \<and> driver_find_by_name ''nvme0'' m' = Some (disk_driver\<lparr>dr_id := i\<rparr>)"
proof -
  have "drivers_inv no_drivers" "auto_ids no_drivers" "driver_find_by_name (dr_name disk_driver) no_drivers = None"
      "driver_count no_drivers < MAX_DRIVERS"
    by (simp_all add: no_drivers_def driver_manager_init_def drivers_inv_def auto_ids_def driver_find_by_name_def driver_count_def)
  moreover have "dr_name disk_driver = ''nvme0''" "dr_id disk_driver = 0" by (simp_all add: disk_driver_def)
  ultimately show ?thesis using driver_register_correct [of no_drivers disk_driver] by auto
qed

end
