(* ===== verification/KDisk.thy ===== *)
theory KDisk
  imports KDriver
begin

text \<open>
  The disk manager, src/kernel/drivers/storage/disk_manager.cpp: the table of disks found by the
  storage drivers and by the probe of the ATA channels, and the selection of the disk that the
  following transfers use (with disk_set_controller, ata_select_device and ahci_select_port of
  ata.cpp and ahci.cpp). What the hardware reports, the list of probed ATA devices and the ports
  of the AHCI controller, is an argument.
\<close>

datatype disk_controller_type = DISK_CONTROLLER_NONE | DISK_CONTROLLER_ATA | DISK_CONTROLLER_AHCI | DISK_CONTROLLER_NVME

record disk_info =
  d_id :: nat
  d_type :: disk_controller_type
  d_size :: u32
  d_init :: bool
  d_active :: bool
  d_atapi :: bool
  d_lba48 :: bool
  d_channel :: u8
  d_select :: u8
  d_port :: u8
  d_name :: string

record ata_device_id =
  a_channel :: u8
  a_select :: u8
  a_lba48 :: bool
  a_atapi :: bool
  a_size :: u32

text \<open>The first disk_count entries of the table, the disk that transfers go to, and what was seen
  of the AHCI controller. A port is its number and the size of its disk.\<close>

record disks =
  disk_list :: "disk_info list"
  controller :: disk_controller_type
  ata_device :: "ata_device_id option"
  ahci_port :: "nat option"
  pci_found :: bool
  init_attempted :: bool

type_synonym port = "u8 \<times> u32"

abbreviation (input) MAX_DISKS :: nat where "MAX_DISKS \<equiv> 8"
abbreviation (input) DISK_LOC_NA :: u8 where "DISK_LOC_NA \<equiv> 0xFF"

definition disk_set_name :: "nat \<Rightarrow> string" where
  "disk_set_name index = [CHR ''s'', CHR ''d'', char_of (97 + index)]"

definition disk_init_fields :: "disk_info \<Rightarrow> disk_info" where
  "disk_init_fields d = d\<lparr>d_lba48 := False, d_channel := DISK_LOC_NA, d_select := DISK_LOC_NA, d_port := DISK_LOC_NA\<rparr>"

definition controller_of :: "string \<Rightarrow> disk_controller_type" where
  "controller_of name =
     (if take 4 name = ''nvme'' then DISK_CONTROLLER_NVME
      else if take 4 name = ''ahci'' then DISK_CONTROLLER_AHCI
      else DISK_CONTROLLER_NONE)"

text \<open>The entry of a storage driver. The value that the driver leaves for the size is 0 if it has
  no ioctl.\<close>

definition driver_disk :: "nat \<Rightarrow> disk_controller_type \<Rightarrow> u32 \<Rightarrow> (port option, 'w) driver \<Rightarrow> disk_info" where
  "driver_disk n ty sz drv =
     (let sz = (if sz = 0 \<and> ty = DISK_CONTROLLER_NVME then 4194304 else sz);
          d = disk_init_fields \<lparr>d_id = n, d_type = ty, d_size = sz, d_init = dr_initialized drv, d_active = dr_active drv,
                d_atapi = False, d_lba48 = False, d_channel = 0, d_select = 0, d_port = 0, d_name = cstr_copy 16 (dr_name drv)\<rparr>
      in case dr_data drv of
           Some (p, psz) \<Rightarrow>
             (if ty = DISK_CONTROLLER_AHCI then d\<lparr>d_port := p, d_size := if sz = 0 then psz else sz\<rparr> else d)
         | None \<Rightarrow> d)"

definition add_driver :: "(port option, 'w) driver \<Rightarrow> disks \<times> 'w \<Rightarrow> disks \<times> 'w" where
  "add_driver drv = (\<lambda>(s, w).
     if length (disk_list s) \<ge> MAX_DISKS then (s, w)
     else let ty = controller_of (dr_name drv);
              s = (if ty = DISK_CONTROLLER_AHCI then s\<lparr>pci_found := True, init_attempted := True\<rparr> else s)
       in if ty = DISK_CONTROLLER_NONE then (s, w)
          else let (sz, w) = (case op_ioctl (dr_ops drv) of
                                None \<Rightarrow> (0, w)
                              | Some f \<Rightarrow> (case f (dr_data drv) 0 w of (r, v, w) \<Rightarrow> (v, w)))
            in (s\<lparr>disk_list := disk_list s @ [driver_disk (length (disk_list s)) ty sz drv]\<rparr>, w))"

definition ata_disk :: "nat \<Rightarrow> ata_device_id \<Rightarrow> disk_info" where
  "ata_disk n p =
     (disk_init_fields \<lparr>d_id = n, d_type = DISK_CONTROLLER_ATA, d_size = (if a_atapi p then 0 else a_size p),
        d_init = (\<not> a_atapi p \<and> a_size p > 0), d_active = False, d_atapi = a_atapi p, d_lba48 = False,
        d_channel = 0, d_select = 0, d_port = 0, d_name = disk_set_name n\<rparr>)
     \<lparr>d_channel := a_channel p, d_select := a_select p, d_lba48 := a_lba48 p\<rparr>"

definition add_ata :: "ata_device_id \<Rightarrow> disks \<Rightarrow> disks" where
  "add_ata p s =
     (if length (disk_list s) \<ge> MAX_DISKS then s
      else if list_ex (\<lambda>d. d_type d = DISK_CONTROLLER_ATA \<and> d_channel d = a_channel p \<and> d_select d = a_select p) (disk_list s) then s
      else s\<lparr>disk_list := disk_list s @ [ata_disk (length (disk_list s)) p]\<rparr>)"

definition disk_manager_init :: "(port option, 'w) drivers \<Rightarrow> ata_device_id list \<Rightarrow> disks \<times> 'w \<Rightarrow> nat \<times> disks \<times> 'w" where
  "disk_manager_init m probed = (\<lambda>(s, w).
     let (s, w) = fold add_driver (kernel_device_list DRIVER_STORAGE 8 m) (s\<lparr>disk_list := []\<rparr>, w);
         s = fold add_ata probed s
     in (length (disk_list s), s, w))"

definition disk_manager_get_disk :: "int \<Rightarrow> disks \<Rightarrow> disk_info option" where
  "disk_manager_get_disk disk_id s =
     (if disk_id < 0 \<or> nat disk_id \<ge> length (disk_list s) then None else Some (disk_list s ! nat disk_id))"

definition disk_manager_list :: "int \<Rightarrow> disks \<Rightarrow> disk_info list" where
  "disk_manager_list max_count s = take (nat max_count) (disk_list s)"

definition disk_manager_count :: "disks \<Rightarrow> nat" where
  "disk_manager_count s = length (disk_list s)"

definition disk_set_controller :: "disk_controller_type \<Rightarrow> disks \<Rightarrow> disks" where
  "disk_set_controller ty s = s\<lparr>controller := ty\<rparr>"

definition ata_select_device :: "ata_device_id \<Rightarrow> disks \<Rightarrow> disks" where
  "ata_select_device dev s = s\<lparr>ata_device := Some dev\<rparr>"

definition disk_select :: "port list \<Rightarrow> int \<Rightarrow> disks \<Rightarrow> bool \<times> disks" where
  "disk_select ports disk_id s =
     (case disk_manager_get_disk disk_id s of
        None \<Rightarrow> (False, s)
      | Some d \<Rightarrow>
          if \<not> d_init d then (False, s)
          else
            let s = disk_set_controller (d_type d) s;
                s = (if d_type d = DISK_CONTROLLER_ATA \<and> d_channel d \<noteq> DISK_LOC_NA then
                       ata_select_device \<lparr>a_channel = d_channel d, a_select = d_select d, a_lba48 = d_lba48 d,
                         a_atapi = d_atapi d, a_size = d_size d\<rparr> s
                     else if d_type d = DISK_CONTROLLER_AHCI \<and> d_port d \<noteq> DISK_LOC_NA then
                       (case find_slot (\<lambda>p. fst p = d_port d) ports of None \<Rightarrow> s | Some i \<Rightarrow> s\<lparr>ahci_port := Some i\<rparr>)
                     else s)
            in (True, s\<lparr>disk_list := map (\<lambda>(i, d). d\<lparr>d_active := (int i = disk_id)\<rparr>) (List.enumerate 0 (disk_list s))\<rparr>))"

section \<open>The table of disks\<close>

definition disks_inv :: "disks \<Rightarrow> bool" where
  "disks_inv s \<longleftrightarrow> length (disk_list s) \<le> MAX_DISKS \<and> (\<forall>i < length (disk_list s). d_id (disk_list s ! i) = i) \<and>
     distinct (map (\<lambda>d. (d_channel d, d_select d)) (filter (\<lambda>d. d_type d = DISK_CONTROLLER_ATA) (disk_list s)))"

lemma driver_disk_simps [simp]: "d_id (driver_disk n ty sz drv) = n" "d_type (driver_disk n ty sz drv) = ty"
  by (auto simp: driver_disk_def disk_init_fields_def Let_def split: option.split)

lemma ata_disk_simps [simp]: "d_id (ata_disk n p) = n" "d_type (ata_disk n p) = DISK_CONTROLLER_ATA"
  "d_channel (ata_disk n p) = a_channel p" "d_select (ata_disk n p) = a_select p"
  by (simp_all add: ata_disk_def disk_init_fields_def)

lemma disks_inv_append:
  assumes "disks_inv s" and "length (disk_list s) < MAX_DISKS" and "d_id d = length (disk_list s)"
    and "d_type d = DISK_CONTROLLER_ATA \<Longrightarrow>
      \<not> list_ex (\<lambda>e. d_type e = DISK_CONTROLLER_ATA \<and> d_channel e = d_channel d \<and> d_select e = d_select d) (disk_list s)"
  shows "disks_inv (s\<lparr>disk_list := disk_list s @ [d]\<rparr>)"
  using assms unfolding disks_inv_def by (auto simp: nth_append list_ex_iff)

lemma disks_inv_flags: "disks_inv (s\<lparr>pci_found := a, init_attempted := b\<rparr>) = disks_inv s"
  by (simp add: disks_inv_def)

lemma add_driver_inv:
  assumes "disks_inv s" and "add_driver drv (s, w) = (s', w')"
  shows "disks_inv s'"
proof -
  define t where "t = (if controller_of (dr_name drv) = DISK_CONTROLLER_AHCI then s\<lparr>pci_found := True, init_attempted := True\<rparr> else s)"
  have t: "disks_inv t" using assms(1) by (simp add: t_def disks_inv_flags)
  have n: "controller_of (dr_name drv) \<noteq> DISK_CONTROLLER_ATA" by (simp add: controller_of_def)
  show ?thesis
    using assms disks_inv_append [OF t, of "driver_disk (length (disk_list t)) _ _ drv"] t n
    by (auto simp: add_driver_def Let_def t_def split: if_splits prod.splits)
qed

lemma add_ata_inv: "disks_inv s \<Longrightarrow> disks_inv (add_ata p s)"
  by (auto simp: add_ata_def intro: disks_inv_append)

lemma fold_add_driver_inv: "disks_inv s \<Longrightarrow> fold add_driver ds (s, w) = (s', w') \<Longrightarrow> disks_inv s'"
  by (induction ds arbitrary: s w) (auto, metis add_driver_inv surj_pair)

lemma disk_manager_inv: "disk_manager_init m probed (s, w) = (n, s', w') \<Longrightarrow> disks_inv s' \<and> disk_manager_count s' = n"
proof -
  assume a: "disk_manager_init m probed (s, w) = (n, s', w')"
  obtain t v where t: "fold add_driver (kernel_device_list DRIVER_STORAGE 8 m) (s\<lparr>disk_list := []\<rparr>, w) = (t, v)" by force
  have "disks_inv t" by (rule fold_add_driver_inv [OF _ t]) (simp add: disks_inv_def)
  then have "disks_inv (fold add_ata probed t)" by (induction probed arbitrary: t) (auto intro: add_ata_inv)
  then show ?thesis using a t by (auto simp: disk_manager_init_def disk_manager_count_def Let_def)
qed

text \<open>
  Fact: the table of disks after any start of the manager: at most eight disks, each under its own
  number, and no ATA device listed twice.
\<close>

theorem disk_manager_init_inv:
  "disk_manager_init m probed (s, w) = (n, s', w') \<Longrightarrow> disks_inv s' \<and> disk_manager_count s' = n"
  by (rule disk_manager_inv)

lemma enumerate_ata:
  "map (\<lambda>d. (d_channel d, d_select d)) (filter (\<lambda>d. d_type d = DISK_CONTROLLER_ATA)
      (map (\<lambda>(k, d). d\<lparr>d_active := P k\<rparr>) (List.enumerate n ds))) =
    map (\<lambda>d. (d_channel d, d_select d)) (filter (\<lambda>d. d_type d = DISK_CONTROLLER_ATA) ds)"
  by (induction ds arbitrary: n) auto

text \<open>
  Fact: selecting a disk succeeds exactly for a disk of the table that is initialized; it then is
  the only active one, the controller is its controller, and the table stays in order.
\<close>

theorem disk_select_correct:
  assumes "disks_inv s" and "disk_select ports i s = (ok, s')"
  shows "(ok \<longleftrightarrow> (\<exists>d. disk_manager_get_disk i s = Some d \<and> d_init d)) \<and> (\<not> ok \<longrightarrow> s' = s) \<and>
    (ok \<longrightarrow> disks_inv s' \<and> controller s' = d_type (disk_list s ! nat i) \<and>
      (\<forall>j < length (disk_list s'). d_active (disk_list s' ! j) \<longleftrightarrow> int j = i))"
proof (cases "\<exists>d. disk_manager_get_disk i s = Some d \<and> d_init d")
  case False
  then have "disk_select ports i s = (False, s)" by (auto simp: disk_select_def split: option.split)
  then show ?thesis using assms(2) False by simp
next
  case True
  then obtain d where d: "disk_manager_get_disk i s = Some d" "d_init d" by blast
  then have e: "d = disk_list s ! nat i" by (auto simp: disk_manager_get_disk_def split: if_splits)
  obtain t where t: "s' = t\<lparr>disk_list := map (\<lambda>(k, d). d\<lparr>d_active := (int k = i)\<rparr>) (List.enumerate 0 (disk_list s))\<rparr>"
      "controller t = d_type d" "ok"
    using assms(2) d
    by (auto simp: disk_select_def disk_set_controller_def ata_select_device_def Let_def split: if_splits option.splits)
  have n: "disk_list s' ! j = (disk_list s ! j)\<lparr>d_active := (int j = i)\<rparr>" if "j < length (disk_list s)" for j
    using that by (simp add: t(1) nth_enumerate_eq)
  have l: "length (disk_list s') = length (disk_list s)" "controller s' = d_type d" by (simp_all add: t(1,2))
  have "map (\<lambda>d. (d_channel d, d_select d)) (filter (\<lambda>d. d_type d = DISK_CONTROLLER_ATA) (disk_list s')) =
      map (\<lambda>d. (d_channel d, d_select d)) (filter (\<lambda>d. d_type d = DISK_CONTROLLER_ATA) (disk_list s))"
    by (simp add: t(1) enumerate_ata)
  then have "disks_inv s'" using assms(1) n unfolding disks_inv_def l by simp
  then show ?thesis using True t(3) n l e by simp
qed

definition one_nvme :: "(port option, nat) drivers" where
  "one_nvme = \<lparr>driver_list = [\<lparr>dr_name = ''nvme0'', dr_type = DRIVER_STORAGE, dr_id = 1, dr_data = None,
     dr_ops = \<lparr>op_read = None, op_write = None, op_ioctl = Some (\<lambda>_ _ w. (0, 4096, w))\<rparr>, dr_initialized = True, dr_active = True\<rparr>],
     dm_ready = True, next_device_id = 2\<rparr>"

definition ata_master :: ata_device_id where
  "ata_master = \<lparr>a_channel = 0, a_select = 0xA0, a_lba48 = True, a_atapi = False, a_size = 2048\<rparr>"

definition no_disks :: disks where
  "no_disks = \<lparr>disk_list = [], controller = DISK_CONTROLLER_NONE, ata_device = None, ahci_port = None, pci_found = False,
     init_attempted = False\<rparr>"

definition two_disks :: disks where
  "two_disks = fst (snd (disk_manager_init one_nvme [ata_master, ata_master] (no_disks, 0)))"

lemma two_disks_list: "map d_id (disk_list two_disks) = [0, 1] \<and> map d_init (disk_list two_disks) = [True, True]"
  by (simp add: two_disks_def disk_manager_init_def one_nvme_def ata_master_def no_disks_def kernel_device_list_def
      driver_list_by_type_def add_driver_def controller_of_def driver_disk_def disk_init_fields_def add_ata_def ata_disk_def
      disk_set_name_def cstr_copy_take)

lemma two_disks_eq: "disk_manager_init one_nvme [ata_master, ata_master] (no_disks, 0) = (length (disk_list two_disks), two_disks, 0)"
  by (simp add: two_disks_def disk_manager_init_def one_nvme_def kernel_device_list_def driver_list_by_type_def add_driver_def
      controller_of_def Let_def)

lemma two_disks_length: "length (disk_list two_disks) = 2"
  using arg_cong [OF conjunct1 [OF two_disks_list], of length] by simp

theorem disk_manager_init_inv_witness: "disks_inv two_disks \<and> disk_manager_count two_disks = 2"
  using disk_manager_init_inv [OF two_disks_eq] by (simp add: two_disks_length)

lemma two_disks_inv: "disks_inv two_disks"
  using disk_manager_inv [OF two_disks_eq] by simp

lemma disk_select_two: "fst (disk_select [] 1 two_disks)"
proof -
  have "d_init (disk_list two_disks ! 1)"
    using arg_cong [OF conjunct2 [OF two_disks_list], of "\<lambda>l. l ! 1"] two_disks_length by simp
  then show ?thesis by (simp add: disk_select_def disk_manager_get_disk_def two_disks_length Let_def)
qed

theorem disk_select_correct_witness:
  "\<exists>s. disk_select [] 1 two_disks = (True, s) \<and> (\<forall>j < length (disk_list s). d_active (disk_list s ! j) \<longleftrightarrow> int j = 1)"
proof -
  obtain s where "disk_select [] 1 two_disks = (True, s)" using disk_select_two by (cases "disk_select [] 1 two_disks") auto
  then show ?thesis using disk_select_correct [OF two_disks_inv] by blast
qed

end
