(* ===== verification/KMount.thy ===== *)
theory KMount
  imports KDisk "HOL-Library.Sublist"
begin

text \<open>
  The mount table, src/kernel/mount.cpp: which file system answers for a path.
\<close>

record mount_point =
  m_path :: string
  m_disk :: int
  m_part :: int
  m_type :: u8
  m_active :: bool

text \<open>The array and the number of entries that were ever taken; an entry that is unmounted stays
  in the array.\<close>

record mounts =
  mtab :: "mount_point list"
  mcount :: nat

abbreviation (input) MAX_MOUNTS :: nat where "MAX_MOUNTS \<equiv> 8"
abbreviation (input) FS_TYPE_MOS :: u8 where "FS_TYPE_MOS \<equiv> 0"
abbreviation (input) FS_TYPE_RAMFS :: u8 where "FS_TYPE_RAMFS \<equiv> 1"

definition mount_init :: "port list \<Rightarrow> disks \<times> mounts \<Rightarrow> nat \<times> disks \<times> mounts" where
  "mount_init ports = (\<lambda>(d, m).
     if disk_manager_count d > 0 then
       (1, snd (disk_select ports 0 d),
        m\<lparr>mtab := (mtab m)[0 := \<lparr>m_path = ''/'', m_disk = 0, m_part = 0, m_type = FS_TYPE_MOS, m_active = True\<rparr>], mcount := 1\<rparr>)
     else (0, d, m\<lparr>mcount := 0\<rparr>))"

definition mount_register :: "string \<Rightarrow> int \<Rightarrow> u8 \<Rightarrow> mounts \<Rightarrow> bool \<times> mounts" where
  "mount_register path disk_id fs_type m =
     (if mcount m \<ge> MAX_MOUNTS then (False, m)
      else case find_slot (\<lambda>p. m_active p \<and> m_path p = path) (take (mcount m) (mtab m)) of
        Some i \<Rightarrow> (True, m\<lparr>mtab := (mtab m)[i := (mtab m ! i)\<lparr>m_disk := disk_id, m_type := fs_type\<rparr>]\<rparr>)
      | None \<Rightarrow>
          (True, m\<lparr>mtab := (mtab m)[mcount m := \<lparr>m_path = cstr_copy 64 path, m_disk = disk_id, m_part = 0, m_type = fs_type,
                      m_active = True\<rparr>], mcount := mcount m + 1\<rparr>))"

definition mount_fs :: "port list \<Rightarrow> int \<Rightarrow> string \<Rightarrow> disks \<times> mounts \<Rightarrow> bool \<times> disks \<times> mounts" where
  "mount_fs ports disk_id path = (\<lambda>(d, m).
     if disk_id < 0 \<or> disk_id \<ge> int (disk_manager_count d) then (False, d, m)
     else case disk_select ports disk_id d of
       (False, d) \<Rightarrow> (False, d, m)
     | (True, d) \<Rightarrow>
         if list_ex (\<lambda>p. m_disk p = disk_id \<and> m_active p \<and> m_type p = FS_TYPE_MOS) (take (mcount m) (mtab m)) then (False, d, m)
         else case mount_register path disk_id FS_TYPE_MOS m of (ok, m) \<Rightarrow> (ok, d, m))"

definition unmount_fs :: "string \<Rightarrow> mounts \<Rightarrow> bool \<times> mounts" where
  "unmount_fs path m =
     (case find_slot (\<lambda>p. m_active p \<and> m_path p = path) (take (mcount m) (mtab m)) of
        None \<Rightarrow> (False, m)
      | Some i \<Rightarrow>
          if m_path (mtab m ! i) = ''/'' then (False, m)
          else (True, m\<lparr>mtab := (mtab m)[i := (mtab m ! i)\<lparr>m_active := False\<rparr>]\<rparr>))"

text \<open>The length of the common beginning of a path and the path of an entry.\<close>

fun common :: "string \<Rightarrow> string \<Rightarrow> nat" where
  "common (a # as) (b # bs) = (if a = b then Suc (common as bs) else 0)"
| "common _ _ = 0"

definition mount_match :: "string \<Rightarrow> mount_point \<Rightarrow> bool" where
  "mount_match path p =
     (let j = common path (m_path p)
      in j = length (m_path p) \<and> (m_path p = ''/'' \<or> j = length path \<or> path ! j = CHR ''/''))"

definition best_mount :: "string \<Rightarrow> nat \<times> mount_point \<Rightarrow> nat option \<times> nat \<Rightarrow> nat option \<times> nat" where
  "best_mount path = (\<lambda>(i, p) (best, best_len).
     if m_active p \<and> mount_match path p \<and> length (m_path p) > best_len then (Some i, length (m_path p)) else (best, best_len))"

text \<open>The result is an index into the array, None for the null pointer.\<close>

definition get_mount_for_path :: "string option \<Rightarrow> mounts \<Rightarrow> nat option" where
  "get_mount_for_path path m =
     (case fst (fold (best_mount (case path of None \<Rightarrow> ''/'' | Some p \<Rightarrow> p)) (List.enumerate 0 (take (mcount m) (mtab m))) (None, 0)) of
        Some i \<Rightarrow> Some i
      | None \<Rightarrow> if mcount m \<noteq> 0 then Some 0 else None)"

definition mount_count_active :: "mounts \<Rightarrow> nat" where
  "mount_count_active m = length (filter m_active (take (mcount m) (mtab m)))"

definition mount_get :: "int \<Rightarrow> mounts \<Rightarrow> mount_point option" where
  "mount_get index m =
     (let ps = filter m_active (take (mcount m) (mtab m))
      in if 0 \<le> index \<and> nat index < length ps then Some (ps ! nat index) else None)"

section \<open>Which mount answers for a path\<close>

text \<open>A path lies under the path of a mount if it is that path or continues it with a slash; every
  absolute path lies under the root.\<close>

definition under :: "string \<Rightarrow> string \<Rightarrow> bool" where
  "under mp path \<longleftrightarrow> prefix mp path \<and> (mp = ''/'' \<or> path = mp \<or> prefix (mp @ ''/'') path)"

definition mounts_inv :: "mounts \<Rightarrow> bool" where
  "mounts_inv m \<longleftrightarrow> length (mtab m) = MAX_MOUNTS \<and> 1 \<le> mcount m \<and> mcount m \<le> MAX_MOUNTS \<and>
     m_path (mtab m ! 0) = ''/'' \<and> m_active (mtab m ! 0) \<and> (\<forall>i < mcount m. length (m_path (mtab m ! i)) < 64)"

lemma common_prefix: "common path mp = length mp \<longleftrightarrow> prefix mp path"
proof (induction path mp rule: common.induct)
  case (1 a as b bs)
  then show ?case by auto
qed simp_all

lemma mount_match_under: "mount_match path p \<longleftrightarrow> under (m_path p) path"
proof (cases "prefix (m_path p) path")
  case True
  then obtain r where r: "path = m_path p @ r" by (auto simp: prefix_def)
  then have "(length (m_path p) = length path \<or> path ! length (m_path p) = CHR ''/'') \<longleftrightarrow> path = m_path p \<or> prefix (m_path p @ ''/'') path"
    by (cases r) auto
  then show ?thesis using True common_prefix [of path "m_path p"] by (auto simp: mount_match_def under_def Let_def)
next
  case False
  then show ?thesis using common_prefix [of path "m_path p"] by (simp add: mount_match_def under_def Let_def)
qed

text \<open>The scan keeps the first of the longest entries seen so far.\<close>

lemma best_mount_scan:
  assumes "fold (best_mount path) (List.enumerate 0 ps) (None, 0) = (best, n)"
  shows "(\<forall>p \<in> set ps. m_active p \<and> under (m_path p) path \<longrightarrow> length (m_path p) \<le> n) \<and>
    (case best of None \<Rightarrow> n = 0
     | Some i \<Rightarrow> i < length ps \<and> m_active (ps ! i) \<and> under (m_path (ps ! i)) path \<and> length (m_path (ps ! i)) = n)"
  using assms
proof (induction ps arbitrary: best n rule: rev_induct)
  case (snoc p ps)
  obtain b k where b: "fold (best_mount path) (List.enumerate 0 ps) (None, 0) = (b, k)" by force
  have "best_mount path (length ps, p) (b, k) = (best, n)" using snoc.prems b by (simp add: enumerate_append_eq)
  then show ?case
    using snoc.IH [OF b] by (auto simp: best_mount_def mount_match_under nth_append split: if_splits option.splits)
qed simp

lemma mount_step_inv:
  assumes "mounts_inv m"
  shows "mounts_inv (snd (mount_register path disk ty m))" "mounts_inv (snd (unmount_fs path m))"
proof -
  have k: "m_path (mtab m ! i) = path" "m_active (mtab m ! i)" "i < mcount m" "i < length (mtab m)"
    if "find_slot (\<lambda>p. m_active p \<and> m_path p = path) (take (mcount m) (mtab m)) = Some i" for i
    using find_slot_SomeD(1,2) [OF that] by auto
  have c: "length (cstr_copy 64 path) < 64" by (rule length_cstr_copy) simp
  show "mounts_inv (snd (mount_register path disk ty m))"
    using assms k c
    by (cases "find_slot (\<lambda>p. m_active p \<and> m_path p = path) (take (mcount m) (mtab m))")
       (auto simp: mount_register_def mounts_inv_def nth_list_update less_Suc_eq)
  show "mounts_inv (snd (unmount_fs path m))"
    using assms k
    by (cases "find_slot (\<lambda>p. m_active p \<and> m_path p = path) (take (mcount m) (mtab m))")
       (auto simp: unmount_fs_def mounts_inv_def nth_list_update)
qed

text \<open>
  Fact: the mount that answers for a path. With the root mounted, get_mount_for_path of an absolute
  path gives an active entry under whose path it lies, and no other active entry under whose path
  it lies has a longer one.
\<close>

theorem get_mount_longest:
  assumes "mounts_inv m" and "prefix ''/'' path"
  shows "\<exists>i < mcount m. get_mount_for_path (Some path) m = Some i \<and> m_active (mtab m ! i) \<and> under (m_path (mtab m ! i)) path \<and>
    (\<forall>j < mcount m. m_active (mtab m ! j) \<and> under (m_path (mtab m ! j)) path \<longrightarrow>
      length (m_path (mtab m ! j)) \<le> length (m_path (mtab m ! i)))"
proof -
  let ?ps = "take (mcount m) (mtab m)"
  obtain best n where b: "fold (best_mount path) (List.enumerate 0 ?ps) (None, 0) = (best, n)" by force
  note s = best_mount_scan [OF b]
  have l: "length ?ps = mcount m" "0 < mcount m" using assms(1) by (auto simp: mounts_inv_def)
  have "mtab m ! 0 \<in> set ?ps" using l nth_mem [of 0 ?ps] by simp
  moreover have "under ''/'' path" using assms(2) by (simp add: under_def)
  ultimately have "1 \<le> n" using s assms(1) by (fastforce simp: mounts_inv_def)
  then obtain i where i: "best = Some i" "i < mcount m" "m_active (mtab m ! i)" "under (m_path (mtab m ! i)) path" "length (m_path (mtab m ! i)) = n"
    using s l by (auto split: option.splits)
  have "length (m_path (mtab m ! j)) \<le> n" if "j < mcount m" "m_active (mtab m ! j)" "under (m_path (mtab m ! j)) path" for j
    using s that l nth_mem [of j ?ps] by auto
  then show ?thesis using b i by (auto simp: get_mount_for_path_def)
qed

text \<open>
  Fact: mounting a second disk redirects the first. A successful mount_fs leaves the new disk as the
  one that transfers go to, while the root still is entered with its own disk: the file system
  that is mounted there goes on reading and writing sectors on the disk selected last.
\<close>

theorem mount_fs_redirects:
  assumes "disks_inv d" and "mounts_inv m" and "path \<noteq> ''/''" and "mount_fs ports i path (d, m) = (True, d', m')"
  shows "mounts_inv m' \<and> m_disk (mtab m' ! 0) = m_disk (mtab m ! 0) \<and>
    (\<forall>j < disk_manager_count d'. d_active (disk_list d' ! j) \<longleftrightarrow> int j = i)"
proof -
  obtain e where e: "disk_select ports i d = (True, e)" "mount_register path i FS_TYPE_MOS m = (True, m')" "d' = e"
    using assms(4) by (auto simp: mount_fs_def split: if_splits prod.splits bool.splits)
  have "mounts_inv m'" using mount_step_inv(1) [OF assms(2), of path i FS_TYPE_MOS] e(2) by simp
  moreover have "m_disk (mtab m' ! 0) = m_disk (mtab m ! 0)"
    using e(2) assms(2,3)
    by (auto simp: mount_register_def mounts_inv_def nth_list_update find_slot_Some split: if_splits option.splits)
  ultimately show ?thesis using disk_select_correct [OF assms(1) e(1)] e(3) by (simp add: disk_manager_count_def)
qed

definition no_mount :: mount_point where
  "no_mount = \<lparr>m_path = [], m_disk = 0, m_part = 0, m_type = 0, m_active = False\<rparr>"

definition root_mounted :: mounts where
  "root_mounted = snd (snd (mount_init [] (two_disks, \<lparr>mtab = replicate 8 no_mount, mcount = 0\<rparr>)))"

definition tmp_mounted :: mounts where
  "tmp_mounted = snd (mount_register ''/tmp'' (-1) FS_TYPE_RAMFS root_mounted)"

lemma two_disks_some: "0 < disk_manager_count two_disks" "disk_list two_disks \<noteq> []"
  using two_disks_length by (auto simp: disk_manager_count_def)

lemma root_mounted_eq:
  "root_mounted = \<lparr>mtab = \<lparr>m_path = ''/'', m_disk = 0, m_part = 0, m_type = FS_TYPE_MOS, m_active = True\<rparr> # replicate 7 no_mount, mcount = 1\<rparr>"
  using two_disks_some by (simp add: root_mounted_def mount_init_def numeral_eq_Suc)

lemma root_mounted_inv: "mounts_inv root_mounted"
  by (simp add: root_mounted_eq mounts_inv_def)

lemma tmp_mounted_eq: "mcount tmp_mounted = 2" "mounts_inv tmp_mounted"
    "mtab tmp_mounted ! 0 = mtab root_mounted ! 0" "m_path (mtab tmp_mounted ! 1) = ''/tmp''" "m_active (mtab tmp_mounted ! 1)"
    "m_type (mtab tmp_mounted ! 1) = FS_TYPE_RAMFS"
proof -
  show "mounts_inv tmp_mounted" unfolding tmp_mounted_def by (rule mount_step_inv(1) [OF root_mounted_inv])
qed (simp_all add: tmp_mounted_def mount_register_def root_mounted_eq cstr_copy_take)

theorem get_mount_longest_witness: "get_mount_for_path (Some ''/tmp/a'') tmp_mounted = Some 1"
proof -
  have p: "prefix ''/'' ''/tmp/a''" "under ''/tmp'' ''/tmp/a''" by (simp_all add: under_def)
  obtain i where i: "i < 2" "get_mount_for_path (Some ''/tmp/a'') tmp_mounted = Some i"
      "length ''/tmp'' \<le> length (m_path (mtab tmp_mounted ! i))"
    using get_mount_longest [OF tmp_mounted_eq(2) p(1)] p(2) tmp_mounted_eq by (metis one_less_numeral_iff semiring_norm(76))
  then have "i \<noteq> 0" using tmp_mounted_eq(3) by (intro notI) (simp add: root_mounted_eq)
  then show ?thesis using i by (auto simp: less_2_cases_iff)
qed

theorem mount_fs_redirects_witness:
  "\<exists>d m. mount_fs [] 1 ''/mnt'' (two_disks, root_mounted) = (True, d, m) \<and> d_active (disk_list d ! 1) \<and> m_disk (mtab m ! 0) = 0"
proof -
  obtain d where d: "disk_select [] 1 two_disks = (True, d)" using disk_select_two by (cases "disk_select [] 1 two_disks") auto
  have l: "disk_manager_count d = 2" using d two_disks_length
    by (auto simp: disk_select_def disk_manager_count_def disk_set_controller_def ata_select_device_def Let_def split: option.splits if_splits)
  obtain m where m: "mount_fs [] 1 ''/mnt'' (two_disks, root_mounted) = (True, d, m)"
    by (simp add: mount_fs_def d two_disks_length disk_manager_count_def root_mounted_eq mount_register_def no_mount_def)
  show ?thesis using mount_fs_redirects [OF two_disks_inv root_mounted_inv _ m] m l by (simp add: root_mounted_eq)
qed

end
