(* ===== verification/KRamfs.thy ===== *)
theory KRamfs
  imports KFsPath KMount
begin

text \<open>
  The file system in memory that is mounted on /tmp, src/kernel/ramfs.cpp: a table of 64 nodes,
  each with its parent, its name and a buffer of 32 KiB. The time is an argument of the operations
  that stamp a node.
\<close>

record ram_node =
  n_used :: bool
  n_dir :: bool
  n_name :: string
  n_parent :: int
  n_mode :: u16
  n_size :: u32
  n_mtime :: u32
  n_data :: "u8 list"

record ramfs =
  nodes :: "ram_node list"
  ram_ready :: bool

abbreviation (input) RAMFS_MAX_NODES :: nat where "RAMFS_MAX_NODES \<equiv> 64"
abbreviation (input) RAMFS_NAME_MAX :: nat where "RAMFS_NAME_MAX \<equiv> 32"
abbreviation (input) RAMFS_FILE_MAX :: nat where "RAMFS_FILE_MAX \<equiv> 32768"

definition zero_node :: ram_node where
  "zero_node = \<lparr>n_used = False, n_dir = False, n_name = [], n_parent = 0, n_mode = 0, n_size = 0, n_mtime = 0,
     n_data = replicate RAMFS_FILE_MAX 0\<rparr>"

definition ramfs_init :: ramfs where
  "ramfs_init = \<lparr>nodes = zero_node\<lparr>n_used := True, n_dir := True, n_parent := -1, n_mode := FS_MODE_DIR\<rparr> #
     replicate (RAMFS_MAX_NODES - 1) zero_node, ram_ready = True\<rparr>"

definition ramfs_is_tmp_path :: "string \<Rightarrow> bool" where
  "ramfs_is_tmp_path path = (take 4 path = ''/tmp'' \<and> (length path = 4 \<or> path ! 4 = slash))"

text \<open>The content of a buffer of out_sz characters; a buffer of less than two is left alone.\<close>

definition ramfs_strip_tmp :: "string \<Rightarrow> string \<Rightarrow> nat \<Rightarrow> string" where
  "ramfs_strip_tmp path out out_sz =
     (if out_sz < 2 then out
      else if \<not> ramfs_is_tmp_path path then ''/''
      else if drop 4 path = [] then ''/''
      else cstr_copy out_sz (drop 4 path))"

definition ram_find_child :: "ram_node list \<Rightarrow> nat \<Rightarrow> string \<Rightarrow> nat option" where
  "ram_find_child ns parent name =
     map_option Suc (find_slot (\<lambda>n. n_used n \<and> n_parent n = int parent \<and> n_name n = name) (tl ns))"

definition ram_alloc :: "ram_node list \<Rightarrow> nat option" where
  "ram_alloc ns = map_option Suc (find_slot (\<lambda>n. \<not> n_used n) (tl ns))"

text \<open>The next name of a path, of at most 31 characters, and what follows it and one slash.\<close>

definition ram_component :: "string \<Rightarrow> string \<times> string" where
  "ram_component p =
     (let nm = takeWhile (\<lambda>c. c \<noteq> slash) (take (RAMFS_NAME_MAX - 1) p); q = drop (length nm) p
      in (nm, if q \<noteq> [] \<and> hd q = slash then tl q else q))"

lemma ram_component_shorter: "p \<noteq> [] \<Longrightarrow> length (snd (ram_component p)) < length p"
  by (cases p) (auto simp: ram_component_def Let_def)

lemma ram_component_less: "p \<noteq> [] \<Longrightarrow> (nm, q) = ram_component p \<Longrightarrow> length q < length p"
  by (metis ram_component_shorter snd_conv)

text \<open>The variables parent and last of the loop are always equal; one argument stands for both.\<close>

function ram_walk :: "ram_node list \<Rightarrow> nat \<Rightarrow> string \<Rightarrow> nat option" where
  "ram_walk ns parent p =
     (if p = [] then Some parent
      else case ram_component p of
        (nm, q) \<Rightarrow>
          if nm = [] then ram_walk ns parent q
          else case ram_find_child ns parent nm of
            None \<Rightarrow> None
          | Some idx \<Rightarrow> if q \<noteq> [] \<and> \<not> n_dir (ns ! idx) then None else ram_walk ns idx q)"
  by pat_completeness auto

termination
  by (relation "measure (\<lambda>(ns, parent, p). length p)") (auto intro: ram_component_less)

declare ram_walk.simps [simp del]

lemma ram_walk_Nil [simp]: "ram_walk ns p [] = Some p"
  by (simp add: ram_walk.simps)

definition ramfs_lookup :: "string \<Rightarrow> ramfs \<Rightarrow> nat option" where
  "ramfs_lookup path r =
     (if \<not> ram_ready r then None
      else let rel = ramfs_strip_tmp path [] 128
        in if rel = ''/'' then Some 0
           else ram_walk (nodes r) 0 (if rel \<noteq> [] \<and> hd rel = slash then tl rel else rel))"

definition ramfs_stat :: "string \<Rightarrow> ramfs \<Rightarrow> fs_stat option" where
  "ramfs_stat path r =
     (case ramfs_lookup path r of
        None \<Rightarrow> None
      | Some idx \<Rightarrow>
          (let n = nodes r ! idx in
           Some \<lparr>st_size = n_size n, st_mode = ucast (n_mode n), st_mtime = n_mtime n, st_atime = 0, st_ctime = 0, st_nlink = 1,
             st_uid = 0, st_gid = 0, st_flags = ucast (FS_FLAG_OCCUPIED OR (if n_dir n then FS_FLAG_DIRECTORY else 0)), st_start = 0, st_secs = 0\<rparr>))"

definition ramfs_read :: "string \<Rightarrow> nat \<Rightarrow> ramfs \<Rightarrow> u8 list option" where
  "ramfs_read path sz r =
     (case ramfs_lookup path r of
        None \<Rightarrow> None
      | Some idx \<Rightarrow>
          (let n = nodes r ! idx in if n_dir n then None else Some (take (min sz (unat (n_size n))) (n_data n))))"

text \<open>The part of a path before the last slash and the part after it.\<close>

definition split_last :: "string \<Rightarrow> (string \<times> string) option" where
  "split_last s =
     (if slash \<in> set s then Some (rev (tl (dropWhile (\<lambda>c. c \<noteq> slash) (rev s))), rev (takeWhile (\<lambda>c. c \<noteq> slash) (rev s))) else None)"

text \<open>ramfs_create_file and ramfs_mkdir cut the path at its last slash; for a slash at the start
  they overwrite the first character of the name.\<close>

definition ram_new :: "bool \<Rightarrow> u16 \<Rightarrow> u32 \<Rightarrow> string \<Rightarrow> string \<Rightarrow> ramfs \<Rightarrow> bool \<times> ramfs" where
  "ram_new dir mode t dpath base r =
     (let (dpath, base) = (if dpath = [] then (''/'', []) else (dpath, base));
          parent = (case ramfs_lookup (if length dpath > 1 then dpath else ''/tmp'') r of None \<Rightarrow> 0 | Some i \<Rightarrow> i)
      in case ram_alloc (nodes r) of
           None \<Rightarrow> (False, r)
         | Some idx \<Rightarrow>
             (True, r\<lparr>nodes := (nodes r)[idx := zero_node\<lparr>n_used := True, n_dir := dir, n_parent := int parent, n_mode := mode,
                n_name := take (RAMFS_NAME_MAX - 1) base, n_mtime := t\<rparr>]\<rparr>))"

definition ramfs_mkdir :: "string \<Rightarrow> u32 \<Rightarrow> ramfs \<Rightarrow> bool \<times> ramfs" where
  "ramfs_mkdir path t r =
     (if ramfs_lookup path r \<noteq> None then (True, r)
      else case split_last (cstr_copy 128 path) of
        None \<Rightarrow> (False, r)
      | Some (dpath, base) \<Rightarrow> ram_new True FS_MODE_DIR t dpath base r)"

definition ramfs_create_file :: "string \<Rightarrow> u16 \<Rightarrow> u32 \<Rightarrow> ramfs \<Rightarrow> bool \<times> ramfs" where
  "ramfs_create_file path mode t r =
     (if ramfs_lookup path r \<noteq> None then (True, r)
      else case split_last (cstr_copy 128 path) of
        None \<Rightarrow> (False, r)
      | Some (dpath, base) \<Rightarrow>
          if base = [] then (False, r) else ram_new False (if mode \<noteq> 0 then mode else FS_MODE_FILE) t dpath base r)"

definition ramfs_write :: "string \<Rightarrow> u8 list \<Rightarrow> u32 \<Rightarrow> ramfs \<Rightarrow> bool \<times> ramfs" where
  "ramfs_write path data t r =
     (case (if ramfs_lookup path r = None then ramfs_create_file path FS_MODE_FILE t r else (True, r)) of
        (False, r) \<Rightarrow> (False, r)
      | (True, r) \<Rightarrow>
          (case ramfs_lookup path r of
             None \<Rightarrow> (False, r)
           | Some idx \<Rightarrow>
               (let n = nodes r ! idx; d = take RAMFS_FILE_MAX data in
                if n_dir n then (False, r)
                else (True, r\<lparr>nodes := (nodes r)[idx := n\<lparr>n_data := d @ drop (length d) (n_data n), n_size := of_nat (length d),
                        n_mtime := t\<rparr>]\<rparr>))))"

definition ramfs_list :: "string \<Rightarrow> nat \<Rightarrow> ramfs \<Rightarrow> string option" where
  "ramfs_list path sz r =
     (case ramfs_lookup path r of
        None \<Rightarrow> None
      | Some d \<Rightarrow>
          if \<not> n_dir (nodes r ! d) \<or> sz = 0 then None
          else Some (take (sz - 1) (concat (map (\<lambda>n. n_name n @ (if n_dir n then ''/'' else []) @ [CHR 0x0A])
                 (filter (\<lambda>n. n_used n \<and> n_parent n = int d) (tl (nodes r)))))))"

definition ramfs_unlink :: "string \<Rightarrow> ramfs \<Rightarrow> bool \<times> ramfs" where
  "ramfs_unlink path r =
     (case ramfs_lookup path r of
        None \<Rightarrow> (False, r)
      | Some idx \<Rightarrow>
          if idx = 0 then (False, r)
          else if n_dir (nodes r ! idx) \<and> list_ex (\<lambda>n. n_used n \<and> n_parent n = int idx) (tl (nodes r)) then (False, r)
          else (True, r\<lparr>nodes := (nodes r)[idx := zero_node]\<rparr>))"

definition ramfs_mount_tmp :: "ramfs \<times> mounts \<Rightarrow> bool \<times> ramfs \<times> mounts" where
  "ramfs_mount_tmp = (\<lambda>(r, m).
     let r = (if ram_ready r then r else ramfs_init)
     in case mount_register ''/tmp'' (-1) FS_TYPE_RAMFS m of (ok, m) \<Rightarrow> (ok, r, m))"

section \<open>The table of nodes\<close>

definition ram_inv :: "ramfs \<Rightarrow> bool" where
  "ram_inv r \<longleftrightarrow> ram_ready r \<and> length (nodes r) = RAMFS_MAX_NODES \<and> n_used (nodes r ! 0) \<and> n_dir (nodes r ! 0) \<and>
     (\<forall>n \<in> set (nodes r). length (n_data n) = RAMFS_FILE_MAX \<and> unat (n_size n) \<le> RAMFS_FILE_MAX \<and>
        length (n_name n) < RAMFS_NAME_MAX \<and> n_parent n < int RAMFS_MAX_NODES)"

lemma ram_find_child_Some:
  assumes "ram_find_child ns p nm = Some i"
  shows "0 < i" "i < length ns" "n_used (ns ! i)" "n_parent (ns ! i) = int p" "n_name (ns ! i) = nm"
  using assms by (auto simp: ram_find_child_def nth_tl find_slot_Some)

lemma ram_alloc_Some:
  assumes "ram_alloc ns = Some i"
  shows "0 < i" "i < length ns" "\<not> n_used (ns ! i)"
  using assms by (auto simp: ram_alloc_def nth_tl find_slot_Some)

lemma ram_walk_bound: "ram_walk ns p path = Some i \<Longrightarrow> p < length ns \<Longrightarrow> i < length ns"
proof (induction ns p path rule: ram_walk.induct)
  case (1 ns parent p)
  then show ?case
    by (subst (asm) (3) ram_walk.simps) (auto split: if_splits prod.splits option.splits dest: ram_find_child_Some(2))
qed

lemma ramfs_lookup_bound:
  assumes "ram_inv r" and "ramfs_lookup path r = Some i"
  shows "i < RAMFS_MAX_NODES" "i < length (nodes r)"
proof -
  have l: "length (nodes r) = RAMFS_MAX_NODES" using assms(1) by (simp add: ram_inv_def)
  show "i < RAMFS_MAX_NODES" using assms(2) ram_walk_bound [of "nodes r" 0 _ i] l
    by (auto simp: ramfs_lookup_def Let_def split: if_splits)
  then show "i < length (nodes r)" using l by simp
qed

lemma ram_inv_put:
  assumes "ram_inv r" and "length (n_data n) = RAMFS_FILE_MAX" "unat (n_size n) \<le> RAMFS_FILE_MAX" "length (n_name n) < RAMFS_NAME_MAX"
    "n_parent n < int RAMFS_MAX_NODES" and "i = 0 \<Longrightarrow> n_used n \<and> n_dir n"
  shows "ram_inv (r\<lparr>nodes := (nodes r)[i := n]\<rparr>)"
  using assms by (cases i) (auto simp: ram_inv_def dest!: set_update_subset_insert [THEN subsetD])

lemma ram_new_inv:
  assumes "ram_inv r"
  shows "ram_inv (snd (ram_new dir mode t dpath base r))"
proof -
  obtain d b where db: "(if dpath = [] then (''/'', []) else (dpath, base)) = (d, b)" by force
  let ?p = "case ramfs_lookup (if length d > 1 then d else ''/tmp'') r of None \<Rightarrow> 0 | Some i \<Rightarrow> i"
  have "?p < RAMFS_MAX_NODES" using ramfs_lookup_bound(1) [OF assms] by (auto split: option.split)
  then show ?thesis
    using assms ram_alloc_Some(1) unfolding ram_new_def db Let_def prod.case
    by (auto simp: zero_node_def intro!: ram_inv_put split: option.split)
qed

lemma ramfs_create_inv: "ram_inv r \<Longrightarrow> ram_inv (snd (ramfs_create_file path mode t r))"
  using ram_new_inv by (auto simp: ramfs_create_file_def split: option.split)

lemma ramfs_write_inv:
  assumes "ram_inv r"
  shows "ram_inv (snd (ramfs_write path data t r))"
proof -
  obtain ok r1 where r1: "(if ramfs_lookup path r = None then ramfs_create_file path FS_MODE_FILE t r else (True, r)) = (ok, r1)" by force
  then have i: "ram_inv r1" using assms ramfs_create_inv [OF assms] by (metis snd_conv)
  show ?thesis
  proof (cases "ok \<and> ramfs_lookup path r1 \<noteq> None \<and> \<not> n_dir (nodes r1 ! the (ramfs_lookup path r1))")
    case True
    then obtain k where k: "ramfs_lookup path r1 = Some k" "\<not> n_dir (nodes r1 ! k)" by auto
    have "nodes r1 ! k \<in> set (nodes r1)" using ramfs_lookup_bound(2) [OF i k(1)] by simp
    moreover have "k \<noteq> 0" using k(2) i by (metis ram_inv_def)
    ultimately have n: "length (n_data (nodes r1 ! k)) = RAMFS_FILE_MAX" "length (n_name (nodes r1 ! k)) < RAMFS_NAME_MAX"
        "n_parent (nodes r1 ! k) < int RAMFS_MAX_NODES" "k \<noteq> 0" using i by (auto simp: ram_inv_def)
    have "unat (of_nat (length (take RAMFS_FILE_MAX data)) :: u32) \<le> RAMFS_FILE_MAX" by (subst unat_of_nat32) simp_all
    then show ?thesis using True k n unfolding ramfs_write_def r1 Let_def by (auto intro!: ram_inv_put [OF i])
  qed (use i in \<open>auto simp: ramfs_write_def r1 Let_def split: option.split bool.split\<close>)
qed

text \<open>
  Fact: every operation keeps the table in order: the root is a directory, each node has its whole
  buffer, a size within it, a name that fits and a parent in the table.
\<close>

theorem ramfs_invariant:
  assumes "ram_inv r"
  shows "ram_inv ramfs_init \<and> ram_inv (snd (ramfs_mkdir path t r)) \<and> ram_inv (snd (ramfs_create_file path mode t r)) \<and>
    ram_inv (snd (ramfs_write path data t r)) \<and> ram_inv (snd (ramfs_unlink path r))"
proof (intro conjI)
  show "ram_inv ramfs_init" by (simp add: ram_inv_def ramfs_init_def zero_node_def)
  show "ram_inv (snd (ramfs_mkdir path t r))" using assms ram_new_inv by (auto simp: ramfs_mkdir_def split: option.split)
  show "ram_inv (snd (ramfs_create_file path mode t r))" by (rule ramfs_create_inv [OF assms])
  show "ram_inv (snd (ramfs_write path data t r))" by (rule ramfs_write_inv [OF assms])
  show "ram_inv (snd (ramfs_unlink path r))"
    using assms by (auto simp: ramfs_unlink_def zero_node_def intro!: ram_inv_put split: option.split)
qed

section \<open>Paths\<close>

lemma ram_component_append:
  assumes "a \<noteq> []" and "ram_component a = (nm, q)"
  shows "ram_component (a @ slash # b) = (nm, if drop (length nm) a = [] then b else q @ slash # b)"
proof -
  have nm: "takeWhile (\<lambda>c. c \<noteq> slash) (take 31 (a @ slash # b)) = nm"
  proof (cases "length a < 31")
    case True
    then obtain k where "31 - length a = Suc k" by (metis Suc_diff_Suc)
    then have "take 31 (a @ slash # b) = a @ slash # take k b" "take 31 a = a" using True by simp_all
    then show ?thesis using assms(2) by (simp add: ram_component_def Let_def takeWhile_tail)
  qed (use assms(2) in \<open>simp add: ram_component_def Let_def\<close>)
  have l: "length nm \<le> length a" using assms(2) length_takeWhile_le [of "\<lambda>c. c \<noteq> slash" "take 31 a"] by (auto simp: ram_component_def Let_def)
  have d: "drop (length nm) (a @ slash # b) = drop (length nm) a @ slash # b" using l by simp
  have q: "q = (if drop (length nm) a \<noteq> [] \<and> hd (drop (length nm) a) = slash then tl (drop (length nm) a) else drop (length nm) a)"
    using assms(2) by (auto simp: ram_component_def Let_def)
  have "ram_component (a @ slash # b) =
      (nm, if hd (drop (length nm) a @ slash # b) = slash then tl (drop (length nm) a @ slash # b) else drop (length nm) a @ slash # b)"
    unfolding ram_component_def Let_def using nm d by simp
  then show ?thesis unfolding q by (cases "drop (length nm) a") auto
qed

lemma ram_walk_append:
  assumes "n_dir (ns ! p)" and "b \<noteq> []"
  shows "ram_walk ns p (a @ slash # b) =
    (case ram_walk ns p a of None \<Rightarrow> None | Some q \<Rightarrow> if n_dir (ns ! q) then ram_walk ns q b else None)"
  using assms
proof (induction ns p a rule: ram_walk.induct)
  case (1 ns parent a)
  show ?case
  proof (cases "a = []")
    case True
    have "ram_component (slash # b) = ([], b)" by (simp add: ram_component_def)
    then show ?thesis using True 1(3,4) by (simp add: ram_walk.simps [of ns parent "slash # b"])
  next
    case False
    obtain nm q where nm: "ram_component a = (nm, q)" by force
    note app = ram_component_append [OF False nm, of b]
    have w: "ram_walk ns parent a = (if nm = [] then ram_walk ns parent q else case ram_find_child ns parent nm of
        None \<Rightarrow> None | Some idx \<Rightarrow> if q \<noteq> [] \<and> \<not> n_dir (ns ! idx) then None else ram_walk ns idx q)"
      by (subst ram_walk.simps) (simp add: False nm)
    have w': "ram_walk ns parent (a @ slash # b) = (if nm = [] then ram_walk ns parent (q @ slash # b) else case ram_find_child ns parent nm of
        None \<Rightarrow> None | Some idx \<Rightarrow> if \<not> n_dir (ns ! idx) then None
          else ram_walk ns idx (if drop (length nm) a = [] then b else q @ slash # b))"
      by (subst ram_walk.simps) (use 1(4) False app in \<open>auto split: option.split\<close>)
    have e: "q = []" if "drop (length nm) a = []" using nm that by (auto simp: ram_component_def Let_def)
    show ?thesis
    proof (cases "nm = []")
      case True
      then show ?thesis using 1(1) [OF False nm [symmetric] True 1(3,4)] w w' by simp
    next
      case nz: False
      show ?thesis
      proof (cases "ram_find_child ns parent nm")
        case (Some idx)
        show ?thesis
        proof (cases "n_dir (ns ! idx)")
          case True
          then have "ram_walk ns idx (q @ slash # b) = (case ram_walk ns idx q of None \<Rightarrow> None | Some q \<Rightarrow> if n_dir (ns ! q) then ram_walk ns q b else None)"
            using 1(2) [OF False nm [symmetric] nz Some _ True 1(4)] by simp
          then show ?thesis using w w' nz Some True e by simp
        qed (use w w' nz Some in simp)
      qed (use w w' nz in simp)
    qed
  qed
qed

lemma ramfs_lookup_tmp:
  assumes "ram_ready r" and "ramfs_is_tmp_path path" and "length path < 132"
  shows "ramfs_lookup path r = ram_walk (nodes r) 0 (tl (drop 4 path))"
proof (cases "drop 4 path")
  case Nil
  then show ?thesis using assms by (simp add: ramfs_lookup_def ramfs_strip_tmp_def)
next
  case (Cons c p)
  then have "path ! 4 = c" by (metis nth_Cons_0 hd_conv_nth hd_drop_conv_nth list.sel(1) list.discI drop_eq_Nil not_le)
  then have "c = slash" using assms(2) Cons by (auto simp: ramfs_is_tmp_path_def)
  moreover have "drop 4 path \<noteq> []" using Cons by simp
  then have "ramfs_strip_tmp path [] 128 = drop 4 path"
    using assms(2,3) by (simp add: ramfs_strip_tmp_def cstr_copy_id)
  ultimately show ?thesis using assms(1) Cons by (simp add: ramfs_lookup_def Let_def)
qed

text \<open>A name that is one component.\<close>

definition simple_name :: "string \<Rightarrow> bool" where
  "simple_name nm \<longleftrightarrow> nm \<noteq> [] \<and> slash \<notin> set nm"

lemma ram_component_simple:
  assumes "simple_name nm"
  shows "ram_component nm = (take 31 nm, drop 31 nm)"
proof -
  have t: "takeWhile (\<lambda>c. c \<noteq> slash) (take 31 nm) = take 31 nm"
    using assms by (auto simp: simple_name_def takeWhile_eq_all_conv dest: in_set_takeD)
  have d: "drop (length (take 31 nm)) nm = drop 31 nm" by (simp add: min_def)
  have h: "hd (drop 31 nm) \<noteq> slash" if "drop 31 nm \<noteq> []"
    using in_set_dropD [OF hd_in_set [OF that]] assms by (auto simp: simple_name_def)
  have k: "(32 :: nat) - 1 = 31" by simp
  have n: "\<not> (drop 31 nm \<noteq> [] \<and> hd (drop 31 nm) = slash)" using h by blast
  show ?thesis unfolding ram_component_def Let_def k t d if_not_P [OF n] ..
qed

lemma tmp_child: "ramfs_is_tmp_path d \<Longrightarrow> ramfs_is_tmp_path (d @ slash # nm)"
  by (auto simp: ramfs_is_tmp_path_def nth_append)

lemma ramfs_lookup_child:
  assumes "ram_inv r" and "ramfs_is_tmp_path d" and "simple_name nm" and "length d + length nm < 127"
  shows "ramfs_lookup (d @ slash # nm) r =
    (case ramfs_lookup d r of None \<Rightarrow> None | Some p \<Rightarrow> if n_dir (nodes r ! p) then ram_walk (nodes r) p nm else None)"
proof -
  have r: "ram_ready r" "n_dir (nodes r ! 0)" "nm \<noteq> []" using assms(1,3) by (simp_all add: ram_inv_def simple_name_def)
  have "length (take 4 d) = 4" using assms(2) by (simp add: ramfs_is_tmp_path_def)
  then have l: "4 \<le> length d" by simp
  note p = ramfs_lookup_tmp [OF r(1) tmp_child [OF assms(2), of nm]] and q = ramfs_lookup_tmp [OF r(1) assms(2)]
  show ?thesis
  proof (cases "drop 4 d")
    case Nil
    then have "tl (drop 4 (d @ slash # nm)) = nm" using l by simp
    then show ?thesis using p q r(2) assms(4) Nil by simp
  next
    case (Cons c a)
    then have "tl (drop 4 (d @ slash # nm)) = a @ slash # nm" using l by simp
    then show ?thesis using p q assms(4) Cons ram_walk_append [OF r(2,3), of a] by simp
  qed
qed

lemma ram_walk_simple:
  assumes "simple_name nm"
  shows "length nm < 32 \<Longrightarrow> ram_walk ns p nm = ram_find_child ns p nm"
    "32 \<le> length nm \<Longrightarrow> ram_find_child ns p (take 31 nm) = Some i \<Longrightarrow> \<not> n_dir (ns ! i) \<Longrightarrow> ram_walk ns p nm = None"
    "32 \<le> length nm \<Longrightarrow> ram_find_child ns p (take 31 nm) = None \<Longrightarrow> ram_walk ns p nm = None"
  using assms ram_component_simple [OF assms]
  by (auto simp: simple_name_def ram_walk.simps [of ns p nm] split: option.split)

text \<open>The table with one more node.\<close>

lemma find_child_new:
  assumes "ram_alloc ns = Some i" "n_used n"
  shows "n_parent n = int p \<Longrightarrow> ram_find_child ns p (n_name n) = None \<Longrightarrow> ram_find_child (ns[i := n]) p (n_name n) = Some i"
    "n_parent n \<noteq> int q \<or> n_name n \<noteq> nm \<Longrightarrow> ram_find_child (ns[i := n]) q nm = ram_find_child ns q nm"
proof -
  note a = ram_alloc_Some [OF assms(1)]
  obtain k where k: "i = Suc k" "k < length (tl ns)" using a(1,2) by (cases i) auto
  have u: "tl (ns[i := n]) = (tl ns)[k := n]" "\<not> n_used (tl ns ! k)" using a k by (cases ns; simp add: nth_tl)+
  show "n_parent n = int p \<Longrightarrow> ram_find_child ns p (n_name n) = None \<Longrightarrow> ram_find_child (ns[i := n]) p (n_name n) = Some i"
    using find_slot_update_new [OF k(2), of "\<lambda>m. n_used m \<and> n_parent m = int p \<and> n_name m = n_name n" n] assms(2)
    by (simp add: ram_find_child_def u [unfolded k(1)] k(1))
  show "n_parent n \<noteq> int q \<or> n_name n \<noteq> nm \<Longrightarrow> ram_find_child (ns[i := n]) q nm = ram_find_child ns q nm"
    using find_slot_update_same [OF k(2), of "\<lambda>m. n_used m \<and> n_parent m = int q \<and> n_name m = nm" n] u(2)
    by (auto simp: ram_find_child_def u(1))
qed

lemma ram_walk_new:
  assumes "ram_walk ns q path = Some j" "n_used (ns ! q)"
    and "ram_alloc ns = Some i" "n_used n" "n_parent n = int p" "ram_find_child ns p (n_name n) = None"
  shows "ram_walk (ns[i := n]) q path = Some j \<and> n_used (ns ! j)"
  using assms
proof (induction ns q path rule: ram_walk.induct)
  case (1 ns q path)
  note a = 1(4-8)
  show ?case
  proof (cases "path = []")
    case False
    obtain nm r where nm: "ram_component path = (nm, r)" by force
    show ?thesis
    proof (cases "nm = []")
      case True
      then have "ram_walk ns q r = Some j" using 1(3) False nm by (simp add: ram_walk.simps [of ns q path])
      then show ?thesis using 1(1) [OF False nm [symmetric] True _ a] False nm True by (simp add: ram_walk.simps [of "ns[i := n]" q path])
    next
      case nz: False
      then obtain k where k: "ram_find_child ns q nm = Some k" "r = [] \<or> n_dir (ns ! k)" "ram_walk ns k r = Some j"
        using 1(3) False nm by (auto simp: ram_walk.simps [of ns q path] split: option.splits if_splits)
      then have "\<not> (q = p \<and> nm = n_name n)" using a(5) by auto
      then have f: "ram_find_child (ns[i := n]) q nm = Some k" using find_child_new(2) [OF a(2,3), of q nm] a(4) k(1) by auto
      have u: "n_used (ns ! k)" by (rule ram_find_child_Some(3) [OF k(1)])
      then have "k \<noteq> i" using ram_alloc_Some(3) [OF a(2)] by auto
      then show ?thesis
        using 1(2) [OF False nm [symmetric] nz k(1) _ k(3) u a(2-5)] k(2) False nm nz f by (simp add: ram_walk.simps [of "ns[i := n]" q path])
    qed
  qed (use 1(3,4) in simp)
qed

lemma split_last_child:
  assumes "slash \<notin> set nm"
  shows "split_last (d @ slash # nm) = Some (d, nm)"
proof -
  have "takeWhile (\<lambda>c. c \<noteq> slash) (rev (d @ slash # nm)) = rev nm" "dropWhile (\<lambda>c. c \<noteq> slash) (rev (d @ slash # nm)) = slash # rev d"
    using assms by (auto simp: takeWhile_tail dropWhile_append takeWhile_eq_all_conv)
  then show ?thesis by (simp add: split_last_def)
qed

text \<open>The node that ramfs_create_file enters for a name in a directory.\<close>

definition ram_file :: "nat \<Rightarrow> string \<Rightarrow> u16 \<Rightarrow> u32 \<Rightarrow> ram_node" where
  "ram_file p nm mode t = zero_node\<lparr>n_used := True, n_parent := int p, n_mode := mode, n_name := take 31 nm, n_mtime := t\<rparr>"

lemma ram_create_child:
  assumes "ramfs_is_tmp_path d" and "simple_name nm" and "length d + length nm < 127"
    and "ramfs_lookup (d @ slash # nm) r = None" and "ramfs_lookup d r = Some p" and "ram_alloc (nodes r) = Some i" and "mode \<noteq> 0"
  shows "ramfs_create_file (d @ slash # nm) mode t r = (True, r\<lparr>nodes := (nodes r)[i := ram_file p nm mode t]\<rparr>)"
proof -
  have n: "nm \<noteq> []" "slash \<notin> set nm" "cstr_copy 128 (d @ slash # nm) = d @ slash # nm"
    using assms(2,3) by (simp_all add: simple_name_def cstr_copy_id)
  have "length (take 4 d) = 4" using assms(1) by (simp add: ramfs_is_tmp_path_def)
  then have l: "d \<noteq> []" "1 < length d" by auto
  show ?thesis
    unfolding ramfs_create_file_def n(3) split_last_child [OF n(2)] ram_new_def
    using assms(4-7) n(1) l by (simp add: ram_file_def zero_node_def Let_def)
qed

lemma ramfs_lookup_new:
  assumes "ram_inv r" and "ramfs_lookup other r = Some j"
    and "ram_alloc (nodes r) = Some i" "n_used n" "n_parent n = int p" "ram_find_child (nodes r) p (n_name n) = None"
  shows "ramfs_lookup other (r\<lparr>nodes := (nodes r)[i := n]\<rparr>) = Some j \<and> j \<noteq> i"
proof -
  have u: "n_used (nodes r ! 0)" using assms(1) by (simp add: ram_inv_def)
  note w = ram_walk_new [OF _ u assms(3-6)]
  have "ramfs_lookup other (r\<lparr>nodes := (nodes r)[i := n]\<rparr>) = Some j \<and> n_used (nodes r ! j)"
    using assms(2) w u by (auto simp: ramfs_lookup_def Let_def split: if_splits)
  then show ?thesis using ram_alloc_Some(3) [OF assms(3)] by auto
qed

text \<open>Content, size and times of a node play no part in a lookup.\<close>

lemma ram_walk_data:
  assumes "n_used n = n_used (ns ! i)" "n_dir n = n_dir (ns ! i)" "n_parent n = n_parent (ns ! i)" "n_name n = n_name (ns ! i)" "0 < i"
  shows "ram_walk (ns[i := n]) q path = ram_walk ns q path"
proof (cases "i < length ns")
  case True
  then obtain k where k: "i = Suc k" "k < length (tl ns)" using assms(5) by (cases i) auto
  have u: "tl (ns[Suc k := n]) = (tl ns)[k := n]" "tl ns ! k = ns ! i" using k by (cases ns; simp add: nth_tl)+
  have f: "ram_find_child (ns[i := n]) a b = ram_find_child ns a b" for a b
    using find_slot_update_same [OF k(2), of "\<lambda>m. n_used m \<and> n_parent m = int a \<and> n_name m = b" n] assms
    by (simp add: ram_find_child_def k(1) u(1)) (simp add: u(2) flip: k(1))
  have d: "n_dir (ns[i := n] ! j) = n_dir (ns ! j)" for j using assms(2) True by (cases "j = i") simp_all
  show ?thesis
  proof (induction "ns[i := n]" q path rule: ram_walk.induct)
    case (1 q path)
    show ?case
      by (subst (1 2) ram_walk.simps) (use 1 f d in \<open>auto split: prod.split option.split\<close>)
  qed
qed (simp add: list_update_beyond)

lemma ramfs_write_node:
  assumes "ram_inv r" and "ramfs_lookup path r = Some i" and "\<not> n_dir (nodes r ! i)"
  shows "\<exists>r'. ramfs_write path data t r = (True, r') \<and> ramfs_read path n r' = Some (take n (take RAMFS_FILE_MAX data)) \<and>
    (\<forall>other. ramfs_lookup other r' = ramfs_lookup other r) \<and> (\<forall>j. j \<noteq> i \<longrightarrow> nodes r' ! j = nodes r ! j)"
proof -
  define x where "x = take RAMFS_FILE_MAX data"
  let ?n = "(nodes r ! i)\<lparr>n_data := x @ drop (length x) (n_data (nodes r ! i)), n_size := of_nat (length x), n_mtime := t\<rparr>"
  have i: "i < length (nodes r)" "0 < i"
    using ramfs_lookup_bound(2) [OF assms(1,2)] assms(1,3) by (auto simp: ram_inv_def intro: gr0I)
  have w: "ramfs_write path data t r = (True, r\<lparr>nodes := (nodes r)[i := ?n]\<rparr>)"
    using assms(2,3) by (simp add: ramfs_write_def Let_def x_def)
  have l: "ramfs_lookup other (r\<lparr>nodes := (nodes r)[i := ?n]\<rparr>) = ramfs_lookup other r" for other
    by (simp add: ramfs_lookup_def ram_walk_data [OF _ _ _ _ i(2)] Let_def)
  have u: "unat (of_nat (length x) :: u32) = length x" by (rule unat_of_nat32) (simp add: x_def)
  have "ramfs_read path n (r\<lparr>nodes := (nodes r)[i := ?n]\<rparr>) = Some (take n x)"
    using assms(2,3) i(1) unfolding ramfs_read_def l by (simp add: Let_def u min_def)
  then show ?thesis using w l by (auto simp: x_def)
qed

text \<open>
  Fact: a file of /tmp reads back what was written to it. For a name in an existing directory that
  is a file already, or that does not exist while a node is free, ramfs_write succeeds, and
  ramfs_read then returns the data, cut at 32 KiB and at the size of the buffer. All other paths
  that led to a node lead to the same node, which is unchanged.
\<close>

theorem ramfs_write_read:
  assumes "ram_inv r" and "ramfs_is_tmp_path d" and "simple_name nm" and "length nm < 32" and "length d + length nm < 127"
    and "ramfs_lookup d r = Some p" and "n_dir (nodes r ! p)"
    and "case ramfs_lookup (d @ slash # nm) r of Some i \<Rightarrow> \<not> n_dir (nodes r ! i) | None \<Rightarrow> ram_alloc (nodes r) \<noteq> None"
  shows "\<exists>r' i. ramfs_write (d @ slash # nm) data t r = (True, r') \<and>
    ramfs_read (d @ slash # nm) n r' = Some (take n (take RAMFS_FILE_MAX data)) \<and> ramfs_lookup (d @ slash # nm) r' = Some i \<and>
    (\<forall>other j. ramfs_lookup other r = Some j \<longrightarrow> ramfs_lookup other r' = Some j \<and> (j \<noteq> i \<longrightarrow> nodes r' ! j = nodes r ! j))"

proof (cases "ramfs_lookup (d @ slash # nm) r")
  case (Some i)
  then obtain r' where "ramfs_write (d @ slash # nm) data t r = (True, r')"
      "ramfs_read (d @ slash # nm) n r' = Some (take n (take RAMFS_FILE_MAX data))"
      "\<forall>other. ramfs_lookup other r' = ramfs_lookup other r" "\<forall>j. j \<noteq> i \<longrightarrow> nodes r' ! j = nodes r ! j"
    using ramfs_write_node [OF assms(1) Some, of data t n] assms(8) by auto
  then show ?thesis using Some by auto
next
  case None
  then obtain i where i: "ram_alloc (nodes r) = Some i" using assms(8) by auto
  let ?f = "ram_file p nm FS_MODE_FILE t" and ?p = "d @ slash # nm"
  let ?r = "r\<lparr>nodes := (nodes r)[i := ?f]\<rparr>"
  have c: "ramfs_create_file ?p FS_MODE_FILE t r = (True, ?r)"
    using ram_create_child [OF assms(2,3,5) None assms(6) i] by simp
  then have inv: "ram_inv ?r" using ramfs_create_inv [OF assms(1), of ?p FS_MODE_FILE t] by simp
  note lk = ramfs_lookup_child [OF _ assms(2,3,5)]
  have f: "n_used ?f" "n_parent ?f = int p" "n_name ?f = nm" "\<not> n_dir ?f" using assms(4) by (simp_all add: ram_file_def zero_node_def)
  have fc: "ram_find_child (nodes r) p (n_name ?f) = None"
    using lk [OF assms(1)] None assms(6,7) ram_walk_simple(1) [OF assms(3,4)] f(3) by simp
  note new = ramfs_lookup_new [OF assms(1) _ i f(1,2) fc]
  have pd: "ramfs_lookup d ?r = Some p" "p \<noteq> i" using new [OF assms(6)] by simp_all
  have k: "ramfs_lookup ?p ?r = Some i"
    using lk [OF inv] pd assms(7) ram_walk_simple(1) [OF assms(3,4)] find_child_new(1) [OF i f(1,2) fc] f(3) by simp
  have nd: "\<not> n_dir (nodes ?r ! i)" using ram_alloc_Some(2) [OF i] f(4) by simp
  obtain r' where r': "ramfs_write ?p data t ?r = (True, r')" "ramfs_read ?p n r' = Some (take n (take RAMFS_FILE_MAX data))"
      "\<forall>other. ramfs_lookup other r' = ramfs_lookup other ?r" "\<forall>j. j \<noteq> i \<longrightarrow> nodes r' ! j = nodes ?r ! j"
    using ramfs_write_node [OF inv k nd, of data t n] by auto
  have "ramfs_write ?p data t r = ramfs_write ?p data t ?r" unfolding ramfs_write_def using None c k by simp
  moreover have "ramfs_lookup other r' = Some j \<and> (j \<noteq> i \<longrightarrow> nodes r' ! j = nodes r ! j)" if "ramfs_lookup other r = Some j" for other j
    using new [OF that] r'(3,4) by simp
  ultimately show ?thesis using r' k by auto
qed

text \<open>
  Fact: a name of more than 31 characters. Writing to it fails although a node is free, and takes
  the node away: ramfs_create_file enters the file under the first 31 characters, and the lookup
  that follows reads the rest of the name as a path below that file.
\<close>

theorem ramfs_long_name_leaks:
  assumes "ram_inv r" and "ramfs_is_tmp_path d" and "simple_name nm" and "32 \<le> length nm" and "length d + length nm < 127"
    and "ramfs_lookup d r = Some p" and "n_dir (nodes r ! p)" and "ram_alloc (nodes r) = Some i"
    and "ram_find_child (nodes r) p (take 31 nm) = None"
  shows "\<exists>r'. ramfs_write (d @ slash # nm) data t r = (False, r') \<and> n_used (nodes r' ! i) \<and> \<not> n_used (nodes r ! i)"
proof -
  let ?p = "d @ slash # nm" and ?f = "ram_file p nm FS_MODE_FILE t"
  let ?r = "r\<lparr>nodes := (nodes r)[i := ?f]\<rparr>"
  note lk = ramfs_lookup_child [OF _ assms(2,3,5)] and w = ram_walk_simple(2,3) [OF assms(3,4)]
  have none: "ramfs_lookup ?p r = None" using lk [OF assms(1)] assms(6,7,9) w(2) by simp
  have c: "ramfs_create_file ?p FS_MODE_FILE t r = (True, ?r)" using ram_create_child [OF assms(2,3,5) none assms(6,8)] by simp
  then have inv: "ram_inv ?r" using ramfs_create_inv [OF assms(1), of ?p FS_MODE_FILE t] by simp
  have f: "n_used ?f" "n_parent ?f = int p" "n_name ?f = take 31 nm" "\<not> n_dir ?f" by (simp_all add: ram_file_def zero_node_def)
  note a = ram_alloc_Some [OF assms(8)]
  have fc: "ram_find_child (nodes r) p (n_name ?f) = None" using assms(9) f(3) by simp
  have "ramfs_lookup d ?r = Some p" using ramfs_lookup_new [OF assms(1,6,8) f(1,2) fc] by simp
  moreover have "ram_find_child (nodes ?r) p (take 31 nm) = Some i" using find_child_new(1) [OF assms(8) f(1,2) fc] f(3) by simp
  moreover have "\<not> n_dir (nodes ?r ! i)" using f(4) a(2) by simp
  ultimately have "ramfs_lookup ?p ?r = None" using lk [OF inv] w(1) by simp
  then have "ramfs_write ?p data t r = (False, ?r)" using none c by (simp add: ramfs_write_def)
  then show ?thesis using a f(1) by auto
qed

lemma ramfs_init_inv: "ram_inv ramfs_init"
  by (simp add: ram_inv_def ramfs_init_def zero_node_def)

lemma ramfs_init_facts:
  "ramfs_lookup ''/tmp'' ramfs_init = Some 0" "n_dir (nodes ramfs_init ! 0)" "ram_alloc (nodes ramfs_init) = Some 1"
  "ram_find_child (nodes ramfs_init) 0 nm = None" "ramfs_is_tmp_path ''/tmp''"
  by (simp_all add: ramfs_lookup_def ramfs_strip_tmp_def ramfs_is_tmp_path_def ramfs_init_def ram_alloc_def ram_find_child_def zero_node_def)

theorem ramfs_invariant_witness: "ram_inv (snd (ramfs_write ''/tmp/a'' [1, 2, 3] 7 ramfs_init))"
  using ramfs_invariant [OF ramfs_init_inv, of "''/tmp/a''" 7 0 "[1, 2, 3]"] by blast

theorem ramfs_write_read_witness:
  "\<exists>r'. ramfs_write ''/tmp/a'' [1, 2, 3] 7 ramfs_init = (True, r') \<and> ramfs_read ''/tmp/a'' 2 r' = Some [1, 2]"
proof -
  have s: "simple_name ''a''" by (simp add: simple_name_def)
  have "ramfs_lookup (''/tmp'' @ slash # ''a'') ramfs_init = None"
    using ramfs_lookup_child [OF ramfs_init_inv ramfs_init_facts(5) s] ram_walk_simple(1) [OF s] ramfs_init_facts by simp
  then show ?thesis
    using ramfs_write_read [OF ramfs_init_inv ramfs_init_facts(5) s _ _ ramfs_init_facts(1,2), where data = "[1, 2, 3]" and t = 7 and n = 2]
      ramfs_init_facts(3) by auto
qed

theorem ramfs_long_name_leaks_witness:
  "\<exists>r'. ramfs_write (''/tmp'' @ slash # replicate 40 CHR ''x'') [1] 7 ramfs_init = (False, r') \<and> n_used (nodes r' ! 1)"
proof -
  have s: "simple_name (replicate 40 CHR ''x'')" by (simp add: simple_name_def)
  show ?thesis
    using ramfs_long_name_leaks [OF ramfs_init_inv ramfs_init_facts(5) s _ _ ramfs_init_facts(1,2,3) ramfs_init_facts(4), of "[1]" 7] by auto
qed

end
