(* ===== verification/KNetif.thy ===== *)
theory KNetif
  imports KRing KBytes
begin

text \<open>
  Packet buffers, the receive queue and the network interfaces: src/kernel/drivers/network/core/
  skb.cpp, net_queue.cpp and netif.cpp, with the poll and send operations that nic.cpp installs.
  A pointer to a buffer or an interface is its index. The device is part of the state:
  what nic.cpp knows of it, the frames that wait in it, its answer to each frame handed to it, and
  the frames handed to it so far.
\<close>

section \<open>Packet buffers\<close>

record skb =
  s_data :: "u8 list"
  s_len :: nat
  s_netif :: "nat option"
  s_protocol :: u16
  s_used :: bool

abbreviation (input) SKB_DATA_SIZE :: nat where "SKB_DATA_SIZE \<equiv> 2048"
abbreviation (input) SKB_POOL_SIZE :: nat where "SKB_POOL_SIZE \<equiv> 256"

definition skb_clear :: "skb \<Rightarrow> skb" where
  "skb_clear s = s\<lparr>s_len := 0, s_netif := None, s_protocol := 0\<rparr>"

definition skb_pool_init :: "skb list \<Rightarrow> skb list" where
  "skb_pool_init pool = map (\<lambda>s. (skb_clear s)\<lparr>s_used := False\<rparr>) pool"

definition skb_alloc :: "skb list \<Rightarrow> nat option \<times> skb list" where
  "skb_alloc pool =
     (case find_slot (\<lambda>s. \<not> s_used s) pool of
        None \<Rightarrow> (None, pool)
      | Some i \<Rightarrow> (Some i, pool[i := (skb_clear (pool ! i))\<lparr>s_used := True\<rparr>]))"

definition skb_free :: "nat option \<Rightarrow> skb list \<Rightarrow> skb list" where
  "skb_free p pool = (case p of None \<Rightarrow> pool | Some i \<Rightarrow> pool[i := (skb_clear (pool ! i))\<lparr>s_used := False\<rparr>])"

definition skb_copy_from :: "nat \<Rightarrow> u8 list \<Rightarrow> skb list \<Rightarrow> bool \<times> skb list" where
  "skb_copy_from i data pool =
     (if data = [] \<or> length data > SKB_DATA_SIZE then (False, pool)
      else (True, pool[i := (pool ! i)\<lparr>s_data := data @ drop (length data) (s_data (pool ! i)), s_len := length data\<rparr>]))"

section \<open>The receive queue\<close>

abbreviation (input) NET_QUEUE_SIZE :: nat where "NET_QUEUE_SIZE \<equiv> 32"

record net_queue =
  q_slots :: "nat option list"
  q_head :: u32
  q_tail :: u32
  q_drops :: u32

definition net_queue_init :: net_queue where
  "net_queue_init = \<lparr>q_slots = replicate NET_QUEUE_SIZE None, q_head = 0, q_tail = 0, q_drops = 0\<rparr>"

definition net_queue_push :: "nat \<Rightarrow> net_queue \<Rightarrow> bool \<times> net_queue" where
  "net_queue_push skb q =
     (let next = (q_tail q + 1) mod of_nat NET_QUEUE_SIZE in
      if next = q_head q then (False, q\<lparr>q_drops := q_drops q + 1\<rparr>)
      else (True, q\<lparr>q_slots := (q_slots q)[unat (q_tail q) := Some skb], q_tail := next\<rparr>))"

definition net_queue_pop :: "net_queue \<Rightarrow> nat option \<times> net_queue" where
  "net_queue_pop q =
     (if q_head q = q_tail q then (None, q)
      else (q_slots q ! unat (q_head q),
            q\<lparr>q_slots := (q_slots q)[unat (q_head q) := None], q_head := (q_head q + 1) mod of_nat NET_QUEUE_SIZE\<rparr>))"

definition net_queue_empty :: "net_queue \<Rightarrow> bool" where
  "net_queue_empty q = (q_head q = q_tail q)"

text \<open>The queue as a bounded first-in first-out buffer of 31 entries.\<close>

definition q_len :: "net_queue \<Rightarrow> nat" where
  "q_len q = (unat (q_tail q) + 32 - unat (q_head q)) mod 32"

definition q_contents :: "net_queue \<Rightarrow> nat list" where
  "q_contents q = map (\<lambda>i. the (q_slots q ! ((unat (q_head q) + i) mod 32))) [0..<q_len q]"

definition q_inv :: "net_queue \<Rightarrow> bool" where
  "q_inv q \<longleftrightarrow> length (q_slots q) = 32 \<and> unat (q_head q) < 32 \<and> unat (q_tail q) < 32 \<and>
     (\<forall>i < q_len q. q_slots q ! ((unat (q_head q) + i) mod 32) \<noteq> None)"

definition q_push :: "nat \<Rightarrow> net_queue \<Rightarrow> net_queue" where
  "q_push x q = snd (net_queue_push x q)"

definition q_pop :: "net_queue \<Rightarrow> (nat \<times> net_queue) option" where
  "q_pop q = (case net_queue_pop q of (None, q') \<Rightarrow> None | (Some x, q') \<Rightarrow> Some (x, q'))"

lemma unat_next: "unat w < 32 \<Longrightarrow> unat ((w + 1) mod 32 :: u32) = (unat w + 1) mod 32"
  by (simp add: unat_mod unat_inc word_nat)

lemma q_len_cases:
  assumes "unat (q_head q) < 32" "unat (q_tail q) < 32"
  shows "q_len q = (if unat (q_head q) \<le> unat (q_tail q) then unat (q_tail q) - unat (q_head q) else unat (q_tail q) + 32 - unat (q_head q))"
  using assms by (auto simp: q_len_def mod_if)

lemma q_tail_pos:
  assumes "unat (q_head q) < 32" "unat (q_tail q) < 32"
  shows "(unat (q_head q) + q_len q) mod 32 = unat (q_tail q)" "q_len q \<le> 31"
  using assms by (auto simp: q_len_cases [OF assms] mod_if)

lemma push_full:
  assumes "unat (q_head q) < 32" "unat (q_tail q) < 32"
  shows "(q_tail q + 1) mod 32 = q_head q \<longleftrightarrow> q_len q = 31"
proof -
  have "(q_tail q + 1) mod 32 = q_head q \<longleftrightarrow> (unat (q_tail q) + 1) mod 32 = unat (q_head q)"
    using unat_next [OF assms(2)] by (metis word_unat_eq_iff)
  then show ?thesis using assms by (auto simp: q_len_cases [OF assms] mod_if split: if_splits)
qed

lemma q_push_ok:
  assumes "q_inv q" and "q_len q < 31"
  shows "net_queue_push x q = (True, q_push x q)" "q_inv (q_push x q)" "q_contents (q_push x q) = q_contents q @ [x]"
proof -
  let ?h = "unat (q_head q)" and ?t = "unat (q_tail q)"
  let ?q = "q\<lparr>q_slots := (q_slots q)[?t := Some x], q_tail := (q_tail q + 1) mod 32\<rparr>"
  have b: "?h < 32" "?t < 32" "length (q_slots q) = 32" using assms(1) by (simp_all add: q_inv_def)
  have p: "net_queue_push x q = (True, ?q)" using push_full [OF b(1,2)] assms(2) by (simp add: net_queue_push_def)
  then have q: "q_push x q = ?q" by (simp add: q_push_def)
  show "net_queue_push x q = (True, q_push x q)" using p q by simp
  have l: "q_len ?q = Suc (q_len q)"
    using assms(2) b by (simp add: q_len_def unat_next) (auto simp: mod_if split: if_splits)
  have s: "q_slots ?q ! ((?h + i) mod 32) = (if i = q_len q then Some x else q_slots q ! ((?h + i) mod 32))" if "i \<le> q_len q" for i
  proof (cases "i = q_len q")
    case False
    then have "(?h + i) mod 32 \<noteq> ?t" using ring_slot_distinct [OF b(1), of i "q_len q"] that q_tail_pos(1) [OF b(1,2)] assms(2) by simp
    then show ?thesis using False by simp
  qed (use q_tail_pos(1) [OF b(1,2)] b in simp)
  show "q_inv (q_push x q)" using assms(1) b s unfolding q q_inv_def l by (auto simp: unat_next less_Suc_eq)
  show "q_contents (q_push x q) = q_contents q @ [x]" unfolding q q_contents_def l using s by simp
qed

lemma q_push_full:
  assumes "q_inv q" and "\<not> q_len q < 31"
  shows "net_queue_push x q = (False, q_push x q)" "q_push x q = q\<lparr>q_drops := q_drops q + 1\<rparr>"
proof -
  have b: "unat (q_head q) < 32" "unat (q_tail q) < 32" using assms(1) by (simp_all add: q_inv_def)
  show "net_queue_push x q = (False, q_push x q)" "q_push x q = q\<lparr>q_drops := q_drops q + 1\<rparr>"
    using push_full [OF b] q_tail_pos(2) [OF b] assms(2) by (simp_all add: net_queue_push_def q_push_def)
qed

lemma q_empty: "q_inv q \<Longrightarrow> q_head q = q_tail q \<longleftrightarrow> q_len q = 0"
  using q_len_cases [of q] by (auto simp: q_inv_def word_unat_eq_iff split: if_splits)

lemma q_pop_ok:
  assumes "q_inv q" and "q_len q \<noteq> 0"
  shows "\<exists>x q'. net_queue_pop q = (Some x, q') \<and> q_inv q' \<and> q_contents q = x # q_contents q'"
proof -
  let ?h = "unat (q_head q)"
  have b: "?h < 32" "unat (q_tail q) < 32" "length (q_slots q) = 32" using assms(1) by (simp_all add: q_inv_def)
  let ?q = "q\<lparr>q_slots := (q_slots q)[?h := None], q_head := (q_head q + 1) mod 32\<rparr>"
  obtain x where x: "q_slots q ! ?h = Some x" using assms b by (force simp: q_inv_def dest: spec [of _ 0])
  have p: "net_queue_pop q = (Some x, ?q)" using assms q_empty x by (simp add: net_queue_pop_def)
  have l: "q_len q = Suc (q_len ?q)"
    using assms(2) b by (simp add: q_len_def unat_next) (auto simp: mod_if split: if_splits)
  have s: "q_slots ?q ! ((unat (q_head ?q) + i) mod 32) = q_slots q ! ((?h + Suc i) mod 32)" if "i < q_len ?q" for i
  proof -
    have "(?h + 0) mod 32 \<noteq> (?h + Suc i) mod 32"
      using ring_slot_distinct [OF b(1), of 0 "Suc i"] that l q_tail_pos(2) [OF b(1,2)] by simp
    then show ?thesis using b by (simp add: unat_next mod_simps)
  qed
  have n: "q_slots q ! ((?h + Suc i) mod 32) \<noteq> None" if "i < q_len ?q" for i
    using assms(1) l that unfolding q_inv_def by (metis Suc_less_eq)
  have "q_inv ?q" using b s n unfolding q_inv_def by (simp add: unat_next)
  moreover have "q_contents q = x # q_contents ?q"
    using s x b by (simp add: q_contents_def l upt_conv_Cons flip: map_Suc_upt del: upt_Suc)
  ultimately show ?thesis using p by blast
qed

interpretation nq: bounded_fifo q_push q_pop q_contents 31 q_inv
proof
  fix q q' :: net_queue and x :: nat
  assume i: "q_inv q"
  then have l: "length (q_contents q) = q_len q" "q_len q \<le> 31" using q_tail_pos(2) [of q] by (simp_all add: q_contents_def q_inv_def)
  show "length (q_contents q) \<le> 31" using l by simp
  have d: "q_inv (q\<lparr>q_drops := n\<rparr>) = q_inv q" "q_contents (q\<lparr>q_drops := n\<rparr>) = q_contents q" for n
    by (simp_all add: q_inv_def q_contents_def q_len_def)
  show "q_inv (q_push x q)" "q_contents (q_push x q) = (if length (q_contents q) < 31 then q_contents q @ [x] else q_contents q)"
    using q_push_ok [OF i, of x] q_push_full [OF i, of x] i l d by (cases "q_len q < 31"; simp)+
  show "(q_pop q = None) = (q_contents q = [])"
    using q_pop_ok [OF i] q_empty [OF i] l by (cases "q_len q = 0") (auto simp: q_pop_def net_queue_pop_def)
  show "q_pop q = Some (x, q') \<Longrightarrow> q_inv q' \<and> q_contents q = x # q_contents q'"
    using q_pop_ok [OF i] q_empty [OF i] by (cases "q_len q = 0") (auto simp: q_pop_def net_queue_pop_def)
qed

section \<open>Interfaces\<close>

datatype netif_hw_type = NETIF_HW_NONE | NETIF_HW_RTL8139 | NETIF_HW_PCNET | NETIF_HW_VIRTIO

record netif_stats =
  rx_packets :: u32
  tx_packets :: u32
  rx_bytes :: u32
  tx_bytes :: u32
  rx_dropped :: u32
  tx_errors :: u32
  irq_count :: u32

text \<open>The operations of an interface are the ones of nic.cpp or null.\<close>

record netif =
  if_name :: string
  if_mac :: "u8 list"
  if_ip :: u32
  if_mask :: u32
  if_gw :: u32
  if_mtu :: u16
  if_hw :: netif_hw_type
  if_irq :: u8
  if_up :: bool
  if_init :: bool
  if_ops :: bool
  if_queue :: net_queue
  if_stats :: netif_stats

record net =
  netifs :: "netif list"
  netif_used :: nat
  default_netif :: "nat option"
  skb_pool :: "skb list"
  nic_on :: bool
  nic_mac :: "u8 list"
  nic_irq :: u8
  nic_hw :: netif_hw_type
  nic_netif :: "nat option"
  hw_rx :: "u8 list list"
  hw_rc :: "nat \<Rightarrow> bool"
  wire :: "u8 list list"

abbreviation (input) NETIF_MAX :: nat where "NETIF_MAX \<equiv> 4"

abbreviation nif :: "'a net_scheme \<Rightarrow> nat \<Rightarrow> netif" where "nif n i \<equiv> netifs n ! i"

definition put_nif :: "nat \<Rightarrow> netif \<Rightarrow> 'a net_scheme \<Rightarrow> 'a net_scheme" where
  "put_nif i x n = n\<lparr>netifs := (netifs n)[i := x]\<rparr>"

definition no_stats :: netif_stats where
  "no_stats = \<lparr>rx_packets = 0, tx_packets = 0, rx_bytes = 0, tx_bytes = 0, rx_dropped = 0, tx_errors = 0, irq_count = 0\<rparr>"

definition no_netif :: netif where
  "no_netif = \<lparr>if_name = [], if_mac = replicate 6 0, if_ip = 0, if_mask = 0xFFFFFF00, if_gw = 0, if_mtu = 1500,
     if_hw = NETIF_HW_NONE, if_irq = 0, if_up = False, if_init = False, if_ops = False, if_queue = net_queue_init, if_stats = no_stats\<rparr>"

definition netif_init_subsystem :: "'a net_scheme \<Rightarrow> 'a net_scheme" where
  "netif_init_subsystem n = n\<lparr>skb_pool := skb_pool_init (skb_pool n), netif_used := 0, default_netif := None,
     netifs := replicate NETIF_MAX no_netif\<rparr>"

definition netif_alloc :: "string option \<Rightarrow> 'a net_scheme \<Rightarrow> nat option \<times> 'a net_scheme" where
  "netif_alloc name n =
     (if netif_used n \<ge> NETIF_MAX then (None, n)
      else let i = netif_used n;
               x = (nif n i)\<lparr>if_name := cstr_copy 8 (case name of None \<Rightarrow> ''eth?'' | Some s \<Rightarrow> s), if_init := True, if_up := False,
                     if_queue := net_queue_init\<rparr>;
               n = put_nif i x (n\<lparr>netif_used := i + 1\<rparr>)
        in (Some i, if default_netif n = None then n\<lparr>default_netif := Some i\<rparr> else n))"

definition netif_set_default :: "nat option \<Rightarrow> 'a net_scheme \<Rightarrow> 'a net_scheme" where
  "netif_set_default p n = (case p of None \<Rightarrow> n | Some i \<Rightarrow> n\<lparr>default_netif := Some i\<rparr>)"

definition netif_register :: "nat option \<Rightarrow> 'a net_scheme \<Rightarrow> bool \<times> 'a net_scheme" where
  "netif_register p n =
     (case p of
        None \<Rightarrow> (False, n)
      | Some i \<Rightarrow>
          if \<not> if_init (nif n i) then (False, n)
          else let n = put_nif i ((nif n i)\<lparr>if_up := True\<rparr>) n
            in (True, if default_netif n = None then n\<lparr>default_netif := Some i\<rparr> else n))"

definition netif_get :: "int \<Rightarrow> 'a net_scheme \<Rightarrow> nat option" where
  "netif_get index n = (if index < 0 \<or> index \<ge> int (netif_used n) then None else Some (nat index))"

text \<open>nic_ops_send: the driver takes the frame and answers whether it could send it.\<close>

definition nic_ops_send :: "u8 list \<Rightarrow> 'a net_scheme \<Rightarrow> bool \<times> 'a net_scheme" where
  "nic_ops_send data n = (if \<not> nic_on n then (False, n) else (hw_rc n (length (wire n)), n\<lparr>wire := wire n @ [data]\<rparr>))"

definition netif_send :: "nat option \<Rightarrow> u8 list \<Rightarrow> 'a net_scheme \<Rightarrow> bool \<times> 'a net_scheme" where
  "netif_send p data n =
     (case p of
        None \<Rightarrow> (False, n)
      | Some i \<Rightarrow>
          if \<not> if_up (nif n i) \<or> \<not> if_ops (nif n i) \<or> data = [] then (False, n)
          else case nic_ops_send data n of
            (ok, n) \<Rightarrow>
              (let st = if_stats (nif n i) in
               (ok, put_nif i ((nif n i)\<lparr>if_stats :=
                  (if ok then st\<lparr>tx_packets := tx_packets st + 1, tx_bytes := tx_bytes st + of_nat (length data)\<rparr>
                   else st\<lparr>tx_errors := tx_errors st + 1\<rparr>)\<rparr>) n)))"

definition rx_drop :: "nat \<Rightarrow> 'a net_scheme \<Rightarrow> 'a net_scheme" where
  "rx_drop i n = put_nif i ((nif n i)\<lparr>if_stats := (if_stats (nif n i))\<lparr>rx_dropped := rx_dropped (if_stats (nif n i)) + 1\<rparr>\<rparr>) n"

definition net_rx_enqueue :: "nat \<Rightarrow> u8 list \<Rightarrow> 'a net_scheme \<Rightarrow> bool \<times> 'a net_scheme" where
  "net_rx_enqueue i data n =
     (if data = [] then (False, n)
      else case skb_alloc (skb_pool n) of
        (None, pool) \<Rightarrow> (False, rx_drop i n)
      | (Some k, pool) \<Rightarrow>
          (case skb_copy_from k data pool of
             (False, pool) \<Rightarrow> (False, rx_drop i (n\<lparr>skb_pool := skb_free (Some k) pool\<rparr>))
           | (True, pool) \<Rightarrow>
               (let pool = pool[k := (pool ! k)\<lparr>s_netif := Some i\<rparr>] in
                case net_queue_push k (if_queue (nif n i)) of
                  (False, q) \<Rightarrow> (False, rx_drop i (put_nif i ((nif n i)\<lparr>if_queue := q\<rparr>) (n\<lparr>skb_pool := skb_free (Some k) pool\<rparr>)))
                | (True, q) \<Rightarrow>
                    (let st = if_stats (nif n i) in
                     (True, put_nif i ((nif n i)\<lparr>if_queue := q, if_stats := st\<lparr>rx_packets := rx_packets st + 1,
                        rx_bytes := rx_bytes st + of_nat (length data)\<rparr>\<rparr>) (n\<lparr>skb_pool := pool\<rparr>))))))"

lemma net_rx_enqueue_hw: "(ok, m) = net_rx_enqueue i f n \<Longrightarrow> hw_rx m = hw_rx n"
  by (auto simp: net_rx_enqueue_def rx_drop_def put_nif_def Let_def split: prod.splits option.splits bool.splits if_splits)

text \<open>nic_ops_poll: up to 32 frames go from the hardware to the queue; a frame that the queue
  refuses is not counted.\<close>

function nic_poll_loop :: "nat \<Rightarrow> nat \<Rightarrow> 'a net_scheme \<Rightarrow> nat \<times> 'a net_scheme" where
  "nic_poll_loop i cnt n =
     (case hw_rx n of
        [] \<Rightarrow> (cnt, n)
      | f # fs \<Rightarrow>
          if cnt \<ge> 32 then (cnt, n)
          else let n = n\<lparr>hw_rx := fs\<rparr> in
            if f = [] then (cnt, n)
            else case net_rx_enqueue i f n of (ok, n) \<Rightarrow> nic_poll_loop i (if ok then cnt + 1 else cnt) n)"
  by pat_completeness auto

termination by (relation "measure (\<lambda>(i, cnt, n). length (hw_rx n))") (auto dest: net_rx_enqueue_hw)

declare nic_poll_loop.simps [simp del]

definition nic_ops_poll :: "nat \<Rightarrow> 'a net_scheme \<Rightarrow> nat \<times> 'a net_scheme" where
  "nic_ops_poll i n = (if \<not> nic_on n then (0, n) else nic_poll_loop i 0 n)"

definition nic_ops_irq :: "nat \<Rightarrow> 'a net_scheme \<Rightarrow> 'a net_scheme" where
  "nic_ops_irq i n = snd (nic_ops_poll i n)"

definition netif_poll :: "nat option \<Rightarrow> 'a net_scheme \<Rightarrow> nat \<times> 'a net_scheme" where
  "netif_poll p n =
     (case p of
        None \<Rightarrow> (0, n)
      | Some i \<Rightarrow> if \<not> if_up (nif n i) \<or> \<not> if_ops (nif n i) then (0, n) else nic_ops_poll i n)"

definition netif_handle_irq :: "nat option \<Rightarrow> 'a net_scheme \<Rightarrow> 'a net_scheme" where
  "netif_handle_irq p n =
     (case p of
        None \<Rightarrow> n
      | Some i \<Rightarrow>
          if \<not> if_ops (nif n i) then n
          else nic_ops_irq i (put_nif i ((nif n i)\<lparr>if_stats := (if_stats (nif n i))\<lparr>irq_count :=
                 irq_count (if_stats (nif n i)) + 1\<rparr>\<rparr>) n))"

definition netif_set_addr :: "nat option \<Rightarrow> u32 \<Rightarrow> u32 \<Rightarrow> u32 \<Rightarrow> 'a net_scheme \<Rightarrow> 'a net_scheme" where
  "netif_set_addr p ip msk gw n =
     (case p of
        None \<Rightarrow> n
      | Some i \<Rightarrow>
          put_nif i ((nif n i)\<lparr>if_ip := (if ip \<noteq> 0 then ip else if_ip (nif n i)), if_mask := (if msk \<noteq> 0 then msk else if_mask (nif n i)),
            if_gw := (if gw \<noteq> 0 then gw else if_gw (nif n i))\<rparr>) n)"

definition netif_get_mac :: "nat \<Rightarrow> 'a net_scheme \<Rightarrow> u8 list" where
  "netif_get_mac i n = if_mac (nif n i)"

text \<open>nic_attach_netif: the interface of the device.\<close>

definition nic_attach_netif :: "string \<Rightarrow> 'a net_scheme \<Rightarrow> bool \<times> 'a net_scheme" where
  "nic_attach_netif name n =
     (case netif_alloc (Some name) n of
        (None, n) \<Rightarrow> (False, n\<lparr>nic_netif := None\<rparr>)
      | (Some i, n) \<Rightarrow>
          (let n = put_nif i ((nif n i)\<lparr>if_mac := nic_mac n, if_irq := nic_irq n,
                     if_hw := (if nic_hw n = NETIF_HW_VIRTIO then NETIF_HW_VIRTIO else if nic_hw n = NETIF_HW_PCNET then NETIF_HW_PCNET
                       else NETIF_HW_RTL8139), if_ops := True\<rparr>) (n\<lparr>nic_netif := Some i\<rparr>)
           in (True, netif_set_default (Some i) (snd (netif_register (Some i) n)))))"

abbreviation (input) ETH_MAX_PACKET_SIZE :: nat where "ETH_MAX_PACKET_SIZE \<equiv> 1514"

definition nic_send_packet :: "u8 list \<Rightarrow> 'a net_scheme \<Rightarrow> bool \<times> 'a net_scheme" where
  "nic_send_packet data n =
     (if \<not> nic_on n then (False, n)
      else if length data > ETH_MAX_PACKET_SIZE then (False, n)
      else case nic_netif n of Some i \<Rightarrow> netif_send (Some i) data n | None \<Rightarrow> nic_ops_send data n)"

definition nic_get_mac :: "'a net_scheme \<Rightarrow> u8 list" where
  "nic_get_mac n = (case nic_netif n of Some i \<Rightarrow> netif_get_mac i n | None \<Rightarrow> nic_mac n)"

text \<open>A device that works: sending a frame puts it on the wire.\<close>

definition netif_ready :: "nat \<Rightarrow> 'a net_scheme \<Rightarrow> bool" where
  "netif_ready i n \<longleftrightarrow> nic_on n \<and> (\<forall>k. hw_rc n k) \<and> i < length (netifs n) \<and> if_up (nif n i) \<and> if_ops (nif n i)"

definition nic_ready :: "'a net_scheme \<Rightarrow> bool" where
  "nic_ready n \<longleftrightarrow> (case nic_netif n of None \<Rightarrow> False | Some i \<Rightarrow> netif_ready i n)"

definition count_sent :: "nat \<Rightarrow> netif \<Rightarrow> netif" where
  "count_sent len x = x\<lparr>if_stats := (if_stats x)\<lparr>tx_packets := tx_packets (if_stats x) + 1, tx_bytes := tx_bytes (if_stats x) + of_nat len\<rparr>\<rparr>"

definition if_sent :: "nat \<Rightarrow> u8 list \<Rightarrow> 'a net_scheme \<Rightarrow> 'a net_scheme" where
  "if_sent i f n = n\<lparr>wire := wire n @ [f], netifs := (netifs n)[i := count_sent (length f) (nif n i)]\<rparr>"

abbreviation sent :: "u8 list \<Rightarrow> 'a net_scheme \<Rightarrow> 'a net_scheme" where
  "sent f n \<equiv> if_sent (the (nic_netif n)) f n"

lemma netif_send_ready: "netif_ready i n \<Longrightarrow> f \<noteq> [] \<Longrightarrow> netif_send (Some i) f n = (True, if_sent i f n)"
  by (simp add: netif_ready_def netif_send_def nic_ops_send_def put_nif_def if_sent_def count_sent_def Let_def)

lemma nic_send_ready: "nic_ready n \<Longrightarrow> f \<noteq> [] \<Longrightarrow> length f \<le> ETH_MAX_PACKET_SIZE \<Longrightarrow> nic_send_packet f n = (True, sent f n)"
  by (auto simp: nic_ready_def nic_send_packet_def netif_send_ready split: option.splits) (simp add: netif_ready_def)

lemma if_sent_ready [simp]: "netif_ready j (if_sent i f n) = netif_ready j n" "nic_ready (if_sent i f n) = nic_ready n"
proof -
  show r: "netif_ready j (if_sent i f n) = netif_ready j n" for j
    by (cases "i = j"; cases "i < length (netifs n)") (auto simp: netif_ready_def if_sent_def count_sent_def list_update_beyond)
  show "nic_ready (if_sent i f n) = nic_ready n" using r by (simp add: nic_ready_def if_sent_def split: option.splits)
qed

lemma if_sent_simps [simp]: "wire (if_sent i f n) = wire n @ [f]" "nic_netif (if_sent i f n) = nic_netif n"
  "default_netif (if_sent i f n) = default_netif n" "hw_rx (if_sent i f n) = hw_rx n" "length (netifs (if_sent i f n)) = length (netifs n)"
  "skb_pool (if_sent i f n) = skb_pool n"
  by (simp_all add: if_sent_def)

lemma if_sent_nif: "nif (if_sent i f n) j = nif n j \<or> nif (if_sent i f n) j = count_sent (length f) (nif n j)"
  by (cases "i = j"; cases "i < length (netifs n)") (simp_all add: if_sent_def list_update_beyond)

lemma if_sent_fields [simp]: "if_mac (nif (if_sent i f n) j) = if_mac (nif n j)" "if_mtu (nif (if_sent i f n) j) = if_mtu (nif n j)"
  "if_gw (nif (if_sent i f n) j) = if_gw (nif n j)" "if_ip (nif (if_sent i f n) j) = if_ip (nif n j)"
  using if_sent_nif [of i f n j] by (auto simp: count_sent_def)

section \<open>Buffers and queues\<close>

text \<open>The buffers in use are exactly those in the queues of the interfaces, each in one place.\<close>

definition queued :: "'a net_scheme \<Rightarrow> nat list" where
  "queued n = concat (map (\<lambda>x. q_contents (if_queue x)) (netifs n))"

definition net_inv :: "'a net_scheme \<Rightarrow> bool" where
  "net_inv n \<longleftrightarrow> (\<forall>x \<in> set (netifs n). q_inv (if_queue x)) \<and> distinct (queued n) \<and>
     (\<forall>k. k \<in> set (queued n) \<longleftrightarrow> k < length (skb_pool n) \<and> s_used (skb_pool n ! k))"

text \<open>The frames that wait in the queue of an interface.\<close>

definition frames :: "nat \<Rightarrow> 'a net_scheme \<Rightarrow> u8 list list" where
  "frames i n = map (\<lambda>k. take (s_len (skb_pool n ! k)) (s_data (skb_pool n ! k))) (q_contents (if_queue (nif n i)))"

text \<open>What the invariant and the frames depend on.\<close>

definition queues :: "'a net_scheme \<Rightarrow> (bool \<times> nat list) list" where
  "queues n = map (\<lambda>x. (q_inv (if_queue x), q_contents (if_queue x))) (netifs n)"

lemma queued_queues: "queued n = concat (map snd (queues n))"
  by (simp add: queued_def queues_def comp_def)

lemma net_inv_queues: "net_inv n \<longleftrightarrow> (\<forall>b \<in> set (map fst (queues n)). b) \<and> distinct (concat (map snd (queues n))) \<and>
     (\<forall>k. k \<in> set (concat (map snd (queues n))) \<longleftrightarrow> k < length (skb_pool n) \<and> s_used (skb_pool n ! k))"
  by (simp add: net_inv_def queued_queues) (auto simp: queues_def)

lemma frames_queues: "j < length (netifs n) \<Longrightarrow> frames j n = map (\<lambda>k. take (s_len (skb_pool n ! k)) (s_data (skb_pool n ! k))) (snd (queues n ! j))"
  by (simp add: frames_def queues_def)

lemma queues_put:
  assumes "q_inv (if_queue x) = q_inv (if_queue (nif n i))" "q_contents (if_queue x) = q_contents (if_queue (nif n i))"
  shows "queues (put_nif i x n) = queues n"
proof (rule nth_equalityI)
  fix j
  assume "j < length (queues (put_nif i x n))"
  then have "j < length (netifs n)" by (simp add: queues_def put_nif_def)
  then show "queues (put_nif i x n) ! j = queues n ! j" using assms by (cases "j = i") (simp_all add: queues_def put_nif_def)
qed (simp add: queues_def put_nif_def)

lemma length_queues [simp]: "length (queues n) = length (netifs n)"
  by (simp add: queues_def)

lemma drops_irrelevant: "q_inv (q\<lparr>q_drops := d\<rparr>) = q_inv q" "q_contents (q\<lparr>q_drops := d\<rparr>) = q_contents q"
  by (simp_all add: q_inv_def q_contents_def q_len_def)

lemma rx_drop_frame:
  "queues (rx_drop i n) = queues n" "skb_pool (rx_drop i n) = skb_pool n" "length (netifs (rx_drop i n)) = length (netifs n)"
  "i < length (netifs n) \<Longrightarrow> rx_dropped (if_stats (nif (rx_drop i n) i)) = rx_dropped (if_stats (nif n i)) + 1"
  by (simp_all add: rx_drop_def queues_put) (simp_all add: put_nif_def)

text \<open>A state that differs in one buffer that is free before and after.\<close>

lemma same_frames:
  assumes "net_inv n" and "queues n' = queues n" and "skb_pool n' = (skb_pool n)[k := s]" and "\<not> s_used (skb_pool n ! k)" "\<not> s_used s"
    and "length (netifs n') = length (netifs n)" "k < length (skb_pool n)"
  shows "net_inv n'" "j < length (netifs n) \<Longrightarrow> frames j n' = frames j n"
proof -
  have u: "s_used ((skb_pool n)[k := s] ! m) = s_used (skb_pool n ! m)" for m using assms(4,5,7) by (cases "m = k") simp_all
  show "net_inv n'" using assms(1) unfolding net_inv_queues assms(2,3) by (simp add: u)
  assume j: "j < length (netifs n)"
  have "k \<notin> set (snd (queues n ! j))"
  proof
    assume "k \<in> set (snd (queues n ! j))"
    then have "k \<in> set (concat (map snd (queues n)))" using j nth_mem [of j "queues n"] by auto
    then show False using assms(1,4) unfolding net_inv_queues by blast
  qed
  then show "frames j n' = frames j n"
    using j assms(6) by (simp add: frames_queues assms(2,3)) (metis nth_list_update_neq)
qed

lemma rx_enqueue_refused:
  fixes f k n
  defines "pool \<equiv> (skb_pool n)[k := (skb_clear (skb_pool n ! k))\<lparr>s_used := True\<rparr>]"
  assumes "net_inv n" and "i < length (netifs n)" and "k < length (skb_pool n)" "\<not> s_used (skb_pool n ! k)" and "q_inv (if_queue (nif n i))"
    and "f \<noteq> []" and "\<not> (length f \<le> SKB_DATA_SIZE \<and> q_len (if_queue (nif n i)) < 31)" and "skb_alloc (skb_pool n) = (Some k, pool)"
    and "net_rx_enqueue i f n = (ok, n')"
  shows "\<not> ok" "net_inv n'" "j < length (netifs n) \<Longrightarrow> frames j n' = frames j n"
    "rx_dropped (if_stats (nif n' i)) = rx_dropped (if_stats (nif n i)) + 1"
proof -
  obtain m s where m: "n' = rx_drop i m" "\<not> ok" "queues m = queues n" "skb_pool m = (skb_pool n)[k := s]" "\<not> s_used s"
      "length (netifs m) = length (netifs n)" "if_stats (nif m i) = if_stats (nif n i)"
  proof (cases "length f \<le> SKB_DATA_SIZE")
    case True
    then have full: "\<not> q_len (if_queue (nif n i)) < 31" using assms(8) by simp
    note p = q_push_full [OF assms(6) full]
    let ?x = "(nif n i)\<lparr>if_queue := (if_queue (nif n i))\<lparr>q_drops := q_drops (if_queue (nif n i)) + 1\<rparr>\<rparr>"
    obtain s where "n' = rx_drop i (put_nif i ?x (n\<lparr>skb_pool := (skb_pool n)[k := s]\<rparr>))" "\<not> ok" "\<not> s_used s"
      using assms(4,7,9,10) True p by (auto simp: net_rx_enqueue_def skb_copy_from_def Let_def pool_def skb_free_def)
    moreover have "queues (put_nif i ?x (n\<lparr>skb_pool := (skb_pool n)[k := s]\<rparr>)) = queues n" for s
      using queues_put [of ?x "n\<lparr>skb_pool := (skb_pool n)[k := s]\<rparr>" i] drops_irrelevant by (simp add: queues_def)
    ultimately show thesis
      by (intro that [of "put_nif i ?x (n\<lparr>skb_pool := (skb_pool n)[k := s]\<rparr>)" s]) (use assms(3) in \<open>simp_all add: put_nif_def\<close>)
  next
    case False
    then obtain s where "n' = rx_drop i (n\<lparr>skb_pool := (skb_pool n)[k := s]\<rparr>)" "\<not> ok" "\<not> s_used s"
      using assms(4,7,9,10) by (auto simp: net_rx_enqueue_def skb_copy_from_def pool_def skb_free_def)
    then show thesis by (intro that [of "n\<lparr>skb_pool := (skb_pool n)[k := s]\<rparr>" s]) (simp_all add: queues_def)
  qed
  note d = rx_drop_frame [of i m]
  show "\<not> ok" by (rule m(2))
  note sf = same_frames [OF assms(2), of n' k s] 
  show "net_inv n'" "j < length (netifs n) \<Longrightarrow> frames j n' = frames j n"
    using sf d assms(4,5) m by simp_all
  show "rx_dropped (if_stats (nif n' i)) = rx_dropped (if_stats (nif n i)) + 1" using d(4) m assms(3) by simp
qed

lemma rx_enqueue_queued:
  fixes f k n
  defines "pool \<equiv> (skb_pool n)[k := (skb_clear (skb_pool n ! k))\<lparr>s_used := True\<rparr>]"
  assumes "net_inv n" and "i < length (netifs n)" and "k < length (skb_pool n)" "\<not> s_used (skb_pool n ! k)"
    and "f \<noteq> []" and "length f \<le> SKB_DATA_SIZE" "q_len (if_queue (nif n i)) < 31" and "skb_alloc (skb_pool n) = (Some k, pool)"
    and "net_rx_enqueue i f n = (ok, n')"
  shows "ok" "net_inv n'" "frames i n' = frames i n @ [f]" "j < length (netifs n) \<Longrightarrow> j \<noteq> i \<Longrightarrow> frames j n' = frames j n"
proof -
  let ?q = "if_queue (nif n i)"
  have qi: "q_inv ?q" using assms(2,3) by (simp add: net_inv_def)
  note p = q_push_ok [OF qi assms(8), of k]
  obtain s st where n': "n' = put_nif i ((nif n i)\<lparr>if_queue := q_push k ?q, if_stats := st\<rparr>) (n\<lparr>skb_pool := (skb_pool n)[k := s]\<rparr>)" "ok"
      "s_used s" "take (s_len s) (s_data s) = f"
    using assms(4,6,7,9,10) p(1) by (auto simp: net_rx_enqueue_def skb_copy_from_def Let_def pool_def)
  show ok by (rule n'(2))
  have qs: "queues n' = (queues n)[i := (True, q_contents ?q @ [k])]" using p(2,3) by (simp add: n'(1) queues_def put_nif_def map_update)
  have pool': "skb_pool n' = (skb_pool n)[k := s]" "length (netifs n') = length (netifs n)" by (simp_all add: n'(1) put_nif_def)
  have old: "queues n ! i = (True, q_contents ?q)" using qi assms(3) by (simp add: queues_def)
  have k: "k \<notin> set (queued n)" using assms(2,5) by (auto simp: net_inv_def)
  define a where "a = concat (map snd (take i (queues n)))"
  define z where "z = concat (map snd (drop (Suc i) (queues n)))"
  have qn: "queued n = a @ q_contents ?q @ z"
    unfolding queued_queues a_def z_def by (subst id_take_nth_drop [of i "queues n"]) (use assms(3) old in simp_all)
  have qn': "queued n' = a @ q_contents ?q @ k # z"
    unfolding queued_queues qs a_def z_def using assms(3) by (simp add: upd_conv_take_nth_drop)
  have "x \<in> set (queued n') \<longleftrightarrow> x < length (skb_pool n') \<and> s_used (skb_pool n' ! x)" for x
    using assms(2,4) n'(3) qn qn' pool'(1) by (cases "x = k") (auto simp: net_inv_def)
  moreover have "\<forall>x \<in> set (netifs n'). q_inv (if_queue x)"
    using assms(2) p(2) by (auto simp: n'(1) put_nif_def net_inv_def dest!: set_update_subset_insert [THEN subsetD])
  moreover have "distinct (queued n')" using assms(2) k qn qn' by (auto simp: net_inv_def)
  ultimately show "net_inv n'" by (simp add: net_inv_def)
  have fr: "map (\<lambda>x. take (s_len (skb_pool n' ! x)) (s_data (skb_pool n' ! x))) (snd (queues n ! j)) =
      map (\<lambda>x. take (s_len (skb_pool n ! x)) (s_data (skb_pool n ! x))) (snd (queues n ! j))" if "j < length (netifs n)" for j
  proof (rule map_cong [OF refl])
    fix x
    assume "x \<in> set (snd (queues n ! j))"
    then have "x \<in> set (queued n)" using that nth_mem [of j "queues n"] by (auto simp: queued_queues)
    then have "x \<noteq> k" using k by auto
    then show "take (s_len (skb_pool n' ! x)) (s_data (skb_pool n' ! x)) = take (s_len (skb_pool n ! x)) (s_data (skb_pool n ! x))"
      by (simp add: pool')
  qed
  show "frames i n' = frames i n @ [f]"
    using fr [OF assms(3)] assms(3,4) n'(4) old by (simp add: frames_queues pool' qs)
  show "frames j n' = frames j n" if "j < length (netifs n)" "j \<noteq> i"
    using fr [OF that(1)] that by (simp add: frames_queues pool'(2) qs)
qed

lemma rx_enqueue_cases:
  assumes "net_inv n" and "i < length (netifs n)" and "f \<noteq> []" and "net_rx_enqueue i f n = (ok, n')"
  shows "net_inv n' \<and> (ok \<longleftrightarrow> length f \<le> SKB_DATA_SIZE \<and> (\<exists>s \<in> set (skb_pool n). \<not> s_used s) \<and> length (frames i n) < 31) \<and>
    frames i n' = (if ok then frames i n @ [f] else frames i n) \<and> (\<forall>j < length (netifs n). j \<noteq> i \<longrightarrow> frames j n' = frames j n) \<and>
    (\<not> ok \<longrightarrow> rx_dropped (if_stats (nif n' i)) = rx_dropped (if_stats (nif n i)) + 1)"
proof (cases "skb_alloc (skb_pool n)")
  case (Pair p pool)
  let ?q = "if_queue (nif n i)"
  have qi: "q_inv ?q" using assms(1,2) by (simp add: net_inv_def)
  have fl: "length (frames i n) = q_len ?q" by (simp add: frames_def q_contents_def)
  show ?thesis
  proof (cases p)
    case None
    then have "\<forall>s \<in> set (skb_pool n). s_used s" "pool = skb_pool n"
      using Pair by (auto simp: skb_alloc_def find_slot_None split: option.splits)
    then show ?thesis
      using assms None Pair rx_drop_frame [of i n] by (auto simp: net_rx_enqueue_def net_inv_queues frames_queues)
  next
    case (Some k)
    obtain k: "k < length (skb_pool n)" "\<not> s_used (skb_pool n ! k)" "pool = (skb_pool n)[k := (skb_clear (skb_pool n ! k))\<lparr>s_used := True\<rparr>]"
      using Some Pair by (auto simp: skb_alloc_def find_slot_Some split: option.splits)
    then have free: "\<exists>s \<in> set (skb_pool n). \<not> s_used s" by force
    show ?thesis
    proof (cases "length f \<le> SKB_DATA_SIZE \<and> q_len ?q < 31")
      case True
      then show ?thesis using rx_enqueue_queued [OF assms(1,2) k(1,2)] assms(3,4) Pair Some k(3) free fl by auto
    next
      case False
      note r = rx_enqueue_refused [OF assms(1,2) k(1,2) qi assms(3) False Pair [unfolded Some k(3)] assms(4)]
      show ?thesis using r(1,2,4) r(3) [OF assms(2)] r(3) False free fl by auto
    qed
  qed
qed

text \<open>
  Fact: receiving a frame. On buffers and queues in order, a frame of at most 2048 bytes is queued
  behind the frames that wait on its interface, with its content, as long as a buffer is free and
  the queue is not full; the frames of the other interfaces stay. Otherwise the frame is counted
  as dropped, no frame is lost and no buffer stays taken. Buffers and queues stay in order.
\<close>

theorem net_rx_enqueue_correct:
  assumes "net_inv n" and "i < length (netifs n)" and "f \<noteq> []" and "net_rx_enqueue i f n = (ok, n')"
  shows "net_inv n' \<and> (ok \<longleftrightarrow> length f \<le> SKB_DATA_SIZE \<and> (\<exists>s \<in> set (skb_pool n). \<not> s_used s) \<and> length (frames i n) < 31) \<and>
    frames i n' = (if ok then frames i n @ [f] else frames i n) \<and> (\<forall>j < length (netifs n). j \<noteq> i \<longrightarrow> frames j n' = frames j n) \<and>
    (\<not> ok \<longrightarrow> rx_dropped (if_stats (nif n' i)) = rx_dropped (if_stats (nif n i)) + 1)"
  by (rule rx_enqueue_cases [OF assms])

text \<open>The interfaces as they are after the initialisation.\<close>

definition empty_skb :: skb where
  "empty_skb = \<lparr>s_data = replicate SKB_DATA_SIZE 0, s_len = 0, s_netif = None, s_protocol = 0, s_used = False\<rparr>"

definition net0 :: net where
  "net0 = netif_init_subsystem \<lparr>netifs = replicate NETIF_MAX no_netif, netif_used = 0, default_netif = None,
     skb_pool = replicate SKB_POOL_SIZE empty_skb, nic_on = True, nic_mac = [0x52, 0x54, 0, 0x12, 0x34, 0x56], nic_irq = 11, nic_hw = NETIF_HW_RTL8139,
     nic_netif = None, hw_rx = [], hw_rc = (\<lambda>_. True), wire = []\<rparr>"

lemma empty_queue: "q_inv net_queue_init" "q_contents net_queue_init = []"
  by (simp_all add: net_queue_init_def q_inv_def q_contents_def q_len_def)

lemma net_inv_init: "net_inv (netif_init_subsystem n)"
  by (simp add: net_inv_def queued_def netif_init_subsystem_def no_netif_def empty_queue skb_pool_init_def)

theorem net_rx_enqueue_correct_witness:
  "\<exists>ok n'. net_rx_enqueue 0 [0x45, 0] net0 = (ok, n') \<and> ok \<and> frames 0 n' = [[0x45, 0]]"
proof -
  obtain ok n' where r: "net_rx_enqueue 0 [0x45, 0] net0 = (ok, n')" by (cases "net_rx_enqueue 0 [0x45, 0] net0")
  have l: "length (netifs net0) = 4" "frames 0 net0 = []" "\<exists>s \<in> set (skb_pool net0). \<not> s_used s"
    by (simp_all add: net0_def netif_init_subsystem_def frames_def no_netif_def empty_queue skb_pool_init_def)
  have "net_inv net0" by (simp add: net0_def net_inv_init)
  from net_rx_enqueue_correct [OF this _ _ r] l have "ok" "frames 0 n' = [[0x45, 0]]" by simp_all
  then show ?thesis using r by blast
qed

end
