(* ===== verification/KRoute.thy ===== *)
theory KRoute
  imports KNetif
begin

text \<open>
  The routing table, src/kernel/drivers/network/protocols/route.cpp, as an extension of the state
  of the interfaces. A null interface of an entry is None.
\<close>

record route_entry =
  r_dest :: u32
  r_mask :: u32
  r_gateway :: u32
  r_nif :: "nat option"
  r_valid :: bool

record rnet = net +
  routes :: "route_entry list"

abbreviation (input) ROUTE_MAX :: nat where "ROUTE_MAX \<equiv> 16"

definition route_init :: "'a rnet_scheme \<Rightarrow> 'a rnet_scheme" where
  "route_init n = n\<lparr>routes := replicate ROUTE_MAX \<lparr>r_dest = 0, r_mask = 0, r_gateway = 0, r_nif = None, r_valid = False\<rparr>\<rparr>"

definition same_route :: "u32 \<Rightarrow> u32 \<Rightarrow> route_entry \<Rightarrow> bool" where
  "same_route dest msk r \<longleftrightarrow> r_valid r \<and> r_dest r = dest \<and> r_mask r = msk"

definition route_add :: "u32 \<Rightarrow> u32 \<Rightarrow> u32 \<Rightarrow> nat option \<Rightarrow> 'a rnet_scheme \<Rightarrow> bool \<times> 'a rnet_scheme" where
  "route_add dest msk gateway ifp n =
     (case find_slot (same_route dest msk) (routes n) of
        Some i \<Rightarrow> (True, n\<lparr>routes := (routes n)[i := (routes n ! i)\<lparr>r_gateway := gateway, r_nif := ifp\<rparr>]\<rparr>)
      | None \<Rightarrow>
          (case find_slot (\<lambda>r. \<not> r_valid r) (routes n) of
             None \<Rightarrow> (False, n)
           | Some i \<Rightarrow>
               (True, n\<lparr>routes := (routes n)[i := \<lparr>r_dest = dest, r_mask = msk, r_gateway = gateway, r_nif = ifp, r_valid = True\<rparr>]\<rparr>)))"

definition route_del :: "u32 \<Rightarrow> u32 \<Rightarrow> 'a rnet_scheme \<Rightarrow> bool \<times> 'a rnet_scheme" where
  "route_del dest msk n =
     (case find_slot (same_route dest msk) (routes n) of
        None \<Rightarrow> (False, n)
      | Some i \<Rightarrow> (True, n\<lparr>routes := (routes n)[i := (routes n ! i)\<lparr>r_valid := False\<rparr>]\<rparr>))"

definition route_set_default :: "u32 \<Rightarrow> nat option \<Rightarrow> 'a rnet_scheme \<Rightarrow> 'a rnet_scheme" where
  "route_set_default gateway ifp n = snd (route_add 0 0 gateway ifp n)"

definition route_update_connected :: "nat option \<Rightarrow> 'a rnet_scheme \<Rightarrow> 'a rnet_scheme" where
  "route_update_connected p n =
     (case p of
        None \<Rightarrow> n
      | Some i \<Rightarrow>
          if if_ip (nif n i) = 0 then n
          else let n = snd (route_add (if_ip (nif n i) AND if_mask (nif n i)) (if_mask (nif n i)) 0 (Some i) n)
            in if if_gw (nif n i) \<noteq> 0 then route_set_default (if_gw (nif n i)) (Some i) n else n)"

definition route_matches :: "u32 \<Rightarrow> route_entry \<Rightarrow> bool" where
  "route_matches ip r \<longleftrightarrow> r_valid r \<and> ip AND r_mask r = r_dest r AND r_mask r"

definition better_route :: "u32 \<Rightarrow> route_entry \<Rightarrow> route_entry option \<Rightarrow> route_entry option" where
  "better_route ip r best =
     (if route_matches ip r \<and> (case best of None \<Rightarrow> True | Some b \<Rightarrow> r_mask b \<le> r_mask r) then Some r else best)"

text \<open>The result is the next hop and the interface; the value of next_hop of a failing call is
  not used by any caller.\<close>

definition route_lookup :: "u32 \<Rightarrow> 'a rnet_scheme \<Rightarrow> (u32 \<times> nat option) option" where
  "route_lookup dest_ip n =
     (if dest_ip = 0xFFFFFFFF then (if default_netif n = None then None else Some (dest_ip, default_netif n))
      else case fold (better_route dest_ip) (routes n) None of
        None \<Rightarrow>
          (case default_netif n of
             None \<Rightarrow> None
           | Some i \<Rightarrow> Some (if if_gw (nif n i) \<noteq> 0 then if_gw (nif n i) else dest_ip, Some i))
      | Some r \<Rightarrow>
          Some (if r_gateway r \<noteq> 0 then r_gateway r else dest_ip, case r_nif r of None \<Rightarrow> default_netif n | Some i \<Rightarrow> Some i))"

definition route_count :: "'a rnet_scheme \<Rightarrow> nat" where
  "route_count n = length (filter r_valid (routes n))"

definition route_get :: "int \<Rightarrow> 'a rnet_scheme \<Rightarrow> route_entry option" where
  "route_get index n = (let rs = filter r_valid (routes n) in if 0 \<le> index \<and> nat index < length rs then Some (rs ! nat index) else None)"

section \<open>Longest match\<close>

lemma route_add_frame [simp]:
  "default_netif (snd (route_add d m g p n)) = default_netif n" "netifs (snd (route_add d m g p n)) = netifs n"
  by (simp_all add: route_add_def split: option.splits)

lemma route_update_frame [simp]:
  "default_netif (route_update_connected p n) = default_netif n" "netifs (route_update_connected p n) = netifs n"
  by (simp_all add: route_update_connected_def route_set_default_def Let_def split: option.splits)

lemma better_None: "fold (better_route ip) rs (Some b) \<noteq> None"
  by (induction rs arbitrary: b) (auto simp: better_route_def)

lemma better_Some:
  assumes "fold (better_route ip) rs best = Some r"
  shows "(r \<in> set rs \<and> route_matches ip r \<or> best = Some r) \<and> (\<forall>x \<in> set rs. route_matches ip x \<longrightarrow> r_mask x \<le> r_mask r) \<and>
    (\<forall>b. best = Some b \<longrightarrow> r_mask b \<le> r_mask r)"
  using assms
proof (induction rs arbitrary: best)
  case (Cons x rs)
  then have "fold (better_route ip) rs (better_route ip x best) = Some r" by simp
  from Cons.IH [OF this] show ?case by (auto simp: better_route_def split: if_splits option.splits intro: order_trans)
qed simp

lemma better_no_match: "fold (better_route ip) rs None = None \<longleftrightarrow> (\<forall>x \<in> set rs. \<not> route_matches ip x)"
proof (induction rs)
  case (Cons x rs)
  have "better_route ip x None = (if route_matches ip x then Some x else None)" by (simp add: better_route_def)
  then show ?case using Cons better_None [of ip rs x] by (cases "route_matches ip x") simp_all
qed simp

text \<open>The mask of a prefix of k bits; masks compare as the lengths of the prefixes do.\<close>

definition prefix_mask :: "nat \<Rightarrow> u32" where
  "prefix_mask k = of_nat (2 ^ 32 - 2 ^ (32 - k))"

lemma unat_prefix_mask: "k \<le> 32 \<Longrightarrow> unat (prefix_mask k) = 2 ^ 32 - 2 ^ (32 - k)"
proof -
  have "(0::nat) < 2 ^ (32 - k)" by simp
  then have "2 ^ 32 - 2 ^ (32 - k) < (2 ^ 32 :: nat)" by (intro diff_less) simp_all
  then show ?thesis unfolding prefix_mask_def by (rule unat_of_nat32)
qed

lemma prefix_mask_le: "j \<le> 32 \<Longrightarrow> k \<le> 32 \<Longrightarrow> prefix_mask j \<le> prefix_mask k \<longleftrightarrow> j \<le> k"
proof -
  assume a: "j \<le> 32" "k \<le> 32"
  have p: "(2::nat) ^ (32 - j) \<le> 2 ^ 32" "(2::nat) ^ (32 - k) \<le> 2 ^ 32" by (rule power_increasing; simp)+
  have "prefix_mask j \<le> prefix_mask k \<longleftrightarrow> (2::nat) ^ 32 - 2 ^ (32 - j) \<le> 2 ^ 32 - 2 ^ (32 - k)"
    using a by (simp add: word_le_nat_alt unat_prefix_mask)
  also have "\<dots> \<longleftrightarrow> (2::nat) ^ (32 - k) \<le> 2 ^ (32 - j)" using p by linarith
  also have "\<dots> \<longleftrightarrow> j \<le> k" using a by (auto simp: power_increasing_iff)
  finally show ?thesis .
qed

text \<open>
  Fact: routing takes the longest match. With a default interface and masks that are prefixes, every address
  other than the broadcast address has a route; it is that of a matching entry such that no
  matching entry has a longer prefix, or the gateway of the default interface if none matches.
  An entry without a gateway sends to the address itself, one without an interface through the
  default interface.
\<close>

theorem route_lookup_longest:
  assumes "dest \<noteq> 0xFFFFFFFF" and "default_netif n = Some d" and "\<forall>r \<in> set (routes n). r_valid r \<longrightarrow> plen r \<le> 32 \<and> r_mask r = prefix_mask (plen r)"
  shows "\<exists>hop i. route_lookup dest n = Some (hop, Some i) \<and>
    ((\<exists>r \<in> set (routes n). route_matches dest r \<and> (\<forall>x \<in> set (routes n). route_matches dest x \<longrightarrow> plen x \<le> plen r) \<and>
        hop = (if r_gateway r = 0 then dest else r_gateway r) \<and> i = (case r_nif r of None \<Rightarrow> d | Some j \<Rightarrow> j)) \<or>
     (\<forall>r \<in> set (routes n). \<not> route_matches dest r) \<and> hop = (if if_gw (nif n d) = 0 then dest else if_gw (nif n d)) \<and> i = d)"
proof (cases "fold (better_route dest) (routes n) None")
  case None
  then show ?thesis using assms(1,2) better_no_match [of dest "routes n"] by (simp add: route_lookup_def)
next
  case (Some r)
  from better_Some [OF this] have r: "r \<in> set (routes n)" "route_matches dest r"
    "\<forall>x \<in> set (routes n). route_matches dest x \<longrightarrow> r_mask x \<le> r_mask r" by simp_all
  then have "\<forall>x \<in> set (routes n). route_matches dest x \<longrightarrow> plen x \<le> plen r"
    using assms(3) by (metis prefix_mask_le route_matches_def)
  then show ?thesis using assms(1,2) Some r(1,2) by (auto simp: route_lookup_def split: option.splits)
qed

text \<open>A table without duplicates whose networks have no host bits.\<close>

definition routes_ok :: "route_entry list \<Rightarrow> bool" where
  "routes_ok rs \<longleftrightarrow> (\<forall>r \<in> set rs. r_valid r \<longrightarrow> r_dest r AND r_mask r = r_dest r) \<and> uniq_on r_valid (\<lambda>r. (r_dest r, r_mask r)) rs"

lemma routes_ok_put:
  assumes "routes_ok rs" and "\<And>j. j < length rs \<Longrightarrow> j \<noteq> i \<Longrightarrow> \<not> same_route (r_dest r) (r_mask r) (rs ! j)" and "r_dest r AND r_mask r = r_dest r"
  shows "routes_ok (rs[i := r])"
proof -
  have "uniq_on r_valid (\<lambda>r. (r_dest r, r_mask r)) (rs[i := r])"
    using assms(1,2) by (intro uniq_on_put) (auto simp: routes_ok_def same_route_def)
  then show ?thesis using assms(1,3) by (auto simp: routes_ok_def dest!: set_update_subset_insert [THEN subsetD])
qed

lemma route_add_entry:
  assumes "routes_ok (routes n)" and "dest AND msk = dest" and "route_add dest msk gw p n = (True, n')"
  obtains i where "i < length (routes n)" "n' = n\<lparr>routes := (routes n)[i := \<lparr>r_dest = dest, r_mask = msk, r_gateway = gw, r_nif = p, r_valid = True\<rparr>]\<rparr>"
    "routes_ok (routes n')"
proof (cases "find_slot (same_route dest msk) (routes n)")
  case None
  then obtain i where i: "find_slot (\<lambda>r. \<not> r_valid r) (routes n) = Some i" "i < length (routes n)"
    "n' = n\<lparr>routes := (routes n)[i := \<lparr>r_dest = dest, r_mask = msk, r_gateway = gw, r_nif = p, r_valid = True\<rparr>]\<rparr>"
    using assms(3) by (auto simp: route_add_def find_slot_Some split: option.splits)
  have "routes_ok (routes n')"
    unfolding i(3) using assms(1,2) None by (auto intro!: routes_ok_put simp: find_slot_None)
  then show thesis using that [OF i(2,3)] by blast
next
  case (Some i)
  let ?e = "\<lparr>r_dest = dest, r_mask = msk, r_gateway = gw, r_nif = p, r_valid = True\<rparr>"
  have i: "i < length (routes n)" "same_route dest msk (routes n ! i)" using Some by (auto simp: find_slot_Some)
  then have "(routes n ! i)\<lparr>r_gateway := gw, r_nif := p\<rparr> = ?e" by (auto simp: same_route_def)
  then have n': "n' = n\<lparr>routes := (routes n)[i := ?e]\<rparr>" using assms(3) Some by (auto simp: route_add_def)
  have "j = i" if "j < length (routes n)" "same_route dest msk (routes n ! j)" for j
    using uniq_on_nth [OF _ that(1) i(1), of r_valid "\<lambda>r. (r_dest r, r_mask r)"] assms(1) that(2) i(2) by (auto simp: routes_ok_def same_route_def)
  then have "routes_ok (routes n')" unfolding n' using assms(1,2) by (auto intro!: routes_ok_put)
  then show thesis using that [OF i(1) n'] by blast
qed

text \<open>
  Fact: a route that has been added is used. On a table without duplicates whose networks have no
  host bits, adding a route keeps the table so, and an address of its network then goes to the
  gateway and the interface of the route, unless a matching entry has a larger mask.
\<close>

theorem route_add_lookup:
  assumes "routes_ok (routes n)" and "dest AND msk = dest" and "route_add dest msk gw (Some i) n = (True, n')" and "gw \<noteq> 0"
    and "ip \<noteq> 0xFFFFFFFF" and "ip AND msk = dest" and "\<forall>r \<in> set (routes n). route_matches ip r \<longrightarrow> r_mask r \<le> msk"
  shows "routes_ok (routes n') \<and> route_lookup ip n' = Some (gw, Some i)"
proof -
  let ?e = "\<lparr>r_dest = dest, r_mask = msk, r_gateway = gw, r_nif = Some i, r_valid = True\<rparr>"
  obtain k where k: "k < length (routes n)" "n' = n\<lparr>routes := (routes n)[k := ?e]\<rparr>" "routes_ok (routes n')"
    using route_add_entry [OF assms(1-3)] .
  have e: "?e \<in> set (routes n')" "route_matches ip ?e" using k(1,2) assms(2,6) by (auto simp: set_update_memI route_matches_def)
  then obtain r where r: "fold (better_route ip) (routes n') None = Some r" using better_no_match [of ip "routes n'"] by blast
  note b = better_Some [OF r]
  have "r_mask r \<le> msk" using b assms(7) k(2) by (auto dest!: set_update_subset_insert [THEN subsetD])
  then have "r_mask r = msk" using b e by (fastforce intro: order_antisym)
  then have "r = ?e"
    using b e k(3) assms(6) unfolding routes_ok_def
    by (intro uniq_on_eq [of r_valid "\<lambda>r. (r_dest r, r_mask r)" "routes n'" r ?e]) (auto simp: route_matches_def)
  then show ?thesis using r k(3) assms(4,5) by (simp add: route_lookup_def)
qed

text \<open>One interface with address 10.0.2.15/24 and the gateway 10.0.2.2.\<close>

definition eth0 :: netif where
  "eth0 = no_netif\<lparr>if_name := ''eth0'', if_ip := 0x0A00020F, if_gw := 0x0A000202, if_up := True, if_init := True, if_ops := True\<rparr>"

definition one_if :: rnet where
  "one_if = route_init \<lparr>netifs = [eth0], netif_used = 1, default_netif = Some 0, skb_pool = [], nic_on = True, nic_mac = [0x52, 0x54, 0, 0x12, 0x34, 0x56], nic_irq = 11, nic_hw = NETIF_HW_RTL8139,
     nic_netif = Some 0, hw_rx = [], hw_rc = \<lambda>_. True, wire = [], routes = []\<rparr>"

lemma prefix_masks: "prefix_mask 0 = 0" "prefix_mask 24 = 0xFFFFFF00"
  by (simp_all add: prefix_mask_def)

lemma one_if_connected:
  "routes (route_update_connected (Some 0) one_if) =
     \<lparr>r_dest = 0x0A000200, r_mask = 0xFFFFFF00, r_gateway = 0, r_nif = Some 0, r_valid = True\<rparr> #
     \<lparr>r_dest = 0, r_mask = 0, r_gateway = 0x0A000202, r_nif = Some 0, r_valid = True\<rparr> #
     replicate 14 \<lparr>r_dest = 0, r_mask = 0, r_gateway = 0, r_nif = None, r_valid = False\<rparr>"
proof -
  have r: "replicate 16 x = x # x # replicate 14 x" for x :: route_entry by (simp add: numeral_eq_Suc)
  show ?thesis
    by (simp add: route_update_connected_def one_if_def route_init_def eth0_def no_netif_def route_add_def route_set_default_def same_route_def
        Let_def r)
qed

theorem route_lookup_longest_witness:
  "\<exists>i. route_lookup 0x0A000210 (route_update_connected (Some 0) one_if) = Some (0x0A000210, Some i)"
proof -
  let ?n = "route_update_connected (Some 0) one_if" and ?len = "\<lambda>r. if r_mask r = 0 then 0 else 24"
  have "default_netif ?n = Some 0" by (simp add: one_if_def route_init_def)
  from route_lookup_longest [where dest = "0x0A000210" and n = ?n and d = 0 and plen = ?len, OF _ this] show ?thesis
    by (auto simp: one_if_connected prefix_masks route_matches_def)
qed

theorem route_add_lookup_witness:
  "\<exists>n'. route_add 0 0 0x0A000203 (Some 0) one_if = (True, n') \<and> route_lookup 0x08080808 n' = Some (0x0A000203, Some 0)"
proof -
  have o: "routes_ok (routes one_if)" by (simp add: one_if_def route_init_def routes_ok_def uniq_on_def)
  obtain n' where n': "route_add 0 0 0x0A000203 (Some 0) one_if = (True, n')"
    by (simp add: route_add_def one_if_def route_init_def same_route_def)
  have "\<forall>r \<in> set (routes one_if). route_matches 0x08080808 r \<longrightarrow> r_mask r \<le> 0" by (simp add: one_if_def route_init_def)
  from route_add_lookup [OF o _ n' _ _ _ this] n' show ?thesis by simp
qed

end
