(* ===== verification/KEth.thy ===== *)
theory KEth
  imports KBytes
begin

text \<open>
  Byte order and Ethernet frames: the htons, ntohs, htonl and ntohl of the protocol files and
  src/kernel/drivers/network/protocols/ethernet.cpp. The machine is little-endian, so a field set
  to htons v has the bytes le16 (htons v), which are the big-endian bytes of v.
\<close>

section \<open>Byte order\<close>

definition htons :: "u16 \<Rightarrow> u16" where
  "htons v = push_bit 8 (v AND 0xFF) OR (drop_bit 8 v AND 0xFF)"

definition htonl :: "u32 \<Rightarrow> u32" where
  "htonl v = push_bit 24 (v AND 0xFF) OR push_bit 8 (v AND 0xFF00) OR drop_bit 8 (v AND 0xFF0000) OR drop_bit 24 (v AND 0xFF000000)"

definition be16 :: "u16 \<Rightarrow> u8 list" where
  "be16 v = [ucast (drop_bit 8 v), ucast v]"

definition be32 :: "u32 \<Rightarrow> u8 list" where
  "be32 v = [ucast (drop_bit 24 v), ucast (drop_bit 16 v), ucast (drop_bit 8 v), ucast v]"

text \<open>The constants that select a byte, as shifted masks.\<close>

lemma byte_masks:
  "(0xFF :: u16) = Bit_Operations.mask 8" "(0xFF :: u32) = Bit_Operations.mask 8" "(0xFF00 :: u32) = push_bit 8 (Bit_Operations.mask 8)"
  "(0xFF0000 :: u32) = push_bit 16 (Bit_Operations.mask 8)" "(0xFF000000 :: u32) = push_bit 24 (Bit_Operations.mask 8)"
  by (simp_all add: mask_eq_exp_minus_1 push_bit_eq_mult)

lemma htons_htons [simp]: "htons (htons v) = v"
proof (rule bit_word_eqI)
  fix n :: nat
  assume "n < LENGTH(16)"
  then have "n < 16" by simp
  then have "n < 8 \<or> (n - 8 < 8 \<and> n = n - 8 + 8)" by linarith
  then show "bit (htons (htons v)) n = bit v n" by (auto simp: htons_def byte_masks bit_simps)
qed

lemma htonl_htonl [simp]: "htonl (htonl v) = v"
proof (rule bit_word_eqI)
  fix n :: nat
  assume "n < LENGTH(32)"
  then have "n < 32" by simp
  then show "bit (htonl (htonl v)) n = bit v n" by (cases rule: byte_of_index) (auto simp: htonl_def byte_masks bit_simps add.commute)
qed

lemma le16_htons: "le16 (htons v) = be16 v"
  unfolding le16_def be16_def htons_def byte_masks by (auto intro!: bit_word_eqI simp: bit_simps)

lemma le32_htonl: "le32 (htonl v) = be32 v"
  unfolding le32_def be32_def htonl_def byte_masks by (auto intro!: bit_word_eqI simp: bit_simps)

lemma get16_be16: "i = length xs \<Longrightarrow> get16 (xs @ be16 w @ ys) i = htons w"
  by (simp add: get16_le16 flip: le16_htons)

lemma get32_be32: "i = length xs \<Longrightarrow> get32 (xs @ be32 w @ ys) i = htonl w"
  by (simp add: get32_le32 flip: le32_htonl)

lemma length_be [simp]: "length (be16 w) = 2" "length (be32 v) = 4"
  by (simp_all add: be16_def be32_def)

text \<open>The same for a field at a known offset of a concrete prefix.\<close>

lemma get16_drop: "i + 2 \<le> length bs \<Longrightarrow> get16 bs i = get16 (take 2 (drop i bs)) 0"
  by (simp add: get16_def)

lemma get32_drop: "i + 4 \<le> length bs \<Longrightarrow> get32 bs i = get32 (take 4 (drop i bs)) 0"
  by (simp add: get32_def add.assoc)

lemma get16_be16_0 [simp]: "get16 (be16 w) 0 = htons w" "get16 (be16 w @ ys) 0 = htons w"
  using get16_be16 [of 0 "[]" w "[]"] get16_be16 [of 0 "[]" w ys] by simp_all

lemma get32_be32_0 [simp]: "get32 (be32 v) 0 = htonl v" "get32 (be32 v @ ys) 0 = htonl v"
  using get32_be32 [of 0 "[]" v "[]"] get32_be32 [of 0 "[]" v ys] by simp_all

section \<open>Ethernet frames\<close>

record ethernet_header =
  dest_mac :: "u8 list"
  src_mac :: "u8 list"
  eth_type :: u16

abbreviation (input) ETH_HDR :: nat where "ETH_HDR \<equiv> 14"
abbreviation (input) ETH_TYPE_IPV4 :: u16 where "ETH_TYPE_IPV4 \<equiv> 0x0800"
abbreviation (input) ETH_TYPE_ARP :: u16 where "ETH_TYPE_ARP \<equiv> 0x0806"

text \<open>The frame is what the call leaves at the start of the buffer.\<close>

definition ethernet_create_frame :: "nat \<Rightarrow> u8 list option \<Rightarrow> u8 list option \<Rightarrow> u16 \<Rightarrow> u8 list \<Rightarrow> u8 list option" where
  "ethernet_create_frame buffer_size dst src protocol_type payload =
     (if buffer_size < ETH_HDR + length payload then None
      else Some ((case dst of None \<Rightarrow> replicate 6 0xFF | Some a \<Rightarrow> take 6 a) @ (case src of None \<Rightarrow> replicate 6 0 | Some a \<Rightarrow> take 6 a) @
        le16 (htons protocol_type) @ payload))"

definition ethernet_parse_header :: "u8 list \<Rightarrow> (ethernet_header \<times> u8 list) option" where
  "ethernet_parse_header frame =
     (if length frame < ETH_HDR then None
      else Some (\<lparr>dest_mac = take 6 frame, src_mac = take 6 (drop 6 frame), eth_type = get16 frame 12\<rparr>, drop ETH_HDR frame))"

definition ethernet_get_protocol :: "u8 list \<Rightarrow> u16" where
  "ethernet_get_protocol frame = (if length frame < ETH_HDR then 0 else htons (get16 frame 12))"

lemma ethernet_roundtrip:
  assumes "length dst = 6" "length src = 6" and "ETH_HDR + length payload \<le> n"
  obtains frame where "ethernet_create_frame n (Some dst) (Some src) t payload = Some frame" "length frame = ETH_HDR + length payload"
    "ethernet_parse_header frame = Some (\<lparr>dest_mac = dst, src_mac = src, eth_type = htons t\<rparr>, payload)" "ethernet_get_protocol frame = t"
proof -
  have g: "get16 ((dst @ src) @ be16 t @ payload) 12 = htons t" using assms by (intro get16_be16) simp
  show thesis
    by (rule that [of "dst @ src @ be16 t @ payload"])
      (use assms g in \<open>simp_all add: ethernet_create_frame_def ethernet_parse_header_def ethernet_get_protocol_def le16_htons\<close>)
qed

end
