(* ===== verification/KArp.thy ===== *)
theory KArp
  imports KRoute KEth
begin

text \<open>
  Address resolution, src/kernel/drivers/network/protocols/arp.cpp, and the waiting of
  core/net_wait.cpp. The timer is a field of the state that moves while the code waits; the events
  that wake the task during the k-th wait, each with the time since the last one and the frames that
  have arrived, are given by another field, of which nothing is assumed. The work that a waiting loop does on
  the network (net_process) is an argument of the loop: it is net_process when a task waits, and
  nothing when the loop is reached from within net_process, whose busy flag refuses a second entry.
\<close>

record arp_packet =
  a_hw :: u16
  a_proto :: u16
  a_hlen :: u8
  a_plen :: u8
  a_op :: u16
  a_smac :: "u8 list"
  a_sip :: u32
  a_tmac :: "u8 list"
  a_tip :: u32

record arp_entry =
  ae_ip :: u32
  ae_mac :: "u8 list"
  ae_valid :: bool
  ae_seen :: u32

record anet = rnet +
  arp_table :: "arp_entry list"
  our_ip_address :: u32
  our_mac_address :: "u8 list"
  arp_evict_slot :: nat
  ticks :: u32
  waits :: nat
  arrivals :: "nat \<Rightarrow> (u32 \<times> u8 list list) list"

abbreviation (input) ARP_TABLE_SIZE :: nat where "ARP_TABLE_SIZE \<equiv> 16"
abbreviation (input) ARP_ENTRY_TTL_MS :: u32 where "ARP_ENTRY_TTL_MS \<equiv> 300000"
abbreviation (input) ARP_OP_REQUEST :: u16 where "ARP_OP_REQUEST \<equiv> 1"
abbreviation (input) ARP_OP_REPLY :: u16 where "ARP_OP_REPLY \<equiv> 2"
abbreviation (input) ARP_LEN :: nat where "ARP_LEN \<equiv> 28"

text \<open>The packed struct in memory.\<close>

definition enc_arp :: "arp_packet \<Rightarrow> u8 list" where
  "enc_arp a = le16 (a_hw a) @ le16 (a_proto a) @ [a_hlen a, a_plen a] @ le16 (a_op a) @ a_smac a @ le32 (a_sip a) @ a_tmac a @ le32 (a_tip a)"

definition dec_arp :: "u8 list \<Rightarrow> arp_packet" where
  "dec_arp bs = \<lparr>a_hw = get16 bs 0, a_proto = get16 bs 2, a_hlen = bs ! 4, a_plen = bs ! 5, a_op = get16 bs 6,
     a_smac = take 6 (drop 8 bs), a_sip = get32 bs 14, a_tmac = take 6 (drop 18 bs), a_tip = get32 bs 24\<rparr>"

definition arp_init :: "'a anet_scheme \<Rightarrow> 'a anet_scheme" where
  "arp_init n = n\<lparr>arp_table := replicate ARP_TABLE_SIZE \<lparr>ae_ip = 0, ae_mac = replicate 6 0, ae_valid = False, ae_seen = 0\<rparr>,
     our_mac_address := nic_get_mac n\<rparr>"

definition arp_find :: "u32 \<Rightarrow> 'a anet_scheme \<Rightarrow> nat option" where
  "arp_find ip n = find_slot (\<lambda>e. ae_valid e \<and> ae_ip e = ip) (arp_table n)"

definition arp_put :: "nat \<Rightarrow> u32 \<Rightarrow> u8 list \<Rightarrow> 'a anet_scheme \<Rightarrow> 'a anet_scheme" where
  "arp_put i ip mac n = n\<lparr>arp_table := (arp_table n)[i := \<lparr>ae_ip = ip, ae_mac = mac, ae_valid = True, ae_seen = ticks n\<rparr>]\<rparr>"

definition arp_add_entry :: "u32 \<Rightarrow> u8 list \<Rightarrow> 'a anet_scheme \<Rightarrow> 'a anet_scheme" where
  "arp_add_entry ip mac n =
     (case arp_find ip n of
        Some i \<Rightarrow> arp_put i ip mac n
      | None \<Rightarrow>
          (case find_slot (\<lambda>e. \<not> ae_valid e) (arp_table n) of
             Some i \<Rightarrow> arp_put i ip mac n
           | None \<Rightarrow> arp_put (arp_evict_slot n) ip mac (n\<lparr>arp_evict_slot := (arp_evict_slot n + 1) mod ARP_TABLE_SIZE\<rparr>)))"

definition arp_send :: "u8 list \<Rightarrow> arp_packet \<Rightarrow> 'a anet_scheme \<Rightarrow> bool \<times> 'a anet_scheme" where
  "arp_send dst a n =
     (case ethernet_create_frame (ETH_HDR + ARP_LEN) (Some dst) (Some (our_mac_address n)) ETH_TYPE_ARP (enc_arp a) of
        None \<Rightarrow> (False, n)
      | Some f \<Rightarrow> nic_send_packet f n)"

definition arp_handle_packet :: "u8 list \<Rightarrow> 'a anet_scheme \<Rightarrow> 'a anet_scheme" where
  "arp_handle_packet bs n =
     (if length bs < ARP_LEN then n
      else let a = dec_arp bs in
        if htons (a_hw a) \<noteq> 1 \<or> htons (a_proto a) \<noteq> 0x0800 then n
        else if a_hlen a \<noteq> 6 \<or> a_plen a \<noteq> 4 then n
        else let n = arp_add_entry (htonl (a_sip a)) (a_smac a) n in
          if htons (a_op a) = ARP_OP_REQUEST \<and> htonl (a_tip a) = our_ip_address n then
            snd (arp_send (a_smac a) \<lparr>a_hw = htons 1, a_proto = htons 0x0800, a_hlen = 6, a_plen = 4, a_op = htons ARP_OP_REPLY,
              a_smac = our_mac_address n, a_sip = htonl (our_ip_address n), a_tmac = a_smac a, a_tip = a_sip a\<rparr> n)
          else n)"

definition arp_send_request :: "u32 \<Rightarrow> 'a anet_scheme \<Rightarrow> bool \<times> 'a anet_scheme" where
  "arp_send_request target_ip n =
     arp_send (replicate 6 0xFF) \<lparr>a_hw = htons 1, a_proto = htons 0x0800, a_hlen = 6, a_plen = 4, a_op = htons ARP_OP_REQUEST,
       a_smac = our_mac_address n, a_sip = htonl (our_ip_address n), a_tmac = replicate 6 0xFF, a_tip = htonl target_ip\<rparr> n"

definition arp_get_mac :: "u32 \<Rightarrow> 'a anet_scheme \<Rightarrow> u8 list option \<times> 'a anet_scheme" where
  "arp_get_mac ip n =
     (case arp_find ip n of
        None \<Rightarrow> (None, n)
      | Some i \<Rightarrow>
          (let e = arp_table n ! i in
           if ticks n - ae_seen e > ARP_ENTRY_TTL_MS then (None, n\<lparr>arp_table := (arp_table n)[i := e\<lparr>ae_valid := False\<rparr>]\<rparr>)
           else (Some (ae_mac e), n)))"

text \<open>The loop of net_wait_ms: the network is served, then the task blocks until the next event or
  the deadline. The branch for the time before the timer runs is not modelled.\<close>

fun net_wait_loop :: "('a anet_scheme \<Rightarrow> 'a anet_scheme) \<Rightarrow> u32 \<Rightarrow> u32 \<Rightarrow> (u32 \<times> u8 list list) list \<Rightarrow> 'a anet_scheme \<Rightarrow> 'a anet_scheme" where
  "net_wait_loop poll start ms events n =
     (if \<not> ticks n - start < ms then n
      else
        let n = poll n in
        if ticks n - start \<ge> ms then n
        else case events of
          [] \<Rightarrow> n\<lparr>ticks := start + ms\<rparr>
        | (dt, fs) # events \<Rightarrow> net_wait_loop poll start ms events (n\<lparr>ticks := ticks n + dt, hw_rx := hw_rx n @ fs\<rparr>))"

declare net_wait_loop.simps [simp del]

definition net_wait_ms :: "('a anet_scheme \<Rightarrow> 'a anet_scheme) \<Rightarrow> u32 \<Rightarrow> 'a anet_scheme \<Rightarrow> 'a anet_scheme" where
  "net_wait_ms poll ms n =
     net_wait_loop poll (ticks n) ms (arrivals n (waits n)) (n\<lparr>waits := waits n + 1\<rparr>)"

text \<open>The loop of arp_resolve makes at most one round per 10 ms of its timeout, as each round
  waits that long; the bound on the rounds is the last argument but one.\<close>

fun arp_wait :: "('a anet_scheme \<Rightarrow> 'a anet_scheme) \<Rightarrow> u32 \<Rightarrow> u32 \<Rightarrow> u32 \<Rightarrow> nat \<Rightarrow> nat \<Rightarrow> 'a anet_scheme \<Rightarrow>
    u8 list option \<times> 'a anet_scheme" where
  "arp_wait poll ip start timeout retry 0 n = (None, n)"
| "arp_wait poll ip start timeout retry (Suc k) n =
     (if \<not> ticks n - start < timeout then (None, n)
      else case arp_get_mac ip (poll n) of
        (Some mac, n) \<Rightarrow> (Some mac, n)
      | (None, n) \<Rightarrow>
          arp_wait poll ip start timeout (retry + 1) k
            (net_wait_ms poll 10 (if retry mod 10 = 9 then snd (arp_send_request ip n) else n)))"

definition arp_resolve :: "('a anet_scheme \<Rightarrow> 'a anet_scheme) \<Rightarrow> u32 \<Rightarrow> int \<Rightarrow> 'a anet_scheme \<Rightarrow> u8 list option \<times> 'a anet_scheme" where
  "arp_resolve poll ip timeout_ms n =
     (if ip = 0xFFFFFFFF then (Some (replicate 6 0xFF), n)
      else case arp_get_mac ip n of
        (Some mac, n) \<Rightarrow> (Some mac, n)
      | (None, n) \<Rightarrow>
          (case arp_send_request ip n of
             (False, n) \<Rightarrow> (None, n)
           | (True, n) \<Rightarrow>
               (let t = of_int (if timeout_ms > 0 then timeout_ms else 3000)
                in arp_wait poll ip (ticks n) t 0 (unat t div 10 + 1) n)))"

definition arp_set_our_ip :: "u32 \<Rightarrow> 'a anet_scheme \<Rightarrow> 'a anet_scheme" where
  "arp_set_our_ip ip n = n\<lparr>our_ip_address := ip\<rparr>"

definition arp_get_our_ip :: "'a anet_scheme \<Rightarrow> u32" where
  "arp_get_our_ip n = our_ip_address n"

definition arp_foreach_entry :: "(u32 \<Rightarrow> u8 list \<Rightarrow> 'u \<Rightarrow> 'u) \<Rightarrow> 'u \<Rightarrow> 'a anet_scheme \<Rightarrow> 'u" where
  "arp_foreach_entry f u n = fold (\<lambda>e. f (ae_ip e) (ae_mac e)) (filter ae_valid (arp_table n)) u"

section \<open>The table\<close>

definition arp_inv :: "'a anet_scheme \<Rightarrow> bool" where
  "arp_inv n \<longleftrightarrow> length (arp_table n) = ARP_TABLE_SIZE \<and> arp_evict_slot n < ARP_TABLE_SIZE \<and> uniq_on ae_valid ae_ip (arp_table n)"

text \<open>What the table answers, without its effect on entries that are out of date.\<close>

definition arp_answer :: "u32 \<Rightarrow> 'a anet_scheme \<Rightarrow> u8 list option" where
  "arp_answer ip n = fst (arp_get_mac ip n)"

lemma arp_put_inv:
  assumes "arp_inv n" and "\<And>j. j < ARP_TABLE_SIZE \<Longrightarrow> j \<noteq> i \<Longrightarrow> ae_valid (arp_table n ! j) \<Longrightarrow> ae_ip (arp_table n ! j) \<noteq> ip"
  shows "arp_inv (arp_put i ip mac n)"
  using assms by (auto simp: arp_inv_def arp_put_def intro!: uniq_on_put)

lemma arp_put_answer:
  assumes "i < length (arp_table n)" and "arp_find ip n = Some i \<or> arp_find ip n = None"
  shows "arp_answer ip (arp_put i ip mac n) = Some mac"
proof -
  let ?e = "\<lparr>ae_ip = ip, ae_mac = mac, ae_valid = True, ae_seen = ticks n\<rparr>"
  have "find_slot (\<lambda>e. ae_valid e \<and> ae_ip e = ip) ((arp_table n)[i := ?e]) = Some i"
    using assms(2)
  proof
    assume "arp_find ip n = Some i"
    then show ?thesis
      using find_slot_update_same [OF assms(1), of "\<lambda>e. ae_valid e \<and> ae_ip e = ip" ?e] by (auto simp: arp_find_def find_slot_Some)
  next
    assume "arp_find ip n = None"
    then show ?thesis by (intro find_slot_update_new [OF assms(1)]) (simp_all add: arp_find_def)
  qed
  then show ?thesis using assms(1) by (simp add: arp_answer_def arp_get_mac_def arp_put_def arp_find_def)
qed

lemma arp_put_other:
  assumes "i < length (arp_table n)" and "ip' \<noteq> ip" and "\<not> (ae_valid (arp_table n ! i) \<and> ae_ip (arp_table n ! i) = ip')"
  shows "arp_answer ip' (arp_put i ip mac n) = arp_answer ip' n"
proof -
  let ?e = "\<lparr>ae_ip = ip, ae_mac = mac, ae_valid = True, ae_seen = ticks n\<rparr>"
  have f: "find_slot (\<lambda>e. ae_valid e \<and> ae_ip e = ip') ((arp_table n)[i := ?e]) = find_slot (\<lambda>e. ae_valid e \<and> ae_ip e = ip') (arp_table n)"
    using assms by (intro find_slot_update_same) auto
  show ?thesis
  proof (cases "find_slot (\<lambda>e. ae_valid e \<and> ae_ip e = ip') (arp_table n)")
    case None
    then show ?thesis using f by (simp add: arp_answer_def arp_get_mac_def arp_find_def arp_put_def)
  next
    case (Some j)
    then have "j \<noteq> i" using assms(3) by (auto simp: find_slot_Some)
    then show ?thesis using f Some by (simp add: arp_answer_def arp_get_mac_def arp_find_def arp_put_def Let_def)
  qed
qed

text \<open>The entry that the table gives up for a new one.\<close>

definition arp_victim :: "u32 \<Rightarrow> 'a anet_scheme \<Rightarrow> u32 option" where
  "arp_victim ip n = (if arp_find ip n = None \<and> list_all ae_valid (arp_table n) then Some (ae_ip (arp_table n ! arp_evict_slot n)) else None)"

text \<open>
  Adding an entry to the table keeps it free of duplicates; the address is then answered with the
  hardware address added, and every other address is answered as before, except the one whose
  entry a full table gives up.
\<close>

lemma arp_add_entry_correct:
  assumes "arp_inv n"
  shows "arp_inv (arp_add_entry ip mac n) \<and> arp_answer ip (arp_add_entry ip mac n) = Some mac \<and>
    (\<forall>ip'. ip' \<noteq> ip \<and> arp_victim ip n \<noteq> Some ip' \<longrightarrow> arp_answer ip' (arp_add_entry ip mac n) = arp_answer ip' n)"
proof (cases "arp_find ip n")
  case (Some i)
  then have i: "i < length (arp_table n)" "ae_valid (arp_table n ! i)" "ae_ip (arp_table n ! i) = ip" by (auto simp: arp_find_def find_slot_Some)
  have "ae_ip (arp_table n ! j) \<noteq> ip" if "j < ARP_TABLE_SIZE" "j \<noteq> i" "ae_valid (arp_table n ! j)" for j
    using uniq_on_nth [of ae_valid ae_ip "arp_table n" j i] that assms i by (auto simp: arp_inv_def)
  then have "arp_inv (arp_put i ip mac n)" by (intro arp_put_inv [OF assms])
  moreover have "arp_add_entry ip mac n = arp_put i ip mac n" using Some by (simp add: arp_add_entry_def)
  ultimately show ?thesis using arp_put_answer [OF i(1), of ip mac] arp_put_other [OF i(1), of _ ip mac] Some i by auto
next
  case None
  then have new: "\<not> (ae_valid e \<and> ae_ip e = ip)" if "e \<in> set (arp_table n)" for e using that by (simp add: arp_find_def find_slot_None)
  show ?thesis
  proof (cases "find_slot (\<lambda>e. \<not> ae_valid e) (arp_table n)")
    case (Some i)
    then have i: "i < length (arp_table n)" "\<not> ae_valid (arp_table n ! i)" by (auto simp: find_slot_Some)
    have "arp_inv (arp_put i ip mac n)" using assms new by (intro arp_put_inv) (auto simp: arp_inv_def)
    moreover have "arp_add_entry ip mac n = arp_put i ip mac n" using Some None by (simp add: arp_add_entry_def)
    ultimately show ?thesis using arp_put_answer [OF i(1), of ip mac] arp_put_other [OF i(1), of _ ip mac] None i by auto
  next
    case full: None
    define m where "m = n\<lparr>arp_evict_slot := (arp_evict_slot n + 1) mod ARP_TABLE_SIZE\<rparr>"
    have m: "arp_inv m" "arp_table m = arp_table n" "arp_find ip m = None" using assms None by (simp_all add: m_def arp_inv_def arp_find_def)
    have v: "arp_victim ip n = Some (ae_ip (arp_table n ! arp_evict_slot n))" "arp_evict_slot n < length (arp_table n)"
      using full None assms by (auto simp: arp_victim_def find_slot_None list_all_iff arp_inv_def)
    have o: "arp_answer ip' m = arp_answer ip' n" for ip' by (simp add: m_def arp_answer_def arp_get_mac_def arp_find_def Let_def split: option.splits)
    have "arp_inv (arp_put (arp_evict_slot n) ip mac m)" using m new by (intro arp_put_inv) (auto simp: arp_inv_def)
    moreover have "arp_add_entry ip mac n = arp_put (arp_evict_slot n) ip mac m" using None full by (simp add: arp_add_entry_def m_def)
    ultimately show ?thesis
      using arp_put_answer [of "arp_evict_slot n" m ip mac] arp_put_other [of "arp_evict_slot n" m _ ip mac] v m o by auto
  qed
qed

section \<open>Packets\<close>

lemma get_le_0 [simp]: "get16 (le16 w) 0 = w" "get32 (le32 v) 0 = v"
  using get16_le16 [of 0 "[]" w "[]"] get32_le32 [of 0 "[]" v "[]"] by simp_all

lemma dec_enc_arp:
  assumes "length (a_smac a) = 6" "length (a_tmac a) = 6"
  shows "dec_arp (enc_arp a) = a" "length (enc_arp a) = ARP_LEN"
proof -
  show l: "length (enc_arp a) = ARP_LEN" using assms by (simp add: enc_arp_def)
  have "get16 (enc_arp a) 0 = a_hw a" "get16 (enc_arp a) 2 = a_proto a" "get16 (enc_arp a) 6 = a_op a"
    "get32 (enc_arp a) 14 = a_sip a" "get32 (enc_arp a) 24 = a_tip a"
    by (subst get16_drop get32_drop; use l assms in \<open>simp add: enc_arp_def\<close>)+
  moreover have "enc_arp a ! 4 = a_hlen a" "enc_arp a ! 5 = a_plen a" by (simp_all add: enc_arp_def nth_append)
  moreover have "take 6 (drop 8 (enc_arp a)) = a_smac a" "take 6 (drop 18 (enc_arp a)) = a_tmac a" using assms by (simp_all add: enc_arp_def)
  ultimately show "dec_arp (enc_arp a) = a" by (simp add: dec_arp_def)
qed

text \<open>A host that can take part in the protocol.\<close>

definition arp_host :: "'a anet_scheme \<Rightarrow> bool" where
  "arp_host n \<longleftrightarrow> arp_inv n \<and> nic_ready n \<and> length (our_mac_address n) = 6"

lemma arp_send_ready:
  assumes "arp_host n" and "length dst = 6" and "length (a_smac a) = 6" "length (a_tmac a) = 6"
  obtains f where "arp_send dst a n = (True, sent f n)"
    "ethernet_parse_header f = Some (\<lparr>dest_mac = dst, src_mac = our_mac_address n, eth_type = htons ETH_TYPE_ARP\<rparr>, enc_arp a)"
proof -
  have l: "ETH_HDR + length (enc_arp a) \<le> ETH_HDR + ARP_LEN" "length (our_mac_address n) = 6"
    using assms by (simp_all add: dec_enc_arp arp_host_def)
  obtain f where f: "ethernet_create_frame (ETH_HDR + ARP_LEN) (Some dst) (Some (our_mac_address n)) ETH_TYPE_ARP (enc_arp a) = Some f"
    "length f = ETH_HDR + length (enc_arp a)"
    "ethernet_parse_header f = Some (\<lparr>dest_mac = dst, src_mac = our_mac_address n, eth_type = htons ETH_TYPE_ARP\<rparr>, enc_arp a)"
    by (rule ethernet_roundtrip [OF assms(2) l(2,1)])
  have "nic_send_packet f n = (True, sent f n)"
    using assms(1) f(2) dec_enc_arp(2) [OF assms(3,4)] by (intro nic_send_ready) (auto simp: arp_host_def)
  then show thesis using that [of f] f by (simp add: arp_send_def)
qed

lemma arp_add_frame [simp]:
  "nic_ready (arp_add_entry ip mac n) = nic_ready n" "our_ip_address (arp_add_entry ip mac n) = our_ip_address n"
  "our_mac_address (arp_add_entry ip mac n) = our_mac_address n" "wire (arp_add_entry ip mac n) = wire n"
  by (simp_all add: arp_add_entry_def arp_put_def nic_ready_def netif_ready_def split: option.splits)

lemma sent_arp [simp]: "our_ip_address (if_sent i f n) = our_ip_address n" "our_mac_address (if_sent i f n) = our_mac_address n"
  "arp_inv (if_sent i f n) = arp_inv n" "arp_answer ip (if_sent i f n) = arp_answer ip n" "arp_host n \<Longrightarrow> arp_host (if_sent i f n)"
proof -
  show s: "our_ip_address (if_sent i f n) = our_ip_address n" "our_mac_address (if_sent i f n) = our_mac_address n" "arp_inv (if_sent i f n) = arp_inv n"
    by (simp_all add: if_sent_def arp_inv_def)
  show "arp_answer ip (if_sent i f n) = arp_answer ip n" by (simp add: if_sent_def arp_answer_def arp_get_mac_def arp_find_def Let_def split: option.splits)
  show "arp_host n \<Longrightarrow> arp_host (if_sent i f n)" by (simp add: arp_host_def s)
qed

lemma arp_add_host: "arp_host n \<Longrightarrow> arp_host (arp_add_entry ip mac n)"
  using arp_add_entry_correct [of n ip mac] by (simp add: arp_host_def)

lemma arp_handle_request:
  assumes "arp_host b" and "length smac = 6" "length tmac = 6"
    and "a = \<lparr>a_hw = htons 1, a_proto = htons 0x0800, a_hlen = 6, a_plen = 4, a_op = htons ARP_OP_REQUEST, a_smac = smac, a_sip = htonl ip, a_tmac = tmac,
      a_tip = htonl (our_ip_address b)\<rparr>"
  obtains f where "arp_handle_packet (enc_arp a) b = sent f (arp_add_entry ip smac b)"
    "ethernet_parse_header f = Some (\<lparr>dest_mac = smac, src_mac = our_mac_address b, eth_type = htons ETH_TYPE_ARP\<rparr>,
       enc_arp \<lparr>a_hw = htons 1, a_proto = htons 0x0800, a_hlen = 6, a_plen = 4, a_op = htons ARP_OP_REPLY, a_smac = our_mac_address b,
         a_sip = htonl (our_ip_address b), a_tmac = smac, a_tip = htonl ip\<rparr>)"
proof -
  have d: "dec_arp (enc_arp a) = a" "length (enc_arp a) = ARP_LEN" using assms by (simp_all add: dec_enc_arp)
  let ?n = "arp_add_entry ip smac b"
  let ?r = "\<lparr>a_hw = htons 1, a_proto = htons 0x0800, a_hlen = 6, a_plen = 4, a_op = htons ARP_OP_REPLY, a_smac = our_mac_address b,
         a_sip = htonl (our_ip_address b), a_tmac = smac, a_tip = htonl ip\<rparr>"
  have h: "length (our_mac_address b) = 6" using assms(1) by (simp add: arp_host_def)
  obtain f where f: "arp_send smac ?r ?n = (True, sent f ?n)"
    "ethernet_parse_header f = Some (\<lparr>dest_mac = smac, src_mac = our_mac_address ?n, eth_type = htons ETH_TYPE_ARP\<rparr>, enc_arp ?r)"
    using arp_send_ready [OF arp_add_host [OF assms(1)] assms(2), of ?r ip smac] h assms(2) by auto
  have "arp_handle_packet (enc_arp a) b = sent f ?n" using d f(1) assms(4) by (simp add: arp_handle_packet_def Let_def)
  then show thesis using that [of f] f(2) by simp
qed

text \<open>
  Fact: two hosts learn each other's hardware address. The frame that a host sends to ask for the
  address of another one makes the other host, when it receives it, learn the address of the
  asking host and answer with one frame; receiving the answer, the asking host has the hardware
  address it asked for in its table.
\<close>

theorem arp_exchange:
  assumes "arp_host a" and "arp_host b" and "arp_send_request (our_ip_address b) a = (ok, a')"
  shows "ok \<and> (\<exists>f h p f' h' p'. wire a' = wire a @ [f] \<and> ethernet_parse_header f = Some (h, p) \<and> dest_mac h = replicate 6 0xFF \<and>
    arp_answer (our_ip_address a) (arp_handle_packet p b) = Some (our_mac_address a) \<and>
    wire (arp_handle_packet p b) = wire b @ [f'] \<and> ethernet_parse_header f' = Some (h', p') \<and> dest_mac h' = our_mac_address a \<and>
    arp_answer (our_ip_address b) (arp_handle_packet p' a') = Some (our_mac_address b) \<and> wire (arp_handle_packet p' a') = wire a')"
proof -
  let ?q = "\<lparr>a_hw = htons 1, a_proto = htons 0x0800, a_hlen = 6, a_plen = 4, a_op = htons ARP_OP_REQUEST, a_smac = our_mac_address a,
    a_sip = htonl (our_ip_address a), a_tmac = replicate 6 0xFF, a_tip = htonl (our_ip_address b)\<rparr>"
  let ?r = "\<lparr>a_hw = htons 1, a_proto = htons 0x0800, a_hlen = 6, a_plen = 4, a_op = htons ARP_OP_REPLY, a_smac = our_mac_address b,
    a_sip = htonl (our_ip_address b), a_tmac = our_mac_address a, a_tip = htonl (our_ip_address a)\<rparr>"
  have m: "length (our_mac_address a) = 6" "length (our_mac_address b) = 6" using assms by (simp_all add: arp_host_def)
  obtain f where f: "arp_send (replicate 6 0xFF) ?q a = (True, sent f a)"
    "ethernet_parse_header f = Some (\<lparr>dest_mac = replicate 6 0xFF, src_mac = our_mac_address a, eth_type = htons ETH_TYPE_ARP\<rparr>, enc_arp ?q)"
    by (rule arp_send_ready [OF assms(1), of "replicate 6 0xFF" ?q]) (use m in simp_all)
  then have a': "ok" "a' = sent f a" using assms(3) by (simp_all add: arp_send_request_def)
  obtain f' where f': "arp_handle_packet (enc_arp ?q) b = sent f' (arp_add_entry (our_ip_address a) (our_mac_address a) b)"
    "ethernet_parse_header f' = Some (\<lparr>dest_mac = our_mac_address a, src_mac = our_mac_address b, eth_type = htons ETH_TYPE_ARP\<rparr>, enc_arp ?r)"
    using arp_handle_request [OF assms(2) m(1) _ refl, of "replicate 6 0xFF"] by auto
  have "dec_arp (enc_arp ?r) = ?r" "length (enc_arp ?r) = ARP_LEN" using m by (simp_all add: dec_enc_arp)
  then have r: "arp_handle_packet (enc_arp ?r) a' = arp_add_entry (our_ip_address b) (our_mac_address b) a'" by (simp add: arp_handle_packet_def)
  have "arp_inv a'" "arp_inv b" using assms(1,2) a' by (simp_all add: arp_host_def)
  then have "arp_answer (our_ip_address a) (arp_handle_packet (enc_arp ?q) b) = Some (our_mac_address a)"
    "arp_answer (our_ip_address b) (arp_handle_packet (enc_arp ?r) a') = Some (our_mac_address b)"
    unfolding f'(1) r sent_arp using arp_add_entry_correct by blast+
  moreover have "wire a' = wire a @ [f]" "wire (arp_handle_packet (enc_arp ?q) b) = wire b @ [f']" "wire (arp_handle_packet (enc_arp ?r) a') = wire a'"
    unfolding f'(1) r by (simp_all add: a'(2))
  ultimately show ?thesis
    using a'(1) f(2) f'(2) by (intro conjI exI [of _ f] exI [of _ f'] exI [of _ "enc_arp ?q"] exI [of _ "enc_arp ?r"] exI) (assumption | simp)+
qed

text \<open>Two hosts on one network.\<close>

definition host0 :: "u32 \<Rightarrow> u8 \<Rightarrow> anet" where
  "host0 ip x = arp_init \<lparr>netifs = [eth0\<lparr>if_mac := [0x52, 0x54, 0, 0, 0, x]\<rparr>], netif_used = 1, default_netif = Some 0, skb_pool = [], nic_on = True,
     nic_mac = [0x52, 0x54, 0, 0, 0, x], nic_irq = 11, nic_hw = NETIF_HW_RTL8139, nic_netif = Some 0, hw_rx = [], hw_rc = \<lambda>_. True, wire = [], routes = [],
     arp_table = [], our_ip_address = ip, our_mac_address = [], arp_evict_slot = 0, ticks = 0, waits = 0, arrivals = \<lambda>_. []\<rparr>"

lemma host0_ok: "arp_host (host0 ip x)" "our_ip_address (host0 ip x) = ip" "our_mac_address (host0 ip x) = [0x52, 0x54, 0, 0, 0, x]"
  "wire (host0 ip x) = []"
  by (simp_all add: host0_def arp_init_def arp_host_def arp_inv_def nic_ready_def netif_ready_def eth0_def uniq_on_def nic_get_mac_def netif_get_mac_def)

theorem arp_exchange_witness:
  "fst (arp_send_request 0x0A000203 (host0 0x0A000202 1)) \<and>
   (\<exists>p. arp_answer 0x0A000202 (arp_handle_packet p (host0 0x0A000203 2)) = Some [0x52, 0x54, 0, 0, 0, 1])"
proof -
  obtain ok a' where r: "arp_send_request (our_ip_address (host0 0x0A000203 2)) (host0 0x0A000202 1) = (ok, a')" by fastforce
  from arp_exchange [OF host0_ok(1) host0_ok(1) r] show ?thesis using r unfolding host0_ok by auto
qed

end
