(* ===== verification/KIpPkt.thy ===== *)
theory KIpPkt
  imports KEth
begin

text \<open>
  IP packets and addresses, the functions of src/kernel/drivers/network/protocols/ip.cpp that
  have no state: the checksum, the header, the text form of an address.
\<close>

section \<open>The checksum\<close>

fun csum_add :: "u8 list \<Rightarrow> u32 \<Rightarrow> u32" where
  "csum_add (a # b # bs) s = csum_add bs (s + (push_bit 8 (ucast a) OR ucast b))"
| "csum_add [a] s = s + push_bit 8 (ucast a)"
| "csum_add [] s = s"

lemma unat_halves: "unat ((s :: u32) AND 0xFFFF) = unat s mod 65536" "unat (drop_bit 16 (s :: u32)) = unat s div 65536"
proof -
  have "(0xFFFF :: u32) = Bit_Operations.mask 16" by (simp add: mask_eq_exp_minus_1)
  then have "s AND 0xFFFF = take_bit 16 s" by (simp only: take_bit_eq_mask)
  then show "unat (s AND 0xFFFF) = unat s mod 65536" by (simp add: unsigned_take_bit_eq) (simp add: take_bit_eq_mod)
  show "unat (drop_bit 16 s) = unat s div 65536" by (simp add: drop_bit_eq_div unat_div)
qed

lemma unat_fold: "unat (((s :: u32) AND 0xFFFF) + drop_bit 16 s) = unat s mod 65536 + unat s div 65536"
proof -
  have "unat s mod 65536 + unat s div 65536 < 2 ^ 32" using unat_lt32 [of s] by simp
  then show ?thesis by (simp add: unat_word_ariths unat_halves)
qed

lemma fold_less: "drop_bit 16 (s :: u32) \<noteq> 0 \<Longrightarrow> unat ((s AND 0xFFFF) + drop_bit 16 s) < unat s"
proof -
  assume "drop_bit 16 s \<noteq> 0"
  then have "unat (drop_bit 16 s) \<noteq> 0" by (simp add: unat_eq_0)
  then have "unat s div 65536 \<noteq> 0" by (simp add: unat_halves)
  then have "unat s mod 65536 + unat s div 65536 < unat s mod 65536 + unat s div 65536 * 65536" by linarith
  then show ?thesis by (simp only: unat_fold) (simp add: mult.commute)
qed

function csum_fold :: "u32 \<Rightarrow> u32" where
  "csum_fold s = (if drop_bit 16 s = 0 then s else csum_fold ((s AND 0xFFFF) + drop_bit 16 s))"
  by pat_completeness auto

termination by (relation "measure unat") (simp_all add: fold_less)

declare csum_fold.simps [simp del]

definition ip_checksum :: "u8 list \<Rightarrow> u16" where
  "ip_checksum bs = ucast (NOT (csum_fold (csum_add bs 0)))"

section \<open>Headers\<close>

record ip_header =
  version_ihl :: u8
  tos :: u8
  total_length :: u16
  ip_id :: u16
  flags_fragment :: u16
  ttl :: u8
  protocol :: u8
  checksum :: u16
  src_ip :: u32
  dest_ip :: u32

abbreviation (input) IP_HDR :: nat where "IP_HDR \<equiv> 20"
abbreviation (input) IP_PROTOCOL_ICMP :: u8 where "IP_PROTOCOL_ICMP \<equiv> 1"
abbreviation (input) IP_PROTOCOL_TCP :: u8 where "IP_PROTOCOL_TCP \<equiv> 6"
abbreviation (input) IP_PROTOCOL_UDP :: u8 where "IP_PROTOCOL_UDP \<equiv> 17"
abbreviation (input) IP_FLAG_MF :: u16 where "IP_FLAG_MF \<equiv> 0x2000"
abbreviation (input) IP_FLAG_DF :: u16 where "IP_FLAG_DF \<equiv> 0x4000"
abbreviation (input) IP_OFFMASK :: u16 where "IP_OFFMASK \<equiv> 0x1FFF"

text \<open>The packed struct in memory.\<close>

definition enc_ip :: "ip_header \<Rightarrow> u8 list" where
  "enc_ip h = [version_ihl h, tos h] @ le16 (total_length h) @ le16 (ip_id h) @ le16 (flags_fragment h) @ [ttl h, protocol h] @
     le16 (checksum h) @ le32 (src_ip h) @ le32 (dest_ip h)"

definition dec_ip :: "u8 list \<Rightarrow> ip_header" where
  "dec_ip bs = \<lparr>version_ihl = bs ! 0, tos = bs ! 1, total_length = get16 bs 2, ip_id = get16 bs 4, flags_fragment = get16 bs 6,
     ttl = bs ! 8, protocol = bs ! 9, checksum = get16 bs 10, src_ip = get32 bs 12, dest_ip = get32 bs 16\<rparr>"

text \<open>ip_create_packet_ex returns the length as 16 bits; the packet is that much of the buffer.\<close>

definition ip_create_packet_ex :: "nat \<Rightarrow> u32 \<Rightarrow> u32 \<Rightarrow> u8 \<Rightarrow> u16 \<Rightarrow> u16 \<Rightarrow> u8 list \<Rightarrow> u8 list option" where
  "ip_create_packet_ex buffer_size src dest proto i flags_frag payload =
     (if buffer_size < IP_HDR + length payload then None
      else let total_len = of_nat (IP_HDR + length payload);
               h = \<lparr>version_ihl = 0x45, tos = 0, total_length = htons total_len, ip_id = htons i, flags_fragment = htons flags_frag,
                     ttl = 64, protocol = proto, checksum = 0, src_ip = htonl src, dest_ip = htonl dest\<rparr>;
               h = h\<lparr>checksum := htons (ip_checksum (enc_ip h))\<rparr>
        in Some (take (unat (total_len :: u16)) (enc_ip h @ payload)))"

definition ip_parse_header :: "u8 list \<Rightarrow> (ip_header \<times> u8 list) option" where
  "ip_parse_header packet =
     (if length packet < IP_HDR then None
      else let hdr = dec_ip packet; ihl = unat (version_ihl hdr AND 0x0F) * 4; total_len = htons (total_length hdr) in
        if drop_bit 4 (version_ihl hdr) \<noteq> 4 then None
        else if ihl < 20 \<or> length packet < ihl then None
        else if unat total_len < ihl \<or> unat total_len > length packet then None
        else if ip_checksum ((take ihl packet)[10 := 0, 11 := 0]) \<noteq> htons (checksum hdr) then None
        else Some (hdr\<lparr>src_ip := htonl (src_ip hdr), dest_ip := htonl (dest_ip hdr), total_length := total_len, ip_id := htons (ip_id hdr),
                     flags_fragment := htons (flags_fragment hdr), checksum := htons (checksum hdr)\<rparr>,
                   take (unat total_len - ihl) (drop ihl packet)))"

definition ip_get_protocol :: "u8 list \<Rightarrow> u8" where
  "ip_get_protocol packet = (if length packet < IP_HDR then 0 else packet ! 9)"

section \<open>Addresses as text\<close>

abbreviation (input) dot :: char where "dot \<equiv> CHR 0x2E"

definition digit :: "nat \<Rightarrow> char" where
  "digit d = char_of (48 + d)"

definition ip_format_octet :: "u8 \<Rightarrow> string" where
  "ip_format_octet octet =
     (let o' = unat octet in
      (if o' \<ge> 100 then [digit (o' div 100)] else []) @ (if o' \<ge> 10 then [digit (o' div 10 mod 10)] else []) @ [digit (o' mod 10)])"

text \<open>The text left in the buffer; a buffer of less than 16 bytes is left as it is.\<close>

definition ip_format_address :: "u32 \<Rightarrow> string \<Rightarrow> nat \<Rightarrow> string" where
  "ip_format_address ip buf buflen =
     (if buflen < 16 then buf
      else ip_format_octet (ucast (drop_bit 24 ip AND 0xFF)) @ [dot] @ ip_format_octet (ucast (drop_bit 16 ip AND 0xFF)) @ [dot] @
        ip_format_octet (ucast (drop_bit 8 ip AND 0xFF)) @ [dot] @ ip_format_octet (ucast (ip AND 0xFF)))"

text \<open>The loop of ip_parse_address over the characters and the final dot; the result is the
  address and the number of octets.\<close>

fun parse_octets :: "string \<Rightarrow> u32 \<Rightarrow> nat \<Rightarrow> u32 \<Rightarrow> bool \<Rightarrow> (u32 \<times> nat) option" where
  "parse_octets [] res octet cur has_digit = Some (res, octet)"
| "parse_octets (c # cs) res octet cur has_digit =
     (let n = (of_char c :: nat) in
      if 48 \<le> n \<and> n \<le> 57 then
        (let cur = cur * 10 + of_nat (n - 48) in if cur > 255 then None else parse_octets cs res octet cur True)
      else if c = dot \<or> c = CHR 0x20 \<or> c = CHR 0x00 then
        (if \<not> has_digit then None
         else let res = push_bit 8 res OR cur in
           if c = CHR 0x20 \<or> c = CHR 0x00 then Some (res, octet + 1) else parse_octets cs res (octet + 1) 0 False)
      else None)"

definition ip_parse_address :: "string \<Rightarrow> u32 option" where
  "ip_parse_address str =
     (case parse_octets (str @ [dot]) 0 0 0 False of None \<Rightarrow> None | Some (res, octet) \<Rightarrow> if octet \<noteq> 4 then None else Some res)"

definition ip_parse_address_token :: "string \<Rightarrow> nat \<Rightarrow> u32 option \<times> nat" where
  "ip_parse_address_token str pos =
     (let start = pos + length (takeWhile (\<lambda>c. c = CHR 0x20) (drop pos str)) in
      if start \<ge> length str then (None, start)
      else let tok = takeWhile (\<lambda>c. c \<noteq> CHR 0x20) (drop start str) in (ip_parse_address tok, start + length tok))"

section \<open>What the checksum computes\<close>

text \<open>The sum of the 16-bit words of a block, in network byte order and padded with a zero byte.\<close>

fun word_sum :: "u8 list \<Rightarrow> nat" where
  "word_sum (a # b # bs) = 256 * unat a + unat b + word_sum bs"
| "word_sum [a] = 256 * unat a"
| "word_sum [] = 0"

text \<open>The representative between 1 and 65535 of a positive sum modulo 65535: the end-around carry.\<close>

definition carry :: "nat \<Rightarrow> nat" where
  "carry s = (if s = 0 then 0 else (s - 1) mod 65535 + 1)"

lemma unat_lt8: "unat (a :: u8) < 256"
  using unsigned_less [of a] by simp

lemma unat_pair: "unat (push_bit 8 (ucast (a :: u8)) OR ucast (b :: u8) :: u32) = 256 * unat a + unat b"
proof -
  have "push_bit 8 (ucast a) AND ucast b = (0 :: u32)" by (rule bit_word_eqI) (auto simp: bit_simps dest: bit_imp_le_length)
  then have "push_bit 8 (ucast a) OR ucast b = (push_bit 8 (ucast a) + ucast b :: u32)" by (simp add: disjunctive_add_eq_or)
  also have "\<dots> = of_nat (256 * unat a + unat b)" by (simp add: push_bit_eq_mult mult.commute)
  finally have e: "push_bit 8 (ucast a) OR ucast b = (of_nat (256 * unat a + unat b) :: u32)" .
  have "256 * unat a + unat b < 2 ^ 32" using unat_lt8 [of a] unat_lt8 [of b] by simp
  then show ?thesis unfolding e by (rule unat_of_nat32)
qed

lemma unat_single: "unat (push_bit 8 (ucast (a :: u8)) :: u32) = 256 * unat a"
  using unat_pair [of a 0] by simp

lemma unat_csum_add: "unat s + word_sum bs < 2 ^ 32 \<Longrightarrow> unat (csum_add bs s) = unat s + word_sum bs"
proof (induction bs s rule: csum_add.induct)
  case (1 a b bs s)
  then have "unat (s + (push_bit 8 (ucast a) OR ucast b)) = unat s + (256 * unat a + unat b)"
    by (simp add: unat_word_ariths unat_pair)
  then show ?case using 1 by (simp add: algebra_simps)
next
  case (2 a s)
  then show ?case by (simp add: unat_word_ariths unat_single)
qed simp

lemma word_sum_le: "2 * word_sum bs \<le> 65535 * (length bs + 1)"
proof (induction bs rule: word_sum.induct)
  case (1 a b bs)
  have "256 * unat a + unat b \<le> 65535" using unat_lt8 [of a] unat_lt8 [of b] by linarith
  then show ?case using 1 by simp
next
  case (2 a)
  have "256 * unat a \<le> 65535" using unat_lt8 [of a] by linarith
  then show ?case by simp
qed simp

lemma carry_fold: "carry (x mod 65536 + x div 65536) = carry x"
proof (cases "x = 0")
  case False
  define m q where "m = x mod 65536" and "q = x div 65536"
  have x: "x = m + 65536 * q" by (simp add: m_def q_def)
  have "m + q \<noteq> 0" using False x by auto
  moreover have "x - 1 = m + q - 1 + 65535 * q" using \<open>m + q \<noteq> 0\<close> x by simp
  then have "(x - 1) mod 65535 = (m + q - 1) mod 65535" by (simp only: mod_mult_self2)
  ultimately show ?thesis using False by (simp add: carry_def flip: m_def q_def)
qed (simp add: carry_def)

lemma carry_small: "x < 65536 \<Longrightarrow> carry x = x"
  by (auto simp: carry_def)

lemma unat_csum_fold: "unat (csum_fold s) = carry (unat s)"
proof (induction s rule: csum_fold.induct)
  case (1 s)
  show ?case
  proof (cases "drop_bit 16 s = 0")
    case True
    then have "unat s div 65536 = 0" using unat_halves(2) [of s] by simp
    then show ?thesis using True by (simp add: csum_fold.simps [of s] carry_small)
  next
    case False
    have "unat (csum_fold s) = unat (csum_fold ((s AND 0xFFFF) + drop_bit 16 s))" using False by (subst csum_fold.simps) simp
    then show ?thesis using 1 [OF False] by (simp only: unat_fold carry_fold)
  qed
qed

lemma carry_less: "carry s < 65536"
proof -
  have "(s - 1) mod 65535 < 65535" by (rule mod_less_divisor) simp
  then show ?thesis by (simp add: carry_def)
qed

lemma unat_low_not: "unat (ucast (NOT (w :: u32)) :: u16) = 65535 - unat w" if "unat w < 65536"
proof -
  have "(ucast (NOT w) :: u16) = NOT (ucast w)" by (rule bit_word_eqI) (simp add: bit_simps)
  also have "\<dots> = - 1 - ucast w" by (simp add: not_eq_complement)
  finally have e: "(ucast (NOT w) :: u16) = - 1 - ucast w" .
  have u: "unat (ucast w :: u16) = unat w" using that by (simp add: unsigned_ucast_eq take_bit_eq_mod)
  have "unat (- 1 :: u16) = 65535" by (simp add: unsigned_minus_1_eq_mask mask_eq_exp_minus_1)
  then show ?thesis unfolding e using that u by (subst unat_sub) (auto simp: word_le_nat_alt)
qed

lemma ip_checksum_spec:
  assumes "length bs < 2 ^ 16"
  shows "unat (ip_checksum bs) = 65535 - carry (word_sum bs)"
proof -
  have "word_sum bs < 2 ^ 32" using word_sum_le [of bs] assms by simp
  then have "unat (csum_fold (csum_add bs 0)) = carry (word_sum bs)" by (simp add: unat_csum_fold unat_csum_add)
  then show ?thesis using carry_less [of "word_sum bs"] by (simp add: ip_checksum_def unat_low_not)
qed

text \<open>
  Fact: the checksum is the complement of the sum of the 16-bit words of the block with end-around
  carry, the Internet checksum of RFC 1071.
\<close>

theorem ip_checksum_reference: "length bs < 2 ^ 16 \<Longrightarrow> unat (ip_checksum bs) = 65535 - carry (word_sum bs)"
  by (rule ip_checksum_spec)

theorem ip_checksum_reference_witness: "unat (ip_checksum [0x45, 0, 0xFF, 0xFF, 1]) = 65535 - 0x4600"
  using ip_checksum_reference [of "[0x45, 0, 0xFF, 0xFF, 1]"] by (simp add: carry_def)

section \<open>Headers survive the wire\<close>

lemma get16_at: "i + 2 \<le> length bs \<Longrightarrow> take 2 (drop i bs) = le16 w \<Longrightarrow> get16 bs i = w"
  using get16_le16 [of 0 "[]" w "[]"] get16_drop [of i bs] by simp

lemma get32_at: "i + 4 \<le> length bs \<Longrightarrow> take 4 (drop i bs) = le32 v \<Longrightarrow> get32 bs i = v"
  using get32_le32 [of 0 "[]" v "[]"] get32_drop [of i bs] by simp

lemma dec_enc_ip: "dec_ip (enc_ip h @ p) = h" "length (enc_ip h) = IP_HDR"
proof -
  let ?b = "enc_ip h @ p"
  show l: "length (enc_ip h) = IP_HDR" by (simp add: enc_ip_def)
  have "get16 ?b 2 = total_length h" "get16 ?b 4 = ip_id h" "get16 ?b 6 = flags_fragment h" "get16 ?b 10 = checksum h"
    "get32 ?b 12 = src_ip h" "get32 ?b 16 = dest_ip h"
    by (rule get16_at get32_at; simp add: enc_ip_def)+
  moreover have "?b ! 0 = version_ihl h" "?b ! 1 = tos h" "?b ! 8 = ttl h" "?b ! 9 = protocol h" by (simp_all add: enc_ip_def nth_append)
  ultimately show "dec_ip ?b = h" by (simp add: dec_ip_def)
qed

text \<open>A header with its checksum, and the fields as ip_parse_header returns them.\<close>

definition seal :: "ip_header \<Rightarrow> ip_header" where
  "seal h = h\<lparr>checksum := htons (ip_checksum (enc_ip (h\<lparr>checksum := 0\<rparr>)))\<rparr>"

definition host_order :: "ip_header \<Rightarrow> ip_header" where
  "host_order h = h\<lparr>src_ip := htonl (src_ip h), dest_ip := htonl (dest_ip h), total_length := htons (total_length h), ip_id := htons (ip_id h),
     flags_fragment := htons (flags_fragment h), checksum := htons (checksum h)\<rparr>"

lemma clear_checksum: "(enc_ip h)[10 := 0, 11 := 0] = enc_ip (h\<lparr>checksum := 0\<rparr>)"
proof -
  define a b where "a = [version_ihl h, tos h] @ le16 (total_length h) @ le16 (ip_id h) @ le16 (flags_fragment h) @ [ttl h, protocol h]"
    and "b = le32 (src_ip h) @ le32 (dest_ip h)"
  have "enc_ip (h\<lparr>checksum := c\<rparr>) = a @ le16 c @ b" for c by (simp add: enc_ip_def a_def b_def)
  from this [of "checksum h"] this [of 0] have "enc_ip h = a @ le16 (checksum h) @ b" "enc_ip (h\<lparr>checksum := 0\<rparr>) = a @ le16 0 @ b" by simp_all
  moreover have "length a = 10" by (simp add: a_def)
  ultimately show ?thesis by (simp add: list_update_append le16_def)
qed

lemma unat_of_nat16: "n < 2 ^ 16 \<Longrightarrow> unat (of_nat n :: u16) = n"
  by (simp add: unat_of_nat)

lemma parse_sealed:
  assumes "version_ihl h = 0x45" and "total_length h = htons (of_nat (IP_HDR + length payload))" and "IP_HDR + length payload < 2 ^ 16"
  shows "ip_parse_header (enc_ip (seal h) @ payload) = Some (host_order (seal h), payload)"
proof -
  have f: "version_ihl (seal h) = 0x45" "total_length (seal h) = total_length h" "checksum (seal h) = htons (ip_checksum (enc_ip (h\<lparr>checksum := 0\<rparr>)))"
    using assms(1) by (simp_all add: seal_def)
  have t: "unat (of_nat (IP_HDR + length payload) :: u16) = IP_HDR + length payload" using assms(3) by (rule unat_of_nat16)
  have "drop_bit 4 (0x45 :: u8) = 4" "unat (0x45 AND 0x0F :: u8) * 4 = IP_HDR" by simp_all
  moreover have "(enc_ip (seal h))[10 := 0, 11 := 0] = enc_ip (h\<lparr>checksum := 0\<rparr>)" by (simp add: clear_checksum) (simp add: seal_def)
  ultimately show ?thesis
    using f t assms(2) by (simp add: ip_parse_header_def Let_def dec_enc_ip host_order_def del: of_nat_add of_nat_numeral)
qed

lemma word_sum_append: "even (length a) \<Longrightarrow> word_sum (a @ b) = word_sum a + word_sum b"
  by (induction a rule: word_sum.induct) simp_all

lemma word_sum_be16: "word_sum (be16 c) = unat c"
proof -
  have "unat c div 256 < 256" using unsigned_less [of c] by (intro less_mult_imp_div_less) simp
  then have "unat (ucast (drop_bit 8 c) :: u8) = unat c div 256" by (simp add: unsigned_ucast_eq take_bit_eq_mod drop_bit_eq_div unat_div)
  moreover have "unat (ucast c :: u8) = unat c mod 256" by (simp add: unsigned_ucast_eq take_bit_eq_mod)
  ultimately show ?thesis by (simp add: be16_def)
qed

lemma carry_complement: "s \<noteq> 0 \<Longrightarrow> carry (s + (65535 - carry s)) = 65535"
proof -
  assume s: "s \<noteq> 0"
  define k where "k = (s - 1) div 65535"
  have c: "carry s \<le> 65535" using carry_less [of s] by simp
  have "s = carry s + 65535 * k" using s by (simp add: carry_def k_def)
  then have "s + (65535 - carry s) - 1 = 65534 + 65535 * k" "s + (65535 - carry s) \<noteq> 0" using c s by linarith+
  then show ?thesis unfolding carry_def [of "s + (65535 - carry s)"] by (simp only: mod_mult_self2) simp
qed

lemma seal_sum:
  assumes "version_ihl h = 0x45"
  shows "ip_checksum (enc_ip (seal h)) = 0"
proof -
  let ?s = "word_sum (enc_ip (h\<lparr>checksum := 0\<rparr>))" and ?c = "ip_checksum (enc_ip (h\<lparr>checksum := 0\<rparr>))"
  define a b where "a = [version_ihl h, tos h] @ le16 (total_length h) @ le16 (ip_id h) @ le16 (flags_fragment h) @ [ttl h, protocol h]"
    and "b = le32 (src_ip h) @ le32 (dest_ip h)"
  have "enc_ip (h\<lparr>checksum := htons c\<rparr>) = a @ be16 c @ b" for c by (simp add: enc_ip_def a_def b_def le16_htons)
  then have w: "word_sum (enc_ip (h\<lparr>checksum := htons c\<rparr>)) = word_sum a + unat c + word_sum b" for c
    by (simp add: word_sum_append word_sum_be16 a_def)
  from w [of 0] have s: "?s = word_sum a + word_sum b" by (simp add: htons_def)
  have "?s \<noteq> 0" using assms by (simp add: enc_ip_def)
  moreover have "unat ?c = 65535 - carry ?s" using ip_checksum_spec [of "enc_ip (h\<lparr>checksum := 0\<rparr>)"] dec_enc_ip(2) by simp
  ultimately have "carry (word_sum (enc_ip (seal h))) = 65535" using w [of ?c] s carry_complement [of ?s] by (simp add: seal_def algebra_simps)
  then have "unat (ip_checksum (enc_ip (seal h))) = 0" using ip_checksum_spec [of "enc_ip (seal h)"] dec_enc_ip(2) by simp
  then show ?thesis by (simp add: unat_eq_0)
qed

lemma create_is_sealed:
  assumes "IP_HDR + length payload \<le> n" and "IP_HDR + length payload < 2 ^ 16"
  shows "ip_create_packet_ex n src dest proto i fl payload =
    Some (enc_ip (seal \<lparr>version_ihl = 0x45, tos = 0, total_length = htons (of_nat (IP_HDR + length payload)), ip_id = htons i, flags_fragment = htons fl,
      ttl = 64, protocol = proto, checksum = 0, src_ip = htonl src, dest_ip = htonl dest\<rparr>) @ payload)"
  using assms unat_of_nat16 [OF assms(2)] dec_enc_ip(2)
  by (simp add: ip_create_packet_ex_def Let_def seal_def del: of_nat_add of_nat_numeral)

text \<open>
  Fact: a packet survives the wire. A packet that fits its buffer and the length field is created
  with a header whose words sum to zero in the sense of RFC 1071, and ip_parse_header returns
  the fields and the payload it was created from.
\<close>

theorem ip_packet_roundtrip:
  assumes "IP_HDR + length payload \<le> n" and "IP_HDR + length payload < 2 ^ 16"
  shows "\<exists>packet h. ip_create_packet_ex n src dest proto i fl payload = Some packet \<and> length packet = IP_HDR + length payload \<and>
    ip_checksum (take IP_HDR packet) = 0 \<and> ip_parse_header packet = Some (h, payload) \<and> src_ip h = src \<and> dest_ip h = dest \<and> protocol h = proto \<and>
    ip_id h = i \<and> flags_fragment h = fl \<and> ttl h = 64 \<and> unat (total_length h) = length packet"
proof -
  let ?h = "\<lparr>version_ihl = 0x45, tos = 0, total_length = htons (of_nat (IP_HDR + length payload)), ip_id = htons i, flags_fragment = htons fl,
      ttl = 64, protocol = proto, checksum = 0, src_ip = htonl src, dest_ip = htonl dest\<rparr>"
  have "ip_parse_header (enc_ip (seal ?h) @ payload) = Some (host_order (seal ?h), payload)" using assms(2) by (intro parse_sealed) simp_all
  moreover have "ip_checksum (enc_ip (seal ?h)) = 0" by (intro seal_sum) simp
  moreover have "take IP_HDR (enc_ip (seal ?h) @ payload) = enc_ip (seal ?h)" "length (enc_ip (seal ?h) @ payload) = IP_HDR + length payload"
    using dec_enc_ip(2) [of "seal ?h"] by simp_all
  moreover have "unat (total_length (host_order (seal ?h))) = IP_HDR + length payload"
    unfolding host_order_def seal_def using unat_of_nat16 [OF assms(2)] by (simp del: of_nat_add of_nat_numeral)
  ultimately show ?thesis
    unfolding create_is_sealed [OF assms] by (intro exI [of _ "enc_ip (seal ?h) @ payload"] exI [of _ "host_order (seal ?h)"]) (simp add: host_order_def seal_def)
qed

theorem ip_packet_roundtrip_witness:
  "\<exists>packet h. ip_create_packet_ex 1600 0x0A00020F 0x0A000202 IP_PROTOCOL_UDP 1 0 [1, 2, 3] = Some packet \<and>
    ip_parse_header packet = Some (h, [1, 2, 3]) \<and> dest_ip h = 0x0A000202"
  using ip_packet_roundtrip [of "[1, 2, 3]" 1600 "0x0A00020F" "0x0A000202" IP_PROTOCOL_UDP 1 0] by auto

section \<open>Addresses survive printing\<close>

lemma digit_step:
  assumes "d < 10" and "n * 10 + d \<le> 255"
  shows "parse_octets (digit d # cs) res k (of_nat n) hb = parse_octets cs res k (of_nat (n * 10 + d)) True"
proof -
  have "(of_char (digit d) :: nat) = 48 + d" using assms(1) by (simp add: digit_def)
  moreover have "of_nat n * 10 + of_nat d = (of_nat (n * 10 + d) :: u32)" by simp
  moreover have "\<not> (of_nat (n * 10 + d) :: u32) > 255" using assms(2) by (simp add: word_less_nat_alt unat_of_nat32 del: of_nat_add)
  ultimately show ?thesis using assms(1) by (simp add: Let_def del: of_nat_add of_nat_mult)
qed

lemma parse_octet:
  "parse_octets (ip_format_octet o' @ dot # cs) res k 0 False = parse_octets cs (push_bit 8 res OR ucast o') (k + 1) 0 False"
proof -
  define m where "m = unat o'"
  have m: "m < 256" using unat_lt8 by (simp add: m_def)
  have d0: "parse_octets (digit d # cs) res k 0 hb = parse_octets cs res k (of_nat d) True" if "d < 10" for d cs hb
    using digit_step [of d 0 cs res k hb] that by simp
  have "parse_octets (ip_format_octet o' @ cs) res k 0 False = parse_octets cs res k (of_nat m) True" for cs
  proof -
    consider "m < 10" | "10 \<le> m" "m < 100" | "100 \<le> m" by linarith
    then show ?thesis
    proof cases
      case 1
      then show ?thesis by (simp add: ip_format_octet_def Let_def d0 del: parse_octets.simps flip: m_def)
    next
      case 2
      then have "m div 10 < 10" "m div 10 * 10 + m mod 10 = m" by simp_all
      then show ?thesis using 2 digit_step [of "m mod 10" "m div 10"] by (simp add: ip_format_octet_def Let_def d0 del: parse_octets.simps flip: m_def)
    next
      case 3
      have "m div 100 = m div 10 div 10" by (simp flip: div_mult2_eq)
      then have "m div 100 < 10" "m div 100 * 10 + m div 10 mod 10 = m div 10" "m div 10 * 10 + m mod 10 = m" using m by simp_all
      then show ?thesis
        using 3 m digit_step [of "m div 10 mod 10" "m div 100"] digit_step [of "m mod 10" "m div 10"]
        by (simp add: ip_format_octet_def Let_def d0 del: parse_octets.simps flip: m_def)
    qed
  qed
  moreover have "(of_nat m :: u32) = ucast o'" by (simp add: m_def)
  ultimately show ?thesis by simp
qed

text \<open>
  Fact: the text form of an address. Parsing what ip_format_address prints gives the address back,
  and the text fits the buffer of 16 bytes the code requires.
\<close>

theorem ip_address_roundtrip:
  assumes "16 \<le> n"
  shows "ip_parse_address (ip_format_address ip buf n) = Some ip \<and> length (ip_format_address ip buf n) < 16"
proof -
  let ?o = "\<lambda>k. ucast (drop_bit k ip AND 0xFF) :: u8"
  have f: "ip_format_address ip buf n = ip_format_octet (?o 24) @ dot # ip_format_octet (?o 16) @ dot # ip_format_octet (?o 8) @ dot # ip_format_octet (?o 0)"
    using assms by (simp add: ip_format_address_def)
  have "push_bit 8 (push_bit 8 (push_bit 8 (push_bit 8 0 OR ucast (?o 24)) OR ucast (?o 16)) OR ucast (?o 8)) OR ucast (?o 0) = ip" (is "?l = ip")
  proof (rule bit_word_eqI)
    fix n :: nat
    assume "n < LENGTH(32)"
    then have "n < 32" by simp
    then show "bit ?l n \<longleftrightarrow> bit ip n" by (cases rule: byte_of_index) (auto simp: byte_masks bit_simps add.commute)
  qed
  then have "ip_parse_address (ip_format_address ip buf n) = Some ip" unfolding f ip_parse_address_def by (simp add: parse_octet del: parse_octets.simps(2))
  moreover have "length (ip_format_octet b) \<le> 3" for b by (simp add: ip_format_octet_def Let_def)
  from this [of "?o 24"] this [of "?o 16"] this [of "?o 8"] this [of "?o 0"] have "length (ip_format_address ip buf n) \<le> 15"
    unfolding f by simp
  ultimately show ?thesis by simp
qed

theorem ip_address_roundtrip_witness: "ip_parse_address (ip_format_address 0x0A00020F [] 16) = Some 0x0A00020F"
  using ip_address_roundtrip [of 16 "0x0A00020F" "[]"] by simp

end
