(* ===== verification/KIp.thy ===== *)
theory KIp
  imports KArp KIpPkt "HOL-Library.Multiset"
begin

text \<open>
  Sending and receiving IP packets, the functions of src/kernel/drivers/network/protocols/ip.cpp
  with state: addresses, next hop, output with fragmentation, reassembly. With them the parts of
  dhcp.cpp and dns.cpp that they read or set.
\<close>

datatype dhcp_state = DHCP_STATE_IDLE | DHCP_STATE_DISCOVERING | DHCP_STATE_REQUESTING | DHCP_STATE_BOUND | DHCP_STATE_FAILED

record ip_reass_entry =
  re_used :: bool
  re_src :: u32
  re_dest :: u32
  re_id :: u16
  re_proto :: u8
  re_buffer :: "u8 list"
  re_received :: u16
  re_total :: u16
  re_cov :: "u8 list"
  re_deadline :: u32

record ipnet = anet +
  ip_our :: u32
  gateway_ip :: u32
  subnet_mask :: u32
  ip_id_counter :: u16
  reass_table :: "ip_reass_entry list"
  dns_server_ip :: u32
  dhcp_current_state :: dhcp_state
  dhcp_offered_ip :: u32

abbreviation (input) IP_REASS_MAX :: nat where "IP_REASS_MAX \<equiv> 4"
abbreviation (input) IP_REASS_BUF :: nat where "IP_REASS_BUF \<equiv> 8192"
abbreviation (input) IP_REASS_TIMEOUT_MS :: u32 where "IP_REASS_TIMEOUT_MS \<equiv> 3000"
abbreviation (input) NETIF_MTU :: u16 where "NETIF_MTU \<equiv> 1500"

section \<open>Addresses\<close>

definition set_default_nif :: "(netif \<Rightarrow> netif) \<Rightarrow> 'a net_scheme \<Rightarrow> 'a net_scheme" where
  "set_default_nif f n = (case default_netif n of None \<Rightarrow> n | Some i \<Rightarrow> put_nif i (f (nif n i)) n)"

definition ip_set_our_ip :: "u32 \<Rightarrow> 'a ipnet_scheme \<Rightarrow> 'a ipnet_scheme" where
  "ip_set_our_ip ip n =
     (let n = arp_set_our_ip ip (n\<lparr>ip_our := ip\<rparr>)
      in route_update_connected (default_netif n) (set_default_nif (\<lambda>x. x\<lparr>if_ip := ip\<rparr>) n))"

definition ip_get_our_ip :: "'a ipnet_scheme \<Rightarrow> u32" where
  "ip_get_our_ip n = ip_our n"

definition ip_set_gateway :: "u32 \<Rightarrow> 'a ipnet_scheme \<Rightarrow> 'a ipnet_scheme" where
  "ip_set_gateway gw n =
     (let n = n\<lparr>gateway_ip := gw\<rparr> in
      case default_netif n of
        None \<Rightarrow> n
      | Some i \<Rightarrow> route_set_default gw (Some i) (set_default_nif (\<lambda>x. x\<lparr>if_gw := gw\<rparr>) n))"

definition ip_set_subnet_mask :: "u32 \<Rightarrow> 'a ipnet_scheme \<Rightarrow> 'a ipnet_scheme" where
  "ip_set_subnet_mask msk n =
     (let n = n\<lparr>subnet_mask := msk\<rparr>
      in route_update_connected (default_netif n) (set_default_nif (\<lambda>x. x\<lparr>if_mask := msk\<rparr>) n))"

definition network_apply_config :: "u32 \<Rightarrow> u32 \<Rightarrow> u32 \<Rightarrow> u32 \<Rightarrow> 'a ipnet_scheme \<Rightarrow> 'a ipnet_scheme" where
  "network_apply_config ip msk gw dns n =
     (let n = (if ip \<noteq> 0 then ip_set_our_ip ip n else n);
          n = (if msk \<noteq> 0 then ip_set_subnet_mask msk n else n);
          n = (if gw \<noteq> 0 then ip_set_gateway gw n else n)
      in if dns \<noteq> 0 then n\<lparr>dns_server_ip := dns\<rparr> else n)"

definition ip_resolve_next_hop :: "u32 \<Rightarrow> 'a ipnet_scheme \<Rightarrow> u32" where
  "ip_resolve_next_hop dest n =
     (case route_lookup dest n of
        Some (hop, i) \<Rightarrow> hop
      | None \<Rightarrow>
          if dest = 0xFFFFFFFF then dest
          else if ip_our n = 0 then dest
          else if dest AND subnet_mask n = ip_our n AND subnet_mask n then dest
          else if gateway_ip n \<noteq> 0 then gateway_ip n else dest)"

definition dhcp_accepts_dest_ip :: "u32 \<Rightarrow> 'a ipnet_scheme \<Rightarrow> bool" where
  "dhcp_accepts_dest_ip dest n =
     (if dhcp_current_state n = DHCP_STATE_DISCOVERING then True
      else dhcp_current_state n = DHCP_STATE_REQUESTING \<and> dhcp_offered_ip n \<noteq> 0 \<and> dest = dhcp_offered_ip n)"

definition ip_is_local_dest :: "u32 \<Rightarrow> 'a ipnet_scheme \<Rightarrow> bool" where
  "ip_is_local_dest dest n =
     (if dest = 0xFFFFFFFF \<or> dest = 0 then True
      else if ip_our n \<noteq> 0 \<and> dest = ip_our n then True
      else dhcp_accepts_dest_ip dest n)"

section \<open>Output\<close>

definition ip_send_frame :: "('a ipnet_scheme \<Rightarrow> 'a ipnet_scheme) \<Rightarrow> nat option \<Rightarrow> u32 \<Rightarrow> u8 list \<Rightarrow> 'a ipnet_scheme \<Rightarrow> bool \<times> 'a ipnet_scheme" where
  "ip_send_frame poll ifp next_hop pkt n =
     (case (if next_hop = 0xFFFFFFFF then (Some (replicate 6 0xFF), n) else arp_resolve poll next_hop 3000 n) of
        (None, n) \<Rightarrow> (False, n)
      | (Some mac, n) \<Rightarrow>
          (let our = (case ifp of Some i \<Rightarrow> netif_get_mac i n | None \<Rightarrow> nic_get_mac n) in
           if length pkt + ETH_HDR > ETH_HDR + 1600 then (False, n)
           else case ethernet_create_frame (ETH_HDR + 1600) (Some mac) (Some our) ETH_TYPE_IPV4 pkt of
             None \<Rightarrow> (False, n)
           | Some f \<Rightarrow> (case ifp of Some i \<Rightarrow> netif_send (Some i) f n | None \<Rightarrow> nic_send_packet f n)))"

definition ip_send_frame_ttl :: "('a ipnet_scheme \<Rightarrow> 'a ipnet_scheme) \<Rightarrow> nat option \<Rightarrow> u32 \<Rightarrow> u8 list \<Rightarrow> u8 \<Rightarrow> 'a ipnet_scheme \<Rightarrow> bool \<times> 'a ipnet_scheme" where
  "ip_send_frame_ttl poll ifp next_hop pkt t n =
     (let h = (dec_ip pkt)\<lparr>ttl := t, checksum := 0\<rparr>; h = h\<lparr>checksum := htons (ip_checksum (enc_ip h))\<rparr>
      in ip_send_frame poll ifp next_hop (enc_ip h @ drop IP_HDR pkt) n)"

text \<open>The loop over the fragments; max_payload is at least 8 where it is reached.\<close>

function ip_frag_loop :: "('a ipnet_scheme \<Rightarrow> 'a ipnet_scheme) \<Rightarrow> nat option \<Rightarrow> u32 \<Rightarrow> u32 \<Rightarrow> u32 \<Rightarrow> u8 \<Rightarrow> u16 \<Rightarrow> u8 \<Rightarrow> nat \<Rightarrow> u8 list \<Rightarrow> nat \<Rightarrow>
    'a ipnet_scheme \<Rightarrow> bool \<times> 'a ipnet_scheme" where
  "ip_frag_loop poll ifp next_hop src dest proto i t max_payload payload offset n =
     (if length payload \<le> offset \<or> max_payload = 0 then (True, n)
      else let chunk = min (length payload - offset) max_payload;
               flags_frag = of_nat (offset div 8) AND IP_OFFMASK;
               flags_frag = (if offset + chunk < length payload then flags_frag OR IP_FLAG_MF else flags_frag)
        in case ip_create_packet_ex 1600 src dest proto i flags_frag (take chunk (drop offset payload)) of
             None \<Rightarrow> (False, n)
           | Some pkt \<Rightarrow>
               (case ip_send_frame_ttl poll ifp next_hop pkt t n of
                  (False, n) \<Rightarrow> (False, n)
                | (True, n) \<Rightarrow> ip_frag_loop poll ifp next_hop src dest proto i t max_payload payload (offset + chunk) n))"
  by pat_completeness auto

termination
  by (relation "measure (\<lambda>(poll, ifp, hop, src, dest, proto, i, t, mx, payload, offset, n). length payload - offset)") auto

declare ip_frag_loop.simps [simp del]

definition next_ip_id :: "'a ipnet_scheme \<Rightarrow> u16 \<times> 'a ipnet_scheme" where
  "next_ip_id n = (let c = ip_id_counter n + 1 in (ip_id_counter n, n\<lparr>ip_id_counter := (if c = 0 then 1 else c)\<rparr>))"

definition ip_create_packet :: "nat \<Rightarrow> u32 \<Rightarrow> u32 \<Rightarrow> u8 \<Rightarrow> u8 list \<Rightarrow> 'a ipnet_scheme \<Rightarrow> u8 list option \<times> 'a ipnet_scheme" where
  "ip_create_packet buffer_size src dest proto payload n =
     (case next_ip_id n of (i, n) \<Rightarrow> (ip_create_packet_ex buffer_size src dest proto i IP_FLAG_DF payload, n))"

definition ip_output_ex :: "('a ipnet_scheme \<Rightarrow> 'a ipnet_scheme) \<Rightarrow> u32 \<Rightarrow> u8 \<Rightarrow> u8 list \<Rightarrow> u8 \<Rightarrow> 'a ipnet_scheme \<Rightarrow> bool \<times> 'a ipnet_scheme" where
  "ip_output_ex poll dest proto payload t n =
     (let src = ip_our n;
          (next_hop, ifp) = (case route_lookup dest n of Some r \<Rightarrow> r | None \<Rightarrow> (ip_resolve_next_hop dest n, default_netif n));
          mtu = (case ifp of Some i \<Rightarrow> if_mtu (nif n i) | None \<Rightarrow> NETIF_MTU);
          mtu = (if mtu < 576 then 576 else mtu);
          max_payload = (unat mtu - IP_HDR) div 8 * 8
      in if max_payload < 8 then (False, n)
         else case next_ip_id n of
           (i, n) \<Rightarrow>
             if length payload \<le> max_payload then
               (case ip_create_packet_ex 1600 src dest proto i 0 payload of
                  None \<Rightarrow> (False, n)
                | Some pkt \<Rightarrow> ip_send_frame_ttl poll ifp next_hop pkt t n)
             else ip_frag_loop poll ifp next_hop src dest proto i t max_payload payload 0 n)"

definition ip_output :: "('a ipnet_scheme \<Rightarrow> 'a ipnet_scheme) \<Rightarrow> u32 \<Rightarrow> u8 \<Rightarrow> u8 list \<Rightarrow> 'a ipnet_scheme \<Rightarrow> bool \<times> 'a ipnet_scheme" where
  "ip_output poll dest proto payload n = ip_output_ex poll dest proto payload 64 n"

definition ip_output_ttl :: "('a ipnet_scheme \<Rightarrow> 'a ipnet_scheme) \<Rightarrow> u32 \<Rightarrow> u8 \<Rightarrow> u8 list \<Rightarrow> u8 \<Rightarrow> 'a ipnet_scheme \<Rightarrow> bool \<times> 'a ipnet_scheme" where
  "ip_output_ttl poll dest proto payload t n = ip_output_ex poll dest proto payload t n"

section \<open>Reassembly\<close>

definition ip_reassembly_init :: "'a ipnet_scheme \<Rightarrow> 'a ipnet_scheme" where
  "ip_reassembly_init n = n\<lparr>reass_table := map (\<lambda>e. e\<lparr>re_used := False\<rparr>) (reass_table n)\<rparr>"

definition ip_reassembly_gc :: "'a ipnet_scheme \<Rightarrow> 'a ipnet_scheme" where
  "ip_reassembly_gc n =
     n\<lparr>reass_table := map (\<lambda>e. if re_used e \<and> sint (ticks n - re_deadline e) \<ge> 0 then e\<lparr>re_used := False\<rparr> else e) (reass_table n)\<rparr>"

text \<open>ip_input_fragment returns -1, 1, or 0 with the datagram.\<close>

datatype frag_result = NOT_FRAGMENT | INCOMPLETE | COMPLETE ip_header "u8 list"

definition reass_key :: "ip_header \<Rightarrow> ip_reass_entry \<Rightarrow> bool" where
  "reass_key h e \<longleftrightarrow> re_used e \<and> re_src e = src_ip h \<and> re_dest e = dest_ip h \<and> re_id e = ip_id h \<and> re_proto e = protocol h"

definition reass_byte :: "nat \<Rightarrow> u8 \<Rightarrow> ip_reass_entry \<Rightarrow> ip_reass_entry" where
  "reass_byte pos b e =
     (let e = e\<lparr>re_buffer := (re_buffer e)[pos := b]\<rparr>; msk = push_bit (pos mod 8) 1 in
      if re_cov e ! (pos div 8) AND msk = 0
      then e\<lparr>re_cov := (re_cov e)[pos div 8 := re_cov e ! (pos div 8) OR msk], re_received := re_received e + 1\<rparr> else e)"

fun reass_copy :: "nat \<Rightarrow> u8 list \<Rightarrow> ip_reass_entry \<Rightarrow> ip_reass_entry" where
  "reass_copy pos [] e = e"
| "reass_copy pos (b # bs) e = reass_copy (pos + 1) bs (reass_byte pos b e)"

definition reass_slot :: "ip_header \<Rightarrow> 'a ipnet_scheme \<Rightarrow> (nat \<times> ip_reass_entry) option" where
  "reass_slot h n =
     (case find_slot (reass_key h) (reass_table n) of
        Some k \<Rightarrow> Some (k, reass_table n ! k)
      | None \<Rightarrow>
          (case find_slot (\<lambda>e. \<not> re_used e) (reass_table n) of
             None \<Rightarrow> None
           | Some k \<Rightarrow>
               Some (k, (reass_table n ! k)\<lparr>re_used := True, re_src := src_ip h, re_dest := dest_ip h, re_id := ip_id h, re_proto := protocol h,
                 re_received := 0, re_total := 0, re_cov := replicate (IP_REASS_BUF div 8) 0, re_buffer := replicate IP_REASS_BUF 0\<rparr>)))"

definition ip_input_fragment :: "u8 list \<Rightarrow> 'a ipnet_scheme \<Rightarrow> frag_result \<times> 'a ipnet_scheme" where
  "ip_input_fragment packet n =
     (case ip_parse_header packet of
        None \<Rightarrow> (NOT_FRAGMENT, n)
      | Some (h, data) \<Rightarrow>
          (let offset = unat ((flags_fragment h AND IP_OFFMASK) * 8); mf = (flags_fragment h AND IP_FLAG_MF \<noteq> 0) in
           if \<not> mf \<and> offset = 0 then (NOT_FRAGMENT, n)
           else case reass_slot h n of
             None \<Rightarrow> (NOT_FRAGMENT, n)
           | Some (k, e) \<Rightarrow>
               (let e = e\<lparr>re_deadline := ticks n + IP_REASS_TIMEOUT_MS\<rparr> in
                if offset + length data > IP_REASS_BUF then (NOT_FRAGMENT, n\<lparr>reass_table := (reass_table n)[k := e\<lparr>re_used := False\<rparr>]\<rparr>)
                else
                  let e = reass_copy offset data e;
                      e = (if \<not> mf then e\<lparr>re_total := of_nat (offset + length data)\<rparr> else e)
                  in if re_total e = 0 \<or> re_received e < re_total e then (INCOMPLETE, n\<lparr>reass_table := (reass_table n)[k := e]\<rparr>)
                     else (COMPLETE (h\<lparr>flags_fragment := 0\<rparr>) (take (unat (re_total e)) (re_buffer e)),
                           n\<lparr>reass_table := (reass_table n)[k := e\<lparr>re_used := False\<rparr>]\<rparr>))))"

section \<open>A datagram from its fragments\<close>

definition covered :: "ip_reass_entry \<Rightarrow> nat \<Rightarrow> bool" where
  "covered e p = bit (re_cov e ! (p div 8)) (p mod 8)"

text \<open>An entry that holds the bytes of the datagram P at the positions C.\<close>

definition reass_has :: "u8 list \<Rightarrow> nat set \<Rightarrow> ip_reass_entry \<Rightarrow> bool" where
  "reass_has P C e \<longleftrightarrow> length (re_buffer e) = IP_REASS_BUF \<and> length (re_cov e) = IP_REASS_BUF div 8 \<and> length P \<le> IP_REASS_BUF \<and>
     C \<subseteq> {..<length P} \<and> (\<forall>p < IP_REASS_BUF. covered e p \<longleftrightarrow> p \<in> C) \<and> (\<forall>p \<in> C. re_buffer e ! p = P ! p) \<and> unat (re_received e) = card C"

lemma reass_byte_covered:
  assumes "length (re_cov e) = IP_REASS_BUF div 8" and "pos < IP_REASS_BUF" "p < IP_REASS_BUF"
  shows "covered (reass_byte pos b e) p \<longleftrightarrow> p = pos \<or> covered e p"
proof -
  have same: "p div 8 = pos div 8 \<and> p mod 8 = pos mod 8 \<longleftrightarrow> p = pos" by (metis div_mult_mod_eq)
  have zero: "re_cov e ! (pos div 8) AND push_bit (pos mod 8) 1 = 0 \<longleftrightarrow> \<not> covered e pos"
    by (simp add: covered_def push_bit_eq_mult and_exp_eq_0_iff_not_bit)
  have "bit (push_bit (pos mod 8) 1 :: u8) (p mod 8) \<longleftrightarrow> p mod 8 = pos mod 8" by (auto simp: bit_simps)
  then show ?thesis
    using assms same zero by (cases "p div 8 = pos div 8") (auto simp: reass_byte_def Let_def covered_def bit_or_iff)
qed

lemma reass_byte_has:
  assumes "reass_has P C e" and "pos < length P"
  shows "reass_has P (insert pos C) (reass_byte pos (P ! pos) e)"
proof -
  have e: "length (re_buffer e) = IP_REASS_BUF" "length (re_cov e) = IP_REASS_BUF div 8" "length P \<le> IP_REASS_BUF" "C \<subseteq> {..<length P}"
    "\<forall>p < IP_REASS_BUF. covered e p \<longleftrightarrow> p \<in> C" "unat (re_received e) = card C" "\<forall>q \<in> C. re_buffer e ! q = P ! q"
    using assms(1) unfolding reass_has_def by blast+
  have f: "finite C" and c: "card C \<le> IP_REASS_BUF"
    using e(3,4) finite_subset [OF e(4)] card_mono [OF _ e(4)] by simp_all
  have zero: "re_cov e ! (pos div 8) AND push_bit (pos mod 8) 1 = 0 \<longleftrightarrow> pos \<notin> C"
    using e(3,5) assms(2) by (simp add: covered_def push_bit_eq_mult and_exp_eq_0_iff_not_bit)
  have "unat (re_received (reass_byte pos (P ! pos) e)) = card (insert pos C)"
    using zero e(6) f c by (auto simp: reass_byte_def Let_def insert_absorb unat_inc)
  moreover have "re_buffer (reass_byte pos (P ! pos) e) = (re_buffer e)[pos := P ! pos]" "length (re_cov (reass_byte pos (P ! pos) e)) = IP_REASS_BUF div 8"
    using e(2) by (simp_all add: reass_byte_def Let_def)
  ultimately show ?thesis
    unfolding reass_has_def using e reass_byte_covered [of e pos] assms(2) by (auto simp: nth_list_update)
qed

lemma reass_copy_has:
  "off + len \<le> length P \<Longrightarrow> reass_has P C e \<Longrightarrow> reass_has P (C \<union> {off..<off + len}) (reass_copy off (take len (drop off P)) e)"
proof (induction len arbitrary: off C e)
  case (Suc len)
  have "take (Suc len) (drop off P) = P ! off # take len (drop (Suc off) P)" using Suc.prems(1) by (simp flip: Cons_nth_drop_Suc)
  moreover have "reass_has P (insert off C) (reass_byte off (P ! off) e)" using Suc.prems by (intro reass_byte_has) simp_all
  moreover have "insert off C \<union> {Suc off..<Suc off + len} = C \<union> {off..<off + Suc len}" by auto
  ultimately show ?case using Suc.IH [of "Suc off" "insert off C" "reass_byte off (P ! off) e"] Suc.prems(1) by simp
qed simp

lemma reass_copy_fields [simp]:
  "re_used (reass_copy p bs e) = re_used e" "re_src (reass_copy p bs e) = re_src e" "re_dest (reass_copy p bs e) = re_dest e"
  "re_id (reass_copy p bs e) = re_id e" "re_proto (reass_copy p bs e) = re_proto e" "re_total (reass_copy p bs e) = re_total e"
  by (induction bs arbitrary: p e) (simp_all add: reass_byte_def Let_def)

text \<open>The flags and the offset of a fragment.\<close>

definition frag_flags :: "nat \<Rightarrow> bool \<Rightarrow> u16" where
  "frag_flags off mf = (let f = of_nat (off div 8) AND IP_OFFMASK in if mf then f OR IP_FLAG_MF else f)"

lemma frag_flags:
  assumes "off < 65536" "off mod 8 = 0"
  shows "unat ((frag_flags off mf AND IP_OFFMASK) * 8) = off" "frag_flags off mf AND IP_FLAG_MF \<noteq> 0 \<longleftrightarrow> mf"
proof -
  have m: "(IP_OFFMASK :: u16) = Bit_Operations.mask 13" by (simp add: mask_eq_exp_minus_1)
  have k: "off div 8 < 2 ^ 13" using assms(1) by simp
  have t: "of_nat (off div 8) AND IP_OFFMASK = (of_nat (off div 8) :: u16)"
    unfolding m using k by (simp only: take_bit_eq_mask [symmetric] take_bit_of_nat) (simp add: take_bit_nat_eq_self)
  have a: "(w AND IP_OFFMASK OR IP_FLAG_MF) AND IP_OFFMASK = w AND IP_OFFMASK" "(w AND IP_OFFMASK) AND IP_OFFMASK = w AND IP_OFFMASK"
    "(w AND IP_OFFMASK OR IP_FLAG_MF) AND IP_FLAG_MF = IP_FLAG_MF" "(w AND IP_OFFMASK) AND IP_FLAG_MF = 0" for w :: u16
    by (simp_all add: bit.conj_disj_distrib2 and.assoc)
  have "frag_flags off mf AND IP_OFFMASK = of_nat (off div 8) AND IP_OFFMASK" by (simp add: frag_flags_def Let_def a)
  then have "frag_flags off mf AND IP_OFFMASK = of_nat (off div 8)" using t by simp
  then show "unat ((frag_flags off mf AND IP_OFFMASK) * 8) = off" using assms div_mult_mod_eq [of off 8] by (simp add: unat_word_ariths unat_of_nat)
  show "frag_flags off mf AND IP_FLAG_MF \<noteq> 0 \<longleftrightarrow> mf" by (simp add: frag_flags_def Let_def a)
qed

text \<open>A packet that carries the bytes of the datagram P from off on, under the key of a header.\<close>

definition same_key :: "ip_header \<Rightarrow> ip_header \<Rightarrow> bool" where
  "same_key h h' \<longleftrightarrow> src_ip h' = src_ip h \<and> dest_ip h' = dest_ip h \<and> ip_id h' = ip_id h \<and> protocol h' = protocol h"

definition fragment_of :: "ip_header \<Rightarrow> u8 list \<Rightarrow> nat \<times> nat \<times> u8 list \<Rightarrow> bool" where
  "fragment_of h P = (\<lambda>(off, len, pk). off mod 8 = 0 \<and> 0 < len \<and> off + len \<le> length P \<and> \<not> (off = 0 \<and> len = length P) \<and>
     (\<exists>h'. ip_parse_header pk = Some (h', take len (drop off P)) \<and> same_key h h' \<and> flags_fragment h' = frag_flags off (off + len < length P)))"

text \<open>The bytes C of the datagram are in the table; none of them if the datagram is new.\<close>

definition pending :: "ip_header \<Rightarrow> u8 list \<Rightarrow> nat set \<Rightarrow> 'a ipnet_scheme \<Rightarrow> bool" where
  "pending h P C n \<longleftrightarrow>
     (case find_slot (reass_key h) (reass_table n) of
        None \<Rightarrow> C = {} \<and> find_slot (\<lambda>e. \<not> re_used e) (reass_table n) \<noteq> None
      | Some k \<Rightarrow> reass_has P C (reass_table n ! k) \<and> re_total (reass_table n ! k) = (if length P - 1 \<in> C then of_nat (length P) else 0))"

lemma reass_key_same: "same_key h h' \<Longrightarrow> reass_key h' = reass_key h"
  by (auto simp: same_key_def reass_key_def fun_eq_iff)

lemma pending_slot:
  assumes "pending h P C n" and "same_key h h'" and "length P \<le> IP_REASS_BUF"
  obtains k e where "reass_slot h' n = Some (k, e)" "k < length (reass_table n)" "reass_has P C e" "reass_key h e"
    "re_total e = (if length P - 1 \<in> C then of_nat (length P) else 0)" "find_slot (reass_key h) (reass_table n) = None \<or> find_slot (reass_key h) (reass_table n) = Some k"
proof (cases "find_slot (reass_key h) (reass_table n)")
  case None
  then obtain k where k: "C = {}" "find_slot (\<lambda>e. \<not> re_used e) (reass_table n) = Some k" using assms(1) by (auto simp: pending_def)
  let ?e = "(reass_table n ! k)\<lparr>re_used := True, re_src := src_ip h', re_dest := dest_ip h', re_id := ip_id h', re_proto := protocol h',
    re_received := 0, re_total := 0, re_cov := replicate (IP_REASS_BUF div 8) 0, re_buffer := replicate IP_REASS_BUF 0\<rparr>"
  have "reass_has P C ?e" using assms(3) k(1) by (auto simp: reass_has_def covered_def less_mult_imp_div_less)
  moreover have "reass_key h ?e" using assms(2) by (auto simp: reass_key_def same_key_def)
  ultimately show thesis
    using that [of k ?e] None k assms(2) by (simp add: reass_slot_def reass_key_same find_slot_SomeD(1))
next
  case (Some k)
  then show thesis
    using that [of k "reass_table n ! k"] assms(1,2) by (auto simp: reass_slot_def reass_key_same pending_def dest: find_slot_SomeD)
qed

lemma find_slot_put:
  assumes "k < length xs" and "find_slot P xs = None \<or> find_slot P xs = Some k" and "P y"
  shows "find_slot P (xs[k := y]) = Some k"
  using assms find_slot_update_same [of k xs P y] find_slot_update_new [of k xs P y] find_slot_SomeD(2) [of P xs k] by auto

lemma input_copies:
  assumes "ip_parse_header pk = Some (h', data)" and "flags_fragment h' = frag_flags off mf" "off < 65536" "off mod 8 = 0" and "mf \<or> off \<noteq> 0"
    and "reass_slot h' n = Some (k, e)" and "off + length data \<le> IP_REASS_BUF"
    and "e1 = reass_copy off data (e\<lparr>re_deadline := ticks n + IP_REASS_TIMEOUT_MS\<rparr>)"
    and "e' = (if \<not> mf then e1\<lparr>re_total := of_nat (off + length data)\<rparr> else e1)"
  shows "ip_input_fragment pk n = (if re_total e' = 0 \<or> re_received e' < re_total e' then (INCOMPLETE, n\<lparr>reass_table := (reass_table n)[k := e']\<rparr>)
      else (COMPLETE (h'\<lparr>flags_fragment := 0\<rparr>) (take (unat (re_total e')) (re_buffer e')), n\<lparr>reass_table := (reass_table n)[k := e'\<lparr>re_used := False\<rparr>]\<rparr>))"
proof -
  have fl: "unat ((flags_fragment h' AND IP_OFFMASK) * 8) = off" "flags_fragment h' AND IP_FLAG_MF \<noteq> 0 \<longleftrightarrow> mf"
    using frag_flags [of off mf] assms(2-4) by simp_all
  show ?thesis
    unfolding ip_input_fragment_def assms(1) option.case prod.case Let_def fl assms(6) using assms(5,7) by (cases mf) (simp_all add: assms(8,9))
qed

lemma input_step:
  assumes "pending h P C n" and "fragment_of h P (off, len, pk)" and "length P \<le> IP_REASS_BUF"
  defines "C' \<equiv> C \<union> {off..<off + len}"
  shows "C' \<noteq> {..<length P} \<Longrightarrow> \<exists>n'. ip_input_fragment pk n = (INCOMPLETE, n') \<and> pending h P C' n'"
    "C' = {..<length P} \<Longrightarrow> \<exists>h' n'. ip_input_fragment pk n = (COMPLETE h' P, n') \<and> same_key h h'"
proof -
  obtain h' where h': "ip_parse_header pk = Some (h', take len (drop off P))" "same_key h h'" "flags_fragment h' = frag_flags off (off + len < length P)"
    and f: "off mod 8 = 0" "0 < len" "off + len \<le> length P" "\<not> (off = 0 \<and> len = length P)"
    using assms(2) by (auto simp: fragment_of_def)
  obtain k e where e: "reass_slot h' n = Some (k, e)" "k < length (reass_table n)" "reass_has P C e" "reass_key h e"
    "re_total e = (if length P - 1 \<in> C then of_nat (length P) else 0)" "find_slot (reass_key h) (reass_table n) = None \<or> find_slot (reass_key h) (reass_table n) = Some k"
    by (rule pending_slot [OF assms(1) h'(2) assms(3)])
  define mf where "mf \<longleftrightarrow> off + len < length P"
  let ?e1 = "reass_copy off (take len (drop off P)) (e\<lparr>re_deadline := ticks n + IP_REASS_TIMEOUT_MS\<rparr>)"
  define e' where "e' = (if \<not> mf then ?e1\<lparr>re_total := of_nat (off + len)\<rparr> else ?e1)"
  have "reass_has P C (e\<lparr>re_deadline := ticks n + IP_REASS_TIMEOUT_MS\<rparr>)" using e(3) by (simp add: reass_has_def covered_def)
  from reass_copy_has [OF f(3) this] have "reass_has P C' ?e1" by (simp add: C'_def)
  then have has: "reass_has P C' e'" by (simp add: e'_def reass_has_def covered_def)
  have tot: "re_total e' = (if length P - 1 \<in> C' then of_nat (length P) else 0)"
    using f e(5) by (auto simp: e'_def mf_def C'_def)
  have key: "reass_key h e'" using e(4) by (simp add: e'_def reass_key_def)
  have fin: "C' \<subseteq> {..<length P}" "unat (re_received e') = card C'" using has by (simp_all add: reass_has_def)
  have L: "length P - 1 < length P" "length P < 2 ^ 16" using f assms(3) by simp_all
  have not_full: "re_total e' = 0 \<or> re_received e' < re_total e' \<longleftrightarrow> C' \<noteq> {..<length P}"
  proof (cases "length P - 1 \<in> C'")
    case True
    have "re_received e' < re_total e' \<longleftrightarrow> card C' < length P" "re_total e' \<noteq> 0"
      using True tot fin(2) unat_of_nat16 [OF L(2)] L(1) by (auto simp: word_less_nat_alt simp flip: unat_eq_0)
    then show ?thesis using fin(1) psubset_card_mono [of "{..<length P}" C'] by (auto simp: psubset_eq)
  next
    case False
    then show ?thesis using tot L(1) by auto
  qed
  have r: "ip_input_fragment pk n = (if re_total e' = 0 \<or> re_received e' < re_total e' then (INCOMPLETE, n\<lparr>reass_table := (reass_table n)[k := e']\<rparr>)
      else (COMPLETE (h'\<lparr>flags_fragment := 0\<rparr>) (take (unat (re_total e')) (re_buffer e')), n\<lparr>reass_table := (reass_table n)[k := e'\<lparr>re_used := False\<rparr>]\<rparr>))"
    using f assms(3) by (intro input_copies [OF h'(1,3) _ _ _ e(1) _ refl]) (auto simp: e'_def mf_def min_absorb2)
  show "\<exists>n'. ip_input_fragment pk n = (INCOMPLETE, n') \<and> pending h P C' n'" if "C' \<noteq> {..<length P}"
    using that r not_full find_slot_put [OF e(2,6) key] has tot e(2) by (auto simp: pending_def)
  show "\<exists>h' n'. ip_input_fragment pk n = (COMPLETE h' P, n') \<and> same_key h h'" if c: "C' = {..<length P}"
  proof -
    have "length P - 1 \<in> C'" using L(1) c by simp
    then have "unat (re_total e') = length P" using tot unat_of_nat16 [OF L(2)] by simp
    moreover have "take (length P) (re_buffer e') = P" using has c by (intro nth_equalityI) (auto simp: reass_has_def)
    moreover have "same_key h (h'\<lparr>flags_fragment := 0\<rparr>)" using h'(2) by (simp add: same_key_def)
    ultimately show ?thesis using r not_full c by auto
  qed
qed

text \<open>Receiving packets one after the other.\<close>

fun receive :: "u8 list list \<Rightarrow> 'a ipnet_scheme \<Rightarrow> frag_result list \<times> 'a ipnet_scheme" where
  "receive [] n = ([], n)"
| "receive (pk # pks) n = (case ip_input_fragment pk n of (r, n) \<Rightarrow> (case receive pks n of (rs, n) \<Rightarrow> (r # rs, n)))"

text \<open>How many fragments of a list carry a byte.\<close>

definition carriers :: "(nat \<times> nat \<times> u8 list) list \<Rightarrow> nat \<Rightarrow> nat" where
  "carriers fs x = length (filter (\<lambda>(off, len, pk). off \<le> x \<and> x < off + len) fs)"

lemma carriers_perm: "mset fs = mset gs \<Longrightarrow> carriers fs = carriers gs"
  by (auto simp: carriers_def fun_eq_iff intro!: mset_eq_length)

lemma receive_fragments:
  assumes "pending h P C n" and "length P \<le> IP_REASS_BUF" and "list_all (fragment_of h P) fs" and "fs \<noteq> []"
    and "\<forall>x < length P. carriers fs x = (if x \<in> C then 0 else 1)" and "C \<subseteq> {..<length P}"
  shows "\<exists>h' n'. receive (map (\<lambda>(off, len, pk). pk) fs) n = (replicate (length fs - 1) INCOMPLETE @ [COMPLETE h' P], n') \<and> same_key h h'"
  using assms
proof (induction fs arbitrary: C n)
  case (Cons f fs)
  obtain off len pk where f: "f = (off, len, pk)" by (cases f)
  let ?C = "C \<union> {off..<off + len}"
  have fr: "fragment_of h P (off, len, pk)" "0 < len" "off + len \<le> length P" using Cons.prems(3) f by (simp_all add: fragment_of_def)
  have sub: "{off..<off + len} \<subseteq> {..<length P}" using fr(3) by auto
  note step = input_step [OF Cons.prems(1) fr(1) Cons.prems(2)]
  have rest: "carriers fs x = (if x \<in> ?C then 0 else 1)" if "x < length P" for x
  proof -
    have "carriers (f # fs) x = (if off \<le> x \<and> x < off + len then 1 else 0) + carriers fs x" by (simp add: carriers_def f)
    moreover have "carriers (f # fs) x = (if x \<in> C then 0 else 1)" using Cons.prems(5) that by blast
    ultimately have "(if off \<le> x \<and> x < off + len then 1 else 0) + carriers fs x = (if x \<in> C then 0 else 1)" by (simp only:)
    then show ?thesis by (cases "x \<in> C"; cases "off \<le> x \<and> x < off + len") simp_all
  qed
  show ?case
  proof (cases "fs = []")
    case True
    then have "x \<in> ?C" if "x < length P" for x using rest [OF that] by (auto simp: carriers_def split: if_splits)
    then have "{..<length P} \<subseteq> ?C" by blast
    moreover have "?C \<subseteq> {..<length P}" using Cons.prems(6) fr(3) by (auto dest: subsetD)
    ultimately have "?C = {..<length P}" by (rule equalityI [rotated])
    from step(2) [OF this] show ?thesis using f True by auto
  next
    case False
    obtain o' l' p' where g: "(o', l', p') \<in> set fs" using False by (cases fs) auto
    then have l: "0 < l'" "o' + l' \<le> length P" using Cons.prems(3) by (auto simp: list_all_iff fragment_of_def)
    then have "(o', l', p') \<in> set (filter (\<lambda>(off, len, pk). off \<le> o' \<and> o' < off + len) fs)" using g by simp
    then have "0 < carriers fs o'" unfolding carriers_def by (rule length_pos_if_in_set)
    moreover have "o' < length P" using l by simp
    moreover note rest [OF this]
    ultimately have "?C \<noteq> {..<length P}" by (metis lessThan_iff less_numeral_extra(3))
    from step(1) [OF this] obtain n' where n': "ip_input_fragment pk n = (INCOMPLETE, n')" "pending h P ?C n'" by blast
    have "\<exists>h' m. receive (map (\<lambda>(off, len, pk). pk) fs) n' = (replicate (length fs - 1) INCOMPLETE @ [COMPLETE h' P], m) \<and> same_key h h'"
      using Cons.prems(2,3,6) rest sub False by (intro Cons.IH [OF n'(2)]) simp_all
    moreover have "length fs = Suc (length fs - 1)" using False by simp
    ultimately show ?thesis using n'(1) f by (auto simp flip: replicate_Suc)
  qed
qed simp

section \<open>The fragments a host sends\<close>

function chunks :: "nat \<Rightarrow> nat \<Rightarrow> nat \<Rightarrow> (nat \<times> nat) list" where
  "chunks mx off L = (if L \<le> off \<or> mx = 0 then [] else (off, min (L - off) mx) # chunks mx (off + min (L - off) mx) L)"
  by pat_completeness auto

termination by (relation "measure (\<lambda>(mx, off, L). L - off)") auto

declare chunks.simps [simp del]

lemma chunks_bounds:
  "(o', l) \<in> set (chunks mx off L) \<Longrightarrow> 8 dvd mx \<Longrightarrow> 8 dvd off \<Longrightarrow> 8 dvd o' \<and> 0 < l \<and> l \<le> mx \<and> o' + l \<le> L"
proof (induction mx off L rule: chunks.induct)
  case (1 mx off L)
  show ?case
  proof (cases "L \<le> off \<or> mx = 0")
    case True
    then show ?thesis using 1(2) by (simp add: chunks.simps [of mx off L])
  next
    case False
    show ?thesis
    proof (cases "(o', l) = (off, min (L - off) mx)")
      case True
      then show ?thesis using False 1(4) by auto
    next
      case other: False
      then have m: "(o', l) \<in> set (chunks mx (off + min (L - off) mx) L)" using 1(2) False by (auto simp: chunks.simps [of mx off L])
      show ?thesis
      proof (cases "L - off \<le> mx")
        case True
        then show ?thesis using m False by (simp add: chunks.simps [of mx "off + (L - off)" L] min_absorb1)
      next
        case big: False
        then show ?thesis using 1(1) [OF False m 1(3)] 1(3,4) by simp
      qed
    qed
  qed
qed

definition chunk_carriers :: "(nat \<times> nat) list \<Rightarrow> nat \<Rightarrow> nat" where
  "chunk_carriers cs x = length (filter (\<lambda>(off, len). off \<le> x \<and> x < off + len) cs)"

lemma chunks_carriers: "0 < mx \<Longrightarrow> chunk_carriers (chunks mx off L) x = (if off \<le> x \<and> x < L then 1 else 0)"
proof (induction mx off L rule: chunks.induct)
  case (1 mx off L)
  show ?case
  proof (cases "L \<le> off")
    case True
    then show ?thesis by (simp add: chunks.simps [of mx off L] chunk_carriers_def)
  next
    case False
    define c where "c = min (L - off) mx"
    have "chunk_carriers (chunks mx (off + c) L) x = (if off + c \<le> x \<and> x < L then 1 else 0)" using 1 False by (simp add: c_def)
    moreover have "0 < c" "off + c \<le> L" using False 1(2) by (auto simp: c_def)
    moreover have "chunks mx off L = (off, c) # chunks mx (off + c) L" using False 1(2) by (simp add: chunks.simps [of mx off L] c_def)
    moreover have "chunk_carriers ((off, c) # cs) x = (if off \<le> x \<and> x < off + c then 1 else 0) + chunk_carriers cs x" for cs
      by (simp add: chunk_carriers_def)
    ultimately show ?thesis by auto
  qed
qed

lemma map_perm:
  assumes "mset (map f xs) = mset ys"
  obtains xs' where "mset xs' = mset xs" "map f xs' = ys"
  using assms
proof (induction ys arbitrary: xs thesis)
  case (Cons y ys)
  then have "y \<in> set (map f xs)" by (metis list.set_intros(1) set_mset_mset)
  then obtain a x b where x: "xs = a @ x # b" "f x = y" by (auto simp: split_list dest!: split_list)
  then have "mset (map f (a @ b)) = mset ys" using Cons.prems(2) by simp
  then obtain xs' where "mset xs' = mset (a @ b)" "map f xs' = ys" using Cons.IH by blast
  then show ?case using Cons.prems(1) [of "x # xs'"] x by simp
qed simp

definition frame_payload :: "u8 list \<Rightarrow> u8 list" where
  "frame_payload f = (case ethernet_parse_header f of None \<Rightarrow> [] | Some (h, p) \<Rightarrow> p)"

definition out_ready :: "nat \<Rightarrow> u32 \<Rightarrow> u8 list \<Rightarrow> 'a ipnet_scheme \<Rightarrow> bool" where
  "out_ready i hop mac n \<longleftrightarrow> netif_ready i n \<and> length (if_mac (nif n i)) = 6 \<and> length mac = 6 \<and> hop \<noteq> 0xFFFFFFFF \<and> arp_answer hop n = Some mac"

lemma out_ready_sent [simp]: "out_ready i hop mac (if_sent j f n) = out_ready i hop mac n"
  by (simp add: out_ready_def)

lemma arp_get_known: "arp_answer ip n = Some mac \<Longrightarrow> arp_get_mac ip n = (Some mac, n)"
  by (auto simp: arp_answer_def arp_get_mac_def Let_def split: option.splits if_splits)

lemma arp_answer_id [simp]: "arp_answer ip (n\<lparr>ip_id_counter := c\<rparr>) = arp_answer ip n"
  by (simp add: arp_answer_def arp_get_mac_def arp_find_def Let_def split: option.splits)

lemma ip_send_frame_ready:
  assumes "out_ready i hop mac n" and "length pkt \<le> 1600"
  obtains f where "ip_send_frame poll (Some i) hop pkt n = (True, if_sent i f n)" "frame_payload f = pkt"
proof -
  have o: "netif_ready i n" "length (if_mac (nif n i)) = 6" "length mac = 6" "hop \<noteq> 0xFFFFFFFF" "arp_answer hop n = Some mac"
    using assms(1) by (simp_all add: out_ready_def)
  obtain f where f: "ethernet_create_frame (ETH_HDR + 1600) (Some mac) (Some (if_mac (nif n i))) ETH_TYPE_IPV4 pkt = Some f"
    "length f = ETH_HDR + length pkt" "ethernet_parse_header f = Some (\<lparr>dest_mac = mac, src_mac = if_mac (nif n i), eth_type = htons ETH_TYPE_IPV4\<rparr>, pkt)"
    using ethernet_roundtrip [OF o(3,2), of pkt "ETH_HDR + 1600" ETH_TYPE_IPV4] assms(2) by auto
  have "f \<noteq> []" using f(2) by auto
  then have "netif_send (Some i) f n = (True, if_sent i f n)" using o(1) by (intro netif_send_ready)
  then have "ip_send_frame poll (Some i) hop pkt n = (True, if_sent i f n)"
    using o(4) arp_get_known [OF o(5)] f(1) assms(2) by (simp add: ip_send_frame_def arp_resolve_def netif_get_mac_def)
  then show thesis using that f(3) by (simp add: frame_payload_def)
qed

text \<open>The packet that carries a chunk of the payload.\<close>

definition frag_header :: "u32 \<Rightarrow> u32 \<Rightarrow> u8 \<Rightarrow> u16 \<Rightarrow> u8 \<Rightarrow> u8 list \<Rightarrow> nat \<Rightarrow> nat \<Rightarrow> ip_header" where
  "frag_header src dest proto i t P off len = \<lparr>version_ihl = 0x45, tos = 0, total_length = htons (of_nat (IP_HDR + len)), ip_id = htons i,
     flags_fragment = htons (frag_flags off (off + len < length P)), ttl = t, protocol = proto, checksum = 0, src_ip = htonl src, dest_ip = htonl dest\<rparr>"

definition frag_packet :: "u32 \<Rightarrow> u32 \<Rightarrow> u8 \<Rightarrow> u16 \<Rightarrow> u8 \<Rightarrow> u8 list \<Rightarrow> nat \<times> nat \<Rightarrow> u8 list" where
  "frag_packet src dest proto i t P = (\<lambda>(off, len). enc_ip (seal (frag_header src dest proto i t P off len)) @ take len (drop off P))"

lemma ip_send_frame_ttl_sealed:
  "ip_send_frame_ttl poll ifp hop (enc_ip (seal h) @ p) t n = ip_send_frame poll ifp hop (enc_ip (seal (h\<lparr>ttl := t\<rparr>)) @ p) n"
proof -
  have "drop IP_HDR (enc_ip (seal h) @ p) = p" using dec_enc_ip(2) [of "seal h"] by simp
  then show ?thesis by (simp add: ip_send_frame_ttl_def dec_enc_ip Let_def) (simp add: seal_def)
qed

lemma ip_frag_loop_sends:
  assumes "out_ready i hop mac n" and "mx \<le> 1580"
  shows "\<exists>n' fs. ip_frag_loop poll (Some i) hop src dest proto d t mx P off n = (True, n') \<and> wire n' = wire n @ fs \<and>
    map frame_payload fs = map (frag_packet src dest proto d t P) (chunks mx off (length P))"
  using assms
proof (induction "length P - off" arbitrary: off n rule: less_induct)
  case less
  show ?case
  proof (cases "length P \<le> off \<or> mx = 0")
    case True
    then show ?thesis by (auto simp: ip_frag_loop.simps [of poll] chunks.simps)
  next
    case False
    define c where "c = min (length P - off) mx"
    have c: "0 < c" "c \<le> 1580" "off + c \<le> length P" using False less.prems(2) by (auto simp: c_def)
    let ?h = "frag_header src dest proto d 64 P off c" and ?p = "take c (drop off P)"
    have pk: "ip_create_packet_ex 1600 src dest proto d (frag_flags off (off + c < length P)) ?p = Some (enc_ip (seal ?h) @ ?p)"
      using create_is_sealed [of ?p 1600] c by (simp add: frag_header_def min_absorb2)
    have h: "?h\<lparr>ttl := t\<rparr> = frag_header src dest proto d t P off c" by (simp add: frag_header_def)
    have "length (frag_packet src dest proto d t P (off, c)) \<le> 1600" using c dec_enc_ip(2) by (simp add: frag_packet_def)
    then obtain f where f: "ip_send_frame poll (Some i) hop (frag_packet src dest proto d t P (off, c)) n = (True, if_sent i f n)"
      "frame_payload f = frag_packet src dest proto d t P (off, c)" using ip_send_frame_ready [OF less.prems(1)] by blast
    have "ip_send_frame_ttl poll (Some i) hop (enc_ip (seal ?h) @ ?p) t n = (True, if_sent i f n)"
      using f(1) by (simp add: ip_send_frame_ttl_sealed h) (simp add: frag_packet_def)
    then have "ip_frag_loop poll (Some i) hop src dest proto d t mx P off n = ip_frag_loop poll (Some i) hop src dest proto d t mx P (off + c) (if_sent i f n)"
      using False pk by (subst ip_frag_loop.simps) (simp add: Let_def frag_flags_def flip: c_def)
    moreover have "length P - (off + c) < length P - off" using c by linarith
    then obtain n' fs where "ip_frag_loop poll (Some i) hop src dest proto d t mx P (off + c) (if_sent i f n) = (True, n')"
      "wire n' = wire (if_sent i f n) @ fs" "map frame_payload fs = map (frag_packet src dest proto d t P) (chunks mx (off + c) (length P))"
      using less.hyps [of "off + c" "if_sent i f n"] less.prems by auto
    moreover have "chunks mx off (length P) = (off, c) # chunks mx (off + c) (length P)" using False by (simp add: chunks.simps [of mx off] c_def)
    ultimately show ?thesis using f(2) by (intro exI [of _ n'] exI [of _ "f # fs"]) simp
  qed
qed

lemma frag_packet_fragment:
  assumes "8 dvd off" "0 < len" "off + len \<le> length P" "\<not> (off = 0 \<and> len = length P)" and "length P \<le> IP_REASS_BUF"
  shows "fragment_of (host_order (seal (frag_header src dest proto d t P 0 0))) P (off, len, frag_packet src dest proto d t P (off, len))"
proof -
  let ?h = "frag_header src dest proto d t P off len"
  have "ip_parse_header (enc_ip (seal ?h) @ take len (drop off P)) = Some (host_order (seal ?h), take len (drop off P))"
    using assms by (intro parse_sealed) (simp_all add: frag_header_def)
  then show ?thesis
    using assms by (auto simp: fragment_of_def frag_packet_def same_key_def host_order_def seal_def frag_header_def)
qed

definition max_payload_of :: "nat \<Rightarrow> 'a ipnet_scheme \<Rightarrow> nat" where
  "max_payload_of i n = (unat (if if_mtu (nif n i) < 576 then 576 else if_mtu (nif n i)) - IP_HDR) div 8 * 8"

lemma max_payload_bounds: "if_mtu (nif n i) \<le> 1500 \<Longrightarrow> 552 \<le> max_payload_of i n \<and> max_payload_of i n \<le> 1580 \<and> 8 dvd max_payload_of i n"
proof -
  assume m: "if_mtu (nif n i) \<le> 1500"
  define u where "u = unat (if if_mtu (nif n i) < 576 then 576 else if_mtu (nif n i))"
  have "576 \<le> u" "u \<le> 1500" using m by (simp_all add: u_def word_le_nat_alt word_less_nat_alt)
  then have "69 \<le> (u - 20) div 8" "(u - 20) div 8 * 8 \<le> u - 20" using div_le_mono [of 556 "u - 20" 8] by simp_all
  then show ?thesis using \<open>u \<le> 1500\<close> by (simp only: max_payload_of_def u_def [symmetric]) simp
qed

lemma ip_output_fragments:
  assumes "route_lookup dest n = Some (hop, Some i)" and "out_ready i hop mac n" and "if_mtu (nif n i) \<le> 1500" and "max_payload_of i n < length P"
  obtains n' fs where "ip_output poll dest proto P n = (True, n')" "wire n' = wire n @ fs"
    "map frame_payload fs = map (frag_packet (ip_our n) dest proto (ip_id_counter n) 64 P) (chunks (max_payload_of i n) 0 (length P))"
proof -
  define mx where "mx = max_payload_of i n"
  have mx: "552 \<le> mx" "mx \<le> 1580" using max_payload_bounds [OF assms(3)] by (simp_all add: mx_def)
  define n1 where "n1 = snd (next_ip_id n)"
  have n1: "out_ready i hop mac n1" "wire n1 = wire n"
    using assms(2) by (simp_all add: n1_def next_ip_id_def Let_def out_ready_def netif_ready_def)
  have id: "next_ip_id n = (ip_id_counter n, n1)" by (simp add: n1_def next_ip_id_def Let_def)
  obtain n2 fs where fs: "ip_frag_loop poll (Some i) hop (ip_our n) dest proto (ip_id_counter n) 64 mx P 0 n1 = (True, n2)" "wire n2 = wire n1 @ fs"
    "map frame_payload fs = map (frag_packet (ip_our n) dest proto (ip_id_counter n) 64 P) (chunks mx 0 (length P))"
    using ip_frag_loop_sends [OF n1(1) mx(2)] by blast
  have "ip_output poll dest proto P n = (True, n2)"
    unfolding ip_output_def ip_output_ex_def Let_def assms(1) option.case prod.case id max_payload_of_def [symmetric] mx_def [symmetric]
    using fs(1) assms(4) mx(1) by (simp add: mx_def)
  then show thesis using that fs(2,3) n1(2) by (simp add: mx_def)
qed

lemma fragments_any_order:
  assumes "pending h P {} m" and "length P \<le> IP_REASS_BUF" and "8 dvd mx" "0 < mx" "mx < length P" and "mset pks = mset (map pk (chunks mx 0 (length P)))"
    and "\<And>off len. 8 dvd off \<Longrightarrow> 0 < len \<Longrightarrow> off + len \<le> length P \<Longrightarrow> \<not> (off = 0 \<and> len = length P) \<Longrightarrow> fragment_of h P (off, len, pk (off, len))"
  shows "\<exists>h' m'. receive pks m = (replicate (length pks - 1) INCOMPLETE @ [COMPLETE h' P], m') \<and> same_key h h'"
proof -
  let ?cs = "chunks mx 0 (length P)" and ?t = "\<lambda>c. (fst c, snd c, pk c)"
  have "fragment_of h P (off, len, pk (off, len))" if "(off, len) \<in> set ?cs" for off len
    using chunks_bounds [OF that assms(3)] assms(5) by (intro assms(7)) auto
  then have frag: "list_all (fragment_of h P) (map ?t ?cs)" by (auto simp: list_all_iff)
  have car: "carriers (map ?t ?cs) x = (if x < length P then 1 else 0)" for x
  proof -
    have "carriers (map ?t ?cs) x = chunk_carriers ?cs x" by (simp add: carriers_def chunk_carriers_def filter_map comp_def case_prod_unfold)
    then show ?thesis using chunks_carriers [of mx 0 "length P" x] assms(4) by simp
  qed
  have "mset (map (\<lambda>(off, len, pk). pk) (map ?t ?cs)) = mset pks" using assms(6) by (simp add: comp_def case_prod_beta)
  then obtain ts where ts: "mset ts = mset (map ?t ?cs)" "map (\<lambda>(off, len, pk). pk) ts = pks" by (rule map_perm)
  have "list_all (fragment_of h P) ts" using frag mset_eq_setD [OF ts(1)] by (simp add: list_all_iff)
  moreover have c: "\<forall>x < length P. carriers ts x = (if x \<in> {} then 0 else 1)" using car carriers_perm [OF ts(1)] by simp
  moreover have "ts \<noteq> []" using c assms(5) by (auto simp: carriers_def dest: spec [of _ 0])
  ultimately have "\<exists>h' n'. receive (map (\<lambda>(off, len, pk). pk) ts) m = (replicate (length ts - 1) INCOMPLETE @ [COMPLETE h' P], n') \<and> same_key h h'"
    by (intro receive_fragments [OF assms(1,2)]) simp_all
  moreover have "length ts = length pks" using ts(2) by (metis length_map)
  ultimately show ?thesis by (simp add: ts(2))
qed

text \<open>
  C30: a datagram survives fragmentation. With a route, a working interface and the hardware
  address of the next hop known, a datagram of up to 8192 bytes that is larger than a packet is
  sent as a number of frames; a host that has a free slot for it and receives the packets of these
  frames in any order waits for more until the last one, and then delivers the datagram with the
  addresses and the protocol it was sent with.
\<close>

theorem ip_fragments_arrive:
  assumes "route_lookup dest n = Some (hop, Some i)" and "out_ready i hop mac n" and "if_mtu (nif n i) \<le> 1500"
    and "max_payload_of i n < length P" and "length P \<le> IP_REASS_BUF" and "ip_output poll dest proto P n = (ok, n')"
    and "list_ex (\<lambda>e. \<not> re_used e) (reass_table m)" and "\<forall>e \<in> set (reass_table m). re_used e \<longrightarrow> re_src e \<noteq> ip_our n"
  shows "ok \<and> (\<exists>fs. wire n' = wire n @ fs \<and> (\<forall>gs. mset gs = mset fs \<longrightarrow>
    (\<exists>h m'. receive (map frame_payload gs) m = (replicate (length gs - 1) INCOMPLETE @ [COMPLETE h P], m') \<and>
      src_ip h = ip_our n \<and> dest_ip h = dest \<and> protocol h = proto)))"
proof -
  let ?pk = "frag_packet (ip_our n) dest proto (ip_id_counter n) 64 P" and ?mx = "max_payload_of i n"
  define h where "h = host_order (seal (frag_header (ip_our n) dest proto (ip_id_counter n) 64 P 0 0))"
  have h: "src_ip h = ip_our n" "dest_ip h = dest" "protocol h = proto" by (simp_all add: h_def host_order_def seal_def frag_header_def)
  have key: "find_slot (reass_key h) (reass_table m) = None" using assms(8) h by (auto simp: find_slot_None reass_key_def)
  have pend: "pending h P {} m" unfolding pending_def key option.case using assms(7) by (simp add: find_slot_None list_ex_iff)
  obtain fs where fs: "ok" "wire n' = wire n @ fs" "map frame_payload fs = map ?pk (chunks ?mx 0 (length P))"
    using ip_output_fragments [OF assms(1-4), of poll proto] assms(6) by auto
  have "\<exists>h' m'. receive (map frame_payload gs) m = (replicate (length gs - 1) INCOMPLETE @ [COMPLETE h' P], m') \<and> same_key h h'"
    if "mset gs = mset fs" for gs
  proof -
    have "mset (map frame_payload gs) = mset (map ?pk (chunks ?mx 0 (length P)))" using that fs(3) by (metis mset_map)
    moreover have "8 dvd ?mx" "0 < ?mx" using max_payload_bounds [OF assms(3)] by simp_all
    moreover have "fragment_of h P (off, len, ?pk (off, len))" if "8 dvd off" "0 < len" "off + len \<le> length P" "\<not> (off = 0 \<and> len = length P)" for off len
      unfolding h_def by (rule frag_packet_fragment [OF that assms(5)])
    ultimately show ?thesis using fragments_any_order [OF pend assms(5) _ _ assms(4), of "map frame_payload gs" ?pk] by simp
  qed
  then show ?thesis using fs(1,2) h by (fastforce simp: same_key_def)
qed

text \<open>
  Fact: reassembly can deliver a datagram with a hole. A fragment behind the end of the datagram counts
  for the bytes received, so a last fragment at offset 8 completes a datagram of 16 bytes
  although no fragment carried its first 8 bytes.
\<close>

theorem ip_reassembly_hole:
  assumes "pending h [] {} m" and "ip_parse_header p1 = Some (h1, a)" "same_key h h1" "flags_fragment h1 = frag_flags 16 True" "length a = 8"
    and "ip_parse_header p2 = Some (h2, b)" "same_key h h2" "flags_fragment h2 = frag_flags 8 False" "length b = 8"
  shows "\<exists>h' d m'. receive [p1, p2] m = ([INCOMPLETE, COMPLETE h' d], m') \<and> length d = 16 \<and> drop 8 d = b"
proof -
  let ?P = "replicate 8 0 @ b @ a" and ?t = "ticks m + IP_REASS_TIMEOUT_MS"
  have pend: "pending h ?P {} m" using assms(1,5,9) by (auto simp: pending_def reass_has_def split: option.splits)
  obtain k e where e: "reass_slot h1 m = Some (k, e)" "k < length (reass_table m)" "reass_has ?P {} e" "reass_key h e" "re_total e = 0"
    "find_slot (reass_key h) (reass_table m) = None \<or> find_slot (reass_key h) (reass_table m) = Some k"
    by (rule pending_slot [OF pend assms(3)]) (use assms in auto)
  let ?e1 = "reass_copy 16 a (e\<lparr>re_deadline := ?t\<rparr>)"
  have d: "reass_has P C (x\<lparr>re_deadline := y\<rparr>) = reass_has P C x" for P C x y by (simp add: reass_has_def covered_def)
  have e1: "reass_has ?P {16..<24} ?e1" using reass_copy_has [of 16 8 ?P "{}" "e\<lparr>re_deadline := ?t\<rparr>"] e(3) assms d by simp
  let ?m1 = "m\<lparr>reass_table := (reass_table m)[k := ?e1]\<rparr>"
  have m1: "ip_input_fragment p1 m = (INCOMPLETE, ?m1)"
    using input_copies [OF assms(2,4) _ _ _ e(1) _ refl refl] assms(5) e(5) by simp
  have k1: "find_slot (reass_key h) (reass_table ?m1) = Some k" using find_slot_put [OF e(2,6), of ?e1] e(4) by (simp add: reass_key_def)
  then have s1: "reass_slot h2 ?m1 = Some (k, ?e1)" using e(2) assms(7) by (simp add: reass_slot_def reass_key_same)
  let ?e2 = "reass_copy 8 b (?e1\<lparr>re_deadline := ?t\<rparr>)"
  have "{16..<24} \<union> {8..<16} = {8..<24::nat}" by auto
  then have e2: "reass_has ?P {8..<24} ?e2" using reass_copy_has [of 8 8 ?P "{16..<24}" "?e1\<lparr>re_deadline := ?t\<rparr>"] e1 assms d by simp
  then have r: "unat (re_received ?e2) = 16" "length (re_buffer ?e2) = IP_REASS_BUF" "\<forall>p \<in> {8..<24}. re_buffer ?e2 ! p = ?P ! p"
    by (simp_all add: reass_has_def)
  have "drop 8 (take 16 (re_buffer ?e2)) = b" using r(2,3) assms(9) by (intro nth_equalityI) (auto simp: nth_append)
  moreover have "\<exists>m'. ip_input_fragment p2 ?m1 = (COMPLETE (h2\<lparr>flags_fragment := 0\<rparr>) (take 16 (re_buffer ?e2)), m')"
    using input_copies [OF assms(6,8) _ _ _ s1 _ refl refl] assms(9) r(1) by (simp add: word_less_nat_alt)
  ultimately show ?thesis using m1 r(2) by auto
qed

text \<open>A host with one route and one known neighbour.\<close>

definition ip_host :: ipnet where
  "ip_host = \<lparr>netifs = [eth0], netif_used = 1, default_netif = Some 0, skb_pool = [], nic_on = True, nic_mac = replicate 6 0, nic_irq = 11,
     nic_hw = NETIF_HW_RTL8139, nic_netif = Some 0, hw_rx = [], hw_rc = \<lambda>_. True, wire = [],
     routes = [\<lparr>r_dest = 0x0A000200, r_mask = 0xFFFFFF00, r_gateway = 0, r_nif = Some 0, r_valid = True\<rparr>],
     arp_table = [\<lparr>ae_ip = 0x0A000202, ae_mac = [0x52, 0x54, 0, 0, 0, 2], ae_valid = True, ae_seen = 0\<rparr>], our_ip_address = 0x0A00020F,
     our_mac_address = replicate 6 0, arp_evict_slot = 0, ticks = 0, waits = 0, arrivals = \<lambda>_. [], ip_our = 0x0A00020F, gateway_ip = 0,
     subnet_mask = 0xFFFFFF00, ip_id_counter = 1, reass_table = replicate IP_REASS_MAX \<lparr>re_used = False, re_src = 0, re_dest = 0, re_id = 0,
       re_proto = 0, re_buffer = replicate IP_REASS_BUF 0, re_received = 0, re_total = 0, re_cov = replicate (IP_REASS_BUF div 8) 0, re_deadline = 0\<rparr>,
     dns_server_ip = 0, dhcp_current_state = DHCP_STATE_BOUND, dhcp_offered_ip = 0\<rparr>"

lemma ip_host_route: "route_lookup 0x0A000202 ip_host = Some (0x0A000202, Some 0)"
  by (simp add: route_lookup_def ip_host_def better_route_def route_matches_def)

lemma ip_host_ready: "out_ready 0 0x0A000202 [0x52, 0x54, 0, 0, 0, 2] ip_host"
  by (simp add: out_ready_def ip_host_def netif_ready_def eth0_def no_netif_def arp_answer_def arp_get_mac_def arp_find_def)

theorem ip_fragments_arrive_witness:
  "\<exists>ok n' fs h m'. ip_output id 0x0A000202 IP_PROTOCOL_UDP (replicate 2000 7) ip_host = (ok, n') \<and> ok \<and> wire n' = wire ip_host @ fs \<and>
    receive (map frame_payload (rev fs)) ip_host = (replicate (length fs - 1) INCOMPLETE @ [COMPLETE h (replicate 2000 7)], m')"
proof -
  obtain ok n' where r: "ip_output id 0x0A000202 IP_PROTOCOL_UDP (replicate 2000 7) ip_host = (ok, n')" by fastforce
  have m: "if_mtu (nif ip_host 0) = 1500" by (simp add: ip_host_def eth0_def no_netif_def)
  then have "max_payload_of 0 ip_host = 1480" by (simp add: max_payload_of_def)
  moreover have "list_ex (\<lambda>e. \<not> re_used e) (reass_table ip_host)" "\<forall>e \<in> set (reass_table ip_host). re_used e \<longrightarrow> re_src e \<noteq> ip_our ip_host"
    by (simp_all add: ip_host_def list_ex_iff)
  ultimately have f: "ok \<and> (\<exists>fs. wire n' = wire ip_host @ fs \<and> (\<forall>gs. mset gs = mset fs \<longrightarrow>
    (\<exists>h m'. receive (map frame_payload gs) ip_host = (replicate (length gs - 1) INCOMPLETE @ [COMPLETE h (replicate 2000 7)], m') \<and>
      src_ip h = ip_our ip_host \<and> dest_ip h = 0x0A000202 \<and> protocol h = IP_PROTOCOL_UDP)))"
    using ip_fragments_arrive [OF ip_host_route ip_host_ready _ _ _ r, of ip_host] m by simp
  then obtain fs where fs: "wire n' = wire ip_host @ fs" "\<forall>gs. mset gs = mset fs \<longrightarrow>
    (\<exists>h m'. receive (map frame_payload gs) ip_host = (replicate (length gs - 1) INCOMPLETE @ [COMPLETE h (replicate 2000 7)], m') \<and>
      src_ip h = ip_our ip_host \<and> dest_ip h = 0x0A000202 \<and> protocol h = IP_PROTOCOL_UDP)" by blast
  from fs(2) [rule_format, of "rev fs"] show ?thesis using r f fs(1) by auto
qed

theorem ip_reassembly_hole_witness:
  "\<exists>p1 p2 h' d m'. ip_create_packet_ex 1600 1 0x0A00020F IP_PROTOCOL_UDP 5 (frag_flags 16 True) (replicate 8 1) = Some p1 \<and>
    ip_create_packet_ex 1600 1 0x0A00020F IP_PROTOCOL_UDP 5 (frag_flags 8 False) (replicate 8 2) = Some p2 \<and>
    receive [p1, p2] ip_host = ([INCOMPLETE, COMPLETE h' d], m') \<and> length d = 16"
proof -
  define hd where "hd fl = \<lparr>version_ihl = 0x45, tos = 0, total_length = htons (of_nat (IP_HDR + 8)), ip_id = htons 5, flags_fragment = htons fl,
    ttl = 64, protocol = IP_PROTOCOL_UDP, checksum = 0, src_ip = htonl 1, dest_ip = htonl 0x0A00020F\<rparr>" for fl
  have c: "ip_create_packet_ex 1600 1 0x0A00020F IP_PROTOCOL_UDP 5 fl (replicate 8 x) = Some (enc_ip (seal (hd fl)) @ replicate 8 x)" for fl x
    using create_is_sealed [of "replicate 8 x" 1600] by (simp add: hd_def)
  have p: "ip_parse_header (enc_ip (seal (hd fl)) @ replicate 8 x) = Some (host_order (seal (hd fl)), replicate 8 x)" for fl x
    by (rule parse_sealed) (simp_all add: hd_def)
  have k: "same_key (host_order (seal (hd 0))) (host_order (seal (hd fl)))" "flags_fragment (host_order (seal (hd fl))) = fl" for fl
    by (simp_all add: same_key_def host_order_def seal_def hd_def)
  have "pending (host_order (seal (hd 0))) [] {} ip_host" by (simp add: pending_def ip_host_def reass_key_def)
  from ip_reassembly_hole [OF this p [of "frag_flags 16 True" 1] k(1,2) _ p [of "frag_flags 8 False" 2] k(1,2)] show ?thesis
    unfolding c by (auto simp del: receive.simps)
qed

end
