(* ===== verification/KIpPoll.thy ===== *)
theory KIpPoll
  imports KIp
begin

text \<open>
  What a wait may change. Sending a packet may wait for an address and serve the network meanwhile
  (the poll argument of ip_output). The locale states what the code above IP relies on: whatever
  the poll keeps of the state above IP, sending and waiting keep.
\<close>

definition above :: "'a ipnet_scheme \<Rightarrow> u32 \<times> 'a" where
  "above n = (ip_our n, ipnet.more n)"

lemma send_more [simp]:
  "above (snd (nic_ops_send f n)) = above n" "above (snd (netif_send p f n)) = above n" "above (snd (nic_send_packet f n)) = above n"
proof -
  show o: "above (snd (nic_ops_send f n)) = above n" for n :: "'a ipnet_scheme"
    by (simp add: nic_ops_send_def above_def split: option.splits)
  show s: "above (snd (netif_send p f n)) = above n" for p and n :: "'a ipnet_scheme"
    using o [of n] by (auto simp: netif_send_def put_nif_def above_def Let_def split: option.splits prod.splits)
  show "above (snd (nic_send_packet f n)) = above n"
    using o [of n] s by (auto simp: nic_send_packet_def split: option.splits)
qed

lemma arp_more [simp]:
  "above (snd (arp_get_mac ip n)) = above n" "above (snd (arp_send_request ip n)) = above n"
  using send_more(3) [of _ n] by (auto simp: above_def arp_get_mac_def arp_send_request_def arp_send_def Let_def split: option.splits)

locale polled =
  fixes poll :: "'a ipnet_scheme \<Rightarrow> 'a ipnet_scheme" and Q :: "u32 \<times> 'a \<Rightarrow> bool"
  assumes poll_keeps: "Q (above n) \<Longrightarrow> Q (above (poll n))"
begin

lemma wait_loop_keeps: "Q (above n) \<Longrightarrow> Q (above (net_wait_loop poll s ms es n))"
proof (induction es arbitrary: n)
  case Nil
  have "above (m\<lparr>ticks := t\<rparr>) = above m" for m :: "'a ipnet_scheme" and t by (simp add: above_def)
  then show ?case using Nil poll_keeps by (subst net_wait_loop.simps) (simp add: Let_def)
next
  case (Cons e es)
  have "above (m\<lparr>ticks := t, hw_rx := f\<rparr>) = above m" for m :: "'a ipnet_scheme" and t f by (simp add: above_def)
  then show ?case using Cons poll_keeps by (subst net_wait_loop.simps) (simp add: Let_def case_prod_unfold)
qed

lemma wait_keeps: "Q (above n) \<Longrightarrow> Q (above (net_wait_ms poll ms n))"
  unfolding net_wait_ms_def by (rule wait_loop_keeps) (simp add: above_def)

lemma arp_wait_keeps: "Q (above n) \<Longrightarrow> Q (above (snd (arp_wait poll ip s t r k n)))"
proof (induction k arbitrary: r n)
  case (Suc k)
  let ?g = "arp_get_mac ip (poll n)"
  let ?m = "net_wait_ms poll 10 (if r mod 10 = 9 then snd (arp_send_request ip (snd ?g)) else snd ?g)"
  have g: "Q (above (snd ?g))" using poll_keeps [OF Suc.prems] by simp
  then have "Q (above ?m)" by (intro wait_keeps) simp
  then have "Q (above (snd (arp_wait poll ip s t (r + 1) k ?m)))" by (rule Suc.IH)
  then show ?case using Suc.prems g by (auto simp: case_prod_unfold simp del: arp_more split: option.split if_splits)
qed simp

lemma arp_resolve_keeps: "Q (above n) \<Longrightarrow> Q (above (snd (arp_resolve poll ip t n)))"
proof -
  assume q: "Q (above n)"
  let ?g = "snd (arp_get_mac ip n)" let ?r = "snd (arp_send_request ip ?g)"
  have "Q (above ?g)" "Q (above ?r)" using q by simp_all
  then show ?thesis using q arp_wait_keeps [of ?r]
    by (simp add: arp_resolve_def Let_def case_prod_unfold del: arp_more arp_wait.simps split: option.split bool.split)
qed

lemma ip_send_frame_keeps: "Q (above n) \<Longrightarrow> Q (above (snd (ip_send_frame poll p hop pkt n)))"
proof -
  assume q: "Q (above n)"
  let ?r = "if hop = 0xFFFFFFFF then (Some (replicate 6 0xFF), n) else arp_resolve poll hop 3000 n"
  have "Q (above (snd ?r))" using q arp_resolve_keeps by simp
  moreover have "Q (above (snd (netif_send p f m)))" "Q (above (snd (nic_send_packet f m)))" if "Q (above m)" for p f m
    using that by simp_all
  moreover have "ip_send_frame poll p hop pkt n = (case ?r of (None, n) \<Rightarrow> (False, n) | (Some mac, n) \<Rightarrow>
      (let our = (case p of Some i \<Rightarrow> netif_get_mac i n | None \<Rightarrow> nic_get_mac n) in
       if length pkt + ETH_HDR > ETH_HDR + 1600 then (False, n)
       else case ethernet_create_frame (ETH_HDR + 1600) (Some mac) (Some our) ETH_TYPE_IPV4 pkt of
         None \<Rightarrow> (False, n)
       | Some f \<Rightarrow> (case p of Some i \<Rightarrow> netif_send (Some i) f n | None \<Rightarrow> nic_send_packet f n)))"
    by (simp add: ip_send_frame_def)
  ultimately show ?thesis by (cases ?r) (auto simp del: send_more simp: Let_def split: option.splits)
qed

lemma ip_send_frame_ttl_keeps: "Q (above n) \<Longrightarrow> Q (above (snd (ip_send_frame_ttl poll p hop pkt t n)))"
  by (simp add: ip_send_frame_ttl_def Let_def ip_send_frame_keeps)

lemma ip_frag_loop_keeps: "Q (above n) \<Longrightarrow> Q (above (snd (ip_frag_loop poll p hop s d pr i t mx P off n)))"
proof (induction "length P - off" arbitrary: off n rule: less_induct)
  case less
  show ?case
  proof (cases "length P \<le> off \<or> mx = 0")
    case True
    then show ?thesis using less.prems by (subst ip_frag_loop.simps) simp
  next
    case False
    let ?c = "min (length P - off) mx" let ?fl = "frag_flags off (off + ?c < length P)"
    show ?thesis
    proof (cases "ip_create_packet_ex 1600 s d pr i ?fl (take ?c (drop off P))")
      case None
      then show ?thesis using less.prems False by (subst ip_frag_loop.simps) (simp add: Let_def frag_flags_def)
    next
      case (Some pkt)
      let ?m = "snd (ip_send_frame_ttl poll p hop pkt t n)"
      have m: "Q (above ?m)" using less.prems by (rule ip_send_frame_ttl_keeps)
      have "length P - (off + ?c) < length P - off" using False by auto
      then have "Q (above (snd (ip_frag_loop poll p hop s d pr i t mx P (off + ?c) ?m)))" using less.hyps m by blast
      then show ?thesis using m False Some by (subst ip_frag_loop.simps) (auto simp: Let_def frag_flags_def split: prod.splits bool.splits)
    qed
  qed
qed

lemma ip_output_ex_keeps: "Q (above n) \<Longrightarrow> Q (above (snd (ip_output_ex poll d pr P t n)))"
proof -
  assume "Q (above n)"
  then have "Q (above (snd (next_ip_id n)))" by (simp add: next_ip_id_def Let_def above_def)
  then show ?thesis using \<open>Q (above n)\<close> unfolding ip_output_ex_def
    by (auto simp: Let_def ip_send_frame_ttl_keeps ip_frag_loop_keeps split: prod.splits option.splits)
qed

lemma ip_output_keeps: "Q (above n) \<Longrightarrow> Q (above (snd (ip_output poll d pr P n)))"
  by (simp add: ip_output_def ip_output_ex_keeps)

end

text \<open>The same for a property of the whole state that looks only at what is above IP.\<close>

locale keeps_above =
  fixes poll :: "'a ipnet_scheme \<Rightarrow> 'a ipnet_scheme" and R :: "'a ipnet_scheme \<Rightarrow> bool"
  assumes only_above: "above m = above n \<Longrightarrow> R n \<Longrightarrow> R m" and poll_R: "R n \<Longrightarrow> R (poll n)"

sublocale keeps_above \<subseteq> polled poll "\<lambda>e. \<exists>n. above n = e \<and> R n"
proof
  fix n assume "\<exists>m. above m = above n \<and> R m"
  then have "R n" using only_above by metis
  then show "\<exists>m. above m = above (poll n) \<and> R m" using poll_R by blast
qed

context keeps_above
begin

lemma output_R: "R n \<Longrightarrow> R (snd (ip_output poll d pr P n))"
  using ip_output_keeps [of n d pr P] only_above by metis

lemma output_ttl_R: "R n \<Longrightarrow> R (snd (ip_output_ttl poll d pr P t n))"
  using ip_output_ex_keeps [of n d pr P t] only_above by (metis ip_output_ttl_def)

lemma wait_R: "R n \<Longrightarrow> R (net_wait_ms poll ms n)"
  using wait_keeps [of n ms] only_above by metis

end

text \<open>Within net_process nothing is served while the code waits, so nothing above IP changes.\<close>

interpretation idle: polled id Q for Q
  by unfold_locales simp

lemma idle_output [simp]:
  "ip_our (snd (ip_output id d pr P n)) = ip_our n" "ipnet.more (snd (ip_output id d pr P n)) = ipnet.more n"
  using idle.ip_output_keeps [of "\<lambda>m. m = above n" n d pr P] by (simp_all add: above_def)

end
