(* ===== verification/KSegment.thy ===== *)
theory KSegment
  imports KIpPkt
begin

text \<open>
  The segments of TCP and UDP: headers, the checksum over the pseudo header, creation and parsing,
  from src/kernel/drivers/network/protocols/tcp.cpp and udp.cpp.
\<close>

section \<open>The checksum with the pseudo header\<close>

definition pseudo_header :: "u32 \<Rightarrow> u32 \<Rightarrow> u8 \<Rightarrow> nat \<Rightarrow> u8 list" where
  "pseudo_header src dest proto plen = le32 (htonl src) @ le32 (htonl dest) @ [0, proto] @ le16 (htons (of_nat plen))"

definition tcp_checksum :: "u32 \<Rightarrow> u32 \<Rightarrow> u8 list \<Rightarrow> u16" where
  "tcp_checksum src dest seg = ucast (NOT (csum_fold (csum_add seg (csum_add (pseudo_header src dest IP_PROTOCOL_TCP (length seg)) 0))))"

definition udp_checksum :: "u32 \<Rightarrow> u32 \<Rightarrow> u8 list \<Rightarrow> u16" where
  "udp_checksum src dest seg = ucast (NOT (csum_fold (csum_add seg (csum_add (pseudo_header src dest IP_PROTOCOL_UDP (length seg)) 0))))"

section \<open>TCP segments\<close>

record tcp_header =
  th_src_port :: u16
  th_dest_port :: u16
  th_seq_num :: u32
  th_ack_num :: u32
  th_data_offset :: u8
  th_flags :: u8
  th_window :: u16
  th_checksum :: u16
  th_urgent_ptr :: u16

abbreviation (input) TCP_HDR :: nat where "TCP_HDR \<equiv> 20"
abbreviation (input) TCP_MAX_PAYLOAD :: nat where "TCP_MAX_PAYLOAD \<equiv> 1460"
abbreviation (input) TCP_FLAG_FIN :: u8 where "TCP_FLAG_FIN \<equiv> 0x01"
abbreviation (input) TCP_FLAG_SYN :: u8 where "TCP_FLAG_SYN \<equiv> 0x02"
abbreviation (input) TCP_FLAG_RST :: u8 where "TCP_FLAG_RST \<equiv> 0x04"
abbreviation (input) TCP_FLAG_PSH :: u8 where "TCP_FLAG_PSH \<equiv> 0x08"
abbreviation (input) TCP_FLAG_ACK :: u8 where "TCP_FLAG_ACK \<equiv> 0x10"

text \<open>The packed struct in memory.\<close>

definition enc_tcp :: "tcp_header \<Rightarrow> u8 list" where
  "enc_tcp h = le16 (th_src_port h) @ le16 (th_dest_port h) @ le32 (th_seq_num h) @ le32 (th_ack_num h) @ [th_data_offset h, th_flags h] @
     le16 (th_window h) @ le16 (th_checksum h) @ le16 (th_urgent_ptr h)"

definition dec_tcp :: "u8 list \<Rightarrow> tcp_header" where
  "dec_tcp bs = \<lparr>th_src_port = get16 bs 0, th_dest_port = get16 bs 2, th_seq_num = get32 bs 4, th_ack_num = get32 bs 8, th_data_offset = bs ! 12,
     th_flags = bs ! 13, th_window = get16 bs 14, th_checksum = get16 bs 16, th_urgent_ptr = get16 bs 18\<rparr>"

definition tcp_create_packet :: "nat \<Rightarrow> u16 \<Rightarrow> u16 \<Rightarrow> u32 \<Rightarrow> u32 \<Rightarrow> u8 \<Rightarrow> u16 \<Rightarrow> u8 list \<Rightarrow> u8 list option" where
  "tcp_create_packet buffer_size src_port dest_port seq_num ack_num flags window payload =
     (if buffer_size < TCP_HDR + length payload then None
      else Some (enc_tcp \<lparr>th_src_port = htons src_port, th_dest_port = htons dest_port, th_seq_num = htonl seq_num, th_ack_num = htonl ack_num,
             th_data_offset = push_bit 4 (of_nat (TCP_HDR div 4)), th_flags = flags, th_window = htons window, th_checksum = 0, th_urgent_ptr = 0\<rparr> @ payload))"

definition tcp_parse_header :: "u8 list \<Rightarrow> (tcp_header \<times> u8 list) option" where
  "tcp_parse_header packet =
     (if length packet < TCP_HDR then None
      else let hdr = dec_tcp packet; data_offset = unat (drop_bit 4 (th_data_offset hdr) * 4) in
        if data_offset < TCP_HDR \<or> data_offset > length packet then None
        else Some (hdr, drop data_offset packet))"

section \<open>UDP datagrams\<close>

record udp_header =
  uh_src_port :: u16
  uh_dest_port :: u16
  uh_length :: u16
  uh_checksum :: u16

abbreviation (input) UDP_HDR :: nat where "UDP_HDR \<equiv> 8"

definition enc_udp :: "udp_header \<Rightarrow> u8 list" where
  "enc_udp h = le16 (uh_src_port h) @ le16 (uh_dest_port h) @ le16 (uh_length h) @ le16 (uh_checksum h)"

definition dec_udp :: "u8 list \<Rightarrow> udp_header" where
  "dec_udp bs = \<lparr>uh_src_port = get16 bs 0, uh_dest_port = get16 bs 2, uh_length = get16 bs 4, uh_checksum = get16 bs 6\<rparr>"

definition udp_create_packet :: "nat \<Rightarrow> u16 \<Rightarrow> u16 \<Rightarrow> u8 list \<Rightarrow> u8 list option" where
  "udp_create_packet buffer_size src_port dest_port payload =
     (if buffer_size < UDP_HDR + length payload then None
      else Some (enc_udp \<lparr>uh_src_port = htons src_port, uh_dest_port = htons dest_port, uh_length = htons (of_nat (UDP_HDR + length payload)), uh_checksum = 0\<rparr> @ payload))"

definition udp_parse_header :: "u8 list \<Rightarrow> (udp_header \<times> u8 list) option" where
  "udp_parse_header packet = (if length packet < UDP_HDR then None else Some (dec_udp packet, drop UDP_HDR packet))"

section \<open>Segments survive the wire\<close>

lemma dec_enc_tcp: "dec_tcp (enc_tcp h @ p) = h" "length (enc_tcp h) = TCP_HDR"
proof -
  let ?b = "enc_tcp h @ p"
  show l: "length (enc_tcp h) = TCP_HDR" by (simp add: enc_tcp_def)
  have "get16 ?b 0 = th_src_port h" "get16 ?b 2 = th_dest_port h" "get16 ?b 14 = th_window h" "get16 ?b 16 = th_checksum h" "get16 ?b 18 = th_urgent_ptr h"
    "get32 ?b 4 = th_seq_num h" "get32 ?b 8 = th_ack_num h"
    by (rule get16_at get32_at; simp add: enc_tcp_def)+
  moreover have "?b ! 12 = th_data_offset h" "?b ! 13 = th_flags h" by (simp_all add: enc_tcp_def nth_append)
  ultimately show "dec_tcp ?b = h" by (simp add: dec_tcp_def)
qed

lemma dec_enc_udp: "dec_udp (enc_udp h @ p) = h" "length (enc_udp h) = UDP_HDR"
proof -
  let ?b = "enc_udp h @ p"
  show l: "length (enc_udp h) = UDP_HDR" by (simp add: enc_udp_def)
  have "get16 ?b 0 = uh_src_port h" "get16 ?b 2 = uh_dest_port h" "get16 ?b 4 = uh_length h" "get16 ?b 6 = uh_checksum h"
    by (rule get16_at; simp add: enc_udp_def)+
  then show "dec_udp ?b = h" by (simp add: dec_udp_def)
qed

text \<open>The sum over the pseudo header and the segment.\<close>

definition pseudo_sum :: "u32 \<Rightarrow> u32 \<Rightarrow> u8 \<Rightarrow> u8 list \<Rightarrow> nat" where
  "pseudo_sum src dest proto seg = word_sum (pseudo_header src dest proto (length seg)) + word_sum seg"

lemma pseudo_checksum:
  assumes "length seg < 2 ^ 16"
  shows "unat (ucast (NOT (csum_fold (csum_add seg (csum_add (pseudo_header src dest proto (length seg)) 0)))) :: u16) = 65535 - carry (pseudo_sum src dest proto seg)"
proof -
  let ?p = "pseudo_header src dest proto (length seg)"
  have "length ?p = 12" by (simp add: pseudo_header_def)
  then have "2 * word_sum ?p \<le> 65535 * 13" using word_sum_le [of ?p] by simp
  moreover have "2 * word_sum seg \<le> 65535 * 2 ^ 16" using word_sum_le [of seg] assms by (simp add: mult_le_mono2 order_trans)
  ultimately have "unat (csum_add ?p 0) = word_sum ?p" "unat (csum_add seg (csum_add ?p 0)) = pseudo_sum src dest proto seg"
    by (simp_all add: unat_csum_add pseudo_sum_def)
  then show ?thesis using carry_less [of "pseudo_sum src dest proto seg"] by (simp add: unat_csum_fold unat_low_not)
qed

lemma pseudo_seal:
  assumes "even (length a)" and "proto \<noteq> 0" and "unat c = 65535 - carry (pseudo_sum src dest proto (a @ le16 0 @ b))"
  shows "carry (pseudo_sum src dest proto (a @ le16 (htons c) @ b)) = 65535"
proof -
  have w: "pseudo_sum src dest proto (a @ le16 (htons x) @ b) = word_sum (pseudo_header src dest proto (length a + 2 + length b)) + word_sum a + unat x + word_sum b" for x
    using assms(1) by (simp add: pseudo_sum_def word_sum_append word_sum_be16 le16_htons)
  have "unat proto \<noteq> 0" using assms(2) by (simp add: unat_eq_0)
  then have "word_sum (pseudo_header src dest proto l) \<noteq> 0" for l by (simp add: pseudo_header_def word_sum_append)
  moreover have "htons 0 = 0" by (simp add: htons_def)
  ultimately have "pseudo_sum src dest proto (a @ le16 0 @ b) \<noteq> 0" using w [of 0] by simp
  from carry_complement [OF this] show ?thesis using w [of c] w [of 0] assms(3) \<open>htons 0 = 0\<close> by (simp add: algebra_simps)
qed

lemma tcp_sealed:
  assumes "length p + TCP_HDR < 2 ^ 16" and "th_checksum h = 0"
  shows "tcp_checksum src dest (enc_tcp (h\<lparr>th_checksum := htons (tcp_checksum src dest (enc_tcp h @ p))\<rparr>) @ p) = 0"
proof -
  define a b where "a = le16 (th_src_port h) @ le16 (th_dest_port h) @ le32 (th_seq_num h) @ le32 (th_ack_num h) @ [th_data_offset h, th_flags h] @ le16 (th_window h)"
    and "b = le16 (th_urgent_ptr h) @ p"
  have e: "enc_tcp (h\<lparr>th_checksum := x\<rparr>) @ p = a @ le16 x @ b" for x by (simp add: enc_tcp_def a_def b_def)
  then have e0: "enc_tcp h @ p = a @ le16 0 @ b" using assms(2) by (metis tcp_header.surjective tcp_header.update_convs(8))
  have l: "length (a @ le16 x @ b) < 2 ^ 16" for x using assms(1) by (simp add: a_def b_def)
  have "even (length a)" by (simp add: a_def)
  then have "carry (pseudo_sum src dest IP_PROTOCOL_TCP (a @ le16 (htons (tcp_checksum src dest (a @ le16 0 @ b))) @ b)) = 65535"
    using pseudo_checksum [OF l [of 0]] by (intro pseudo_seal) (simp_all add: tcp_checksum_def)
  then have "unat (tcp_checksum src dest (a @ le16 (htons (tcp_checksum src dest (a @ le16 0 @ b))) @ b)) = 0"
    using pseudo_checksum [OF l] by (simp add: tcp_checksum_def)
  then show ?thesis by (simp add: e e0 unat_eq_0)
qed

lemma tcp_parse_enc:
  assumes "th_data_offset h = 0x50"
  shows "tcp_parse_header (enc_tcp h @ p) = Some (h, p)"
  using assms by (simp add: tcp_parse_header_def Let_def dec_enc_tcp)

end
