(* ===== verification/KTcp.thy ===== *)
theory KTcp
  imports KIpPoll KSegment
begin

text \<open>
  TCP, src/kernel/drivers/network/protocols/tcp_connection.cpp and tcp.cpp: the table of
  connections, the handling of a segment, the calls of applications. A connection is an index of
  the table; its buffers are the bytes they hold. The divisions of the congestion control can meet
  a zero window; the processor would stop with a divide error there, which the state notes in
  divide_error.
\<close>

datatype tcp_state = TCP_CLOSED | TCP_LISTEN | TCP_SYN_SENT | TCP_SYN_RECEIVED | TCP_ESTABLISHED | TCP_FIN_WAIT_1 | TCP_FIN_WAIT_2 |
  TCP_CLOSE_WAIT | TCP_CLOSING | TCP_TIME_WAIT | TCP_LAST_ACK

record retransmit =
  r_seq :: u32
  r_timeout :: u32
  r_rto :: u32
  r_retries :: nat
  r_data :: "u8 list"

record tcp_connection =
  c_src_ip :: u32
  c_src_port :: u16
  c_dest_ip :: u32
  c_dest_port :: u16
  c_state :: tcp_state
  send_seq :: u32
  send_una :: u32
  recv_seq :: u32
  send_window :: u16
  recv_window :: u16
  mss :: u16
  rx_buffer :: "u8 list"
  tx_buffer :: "u8 list"
  retransmit_queue :: "retransmit list"
  cwnd :: u32
  ssthresh :: u32
  in_slow_start :: bool
  last_activity :: u32
  pending_accept :: bool
  c_valid :: bool

record tnet = ipnet +
  tcp_connections :: "tcp_connection list"
  tcp_next_isn :: u32
  divide_error :: bool

abbreviation (input) TCP_MAX_CONNECTIONS :: nat where "TCP_MAX_CONNECTIONS \<equiv> 64"
abbreviation (input) TCP_RX_BUFFER_SIZE :: nat where "TCP_RX_BUFFER_SIZE \<equiv> 4096"
abbreviation (input) TCP_TX_BUFFER_SIZE :: nat where "TCP_TX_BUFFER_SIZE \<equiv> 4096"
abbreviation (input) TCP_MAX_RETRANSMIT :: nat where "TCP_MAX_RETRANSMIT \<equiv> 5"
abbreviation (input) TCP_RTO_INITIAL :: u32 where "TCP_RTO_INITIAL \<equiv> 1000"
abbreviation (input) TCP_RTO_MAX :: u32 where "TCP_RTO_MAX \<equiv> 60000"

abbreviation conn :: "'a tnet_scheme \<Rightarrow> nat \<Rightarrow> tcp_connection" where "conn n i \<equiv> tcp_connections n ! i"

definition put_conn :: "nat \<Rightarrow> tcp_connection \<Rightarrow> 'a tnet_scheme \<Rightarrow> 'a tnet_scheme" where
  "put_conn i c n = n\<lparr>tcp_connections := (tcp_connections n)[i := c]\<rparr>"

section \<open>The table of connections\<close>

definition tcp_connection_init :: "'a tnet_scheme \<Rightarrow> 'a tnet_scheme" where
  "tcp_connection_init n = n\<lparr>tcp_connections :=
     map (\<lambda>c. c\<lparr>c_valid := False, c_state := TCP_CLOSED, rx_buffer := [], tx_buffer := [], retransmit_queue := []\<rparr>) (tcp_connections n)\<rparr>"

definition tcp_connection_create :: "u32 \<Rightarrow> u16 \<Rightarrow> u32 \<Rightarrow> u16 \<Rightarrow> 'a tnet_scheme \<Rightarrow> nat option \<times> 'a tnet_scheme" where
  "tcp_connection_create sip src_port dip dest_port n =
     (case find_slot (\<lambda>c. \<not> c_valid c) (tcp_connections n) of
        None \<Rightarrow> (None, n)
      | Some i \<Rightarrow>
          (Some i, put_conn i \<lparr>c_src_ip = sip, c_src_port = src_port, c_dest_ip = dip, c_dest_port = dest_port, c_state = TCP_SYN_SENT,
             send_seq = tcp_next_isn n, send_una = tcp_next_isn n, recv_seq = 0, send_window = of_nat TCP_RX_BUFFER_SIZE,
             recv_window = of_nat TCP_RX_BUFFER_SIZE, mss = 1460, rx_buffer = [], tx_buffer = [], retransmit_queue = [], cwnd = 1, ssthresh = 65535,
             in_slow_start = True, last_activity = ticks n, pending_accept = False, c_valid = True\<rparr> (n\<lparr>tcp_next_isn := tcp_next_isn n + 1\<rparr>)))"

definition tcp_connection_find :: "u32 \<Rightarrow> u16 \<Rightarrow> u32 \<Rightarrow> u16 \<Rightarrow> 'a tnet_scheme \<Rightarrow> nat option" where
  "tcp_connection_find sip src_port dip dest_port n =
     find_slot (\<lambda>c. c_valid c \<and> c_src_ip c = sip \<and> c_src_port c = src_port \<and> c_dest_ip c = dip \<and> c_dest_port c = dest_port) (tcp_connections n)"

definition tcp_connection_find_listen :: "u16 \<Rightarrow> 'a tnet_scheme \<Rightarrow> nat option" where
  "tcp_connection_find_listen port n = find_slot (\<lambda>c. c_valid c \<and> c_state c = TCP_LISTEN \<and> c_src_port c = port) (tcp_connections n)"

definition tcp_connection_alloc_listen :: "u32 \<Rightarrow> u16 \<Rightarrow> 'a tnet_scheme \<Rightarrow> nat option \<times> 'a tnet_scheme" where
  "tcp_connection_alloc_listen sip port n =
     (case find_slot (\<lambda>c. \<not> c_valid c) (tcp_connections n) of
        None \<Rightarrow> (None, n)
      | Some i \<Rightarrow>
          (Some i, put_conn i \<lparr>c_src_ip = sip, c_src_port = port, c_dest_ip = 0, c_dest_port = 0, c_state = TCP_LISTEN,
             send_seq = 0, send_una = 0, recv_seq = 0, send_window = of_nat TCP_RX_BUFFER_SIZE,
             recv_window = of_nat TCP_RX_BUFFER_SIZE, mss = 1460, rx_buffer = [], tx_buffer = [], retransmit_queue = [], cwnd = 1, ssthresh = 65535,
             in_slow_start = True, last_activity = ticks n, pending_accept = False, c_valid = True\<rparr> n))"

definition tcp_connection_accept_pending :: "u16 \<Rightarrow> nat \<Rightarrow> 'a tnet_scheme \<Rightarrow> nat option" where
  "tcp_connection_accept_pending local_port listen_conn n =
     find (\<lambda>i. i \<noteq> listen_conn \<and> c_valid (conn n i) \<and> c_state (conn n i) = TCP_ESTABLISHED \<and> c_src_port (conn n i) = local_port \<and>
            c_dest_ip (conn n i) \<noteq> 0 \<and> pending_accept (conn n i)) [0..<length (tcp_connections n)]"

definition tcp_connection_send :: "nat \<Rightarrow> u8 list \<Rightarrow> 'a tnet_scheme \<Rightarrow> bool \<times> 'a tnet_scheme" where
  "tcp_connection_send i data n =
     (let c = conn n i in
      if c_state c \<noteq> TCP_ESTABLISHED then (False, n)
      else if length data > TCP_TX_BUFFER_SIZE - length (tx_buffer c) then (False, n)
      else (True, put_conn i (c\<lparr>tx_buffer := tx_buffer c @ data\<rparr>) n))"

definition tcp_connection_receive :: "nat \<Rightarrow> nat \<Rightarrow> 'a tnet_scheme \<Rightarrow> u8 list \<times> 'a tnet_scheme" where
  "tcp_connection_receive i max_len n =
     (let c = conn n i in
      if rx_buffer c = [] then ([], n)
      else let to_copy = (if length (rx_buffer c) < max_len then length (rx_buffer c) else max_len)
        in (take to_copy (rx_buffer c), put_conn i (c\<lparr>rx_buffer := drop to_copy (rx_buffer c)\<rparr>) n))"

definition tcp_connection_close :: "nat \<Rightarrow> 'a tnet_scheme \<Rightarrow> 'a tnet_scheme" where
  "tcp_connection_close i n = put_conn i ((conn n i)\<lparr>c_state := TCP_CLOSED, c_valid := False\<rparr>) n"

text \<open>A segment of more than TCP_MAX_PAYLOAD bytes is queued without its data; tcp_send refuses
  to send that many bytes whatever they are.\<close>

definition tcp_add_retransmit :: "nat \<Rightarrow> u32 \<Rightarrow> u8 list \<Rightarrow> 'a tnet_scheme \<Rightarrow> 'a tnet_scheme" where
  "tcp_add_retransmit i seq_num data n =
     (let c = conn n i in
      if length (retransmit_queue c) \<ge> TCP_MAX_RETRANSMIT then n
      else put_conn i (c\<lparr>retransmit_queue := retransmit_queue c @
             [\<lparr>r_seq = seq_num, r_timeout = ticks n + TCP_RTO_INITIAL, r_rto = TCP_RTO_INITIAL, r_retries = 0, r_data = data\<rparr>]\<rparr>) n)"

definition tcp_ack_retransmit :: "u32 \<Rightarrow> tcp_connection \<Rightarrow> tcp_connection" where
  "tcp_ack_retransmit ack_num c = c\<lparr>retransmit_queue := filter (\<lambda>r. ack_num \<le> r_seq r + of_nat (length (r_data r))) (retransmit_queue c)\<rparr>"

section \<open>Segments out\<close>

definition tcp_send :: "('a tnet_scheme \<Rightarrow> 'a tnet_scheme) \<Rightarrow> u32 \<Rightarrow> u16 \<Rightarrow> u16 \<Rightarrow> u32 \<Rightarrow> u32 \<Rightarrow> u8 \<Rightarrow> u16 \<Rightarrow> u8 list \<Rightarrow> 'a tnet_scheme \<Rightarrow> bool \<times> 'a tnet_scheme" where
  "tcp_send poll dip src_port dest_port seq_num ack_num flags window payload n =
     (if length payload > TCP_MAX_PAYLOAD then (False, n)
      else case tcp_create_packet (TCP_HDR + TCP_MAX_PAYLOAD) src_port dest_port seq_num ack_num flags window payload of
        None \<Rightarrow> (False, n)
      | Some seg \<Rightarrow>
          (let h = (dec_tcp seg)\<lparr>th_checksum := htons (tcp_checksum (ip_our n) dip seg)\<rparr>
           in ip_output poll dip IP_PROTOCOL_TCP (enc_tcp h @ drop TCP_HDR seg) n))"

text \<open>The retransmission of one queued segment; the queue has at most TCP_MAX_RETRANSMIT entries.\<close>

definition retransmit_one :: "('a tnet_scheme \<Rightarrow> 'a tnet_scheme) \<Rightarrow> nat \<Rightarrow> nat \<Rightarrow> 'a tnet_scheme \<Rightarrow> 'a tnet_scheme" where
  "retransmit_one poll i j n =
     (let c = conn n i; r = retransmit_queue c ! j in
      if \<not> j < length (retransmit_queue c) then n
      else if ticks n < r_timeout r then n
      else if r_retries r < TCP_MAX_RETRANSMIT then
        (let n = snd (tcp_send poll (c_dest_ip c) (c_src_port c) (c_dest_port c) (r_seq r) (recv_seq c) TCP_FLAG_ACK (recv_window c) (r_data r) n);
             c = conn n i; r = retransmit_queue c ! j; rto = r_rto r * 2; rto = (if rto > TCP_RTO_MAX then TCP_RTO_MAX else rto)
         in put_conn i (c\<lparr>retransmit_queue := (retransmit_queue c)[j := r\<lparr>r_retries := r_retries r + 1, r_rto := rto, r_timeout := ticks n + rto\<rparr>]\<rparr>) n)
      else tcp_connection_close i n)"

definition tcp_process_timers :: "('a tnet_scheme \<Rightarrow> 'a tnet_scheme) \<Rightarrow> 'a tnet_scheme \<Rightarrow> 'a tnet_scheme" where
  "tcp_process_timers poll n =
     fold (\<lambda>i n. if c_valid (conn n i) then fold (retransmit_one poll i) [0..<TCP_MAX_RETRANSMIT] n else n) [0..<length (tcp_connections n)] n"

definition tcp_foreach_connection :: "(tcp_connection \<Rightarrow> 'u \<Rightarrow> 'u) \<Rightarrow> 'u \<Rightarrow> 'a tnet_scheme \<Rightarrow> 'u" where
  "tcp_foreach_connection f u n = fold f (filter c_valid (tcp_connections n)) u"

section \<open>Segments in\<close>

definition grow_cwnd :: "u32 \<Rightarrow> tcp_connection \<Rightarrow> tcp_connection" where
  "grow_cwnd k c =
     (if in_slow_start c then
        (let c = c\<lparr>cwnd := cwnd c + k\<rparr> in if cwnd c \<ge> ssthresh c then c\<lparr>in_slow_start := False\<rparr> else c)
      else c\<lparr>cwnd := cwnd c + (k * k div cwnd c + 1)\<rparr>)"

definition grow_faults :: "tcp_connection \<Rightarrow> bool" where
  "grow_faults c \<longleftrightarrow> \<not> in_slow_start c \<and> cwnd c = 0"

definition tcp_handle_syn :: "('a tnet_scheme \<Rightarrow> 'a tnet_scheme) \<Rightarrow> u32 \<Rightarrow> u16 \<Rightarrow> u16 \<Rightarrow> u32 \<Rightarrow> nat option \<Rightarrow> 'a tnet_scheme \<Rightarrow> 'a tnet_scheme" where
  "tcp_handle_syn poll sip src_port dest_port seq_num co n =
     (case co of
        None \<Rightarrow>
          (if tcp_connection_find_listen dest_port n = None then n
           else case tcp_connection_create (ip_our n) dest_port sip src_port n of
             (None, n) \<Rightarrow> n
           | (Some i, n) \<Rightarrow>
               (let n = put_conn i ((conn n i)\<lparr>c_state := TCP_SYN_RECEIVED, recv_seq := seq_num + 1\<rparr>) n; c = conn n i;
                    n = snd (tcp_send poll sip dest_port src_port (send_seq c) (recv_seq c) (TCP_FLAG_SYN OR TCP_FLAG_ACK) (recv_window c) [] n)
                in put_conn i ((conn n i)\<lparr>send_seq := send_seq (conn n i) + 1\<rparr>) n))
      | Some i \<Rightarrow>
          if c_state (conn n i) = TCP_SYN_SENT then
            (let n = put_conn i ((conn n i)\<lparr>c_state := TCP_ESTABLISHED, recv_seq := seq_num + 1\<rparr>) n; c = conn n i
             in snd (tcp_send poll sip dest_port src_port (send_seq c) (recv_seq c) TCP_FLAG_ACK (recv_window c) [] n))
          else n)"

definition ack_state :: "u32 \<Rightarrow> tcp_connection \<Rightarrow> tcp_connection" where
  "ack_state ack_num c =
     (let c = (if c_state c = TCP_SYN_RECEIVED then c\<lparr>c_state := TCP_ESTABLISHED, pending_accept := True\<rparr> else c)
      in if c_state c = TCP_FIN_WAIT_1 \<and> ack_num = send_seq c then c\<lparr>c_state := TCP_FIN_WAIT_2\<rparr> else c)"

definition tcp_handle_ack :: "u32 \<Rightarrow> u16 \<Rightarrow> nat \<Rightarrow> 'a tnet_scheme \<Rightarrow> 'a tnet_scheme" where
  "tcp_handle_ack ack_num window i n =
     (let c = ack_state ack_num (conn n i) in
      if ack_num > send_una c then
        (let acked = ack_num - send_una c; c = tcp_ack_retransmit ack_num (c\<lparr>send_una := ack_num\<rparr>)
         in put_conn i ((grow_cwnd acked c)\<lparr>send_window := window\<rparr>) (n\<lparr>divide_error := divide_error n \<or> grow_faults c\<rparr>))
      else put_conn i (c\<lparr>send_window := window\<rparr>) n)"

text \<open>The acknowledgements that follow received data and a FIN.\<close>

definition tcp_reply_ack :: "('a tnet_scheme \<Rightarrow> 'a tnet_scheme) \<Rightarrow> u32 \<Rightarrow> u16 \<Rightarrow> u16 \<Rightarrow> nat \<Rightarrow> 'a tnet_scheme \<Rightarrow> 'a tnet_scheme" where
  "tcp_reply_ack poll sip src_port dest_port i n =
     (let c = conn n i in snd (tcp_send poll sip dest_port src_port (send_seq c) (recv_seq c) TCP_FLAG_ACK (recv_window c) [] n))"

definition tcp_handle_data :: "('a tnet_scheme \<Rightarrow> 'a tnet_scheme) \<Rightarrow> u32 \<Rightarrow> u16 \<Rightarrow> u16 \<Rightarrow> u32 \<Rightarrow> u8 list \<Rightarrow> nat \<Rightarrow> 'a tnet_scheme \<Rightarrow> 'a tnet_scheme" where
  "tcp_handle_data poll sip src_port dest_port seq_num payload i n =
     (let c = conn n i in
      if payload \<noteq> [] \<and> c_state c = TCP_ESTABLISHED \<and> seq_num = recv_seq c \<and> length (rx_buffer c) + length payload \<le> TCP_RX_BUFFER_SIZE then
        tcp_reply_ack poll sip src_port dest_port i
          (put_conn i (c\<lparr>rx_buffer := rx_buffer c @ payload, recv_seq := recv_seq c + of_nat (length payload),
             recv_window := of_nat (TCP_RX_BUFFER_SIZE - length (rx_buffer c @ payload))\<rparr>) n)
      else n)"

definition tcp_handle_fin :: "('a tnet_scheme \<Rightarrow> 'a tnet_scheme) \<Rightarrow> u32 \<Rightarrow> u16 \<Rightarrow> u16 \<Rightarrow> nat \<Rightarrow> 'a tnet_scheme \<Rightarrow> 'a tnet_scheme" where
  "tcp_handle_fin poll sip src_port dest_port i n =
     (let c = conn n i in
      if c_state c = TCP_ESTABLISHED then
        tcp_reply_ack poll sip src_port dest_port i (put_conn i (c\<lparr>c_state := TCP_CLOSE_WAIT, recv_seq := recv_seq c + 1\<rparr>) n)
      else if c_state c = TCP_FIN_WAIT_2 then
        tcp_connection_close i (tcp_reply_ack poll sip src_port dest_port i (put_conn i (c\<lparr>recv_seq := recv_seq c + 1\<rparr>) n))
      else n)"

definition tcp_handle_packet :: "('a tnet_scheme \<Rightarrow> 'a tnet_scheme) \<Rightarrow> u32 \<Rightarrow> u32 \<Rightarrow> u8 list \<Rightarrow> 'a tnet_scheme \<Rightarrow> 'a tnet_scheme" where
  "tcp_handle_packet poll sip dip ip_payload n =
     (case tcp_parse_header ip_payload of
        None \<Rightarrow> n
      | Some (h, payload) \<Rightarrow>
          (let src_port = htons (th_src_port h); dest_port = htons (th_dest_port h); seq_num = htonl (th_seq_num h);
               ack_num = htonl (th_ack_num h); window = htons (th_window h); flags = th_flags h in
           if dip \<noteq> ip_our n then n
           else if th_checksum h \<noteq> 0 \<and> tcp_checksum sip dip ip_payload \<noteq> 0 then n
           else
             let co = tcp_connection_find (ip_our n) dest_port sip src_port n in
             if flags AND TCP_FLAG_RST \<noteq> 0 then (case co of Some i \<Rightarrow> tcp_connection_close i n | None \<Rightarrow> n)
             else
               let n = (if flags AND TCP_FLAG_SYN \<noteq> 0 then tcp_handle_syn poll sip src_port dest_port seq_num co n
                        else if flags AND TCP_FLAG_ACK \<noteq> 0 then (case co of Some i \<Rightarrow> tcp_handle_ack ack_num window i n | None \<Rightarrow> n)
                        else n)
               in case co of
                    None \<Rightarrow> n
                  | Some i \<Rightarrow>
                      (let n = tcp_handle_data poll sip src_port dest_port seq_num payload i n
                       in if flags AND TCP_FLAG_FIN \<noteq> 0 then tcp_handle_fin poll sip src_port dest_port i n else n)))"

section \<open>The calls of applications\<close>

definition tcp_init :: "'a tnet_scheme \<Rightarrow> 'a tnet_scheme" where
  "tcp_init n = tcp_connection_init n"

definition tcp_connect :: "('a tnet_scheme \<Rightarrow> 'a tnet_scheme) \<Rightarrow> u32 \<Rightarrow> u16 \<Rightarrow> 'a tnet_scheme \<Rightarrow> nat option \<times> 'a tnet_scheme" where
  "tcp_connect poll dip dest_port n =
     (if ip_our n = 0 then (None, n)
      else let src_port = 49152 + ucast (tcp_next_isn n mod 16384) in
        case tcp_connection_create (ip_our n) src_port dip dest_port n of
          (None, n) \<Rightarrow> (None, n)
        | (Some i, n) \<Rightarrow>
            (let c = conn n i;
                 n = snd (tcp_send poll dip src_port dest_port (send_seq c) 0 TCP_FLAG_SYN (recv_window c) [] n)
             in (Some i, put_conn i ((conn n i)\<lparr>send_seq := send_seq (conn n i) + 1\<rparr>) n)))"

definition wait_attempts :: "int \<Rightarrow> nat" where
  "wait_attempts timeout_ms = (let a = (if timeout_ms > 0 then timeout_ms div 100 else 50) in nat (if a < 1 then 1 else a))"

fun connect_wait :: "('a tnet_scheme \<Rightarrow> 'a tnet_scheme) \<Rightarrow> nat \<Rightarrow> nat \<Rightarrow> 'a tnet_scheme \<Rightarrow> bool \<times> 'a tnet_scheme" where
  "connect_wait poll i 0 n = (False, n)"
| "connect_wait poll i (Suc k) n =
     (let n = tcp_process_timers poll (poll n) in
      if c_state (conn n i) = TCP_ESTABLISHED then (True, n)
      else if c_state (conn n i) = TCP_CLOSED then (False, n)
      else connect_wait poll i k (net_wait_ms poll 10 n))"

definition tcp_connect_wait :: "('a tnet_scheme \<Rightarrow> 'a tnet_scheme) \<Rightarrow> nat \<Rightarrow> int \<Rightarrow> 'a tnet_scheme \<Rightarrow> bool \<times> 'a tnet_scheme" where
  "tcp_connect_wait poll i timeout_ms n =
     (if c_state (conn n i) = TCP_ESTABLISHED then (True, n) else connect_wait poll i (wait_attempts timeout_ms) n)"

definition tcp_listen :: "u16 \<Rightarrow> 'a tnet_scheme \<Rightarrow> nat option \<times> 'a tnet_scheme" where
  "tcp_listen port n =
     (if ip_our n = 0 then (None, n)
      else if tcp_connection_find_listen port n \<noteq> None then (None, n)
      else tcp_connection_alloc_listen (ip_our n) port n)"

fun accept_wait :: "('a tnet_scheme \<Rightarrow> 'a tnet_scheme) \<Rightarrow> nat \<Rightarrow> nat \<Rightarrow> 'a tnet_scheme \<Rightarrow> nat option \<times> 'a tnet_scheme" where
  "accept_wait poll l 0 n = (None, n)"
| "accept_wait poll l (Suc k) n =
     (let n = tcp_process_timers poll (poll n) in
      case tcp_connection_accept_pending (c_src_port (conn n l)) l n of
        Some i \<Rightarrow> (Some i, n)
      | None \<Rightarrow> accept_wait poll l k (net_wait_ms poll 10 n))"

definition tcp_accept :: "('a tnet_scheme \<Rightarrow> 'a tnet_scheme) \<Rightarrow> nat \<Rightarrow> int \<Rightarrow> 'a tnet_scheme \<Rightarrow> nat option \<times> 'a tnet_scheme" where
  "tcp_accept poll l timeout_ms n =
     (if c_state (conn n l) \<noteq> TCP_LISTEN then (None, n) else accept_wait poll l (wait_attempts timeout_ms) n)"

text \<open>One segment of tcp_send_data: its size is given by the segment size and the two windows.\<close>

definition segment_room :: "nat \<Rightarrow> tcp_connection \<Rightarrow> nat" where
  "segment_room left c =
     (let in_flight = send_seq c - send_una c; to_send = (if left > unat (mss c) then unat (mss c) else left);
          window_available = ucast (send_window c) - in_flight; cwnd_available = cwnd c - in_flight
      in min to_send (min (unat window_available) (unat cwnd_available)))"

definition window_closed :: "tcp_connection \<Rightarrow> bool" where
  "window_closed c \<longleftrightarrow> ucast (send_window c) - (send_seq c - send_una c) = 0 \<or> cwnd c - (send_seq c - send_una c) = 0"

definition send_segment :: "('a tnet_scheme \<Rightarrow> 'a tnet_scheme) \<Rightarrow> nat \<Rightarrow> u8 list \<Rightarrow> 'a tnet_scheme \<Rightarrow> 'a tnet_scheme" where
  "send_segment poll i data n =
     (let c = conn n i;
          n = snd (tcp_send poll (c_dest_ip c) (c_src_port c) (c_dest_port c) (send_seq c) (recv_seq c) (TCP_FLAG_ACK OR TCP_FLAG_PSH) (recv_window c) data n);
          n = tcp_add_retransmit i (send_seq (conn n i)) data n;
          c = (conn n i)\<lparr>send_seq := send_seq (conn n i) + of_nat (length data)\<rparr>
      in put_conn i (grow_cwnd (of_nat (length data)) c) (n\<lparr>divide_error := divide_error n \<or> grow_faults c\<rparr>))"

text \<open>The loop of tcp_send_data, which would not end with a segment size of zero.\<close>

partial_function (option) send_loop :: "('a tnet_scheme \<Rightarrow> 'a tnet_scheme) \<Rightarrow> nat \<Rightarrow> u8 list \<Rightarrow> nat \<Rightarrow> 'a tnet_scheme \<Rightarrow> (nat \<times> 'a tnet_scheme) option" where
  "send_loop poll i data off n =
     (if \<not> off < length data then Some (off, n)
      else if window_closed (conn n i) then Some (off, n)
      else let to_send = segment_room (length data - off) (conn n i)
        in send_loop poll i data (off + to_send) (send_segment poll i (take to_send (drop off data)) n))"

definition tcp_send_data :: "('a tnet_scheme \<Rightarrow> 'a tnet_scheme) \<Rightarrow> nat \<Rightarrow> u8 list \<Rightarrow> 'a tnet_scheme \<Rightarrow> (nat option \<times> 'a tnet_scheme) option" where
  "tcp_send_data poll i data n =
     (if c_state (conn n i) \<noteq> TCP_ESTABLISHED then Some (None, n)
      else case tcp_connection_send i data n of
        (False, n) \<Rightarrow> Some (None, n)
      | (True, n) \<Rightarrow> map_option (\<lambda>(off, n). (Some off, n)) (send_loop poll i data 0 n))"

definition tcp_recv_data :: "nat \<Rightarrow> nat \<Rightarrow> 'a tnet_scheme \<Rightarrow> u8 list \<times> 'a tnet_scheme" where
  "tcp_recv_data i max_len n = tcp_connection_receive i max_len n"

fun close_wait :: "('a tnet_scheme \<Rightarrow> 'a tnet_scheme) \<Rightarrow> nat \<Rightarrow> nat \<Rightarrow> 'a tnet_scheme \<Rightarrow> 'a tnet_scheme" where
  "close_wait poll i 0 n = n"
| "close_wait poll i (Suc k) n =
     (let n = tcp_process_timers poll (poll n) in
      if \<not> c_valid (conn n i) then n
      else if c_state (conn n i) = TCP_FIN_WAIT_2 \<or> c_state (conn n i) = TCP_CLOSED then n
      else close_wait poll i k (net_wait_ms poll 10 n))"

definition tcp_close :: "('a tnet_scheme \<Rightarrow> 'a tnet_scheme) \<Rightarrow> nat \<Rightarrow> 'a tnet_scheme \<Rightarrow> 'a tnet_scheme" where
  "tcp_close poll i n =
     (let n = (if c_state (conn n i) = TCP_ESTABLISHED then
          (let c = conn n i;
               n = snd (tcp_send poll (c_dest_ip c) (c_src_port c) (c_dest_port c) (send_seq c) (recv_seq c) (TCP_FLAG_FIN OR TCP_FLAG_ACK) (recv_window c) [] n)
           in close_wait poll i 50 (put_conn i ((conn n i)\<lparr>c_state := TCP_FIN_WAIT_1, send_seq := send_seq (conn n i) + 1\<rparr>) n))
          else n)
      in if c_valid (conn n i) then tcp_connection_close i n else n)"

end
