(* ===== verification/KTcpInv.thy ===== *)
theory KTcpInv
  imports KTcp
begin

text \<open>
  The invariant of the TCP connections (src/kernel/drivers/network/protocols/tcp_connection.cpp,
  tcp.cpp) and the end of the loop that sends data.
\<close>

text \<open>The buffers and the queue stay within their arrays, the window offered to the peer never
  exceeds the room of the receive buffer, a valid connection is not closed, and one that is not
  closed has its segment size. The slots U have been used, and keep their segment size.\<close>

definition tcp_ok :: "tcp_connection \<Rightarrow> bool" where
  "tcp_ok c \<longleftrightarrow> unat (recv_window c) + length (rx_buffer c) \<le> TCP_RX_BUFFER_SIZE \<and> length (tx_buffer c) \<le> TCP_TX_BUFFER_SIZE \<and>
     length (retransmit_queue c) \<le> TCP_MAX_RETRANSMIT \<and> (c_valid c \<longrightarrow> c_state c \<noteq> TCP_CLOSED) \<and> (c_state c \<noteq> TCP_CLOSED \<longrightarrow> mss c = 1460)"

definition tcp_inv :: "nat set \<Rightarrow> 'a tnet_scheme \<Rightarrow> bool" where
  "tcp_inv U n \<longleftrightarrow> length (tcp_connections n) = TCP_MAX_CONNECTIONS \<and> list_all tcp_ok (tcp_connections n) \<and>
     (\<forall>i \<in> U. i < TCP_MAX_CONNECTIONS \<and> mss (conn n i) = 1460)"

lemma tcp_inv_put: "tcp_inv U n \<Longrightarrow> (tcp_ok (conn n i) \<Longrightarrow> i < length (tcp_connections n) \<Longrightarrow> tcp_ok c \<and> (mss (conn n i) = 1460 \<longrightarrow> mss c = 1460)) \<Longrightarrow> tcp_inv U (put_conn i c n)"
  by (cases "i < length (tcp_connections n)") (auto simp: tcp_inv_def put_conn_def list_all_length nth_list_update)

lemma tcp_inv_conn: "tcp_inv U n \<Longrightarrow> i < length (tcp_connections n) \<Longrightarrow> tcp_ok (conn n i)"
  by (simp add: tcp_inv_def list_all_length)

lemma tcp_inv_length: "tcp_inv U n \<Longrightarrow> length (tcp_connections n) = TCP_MAX_CONNECTIONS"
  by (simp add: tcp_inv_def)

lemma tcp_inv_fields [simp]: "tcp_inv U (n\<lparr>divide_error := d\<rparr>) = tcp_inv U n" "tcp_inv U (n\<lparr>tcp_next_isn := s\<rparr>) = tcp_inv U n"
  by (simp_all add: tcp_inv_def)

lemma put_conn_same: "i < length (tcp_connections n) \<Longrightarrow> conn (put_conn i c n) i = c"
  by (simp add: put_conn_def)

lemma put_conn_length [simp]: "length (tcp_connections (put_conn i c n)) = length (tcp_connections n)"
  by (simp add: put_conn_def)

lemma grow_cwnd_ok [simp]: "tcp_ok (grow_cwnd k c) = tcp_ok c" "mss (grow_cwnd k c) = mss c"
  by (simp_all add: grow_cwnd_def Let_def tcp_ok_def)

lemma tcp_ok_fields [simp]: "tcp_ok (c\<lparr>send_window := w\<rparr>) = tcp_ok c" "tcp_ok (c\<lparr>send_una := u\<rparr>) = tcp_ok c" "tcp_ok (c\<lparr>send_seq := u\<rparr>) = tcp_ok c"
  "tcp_ok (c\<lparr>recv_seq := u\<rparr>) = tcp_ok c"
  by (simp_all add: tcp_ok_def)

lemma tcp_inv_init:
  "length (tcp_connections n) = TCP_MAX_CONNECTIONS \<Longrightarrow> \<forall>c \<in> set (tcp_connections n). unat (recv_window c) \<le> TCP_RX_BUFFER_SIZE \<Longrightarrow> tcp_inv {} (tcp_init n)"
  by (auto simp: tcp_inv_def tcp_init_def tcp_connection_init_def tcp_ok_def list_all_iff)

lemma tcp_inv_create: "tcp_inv U n \<Longrightarrow> tcp_inv U (snd (tcp_connection_create a b c d n))"
  by (auto simp: tcp_connection_create_def tcp_ok_def split: option.splits intro!: tcp_inv_put)

lemma tcp_create_valid: "tcp_connection_create a b c d n = (Some i, n') \<Longrightarrow> i < length (tcp_connections n') \<and> c_valid (conn n' i) \<and> mss (conn n' i) = 1460"
  by (auto simp: tcp_connection_create_def put_conn_def split: option.splits dest: find_slot_SomeD)

lemma tcp_inv_listen: "tcp_inv U n \<Longrightarrow> tcp_inv U (snd (tcp_listen p n))"
  by (auto simp: tcp_listen_def tcp_connection_alloc_listen_def tcp_ok_def split: option.splits intro!: tcp_inv_put)

lemma tcp_inv_close: "tcp_inv U n \<Longrightarrow> tcp_inv U (tcp_connection_close i n)"
  unfolding tcp_connection_close_def by (erule tcp_inv_put) (simp add: tcp_ok_def)

lemma tcp_inv_add_retransmit: "tcp_inv U n \<Longrightarrow> tcp_inv U (tcp_add_retransmit i s d n)"
  by (auto simp: tcp_add_retransmit_def Let_def tcp_ok_def intro!: tcp_inv_put)

lemma tcp_inv_receive: "tcp_inv U n \<Longrightarrow> tcp_inv U (snd (tcp_recv_data i k n))"
  by (auto simp: tcp_recv_data_def tcp_connection_receive_def Let_def tcp_ok_def intro!: tcp_inv_put)

lemma tcp_inv_buffer: "tcp_inv U n \<Longrightarrow> tcp_inv U (snd (tcp_connection_send i d n))"
  by (auto simp: tcp_connection_send_def Let_def tcp_ok_def intro!: tcp_inv_put)

lemma tcp_ack_ok: "tcp_ok c \<Longrightarrow> tcp_ok (tcp_ack_retransmit a c)"
  by (simp add: tcp_ack_retransmit_def tcp_ok_def) (meson le_trans length_filter_le)

lemma ack_state_ok: "tcp_ok c \<Longrightarrow> c_state c \<noteq> TCP_CLOSED \<Longrightarrow> tcp_ok (ack_state a c)"
  by (simp add: ack_state_def Let_def tcp_ok_def)

lemma ack_mss [simp]: "mss (tcp_ack_retransmit a c) = mss c" "mss (ack_state a c) = mss c"
  by (simp_all add: tcp_ack_retransmit_def ack_state_def Let_def)

lemma tcp_inv_ack: "tcp_inv U n \<Longrightarrow> c_state (conn n i) \<noteq> TCP_CLOSED \<Longrightarrow> tcp_inv U (tcp_handle_ack a w i n)"
  by (auto simp: tcp_handle_ack_def Let_def intro!: tcp_inv_put ack_state_ok tcp_ack_ok)

lemma tcp_ok_data:
  assumes "tcp_ok c" and "length (rx_buffer c) + length p \<le> TCP_RX_BUFFER_SIZE"
  shows "tcp_ok (c\<lparr>rx_buffer := rx_buffer c @ p, recv_seq := s, recv_window := of_nat (TCP_RX_BUFFER_SIZE - length (rx_buffer c @ p))\<rparr>)"
proof -
  have "unat (of_nat (TCP_RX_BUFFER_SIZE - length (rx_buffer c @ p)) :: u16) = TCP_RX_BUFFER_SIZE - length (rx_buffer c @ p)" by (rule unat_of_nat16) simp
  then show ?thesis using assms by (simp add: tcp_ok_def del: of_nat_diff)
qed

section \<open>Operations that send\<close>

lemma tcp_inv_above: "above m = above n \<Longrightarrow> tcp_inv U n \<Longrightarrow> tcp_inv U m"
  by (cases m; cases n) (simp add: above_def tcp_inv_def)

text \<open>The interface of a wait: what serves the network keeps the invariant.\<close>

locale tcp_polled =
  fixes poll :: "'a tnet_scheme \<Rightarrow> 'a tnet_scheme"
  assumes poll_inv: "tcp_inv U n \<Longrightarrow> tcp_inv U (poll n)"

sublocale tcp_polled \<subseteq> keeps_above poll "tcp_inv U" for U
  by unfold_locales (auto intro: tcp_inv_above poll_inv)

context tcp_polled
begin

lemma send_inv: "tcp_inv U n \<Longrightarrow> tcp_inv U (snd (tcp_send poll d sp dp s a f w p n))"
  by (auto simp: tcp_send_def Let_def output_R split: option.splits)

lemma reply_ack_inv: "tcp_inv U n \<Longrightarrow> tcp_inv U (tcp_reply_ack poll s sp dp i n)"
  by (simp add: tcp_reply_ack_def Let_def send_inv)

lemma data_inv: "tcp_inv U n \<Longrightarrow> tcp_inv U (tcp_handle_data poll s sp dp q p i n)"
  by (auto simp: tcp_handle_data_def Let_def simp del: of_nat_diff length_append intro!: reply_ack_inv tcp_inv_put tcp_ok_data)

lemma fin_inv: "tcp_inv U n \<Longrightarrow> tcp_inv U (tcp_handle_fin poll s sp dp i n)"
  by (auto simp: tcp_handle_fin_def Let_def tcp_ok_def intro!: reply_ack_inv tcp_inv_put tcp_inv_close)

lemma syn_inv: "tcp_inv U n \<Longrightarrow> tcp_inv U (tcp_handle_syn poll s sp dp q co n)"
proof (cases co)
  case None
  assume inv: "tcp_inv U n"
  obtain r m where r: "tcp_connection_create (ip_our n) dp s sp n = (r, m)" by (cases "tcp_connection_create (ip_our n) dp s sp n")
  have m: "tcp_inv U m" using tcp_inv_create [OF inv] r by (metis snd_conv)
  show ?thesis
  proof (cases r)
    case (Some i)
    have "tcp_inv U (put_conn i ((conn m i)\<lparr>c_state := TCP_SYN_RECEIVED, recv_seq := q + 1\<rparr>) m)"
      using m tcp_create_valid [of "ip_our n" dp s sp n i m] r Some by (intro tcp_inv_put) (auto simp: tcp_ok_def)
    then show ?thesis using inv r Some None by (auto simp: tcp_handle_syn_def Let_def intro!: tcp_inv_put send_inv)
  qed (use inv m r None in \<open>simp add: tcp_handle_syn_def\<close>)
next
  case (Some i)
  assume inv: "tcp_inv U n"
  have "tcp_inv U (put_conn i ((conn n i)\<lparr>c_state := TCP_ESTABLISHED, recv_seq := q + 1\<rparr>) n)" if "c_state (conn n i) = TCP_SYN_SENT"
    using inv that by (intro tcp_inv_put) (auto simp: tcp_ok_def)
  then show ?thesis using inv Some by (auto simp: tcp_handle_syn_def Let_def intro!: send_inv)
qed

lemma packet_inv: "tcp_inv U n \<Longrightarrow> tcp_inv U (tcp_handle_packet poll s d b n)"
proof -
  assume inv: "tcp_inv U n"
  have "tcp_inv U (tcp_handle_ack a w i n)" if "tcp_connection_find l lp r rp n = Some i" for a w l lp r rp i
    using find_slot_SomeD [OF that [unfolded tcp_connection_find_def]] tcp_inv_conn [OF inv, of i] inv
    by (intro tcp_inv_ack) (auto simp: tcp_ok_def)
  then show ?thesis
    unfolding tcp_handle_packet_def Let_def using inv
    by (auto split: option.splits intro!: tcp_inv_close syn_inv data_inv fin_inv)
qed

lemma retransmit_one_inv: "tcp_inv U n \<Longrightarrow> tcp_inv U (retransmit_one poll i j n)"
  unfolding retransmit_one_def Let_def by (auto simp: tcp_ok_def intro!: tcp_inv_close tcp_inv_put send_inv)

lemma timers_inv: "tcp_inv U n \<Longrightarrow> tcp_inv U (tcp_process_timers poll n)"
proof -
  assume inv: "tcp_inv U n"
  have one: "tcp_inv U (fold (retransmit_one poll i) js m)" if "tcp_inv U m" for i js m
    using that by (induction js arbitrary: m) (simp_all add: retransmit_one_inv)
  have "tcp_inv U (fold (\<lambda>i n. if c_valid (conn n i) then fold (retransmit_one poll i) [0..<TCP_MAX_RETRANSMIT] n else n) is m)" if "tcp_inv U m" for "is" m
    using that by (induction "is" arbitrary: m) (simp_all add: one)
  then show ?thesis using inv unfolding tcp_process_timers_def by blast
qed

lemma connect_inv: "tcp_inv U n \<Longrightarrow> tcp_inv U (snd (tcp_connect poll d dp n))"
  using tcp_inv_create [of U n "ip_our n"] unfolding tcp_connect_def Let_def
  by (auto simp: case_prod_unfold split: option.split intro!: tcp_inv_put send_inv)

lemma connect_wait_inv: "tcp_inv U n \<Longrightarrow> tcp_inv U (snd (tcp_connect_wait poll i t n))"
proof -
  assume inv: "tcp_inv U n"
  have "tcp_inv U (snd (connect_wait poll i k m))" if "tcp_inv U m" for k m
    using that by (induction k arbitrary: m) (simp_all add: Let_def timers_inv poll_inv wait_R)
  then show ?thesis using inv by (simp add: tcp_connect_wait_def)
qed

lemma accept_inv: "tcp_inv U n \<Longrightarrow> tcp_inv U (snd (tcp_accept poll l t n))"
proof -
  assume inv: "tcp_inv U n"
  have "tcp_inv U (snd (accept_wait poll l k m))" if "tcp_inv U m" for k m
    using that by (induction k arbitrary: m) (simp_all add: Let_def timers_inv poll_inv wait_R split: option.split)
  then show ?thesis using inv by (simp add: tcp_accept_def)
qed

lemma close_wait_inv: "tcp_inv U n \<Longrightarrow> tcp_inv U (close_wait poll i k n)"
  by (induction k arbitrary: n) (simp_all add: Let_def timers_inv poll_inv wait_R)

lemma segment_inv: "tcp_inv U n \<Longrightarrow> tcp_inv U (send_segment poll i d n)"
  unfolding send_segment_def Let_def by (auto intro!: tcp_inv_put tcp_inv_add_retransmit send_inv)

lemma close_inv: "tcp_inv U n \<Longrightarrow> i < TCP_MAX_CONNECTIONS \<Longrightarrow> tcp_inv U (tcp_close poll i n)"
proof -
  assume inv: "tcp_inv U n" and i: "i < TCP_MAX_CONNECTIONS"
  let ?m = "snd (tcp_send poll (c_dest_ip (conn n i)) (c_src_port (conn n i)) (c_dest_port (conn n i)) (send_seq (conn n i)) (recv_seq (conn n i))
    (TCP_FLAG_FIN OR TCP_FLAG_ACK) (recv_window (conn n i)) [] n)"
  have "tcp_inv U (put_conn i ((conn ?m i)\<lparr>c_state := TCP_FIN_WAIT_1, send_seq := send_seq (conn ?m i) + 1\<rparr>) ?m)" if "c_state (conn n i) = TCP_ESTABLISHED"
  proof -
    have "mss (conn n i) = 1460" using tcp_inv_conn [OF inv, of i] tcp_inv_length [OF inv] i that by (simp add: tcp_ok_def)
    then have "tcp_inv (insert i U) n" using inv i by (simp add: tcp_inv_def)
    then have "tcp_inv (insert i U) ?m" by (rule send_inv)
    then have "tcp_inv U ?m" "mss (conn ?m i) = 1460" by (simp_all add: tcp_inv_def)
    then show ?thesis by (intro tcp_inv_put) (auto simp: tcp_ok_def)
  qed
  then show ?thesis using inv unfolding tcp_close_def Let_def by (auto intro!: close_wait_inv tcp_inv_close)
qed

text \<open>The loop of tcp_send_data ends: every round sends at least one byte.\<close>

lemma segment_room_pos: "\<not> window_closed c \<Longrightarrow> mss c \<noteq> 0 \<Longrightarrow> 0 < left \<Longrightarrow> 0 < segment_room left c"
  by (auto simp: segment_room_def window_closed_def Let_def unat_gt_0)

lemma segment_room_le: "segment_room left c \<le> left"
  by (auto simp: segment_room_def Let_def min_def)

lemma send_loop_returns:
  "tcp_inv U n \<Longrightarrow> i \<in> U \<Longrightarrow> \<exists>k m. send_loop poll i data off n = Some (k, m) \<and> (off \<le> length data \<longrightarrow> k \<le> length data) \<and> tcp_inv U m"
proof (induction "length data - off" arbitrary: off n rule: less_induct)
  case less
  show ?case
  proof (cases "off < length data \<and> \<not> window_closed (conn n i)")
    case True
    let ?t = "segment_room (length data - off) (conn n i)"
    have "mss (conn n i) = 1460" using less.prems by (simp add: tcp_inv_def)
    then have t: "0 < ?t" "?t \<le> length data - off" using True by (simp_all add: segment_room_pos segment_room_le)
    have "length data - (off + ?t) < length data - off" using t True by linarith
    moreover have "tcp_inv U (send_segment poll i (take ?t (drop off data)) n)" using less.prems(1) by (rule segment_inv)
    ultimately have "\<exists>k m. send_loop poll i data (off + ?t) (send_segment poll i (take ?t (drop off data)) n) = Some (k, m) \<and>
        (off + ?t \<le> length data \<longrightarrow> k \<le> length data) \<and> tcp_inv U m"
      using less.hyps less.prems(2) by blast
    then show ?thesis using True t by (subst send_loop.simps) (auto simp: Let_def)
  qed (use less.prems in \<open>subst send_loop.simps, auto\<close>)
qed

lemma send_data_returns:
  assumes "tcp_inv U n" and "i < TCP_MAX_CONNECTIONS"
  shows "\<exists>r m. tcp_send_data poll i data n = Some (r, m) \<and> tcp_inv U m \<and> (\<forall>k. r = Some k \<longrightarrow> k \<le> length data)"
proof (cases "c_state (conn n i) = TCP_ESTABLISHED")
  case True
  have "mss (conn n i) = 1460" using tcp_inv_conn [OF assms(1), of i] tcp_inv_length [OF assms(1)] assms(2) True by (simp add: tcp_ok_def)
  then have "tcp_inv (insert i U) n" using assms by (simp add: tcp_inv_def)
  then have b: "tcp_inv (insert i U) (snd (tcp_connection_send i data n))" by (rule tcp_inv_buffer)
  obtain k m where k: "send_loop poll i data 0 (snd (tcp_connection_send i data n)) = Some (k, m)" "k \<le> length data" "tcp_inv (insert i U) m"
    using send_loop_returns [OF b, of i data 0] by auto
  moreover have "tcp_inv U (snd (tcp_connection_send i data n))" "tcp_inv U m" using b k(3) by (simp_all add: tcp_inv_def)
  ultimately show ?thesis using True by (cases "tcp_connection_send i data n") (auto simp: tcp_send_data_def split: bool.splits)
qed (use assms in \<open>simp add: tcp_send_data_def\<close>)

end

interpretation idle_tcp: tcp_polled id
  by unfold_locales simp

end
