(* ===== verification/KTcpStream.thy ===== *)
theory KTcpStream
  imports KTcpInv
begin

text \<open>
  What a segment does to the connections: the handler of
  src/kernel/drivers/network/protocols/tcp.cpp as a function on one connection, the states it
  passes through, and the stream of bytes an application reads.
\<close>

section \<open>The handler on one connection\<close>

definition ack_conn :: "u32 \<Rightarrow> u16 \<Rightarrow> tcp_connection \<Rightarrow> tcp_connection" where
  "ack_conn a w c =
     (let c = ack_state a c in
      (if a > send_una c then grow_cwnd (a - send_una c) (tcp_ack_retransmit a (c\<lparr>send_una := a\<rparr>)) else c)\<lparr>send_window := w\<rparr>)"

definition data_conn :: "u32 \<Rightarrow> u8 list \<Rightarrow> tcp_connection \<Rightarrow> tcp_connection" where
  "data_conn q p c =
     (if p \<noteq> [] \<and> c_state c = TCP_ESTABLISHED \<and> q = recv_seq c \<and> length (rx_buffer c) + length p \<le> TCP_RX_BUFFER_SIZE
      then c\<lparr>rx_buffer := rx_buffer c @ p, recv_seq := recv_seq c + of_nat (length p), recv_window := of_nat (TCP_RX_BUFFER_SIZE - length (rx_buffer c @ p))\<rparr>
      else c)"

definition fin_conn :: "tcp_connection \<Rightarrow> tcp_connection" where
  "fin_conn c =
     (if c_state c = TCP_ESTABLISHED then c\<lparr>c_state := TCP_CLOSE_WAIT, recv_seq := recv_seq c + 1\<rparr>
      else if c_state c = TCP_FIN_WAIT_2 then c\<lparr>recv_seq := recv_seq c + 1, c_state := TCP_CLOSED, c_valid := False\<rparr> else c)"

definition syn_conn :: "u32 \<Rightarrow> tcp_connection \<Rightarrow> tcp_connection" where
  "syn_conn q c = (if c_state c = TCP_SYN_SENT then c\<lparr>c_state := TCP_ESTABLISHED, recv_seq := q + 1\<rparr> else c)"

definition seg_conn :: "u8 \<Rightarrow> u32 \<Rightarrow> u32 \<Rightarrow> u16 \<Rightarrow> u8 list \<Rightarrow> tcp_connection \<Rightarrow> tcp_connection" where
  "seg_conn fl q a w p c =
     (if fl AND TCP_FLAG_RST \<noteq> 0 then c\<lparr>c_state := TCP_CLOSED, c_valid := False\<rparr>
      else let c = (if fl AND TCP_FLAG_SYN \<noteq> 0 then syn_conn q c else if fl AND TCP_FLAG_ACK \<noteq> 0 then ack_conn a w c else c);
               c = data_conn q p c
        in if fl AND TCP_FLAG_FIN \<noteq> 0 then fin_conn c else c)"

text \<open>The connection a SYN for a listening port creates.\<close>

definition passive_open :: "u32 \<Rightarrow> u16 \<Rightarrow> u32 \<Rightarrow> u16 \<Rightarrow> u32 \<Rightarrow> 'a tnet_scheme \<Rightarrow> tcp_connection" where
  "passive_open l lp r rp q n =
     \<lparr>c_src_ip = l, c_src_port = lp, c_dest_ip = r, c_dest_port = rp, c_state = TCP_SYN_RECEIVED, send_seq = tcp_next_isn n + 1,
      send_una = tcp_next_isn n, recv_seq = q + 1, send_window = of_nat TCP_RX_BUFFER_SIZE, recv_window = of_nat TCP_RX_BUFFER_SIZE,
      mss = 1460, rx_buffer = [], tx_buffer = [], retransmit_queue = [], cwnd = 1, ssthresh = 65535, in_slow_start = True,
      last_activity = ticks n, pending_accept = False, c_valid = True\<rparr>"

definition seg_table :: "u32 \<Rightarrow> u32 \<Rightarrow> tcp_header \<Rightarrow> u8 list \<Rightarrow> 'a tnet_scheme \<Rightarrow> tcp_connection list" where
  "seg_table s d h p n =
     (let lp = htons (th_dest_port h); rp = htons (th_src_port h); q = htonl (th_seq_num h) in
      case tcp_connection_find d lp s rp n of
        Some i \<Rightarrow> (tcp_connections n)[i := seg_conn (th_flags h) q (htonl (th_ack_num h)) (htons (th_window h)) p (conn n i)]
      | None \<Rightarrow>
          if th_flags h AND TCP_FLAG_RST = 0 \<and> th_flags h AND TCP_FLAG_SYN \<noteq> 0 \<and> tcp_connection_find_listen lp n \<noteq> None
          then (case find_slot (\<lambda>c. \<not> c_valid c) (tcp_connections n) of
                  None \<Rightarrow> tcp_connections n
                | Some j \<Rightarrow> (tcp_connections n)[j := passive_open d lp s rp q n])
          else tcp_connections n)"

lemma more_tcp: "ipnet.more m = ipnet.more n \<Longrightarrow> tcp_connections m = tcp_connections n \<and> tcp_next_isn m = tcp_next_isn n \<and> divide_error m = divide_error n \<and> tnet.more m = tnet.more n"
  by (cases m; cases n) simp

lemma idle_send [simp]:
  "tcp_connections (snd (tcp_send id d sp dp s a f w p n)) = tcp_connections n" "ip_our (snd (tcp_send id d sp dp s a f w p n)) = ip_our n"
  "tnet.more (snd (tcp_send id d sp dp s a f w p n)) = tnet.more n"
proof -
  have "ipnet.more (snd (tcp_send id d sp dp s a f w p n)) = ipnet.more n" by (simp add: tcp_send_def Let_def split: option.split)
  from more_tcp [OF this] show "tcp_connections (snd (tcp_send id d sp dp s a f w p n)) = tcp_connections n"
    "tnet.more (snd (tcp_send id d sp dp s a f w p n)) = tnet.more n" by simp_all
  show "ip_our (snd (tcp_send id d sp dp s a f w p n)) = ip_our n" by (simp add: tcp_send_def Let_def split: option.split)
qed

lemma put_conn_table [simp]: "tcp_connections (put_conn i c n) = (tcp_connections n)[i := c]" "ip_our (put_conn i c n) = ip_our n"
  by (simp_all add: put_conn_def)

lemma handle_tables:
  "tcp_connections (tcp_handle_ack a w i n) = (tcp_connections n)[i := ack_conn a w (conn n i)]"
  "tcp_connections (tcp_handle_data id s rp lp q p i n) = (tcp_connections n)[i := data_conn q p (conn n i)]"
  "i < length (tcp_connections n) \<Longrightarrow> tcp_connections (tcp_handle_fin id s rp lp i n) = (tcp_connections n)[i := fin_conn (conn n i)]"
  "tcp_connections (tcp_handle_syn id s rp lp q (Some i) n) = (tcp_connections n)[i := syn_conn q (conn n i)]"
  by (simp_all add: tcp_handle_ack_def ack_conn_def tcp_handle_data_def data_conn_def tcp_handle_fin_def fin_conn_def tcp_handle_syn_def syn_conn_def
      tcp_reply_ack_def tcp_connection_close_def Let_def del: of_nat_diff length_append)

lemma handle_our [simp]:
  "ip_our (tcp_handle_ack a w i n) = ip_our n" "ip_our (tcp_handle_data id s rp lp q p i n) = ip_our n"
  "ip_our (tcp_handle_fin id s rp lp i n) = ip_our n" "ip_our (tcp_handle_syn id s rp lp q co n) = ip_our n"
  by (auto simp: tcp_handle_ack_def tcp_handle_data_def tcp_handle_fin_def tcp_handle_syn_def tcp_reply_ack_def tcp_connection_close_def
      tcp_connection_create_def Let_def split: option.splits)

lemma handle_packet_our [simp]: "ip_our (tcp_handle_packet id s d b n) = ip_our n"
  by (auto simp: tcp_handle_packet_def Let_def tcp_connection_close_def split: option.splits)

lemma syn_table:
  "tcp_connections (tcp_handle_syn id s rp lp q None n) =
     (if tcp_connection_find_listen lp n = None then tcp_connections n
      else case find_slot (\<lambda>c. \<not> c_valid c) (tcp_connections n) of None \<Rightarrow> tcp_connections n
        | Some j \<Rightarrow> (tcp_connections n)[j := passive_open (ip_our n) lp s rp q n])"
  by (auto simp: tcp_handle_syn_def tcp_connection_create_def passive_open_def Let_def dest: find_slot_SomeD split: option.splits)

lemma handle_packet_table:
  assumes "tcp_parse_header b = Some (h, p)" and "d = ip_our n" and "th_checksum h = 0 \<or> tcp_checksum s d b = 0"
  shows "tcp_connections (tcp_handle_packet id s d b n) = seg_table s d h p n"
proof (cases "tcp_connection_find d (htons (th_dest_port h)) s (htons (th_src_port h)) n")
  case None
  then show ?thesis using assms by (auto simp: tcp_handle_packet_def Let_def seg_table_def syn_table)
next
  case (Some i)
  have "i < length (tcp_connections n)" using Some find_slot_SomeD(1) unfolding tcp_connection_find_def by blast
  then show ?thesis using Some assms
    by (auto simp: tcp_handle_packet_def Let_def seg_table_def handle_tables seg_conn_def tcp_connection_close_def)
qed

lemma handle_packet_dropped:
  assumes "tcp_parse_header b = None \<or> d \<noteq> ip_our n \<or> (\<exists>h p. tcp_parse_header b = Some (h, p) \<and> th_checksum h \<noteq> 0 \<and> tcp_checksum s d b \<noteq> 0)"
  shows "tcp_handle_packet poll s d b n = n"
  using assms by (auto simp: tcp_handle_packet_def Let_def split: option.splits)

text \<open>
  Fact: handling a segment within net_process changes the table of connections as seg_table says:
  a segment that does not parse, is for another address or fails the checksum changes nothing; one
  for a known connection acts on that connection alone; a SYN for a listening port opens a new
  connection in a free slot.
\<close>

theorem tcp_handle_packet_refines:
  "tcp_connections (tcp_handle_packet id s d b n) =
     (case tcp_parse_header b of
        None \<Rightarrow> tcp_connections n
      | Some (h, p) \<Rightarrow>
          if d = ip_our n \<and> (th_checksum h = 0 \<or> tcp_checksum s d b = 0) then seg_table s d h p n else tcp_connections n)"
  using handle_packet_table [of b _ _ d n s] handle_packet_dropped [of b d n s id] by (auto split: option.split)

section \<open>The states of a connection\<close>

inductive tcp_step :: "u8 \<Rightarrow> tcp_state \<Rightarrow> tcp_state \<Rightarrow> bool" for fl :: u8 where
  passive_syn: "fl AND TCP_FLAG_SYN \<noteq> 0 \<Longrightarrow> tcp_step fl TCP_CLOSED TCP_SYN_RECEIVED"
| active_syn: "fl AND TCP_FLAG_SYN \<noteq> 0 \<Longrightarrow> tcp_step fl TCP_SYN_SENT TCP_ESTABLISHED"
| accepted: "fl AND TCP_FLAG_ACK \<noteq> 0 \<Longrightarrow> tcp_step fl TCP_SYN_RECEIVED TCP_ESTABLISHED"
| fin_acked: "fl AND TCP_FLAG_ACK \<noteq> 0 \<Longrightarrow> tcp_step fl TCP_FIN_WAIT_1 TCP_FIN_WAIT_2"
| peer_closes: "fl AND TCP_FLAG_FIN \<noteq> 0 \<Longrightarrow> tcp_step fl TCP_ESTABLISHED TCP_CLOSE_WAIT"
| both_closed: "fl AND TCP_FLAG_FIN \<noteq> 0 \<Longrightarrow> tcp_step fl TCP_FIN_WAIT_2 TCP_CLOSED"
| reset: "fl AND TCP_FLAG_RST \<noteq> 0 \<Longrightarrow> tcp_step fl st TCP_CLOSED"

definition slot_state :: "tcp_connection \<Rightarrow> tcp_state" where
  "slot_state c = (if c_valid c then c_state c else TCP_CLOSED)"

lemma ack_conn_state: "c_state (ack_conn a w c) = c_state (ack_state a c)" "c_valid (ack_conn a w c) = c_valid c"
  by (simp_all add: ack_conn_def Let_def grow_cwnd_def tcp_ack_retransmit_def ack_state_def)

lemma data_conn_state [simp]: "c_state (data_conn q p c) = c_state c" "c_valid (data_conn q p c) = c_valid c"
  by (simp_all add: data_conn_def)

lemma fin_conn_steps: "c_valid c \<Longrightarrow> fl AND TCP_FLAG_FIN \<noteq> 0 \<Longrightarrow> (tcp_step fl)\<^sup>*\<^sup>* (c_state c) (slot_state (fin_conn c))"
  by (auto simp: fin_conn_def slot_state_def intro: r_into_rtranclp tcp_step.intros)

lemma seg_conn_steps:
  assumes "c_valid c"
  shows "(tcp_step fl)\<^sup>*\<^sup>* (c_state c) (slot_state (seg_conn fl q a w p c))"
proof (cases "fl AND TCP_FLAG_RST \<noteq> 0")
  case True
  then show ?thesis by (auto simp: seg_conn_def slot_state_def intro: r_into_rtranclp tcp_step.reset)
next
  case False
  let ?c = "if fl AND TCP_FLAG_SYN \<noteq> 0 then syn_conn q c else if fl AND TCP_FLAG_ACK \<noteq> 0 then ack_conn a w c else c"
  have v: "c_valid ?c" using assms by (simp add: syn_conn_def ack_conn_state)
  have "(tcp_step fl)\<^sup>*\<^sup>* (c_state c) (c_state ?c)"
    by (auto simp: syn_conn_def ack_conn_state ack_state_def Let_def intro: r_into_rtranclp tcp_step.intros)
  moreover have "(tcp_step fl)\<^sup>*\<^sup>* (c_state ?c) (slot_state (seg_conn fl q a w p c))"
  proof (cases "fl AND TCP_FLAG_FIN \<noteq> 0")
    case fin: True
    then show ?thesis using v False fin_conn_steps [of "data_conn q p ?c" fl] by (simp add: seg_conn_def Let_def)
  next
    case nofin: False
    then show ?thesis using v False by (simp add: seg_conn_def Let_def slot_state_def)
  qed
  ultimately show ?thesis by simp
qed

text \<open>
  C33: every segment moves every slot of the table along the steps of tcp_step that its flags
  allow; in particular a connection becomes established only by a SYN that answers its own SYN, or
  by an acknowledgement after a SYN was received.
\<close>

theorem tcp_state_machine:
  assumes "tcp_parse_header b = Some (h, p)" and "i < length (tcp_connections n)"
  shows "(tcp_step (th_flags h))\<^sup>*\<^sup>* (slot_state (conn n i)) (slot_state (conn (tcp_handle_packet id s d b n) i))"
proof (cases "d = ip_our n \<and> (th_checksum h = 0 \<or> tcp_checksum s d b = 0)")
  case True
  then have t: "tcp_connections (tcp_handle_packet id s d b n) = seg_table s d h p n" using handle_packet_table [OF assms(1)] by blast
  show ?thesis
  proof (cases "tcp_connection_find d (htons (th_dest_port h)) s (htons (th_src_port h)) n")
    case None
    let ?c = "conn (tcp_handle_packet id s d b n) i" let ?new = "passive_open d (htons (th_dest_port h)) s (htons (th_src_port h)) (htonl (th_seq_num h)) n"
    have j: "(tcp_connections n)[j := x] ! i = x \<and> \<not> c_valid (conn n i) \<or> (tcp_connections n)[j := x] ! i = conn n i" if "find_slot (\<lambda>c. \<not> c_valid c) (tcp_connections n) = Some j" for j x
      using find_slot_SomeD(2) [OF that] assms(2) by (cases "i = j") simp_all
    have "?c = conn n i \<or> \<not> c_valid (conn n i) \<and> th_flags h AND TCP_FLAG_SYN \<noteq> 0 \<and> ?c = ?new"
      using None assms(2) j by (auto simp: t seg_table_def Let_def split: option.split)
    moreover have "slot_state ?new = TCP_SYN_RECEIVED" by (simp add: slot_state_def passive_open_def)
    moreover have "slot_state (conn n i) = TCP_CLOSED" if "\<not> c_valid (conn n i)" using that by (simp add: slot_state_def)
    ultimately show ?thesis using r_into_rtranclp [of "tcp_step (th_flags h)", OF tcp_step.passive_syn] by auto
  next
    case (Some j)
    then have "c_valid (conn n j)" using find_slot_SomeD(2) unfolding tcp_connection_find_def by blast
    then show ?thesis using Some assms(2) seg_conn_steps [of "conn n j"]
      by (cases "i = j") (simp_all add: t seg_table_def Let_def, simp add: slot_state_def)
  qed
next
  case False
  then have "tcp_handle_packet id s d b n = n" using assms(1) by (intro handle_packet_dropped) auto
  then show ?thesis by simp
qed

section \<open>The stream of bytes\<close>

text \<open>The connection has received the first k bytes of D, of which dlv were read.\<close>

definition in_stream :: "u8 list \<Rightarrow> u32 \<Rightarrow> nat \<Rightarrow> u8 list \<Rightarrow> tcp_connection \<Rightarrow> bool" where
  "in_stream D s0 k dlv c \<longleftrightarrow> c_state c = TCP_ESTABLISHED \<and> k \<le> length D \<and> recv_seq c = s0 + of_nat k \<and> dlv @ rx_buffer c = take k D"

text \<open>A piece of the stream at its sequence number.\<close>

definition piece :: "u8 list \<Rightarrow> u32 \<Rightarrow> u32 \<Rightarrow> u8 list \<Rightarrow> bool" where
  "piece D s0 q p \<longleftrightarrow> (\<exists>off. off + length p \<le> length D \<and> q = s0 + of_nat off \<and> p = take (length p) (drop off D))"

abbreviation (input) plain :: "u8 \<Rightarrow> bool" where
  "plain fl \<equiv> fl AND TCP_FLAG_RST = 0 \<and> fl AND TCP_FLAG_SYN = 0 \<and> fl AND TCP_FLAG_FIN = 0"

lemma of_nat_inj32: "a < 2 ^ 32 \<Longrightarrow> b < 2 ^ 32 \<Longrightarrow> (of_nat a :: u32) = of_nat b \<Longrightarrow> a = b"
  by (metis unat_of_nat32)

lemma data_in_stream:
  assumes "in_stream D s0 k dlv c" and "piece D s0 q p" and "length D < 2 ^ 32"
  shows "\<exists>k'. k \<le> k' \<and> in_stream D s0 k' dlv (data_conn q p c)"
proof (cases "data_conn q p c = c")
  case False
  then have c: "q = recv_seq c" "data_conn q p c = c\<lparr>rx_buffer := rx_buffer c @ p, recv_seq := recv_seq c + of_nat (length p),
      recv_window := of_nat (TCP_RX_BUFFER_SIZE - length (rx_buffer c @ p))\<rparr>"
    unfolding data_conn_def by metis+
  obtain off where off: "off + length p \<le> length D" "q = s0 + of_nat off" "p = take (length p) (drop off D)" using assms(2) by (auto simp: piece_def)
  have s: "c_state c = TCP_ESTABLISHED" "k \<le> length D" "recv_seq c = s0 + of_nat k" "dlv @ rx_buffer c = take k D" using assms(1) by (simp_all add: in_stream_def)
  then have "(of_nat off :: u32) = of_nat k" using off(2) c(1) by simp
  then have "off = k" using off(1) s(2) assms(3) by (intro of_nat_inj32) simp_all
  then have "take k D @ p = take (k + length p) D" using off(3) by (simp add: take_add)
  then have "dlv @ rx_buffer c @ p = take (k + length p) D" using s(4) by (simp flip: append_assoc)
  then show ?thesis using s off(1) \<open>off = k\<close> by (intro exI [of _ "k + length p"]) (simp add: c(2) in_stream_def)
qed (use assms in auto)

lemma seg_in_stream:
  assumes "in_stream D s0 k dlv c" and "piece D s0 q p" and "length D < 2 ^ 32" and "plain fl"
  shows "\<exists>k'. k \<le> k' \<and> in_stream D s0 k' dlv (seg_conn fl q a w p c)"
proof -
  have "in_stream D s0 k dlv (ack_conn a w c)"
    using assms(1) by (auto simp: in_stream_def ack_conn_def Let_def ack_state_def grow_cwnd_def tcp_ack_retransmit_def)
  then have "\<exists>k'. k \<le> k' \<and> in_stream D s0 k' dlv (data_conn q p (if fl AND TCP_FLAG_ACK \<noteq> 0 then ack_conn a w c else c))"
    using assms by (intro data_in_stream) auto
  then show ?thesis using assms(4) by (simp add: seg_conn_def)
qed

text \<open>A segment for another connection leaves this one alone.\<close>

abbreviation (input) at_key :: "u32 \<Rightarrow> u16 \<Rightarrow> u32 \<Rightarrow> u16 \<Rightarrow> tcp_connection \<Rightarrow> bool" where
  "at_key l lp r rp c \<equiv> c_valid c \<and> c_src_ip c = l \<and> c_src_port c = lp \<and> c_dest_ip c = r \<and> c_dest_port c = rp"

definition conn_key :: "tcp_connection \<Rightarrow> u32 \<times> u16 \<times> u32 \<times> u16" where
  "conn_key c = (c_src_ip c, c_src_port c, c_dest_ip c, c_dest_port c)"

lemma part_key: "conn_key (ack_conn a w c) = conn_key c" "conn_key (syn_conn q c) = conn_key c" "conn_key (data_conn q p c) = conn_key c" "conn_key (fin_conn c) = conn_key c"
  by (simp_all add: conn_key_def fin_conn_def data_conn_def ack_conn_def syn_conn_def ack_state_def grow_cwnd_def tcp_ack_retransmit_def Let_def)

lemma seg_conn_same_key: "conn_key (seg_conn fl q a w p c) = conn_key c"
  by (simp add: seg_conn_def part_key Let_def) (simp add: conn_key_def)

lemma seg_conn_key [simp]:
  "c_src_ip (seg_conn fl q a w p c) = c_src_ip c" "c_src_port (seg_conn fl q a w p c) = c_src_port c"
  "c_dest_ip (seg_conn fl q a w p c) = c_dest_ip c" "c_dest_port (seg_conn fl q a w p c) = c_dest_port c"
  using seg_conn_same_key [of fl q a w p c] by (simp_all add: conn_key_def)

lemma find_slot_other:
  assumes "find_slot P xs = Some i" and "j \<noteq> i" and "\<not> P y"
  shows "find_slot P (xs[j := y]) = Some i"
  using assms by (cases "j < length xs") (auto simp: find_slot_Some nth_list_update)

lemma other_segment:
  assumes "tcp_connection_find (ip_our n) lp r rp n = Some i" and "tcp_parse_header b = Some (h, p)"
    and "\<not> (s = r \<and> htons (th_dest_port h) = lp \<and> htons (th_src_port h) = rp)"
  shows "conn (tcp_handle_packet id s d b n) i = conn n i \<and> tcp_connection_find (ip_our n) lp r rp (tcp_handle_packet id s d b n) = Some i"
proof (cases "d = ip_our n \<and> (th_checksum h = 0 \<or> tcp_checksum s d b = 0)")
  case True
  have f: "find_slot (at_key (ip_our n) lp r rp) (tcp_connections n) = Some i" using assms(1) by (simp add: tcp_connection_find_def)
  have i: "at_key (ip_our n) lp r rp (conn n i)" using find_slot_SomeD(2) [OF f] by simp
  have upd: "?thesis" if "tcp_connections (tcp_handle_packet id s d b n) = (tcp_connections n)[j := y]" "j \<noteq> i" "\<not> at_key (ip_our n) lp r rp y" for j y
    using that find_slot_other [OF f that(2), of y] by (simp add: tcp_connection_find_def)
  have t: "tcp_connections (tcp_handle_packet id s d b n) = seg_table s d h p n" using True handle_packet_table [OF assms(2)] by blast
  show ?thesis
  proof (cases "tcp_connection_find d (htons (th_dest_port h)) s (htons (th_src_port h)) n")
    case (Some j)
    have j: "at_key d (htons (th_dest_port h)) s (htons (th_src_port h)) (conn n j)"
      using find_slot_SomeD(2) [OF Some [unfolded tcp_connection_find_def]] by simp
    then have "j \<noteq> i" using i assms(3) by auto
    moreover have "\<not> at_key (ip_our n) lp r rp (seg_conn fl q a w p (conn n j))" for fl q a w using j assms(3) by auto
    ultimately show ?thesis using Some by (intro upd) (auto simp: t seg_table_def Let_def)
  next
    case None
    let ?new = "passive_open d (htons (th_dest_port h)) s (htons (th_src_port h)) (htonl (th_seq_num h)) n"
    have "\<not> at_key (ip_our n) lp r rp ?new" using assms(3) by (auto simp: passive_open_def)
    moreover have "j \<noteq> i" if "find_slot (\<lambda>c. \<not> c_valid c) (tcp_connections n) = Some j" for j using find_slot_SomeD(2) [OF that] i by auto
    moreover have "tcp_connections (tcp_handle_packet id s d b n) = tcp_connections n \<or>
        (\<exists>j. find_slot (\<lambda>c. \<not> c_valid c) (tcp_connections n) = Some j \<and> tcp_connections (tcp_handle_packet id s d b n) = (tcp_connections n)[j := ?new])"
      using None by (auto simp: t seg_table_def Let_def split: option.split)
    ultimately show ?thesis using upd assms(1) by (auto simp: tcp_connection_find_def)
  qed
next
  case False
  then have "tcp_handle_packet id s d b n = n" using assms(2) by (intro handle_packet_dropped) auto
  then show ?thesis using assms(1) by simp
qed

text \<open>Segments that arrive and reads of the application, in any order.\<close>

datatype tcp_event = Segment u32 u32 "u8 list" | Read nat

fun tcp_run :: "nat \<Rightarrow> tcp_event list \<Rightarrow> 'a tnet_scheme \<Rightarrow> u8 list \<times> 'a tnet_scheme" where
  "tcp_run i [] n = ([], n)"
| "tcp_run i (Segment s d b # es) n = tcp_run i es (tcp_handle_packet id s d b n)"
| "tcp_run i (Read k # es) n = (case tcp_recv_data i k n of (bs, n) \<Rightarrow> (case tcp_run i es n of (cs, n) \<Rightarrow> (bs @ cs, n)))"

text \<open>Whatever arrives for the connection from its peer is a piece of the stream; nothing is asked
  of other segments.\<close>

definition from_stream :: "u8 list \<Rightarrow> u32 \<Rightarrow> u16 \<Rightarrow> u32 \<Rightarrow> u16 \<Rightarrow> tcp_event \<Rightarrow> bool" where
  "from_stream D s0 lp r rp e =
     (case e of
        Read k \<Rightarrow> True
      | Segment s d b \<Rightarrow>
          (case tcp_parse_header b of
             None \<Rightarrow> True
           | Some (h, p) \<Rightarrow> s = r \<and> htons (th_dest_port h) = lp \<and> htons (th_src_port h) = rp \<longrightarrow> plain (th_flags h) \<and> piece D s0 (htonl (th_seq_num h)) p))"

lemma own_segment:
  assumes "tcp_connection_find (ip_our n) lp r rp n = Some i" and "tcp_parse_header b = Some (h, p)"
    and "htons (th_dest_port h) = lp" "htons (th_src_port h) = rp" and "th_checksum h = 0 \<or> tcp_checksum r (ip_our n) b = 0" and "plain (th_flags h)"
  defines "c \<equiv> seg_conn (th_flags h) (htonl (th_seq_num h)) (htonl (th_ack_num h)) (htons (th_window h)) p (conn n i)"
  shows "conn (tcp_handle_packet id r (ip_our n) b n) i = c \<and> tcp_connection_find (ip_our n) lp r rp (tcp_handle_packet id r (ip_our n) b n) = Some i"
proof -
  have t: "tcp_connections (tcp_handle_packet id r (ip_our n) b n) = (tcp_connections n)[i := c]"
    using handle_packet_table [OF assms(2) refl assms(5)] assms(1,3,4) by (simp add: seg_table_def Let_def c_def)
  have f: "find_slot (at_key (ip_our n) lp r rp) (tcp_connections n) = Some i" using assms(1) by (simp add: tcp_connection_find_def)
  have i: "i < length (tcp_connections n)" "at_key (ip_our n) lp r rp (conn n i)" using find_slot_SomeD [OF f] by simp_all
  have "c_valid c" using i assms(6) by (simp add: c_def seg_conn_def ack_conn_state)
  then have "find_slot (at_key (ip_our n) lp r rp) ((tcp_connections n)[i := c]) = Some i"
    using f i by (subst find_slot_update_same) (simp_all add: c_def)
  then show ?thesis using i(1) by (simp add: t tcp_connection_find_def)
qed

lemma stream_segment:
  assumes "tcp_connection_find (ip_our n) lp r rp n = Some i" and "in_stream D s0 k dlv (conn n i)" and "length D < 2 ^ 32"
    and "from_stream D s0 lp r rp (Segment s d b)"
  shows "\<exists>k'. k \<le> k' \<and> in_stream D s0 k' dlv (conn (tcp_handle_packet id s d b n) i) \<and>
    tcp_connection_find (ip_our n) lp r rp (tcp_handle_packet id s d b n) = Some i"
proof (cases "tcp_parse_header b")
  case None
  then have "tcp_handle_packet id s d b n = n" by (intro handle_packet_dropped) simp
  then show ?thesis using assms by auto
next
  case (Some x)
  obtain h p where x: "tcp_parse_header b = Some (h, p)" using Some by (cases x) simp
  show ?thesis
  proof (cases "s = r \<and> htons (th_dest_port h) = lp \<and> htons (th_src_port h) = rp \<and> d = ip_our n \<and> (th_checksum h = 0 \<or> tcp_checksum s d b = 0)")
    case True
    have pl: "plain (th_flags h)" "piece D s0 (htonl (th_seq_num h)) p" using assms(4) True x by (simp_all add: from_stream_def)
    show ?thesis using own_segment [OF assms(1) x _ _ _ pl(1)] seg_in_stream [OF assms(2) pl(2) assms(3) pl(1)] True by auto
  next
    case False
    then consider (other) "\<not> (s = r \<and> htons (th_dest_port h) = lp \<and> htons (th_src_port h) = rp)" | (drop) "tcp_handle_packet id s d b n = n"
      using handle_packet_dropped [of b d n s id] x by blast
    then show ?thesis by cases (use other_segment [OF assms(1) x] assms(1,2) in auto)
  qed
qed

lemma stream_read:
  assumes "tcp_connection_find l lp r rp n = Some i" and "in_stream D s0 k dlv (conn n i)" and "tcp_recv_data i m n = (bs, n')"
  shows "in_stream D s0 k (dlv @ bs) (conn n' i) \<and> tcp_connection_find l lp r rp n' = Some i \<and> ip_our n' = ip_our n"
proof -
  have f: "find_slot (at_key l lp r rp) (tcp_connections n) = Some i" using assms(1) by (simp add: tcp_connection_find_def)
  have i: "i < length (tcp_connections n)" using find_slot_SomeD [OF f] by simp
  define c where "c = (conn n i)\<lparr>rx_buffer := drop (length bs) (rx_buffer (conn n i))\<rparr>"
  have "bs = take (length bs) (rx_buffer (conn n i)) \<and> (n' = n \<and> bs = [] \<or> n' = put_conn i c n)"
    using assms(3) by (auto simp: tcp_recv_data_def tcp_connection_receive_def Let_def c_def min_def split: if_splits)
  moreover have "find_slot (at_key l lp r rp) ((tcp_connections n)[i := c]) = Some i"
    using f i by (subst find_slot_update_same) (simp_all add: c_def)
  ultimately show ?thesis
    using assms(2) i f by (auto simp: tcp_connection_find_def in_stream_def c_def) (metis append_take_drop_id)
qed

lemma stream_run:
  assumes "tcp_connection_find (ip_our n) lp r rp n = Some i" and "in_stream D s0 k dlv (conn n i)" and "length D < 2 ^ 32"
    and "\<forall>e \<in> set es. from_stream D s0 lp r rp e" and "tcp_run i es n = (bs, n')"
  shows "\<exists>k'. k \<le> k' \<and> in_stream D s0 k' (dlv @ bs) (conn n' i)"
  using assms
proof (induction es arbitrary: n k dlv bs)
  case (Cons e es)
  show ?case
  proof (cases e)
    case (Segment s d b)
    obtain k1 where "k \<le> k1" "in_stream D s0 k1 dlv (conn (tcp_handle_packet id s d b n) i)"
      "tcp_connection_find (ip_our n) lp r rp (tcp_handle_packet id s d b n) = Some i"
      using stream_segment [OF Cons.prems(1,2,3), of s d b] Cons.prems(4) Segment by auto
    then obtain k2 where "k1 \<le> k2" "in_stream D s0 k2 (dlv @ bs) (conn n' i)"
      using Cons.IH [of "tcp_handle_packet id s d b n" k1 dlv bs] Cons.prems(3,4,5) Segment by auto
    then show ?thesis using \<open>k \<le> k1\<close> by (meson le_trans)
  next
    case (Read m)
    obtain b1 n1 where r: "tcp_recv_data i m n = (b1, n1)" by (cases "tcp_recv_data i m n")
    obtain b2 where b2: "tcp_run i es n1 = (b2, n')" "bs = b1 @ b2" using Cons.prems(5) Read r by (cases "tcp_run i es n1") simp
    show ?thesis using Cons.IH [of n1 k "dlv @ b1" b2] stream_read [OF Cons.prems(1,2) r] b2 Cons.prems(3,4) by auto
  qed
qed auto

text \<open>
  C31: the stream of a connection is reliable. Let the peer of an established connection send the
  stream D of less than 2^32 bytes, in segments cut as it likes and with sequence numbers that count
  from the one expected. Whatever segments arrive (lost, repeated, reordered, damaged, or of other
  connections), and whenever the application reads, the bytes read and those waiting are together a
  prefix of D, and the sequence number that is acknowledged counts exactly these bytes.
\<close>

theorem tcp_stream_prefix:
  assumes "tcp_connection_find (ip_our n) lp r rp n = Some i" and "c_state (conn n i) = TCP_ESTABLISHED" and "rx_buffer (conn n i) = []"
    and "length D < 2 ^ 32" and "\<forall>e \<in> set es. from_stream D (recv_seq (conn n i)) lp r rp e" and "tcp_run i es n = (bs, n')"
  shows "\<exists>k \<le> length D. bs @ rx_buffer (conn n' i) = take k D \<and> recv_seq (conn n' i) = recv_seq (conn n i) + of_nat k"
proof -
  have "in_stream D (recv_seq (conn n i)) 0 [] (conn n i)" using assms(2,3) by (simp add: in_stream_def)
  from stream_run [OF assms(1) this assms(4,5,6)] show ?thesis by (auto simp: in_stream_def)
qed

text \<open>Segments that carry the chunks of a stream in order, each followed by a read.\<close>

fun in_order :: "u32 \<Rightarrow> u16 \<Rightarrow> u32 \<Rightarrow> u16 \<Rightarrow> u32 \<Rightarrow> u8 list list \<Rightarrow> tcp_event list \<Rightarrow> bool" where
  "in_order l lp r rp q [] es = (es = [])"
| "in_order l lp r rp q (p # ps) (Segment s d b # Read m # es) =
     (s = r \<and> d = l \<and> p \<noteq> [] \<and> length p \<le> m \<and> length p \<le> TCP_RX_BUFFER_SIZE \<and>
      (case tcp_parse_header b of
         None \<Rightarrow> False
       | Some (h, p') \<Rightarrow> p' = p \<and> htons (th_dest_port h) = lp \<and> htons (th_src_port h) = rp \<and> plain (th_flags h) \<and> htonl (th_seq_num h) = q \<and>
           (th_checksum h = 0 \<or> tcp_checksum s d b = 0)) \<and>
      in_order l lp r rp (q + of_nat (length p)) ps es)"
| "in_order l lp r rp q ps es = False"

lemma in_order_Cons:
  assumes "in_order l lp r rp q (p # ps) es"
  obtains b m es' h where "es = Segment r l b # Read m # es'" "p \<noteq> []" "length p \<le> m" "length p \<le> TCP_RX_BUFFER_SIZE"
    "tcp_parse_header b = Some (h, p)" "htons (th_dest_port h) = lp" "htons (th_src_port h) = rp" "plain (th_flags h)" "htonl (th_seq_num h) = q"
    "th_checksum h = 0 \<or> tcp_checksum r l b = 0" "in_order l lp r rp (q + of_nat (length p)) ps es'"
proof -
  obtain s d b m es' where es: "es = Segment s d b # Read m # es'" using assms by (cases "(l, lp, r, rp, q, p # ps, es)" rule: in_order.cases) auto
  obtain h p' where "tcp_parse_header b = Some (h, p')" using assms es by (cases "tcp_parse_header b") auto
  then show thesis using assms es by (intro that [of b m es' h]) auto
qed

lemma seg_conn_fresh:
  assumes "c_state c = TCP_ESTABLISHED" and "rx_buffer c = []" and "plain fl" and "p \<noteq> []" "length p \<le> TCP_RX_BUFFER_SIZE"
  shows "c_state (seg_conn fl (recv_seq c) a w p c) = TCP_ESTABLISHED \<and> rx_buffer (seg_conn fl (recv_seq c) a w p c) = p \<and>
    recv_seq (seg_conn fl (recv_seq c) a w p c) = recv_seq c + of_nat (length p)"
proof -
  have "c_state (ack_conn a w c) = c_state c \<and> rx_buffer (ack_conn a w c) = rx_buffer c \<and> recv_seq (ack_conn a w c) = recv_seq c"
    using assms(1) by (simp add: ack_conn_def Let_def ack_state_def grow_cwnd_def tcp_ack_retransmit_def)
  then show ?thesis using assms by (simp add: seg_conn_def data_conn_def)
qed

lemma read_all:
  assumes "tcp_connection_find l lp r rp n = Some i" and "rx_buffer (conn n i) \<noteq> []" "length (rx_buffer (conn n i)) \<le> m"
  shows "\<exists>n'. tcp_recv_data i m n = (rx_buffer (conn n i), n') \<and> conn n' i = (conn n i)\<lparr>rx_buffer := []\<rparr> \<and>
    tcp_connection_find l lp r rp n' = Some i \<and> ip_our n' = ip_our n"
proof -
  have f: "find_slot (at_key l lp r rp) (tcp_connections n) = Some i" using assms(1) by (simp add: tcp_connection_find_def)
  have i: "i < length (tcp_connections n)" using find_slot_SomeD [OF f] by simp
  have "find_slot (at_key l lp r rp) ((tcp_connections n)[i := (conn n i)\<lparr>rx_buffer := []\<rparr>]) = Some i" using f i by (subst find_slot_update_same) simp_all
  then show ?thesis using assms i by (simp add: tcp_recv_data_def tcp_connection_receive_def Let_def tcp_connection_find_def)
qed


section \<open>A concrete connection\<close>

definition tcp_host :: tnet where
  "tcp_host = ipnet.extend ip_host (tnet.fields
     [\<lparr>c_src_ip = 0x0A00020F, c_src_port = 80, c_dest_ip = 0x0A000202, c_dest_port = 49152, c_state = TCP_ESTABLISHED, send_seq = 1001, send_una = 1001,
       recv_seq = 0xFFFFFFFF, send_window = 4096, recv_window = 4096, mss = 1460, rx_buffer = [], tx_buffer = [], retransmit_queue = [], cwnd = 1, ssthresh = 65535,
       in_slow_start = True, last_activity = 0, pending_accept = False, c_valid = True\<rparr>] 1001 False)"

lemma tcp_host_simps [simp]: "ip_our tcp_host = 0x0A00020F" "c_state (conn tcp_host 0) = TCP_ESTABLISHED" "rx_buffer (conn tcp_host 0) = []"
  "recv_seq (conn tcp_host 0) = 0xFFFFFFFF" "tcp_connection_find 0x0A00020F 80 0x0A000202 49152 tcp_host = Some 0" "length (tcp_connections tcp_host) = 1"
  by (simp_all add: tcp_host_def ipnet.extend_def tnet.fields_def ip_host_def tcp_connection_find_def)

text \<open>The segment of the peer with the bytes p at the sequence number q, sent without a checksum.\<close>

definition peer_header :: "u32 \<Rightarrow> tcp_header" where
  "peer_header q = \<lparr>th_src_port = htons 49152, th_dest_port = htons 80, th_seq_num = htonl q, th_ack_num = htonl 1001, th_data_offset = 0x50,
     th_flags = TCP_FLAG_ACK OR TCP_FLAG_PSH, th_window = htons 4096, th_checksum = 0, th_urgent_ptr = 0\<rparr>"

definition peer_segment :: "u32 \<Rightarrow> u8 list \<Rightarrow> tcp_event" where
  "peer_segment q p = Segment 0x0A000202 0x0A00020F (enc_tcp (peer_header q) @ p)"

lemma tcp_host_find: "tcp_connection_find (ip_our tcp_host) 80 0x0A000202 49152 tcp_host = Some 0"
  by simp

lemma peer_parse: "tcp_parse_header (enc_tcp (peer_header q) @ p) = Some (peer_header q, p)"
  by (rule tcp_parse_enc) (simp add: peer_header_def)

lemma peer_piece: "piece D 0xFFFFFFFF q p \<Longrightarrow> from_stream D 0xFFFFFFFF 80 0x0A000202 49152 (peer_segment q p)"
  by (simp add: from_stream_def peer_segment_def peer_parse) (simp add: peer_header_def)

theorem tcp_handle_packet_refines_witness:
  "tcp_connections (tcp_handle_packet id 1 2 [] tcp_host) = tcp_connections tcp_host"
  by (subst tcp_handle_packet_refines) (simp add: tcp_parse_header_def)

theorem tcp_state_machine_witness:
  "(tcp_step (TCP_FLAG_ACK OR TCP_FLAG_PSH))\<^sup>*\<^sup>* TCP_ESTABLISHED
    (slot_state (conn (tcp_handle_packet id 0x0A000202 0x0A00020F (enc_tcp (peer_header 0xFFFFFFFF) @ [1]) tcp_host) 0))"
proof -
  have "slot_state (conn tcp_host 0) = TCP_ESTABLISHED" by (simp add: tcp_host_def ipnet.extend_def tnet.fields_def slot_state_def)
  moreover have "0 < length (tcp_connections tcp_host)" by simp
  from tcp_state_machine [OF peer_parse this] have "(tcp_step (th_flags (peer_header 0xFFFFFFFF)))\<^sup>*\<^sup>* (slot_state (conn tcp_host 0))
    (slot_state (conn (tcp_handle_packet id 0x0A000202 0x0A00020F (enc_tcp (peer_header 0xFFFFFFFF) @ [1]) tcp_host) 0))" .
  ultimately show ?thesis by (simp add: peer_header_def)
qed

theorem tcp_stream_prefix_witness:
  "\<exists>k \<le> 3. fst (tcp_run 0 [peer_segment 1 [3], Read 5, peer_segment 0xFFFFFFFF [1, 2], peer_segment 0xFFFFFFFF [1, 2], Read 1] tcp_host) @
     rx_buffer (conn (snd (tcp_run 0 [peer_segment 1 [3], Read 5, peer_segment 0xFFFFFFFF [1, 2], peer_segment 0xFFFFFFFF [1, 2], Read 1] tcp_host)) 0) = take k [1, 2, 3]"
proof -
  let ?es = "[peer_segment 1 [3], Read 5, peer_segment 0xFFFFFFFF [1, 2], peer_segment 0xFFFFFFFF [1, 2], Read 1]"
  have "piece [1, 2, 3] 0xFFFFFFFF 1 [3]" unfolding piece_def by (rule exI [of _ 2]) simp
  moreover have "piece [1, 2, 3] 0xFFFFFFFF 0xFFFFFFFF [1, 2]" unfolding piece_def by (rule exI [of _ 0]) simp
  ultimately have "\<forall>e \<in> set ?es. from_stream [1, 2, 3] 0xFFFFFFFF 80 0x0A000202 49152 e" using peer_piece by (simp add: from_stream_def)
  then have "\<exists>k \<le> length [1, 2, 3 :: u8]. fst (tcp_run 0 ?es tcp_host) @ rx_buffer (conn (snd (tcp_run 0 ?es tcp_host)) 0) = take k [1, 2, 3] \<and>
      recv_seq (conn (snd (tcp_run 0 ?es tcp_host)) 0) = recv_seq (conn tcp_host 0) + of_nat k"
    by (intro tcp_stream_prefix [OF tcp_host_find]) simp_all
  then show ?thesis by (auto simp: numeral_3_eq_3)
qed


end
