(* ===== verification/KPorts.thy ===== *)
theory KPorts
  imports KTcpStream
begin

text \<open>
  The registry of ports, src/kernel/drivers/network/core/net_ports.cpp. The identifier of the
  running task (sched_current_id) is a field of the state.
\<close>

datatype net_port_state = NETPORT_CLOSED | NETPORT_LISTEN | NETPORT_SYN_SENT | NETPORT_ESTABLISHED | NETPORT_TIME_WAIT | NETPORT_OTHER

record net_port_slot =
  np_used :: bool
  np_proto :: u8
  np_state :: net_port_state
  np_local_port :: u16
  np_remote_port :: u16
  np_local_ip :: u32
  np_remote_ip :: u32
  np_sock_fd :: int
  np_pid :: int
  np_owner :: string

record pnet = tnet +
  g_ports :: "net_port_slot list"
  g_ephemeral_next :: u16
  udp_listen_ports :: "u16 list"
  current_id :: int

abbreviation (input) NET_PROTO_TCP :: u8 where "NET_PROTO_TCP \<equiv> 6"
abbreviation (input) NET_PROTO_UDP :: u8 where "NET_PROTO_UDP \<equiv> 17"
abbreviation (input) NET_PORTS_MAX :: nat where "NET_PORTS_MAX \<equiv> 128"
abbreviation (input) NET_OWNER_MAX :: nat where "NET_OWNER_MAX \<equiv> 24"

definition np_same_listen :: "u8 \<Rightarrow> u16 \<Rightarrow> net_port_slot \<Rightarrow> bool" where
  "np_same_listen proto port s \<longleftrightarrow> np_used s \<and> np_proto s = proto \<and> np_local_port s = port \<and> np_state s = NETPORT_LISTEN"

definition net_ports_init :: "'a pnet_scheme \<Rightarrow> 'a pnet_scheme" where
  "net_ports_init n = n\<lparr>g_ports := map (\<lambda>s. s\<lparr>np_used := False\<rparr>) (g_ports n), g_ephemeral_next := 49152\<rparr>"

definition net_ports_busy :: "u8 \<Rightarrow> u16 \<Rightarrow> 'a pnet_scheme \<Rightarrow> bool" where
  "net_ports_busy proto port n =
     (if port = 0 then False
      else if list_ex (\<lambda>s. np_used s \<and> np_proto s = proto \<and>
          (np_local_port s = port \<and> np_state s = NETPORT_LISTEN \<or>
           np_local_port s = port \<and> np_remote_port s = 0 \<and> np_state s \<noteq> NETPORT_CLOSED)) (g_ports n) then True
      else proto = NET_PROTO_TCP \<and> tcp_connection_find_listen port n \<noteq> None)"

fun ephemeral_scan :: "u8 \<Rightarrow> nat \<Rightarrow> 'a pnet_scheme \<Rightarrow> u16 \<times> 'a pnet_scheme" where
  "ephemeral_scan proto 0 n = (0, n)"
| "ephemeral_scan proto (Suc k) n =
     (let p = g_ephemeral_next n; nx = p + 1; n = n\<lparr>g_ephemeral_next := (if nx < 49152 then 49152 else nx)\<rparr>
      in if net_ports_busy proto p n then ephemeral_scan proto k n else (p, n))"

definition net_ports_alloc_ephemeral :: "u8 \<Rightarrow> 'a pnet_scheme \<Rightarrow> u16 \<times> 'a pnet_scheme" where
  "net_ports_alloc_ephemeral proto n = ephemeral_scan proto 16384 n"

text \<open>The slot a registration uses: the one of the socket, of the listening port, of the same
  pair of ends, or a free one.\<close>

definition np_slot_for :: "u8 \<Rightarrow> net_port_state \<Rightarrow> u16 \<Rightarrow> u32 \<Rightarrow> u16 \<Rightarrow> int \<Rightarrow> 'a pnet_scheme \<Rightarrow> nat option" where
  "np_slot_for proto state local_port remote_ip remote_port sock_fd n =
     (let xs = g_ports n;
          s = (if sock_fd \<ge> 0 then find_slot (\<lambda>s. np_used s \<and> np_sock_fd s = sock_fd) xs else None);
          s = (if s = None \<and> state = NETPORT_LISTEN then find_slot (np_same_listen proto local_port) xs else s);
          s = (if s = None then find_slot (\<lambda>s. np_used s \<and> np_proto s = proto \<and> np_local_port s = local_port \<and>
                 np_remote_port s = remote_port \<and> np_remote_ip s = remote_ip) xs else s)
      in if s = None then find_slot (\<lambda>s. \<not> np_used s) xs else s)"

definition net_ports_register :: "u8 \<Rightarrow> net_port_state \<Rightarrow> u32 \<Rightarrow> u16 \<Rightarrow> u32 \<Rightarrow> u16 \<Rightarrow> int \<Rightarrow> int \<Rightarrow> string \<Rightarrow> 'a pnet_scheme \<Rightarrow> bool \<times> 'a pnet_scheme" where
  "net_ports_register proto state local_ip local_port remote_ip remote_port sock_fd pid owner n =
     (if local_port = 0 then (False, n)
      else case np_slot_for proto state local_port remote_ip remote_port sock_fd n of
        None \<Rightarrow> (False, n)
      | Some i \<Rightarrow>
          (let s = g_ports n ! i in
           if state = NETPORT_LISTEN \<and> net_ports_busy proto local_port n \<and> \<not> np_same_listen proto local_port s \<and> np_sock_fd s \<noteq> sock_fd then (False, n)
           else (True, n\<lparr>g_ports := (g_ports n)[i := \<lparr>np_used = True, np_proto = proto, np_state = state, np_local_port = local_port,
                  np_remote_port = remote_port, np_local_ip = (if local_ip \<noteq> 0 then local_ip else ip_our n), np_remote_ip = remote_ip, np_sock_fd = sock_fd,
                  np_pid = (if pid < 0 then (if current_id n \<ge> 0 then current_id n else 0) else pid), np_owner = cstr_copy NET_OWNER_MAX owner\<rparr>]\<rparr>)))"

definition net_ports_set_state :: "u8 \<Rightarrow> u16 \<Rightarrow> u32 \<Rightarrow> u16 \<Rightarrow> net_port_state \<Rightarrow> 'a pnet_scheme \<Rightarrow> 'a pnet_scheme" where
  "net_ports_set_state proto local_port remote_ip remote_port state n =
     (case find_slot (\<lambda>s. np_used s \<and> np_proto s = proto \<and> np_local_port s = local_port \<and> \<not> (remote_port \<noteq> 0 \<and> np_remote_port s \<noteq> remote_port) \<and>
             \<not> (remote_ip \<noteq> 0 \<and> np_remote_ip s \<noteq> remote_ip)) (g_ports n) of
        None \<Rightarrow> n
      | Some i \<Rightarrow>
          (let s = g_ports n ! i in
           n\<lparr>g_ports := (g_ports n)[i := s\<lparr>np_state := state, np_remote_ip := (if remote_ip \<noteq> 0 then remote_ip else np_remote_ip s),
               np_remote_port := (if remote_port \<noteq> 0 then remote_port else np_remote_port s)\<rparr>]\<rparr>))"

definition net_ports_release_sock :: "int \<Rightarrow> 'a pnet_scheme \<Rightarrow> 'a pnet_scheme" where
  "net_ports_release_sock sock_fd n =
     (if sock_fd < 0 then n
      else n\<lparr>g_ports := map (\<lambda>s. if np_used s \<and> np_sock_fd s = sock_fd then s\<lparr>np_used := False\<rparr> else s) (g_ports n)\<rparr>)"

definition net_ports_release_listen :: "u8 \<Rightarrow> u16 \<Rightarrow> 'a pnet_scheme \<Rightarrow> 'a pnet_scheme" where
  "net_ports_release_listen proto port n =
     n\<lparr>g_ports := map (\<lambda>s. if np_same_listen proto port s then s\<lparr>np_used := False\<rparr> else s) (g_ports n)\<rparr>"

definition net_ports_lookup_owner :: "u8 \<Rightarrow> u16 \<Rightarrow> nat \<Rightarrow> 'a pnet_scheme \<Rightarrow> (string \<times> int) option" where
  "net_ports_lookup_owner proto local_port owner_cap n =
     map_option (\<lambda>i. (cstr_copy owner_cap (np_owner (g_ports n ! i)), np_pid (g_ports n ! i)))
       (find_slot (\<lambda>s. np_used s \<and> np_proto s = proto \<and> np_local_port s = local_port) (g_ports n))"

definition net_ports_foreach :: "(net_port_slot \<Rightarrow> 'u \<Rightarrow> 'u) \<Rightarrow> 'u \<Rightarrow> 'a pnet_scheme \<Rightarrow> 'u" where
  "net_ports_foreach f u n = fold f (filter np_used (g_ports n)) u"

definition np_map_tcp_state :: "tcp_state \<Rightarrow> net_port_state" where
  "np_map_tcp_state st =
     (case st of TCP_LISTEN \<Rightarrow> NETPORT_LISTEN | TCP_SYN_SENT \<Rightarrow> NETPORT_SYN_SENT | TCP_ESTABLISHED \<Rightarrow> NETPORT_ESTABLISHED
      | TCP_TIME_WAIT \<Rightarrow> NETPORT_TIME_WAIT | TCP_CLOSED \<Rightarrow> NETPORT_CLOSED | _ \<Rightarrow> NETPORT_OTHER)"

definition np_sync_one :: "tcp_connection \<Rightarrow> 'a pnet_scheme \<Rightarrow> 'a pnet_scheme" where
  "np_sync_one c n =
     (if \<not> c_valid c \<or> c_state c = TCP_CLOSED then n
      else let st = np_map_tcp_state (c_state c);
               (owner, pid) = (case net_ports_lookup_owner NET_PROTO_TCP (c_src_port c) NET_OWNER_MAX n of
                  Some r \<Rightarrow> r
                | None \<Rightarrow> (''kernel'', if current_id n \<ge> 0 then current_id n else 0))
        in if c_state c = TCP_LISTEN then
             (if find_slot (np_same_listen NET_PROTO_TCP (c_src_port c)) (g_ports n) = None
              then snd (net_ports_register NET_PROTO_TCP NETPORT_LISTEN (c_src_ip c) (c_src_port c) 0 0 (- 1) pid owner n) else n)
           else if list_ex (\<lambda>s. np_used s \<and> np_proto s = NET_PROTO_TCP \<and> np_local_port s = c_src_port c \<and> np_remote_port s = c_dest_port c \<and>
               np_remote_ip s = c_dest_ip c) (g_ports n)
           then net_ports_set_state NET_PROTO_TCP (c_src_port c) (c_dest_ip c) (c_dest_port c) st n
           else snd (net_ports_register NET_PROTO_TCP st (c_src_ip c) (c_src_port c) (c_dest_ip c) (c_dest_port c) (- 1) pid owner n))"

definition net_ports_sync_tcp :: "'a pnet_scheme \<Rightarrow> 'a pnet_scheme" where
  "net_ports_sync_tcp n = tcp_foreach_connection np_sync_one n n"

section \<open>Ephemeral ports\<close>

definition eph :: "u16 \<Rightarrow> nat \<Rightarrow> u16" where
  "eph p k = of_nat (49152 + (unat p - 49152 + k) mod 16384)"

lemma busy_next [simp]: "net_ports_busy proto p (n\<lparr>g_ephemeral_next := q\<rparr>) = net_ports_busy proto p n"
  by (simp add: net_ports_busy_def tcp_connection_find_listen_def)

lemma eph_unat: "unat (eph p k) = 49152 + (unat p - 49152 + k) mod 16384"
proof -
  have "(unat p - 49152 + k) mod 16384 < 16384" by simp
  then have "49152 + (unat p - 49152 + k) mod 16384 < 2 ^ 16" by simp
  then show ?thesis unfolding eph_def by (rule unat_of_nat16)
qed

lemma eph_ge: "49152 \<le> eph p k"
  by (simp add: word_le_nat_alt eph_unat)

lemma unat_port: "unat (p :: u16) < 65536"
  using unsigned_less [of p] by simp

lemma eph_0: "49152 \<le> p \<Longrightarrow> eph p 0 = p"
  using unat_port [of p] by (intro word_unat_eq_iff [THEN iffD2]) (simp add: eph_unat word_le_nat_alt)

lemma eph_step: "49152 \<le> p \<Longrightarrow> (if p + 1 < 49152 then 49152 else p + 1) = eph p 1"
proof -
  assume p: "49152 \<le> p"
  show ?thesis
  proof (cases "unat p = 65535")
    case True
    then have "unat (p + 1) = 0" by (simp add: unat_word_ariths)
    then have "p + 1 = 0" by (simp add: unat_eq_0)
    then show ?thesis using True by (intro word_unat_eq_iff [THEN iffD2]) (simp add: eph_unat)
  next
    case False
    then have "unat p + 1 < 2 ^ 16" using unat_port [of p] by simp
    then have u: "unat (p + 1) = unat p + 1" by (simp add: unat_word_ariths)
    then show ?thesis using p False unat_port [of p] by (intro word_unat_eq_iff [THEN iffD2]) (simp add: eph_unat word_le_nat_alt word_less_nat_alt)
  qed
qed

lemma eph_Suc: "eph (eph p 1) k = eph p (Suc k)"
proof -
  have "((unat p - 49152 + 1) mod 16384 + k) mod 16384 = (unat p - 49152 + Suc k) mod 16384" by (simp add: mod_simps)
  then show ?thesis by (intro word_unat_eq_iff [THEN iffD2]) (simp only: eph_unat add_diff_cancel_left')
qed

lemma eph_covers:
  assumes "49152 \<le> p" "49152 \<le> q"
  shows "\<exists>k < 16384. eph p k = q"
proof -
  define a b where "a = unat p - 49152" and "b = unat q - 49152"
  have ab: "a < 16384" "b < 16384" "unat q = 49152 + b" using assms unat_port [of p] unat_port [of q] by (auto simp: a_def b_def word_le_nat_alt)
  define k where "k = (if a \<le> b then b - a else b + 16384 - a)"
  have "k < 16384" "(a + k) mod 16384 = b" using ab by (auto simp: k_def)
  then show ?thesis using ab(3) by (intro exI [of _ k]) (simp add: word_unat_eq_iff eph_unat flip: a_def)
qed

lemma ephemeral_scan_spec:
  "49152 \<le> g_ephemeral_next n \<Longrightarrow> ephemeral_scan proto k n = (p, n') \<Longrightarrow>
   (\<exists>q. n' = n\<lparr>g_ephemeral_next := q\<rparr> \<and> 49152 \<le> q) \<and>
   (49152 \<le> p \<and> \<not> net_ports_busy proto p n \<or> p = 0 \<and> (\<forall>j < k. net_ports_busy proto (eph (g_ephemeral_next n) j) n))"
proof (induction k arbitrary: n)
  case 0
  then show ?case by (auto intro!: exI [of _ "g_ephemeral_next n"])
next
  case (Suc k)
  let ?p = "g_ephemeral_next n" let ?n = "n\<lparr>g_ephemeral_next := eph ?p 1\<rparr>"
  have step: "ephemeral_scan proto (Suc k) n = (if net_ports_busy proto ?p n then ephemeral_scan proto k ?n else (?p, ?n))"
    using eph_step [OF Suc.prems(1)] by (simp add: Let_def)
  show ?case
  proof (cases "net_ports_busy proto ?p n")
    case True
    have less: "(\<forall>j < Suc k. P j) \<longleftrightarrow> P 0 \<and> (\<forall>j < k. P (Suc j))" for P :: "nat \<Rightarrow> bool" using less_Suc_eq_0_disj by auto
    have "ephemeral_scan proto k ?n = (p, n')" using Suc.prems(2) step True by simp
    from Suc.IH [OF _ this] show ?thesis using True eph_ge [of ?p 1] by (auto simp: less eph_Suc [simplified] eph_0 [OF Suc.prems(1)])
  next
    case False
    then show ?thesis using Suc.prems step eph_ge [of ?p 1] by auto
  qed
qed

text \<open>
  Fact: the port chosen for a socket that asks for none lies between 49152 and 65535 and is used by
  nobody; none is found only if all of them are in use. The search remembers where it stopped and
  changes nothing else.
\<close>

theorem net_ports_alloc_ephemeral_correct:
  assumes "49152 \<le> g_ephemeral_next n" and "net_ports_alloc_ephemeral proto n = (p, n')"
  shows "(if p = 0 then \<forall>q \<ge> 49152. net_ports_busy proto q n else 49152 \<le> p \<and> \<not> net_ports_busy proto p n) \<and>
    (\<exists>q \<ge> 49152. n' = n\<lparr>g_ephemeral_next := q\<rparr>)"
proof -
  have s: "(\<exists>q. n' = n\<lparr>g_ephemeral_next := q\<rparr> \<and> 49152 \<le> q) \<and>
    (49152 \<le> p \<and> \<not> net_ports_busy proto p n \<or> p = 0 \<and> (\<forall>j < 16384. net_ports_busy proto (eph (g_ephemeral_next n) j) n))"
    using ephemeral_scan_spec [OF assms(1)] assms(2) unfolding net_ports_alloc_ephemeral_def by blast
  have "\<forall>q \<ge> 49152. net_ports_busy proto q n" if "\<forall>j < 16384. net_ports_busy proto (eph (g_ephemeral_next n) j) n"
    using eph_covers [OF assms(1)] that by metis
  then show ?thesis using s by auto
qed

section \<open>Registrations\<close>

lemma register_slot:
  assumes "np_slot_for proto st lp rip rp fd n = Some i"
  shows "i < length (g_ports n) \<and> (np_used (g_ports n ! i) \<longrightarrow> np_sock_fd (g_ports n ! i) = fd \<and> 0 \<le> fd \<or> np_proto (g_ports n ! i) = proto \<and> np_local_port (g_ports n ! i) = lp)"
  using assms by (auto simp: np_slot_for_def Let_def np_same_listen_def find_slot_Some split: if_splits)

text \<open>
  Fact: a registration that succeeds makes the port known with its owner, and changes no slot of
  another socket or another port; a listening port is busy from then on.
\<close>

theorem net_ports_register_correct:
  assumes "net_ports_register proto st lip lp rip rp fd pid owner n = (True, n')"
  shows "lp \<noteq> 0 \<and> net_ports_lookup_owner proto lp NET_OWNER_MAX n' \<noteq> None \<and> (st = NETPORT_LISTEN \<longrightarrow> net_ports_busy proto lp n') \<and>
    (\<exists>i < length (g_ports n). n' = n\<lparr>g_ports := (g_ports n)[i := g_ports n' ! i]\<rparr> \<and> np_sock_fd (g_ports n' ! i) = fd \<and>
      (np_used (g_ports n ! i) \<longrightarrow> np_sock_fd (g_ports n ! i) = fd \<and> 0 \<le> fd \<or> np_proto (g_ports n ! i) = proto \<and> np_local_port (g_ports n ! i) = lp))"
proof -
  obtain i where i: "np_slot_for proto st lp rip rp fd n = Some i" "lp \<noteq> 0" using assms by (auto simp: net_ports_register_def split: option.splits if_splits)
  define s where "s = \<lparr>np_used = True, np_proto = proto, np_state = st, np_local_port = lp,
                  np_remote_port = rp, np_local_ip = (if lip \<noteq> 0 then lip else ip_our n), np_remote_ip = rip, np_sock_fd = fd,
                  np_pid = (if pid < 0 then (if current_id n \<ge> 0 then current_id n else 0) else pid), np_owner = cstr_copy NET_OWNER_MAX owner\<rparr>"
  have n': "n' = n\<lparr>g_ports := (g_ports n)[i := s]\<rparr>" using assms i by (auto simp: net_ports_register_def s_def Let_def split: if_splits)
  have r: "i < length (g_ports n)" using register_slot [OF i(1)] by simp
  then have "s \<in> set (g_ports n')" by (simp add: n' set_update_memI)
  moreover have "np_used s" "np_proto s = proto" "np_local_port s = lp" "np_state s = st" "np_sock_fd s = fd" by (simp_all add: s_def)
  ultimately have "net_ports_lookup_owner proto lp NET_OWNER_MAX n' \<noteq> None" "st = NETPORT_LISTEN \<longrightarrow> net_ports_busy proto lp n'"
    using i(2) by (auto simp: net_ports_lookup_owner_def net_ports_busy_def find_slot_None list_ex_iff)
  then show ?thesis using register_slot [OF i(1)] i(2) r n' \<open>np_sock_fd s = fd\<close> by (intro conjI exI [of _ i]) simp_all
qed

end
