(* ===== verification/KSocket.thy ===== *)
theory KSocket
  imports KPorts
begin

text \<open>
  UDP with state and sockets, src/kernel/drivers/network/protocols/udp.cpp and socket.cpp. A socket
  descriptor indexes the table of sockets; the pointers of a socket to TCP connections are indices.
  The check of a received UDP checksum reads behind a copy of the header on the stack; what lies
  there is the field stack_tail, of which nothing is assumed.
\<close>

record udp_sock_pkt =
  pk_src_ip :: u32
  pk_src_port :: u16
  pk_data :: "u8 list"

record socket_entry =
  so_used :: bool
  so_type :: int
  so_local_port :: u16
  so_local_ip :: u32
  so_peer_ip :: u32
  so_peer_port :: u16
  so_has_peer :: bool
  so_listening :: bool
  so_tcp :: "nat option"
  so_listen_tcp :: "nat option"
  so_udp_q :: "udp_sock_pkt list"
  so_q_head :: nat
  so_q_tail :: nat
  so_q_count :: nat
  so_owner_pid :: int
  so_owner :: string

record snet = pnet +
  sockets :: "socket_entry list"
  stack_tail :: "nat \<Rightarrow> u8"

abbreviation (input) UDP_MAX_PAYLOAD :: nat where "UDP_MAX_PAYLOAD \<equiv> 1472"
abbreviation (input) SOCKET_MAX :: nat where "SOCKET_MAX \<equiv> 64"
abbreviation (input) UDP_SOCK_QUEUE :: nat where "UDP_SOCK_QUEUE \<equiv> 8"
abbreviation (input) UDP_PKT_MAX :: nat where "UDP_PKT_MAX \<equiv> 512"
abbreviation (input) AF_INET :: int where "AF_INET \<equiv> 2"
abbreviation (input) SOCK_STREAM :: int where "SOCK_STREAM \<equiv> 1"
abbreviation (input) SOCK_DGRAM :: int where "SOCK_DGRAM \<equiv> 2"

section \<open>UDP\<close>

definition udp_listen_port :: "u16 \<Rightarrow> 'a pnet_scheme \<Rightarrow> bool \<times> 'a pnet_scheme" where
  "udp_listen_port port n =
     (if port = 0 then (False, n)
      else if port \<in> set (udp_listen_ports n) then (True, n)
      else case find_slot (\<lambda>p. p = 0) (udp_listen_ports n) of
        None \<Rightarrow> (False, n)
      | Some i \<Rightarrow> (True, snd (net_ports_register NET_PROTO_UDP NETPORT_LISTEN (ip_our n) port 0 0 (- 1) (- 1) ''udplisten''
                      (n\<lparr>udp_listen_ports := (udp_listen_ports n)[i := port]\<rparr>))))"

definition udp_unlisten_port :: "u16 \<Rightarrow> 'a pnet_scheme \<Rightarrow> 'a pnet_scheme" where
  "udp_unlisten_port port n =
     (case find_slot (\<lambda>p. p = port) (udp_listen_ports n) of
        None \<Rightarrow> n
      | Some i \<Rightarrow> net_ports_release_listen NET_PROTO_UDP port (n\<lparr>udp_listen_ports := (udp_listen_ports n)[i := 0]\<rparr>))"

definition udp_send :: "('a ipnet_scheme \<Rightarrow> 'a ipnet_scheme) \<Rightarrow> u32 \<Rightarrow> u16 \<Rightarrow> u16 \<Rightarrow> u8 list \<Rightarrow> 'a ipnet_scheme \<Rightarrow> bool \<times> 'a ipnet_scheme" where
  "udp_send poll dip src_port dest_port payload n =
     (if length payload > UDP_MAX_PAYLOAD then (False, n)
      else case udp_create_packet (UDP_HDR + UDP_MAX_PAYLOAD) src_port dest_port payload of
        None \<Rightarrow> (False, n)
      | Some seg \<Rightarrow>
          (let csum = udp_checksum (ip_our n) dip seg; csum = (if csum = 0 then 0xFFFF else csum);
               h = (dec_udp seg)\<lparr>uh_checksum := htons csum\<rparr>
           in ip_output poll dip IP_PROTOCOL_UDP (enc_udp h @ drop UDP_HDR seg) n))"

section \<open>The table of sockets\<close>

definition put_sock :: "nat \<Rightarrow> socket_entry \<Rightarrow> 'a snet_scheme \<Rightarrow> 'a snet_scheme" where
  "put_sock i s n = n\<lparr>sockets := (sockets n)[i := s]\<rparr>"

definition socket_reset :: "'a snet_scheme \<Rightarrow> socket_entry \<Rightarrow> socket_entry" where
  "socket_reset n s = s\<lparr>so_used := False, so_type := 0, so_local_port := 0, so_local_ip := 0, so_peer_ip := 0, so_peer_port := 0, so_has_peer := False,
     so_listening := False, so_tcp := None, so_listen_tcp := None, so_q_head := 0, so_q_tail := 0, so_q_count := 0,
     so_owner_pid := (if current_id n \<ge> 0 then current_id n else 0), so_owner := ''systemd''\<rparr>"

definition socket_init :: "'a snet_scheme \<Rightarrow> 'a snet_scheme" where
  "socket_init n = (let n = net_ports_init n in n\<lparr>sockets := map (socket_reset n) (sockets n)\<rparr>)"

definition socket_get :: "int \<Rightarrow> 'a snet_scheme \<Rightarrow> nat option" where
  "socket_get fd n = (if fd < 0 \<or> fd \<ge> int (length (sockets n)) then None else if so_used (sockets n ! nat fd) then Some (nat fd) else None)"

definition socket_alloc :: "'a snet_scheme \<Rightarrow> nat option \<times> 'a snet_scheme" where
  "socket_alloc n =
     (case find_slot (\<lambda>s. \<not> so_used s) (sockets n) of
        None \<Rightarrow> (None, n)
      | Some i \<Rightarrow> (Some i, put_sock i ((socket_reset n (sockets n ! i))\<lparr>so_used := True\<rparr>) n))"

definition socket_proto :: "socket_entry \<Rightarrow> u8" where
  "socket_proto s = (if so_type s = SOCK_STREAM then NET_PROTO_TCP else NET_PROTO_UDP)"

text \<open>The registration of a socket as the code writes it in several places.\<close>

definition register_sock :: "net_port_state \<Rightarrow> u8 \<Rightarrow> u32 \<Rightarrow> u16 \<Rightarrow> nat \<Rightarrow> 'a snet_scheme \<Rightarrow> bool \<times> 'a snet_scheme" where
  "register_sock st proto rip rp i n =
     (let s = sockets n ! i in net_ports_register proto st (so_local_ip s) (so_local_port s) rip rp (int i) (so_owner_pid s) (so_owner s) n)"

definition socket_create :: "int \<Rightarrow> int \<Rightarrow> 'a snet_scheme \<Rightarrow> int \<times> 'a snet_scheme" where
  "socket_create domain type n =
     (if domain \<noteq> AF_INET then (- 1, n)
      else if type \<noteq> SOCK_STREAM \<and> type \<noteq> SOCK_DGRAM then (- 1, n)
      else case socket_alloc n of
        (None, n) \<Rightarrow> (- 1, n)
      | (Some i, n) \<Rightarrow> (int i, put_sock i ((sockets n ! i)\<lparr>so_type := type\<rparr>) n))"

definition socket_set_owner :: "int \<Rightarrow> string \<Rightarrow> int \<Rightarrow> 'a snet_scheme \<Rightarrow> bool \<times> 'a snet_scheme" where
  "socket_set_owner fd name pid n =
     (case socket_get fd n of
        None \<Rightarrow> (False, n)
      | Some i \<Rightarrow>
          (let n = put_sock i ((sockets n ! i)\<lparr>so_owner := cstr_copy NET_OWNER_MAX name,
                 so_owner_pid := (if pid < 0 then (if current_id n \<ge> 0 then current_id n else 0) else pid)\<rparr>) n; s = sockets n ! i
           in (True, if so_local_port s \<noteq> 0
                     then snd (register_sock (if so_listening s then NETPORT_LISTEN else if so_has_peer s then NETPORT_ESTABLISHED else NETPORT_LISTEN)
                            (socket_proto s) (so_peer_ip s) (so_peer_port s) i n)
                     else n)))"

definition socket_getsockname :: "int \<Rightarrow> 'a snet_scheme \<Rightarrow> (u16 \<times> u32) option" where
  "socket_getsockname fd n =
     map_option (\<lambda>i. let s = sockets n ! i in (so_local_port s, if so_local_ip s \<noteq> 0 then so_local_ip s else ip_our n)) (socket_get fd n)"

definition socket_bind :: "int \<Rightarrow> u16 \<Rightarrow> u32 \<Rightarrow> 'a snet_scheme \<Rightarrow> bool \<times> 'a snet_scheme" where
  "socket_bind fd sin_port sin_addr n =
     (case socket_get fd n of
        None \<Rightarrow> (False, n)
      | Some i \<Rightarrow>
          (let proto = socket_proto (sockets n ! i); (port, n) = (if sin_port = 0 then net_ports_alloc_ephemeral proto n else (sin_port, n)) in
           if port = 0 then (False, n)
           else if net_ports_busy proto port n then (False, n)
           else if list_ex (\<lambda>j. j \<noteq> i \<and> so_used (sockets n ! j) \<and> so_type (sockets n ! j) = so_type (sockets n ! i) \<and>
               so_local_port (sockets n ! j) = port) [0..<length (sockets n)] then (False, n)
           else
             let n = put_sock i ((sockets n ! i)\<lparr>so_local_port := port, so_local_ip := (if sin_addr \<noteq> 0 then sin_addr else ip_our n)\<rparr>) n
             in case register_sock NETPORT_LISTEN proto 0 0 i n of
                  (True, n) \<Rightarrow> (True, n)
                | (False, n) \<Rightarrow> (False, put_sock i ((sockets n ! i)\<lparr>so_local_port := 0\<rparr>) n)))"

definition socket_listen :: "int \<Rightarrow> 'a snet_scheme \<Rightarrow> bool \<times> 'a snet_scheme" where
  "socket_listen fd n =
     (case socket_get fd n of
        None \<Rightarrow> (False, n)
      | Some i \<Rightarrow>
          (let s = sockets n ! i in
           if so_type s \<noteq> SOCK_STREAM then (False, n)
           else if so_local_port s = 0 then (False, n)
           else if so_listen_tcp s \<noteq> None then (True, n)
           else case tcp_listen (so_local_port s) n of
             (None, n) \<Rightarrow> (False, n)
           | (Some lc, n) \<Rightarrow>
               (True, snd (register_sock NETPORT_LISTEN NET_PROTO_TCP 0 0 i
                        (put_sock i ((sockets n ! i)\<lparr>so_listen_tcp := Some lc, so_listening := True\<rparr>) n)))))"

text \<open>One look of socket_accept for a finished handshake, and its loop. Each round of the loop
  waits 10 ms, which bounds the rounds.\<close>

definition accept_once :: "nat \<Rightarrow> nat \<Rightarrow> 'a snet_scheme \<Rightarrow> int option \<times> 'a snet_scheme" where
  "accept_once i l n =
     (case tcp_connection_accept_pending (so_local_port (sockets n ! i)) l n of
        None \<Rightarrow> (None, n)
      | Some c \<Rightarrow>
          (case socket_alloc (put_conn c ((conn n c)\<lparr>pending_accept := False\<rparr>) n) of
             (None, n) \<Rightarrow> (None, put_conn c ((conn n c)\<lparr>pending_accept := True\<rparr>) n)
           | (Some j, n) \<Rightarrow>
               (let s = sockets n ! i;
                    n = put_sock j ((sockets n ! j)\<lparr>so_type := SOCK_STREAM, so_local_port := so_local_port s, so_local_ip := so_local_ip s,
                          so_peer_ip := c_dest_ip (conn n c), so_peer_port := c_dest_port (conn n c), so_has_peer := True, so_tcp := Some c,
                          so_owner_pid := so_owner_pid s, so_owner := so_owner s\<rparr>) n
                in (Some (int j), snd (register_sock NETPORT_ESTABLISHED NET_PROTO_TCP (so_peer_ip (sockets n ! j)) (so_peer_port (sockets n ! j)) j n)))))"

fun accept_loop :: "('a snet_scheme \<Rightarrow> 'a snet_scheme) \<Rightarrow> nat \<Rightarrow> nat \<Rightarrow> u32 \<Rightarrow> u32 \<Rightarrow> nat \<Rightarrow> 'a snet_scheme \<Rightarrow> int \<times> 'a snet_scheme" where
  "accept_loop poll i l start wait_ms 0 n = (- 1, n)"
| "accept_loop poll i l start wait_ms (Suc k) n =
     (if \<not> ticks n - start < wait_ms then (- 1, n)
      else case accept_once i l n of
        (Some fd, n) \<Rightarrow> (fd, n)
      | (None, n) \<Rightarrow> accept_loop poll i l start wait_ms k (net_wait_ms poll 10 n))"

definition socket_accept :: "('a snet_scheme \<Rightarrow> 'a snet_scheme) \<Rightarrow> int \<Rightarrow> int \<Rightarrow> 'a snet_scheme \<Rightarrow> int \<times> 'a snet_scheme" where
  "socket_accept poll fd timeout_ms n =
     (case socket_get fd n of
        None \<Rightarrow> (- 1, n)
      | Some i \<Rightarrow>
          (if so_type (sockets n ! i) \<noteq> SOCK_STREAM then (- 1, n)
           else case so_listen_tcp (sockets n ! i) of
             None \<Rightarrow> (- 1, n)
           | Some l \<Rightarrow>
               (let wait_ms = (if timeout_ms > 0 then of_int timeout_ms else 10000)
                in accept_loop poll i l (ticks n) wait_ms (unat wait_ms div 10 + 1) n)))"

text \<open>A local port for a datagram socket that has none.\<close>

definition udp_local_port :: "nat \<Rightarrow> 'a snet_scheme \<Rightarrow> bool \<times> 'a snet_scheme" where
  "udp_local_port i n =
     (case net_ports_alloc_ephemeral NET_PROTO_UDP n of
        (p, n) \<Rightarrow>
          if p = 0 then (False, put_sock i ((sockets n ! i)\<lparr>so_local_port := 0\<rparr>) n)
          else (True, put_sock i ((sockets n ! i)\<lparr>so_local_port := p, so_local_ip := ip_our n\<rparr>) n))"

definition socket_connect_tcp :: "('a snet_scheme \<Rightarrow> 'a snet_scheme) \<Rightarrow> nat \<Rightarrow> u32 \<Rightarrow> u16 \<Rightarrow> int \<Rightarrow> 'a snet_scheme \<Rightarrow> bool \<times> 'a snet_scheme" where
  "socket_connect_tcp poll i sin_addr sin_port timeout_ms n =
     (if so_tcp (sockets n ! i) \<noteq> None then (False, n)
      else case tcp_connect poll sin_addr sin_port n of
        (None, n) \<Rightarrow> (False, n)
      | (Some c, n) \<Rightarrow>
          (let s = sockets n ! i;
               n = snd (net_ports_register NET_PROTO_TCP NETPORT_SYN_SENT (c_src_ip (conn n c)) (c_src_port (conn n c)) sin_addr sin_port (int i)
                     (so_owner_pid s) (so_owner s) n)
           in case tcp_connect_wait poll c (if timeout_ms > 0 then timeout_ms else 5000) n of
                (False, n) \<Rightarrow> (False, net_ports_release_sock (int i) (tcp_close poll c n))
              | (True, n) \<Rightarrow>
                  (let n = put_sock i ((sockets n ! i)\<lparr>so_tcp := Some c, so_local_port := c_src_port (conn n c), so_local_ip := c_src_ip (conn n c)\<rparr>) n
                   in (True, snd (register_sock NETPORT_ESTABLISHED NET_PROTO_TCP (so_peer_ip (sockets n ! i)) (so_peer_port (sockets n ! i)) i n)))))"

definition socket_connect :: "('a snet_scheme \<Rightarrow> 'a snet_scheme) \<Rightarrow> int \<Rightarrow> u32 \<Rightarrow> u16 \<Rightarrow> int \<Rightarrow> 'a snet_scheme \<Rightarrow> bool \<times> 'a snet_scheme" where
  "socket_connect poll fd sin_addr sin_port timeout_ms n =
     (case socket_get fd n of
        None \<Rightarrow> (False, n)
      | Some i \<Rightarrow>
          if sin_addr = 0 \<or> sin_port = 0 then (False, n)
          else
            let n = put_sock i ((sockets n ! i)\<lparr>so_peer_ip := sin_addr, so_peer_port := sin_port, so_has_peer := True\<rparr>) n in
            if so_type (sockets n ! i) = SOCK_DGRAM then
              (case (if so_local_port (sockets n ! i) = 0 then udp_local_port i n else (True, n)) of
                 (False, n) \<Rightarrow> (False, n)
               | (True, n) \<Rightarrow> (True, snd (register_sock NETPORT_ESTABLISHED NET_PROTO_UDP sin_addr sin_port i n)))
            else socket_connect_tcp poll i sin_addr sin_port timeout_ms n)"

text \<open>The number of bytes sent, or -1; None if the loop of tcp_send_data does not end.\<close>

definition socket_send :: "('a snet_scheme \<Rightarrow> 'a snet_scheme) \<Rightarrow> int \<Rightarrow> u8 list \<Rightarrow> 'a snet_scheme \<Rightarrow> (int \<times> 'a snet_scheme) option" where
  "socket_send poll fd buf n =
     (case socket_get fd n of
        None \<Rightarrow> Some (- 1, n)
      | Some i \<Rightarrow>
          if buf = [] then Some (- 1, n)
          else if so_type (sockets n ! i) = SOCK_DGRAM then
            (if \<not> so_has_peer (sockets n ! i) then Some (- 1, n)
             else case (if so_local_port (sockets n ! i) = 0 then udp_local_port i n else (True, n)) of
               (False, n) \<Rightarrow> Some (- 1, n)
             | (True, n') \<Rightarrow>
                 (let s = sockets n' ! i;
                      n' = (if so_local_port (sockets n ! i) = 0 then snd (register_sock NETPORT_ESTABLISHED NET_PROTO_UDP (so_peer_ip s) (so_peer_port s) i n') else n');
                      (ok, n') = udp_send poll (so_peer_ip s) (so_local_port s) (so_peer_port s) buf n'
                  in Some (if ok then int (length buf) else - 1, n')))
          else case so_tcp (sockets n ! i) of
            None \<Rightarrow> Some (- 1, n)
          | Some c \<Rightarrow>
              (if c_state (conn n c) \<noteq> TCP_ESTABLISHED then Some (- 1, n)
               else map_option (\<lambda>(r, n). (case r of Some k \<Rightarrow> int k | None \<Rightarrow> - 1, n)) (tcp_send_data poll c buf n)))"

text \<open>The tries of socket_recv: None is -1, Some [] is nothing yet.\<close>

definition socket_tcp_try_recv :: "nat \<Rightarrow> nat \<Rightarrow> 'a snet_scheme \<Rightarrow> u8 list option \<times> 'a snet_scheme" where
  "socket_tcp_try_recv i len n =
     (case so_tcp (sockets n ! i) of
        None \<Rightarrow> (None, n)
      | Some c \<Rightarrow>
          (case tcp_recv_data c len n of
             (bs, n) \<Rightarrow>
               if bs \<noteq> [] then (Some bs, n)
               else if c_state (conn n c) \<in> {TCP_CLOSED, TCP_CLOSE_WAIT, TCP_CLOSING, TCP_TIME_WAIT, TCP_LAST_ACK} \<or> \<not> c_valid (conn n c) then (None, n)
               else (Some [], n)))"

definition socket_udp_try_recv :: "nat \<Rightarrow> nat \<Rightarrow> 'a snet_scheme \<Rightarrow> u8 list option \<times> 'a snet_scheme" where
  "socket_udp_try_recv i len n =
     (let s = sockets n ! i in
      if so_q_count s = 0 then (Some [], n)
      else let p = so_udp_q s ! so_q_head s; k = (if length (pk_data p) < len then length (pk_data p) else len)
        in (Some (take k (pk_data p)), put_sock i (s\<lparr>so_peer_ip := pk_src_ip p, so_peer_port := pk_src_port p, so_has_peer := True,
              so_q_head := (so_q_head s + 1) mod UDP_SOCK_QUEUE, so_q_count := so_q_count s - 1\<rparr>) n))"

fun recv_loop :: "('a snet_scheme \<Rightarrow> 'a snet_scheme) \<Rightarrow> nat \<Rightarrow> nat \<Rightarrow> nat \<Rightarrow> 'a snet_scheme \<Rightarrow> u8 list option \<times> 'a snet_scheme" where
  "recv_loop poll i len 0 n = (Some [], n)"
| "recv_loop poll i len (Suc k) n =
     (case (if so_type (sockets n ! i) = SOCK_DGRAM then socket_udp_try_recv i len n else socket_tcp_try_recv i len n) of
        (Some [], n) \<Rightarrow> recv_loop poll i len k (net_wait_ms poll 10 n)
      | (r, n) \<Rightarrow> (r, n))"

definition socket_recv :: "('a snet_scheme \<Rightarrow> 'a snet_scheme) \<Rightarrow> int \<Rightarrow> nat \<Rightarrow> int \<Rightarrow> 'a snet_scheme \<Rightarrow> u8 list option \<times> 'a snet_scheme" where
  "socket_recv poll fd len timeout_ms n =
     (case socket_get fd n of
        None \<Rightarrow> (None, n)
      | Some i \<Rightarrow>
          if len = 0 then (None, n)
          else let attempts = (if timeout_ms > 0 then timeout_ms div 50 else 1)
            in recv_loop poll i len (nat (if attempts < 1 then 1 else attempts)) n)"

definition socket_close :: "('a snet_scheme \<Rightarrow> 'a snet_scheme) \<Rightarrow> int \<Rightarrow> 'a snet_scheme \<Rightarrow> bool \<times> 'a snet_scheme" where
  "socket_close poll fd n =
     (case socket_get fd n of
        None \<Rightarrow> (False, n)
      | Some i \<Rightarrow>
          (let n = (case so_tcp (sockets n ! i) of Some c \<Rightarrow> (let n = tcp_close poll c n in put_sock i ((sockets n ! i)\<lparr>so_tcp := None\<rparr>) n) | None \<Rightarrow> n);
               n = (case so_listen_tcp (sockets n ! i) of Some l \<Rightarrow> put_sock i ((sockets n ! i)\<lparr>so_listen_tcp := None\<rparr>) (tcp_connection_close l n) | None \<Rightarrow> n);
               n = net_ports_release_sock fd n
           in (True, put_sock i (socket_reset n (sockets n ! i)) n)))"

definition socket_close_by_pid :: "('a snet_scheme \<Rightarrow> 'a snet_scheme) \<Rightarrow> int \<Rightarrow> 'a snet_scheme \<Rightarrow> nat \<times> 'a snet_scheme" where
  "socket_close_by_pid poll pid n =
     (if pid < 0 then (0, n)
      else fold (\<lambda>i (k, n). if so_used (sockets n ! i) \<and> so_owner_pid (sockets n ! i) = pid
                 then (case socket_close poll (int i) n of (ok, n) \<Rightarrow> (if ok then k + 1 else k, n)) else (k, n)) [0..<length (sockets n)] (0, n))"

definition socket_get_peer :: "int \<Rightarrow> 'a snet_scheme \<Rightarrow> (u32 \<times> u16) option" where
  "socket_get_peer fd n =
     (case socket_get fd n of None \<Rightarrow> None | Some i \<Rightarrow> if so_has_peer (sockets n ! i) then Some (so_peer_ip (sockets n ! i), so_peer_port (sockets n ! i)) else None)"

definition socket_recv_available :: "int \<Rightarrow> 'a snet_scheme \<Rightarrow> nat" where
  "socket_recv_available fd n =
     (case socket_get fd n of
        None \<Rightarrow> 0
      | Some i \<Rightarrow> if so_type (sockets n ! i) \<noteq> SOCK_STREAM then 0
                 else (case so_tcp (sockets n ! i) of None \<Rightarrow> 0 | Some c \<Rightarrow> length (rx_buffer (conn n c))))"

lemma recv_progress: "(bs :: u8 list) \<noteq> [] \<Longrightarrow> length got < need \<Longrightarrow> need - (length got + length bs) < need - length got"
  by (cases bs) simp_all

function recv_exact_loop :: "('a snet_scheme \<Rightarrow> 'a snet_scheme) \<Rightarrow> int \<Rightarrow> nat \<Rightarrow> nat \<Rightarrow> u8 list \<Rightarrow> nat \<Rightarrow> 'a snet_scheme \<Rightarrow> u8 list option \<times> 'a snet_scheme" where
  "recv_exact_loop poll fd need max_idle got idle_rounds n =
     (if \<not> length got < need then (Some got, n)
      else
        let avail = socket_recv_available fd n; chunk = min (need - length got) avail;
            (r, n) = (if avail > 0 then socket_recv poll fd chunk 50 n else (Some [], n))
        in case r of
             None \<Rightarrow> (None, n)
           | Some bs \<Rightarrow>
               if bs \<noteq> [] then recv_exact_loop poll fd need max_idle (got @ bs) 0 n
               else if idle_rounds + 1 \<ge> max_idle then (if length got = need then Some got else None, n)
               else recv_exact_loop poll fd need max_idle got (idle_rounds + 1) n)"
  by pat_completeness auto

termination
  by (relation "measures [\<lambda>(poll, fd, need, mx, got, k, n). need - length got, \<lambda>(poll, fd, need, mx, got, k, n). mx - k]")
    (auto simp: Suc_le_eq recv_progress)

declare recv_exact_loop.simps [simp del]

definition socket_recv_exact :: "('a snet_scheme \<Rightarrow> 'a snet_scheme) \<Rightarrow> int \<Rightarrow> nat \<Rightarrow> int \<Rightarrow> 'a snet_scheme \<Rightarrow> u8 list option \<times> 'a snet_scheme" where
  "socket_recv_exact poll fd need timeout_ms n =
     (if need = 0 then (Some [], n)
      else let max_idle = (if timeout_ms > 0 then timeout_ms div 50 + 1 else 40); max_idle = (if max_idle < 8 then 8 else max_idle);
               max_idle = (if max_idle > 120 then 120 else max_idle)
        in recv_exact_loop poll fd need (nat max_idle) [] 0 n)"

definition socket_udp_deliver :: "u16 \<Rightarrow> u32 \<Rightarrow> u16 \<Rightarrow> u8 list \<Rightarrow> 'a snet_scheme \<Rightarrow> bool \<times> 'a snet_scheme" where
  "socket_udp_deliver dst_port sip src_port data n =
     (case find_slot (\<lambda>s. so_used s \<and> so_type s = SOCK_DGRAM \<and> so_local_port s = dst_port) (sockets n) of
        None \<Rightarrow> (False, n)
      | Some i \<Rightarrow>
          (let s = sockets n ! i;
               s = (if so_q_count s \<ge> UDP_SOCK_QUEUE then s\<lparr>so_q_head := (so_q_head s + 1) mod UDP_SOCK_QUEUE, so_q_count := so_q_count s - 1\<rparr> else s)
           in (True, put_sock i (s\<lparr>so_udp_q := (so_udp_q s)[so_q_tail s := \<lparr>pk_src_ip = sip, pk_src_port = src_port, pk_data = take UDP_PKT_MAX data\<rparr>],
                so_q_tail := (so_q_tail s + 1) mod UDP_SOCK_QUEUE, so_q_count := so_q_count s + 1\<rparr>) n)))"

text \<open>A received datagram. The checksum is computed over the copied header and what the stack
  holds behind it, and compared with the field as it stands in the packet.\<close>

definition udp_check :: "u32 \<Rightarrow> u32 \<Rightarrow> udp_header \<Rightarrow> nat \<Rightarrow> 'a snet_scheme \<Rightarrow> bool" where
  "udp_check sip dip h payload_size n =
     (let calc = udp_checksum sip dip (enc_udp (h\<lparr>uh_checksum := 0\<rparr>) @ map (stack_tail n) [0..<payload_size]); calc = (if calc = 0 then 0xFFFF else calc)
      in uh_checksum h = 0 \<or> calc = uh_checksum h)"

definition udp_handle_packet :: "('a snet_scheme \<Rightarrow> 'a snet_scheme) \<Rightarrow> u32 \<Rightarrow> u32 \<Rightarrow> u8 list \<Rightarrow> 'a snet_scheme \<Rightarrow> 'a snet_scheme" where
  "udp_handle_packet poll sip dip ip_payload n =
     (case udp_parse_header ip_payload of
        None \<Rightarrow> n
      | Some (h, payload) \<Rightarrow>
          if \<not> udp_check sip dip h (length payload) n then n
          else
            let src_port = htons (uh_src_port h); dst_port = htons (uh_dest_port h)
            in case socket_udp_deliver dst_port sip src_port payload n of
                 (True, n) \<Rightarrow> n
               | (False, n) \<Rightarrow>
                   if dst_port \<in> set (udp_listen_ports n) \<and> payload \<noteq> [] then snd (udp_send poll sip dst_port src_port payload n) else n)"

definition net_ports_close_listen :: "('a snet_scheme \<Rightarrow> 'a snet_scheme) \<Rightarrow> u8 \<Rightarrow> u16 \<Rightarrow> 'a snet_scheme \<Rightarrow> bool \<times> 'a snet_scheme" where
  "net_ports_close_listen poll proto port n =
     (case find_slot (np_same_listen proto port) (g_ports n) of
        None \<Rightarrow>
          (if proto = NET_PROTO_TCP then
             (case tcp_connection_find_listen port n of None \<Rightarrow> (False, n) | Some l \<Rightarrow> (True, tcp_connection_close l n))
           else if proto = NET_PROTO_UDP then (True, udp_unlisten_port port n)
           else (False, n))
      | Some i \<Rightarrow>
          if np_sock_fd (g_ports n ! i) \<ge> 0 then socket_close poll (np_sock_fd (g_ports n ! i)) n
          else
            let n = (if proto = NET_PROTO_TCP then (case tcp_connection_find_listen port n of None \<Rightarrow> n | Some l \<Rightarrow> tcp_connection_close l n)
                     else if proto = NET_PROTO_UDP then udp_unlisten_port port n else n)
            in (True, n\<lparr>g_ports := (g_ports n)[i := (g_ports n ! i)\<lparr>np_used := False\<rparr>]\<rparr>))"

section \<open>The queue of a datagram socket\<close>

definition queue_ok :: "socket_entry \<Rightarrow> bool" where
  "queue_ok s \<longleftrightarrow> length (so_udp_q s) = UDP_SOCK_QUEUE \<and> so_q_head s < UDP_SOCK_QUEUE \<and> so_q_count s \<le> UDP_SOCK_QUEUE \<and>
     so_q_tail s = (so_q_head s + so_q_count s) mod UDP_SOCK_QUEUE"

definition datagrams :: "socket_entry \<Rightarrow> udp_sock_pkt list" where
  "datagrams s = map (\<lambda>k. so_udp_q s ! ((so_q_head s + k) mod UDP_SOCK_QUEUE)) [0..<so_q_count s]"

lemma mod8_less: "(a :: nat) < b + 8 \<Longrightarrow> b < a \<Longrightarrow> a mod 8 \<noteq> b mod 8"
proof
  assume "a < b + 8" "b < a" "a mod 8 = b mod 8"
  then have "8 dvd a - b" by (metis mod_eq_dvd_iff_nat less_imp_le)
  then show False using \<open>a < b + 8\<close> \<open>b < a\<close> by (auto dest: dvd_imp_le)
qed

definition drop_oldest :: "socket_entry \<Rightarrow> socket_entry" where
  "drop_oldest s = s\<lparr>so_q_head := (so_q_head s + 1) mod UDP_SOCK_QUEUE, so_q_count := so_q_count s - 1\<rparr>"

lemma drop_oldest:
  assumes "queue_ok s" and "so_q_count s \<noteq> 0"
  shows "queue_ok (drop_oldest s)" "datagrams (drop_oldest s) = tl (datagrams s)" "hd (datagrams s) = so_udp_q s ! so_q_head s"
proof -
  obtain k where k: "so_q_count s = Suc k" using assms(2) by (cases "so_q_count s") auto
  show "queue_ok (drop_oldest s)" using assms(1) k by (auto simp: queue_ok_def drop_oldest_def mod_simps)
  have "[0..<Suc k] = 0 # map Suc [0..<k]" by (simp add: upt_conv_Cons map_Suc_upt del: upt_Suc)
  then have d: "datagrams s = so_udp_q s ! (so_q_head s mod UDP_SOCK_QUEUE) # map (\<lambda>j. so_udp_q s ! ((so_q_head s + Suc j) mod UDP_SOCK_QUEUE)) [0..<k]"
    by (simp add: datagrams_def k comp_def del: upt_Suc)
  show "datagrams (drop_oldest s) = tl (datagrams s)" by (simp add: d) (simp add: datagrams_def drop_oldest_def k mod_simps)
  show "hd (datagrams s) = so_udp_q s ! so_q_head s" using assms(1) by (simp add: d queue_ok_def)
qed

definition queue_put :: "udp_sock_pkt \<Rightarrow> socket_entry \<Rightarrow> socket_entry" where
  "queue_put p s = s\<lparr>so_udp_q := (so_udp_q s)[so_q_tail s := p], so_q_tail := (so_q_tail s + 1) mod UDP_SOCK_QUEUE, so_q_count := so_q_count s + 1\<rparr>"

lemma queue_put:
  assumes "queue_ok s" and "so_q_count s < UDP_SOCK_QUEUE"
  shows "queue_ok (queue_put p s)" "datagrams (queue_put p s) = datagrams s @ [p]"
proof -
  have q: "length (so_udp_q s) = UDP_SOCK_QUEUE" "so_q_tail s = (so_q_head s + so_q_count s) mod UDP_SOCK_QUEUE" "so_q_head s < UDP_SOCK_QUEUE"
    using assms(1) by (simp_all add: queue_ok_def)
  show "queue_ok (queue_put p s)" using assms q by (simp add: queue_ok_def queue_put_def mod_simps)
  have "so_q_tail s \<noteq> (so_q_head s + k) mod UDP_SOCK_QUEUE" if "k < so_q_count s" for k
    using mod8_less [of "so_q_head s + so_q_count s" "so_q_head s + k"] that assms(2) q(2) by simp
  then have "map (\<lambda>k. (so_udp_q s)[so_q_tail s := p] ! ((so_q_head s + k) mod UDP_SOCK_QUEUE)) [0..<so_q_count s] = datagrams s"
    by (simp add: datagrams_def)
  moreover have "(so_udp_q s)[so_q_tail s := p] ! ((so_q_head s + so_q_count s) mod UDP_SOCK_QUEUE) = p" using q by simp
  ultimately show "datagrams (queue_put p s) = datagrams s @ [p]" by (simp add: datagrams_def queue_put_def)
qed

lemma deliver_alt:
  "socket_udp_deliver dp sip sp data n =
     (case find_slot (\<lambda>s. so_used s \<and> so_type s = SOCK_DGRAM \<and> so_local_port s = dp) (sockets n) of
        None \<Rightarrow> (False, n)
      | Some i \<Rightarrow> (True, put_sock i (queue_put \<lparr>pk_src_ip = sip, pk_src_port = sp, pk_data = take UDP_PKT_MAX data\<rparr>
          (if so_q_count (sockets n ! i) \<ge> UDP_SOCK_QUEUE then drop_oldest (sockets n ! i) else sockets n ! i)) n))"
  by (simp add: socket_udp_deliver_def queue_put_def drop_oldest_def Let_def split: option.split)

text \<open>
  Fact: the ring of a datagram socket is a queue of eight datagrams. A datagram that is delivered
  goes behind those that wait, and the oldest one is dropped if there are eight; a try to receive
  takes the oldest one, cut to the room the caller gives, and makes its sender the peer.
\<close>

theorem socket_udp_queue_refines:
  fixes sip :: u32 and sp :: u16 and data :: "u8 list" and len :: nat and n :: "'a snet_scheme"
  assumes "find_slot (\<lambda>s. so_used s \<and> so_type s = SOCK_DGRAM \<and> so_local_port s = dp) (sockets n) = Some i" and "queue_ok (sockets n ! i)"
  defines "q \<equiv> datagrams (sockets n ! i)" and "n1 \<equiv> snd (socket_udp_deliver dp sip sp data n)" and "n2 \<equiv> snd (socket_udp_try_recv i len n)"
  shows "queue_ok (sockets n1 ! i) \<and>
    datagrams (sockets n1 ! i) = (if length q = UDP_SOCK_QUEUE then tl q else q) @ [\<lparr>pk_src_ip = sip, pk_src_port = sp, pk_data = take UDP_PKT_MAX data\<rparr>] \<and>
    fst (socket_udp_try_recv i len n) = Some (if q = [] then [] else take len (pk_data (hd q))) \<and> queue_ok (sockets n2 ! i) \<and>
    datagrams (sockets n2 ! i) = tl q \<and> (q \<noteq> [] \<longrightarrow> so_peer_ip (sockets n2 ! i) = pk_src_ip (hd q) \<and> so_peer_port (sockets n2 ! i) = pk_src_port (hd q))"
proof -
  let ?s = "sockets n ! i" let ?p = "\<lparr>pk_src_ip = sip, pk_src_port = sp, pk_data = take UDP_PKT_MAX data\<rparr>"
  let ?t = "if so_q_count ?s \<ge> UDP_SOCK_QUEUE then drop_oldest ?s else ?s"
  have i: "i < length (sockets n)" using find_slot_SomeD(1) [OF assms(1)] .
  have l: "length q = so_q_count ?s" by (simp add: q_def datagrams_def)
  have c: "so_q_count ?s \<le> UDP_SOCK_QUEUE" using assms(2) by (simp add: queue_ok_def)
  have t: "queue_ok ?t" "so_q_count ?t < UDP_SOCK_QUEUE" "datagrams ?t = (if length q = UDP_SOCK_QUEUE then tl q else q)"
    using drop_oldest [OF assms(2)] assms(2) c l by (auto simp: q_def drop_oldest_def)
  have "sockets n1 ! i = queue_put ?p ?t" using assms(1) i by (simp add: n1_def deliver_alt put_sock_def)
  then have 1: "queue_ok (sockets n1 ! i)" "datagrams (sockets n1 ! i) = (if length q = UDP_SOCK_QUEUE then tl q else q) @ [?p]"
    using queue_put [OF t(1,2)] t(3) by simp_all
  have 2: "fst (socket_udp_try_recv i len n) = Some (if q = [] then [] else take len (pk_data (hd q))) \<and> queue_ok (sockets n2 ! i) \<and>
    datagrams (sockets n2 ! i) = tl q \<and> (q \<noteq> [] \<longrightarrow> so_peer_ip (sockets n2 ! i) = pk_src_ip (hd q) \<and> so_peer_port (sockets n2 ! i) = pk_src_port (hd q))"
  proof (cases "q = []")
    case True
    then show ?thesis using l assms(2) by (simp add: n2_def socket_udp_try_recv_def Let_def flip: q_def)
  next
    case False
    then have d: "so_q_count ?s \<noteq> 0" using l by (metis length_0_conv)
    then have e: "queue_ok (drop_oldest ?s)" "datagrams (drop_oldest ?s) = tl q" "hd q = so_udp_q ?s ! so_q_head ?s"
      using drop_oldest [OF assms(2)] by (simp_all add: q_def)
    let ?r = "(drop_oldest ?s)\<lparr>so_peer_ip := pk_src_ip (hd q), so_peer_port := pk_src_port (hd q), so_has_peer := True\<rparr>"
    have "sockets n2 ! i = ?r" "fst (socket_udp_try_recv i len n) = Some (take len (pk_data (hd q)))"
      using d e(3) i by (simp_all add: n2_def socket_udp_try_recv_def Let_def put_sock_def drop_oldest_def)
    then show ?thesis using e False by (simp add: queue_ok_def datagrams_def)
  qed
  show ?thesis using 1 2 by simp
qed

section \<open>Datagrams of this stack are refused\<close>

lemma udp_parse_enc: "udp_parse_header (enc_udp h @ p) = Some (h, p)"
  by (simp add: udp_parse_header_def dec_enc_udp)

text \<open>
  Fact: the check of a received checksum compares the value in host order with the field in network
  order. A datagram without payload, as udp_send builds it, is therefore dropped by udp_handle_packet
  unless the two bytes of its checksum are equal.
\<close>

theorem udp_own_datagram_dropped:
  fixes sp dp :: u16 and s d :: u32
  defines "h \<equiv> \<lparr>uh_src_port = htons sp, uh_dest_port = htons dp, uh_length = htons 8, uh_checksum = 0\<rparr>"
  defines "c \<equiv> (if udp_checksum s d (enc_udp h) = 0 then 0xFFFF else udp_checksum s d (enc_udp h))"
  assumes "htons c \<noteq> c"
  shows "udp_handle_packet poll s d (enc_udp (h\<lparr>uh_checksum := htons c\<rparr>)) n = n"
proof -
  have p: "udp_parse_header (enc_udp (h\<lparr>uh_checksum := htons c\<rparr>)) = Some (h\<lparr>uh_checksum := htons c\<rparr>, [])"
    using udp_parse_enc [of _ "[]"] by simp
  have "htons 0 = 0" by (simp add: htons_def)
  then have "htons c \<noteq> 0" using assms(3) htons_htons [of c] by metis
  moreover have "h\<lparr>uh_checksum := 0\<rparr> = h" by (simp add: h_def)
  ultimately have "\<not> udp_check s d (h\<lparr>uh_checksum := htons c\<rparr>) 0 n" using assms(3) by (simp add: udp_check_def Let_def flip: c_def)
  then show ?thesis by (simp add: udp_handle_packet_def p)
qed

end
