(* ===== verification/KIcmp.thy ===== *)
theory KIcmp
  imports KSocket
begin

text \<open>
  ICMP, src/kernel/drivers/network/protocols/icmp.cpp: echo requests and replies, ping and the
  probes of traceroute. What the code prints is not modelled.
\<close>

record icmp_wait =
  iw_waiting :: bool
  iw_id :: u16
  iw_sequence :: u16
  iw_from_ip :: u32
  iw_received :: bool
  iw_kind :: int

record inet = snet +
  icmp_pending :: icmp_wait
  icmp_id_counter :: u16

abbreviation (input) ICMP_HDR :: nat where "ICMP_HDR \<equiv> 8"
abbreviation (input) ICMP_TYPE_ECHO_REPLY :: u8 where "ICMP_TYPE_ECHO_REPLY \<equiv> 0"
abbreviation (input) ICMP_TYPE_DEST_UNREACH :: u8 where "ICMP_TYPE_DEST_UNREACH \<equiv> 3"
abbreviation (input) ICMP_TYPE_ECHO_REQUEST :: u8 where "ICMP_TYPE_ECHO_REQUEST \<equiv> 8"
abbreviation (input) ICMP_TYPE_TIME_EXCEEDED :: u8 where "ICMP_TYPE_TIME_EXCEEDED \<equiv> 11"

definition icmp_checksum :: "u8 list \<Rightarrow> u16" where
  "icmp_checksum bs = ucast (NOT (csum_fold (csum_add bs 0)))"

text \<open>An echo request with its checksum, as icmp_send_echo and icmp_probe_to build it.\<close>

definition icmp_echo :: "u16 \<Rightarrow> u16 \<Rightarrow> u8 list \<Rightarrow> u8 list" where
  "icmp_echo i q payload =
     (let m = (\<lambda>c. [ICMP_TYPE_ECHO_REQUEST, 0] @ le16 c @ le16 (htons i) @ le16 (htons q) @ payload) in m (htons (icmp_checksum (m 0))))"

definition icmp_send_echo :: "('a inet_scheme \<Rightarrow> 'a inet_scheme) \<Rightarrow> u32 \<Rightarrow> u16 \<Rightarrow> u16 \<Rightarrow> 'a inet_scheme \<Rightarrow> bool \<times> 'a inet_scheme" where
  "icmp_send_echo poll dip i q n =
     (if ip_our n = 0 then (False, n) else ip_output poll dip IP_PROTOCOL_ICMP (icmp_echo i q (take 9 (map of_char ''KNITOS PING''))) n)"

definition icmp_echo_id_seq_matches :: "u8 list \<Rightarrow> u16 \<Rightarrow> u16 \<Rightarrow> bool" where
  "icmp_echo_id_seq_matches p want_id want_seq =
     (let ihl = unat ((p ! 8 AND 0x0F) * 4) in
      if length p < 8 + 20 + 8 then False
      else if ihl < 20 \<or> 8 + ihl + 8 > length p then False
      else if p ! (8 + 9) \<noteq> IP_PROTOCOL_ICMP then False
      else htons (get16 p (8 + ihl + 4)) = want_id \<and> htons (get16 p (8 + ihl + 6)) = want_seq)"

text \<open>The reply to an echo request: at most 72 bytes of it with type, code and checksum replaced.\<close>

definition icmp_reply :: "u8 list \<Rightarrow> u8 list" where
  "icmp_reply payload =
     (let m = (\<lambda>c. [ICMP_TYPE_ECHO_REPLY, 0] @ le16 c @ drop 4 (take (ICMP_HDR + 64) payload)) in m (htons (icmp_checksum (m 0))))"

definition icmp_handle_packet :: "('a inet_scheme \<Rightarrow> 'a inet_scheme) \<Rightarrow> u32 \<Rightarrow> u8 list \<Rightarrow> 'a inet_scheme \<Rightarrow> 'a inet_scheme" where
  "icmp_handle_packet poll sip payload n =
     (if length payload < ICMP_HDR then n
      else let w = icmp_pending n; type = payload ! 0; i = htons (get16 payload 4); q = htons (get16 payload 6) in
        if type = ICMP_TYPE_ECHO_REPLY then
          (if iw_waiting w \<and> i = iw_id w \<and> q = iw_sequence w
           then n\<lparr>icmp_pending := w\<lparr>iw_from_ip := sip, iw_received := True, iw_kind := uint ICMP_TYPE_ECHO_REPLY\<rparr>\<rparr> else n)
        else if type = ICMP_TYPE_DEST_UNREACH \<or> type = ICMP_TYPE_TIME_EXCEEDED then
          (if iw_waiting w \<and> length payload \<ge> 8 + 20 + 8 \<and> icmp_echo_id_seq_matches payload (iw_id w) (iw_sequence w)
           then n\<lparr>icmp_pending := w\<lparr>iw_from_ip := sip, iw_received := True, iw_kind := uint type\<rparr>\<rparr> else n)
        else if type = ICMP_TYPE_ECHO_REQUEST then
          (if ip_our n = 0 then n else snd (ip_output poll sip IP_PROTOCOL_ICMP (icmp_reply payload) n))
        else n)"

definition icmp_expect :: "u16 \<Rightarrow> u16 \<Rightarrow> 'a inet_scheme \<Rightarrow> 'a inet_scheme" where
  "icmp_expect i q n = n\<lparr>icmp_pending := \<lparr>iw_waiting = True, iw_id = i, iw_sequence = q, iw_from_ip = 0, iw_received = False, iw_kind = 0\<rparr>\<rparr>"

definition icmp_stop :: "'a inet_scheme \<Rightarrow> 'a inet_scheme" where
  "icmp_stop n = n\<lparr>icmp_pending := (icmp_pending n)\<lparr>iw_waiting := False\<rparr>\<rparr>"

text \<open>The wait for an answer; the result tells whether one was seen.\<close>

fun echo_wait :: "('a inet_scheme \<Rightarrow> 'a inet_scheme) \<Rightarrow> nat \<Rightarrow> 'a inet_scheme \<Rightarrow> bool \<times> 'a inet_scheme" where
  "echo_wait poll 0 n = (False, n)"
| "echo_wait poll (Suc k) n = (let n = poll n in if iw_received (icmp_pending n) then (True, n) else echo_wait poll k (net_wait_ms poll 10 n))"

fun ping_loop :: "('a inet_scheme \<Rightarrow> 'a inet_scheme) \<Rightarrow> u32 \<Rightarrow> u16 \<Rightarrow> nat \<Rightarrow> nat \<Rightarrow> int \<Rightarrow> 'a inet_scheme \<Rightarrow> int \<times> 'a inet_scheme" where
  "ping_loop poll dip i q 0 cnt n = (cnt, n)"
| "ping_loop poll dip i q (Suc k) cnt n =
     (case icmp_send_echo poll dip i (of_nat q) (icmp_expect i (of_nat q) n) of
        (False, n) \<Rightarrow> (- 1, icmp_stop n)
      | (True, n) \<Rightarrow>
          (case echo_wait poll 50 n of
             (seen, n) \<Rightarrow> ping_loop poll dip i (q + 1) k (if seen then cnt + 1 else cnt) (net_wait_ms poll 200 (icmp_stop n))))"

definition icmp_ping :: "('a inet_scheme \<Rightarrow> 'a inet_scheme) \<Rightarrow> u32 \<Rightarrow> int \<Rightarrow> 'a inet_scheme \<Rightarrow> int \<times> 'a inet_scheme" where
  "icmp_ping poll dip reps n =
     (if ip_our n = 0 then (- 1, n)
      else let reps = (if reps < 1 then 4 else reps); reps = (if reps > 10 then 10 else reps); i = icmp_id_counter n
        in ping_loop poll dip i 0 (nat reps) 0 (n\<lparr>icmp_id_counter := i + 1\<rparr>))"

text \<open>The result code with what was received: kind, sender, round-trip time.\<close>

definition icmp_probe_to :: "('a inet_scheme \<Rightarrow> 'a inet_scheme) \<Rightarrow> u32 \<Rightarrow> int \<Rightarrow> int \<Rightarrow> 'a inet_scheme \<Rightarrow> int \<times> (int \<times> u32 \<times> u32) option \<times> 'a inet_scheme" where
  "icmp_probe_to poll dip t timeout_ms n =
     (if ip_our n = 0 then (- 1, None, n)
      else
        let t = (if t < 1 then 1 else t); t = (if t > 255 then 255 else t); timeout_ms = (if timeout_ms \<le> 0 then 1000 else timeout_ms);
            i = icmp_id_counter n; n = icmp_expect i 0 (n\<lparr>icmp_id_counter := i + 1\<rparr>)
        in case ip_output_ttl poll dip IP_PROTOCOL_ICMP (icmp_echo i 0 (map of_char ''KNITOS TRACE'')) (of_int t) n of
             (False, n) \<Rightarrow> (- 1, None, icmp_stop n)
           | (True, n) \<Rightarrow>
               (let start_time = ticks n; attempts = timeout_ms div 10;
                    n = snd (echo_wait poll (nat (if attempts < 1 then 1 else attempts)) n); w = icmp_pending n
                in (if iw_received w then 0 else - 2, Some (iw_kind w, iw_from_ip w, ticks n - start_time), icmp_stop n)))"

section \<open>Echo requests are answered\<close>

lemma icmp_checksum_ip: "icmp_checksum = ip_checksum"
  by (simp add: fun_eq_iff icmp_checksum_def ip_checksum_def)

lemma checksum_seal:
  assumes "even (length a)" and "length a + 2 + length b < 2 ^ 16" and "word_sum (a @ le16 0 @ b) \<noteq> 0"
  shows "ip_checksum (a @ le16 (htons (ip_checksum (a @ le16 0 @ b))) @ b) = 0"
proof -
  let ?c = "ip_checksum (a @ le16 0 @ b)"
  have w: "word_sum (a @ le16 (htons x) @ b) = word_sum a + unat x + word_sum b" for x
    using assms(1) by (simp add: word_sum_append word_sum_be16 le16_htons)
  have "htons 0 = 0" by (simp add: htons_def)
  then have s: "word_sum (a @ le16 0 @ b) = word_sum a + word_sum b" using w [of 0] by simp
  have "unat ?c = 65535 - carry (word_sum (a @ le16 0 @ b))" using assms(2) by (intro ip_checksum_spec) simp
  then have "carry (word_sum (a @ le16 (htons ?c) @ b)) = 65535"
    using carry_complement [OF assms(3)] w [of ?c] s by (simp add: algebra_simps)
  then have "unat (ip_checksum (a @ le16 (htons ?c) @ b)) = 0" using assms(2) ip_checksum_spec [of "a @ le16 (htons ?c) @ b"] by simp
  then show ?thesis by (simp add: unat_eq_0)
qed

text \<open>
  Fact: a host with an address answers every echo request with one packet to its sender. The answer
  has the type of a reply, the identifier, the sequence number and up to 64 bytes of the data of the
  request, and, unless all of these are zero, a valid checksum.
\<close>

theorem icmp_echo_answered:
  assumes "ICMP_HDR \<le> length req" and "req ! 0 = ICMP_TYPE_ECHO_REQUEST" and "ip_our n \<noteq> 0"
  defines "rep \<equiv> icmp_reply req"
  shows "icmp_handle_packet poll sip req n = snd (ip_output poll sip IP_PROTOCOL_ICMP rep n) \<and>
    rep ! 0 = ICMP_TYPE_ECHO_REPLY \<and> rep ! 1 = 0 \<and> drop 4 rep = drop 4 (take (ICMP_HDR + 64) req) \<and>
    (word_sum (drop 4 (take (ICMP_HDR + 64) req)) \<noteq> 0 \<longrightarrow> icmp_checksum rep = 0)"
proof -
  let ?b = "drop 4 (take (ICMP_HDR + 64) req)"
  have rep: "rep = [ICMP_TYPE_ECHO_REPLY, 0] @ le16 (htons (ip_checksum ([ICMP_TYPE_ECHO_REPLY, 0] @ le16 0 @ ?b))) @ ?b"
    by (simp add: rep_def icmp_reply_def icmp_checksum_ip Let_def)
  have "word_sum ([ICMP_TYPE_ECHO_REPLY, 0] @ le16 0 @ ?b) = word_sum ?b" by (simp add: le16_def)
  then have "icmp_checksum rep = 0" if "word_sum ?b \<noteq> 0"
    using checksum_seal [of "[ICMP_TYPE_ECHO_REPLY, 0]" ?b] that rep by (simp add: icmp_checksum_ip)
  moreover have "drop 4 rep = ?b" by (simp add: rep le16_def)
  moreover have "rep ! 0 = ICMP_TYPE_ECHO_REPLY" "rep ! 1 = 0" by (simp_all add: rep)
  moreover have "icmp_handle_packet poll sip req n = snd (ip_output poll sip IP_PROTOCOL_ICMP rep n)"
    using assms(1,2,3) by (simp add: icmp_handle_packet_def rep_def Let_def)
  ultimately show ?thesis by simp
qed

end
