(* ===== verification/KDns.thy ===== *)
theory KDns
  imports KIcmp
begin

text \<open>
  DNS, src/kernel/drivers/network/dns/dns.cpp: names on the wire, the cache, queries, answers. Names
  are the bytes of C strings. Following compressed names calls dns_decode_name again, and a name may
  point to itself; the stack holds stack_depth such calls, and stack_fault notes that they did not
  suffice.
\<close>

record dns_cache_entry =
  dc_hostname :: "u8 list"
  dc_ip :: u32
  dc_ttl :: u32
  dc_timestamp :: u32
  dc_valid :: bool

record dns_pending_query =
  dp_active :: bool
  dp_query_id :: u16
  dp_hostname :: "u8 list"
  dp_result_ip :: u32
  dp_got_response :: bool

record dnet = inet +
  dns_cache :: "dns_cache_entry list"
  dns_query_id :: u16
  dns_pending :: dns_pending_query
  stack_depth :: nat
  stack_fault :: bool

abbreviation (input) DNS_PORT :: u16 where "DNS_PORT \<equiv> 53"
abbreviation (input) DNS_CLIENT_PORT :: u16 where "DNS_CLIENT_PORT \<equiv> 49152"
abbreviation (input) DNS_TYPE_A :: u16 where "DNS_TYPE_A \<equiv> 1"
abbreviation (input) DNS_TYPE_CNAME :: u16 where "DNS_TYPE_CNAME \<equiv> 5"
abbreviation (input) DNS_CLASS_IN :: u16 where "DNS_CLASS_IN \<equiv> 1"
abbreviation (input) DNS_FLAG_QR :: u16 where "DNS_FLAG_QR \<equiv> 0x8000"
abbreviation (input) DNS_FLAG_AA :: u16 where "DNS_FLAG_AA \<equiv> 0x0400"
abbreviation (input) DNS_FLAG_RD :: u16 where "DNS_FLAG_RD \<equiv> 0x0100"
abbreviation (input) DNS_FLAG_RCODE :: u16 where "DNS_FLAG_RCODE \<equiv> 0x000F"
abbreviation (input) DNS_CACHE_SIZE :: nat where "DNS_CACHE_SIZE \<equiv> 16"
abbreviation (input) DNS_HDR :: nat where "DNS_HDR \<equiv> 12"
abbreviation (input) ch_dot :: u8 where "ch_dot \<equiv> 0x2E"

section \<open>Names\<close>

definition dns_init :: "'a dnet_scheme \<Rightarrow> 'a dnet_scheme" where
  "dns_init n = n\<lparr>dns_cache := map (\<lambda>e. e\<lparr>dc_valid := False, dc_hostname := []\<rparr>) (dns_cache n)\<rparr>"

function dns_encode_loop :: "u8 list \<Rightarrow> nat \<Rightarrow> u8 list \<Rightarrow> u8 list option" where
  "dns_encode_loop start buffer_size out =
     (if start = [] \<or> \<not> length out < buffer_size - 1 then Some (out @ [0])
      else let label = takeWhile (\<lambda>c. c \<noteq> ch_dot) start; rest = drop (length label) start in
        if length label > 63 \<or> length out + length label + 1 \<ge> buffer_size then None
        else let out = out @ [of_nat (length label)] @ label
          in if rest \<noteq> [] then dns_encode_loop (tl rest) buffer_size out else Some (out @ [0]))"
  by pat_completeness auto

termination by (relation "measure (\<lambda>(start, size, out). length start)") auto

declare dns_encode_loop.simps [simp del]

definition dns_encode_name :: "u8 list \<Rightarrow> nat \<Rightarrow> u8 list option" where
  "dns_encode_name hostname buffer_size = dns_encode_loop hostname buffer_size []"

text \<open>A name with the position behind it, an error, or a stack that is used up.\<close>

datatype dns_name = DName "u8 list" nat | DError | DOverflow

function dns_decode_loop :: "u8 list \<Rightarrow> nat \<Rightarrow> nat \<Rightarrow> u8 list \<Rightarrow> bool \<Rightarrow> nat \<Rightarrow> dns_name" where
  "dns_decode_loop buf depth name_size name first pos =
     (if \<not> (pos < length buf \<and> length name < name_size - 1) then DName name pos
      else let len = buf ! pos; pos = pos + 1 in
        if len = 0 then DName name pos
        else if len AND 0xC0 = 0xC0 then
          (if pos \<ge> length buf then DError
           else if depth = 0 then DOverflow
           else case dns_decode_loop buf (depth - 1) (name_size - length name) [] True (unat (push_bit 8 (ucast (len AND 0x3F)) OR ucast (buf ! pos) :: u16)) of
             DName x y \<Rightarrow> DName name (pos + 1)
           | r \<Rightarrow> r)
        else if len > 63 \<or> pos + unat len > length buf then DError
        else let name = (if \<not> first \<and> length name < name_size - 1 then name @ [ch_dot] else name); k = min (unat len) (name_size - 1 - length name)
          in dns_decode_loop buf depth name_size (name @ take k (drop pos buf)) False (pos + k))"
  by pat_completeness auto

termination
  by (relation "measures [\<lambda>(buf, depth, size, name, first, pos). depth, \<lambda>(buf, depth, size, name, first, pos). length buf - pos]") auto

declare dns_decode_loop.simps [simp del]

definition dns_decode_name :: "u8 list \<Rightarrow> nat \<Rightarrow> nat \<Rightarrow> nat \<Rightarrow> dns_name" where
  "dns_decode_name buf depth pos name_size = dns_decode_loop buf depth name_size [] True pos"

text \<open>What the caller sees of a name: the C string in the buffer.\<close>

definition cstr_bytes :: "u8 list \<Rightarrow> u8 list" where
  "cstr_bytes bs = takeWhile (\<lambda>b. b \<noteq> 0) bs"

definition dns_tolower :: "u8 \<Rightarrow> u8" where
  "dns_tolower c = (if c \<ge> 0x41 \<and> c \<le> 0x5A then c + 32 else c)"

definition dns_hostname_equal :: "u8 list \<Rightarrow> u8 list \<Rightarrow> bool" where
  "dns_hostname_equal a b \<longleftrightarrow> map dns_tolower a = map dns_tolower b"

section \<open>The cache\<close>

definition dns_add_record :: "u8 list \<Rightarrow> u32 \<Rightarrow> 'a dnet_scheme \<Rightarrow> 'a dnet_scheme" where
  "dns_add_record hostname ip n =
     (let idx = (case find_slot (\<lambda>e. dc_valid e \<and> dns_hostname_equal hostname (dc_hostname e)) (dns_cache n) of
            Some i \<Rightarrow> i
          | None \<Rightarrow> (case find_slot (\<lambda>e. \<not> dc_valid e) (dns_cache n) of Some i \<Rightarrow> i | None \<Rightarrow> 0))
      in n\<lparr>dns_cache := (dns_cache n)[idx := \<lparr>dc_hostname = take 63 hostname, dc_ip = ip, dc_ttl = 3600, dc_timestamp = ticks n, dc_valid = True\<rparr>]\<rparr>)"

text \<open>The search of dns_query, which drops entries that are too old on its way.\<close>

fun dns_cache_lookup :: "u8 list \<Rightarrow> u32 \<Rightarrow> dns_cache_entry list \<Rightarrow> u32 option \<times> dns_cache_entry list" where
  "dns_cache_lookup hostname now [] = (None, [])"
| "dns_cache_lookup hostname now (e # es) =
     (if dc_valid e \<and> now - dc_timestamp e < dc_ttl e * 1000 \<and> dns_hostname_equal hostname (dc_hostname e) then (Some (dc_ip e), e # es)
      else case dns_cache_lookup hostname now es of
        (r, es) \<Rightarrow> (r, (if dc_valid e \<and> \<not> now - dc_timestamp e < dc_ttl e * 1000 then e\<lparr>dc_valid := False\<rparr> else e) # es))"

section \<open>Queries\<close>

definition dns_query_bytes :: "u16 \<Rightarrow> u8 list \<Rightarrow> u8 list option" where
  "dns_query_bytes i hostname =
     map_option (\<lambda>q. le16 (htons i) @ le16 (htons DNS_FLAG_RD) @ le16 (htons 1) @ le16 0 @ le16 0 @ le16 0 @ q @ le16 (htons DNS_TYPE_A) @ le16 (htons DNS_CLASS_IN))
       (dns_encode_name hostname (512 - DNS_HDR))"

fun dns_wait :: "('a dnet_scheme \<Rightarrow> 'a dnet_scheme) \<Rightarrow> u32 \<Rightarrow> u8 list \<Rightarrow> u16 \<Rightarrow> u8 list \<Rightarrow> nat \<Rightarrow> nat \<Rightarrow> 'a dnet_scheme \<Rightarrow> u32 option \<times> 'a dnet_scheme" where
  "dns_wait poll server hostname i q attempts 0 n = (None, n\<lparr>dns_pending := (dns_pending n)\<lparr>dp_active := False\<rparr>\<rparr>)"
| "dns_wait poll server hostname i q attempts (Suc k) n =
     (let n = poll n; p = dns_pending n in
      if dp_got_response p \<and> dp_query_id p = i
      then (Some (dp_result_ip p), dns_add_record hostname (dp_result_ip p) (n\<lparr>dns_pending := p\<lparr>dp_active := False\<rparr>\<rparr>))
      else
        let n = (if attempts > 0 \<and> attempts mod 40 = 0 then snd (udp_send poll server DNS_CLIENT_PORT DNS_PORT q n) else n)
        in dns_wait poll server hostname i q (attempts + 1) k (net_wait_ms poll 10 n))"

definition dns_query :: "('a dnet_scheme \<Rightarrow> 'a dnet_scheme) \<Rightarrow> u32 \<Rightarrow> u8 list \<Rightarrow> 'a dnet_scheme \<Rightarrow> u32 option \<times> 'a dnet_scheme" where
  "dns_query poll server hostname n =
     (if server = 0 then (None, n)
      else case dns_cache_lookup hostname (ticks n) (dns_cache n) of
        (r, cache) \<Rightarrow>
          (let n = n\<lparr>dns_cache := cache\<rparr> in
           case r of
             Some ip \<Rightarrow> (Some ip, n)
           | None \<Rightarrow>
               (let i = dns_query_id n; n = n\<lparr>dns_query_id := i + 1\<rparr> in
                case dns_query_bytes i hostname of
                  None \<Rightarrow> (None, n)
                | Some q \<Rightarrow>
                    (let n = n\<lparr>dns_pending := \<lparr>dp_active = True, dp_query_id = i, dp_hostname = take 63 hostname, dp_result_ip = 0, dp_got_response = False\<rparr>\<rparr>
                     in case udp_send poll server DNS_CLIENT_PORT DNS_PORT q n of
                          (False, n) \<Rightarrow> (None, n\<lparr>dns_pending := (dns_pending n)\<lparr>dp_active := False\<rparr>\<rparr>)
                        | (True, n) \<Rightarrow> dns_wait poll server hostname i q 0 200 n))))"

definition dns_resolve :: "('a dnet_scheme \<Rightarrow> 'a dnet_scheme) \<Rightarrow> u8 list \<Rightarrow> 'a dnet_scheme \<Rightarrow> u32 option \<times> 'a dnet_scheme" where
  "dns_resolve poll hostname n = (if dns_server_ip n = 0 then (None, n) else dns_query poll (dns_server_ip n) hostname n)"

text \<open>The text is taken as an address or, without blanks at its end, as a name.\<close>

definition net_resolve_host :: "('a dnet_scheme \<Rightarrow> 'a dnet_scheme) \<Rightarrow> string \<Rightarrow> 'a dnet_scheme \<Rightarrow> u32 option \<times> 'a dnet_scheme" where
  "net_resolve_host poll str n =
     (case ip_parse_address str of
        Some ip \<Rightarrow> (Some ip, n)
      | None \<Rightarrow>
          (let hostname = rev (dropWhile (\<lambda>c. c = CHR 0x20 \<or> c = CHR 0x09) (rev (take 255 str))) in
           if hostname = [] then (None, n) else dns_resolve poll (cstr_bytes (map of_char hostname)) n))"

section \<open>Answers\<close>

text \<open>The address in an answer, an error (None), or a stack that is used up.\<close>

datatype dns_answer = DAddr u32 | DNoAddr | DFault

fun dns_skip_questions :: "u8 list \<Rightarrow> nat \<Rightarrow> nat \<Rightarrow> nat \<Rightarrow> dns_name" where
  "dns_skip_questions data depth 0 pos = DName [] pos"
| "dns_skip_questions data depth (Suc k) pos =
     (case dns_decode_name data depth pos 256 of DName x pos \<Rightarrow> dns_skip_questions data depth k (pos + 4) | r \<Rightarrow> r)"

fun dns_read_answers :: "u8 list \<Rightarrow> nat \<Rightarrow> nat \<Rightarrow> nat \<Rightarrow> dns_answer" where
  "dns_read_answers data depth 0 pos = DNoAddr"
| "dns_read_answers data depth (Suc k) pos =
     (case dns_decode_name data depth pos 256 of
        DError \<Rightarrow> DNoAddr
      | DOverflow \<Rightarrow> DFault
      | DName x pos \<Rightarrow>
          if pos + 10 > length data then DNoAddr
          else let type = htons (get16 data pos); rdlength = htons (get16 data (pos + 8)); pos = pos + 10 in
            if type = DNS_TYPE_CNAME then dns_read_answers data depth k (pos + unat rdlength)
            else if type = DNS_TYPE_A \<and> rdlength = 4 then (if pos + 4 > length data then DNoAddr else DAddr (htonl (get32 data pos)))
            else dns_read_answers data depth k (pos + unat rdlength))"

definition dns_parse_response :: "u8 list \<Rightarrow> nat \<Rightarrow> dns_answer" where
  "dns_parse_response data depth =
     (if length data < DNS_HDR then DNoAddr
      else let flags = htons (get16 data 2); qdcount = htons (get16 data 4); ancount = htons (get16 data 6) in
        if flags AND DNS_FLAG_QR = 0 then DNoAddr
        else if flags AND DNS_FLAG_RCODE \<noteq> 0 then DNoAddr
        else if ancount = 0 then DNoAddr
        else case dns_skip_questions data depth (unat qdcount) DNS_HDR of
          DError \<Rightarrow> DNoAddr
        | DOverflow \<Rightarrow> DFault
        | DName x pos \<Rightarrow> dns_read_answers data depth (unat ancount) pos)"

definition dns_handle_response :: "u8 list \<Rightarrow> 'a dnet_scheme \<Rightarrow> 'a dnet_scheme" where
  "dns_handle_response payload n =
     (if length payload < DNS_HDR then n
      else if \<not> dp_active (dns_pending n) then n
      else if htons (get16 payload 0) \<noteq> dp_query_id (dns_pending n) then n
      else case dns_parse_response payload (stack_depth n) of
        DAddr ip \<Rightarrow> n\<lparr>dns_pending := (dns_pending n)\<lparr>dp_result_ip := ip, dp_got_response := True\<rparr>\<rparr>
      | DNoAddr \<Rightarrow> n
      | DFault \<Rightarrow> n\<lparr>stack_fault := True\<rparr>)"

text \<open>The answer to a question for a name with the type and class bytes of the question.\<close>

definition dns_response :: "u16 \<Rightarrow> u8 list \<Rightarrow> u8 list \<Rightarrow> u32 \<Rightarrow> u8 list option" where
  "dns_response i hostname question ip =
     (case dns_encode_name hostname (512 - DNS_HDR) of
        None \<Rightarrow> None
      | Some q \<Rightarrow>
          (let r = le16 (htons i) @ le16 (htons (DNS_FLAG_QR OR DNS_FLAG_AA OR DNS_FLAG_RD)) @ le16 (htons 1) @ le16 (if ip \<noteq> 0 then htons 1 else 0) @
                 le16 0 @ le16 0 @ q @ question in
           if ip = 0 then Some r
           else map_option (\<lambda>a. r @ a @ le16 (htons DNS_TYPE_A) @ le16 (htons DNS_CLASS_IN) @ le32 (htonl 3600) @ le16 (htons 4) @ le32 (htonl ip))
                  (dns_encode_name hostname (512 - length r))))"

definition dns_handle_request :: "('a dnet_scheme \<Rightarrow> 'a dnet_scheme) \<Rightarrow> u32 \<Rightarrow> u16 \<Rightarrow> u8 list \<Rightarrow> 'a dnet_scheme \<Rightarrow> 'a dnet_scheme" where
  "dns_handle_request poll sip src_port payload n =
     (if length payload < DNS_HDR then n
      else if htons (get16 payload 4) = 0 then n
      else case dns_decode_name payload (stack_depth n) DNS_HDR 256 of
        DError \<Rightarrow> n
      | DOverflow \<Rightarrow> n\<lparr>stack_fault := True\<rparr>
      | DName name pos \<Rightarrow>
          if pos + 4 > length payload then n
          else
            let hostname = cstr_bytes name;
                ip = (case find_slot (\<lambda>e. dc_valid e \<and> dns_hostname_equal hostname (dc_hostname e)) (dns_cache n) of
                        Some i \<Rightarrow> dc_ip (dns_cache n ! i) | None \<Rightarrow> 0)
            in case dns_response (htons (get16 payload 0)) hostname (take 4 (drop pos payload)) ip of
                 None \<Rightarrow> n
               | Some r \<Rightarrow> snd (udp_send poll sip DNS_PORT src_port r n))"

section \<open>Names survive the wire\<close>

fun dotted :: "u8 list list \<Rightarrow> u8 list" where
  "dotted [] = []"
| "dotted [l] = l"
| "dotted (l # ls) = l @ [ch_dot] @ dotted ls"

definition label_ok :: "u8 list \<Rightarrow> bool" where
  "label_ok l \<longleftrightarrow> 0 < length l \<and> length l \<le> 63 \<and> ch_dot \<notin> set l \<and> 0 \<notin> set l"

definition enc_labels :: "u8 list list \<Rightarrow> u8 list" where
  "enc_labels ls = concat (map (\<lambda>l. of_nat (length l) # l) ls)"

lemma enc_labels_Cons [simp]: "enc_labels [] = []" "enc_labels (l # ls) = of_nat (length l) # l @ enc_labels ls"
  by (simp_all add: enc_labels_def)

lemma takeWhile_label: "label_ok l \<Longrightarrow> takeWhile (\<lambda>c. c \<noteq> ch_dot) (l @ rest) = l @ takeWhile (\<lambda>c. c \<noteq> ch_dot) rest"
  by (intro takeWhile_append2) (auto simp: label_ok_def)

lemma encode_labels:
  "ls \<noteq> [] \<Longrightarrow> list_all label_ok ls \<Longrightarrow> length out + length (enc_labels ls) < m \<Longrightarrow> dns_encode_loop (dotted ls) m out = Some (out @ enc_labels ls @ [0])"
proof (induction ls arbitrary: out rule: dotted.induct)
  case (2 l)
  have l: "label_ok l" "l \<noteq> []" using 2 by (auto simp: label_ok_def)
  have tw: "takeWhile (\<lambda>c. c \<noteq> ch_dot) l = l" using takeWhile_label [OF l(1), of "[]"] by simp
  show ?case using 2(3) l by (subst dns_encode_loop.simps) (simp add: tw label_ok_def Let_def)
next
  case (3 l k ks)
  let ?d = "dotted (k # ks)" let ?out = "out @ [of_nat (length l)] @ l"
  have l: "label_ok l" "l \<noteq> []" using 3 by (auto simp: label_ok_def)
  have tw: "takeWhile (\<lambda>c. c \<noteq> ch_dot) (l @ ch_dot # ?d) = l" using takeWhile_label [OF l(1), of "ch_dot # ?d"] by simp
  have "length out < m - 1" using 3(4) by simp
  then have "dns_encode_loop (dotted (l # k # ks)) m out = dns_encode_loop ?d m ?out"
    using 3(4) l by (subst dns_encode_loop.simps) (simp add: tw label_ok_def Let_def)
  also have "\<dots> = Some (?out @ enc_labels (k # ks) @ [0])" using 3 by (intro "3.IH") simp_all
  finally show ?case by simp
qed simp

lemma small_len: "k \<le> 63 \<Longrightarrow> 0 < k \<Longrightarrow> (of_nat k :: u8) \<noteq> 0 \<and> of_nat k AND 0xC0 \<noteq> (0xC0 :: u8) \<and> \<not> (of_nat k :: u8) > 63 \<and> unat (of_nat k :: u8) = k"
proof -
  assume k: "k \<le> 63" "0 < k"
  have u: "unat (of_nat k :: u8) = k" using k by (simp add: unat_of_nat)
  then have le: "(of_nat k :: u8) \<le> 63" using k by (simp add: word_le_nat_alt)
  have "of_nat k AND 0xC0 \<le> (of_nat k :: u8)" by (rule word_and_le2)
  then have "of_nat k AND 0xC0 \<le> (63 :: u8)" using le by (rule order_trans)
  then have "of_nat k AND 0xC0 \<noteq> (0xC0 :: u8)" by auto
  moreover have "(of_nat k :: u8) \<noteq> 0" using u k by (metis unat_0 less_irrefl)
  ultimately show ?thesis using u le by simp
qed

lemma decode_labels:
  assumes "list_all label_ok ls" and "length name + length (concat (map ((#) ch_dot) ls)) < m - 1"
  shows "dns_decode_loop (pre @ enc_labels ls @ 0 # rest) depth m name False (length pre) =
    DName (name @ concat (map ((#) ch_dot) ls)) (length pre + length (enc_labels ls) + 1)"
  using assms
proof (induction ls arbitrary: pre name)
  case Nil
  then show ?case by (subst dns_decode_loop.simps) (simp add: Let_def)
next
  case (Cons l ls)
  let ?p = "pre @ of_nat (length l) # l"
  have l: "label_ok l" "0 < length l" "length l \<le> 63" using Cons.prems(1) by (auto simp: label_ok_def)
  have buf: "pre @ enc_labels (l # ls) @ 0 # rest = ?p @ enc_labels ls @ 0 # rest" by simp
  have "dns_decode_loop (pre @ enc_labels (l # ls) @ 0 # rest) depth m name False (length pre) =
      dns_decode_loop (?p @ enc_labels ls @ 0 # rest) depth m (name @ ch_dot # l) False (length ?p)"
    using small_len [OF l(3,2)] Cons.prems(2) by (subst dns_decode_loop.simps) (simp add: Let_def nth_append)
  also have "\<dots> = DName ((name @ ch_dot # l) @ concat (map ((#) ch_dot) ls)) (length ?p + length (enc_labels ls) + 1)"
    using Cons.prems by (intro Cons.IH) simp_all
  finally show ?case by simp
qed

lemma dotted_concat: "l @ concat (map ((#) ch_dot) ls) = dotted (l # ls)"
proof (induction ls arbitrary: l)
  case (Cons a ls)
  show ?case using Cons.IH [of a] by simp
qed simp

lemma decode_name:
  assumes "list_all label_ok (l # ls)" and "length (dotted (l # ls)) < m - 1"
  shows "dns_decode_name (pre @ enc_labels (l # ls) @ 0 # rest) depth (length pre) m = DName (dotted (l # ls)) (length pre + length (enc_labels (l # ls)) + 1)"
proof -
  let ?p = "pre @ of_nat (length l) # l"
  have l: "0 < length l" "length l \<le> 63" using assms(1) by (auto simp: label_ok_def)
  have len: "length l + length (concat (map ((#) ch_dot) ls)) < m - 1" using assms(2) by (simp flip: dotted_concat)
  then have "Suc 0 < m" by simp
  then have "dns_decode_name (pre @ enc_labels (l # ls) @ 0 # rest) depth (length pre) m = dns_decode_loop (?p @ enc_labels ls @ 0 # rest) depth m l False (length ?p)"
    unfolding dns_decode_name_def using small_len [OF l(2,1)] len by (subst dns_decode_loop.simps) (simp add: Let_def nth_append)
  then show ?thesis using decode_labels [of ls l m ?p rest depth] assms(1) len by (simp add: dotted_concat)
qed

text \<open>
  Fact: a host name of labels of 1 to 63 characters, together less than 254, is encoded, and
  decoding it from any place of a message gives it back with the position behind it.
\<close>

theorem dns_name_roundtrip:
  assumes "ls \<noteq> []" and "list_all label_ok ls" and "length (dotted ls) < 254"
  shows "\<exists>enc. dns_encode_name (dotted ls) 500 = Some enc \<and> (\<forall>pre rest depth. dns_decode_name (pre @ enc @ rest) depth (length pre) 256 = DName (dotted ls) (length pre + length enc))"
proof -
  obtain l ks where ls: "ls = l # ks" using assms(1) by (cases ls) auto
  have "length (enc_labels ls) = length (dotted ls) + 1" using assms(1) by (induction ls rule: dotted.induct) simp_all
  then have "dns_encode_name (dotted ls) 500 = Some (enc_labels ls @ [0])" using encode_labels [OF assms(1,2), of "[]" 500] assms(3) by (simp add: dns_encode_name_def)
  moreover have "dns_decode_name (pre @ (enc_labels ls @ [0]) @ rest) depth (length pre) 256 = DName (dotted ls) (length pre + length (enc_labels ls @ [0]))" for pre rest depth
    using decode_name [of l ks 256 pre rest depth] assms(2,3) ls by simp
  ultimately show ?thesis by auto
qed

section \<open>Answers are understood and fit their buffer\<close>

lemma encode_length: "dns_encode_loop start m out = Some enc \<Longrightarrow> length enc \<le> length out + length start + 2"
proof (induction start m out arbitrary: enc rule: dns_encode_loop.induct)
  case (1 start m out)
  let ?l = "takeWhile (\<lambda>c. c \<noteq> ch_dot) start" let ?out = "out @ [of_nat (length ?l)] @ ?l"
  have ll: "length ?l \<le> length start" by (rule length_takeWhile_le)
  consider "enc = out @ [0]" | "enc = ?out @ [0]" | "drop (length ?l) start \<noteq> []" "dns_encode_loop (tl (drop (length ?l) start)) m ?out = Some enc"
    "\<not> (start = [] \<or> \<not> length out < m - 1)" "\<not> (length ?l > 63 \<or> length out + length ?l + 1 \<ge> m)"
    using "1.prems" by (subst (asm) dns_encode_loop.simps) (auto simp: Let_def split: if_splits)
  then show ?case
  proof cases
    case 3
    have "length enc \<le> length ?out + length (tl (drop (length ?l) start)) + 2" using "1.IH" [OF 3(3) refl refl 3(4) refl 3(1,2)] .
    then show ?thesis using 3(1) ll by simp
  qed (use ll in simp_all)
qed

text \<open>
  Fact: the answer to a request is at most 512 bytes long, the size of the buffer it is built in:
  a name that is found in the cache has at most 63 characters.
\<close>

theorem dns_response_fits:
  assumes "dns_response i hostname question ip = Some r" and "length hostname \<le> 255" and "length question = 4" and "ip \<noteq> 0 \<Longrightarrow> length hostname \<le> 63"
  shows "length r \<le> 512"
proof -
  obtain q where q: "dns_encode_name hostname 500 = Some q" using assms(1) by (auto simp: dns_response_def split: option.splits)
  then have lq: "length q \<le> length hostname + 2" using encode_length by (fastforce simp: dns_encode_name_def)
  show ?thesis
  proof (cases "ip = 0")
    case True
    then have "length r = 12 + length q + 4" using assms(1,3) q by (auto simp: dns_response_def Let_def)
    then show ?thesis using lq assms(2) by simp
  next
    case False
    then obtain a where a: "dns_encode_name hostname (512 - (16 + length q)) = Some a" "length r = 16 + length q + length a + 14"
      using assms(1,3) q by (auto simp: dns_response_def Let_def add.commute add.left_commute)
    then have "length a \<le> length hostname + 2" using encode_length by (fastforce simp: dns_encode_name_def)
    then show ?thesis using lq a(2) assms(4) False by simp
  qed
qed

lemma get16_pre: "length pre = i \<Longrightarrow> get16 (pre @ le16 w @ rest) i = w"
  by (rule get16_at) simp_all

lemma get32_pre: "length pre = i \<Longrightarrow> get32 (pre @ le32 w @ rest) i = w"
  by (rule get32_at) simp_all

lemma enc_labels_length: "ls \<noteq> [] \<Longrightarrow> length (enc_labels ls) = length (dotted ls) + 1"
  by (induction ls rule: dotted.induct) simp_all

lemma response_bytes:
  assumes "ls \<noteq> []" and "list_all label_ok ls" and "length (dotted ls) \<le> 63" and "ip \<noteq> 0" and "length question = 4"
  shows "dns_response i (dotted ls) question ip = Some ((le16 (htons i) @ le16 0x85) @ le16 (htons 1) @ le16 (htons 1) @ le16 0 @ le16 0 @
    (enc_labels ls @ [0]) @ question @ (enc_labels ls @ [0]) @ le16 (htons DNS_TYPE_A) @ le16 (htons DNS_CLASS_IN) @ le32 (htonl 3600) @ le16 (htons 4) @ le32 (htonl ip))"
proof -
  have l: "length (enc_labels ls) \<le> 64" using enc_labels_length [OF assms(1)] assms(3) by simp
  have e: "dns_encode_name (dotted ls) m = Some (enc_labels ls @ [0])" if "64 < m" for m
    using encode_labels [OF assms(1,2), of "[]" m] l that by (simp add: dns_encode_name_def)
  have f: "htons 0x8500 = 0x85" by (simp add: htons_def)
  show ?thesis using assms(4,5) l by (simp add: dns_response_def e f)
qed

text \<open>
  C39: the client finds in the answer of the server the address the server knows for the name.
\<close>

theorem dns_answer_roundtrip:
  assumes "ls \<noteq> []" and "list_all label_ok ls" and "length (dotted ls) \<le> 63" and "ip \<noteq> 0" and "length question = 4"
    and "dns_response i (dotted ls) question ip = Some r"
  shows "htons (get16 r 0) = i \<and> dns_parse_response r depth = DAddr ip"
proof -
  define h where "h = (le16 (htons i) @ le16 0x85) @ le16 (htons 1) @ le16 (htons 1) @ le16 0 @ le16 0"
  define e where "e = enc_labels ls @ [0]"
  define t where "t = le16 (htons DNS_CLASS_IN) @ le32 (htonl 3600)"
  have r: "r = h @ e @ question @ e @ le16 (htons DNS_TYPE_A) @ t @ le16 (htons 4) @ le32 (htonl ip)"
    using assms(6) response_bytes [OF assms(1-5)] by (simp add: h_def e_def t_def)
  have lh: "length h = 12" "length t = 6" by (simp_all add: h_def t_def)
  have dec: "dns_decode_name (pre @ e @ rest) depth (length pre) 256 = DName (dotted ls) (length pre + length e)" for pre rest
  proof -
    obtain l ks where "ls = l # ks" using assms(1) by (cases ls) auto
    then show ?thesis using decode_name [of l ks 256 pre rest depth] assms(2,3) by (simp add: e_def)
  qed
  have hdr: "get16 r 0 = htons i" "get16 r 2 = 0x85" "get16 r 4 = htons 1" "get16 r 6 = htons 1"
    by (rule get16_at; simp add: r h_def)+
  have fl: "htons (0x85 :: u16) = 0x8500" by (simp add: htons_def)
  have q: "dns_skip_questions r depth 1 12 = DName [] (12 + length e + 4)"
    using dec [of h "question @ e @ le16 (htons DNS_TYPE_A) @ t @ le16 (htons 4) @ le32 (htonl ip)"] lh r by (simp add: numeral_eq_Suc)
  let ?p = "12 + length e + 4" and ?pre = "h @ e @ question"
  have d2: "dns_decode_name r depth ?p 256 = DName (dotted ls) (?p + length e)"
    using dec [of ?pre "le16 (htons DNS_TYPE_A) @ t @ le16 (htons 4) @ le32 (htonl ip)"] lh assms(5) r by simp
  let ?q = "?p + length e"
  have ty: "get16 r ?q = htons DNS_TYPE_A" using get16_pre [of "?pre @ e" ?q] lh assms(5) by (simp add: r)
  have rd: "get16 r (?q + 8) = htons 4" using get16_pre [of "?pre @ e @ le16 (htons DNS_TYPE_A) @ t" "?q + 8"] lh assms(5) by (simp add: r)
  have ad: "get32 r (?q + 10) = htonl ip" using get32_pre [of "?pre @ e @ le16 (htons DNS_TYPE_A) @ t @ le16 (htons 4)" "?q + 10" _ "[]"] lh assms(5) by (simp add: r)
  have lr: "length r = ?q + 14" using lh assms(5) by (simp add: r)
  have "dns_read_answers r depth 1 ?p = DAddr ip"
    using d2 ty rd ad lr by (simp add: numeral_eq_Suc [of Num.One] htons_htons htonl_htonl Let_def)
  then have "dns_parse_response r depth = DAddr ip" using hdr fl q lr by (simp add: dns_parse_response_def Let_def htons_htons)
  then show ?thesis using hdr(1) by (simp add: htons_htons)
qed

section \<open>A name that points to itself\<close>

lemma pointer_loop:
  assumes "p + 1 < length buf" and "buf ! p AND 0xC0 = 0xC0" and "unat (push_bit 8 (ucast (buf ! p AND 0x3F)) OR ucast (buf ! (p + 1)) :: u16) = p"
  shows "2 \<le> m \<Longrightarrow> dns_decode_loop buf depth m [] True p = DOverflow"
proof (induction depth arbitrary: m)
  case 0
  then show ?case using assms by (subst dns_decode_loop.simps) (auto simp: Let_def)
next
  case (Suc d)
  have "dns_decode_loop buf d m [] True p = DOverflow" using Suc by blast
  then show ?case using assms Suc.prems by (subst dns_decode_loop.simps) (auto simp: Let_def)
qed

text \<open>
  C40: a question whose name is a pointer to itself uses up the stack however large it is: every
  host that receives such a request on port 53 goes down.
\<close>

theorem dns_pointer_loop_faults:
  assumes "htons (get16 payload 4) \<noteq> 0" and "14 \<le> length payload" and "payload ! 12 = 0xC0" "payload ! 13 = 12"
  shows "stack_fault (dns_handle_request poll sip sp payload n)"
proof -
  have "unat (push_bit 8 (ucast (payload ! 12 AND 0x3F)) OR ucast (payload ! 13) :: u16) = 12" using assms(3,4) by simp
  then have "dns_decode_name payload (stack_depth n) 12 256 = DOverflow"
    unfolding dns_decode_name_def using pointer_loop [of 12 payload 256] assms by simp
  then show ?thesis using assms(1,2) by (simp add: dns_handle_request_def)
qed

end
