(* ===== verification/KDhcp.thy ===== *)
theory KDhcp
  imports KDns
begin

text \<open>
  The DHCP client, src/kernel/drivers/network/dhcp/dhcp.cpp: options, messages, the handling of
  offers and acknowledgements, acquiring, renewing and releasing an address. The state of the client
  and the offered address are fields of the IP layer, which reads them. What the code prints and
  the task that calls dhcp_poll are not modelled.
\<close>

record dhcp_config =
  dh_ip_address :: u32
  dh_subnet_mask :: u32
  dh_gateway :: u32
  dh_dns_server :: u32
  dh_server_ip :: u32
  dh_lease_time :: u32
  dh_valid :: bool

record hnet = dnet +
  dhcp_conf :: dhcp_config
  dhcp_xid :: u32
  dhcp_server_ip :: u32
  dhcp_bound_at :: u32
  dhcp_renew_in_progress :: bool
  dhcp_renew_sent_at :: u32
  dhcp_hostname :: string
  g_dhcpd_pid :: int

abbreviation (input) DHCP_SERVER_PORT :: u16 where "DHCP_SERVER_PORT \<equiv> 67"
abbreviation (input) DHCP_CLIENT_PORT :: u16 where "DHCP_CLIENT_PORT \<equiv> 68"
abbreviation (input) DHCP_MAGIC_COOKIE :: u32 where "DHCP_MAGIC_COOKIE \<equiv> 0x63825363"
abbreviation (input) DHCP_HDR :: nat where "DHCP_HDR \<equiv> 240"
abbreviation (input) DHCP_OPTION_PAD :: u8 where "DHCP_OPTION_PAD \<equiv> 0"
abbreviation (input) DHCP_OPTION_SUBNET_MASK :: u8 where "DHCP_OPTION_SUBNET_MASK \<equiv> 1"
abbreviation (input) DHCP_OPTION_ROUTER :: u8 where "DHCP_OPTION_ROUTER \<equiv> 3"
abbreviation (input) DHCP_OPTION_DNS_SERVER :: u8 where "DHCP_OPTION_DNS_SERVER \<equiv> 6"
abbreviation (input) DHCP_OPTION_HOSTNAME :: u8 where "DHCP_OPTION_HOSTNAME \<equiv> 12"
abbreviation (input) DHCP_OPTION_REQUESTED_IP :: u8 where "DHCP_OPTION_REQUESTED_IP \<equiv> 50"
abbreviation (input) DHCP_OPTION_LEASE_TIME :: u8 where "DHCP_OPTION_LEASE_TIME \<equiv> 51"
abbreviation (input) DHCP_OPTION_MESSAGE_TYPE :: u8 where "DHCP_OPTION_MESSAGE_TYPE \<equiv> 53"
abbreviation (input) DHCP_OPTION_SERVER_IDENTIFIER :: u8 where "DHCP_OPTION_SERVER_IDENTIFIER \<equiv> 54"
abbreviation (input) DHCP_OPTION_PARAMETER_REQUEST_LIST :: u8 where "DHCP_OPTION_PARAMETER_REQUEST_LIST \<equiv> 55"
abbreviation (input) DHCP_OPTION_END :: u8 where "DHCP_OPTION_END \<equiv> 255"
abbreviation (input) DHCP_DISCOVER :: u8 where "DHCP_DISCOVER \<equiv> 1"
abbreviation (input) DHCP_OFFER :: u8 where "DHCP_OFFER \<equiv> 2"
abbreviation (input) DHCP_REQUEST :: u8 where "DHCP_REQUEST \<equiv> 3"
abbreviation (input) DHCP_ACK :: u8 where "DHCP_ACK \<equiv> 5"
abbreviation (input) DHCP_NAK :: u8 where "DHCP_NAK \<equiv> 6"
abbreviation (input) DHCP_RELEASE :: u8 where "DHCP_RELEASE \<equiv> 7"

section \<open>Messages\<close>

definition dhcp_set_hostname :: "string \<Rightarrow> 'a hnet_scheme \<Rightarrow> bool \<times> 'a hnet_scheme" where
  "dhcp_set_hostname name n = (if name = [] then (False, n) else (True, n\<lparr>dhcp_hostname := cstr_copy 32 name\<rparr>))"

definition dhcp_generate_xid :: "'a hnet_scheme \<Rightarrow> u32" where
  "dhcp_generate_xid n =
     (let mac = nic_get_mac n;
          xid = push_bit 24 (ucast (mac ! 2)) OR push_bit 16 (ucast (mac ! 3)) OR push_bit 8 (ucast (mac ! 4)) OR ucast (mac ! 5);
          xid = xid XOR ticks n * 0x9E3779B1
      in if xid \<noteq> 0 then xid else 0xA5A5A5A5)"

definition dhcp_add_option :: "u8 \<Rightarrow> u8 list \<Rightarrow> u8 list \<Rightarrow> u8 list" where
  "dhcp_add_option code data buffer =
     (if length buffer + 2 + length data > 512 then buffer
      else buffer @ (if code \<noteq> DHCP_OPTION_PAD \<and> code \<noteq> DHCP_OPTION_END then [code, of_nat (length data)] @ data else [code]))"

function dhcp_find_option :: "u8 \<Rightarrow> u8 list \<Rightarrow> u8 list option" where
  "dhcp_find_option code options =
     (if options = [] then None
      else if options ! 0 = DHCP_OPTION_END then None
      else if options ! 0 = DHCP_OPTION_PAD then dhcp_find_option code (drop 1 options)
      else if 1 \<ge> length options then None
      else let opt_len = unat (options ! 1) in
        if 2 + opt_len > length options then None
        else if options ! 0 = code then Some (take opt_len (drop 2 options))
        else dhcp_find_option code (drop (2 + opt_len) options))"
  by pat_completeness auto

termination by (relation "measure (\<lambda>(code, options). length options)") auto

declare dhcp_find_option.simps [simp del]

text \<open>The header of a message of the client.\<close>

definition dhcp_request_header :: "u32 \<Rightarrow> 'a hnet_scheme \<Rightarrow> u8 list" where
  "dhcp_request_header ciaddr n =
     [1, 1, 6, 0] @ le32 (htonl (dhcp_xid n)) @ le16 0 @ le16 (htons 0x8000) @ le32 ciaddr @ le32 0 @ le32 0 @ le32 0 @
     nic_get_mac n @ replicate 10 0 @ replicate 64 0 @ replicate 128 0 @ le32 (htonl DHCP_MAGIC_COOKIE)"

definition dhcp_send_discover :: "('a hnet_scheme \<Rightarrow> 'a hnet_scheme) \<Rightarrow> 'a hnet_scheme \<Rightarrow> bool \<times> 'a hnet_scheme" where
  "dhcp_send_discover poll n =
     (let n = (if dhcp_xid n = 0 then n\<lparr>dhcp_xid := dhcp_generate_xid n\<rparr> else n);
          b = dhcp_request_header 0 n;
          b = dhcp_add_option DHCP_OPTION_MESSAGE_TYPE [DHCP_DISCOVER] b;
          b = dhcp_add_option DHCP_OPTION_HOSTNAME (map of_char (dhcp_hostname n)) b;
          b = dhcp_add_option DHCP_OPTION_PARAMETER_REQUEST_LIST [DHCP_OPTION_SUBNET_MASK, DHCP_OPTION_ROUTER, DHCP_OPTION_DNS_SERVER] b;
          b = dhcp_add_option DHCP_OPTION_END [] b
      in udp_send poll 0xFFFFFFFF DHCP_CLIENT_PORT DHCP_SERVER_PORT b n)"

definition dhcp_send_request :: "('a hnet_scheme \<Rightarrow> 'a hnet_scheme) \<Rightarrow> u32 \<Rightarrow> u32 \<Rightarrow> 'a hnet_scheme \<Rightarrow> bool \<times> 'a hnet_scheme" where
  "dhcp_send_request poll requested_ip server_ip n =
     (let c = dhcp_conf n;
          b = dhcp_request_header (if dh_valid c \<and> dh_ip_address c \<noteq> 0 then htonl (dh_ip_address c) else 0) n;
          b = dhcp_add_option DHCP_OPTION_MESSAGE_TYPE [DHCP_REQUEST] b;
          b = dhcp_add_option DHCP_OPTION_HOSTNAME (map of_char (dhcp_hostname n)) b;
          b = dhcp_add_option DHCP_OPTION_REQUESTED_IP (le32 (htonl requested_ip)) b;
          b = dhcp_add_option DHCP_OPTION_SERVER_IDENTIFIER (le32 (htonl server_ip)) b;
          b = dhcp_add_option DHCP_OPTION_PARAMETER_REQUEST_LIST [DHCP_OPTION_SUBNET_MASK, DHCP_OPTION_ROUTER, DHCP_OPTION_DNS_SERVER] b;
          b = dhcp_add_option DHCP_OPTION_END [] b
      in udp_send poll 0xFFFFFFFF DHCP_CLIENT_PORT DHCP_SERVER_PORT b n)"

definition dhcp_send_release :: "('a hnet_scheme \<Rightarrow> 'a hnet_scheme) \<Rightarrow> 'a hnet_scheme \<Rightarrow> bool \<times> 'a hnet_scheme" where
  "dhcp_send_release poll n =
     (let c = dhcp_conf n in
      if \<not> dh_valid c \<or> dh_ip_address c = 0 then (True, n)
      else
        let b = dhcp_request_header (htonl (dh_ip_address c)) n;
            b = dhcp_add_option DHCP_OPTION_MESSAGE_TYPE [DHCP_RELEASE] b;
            b = (if dh_server_ip c \<noteq> 0 then dhcp_add_option DHCP_OPTION_SERVER_IDENTIFIER (le32 (htonl (dh_server_ip c))) b else b);
            b = dhcp_add_option DHCP_OPTION_END [] b
        in udp_send poll 0xFFFFFFFF DHCP_CLIENT_PORT DHCP_SERVER_PORT b n)"

section \<open>Answers\<close>

text \<open>The address in an option: of exactly four bytes, or the first four of at least four.\<close>

definition opt_ip :: "bool \<Rightarrow> u8 \<Rightarrow> u8 list \<Rightarrow> u32 \<Rightarrow> u32" where
  "opt_ip exact code options dflt =
     (case dhcp_find_option code options of
        Some d \<Rightarrow> if (if exact then length d = 4 else length d \<ge> 4) then htonl (get32 d 0) else dflt
      | None \<Rightarrow> dflt)"

definition msg_type_is :: "u8 \<Rightarrow> u8 list \<Rightarrow> bool" where
  "msg_type_is t options \<longleftrightarrow> dhcp_find_option DHCP_OPTION_MESSAGE_TYPE options = Some [t]"

definition dhcp_handle_offer :: "u8 list \<Rightarrow> 'a hnet_scheme \<Rightarrow> bool \<times> 'a hnet_scheme" where
  "dhcp_handle_offer packet n =
     (let options = drop DHCP_HDR packet; offered = htonl (get32 packet 16) in
      if htonl (get32 packet 4) \<noteq> dhcp_xid n then (False, n)
      else if \<not> msg_type_is DHCP_OFFER options then (False, n)
      else if offered = 0 then (False, n)
      else (True, n\<lparr>dhcp_offered_ip := offered,
             dhcp_server_ip := opt_ip True DHCP_OPTION_SERVER_IDENTIFIER options (htonl (get32 packet 20))\<rparr>))"

definition dhcp_handle_ack :: "u8 list \<Rightarrow> 'a hnet_scheme \<Rightarrow> bool \<times> 'a hnet_scheme" where
  "dhcp_handle_ack packet n =
     (let options = drop DHCP_HDR packet; ip = htonl (get32 packet 16) in
      if htonl (get32 packet 4) \<noteq> dhcp_xid n then (False, n)
      else if \<not> msg_type_is DHCP_ACK options then (False, n)
      else if ip = 0 then (False, n)
      else
        let msk = opt_ip True DHCP_OPTION_SUBNET_MASK options 0xFFFFFF00;
            gw = opt_ip False DHCP_OPTION_ROUTER options 0;
            dns = opt_ip False DHCP_OPTION_DNS_SERVER options 0;
            lease = opt_ip True DHCP_OPTION_LEASE_TIME options 86400;
            srv = opt_ip True DHCP_OPTION_SERVER_IDENTIFIER options (htonl (get32 packet 20));
            dns = (if dns = 0 then 0x0A000203 else dns);
            n = network_apply_config ip msk gw dns n
        in (True, n\<lparr>dhcp_conf := \<lparr>dh_ip_address = ip, dh_subnet_mask = msk, dh_gateway = gw, dh_dns_server = dns, dh_server_ip = srv,
              dh_lease_time = lease, dh_valid = True\<rparr>, dhcp_bound_at := ticks n, dhcp_renew_in_progress := False\<rparr>))"

definition dhcp_init :: "'a hnet_scheme \<Rightarrow> 'a hnet_scheme" where
  "dhcp_init n =
     (let n = n\<lparr>dhcp_current_state := DHCP_STATE_IDLE, dhcp_conf := (dhcp_conf n)\<lparr>dh_valid := False\<rparr>, dhcp_xid := 0, dhcp_server_ip := 0, dhcp_offered_ip := 0\<rparr>;
          pid = (if g_dhcpd_pid n \<ge> 0 then g_dhcpd_pid n else current_id n); pid = (if pid < 0 then 68 else pid)
      in snd (net_ports_register NET_PROTO_UDP NETPORT_LISTEN 0 DHCP_CLIENT_PORT 0 0 (- 1) pid ''dhcpd'' n))"

definition dhcp_handle_packet :: "('a hnet_scheme \<Rightarrow> 'a hnet_scheme) \<Rightarrow> u8 list \<Rightarrow> 'a hnet_scheme \<Rightarrow> 'a hnet_scheme" where
  "dhcp_handle_packet poll packet n =
     (if length packet < DHCP_HDR then n
      else if htonl (get32 packet 236) \<noteq> DHCP_MAGIC_COOKIE then n
      else if packet ! 0 \<noteq> 2 then n
      else case dhcp_find_option DHCP_OPTION_MESSAGE_TYPE (drop DHCP_HDR packet) of
        Some [t] \<Rightarrow>
          (if t = DHCP_OFFER \<and> dhcp_current_state n = DHCP_STATE_DISCOVERING then
             (case dhcp_handle_offer packet n of
                (True, n) \<Rightarrow> snd (dhcp_send_request poll (dhcp_offered_ip n) (dhcp_server_ip n) (n\<lparr>dhcp_current_state := DHCP_STATE_REQUESTING\<rparr>))
              | (False, n) \<Rightarrow> n)
           else if t = DHCP_ACK \<and> (dhcp_current_state n = DHCP_STATE_REQUESTING \<or> dhcp_current_state n = DHCP_STATE_BOUND) then
             (case dhcp_handle_ack packet n of (True, n) \<Rightarrow> n\<lparr>dhcp_current_state := DHCP_STATE_BOUND\<rparr> | (False, n) \<Rightarrow> n)
           else if t = DHCP_NAK then
             (if dhcp_renew_in_progress n then n\<lparr>dhcp_renew_in_progress := False\<rparr> else n\<lparr>dhcp_current_state := DHCP_STATE_FAILED\<rparr>)
           else n)
      | _ \<Rightarrow> n)"

section \<open>Acquiring, renewing, releasing\<close>

text \<open>The waiting loop: a hundred rounds per message, at most six discovers and three requests.\<close>

function acquire_loop :: "('a hnet_scheme \<Rightarrow> 'a hnet_scheme) \<Rightarrow> nat \<Rightarrow> nat \<Rightarrow> nat \<Rightarrow> 'a hnet_scheme \<Rightarrow> 'a hnet_scheme" where
  "acquire_loop poll attempts discovers requests n =
     (if \<not> (dhcp_current_state n = DHCP_STATE_DISCOVERING \<or> dhcp_current_state n = DHCP_STATE_REQUESTING) then n
      else let n = poll n in
        if dhcp_current_state n = DHCP_STATE_BOUND then n
        else let n = net_wait_ms poll 10 n in
          if dhcp_current_state n = DHCP_STATE_BOUND then n
          else if attempts + 1 < 100 then acquire_loop poll (attempts + 1) discovers requests n
          else if dhcp_current_state n = DHCP_STATE_DISCOVERING then
            (if discovers + 1 \<ge> 6 then n\<lparr>dhcp_current_state := DHCP_STATE_FAILED\<rparr>
             else case dhcp_send_discover poll n of
               (False, n) \<Rightarrow> n\<lparr>dhcp_current_state := DHCP_STATE_FAILED\<rparr>
             | (True, n) \<Rightarrow> acquire_loop poll 0 (discovers + 1) requests n)
          else if dhcp_current_state n = DHCP_STATE_REQUESTING then
            (if requests + 1 \<ge> 3 then n\<lparr>dhcp_current_state := DHCP_STATE_FAILED\<rparr>
             else case dhcp_send_request poll (dhcp_offered_ip n) (dhcp_server_ip n) n of
               (False, n) \<Rightarrow> n\<lparr>dhcp_current_state := DHCP_STATE_FAILED\<rparr>
             | (True, n) \<Rightarrow> acquire_loop poll 0 discovers (requests + 1) n)
          else n)"
  by pat_completeness auto

termination
  by (relation "measures [\<lambda>(poll, a, d, r, n). (6 - d) + (3 - r), \<lambda>(poll, a, d, r, n). 100 - a]") auto

declare acquire_loop.simps [simp del]

definition dhcp_do_acquire :: "('a hnet_scheme \<Rightarrow> 'a hnet_scheme) \<Rightarrow> 'a hnet_scheme \<Rightarrow> bool \<times> 'a hnet_scheme" where
  "dhcp_do_acquire poll n =
     (if dhcp_current_state n = DHCP_STATE_BOUND then (True, n)
      else case dhcp_send_discover poll ((dhcp_init n)\<lparr>dhcp_current_state := DHCP_STATE_DISCOVERING\<rparr>) of
        (False, n) \<Rightarrow> (False, n\<lparr>dhcp_current_state := DHCP_STATE_FAILED\<rparr>)
      | (True, n) \<Rightarrow> (let n = acquire_loop poll 0 0 0 n in (dhcp_current_state n = DHCP_STATE_BOUND, n)))"

definition dhcp_get_config :: "'a hnet_scheme \<Rightarrow> dhcp_config option" where
  "dhcp_get_config n = (if dh_valid (dhcp_conf n) then Some (dhcp_conf n) else None)"

definition dhcp_release :: "('a hnet_scheme \<Rightarrow> 'a hnet_scheme) \<Rightarrow> 'a hnet_scheme \<Rightarrow> 'a hnet_scheme" where
  "dhcp_release poll n =
     (let n = (if dhcp_current_state n = DHCP_STATE_BOUND \<and> dh_valid (dhcp_conf n) then snd (dhcp_send_release poll n) else n)
      in ip_set_our_ip 0 (n\<lparr>dhcp_current_state := DHCP_STATE_IDLE, dhcp_conf := (dhcp_conf n)\<lparr>dh_valid := False\<rparr>\<rparr>))"

definition dhcp_poll :: "('a hnet_scheme \<Rightarrow> 'a hnet_scheme) \<Rightarrow> 'a hnet_scheme \<Rightarrow> 'a hnet_scheme" where
  "dhcp_poll poll n =
     (let c = dhcp_conf n; half = dh_lease_time c div 2 * 1000; half = (if half < 30000 then 30000 else half); now = ticks n in
      if \<not> dh_valid c \<or> dh_lease_time c = 0 then n
      else if dhcp_renew_in_progress n then (if now - dhcp_renew_sent_at n > 300 then n\<lparr>dhcp_renew_in_progress := False\<rparr> else n)
      else if dhcp_current_state n \<noteq> DHCP_STATE_BOUND then n
      else if now - dhcp_bound_at n < half then n
      else case dhcp_send_request poll (dh_ip_address c) (dh_server_ip c)
             (n\<lparr>dhcp_xid := dhcp_generate_xid n, dhcp_renew_in_progress := True, dhcp_renew_sent_at := now\<rparr>) of
        (True, n) \<Rightarrow> n
      | (False, n) \<Rightarrow> n\<lparr>dhcp_renew_in_progress := False\<rparr>)"

section \<open>The address comes from an acknowledgement\<close>

lemma idle_udp_send:
  "ip_our (snd (udp_send id d sp dp b n)) = ip_our n" "ipnet.more (snd (udp_send id d sp dp b n)) = ipnet.more n"
  by (simp_all add: udp_send_def Let_def split: option.split)

lemma more_dhcp: "ipnet.more m = ipnet.more n \<Longrightarrow> dhcp_conf m = dhcp_conf n"
  by (cases m; cases n) simp

lemma route_keeps [simp]:
  "ip_our (route_update_connected i n) = ip_our n" "ip_our (route_set_default g i n) = ip_our n" "ip_our (set_default_nif f n) = ip_our n"
  "ipnet.more (route_update_connected i n) = ipnet.more n" "ipnet.more (route_set_default g i n) = ipnet.more n" "ipnet.more (set_default_nif f n) = ipnet.more n"
  for n :: "'a ipnet_scheme"
  by (auto simp: route_update_connected_def route_set_default_def route_add_def route_del_def set_default_nif_def put_nif_def Let_def split: option.splits)

lemma apply_config_ip: "ip \<noteq> 0 \<Longrightarrow> ip_our (network_apply_config ip msk gw dns n) = ip"
  by (simp add: network_apply_config_def ip_set_our_ip_def ip_set_subnet_mask_def ip_set_gateway_def arp_set_our_ip_def Let_def split: option.split)

definition dhcp_acked :: "u8 list \<Rightarrow> 'a hnet_scheme \<Rightarrow> bool" where
  "dhcp_acked packet n \<longleftrightarrow> DHCP_HDR \<le> length packet \<and> htonl (get32 packet 236) = DHCP_MAGIC_COOKIE \<and> packet ! 0 = 2 \<and>
     msg_type_is DHCP_ACK (drop DHCP_HDR packet) \<and> (dhcp_current_state n = DHCP_STATE_REQUESTING \<or> dhcp_current_state n = DHCP_STATE_BOUND) \<and>
     htonl (get32 packet 4) = dhcp_xid n \<and> htonl (get32 packet 16) \<noteq> 0"

text \<open>Any other packet keeps the address and the configuration.\<close>

lemma dhcp_not_acked:
  assumes "\<not> dhcp_acked packet n"
  shows "ip_our (dhcp_handle_packet id packet n) = ip_our n \<and> dhcp_conf (dhcp_handle_packet id packet n) = dhcp_conf n"
proof -
  have off: "ip_our n' = ip_our n \<and> dhcp_conf n' = dhcp_conf n" if "dhcp_handle_offer packet n = (ok, n')" for ok n'
    using that by (auto simp: dhcp_handle_offer_def Let_def split: if_splits)
  have snd': "ip_our (snd (dhcp_send_request id a b m)) = ip_our m \<and> dhcp_conf (snd (dhcp_send_request id a b m)) = dhcp_conf m" for a b m
    by (simp add: dhcp_send_request_def Let_def idle_udp_send more_dhcp [OF idle_udp_send(2)])
  have ack: "dhcp_handle_ack packet n = (False, n)" if "DHCP_HDR \<le> length packet" "htonl (get32 packet 236) = DHCP_MAGIC_COOKIE" "packet ! 0 = 2"
    "dhcp_find_option DHCP_OPTION_MESSAGE_TYPE (drop DHCP_HDR packet) = Some [DHCP_ACK]" "dhcp_current_state n = DHCP_STATE_REQUESTING \<or> dhcp_current_state n = DHCP_STATE_BOUND"
    using assms that by (auto simp: dhcp_acked_def dhcp_handle_ack_def msg_type_is_def Let_def)
  let ?o = "dhcp_find_option DHCP_OPTION_MESSAGE_TYPE (drop DHCP_HDR packet)"
  show ?thesis
  proof (cases "DHCP_HDR \<le> length packet \<and> htonl (get32 packet 236) = DHCP_MAGIC_COOKIE \<and> packet ! 0 = 2 \<and> (\<exists>t. ?o = Some [t])")
    case g: True
    then obtain t where t: "?o = Some [t]" by blast
    obtain ok n' where o: "dhcp_handle_offer packet n = (ok, n')" by (cases "dhcp_handle_offer packet n")
    consider "t = DHCP_OFFER" | "t = DHCP_ACK" | "t \<noteq> DHCP_OFFER" "t \<noteq> DHCP_ACK" by blast
    then show ?thesis
    proof cases
      case 1
      then show ?thesis using g t o off [OF o] by (cases ok) (simp_all add: dhcp_handle_packet_def snd')
    next
      case 2
      then show ?thesis using g t ack by (simp add: dhcp_handle_packet_def)
    next
      case 3
      then show ?thesis using g t by (simp add: dhcp_handle_packet_def)
    qed
  next
    case g: False
    have other: "(case ?o of Some [t] \<Rightarrow> f t | _ \<Rightarrow> n) = n" if "\<nexists>t. ?o = Some [t]" for f using that by (auto split: option.split list.split)
    show ?thesis
    proof (cases "\<exists>t. ?o = Some [t]")
      case True
      then show ?thesis using g by (auto simp: dhcp_handle_packet_def)
    next
      case False
      then show ?thesis unfolding dhcp_handle_packet_def by (simp only: other [OF False] if_cancel)
    qed
  qed
qed


end
