(* ===== verification/KNetRx.thy ===== *)
theory KNetRx
  imports KDhcp
begin

text \<open>
  The dispatch of received frames, src/kernel/drivers/network/core/net_rx.cpp: from the queues of
  the interfaces through Ethernet, ARP and IP to the protocols. While net_process runs, a wait
  inside it serves nothing (its busy flag makes the inner call return), so the handlers get the
  identity as their poll; a task that waits gets net_process. The observer of net_capture_set only
  reads the frames and is left out.
\<close>

abbreviation (input) DHCP_CLIENT :: u16 where "DHCP_CLIENT \<equiv> 68"

section \<open>The dispatch\<close>

definition net_dispatch :: "ip_header \<Rightarrow> u8 list \<Rightarrow> 'a hnet_scheme \<Rightarrow> 'a hnet_scheme" where
  "net_dispatch h ip_payload n =
     (if protocol h = IP_PROTOCOL_UDP then
        (let n = udp_handle_packet id (src_ip h) (dest_ip h) ip_payload n in
         case udp_parse_header ip_payload of
           None \<Rightarrow> n
         | Some (u, udp_payload) \<Rightarrow>
             (let dest_port = htons (uh_dest_port u); src_port = htons (uh_src_port u) in
              if dest_port = DNS_PORT then dns_handle_request id (src_ip h) src_port udp_payload n
              else if dest_port = DNS_CLIENT_PORT then dns_handle_response udp_payload n
              else if dest_port = DHCP_CLIENT then dhcp_handle_packet id udp_payload n
              else n))
      else if protocol h = IP_PROTOCOL_TCP then tcp_handle_packet id (src_ip h) (dest_ip h) ip_payload n
      else if protocol h = IP_PROTOCOL_ICMP then icmp_handle_packet id (src_ip h) ip_payload n
      else n)"

definition net_handle_ipv4 :: "u8 list \<Rightarrow> u8 list \<Rightarrow> 'a hnet_scheme \<Rightarrow> 'a hnet_scheme" where
  "net_handle_ipv4 mac payload n =
     (case ip_input_fragment payload n of
        (r, n) \<Rightarrow>
          (case (case r of INCOMPLETE \<Rightarrow> None | COMPLETE h p \<Rightarrow> Some (h, p) | NOT_FRAGMENT \<Rightarrow> ip_parse_header payload) of
             None \<Rightarrow> n
           | Some (h, ip_payload) \<Rightarrow>
               (let n = (if src_ip h \<noteq> 0 \<and> src_ip h \<noteq> 0xFFFFFFFF then arp_add_entry (src_ip h) mac n else n)
                in if \<not> ip_is_local_dest (dest_ip h) n then n else net_dispatch h ip_payload n)))"

definition net_handle_frame :: "u8 list \<Rightarrow> 'a hnet_scheme \<Rightarrow> 'a hnet_scheme" where
  "net_handle_frame frame n =
     (case ethernet_parse_header frame of
        None \<Rightarrow> n
      | Some (e, payload) \<Rightarrow>
          (let protocol_type = htons (eth_type e) in
           if protocol_type = ETH_TYPE_ARP then (if length payload \<ge> ARP_LEN then arp_handle_packet payload n else n)
           else if protocol_type = ETH_TYPE_IPV4 then net_handle_ipv4 (src_mac e) payload n
           else n))"

definition net_stack_init :: "'a hnet_scheme \<Rightarrow> 'a hnet_scheme" where
  "net_stack_init n = socket_init (tcp_init (dns_init (arp_init (ip_reassembly_init (route_init n)))))"

text \<open>The loop over one queue, of at most the given number of frames.\<close>

fun rx_loop :: "nat \<Rightarrow> nat \<Rightarrow> 'a hnet_scheme \<Rightarrow> 'a hnet_scheme" where
  "rx_loop i 0 n = n"
| "rx_loop i (Suc guard) n =
     (if net_queue_empty (if_queue (nif n i)) then n
      else case net_queue_pop (if_queue (nif n i)) of
        (None, q) \<Rightarrow> put_nif i ((nif n i)\<lparr>if_queue := q\<rparr>) n
      | (Some k, q) \<Rightarrow>
          (let n = put_nif i ((nif n i)\<lparr>if_queue := q\<rparr>) n; s = skb_pool n ! k;
               n = net_handle_frame (take (s_len s) (s_data s)) n
           in rx_loop i guard (n\<lparr>skb_pool := skb_free (Some k) (skb_pool n)\<rparr>)))"

definition net_service :: "nat \<Rightarrow> 'a hnet_scheme \<Rightarrow> 'a hnet_scheme" where
  "net_service i n =
     (case netif_get (int i) n of
        None \<Rightarrow> n
      | Some i \<Rightarrow> if \<not> if_up (nif n i) then n else rx_loop i 32 (snd (netif_poll (Some i) n)))"

definition net_process :: "'a hnet_scheme \<Rightarrow> 'a hnet_scheme" where
  "net_process n = ip_reassembly_gc (fold net_service [0..<netif_used n] n)"

definition socket_service_network :: "'a hnet_scheme \<Rightarrow> 'a hnet_scheme" where
  "socket_service_network n = dhcp_poll net_process (tcp_process_timers net_process (net_process n))"

section \<open>The receive path is the dispatch's alone\<close>

text \<open>What the queues, their buffers and the choice of interfaces depend on.\<close>

definition rx_state :: "'a net_scheme \<Rightarrow> (bool \<times> nat list) list \<times> skb list \<times> bool list \<times> nat" where
  "rx_state n = (queues n, skb_pool n, map if_up (netifs n), netif_used n)"

lemma rx_state_put:
  assumes "if_queue x = if_queue (nif n i)" "if_up x = if_up (nif n i)"
  shows "rx_state (put_nif i x n) = rx_state n"
proof -
  have "map if_up ((netifs n)[i := x]) = map if_up (netifs n)"
    using assms(2) by (cases "i < length (netifs n)") (auto simp: list_eq_iff_nth_eq nth_list_update list_update_beyond)
  then show ?thesis using queues_put [of x n i] assms(1) by (simp add: rx_state_def put_nif_def)
qed

lemma rx_state_wire [simp]: "rx_state (n\<lparr>wire := w\<rparr>) = rx_state n" "rx_state (n\<lparr>hw_rx := w\<rparr>) = rx_state n"
  by (simp_all add: rx_state_def queues_def)

lemma rx_nic_ops_send [simp]: "rx_state (snd (nic_ops_send f n)) = rx_state n"
  by (simp add: nic_ops_send_def)

lemma rx_netif_send [simp]: "rx_state (snd (netif_send p f n)) = rx_state n"
  using rx_nic_ops_send [of f n] by (auto simp: netif_send_def Let_def case_prod_unfold rx_state_put split: option.split)

lemma rx_nic_send_packet [simp]: "rx_state (snd (nic_send_packet f n)) = rx_state n"
  by (simp add: nic_send_packet_def split: option.split)

lemma rx_fields [simp]: "rx_state (r\<lparr>routes := x1\<rparr>) = rx_state r" "rx_state (m\<lparr>arp_table := a\<rparr>) = rx_state m" "rx_state (m\<lparr>arp_evict_slot := e\<rparr>) = rx_state m"
  "rx_state (m\<lparr>our_ip_address := p\<rparr>) = rx_state m" "rx_state (m\<lparr>ticks := t\<rparr>) = rx_state m" "rx_state (m\<lparr>waits := w\<rparr>) = rx_state m"
  "rx_state (i\<lparr>ip_id_counter := c\<rparr>) = rx_state i" "rx_state (i\<lparr>ip_our := p\<rparr>) = rx_state i" "rx_state (i\<lparr>gateway_ip := p\<rparr>) = rx_state i"
  "rx_state (i\<lparr>subnet_mask := p\<rparr>) = rx_state i" "rx_state (i\<lparr>dns_server_ip := p\<rparr>) = rx_state i" "rx_state (i\<lparr>reass_table := b\<rparr>) = rx_state i"
  "rx_state (i\<lparr>dhcp_current_state := s\<rparr>) = rx_state i" "rx_state (i\<lparr>dhcp_offered_ip := p\<rparr>) = rx_state i"
  by (simp_all add: rx_state_def queues_def)

lemma rx_fields_above [simp]: "rx_state (t\<lparr>tcp_connections := cs\<rparr>) = rx_state t" "rx_state (t\<lparr>tcp_next_isn := u\<rparr>) = rx_state t"
  "rx_state (t\<lparr>divide_error := d\<rparr>) = rx_state t" "rx_state (k\<lparr>sockets := ss\<rparr>) = rx_state k" "rx_state (j\<lparr>icmp_pending := w\<rparr>) = rx_state j"
  "rx_state (l\<lparr>stack_fault := d\<rparr>) = rx_state l" "rx_state (l\<lparr>dns_pending := q\<rparr>) = rx_state l" "rx_state (h\<lparr>dhcp_server_ip := p\<rparr>) = rx_state h"
  "rx_state (h\<lparr>dhcp_renew_in_progress := d\<rparr>) = rx_state h" "rx_state (h\<lparr>dhcp_conf := f\<rparr>) = rx_state h" "rx_state (h\<lparr>dhcp_bound_at := p\<rparr>) = rx_state h"
  by (simp_all add: rx_state_def queues_def)

lemma rx_arp_add [simp]: "rx_state (arp_add_entry ip mac n) = rx_state n"
  by (simp add: arp_add_entry_def arp_put_def split: option.split)

lemma rx_arp_send [simp]: "rx_state (snd (arp_send d a n)) = rx_state n"
  by (simp add: arp_send_def split: option.split)

lemma rx_arp [simp]: "rx_state (arp_handle_packet bs n) = rx_state n" "rx_state (snd (arp_send_request ip n)) = rx_state n"
  "rx_state (snd (arp_get_mac ip n)) = rx_state n"
  by (simp_all add: arp_handle_packet_def arp_send_request_def arp_get_mac_def Let_def split: option.split)

lemma rx_wait_loop: "rx_state (net_wait_loop (\<lambda>n. n) s ms es n) = rx_state n"
proof (induction es arbitrary: n)
  case Nil
  show ?case by (subst net_wait_loop.simps) (simp add: Let_def)
next
  case (Cons e es)
  then show ?case by (subst net_wait_loop.simps) (simp add: Let_def case_prod_unfold)
qed

lemma rx_wait [simp]: "rx_state (net_wait_ms id ms n) = rx_state n" "rx_state (net_wait_ms (\<lambda>n. n) ms n) = rx_state n"
  by (simp_all add: net_wait_ms_def id_def rx_wait_loop)

lemma rx_arp_wait [simp]: "rx_state (snd (arp_wait id ip s t r k n)) = rx_state n"
proof (induction k arbitrary: r n)
  case (Suc k)
  show ?case using Suc rx_arp(3) [of ip n] by (auto simp: case_prod_unfold split: option.split)
qed simp

lemma rx_arp_resolve [simp]: "rx_state (snd (arp_resolve id ip t n)) = rx_state n"
  by (simp add: arp_resolve_def Let_def case_prod_unfold del: arp_wait.simps split: option.split bool.split)

lemma rx_send_frame [simp]: "rx_state (snd (ip_send_frame id p hop pkt n)) = rx_state n"
  using rx_arp_resolve [of hop 3000 n] by (auto simp: ip_send_frame_def Let_def case_prod_unfold split: option.split)

lemma rx_send_frame_ttl [simp]: "rx_state (snd (ip_send_frame_ttl id p hop pkt t n)) = rx_state n"
  by (simp add: ip_send_frame_ttl_def Let_def)

lemma rx_frag_loop [simp]:
  fixes n :: "'a ipnet_scheme"
  shows "rx_state (snd (ip_frag_loop id p hop s d pr i t mx P off n)) = rx_state n"
proof (induction "length P - off" arbitrary: off n rule: less_induct)
  case less
  let ?c = "min (length P - off) mx"
  show ?case
  proof (cases "length P \<le> off \<or> mx = 0")
    case False
    then have "length P - (off + ?c) < length P - off" by auto
    then have "rx_state (snd (ip_frag_loop id p hop s d pr i t mx P (off + ?c) m)) = rx_state m" for m :: "'a ipnet_scheme" by (rule less.hyps)
    then show ?thesis using False
      by (subst ip_frag_loop.simps) (auto simp: Let_def case_prod_unfold split: option.split bool.split)
  qed (subst ip_frag_loop.simps, simp)
qed

lemma rx_ip_output [simp]: "rx_state (snd (ip_output id d pr P n)) = rx_state n"
proof -
  have "rx_state (snd (next_ip_id n)) = rx_state n" by (simp add: next_ip_id_def Let_def)
  then show ?thesis by (auto simp: ip_output_def ip_output_ex_def Let_def case_prod_unfold split: option.split)
qed

lemma rx_segments [simp]: "rx_state (snd (udp_send id d sp dp p n)) = rx_state n" "rx_state (snd (tcp_send id d sp dp s a f w p m)) = rx_state m"
  by (simp_all add: udp_send_def tcp_send_def Let_def split: option.split)

lemma rx_put [simp]: "rx_state (put_conn i c n) = rx_state n" "rx_state (put_sock i s m) = rx_state m"
  by (simp_all add: put_conn_def put_sock_def)

lemma rx_tcp [simp]: "rx_state (tcp_handle_packet id sip dip p n) = rx_state n"
proof -
  have c: "rx_state (tcp_connection_close i n) = rx_state n" "rx_state (tcp_reply_ack id sip sp dp i n) = rx_state n"
    "rx_state (snd (tcp_connection_create a b c d n)) = rx_state n" "rx_state (tcp_handle_ack x y i n) = rx_state n" for i sp dp a b c d x y and n :: "'a tnet_scheme"
    by (simp_all add: tcp_connection_close_def tcp_reply_ack_def tcp_connection_create_def tcp_handle_ack_def Let_def split: option.split)
  then have "rx_state (tcp_handle_syn id sip sp dp q co n) = rx_state n" "rx_state (tcp_handle_data id sip sp dp q b i n) = rx_state n"
    "rx_state (tcp_handle_fin id sip sp dp i n) = rx_state n" for sp dp q co b i and n :: "'a tnet_scheme"
    by (simp_all add: tcp_handle_syn_def tcp_handle_data_def tcp_handle_fin_def Let_def case_prod_unfold split: option.split)
  then show ?thesis using c by (simp add: tcp_handle_packet_def Let_def split: option.split)
qed

lemma rx_udp [simp]: "rx_state (udp_handle_packet id sip dip p n) = rx_state n"
proof -
  have d: "rx_state (snd (socket_udp_deliver a b c d n)) = rx_state n" for a b c d
    by (simp add: socket_udp_deliver_def Let_def split: option.split)
  show ?thesis by (simp add: udp_handle_packet_def Let_def case_prod_unfold d split: option.split bool.split)
qed

lemma rx_icmp [simp]: "rx_state (icmp_handle_packet id sip p n) = rx_state n"
  by (simp add: icmp_handle_packet_def Let_def)

lemma rx_dns [simp]: "rx_state (dns_handle_request id sip sp p n) = rx_state n" "rx_state (dns_handle_response p n) = rx_state n"
  by (simp_all add: dns_handle_request_def dns_handle_response_def Let_def split: option.split dns_name.split dns_answer.split)

lemma rx_config [simp]: "rx_state (network_apply_config ip msk gw dns n) = rx_state n"
proof -
  have d: "rx_state (set_default_nif f n) = rx_state n" if "\<And>x. if_queue (f x) = if_queue x \<and> if_up (f x) = if_up x" for f and n :: "'a ipnet_scheme"
    using that by (simp add: set_default_nif_def rx_state_put split: option.split)
  have r: "rx_state (route_update_connected i n) = rx_state n" "rx_state (route_set_default g i n) = rx_state n" for i g and n :: "'a ipnet_scheme"
    by (auto simp: route_update_connected_def route_set_default_def route_add_def route_del_def Let_def split: option.split)
  show ?thesis
    by (simp add: network_apply_config_def ip_set_our_ip_def ip_set_subnet_mask_def ip_set_gateway_def arp_set_our_ip_def Let_def d r split: option.split)
qed

lemma rx_dhcp [simp]: "rx_state (dhcp_handle_packet id p n) = rx_state n"
proof -
  have o: "rx_state (snd (dhcp_handle_offer p n)) = rx_state n" "rx_state (snd (dhcp_handle_ack p n)) = rx_state n" "rx_state (snd (dhcp_send_request id a b m)) = rx_state m" for a b m
    by (simp_all add: dhcp_handle_offer_def dhcp_handle_ack_def dhcp_send_request_def Let_def)
  show ?thesis using o(1,2) by (simp add: dhcp_handle_packet_def case_prod_unfold o(3) split: option.split list.split bool.split)
qed

lemma rx_frame [simp]: "rx_state (net_handle_frame f n) = rx_state n"
proof -
  have d: "rx_state (net_dispatch h p n) = rx_state n" for h p and n :: "'a hnet_scheme"
    by (simp add: net_dispatch_def Let_def case_prod_unfold split: option.split)
  have "rx_state (snd (ip_input_fragment p n)) = rx_state n" for p
    by (auto simp: ip_input_fragment_def Let_def split: option.split)
  then have "rx_state (net_handle_ipv4 mac p n) = rx_state n" for mac p
    by (simp add: net_handle_ipv4_def Let_def case_prod_unfold d split: option.split)
  then show ?thesis by (simp add: net_handle_frame_def Let_def case_prod_unfold split: option.split)
qed

section \<open>Every queued frame is handled and its buffer freed\<close>

lemma rx_step:
  assumes "net_inv n" and "i < length (netifs n)" and "q_contents (if_queue (nif n i)) = k # ks" and "\<not> s_used s"
    and "queues n' = (queues n)[i := (True, ks)]" "skb_pool n' = (skb_pool n)[k := s]"
  shows "net_inv n'" "frames i n' = tl (frames i n)" "j < length (netifs n) \<Longrightarrow> j \<noteq> i \<Longrightarrow> frames j n' = frames j n"
proof -
  have qi: "queues n ! i = (True, k # ks)" using assms(1-3) by (simp add: queues_def net_inv_def)
  have l: "length (netifs n') = length (netifs n)" using assms(5) by (metis length_list_update length_queues)
  define a where "a = concat (map snd (take i (queues n)))"
  define z where "z = concat (map snd (drop (Suc i) (queues n)))"
  have qn: "queued n = a @ (k # ks) @ z"
    unfolding queued_queues a_def z_def by (subst id_take_nth_drop [of i "queues n"]) (use assms(2) qi in simp_all)
  have qn': "queued n' = a @ ks @ z"
    unfolding queued_queues assms(5) a_def z_def using assms(2) by (simp add: upd_conv_take_nth_drop)
  have d: "distinct (queued n)" "x \<in> set (queued n) \<longleftrightarrow> x < length (skb_pool n) \<and> s_used (skb_pool n ! x)" for x using assms(1) by (simp_all add: net_inv_def)
  have k: "k \<notin> set (queued n')" using d(1) qn qn' by auto
  have "x \<in> set (queued n') \<longleftrightarrow> x < length (skb_pool n') \<and> s_used (skb_pool n' ! x)" for x
    using d(2) [of x] k assms(4,6) qn qn' by (cases "x = k") (auto simp: nth_list_update)
  moreover have "\<forall>b \<in> set (map fst (queues n')). b"
    using assms(1) unfolding assms(5) net_inv_queues by (auto dest!: set_update_subset_insert [THEN subsetD])
  moreover have "distinct (queued n')" using d(1) qn qn' by auto
  ultimately show "net_inv n'" by (simp add: net_inv_queues queued_queues)
  have fr: "map (\<lambda>x. take (s_len (skb_pool n' ! x)) (s_data (skb_pool n' ! x))) xs = map (\<lambda>x. take (s_len (skb_pool n ! x)) (s_data (skb_pool n ! x))) xs"
    if "set xs \<subseteq> set (queued n')" for xs
  proof (rule map_cong [OF refl])
    fix x
    assume "x \<in> set xs"
    then have "k \<noteq> x" using that k by auto
    then show "take (s_len (skb_pool n' ! x)) (s_data (skb_pool n' ! x)) = take (s_len (skb_pool n ! x)) (s_data (skb_pool n ! x))" by (simp add: assms(6))
  qed
  have ks: "set ks \<subseteq> set (queued n')" using qn' by auto
  show "frames i n' = tl (frames i n)" using fr [OF ks] assms(2) by (simp add: frames_queues l qi assms(5))
  assume j: "j < length (netifs n)" "j \<noteq> i"
  then have "queues n' ! j \<in> set (queues n')" by (intro nth_mem) (simp add: l)
  moreover have "queues n' ! j = queues n ! j" using j by (simp add: assms(5))
  ultimately have "set (snd (queues n ! j)) \<subseteq> set (queued n')" by (auto simp: queued_queues intro!: bexI [of _ "queues n' ! j"])
  then show "frames j n' = frames j n" using fr j l by (simp add: frames_queues assms(5))
qed

text \<open>Two states with the interfaces and the frames in order that differ only in the frames of one interface.\<close>

definition rx_same :: "nat set \<Rightarrow> 'a net_scheme \<Rightarrow> 'a net_scheme \<Rightarrow> bool" where
  "rx_same J n m \<longleftrightarrow> net_inv m \<and> map if_up (netifs m) = map if_up (netifs n) \<and> netif_used m = netif_used n \<and> (\<forall>j < length (netifs n). j \<notin> J \<longrightarrow> frames j m = frames j n)"

lemma rx_same_length: "rx_same J n m \<Longrightarrow> length (netifs m) = length (netifs n)"
  unfolding rx_same_def by (metis length_map)

lemma rx_same_trans: "rx_same J n m \<Longrightarrow> rx_same K m k \<Longrightarrow> rx_same (J \<union> K) n k"
  using rx_same_length [of J n m] by (auto simp: rx_same_def)

lemma frames_le: "net_inv n \<Longrightarrow> i < length (netifs n) \<Longrightarrow> length (frames i n) \<le> 31"
  using q_tail_pos(2) [of "if_queue (nif n i)"] by (auto simp: frames_def q_contents_def net_inv_def q_inv_def)

lemma rx_pop:
  fixes n :: "'a net_scheme"
  assumes "net_inv n" and "i < length (netifs n)" and "frames i n = f # fs"
  obtains k q s where "net_queue_pop (if_queue (nif n i)) = (Some k, q)" "\<not> net_queue_empty (if_queue (nif n i))"
    "take (s_len (skb_pool n ! k)) (s_data (skb_pool n ! k)) = f"
    "\<And>n'. rx_state n' = rx_state (put_nif i ((nif n i)\<lparr>if_queue := q\<rparr>) n) \<Longrightarrow>
       rx_same {i} n (n'\<lparr>skb_pool := skb_free (Some k) (skb_pool n')\<rparr>) \<and> frames i (n'\<lparr>skb_pool := skb_free (Some k) (skb_pool n')\<rparr>) = fs"
proof -
  let ?q = "if_queue (nif n i)"
  have qi: "q_inv ?q" using assms(1,2) by (simp add: net_inv_def)
  have "q_len ?q \<noteq> 0" using assms(3) by (cases "q_len ?q") (simp_all add: frames_def q_contents_def)
  then obtain k q where q: "net_queue_pop ?q = (Some k, q)" "q_inv q" "q_contents ?q = k # q_contents q" using q_pop_ok [OF qi] by blast
  show thesis
  proof (rule that [OF q(1)])
    show "\<not> net_queue_empty ?q" using \<open>q_len ?q \<noteq> 0\<close> q_empty [OF qi] by (simp add: net_queue_empty_def)
    show "take (s_len (skb_pool n ! k)) (s_data (skb_pool n ! k)) = f" using assms(3) q(3) by (simp add: frames_def)
    fix n' :: "'a net_scheme"
    assume r: "rx_state n' = rx_state (put_nif i ((nif n i)\<lparr>if_queue := q\<rparr>) n)"
    let ?m = "n'\<lparr>skb_pool := skb_free (Some k) (skb_pool n')\<rparr>"
    have m: "queues ?m = (queues n)[i := (True, q_contents q)]" "skb_pool ?m = (skb_pool n)[k := (skb_clear (skb_pool n ! k))\<lparr>s_used := False\<rparr>]"
      "map if_up (netifs ?m) = map if_up (netifs n)" "netif_used ?m = netif_used n"
    proof -
      have "map if_up ((netifs n)[i := (nif n i)\<lparr>if_queue := q\<rparr>]) = map if_up (netifs n)" by (simp add: map_update list_update_same_conv assms(2))
      then show "queues ?m = (queues n)[i := (True, q_contents q)]" "skb_pool ?m = (skb_pool n)[k := (skb_clear (skb_pool n ! k))\<lparr>s_used := False\<rparr>]"
        "map if_up (netifs ?m) = map if_up (netifs n)" "netif_used ?m = netif_used n"
        using r q(2) by (simp_all add: rx_state_def put_nif_def skb_free_def queues_def map_update)
    qed
    note st = rx_step [OF assms(1,2) q(3) _ m(1,2)]
    show "rx_same {i} n ?m \<and> frames i ?m = fs" using st assms(3) m(3,4) by (auto simp: rx_same_def)
  qed
qed

text \<open>The loop handles the frames in the order in which they wait.\<close>

lemma rx_loop_drains:
  "net_inv n \<Longrightarrow> i < length (netifs n) \<Longrightarrow> length (frames i n) \<le> g \<Longrightarrow> rx_same {i} n (rx_loop i g n) \<and> frames i (rx_loop i g n) = []"
proof (induction g arbitrary: n)
  case 0
  then show ?case by (simp add: rx_same_def)
next
  case (Suc g)
  show ?case
  proof (cases "frames i n")
    case Nil
    then have "q_contents (if_queue (nif n i)) = []" by (simp add: frames_def)
    then have "net_queue_empty (if_queue (nif n i))"
      using q_empty [of "if_queue (nif n i)"] Suc.prems(1,2) by (simp add: net_inv_def net_queue_empty_def q_contents_def)
    then show ?thesis using Nil Suc.prems(1) by (simp add: rx_same_def)
  next
    case (Cons f fs)
    then obtain k q where k: "net_queue_pop (if_queue (nif n i)) = (Some k, q)" "\<not> net_queue_empty (if_queue (nif n i))"
      "\<And>n'. rx_state n' = rx_state (put_nif i ((nif n i)\<lparr>if_queue := q\<rparr>) n) \<Longrightarrow>
       rx_same {i} n (n'\<lparr>skb_pool := skb_free (Some k) (skb_pool n')\<rparr>) \<and> frames i (n'\<lparr>skb_pool := skb_free (Some k) (skb_pool n')\<rparr>) = fs"
      using rx_pop [OF Suc.prems(1,2)] by metis
    define m where "m = net_handle_frame (take (s_len (skb_pool n ! k)) (s_data (skb_pool n ! k))) (put_nif i ((nif n i)\<lparr>if_queue := q\<rparr>) n)"
    let ?m = "m\<lparr>skb_pool := skb_free (Some k) (skb_pool m)\<rparr>"
    have s: "rx_same {i} n ?m" "frames i ?m = fs" using k(3) [of m] by (simp_all add: m_def)
    have e: "rx_loop i (Suc g) n = rx_loop i g ?m" using k(1,2) by (simp add: m_def Let_def put_nif_def)
    have "rx_same {i} ?m (rx_loop i g ?m)" "frames i (rx_loop i g ?m) = []"
      using Suc.IH [of ?m] s rx_same_length [OF s(1)] Suc.prems(2,3) Cons by (simp_all add: rx_same_def)
    then show ?thesis using rx_same_trans [OF s(1), of "{i}"] unfolding e by simp
  qed
qed

text \<open>One round of the loop: the frame leaves the queue, is handled, and its buffer is freed.\<close>

definition rx_handle :: "nat \<Rightarrow> u8 list \<Rightarrow> 'a hnet_scheme \<Rightarrow> 'a hnet_scheme" where
  "rx_handle i f n =
     (case net_queue_pop (if_queue (nif n i)) of
        (k, q) \<Rightarrow> (let n = net_handle_frame f (put_nif i ((nif n i)\<lparr>if_queue := q\<rparr>) n) in n\<lparr>skb_pool := skb_free k (skb_pool n)\<rparr>))"

lemma rx_loop_handles:
  "net_inv n \<Longrightarrow> i < length (netifs n) \<Longrightarrow> length (frames i n) \<le> g \<Longrightarrow> rx_loop i g n = fold (rx_handle i) (frames i n) n"
proof (induction g arbitrary: n)
  case (Suc g)
  show ?case
  proof (cases "frames i n")
    case Nil
    then have "q_contents (if_queue (nif n i)) = []" by (simp add: frames_def)
    then have "net_queue_empty (if_queue (nif n i))"
      using q_empty [of "if_queue (nif n i)"] Suc.prems(1,2) by (simp add: net_inv_def net_queue_empty_def q_contents_def)
    then show ?thesis using Nil by simp
  next
    case (Cons f fs)
    then obtain k q where k: "net_queue_pop (if_queue (nif n i)) = (Some k, q)" "\<not> net_queue_empty (if_queue (nif n i))"
      "take (s_len (skb_pool n ! k)) (s_data (skb_pool n ! k)) = f"
      "\<And>n'. rx_state n' = rx_state (put_nif i ((nif n i)\<lparr>if_queue := q\<rparr>) n) \<Longrightarrow>
       rx_same {i} n (n'\<lparr>skb_pool := skb_free (Some k) (skb_pool n')\<rparr>) \<and> frames i (n'\<lparr>skb_pool := skb_free (Some k) (skb_pool n')\<rparr>) = fs"
      using rx_pop [OF Suc.prems(1,2)] by metis
    have h: "rx_handle i f n = (let m = net_handle_frame f (put_nif i ((nif n i)\<lparr>if_queue := q\<rparr>) n) in m\<lparr>skb_pool := skb_free (Some k) (skb_pool m)\<rparr>)"
      using k(1) by (simp add: rx_handle_def)
    have s: "rx_same {i} n (rx_handle i f n)" "frames i (rx_handle i f n) = fs"
      using k(4) [of "net_handle_frame f (put_nif i ((nif n i)\<lparr>if_queue := q\<rparr>) n)"] unfolding h by (simp_all add: Let_def)
    have "skb_pool (put_nif i ((nif n i)\<lparr>if_queue := q\<rparr>) n) = skb_pool n" by (simp add: put_nif_def)
    then have "rx_loop i (Suc g) n = rx_loop i g (rx_handle i f n)" using k(1-3) unfolding h by (simp add: Let_def)
    also have "\<dots> = fold (rx_handle i) fs (rx_handle i f n)"
      using Suc.IH [of "rx_handle i f n"] s rx_same_length [OF s(1)] Suc.prems(2,3) Cons by (simp add: rx_same_def)
    finally show ?thesis using Cons by simp
  qed
qed simp

lemma rx_same_state: "rx_state m = rx_state n \<Longrightarrow> net_inv n \<Longrightarrow> rx_same J n m"
proof -
  assume r: "rx_state m = rx_state n" and i: "net_inv n"
  have l: "length (netifs m) = length (netifs n)" using r unfolding rx_state_def by (metis length_map prod.inject)
  have "frames j m = frames j n" if "j < length (netifs n)" for j using r that l by (simp add: frames_queues rx_state_def)
  then show ?thesis using r i by (auto simp: rx_same_def rx_state_def net_inv_queues)
qed

lemma rx_enqueue_same:
  assumes "net_inv n" and "i < length (netifs n)" and "f \<noteq> []"
  shows "rx_same {i} n (snd (net_rx_enqueue i f n))"
proof -
  obtain ok n' where e: "net_rx_enqueue i f n = (ok, n')" by fastforce
  have u: "map if_up ((netifs n)[i := x]) = map if_up (netifs n)" if "if_up x = if_up (nif n i)" for x
    using that assms(2) by (simp add: map_update list_update_same_conv)
  have "map if_up (netifs n') = map if_up (netifs n)" "netif_used n' = netif_used n"
    using e assms(2,3) by (auto simp: net_rx_enqueue_def rx_drop_def put_nif_def Let_def u split: option.splits prod.splits bool.splits)
  then show ?thesis using rx_enqueue_cases [OF assms e] e by (simp add: rx_same_def)
qed

lemma nic_poll_same: "net_inv n \<Longrightarrow> i < length (netifs n) \<Longrightarrow> rx_same {i} n (snd (nic_poll_loop i c n))"
proof (induction i c n rule: nic_poll_loop.induct)
  case (1 i c n)
  have self: "rx_same {i} n n" using "1.prems" by (simp add: rx_same_def)
  show ?case
  proof (cases "hw_rx n")
    case (Cons f fs)
    let ?n = "n\<lparr>hw_rx := fs\<rparr>"
    have n: "rx_same {i} n ?n" using "1.prems" by (intro rx_same_state) simp_all
    show ?thesis
    proof (cases "c \<ge> 32 \<or> f = []")
      case True
      then show ?thesis using self n Cons by (subst nic_poll_loop.simps) auto
    next
      case False
      obtain ok m where m: "net_rx_enqueue i f ?n = (ok, m)" by fastforce
      have e: "rx_same {i} ?n m" using rx_enqueue_same [of ?n i f] n "1.prems"(2) False m by (simp add: rx_same_def)
      have "rx_same {i} m (snd (nic_poll_loop i (if ok then c + 1 else c) m))"
        using "1.IH" [OF Cons _ refl _ m [symmetric]] e rx_same_length [OF e] "1.prems"(2) False by (simp add: rx_same_def)
      then have "rx_same {i} n (snd (nic_poll_loop i (if ok then c + 1 else c) m))"
        using rx_same_trans [OF rx_same_trans [OF n e]] by (metis Un_absorb)
      then show ?thesis using False Cons m by (subst nic_poll_loop.simps) (simp add: Let_def)
    qed
  qed (use self in \<open>subst nic_poll_loop.simps, simp\<close>)
qed

text \<open>With room in the queue and in the pool, polling the device queues all its frames.\<close>

lemma queued_length: "length (queued n) = (\<Sum>j < length (netifs n). length (frames j n))"
proof -
  have "length (queued n) = sum_list (map (\<lambda>x. length (q_contents (if_queue x))) (netifs n))" by (simp add: queued_def length_concat comp_def)
  also have "\<dots> = (\<Sum>j < length (netifs n). length (frames j n))" by (simp add: sum_list_sum_nth frames_def atLeast0LessThan)
  finally show ?thesis .
qed

lemma buffer_free:
  assumes "net_inv n" and "length (queued n) < length (skb_pool n)"
  shows "\<exists>s \<in> set (skb_pool n). \<not> s_used s"
proof (rule ccontr)
  assume "\<not> ?thesis"
  then have "{0..<length (skb_pool n)} \<subseteq> set (queued n)" using assms(1) by (auto simp: net_inv_def)
  then have "length (skb_pool n) \<le> card (set (queued n))" using card_mono [OF finite_set] by fastforce
  then show False using card_length [of "queued n"] assms(2) by simp
qed

lemma nic_poll_all:
  "net_inv n \<Longrightarrow> i < length (netifs n) \<Longrightarrow> \<forall>f \<in> set (hw_rx n). f \<noteq> [] \<and> length f \<le> SKB_DATA_SIZE \<Longrightarrow> length (frames i n) + length (hw_rx n) \<le> 31 \<Longrightarrow>
   length (queued n) + length (hw_rx n) \<le> length (skb_pool n) \<Longrightarrow> c + length (hw_rx n) \<le> 32 \<Longrightarrow>
   frames i (snd (nic_poll_loop i c n)) = frames i n @ hw_rx n \<and> hw_rx (snd (nic_poll_loop i c n)) = []"
proof (induction "hw_rx n" arbitrary: c n)
  case Nil
  then have hw: "hw_rx n = []" by simp
  then have "nic_poll_loop i c n = (c, n)" by (subst nic_poll_loop.simps) simp
  then show ?case using hw by simp
next
  case (Cons f fs)
  let ?n = "n\<lparr>hw_rx := fs\<rparr>"
  have n: "net_inv ?n" "frames j ?n = frames j n" "queued ?n = queued n" for j
    using Cons.prems(1) by (simp_all add: net_inv_def frames_def queued_def)
  have f: "f \<noteq> []" "length f \<le> SKB_DATA_SIZE" using Cons.prems(3) Cons.hyps(2) by (metis list.set_intros(1))+
  obtain ok m where m: "net_rx_enqueue i f ?n = (ok, m)" by fastforce
  have room: "\<exists>s \<in> set (skb_pool ?n). \<not> s_used s" using buffer_free [OF n(1)] Cons.prems(5) by (simp add: n flip: Cons.hyps(2))
  have "length (frames i ?n) < 31" using Cons.prems(4) by (simp add: n flip: Cons.hyps(2))
  then have e: "net_inv m" "ok" "frames i m = frames i n @ [f]" "\<forall>j < length (netifs n). j \<noteq> i \<longrightarrow> frames j m = frames j n"
    using rx_enqueue_cases [OF n(1) _ f(1) m] Cons.prems(2) f(2) room by (auto simp: n)
  have s: "rx_same {i} ?n m" using rx_enqueue_same [OF n(1) _ f(1), of i] Cons.prems(2) m by simp
  have hw: "hw_rx m = fs" using net_rx_enqueue_hw [OF m [symmetric]] by simp
  have l: "length (netifs m) = length (netifs n)" using rx_same_length [OF s] by simp
  have "length (queued m) = length (queued n) + 1"
  proof -
    have i: "i \<in> {..<length (netifs n)}" using Cons.prems(2) by simp
    then have "(\<Sum>j < length (netifs n). length (frames j m)) = length (frames i m) + (\<Sum>j \<in> {..<length (netifs n)} - {i}. length (frames j m))" by (simp add: sum.remove)
    also have "(\<Sum>j \<in> {..<length (netifs n)} - {i}. length (frames j m)) = (\<Sum>j \<in> {..<length (netifs n)} - {i}. length (frames j n))" by (rule sum.cong) (auto simp: e(4))
    also have "length (frames i m) + \<dots> = (\<Sum>j < length (netifs n). length (frames j n)) + 1" using i e(3) by (simp add: sum.remove)
    finally show ?thesis by (simp add: queued_length l)
  qed
  moreover have "length (skb_pool m) = length (skb_pool n)"
    using m by (auto simp: net_rx_enqueue_def skb_alloc_def skb_copy_from_def skb_free_def rx_drop_def put_nif_def Let_def split: option.splits prod.splits bool.splits if_splits)
  ultimately have "frames i (snd (nic_poll_loop i (c + 1) m)) = frames i m @ hw_rx m \<and> hw_rx (snd (nic_poll_loop i (c + 1) m)) = []"
    using Cons.hyps(1) [of m "c + 1"] Cons.prems(2-6) e hw l by (auto simp flip: Cons.hyps(2))
  moreover have "nic_poll_loop i c n = nic_poll_loop i (c + 1) m"
    using m e(2) f(1) Cons.prems(6) by (subst nic_poll_loop.simps) (simp add: Let_def flip: Cons.hyps(2))
  ultimately show ?case using e(3) hw by (simp flip: Cons.hyps(2))
qed

lemma net_service_drains:
  assumes "net_inv n" and "i < length (netifs n)" and "i < netif_used n"
  shows "rx_same {i} n (net_service i n)" "frames i (net_service i n) = (if if_up (nif n i) then [] else frames i n)"
proof -
  let ?p = "snd (netif_poll (Some i) n)"
  have p: "rx_same {i} n ?p"
    using nic_poll_same [OF assms(1,2)] assms(1) by (simp add: netif_poll_def nic_ops_poll_def rx_same_def)
  have l: "rx_same {i} ?p (rx_loop i 32 ?p)" "frames i (rx_loop i 32 ?p) = []"
    using p rx_same_length [OF p] assms(2) frames_le [of ?p i] rx_loop_drains [of ?p i 32] by (auto simp: rx_same_def)
  have m: "net_service i n = (if if_up (nif n i) then rx_loop i 32 ?p else n)"
    unfolding net_service_def using assms(3) by (simp add: netif_get_def)
  show "rx_same {i} n (net_service i n)" using rx_same_trans [OF p l(1)] assms(1) unfolding m by (simp add: rx_same_def)
  show "frames i (net_service i n) = (if if_up (nif n i) then [] else frames i n)" using l(2) unfolding m by simp
qed

lemma net_service_fold:
  assumes "net_inv n" and "netif_used n \<le> length (netifs n)" and "k \<le> netif_used n"
  shows "rx_same {0..<k} n (fold net_service [0..<k] n) \<and> (\<forall>j < k. frames j (fold net_service [0..<k] n) = (if if_up (nif n j) then [] else frames j n))"
  using assms(3)
proof (induction k)
  case 0
  then show ?case using assms(1) by (simp add: rx_same_def)
next
  case (Suc k)
  define m where "m = fold net_service [0..<k] n"
  have m: "rx_same {0..<k} n m" "\<forall>j < k. frames j m = (if if_up (nif n j) then [] else frames j n)" using Suc unfolding m_def by auto
  note l = rx_same_length [OF m(1)]
  have k: "k < length (netifs m)" "k < netif_used m" "net_inv m" using Suc.prems assms(2) m(1) l by (auto simp: rx_same_def)
  have u: "if_up (nif m k) = if_up (nif n k)" using m(1) k(1) l unfolding rx_same_def by (metis nth_map)
  have f: "frames k m = frames k n" using m(1) k(1) l by (simp add: rx_same_def)
  note s = net_service_drains [OF k(3,1,2)]
  have "frames j (net_service k m) = (if if_up (nif n j) then [] else frames j n)" if "j < Suc k" for j
    using that s u f m(2) k(1) by (cases "j = k") (auto simp: rx_same_def)
  moreover have "{0..<k} \<union> {k} = {0..<Suc k}" by auto
  then have "rx_same {0..<Suc k} n (net_service k m)" using rx_same_trans [OF m(1) s(1)] by simp
  ultimately show ?case by (simp flip: m_def)
qed

text \<open>Serving one interface without the bound on the number of frames.\<close>

definition serve_queue :: "nat \<Rightarrow> 'a hnet_scheme \<Rightarrow> 'a hnet_scheme" where
  "serve_queue i n = (if if_up (nif n i) then (let m = snd (netif_poll (Some i) n) in fold (rx_handle i) (frames i m) m) else n)"

lemma net_service_handles:
  assumes "net_inv n" and "i < length (netifs n)" and "i < netif_used n"
  shows "net_service i n = serve_queue i n"
proof -
  let ?p = "snd (netif_poll (Some i) n)"
  have p: "rx_same {i} n ?p"
    using nic_poll_same [OF assms(1,2)] assms(1) by (simp add: netif_poll_def nic_ops_poll_def rx_same_def)
  have "rx_loop i 32 ?p = fold (rx_handle i) (frames i ?p) ?p"
    using p rx_same_length [OF p] assms(2) frames_le [of ?p i] by (intro rx_loop_handles) (auto simp: rx_same_def)
  then show ?thesis unfolding net_service_def serve_queue_def using assms(3) by (simp add: netif_get_def Let_def)
qed

lemma net_service_fold_handles:
  assumes "net_inv n" and "netif_used n \<le> length (netifs n)" and "k \<le> netif_used n"
  shows "fold net_service [0..<k] n = fold serve_queue [0..<k] n"
  using assms(3)
proof (induction k)
  case (Suc k)
  let ?m = "fold net_service [0..<k] n"
  have m: "rx_same {0..<k} n ?m" using net_service_fold [OF assms(1,2), of k] Suc.prems by simp
  have "net_service k ?m = serve_queue k ?m"
    using m rx_same_length [OF m] Suc.prems assms(2) by (intro net_service_handles) (auto simp: rx_same_def)
  then show ?case using Suc by simp
qed simp

text \<open>
  C36: processing the network. With the buffers and queues in order, net_process polls the device of
  every interface that is up and handles the frames that then wait in its queue, each once, in their
  order and with their bytes. Afterwards these queues are empty, those of the other interfaces are as
  before, and the buffers and queues are in order again: no frame stays behind and no buffer is lost.
\<close>

theorem net_process_handles_all:
  assumes "net_inv n" and "netif_used n \<le> length (netifs n)"
  shows "net_process n = ip_reassembly_gc (fold serve_queue [0..<netif_used n] n) \<and> net_inv (net_process n) \<and>
    (\<forall>j < netif_used n. frames j (net_process n) = (if if_up (nif n j) then [] else frames j n)) \<and>
    netif_used (net_process n) = netif_used n \<and> map if_up (netifs (net_process n)) = map if_up (netifs n)"
proof -
  let ?m = "fold net_service [0..<netif_used n] n"
  have m: "rx_same {0..<netif_used n} n ?m" "\<forall>j < netif_used n. frames j ?m = (if if_up (nif n j) then [] else frames j n)"
    using net_service_fold [OF assms order_refl] by simp_all
  have "rx_state (net_process n) = rx_state ?m" by (simp add: net_process_def ip_reassembly_gc_def)
  then have "rx_same {} ?m (net_process n)" using m(1) by (intro rx_same_state) (simp_all add: rx_same_def)
  moreover have "net_process n = ip_reassembly_gc (fold serve_queue [0..<netif_used n] n)"
    using net_service_fold_handles [OF assms order_refl] by (simp add: net_process_def)
  ultimately show ?thesis using m assms(2) rx_same_length [OF m(1)] by (auto simp: rx_same_def)
qed

section \<open>The connections\<close>

text \<open>Only the TCP handler touches the connections.\<close>

lemma more_connections: "ipnet.more m = ipnet.more n \<Longrightarrow> tcp_connections m = tcp_connections n"
  using more_tcp by blast

lemma tcp_kept_send [simp]: "tcp_connections (snd (ip_output id d pr P n)) = tcp_connections n" "tcp_connections (snd (udp_send id d sp dp p n)) = tcp_connections n"
  by (rule more_connections, simp add: idle_udp_send)+

lemma tcp_kept_net [simp]: "tcp_connections (put_nif i x n) = tcp_connections n" "tcp_connections (snd (nic_send_packet f n)) = tcp_connections n"
proof -
  show "tcp_connections (put_nif i x n) = tcp_connections n" by (simp add: put_nif_def)
  have "ipnet.more (snd (nic_send_packet f n)) = ipnet.more n" using send_more(3) [of f n] by (simp add: above_def)
  then show "tcp_connections (snd (nic_send_packet f n)) = tcp_connections n" by (rule more_connections)
qed

lemma tcp_kept_arp [simp]: "tcp_connections (arp_add_entry ip mac n) = tcp_connections n" "tcp_connections (arp_handle_packet bs n) = tcp_connections n"
  by (auto simp: arp_add_entry_def arp_handle_packet_def arp_put_def arp_send_def Let_def split: option.split)

lemma tcp_kept_fragment [simp]: "tcp_connections (snd (ip_input_fragment p n)) = tcp_connections n"
  by (auto simp: ip_input_fragment_def Let_def split: option.split)

lemma tcp_kept_udp [simp]: "tcp_connections (udp_handle_packet id sip dip p n) = tcp_connections n"
proof -
  have "tcp_connections (snd (socket_udp_deliver a b c d n)) = tcp_connections n" for a b c d
    by (simp add: socket_udp_deliver_def put_sock_def Let_def split: option.split)
  then show ?thesis by (simp add: udp_handle_packet_def Let_def case_prod_unfold split: option.split bool.split)
qed

lemma tcp_kept_icmp [simp]: "tcp_connections (icmp_handle_packet id sip p n) = tcp_connections n"
  by (simp add: icmp_handle_packet_def Let_def)

lemma tcp_kept_dns [simp]: "tcp_connections (dns_handle_request id sip sp p n) = tcp_connections n" "tcp_connections (dns_handle_response p n) = tcp_connections n"
  by (simp_all add: dns_handle_request_def dns_handle_response_def Let_def split: option.split dns_name.split dns_answer.split)

lemma tcp_kept_dhcp [simp]: "tcp_connections (dhcp_handle_packet id p n) = tcp_connections n"
proof -
  have c: "tcp_connections (network_apply_config ip msk gw dns n) = tcp_connections n" for ip msk gw dns
    by (rule more_connections) (simp add: network_apply_config_def ip_set_our_ip_def ip_set_subnet_mask_def ip_set_gateway_def arp_set_our_ip_def Let_def split: option.split)
  have o: "tcp_connections (snd (dhcp_handle_offer p n)) = tcp_connections n" "tcp_connections (snd (dhcp_handle_ack p n)) = tcp_connections n"
    "tcp_connections (snd (dhcp_send_request id a b m)) = tcp_connections m" for a b m
    by (simp_all add: dhcp_handle_offer_def dhcp_handle_ack_def dhcp_send_request_def Let_def c)
  show ?thesis using o(1,2) by (simp add: dhcp_handle_packet_def case_prod_unfold o(3) split: option.split list.split bool.split)
qed

lemma tcp_inv_kept: "tcp_connections m = tcp_connections n \<Longrightarrow> tcp_inv U n \<Longrightarrow> tcp_inv U m"
  by (simp add: tcp_inv_def)

lemma frame_tcp_inv: "tcp_inv U n \<Longrightarrow> tcp_inv U (net_handle_frame f n)"
proof -
  assume n: "tcp_inv U n"
  have d: "tcp_inv U (net_dispatch h p n)" if "tcp_inv U n" for h p and n :: "'a hnet_scheme"
    using that idle_tcp.packet_inv [OF that]
    by (auto simp: net_dispatch_def Let_def case_prod_unfold split: option.split intro: tcp_inv_kept [OF _ that])
  have "tcp_inv U (net_handle_ipv4 mac p n)" for mac p
    using n by (auto simp: net_handle_ipv4_def Let_def case_prod_unfold split: option.split intro!: d intro: tcp_inv_kept [OF _ n])
  then show ?thesis using n by (auto simp: net_handle_frame_def Let_def case_prod_unfold split: option.split intro: tcp_inv_kept [OF _ n])
qed

lemma rx_loop_tcp_inv: "tcp_inv U n \<Longrightarrow> tcp_inv U (rx_loop i g n)"
proof (induction g arbitrary: n)
  case (Suc g)
  have f: "tcp_inv U (m\<lparr>skb_pool := s\<rparr>) = tcp_inv U m" "tcp_inv U (put_nif i x m) = tcp_inv U m" for m :: "'a hnet_scheme" and s x
    by (simp_all add: tcp_inv_def)
  show ?case using Suc by (simp add: Let_def case_prod_unfold f frame_tcp_inv split: option.split)
qed simp

lemma nic_poll_tcp: "tcp_connections (snd (nic_poll_loop i c n)) = tcp_connections n"
proof (induction i c n rule: nic_poll_loop.induct)
  case (1 i c n)
  have e: "tcp_connections (snd (net_rx_enqueue i f m)) = tcp_connections m" for f and m :: "'a tnet_scheme"
    by (auto simp: net_rx_enqueue_def rx_drop_def Let_def case_prod_unfold split: option.split bool.split)
  show ?case
  proof (cases "hw_rx n")
    case (Cons f fs)
    obtain ok m where m: "net_rx_enqueue i f (n\<lparr>hw_rx := fs\<rparr>) = (ok, m)" by fastforce
    then have "tcp_connections m = tcp_connections n" using e [of f "n\<lparr>hw_rx := fs\<rparr>"] by simp
    then show ?thesis using "1.IH" [OF Cons _ refl _ m [symmetric]] Cons m by (subst nic_poll_loop.simps) (simp add: Let_def)
  qed (subst nic_poll_loop.simps, simp)
qed

lemma process_tcp_inv: "tcp_inv U n \<Longrightarrow> tcp_inv U (net_process n)"
proof -
  assume n: "tcp_inv U n"
  have s: "tcp_inv U (net_service i n)" if "tcp_inv U n" for i and n :: "'a hnet_scheme"
  proof -
    have "tcp_connections (snd (netif_poll (Some j) n)) = tcp_connections n" for j by (simp add: netif_poll_def nic_ops_poll_def nic_poll_tcp)
    then have "tcp_inv U (snd (netif_poll (Some j) n))" for j using that by (rule tcp_inv_kept)
    then show ?thesis using that by (simp add: net_service_def rx_loop_tcp_inv del: rx_loop.simps split: option.split)
  qed
  have "tcp_inv U (fold net_service is n)" for "is" using n by (induction "is" arbitrary: n) (simp_all add: s)
  then show ?thesis by (simp add: net_process_def ip_reassembly_gc_def tcp_inv_def)
qed

interpretation net: tcp_polled net_process
  by unfold_locales (rule process_tcp_inv)

lemma service_tcp_inv: "tcp_inv U n \<Longrightarrow> tcp_inv U (socket_service_network n)"
proof -
  assume "tcp_inv U n"
  then have t: "tcp_inv U (tcp_process_timers net_process (net_process n))" by (simp add: process_tcp_inv net.timers_inv)
  have u: "tcp_inv U (snd (udp_send net_process d sp dp b m))" if "tcp_inv U m" for d sp dp b and m :: "'a hnet_scheme"
    using that by (simp add: udp_send_def Let_def net.output_R split: option.split)
  have f: "tcp_inv U (m\<lparr>dhcp_xid := x, dhcp_renew_in_progress := d, dhcp_renew_sent_at := t\<rparr>) = tcp_inv U m"
    "tcp_inv U (m\<lparr>dhcp_renew_in_progress := d\<rparr>) = tcp_inv U m" for x d t and m :: "'a hnet_scheme"
    by (simp_all add: tcp_inv_def)
  have "tcp_inv U (snd (dhcp_send_request net_process a b m))" if "tcp_inv U m" for a b and m :: "'a hnet_scheme"
    using that by (simp add: dhcp_send_request_def Let_def u)
  then have "tcp_inv U (dhcp_poll net_process m)" if "tcp_inv U m" for m :: "'a hnet_scheme"
    using that by (simp add: dhcp_poll_def Let_def case_prod_unfold f split: bool.split)
  then show ?thesis using t by (simp add: socket_service_network_def)
qed

text \<open>
  C34: the connections stay well formed. Whatever frames arrive, processing the network, serving
  the timers and every call of an application that waits while the network is processed keep the
  invariant of all connections: buffers and queues within their arrays, a window offered to the
  peer that fits the free room, no valid connection in the closed state.
\<close>

theorem tcp_well_formed:
  assumes "tcp_inv {} n" and "i < TCP_MAX_CONNECTIONS"
  shows "tcp_inv {} (net_process n) \<and> tcp_inv {} (socket_service_network n) \<and> tcp_inv {} (snd (tcp_connect net_process d p n)) \<and>
    tcp_inv {} (snd (tcp_connect_wait net_process i t n)) \<and> tcp_inv {} (snd (tcp_accept net_process i t n)) \<and> tcp_inv {} (snd (tcp_listen p n)) \<and>
    tcp_inv {} (snd (tcp_recv_data i k n)) \<and> tcp_inv {} (tcp_close net_process i n)"
  using assms by (simp add: process_tcp_inv service_tcp_inv net.connect_inv net.connect_wait_inv net.accept_inv tcp_inv_listen tcp_inv_receive net.close_inv)


end
