(* ===== verification/KPing.thy ===== *)
theory KPing
  imports KNetRx
begin

text \<open>
  An echo request through the whole stack: from the frame in the device through the queue,
  Ethernet, IP and ICMP to the frame with the answer, with the hardware address learnt on the way.
\<close>

section \<open>Sending one packet\<close>

lemma ip_output_small:
  assumes "route_lookup dest n = Some (hop, Some i)" and "out_ready i hop mac n" and "if_mtu (nif n i) \<le> 1500" and "length P \<le> max_payload_of i n"
  obtains g p h where "snd (ip_output poll dest proto P n) = if_sent i g (snd (next_ip_id n))"
    "ethernet_parse_header g = Some (\<lparr>dest_mac = mac, src_mac = if_mac (nif n i), eth_type = htons ETH_TYPE_IPV4\<rparr>, p)"
    "ip_parse_header p = Some (h, P)" "src_ip h = ip_our n" "dest_ip h = dest" "protocol h = proto"
proof -
  have mx: "552 \<le> max_payload_of i n" "max_payload_of i n \<le> 1580" using max_payload_bounds [OF assms(3)] by simp_all
  define n1 where "n1 = snd (next_ip_id n)"
  have n1: "out_ready i hop mac n1" "if_mac (nif n1 i) = if_mac (nif n i)"
    using assms(2) by (simp_all add: n1_def next_ip_id_def Let_def out_ready_def netif_ready_def)
  let ?h = "frag_header (ip_our n) dest proto (ip_id_counter n) 64 P 0 (length P)" let ?p = "enc_ip (seal ?h) @ P"
  have h: "?h\<lparr>ttl := 64\<rparr> = ?h" "flags_fragment ?h = htons 0" by (simp_all add: frag_header_def frag_flags_def)
  have len: "length ?p \<le> 1600" "IP_HDR + length P < 2 ^ 16" using assms(4) mx dec_enc_ip(2) by simp_all
  have c: "ip_create_packet_ex 1600 (ip_our n) dest proto (ip_id_counter n) 0 P = Some ?p"
    using create_is_sealed [of P 1600] len dec_enc_ip(2) by (simp add: frag_header_def frag_flags_def)
  have o: "netif_ready i n1" "length (if_mac (nif n1 i)) = 6" "length mac = 6" "hop \<noteq> 0xFFFFFFFF" "arp_answer hop n1 = Some mac"
    using n1(1) by (simp_all add: out_ready_def)
  obtain g where g: "ethernet_create_frame (ETH_HDR + 1600) (Some mac) (Some (if_mac (nif n1 i))) ETH_TYPE_IPV4 ?p = Some g"
    "length g = ETH_HDR + length ?p" "ethernet_parse_header g = Some (\<lparr>dest_mac = mac, src_mac = if_mac (nif n1 i), eth_type = htons ETH_TYPE_IPV4\<rparr>, ?p)"
    using ethernet_roundtrip [OF o(3,2), of ?p "ETH_HDR + 1600" ETH_TYPE_IPV4] len(1) by auto
  have "g \<noteq> []" using g(2) by auto
  then have "netif_send (Some i) g n1 = (True, if_sent i g n1)" using o(1) by (intro netif_send_ready)
  then have "ip_send_frame poll (Some i) hop ?p n1 = (True, if_sent i g n1)"
    using o(4) arp_get_known [OF o(5)] g(1) len(1) by (simp add: ip_send_frame_def arp_resolve_def netif_get_mac_def)
  then have s: "ip_send_frame_ttl poll (Some i) hop ?p 64 n1 = (True, if_sent i g n1)" by (simp add: ip_send_frame_ttl_sealed h)
  have id: "next_ip_id n = (ip_id_counter n, n1)" by (simp add: n1_def next_ip_id_def Let_def)
  have "ip_output poll dest proto P n = (True, if_sent i g n1)"
    unfolding ip_output_def ip_output_ex_def Let_def assms(1) option.case prod.case id max_payload_of_def [symmetric]
    using s assms(4) mx(1) c by simp
  moreover have "ip_parse_header ?p = Some (host_order (seal ?h), P)" using len by (intro parse_sealed) (simp_all add: frag_header_def)
  moreover have "src_ip (host_order (seal ?h)) = ip_our n" "dest_ip (host_order (seal ?h)) = dest" "protocol (host_order (seal ?h)) = proto"
    by (simp_all add: host_order_def seal_def frag_header_def)
  ultimately show thesis using that g(3) n1(2) by (simp add: n1_def)
qed

section \<open>Receiving one packet\<close>

text \<open>Receiving changes the interfaces in their queues and counters, the buffers, and what the device holds.\<close>

definition hide_rx :: "netif \<Rightarrow> netif" where
  "hide_rx x = x\<lparr>if_queue := net_queue_init, if_stats := no_stats\<rparr>"

definition rx_only :: "'a net_scheme \<Rightarrow> 'a net_scheme \<Rightarrow> bool" where
  "rx_only n m \<longleftrightarrow> (\<exists>xs p h. m = n\<lparr>netifs := xs, skb_pool := p, hw_rx := h\<rparr> \<and> map hide_rx xs = map hide_rx (netifs n))"

lemma hide_update: "hide_rx x = hide_rx (xs ! i) \<Longrightarrow> map hide_rx (xs[i := x]) = map hide_rx xs"
  by (cases "i < length xs") (simp_all add: map_update list_update_same_conv list_update_beyond)

lemma rx_only_refl: "rx_only n n"
  unfolding rx_only_def by (intro exI [of _ "netifs n"] exI [of _ "skb_pool n"] exI [of _ "hw_rx n"]) simp

lemma rx_only_trans: "rx_only n m \<Longrightarrow> rx_only m k \<Longrightarrow> rx_only n k"
  unfolding rx_only_def by (elim exE conjE) (simp, blast)

lemma rx_only_updates: "rx_only n m \<Longrightarrow> rx_only n (m\<lparr>skb_pool := p\<rparr>)" "rx_only n m \<Longrightarrow> rx_only n (m\<lparr>hw_rx := h\<rparr>)"
  "rx_only n m \<Longrightarrow> hide_rx x = hide_rx (nif m i) \<Longrightarrow> rx_only n (put_nif i x m)"
proof -
  assume "rx_only n m"
  then obtain xs q g where m: "m = n\<lparr>netifs := xs, skb_pool := q, hw_rx := g\<rparr>" "map hide_rx xs = map hide_rx (netifs n)" by (auto simp: rx_only_def)
  show "rx_only n (m\<lparr>skb_pool := p\<rparr>)" unfolding rx_only_def using m by (intro exI [of _ xs] exI [of _ p] exI [of _ g]) simp
  show "rx_only n (m\<lparr>hw_rx := h\<rparr>)" unfolding rx_only_def using m by (intro exI [of _ xs] exI [of _ q] exI [of _ h]) simp
  assume "hide_rx x = hide_rx (nif m i)"
  then have "map hide_rx (xs[i := x]) = map hide_rx (netifs n)" using m hide_update [of x xs i] by simp
  then show "rx_only n (put_nif i x m)" unfolding rx_only_def put_nif_def using m by (intro exI [of _ "xs[i := x]"] exI [of _ q] exI [of _ g]) simp
qed

lemma rx_only_enqueue: "rx_only n m \<Longrightarrow> rx_only n (snd (net_rx_enqueue i f m))"
proof -
  assume m: "rx_only n m"
  have drop: "rx_only n (rx_drop i k)" if "rx_only n k" for k
    unfolding rx_drop_def using that by (rule rx_only_updates) (simp add: hide_rx_def)
  have q: "rx_only n (put_nif i ((nif m i)\<lparr>if_queue := q, if_stats := st\<rparr>) (m\<lparr>skb_pool := p\<rparr>))"
    "rx_only n (put_nif i ((nif m i)\<lparr>if_queue := q\<rparr>) (m\<lparr>skb_pool := p\<rparr>))" for q st p
    by (rule rx_only_updates(3), rule rx_only_updates(1) [OF m], simp add: hide_rx_def)+
  show ?thesis unfolding net_rx_enqueue_def Let_def
    using m by (auto simp: case_prod_unfold split: option.split bool.split intro!: drop rx_only_updates(1) q)
qed

lemma rx_only_poll: "rx_only n m \<Longrightarrow> rx_only n (snd (nic_poll_loop i c m))"
proof (induction i c m rule: nic_poll_loop.induct)
  case (1 i c m)
  show ?case
  proof (cases "hw_rx m")
    case (Cons f fs)
    let ?m = "m\<lparr>hw_rx := fs\<rparr>"
    have h: "rx_only n ?m" using "1.prems" by (rule rx_only_updates)
    obtain ok k where k: "net_rx_enqueue i f ?m = (ok, k)" by fastforce
    have "rx_only n k" using rx_only_enqueue [OF h, of i f] k by simp
    then show ?thesis using "1.IH" [OF Cons _ refl _ k [symmetric]] "1.prems" h Cons k by (subst nic_poll_loop.simps) (simp add: Let_def)
  qed (use "1.prems" in \<open>subst nic_poll_loop.simps, simp\<close>)
qed

lemma nth_beyond: "length xs = length ys \<Longrightarrow> length xs \<le> i \<Longrightarrow> xs ! i = ys ! i"
proof (induction xs ys arbitrary: i rule: list_induct2)
  case (Cons x xs y ys)
  then show ?case by (cases i) simp_all
qed simp

lemma rx_only_nif:
  assumes "rx_only n m"
  shows "if_mac (nif m i) = if_mac (nif n i)" "if_mtu (nif m i) = if_mtu (nif n i)" "if_gw (nif m i) = if_gw (nif n i)" "netif_ready i m = netif_ready i n"
proof -
  obtain xs p h where m: "m = n\<lparr>netifs := xs, skb_pool := p, hw_rx := h\<rparr>" "map hide_rx xs = map hide_rx (netifs n)" using assms by (auto simp: rx_only_def)
  have l: "length xs = length (netifs n)" using m(2) by (metis length_map)
  have e: "hide_rx (xs ! i) = hide_rx (nif n i)"
  proof (cases "i < length xs")
    case True
    then show ?thesis using m(2) l by (metis nth_map)
  qed (simp add: nth_beyond [OF l])
  have "if_mac (xs ! i) = if_mac (nif n i)" "if_mtu (xs ! i) = if_mtu (nif n i)" "if_gw (xs ! i) = if_gw (nif n i)" "if_up (xs ! i) = if_up (nif n i)" "if_ops (xs ! i) = if_ops (nif n i)"
    using arg_cong [OF e, of if_mac] arg_cong [OF e, of if_mtu] arg_cong [OF e, of if_gw] arg_cong [OF e, of if_up] arg_cong [OF e, of if_ops] by (simp_all add: hide_rx_def)
  then show "if_mac (nif m i) = if_mac (nif n i)" "if_mtu (nif m i) = if_mtu (nif n i)" "if_gw (nif m i) = if_gw (nif n i)" "netif_ready i m = netif_ready i n"
    using l by (simp_all add: m(1) netif_ready_def)
qed

lemma rx_only_ip:
  fixes n :: "'a ipnet_scheme"
  assumes "rx_only n m"
  shows "route_lookup d m = route_lookup d n" "arp_inv m = arp_inv n" "ip_our m = ip_our n" "wire m = wire n"
proof -
  obtain xs p h where m: "m = n\<lparr>netifs := xs, skb_pool := p, hw_rx := h\<rparr>" using assms by (auto simp: rx_only_def)
  show "route_lookup d m = route_lookup d n" using rx_only_nif(3) [OF assms] by (simp add: m route_lookup_def split: option.split)
  show "arp_inv m = arp_inv n" "ip_our m = ip_our n" "wire m = wire n" by (simp_all add: m arp_inv_def)
qed

text \<open>A frame of the sender with an echo request for the address dip.\<close>

definition echo_frame :: "u8 list \<Rightarrow> u32 \<Rightarrow> u32 \<Rightarrow> u8 list \<Rightarrow> u8 list \<Rightarrow> bool" where
  "echo_frame mac sip dip req f \<longleftrightarrow>
     (\<exists>e h. ethernet_parse_header f = Some (e, enc_ip (seal h) @ req) \<and> src_mac e = mac \<and> eth_type e = htons ETH_TYPE_IPV4 \<and> version_ihl h = 0x45 \<and>
        total_length h = htons (of_nat (IP_HDR + length req)) \<and> flags_fragment h = 0 \<and> protocol h = IP_PROTOCOL_ICMP \<and> src_ip h = htonl sip \<and> dest_ip h = htonl dip) \<and>
     length f \<le> SKB_DATA_SIZE \<and> length req \<le> SKB_DATA_SIZE \<and> ICMP_HDR \<le> length req \<and> req ! 0 = ICMP_TYPE_ECHO_REQUEST"

lemma echo_frame_handled:
  assumes "echo_frame mac sip (ip_our n) req f" and "sip \<noteq> 0" "sip \<noteq> 0xFFFFFFFF" and "ip_our n \<noteq> 0"
  shows "net_handle_frame f n = snd (ip_output id sip IP_PROTOCOL_ICMP (icmp_reply req) (arp_add_entry sip mac n))"
proof -
  obtain e h where f: "ethernet_parse_header f = Some (e, enc_ip (seal h) @ req)" "src_mac e = mac" "eth_type e = htons ETH_TYPE_IPV4" "version_ihl h = 0x45"
      "total_length h = htons (of_nat (IP_HDR + length req))" "flags_fragment h = 0" "protocol h = IP_PROTOCOL_ICMP" "src_ip h = htonl sip" "dest_ip h = htonl (ip_our n)"
    and r: "length req \<le> SKB_DATA_SIZE" "ICMP_HDR \<le> length req" "req ! 0 = ICMP_TYPE_ECHO_REQUEST"
    using assms(1) by (auto simp: echo_frame_def)
  have p: "ip_parse_header (enc_ip (seal h) @ req) = Some (host_order (seal h), req)" using f(4,5) r(1) by (intro parse_sealed) simp_all
  let ?h = "host_order (seal h)" let ?n = "arp_add_entry sip mac n"
  have h: "flags_fragment ?h = 0" "src_ip ?h = sip" "dest_ip ?h = ip_our n" "protocol ?h = IP_PROTOCOL_ICMP"
    using f(6-9) by (simp_all add: host_order_def seal_def htons_def)
  have "ip_our ?n = ip_our n" by (simp add: arp_add_entry_def arp_put_def split: option.split)
  then have "net_dispatch ?h req ?n = snd (ip_output id sip IP_PROTOCOL_ICMP (icmp_reply req) ?n)" "ip_is_local_dest (ip_our n) ?n"
    using h r assms(4) icmp_echo_answered [OF r(2,3), of ?n id sip] by (simp_all add: net_dispatch_def ip_is_local_dest_def)
  moreover have "ip_input_fragment (enc_ip (seal h) @ req) n = (NOT_FRAGMENT, n)" using p h(1) by (simp add: ip_input_fragment_def)
  ultimately show ?thesis using f(1-3) p h assms(2,3) by (simp add: net_handle_frame_def net_handle_ipv4_def Let_def)
qed

section \<open>The answer\<close>

lemma arp_add_below: "netifs (arp_add_entry ip mac n) = netifs n" "wire (arp_add_entry ip mac n) = wire n" "netif_ready i (arp_add_entry ip mac n) = netif_ready i n"
  "route_lookup d (arp_add_entry ip mac n) = route_lookup d n"
  by (simp_all add: arp_add_entry_def arp_put_def netif_ready_def route_lookup_def split: option.split)

text \<open>One frame in the device: it is queued, handled and nothing else.\<close>

lemma one_frame:
  fixes n :: "'a hnet_scheme"
  assumes "net_inv n" and "netif_used n = 1" and "netif_ready 0 n" and "frames 0 n = []" and "length (queued n) < length (skb_pool n)"
    and "hw_rx n = [f]" and "f \<noteq> []" "length f \<le> SKB_DATA_SIZE"
  obtains m where "rx_only n m" "wire (net_process n) = wire (net_handle_frame f m)"
proof -
  let ?p = "snd (netif_poll (Some 0) n)"
  have r: "0 < length (netifs n)" "if_up (nif n 0)" using assms(3) by (auto simp: netif_ready_def)
  have pe: "?p = snd (nic_poll_loop 0 0 n)" using assms(3) by (simp add: netif_poll_def nic_ops_poll_def netif_ready_def)
  have p: "rx_only n ?p" unfolding pe by (rule rx_only_poll [OF rx_only_refl])
  have fr: "frames 0 ?p = [f]" using nic_poll_all [OF assms(1) r(1), of 0] assms(4-8) unfolding pe by simp
  have "net_process n = ip_reassembly_gc (serve_queue 0 n)"
    using net_service_fold_handles [OF assms(1), of 1] assms(2) r(1) by (simp add: net_process_def)
  also have "serve_queue 0 n = rx_handle 0 f ?p" using r(2) fr by (simp add: serve_queue_def Let_def)
  finally have np: "net_process n = ip_reassembly_gc (rx_handle 0 f ?p)" .
  obtain k q where k: "net_queue_pop (if_queue (nif ?p 0)) = (k, q)" by fastforce
  let ?m = "put_nif 0 ((nif ?p 0)\<lparr>if_queue := q\<rparr>) ?p"
  have "rx_only n ?m" using p by (rule rx_only_updates) (simp add: hide_rx_def)
  moreover have "wire (net_process n) = wire (net_handle_frame f ?m)" using k by (simp add: np ip_reassembly_gc_def rx_handle_def Let_def)
  ultimately show thesis by (rule that)
qed


end
