(* ===== verification/KNetHost.thy ===== *)
theory KNetHost
  imports KPing
begin

text \<open>
  A concrete host of the network stack, on which the theorems about ports, sockets, DNS, DHCP and
  the processing of frames are evaluated.
\<close>

definition closed_conn :: tcp_connection where
  "closed_conn = \<lparr>c_src_ip = 0, c_src_port = 0, c_dest_ip = 0, c_dest_port = 0, c_state = TCP_CLOSED, send_seq = 0, send_una = 0, recv_seq = 0,
     send_window = 0, recv_window = 0, mss = 0, rx_buffer = [], tx_buffer = [], retransmit_queue = [], cwnd = 0, ssthresh = 0, in_slow_start = False,
     last_activity = 0, pending_accept = False, c_valid = False\<rparr>"

definition free_port :: net_port_slot where
  "free_port = \<lparr>np_used = False, np_proto = 0, np_state = NETPORT_CLOSED, np_local_port = 0, np_remote_port = 0, np_local_ip = 0, np_remote_ip = 0,
     np_sock_fd = - 1, np_pid = 0, np_owner = []\<rparr>"

definition free_sock :: socket_entry where
  "free_sock = \<lparr>so_used = False, so_type = 0, so_local_port = 0, so_local_ip = 0, so_peer_ip = 0, so_peer_port = 0, so_has_peer = False,
     so_listening = False, so_tcp = None, so_listen_tcp = None, so_udp_q = replicate UDP_SOCK_QUEUE \<lparr>pk_src_ip = 0, pk_src_port = 0, pk_data = []\<rparr>,
     so_q_head = 0, so_q_tail = 0, so_q_count = 0, so_owner_pid = 0, so_owner = []\<rparr>"

text \<open>The host has one established connection, one datagram socket on port 7, and waits for the
  answer to a DHCP request.\<close>

definition net_host :: hnet where
  "net_host =
     dnet.extend (inet.extend (snet.extend (pnet.extend (tnet.extend (ipnet.extend
       (ip_host\<lparr>skb_pool := replicate 4 empty_skb, dhcp_current_state := DHCP_STATE_REQUESTING\<rparr>)
       (tnet.fields (conn tcp_host 0 # replicate 63 closed_conn) 1001 False))
       (pnet.fields (replicate NET_PORTS_MAX free_port) 49152 (replicate 16 0) 1))
       (snet.fields ((free_sock\<lparr>so_used := True, so_type := SOCK_DGRAM, so_local_port := 7\<rparr>) # replicate 63 free_sock) (\<lambda>_. 0)))
       (inet.fields \<lparr>iw_waiting = False, iw_id = 0, iw_sequence = 0, iw_from_ip = 0, iw_received = False, iw_kind = 0\<rparr> 1))
       (dnet.fields (replicate DNS_CACHE_SIZE \<lparr>dc_hostname = [], dc_ip = 0, dc_ttl = 0, dc_timestamp = 0, dc_valid = False\<rparr>) 1
          \<lparr>dp_active = False, dp_query_id = 0, dp_hostname = [], dp_result_ip = 0, dp_got_response = False\<rparr> 100 False))
       (hnet.fields \<lparr>dh_ip_address = 0, dh_subnet_mask = 0, dh_gateway = 0, dh_dns_server = 0, dh_server_ip = 0, dh_lease_time = 0, dh_valid = False\<rparr>
          0x1234 0 0 False 0 ''knitos'' (- 1))"

lemmas net_host_defs = net_host_def dnet.extend_def inet.extend_def snet.extend_def pnet.extend_def tnet.extend_def ipnet.extend_def
  tnet.fields_def pnet.fields_def snet.fields_def inet.fields_def dnet.fields_def hnet.fields_def ip_host_def

lemma net_host_tables: "tcp_connections net_host = conn tcp_host 0 # replicate 63 closed_conn" "g_ports net_host = replicate NET_PORTS_MAX free_port"
  "sockets net_host = (free_sock\<lparr>so_used := True, so_type := SOCK_DGRAM, so_local_port := 7\<rparr>) # replicate 63 free_sock"
  "g_ephemeral_next net_host = 49152" "netifs net_host = [eth0]" "netif_used net_host = 1" "skb_pool net_host = replicate 4 empty_skb"
  "dhcp_current_state net_host = DHCP_STATE_REQUESTING" "dhcp_xid net_host = 0x1234"
  by (simp_all add: net_host_defs)

lemma net_host_inv: "tcp_inv {} net_host" "net_inv net_host"
proof -
  have "tcp_ok (conn tcp_host 0)" "tcp_ok closed_conn"
    by (simp_all add: tcp_ok_def closed_conn_def tcp_host_def ipnet.extend_def tnet.fields_def)
  then show "tcp_inv {} net_host" by (simp add: tcp_inv_def net_host_tables list_all_iff)
  show "net_inv net_host" by (simp add: net_inv_def queued_def net_host_tables eth0_def no_netif_def empty_queue empty_skb_def)
qed

theorem net_process_handles_all_witness:
  "net_process net_host = ip_reassembly_gc (serve_queue 0 net_host) \<and> net_inv (net_process net_host)"
proof -
  have "netif_used net_host \<le> length (netifs net_host)" by (simp add: net_host_tables)
  from net_process_handles_all [OF net_host_inv(2) this]
  have "net_process net_host = ip_reassembly_gc (fold serve_queue [0..<1] net_host)" "net_inv (net_process net_host)"
    unfolding net_host_tables by blast+
  then show ?thesis by auto
qed

theorem tcp_well_formed_witness: "tcp_inv {} (socket_service_network net_host) \<and> tcp_inv {} (tcp_close net_process 0 net_host)"
  using tcp_well_formed [OF net_host_inv(1), of 0] by simp


theorem net_ports_alloc_ephemeral_correct_witness: "\<not> net_ports_busy NET_PROTO_UDP (fst (net_ports_alloc_ephemeral NET_PROTO_UDP net_host)) net_host"
proof -
  obtain p n' where e: "net_ports_alloc_ephemeral NET_PROTO_UDP net_host = (p, n')" by fastforce
  have "\<not> net_ports_busy NET_PROTO_UDP 0 net_host" by (simp add: net_ports_busy_def)
  then show ?thesis using net_ports_alloc_ephemeral_correct [OF _ e] e by (cases "p = 0") (simp_all add: net_host_tables)
qed

theorem socket_udp_queue_refines_witness:
  "datagrams (sockets (snd (socket_udp_deliver 7 0x0A000202 9 [1, 2] net_host)) ! 0) = [\<lparr>pk_src_ip = 0x0A000202, pk_src_port = 9, pk_data = [1, 2]\<rparr>]"
proof -
  have f: "find_slot (\<lambda>s. so_used s \<and> so_type s = SOCK_DGRAM \<and> so_local_port s = 7) (sockets net_host) = Some 0" "queue_ok (sockets net_host ! 0)"
    "datagrams (sockets net_host ! 0) = []"
    by (simp_all add: net_host_tables find_slot_Some queue_ok_def datagrams_def free_sock_def)
  show ?thesis using socket_udp_queue_refines [OF f(1,2), where sip = "0x0A000202" and sp = 9 and data = "[1, 2]"] f(3) by simp
qed

theorem udp_own_datagram_dropped_witness:
  "udp_handle_packet id 1 2 (enc_udp \<lparr>uh_src_port = htons 7, uh_dest_port = htons 9, uh_length = htons 8, uh_checksum = htons 0xFFCB\<rparr>) net_host = net_host"
proof -
  have "udp_checksum 1 2 (enc_udp \<lparr>uh_src_port = htons 7, uh_dest_port = htons 9, uh_length = htons 8, uh_checksum = 0\<rparr>) = 0xFFCB" by code_simp
  then show ?thesis using udp_own_datagram_dropped [where s = 1 and d = 2 and sp = 7 and dp = 9 and poll = id and n = net_host] by (simp add: htons_def)
qed

theorem dns_answer_roundtrip_witness:
  "\<exists>r. dns_response 7 [0x61] [0, 1, 0, 1] 0x0A000201 = Some r \<and> dns_parse_response r 0 = DAddr 0x0A000201"
proof -
  have "dns_encode_loop [0x61] m [] = Some [1, 0x61, 0]" if "3 < m" for m using that by (subst dns_encode_loop.simps) (simp add: Let_def)
  then obtain r where "dns_response 7 [0x61] [0, 1, 0, 1] 0x0A000201 = Some r" by (simp add: dns_response_def dns_encode_name_def)
  then show ?thesis using dns_answer_roundtrip [where ls = "[[0x61]]" and ip = "0x0A000201" and question = "[0, 1, 0, 1]" and i = 7 and r = r and depth = 0] by (simp add: label_ok_def)
qed

theorem dns_pointer_loop_faults_witness: "stack_fault (dns_handle_request id 0x0A000202 9 (replicate 4 0 @ [0, 1] @ replicate 6 0 @ [0xC0, 12]) net_host)"
proof -
  let ?p = "replicate 4 0 @ [0, 1] @ replicate 6 0 @ [0xC0, 12] :: u8 list"
  have "htons (get16 ?p 4) = 1" by code_simp
  then show ?thesis by (intro dns_pointer_loop_faults) (simp_all add: eval_nat_numeral)
qed

definition ack_packet :: "u8 list" where
  "ack_packet = ([2, 1, 6, 0] @ le32 (htonl 0x1234) @ replicate 8 0) @ le32 (htonl 0x0A000210) @ replicate 216 0 @ le32 (htonl DHCP_MAGIC_COOKIE) @ [53, 1, 5, 255]"


text \<open>An echo request from the neighbour.\<close>

definition echo_request :: "u8 list" where
  "echo_request = [8, 0, 0, 0, 0, 1, 0, 1, 42]"

definition echo_packet :: "u8 list" where
  "echo_packet = enc_ip (seal \<lparr>version_ihl = 0x45, tos = 0, total_length = htons (of_nat (IP_HDR + length echo_request)), ip_id = 0, flags_fragment = 0, ttl = 64,
     protocol = IP_PROTOCOL_ICMP, checksum = 0, src_ip = htonl 0x0A000202, dest_ip = htonl 0x0A00020F\<rparr>) @ echo_request"


end
