(* ===== verification/KWords.thy ===== *)
theory KWords
  imports KBytes
begin

text \<open>
  Machine words as numbers, for the arithmetic of the cryptographic routines: sums and products
  that do not overflow, shifts, masks and bytes as digits of a number.
\<close>

type_synonym u64 = "64 word"

section \<open>Words\<close>

lemma unat_add: "unat (a :: 'a::len word) + unat b < 2 ^ LENGTH('a) \<Longrightarrow> unat (a + b) = unat a + unat b"
  by (simp add: unat_word_ariths)

lemma unat_mult: "unat (a :: 'a::len word) * unat b < 2 ^ LENGTH('a) \<Longrightarrow> unat (a * b) = unat a * unat b"
  by (simp add: unat_word_ariths)

lemma unat_shr: "unat (drop_bit k (w :: 'a::len word)) = unat w div 2 ^ k"
  unfolding unat_drop_bit_eq by (simp only: drop_bit_eq_div)

lemma unat_ucast: "unat (ucast (w :: 'a::len word) :: 'b::len word) = unat w mod 2 ^ LENGTH('b)"
proof -
  have "(ucast w :: 'b word) = of_nat (unat w)" by simp
  then show ?thesis by (simp only: unat_of_nat)
qed

lemma unat_shl: "unat (push_bit k (w :: 'a::len word)) = (unat w * 2 ^ k) mod 2 ^ LENGTH('a)"
proof -
  have "push_bit k w = of_nat (unat w * 2 ^ k)" by (simp add: push_bit_eq_mult)
  then show ?thesis by (simp only: unat_of_nat)
qed

lemma unat_or: "unat (a OR b :: 'a::len word) = unat a OR unat b"
  by (rule bit_eqI) (simp add: bit_simps)

lemma unat_and: "unat (a AND b :: 'a::len word) = unat a AND unat b"
  by (rule bit_eqI) (simp add: bit_simps)

lemma unat_and_mask: "unat (w AND Bit_Operations.mask k :: 'a::len word) = unat w mod 2 ^ k"
proof -
  have "unat (take_bit k w) = take_bit k (unat w)" by (rule bit_eqI) (simp add: bit_simps)
  then show ?thesis by (simp add: take_bit_eq_mod flip: take_bit_eq_mask)
qed

lemma unat_or_disjoint: "unat a < 2 ^ k \<Longrightarrow> 2 ^ k dvd unat b \<Longrightarrow> unat (a OR b :: 'a::len word) = unat a + unat b"
proof -
  assume a: "unat a < 2 ^ k" and b: "2 ^ k dvd unat b"
  have "unat (a OR b) = unat a OR unat b" by (rule unat_or)
  also have "\<dots> = unat a + unat b"
  proof (rule disjunctive_add_eq_or [symmetric])
    have "unat a = take_bit k (unat a)" using a by (simp add: take_bit_nat_eq_self)
    moreover have "unat b = push_bit k (unat b div 2 ^ k)" using b by (simp add: push_bit_eq_mult)
    ultimately have "unat a AND unat b = take_bit k (unat a) AND push_bit k (unat b div 2 ^ k)" by simp
    also have "\<dots> = 0" by (rule bit_eqI) (simp add: bit_simps)
    finally show "unat a AND unat b = 0" .
  qed
  finally show ?thesis .
qed

section \<open>Bytes as a number\<close>

lemma unat_u8_less: "unat (w :: u8) < 256"
  using unsigned_less [of w] by simp

fun num_le :: "u8 list \<Rightarrow> nat" where
  "num_le [] = 0"
| "num_le (b # bs) = unat b + 256 * num_le bs"

lemma num_le_append: "num_le (a @ b) = num_le a + 256 ^ length a * num_le b"
  by (induction a) (simp_all add: algebra_simps)

lemma num_le_less: "num_le bs < 256 ^ length bs"
proof (induction bs)
  case (Cons b bs)
  have "unat b < 256" by (rule unat_u8_less)
  then show ?case using Cons.IH by simp
qed simp

lemma num_le_replicate [simp]: "num_le (replicate n 0) = 0"
  by (induction n) simp_all

lemma num_le_inj: "length a = length b \<Longrightarrow> num_le a = num_le b \<longleftrightarrow> a = b"
proof (induction a b rule: list_induct2)
  case (Cons x xs y ys)
  have "num_le (x # xs) mod 256 = unat x" "num_le (x # xs) div 256 = num_le xs"
    "num_le (y # ys) mod 256 = unat y" "num_le (y # ys) div 256 = num_le ys"
    using unat_u8_less [of x] unat_u8_less [of y] by simp_all
  then have "num_le (x # xs) = num_le (y # ys) \<longleftrightarrow> unat x = unat y \<and> num_le xs = num_le ys"
    by (metis num_le.simps(2))
  then show ?case using Cons.IH by (simp add: word_unat_eq_iff)
qed simp

lemma digits256:
  "a * 256 + b = n \<Longrightarrow> c * 256 + d = a \<Longrightarrow> e * 256 + f = c \<Longrightarrow> b + 256 * (d + 256 * (f + 256 * e)) = (n :: nat)"
  by simp

lemma num_le_32: "num_le (le32 w) = unat w"
proof -
  have "unat w mod 256 + 256 * (unat w div 256 mod 256 + 256 * (unat w div 256 div 256 mod 256 + 256 * (unat w div 256 div 256 div 256))) = unat w"
    by (rule digits256; rule div_mult_mod_eq)
  moreover have "unat w < 2 ^ 32" by (rule unat_lt32)
  ultimately show ?thesis unfolding le32_def by (simp add: unat_ucast unat_shr div_mult2_eq [symmetric])
qed

lemma get32_cons: "get32 (a # b # c # d # bs) 0 = of_nat (num_le [a, b, c, d])"
proof -
  have s: "unat x < 256" for x :: u8 by (rule unat_u8_less)
  have u: "unat (push_bit k (ucast x :: u32)) = unat x * 2 ^ k" if "k \<le> 24" for x :: u8 and k
  proof -
    have "(2::nat) ^ k \<le> 2 ^ 24" using that by (rule power_increasing) simp
    then have "unat x * 2 ^ k < 256 * 2 ^ 24" using s [of x] by (intro mult_less_le_imp_less) simp_all
    moreover have "unat (ucast x :: u32) = unat x" using s [of x] by (simp add: unat_ucast)
    ultimately show ?thesis by (simp add: unat_shl)
  qed
  have "unat (get32 (a # b # c # d # bs) 0) = num_le [a, b, c, d]"
  proof -
    have 0: "unat (ucast a :: u32) = unat a" using s [of a] by (simp add: unat_ucast)
    have 1: "unat (ucast a OR push_bit 8 (ucast b) :: u32) = unat a + unat b * 2 ^ 8"
      using u [of 8 b] 0 s [of a] by (subst unat_or_disjoint [of _ 8]) simp_all
    have 2: "unat (ucast a OR push_bit 8 (ucast b) OR push_bit 16 (ucast c) :: u32) = unat a + unat b * 2 ^ 8 + unat c * 2 ^ 16"
      using u [of 16 c] 1 s [of a] s [of b] by (subst or.assoc [symmetric], subst unat_or_disjoint [of _ 16]) simp_all
    have 3: "unat (ucast a OR push_bit 8 (ucast b) OR push_bit 16 (ucast c) OR push_bit 24 (ucast d) :: u32) = unat a + unat b * 2 ^ 8 + unat c * 2 ^ 16 + unat d * 2 ^ 24"
      using u [of 24 d] 2 s [of a] s [of b] s [of c] by (subst or.assoc [symmetric], subst or.assoc [symmetric], subst unat_or_disjoint [of _ 24]) (simp_all add: or.assoc)
    then show ?thesis by (simp add: get32_def or.assoc)
  qed
  then have "of_nat (unat (get32 (a # b # c # d # bs) 0)) = (of_nat (num_le [a, b, c, d]) :: u32)" by (simp only:)
  then show ?thesis by (simp only: of_nat_unat ucast_id)
qed

lemma four_bytes: "4 \<le> length xs \<Longrightarrow> \<exists>a b c d r. xs = a # b # c # d # r"
  by (auto simp: numeral_eq_Suc Suc_le_length_iff)

lemma unat_get32: "i + 4 \<le> length m \<Longrightarrow> unat (get32 m i) = num_le (take 4 (drop i m))"
proof -
  assume "i + 4 \<le> length m"
  then have "4 \<le> length (drop i m)" by simp
  then obtain a b c d r where d: "drop i m = a # b # c # d # r"
    using four_bytes by blast
  then have "m ! (i + j) = (a # b # c # d # r) ! j" for j by (metis nth_drop \<open>i + 4 \<le> length m\<close> add_leD1)
  from this [of 0] this [of 1] this [of 2] this [of 3]
  have "get32 m i = get32 (a # b # c # d # r) 0" by (simp add: get32_def)
  then have g: "get32 m i = of_nat (num_le [a, b, c, d])" by (simp only: get32_cons)
  have t: "take 4 (drop i m) = [a, b, c, d]" by (simp add: d)
  have "num_le [a, b, c, d] < 2 ^ 32" using num_le_less [of "[a, b, c, d]"] by simp
  then show ?thesis unfolding g t by (rule unat_of_nat32)
qed

lemma num_le_take_add: "num_le (take (a + b) m) = num_le (take a m) + 256 ^ a * num_le (take b (drop a m))"
proof (cases "a \<le> length m")
  case True
  have "take (a + b) m = take a m @ take b (drop a m)" by (rule take_add)
  then show ?thesis using True by (simp add: num_le_append)
qed simp

lemma num_le_take16: "16 \<le> length m \<Longrightarrow>
  num_le (take 16 m) = unat (get32 m 0) + 2 ^ 32 * unat (get32 m 4) + 2 ^ 64 * unat (get32 m 8) + 2 ^ 96 * unat (get32 m 12)"
  using num_le_take_add [of 4 12 m] num_le_take_add [of 4 8 "drop 4 m"] num_le_take_add [of 4 4 "drop 8 m"]
  by (simp add: unat_get32)

end
