(* ===== verification/KChaCha.thy ===== *)
theory KChaCha
  imports KWords
begin

text \<open>
  The ChaCha20 stream cipher of \<^verbatim>\<open>kernel/crypto/chacha20poly1305.cpp\<close>: the quarter round, the
  twenty rounds of a block, and the encryption of a buffer block by block with a running counter.
  The lemmas show that the keystream block has 64 bytes, that the cipher is its own inverse, and
  that encrypting from the middle of a message needs only the counter of that block.
\<close>

section \<open>A block of the keystream\<close>

definition rotl32 :: "u32 \<Rightarrow> nat \<Rightarrow> u32" where
  "rotl32 v c = push_bit c v OR drop_bit (32 - c) v"

definition chacha20_quarter :: "u32 \<Rightarrow> u32 \<Rightarrow> u32 \<Rightarrow> u32 \<Rightarrow> u32 \<times> u32 \<times> u32 \<times> u32" where
  "chacha20_quarter a b c d =
     (let a = a + b; d = d XOR a; d = rotl32 d 16;
          c = c + d; b = b XOR c; b = rotl32 b 12;
          a = a + b; d = d XOR a; d = rotl32 d 8;
          c = c + d; b = b XOR c; b = rotl32 b 7
      in (a, b, c, d))"

definition quarter_at :: "nat \<Rightarrow> nat \<Rightarrow> nat \<Rightarrow> nat \<Rightarrow> u32 list \<Rightarrow> u32 list" where
  "quarter_at i j k l x =
     (let (a, b, c, d) = chacha20_quarter (x ! i) (x ! j) (x ! k) (x ! l)
      in x[i := a, j := b, k := c, l := d])"

definition chacha20_rounds :: "u32 list \<Rightarrow> u32 list" where
  "chacha20_rounds x =
     (let x = quarter_at 0 4 8 12 x;
          x = quarter_at 1 5 9 13 x;
          x = quarter_at 2 6 10 14 x;
          x = quarter_at 3 7 11 15 x;
          x = quarter_at 0 5 10 15 x;
          x = quarter_at 1 6 11 12 x;
          x = quarter_at 2 7 8 13 x
      in quarter_at 3 4 9 14 x)"

definition chacha20_block :: "u32 list \<Rightarrow> u32 list" where
  "chacha20_block inp = (let x = (chacha20_rounds ^^ 10) inp in map2 (+) x inp)"

definition chacha20_init_state :: "u8 list \<Rightarrow> u8 list \<Rightarrow> u32 \<Rightarrow> u32 list" where
  "chacha20_init_state key nonce counter =
     [0x61707865, 0x3320646e, 0x79622d32, 0x6b206574] @ map (\<lambda>i. get32 key (i * 4)) [0..<8] @
     [counter, get32 nonce 0, get32 nonce 4, get32 nonce 8]"

definition keystream :: "u8 list \<Rightarrow> u8 list \<Rightarrow> u32 \<Rightarrow> u8 list" where
  "keystream key nonce counter = concat (map le32 (chacha20_block (chacha20_init_state key nonce counter)))"

section \<open>Encrypting a buffer\<close>

fun chacha20_xor :: "u8 list \<Rightarrow> u8 list \<Rightarrow> u8 list \<Rightarrow> u32 \<Rightarrow> u8 list" where
  "chacha20_xor inp key nonce counter =
     (if inp = [] then []
      else map2 (XOR) (take 64 inp) (keystream key nonce counter) @
           chacha20_xor (drop 64 inp) key nonce (counter + 1))"

declare chacha20_xor.simps [simp del]

section \<open>The keystream\<close>

lemma length_quarter_at [simp]: "length (quarter_at i j k l x) = length x"
  by (simp add: quarter_at_def split: prod.split)

lemma length_rounds [simp]: "length (chacha20_rounds x) = length x"
  by (simp add: chacha20_rounds_def Let_def)

lemma length_block [simp]: "length (chacha20_block x) = length x"
proof -
  have "length ((chacha20_rounds ^^ n) x) = length x" for n by (induction n) simp_all
  then show ?thesis by (simp add: chacha20_block_def)
qed

lemma length_concat_le32: "length (concat (map le32 ws)) = 4 * length ws"
  by (induction ws) simp_all

lemma length_keystream [simp]: "length (keystream key nonce counter) = 64"
  by (simp add: keystream_def length_concat_le32 chacha20_init_state_def)

lemma keystream_ne [simp]: "keystream key nonce counter \<noteq> []"
  using length_keystream [of key nonce counter] by (metis list.size(3) zero_neq_numeral)

text \<open>The quarter round of the standard's worked example (RFC 8439, section 2.1.1).\<close>

lemma chacha20_quarter_example:
  "chacha20_quarter 0x11111111 0x01020304 0x9b8d6f43 0x01234567 = (0xea2a92f4, 0xcb1cf8ce, 0x4581472e, 0x5881c4bb)"
  by (simp add: chacha20_quarter_def rotl32_def Let_def)

section \<open>The cipher\<close>

lemma chacha20_xor_nil [simp]: "chacha20_xor [] key nonce counter = []"
  by (simp add: chacha20_xor.simps)

lemma map2_xor_twice:
  "length a \<le> length b \<Longrightarrow> map2 (XOR) (map2 (XOR) a b) b = (a :: u8 list)"
  by (rule nth_equalityI) (simp_all add: xor.assoc)

lemma length_chacha20_xor [simp]: "length (chacha20_xor inp key nonce counter) = length inp"
proof (induction inp key nonce counter rule: chacha20_xor.induct)
  case (1 inp key nonce counter)
  then show ?case by (cases "inp = []") (simp_all add: chacha20_xor.simps [of inp])
qed

lemma chacha20_xor_append:
  "length a = 64 * n \<Longrightarrow>
   chacha20_xor (a @ b) key nonce counter =
   chacha20_xor a key nonce counter @ chacha20_xor b key nonce (counter + of_nat n)"
proof (induction n arbitrary: a counter)
  case (Suc n)
  have "length (drop 64 a) = 64 * n" using Suc.prems by simp
  from Suc.IH [OF this] Suc.prems show ?case
    by (subst (1 2) chacha20_xor.simps) (auto simp: algebra_simps)
qed simp

lemma chacha20_xor_twice: "chacha20_xor (chacha20_xor inp key nonce counter) key nonce counter = inp"
proof (induction inp key nonce counter rule: chacha20_xor.induct)
  case (1 inp key nonce counter)
  show ?case
  proof (cases "length inp \<le> 64")
    case True
    then show ?thesis
      by (cases "inp = []") (simp_all add: chacha20_xor.simps [of inp] chacha20_xor.simps [of "map2 _ _ _"] map2_xor_twice)
  next
    case False
    let ?a = "map2 (XOR) (take 64 inp) (keystream key nonce counter)"
    have l: "length ?a = 64 * 1" using False by simp
    have a: "chacha20_xor ?a key nonce counter = take 64 inp"
      using False l by (subst chacha20_xor.simps) (auto simp: map2_xor_twice)
    have "chacha20_xor inp key nonce counter = ?a @ chacha20_xor (drop 64 inp) key nonce (counter + 1)"
      using False by (subst chacha20_xor.simps) auto
    moreover have "inp \<noteq> []" using False by auto
    ultimately show ?thesis using 1 a by (simp only: chacha20_xor_append [OF l]) simp
  qed
qed

lemma chacha20_xor_nth:
  "i < length inp \<Longrightarrow>
   chacha20_xor inp key nonce counter ! i =
   inp ! i XOR keystream key nonce (counter + of_nat (i div 64)) ! (i mod 64)"
proof (induction inp key nonce counter arbitrary: i rule: chacha20_xor.induct)
  case (1 inp key nonce counter)
  then have ne: "inp \<noteq> []" by auto
  show ?case
  proof (cases "i < 64")
    case True
    then show ?thesis using 1 ne by (subst chacha20_xor.simps) (simp add: nth_append)
  next
    case False
    then have d: "i div 64 = Suc ((i - 64) div 64)" "i mod 64 = (i - 64) mod 64"
      by (simp_all add: le_div_geq le_mod_geq)
    have "chacha20_xor inp key nonce counter ! i = chacha20_xor (drop 64 inp) key nonce (counter + 1) ! (i - 64)"
      using False 1 ne by (subst chacha20_xor.simps) (simp add: nth_append)
    then show ?thesis using 1 ne False d by (simp add: algebra_simps)
  qed
qed

end
