(* ===== verification/KPoly1305.thy ===== *)
theory KPoly1305
  imports KWords
begin

text \<open>
  The Poly1305 authenticator of \<^verbatim>\<open>kernel/crypto/chacha20poly1305.cpp\<close>: numbers modulo
  $2^{130} - 5$ in five limbs of 26 bits, with the products accumulated in 64-bit words and the
  carries propagated once per block. The lemmas show that no word overflows and that the routine
  computes the polynomial of the standard.
\<close>

section \<open>The routine\<close>

type_synonym limbs = "u32 \<times> u32 \<times> u32 \<times> u32 \<times> u32"

record poly1305_state =
  pr :: limbs
  ph :: limbs
  ppad :: "u32 \<times> u32 \<times> u32 \<times> u32"

text \<open>The body of the loop of \<^verbatim>\<open>poly1305_blocks\<close> in its three parts: the block is added to the
  accumulator, the product with the key is formed, and the carries are propagated.\<close>

definition poly_add :: "limbs \<Rightarrow> u8 list \<Rightarrow> u32 \<Rightarrow> limbs" where
  "poly_add h m hibit =
     (let (h0, h1, h2, h3, h4) = h;
          t0 = get32 m 0; t1 = get32 m 4; t2 = get32 m 8; t3 = get32 m 12
      in (h0 + (t0 AND 0x3ffffff),
          h1 + ((drop_bit 26 t0 OR push_bit 6 t1) AND 0x3ffffff),
          h2 + ((drop_bit 20 t1 OR push_bit 12 t2) AND 0x3ffffff),
          h3 + ((drop_bit 14 t2 OR push_bit 18 t3) AND 0x3ffffff),
          h4 + (drop_bit 8 t3 OR hibit)))"

definition poly_mul :: "limbs \<Rightarrow> limbs \<Rightarrow> u64 \<times> u64 \<times> u64 \<times> u64 \<times> u64" where
  "poly_mul r h =
     (let (r0, r1, r2, r3, r4) = r; (h0, h1, h2, h3, h4) = h;
          s1 = r1 * 5; s2 = r2 * 5; s3 = r3 * 5; s4 = r4 * 5
      in (ucast h0 * ucast r0 + ucast h1 * ucast s4 + ucast h2 * ucast s3 + ucast h3 * ucast s2 + ucast h4 * ucast s1,
          ucast h0 * ucast r1 + ucast h1 * ucast r0 + ucast h2 * ucast s4 + ucast h3 * ucast s3 + ucast h4 * ucast s2,
          ucast h0 * ucast r2 + ucast h1 * ucast r1 + ucast h2 * ucast r0 + ucast h3 * ucast s4 + ucast h4 * ucast s3,
          ucast h0 * ucast r3 + ucast h1 * ucast r2 + ucast h2 * ucast r1 + ucast h3 * ucast r0 + ucast h4 * ucast s4,
          ucast h0 * ucast r4 + ucast h1 * ucast r3 + ucast h2 * ucast r2 + ucast h3 * ucast r1 + ucast h4 * ucast r0))"

definition poly_carry :: "u64 \<times> u64 \<times> u64 \<times> u64 \<times> u64 \<Rightarrow> limbs" where
  "poly_carry d =
     (let (d0, d1, d2, d3, d4) = d;
          c = (ucast (drop_bit 26 d0) :: u32); h0 = ucast d0 AND 0x3ffffff;
          d1 = d1 + ucast c; c = (ucast (drop_bit 26 d1) :: u32); h1 = ucast d1 AND 0x3ffffff;
          d2 = d2 + ucast c; c = (ucast (drop_bit 26 d2) :: u32); h2 = ucast d2 AND 0x3ffffff;
          d3 = d3 + ucast c; c = (ucast (drop_bit 26 d3) :: u32); h3 = ucast d3 AND 0x3ffffff;
          d4 = d4 + ucast c; c = (ucast (drop_bit 26 d4) :: u32); h4 = ucast d4 AND 0x3ffffff;
          h0 = h0 + c * 5; c = drop_bit 26 h0; h0 = h0 AND 0x3ffffff; h1 = h1 + c
      in (h0, h1, h2, h3, h4))"

fun poly_loop :: "limbs \<Rightarrow> limbs \<Rightarrow> u8 list \<Rightarrow> u32 \<Rightarrow> limbs" where
  "poly_loop r h m hibit =
     (if 16 \<le> length m then poly_loop r (poly_carry (poly_mul r (poly_add h m hibit))) (drop 16 m) hibit else h)"

declare poly_loop.simps [simp del]

definition poly1305_blocks :: "poly1305_state \<Rightarrow> u8 list \<Rightarrow> u32 \<Rightarrow> poly1305_state" where
  "poly1305_blocks st m hibit = st\<lparr>ph := poly_loop (pr st) (ph st) m hibit\<rparr>"

definition poly1305_init :: "u8 list \<Rightarrow> poly1305_state" where
  "poly1305_init key =
     (let t0 = get32 key 0; t1 = get32 key 4; t2 = get32 key 8; t3 = get32 key 12
      in \<lparr>pr = (t0 AND 0x3ffffff,
               (drop_bit 26 t0 OR push_bit 6 t1) AND 0x3ffff03,
               (drop_bit 20 t1 OR push_bit 12 t2) AND 0x3ffc0ff,
               (drop_bit 14 t2 OR push_bit 18 t3) AND 0x3f03fff,
               drop_bit 8 t3 AND 0x00fffff),
          ph = (0, 0, 0, 0, 0),
          ppad = (get32 key 16, get32 key 20, get32 key 24, get32 key 28)\<rparr>)"

text \<open>The parts of \<^verbatim>\<open>poly1305_finish\<close>: the last carries, the final subtraction of the modulus,
  the repacking into 32-bit words, and the addition of the second half of the key.\<close>

definition finish_carry :: "limbs \<Rightarrow> limbs" where
  "finish_carry h =
     (let (h0, h1, h2, h3, h4) = h;
          c = drop_bit 26 h1; h1 = h1 AND 0x3ffffff;
          h2 = h2 + c; c = drop_bit 26 h2; h2 = h2 AND 0x3ffffff;
          h3 = h3 + c; c = drop_bit 26 h3; h3 = h3 AND 0x3ffffff;
          h4 = h4 + c; c = drop_bit 26 h4; h4 = h4 AND 0x3ffffff;
          h0 = h0 + c * 5; c = drop_bit 26 h0; h0 = h0 AND 0x3ffffff; h1 = h1 + c
      in (h0, h1, h2, h3, h4))"

definition finish_select :: "limbs \<Rightarrow> limbs" where
  "finish_select h =
     (let (h0, h1, h2, h3, h4) = h;
          g0 = h0 + 5; c = drop_bit 26 g0; g0 = g0 AND 0x3ffffff;
          g1 = h1 + c; c = drop_bit 26 g1; g1 = g1 AND 0x3ffffff;
          g2 = h2 + c; c = drop_bit 26 g2; g2 = g2 AND 0x3ffffff;
          g3 = h3 + c; c = drop_bit 26 g3; g3 = g3 AND 0x3ffffff;
          g4 = h4 + c - push_bit 26 1;
          mask = drop_bit 31 g4 - 1;
          g0 = g0 AND mask; g1 = g1 AND mask; g2 = g2 AND mask; g3 = g3 AND mask; g4 = g4 AND mask;
          mask = NOT mask
      in (h0 AND mask OR g0, h1 AND mask OR g1, h2 AND mask OR g2, h3 AND mask OR g3, h4 AND mask OR g4))"

definition finish_pack :: "limbs \<Rightarrow> u32 \<times> u32 \<times> u32 \<times> u32" where
  "finish_pack h =
     (let (h0, h1, h2, h3, h4) = h
      in ((h0 OR push_bit 26 h1) AND 0xffffffff,
          (drop_bit 6 h1 OR push_bit 20 h2) AND 0xffffffff,
          (drop_bit 12 h2 OR push_bit 14 h3) AND 0xffffffff,
          (drop_bit 18 h3 OR push_bit 8 h4) AND 0xffffffff))"

definition finish_add :: "u32 \<times> u32 \<times> u32 \<times> u32 \<Rightarrow> u32 \<times> u32 \<times> u32 \<times> u32 \<Rightarrow> u8 list" where
  "finish_add h pad =
     (let (h0, h1, h2, h3) = h; (p0, p1, p2, p3) = pad;
          f = (ucast h0 + ucast p0 :: u64); h0 = ucast f;
          f = ucast h1 + ucast p1 + drop_bit 32 f; h1 = ucast f;
          f = ucast h2 + ucast p2 + drop_bit 32 f; h2 = ucast f;
          f = ucast h3 + ucast p3 + drop_bit 32 f; h3 = ucast f
      in le32 h0 @ le32 h1 @ le32 h2 @ le32 h3)"

definition poly1305_finish :: "poly1305_state \<Rightarrow> u8 list" where
  "poly1305_finish st = finish_add (finish_pack (finish_select (finish_carry (ph st)))) (ppad st)"

fun poly1305_feed :: "poly1305_state \<Rightarrow> u8 list \<Rightarrow> poly1305_state" where
  "poly1305_feed st msg =
     (if 16 \<le> length msg then poly1305_feed (poly1305_blocks st (take 16 msg) (push_bit 24 1)) (drop 16 msg)
      else if msg \<noteq> [] then poly1305_blocks st (msg @ 1 # replicate (15 - length msg) 0) 0
      else st)"

declare poly1305_feed.simps [simp del]

definition poly1305 :: "u8 list \<Rightarrow> u8 list \<Rightarrow> u8 list" where
  "poly1305 msg key = poly1305_finish (poly1305_feed (poly1305_init key) msg)"

section \<open>The standard\<close>

text \<open>The tag as RFC 8439 defines it: the message in blocks of 16 bytes, each read as a number with
  a one byte appended, evaluated as a polynomial at the clamped first half of the key.\<close>

definition poly_prime :: nat where
  "poly_prime = 2 ^ 130 - 5"

definition clamp :: "nat \<Rightarrow> nat" where
  "clamp r = r AND 0x0ffffffc0ffffffc0ffffffc0fffffff"

fun poly_eval :: "nat \<Rightarrow> nat \<Rightarrow> u8 list \<Rightarrow> nat" where
  "poly_eval r acc msg =
     (if msg = [] then acc
      else poly_eval r ((acc + num_le (take 16 msg @ [1])) * r mod poly_prime) (drop 16 msg))"

declare poly_eval.simps [simp del]

definition poly1305_ref :: "u8 list \<Rightarrow> u8 list \<Rightarrow> nat" where
  "poly1305_ref msg key =
     (poly_eval (clamp (num_le (take 16 key))) 0 msg + num_le (take 16 (drop 16 key))) mod 2 ^ 128"

section \<open>Limbs as numbers\<close>

fun limbs_val :: "limbs \<Rightarrow> nat" where
  "limbs_val (h0, h1, h2, h3, h4) =
     unat h0 + 2 ^ 26 * unat h1 + 2 ^ 52 * unat h2 + 2 ^ 78 * unat h3 + 2 ^ 104 * unat h4"

fun limbs_ok :: "limbs \<Rightarrow> bool" where
  "limbs_ok (h0, h1, h2, h3, h4) \<longleftrightarrow>
     unat h0 < 2 ^ 26 \<and> unat h1 < 2 ^ 26 + 64 \<and> unat h2 < 2 ^ 26 \<and> unat h3 < 2 ^ 26 \<and> unat h4 < 2 ^ 26"

fun limbs_red :: "limbs \<Rightarrow> bool" where
  "limbs_red (h0, h1, h2, h3, h4) \<longleftrightarrow>
     unat h0 < 2 ^ 26 \<and> unat h1 < 2 ^ 26 \<and> unat h2 < 2 ^ 26 \<and> unat h3 < 2 ^ 26 \<and> unat h4 < 2 ^ 26"

lemma mask26: "unat (w AND 0x3ffffff :: u32) = unat w mod 2 ^ 26"
  using unat_and_mask [of w 26] by (simp add: mask_eq_exp_minus_1)

lemma unat_or_shl: "unat a < 2 ^ k \<Longrightarrow> k \<le> 32 \<Longrightarrow> unat (a OR push_bit k b :: u32) = unat a + 2 ^ k * (unat b mod 2 ^ (32 - k))"
proof -
  assume a: "unat a < 2 ^ k" and k: "k \<le> 32"
  have "(unat b * 2 ^ k) mod 2 ^ 32 = 2 ^ k * (unat b mod 2 ^ (32 - k))"
  proof -
    have "(2::nat) ^ 32 = 2 ^ k * 2 ^ (32 - k)" using k by (simp flip: power_add)
    then show ?thesis by (simp only: mult.commute [of "unat b"] mult_mod_right)
  qed
  then have b: "unat (push_bit k b) = 2 ^ k * (unat b mod 2 ^ (32 - k))" using unat_shl [of k b] by simp
  then show ?thesis using unat_or_disjoint [of a k "push_bit k b"] a by simp
qed

lemma limb_join:
  assumes "k \<le> 26"
  shows "unat ((drop_bit (32 - k) a OR push_bit k b) AND 0x3ffffff :: u32) = unat a div 2 ^ (32 - k) + 2 ^ k * (unat b mod 2 ^ (26 - k))"
proof -
  have a: "unat a div 2 ^ (32 - k) < 2 ^ k"
    using unat_lt32 [of a] assms by (simp add: less_mult_imp_div_less flip: power_add)
  have p: "(2::nat) ^ 26 = 2 ^ k * 2 ^ (26 - k)" using assms by (simp flip: power_add)
  have q: "(2::nat) ^ (26 - k) dvd 2 ^ (32 - k)" by (rule le_imp_power_dvd) simp
  have "(x + 2 ^ k * y) mod 2 ^ 26 = x + 2 ^ k * (y mod 2 ^ (26 - k))" if "x < 2 ^ k" for x y :: nat
  proof -
    have "(x + 2 ^ k * y) mod 2 ^ 26 = 2 ^ k * ((x + 2 ^ k * y) div 2 ^ k mod 2 ^ (26 - k)) + (x + 2 ^ k * y) mod 2 ^ k"
      unfolding p by (rule mod_mult2_eq)
    then show ?thesis using that by simp
  qed
  then show ?thesis
    using a assms q by (simp add: mask26 unat_or_shl unat_shr mod_mod_cancel)
qed

section \<open>Adding a block\<close>

definition hibit_ok :: "u32 \<Rightarrow> bool" where
  "hibit_ok hb \<longleftrightarrow> hb = 0 \<or> hb = push_bit 24 1"

lemma hibit_val: "hibit_ok hb \<Longrightarrow> unat (drop_bit 8 t OR hb :: u32) = unat t div 2 ^ 8 + unat hb \<and> unat hb \<le> 2 ^ 24"
  using unat_or_disjoint [of "drop_bit 8 t" 24 hb] unat_lt32 [of t]
  by (auto simp: hibit_ok_def unat_shr less_mult_imp_div_less)

lemma split_digits:
  fixes t0 t1 t2 t3 :: nat
  shows "t0 + 2 ^ 32 * t1 + 2 ^ 64 * t2 + 2 ^ 96 * t3 =
    t0 mod 2 ^ 26 + 2 ^ 26 * (t0 div 2 ^ 26 + 2 ^ 6 * (t1 mod 2 ^ 20)) + 2 ^ 52 * (t1 div 2 ^ 20 + 2 ^ 12 * (t2 mod 2 ^ 14)) +
    2 ^ 78 * (t2 div 2 ^ 14 + 2 ^ 18 * (t3 mod 2 ^ 8)) + 2 ^ 104 * (t3 div 2 ^ 8)"
proof -
  have "a + 2 ^ 32 * b + 2 ^ 64 * c + 2 ^ 96 * d =
    a0 + 2 ^ 26 * (a1 + 2 ^ 6 * b0) + 2 ^ 52 * (b1 + 2 ^ 12 * c0) + 2 ^ 78 * (c1 + 2 ^ 18 * d0) + 2 ^ 104 * d1"
    if "a1 * 2 ^ 26 + a0 = a" "b1 * 2 ^ 20 + b0 = b" "c1 * 2 ^ 14 + c0 = c" "d1 * 2 ^ 8 + d0 = d"
    for a b c d a0 a1 b0 b1 c0 c1 d0 d1 :: nat
    using that by simp
  from this [OF div_mult_mod_eq div_mult_mod_eq div_mult_mod_eq div_mult_mod_eq] show ?thesis .
qed

definition block_limbs :: "u8 list \<Rightarrow> u32 \<Rightarrow> limbs" where
  "block_limbs m hb =
     (get32 m 0 AND 0x3ffffff, (drop_bit 26 (get32 m 0) OR push_bit 6 (get32 m 4)) AND 0x3ffffff,
      (drop_bit 20 (get32 m 4) OR push_bit 12 (get32 m 8)) AND 0x3ffffff,
      (drop_bit 14 (get32 m 8) OR push_bit 18 (get32 m 12)) AND 0x3ffffff, drop_bit 8 (get32 m 12) OR hb)"

lemma block_limbs_val:
  assumes "16 \<le> length m" "hibit_ok hb"
  shows "limbs_val (block_limbs m hb) = num_le (take 16 m) + 2 ^ 104 * unat hb"
proof -
  have j: "unat ((drop_bit 26 (get32 m 0) OR push_bit 6 (get32 m 4)) AND 0x3ffffff) = unat (get32 m 0) div 2 ^ 26 + 2 ^ 6 * (unat (get32 m 4) mod 2 ^ 20)"
    "unat ((drop_bit 20 (get32 m 4) OR push_bit 12 (get32 m 8)) AND 0x3ffffff) = unat (get32 m 4) div 2 ^ 20 + 2 ^ 12 * (unat (get32 m 8) mod 2 ^ 14)"
    "unat ((drop_bit 14 (get32 m 8) OR push_bit 18 (get32 m 12)) AND 0x3ffffff) = unat (get32 m 8) div 2 ^ 14 + 2 ^ 18 * (unat (get32 m 12) mod 2 ^ 8)"
    using limb_join [of 6 "get32 m 0" "get32 m 4"] limb_join [of 12 "get32 m 4" "get32 m 8"] limb_join [of 18 "get32 m 8" "get32 m 12"] by simp_all
  show ?thesis
    unfolding block_limbs_def limbs_val.simps j unfolding mask26 num_le_take16 [OF assms(1)] split_digits conjunct1 [OF hibit_val [OF assms(2)]]
    by (simp only: distrib_left add.assoc)
qed

lemma block_limbs_less:
  assumes "hibit_ok hb"
  shows "limbs_red (block_limbs m hb)"
proof -
  have "unat (get32 m 12) div 2 ^ 8 < 2 ^ 24"
    using unat_lt32 [of "get32 m 12"] by (simp add: less_mult_imp_div_less)
  then show ?thesis using hibit_val [OF assms, of "get32 m 12"] by (simp add: block_limbs_def mask26)
qed

lemma poly_add_eq: "poly_add (h0, h1, h2, h3, h4) m hb =
  (case block_limbs m hb of (b0, b1, b2, b3, b4) \<Rightarrow> (h0 + b0, h1 + b1, h2 + b2, h3 + b3, h4 + b4))"
  by (simp add: poly_add_def block_limbs_def Let_def)

fun limbs_wide :: "limbs \<Rightarrow> bool" where
  "limbs_wide (h0, h1, h2, h3, h4) \<longleftrightarrow>
     unat h0 \<le> 2 ^ 27 + 64 \<and> unat h1 \<le> 2 ^ 27 + 64 \<and> unat h2 \<le> 2 ^ 27 + 64 \<and> unat h3 \<le> 2 ^ 27 + 64 \<and> unat h4 \<le> 2 ^ 27 + 64"

lemma poly_add_val:
  assumes "limbs_ok h" "16 \<le> length m" "hibit_ok hb"
  shows "limbs_val (poly_add h m hb) = limbs_val h + num_le (take 16 m) + 2 ^ 104 * unat hb \<and> limbs_wide (poly_add h m hb)"
proof -
  obtain h0 h1 h2 h3 h4 where h: "h = (h0, h1, h2, h3, h4)" by (cases h) auto
  obtain b0 b1 b2 b3 b4 where b: "block_limbs m hb = (b0, b1, b2, b3, b4)" by (cases "block_limbs m hb") auto
  have l: "unat b0 < 2 ^ 26" "unat b1 < 2 ^ 26" "unat b2 < 2 ^ 26" "unat b3 < 2 ^ 26" "unat b4 < 2 ^ 26"
    using block_limbs_less [OF assms(3), of m] by (simp_all add: b)
  have o: "unat h0 < 2 ^ 26" "unat h1 < 2 ^ 26 + 64" "unat h2 < 2 ^ 26" "unat h3 < 2 ^ 26" "unat h4 < 2 ^ 26"
    using assms(1) by (simp_all add: h)
  have s: "unat (h0 + b0) = unat h0 + unat b0" "unat (h1 + b1) = unat h1 + unat b1" "unat (h2 + b2) = unat h2 + unat b2"
    "unat (h3 + b3) = unat h3 + unat b3" "unat (h4 + b4) = unat h4 + unat b4"
    using l o by (simp_all add: unat_add)
  show ?thesis
    using block_limbs_val [OF assms(2,3)] l o by (simp add: h poly_add_eq b s distrib_left)
qed

section \<open>The product\<close>

lemma dot5:
  fixes h0 h1 h2 h3 h4 r0 r1 r2 r3 r4 :: u32
  assumes h: "unat h0 \<le> H" "unat h1 \<le> H" "unat h2 \<le> H" "unat h3 \<le> H" "unat h4 \<le> H"
    and r: "unat r0 \<le> R0" "unat r1 \<le> R1" "unat r2 \<le> R2" "unat r3 \<le> R3" "unat r4 \<le> R4"
    and b: "H * (R0 + R1 + R2 + R3 + R4) < 2 ^ 64"
  shows "unat (ucast h0 * ucast r0 + ucast h1 * ucast r1 + ucast h2 * ucast r2 + ucast h3 * ucast r3 + ucast h4 * ucast r4 :: u64) =
    unat h0 * unat r0 + unat h1 * unat r1 + unat h2 * unat r2 + unat h3 * unat r3 + unat h4 * unat r4"
    (is "?A = ?B") and "unat h0 * unat r0 + unat h1 * unat r1 + unat h2 * unat r2 + unat h3 * unat r3 + unat h4 * unat r4 \<le> H * (R0 + R1 + R2 + R3 + R4)"
proof -
  have p: "unat h0 * unat r0 \<le> H * R0" "unat h1 * unat r1 \<le> H * R1" "unat h2 * unat r2 \<le> H * R2" "unat h3 * unat r3 \<le> H * R3" "unat h4 * unat r4 \<le> H * R4"
    using h r by (simp_all add: mult_le_mono)
  then show s: "?B \<le> H * (R0 + R1 + R2 + R3 + R4)" unfolding distrib_left by linarith
  have u: "unat (ucast w :: u64) = unat w" for w :: u32
    using unat_lt32 [of w] by (simp add: unat_ucast)
  have m: "unat (ucast v * ucast w :: u64) = unat v * unat w" if "unat v * unat w < 2 ^ 64" for v w :: u32
    using that by (simp add: unat_mult u)
  have "?B < 2 ^ 64" using s b by linarith
  then show "?A = ?B" by (simp add: unat_add m)
qed

fun prod_val :: "u64 \<times> u64 \<times> u64 \<times> u64 \<times> u64 \<Rightarrow> nat" where
  "prod_val (d0, d1, d2, d3, d4) =
     unat d0 + 2 ^ 26 * unat d1 + 2 ^ 52 * unat d2 + 2 ^ 78 * unat d3 + 2 ^ 104 * unat d4"

fun prod_ok :: "u64 \<times> u64 \<times> u64 \<times> u64 \<times> u64 \<Rightarrow> bool" where
  "prod_ok (d0, d1, d2, d3, d4) \<longleftrightarrow>
     unat d0 < 2 ^ 58 - 2 ^ 32 \<and> unat d1 < 2 ^ 58 - 2 ^ 32 \<and> unat d2 < 2 ^ 58 - 2 ^ 32 \<and>
     unat d3 < 2 ^ 58 - 2 ^ 32 \<and> unat d4 \<le> (2 ^ 27 + 64) * (5 * 2 ^ 26)"

lemma schoolbook:
  fixes B p :: nat
  assumes "B ^ 5 = p + 5"
  shows "\<exists>q. (a0 + B * a1 + B ^ 2 * a2 + B ^ 3 * a3 + B ^ 4 * a4) * (r0 + B * r1 + B ^ 2 * r2 + B ^ 3 * r3 + B ^ 4 * r4) =
    (a0 * r0 + a1 * (r4 * 5) + a2 * (r3 * 5) + a3 * (r2 * 5) + a4 * (r1 * 5)) +
    B * (a0 * r1 + a1 * r0 + a2 * (r4 * 5) + a3 * (r3 * 5) + a4 * (r2 * 5)) +
    B ^ 2 * (a0 * r2 + a1 * r1 + a2 * r0 + a3 * (r4 * 5) + a4 * (r3 * 5)) +
    B ^ 3 * (a0 * r3 + a1 * r2 + a2 * r1 + a3 * r0 + a4 * (r4 * 5)) +
    B ^ 4 * (a0 * r4 + a1 * r3 + a2 * r2 + a3 * r1 + a4 * r0) + p * q"
proof -
  let ?L = "a0 * r0 + B * (a0 * r1 + a1 * r0) + B ^ 2 * (a0 * r2 + a1 * r1 + a2 * r0) +
    B ^ 3 * (a0 * r3 + a1 * r2 + a2 * r1 + a3 * r0) + B ^ 4 * (a0 * r4 + a1 * r3 + a2 * r2 + a3 * r1 + a4 * r0)"
  let ?Q = "(a1 * r4 + a2 * r3 + a3 * r2 + a4 * r1) + B * (a2 * r4 + a3 * r3 + a4 * r2) + B ^ 2 * (a3 * r4 + a4 * r3) + B ^ 3 * (a4 * r4)"
  have "(a0 + B * a1 + B ^ 2 * a2 + B ^ 3 * a3 + B ^ 4 * a4) * (r0 + B * r1 + B ^ 2 * r2 + B ^ 3 * r3 + B ^ 4 * r4) = ?L + B ^ 5 * ?Q"
    by (simp add: algebra_simps power_numeral_reduce)
  also have "\<dots> = (?L + 5 * ?Q) + p * ?Q" unfolding assms by (simp add: algebra_simps)
  finally show ?thesis by (intro exI [of _ ?Q]) (simp add: algebra_simps)
qed

lemma poly_mul_val:
  assumes "limbs_red r" "limbs_wide a"
  shows "(\<exists>q. limbs_val a * limbs_val r = prod_val (poly_mul r a) + poly_prime * q) \<and> prod_ok (poly_mul r a)"
proof -
  obtain r0 r1 r2 r3 r4 where r: "r = (r0, r1, r2, r3, r4)" by (cases r) auto
  obtain a0 a1 a2 a3 a4 where a: "a = (a0, a1, a2, a3, a4)" by (cases a) auto
  let ?H = "2 ^ 27 + 64 :: nat" and ?R = "2 ^ 26 :: nat" and ?S = "5 * 2 ^ 26 :: nat"
  have rb: "unat r0 \<le> ?R" "unat r1 \<le> ?R" "unat r2 \<le> ?R" "unat r3 \<le> ?R" "unat r4 \<le> ?R" using assms(1) by (simp_all add: r)
  have ab: "unat a0 \<le> ?H" "unat a1 \<le> ?H" "unat a2 \<le> ?H" "unat a3 \<le> ?H" "unat a4 \<le> ?H" using assms(2) by (simp_all add: a)
  have s: "unat (r1 * 5) = unat r1 * 5" "unat (r2 * 5) = unat r2 * 5" "unat (r3 * 5) = unat r3 * 5" "unat (r4 * 5) = unat r4 * 5"
    using rb by (simp_all add: unat_mult)
  have sb: "unat (r1 * 5) \<le> ?S" "unat (r2 * 5) \<le> ?S" "unat (r3 * 5) \<le> ?S" "unat (r4 * 5) \<le> ?S" using rb by (simp_all add: s)
  note d0 = dot5 [OF ab rb(1) sb(4) sb(3) sb(2) sb(1)] and d1 = dot5 [OF ab rb(2) rb(1) sb(4) sb(3) sb(2)]
    and d2 = dot5 [OF ab rb(3) rb(2) rb(1) sb(4) sb(3)] and d3 = dot5 [OF ab rb(4) rb(3) rb(2) rb(1) sb(4)]
    and d4 = dot5 [OF ab rb(5) rb(4) rb(3) rb(2) rb(1)]
  have bounds: "?H * (?R + ?S + ?S + ?S + ?S) < 2 ^ 58 - 2 ^ 32" "?H * (?R + ?R + ?S + ?S + ?S) < 2 ^ 58 - 2 ^ 32"
    "?H * (?R + ?R + ?R + ?S + ?S) < 2 ^ 58 - 2 ^ 32" "?H * (?R + ?R + ?R + ?R + ?S) < 2 ^ 58 - 2 ^ 32"
    "?H * (?R + ?R + ?R + ?R + ?R) \<le> (2 ^ 27 + 64) * (5 * 2 ^ 26)"
    and top: "(2::nat) ^ 58 - 2 ^ 32 \<le> 2 ^ 64" "(2 ^ 27 + 64) * (5 * 2 ^ 26) < (2 ^ 64 :: nat)" by simp_all
  have m: "poly_mul r a = (ucast a0 * ucast r0 + ucast a1 * ucast (r4 * 5) + ucast a2 * ucast (r3 * 5) + ucast a3 * ucast (r2 * 5) + ucast a4 * ucast (r1 * 5),
    ucast a0 * ucast r1 + ucast a1 * ucast r0 + ucast a2 * ucast (r4 * 5) + ucast a3 * ucast (r3 * 5) + ucast a4 * ucast (r2 * 5),
    ucast a0 * ucast r2 + ucast a1 * ucast r1 + ucast a2 * ucast r0 + ucast a3 * ucast (r4 * 5) + ucast a4 * ucast (r3 * 5),
    ucast a0 * ucast r3 + ucast a1 * ucast r2 + ucast a2 * ucast r1 + ucast a3 * ucast r0 + ucast a4 * ucast (r4 * 5),
    ucast a0 * ucast r4 + ucast a1 * ucast r3 + ucast a2 * ucast r2 + ucast a3 * ucast r1 + ucast a4 * ucast r0)"
    unfolding poly_mul_def r a Let_def by simp
  note lt = less_le_trans [OF bounds(1) top(1)] less_le_trans [OF bounds(2) top(1)] less_le_trans [OF bounds(3) top(1)]
    less_le_trans [OF bounds(4) top(1)] le_less_trans [OF bounds(5) top(2)]
  have ok: "prod_ok (poly_mul r a)"
    unfolding m prod_ok.simps d0(1) [OF lt(1)] d1(1) [OF lt(2)] d2(1) [OF lt(3)] d3(1) [OF lt(4)] d4(1) [OF lt(5)]
    by (intro conjI le_less_trans [OF d0(2) [OF lt(1)] bounds(1)] le_less_trans [OF d1(2) [OF lt(2)] bounds(2)]
      le_less_trans [OF d2(2) [OF lt(3)] bounds(3)] le_less_trans [OF d3(2) [OF lt(4)] bounds(4)] order_trans [OF d4(2) [OF lt(5)] bounds(5)])
  have "((2::nat) ^ 26) ^ 5 = poly_prime + 5" by (simp add: poly_prime_def)
  from schoolbook [OF this, of "unat a0" "unat a1" "unat a2" "unat a3" "unat a4" "unat r0" "unat r1" "unat r2" "unat r3" "unat r4"]
  have "\<exists>q. limbs_val a * limbs_val r = prod_val (poly_mul r a) + poly_prime * q"
    unfolding m prod_val.simps d0(1) [OF lt(1)] d1(1) [OF lt(2)] d2(1) [OF lt(3)] d3(1) [OF lt(4)] d4(1) [OF lt(5)] s
    by (simp add: r a flip: power_mult)
  then show ?thesis using ok by blast
qed

section \<open>The carries\<close>

lemma carry_digit:
  assumes "unat (d :: u64) < 2 ^ 58"
  shows "unat (ucast d AND 0x3ffffff :: u32) + 2 ^ 26 * unat (ucast (drop_bit 26 d) :: u32) = unat d"
    and "unat (ucast (drop_bit 26 d) :: u32) = unat d div 2 ^ 26" and "unat (ucast d AND 0x3ffffff :: u32) < 2 ^ 26"
proof -
  have m: "unat (ucast d AND 0x3ffffff :: u32) = unat d mod 2 ^ 26"
    unfolding mask26 unat_ucast by (simp add: mod_mod_cancel)
  show c: "unat (ucast (drop_bit 26 d) :: u32) = unat d div 2 ^ 26"
    using assms by (simp add: unat_ucast unat_shr less_mult_imp_div_less)
  show "unat (ucast d AND 0x3ffffff :: u32) + 2 ^ 26 * unat (ucast (drop_bit 26 d) :: u32) = unat d"
    unfolding m c by (rule mod_mult_div_eq)
  show "unat (ucast d AND 0x3ffffff :: u32) < 2 ^ 26" unfolding m by simp
qed

lemma carry_add:
  assumes "unat (d :: u64) < 2 ^ 58 - 2 ^ 32"
  shows "unat (d + ucast (c :: u32)) = unat d + unat c" and "unat (d + ucast c) < 2 ^ 58"
proof -
  have c: "unat c < 2 ^ 32" by (rule unat_lt32)
  then have u: "unat (ucast c :: u64) = unat c" by (simp add: unat_ucast)
  show e: "unat (d + ucast c) = unat d + unat c" using c assms by (subst unat_add) (simp_all add: u)
  show "unat (d + ucast c) < 2 ^ 58" unfolding e using c assms by simp
qed

lemma limb_fold:
  fixes h0 h1 c :: u32
  assumes "unat h0 < 2 ^ 26" "unat h1 < 2 ^ 26" "unat c < 2 ^ 32 div 5 - 2 ^ 26"
  shows "unat ((h0 + c * 5) AND 0x3ffffff) + 2 ^ 26 * unat (h1 + drop_bit 26 (h0 + c * 5)) = unat h0 + 5 * unat c + 2 ^ 26 * unat h1"
    and "unat ((h0 + c * 5) AND 0x3ffffff) < 2 ^ 26" and "unat (h1 + drop_bit 26 (h0 + c * 5)) < 2 ^ 26 + 64"
proof -
  have "unat (c * 5) = unat c * 5" using assms(3) by (simp add: unat_mult)
  then have s: "unat (h0 + c * 5) = unat h0 + 5 * unat c" using assms by (simp add: unat_add)
  have l: "unat (h0 + c * 5) div 2 ^ 26 < 64" using unat_lt32 [of "h0 + c * 5"] by (simp add: less_mult_imp_div_less)
  have t: "unat (h1 + drop_bit 26 (h0 + c * 5)) = unat h1 + unat (h0 + c * 5) div 2 ^ 26"
    using l assms(2) by (subst unat_add) (simp_all add: unat_shr)
  show "unat ((h0 + c * 5) AND 0x3ffffff) < 2 ^ 26" by (simp add: mask26)
  show "unat (h1 + drop_bit 26 (h0 + c * 5)) < 2 ^ 26 + 64" unfolding t using l assms(2) by linarith
  have "unat (h0 + c * 5) mod 2 ^ 26 + 2 ^ 26 * (unat (h0 + c * 5) div 2 ^ 26) = unat (h0 + c * 5)" by (rule mod_mult_div_eq)
  then show "unat ((h0 + c * 5) AND 0x3ffffff) + 2 ^ 26 * unat (h1 + drop_bit 26 (h0 + c * 5)) = unat h0 + 5 * unat c + 2 ^ 26 * unat h1"
    unfolding t mask26 distrib_left s by linarith
qed

lemma carry_chain:
  fixes B p :: nat
  assumes "e0 + B * c0 = d0" "e1 + B * c1 = d1 + c0" "e2 + B * c2 = d2 + c1" "e3 + B * c3 = d3 + c2" "e4 + B * c4 = d4 + c3"
    and "f0 + B * f1 = e0 + 5 * c4 + B * e1" "B ^ 5 = p + 5"
  shows "d0 + B * d1 + B ^ 2 * d2 + B ^ 3 * d3 + B ^ 4 * d4 = (f0 + B * f1 + B ^ 2 * e2 + B ^ 3 * e3 + B ^ 4 * e4) + p * c4"
proof -
  have "(d0 + B * d1 + B ^ 2 * d2 + B ^ 3 * d3 + B ^ 4 * d4) + (B * c0 + B ^ 2 * c1 + B ^ 3 * c2 + B ^ 4 * c3) =
    d0 + B * (d1 + c0) + B ^ 2 * (d2 + c1) + B ^ 3 * (d3 + c2) + B ^ 4 * (d4 + c3)" by (simp add: algebra_simps)
  also have "\<dots> = (e0 + 5 * c4 + B * e1) + B ^ 2 * e2 + B ^ 3 * e3 + B ^ 4 * e4 + p * c4 + (B * c0 + B ^ 2 * c1 + B ^ 3 * c2 + B ^ 4 * c3)"
  proof -
    have "B ^ 5 * c4 = p * c4 + 5 * c4" unfolding assms(7) by (simp add: algebra_simps)
    then show ?thesis unfolding assms(1-5) [symmetric] by (simp add: algebra_simps power_numeral_reduce)
  qed
  finally show ?thesis unfolding assms(6) [symmetric] by simp
qed

lemma base26: "((2::nat) ^ 26) ^ 5 = poly_prime + 5"
  by (simp add: poly_prime_def)

lemma poly_carry_val:
  assumes "prod_ok d"
  shows "(\<exists>q. prod_val d = limbs_val (poly_carry d) + poly_prime * q) \<and> limbs_ok (poly_carry d)"
proof -
  obtain d0 d1 d2 d3 d4 where d: "d = (d0, d1, d2, d3, d4)" by (cases d) auto
  have b: "unat d0 < 2 ^ 58 - 2 ^ 32" "unat d1 < 2 ^ 58 - 2 ^ 32" "unat d2 < 2 ^ 58 - 2 ^ 32" "unat d3 < 2 ^ 58 - 2 ^ 32"
    "unat d4 \<le> (2 ^ 27 + 64) * (5 * 2 ^ 26)" using assms by (simp_all add: d)
  then have b0: "unat d0 < 2 ^ 58" and b4: "unat d4 < 2 ^ 58 - 2 ^ 32" by simp_all
  define c0 e0 where "c0 = (ucast (drop_bit 26 d0) :: u32)" and "e0 = (ucast d0 AND 0x3ffffff :: u32)"
  define c1 e1 where "c1 = (ucast (drop_bit 26 (d1 + ucast c0)) :: u32)" and "e1 = (ucast (d1 + ucast c0) AND 0x3ffffff :: u32)"
  define c2 e2 where "c2 = (ucast (drop_bit 26 (d2 + ucast c1)) :: u32)" and "e2 = (ucast (d2 + ucast c1) AND 0x3ffffff :: u32)"
  define c3 e3 where "c3 = (ucast (drop_bit 26 (d3 + ucast c2)) :: u32)" and "e3 = (ucast (d3 + ucast c2) AND 0x3ffffff :: u32)"
  define c4 e4 where "c4 = (ucast (drop_bit 26 (d4 + ucast c3)) :: u32)" and "e4 = (ucast (d4 + ucast c3) AND 0x3ffffff :: u32)"
  have r: "poly_carry d = ((e0 + c4 * 5) AND 0x3ffffff, e1 + drop_bit 26 (e0 + c4 * 5), e2, e3, e4)"
    unfolding poly_carry_def d Let_def prod.case c0_def e0_def c1_def e1_def c2_def e2_def c3_def e3_def c4_def e4_def by (rule HOL.refl)
  note k0 = carry_digit [OF b0, folded c0_def e0_def]
  note k1 = carry_digit [OF carry_add(2) [OF b(2)], of c0, folded c1_def e1_def, unfolded carry_add(1) [OF b(2)]]
  note k2 = carry_digit [OF carry_add(2) [OF b(3)], of c1, folded c2_def e2_def, unfolded carry_add(1) [OF b(3)]]
  note k3 = carry_digit [OF carry_add(2) [OF b(4)], of c2, folded c3_def e3_def, unfolded carry_add(1) [OF b(4)]]
  note k4 = carry_digit [OF carry_add(2) [OF b4], of c3, folded c4_def e4_def, unfolded carry_add(1) [OF b4]]
  have "unat d4 + unat c3 < 2 ^ 26 * (2 ^ 32 div 5 - 2 ^ 26)" using b(5) unat_lt32 [of c3] by simp
  then have "unat c4 < 2 ^ 32 div 5 - 2 ^ 26" unfolding k4(2) by (intro less_mult_imp_div_less) (simp only: mult.commute)
  note f = limb_fold [OF k0(3) k1(3) this]
  from carry_chain [OF k0(1) k1(1) k2(1) k3(1) k4(1) f(1) base26]
  have "prod_val d = limbs_val (poly_carry d) + poly_prime * unat c4"
    unfolding r unfolding d prod_val.simps limbs_val.simps by (simp flip: power_mult)
  moreover have "limbs_ok (poly_carry d)" unfolding r limbs_ok.simps using f(2,3) k2(3) k3(3) k4(3) by blast
  ultimately show ?thesis by blast
qed

section \<open>A block\<close>

lemma poly_step_val:
  assumes "limbs_red r" "limbs_ok h" "16 \<le> length m" "hibit_ok hb"
  shows "limbs_val (poly_carry (poly_mul r (poly_add h m hb))) mod poly_prime =
      (limbs_val h + num_le (take 16 m) + 2 ^ 104 * unat hb) * limbs_val r mod poly_prime \<and>
    limbs_ok (poly_carry (poly_mul r (poly_add h m hb)))"
proof -
  note a = poly_add_val [OF assms(2-4)]
  note p = poly_mul_val [OF assms(1) conjunct2 [OF a]]
  note c = poly_carry_val [OF conjunct2 [OF p]]
  from c p obtain q q' where "(limbs_val h + num_le (take 16 m) + 2 ^ 104 * unat hb) * limbs_val r =
    limbs_val (poly_carry (poly_mul r (poly_add h m hb))) + poly_prime * q + poly_prime * q'" using a by auto
  then show ?thesis using c by simp
qed

text \<open>A state whose key limbs are in range and whose accumulator is within the bounds kept between
  blocks; \<open>poly_acc\<close> is the number it stands for.\<close>

definition poly_ok :: "poly1305_state \<Rightarrow> bool" where
  "poly_ok st \<longleftrightarrow> limbs_red (pr st) \<and> limbs_ok (ph st)"

definition poly_acc :: "poly1305_state \<Rightarrow> nat" where
  "poly_acc st = limbs_val (ph st) mod poly_prime"

lemma poly1305_blocks_one:
  assumes "poly_ok st" "length m = 16" "hibit_ok hb"
  shows "poly_ok (poly1305_blocks st m hb)" "pr (poly1305_blocks st m hb) = pr st" "ppad (poly1305_blocks st m hb) = ppad st"
    "poly_acc (poly1305_blocks st m hb) = (poly_acc st + num_le m + 2 ^ 104 * unat hb) * limbs_val (pr st) mod poly_prime"
proof -
  have l: "ph (poly1305_blocks st m hb) = poly_carry (poly_mul (pr st) (poly_add (ph st) m hb))"
    using assms(2) by (simp add: poly1305_blocks_def poly_loop.simps)
  have s: "limbs_red (pr st)" "limbs_ok (ph st)" "16 \<le> length m" using assms by (simp_all add: poly_ok_def)
  note p = poly_step_val [OF s assms(3)]
  show "pr (poly1305_blocks st m hb) = pr st" "ppad (poly1305_blocks st m hb) = ppad st" by (simp_all add: poly1305_blocks_def)
  then show "poly_ok (poly1305_blocks st m hb)" using p s by (simp add: poly_ok_def l)
  show "poly_acc (poly1305_blocks st m hb) = (poly_acc st + num_le m + 2 ^ 104 * unat hb) * limbs_val (pr st) mod poly_prime"
  proof -
    have "(x + a + b) * r mod P = (x mod P + a + b) * r mod P" for x a b r P :: nat
      by (metis mod_add_left_eq mod_mult_left_eq add.assoc)
    then show ?thesis using p assms(2) by (simp add: poly_acc_def l)
  qed
qed

lemma poly1305_feed_eval:
  "poly_ok st \<Longrightarrow>
   poly_ok (poly1305_feed st msg) \<and> pr (poly1305_feed st msg) = pr st \<and> ppad (poly1305_feed st msg) = ppad st \<and>
   poly_acc (poly1305_feed st msg) = poly_eval (limbs_val (pr st)) (poly_acc st) msg"
proof (induction st msg rule: poly1305_feed.induct)
  case (1 st msg)
  have hb: "hibit_ok (push_bit 24 1)" "hibit_ok 0" by (simp_all add: hibit_ok_def)
  consider "16 \<le> length msg" | "length msg < 16" "msg \<noteq> []" | "msg = []" by fastforce
  then show ?case
  proof cases
    case 1
    have l: "length (take 16 msg) = 16" using 1 by simp
    note b = poly1305_blocks_one [OF "1.prems" l hb(1)]
    have "num_le (take 16 msg @ [1]) = num_le (take 16 msg) + 2 ^ 104 * unat (push_bit 24 1 :: u32)" using 1 by (simp add: num_le_append)
    then have "poly_eval (limbs_val (pr st)) (poly_acc st) msg =
      poly_eval (limbs_val (pr st)) (poly_acc (poly1305_blocks st (take 16 msg) (push_bit 24 1))) (drop 16 msg)"
      unfolding b(4) using 1 by (subst poly_eval.simps) (auto simp: add.assoc)
    moreover have "poly1305_feed st msg = poly1305_feed (poly1305_blocks st (take 16 msg) (push_bit 24 1)) (drop 16 msg)"
      using 1 by (subst poly1305_feed.simps) simp
    ultimately show ?thesis using "1.IH" [OF 1 b(1)] b(2,3) by simp
  next
    case 2
    have l: "length (msg @ 1 # replicate (15 - length msg) 0) = 16" using 2 by simp
    note b = poly1305_blocks_one [OF "1.prems" l hb(2)]
    show ?thesis using b 2
      by (simp add: poly1305_feed.simps [of st] poly_eval.simps [of _ _ msg] poly_eval.simps [of _ _ "[]"] num_le_append)
  next
    case 3
    then show ?thesis using "1.prems" by (simp add: poly1305_feed.simps [of st] poly_eval.simps)
  qed
qed

section \<open>The tag\<close>

lemma small_carry:
  fixes h c :: u32
  assumes "unat h < 2 ^ 26" "unat c \<le> 1"
  shows "unat ((h + c) AND 0x3ffffff) + 2 ^ 26 * unat (drop_bit 26 (h + c)) = unat h + unat c"
    and "unat ((h + c) AND 0x3ffffff) < 2 ^ 26" and "unat (drop_bit 26 (h + c)) \<le> 1" and "unat c = 0 \<Longrightarrow> unat (drop_bit 26 (h + c)) = 0"
proof -
  have s: "unat (h + c) = unat h + unat c" using assms by (subst unat_add) simp_all
  show "unat ((h + c) AND 0x3ffffff) + 2 ^ 26 * unat (drop_bit 26 (h + c)) = unat h + unat c"
    unfolding mask26 unat_shr s by (rule mod_mult_div_eq)
  show "unat ((h + c) AND 0x3ffffff) < 2 ^ 26" unfolding mask26 by simp
  have "unat h + unat c < 2 * 2 ^ 26" using assms by simp
  then have "(unat h + unat c) div 2 ^ 26 < 2" by (rule less_mult_imp_div_less)
  then show "unat (drop_bit 26 (h + c)) \<le> 1" unfolding unat_shr s by simp
  show "unat (drop_bit 26 (h + c)) = 0" if "unat c = 0" unfolding unat_shr s that using assms(1) by simp
qed

lemma finish_carry_val:
  assumes "limbs_ok h"
  shows "limbs_red (finish_carry h) \<and> limbs_val (finish_carry h) mod poly_prime = limbs_val h mod poly_prime"
proof -
  obtain h0 h1 h2 h3 h4 where h: "h = (h0, h1, h2, h3, h4)" by (cases h) auto
  have b: "unat h0 < 2 ^ 26" "unat h1 < 2 ^ 26 + 64" "unat h2 < 2 ^ 26" "unat h3 < 2 ^ 26" "unat h4 < 2 ^ 26" using assms by (simp_all add: h)
  define c1 e1 where "c1 = drop_bit 26 h1" and "e1 = h1 AND 0x3ffffff"
  define c2 e2 where "c2 = drop_bit 26 (h2 + c1)" and "e2 = (h2 + c1) AND 0x3ffffff"
  define c3 e3 where "c3 = drop_bit 26 (h3 + c2)" and "e3 = (h3 + c2) AND 0x3ffffff"
  define c4 e4 where "c4 = drop_bit 26 (h4 + c3)" and "e4 = (h4 + c3) AND 0x3ffffff"
  have r: "finish_carry h = ((h0 + c4 * 5) AND 0x3ffffff, e1 + drop_bit 26 (h0 + c4 * 5), e2, e3, e4)"
    unfolding finish_carry_def h Let_def prod.case c1_def e1_def c2_def e2_def c3_def e3_def c4_def e4_def by (rule HOL.refl)
  have "unat h1 < 2 * 2 ^ 26" using b(2) by simp
  then have "unat h1 div 2 ^ 26 < 2" by (rule less_mult_imp_div_less)
  then have k: "unat c1 \<le> 1" by (simp add: c1_def unat_shr)
  have k1: "unat e1 + 2 ^ 26 * unat c1 = unat h1 + 0" "unat e1 < 2 ^ 26"
    unfolding c1_def e1_def mask26 unat_shr by (simp_all only: mod_mult_div_eq add_0_right) simp
  note k2 = small_carry [OF b(3) k, folded c2_def e2_def]
  note k3 = small_carry [OF b(4) k2(3), folded c3_def e3_def]
  note k4 = small_carry [OF b(5) k3(3), folded c4_def e4_def]
  have "unat c4 < 2 ^ 32 div 5 - 2 ^ 26" using k4(3) by simp
  note f = limb_fold [OF b(1) k1(2) this]
  have f1: "unat (e1 + drop_bit 26 (h0 + c4 * 5)) < 2 ^ 26"
  proof (cases "unat c1 = 0")
    case True
    then have "c4 = 0" using k2(4) k3(4) k4(4) by (simp add: unat_eq_zero)
    moreover have "drop_bit 26 h0 = 0" using b(1) by (simp add: unat_shr flip: unat_eq_zero)
    ultimately show ?thesis using k1(2) by simp
  next
    case False
    then have "unat e1 < 64" using k k1(1) b(2) by simp
    then show ?thesis using f(1,2) k4(3) b(1) by simp
  qed
  from carry_chain [of "unat h0" "2 ^ 26" 0, OF _ k1(1) k2(1) k3(1) k4(1) f(1) base26]
  have "limbs_val h = limbs_val (finish_carry h) + poly_prime * unat c4"
    unfolding r unfolding h limbs_val.simps by (simp flip: power_mult)
  moreover have "limbs_red (finish_carry h)" unfolding r limbs_red.simps using f(2) f1 k2(2) k3(2) k4(2) by blast
  ultimately show ?thesis by simp
qed

lemma limbs_red_less: "limbs_red h \<Longrightarrow> limbs_val h < 2 ^ 130"
proof -
  assume red: "limbs_red h"
  obtain h0 h1 h2 h3 h4 where h: "h = (h0, h1, h2, h3, h4)" by (cases h) auto
  show ?thesis using red by (simp add: h)
qed

lemma select_mask:
  fixes t :: u32
  shows "unat t = 2 ^ 26 \<Longrightarrow> t - push_bit 26 1 = 0"
    and "unat t < 2 ^ 26 \<Longrightarrow> drop_bit 31 (t - push_bit 26 1) = 1"
proof -
  show "t - push_bit 26 1 = 0" if "unat t = 2 ^ 26"
  proof -
    have "t = push_bit 26 1" using that by (simp add: word_unat_eq_iff)
    then show ?thesis by simp
  qed
  show "drop_bit 31 (t - push_bit 26 1) = 1" if "unat t < 2 ^ 26"
  proof -
    have "unat (t - push_bit 26 1) = unat t + 2 ^ 32 - 2 ^ 26"
      using that unat_sub_if_size [of t "push_bit 26 1"] by (simp add: word_le_nat_alt word_size)
    then have "unat (drop_bit 31 (t - push_bit 26 1)) = (unat t + 2 ^ 32 - 2 ^ 26) div 2 ^ 31" by (simp only: unat_shr)
    also have "\<dots> = 1" using that by simp
    finally show ?thesis by (simp add: word_unat_eq_iff)
  qed
qed

lemma finish_select_val:
  assumes "limbs_red h"
  shows "limbs_red (finish_select h) \<and> limbs_val (finish_select h) = limbs_val h mod poly_prime"
proof -
  obtain h0 h1 h2 h3 h4 where h: "h = (h0, h1, h2, h3, h4)" by (cases h) auto
  have b: "unat h0 < 2 ^ 26" "unat h1 < 2 ^ 26" "unat h2 < 2 ^ 26" "unat h3 < 2 ^ 26" "unat h4 < 2 ^ 26" using assms by (simp_all add: h)
  define k0 g0 where "k0 = drop_bit 26 (h0 + 5)" and "g0 = (h0 + 5) AND 0x3ffffff"
  define k1 g1 where "k1 = drop_bit 26 (h1 + k0)" and "g1 = (h1 + k0) AND 0x3ffffff"
  define k2 g2 where "k2 = drop_bit 26 (h2 + k1)" and "g2 = (h2 + k1) AND 0x3ffffff"
  define k3 g3 where "k3 = drop_bit 26 (h3 + k2)" and "g3 = (h3 + k2) AND 0x3ffffff"
  define mk where "mk = drop_bit 31 (h4 + k3 - push_bit 26 1) - 1"
  have r: "finish_select h = (h0 AND NOT mk OR g0 AND mk, h1 AND NOT mk OR g1 AND mk, h2 AND NOT mk OR g2 AND mk,
      h3 AND NOT mk OR g3 AND mk, h4 AND NOT mk OR (h4 + k3 - push_bit 26 1) AND mk)"
    unfolding finish_select_def h Let_def prod.case mk_def k0_def g0_def k1_def g1_def k2_def g2_def k3_def g3_def by (rule HOL.refl)
  have s0: "unat (h0 + 5) = unat h0 + 5" using b(1) by (subst unat_add) simp_all
  have c0: "unat g0 + 2 ^ 26 * unat k0 = unat h0 + 5" "unat g0 < 2 ^ 26"
    unfolding g0_def k0_def mask26 unat_shr s0 by (rule mod_mult_div_eq) simp
  have "unat k0 \<le> 1" using c0 b(1) by simp
  note c1 = small_carry [OF b(2) this, folded k1_def g1_def]
  note c2 = small_carry [OF b(3) c1(3), folded k2_def g2_def]
  note c3 = small_carry [OF b(4) c2(3), folded k3_def g3_def]
  have t: "unat (h4 + k3) = unat h4 + unat k3" using b(5) c3(3) by (subst unat_add) simp_all
  have v: "limbs_val h + 5 = unat g0 + 2 ^ 26 * unat g1 + 2 ^ 52 * unat g2 + 2 ^ 78 * unat g3 + 2 ^ 104 * unat (h4 + k3)"
    unfolding t h limbs_val.simps using c0(1) c1(1) c2(1) c3(1) by simp
  show ?thesis
  proof (cases "unat (h4 + k3) < 2 ^ 26")
    case True
    then have "finish_select h = h" using select_mask(2) [OF True] unfolding r unfolding mk_def h by simp
    moreover have "limbs_val h < poly_prime" using v c0(2) c1(2) c2(2) c3(2) True by (simp add: poly_prime_def)
    ultimately show ?thesis using assms by simp
  next
    case False
    then have e: "unat (h4 + k3) = 2 ^ 26" using t b(5) c3(3) by simp
    then have f: "finish_select h = (g0, g1, g2, g3, 0)" using select_mask(1) [OF e] unfolding r mk_def by simp
    have "limbs_val h = limbs_val (finish_select h) + poly_prime" using v unfolding f e by (simp add: poly_prime_def)
    moreover have "limbs_val (finish_select h) < poly_prime" using calculation limbs_red_less [OF assms] by (simp add: poly_prime_def)
    moreover have "limbs_red (finish_select h)" unfolding f using c0(2) c1(2) c2(2) c3(2) by simp
    ultimately show ?thesis by simp
  qed
qed

fun words_val :: "u32 \<times> u32 \<times> u32 \<times> u32 \<Rightarrow> nat" where
  "words_val (a, b, c, d) = unat a + 2 ^ 32 * unat b + 2 ^ 64 * unat c + 2 ^ 96 * unat d"

lemma repack_digits:
  fixes w1 w2 w3 w4 :: nat
  shows "w0 + 2 ^ 26 * w1 + 2 ^ 52 * w2 + 2 ^ 78 * w3 + 2 ^ 104 * w4 =
    (w0 + 2 ^ 26 * (w1 mod 2 ^ 6)) + 2 ^ 32 * (w1 div 2 ^ 6 + 2 ^ 20 * (w2 mod 2 ^ 12)) + 2 ^ 64 * (w2 div 2 ^ 12 + 2 ^ 14 * (w3 mod 2 ^ 18)) +
    2 ^ 96 * (w3 div 2 ^ 18 + 2 ^ 8 * (w4 mod 2 ^ 24)) + 2 ^ 128 * (w4 div 2 ^ 24)"
proof -
  have "w0 + 2 ^ 26 * a + 2 ^ 52 * b + 2 ^ 78 * c + 2 ^ 104 * d =
    (w0 + 2 ^ 26 * a0) + 2 ^ 32 * (a1 + 2 ^ 20 * b0) + 2 ^ 64 * (b1 + 2 ^ 14 * c0) + 2 ^ 96 * (c1 + 2 ^ 8 * d0) + 2 ^ 128 * d1"
    if "a1 * 2 ^ 6 + a0 = a" "b1 * 2 ^ 12 + b0 = b" "c1 * 2 ^ 18 + c0 = c" "d1 * 2 ^ 24 + d0 = d"
    for a b c d a0 a1 b0 b1 c0 c1 d0 d1 :: nat
    using that by simp
  from this [OF div_mult_mod_eq div_mult_mod_eq div_mult_mod_eq div_mult_mod_eq] show ?thesis .
qed

lemma words_val_less: "words_val w < 2 ^ 128"
proof -
  obtain a b c d where w: "w = (a, b, c, d)" by (cases w) auto
  show ?thesis using unat_lt32 [of a] unat_lt32 [of b] unat_lt32 [of c] unat_lt32 [of d] by (simp add: w)
qed

lemma and_ones: "(w :: u32) AND 0xffffffff = w"
proof -
  have "w AND Bit_Operations.mask 32 = take_bit 32 w" by (rule take_bit_eq_mask [symmetric])
  also have "take_bit 32 w = w" by (rule bit_word_eqI) (simp add: bit_simps)
  finally show ?thesis by (simp add: mask_eq_exp_minus_1)
qed

lemma finish_pack_val:
  assumes "limbs_red h"
  shows "words_val (finish_pack h) = limbs_val h mod 2 ^ 128"
proof -
  obtain h0 h1 h2 h3 h4 where h: "h = (h0, h1, h2, h3, h4)" by (cases h) auto
  have b: "unat h0 < 2 ^ 26" "unat h1 div 2 ^ 6 < 2 ^ 20" "unat h2 div 2 ^ 12 < 2 ^ 14" "unat h3 div 2 ^ 18 < 2 ^ 8"
    using assms by (simp_all add: h less_mult_imp_div_less)
  have j: "unat (h0 OR push_bit 26 h1) = unat h0 + 2 ^ 26 * (unat h1 mod 2 ^ 6)"
    "unat (drop_bit 6 h1 OR push_bit 20 h2) = unat h1 div 2 ^ 6 + 2 ^ 20 * (unat h2 mod 2 ^ 12)"
    "unat (drop_bit 12 h2 OR push_bit 14 h3) = unat h2 div 2 ^ 12 + 2 ^ 14 * (unat h3 mod 2 ^ 18)"
    "unat (drop_bit 18 h3 OR push_bit 8 h4) = unat h3 div 2 ^ 18 + 2 ^ 8 * (unat h4 mod 2 ^ 24)"
    using b unat_or_shl [of h0 26 h1] unat_or_shl [of "drop_bit 6 h1" 20 h2] unat_or_shl [of "drop_bit 12 h2" 14 h3]
      unat_or_shl [of "drop_bit 18 h3" 8 h4] by (simp_all add: unat_shr)
  have e: "limbs_val h = words_val (finish_pack h) + 2 ^ 128 * (unat h4 div 2 ^ 24)"
    unfolding h limbs_val.simps finish_pack_def prod.case Let_def and_ones words_val.simps j by (rule repack_digits)
  show ?thesis unfolding e using words_val_less [of "finish_pack h"] by simp
qed

lemma add_digit:
  fixes a b :: u32 and c :: u64
  assumes "unat c < 2 ^ 32"
  shows "unat (ucast (ucast a + ucast b + c :: u64) :: u32) + 2 ^ 32 * unat (drop_bit 32 (ucast a + ucast b + c)) = unat a + unat b + unat c"
    and "unat (drop_bit 32 (ucast a + ucast b + c)) < 2 ^ 32"
proof -
  have u: "unat (ucast w :: u64) = unat w" for w :: u32 using unat_lt32 [of w] by (simp add: unat_ucast)
  have s: "unat (ucast a + ucast b + c) = unat a + unat b + unat c"
    using unat_lt32 [of a] unat_lt32 [of b] assms by (simp add: unat_add u)
  show "unat (ucast (ucast a + ucast b + c :: u64) :: u32) + 2 ^ 32 * unat (drop_bit 32 (ucast a + ucast b + c)) = unat a + unat b + unat c"
    unfolding unat_ucast unat_shr s by (simp only: len_num1 len_bit0 len_bit1) (simp)
  show "unat (drop_bit 32 (ucast a + ucast b + c)) < 2 ^ 32"
    unfolding unat_shr s using unat_lt32 [of a] unat_lt32 [of b] assms by (intro less_mult_imp_div_less) simp
qed

lemma num_le_words: "num_le (le32 a @ le32 b @ le32 c @ le32 d) = words_val (a, b, c, d)"
  by (simp add: num_le_append num_le_32 algebra_simps)

lemma finish_add_val: "num_le (finish_add h pad) = (words_val h + words_val pad) mod 2 ^ 128 \<and> length (finish_add h pad) = 16"
proof -
  obtain h0 h1 h2 h3 where h: "h = (h0, h1, h2, h3)" by (cases h) auto
  obtain p0 p1 p2 p3 where p: "pad = (p0, p1, p2, p3)" by (cases pad) auto
  define f0 where "f0 = (ucast h0 + ucast p0 + 0 :: u64)"
  define f1 where "f1 = (ucast h1 + ucast p1 + drop_bit 32 f0)"
  define f2 where "f2 = (ucast h2 + ucast p2 + drop_bit 32 f1)"
  define f3 where "f3 = (ucast h3 + ucast p3 + drop_bit 32 f2)"
  have e: "finish_add h pad = le32 (ucast f0) @ le32 (ucast f1) @ le32 (ucast f2) @ le32 (ucast f3)"
    unfolding finish_add_def h p Let_def prod.case f3_def f2_def f1_def f0_def add_0_right by (rule HOL.refl)
  have "unat (0 :: u64) < 2 ^ 32" by simp
  note a0 = add_digit [OF this, of h0 p0, folded f0_def]
  note a1 = add_digit [OF a0(2), of h1 p1, folded f1_def]
  note a2 = add_digit [OF a1(2), of h2 p2, folded f2_def]
  note a3 = add_digit [OF a2(2), of h3 p3, folded f3_def]
  have "words_val h + words_val pad = words_val (ucast f0, ucast f1, ucast f2, ucast f3) + 2 ^ 128 * unat (drop_bit 32 f3)"
    unfolding h p words_val.simps using a0(1) a1(1) a2(1) a3(1) by simp
  then show ?thesis using words_val_less [of "(ucast f0, ucast f1, ucast f2, ucast f3)"] unfolding e num_le_words by simp
qed

lemma poly1305_finish_val:
  assumes "poly_ok st"
  shows "num_le (poly1305_finish st) = (poly_acc st + words_val (ppad st)) mod 2 ^ 128 \<and> length (poly1305_finish st) = 16"
proof -
  have "limbs_ok (ph st)" using assms by (simp add: poly_ok_def)
  note c = finish_carry_val [OF this]
  note s = finish_select_val [OF conjunct1 [OF c]]
  note p = finish_pack_val [OF conjunct1 [OF s]]
  have "words_val (finish_pack (finish_select (finish_carry (ph st)))) = poly_acc st mod 2 ^ 128"
    using c s p by (simp add: poly_acc_def)
  then show ?thesis by (simp only: poly1305_finish_def finish_add_val mod_add_left_eq)
qed

section \<open>The key\<close>

lemma and_split:
  fixes x m :: nat
  assumes "x < 2 ^ k" "m < 2 ^ k"
  shows "(x + 2 ^ k * y) AND (m + 2 ^ k * n) = (x AND m) + 2 ^ k * (y AND n)"
proof -
  let ?N = "x + 2 ^ k * y" and ?M = "m + 2 ^ k * n"
  have t: "take_bit k ?N = x" "take_bit k ?M = m" "drop_bit k ?N = y" "drop_bit k ?M = n"
    using assms by (simp_all add: take_bit_eq_mod drop_bit_eq_div)
  have "?N AND ?M = push_bit k (drop_bit k (?N AND ?M)) + take_bit k (?N AND ?M)" by (rule bits_ident [symmetric])
  also have "\<dots> = push_bit k (y AND n) + (x AND m)" unfolding take_bit_and drop_bit_and t ..
  finally show ?thesis by (simp add: push_bit_eq_mult algebra_simps)
qed

lemma clamp_limbs:
  fixes x0 x1 x2 x3 x4 :: nat
  assumes "x0 < 2 ^ 26" "x1 < 2 ^ 26" "x2 < 2 ^ 26" "x3 < 2 ^ 26"
  shows "clamp (x0 + 2 ^ 26 * x1 + 2 ^ 52 * x2 + 2 ^ 78 * x3 + 2 ^ 104 * x4) =
    (x0 AND 0x3ffffff) + 2 ^ 26 * (x1 AND 0x3ffff03) + 2 ^ 52 * (x2 AND 0x3ffc0ff) + 2 ^ 78 * (x3 AND 0x3f03fff) + 2 ^ 104 * (x4 AND 0x00fffff)"
proof -
  have m: "0x0ffffffc0ffffffc0ffffffc0fffffff = (0x3ffffff + 2 ^ 26 * (0x3ffff03 + 2 ^ 26 * (0x3ffc0ff + 2 ^ 26 * (0x3f03fff + 2 ^ 26 * 0x00fffff))) :: nat)"
    by simp
  have x: "x0 + 2 ^ 26 * x1 + 2 ^ 52 * x2 + 2 ^ 78 * x3 + 2 ^ 104 * x4 = x0 + 2 ^ 26 * (x1 + 2 ^ 26 * (x2 + 2 ^ 26 * (x3 + 2 ^ 26 * x4)))"
    by simp
  have l: "(0x3ffffff :: nat) < 2 ^ 26" "(0x3ffff03 :: nat) < 2 ^ 26" "(0x3ffc0ff :: nat) < 2 ^ 26" "(0x3f03fff :: nat) < 2 ^ 26" by simp_all
  show ?thesis
    unfolding clamp_def m x and_split [OF assms(1) l(1)] and_split [OF assms(2) l(2)] and_split [OF assms(3) l(3)] and_split [OF assms(4) l(4)]
    by simp
qed

lemma poly1305_init_val:
  assumes "32 \<le> length key"
  shows "limbs_val (pr (poly1305_init key)) = clamp (num_le (take 16 key))"
    and "words_val (ppad (poly1305_init key)) = num_le (take 16 (drop 16 key))"
    and "poly_ok (poly1305_init key)" and "poly_acc (poly1305_init key) = 0"
proof -
  have hb: "hibit_ok 0" by (simp add: hibit_ok_def)
  obtain b0 b1 b2 b3 b4 where b: "block_limbs key 0 = (b0, b1, b2, b3, b4)" by (cases "block_limbs key 0") auto
  have lt: "unat b0 < 2 ^ 26" "unat b1 < 2 ^ 26" "unat b2 < 2 ^ 26" "unat b3 < 2 ^ 26"
    using block_limbs_less [OF hb, of key] by (simp_all add: b)
  have m: "w AND 0x3ffff03 = w AND 0x3ffffff AND 0x3ffff03" "w AND 0x3ffc0ff = w AND 0x3ffffff AND 0x3ffc0ff"
    "w AND 0x3f03fff = w AND 0x3ffffff AND 0x3f03fff" "w AND 0x3ffffff = w AND 0x3ffffff AND 0x3ffffff" for w :: u32
    by (simp_all add: and.assoc)
  have r: "pr (poly1305_init key) = (b0 AND 0x3ffffff, b1 AND 0x3ffff03, b2 AND 0x3ffc0ff, b3 AND 0x3f03fff, b4 AND 0x00fffff)"
    using b by (auto simp: poly1305_init_def block_limbs_def Let_def and.assoc)
  have "num_le (take 16 key) = limbs_val (block_limbs key 0)" using block_limbs_val [OF _ hb, of key] assms by simp
  then show "limbs_val (pr (poly1305_init key)) = clamp (num_le (take 16 key))"
    unfolding r b by (simp only: limbs_val.simps clamp_limbs [OF lt] unat_and) simp
  show "words_val (ppad (poly1305_init key)) = num_le (take 16 (drop 16 key))"
    using num_le_take16 [of "drop 16 key"] assms by (simp add: poly1305_init_def Let_def get32_def algebra_simps)
  have "unat (w AND v) \<le> unat v" for w v :: u32 by (simp add: word_and_le1 flip: word_le_nat_alt)
  then have "unat (w AND v) < 2 ^ 26" if "unat v < 2 ^ 26" for w v :: u32 using that le_less_trans by blast
  then show "poly_ok (poly1305_init key)" by (simp add: poly_ok_def r) (simp add: poly1305_init_def Let_def)
  show "poly_acc (poly1305_init key) = 0" by (simp add: poly_acc_def poly1305_init_def Let_def)
qed

lemma poly1305_val:
  assumes "32 \<le> length key"
  shows "num_le (poly1305 msg key) = poly1305_ref msg key \<and> length (poly1305 msg key) = 16"
proof -
  note i = poly1305_init_val [OF assms]
  note f = poly1305_feed_eval [OF i(3), of msg]
  then have "poly_ok (poly1305_feed (poly1305_init key) msg)" by blast
  from poly1305_finish_val [OF this] show ?thesis
    using f i by (simp add: poly1305_def poly1305_ref_def)
qed

end
