(* ===== verification/KAead.thy ===== *)
theory KAead
  imports KChaCha KPoly1305
begin

text \<open>
  The authenticated encryption of \<^verbatim>\<open>kernel/crypto/chacha20poly1305.cpp\<close>: the one-time key of the
  authenticator is the first block of the cipher, the tag covers the padded associated data, the
  padded ciphertext and their lengths, and a message is decrypted only when its tag agrees. The
  lemmas show that the tag is the one the standard defines, that what was encrypted is recovered,
  and that any other tag is refused.
\<close>

section \<open>The operations\<close>

fun poly1305_aead_feed :: "poly1305_state \<Rightarrow> u8 list \<Rightarrow> poly1305_state" where
  "poly1305_aead_feed st data =
     (if 16 \<le> length data then poly1305_aead_feed (poly1305_blocks st (take 16 data) (push_bit 24 1)) (drop 16 data)
      else if data \<noteq> [] then poly1305_blocks st (data @ replicate (16 - length data) 0) (push_bit 24 1)
      else st)"

declare poly1305_aead_feed.simps [simp del]

definition aead_lens :: "nat \<Rightarrow> nat \<Rightarrow> u8 list" where
  "aead_lens aad_len len =
     map (\<lambda>i. ucast (drop_bit (8 * i) (of_nat aad_len :: u64))) [0..<8] @
     map (\<lambda>i. ucast (drop_bit (8 * i) (of_nat len :: u64))) [0..<8]"

definition aead_mac :: "u8 list \<Rightarrow> u8 list \<Rightarrow> u8 list \<Rightarrow> u8 list \<Rightarrow> u8 list" where
  "aead_mac key nonce aad cipher =
     (let otk = concat (map le32 (chacha20_block (chacha20_init_state key nonce 0)));
          s = poly1305_init otk;
          s = poly1305_aead_feed s aad;
          s = poly1305_aead_feed s cipher;
          s = poly1305_blocks s (aead_lens (length aad) (length cipher)) (push_bit 24 1)
      in poly1305_finish s)"

definition chacha20poly1305_encrypt :: "u8 list \<Rightarrow> u8 list \<Rightarrow> u8 list \<Rightarrow> u8 list \<Rightarrow> u8 list" where
  "chacha20poly1305_encrypt plain aad nonce key =
     (let out = chacha20_xor plain key nonce 1 in out @ aead_mac key nonce aad out)"

definition tag_diff :: "u8 list \<Rightarrow> u8 list \<Rightarrow> nat \<Rightarrow> u8" where
  "tag_diff tag cipher len = fold (\<lambda>i diff. diff OR (tag ! i XOR cipher ! (len + i))) [0..<16] 0"

definition chacha20poly1305_decrypt :: "u8 list \<Rightarrow> nat \<Rightarrow> u8 list \<Rightarrow> u8 list \<Rightarrow> u8 list \<Rightarrow> u8 list option" where
  "chacha20poly1305_decrypt cipher len aad nonce key =
     (let tag = aead_mac key nonce aad (take len cipher)
      in if tag_diff tag cipher len \<noteq> 0 then None
         else Some (chacha20_xor (take len cipher) key nonce 1))"

section \<open>The tag\<close>

text \<open>What the standard authenticates: the associated data and the ciphertext, each padded with
  zeros to a multiple of 16 bytes, and the two lengths.\<close>

definition pad16 :: "u8 list \<Rightarrow> u8 list" where
  "pad16 data = data @ replicate ((16 - length data mod 16) mod 16) 0"

definition mac_data :: "u8 list \<Rightarrow> u8 list \<Rightarrow> u8 list" where
  "mac_data aad cipher = pad16 aad @ pad16 cipher @ aead_lens (length aad) (length cipher)"

lemma length_aead_lens [simp]: "length (aead_lens a c) = 16"
  by (simp add: aead_lens_def)

lemma dvd_pad16: "16 dvd length (pad16 data)"
proof (cases "16 dvd length data")
  case False
  then have r: "0 < length data mod 16" "length data mod 16 < 16" by (auto simp: dvd_eq_mod_eq_0)
  then have "length (pad16 data) = 16 * (length data div 16) + 16" by (simp add: pad16_def minus_mod_eq_mult_div [symmetric])
  then show ?thesis by simp
qed (simp add: pad16_def)

lemma pad16_step: "16 \<le> length data \<Longrightarrow> pad16 data = take 16 data @ pad16 (drop 16 data)"
  by (simp add: pad16_def le_mod_geq)

lemma poly1305_feed_append:
  "16 dvd length a \<Longrightarrow> poly1305_feed st (a @ b) = poly1305_feed (poly1305_feed st a) b"
proof (induction st a rule: poly1305_feed.induct)
  case (1 st a)
  show ?case
  proof (cases "a = []")
    case True
    then show ?thesis by (simp add: poly1305_feed.simps [of st "[]"])
  next
    case False
    then have l: "16 \<le> length a" using "1.prems" by (auto dest: dvd_imp_le)
    moreover have "16 dvd length (drop 16 a)" using "1.prems" l by simp
    ultimately show ?thesis using "1.IH"
      by (simp add: poly1305_feed.simps [of st "a @ b"] poly1305_feed.simps [of st a])
  qed
qed

lemma poly1305_aead_feed_pad: "poly1305_aead_feed st data = poly1305_feed st (pad16 data)"
proof (induction st data rule: poly1305_aead_feed.induct)
  case (1 st data)
  have one: "poly1305_feed s m = poly1305_blocks s m (push_bit 24 1)" if "length m = 16" for s m
    using that by (simp add: poly1305_feed.simps [of s m] poly1305_feed.simps [of _ "[]"])
  consider "16 \<le> length data" | "length data < 16" "data \<noteq> []" | "data = []" by fastforce
  then show ?case
  proof cases
    case 1
    then have "poly1305_feed st (pad16 data) = poly1305_feed (poly1305_blocks st (take 16 data) (push_bit 24 1)) (pad16 (drop 16 data))"
      by (simp add: pad16_step poly1305_feed_append one)
    then show ?thesis using 1 "1.IH" by (simp add: poly1305_aead_feed.simps [of st])
  next
    case 2
    then have "pad16 data = data @ replicate (16 - length data) 0" "length (pad16 data) = 16" by (simp_all add: pad16_def)
    then show ?thesis using 2 by (simp add: poly1305_aead_feed.simps [of st] one)
  next
    case 3
    then show ?thesis by (simp add: poly1305_aead_feed.simps poly1305_feed.simps pad16_def)
  qed
qed

lemma aead_mac_eq: "aead_mac key nonce aad cipher = poly1305 (mac_data aad cipher) (keystream key nonce 0)"
proof -
  have "poly1305_blocks s (aead_lens a c) (push_bit 24 1) = poly1305_feed s (aead_lens a c)" for s a c
    by (simp add: poly1305_feed.simps [of s "aead_lens a c"] poly1305_feed.simps [of _ "[]"])
  then show ?thesis
    by (simp only: aead_mac_def mac_data_def poly1305_def poly1305_aead_feed_pad poly1305_feed_append [OF dvd_pad16] keystream_def Let_def)
qed

lemma length_aead_mac [simp]: "length (aead_mac key nonce aad cipher) = 16"
  by (simp add: aead_mac_eq poly1305_val)

section \<open>Encrypting and decrypting\<close>

lemma fold_or_zero: "fold (\<lambda>i d. d OR f i) xs (a :: u8) = 0 \<longleftrightarrow> a = 0 \<and> (\<forall>i \<in> set xs. f i = 0)"
proof (induction xs arbitrary: a)
  case (Cons x xs)
  show ?case unfolding fold_simps Cons.IH by (auto simp: or_eq_0_iff)
qed simp

lemma tag_diff_zero:
  assumes "length tag = 16" "length t = 16"
  shows "tag_diff tag (c @ t) (length c) = 0 \<longleftrightarrow> tag = t"
proof -
  have x: "a XOR b = 0 \<longleftrightarrow> a = b" for a b :: u8 by (auto simp: bit_eq_iff bit_simps)
  show ?thesis using assms by (auto simp: tag_diff_def fold_or_zero x list_eq_iff_nth_eq)
qed

lemma decrypt_cases:
  assumes "length t = 16"
  shows "chacha20poly1305_decrypt (c @ t) (length c) aad nonce key =
    (if t = aead_mac key nonce aad c then Some (chacha20_xor c key nonce 1) else None)"
  using tag_diff_zero [of "aead_mac key nonce aad c" t c] assms
  by (auto simp: chacha20poly1305_decrypt_def)

text \<open>Fact: what was encrypted under a key, a nonce and associated data is recovered by decrypting the
  result under the same three, for every message.\<close>

theorem aead_roundtrip:
  "chacha20poly1305_decrypt (chacha20poly1305_encrypt plain aad nonce key) (length plain) aad nonce key = Some plain"
  using decrypt_cases [of "aead_mac key nonce aad (chacha20_xor plain key nonce 1)" "chacha20_xor plain key nonce 1"]
  by (simp add: chacha20poly1305_encrypt_def Let_def chacha20_xor_twice)

text \<open>C13: a received message is accepted exactly when its tag is the number the standard assigns to the
  associated data and the ciphertext under the one-time key; then the plaintext is the ciphertext
  with the keystream removed byte by byte, and in every other case nothing is released.\<close>

theorem aead_accepts_iff:
  assumes "length t = 16"
  shows "chacha20poly1305_decrypt (c @ t) (length c) aad nonce key =
    (if num_le t = poly1305_ref (mac_data aad c) (keystream key nonce 0)
     then Some (map (\<lambda>i. c ! i XOR keystream key nonce (1 + of_nat (i div 64)) ! (i mod 64)) [0..<length c])
     else None)"
proof -
  have p: "num_le (aead_mac key nonce aad c) = poly1305_ref (mac_data aad c) (keystream key nonce 0)"
    using poly1305_val [of "keystream key nonce 0" "mac_data aad c"] by (simp add: aead_mac_eq)
  have t: "t = aead_mac key nonce aad c \<longleftrightarrow> num_le t = num_le (aead_mac key nonce aad c)"
    using num_le_inj [of t "aead_mac key nonce aad c"] assms by simp
  have "chacha20_xor c key nonce 1 = map (\<lambda>i. c ! i XOR keystream key nonce (1 + of_nat (i div 64)) ! (i mod 64)) [0..<length c]"
    by (rule nth_equalityI) (simp_all add: chacha20_xor_nth)
  then show ?thesis unfolding decrypt_cases [OF assms] t p by simp
qed

theorem aead_accepts_iff_witness:
  "chacha20poly1305_decrypt ([1, 2, 3] @ replicate 16 0) 3 [7] (replicate 12 5) (replicate 32 9) =
    (if num_le (replicate 16 0) = poly1305_ref (mac_data [7] [1, 2, 3]) (keystream (replicate 32 9) (replicate 12 5) 0)
     then Some (map (\<lambda>i. [1, 2, 3] ! i XOR keystream (replicate 32 9) (replicate 12 5) (1 + of_nat (i div 64)) ! (i mod 64)) [0..<3])
     else None)"
proof -
  have t: "length (replicate 16 (0 :: u8)) = 16" and l: "length [1, 2, 3 :: u8] = 3" by simp_all
  show ?thesis using aead_accepts_iff [OF t, of "[1, 2, 3]"] unfolding l .
qed

text \<open>C12: the authenticator on 26-bit limbs computes the polynomial of the standard, for every message
  and key: the tag is 16 bytes long and, read as a number, it is the evaluation of the message's
  blocks modulo $2^{130} - 5$ at the clamped half of the key, plus the other half, modulo $2^{128}$.\<close>

theorem poly1305_correct:
  assumes "length key = 32"
  shows "num_le (poly1305 msg key) = poly1305_ref msg key \<and> length (poly1305 msg key) = 16"
  using poly1305_val [of key msg] assms by simp

theorem poly1305_correct_witness:
  "num_le (poly1305 [1, 2, 3] (replicate 32 7)) = poly1305_ref [1, 2, 3] (replicate 32 7) \<and>
   length (poly1305 [1, 2, 3] (replicate 32 7)) = 16"
  using poly1305_correct [of "replicate 32 7" "[1, 2, 3]"] by simp

end
