(* ===== verification/KX25519.thy ===== *)
theory KX25519
  imports KField
begin

text \<open>
  X25519 of \<^verbatim>\<open>kernel/crypto/x25519.cpp\<close>: unpacking a coordinate, the ladder over the bits of the
  clamped scalar with conditional swaps, the final division and the packing of the canonical bytes.
  The ladder on limbs is shown to refine the ladder of the standard on numbers modulo
  $2^{255} - 19$.
\<close>

section \<open>The operations\<close>

definition pack_sub :: "gf \<Rightarrow> gf \<times> int" where
  "pack_sub t =
     (let m = fold (\<lambda>i m. m[i - 1 := m ! (i - 1) AND 0xffff] @ [t ! i - 0xffff - (signed_drop_bit 16 (m ! (i - 1)) AND 1)])
                [1..<15] [t ! 0 - 0xffed];
          m = m @ [t ! 15 - 0x7fff - (signed_drop_bit 16 (m ! 14) AND 1)];
          b = sint (signed_drop_bit 16 (m ! 15) AND 1);
          m = m[14 := m ! 14 AND 0xffff]
      in (m, b))"

definition pack_round :: "gf \<Rightarrow> gf" where
  "pack_round t = (let (m, b) = pack_sub t in fst (sel25519 t m (1 - b)))"

definition pack25519 :: "gf \<Rightarrow> u8 list" where
  "pack25519 n =
     (let t = car25519 (car25519 (car25519 n));
          t = pack_round (pack_round t)
      in concat (map (\<lambda>w. [ucast (w AND 0xff), ucast (signed_drop_bit 8 w)]) t))"

definition unpack25519 :: "u8 list \<Rightarrow> gf" where
  "unpack25519 n =
     (let o' = map (\<lambda>i. ucast (n ! (2 * i)) + push_bit 8 (ucast (n ! (2 * i + 1)))) [0..<16]
      in o'[15 := o' ! 15 AND 0x7fff])"

definition gf_121665 :: gf where
  "gf_121665 = [0xDB41, 1] @ replicate 14 0"

type_synonym ladder = "gf \<times> gf \<times> gf \<times> gf"

definition x25519_step :: "gf \<Rightarrow> int \<Rightarrow> ladder \<Rightarrow> ladder" where
  "x25519_step x r st =
     (let (a, b, c, d) = st;
          (a, b) = sel25519 a b r;
          (c, d) = sel25519 c d r;
          e = gf_add a c;
          a = gf_sub a c;
          c = gf_add b d;
          b = gf_sub b d;
          d = gf_sq e;
          f = gf_sq a;
          a = gf_mul c a;
          c = gf_mul b e;
          e = gf_add a c;
          a = gf_sub a c;
          b = gf_sq a;
          c = gf_sub d f;
          a = gf_mul c gf_121665;
          a = gf_add a d;
          c = gf_mul c a;
          a = gf_mul d f;
          d = gf_mul b x;
          b = gf_sq e;
          (a, b) = sel25519 a b r;
          (c, d) = sel25519 c d r
      in (a, b, c, d))"

definition scalar_bytes :: "u8 list \<Rightarrow> u8 list" where
  "scalar_bytes n =
     (let z = take 31 n @ [(n ! 31 AND 127) OR 64] in z[0 := z ! 0 AND 248])"

definition scalar_bit :: "u8 list \<Rightarrow> nat \<Rightarrow> int" where
  "scalar_bit z i = uint (drop_bit (i mod 8) (z ! (i div 8)) AND 1)"

definition x25519 :: "u8 list \<Rightarrow> u8 list \<Rightarrow> u8 list" where
  "x25519 n p =
     (let z = scalar_bytes n;
          x = unpack25519 p;
          st = (1 # replicate 15 0, x, replicate 16 0, 1 # replicate 15 0);
          (a, b, c, d) = fold (\<lambda>i. x25519_step x (scalar_bit z i)) (rev [0..<255]) st;
          c = inv25519 c;
          a = gf_mul a c
      in pack25519 a)"

definition x25519_public_key :: "u8 list \<Rightarrow> u8 list" where
  "x25519_public_key priv = x25519 priv (9 # replicate 31 0)"

section \<open>Selecting\<close>

lemma sel25519_cases:
  assumes "length p = length q"
  shows "sel25519 p q 0 = (p, q)" "sel25519 p q 1 = (q, p)"
proof -
  have m: "sel_mask 0 = 0" "sel_mask 1 = -1" by (simp_all add: sel_mask_def)
  show "sel25519 p q 0 = (p, q)" using assms by (auto simp: sel25519_def m Let_def intro: nth_equalityI)
  have "x XOR (x XOR y) = y" "y XOR (x XOR y) = x" for x y :: i64
    by (rule bit_word_eqI; auto simp: bit_simps)+
  then show "sel25519 p q 1 = (q, p)" using assms by (auto simp: sel25519_def m Let_def intro: nth_equalityI)
qed

section \<open>Packing\<close>

definition gf_canon :: "gf \<Rightarrow> bool" where
  "gf_canon t \<longleftrightarrow> length t = 16 \<and> (\<forall>w \<in> set t. 0 \<le> sint w \<and> sint w < 65536)"

lemma sint_and_mask: "k < 64 \<Longrightarrow> sint (w AND Bit_Operations.mask k :: i64) = sint w mod 2 ^ k"
proof -
  assume k: "k < 64"
  have "w AND Bit_Operations.mask k = of_int (take_bit k (sint w))"
    by (rule bit_word_eqI) (use k in \<open>auto simp: bit_simps\<close>)
  moreover have "- (2 ^ 63) \<le> take_bit k (sint w)" "take_bit k (sint w) < 2 ^ 63"
  proof -
    have "0 \<le> take_bit k (sint w)" by simp
    moreover have "- (2 ^ 63) \<le> (0 :: int)" by simp
    ultimately show "- (2 ^ 63) \<le> take_bit k (sint w)" by (rule order_trans [rotated])
    have "take_bit k (sint w) < 2 ^ k" by simp
    also have "(2::int) ^ k \<le> 2 ^ 63" using k by (intro power_increasing) simp_all
    finally show "take_bit k (sint w) < 2 ^ 63" .
  qed
  ultimately have "sint (w AND Bit_Operations.mask k) = take_bit k (sint w)" by (simp only: sint_of_int64)
  then show ?thesis by (simp add: take_bit_eq_mod)
qed

lemma and_16: "sint (w AND 0xffff :: i64) = sint w mod 65536"
  using sint_and_mask [of 16 w] by (simp add: mask_eq_exp_minus_1)

lemma and_1: "sint (w AND 1 :: i64) = sint w mod 2"
  using sint_and_mask [of 1 w] by (simp add: mask_eq_exp_minus_1)

definition borrow :: "i64 \<Rightarrow> i64" where
  "borrow m = signed_drop_bit 16 m AND 1"

lemma borrow_val: "- 65536 \<le> sint m \<Longrightarrow> sint m < 65536 \<Longrightarrow> sint (borrow m) = - (sint m div 65536)"
proof -
  assume "- 65536 \<le> sint m" "sint m < 65536"
  then have "sint m div 65536 = -1 \<or> sint m div 65536 = 0" by auto
  then show ?thesis by (auto simp: borrow_def and_1 sint_shr)
qed

fun sub_words :: "i64 \<Rightarrow> i64 list \<Rightarrow> i64 list" where
  "sub_words m [] = [m]"
| "sub_words m (y # ys) = (m AND 0xffff) # sub_words (y - borrow m) ys"

lemma sub_words_digits:
  "- 65536 \<le> sint m \<Longrightarrow> sint m < 65536 \<Longrightarrow> (\<forall>y \<in> set ys. \<bar>sint y\<bar> < 65536) \<Longrightarrow>
   map sint (sub_words m ys) = digits (length ys) (gval (m # ys)) @ [gval (m # ys) div 65536 ^ length ys]"
proof (induction m ys rule: sub_words.induct)
  case (2 m y ys)
  have k: "sint m div 65536 \<in> {-1..0}" using "2.prems"(1,2) by auto
  have y: "\<bar>sint y\<bar> < 65536" using "2.prems"(3) by simp
  have s: "sint (y - borrow m) = sint y + sint m div 65536"
    using borrow_val [OF "2.prems"(1,2)] k y by (subst sint_sub) auto
  have "- 65536 \<le> sint (y - borrow m)" "sint (y - borrow m) < 65536" unfolding s using k y by auto
  note IH = "2.IH" [OF this]
  have g: "gval (m # y # ys) div 65536 = gval ((y - borrow m) # ys)" "gval (m # y # ys) mod 65536 = sint m mod 65536"
    unfolding gval.simps(2) [of m] by (simp_all only: mod_mult_self2) (simp add: s)
  have d: "gval (m # y # ys) div 65536 ^ Suc n = gval (m # y # ys) div 65536 div 65536 ^ n" for n by (simp add: zdiv_zmult2_eq)
  show ?case using IH "2.prems"(3)
    by (simp only: sub_words.simps list.map and_16 list.size add_Suc_right add_0_right digits.simps g d append_Cons) simp
qed simp

lemma pack_fold:
  "length pre = n \<Longrightarrow> n \<le> k \<Longrightarrow>
   fold (\<lambda>i m. m[i - 1 := m ! (i - 1) AND 0xffff] @ [t ! i - 0xffff - (signed_drop_bit 16 (m ! (i - 1)) AND 1)]) [Suc n..<Suc k] (pre @ [x]) =
   pre @ sub_words x (map (\<lambda>i. t ! i - 0xffff) [Suc n..<Suc k])"
proof (induction "k - n" arbitrary: pre x n)
  case (Suc d)
  then have n: "n < k" "d = k - Suc n" by simp_all
  then have u: "[Suc n..<Suc k] = Suc n # [Suc (Suc n)..<Suc k]" by (simp add: upt_conv_Cons)
  have "length (pre @ [x AND 0xffff]) = Suc n" "Suc n \<le> k" using Suc.prems n by simp_all
  note IH = Suc.hyps(1) [OF n(2) this, of "t ! Suc n - 0xffff - borrow x"]
  have s: "(pre @ [x])[Suc n - 1 := (pre @ [x]) ! (Suc n - 1) AND 0xffff] @ [t ! Suc n - 0xffff - (signed_drop_bit 16 ((pre @ [x]) ! (Suc n - 1)) AND 1)] =
    (pre @ [x AND 0xffff]) @ [t ! Suc n - 0xffff - borrow x]"
    using Suc.prems by (simp add: nth_append list_update_append borrow_def)
  show ?case unfolding u fold_Cons o_apply s IH list.map sub_words.simps by simp
qed simp

lemma sub_words_snoc:
  "sub_words x (ys @ [y]) = (let m = sub_words x ys in m[length ys := m ! length ys AND 0xffff] @ [y - borrow (m ! length ys)])"
  by (induction x ys rule: sub_words.induct) (simp_all add: Let_def)

lemma length_sub_words [simp]: "length (sub_words x ys) = Suc (length ys)"
  by (induction x ys rule: sub_words.induct) simp_all

definition p_sub :: "gf \<Rightarrow> i64 list" where
  "p_sub t = map (\<lambda>i. t ! i - 0xffff) [1..<15] @ [t ! 15 - 0x7fff]"

lemma pack_sub_eq:
  "pack_sub t = (let m = sub_words (t ! 0 - 0xffed) (p_sub t) in (m, sint (borrow (m ! 15))))"
proof -
  let ?m = "sub_words (t ! 0 - 0xffed) (map (\<lambda>i. t ! i - 0xffff) [1..<15])"
  have f: "fold (\<lambda>i m. m[i - 1 := m ! (i - 1) AND 0xffff] @ [t ! i - 0xffff - (signed_drop_bit 16 (m ! (i - 1)) AND 1)]) [1..<15] [t ! 0 - 0xffed] = ?m"
    using pack_fold [of "[]" 0 14 t "t ! 0 - 0xffed"] by simp
  have l: "length ?m = 15" by simp
  define m where "m = ?m"
  have s: "sub_words (t ! 0 - 0xffed) (p_sub t) = m[14 := m ! 14 AND 0xffff] @ [t ! 15 - 0x7fff - borrow (m ! 14)]"
    unfolding p_sub_def sub_words_snoc by (simp add: Let_def m_def)
  show ?thesis unfolding pack_sub_def f s m_def [symmetric] using l [folded m_def]
    by (simp add: Let_def nth_append list_update_append borrow_def)
qed

lemma p_sub_val:
  assumes "gf_canon t"
  shows "gval ((t ! 0 - 0xffed) # p_sub t) = gval t - p25519" "\<forall>y \<in> set (p_sub t). \<bar>sint y\<bar> < 65536" "length (p_sub t) = 15"
    "- 65536 \<le> sint (t ! 0 - 0xffed)" "sint (t ! 0 - 0xffed) < 65536"
proof -
  have r: "0 \<le> sint (t ! i)" "sint (t ! i) < 65536" if "i < 16" for i using assms that by (simp_all add: gf_canon_def)
  have s: "sint (t ! i - 0xffff) = sint (t ! i) - 65535" "sint (t ! i - 0xffed) = sint (t ! i) - 65517" "sint (t ! i - 0x7fff) = sint (t ! i) - 32767"
    if "i < 16" for i using r [OF that] by (simp_all add: sint_sub)
  show "length (p_sub t) = 15" by (simp add: p_sub_def)
  show "- 65536 \<le> sint (t ! 0 - 0xffed)" "sint (t ! 0 - 0xffed) < 65536" using s r [of 0] by simp_all
  have "\<bar>sint (t ! i - 0xffff)\<bar> < 65536" "\<bar>sint (t ! i - 0x7fff)\<bar> < 65536" if "i < 16" for i
    using s [OF that] r [OF that] by simp_all
  then show "\<forall>y \<in> set (p_sub t). \<bar>sint y\<bar> < 65536" by (auto simp: p_sub_def)
  have u: "[0..<16] = [0, 1, 2, 3, 4, 5, 6, 7, 8, 9, 10, 11, 12, 13, 14, 15 :: nat]" "[1..<15] = [1, 2, 3, 4, 5, 6, 7, 8, 9, 10, 11, 12, 13, 14 :: nat]"
    by (simp_all add: upt_rec)
  have "t = map ((!) t) [0..<16]" using assms by (simp add: gf_canon_def list_eq_iff_nth_eq)
  then have "gval t = gval (map ((!) t) [0..<16])" by (simp only:)
  then show "gval ((t ! 0 - 0xffed) # p_sub t) = gval t - p25519"
    unfolding p_sub_def u by (simp add: s p25519_def algebra_simps)
qed

lemma digit_bounds: "\<forall>w \<in> set ws. 0 \<le> sint w \<and> sint w < 65536 \<Longrightarrow> 0 \<le> gval ws \<and> gval ws < 65536 ^ length ws"
  by (induction ws) auto

lemma canon_bounds: "gf_canon t \<Longrightarrow> 0 \<le> gval t \<and> gval t < 2 ^ 256"
  unfolding gf_canon_def using digit_bounds [of t] by simp

lemma pack_round_val:
  assumes "gf_canon t"
  shows "gf_canon (pack_round t) \<and> gval (pack_round t) = (if gval t < p25519 then gval t else gval t - p25519)"
proof -
  define v where "v = gval t - p25519"
  define m where "m = sub_words (t ! 0 - 0xffed) (p_sub t)"
  note q = p_sub_val [OF assms]
  have d: "map sint m = digits 15 v @ [v div 65536 ^ 15]"
    using sub_words_digits [OF q(4,5,2)] unfolding q(1,3) by (simp add: m_def v_def)
  have l: "length m = 16" "length t = 16" using q(3) assms by (simp_all add: m_def gf_canon_def)
  have v: "- (2 ^ 255) \<le> v" "v < 2 ^ 256" using canon_bounds [OF assms] by (simp_all add: v_def p25519_def)
  have top: "sint (m ! 15) = v div 65536 ^ 15"
  proof -
    have "sint (m ! 15) = map sint m ! 15" using l by simp
    then show ?thesis unfolding d by (simp add: nth_append)
  qed
  have t: "- 65536 \<le> v div 65536 ^ 15" "v div 65536 ^ 15 < 65536" using v by auto
  have b: "sint (borrow (m ! 15)) = - (v div 65536 ^ 15 div 65536)" using borrow_val [of "m ! 15"] t unfolding top by simp
  have r: "pack_round t = fst (sel25519 t m (1 - sint (borrow (m ! 15))))" by (simp add: pack_round_def pack_sub_eq m_def Let_def)
  show ?thesis
  proof (cases "gval t < p25519")
    case True
    then have "v div 65536 ^ 15 div 65536 = -1" using v by (auto simp: v_def)
    then have "pack_round t = t" unfolding r b using l by (simp add: sel25519_cases)
    then show ?thesis using assms True by simp
  next
    case False
    then have 0: "0 \<le> v" by (simp add: v_def)
    then have "v div 65536 ^ 15 div 65536 = 0" using v by (simp flip: zdiv_zmult2_eq)
    then have e: "pack_round t = m" unfolding r b using l by (simp add: sel25519_cases)
    have m: "map sint m = digits 16 v" unfolding d using digits_snoc [of 15 v] t 0 by (simp add: div_int_pos_iff)
    then have "gf_canon m" unfolding gf_canon_def using l digits_range by (metis image_eqI set_map)
    moreover have "gval m = v" using gval_digits [OF m] v 0 by simp
    ultimately show ?thesis using False by (simp add: e v_def)
  qed
qed

lemma canon_bytes:
  assumes "gf_canon t"
  shows "int (num_le (concat (map (\<lambda>w. [ucast (w AND 0xff), ucast (signed_drop_bit 8 w)]) t))) = gval t"
proof -
  have "int (num_le (concat (map (\<lambda>w. [ucast (w AND 0xff), ucast (signed_drop_bit 8 w)]) ws))) = gval ws"
    if "\<forall>w \<in> set ws. 0 \<le> sint w \<and> sint w < 65536" for ws :: "i64 list"
    using that
  proof (induction ws)
    case (Cons w ws)
    have w: "0 \<le> sint w" "sint w < 65536" using Cons.prems by simp_all
    have u: "uint (ucast x :: u8) = sint x mod 256" for x :: i64
    proof -
      have "(ucast x :: u8) = of_int (sint x)" by (rule bit_word_eqI) (auto simp: bit_simps)
      then show ?thesis by (simp only: uint_word_of_int) simp
    qed
    have "sint (w AND 0xff) = sint w mod 256" using sint_and_mask [of 8 w] by (simp add: mask_eq_exp_minus_1)
    moreover have "sint w div 256 mod 256 = sint w div 256" using w by simp
    ultimately show ?case using Cons by (simp add: u sint_shr) 
  qed simp
  then show ?thesis using assms by (simp add: gf_canon_def)
qed

lemma car25519_canon:
  assumes "length o' = 16" "within (2 ^ 60) o'"
  shows "gf_canon (car25519 (car25519 (car25519 o')))"
proof -
  let ?o = "car25519 o'" and ?w = "car25519 (car25519 o')"
  have w: "within (2 ^ 61) o'" using assms(2) by (rule within_mono) simp
  note c = car25519_val [OF assms(1) w] and o = car25519_first [OF assms]
  note d = car25519_val [OF c(2) o(1)]
  have r: "length ?w = 16" "within (2 ^ 61) ?w"
    using car25519_twice(1) [OF assms] by (auto simp: gf_red_def intro: within_mono)
  note e = car25519_val [OF r]
  define v where "v = gval ?w"
  have "0 \<le> gval ?o mod 2 ^ 256" "gval ?o mod 2 ^ 256 < 2 ^ 256" by simp_all
  then have v: "- 38 \<le> v" "v < 2 ^ 256 + 38" unfolding v_def d(1) using o(2) by auto
  consider "v < 0" | "0 \<le> v" "v < 2 ^ 256" | "2 ^ 256 \<le> v" by linarith
  then have "0 \<le> v mod 65536 + 38 * (v div 2 ^ 256) \<and> v mod 65536 + 38 * (v div 2 ^ 256) < 65536"
  proof cases
    case 1
    then have "v div 2 ^ 256 = -1" using v by auto
    moreover have "v mod 65536 = v + 65536" using 1 v by (simp add: int_mod_pos_eq [of v 65536 "-1"])
    ultimately show ?thesis using 1 v by simp
  next
    case 2
    then have "v div 2 ^ 256 = 0" by simp
    then show ?thesis by simp
  next
    case 3
    then have "v div 2 ^ 256 = 1" using v by auto
    moreover have "v mod 65536 = v - 2 ^ 256" using 3 v by (intro int_mod_pos_eq [of v 65536 "65536 ^ 15"]) simp_all
    ultimately show ?thesis using 3 v by simp
  qed
  then have "0 \<le> sint (hd (car25519 ?w)) \<and> sint (hd (car25519 ?w)) < 65536" unfolding e(4) v_def .
  moreover obtain y ys where y: "car25519 ?w = y # ys" using e(2) by (cases "car25519 ?w") auto
  ultimately show ?thesis unfolding gf_canon_def using e(2,3) unfolding y by auto
qed

lemma pack25519_val:
  assumes "gf_wide n"
  shows "int (num_le (pack25519 n)) = fval n \<and> length (pack25519 n) = 32"
proof -
  let ?t = "car25519 (car25519 (car25519 n))"
  have n: "length n = 16" "within (2 ^ 60) n" using assms by (auto simp: gf_wide_def intro: within_mono)
  have r: "length (car25519 (car25519 n)) = 16" "within (2 ^ 61) (car25519 (car25519 n))"
    using car25519_twice(1) [OF n] by (auto simp: gf_red_def intro: within_mono)
  have f: "gval ?t mod p25519 = fval n" using car25519_mod [OF r] car25519_twice(2) [OF n] by (simp add: fval_def)
  have t: "gf_canon ?t" by (rule car25519_canon [OF n])
  note p1 = pack_round_val [OF t]
  note p2 = pack_round_val [OF conjunct1 [OF p1]]
  have b: "0 \<le> gval ?t" "gval ?t < 2 * p25519 + 38" using canon_bounds [OF t] by (simp_all add: p25519_def)
  have v: "gval (pack_round (pack_round ?t)) = (if gval ?t < p25519 then gval ?t else if gval ?t < 2 * p25519 then gval ?t - p25519 else gval ?t - 2 * p25519)"
    using p1 p2 b(1) by (simp add: p25519_def)
  have sub: "x mod p25519 = x - q * p25519" if "0 \<le> x - q * p25519" "x - q * p25519 < p25519" for q x
    by (rule int_mod_pos_eq [of x p25519 q]) (use that in simp_all)
  have "p25519 > 38" by (simp add: p25519_def)
  then have "gval (pack_round (pack_round ?t)) = gval ?t mod p25519"
    unfolding v using b sub [of "gval ?t" 1] sub [of "gval ?t" 2] by auto
  moreover have "length (concat (map (\<lambda>w. [g w, h w]) ws)) = 2 * length ws" for g h :: "i64 \<Rightarrow> u8" and ws by (induction ws) simp_all
  ultimately show ?thesis using canon_bytes [OF conjunct1 [OF p2]] conjunct1 [OF p2] f
    by (simp add: pack25519_def gf_canon_def Let_def)
qed

section \<open>Unpacking\<close>

definition byte_pair :: "u8 list \<Rightarrow> nat \<Rightarrow> i64" where
  "byte_pair n i = ucast (n ! (2 * i)) + push_bit 8 (ucast (n ! (2 * i + 1)))"

lemma byte_pair_val: "sint (byte_pair n i) = int (unat (n ! (2 * i)) + 256 * unat (n ! (2 * i + 1)))"
    and byte_pair_range: "0 \<le> sint (byte_pair n i) \<and> sint (byte_pair n i) < 65536"
proof -
  let ?k = "unat (n ! (2 * i)) + 256 * unat (n ! (2 * i + 1))"
  have "byte_pair n i = of_int (int ?k)" by (simp add: byte_pair_def push_bit_eq_mult)
  moreover have k: "?k < 65536" using unat_u8_less [of "n ! (2 * i)"] unat_u8_less [of "n ! (2 * i + 1)"] by simp
  moreover have "sint (of_int (int k) :: i64) = int k" if "k < 65536" for k by (rule sint_of_int64) (use that in simp_all)
  ultimately show v: "sint (byte_pair n i) = int ?k" by (simp only:)
  show "0 \<le> sint (byte_pair n i) \<and> sint (byte_pair n i) < 65536"
    unfolding v using k by (simp only: of_nat_0_le_iff of_nat_less_numeral_iff simp_thms)
qed

lemma gval_pairs: "2 * k \<le> length n \<Longrightarrow> gval (map (byte_pair n) [0..<k]) = int (num_le (take (2 * k) n))"
proof (induction k)
  case (Suc k)
  then have t: "take (2 * Suc k) n = take (2 * k) n @ [n ! (2 * k), n ! (2 * k + 1)]" by (simp add: take_Suc_conv_app_nth)
  have "(256 :: nat) ^ (2 * k) = 65536 ^ k" by (simp add: power_mult)
  then show ?case unfolding t num_le_append using Suc by (simp add: gval_append byte_pair_val algebra_simps)
qed simp

lemma unpack25519_val:
  assumes "32 \<le> length n"
  shows "gf_red (unpack25519 n)" "gval (unpack25519 n) = int (num_le (take 32 n) mod 2 ^ 255)"
proof -
  define t lo where "t = byte_pair n 15" and "lo = gval (map (byte_pair n) [0..<15])"
  have u: "[0..<16] = [0..<15] @ [15 :: nat]" using upt_Suc_append [of 0 15] by simp
  have e: "unpack25519 n = map (byte_pair n) [0..<15] @ [t AND 0x7fff]"
    unfolding unpack25519_def byte_pair_def [symmetric] u by (simp add: t_def nth_append list_update_append Let_def)
  have m: "sint (t AND 0x7fff) = sint t mod 2 ^ 15" using sint_and_mask [of 15 t] by (simp add: mask_eq_exp_minus_1)
  have "\<bar>sint (byte_pair n i)\<bar> \<le> 2 ^ 17" for i using byte_pair_range [of n i] by simp
  moreover have "\<bar>sint t mod 2 ^ 15\<bar> \<le> 2 ^ 17"
  proof -
    have "0 \<le> sint t mod 2 ^ 15" "sint t mod 2 ^ 15 < 2 ^ 15" by simp_all
    then show ?thesis by simp
  qed
  ultimately show "gf_red (unpack25519 n)" unfolding e gf_red_def by (auto simp: within_def m)
  have lo: "0 \<le> lo" "lo < 65536 ^ 15"
    using digit_bounds [of "map (byte_pair n) [0..<15]"] byte_pair_range by (simp_all add: lo_def)
  have "int (num_le (take 32 n)) = lo + 65536 ^ 15 * sint t"
    using gval_pairs [of 16 n] assms by (simp add: u gval_append lo_def t_def)
  moreover have "(lo + 65536 ^ 15 * sint t) mod 2 ^ 255 = lo + 65536 ^ 15 * (sint t mod 2 ^ 15)"
    using zmod_zmult2_eq [of "2 ^ 15" "lo + 65536 ^ 15 * sint t" "65536 ^ 15"] lo by simp
  moreover have "gval (unpack25519 n) = lo + 65536 ^ 15 * (sint t mod 2 ^ 15)" by (simp add: e gval_append m lo_def)
  ultimately show "gval (unpack25519 n) = int (num_le (take 32 n) mod 2 ^ 255)" by (simp add: zmod_int)
qed

section \<open>The standard\<close>

text \<open>The ladder of RFC 7748 on residues.\<close>

definition fadd :: "int \<Rightarrow> int \<Rightarrow> int" where "fadd a b = (a + b) mod p25519"

definition fsub :: "int \<Rightarrow> int \<Rightarrow> int" where "fsub a b = (a - b) mod p25519"

definition fmul :: "int \<Rightarrow> int \<Rightarrow> int" where "fmul a b = a * b mod p25519"

type_synonym points = "int \<times> int \<times> int \<times> int"

definition ladder_step :: "int \<Rightarrow> points \<Rightarrow> points" where
  "ladder_step x1 st =
     (let (x2, z2, x3, z3) = st;
          A = fadd x2 z2; AA = fmul A A; B = fsub x2 z2; BB = fmul B B; E = fsub AA BB;
          C = fadd x3 z3; D = fsub x3 z3; DA = fmul D A; CB = fmul C B;
          s = fadd CB DA; d = fsub CB DA
      in (fmul AA BB, fmul E (fadd (fmul E 121665) AA), fmul s s, fmul (fmul d d) x1))"

definition ladder_bit :: "int \<Rightarrow> bool \<Rightarrow> points \<Rightarrow> points" where
  "ladder_bit x1 b st =
     (if b then case st of (x2, z2, x3, z3) \<Rightarrow> (case ladder_step x1 (x3, z3, x2, z2) of (x2, z2, x3, z3) \<Rightarrow> (x3, z3, x2, z2))
      else ladder_step x1 st)"

definition decode_scalar :: "u8 list \<Rightarrow> nat" where
  "decode_scalar n = num_le ((take 32 n)[0 := n ! 0 AND 248, 31 := (n ! 31 AND 127) OR 64])"

definition decode_u :: "u8 list \<Rightarrow> int" where
  "decode_u u = int (num_le (take 32 u) mod 2 ^ 255) mod p25519"

definition x25519_ref :: "u8 list \<Rightarrow> u8 list \<Rightarrow> int" where
  "x25519_ref n u =
     (case fold (\<lambda>i. ladder_bit (decode_u u) (bit (decode_scalar n) i)) (rev [0..<255]) (1, 0, decode_u u, 1) of
        (x2, z2, x3, z3) \<Rightarrow> fmul x2 (z2 ^ (2 ^ 255 - 21) mod p25519))"

section \<open>The scalar\<close>

lemma bit_digit: "x < 256 \<Longrightarrow> bit (x + 256 * y :: nat) i \<longleftrightarrow> (if i < 8 then bit x i else bit y (i - 8))"
proof (cases "i < 8")
  case True
  then have e: "(256 :: nat) * y = 2 ^ i * (2 ^ (8 - i) * y)" by (simp flip: power_add mult.assoc)
  have "(x + 256 * y) div 2 ^ i = x div 2 ^ i + 2 ^ (8 - i) * y" unfolding e by simp
  moreover have "even (2 ^ (8 - i) * y)" using True by simp
  ultimately show ?thesis using True by (simp add: bit_iff_odd)
next
  case False
  assume "x < 256"
  then have "(x + 256 * y) div 256 = y" by simp
  moreover have "(2 :: nat) ^ i = 256 * 2 ^ (i - 8)" using False power_add [of "2 :: nat" 8 "i - 8"] by simp
  ultimately have "(x + 256 * y) div 2 ^ i = y div 2 ^ (i - 8)" by (simp only: div_mult2_eq)
  then show ?thesis using False by (simp add: bit_iff_odd)
qed

lemma bit_num_le: "i < 8 * length bs \<Longrightarrow> bit (num_le bs) i \<longleftrightarrow> bit (bs ! (i div 8)) (i mod 8)"
proof (induction bs arbitrary: i)
  case (Cons b bs)
  have "bit (unat b) i = bit b i" by (simp add: bit_simps)
  then show ?case using Cons bit_digit [OF unat_u8_less, of b "num_le bs" i]
    by (cases "i < 8") (simp_all add: le_div_geq le_mod_geq)
qed simp

lemma scalar_bytes_eq:
  assumes "length n = 32"
  shows "scalar_bytes n = (take 32 n)[0 := n ! 0 AND 248, 31 := (n ! 31 AND 127) OR 64]"
proof -
  have n: "n = take 31 n @ [n ! 31]" using assms take_Suc_conv_app_nth [of 31 n] by simp
  have "(n[0 := n ! 0 AND 248])[31 := v] = (take 31 n)[0 := n ! 0 AND 248] @ [v]" for v
    by (subst n) (use assms in \<open>simp add: list_update_append nth_append\<close>)
  then show ?thesis using assms by (simp add: scalar_bytes_def Let_def nth_append list_update_append)
qed

lemma scalar_bit_val:
  assumes "length n = 32" "i < 255"
  shows "scalar_bit (scalar_bytes n) i = of_bool (bit (decode_scalar n) i)"
proof -
  have b: "uint (drop_bit k w AND 1) = of_bool (bit w k)" for w :: u8 and k
    by (simp add: and_one_eq bit_iff_odd_drop_bit mod2_eq_if)
  have "length (scalar_bytes n) = 32" using assms(1) by (simp add: scalar_bytes_eq)
  then show ?thesis using assms bit_num_le [of i "scalar_bytes n"]
    by (simp add: scalar_bit_def b decode_scalar_def scalar_bytes_eq)
qed

section \<open>The ladder\<close>

definition stands_for :: "ladder \<Rightarrow> points \<Rightarrow> bool" where
  "stands_for st pt \<longleftrightarrow> (case (st, pt) of ((a, b, c, d), (x2, z2, x3, z3)) \<Rightarrow>
     gf_red a \<and> gf_red b \<and> gf_red c \<and> gf_red d \<and> fval a = x2 \<and> fval c = z2 \<and> fval b = x3 \<and> fval d = z3)"

lemma gf_ops:
  "gf_red a \<Longrightarrow> gf_red b \<Longrightarrow> gf_wide (gf_add a b)" "gf_red a \<Longrightarrow> gf_red b \<Longrightarrow> fval (gf_add a b) = fadd (fval a) (fval b)"
  "gf_red a \<Longrightarrow> gf_red b \<Longrightarrow> gf_wide (gf_sub a b)" "gf_red a \<Longrightarrow> gf_red b \<Longrightarrow> fval (gf_sub a b) = fsub (fval a) (fval b)"
  "gf_wide a \<Longrightarrow> gf_wide b \<Longrightarrow> gf_red (gf_mul a b)" "gf_wide a \<Longrightarrow> gf_wide b \<Longrightarrow> fval (gf_mul a b) = fmul (fval a) (fval b)"
  "gf_wide a \<Longrightarrow> gf_red (gf_sq a)" "gf_wide a \<Longrightarrow> fval (gf_sq a) = fmul (fval a) (fval a)"
  using gf_add_val [of a b] gf_sub_val [of a b] gf_mul_val [of a b] gf_sq_val [of a] by (simp_all add: fadd_def fsub_def fmul_def)

lemma gf_121665_val: "gf_red gf_121665" "fval gf_121665 = 121665"
  by (simp_all add: gf_red_def gf_121665_def fval_def p25519_def numeral_eq_Suc)

definition plain_step :: "gf \<Rightarrow> ladder \<Rightarrow> ladder" where
  "plain_step x st = (case st of (a, b, c, d) \<Rightarrow>
     let e = gf_add a c; a' = gf_sub a c; c' = gf_add b d; b' = gf_sub b d;
         aa = gf_sq e; bb = gf_sq a'; cb = gf_mul c' a'; da = gf_mul b' e;
         s = gf_add cb da; df = gf_sub cb da; ee = gf_sub aa bb
     in (gf_mul aa bb, gf_sq s, gf_mul ee (gf_add (gf_mul ee gf_121665) aa), gf_mul (gf_sq df) x))"

lemma plain_step_val:
  assumes "stands_for st pt" "gf_red x"
  shows "stands_for (plain_step x st) (ladder_step (fval x) pt)"
proof -
  obtain a b c d where st: "st = (a, b, c, d)" by (cases st)
  obtain x2 z2 x3 z3 where pt: "pt = (x2, z2, x3, z3)" by (cases pt)
  have r: "gf_red a" "gf_red b" "gf_red c" "gf_red d" and v: "fval a = x2" "fval c = z2" "fval b = x3" "fval d = z3"
    using assms(1) by (simp_all add: stands_for_def st pt)
  show ?thesis using r assms(2)
    by (simp add: stands_for_def plain_step_def ladder_step_def st pt Let_def gf_ops gf_121665_val red_wide v [symmetric])
qed

lemma x25519_step_val:
  assumes "stands_for st pt" "gf_red x"
  shows "stands_for (x25519_step x (of_bool b) st) (ladder_bit (fval x) b pt)"
proof -
  obtain a b' c d where st: "st = (a, b', c, d)" by (cases st)
  obtain x2 z2 x3 z3 where pt: "pt = (x2, z2, x3, z3)" by (cases pt)
  have l: "length a = 16" "length b' = 16" "length c = 16" "length d = 16" using assms(1) by (simp_all add: stands_for_def st pt gf_red_def)
  have ls: "length e = 16" if "gf_red e" for e using that by (simp add: gf_red_def)
  show ?thesis
  proof (cases b)
    case False
    note p = plain_step_val [OF assms]
    have "x25519_step x 0 st = plain_step x st"
      using p ls by (simp add: x25519_step_def plain_step_def st sel25519_cases l Let_def stands_for_def split: prod.splits)
    then show ?thesis using p False by (simp add: ladder_bit_def)
  next
    case True
    have s: "stands_for (b', a, d, c) (x3, z3, x2, z2)" using assms(1) by (simp add: stands_for_def st pt)
    note p = plain_step_val [OF s assms(2)]
    obtain a2 b2 c2 d2 where e: "plain_step x (b', a, d, c) = (a2, b2, c2, d2)" by (cases "plain_step x (b', a, d, c)")
    have r: "length a2 = 16" "length b2 = 16" "length c2 = 16" "length d2 = 16"
      using p ls by (simp_all add: e stands_for_def split: prod.splits)
    have "x25519_step x 1 st = (b2, a2, d2, c2)"
      using e r by (auto simp: x25519_step_def plain_step_def st sel25519_cases l Let_def)
    then show ?thesis using p True by (simp add: ladder_bit_def e pt stands_for_def split: prod.splits)
  qed
qed

lemma ladder_val:
  assumes "gf_red x" "length n = 32" "stands_for st pt" "\<forall>i \<in> set is. i < 255"
  shows "stands_for (fold (\<lambda>i. x25519_step x (scalar_bit (scalar_bytes n) i)) is st)
    (fold (\<lambda>i. ladder_bit (fval x) (bit (decode_scalar n) i)) is pt)"
  using assms(3,4)
proof (induction "is" arbitrary: st pt)
  case (Cons i "is")
  then show ?case using x25519_step_val [OF Cons.prems(1) assms(1)] by (simp add: scalar_bit_val [OF assms(2)])
qed simp

text \<open>C11: for every scalar and coordinate of 32 bytes, the routine on 16-bit limbs yields 32 bytes which,
  read as a number, are the result the standard defines by its ladder modulo $2^{255} - 19$: the
  scalar is clamped, the top bit of the coordinate is ignored, and the result is canonical.\<close>

theorem x25519_correct:
  assumes "length n = 32" "length p = 32"
  shows "int (num_le (x25519 n p)) = x25519_ref n p \<and> length (x25519 n p) = 32"
proof -
  let ?x = "unpack25519 p"
  have x: "gf_red ?x" "fval ?x = decode_u p" using unpack25519_val [of p] assms(2) by (simp_all add: fval_def decode_u_def)
  have c: "gf_red (1 # replicate 15 0)" "fval (1 # replicate 15 0) = 1" "gf_red (replicate 16 0)" "fval (replicate 16 0) = 0"
    by (simp_all add: gf_red_def fval_def p25519_def numeral_eq_Suc)
  have "stands_for (1 # replicate 15 0, ?x, replicate 16 0, 1 # replicate 15 0) (1, 0, decode_u p, 1)"
    using x c by (simp add: stands_for_def)
  note lad = ladder_val [OF x(1) assms(1) this, of "rev [0..<255]"]
  obtain a b c' d where f: "fold (\<lambda>i. x25519_step ?x (scalar_bit (scalar_bytes n) i)) (rev [0..<255])
    (1 # replicate 15 0, ?x, replicate 16 0, 1 # replicate 15 0) = (a, b, c', d)" by (metis prod_cases4)
  obtain x2 z2 x3 z3 where g: "fold (\<lambda>i. ladder_bit (decode_u p) (bit (decode_scalar n) i)) (rev [0..<255]) (1, 0, decode_u p, 1) = (x2, z2, x3, z3)"
    by (metis prod_cases4)
  have r: "gf_red a" "gf_red c'" "fval a = x2" "fval c' = z2" using lad unfolding x(2) f g by (simp_all add: stands_for_def)
  note i = inv25519_val [OF red_wide [OF r(2)]]
  note m = gf_mul_val [OF red_wide [OF r(1)] red_wide [OF i(1)]]
  have "x25519 n p = pack25519 (gf_mul a (inv25519 c'))" unfolding x25519_def Let_def f by simp
  moreover have "x25519_ref n p = fval (gf_mul a (inv25519 c'))" unfolding x25519_ref_def g m(2) i(2) r by (simp add: fmul_def)
  ultimately show ?thesis using pack25519_val [OF red_wide [OF m(1)]] by simp
qed

theorem x25519_correct_witness:
  "int (num_le (x25519 (replicate 32 77) (9 # replicate 31 0))) = x25519_ref (replicate 32 77) (9 # replicate 31 0) \<and>
   length (x25519 (replicate 32 77) (9 # replicate 31 0)) = 32"
  using x25519_correct [of "replicate 32 77" "9 # replicate 31 0"] by simp

end
