(* ===== verification/KSha256.thy ===== *)
theory KSha256
  imports KWords
begin

text \<open>
  SHA-256 and HMAC-SHA256 of \<^verbatim>\<open>kernel/crypto/sha256.cpp\<close>: a context that buffers bytes until a
  block of 64 is full, the compression of a block, the padding written into the context's own
  buffer when the digest is taken, and the keyed hash. The lemmas show that however the input is
  split over calls the context stands for the bytes fed so far, and that the digest is the one the
  standard defines on the padded message.
\<close>

section \<open>The compression\<close>

record sha256_ctx =
  sh_state :: "u32 list"
  sh_bitlen :: u64
  sh_data :: "u8 list"
  sh_datalen :: nat

definition rotr :: "u32 \<Rightarrow> nat \<Rightarrow> u32" where
  "rotr x n = drop_bit n x OR push_bit (32 - n) x"

definition sha_ch :: "u32 \<Rightarrow> u32 \<Rightarrow> u32 \<Rightarrow> u32" where
  "sha_ch x y z = (x AND y) XOR (NOT x AND z)"

definition sha_maj :: "u32 \<Rightarrow> u32 \<Rightarrow> u32 \<Rightarrow> u32" where
  "sha_maj x y z = (x AND y) XOR (x AND z) XOR (y AND z)"

definition bsig0 :: "u32 \<Rightarrow> u32" where
  "bsig0 x = rotr x 2 XOR rotr x 13 XOR rotr x 22"

definition bsig1 :: "u32 \<Rightarrow> u32" where
  "bsig1 x = rotr x 6 XOR rotr x 11 XOR rotr x 25"

definition ssig0 :: "u32 \<Rightarrow> u32" where
  "ssig0 x = rotr x 7 XOR rotr x 18 XOR drop_bit 3 x"

definition ssig1 :: "u32 \<Rightarrow> u32" where
  "ssig1 x = rotr x 17 XOR rotr x 19 XOR drop_bit 10 x"

text \<open>The round constants, in the rows of the table \<^verbatim>\<open>K\<close>.\<close>

definition sha_K :: "u32 list" where
  "sha_K = concat [
    [0x428a2f98, 0x71374491, 0xb5c0fbcf, 0xe9b5dba5, 0x3956c25b, 0x59f111f1, 0x923f82a4, 0xab1c5ed5],
    [0xd807aa98, 0x12835b01, 0x243185be, 0x550c7dc3, 0x72be5d74, 0x80deb1fe, 0x9bdc06a7, 0xc19bf174],
    [0xe49b69c1, 0xefbe4786, 0x0fc19dc6, 0x240ca1cc, 0x2de92c6f, 0x4a7484aa, 0x5cb0a9dc, 0x76f988da],
    [0x983e5152, 0xa831c66d, 0xb00327c8, 0xbf597fc7, 0xc6e00bf3, 0xd5a79147, 0x06ca6351, 0x14292967],
    [0x27b70a85, 0x2e1b2138, 0x4d2c6dfc, 0x53380d13, 0x650a7354, 0x766a0abb, 0x81c2c92e, 0x92722c85],
    [0xa2bfe8a1, 0xa81a664b, 0xc24b8b70, 0xc76c51a3, 0xd192e819, 0xd6990624, 0xf40e3585, 0x106aa070],
    [0x19a4c116, 0x1e376c08, 0x2748774c, 0x34b0bcb5, 0x391c0cb3, 0x4ed8aa4a, 0x5b9cca4f, 0x682e6ff3],
    [0x748f82ee, 0x78a5636f, 0x84c87814, 0x8cc70208, 0x90befffa, 0xa4506ceb, 0xbef9a3f7, 0xc67178f2]]"

definition sha_word :: "u8 list \<Rightarrow> nat \<Rightarrow> u32" where
  "sha_word d i = push_bit 24 (ucast (d ! (i * 4))) OR push_bit 16 (ucast (d ! (i * 4 + 1))) OR
     push_bit 8 (ucast (d ! (i * 4 + 2))) OR ucast (d ! (i * 4 + 3))"

definition sha_schedule :: "u8 list \<Rightarrow> u32 list" where
  "sha_schedule d =
     fold (\<lambda>i m. m @ [ssig1 (m ! (i - 2)) + m ! (i - 7) + ssig0 (m ! (i - 15)) + m ! (i - 16)])
       [16..<64] (map (sha_word d) [0..<16])"

fun sha_round :: "u32 list \<Rightarrow> nat \<Rightarrow> u32 list \<Rightarrow> u32 list" where
  "sha_round m i [a, b, c, dd, e, f, g, h] =
     (let t1 = h + bsig1 e + sha_ch e f g + sha_K ! i + m ! i;
          t2 = bsig0 a + sha_maj a b c
      in [t1 + t2, a, b, c, dd + t1, e, f, g])"
| "sha_round m i st = st"

definition sha256_transform :: "sha256_ctx \<Rightarrow> u8 list \<Rightarrow> sha256_ctx" where
  "sha256_transform ctx d =
     ctx\<lparr>sh_state := map2 (+) (sh_state ctx) (fold (sha_round (sha_schedule d)) [0..<64] (sh_state ctx))\<rparr>"

section \<open>The context\<close>

definition sha256_init :: "sha256_ctx \<Rightarrow> sha256_ctx" where
  "sha256_init ctx = ctx
     \<lparr>sh_state := [0x6a09e667, 0xbb67ae85, 0x3c6ef372, 0xa54ff53a, 0x510e527f, 0x9b05688c, 0x1f83d9ab, 0x5be0cd19],
      sh_bitlen := 0, sh_datalen := 0\<rparr>"

definition sha256_byte :: "u8 \<Rightarrow> sha256_ctx \<Rightarrow> sha256_ctx" where
  "sha256_byte b ctx =
     (let ctx = ctx\<lparr>sh_data := (sh_data ctx)[sh_datalen ctx := b], sh_datalen := sh_datalen ctx + 1\<rparr>
      in if sh_datalen ctx = 64
         then (sha256_transform ctx (sh_data ctx))\<lparr>sh_bitlen := sh_bitlen ctx + 512, sh_datalen := 0\<rparr>
         else ctx)"

definition sha256_update :: "sha256_ctx \<Rightarrow> u8 list \<Rightarrow> sha256_ctx" where
  "sha256_update ctx data = fold sha256_byte data ctx"

definition zero_fill :: "nat \<Rightarrow> nat \<Rightarrow> u8 list \<Rightarrow> u8 list" where
  "zero_fill i n d = fold (\<lambda>j d. d[j := 0]) [i..<n] d"

definition sha256_final :: "sha256_ctx \<Rightarrow> sha256_ctx \<times> u8 list" where
  "sha256_final ctx =
     (let i = sh_datalen ctx;
          bl = sh_bitlen ctx + of_nat (sh_datalen ctx) * 8;
          d = (sh_data ctx)[i := 0x80]; i = i + 1;
          ctx = ctx\<lparr>sh_bitlen := bl, sh_data := d\<rparr>;
          (ctx, i) = (if 56 < i
             then (let ctx = ctx\<lparr>sh_data := zero_fill i 64 (sh_data ctx)\<rparr> in (sha256_transform ctx (sh_data ctx), 0))
             else (ctx, i));
          d = zero_fill i 56 (sh_data ctx);
          d = fold (\<lambda>j d. d[56 + j := ucast (drop_bit (56 - 8 * j) bl)]) [0..<8] d;
          ctx = sha256_transform (ctx\<lparr>sh_data := d\<rparr>) d
      in (ctx, concat (map (\<lambda>w. [ucast (drop_bit 24 w), ucast (drop_bit 16 w), ucast (drop_bit 8 w), ucast w]) (sh_state ctx))))"

definition sha256 :: "sha256_ctx \<Rightarrow> u8 list \<Rightarrow> u8 list" where
  "sha256 ctx data = snd (sha256_final (sha256_update (sha256_init ctx) data))"

text \<open>The context on the stack of a caller starts with arbitrary contents, the parameter \<open>ctx\<close>.\<close>

definition hmac_sha256 :: "sha256_ctx \<Rightarrow> u8 list \<Rightarrow> u8 list \<Rightarrow> u8 list" where
  "hmac_sha256 ctx key msg =
     (let k = (if 64 < length key then sha256 ctx key @ replicate 32 0 else key @ replicate (64 - length key) 0);
          ipad = map (\<lambda>b. b XOR 0x36) k;
          opad = map (\<lambda>b. b XOR 0x5c) k;
          (ctx, inner) = sha256_final (sha256_update (sha256_update (sha256_init ctx) ipad) msg);
          (ctx, out) = sha256_final (sha256_update (sha256_update (sha256_init ctx) opad) inner)
      in out)"

section \<open>The standard\<close>

text \<open>The hash as FIPS 180-4 defines it on a whole message: a one bit, zeros and the length in bits
  complete the message to a multiple of 64 bytes, and the blocks are compressed in turn.\<close>

definition sha_block :: "u32 list \<Rightarrow> u8 list \<Rightarrow> u32 list" where
  "sha_block st d = map2 (+) st (fold (sha_round (sha_schedule d)) [0..<64] st)"

fun sha_blocks :: "u32 list \<Rightarrow> u8 list \<Rightarrow> u32 list" where
  "sha_blocks st m = (if length m < 64 then st else sha_blocks (sha_block st (take 64 m)) (drop 64 m))"

declare sha_blocks.simps [simp del]

definition sha_H0 :: "u32 list" where
  "sha_H0 = [0x6a09e667, 0xbb67ae85, 0x3c6ef372, 0xa54ff53a, 0x510e527f, 0x9b05688c, 0x1f83d9ab, 0x5be0cd19]"

definition be64 :: "nat \<Rightarrow> u8 list" where
  "be64 n = map (\<lambda>j. of_nat (n div 2 ^ (56 - 8 * j))) [0..<8]"

definition sha_pad :: "u8 list \<Rightarrow> u8 list" where
  "sha_pad m = m @ [0x80] @ replicate ((119 - length m mod 64) mod 64) 0 @ be64 (8 * length m)"

definition sha_bytes :: "u32 list \<Rightarrow> u8 list" where
  "sha_bytes ws = concat (map (\<lambda>w. [ucast (drop_bit 24 w), ucast (drop_bit 16 w), ucast (drop_bit 8 w), ucast w]) ws)"

definition sha256_ref :: "u8 list \<Rightarrow> u8 list" where
  "sha256_ref m = sha_bytes (sha_blocks sha_H0 (sha_pad m))"

definition hmac_ref :: "u8 list \<Rightarrow> u8 list \<Rightarrow> u8 list" where
  "hmac_ref key msg =
     (let k0 = if 64 < length key then sha256_ref key else key;
          k = k0 @ replicate (64 - length k0) 0
      in sha256_ref (map (\<lambda>b. b XOR 0x5c) k @ sha256_ref (map (\<lambda>b. b XOR 0x36) k @ msg)))"

section \<open>What a context stands for\<close>

definition absorbed :: "sha256_ctx \<Rightarrow> u8 list \<Rightarrow> bool" where
  "absorbed ctx m \<longleftrightarrow>
     (let a = take (64 * (length m div 64)) m; r = drop (64 * (length m div 64)) m
      in length (sh_data ctx) = 64 \<and> sh_datalen ctx = length r \<and> take (length r) (sh_data ctx) = r \<and>
         sh_state ctx = sha_blocks sha_H0 a \<and> sh_bitlen ctx = of_nat (8 * length a))"

lemma sha_blocks_append: "64 dvd length a \<Longrightarrow> sha_blocks st (a @ b) = sha_blocks (sha_blocks st a) b"
proof (induction st a rule: sha_blocks.induct)
  case (1 st a)
  show ?case
  proof (cases "length a < 64")
    case True
    then have "a = []" using "1.prems" by (auto dest: dvd_imp_le)
    then show ?thesis by (simp add: sha_blocks.simps [of st "[]"])
  next
    case False
    moreover have "64 dvd length (drop 64 a)" using "1.prems" False by simp
    ultimately show ?thesis using "1.IH"
      by (simp add: sha_blocks.simps [of st "a @ b"] sha_blocks.simps [of st a])
  qed
qed

lemma sha_blocks_one: "length a = 64 \<Longrightarrow> sha_blocks st a = sha_block st a"
  by (simp add: sha_blocks.simps [of st a] sha_blocks.simps [of _ "[]"])

lemma absorbed_split:
  assumes "64 dvd length a" "length r < 64"
  shows "absorbed ctx (a @ r) \<longleftrightarrow> length (sh_data ctx) = 64 \<and> sh_datalen ctx = length r \<and>
    take (length r) (sh_data ctx) = r \<and> sh_state ctx = sha_blocks sha_H0 a \<and> sh_bitlen ctx = of_nat (8 * length a)"
proof -
  obtain q where q: "length a = 64 * q" using assms(1) by (rule dvdE)
  then have "64 * (length (a @ r) div 64) = length a" using assms(2) by simp
  then show ?thesis by (simp add: absorbed_def Let_def)
qed

lemma split_blocks: "\<exists>a r. m = a @ r \<and> 64 dvd length a \<and> length r < (64 :: nat)"
proof -
  have "length (drop (64 * (length m div 64)) m) < 64" by (simp add: minus_mult_div_eq_mod)
  moreover have "64 dvd length (take (64 * (length m div 64)) m)" by simp
  ultimately show ?thesis by (metis append_take_drop_id)
qed

lemma sha256_byte_absorbed:
  assumes "absorbed ctx m"
  shows "absorbed (sha256_byte b ctx) (m @ [b])"
proof -
  obtain a r where m: "m = a @ r" and a: "64 dvd length a" and r: "length r < 64" using split_blocks by blast
  then have c: "length (sh_data ctx) = 64" "sh_datalen ctx = length r" "take (length r) (sh_data ctx) = r"
    "sh_state ctx = sha_blocks sha_H0 a" "sh_bitlen ctx = of_nat (8 * length a)" using assms absorbed_split by blast+
  have d: "take (Suc (length r)) ((sh_data ctx)[length r := b]) = r @ [b]"
    using c(1,3) r by (simp add: take_Suc_conv_app_nth)
  show ?thesis
  proof (cases "length r = 63")
    case True
    then have e: "(sh_data ctx)[length r := b] = r @ [b]" using d c(1) by simp
    have "absorbed (sha256_byte b ctx) ((a @ r @ [b]) @ [])"
      using True c a e by (subst absorbed_split)
        (simp_all add: sha256_byte_def sha256_transform_def sha_blocks_append sha_blocks_one sha_block_def Let_def algebra_simps)
    then show ?thesis by (simp add: m)
  next
    case False
    then have "absorbed (sha256_byte b ctx) (a @ r @ [b])"
      using c a r d by (subst absorbed_split) (simp_all add: sha256_byte_def Let_def)
    then show ?thesis by (simp add: m)
  qed
qed

lemma sha256_update_absorbed: "absorbed ctx m \<Longrightarrow> absorbed (sha256_update ctx d) (m @ d)"
proof (induction d arbitrary: ctx m)
  case (Cons b d)
  from Cons.IH [OF sha256_byte_absorbed [OF Cons.prems]] show ?case by (simp add: sha256_update_def)
qed (simp add: sha256_update_def)

lemma sha256_init_absorbed: "length (sh_data ctx) = 64 \<Longrightarrow> absorbed (sha256_init ctx) []"
  by (simp add: absorbed_def sha256_init_def sha_H0_def sha_blocks.simps)

section \<open>The digest\<close>

lemma zero_fill_eq: "i \<le> n \<Longrightarrow> n \<le> length d \<Longrightarrow> zero_fill i n d = take i d @ replicate (n - i) 0 @ drop n d"
proof (induction n)
  case (Suc n)
  show ?case
  proof (cases "i = Suc n")
    case True
    then show ?thesis by (simp add: zero_fill_def)
  next
    case False
    then have "zero_fill i (Suc n) d = (zero_fill i n d)[n := 0]" using Suc.prems by (simp add: zero_fill_def)
    also have "\<dots> = (take i d @ replicate (n - i) 0 @ drop n d)[n := 0]" using Suc False by simp
    also have "\<dots> = take i d @ replicate (Suc n - i) 0 @ drop (Suc n) d"
      using Suc.prems False by (simp add: list_update_append Cons_nth_drop_Suc [symmetric] Suc_diff_le replicate_app_Cons_same)
    finally show ?thesis .
  qed
qed (simp add: zero_fill_def)

lemma of_nat_byte: "k \<le> 56 \<Longrightarrow> of_nat (n mod 2 ^ 64 div 2 ^ k) = (of_nat (n div 2 ^ k) :: u8)"
proof -
  assume k: "k \<le> 56"
  have "take_bit 8 (drop_bit k (take_bit 64 n)) = take_bit 8 (drop_bit k n)"
    by (rule bit_eqI) (use k in \<open>auto simp: bit_simps\<close>)
  then show ?thesis by (simp add: word_of_nat_eq_iff take_bit_eq_mod drop_bit_eq_div)
qed

lemma ucast_length_byte: "ucast (drop_bit (56 - 8 * j) (of_nat n :: u64)) = (of_nat (n div 2 ^ (56 - 8 * j)) :: u8)"
proof -
  have "ucast (drop_bit k w) = (of_nat (unat w div 2 ^ k) :: u8)" for k and w :: u64
    by (simp flip: unat_shr)
  then have "ucast (drop_bit (56 - 8 * j) (of_nat n :: u64)) = (of_nat (n mod 2 ^ 64 div 2 ^ (56 - 8 * j)) :: u8)"
    by (simp only: unat_of_nat) simp
  then show ?thesis by (simp only: of_nat_byte diff_le_self)
qed

lemma length_fill:
  assumes "length d = 64"
  shows "fold (\<lambda>j d. d[56 + j := ucast (drop_bit (56 - 8 * j) (of_nat n :: u64))]) [0..<8] d = take 56 d @ be64 n"
proof -
  define f where "f = (\<lambda>j. ucast (drop_bit (56 - 8 * j) (of_nat n :: u64)) :: u8)"
  have "fold (\<lambda>j d. d[56 + j := f j]) [0..<k] d = take 56 d @ map f [0..<k] @ drop (56 + k) d" if "k \<le> 8" for k
    using that
  proof (induction k)
    case (Suc k)
    then show ?case using assms
      by (simp add: list_update_append Cons_nth_drop_Suc [symmetric])
  qed simp
  from this [of 8] have "fold (\<lambda>j d. d[56 + j := f j]) [0..<8] d = take 56 d @ map f [0..<8]" using assms by simp
  then show ?thesis unfolding f_def be64_def ucast_length_byte .
qed

lemma length_be64 [simp]: "length (be64 n) = 8"
  by (simp add: be64_def)

lemma sha256_ref_short:
  assumes "64 dvd length a" "length r < 56"
  shows "sha256_ref (a @ r) =
    sha_bytes (sha_block (sha_blocks sha_H0 a) (r @ 0x80 # replicate (55 - length r) 0 @ be64 (8 * length (a @ r))))"
proof -
  have "length (a @ r) mod 64 = length r" using assms by (auto elim!: dvdE)
  moreover have "119 - length r = 55 - length r + 64" using assms(2) by simp
  then have "(119 - length r) mod 64 = 55 - length r" by (simp only: mod_add_self2) simp
  ultimately have "sha_pad (a @ r) = a @ (r @ 0x80 # replicate (55 - length r) 0 @ be64 (8 * length (a @ r)))"
    by (simp only: sha_pad_def append_assoc append_Cons append_Nil)
  then show ?thesis unfolding sha256_ref_def using assms(2) by (simp only: sha_blocks_append [OF assms(1)]) (simp add: sha_blocks_one)
qed

lemma sha256_ref_long:
  assumes "64 dvd length a" "56 \<le> length r" "length r < 64"
  shows "sha256_ref (a @ r) =
    sha_bytes (sha_block (sha_block (sha_blocks sha_H0 a) (r @ 0x80 # replicate (63 - length r) 0))
      (replicate 56 0 @ be64 (8 * length (a @ r))))"
proof -
  have "length (a @ r) mod 64 = length r" using assms by (auto elim!: dvdE)
  moreover have "(119 - length r) mod 64 = (63 - length r) + 56" using assms(2,3) by simp
  ultimately have "sha_pad (a @ r) = a @ (r @ 0x80 # replicate (63 - length r) 0) @ (replicate 56 0 @ be64 (8 * length (a @ r)))"
    by (simp only: sha_pad_def append_assoc append_Cons append_Nil replicate_add)
  moreover have "64 dvd length (r @ 0x80 # replicate (63 - length r) (0 :: u8))" using assms(2,3) by simp
  ultimately show ?thesis unfolding sha256_ref_def using assms(2,3)
    by (simp only: sha_blocks_append [OF assms(1)] sha_blocks_append) (simp add: sha_blocks_one)
qed

lemma sha256_final_digest:
  assumes "absorbed ctx m"
  shows "snd (sha256_final ctx) = sha256_ref m \<and> length (sh_data (fst (sha256_final ctx))) = 64"
proof -
  obtain a r where m: "m = a @ r" and a: "64 dvd length a" and r: "length r < 64" using split_blocks by blast
  then have c: "length (sh_data ctx) = 64" "sh_datalen ctx = length r" "take (length r) (sh_data ctx) = r"
    "sh_state ctx = sha_blocks sha_H0 a" "sh_bitlen ctx = of_nat (8 * length a)" using assms absorbed_split by blast+
  define n where "n = 8 * length (a @ r)"
  have bl: "sh_bitlen ctx + of_nat (length r) * 8 = of_nat n" by (simp add: c n_def algebra_simps)
  define d where "d = (sh_data ctx)[length r := 0x80]"
  have d: "take (Suc (length r)) d = r @ [0x80]" "length d = 64"
    using c(1,3) r by (simp_all add: d_def take_Suc_conv_app_nth)
  show ?thesis
  proof (cases "length r < 56")
    case True
    have z: "take 56 (zero_fill (Suc (length r)) 56 d) = r @ 0x80 # replicate (55 - length r) 0"
      "length (zero_fill (Suc (length r)) 56 d) = 64" using True d by (simp_all add: zero_fill_eq take_Cons')
    then show ?thesis
      unfolding m sha256_ref_short [OF a True] n_def [symmetric] sha256_final_def Let_def bl c(2) d_def [symmetric] using True c(4)
      by (simp add: length_fill sha256_transform_def sha_block_def sha_bytes_def)
  next
    case False
    then have l: "56 \<le> length r" by simp
    have z: "zero_fill (Suc (length r)) 64 d = r @ 0x80 # replicate (63 - length r) 0" using r d by (simp add: zero_fill_eq)
    show ?thesis
      unfolding m sha256_ref_long [OF a l r] n_def [symmetric] sha256_final_def Let_def bl c(2) d_def [symmetric] using l r z c(4)
      by (simp add: length_fill zero_fill_eq [of 0] sha256_transform_def sha_block_def sha_bytes_def)
  qed
qed

lemma sha256_digest: "length (sh_data ctx) = 64 \<Longrightarrow> sha256 ctx data = sha256_ref data"
  using sha256_final_digest [OF sha256_update_absorbed [OF sha256_init_absorbed], of ctx data] by (simp add: sha256_def)

lemma length_sha_round [simp]: "length st = 8 \<Longrightarrow> length (sha_round m i st) = 8"
  by (induction m i st rule: sha_round.induct) (simp_all add: Let_def)

lemma length_sha_block [simp]: "length st = 8 \<Longrightarrow> length (sha_block st d) = 8"
proof -
  assume "length st = 8"
  then have "length (fold (sha_round m) is st) = 8" for m "is" by (induction "is" arbitrary: st) simp_all
  then show ?thesis using \<open>length st = 8\<close> by (simp add: sha_block_def)
qed

lemma length_sha256_ref [simp]: "length (sha256_ref m) = 32"
proof -
  have "length (sha_bytes ws) = 4 * length ws" for ws by (induction ws) (simp_all add: sha_bytes_def)
  moreover have "length (sha_blocks st x) = 8" if "length st = 8" for st x
    using that by (induction st x rule: sha_blocks.induct) (simp add: sha_blocks.simps)
  ultimately show ?thesis by (simp add: sha256_ref_def sha_H0_def)
qed

text \<open>C21: the digest of an input fed to a context in any number of pieces is the one the standard
  defines on the concatenation, whatever the context held before; the length in the padding is the
  length in bits modulo $2^{64}$, so the agreement is with the standard on all its inputs.\<close>

theorem sha256_streaming:
  assumes "length (sh_data ctx) = 64"
  shows "snd (sha256_final (fold (\<lambda>d c. sha256_update c d) pieces (sha256_init ctx))) = sha256_ref (concat pieces)"
proof -
  have "absorbed (fold (\<lambda>d c. sha256_update c d) ps c) (m @ concat ps)" if "absorbed c m" for ps c m
    using that
  proof (induction ps arbitrary: c m)
    case (Cons d ps)
    from Cons.IH [OF sha256_update_absorbed [OF Cons.prems]] show ?case by simp
  qed simp
  from this [OF sha256_init_absorbed [OF assms], of pieces] show ?thesis by (simp add: sha256_final_digest)
qed

theorem sha256_streaming_witness:
  "snd (sha256_final (fold (\<lambda>d c. sha256_update c d) [[97], [98, 99]]
     (sha256_init \<lparr>sh_state = [], sh_bitlen = 5, sh_data = replicate 64 3, sh_datalen = 9\<rparr>))) = sha256_ref [97, 98, 99]"
  using sha256_streaming [of "\<lparr>sh_state = [], sh_bitlen = 5, sh_data = replicate 64 3, sh_datalen = 9\<rparr>" "[[97], [98, 99]]"] by simp

text \<open>Fact: the keyed hash is HMAC over the standard's hash, for keys shorter and longer than a block.\<close>

theorem hmac_sha256_correct:
  assumes "length (sh_data ctx) = 64"
  shows "hmac_sha256 ctx key msg = hmac_ref key msg"
proof -
  have two: "snd (sha256_final (sha256_update (sha256_update (sha256_init c) x) y)) = sha256_ref (x @ y) \<and>
    length (sh_data (fst (sha256_final (sha256_update (sha256_update (sha256_init c) x) y)))) = 64" if "length (sh_data c) = 64" for c x y
    using sha256_final_digest [OF sha256_update_absorbed [OF sha256_update_absorbed [OF sha256_init_absorbed [OF that]]], of x y] by simp
  show ?thesis
    using two [OF assms] two assms
    by (simp add: hmac_sha256_def hmac_ref_def sha256_digest Let_def case_prod_unfold)
qed

theorem hmac_sha256_correct_witness:
  "hmac_sha256 \<lparr>sh_state = [], sh_bitlen = 5, sh_data = replicate 64 3, sh_datalen = 9\<rparr> (replicate 100 1) [2, 3] = hmac_ref (replicate 100 1) [2, 3]"
  using hmac_sha256_correct [of "\<lparr>sh_state = [], sh_bitlen = 5, sh_data = replicate 64 3, sh_datalen = 9\<rparr>"] by simp

end
