(* ===== verification/KRng.thy ===== *)
theory KRng
  imports KChaCha KSha256
begin

text \<open>
  The random number generator of \<^verbatim>\<open>kernel/crypto/rng.cpp\<close>: a ChaCha20 key and nonce derived by
  SHA-256 from the clocks and a running counter, the keystream handed out block by block, and a new
  key after every 64 blocks. The readings of the processor's time stamp and of the timer are the
  parameter \<open>clock\<close>, indexed by the number of the seeding.
\<close>

record rng =
  g_key :: "u8 list"
  g_nonce :: "u8 list"
  g_counter :: u32
  g_mix :: u64
  g_ready :: bool
  seedings :: nat

type_synonym clock = "nat \<Rightarrow> u64 \<times> u32 \<times> u32"

definition le64 :: "u64 \<Rightarrow> u8 list" where
  "le64 w = map (\<lambda>i. ucast (drop_bit (8 * i) w)) [0..<8]"

definition rng_reseed_locked :: "sha256_ctx \<Rightarrow> clock \<Rightarrow> rng \<Rightarrow> rng" where
  "rng_reseed_locked ctx clock g =
     (let (tsc, ms, jiffies) = clock (seedings g);
          digest = sha256 ctx (le64 tsc @ le64 (ucast ms) @ le64 (ucast jiffies) @ le64 (g_mix g))
      in g\<lparr>g_key := take 32 digest, g_nonce := map (\<lambda>i. digest ! (31 - i)) [0..<12], g_counter := 0,
           seedings := seedings g + 1\<rparr>)"

definition rng_init :: "sha256_ctx \<Rightarrow> clock \<Rightarrow> rng \<Rightarrow> rng" where
  "rng_init ctx clock g =
     (if g_ready g then g
      else (rng_reseed_locked ctx clock (g\<lparr>g_mix := 0x9E3779B97F4A7C15\<rparr>))\<lparr>g_ready := True\<rparr>)"

definition rng_block :: "sha256_ctx \<Rightarrow> clock \<Rightarrow> rng \<Rightarrow> rng" where
  "rng_block ctx clock g =
     (let g = g\<lparr>g_counter := g_counter g + 1, g_mix := g_mix g + 0x9E3779B97F4A7C15\<rparr>
      in if g_counter g AND 0x3F = 0 then rng_reseed_locked ctx clock g else g)"

function rng_loop :: "sha256_ctx \<Rightarrow> clock \<Rightarrow> rng \<Rightarrow> nat \<Rightarrow> rng \<times> u8 list" where
  "rng_loop ctx clock g n =
     (if n = 0 then (g, [])
      else let block = chacha20_xor (replicate 64 0) (g_key g) (g_nonce g) (g_counter g);
               c = (if n < 64 then n else 64);
               (g', rest) = rng_loop ctx clock (rng_block ctx clock g) (n - c)
           in (g', take c block @ rest))"
  by pat_completeness auto
termination by (relation "measure (\<lambda>(ctx, clock, g, n). n)") auto

declare rng_loop.simps [simp del]

definition rng_bytes :: "sha256_ctx \<Rightarrow> clock \<Rightarrow> rng \<Rightarrow> nat \<Rightarrow> rng \<times> u8 list" where
  "rng_bytes ctx clock g n = rng_loop ctx clock (rng_init ctx clock g) n"

definition rng_u32 :: "sha256_ctx \<Rightarrow> clock \<Rightarrow> rng \<Rightarrow> rng \<times> u32" where
  "rng_u32 ctx clock g = (let (g, bs) = rng_bytes ctx clock g 4 in (g, get32 bs 0))"

section \<open>What the generator promises\<close>

text \<open>A seeded generator has a whole key and nonce and has used fewer than 64 blocks of its key.\<close>

definition rng_ok :: "rng \<Rightarrow> bool" where
  "rng_ok g \<longleftrightarrow> g_ready g \<and> length (g_key g) = 32 \<and> length (g_nonce g) = 12 \<and> unat (g_counter g) < 64"

lemma reseed_ok:
  assumes "length (sh_data ctx) = 64"
  shows "length (g_key (rng_reseed_locked ctx clock g)) = 32 \<and> length (g_nonce (rng_reseed_locked ctx clock g)) = 12 \<and>
    g_counter (rng_reseed_locked ctx clock g) = 0 \<and> g_ready (rng_reseed_locked ctx clock g) = g_ready g \<and>
    seedings (rng_reseed_locked ctx clock g) = seedings g + 1"
  using assms by (simp add: rng_reseed_locked_def sha256_digest Let_def split: prod.split)

lemma rng_init_ok:
  assumes "length (sh_data ctx) = 64" "g_ready g \<longrightarrow> rng_ok g"
  shows "rng_ok (rng_init ctx clock g)"
  using assms reseed_ok [OF assms(1)] by (auto simp: rng_init_def rng_ok_def)

lemma rng_block_cases:
  assumes "length (sh_data ctx) = 64" "rng_ok g"
  shows "rng_ok (rng_block ctx clock g)"
    and "unat (g_counter g) < 63 \<Longrightarrow> g_key (rng_block ctx clock g) = g_key g \<and> g_nonce (rng_block ctx clock g) = g_nonce g \<and>
      g_counter (rng_block ctx clock g) = g_counter g + 1 \<and> seedings (rng_block ctx clock g) = seedings g"
    and "unat (g_counter g) = 63 \<Longrightarrow> g_counter (rng_block ctx clock g) = 0 \<and> seedings (rng_block ctx clock g) = seedings g + 1"
proof -
  have c: "unat (g_counter g) < 64" using assms(2) by (simp add: rng_ok_def)
  then have u: "unat (g_counter g + 1) = unat (g_counter g) + 1" by (simp add: unat_add)
  have "g_counter g + 1 AND 0x3F = 0 \<longleftrightarrow> unat (g_counter g + 1 AND 0x3F) = 0" by (simp add: unat_eq_zero)
  also have "\<dots> \<longleftrightarrow> (unat (g_counter g) + 1) mod 64 = 0"
    using unat_and_mask [of "g_counter g + 1" 6] by (simp add: mask_eq_exp_minus_1 u)
  also have "\<dots> \<longleftrightarrow> unat (g_counter g) = 63" using c by (auto simp: mod_eq_0_iff_dvd dest: dvd_imp_le)
  finally have a: "g_counter g + 1 AND 0x3F = 0 \<longleftrightarrow> unat (g_counter g) = 63" .
  show "rng_ok (rng_block ctx clock g)"
    using assms reseed_ok [OF assms(1)] c u a by (auto simp: rng_block_def rng_ok_def Let_def)
  show "g_key (rng_block ctx clock g) = g_key g \<and> g_nonce (rng_block ctx clock g) = g_nonce g \<and>
    g_counter (rng_block ctx clock g) = g_counter g + 1 \<and> seedings (rng_block ctx clock g) = seedings g" if "unat (g_counter g) < 63"
    using that a by (simp add: rng_block_def Let_def)
  show "g_counter (rng_block ctx clock g) = 0 \<and> seedings (rng_block ctx clock g) = seedings g + 1" if "unat (g_counter g) = 63"
    using that a reseed_ok [OF assms(1)] by (simp add: rng_block_def Let_def)
qed

lemma rng_blocks_ok:
  assumes "length (sh_data ctx) = 64" "rng_ok g"
  shows "rng_ok ((rng_block ctx clock ^^ k) g) \<and>
    64 * seedings ((rng_block ctx clock ^^ k) g) + unat (g_counter ((rng_block ctx clock ^^ k) g)) =
    64 * seedings g + unat (g_counter g) + k"
proof (induction k)
  case (Suc k)
  let ?g = "(rng_block ctx clock ^^ k) g"
  have ok: "rng_ok ?g" using Suc by simp
  then have c: "unat (g_counter ?g) < 64" by (simp add: rng_ok_def)
  then have u: "unat (g_counter ?g + 1) = unat (g_counter ?g) + 1" by (simp add: unat_add)
  show ?case
  proof (cases "unat (g_counter ?g) = 63")
    case True
    then show ?thesis using rng_block_cases [OF assms(1) ok] Suc by simp
  next
    case False
    then have "unat (g_counter ?g) < 63" using c by simp
    then show ?thesis using rng_block_cases [OF assms(1) ok] Suc u by simp
  qed
qed (use assms in simp)

definition rng_keystream :: "rng \<Rightarrow> u8 list" where
  "rng_keystream g = keystream (g_key g) (g_nonce g) (g_counter g)"

lemma zeros_keystream: "chacha20_xor (replicate 64 0) key nonce counter = keystream key nonce counter"
proof -
  have "map2 (XOR) (replicate (length ks) 0) ks = ks" for ks :: "u8 list" by (induction ks) simp_all
  from this [of "keystream key nonce counter"] show ?thesis by (simp add: chacha20_xor.simps [of "replicate _ _"])
qed

lemma rng_loop_stream:
  "snd (rng_loop ctx clock g n) =
   take n (concat (map (\<lambda>k. rng_keystream ((rng_block ctx clock ^^ k) g)) [0..<(n + 63) div 64]))"
proof (induction n arbitrary: g rule: less_induct)
  case (less n)
  show ?case
  proof (cases "n = 0")
    case True
    then show ?thesis by (simp add: rng_loop.simps)
  next
    case False
    define m where "m = (if n < 64 then 0 else n - 64)"
    have d: "(n + 63) div 64 = Suc ((m + 63) div 64)" using False by (simp add: m_def le_div_geq div_eq_0_iff)
    have "n - (if n < 64 then n else 64) = m" by (simp add: m_def)
    then have "snd (rng_loop ctx clock g n) = take n (rng_keystream g) @ snd (rng_loop ctx clock (rng_block ctx clock g) m)"
      using False by (subst rng_loop.simps) (auto simp: zeros_keystream rng_keystream_def Let_def split: prod.split)
    also have "snd (rng_loop ctx clock (rng_block ctx clock g) m) =
      take m (concat (map (\<lambda>k. rng_keystream ((rng_block ctx clock ^^ Suc k) g)) [0..<(m + 63) div 64]))"
      using less.IH [of m "rng_block ctx clock g"] False by (simp add: m_def funpow_swap1)
    also have "take n (rng_keystream g) @ \<dots> =
      take n (concat (map (\<lambda>k. rng_keystream ((rng_block ctx clock ^^ k) g)) (0 # map Suc [0..<(m + 63) div 64])))"
      by (simp add: rng_keystream_def m_def comp_def)
    finally show ?thesis unfolding d by (simp add: upt_conv_Cons map_Suc_upt del: upt_Suc)
  qed
qed

definition rng_after :: "sha256_ctx \<Rightarrow> clock \<Rightarrow> rng \<Rightarrow> nat \<Rightarrow> rng" where
  "rng_after ctx clock g k = (rng_block ctx clock ^^ k) (rng_init ctx clock g)"

text \<open>Fact: the bytes handed out are the keystream, in order, of a run of generator states in which no key
  serves more than 64 blocks and no block of any key is used twice: the number of the seeding and
  the counter advance together by exactly one with every block.\<close>

theorem rng_bytes_stream:
  assumes "length (sh_data ctx) = 64" "g_ready g \<longrightarrow> rng_ok g"
  shows "snd (rng_bytes ctx clock g n) = take n (concat (map (\<lambda>k. rng_keystream (rng_after ctx clock g k)) [0..<(n + 63) div 64])) \<and>
    length (snd (rng_bytes ctx clock g n)) = n \<and>
    unat (g_counter (rng_after ctx clock g k)) < 64 \<and>
    64 * seedings (rng_after ctx clock g k) + unat (g_counter (rng_after ctx clock g k)) =
      64 * seedings (rng_after ctx clock g 0) + unat (g_counter (rng_after ctx clock g 0)) + k"
proof -
  have s: "snd (rng_bytes ctx clock g n) = take n (concat (map (\<lambda>k. rng_keystream (rng_after ctx clock g k)) [0..<(n + 63) div 64]))"
    by (simp add: rng_bytes_def rng_loop_stream rng_after_def)
  have "length (concat (map (\<lambda>k. rng_keystream (rng_after ctx clock g k)) xs)) = 64 * length xs" for xs
    by (induction xs) (simp_all add: rng_keystream_def)
  then have "length (snd (rng_bytes ctx clock g n)) = n" unfolding s by simp
  moreover note rng_blocks_ok [OF assms(1) rng_init_ok [OF assms, of clock], where clock = clock and k = k]
  ultimately show ?thesis using s by (simp add: rng_after_def rng_ok_def)
qed

definition sample_ctx :: sha256_ctx where
  "sample_ctx = \<lparr>sh_state = [], sh_bitlen = 5, sh_data = replicate 64 3, sh_datalen = 9\<rparr>"

definition sample_rng :: rng where
  "sample_rng = \<lparr>g_key = [], g_nonce = [], g_counter = 0, g_mix = 0, g_ready = False, seedings = 0\<rparr>"

theorem rng_bytes_stream_witness:
  "length (snd (rng_bytes sample_ctx (\<lambda>i. (of_nat i, 1, 2)) sample_rng 5000)) = 5000 \<and>
   64 * seedings (rng_after sample_ctx (\<lambda>i. (of_nat i, 1, 2)) sample_rng 70) + unat (g_counter (rng_after sample_ctx (\<lambda>i. (of_nat i, 1, 2)) sample_rng 70)) =
     64 * seedings (rng_after sample_ctx (\<lambda>i. (of_nat i, 1, 2)) sample_rng 0) + unat (g_counter (rng_after sample_ctx (\<lambda>i. (of_nat i, 1, 2)) sample_rng 0)) + 70"
proof -
  have c: "length (sh_data sample_ctx) = 64" and g: "g_ready sample_rng \<longrightarrow> rng_ok sample_rng"
    by (simp_all add: sample_ctx_def sample_rng_def)
  show ?thesis using rng_bytes_stream [OF c g] by blast
qed

end
