(* ===== verification/KUsers.thy ===== *)
theory KUsers
  imports KFsOps KWords
begin

text \<open>
  User accounts of \<^verbatim>\<open>kernel/user_auth.cpp\<close>: the table of users and groups, the passwd and shadow
  databases as the texts the kernel reads and writes, and the check of a password. The operations
  that write the databases go through the file system.
\<close>

section \<open>State\<close>

abbreviation UMAX_USERS :: nat where "UMAX_USERS \<equiv> 16"
abbreviation GMAX_GROUPS :: nat where "GMAX_GROUPS \<equiv> 16"
abbreviation SHADOW_BUF :: nat where "SHADOW_BUF \<equiv> 4096"

record user_record =
  u_name :: string
  u_uid :: u16
  u_gid :: u16
  u_home :: string
  u_shell :: string
  u_valid :: bool
  u_shadow :: bool

record group_record =
  gr_name :: string
  gr_gid :: u16
  gr_members :: string
  gr_valid :: bool

text \<open>\<open>g_users\<close> holds the first \<^verbatim>\<open>g_user_count\<close> entries of the array. \<open>g_shadow\<close> is the whole
  buffer, of which the first \<open>g_shadow_len\<close> characters are the text; reading behind the buffer
  yields a NUL.\<close>

record uauth =
  g_users :: "user_record list"
  g_groups :: "group_record list"
  g_shadow :: string
  g_shadow_len :: nat
  g_salts :: u32

abbreviation NUL :: char where "NUL \<equiv> CHR 0x00"
abbreviation newline :: char where "newline \<equiv> CHR 0x0A"
abbreviation bar :: char where "bar \<equiv> CHR ''|''"
abbreviation colon :: char where "colon \<equiv> CHR '':''"

section \<open>Salts and hashes\<close>

definition hex_digit :: "u32 \<Rightarrow> char" where
  "hex_digit v = ''0123456789abcdef'' ! unat (v AND 0xF)"

fun hex_loop :: "nat \<Rightarrow> u32 \<Rightarrow> string \<Rightarrow> string" where
  "hex_loop 0 v out = out"
| "hex_loop (Suc i) v out = hex_loop i (drop_bit 4 v) (hex_digit v # out)"

definition hex8 :: "u32 \<Rightarrow> string" where
  "hex8 v = hex_loop 8 v []"

definition gen_salt :: "u32 \<Rightarrow> uauth \<Rightarrow> string \<times> uauth" where
  "gen_salt ms st =
     (let a = ms XOR (g_salts st * 2654435761);
          a = a XOR (drop_bit 13 a * 2654435761)
      in (hex8 a, st\<lparr>g_salts := g_salts st + 1\<rparr>))"

definition fnv :: "string \<Rightarrow> u32 \<Rightarrow> u32" where
  "fnv s h = fold (\<lambda>c h. (h XOR of_char c) * 16777619) s h"

definition hash_password :: "string \<Rightarrow> string \<Rightarrow> u32" where
  "hash_password salt password = fnv password (fnv salt 2166136261)"

section \<open>The shadow text\<close>

definition put_cap :: "nat \<Rightarrow> string \<Rightarrow> string \<Rightarrow> string" where
  "put_cap cap s out = out @ take (cap - 1 - length out) s"

definition shadow_line :: "string \<Rightarrow> string \<Rightarrow> u32 \<Rightarrow> nat \<Rightarrow> string" where
  "shadow_line name salt h cap =
     put_cap cap (hex8 h) (put_cap cap [bar] (put_cap cap salt (put_cap cap [bar] (put_cap cap name []))))"

definition clear_users :: "uauth \<Rightarrow> uauth" where
  "clear_users st = st\<lparr>g_users := [], g_shadow := (g_shadow st)[0 := NUL], g_shadow_len := 0\<rparr>"

text \<open>A line up to the end of the text or its newline, and the text behind it.\<close>

definition line_of :: "string \<Rightarrow> string" where
  "line_of text = takeWhile (\<lambda>c. c \<noteq> newline) text"

definition after_line :: "string \<Rightarrow> string" where
  "after_line text = drop (length (line_of text) + 1) text"

definition names_user :: "string \<Rightarrow> string \<Rightarrow> bool" where
  "names_user name line \<longleftrightarrow> takeWhile (\<lambda>c. c \<noteq> bar) line = name"

text \<open>The offset of the line of a user in the text, and of its end.\<close>

function shadow_scan :: "string \<Rightarrow> nat \<Rightarrow> string \<Rightarrow> (nat \<times> nat) option" where
  "shadow_scan name r text =
     (if text = [] then None
      else let line = line_of text
           in if line \<noteq> [] \<and> hd line \<noteq> CHR ''#'' \<and> names_user name line then Some (r, r + length line)
              else shadow_scan name (r + length line + 1) (after_line text))"
  by pat_completeness auto
termination by (relation "measure (\<lambda>(name, r, text). length text)") (auto simp: after_line_def)

declare shadow_scan.simps [simp del]

definition shadow_for :: "string \<Rightarrow> uauth \<Rightarrow> nat option \<times> uauth" where
  "shadow_for name st =
     (case shadow_scan name 0 (take (g_shadow_len st) (g_shadow st)) of
        None \<Rightarrow> (None, st)
      | Some (start, r) \<Rightarrow> (Some start, st\<lparr>g_shadow := (g_shadow st)[r := newline]\<rparr>))"

section \<open>Users\<close>

definition users_get :: "int \<Rightarrow> uauth \<Rightarrow> user_record option" where
  "users_get i st = (if i < 0 \<or> i \<ge> int (length (g_users st)) then None else Some (g_users st ! nat i))"

definition user_by_name :: "string \<Rightarrow> uauth \<Rightarrow> user_record option" where
  "user_by_name name st = find (\<lambda>u. u_valid u \<and> u_name u = name) (g_users st)"

definition user_by_uid :: "u16 \<Rightarrow> uauth \<Rightarrow> user_record option" where
  "user_by_uid uid st = find (\<lambda>u. u_valid u \<and> u_uid u = uid) (g_users st)"

definition next_id :: "u16 list \<Rightarrow> u16" where
  "next_id ids = fold (\<lambda>i best. if i \<ge> best \<and> i < 65000 then i + 1 else best) ids 1000"

definition users_next_uid :: "uauth \<Rightarrow> u16" where
  "users_next_uid st = next_id (map u_uid (filter u_valid (g_users st)))"

text \<open>The loop that copies a field, with its test on both the position and the index, and the
  decimal digits of a number.\<close>

fun put_field :: "string \<Rightarrow> nat \<Rightarrow> string \<Rightarrow> string \<times> nat" where
  "put_field out k [] = (out, k)"
| "put_field out k (c # cs) =
     (if length out + k + 1 < SHADOW_BUF - 1 then put_field (out @ [c]) (k + 1) cs else (out, k))"

definition put_char :: "char \<Rightarrow> string \<Rightarrow> string" where
  "put_char c out = (if length out + 1 < SHADOW_BUF then out @ [c] else out)"

fun dec_digits :: "nat \<Rightarrow> string \<Rightarrow> string" where
  "dec_digits v acc = (if v = 0 then acc else dec_digits (v div 10) (char_of (48 + v mod 10) # acc))"

declare dec_digits.simps [simp del]

definition dec :: "u16 \<Rightarrow> string" where
  "dec v = (if v = 0 then ''0'' else dec_digits (unat v) [])"

definition put_num :: "u16 \<Rightarrow> string \<Rightarrow> string" where
  "put_num v out = (let t = dec v in if length out + length t < SHADOW_BUF then out @ t else out)"

definition passwd_entry :: "user_record \<Rightarrow> string \<Rightarrow> string" where
  "passwd_entry pu out =
     (let out = fst (put_field out 0 (u_name pu));
          out = put_char colon (put_char (CHR ''x'') (put_char colon out));
          out = put_char colon (put_num (u_uid pu) out);
          out = put_char colon (put_num (u_gid pu) out);
          out = put_char colon (fst (put_field out 0 (u_name pu)));
          out = put_char colon (fst (put_field out 0 (u_home pu)));
          (out, k) = put_field out 0 (u_shell pu)
      in if length out + k + 1 < SHADOW_BUF then out @ [newline] else out)"

definition passwd_text :: "user_record list \<Rightarrow> string" where
  "passwd_text us = fold passwd_entry (filter u_valid us) []"

definition write_passwd_db :: "uauth \<Rightarrow> 'd fs \<Rightarrow> bool \<times> 'd fs" where
  "write_passwd_db st fs = fs_write ''/etc/passwd'' (cbytes (passwd_text (g_users st))) fs"

definition user_add :: "string option \<Rightarrow> u16 \<Rightarrow> u16 \<Rightarrow> string option \<Rightarrow> uauth \<Rightarrow> 'd fs \<Rightarrow> u16 option \<times> uauth \<times> 'd fs" where
  "user_add name uid gid home st fs =
     (case name of
        None \<Rightarrow> (None, st, fs)
      | Some name \<Rightarrow>
          if name = [] \<or> UMAX_USERS \<le> length (g_users st) then (None, st, fs)
          else if user_by_name name st \<noteq> None then (None, st, fs)
          else let uid = (if uid \<noteq> 0 then uid else users_next_uid st);
                   gid = (if gid \<noteq> 0 then gid else uid);
                   home = (case home of Some (c # cs) \<Rightarrow> c # cs | _ \<Rightarrow> ''/home/'');
                   u = \<lparr>u_name = take 31 name, u_uid = uid, u_gid = gid, u_home = take 63 home, u_shell = ''/bin/sh'',
                        u_valid = True, u_shadow = False\<rparr>;
                   st' = st\<lparr>g_users := g_users st @ [u]\<rparr>
               in case write_passwd_db st' fs of
                    (False, fs) \<Rightarrow> (None, st, fs)
                  | (True, fs) \<Rightarrow> (Some uid, st', fs))"

text \<open>The lines of the shadow text that name another user, copied to a buffer while they fit.\<close>

function drop_user :: "string \<Rightarrow> string \<Rightarrow> string \<Rightarrow> string" where
  "drop_user name text tmp =
     (if text = [] then tmp
      else let line = line_of text
           in drop_user name (after_line text)
                (if names_user name line then tmp
                 else if length tmp + length line + 1 < SHADOW_BUF then tmp @ line @ [newline] else tmp))"
  by pat_completeness auto
termination by (relation "measure (\<lambda>(name, text, tmp). length text)") (auto simp: after_line_def)

declare drop_user.simps [simp del]

definition set_shadow :: "string \<Rightarrow> uauth \<Rightarrow> uauth" where
  "set_shadow tmp st = st\<lparr>g_shadow := tmp @ drop (length tmp) (g_shadow st), g_shadow_len := length tmp\<rparr>"

definition write_shadow_file :: "uauth \<Rightarrow> 'd fs \<Rightarrow> 'd fs" where
  "write_shadow_file st fs = snd (fs_write ''/etc/shadow'' (cbytes (take (g_shadow_len st) (g_shadow st))) fs)"

definition is_user :: "string \<Rightarrow> user_record \<Rightarrow> bool" where
  "is_user name u \<longleftrightarrow> u_valid u \<and> u_name u = name"

definition user_del :: "string option \<Rightarrow> uauth \<Rightarrow> 'd fs \<Rightarrow> bool \<times> uauth \<times> 'd fs" where
  "user_del name st fs =
     (case name of
        None \<Rightarrow> (False, st, fs)
      | Some name \<Rightarrow>
          if name = [] \<or> name = ''root'' then (False, st, fs)
          else case find_slot (is_user name) (g_users st) of
            None \<Rightarrow> (False, st, fs)
          | Some slot \<Rightarrow>
              let st = set_shadow (drop_user name (take (g_shadow_len st) (g_shadow st)) []) st;
                  fs = write_shadow_file st fs;
                  st = st\<lparr>g_users := take slot (g_users st) @ drop (slot + 1) (g_users st)\<rparr>
              in case write_passwd_db st fs of (ok, fs) \<Rightarrow> (ok, st, fs))"

definition non_empty :: "string option \<Rightarrow> string option" where
  "non_empty s = (case s of Some (c # cs) \<Rightarrow> Some (c # cs) | _ \<Rightarrow> None)"

definition mod_record :: "string option \<Rightarrow> u16 \<Rightarrow> u16 \<Rightarrow> string option \<Rightarrow> user_record \<Rightarrow> user_record" where
  "mod_record newname uid gid home u =
     (let u = (case newname of Some n \<Rightarrow> u\<lparr>u_name := take 31 n\<rparr> | None \<Rightarrow> u);
          u = (if uid \<noteq> 0 then u\<lparr>u_uid := uid\<rparr> else u);
          u = (if gid \<noteq> 0 then u\<lparr>u_gid := gid\<rparr> else u)
      in case home of Some h \<Rightarrow> u\<lparr>u_home := take 63 h\<rparr> | None \<Rightarrow> u)"

definition user_mod :: "string option \<Rightarrow> string option \<Rightarrow> u16 \<Rightarrow> u16 \<Rightarrow> string option \<Rightarrow> uauth \<Rightarrow> 'd fs \<Rightarrow> bool \<times> uauth \<times> 'd fs" where
  "user_mod name newname uid gid home st fs =
     (case non_empty name of
        None \<Rightarrow> (False, st, fs)
      | Some name \<Rightarrow>
          (case find_slot (is_user name) (g_users st) of
             None \<Rightarrow> (False, st, fs)
           | Some slot \<Rightarrow>
               if (case non_empty newname of Some n \<Rightarrow> user_by_name n st \<noteq> None | None \<Rightarrow> False) then (False, st, fs)
               else let u = mod_record (non_empty newname) uid gid (non_empty home) (g_users st ! slot);
                        st = st\<lparr>g_users := (g_users st)[slot := u]\<rparr>
                    in case write_passwd_db st fs of (ok, fs) \<Rightarrow> (ok, st, fs)))"

definition user_set_password :: "u32 \<Rightarrow> string \<Rightarrow> string \<Rightarrow> uauth \<Rightarrow> 'd fs \<Rightarrow> bool \<times> uauth \<times> 'd fs" where
  "user_set_password ms name password st fs =
     (if user_by_name name st = None then (False, st, fs)
      else let (salt, st) = gen_salt ms st;
               h = hash_password salt password;
               line = shadow_line name salt h 65;
               tmp = drop_user name (take (g_shadow_len st) (g_shadow st)) [];
               tmp = (if length tmp + length line + 1 < SHADOW_BUF then tmp @ line @ [newline] else tmp);
               st = set_shadow tmp st;
               fs = write_shadow_file st fs;
               st = st\<lparr>g_users := map (\<lambda>u. if is_user name u then u\<lparr>u_shadow := True\<rparr> else u) (g_users st)\<rparr>
           in (True, st, fs))"

section \<open>Checking a password\<close>

definition schar :: "char \<Rightarrow> int" where
  "schar c = (let n = of_char c in if n \<ge> 128 then n - 256 else n)"

definition hex_value :: "char \<Rightarrow> u32" where
  "hex_value c = (if schar c \<le> 57 then of_int (schar c - 48) else of_int (10 + (schar c OR 32) - 97))"

definition hex_parse :: "string \<Rightarrow> u32" where
  "hex_parse s = fold (\<lambda>c want. push_bit 4 want OR hex_value c) s 0"

text \<open>The characters from an offset of the buffer on, up to a NUL.\<close>

definition chars_from :: "nat \<Rightarrow> uauth \<Rightarrow> string" where
  "chars_from off st = takeWhile (\<lambda>c. c \<noteq> NUL) (drop off (g_shadow st))"

definition check_line :: "string \<Rightarrow> string \<Rightarrow> bool" where
  "check_line line password =
     (case dropWhile (\<lambda>c. c \<noteq> bar) line of
        [] \<Rightarrow> False
      | _ # rest \<Rightarrow>
          (let salt = take 8 (takeWhile (\<lambda>c. c \<noteq> bar) rest); rest = drop (length salt) rest
           in case rest of
                [] \<Rightarrow> False
              | c # rest \<Rightarrow>
                  if c \<noteq> bar then False
                  else let hash_hex = take 8 (takeWhile (\<lambda>c. c \<noteq> bar \<and> c \<noteq> newline) rest)
                       in if hash_hex = [] then False
                          else hash_password salt password = hex_parse hash_hex))"

definition user_check_password :: "string \<Rightarrow> string \<Rightarrow> uauth \<Rightarrow> bool \<times> uauth" where
  "user_check_password name password st =
     (if user_by_name name st = None then (False, st)
      else case shadow_for name st of
        (None, st) \<Rightarrow> (password = [], st)
      | (Some off, st) \<Rightarrow> (check_line (chars_from off st) password, st))"

section \<open>Loading the databases\<close>

fun split_fields :: "nat \<Rightarrow> string \<Rightarrow> string list" where
  "split_fields 0 s = [s]"
| "split_fields (Suc n) s =
     (case dropWhile (\<lambda>c. c \<noteq> colon) s of
        [] \<Rightarrow> [s]
      | _ # rest \<Rightarrow> takeWhile (\<lambda>c. c \<noteq> colon) s # split_fields n rest)"

definition is_digit :: "char \<Rightarrow> bool" where
  "is_digit c \<longleftrightarrow> (48 :: nat) \<le> of_char c \<and> of_char c \<le> (57 :: nat)"

definition parse_id :: "string \<Rightarrow> u16" where
  "parse_id s = fold (\<lambda>c v. v * 10 + (of_char c - 48)) (takeWhile is_digit s) 0"

definition parse_user :: "string \<Rightarrow> user_record option" where
  "parse_user line =
     (let f = split_fields 6 (takeWhile (\<lambda>c. c \<noteq> NUL) (take 255 line)); nf = length f
      in if nf < 4 then None
         else let home_idx = (if nf = 6 \<or> nf = 5 then 4 else 5);
                  shell_idx = (if nf = 6 then 5 else if nf = 5 then nf else 6)
              in Some \<lparr>u_name = take 31 (f ! 0), u_uid = parse_id (f ! 2), u_gid = parse_id (f ! 3),
                       u_home = take 63 (if home_idx < nf then f ! home_idx else ''/home/''),
                       u_shell = take 31 (if shell_idx < nf then f ! shell_idx else ''/bin/sh''),
                       u_valid = True, u_shadow = False\<rparr>)"

function parse_passwd :: "string \<Rightarrow> user_record list \<Rightarrow> user_record list" where
  "parse_passwd text us =
     (if text = [] \<or> UMAX_USERS \<le> length us then us
      else let line = line_of text
           in parse_passwd (after_line text)
                (if line \<noteq> [] \<and> hd line \<noteq> CHR ''#''
                 then (case parse_user line of None \<Rightarrow> us | Some u \<Rightarrow> us @ [u]) else us))"
  by pat_completeness auto
termination by (relation "measure (\<lambda>(text, us). length text)") (auto simp: after_line_def)

declare parse_passwd.simps [simp del]

definition chars :: "u8 list \<Rightarrow> string" where
  "chars bs = map (\<lambda>b. char_of (unat b)) bs"

definition create_default_users :: "u32 \<Rightarrow> uauth \<Rightarrow> 'd fs \<Rightarrow> uauth \<times> 'd fs" where
  "create_default_users ms st fs =
     (let fs = snd (fs_write ''/etc/passwd''
                 (cbytes (''root:x:0:0:root:/root:/bin/sh'' @ [newline] @ ''demo:x:1000:1000:demo:/home/demo:/bin/sh'' @ [newline])) fs);
          (salt, st) = gen_salt ms st;
          line = shadow_line ''demo'' salt (hash_password salt ''demo'') 65
      in (st, snd (fs_write ''/etc/shadow'' (cbytes (line @ [newline])) fs)))"

definition mark_shadow :: "uauth \<Rightarrow> uauth" where
  "mark_shadow st =
     fold (\<lambda>i st. case shadow_for (u_name (g_users st ! i)) st of
                     (None, st) \<Rightarrow> st
                   | (Some off, st) \<Rightarrow> st\<lparr>g_users := (g_users st)[i := (g_users st ! i)\<lparr>u_shadow := True\<rparr>]\<rparr>)
       [0..<length (g_users st)] st"

definition make_home :: "user_record \<Rightarrow> 'd fs \<Rightarrow> 'd fs" where
  "make_home u fs =
     (if u_home u = [] then fs
      else let fs = (case fs_path_stat (u_home u) fs of
                       (Some _, fs) \<Rightarrow> fs
                     | (None, fs) \<Rightarrow> snd (fs_create_dir (u_home u) fs))
           in snd (fs_chown (u_home u) (u_uid u) (u_gid u) fs))"

definition load_users :: "string \<Rightarrow> uauth \<Rightarrow> 'd fs \<Rightarrow> nat option \<times> uauth \<times> 'd fs" where
  "load_users pw st fs =
     (let st = st\<lparr>g_users := parse_passwd pw []\<rparr>;
          (sh, fs) = fs_read ''/etc/shadow'' (SHADOW_BUF - 1) fs;
          sh = (case sh of Some bs \<Rightarrow> chars bs | None \<Rightarrow> []);
          st = (set_shadow sh st);
          st = st\<lparr>g_shadow := (g_shadow st)[length sh := NUL]\<rparr>;
          st = mark_shadow st;
          fs = fold make_home (g_users st) fs
      in (Some (length (g_users st)), st, fs))"

definition users_init :: "u32 \<Rightarrow> uauth \<Rightarrow> 'd fs \<Rightarrow> nat option \<times> uauth \<times> 'd fs" where
  "users_init ms st fs =
     (let st = (clear_users st)\<lparr>g_groups := []\<rparr>
      in case fs_read ''/etc/passwd'' (SHADOW_BUF - 1) fs of
           (Some (b # bs), fs) \<Rightarrow> load_users (chars (b # bs)) st fs
         | (_, fs) \<Rightarrow>
             (case create_default_users ms st fs of
                (st, fs) \<Rightarrow>
                  (case fs_read ''/etc/passwd'' (SHADOW_BUF - 1) fs of
                     (Some (b # bs), fs) \<Rightarrow> load_users (chars (b # bs)) st fs
                   | (_, fs) \<Rightarrow> (None, st, fs))))"

section \<open>Groups\<close>

definition group_entry :: "group_record \<Rightarrow> string \<Rightarrow> string" where
  "group_entry g out =
     (let out = put_char colon (fst (put_field out 0 (gr_name g)));
          out = put_char colon (put_num (gr_gid g) out);
          (out, k) = put_field out 0 (gr_members g)
      in if length out + k + 1 < SHADOW_BUF then out @ [newline] else out)"

definition write_group_db :: "uauth \<Rightarrow> 'd fs \<Rightarrow> bool \<times> 'd fs" where
  "write_group_db st fs = fs_write ''/etc/group'' (cbytes (fold group_entry (filter gr_valid (g_groups st)) [])) fs"

definition parse_group :: "string \<Rightarrow> group_record option" where
  "parse_group line =
     (let f = split_fields 2 (takeWhile (\<lambda>c. c \<noteq> NUL) (take 127 line))
      in if length f < 2 then None
         else Some \<lparr>gr_name = take 31 (f ! 0), gr_gid = parse_id (f ! 1),
                    gr_members = (if 3 \<le> length f then take 191 (f ! 2) else []), gr_valid = True\<rparr>)"

function parse_groups :: "string \<Rightarrow> group_record list \<Rightarrow> group_record list" where
  "parse_groups text gs =
     (if text = [] \<or> GMAX_GROUPS \<le> length gs then gs
      else let line = line_of text
           in parse_groups (after_line text)
                (if line \<noteq> [] \<and> hd line \<noteq> CHR ''#''
                 then (case parse_group line of None \<Rightarrow> gs | Some g \<Rightarrow> gs @ [g]) else gs))"
  by pat_completeness auto
termination by (relation "measure (\<lambda>(text, gs). length text)") (auto simp: after_line_def)

declare parse_groups.simps [simp del]

definition groups_init :: "uauth \<Rightarrow> 'd fs \<Rightarrow> nat option \<times> uauth \<times> 'd fs" where
  "groups_init st fs =
     (let st = st\<lparr>g_groups := []\<rparr>;
          load = (\<lambda>bs st fs. let st = st\<lparr>g_groups := parse_groups (chars bs) []\<rparr> in (Some (length (g_groups st)), st, fs))
      in case fs_read ''/etc/group'' (SHADOW_BUF - 1) fs of
           (Some (b # bs), fs) \<Rightarrow> load (b # bs) st fs
         | (_, fs) \<Rightarrow>
             (case fs_write ''/etc/group'' (cbytes (''root:0:root'' @ [newline] @ ''demo:1000:demo'' @ [newline])) fs of
                (_, fs) \<Rightarrow>
                  (case fs_read ''/etc/group'' (SHADOW_BUF - 1) fs of
                     (Some (b # bs), fs) \<Rightarrow> load (b # bs) st fs
                   | (_, fs) \<Rightarrow> (None, st, fs))))"

definition group_by_gid :: "u16 \<Rightarrow> uauth \<Rightarrow> group_record option" where
  "group_by_gid gid st = find (\<lambda>g. gr_valid g \<and> gr_gid g = gid) (g_groups st)"

definition group_by_name :: "string \<Rightarrow> uauth \<Rightarrow> group_record option" where
  "group_by_name name st = find (\<lambda>g. gr_valid g \<and> gr_name g = name) (g_groups st)"

definition groups_next_gid :: "uauth \<Rightarrow> u16" where
  "groups_next_gid st = next_id (map gr_gid (filter gr_valid (g_groups st)))"

definition group_add :: "string option \<Rightarrow> u16 \<Rightarrow> uauth \<Rightarrow> 'd fs \<Rightarrow> bool \<times> uauth \<times> 'd fs" where
  "group_add name gid st fs =
     (case name of
        None \<Rightarrow> (False, st, fs)
      | Some name \<Rightarrow>
          if name = [] \<or> GMAX_GROUPS \<le> length (g_groups st) \<or> group_by_name name st \<noteq> None then (False, st, fs)
          else let g = \<lparr>gr_name = take 31 name, gr_gid = (if gid \<noteq> 0 then gid else groups_next_gid st), gr_members = [], gr_valid = True\<rparr>;
                   st = st\<lparr>g_groups := g_groups st @ [g]\<rparr>
               in case write_group_db st fs of (ok, fs) \<Rightarrow> (ok, st, fs))"

end
