(* ===== verification/KUserDb.thy ===== *)
theory KUserDb
  imports KUsers
begin

text \<open>
  What the user accounts promise. The lookups in the shadow text are shown to be lookups in a
  table of entries; a password that was set is the one that is accepted, and the users written to
  the passwd text are those read back. Renaming a user loses the password, and so does setting a
  password when the text is full.
\<close>

section \<open>The shadow text as a table\<close>

type_synonym shadow_entry = "string \<times> string \<times> u32"

definition render :: "shadow_entry \<Rightarrow> string" where
  "render e = (case e of (n, salt, h) \<Rightarrow> n @ [bar] @ salt @ [bar] @ hex8 h)"

definition plain :: "string \<Rightarrow> bool" where
  "plain s \<longleftrightarrow> bar \<notin> set s \<and> newline \<notin> set s \<and> NUL \<notin> set s"

definition good_name :: "string \<Rightarrow> bool" where
  "good_name n \<longleftrightarrow> n \<noteq> [] \<and> hd n \<noteq> CHR ''#'' \<and> plain n \<and> length n \<le> 31"

definition good_entry :: "shadow_entry \<Rightarrow> bool" where
  "good_entry e \<longleftrightarrow> (case e of (n, salt, h) \<Rightarrow> good_name n \<and> plain salt \<and> length salt = 8)"

definition db_text :: "shadow_entry list \<Rightarrow> string" where
  "db_text db = concat (map (\<lambda>e. render e @ [newline]) db)"

definition shadow_rep :: "uauth \<Rightarrow> shadow_entry list \<Rightarrow> bool" where
  "shadow_rep st db \<longleftrightarrow> (\<forall>e \<in> set db. good_entry e) \<and> distinct (map fst db) \<and>
     length (g_shadow st) = SHADOW_BUF \<and> g_shadow_len st < SHADOW_BUF \<and>
     take (g_shadow_len st) (g_shadow st) = db_text db"

lemma db_text_simps [simp]: "db_text [] = []" "db_text (e # es) = render e @ newline # db_text es"
  "db_text (a @ b) = db_text a @ db_text b"
  by (simp_all add: db_text_def)

lemma hex_loop_append: "hex_loop k v out = hex_loop k v [] @ out"
proof (induction k arbitrary: v out)
  case (Suc k)
  show ?case using Suc [of "drop_bit 4 v" "hex_digit v # out"] Suc [of "drop_bit 4 v" "[hex_digit v]"] by simp
qed simp

lemma length_hex_loop: "length (hex_loop k v out) = k + length out"
  by (induction k v out rule: hex_loop.induct) simp_all

lemma length_hex8 [simp]: "length (hex8 v) = 8"
  by (simp add: hex8_def length_hex_loop)

lemma nibble: "unat (v AND 0xF :: u32) < 16"
  using unat_and_mask [of v 4] by (simp add: mask_eq_exp_minus_1)

lemma hex_digit_range: "hex_digit v \<in> set ''0123456789abcdef''"
  unfolding hex_digit_def using nibble [of v] by (intro nth_mem) simp

lemma plain_hex8: "plain (hex8 v)"
proof -
  have "set (hex_loop k v []) \<subseteq> set ''0123456789abcdef''" for k v
  proof (induction k arbitrary: v)
    case (Suc k)
    then show ?case using hex_digit_range [of v] by (simp add: hex_loop_append [of k _ "[_]"])
  qed simp
  then have "set (hex8 v) \<subseteq> set ''0123456789abcdef''" by (simp add: hex8_def)
  then show ?thesis unfolding plain_def by auto
qed

lemma hex_value_digit: "hex_value (hex_digit v) = v AND 0xF"
proof -
  have "\<forall>n < 16. hex_value (''0123456789abcdef'' ! n) = (of_nat n :: u32)"
    by (simp add: All_less_Suc numeral_eq_Suc) (simp add: hex_value_def schar_def Let_def)
  then have "hex_value (hex_digit v) = of_nat (unat (v AND 0xF))" unfolding hex_digit_def using nibble [of v] by blast
  then show ?thesis by simp
qed

lemma hex_parse_loop: "4 * k \<le> 32 \<Longrightarrow> hex_parse (hex_loop k v []) = take_bit (4 * k) v"
proof (induction k arbitrary: v)
  case (Suc k)
  have "hex_parse (hex_loop (Suc k) v []) = push_bit 4 (hex_parse (hex_loop k (drop_bit 4 v) [])) OR (v AND 0xF)"
    by (simp add: hex_loop_append [of k _ "[_]"] hex_parse_def hex_value_digit)
  also have "\<dots> = push_bit 4 (take_bit (4 * k) (drop_bit 4 v)) OR take_bit 4 v"
    using Suc by (simp add: take_bit_eq_mask mask_eq_exp_minus_1)
  also have "\<dots> = take_bit (4 * Suc k) v" by (rule bit_word_eqI) (auto simp: bit_simps)
  finally show ?case .
qed (simp add: hex_parse_def)

lemma hex_parse_hex8: "hex_parse (hex8 v) = v"
proof -
  have "take_bit 32 v = v" by (rule bit_word_eqI) (simp add: bit_simps)
  then show ?thesis using hex_parse_loop [of 8 v] by (simp add: hex8_def)
qed

lemma render_props:
  assumes "good_entry e"
  shows "newline \<notin> set (render e)" "NUL \<notin> set (render e)" "render e \<noteq> []" "hd (render e) \<noteq> CHR ''#''"
    "takeWhile (\<lambda>c. c \<noteq> bar) (render e) = fst e"
proof -
  obtain n salt h where e: "e = (n, salt, h)" by (cases e)
  have g: "n \<noteq> []" "hd n \<noteq> CHR ''#''" "plain n" "plain salt" using assms by (simp_all add: good_entry_def good_name_def e)
  show "newline \<notin> set (render e)" "NUL \<notin> set (render e)"
    using g(3,4) plain_hex8 [of h] by (auto simp: e render_def plain_def)
  show "render e \<noteq> []" "hd (render e) \<noteq> CHR ''#''" using g(1,2) by (simp_all add: e render_def)
  show "takeWhile (\<lambda>c. c \<noteq> bar) (render e) = fst e"
    unfolding e render_def prod.case using g(3) by (subst takeWhile_append2) (auto simp: plain_def)
qed

lemma line_render:
  assumes "good_entry e"
  shows "line_of (render e @ newline # rest) = render e" "after_line (render e @ newline # rest) = rest"
    "names_user name (render e) \<longleftrightarrow> fst e = name"
proof -
  show l: "line_of (render e @ newline # rest) = render e"
    unfolding line_of_def using render_props(1) [OF assms] by (subst takeWhile_append2) auto
  show "after_line (render e @ newline # rest) = rest" unfolding after_line_def l by simp
  show "names_user name (render e) \<longleftrightarrow> fst e = name" by (auto simp: names_user_def render_props(5) [OF assms])
qed

fun scan_db :: "string \<Rightarrow> nat \<Rightarrow> shadow_entry list \<Rightarrow> (nat \<times> nat) option" where
  "scan_db name r [] = None"
| "scan_db name r (e # es) =
     (if fst e = name then Some (r, r + length (render e)) else scan_db name (r + length (render e) + 1) es)"

lemma shadow_scan_db: "\<forall>e \<in> set db. good_entry e \<Longrightarrow> shadow_scan name r (db_text db) = scan_db name r db"
proof (induction db arbitrary: r)
  case Nil
  then show ?case by (simp add: shadow_scan.simps)
next
  case (Cons e es)
  then have g: "good_entry e" by simp
  show ?case using Cons render_props [OF g]
    by (subst shadow_scan.simps) (simp add: line_render [OF g] Let_def)
qed

lemma scan_db_cases:
  "scan_db name r db = None \<Longrightarrow> map_of db name = None"
  "scan_db name r db = Some (i, j) \<Longrightarrow> \<exists>a salt h b. db = a @ (name, salt, h) # b \<and> map_of db name = Some (salt, h) \<and>
    i = r + length (db_text a) \<and> j = i + length (render (name, salt, h))"
proof (induction db arbitrary: r)
  case (Cons e es)
  {
    case 1
    then show ?case using Cons.IH(1) by (auto split: if_splits)
  next
    case 2
    show ?case
    proof (cases "fst e = name")
      case True
      then show ?thesis using 2 by (intro exI [of _ "[]"] exI [of _ "fst (snd e)"] exI [of _ "snd (snd e)"] exI [of _ es]) auto
    next
      case False
      then obtain a salt h b where "es = a @ (name, salt, h) # b" "map_of es name = Some (salt, h)"
        "i = r + length (render e) + 1 + length (db_text a)" "j = i + length (render (name, salt, h))" using Cons.IH(2) 2 by fastforce
      then show ?thesis using False by (intro exI [of _ "e # a"] exI [of _ salt] exI [of _ h] exI [of _ b]) (cases e, auto)
    qed
  }
qed simp_all

lemma check_line_render:
  assumes "good_entry (n, salt, h)"
  shows "check_line (render (n, salt, h) @ newline # rest) q \<longleftrightarrow> hash_password salt q = h"
proof -
  have p: "bar \<notin> set n" "bar \<notin> set salt" "length salt = 8" "bar \<notin> set (hex8 h)" "newline \<notin> set (hex8 h)"
    using assms plain_hex8 [of h] by (auto simp: good_entry_def good_name_def plain_def)
  have 1: "dropWhile (\<lambda>c. c \<noteq> bar) (render (n, salt, h) @ newline # rest) = bar # salt @ bar # hex8 h @ newline # rest"
    unfolding render_def prod.case append_assoc using p(1) by (subst dropWhile_append2) auto
  have 2: "takeWhile (\<lambda>c. c \<noteq> bar) (salt @ bar # x) = salt" for x using p(2) by (subst takeWhile_append2) auto
  have 3: "takeWhile (\<lambda>c. c \<noteq> bar \<and> c \<noteq> newline) (hex8 h @ newline # rest) = hex8 h"
    using p(4,5) by (subst takeWhile_append2) auto
  have "hex8 h \<noteq> []" using length_hex8 [of h] by (metis list.size(3) zero_neq_numeral)
  then show ?thesis unfolding check_line_def 1 using p(3) by (simp add: 2 3 hex_parse_hex8)
qed

lemma user_check_password_db:
  assumes "shadow_rep st db"
  shows "user_check_password n q st =
    (if user_by_name n st = None then False
     else case map_of db n of None \<Rightarrow> q = [] | Some (salt, h) \<Rightarrow> hash_password salt q = h, st)"
proof -
  have good: "\<forall>e \<in> set db. good_entry e" and t: "take (g_shadow_len st) (g_shadow st) = db_text db" using assms by (simp_all add: shadow_rep_def)
  show ?thesis
  proof (cases "scan_db n 0 db")
    case None
    then show ?thesis using scan_db_cases(1) [OF None]
      by (simp add: user_check_password_def shadow_for_def t shadow_scan_db [OF good])
  next
    case (Some ij)
    obtain i j where ij: "ij = (i, j)" by (cases ij)
    obtain a salt h b where d: "db = a @ (n, salt, h) # b" "map_of db n = Some (salt, h)"
      "i = length (db_text a)" "j = i + length (render (n, salt, h))" using scan_db_cases(2) [of n 0 db i j] Some ij by auto
    have g: "good_entry (n, salt, h)" using good d(1) by simp
    define z where "z = drop (g_shadow_len st) (g_shadow st)"
    have s: "g_shadow st = db_text a @ render (n, salt, h) @ newline # db_text b @ z"
      using t append_take_drop_id [of "g_shadow_len st" "g_shadow st"] by (simp add: d(1) z_def)
    have "g_shadow st ! j = newline" "j < length (g_shadow st)" by (simp_all add: s d(3,4) nth_append)
    then have u: "(g_shadow st)[j := newline] = g_shadow st" by (metis list_update_id)
    have "chars_from i st = takeWhile (\<lambda>c. c \<noteq> NUL) (render (n, salt, h) @ newline # db_text b @ z)" by (simp add: chars_from_def s d(3))
    also have "\<dots> = render (n, salt, h) @ newline # takeWhile (\<lambda>c. c \<noteq> NUL) (db_text b @ z)"
      using render_props(2) [OF g] by (subst takeWhile_append2) auto
    finally have "check_line (chars_from i st) q \<longleftrightarrow> hash_password salt q = h" by (simp add: check_line_render [OF g])
    then show ?thesis using Some ij d(2) u
      by (simp add: user_check_password_def shadow_for_def t shadow_scan_db [OF good])
  qed
qed

section \<open>Passwords\<close>

lemma drop_user_db:
  "\<forall>e \<in> set db. good_entry e \<Longrightarrow> length tmp + length (db_text db) < SHADOW_BUF \<Longrightarrow>
   drop_user name (db_text db) tmp = tmp @ db_text (filter (\<lambda>e. fst e \<noteq> name) db)"
proof (induction db arbitrary: tmp)
  case Nil
  then show ?case by (simp add: drop_user.simps)
next
  case (Cons e es)
  then have g: "good_entry e" by simp
  show ?case using Cons by (subst drop_user.simps) (simp add: line_render [OF g] Let_def)
qed

lemma shadow_line_render: "length n \<le> 31 \<Longrightarrow> length salt = 8 \<Longrightarrow> shadow_line n salt h 65 = render (n, salt, h)"
  by (simp add: shadow_line_def put_cap_def render_def)

lemma shadow_rep_set:
  assumes "shadow_rep st db" "\<forall>e \<in> set db'. good_entry e" "distinct (map fst db')" "length (db_text db') < SHADOW_BUF"
  shows "shadow_rep (set_shadow (db_text db') st) db'"
  using assms by (simp add: shadow_rep_def set_shadow_def)

definition without :: "string \<Rightarrow> shadow_entry list \<Rightarrow> shadow_entry list" where
  "without name db = filter (\<lambda>e. fst e \<noteq> name) db"

lemma without_props:
  "\<forall>e \<in> set db. good_entry e \<Longrightarrow> \<forall>e \<in> set (without name db). good_entry e"
  "distinct (map fst db) \<Longrightarrow> distinct (map fst (without name db))"
  "name \<notin> fst ` set (without name db)" "length (db_text (without name db)) \<le> length (db_text db)"
  "map_of (without name db) n = (if n = name then None else map_of db n)"
proof -
  show "\<forall>e \<in> set db. good_entry e \<Longrightarrow> \<forall>e \<in> set (without name db). good_entry e" "name \<notin> fst ` set (without name db)"
    by (auto simp: without_def)
  show "distinct (map fst db) \<Longrightarrow> distinct (map fst (without name db))" by (simp add: without_def distinct_map_filter)
  show "length (db_text (without name db)) \<le> length (db_text db)" by (induction db) (auto simp: without_def)
  show "map_of (without name db) n = (if n = name then None else map_of db n)" by (induction db) (auto simp: without_def)
qed

lemma user_by_name_upd: "user_by_name n (st\<lparr>g_shadow := x\<rparr>) = user_by_name n st" "user_by_name n (st\<lparr>g_shadow_len := y\<rparr>) = user_by_name n st"
  "user_by_name n (st\<lparr>g_salts := z\<rparr>) = user_by_name n st"
  by (simp_all add: user_by_name_def)

lemma user_none: "user_by_name n st = None \<longleftrightarrow> (\<forall>u \<in> set (g_users st). \<not> is_user n u)"
  by (auto simp: user_by_name_def find_None_iff is_user_def)

lemma user_by_name_map:
  assumes "\<And>u. is_user n (f u) = is_user n u"
  shows "user_by_name n (st\<lparr>g_users := map f us\<rparr>) = None \<longleftrightarrow> (\<forall>u \<in> set us. \<not> is_user n u)"
  using assms by (simp add: user_none)

text \<open>Setting a password replaces the entry of the user in the table.\<close>

lemma user_set_password_db:
  assumes rep: "shadow_rep st db" and u: "user_by_name name st \<noteq> None" and g: "good_name name"
    and room: "length (db_text (without name db)) + 51 < SHADOW_BUF" and salt_def: "salt = fst (gen_salt ms st)"
  shows "case user_set_password ms name password st fs of (ok, st', fs') \<Rightarrow>
    ok \<and> shadow_rep st' (without name db @ [(name, salt, hash_password salt password)]) \<and>
    (\<forall>n. user_by_name n st' = None \<longleftrightarrow> user_by_name n st = None)"
proof -
  let ?h = "hash_password salt password"
  let ?db = "without name db @ [(name, salt, ?h)]"
  have good: "\<forall>e \<in> set db. good_entry e" "distinct (map fst db)" and t: "take (g_shadow_len st) (g_shadow st) = db_text db"
    and l: "g_shadow_len st < SHADOW_BUF" "length (g_shadow st) = SHADOW_BUF" using rep by (simp_all add: shadow_rep_def)
  obtain st1 where gs: "gen_salt ms st = (salt, st1)" "st1 = st\<lparr>g_salts := g_salts st + 1\<rparr>" by (simp add: salt_def gen_salt_def Let_def)
  have salt: "length salt = 8" "plain salt" by (simp_all add: salt_def gen_salt_def Let_def plain_hex8)
  have ge: "good_entry (name, salt, ?h)" using g salt by (simp add: good_entry_def)
  have n31: "length name \<le> 31" using g by (simp add: good_name_def)
  have ren: "length (render (name, salt, ?h)) \<le> 49" using n31 salt by (simp add: render_def)
  have tl: "length (db_text db) < SHADOW_BUF" using t l by (metis length_take min.absorb2 less_imp_le_nat)
  have d: "drop_user name (db_text db) [] = db_text (without name db)" using drop_user_db [OF good(1), of "[]" name] tl by (simp add: without_def)
  have tmp: "db_text (without name db) @ render (name, salt, ?h) @ [newline] = db_text ?db" by simp
  have "shadow_rep (set_shadow (db_text ?db) st1) ?db"
    using rep ge without_props [where db = db and name = name] good room ren gs(2)
    by (intro shadow_rep_set [of st1 db]) (auto simp: shadow_rep_def)
  then have rep': "shadow_rep (set_shadow (db_text ?db) st1\<lparr>g_users := us\<rparr>) ?db" for us by (simp add: shadow_rep_def)
  let ?mark = "\<lambda>u. if is_user name u then u\<lparr>u_shadow := True\<rparr> else u"
  have m: "is_user n (?mark v) = is_user n v" for n v by (simp add: is_user_def)
  have "user_set_password ms name password st fs =
    (True, set_shadow (db_text ?db) st1\<lparr>g_users := map ?mark (g_users st)\<rparr>, write_shadow_file (set_shadow (db_text ?db) st1) fs)"
    using u room ren by (simp add: user_set_password_def gs t d shadow_line_render [OF n31 salt(1)] tmp [symmetric] set_shadow_def Let_def)
  moreover have "user_by_name n (x\<lparr>g_users := map ?mark (g_users st)\<rparr>) = None \<longleftrightarrow> user_by_name n st = None" for n x
    unfolding user_by_name_map [OF m] user_none [of n st] ..
  ultimately show ?thesis using rep' by (simp only: prod.case simp_thms)
qed

text \<open>C22: after a password is set it is accepted, and of the others exactly those with the same salted
  hash; the passwords of all other users are checked as before.\<close>

theorem user_password_set:
  assumes "shadow_rep st db" "user_by_name name st \<noteq> None" "good_name name"
    "length (db_text (without name db)) + 51 < SHADOW_BUF"
  shows "fst (user_check_password n q (fst (snd (user_set_password ms name password st fs)))) \<longleftrightarrow>
    (if n = name then hash_password (fst (gen_salt ms st)) q = hash_password (fst (gen_salt ms st)) password
     else fst (user_check_password n q st))"
proof -
  obtain ok st' fs' where r: "user_set_password ms name password st fs = (ok, st', fs')" by (cases "user_set_password ms name password st fs")
  note s = user_set_password_db [OF assms HOL.refl, of ms password fs, unfolded r prod.case]
  have "map_of (without name db @ [(name, x)]) n = (if n = name then Some x else map_of db n)" for x
    using without_props(5) [of name db n] by (auto simp: map_of_append map_add_def split: option.split)
  moreover have "shadow_rep st' (without name db @ [(name, fst (gen_salt ms st), hash_password (fst (gen_salt ms st)) password)])"
    and "user_by_name n st' = None \<longleftrightarrow> user_by_name n st = None" using s by blast+
  ultimately show ?thesis using assms(2) by (auto simp: r user_check_password_db [OF assms(1)] user_check_password_db [where st = st'] simp del: map_of_append)
qed

text \<open>C23: a user who is renamed can log in with the empty password, whatever password was set before:
  the entry of the shadow text keeps the old name.\<close>

theorem user_mod_loses_password:
  assumes "shadow_rep st db" "find_slot (is_user name) (g_users st) = Some i" "name \<noteq> []"
    "user_by_name new st = None" "good_name new" "new \<notin> fst ` set db"
  shows "fst (user_check_password new q (fst (snd (user_mod (Some name) (Some new) uid gid home st fs)))) \<longleftrightarrow> q = []"
proof -
  define u where "u = mod_record (Some new) uid gid (non_empty home) (g_users st ! i)"
  have n: "non_empty (Some new) = Some new" "non_empty (Some name) = Some name" "length new \<le> 31"
    using assms(3,5) by (auto simp: good_name_def non_empty_def split: list.split)
  have i: "i < length (g_users st)" "u_valid (g_users st ! i)" using assms(2) by (auto simp: is_user_def dest: find_slot_SomeD)
  have u: "is_user new u" using n(3) i(2) by (simp add: u_def mod_record_def is_user_def Let_def split: option.split)
  define st' where "st' = st\<lparr>g_users := (g_users st)[i := u]\<rparr>"
  have r: "fst (snd (user_mod (Some name) (Some new) uid gid home st fs)) = st'"
    by (simp add: user_mod_def n assms(2,4) Let_def st'_def u_def split: prod.split)
  have "u \<in> set (g_users st')" using i(1) by (simp add: st'_def set_update_memI)
  then have "user_by_name new st' \<noteq> None" using u by (auto simp only: user_none)
  moreover have "shadow_rep st' db" using assms(1) by (simp add: shadow_rep_def st'_def)
  moreover have "map_of db new = None" using assms(6) by (simp add: map_of_eq_None_iff)
  ultimately show ?thesis unfolding r by (auto simp: user_check_password_db [where st = st'])
qed

text \<open>When the text has no room for the new entry the old one is removed all the same and the call
  reports success: the empty password is accepted from then on.\<close>

lemma user_set_password_full:
  assumes rep: "shadow_rep st db" and u: "user_by_name name st \<noteq> None" and g: "good_name name"
    and full: "SHADOW_BUF \<le> length (db_text (without name db)) + length name + 19"
  shows "case user_set_password ms name password st fs of (ok, st', fs') \<Rightarrow> ok \<and> fst (user_check_password name [] st')"
proof -
  have good: "\<forall>e \<in> set db. good_entry e" "distinct (map fst db)" and t: "take (g_shadow_len st) (g_shadow st) = db_text db"
    and l: "g_shadow_len st < SHADOW_BUF" "length (g_shadow st) = SHADOW_BUF" using rep by (simp_all add: shadow_rep_def)
  obtain salt st1 where gs: "gen_salt ms st = (salt, st1)" "st1 = st\<lparr>g_salts := g_salts st + 1\<rparr>" "length salt = 8" by (simp add: gen_salt_def Let_def)
  have n31: "length name \<le> 31" using g by (simp add: good_name_def)
  have ren: "length (render (name, salt, h)) = length name + 18" for h using gs(3) by (simp add: render_def)
  have tl: "length (db_text db) < SHADOW_BUF" using t l by (metis length_take min.absorb2 less_imp_le_nat)
  have d: "drop_user name (db_text db) [] = db_text (without name db)" using drop_user_db [OF good(1), of "[]" name] tl by (simp add: without_def)
  have rep': "shadow_rep (set_shadow (db_text (without name db)) st1\<lparr>g_users := us\<rparr>) (without name db)" for us
    using rep without_props [where db = db and name = name] good tl gs(2) by (simp add: shadow_rep_def set_shadow_def) 
  let ?mark = "\<lambda>u. if is_user name u then u\<lparr>u_shadow := True\<rparr> else u"
  have m: "is_user n (?mark v) = is_user n v" for n v by (simp add: is_user_def)
  have r: "user_set_password ms name password st fs =
    (True, set_shadow (db_text (without name db)) st1\<lparr>g_users := map ?mark (g_users st)\<rparr>,
      write_shadow_file (set_shadow (db_text (without name db)) st1) fs)"
    using u full by (simp add: user_set_password_def gs t d shadow_line_render [OF n31 gs(3)] ren set_shadow_def Let_def)
  have e: "user_by_name name (x\<lparr>g_users := map ?mark (g_users st)\<rparr>) = None \<longleftrightarrow> user_by_name name st = None" for x
    unfolding user_by_name_map [OF m] user_none [of name st] ..
  show ?thesis unfolding r prod.case user_check_password_db [OF rep'] e using u without_props(5) [of name db name] by simp
qed

section \<open>The passwd text\<close>

definition plain_field :: "string \<Rightarrow> bool" where
  "plain_field s \<longleftrightarrow> colon \<notin> set s \<and> newline \<notin> set s \<and> NUL \<notin> set s"

definition good_user :: "user_record \<Rightarrow> bool" where
  "good_user u \<longleftrightarrow> u_valid u \<and> u_name u \<noteq> [] \<and> hd (u_name u) \<noteq> CHR ''#'' \<and>
     plain_field (u_name u) \<and> plain_field (u_home u) \<and> plain_field (u_shell u) \<and>
     length (u_name u) \<le> 31 \<and> length (u_home u) \<le> 63 \<and> length (u_shell u) \<le> 31"

definition passwd_line :: "user_record \<Rightarrow> string" where
  "passwd_line u = u_name u @ colon # ''x'' @ colon # dec (u_uid u) @ colon # dec (u_gid u) @ colon #
     u_name u @ colon # u_home u @ colon # u_shell u"

lemma put_field_fits: "length out + k + 2 * length s < SHADOW_BUF - 1 \<Longrightarrow> put_field out k s = (out @ s, k + length s)"
  by (induction out k s rule: put_field.induct) simp_all

lemma dec_digits_chars:
  "(\<forall>c \<in> set acc. is_digit c) \<Longrightarrow> (\<forall>c \<in> set (dec_digits v acc). is_digit c)"
proof (induction v acc rule: dec_digits.induct)
  case (1 v acc)
  have "is_digit (char_of (48 + v mod 10))" by (simp add: is_digit_def)
  then show ?case using 1 by (subst dec_digits.simps) auto
qed

lemma length_dec_digits: "v < 10 ^ n \<Longrightarrow> length (dec_digits v acc) \<le> n + length acc"
proof (induction n arbitrary: v acc)
  case 0
  then show ?case by (simp add: dec_digits.simps)
next
  case (Suc n)
  then have "v div 10 < 10 ^ n" by (simp add: less_mult_imp_div_less)
  from Suc.IH [OF this, of "char_of (48 + v mod 10) # acc"] show ?case by (subst dec_digits.simps) simp
qed

lemma dec_props: "\<forall>c \<in> set (dec v). is_digit c" "length (dec v) \<le> 5"
proof -
  show "\<forall>c \<in> set (dec v). is_digit c" using dec_digits_chars [of "[]"] by (simp add: dec_def is_digit_def)
  have "unat v < 2 ^ 16" using unsigned_less [of v] by simp
  then have "unat v < 10 ^ 5" by simp
  then show "length (dec v) \<le> 5" using length_dec_digits [of "unat v" 5 "[]"] by (simp add: dec_def)
qed

lemma of_char_u16: "(of_char c :: u16) = of_nat (of_char c)"
  by (simp add: of_char_def)

lemma fold_dec_digits:
  "fold (\<lambda>c v. v * 10 + (of_char c - 48)) (dec_digits n acc) (0 :: u16) = fold (\<lambda>c v. v * 10 + (of_char c - 48)) acc (of_nat n)"
proof (induction n acc rule: dec_digits.induct)
  case (1 n acc)
  show ?case
  proof (cases "n = 0")
    case True
    then show ?thesis by (simp add: dec_digits.simps)
  next
    case False
    have "(of_nat (n div 10) :: u16) * 10 + (of_nat (48 + n mod 10) - 48) = of_nat (n div 10 * 10 + n mod 10)"
      by (simp only: of_nat_add of_nat_mult) simp
    then have "(of_nat (n div 10) :: u16) * 10 + (of_nat (48 + n mod 10) - 48) = of_nat n" by (simp only: div_mult_mod_eq)
    then show ?thesis using 1 False by (subst dec_digits.simps) (simp add: of_char_u16)
  qed
qed

lemma parse_id_dec: "parse_id (dec v) = v"
proof -
  have "takeWhile is_digit (dec v) = dec v" using dec_props(1) by (simp add: takeWhile_eq_all_conv)
  then have "parse_id (dec v) = fold (\<lambda>c v. v * 10 + (of_char c - 48)) (dec v) 0" by (simp only: parse_id_def)
  then show ?thesis using fold_dec_digits [of "unat v" "[]"] by (simp add: dec_def)
qed

lemma put_char_fits: "length out + 1 < SHADOW_BUF \<Longrightarrow> put_char c out = out @ [c]"
  by (simp add: put_char_def)

lemma put_num_fits: "length out + 5 < SHADOW_BUF \<Longrightarrow> put_num v out = out @ dec v"
  using dec_props(2) [of v] by (simp add: put_num_def Let_def)

lemma length_passwd_line: "good_user u \<Longrightarrow> length (passwd_line u) \<le> 173"
  using dec_props(2) [of "u_uid u"] dec_props(2) [of "u_gid u"] by (simp add: good_user_def passwd_line_def)

lemma passwd_entry_fits:
  assumes "good_user u" "length out \<le> 3000"
  shows "passwd_entry u out = out @ passwd_line u @ [newline]"
proof -
  have f: "length (u_name u) \<le> 31" "length (u_home u) \<le> 63" "length (u_shell u) \<le> 31" using assms(1) by (simp_all add: good_user_def)
  define a where "a = out @ u_name u @ colon # ''x'' @ [colon]"
  define b where "b = a @ dec (u_uid u) @ colon # dec (u_gid u) @ [colon]"
  define c where "c = b @ u_name u @ colon # u_home u @ [colon]"
  have la: "length a \<le> 3034" using f assms(2) by (simp add: a_def)
  then have lb: "length b \<le> 3046" using dec_props(2) [of "u_uid u"] dec_props(2) [of "u_gid u"] by (simp add: b_def)
  then have lc: "length c \<le> 3142" using f by (simp add: c_def)
  have 1: "put_char colon (put_char (CHR ''x'') (put_char colon (fst (put_field out 0 (u_name u))))) = a"
    using f assms(2) by (simp add: put_field_fits put_char_fits a_def)
  have 2: "put_char colon (put_num (u_gid u) (put_char colon (put_num (u_uid u) a))) = b"
    using la dec_props(2) [of "u_uid u"] dec_props(2) [of "u_gid u"] by (simp add: put_num_fits put_char_fits b_def)
  have 3: "put_char colon (fst (put_field (put_char colon (fst (put_field b 0 (u_name u)))) 0 (u_home u))) = c"
    using lb f by (simp add: put_field_fits put_char_fits c_def)
  have 4: "put_field c 0 (u_shell u) = (c @ u_shell u, length (u_shell u))" using lc f by (simp add: put_field_fits)
  show ?thesis unfolding passwd_entry_def Let_def 1 2 3 4 prod.case using lc f
    by (simp add: passwd_line_def a_def b_def c_def)
qed

lemma passwd_text_lines:
  assumes "\<forall>u \<in> set us. good_user u" "length us \<le> 16"
  shows "passwd_text us = concat (map (\<lambda>u. passwd_line u @ [newline]) us)"
proof -
  have "fold passwd_entry vs out = out @ concat (map (\<lambda>u. passwd_line u @ [newline]) vs)"
    if "\<forall>u \<in> set vs. good_user u" "length out + 174 * length vs \<le> 3000" for vs out
    using that
  proof (induction vs arbitrary: out)
    case (Cons u vs)
    then have "good_user u" "length out \<le> 3000" by simp_all
    note e = passwd_entry_fits [OF this]
    have "length (passwd_entry u out) + 174 * length vs \<le> 3000" unfolding e using Cons.prems length_passwd_line [of u] by simp
    then show ?case using Cons.IH [of "passwd_entry u out"] Cons.prems(1) by (simp add: e)
  qed simp
  moreover have "filter u_valid us = us" using assms(1) by (simp add: good_user_def filter_id_conv)
  ultimately show ?thesis using assms by (simp add: passwd_text_def)
qed

lemma split_fields_colon: "colon \<notin> set a \<Longrightarrow> split_fields (Suc n) (a @ colon # r) = a # split_fields n r"
proof -
  assume a: "colon \<notin> set a"
  then have "dropWhile (\<lambda>c. c \<noteq> colon) (a @ colon # r) = colon # r" by (subst dropWhile_append2) auto
  moreover have "takeWhile (\<lambda>c. c \<noteq> colon) (a @ colon # r) = a" using a by (subst takeWhile_append2) auto
  ultimately show ?thesis by simp
qed

lemma dec_plain: "plain_field (dec v)"
  using dec_props(1) [of v] by (auto simp: plain_field_def is_digit_def)

lemma passwd_line_plain:
  assumes "good_user u"
  shows "newline \<notin> set (passwd_line u)" "NUL \<notin> set (passwd_line u)" "passwd_line u \<noteq> []" "hd (passwd_line u) \<noteq> CHR ''#''"
  using assms dec_plain [of "u_uid u"] dec_plain [of "u_gid u"]
  by (auto simp: good_user_def passwd_line_def plain_field_def)

lemma parse_user_line:
  assumes "good_user u"
  shows "parse_user (passwd_line u) = Some (u\<lparr>u_shadow := False\<rparr>)"
proof -
  have p: "colon \<notin> set (u_name u)" "colon \<notin> set (u_home u)" "colon \<notin> set (dec (u_uid u))" "colon \<notin> set (dec (u_gid u))" "colon \<notin> set ''x''"
    using assms dec_plain by (simp_all add: good_user_def plain_field_def)
  have t: "takeWhile (\<lambda>c. c \<noteq> NUL) (take 255 (passwd_line u)) = passwd_line u"
    using length_passwd_line [OF assms] passwd_line_plain(2) [OF assms] by (auto simp: takeWhile_eq_all_conv)
  have six: "6 = Suc (Suc (Suc (Suc (Suc (Suc 0)))))" by simp
  have f: "split_fields 6 (passwd_line u) = [u_name u, ''x'', dec (u_uid u), dec (u_gid u), u_name u, u_home u, u_shell u]"
    unfolding six passwd_line_def split_fields_colon [OF p(1)] split_fields_colon [OF p(5)] split_fields_colon [OF p(3)]
      split_fields_colon [OF p(4)] split_fields_colon [OF p(2)] split_fields.simps(1) ..
  show ?thesis unfolding parse_user_def t f using assms
    by (simp add: parse_id_dec good_user_def Let_def)
qed

text \<open>C24: the table of users that is written to the passwd file is the table that is read back from its
  text, except for the mark of a password, which is taken from the shadow file.\<close>

theorem passwd_roundtrip:
  assumes "\<forall>u \<in> set us. good_user u" "length us \<le> UMAX_USERS"
  shows "parse_passwd (passwd_text us) [] = map (\<lambda>u. u\<lparr>u_shadow := False\<rparr>) us"
proof -
  have "parse_passwd (concat (map (\<lambda>u. passwd_line u @ [newline]) vs)) acc = acc @ map (\<lambda>u. u\<lparr>u_shadow := False\<rparr>) vs"
    if "\<forall>u \<in> set vs. good_user u" "length acc + length vs \<le> UMAX_USERS" for vs acc
    using that
  proof (induction vs arbitrary: acc)
    case (Cons u vs)
    then have g: "good_user u" by simp
    note q = passwd_line_plain [OF g]
    have l: "line_of (passwd_line u @ newline # x) = passwd_line u" for x unfolding line_of_def using q(1) by (subst takeWhile_append2) auto
    then have a: "after_line (passwd_line u @ newline # x) = x" for x by (simp add: after_line_def)
    have "parse_passwd (concat (map (\<lambda>u. passwd_line u @ [newline]) (u # vs))) acc =
      parse_passwd (concat (map (\<lambda>u. passwd_line u @ [newline]) vs)) (acc @ [u\<lparr>u_shadow := False\<rparr>])"
      using Cons.prems(2) q by (subst parse_passwd.simps) (simp add: l a parse_user_line [OF g] Let_def)
    then show ?case using Cons.IH [of "acc @ [u\<lparr>u_shadow := False\<rparr>]"] Cons.prems by simp
  qed (simp add: parse_passwd.simps)
  from this [OF assms(1), of "[]"] show ?thesis using assms by (simp add: passwd_text_lines)
qed

section \<open>An example\<close>

definition bob :: user_record where
  "bob = \<lparr>u_name = ''bob'', u_uid = 1001, u_gid = 1001, u_home = ''/home/bob'', u_shell = ''/bin/sh'', u_valid = True, u_shadow = False\<rparr>"

definition bob_db :: "shadow_entry list" where
  "bob_db = [(''bob'', ''0123abcd'', 7)]"

definition bob_st :: "shadow_entry list \<Rightarrow> uauth" where
  "bob_st db = \<lparr>g_users = [bob], g_groups = [], g_shadow = db_text db @ replicate (SHADOW_BUF - length (db_text db)) NUL,
     g_shadow_len = length (db_text db), g_salts = 3\<rparr>"

lemma bob_rep: "shadow_rep (bob_st bob_db) bob_db"
  by (simp add: shadow_rep_def bob_st_def bob_db_def good_entry_def good_name_def plain_def render_def)

lemma bob_found: "user_by_name ''bob'' (bob_st db) \<noteq> None" "find_slot (is_user ''bob'') (g_users (bob_st db)) = Some 0"
  "user_by_name ''rob'' (bob_st db) = None"
  by (simp_all add: user_by_name_def bob_st_def bob_def is_user_def)

theorem user_password_set_witness:
  "fst (user_check_password ''bob'' ''secret'' (fst (snd (user_set_password 7 ''bob'' ''secret'' (bob_st bob_db) small_fs))))"
  using user_password_set [OF bob_rep bob_found(1), of "''bob''" "''secret''" 7 "''secret''" small_fs]
  by (simp add: good_name_def plain_def without_def bob_db_def)

theorem user_mod_loses_password_witness:
  "fst (user_check_password ''rob'' [] (fst (snd (user_mod (Some ''bob'') (Some ''rob'') 0 0 None (bob_st bob_db) small_fs))))"
  using user_mod_loses_password [OF bob_rep bob_found(2) _ bob_found(3), of "[]" 0 0 None small_fs]
  by (simp add: good_name_def plain_def bob_db_def)

theorem passwd_roundtrip_witness: "parse_passwd (passwd_text [bob]) [] = [bob]"
  using passwd_roundtrip [of "[bob]"] by (simp add: good_user_def plain_field_def bob_def)

end
