(* ===== verification/KElf.thy ===== *)
theory KElf
  imports KWords
begin

text \<open>
  The program loader of \<^verbatim>\<open>kernel/elf.cpp\<close>: the check of an ELF32 image, the copy of its segments to
  their addresses, and the range of addresses the segments take. Memory is a function from physical
  addresses to bytes, and \<open>tr\<close> the translation of addresses by the page directory that is loaded; an
  image is the list of its bytes, and \<^verbatim>\<open>None\<close> the null pointer.
\<close>

section \<open>Image and memory\<close>

type_synonym memory = "u32 \<Rightarrow> u8"

abbreviation ELF_USER_VA_MIN :: u32 where "ELF_USER_VA_MIN \<equiv> 0x00800000"
abbreviation ELF_USER_VA_MAX :: u32 where "ELF_USER_VA_MAX \<equiv> 0x05000000"
abbreviation EHDR_SIZE :: nat where "EHDR_SIZE \<equiv> 52"
abbreviation PHDR_SIZE :: nat where "PHDR_SIZE \<equiv> 32"
abbreviation PT_LOAD :: u32 where "PT_LOAD \<equiv> 1"

record elf32_ehdr =
  e_ident :: "u8 list"
  e_type :: u16
  e_machine :: u16
  e_version :: u32
  e_entry :: u32
  e_phoff :: u32
  e_shoff :: u32
  e_flags :: u32
  e_ehsize :: u16
  e_phentsize :: u16
  e_phnum :: u16
  e_shentsize :: u16
  e_shnum :: u16
  e_shstrndx :: u16

record elf32_phdr =
  p_type :: u32
  p_offset :: u32
  p_vaddr :: u32
  p_paddr :: u32
  p_filesz :: u32
  p_memsz :: u32
  p_flags :: u32
  p_align :: u32

text \<open>The structs are packed and read in place.\<close>

definition ehdr_at :: "u8 list \<Rightarrow> elf32_ehdr" where
  "ehdr_at img =
     \<lparr>e_ident = take 16 img, e_type = get16 img 16, e_machine = get16 img 18, e_version = get32 img 20,
      e_entry = get32 img 24, e_phoff = get32 img 28, e_shoff = get32 img 32, e_flags = get32 img 36,
      e_ehsize = get16 img 40, e_phentsize = get16 img 42, e_phnum = get16 img 44,
      e_shentsize = get16 img 46, e_shnum = get16 img 48, e_shstrndx = get16 img 50\<rparr>"

definition phdr_at :: "u8 list \<Rightarrow> nat \<Rightarrow> elf32_phdr" where
  "phdr_at img i =
     \<lparr>p_type = get32 img i, p_offset = get32 img (i + 4), p_vaddr = get32 img (i + 8), p_paddr = get32 img (i + 12),
      p_filesz = get32 img (i + 16), p_memsz = get32 img (i + 20), p_flags = get32 img (i + 24), p_align = get32 img (i + 28)\<rparr>"

text \<open>The program headers as the array \<^verbatim>\<open>ph\<close> is indexed: with the size of the struct as the stride.\<close>

definition phdrs :: "u8 list \<Rightarrow> elf32_phdr list" where
  "phdrs img = (let h = ehdr_at img in map (\<lambda>i. phdr_at img (unat (e_phoff h) + PHDR_SIZE * i)) [0..<unat (e_phnum h)])"

section \<open>Loading\<close>

definition elf32_bounds_ok :: "u32 \<Rightarrow> u32 \<Rightarrow> u32 \<Rightarrow> bool" where
  "elf32_bounds_ok len off sz \<longleftrightarrow> off \<le> len \<and> sz \<le> len - off"

definition elf32_validate :: "u8 list option \<Rightarrow> int" where
  "elf32_validate file =
     (case file of
        None \<Rightarrow> -1
      | Some img \<Rightarrow>
          if length img < EHDR_SIZE then -1
          else let h = ehdr_at img
               in if e_ident h ! 0 \<noteq> 0x7F \<or> e_ident h ! 1 \<noteq> 0x45 \<or> e_ident h ! 2 \<noteq> 0x4C \<or> e_ident h ! 3 \<noteq> 0x46 then -2
                  else if e_ident h ! 4 \<noteq> 1 then -3
                  else if e_ident h ! 5 \<noteq> 1 then -4
                  else if e_type h \<noteq> 2 then -5
                  else if e_machine h \<noteq> 3 then -6
                  else if e_phentsize h < 32 then -7
                  else if \<not> elf32_bounds_ok (of_nat (length img)) (e_phoff h) (ucast (e_phentsize h) * ucast (e_phnum h)) then -8
                  else 0)"

fun write_bytes :: "(u32 \<Rightarrow> u32) \<Rightarrow> u32 \<Rightarrow> u8 list \<Rightarrow> memory \<Rightarrow> memory" where
  "write_bytes tr a [] m = m"
| "write_bytes tr a (b # bs) m = write_bytes tr (a + 1) bs (m(tr a := b))"

definition copy_segment :: "(u32 \<Rightarrow> u32) \<Rightarrow> u8 list \<Rightarrow> elf32_phdr \<Rightarrow> memory \<Rightarrow> memory" where
  "copy_segment tr img p m =
     (let filesz = unat (p_filesz p);
          m = write_bytes tr (p_vaddr p) (take filesz (drop (unat (p_offset p)) img)) m
      in write_bytes tr (p_vaddr p + p_filesz p) (replicate (unat (p_memsz p) - filesz) 0) m)"

definition segment_error :: "u32 \<Rightarrow> elf32_phdr \<Rightarrow> int" where
  "segment_error len p =
     (if p_filesz p > p_memsz p then -10
      else if p_vaddr p + p_memsz p \<le> p_vaddr p \<or> p_vaddr p + p_memsz p > ELF_USER_VA_MAX then -11
      else if \<not> elf32_bounds_ok len (p_offset p) (p_filesz p) then -12
      else 0)"

fun load_segments :: "(u32 \<Rightarrow> u32) \<Rightarrow> u8 list \<Rightarrow> elf32_phdr list \<Rightarrow> memory \<Rightarrow> int \<times> memory" where
  "load_segments tr img [] m = (0, m)"
| "load_segments tr img (p # ps) m =
     (if p_type p \<noteq> PT_LOAD then load_segments tr img ps m
      else if p_vaddr p < ELF_USER_VA_MIN then (-9, m)
      else if p_memsz p = 0 then load_segments tr img ps m
      else let e = segment_error (of_nat (length img)) p
           in if e \<noteq> 0 then (e, m) else load_segments tr img ps (copy_segment tr img p m))"

text \<open>The entry point is stored only when the load succeeds.\<close>

definition elf32_load :: "(u32 \<Rightarrow> u32) \<Rightarrow> u8 list option \<Rightarrow> memory \<Rightarrow> int \<times> u32 option \<times> memory" where
  "elf32_load tr file m =
     (if elf32_validate file \<noteq> 0 then (-1, None, m)
      else case load_segments tr (the file) (phdrs (the file)) m of
             (e, m) \<Rightarrow> if e \<noteq> 0 then (e, None, m) else (0, Some (e_entry (ehdr_at (the file))), m))"

fun range_scan :: "elf32_phdr list \<Rightarrow> u32 \<Rightarrow> u32 \<Rightarrow> (u32 \<times> u32) option" where
  "range_scan [] lo hi = Some (lo, hi)"
| "range_scan (p # ps) lo hi =
     (if p_type p \<noteq> PT_LOAD \<or> p_memsz p = 0 then range_scan ps lo hi
      else let vaddr = p_vaddr p; fin = vaddr + p_memsz p
           in if vaddr < ELF_USER_VA_MIN \<or> fin \<le> vaddr \<or> fin > ELF_USER_VA_MAX then None
              else range_scan ps (if vaddr < lo then vaddr else lo) (if fin > hi then fin else hi))"

definition elf32_user_ranges :: "u8 list option \<Rightarrow> int \<times> (u32 \<times> u32) option" where
  "elf32_user_ranges file =
     (if elf32_validate file \<noteq> 0 then (-1, None)
      else case range_scan (phdrs (the file)) 0xFFFFFFFF 0 of
             None \<Rightarrow> (-3, None)
           | Some (lo, hi) \<Rightarrow> if hi = 0 then (-4, None) else (0, Some (lo, hi)))"

section \<open>What is in memory after loading\<close>

text \<open>The specification: the byte at an address is the one the last loaded segment that covers the
  address gives it, a byte of the file or zero.\<close>

definition loads :: "elf32_phdr \<Rightarrow> bool" where
  "loads p \<longleftrightarrow> p_type p = PT_LOAD \<and> p_memsz p \<noteq> 0"

definition covers :: "u32 \<Rightarrow> elf32_phdr \<Rightarrow> bool" where
  "covers a p \<longleftrightarrow> unat (p_vaddr p) \<le> unat a \<and> unat a < unat (p_vaddr p) + unat (p_memsz p)"

definition segment_byte :: "u8 list \<Rightarrow> elf32_phdr \<Rightarrow> u32 \<Rightarrow> u8" where
  "segment_byte img p a =
     (let j = unat a - unat (p_vaddr p) in if j < unat (p_filesz p) then img ! (unat (p_offset p) + j) else 0)"

definition spec_memory :: "u8 list \<Rightarrow> elf32_phdr list \<Rightarrow> memory \<Rightarrow> memory" where
  "spec_memory img ps m a =
     (case filter (\<lambda>p. loads p \<and> covers a p) ps of [] \<Rightarrow> m a | q # qs \<Rightarrow> segment_byte img (last (q # qs)) a)"

definition user_range :: "u32 set" where
  "user_range = {a. ELF_USER_VA_MIN \<le> a \<and> a < ELF_USER_VA_MAX}"

lemma user_range_unat: "a \<in> user_range \<longleftrightarrow> unat ELF_USER_VA_MIN \<le> unat a \<and> unat a < unat ELF_USER_VA_MAX"
  by (simp only: user_range_def mem_Collect_eq word_le_nat_alt word_less_nat_alt)

lemma write_bytes_at:
  assumes "inj_on tr user_range" "x \<in> user_range"
  shows "unat ELF_USER_VA_MIN \<le> unat a \<Longrightarrow> unat a + length bs \<le> unat ELF_USER_VA_MAX \<Longrightarrow>
    write_bytes tr a bs m (tr x) = (if unat a \<le> unat x \<and> unat x < unat a + length bs then bs ! (unat x - unat a) else m (tr x))"
proof (induction bs arbitrary: a m)
  case (Cons b bs)
  have ar: "a \<in> user_range" using Cons.prems by (simp add: user_range_unat)
  have u: "unat (a + 1) = unat a + 1" using Cons.prems by (intro unat_inc) simp
  have "tr x = tr a \<longleftrightarrow> x = a" by (rule inj_on_eq_iff [OF assms ar])
  then have t: "tr x = tr a \<longleftrightarrow> unat x = unat a" using word_unat_eq_iff [of x a] by simp
  have i: "write_bytes tr (a + 1) bs m' (tr x) = (if unat a + 1 \<le> unat x \<and> unat x < unat a + 1 + length bs then bs ! (unat x - (unat a + 1)) else m' (tr x))" for m'
    using Cons.IH [of "a + 1" m'] Cons.prems by (simp add: u)
  show ?case unfolding write_bytes.simps i using t by (auto simp: nth_Cons')
qed auto

lemma write_bytes_other: "y \<notin> tr ` user_range \<Longrightarrow> unat ELF_USER_VA_MIN \<le> unat a \<Longrightarrow> unat a + length bs \<le> unat ELF_USER_VA_MAX \<Longrightarrow> write_bytes tr a bs m y = m y"
proof (induction bs arbitrary: a m)
  case (Cons b bs)
  have "a \<in> user_range" using Cons.prems by (simp add: user_range_unat)
  then have "y \<noteq> tr a" using Cons.prems(1) by blast
  moreover have "unat (a + 1) = unat a + 1" using Cons.prems by (intro unat_inc) simp
  ultimately have "write_bytes tr (a + 1) bs (m(tr a := b)) y = (m(tr a := b)) y" using Cons.prems by (intro Cons.IH) simp_all
  then show ?case using \<open>y \<noteq> tr a\<close> by simp
qed simp

text \<open>What the guards of the loop give for a segment that is copied.\<close>

lemma segment_ok:
  assumes "segment_error len p = 0" "p_memsz p \<noteq> 0"
  shows "unat (p_vaddr p) + unat (p_memsz p) \<le> unat ELF_USER_VA_MAX" "unat (p_filesz p) \<le> unat (p_memsz p)"
    "unat (p_offset p) + unat (p_filesz p) \<le> unat len"
proof -
  have g: "p_filesz p \<le> p_memsz p" "p_vaddr p < p_vaddr p + p_memsz p" "p_vaddr p + p_memsz p \<le> ELF_USER_VA_MAX"
    "p_offset p \<le> len" "p_filesz p \<le> len - p_offset p"
    using assms by (auto simp: segment_error_def elf32_bounds_ok_def split: if_splits)
  have "unat (p_vaddr p + p_memsz p) = unat (p_vaddr p) + unat (p_memsz p)"
    using g(2) by (metis less_imp_le word_less_nat_alt unat_plus_if_size not_less_iff_gr_or_eq unat_plus_simple)
  then show "unat (p_vaddr p) + unat (p_memsz p) \<le> unat ELF_USER_VA_MAX" using g(3) by (simp add: word_le_nat_alt)
  show "unat (p_filesz p) \<le> unat (p_memsz p)" using g(1) by (simp add: word_le_nat_alt)
  have "unat (len - p_offset p) = unat len - unat (p_offset p)" using g(4) by (simp add: unat_sub)
  then show "unat (p_offset p) + unat (p_filesz p) \<le> unat len" using g(4,5) by (simp add: word_le_nat_alt)
qed

lemma copy_segment_at:
  assumes "segment_error (of_nat (length img)) p = 0" "p_memsz p \<noteq> 0" "ELF_USER_VA_MIN \<le> p_vaddr p" "length img < 2 ^ 32"
  shows "inj_on tr user_range \<Longrightarrow> a \<in> user_range \<Longrightarrow> copy_segment tr img p m (tr a) = (if covers a p then segment_byte img p a else m (tr a))"
    "y \<notin> tr ` user_range \<Longrightarrow> copy_segment tr img p m y = m y"
proof -
  note ok = segment_ok [OF assms(1,2)]
  have len: "unat (of_nat (length img) :: u32) = length img" using assms(4) by (rule unat_of_nat32)
  have l: "length (take (unat (p_filesz p)) (drop (unat (p_offset p)) img)) = unat (p_filesz p)" using ok(3) len by simp
  have lo: "unat ELF_USER_VA_MIN \<le> unat (p_vaddr p)" using assms(3) by (simp only: word_le_nat_alt)
  have m: "unat ELF_USER_VA_MAX < 2 ^ 32" by simp
  have v: "unat (p_vaddr p + p_filesz p) = unat (p_vaddr p) + unat (p_filesz p)" using ok m by (intro unat_add) simp
  have w: "unat (p_vaddr p) + unat (p_filesz p) \<le> unat ELF_USER_VA_MAX" "unat ELF_USER_VA_MIN \<le> unat (p_vaddr p) + unat (p_filesz p)"
    "unat (p_vaddr p) + unat (p_filesz p) + (unat (p_memsz p) - unat (p_filesz p)) \<le> unat ELF_USER_VA_MAX" using ok lo by linarith+
  show "copy_segment tr img p m (tr a) = (if covers a p then segment_byte img p a else m (tr a))" if "inj_on tr user_range" "a \<in> user_range"
    unfolding copy_segment_def Let_def
    using ok w lo len by (simp add: write_bytes_at [OF that] l v del: unat_numeral) (auto simp: covers_def segment_byte_def Let_def)
  show "copy_segment tr img p m y = m y" if "y \<notin> tr ` user_range"
    unfolding copy_segment_def Let_def using w lo by (simp add: write_bytes_other [OF that] l v del: unat_numeral)
qed

lemma spec_memory_Cons:
  "spec_memory img (p # ps) m = spec_memory img ps (\<lambda>a. if loads p \<and> covers a p then segment_byte img p a else m a)"
  by (rule ext) (auto simp: spec_memory_def split: list.split)

lemma spec_memory_cong: "m a = m' a \<Longrightarrow> spec_memory img ps m a = spec_memory img ps m' a"
  by (simp add: spec_memory_def split: list.split)

lemma load_segments_spec:
  assumes "length img < 2 ^ 32" "inj_on tr user_range" "a \<in> user_range"
  shows "fst (load_segments tr img ps m) = 0 \<Longrightarrow> snd (load_segments tr img ps m) (tr a) = spec_memory img ps (m \<circ> tr) a"
proof (induction ps arbitrary: m)
  case Nil
  then show ?case by (simp add: spec_memory_def)
next
  case (Cons p ps)
  show ?case
  proof (cases "loads p")
    case True
    then have l: "p_type p = PT_LOAD" "p_memsz p \<noteq> 0" by (simp_all add: loads_def)
    with Cons.prems have e: "segment_error (of_nat (length img)) p = 0" "\<not> p_vaddr p < ELF_USER_VA_MIN" by (auto simp: Let_def split: if_splits)
    have "(copy_segment tr img p m \<circ> tr) a = (if loads p \<and> covers a p then segment_byte img p a else (m \<circ> tr) a)"
      using True copy_segment_at(1) [OF e(1) l(2) _ assms] e(2) by simp
    note c = spec_memory_cong [of "copy_segment tr img p m \<circ> tr" a "\<lambda>a. if loads p \<and> covers a p then segment_byte img p a else (m \<circ> tr) a", OF this]
    show ?thesis using Cons.IH [of "copy_segment tr img p m"] Cons.prems l e c [unfolded o_def] by (simp add: Let_def spec_memory_Cons o_def)
  next
    case False
    then have "snd (load_segments tr img (p # ps) m) = snd (load_segments tr img ps m)" "fst (load_segments tr img ps m) = 0"
      using Cons.prems by (auto simp: loads_def Let_def split: if_splits)
    moreover have "spec_memory img (p # ps) (m \<circ> tr) = spec_memory img ps (m \<circ> tr)" using False by (simp add: spec_memory_Cons o_def)
    ultimately show ?thesis using Cons.IH [of m] by (simp only:)
  qed
qed

text \<open>C19: after a successful load every address of user programs holds the byte the image prescribes:
  that of the last segment that covers it, from the file or zero behind its end, and its old content
  where no segment lies; the entry point is that of the header. The page directory may map the
  addresses anywhere as long as no two share a byte.\<close>

theorem elf32_load_memory:
  assumes "elf32_load tr (Some img) m = (0, entry, m')" "length img < 2 ^ 32" "inj_on tr user_range" "a \<in> user_range"
  shows "m' (tr a) = spec_memory img (phdrs img) (m \<circ> tr) a \<and> entry = Some (e_entry (ehdr_at img))"
  using assms load_segments_spec [OF assms(2-4), of "phdrs img" m]
  by (auto simp: elf32_load_def split: if_splits prod.splits)

lemma load_segments_frame:
  assumes "length img < 2 ^ 32" "y \<notin> tr ` user_range"
  shows "snd (load_segments tr img ps m) y = m y"
proof (induction ps arbitrary: m)
  case (Cons p ps)
  show ?case
  proof (cases "p_type p = PT_LOAD \<and> \<not> p_vaddr p < ELF_USER_VA_MIN \<and> p_memsz p \<noteq> 0 \<and> segment_error (of_nat (length img)) p = 0")
    case True
    then have "copy_segment tr img p m y = m y" using copy_segment_at(2) [where img = img and p = p and tr = tr and y = y and m = m] assms by (auto simp: not_less)
    then show ?thesis using True Cons.IH [of "copy_segment tr img p m"] by (simp add: Let_def)
  next
    case False
    then show ?thesis using Cons.IH [of m] by (auto simp: Let_def)
  qed
qed simp

text \<open>Fact: whatever the image and whatever the result, loading changes no byte of memory outside those
  the addresses of user programs are mapped to.\<close>

theorem elf32_load_confined:
  assumes "length img < 2 ^ 32" "y \<notin> tr ` user_range"
  shows "snd (snd (elf32_load tr (Some img) m)) y = m y"
  using load_segments_frame [OF assms, of "phdrs img" m] by (auto simp: elf32_load_def split: prod.split)

section \<open>The range of the segments\<close>

lemma Min_insert_min: "finite A \<Longrightarrow> Min (insert (min a b) A) = Min (insert b (insert (a :: u32) A))"
  by (cases "A = {}") (simp_all add: min.assoc min.commute min.left_commute)

lemma Max_insert_max: "finite A \<Longrightarrow> Max (insert (max a b) A) = Max (insert b (insert (a :: u32) A))"
  by (cases "A = {}") (simp_all add: max.assoc max.commute max.left_commute)

lemma range_scan_spec:
  assumes "\<forall>p \<in> set ps. loads p \<longrightarrow> ELF_USER_VA_MIN \<le> p_vaddr p \<and> p_vaddr p < p_vaddr p + p_memsz p \<and> p_vaddr p + p_memsz p \<le> ELF_USER_VA_MAX"
  shows "range_scan ps lo hi = Some (Min (insert lo (p_vaddr ` set (filter loads ps))), Max (insert hi ((\<lambda>p. p_vaddr p + p_memsz p) ` set (filter loads ps))))"
  using assms
proof (induction ps arbitrary: lo hi)
  case (Cons p ps)
  show ?case
  proof (cases "loads p")
    case True
    let ?v = "p_vaddr p" let ?e = "p_vaddr p + p_memsz p"
    have r: "ELF_USER_VA_MIN \<le> ?v" "?v < ?e" "?e \<le> ELF_USER_VA_MAX" using Cons.prems True by auto
    have "range_scan (p # ps) lo hi = range_scan ps (min ?v lo) (max ?e hi)"
      using True r by (simp add: Let_def loads_def not_less not_le min_def max_def) (auto simp: not_less not_le)
    moreover have "range_scan ps (min ?v lo) (max ?e hi) = Some (Min (insert (min ?v lo) (p_vaddr ` set (filter loads ps))),
        Max (insert (max ?e hi) ((\<lambda>p. p_vaddr p + p_memsz p) ` set (filter loads ps))))" using Cons.IH Cons.prems by simp
    ultimately show ?thesis using True by (simp only: Min_insert_min Max_insert_max finite_imageI finite_set filter.simps if_True list.set image_insert)
  next
    case False
    have pr: "\<forall>p \<in> set ps. loads p \<longrightarrow> ELF_USER_VA_MIN \<le> p_vaddr p \<and> p_vaddr p < p_vaddr p + p_memsz p \<and> p_vaddr p + p_memsz p \<le> ELF_USER_VA_MAX"
      using Cons.prems by simp
    have "range_scan (p # ps) lo hi = range_scan ps lo hi" using False by (auto simp: loads_def)
    moreover have "filter loads (p # ps) = filter loads ps" using False by simp
    ultimately show ?thesis using Cons.IH [OF pr, of lo hi] by simp
  qed
qed simp

lemma load_segments_ok:
  "fst (load_segments tr img ps m) = 0 \<Longrightarrow> p \<in> set ps \<Longrightarrow> loads p \<Longrightarrow>
   ELF_USER_VA_MIN \<le> p_vaddr p \<and> segment_error (of_nat (length img)) p = 0"
  by (induction ps arbitrary: m) (auto simp: Let_def loads_def not_less split: if_splits)

text \<open>Fact: for an image that loads, the range that is made accessible to the program runs from the lowest
  to the highest address of its segments; there is none exactly if no segment is loaded.\<close>

theorem elf32_user_ranges_correct:
  assumes "fst (elf32_load tr (Some img) m) = 0"
  shows "elf32_user_ranges (Some img) =
    (let ps = filter loads (phdrs img)
     in if ps = [] then (-4, None)
        else (0, Some (Min (p_vaddr ` set ps), Max ((\<lambda>p. p_vaddr p + p_memsz p) ` set ps))))"
proof -
  let ?ps = "phdrs img" let ?top = "\<lambda>p. p_vaddr p + p_memsz p"
  have v: "elf32_validate (Some img) = 0" and l: "fst (load_segments tr img ?ps m) = 0"
    using assms by (auto simp: elf32_load_def split: if_splits prod.splits)
  have ok: "ELF_USER_VA_MIN \<le> p_vaddr p \<and> p_vaddr p < ?top p \<and> ?top p \<le> ELF_USER_VA_MAX" if "p \<in> set ?ps" "loads p" for p
    using load_segments_ok [OF l that] by (auto simp: segment_error_def split: if_splits)
  then have r: "range_scan ?ps 0xFFFFFFFF 0 = Some (Min (insert 0xFFFFFFFF (p_vaddr ` set (filter loads ?ps))), Max (insert 0 (?top ` set (filter loads ?ps))))"
    by (intro range_scan_spec) blast
  show ?thesis
  proof (cases "filter loads ?ps = []")
    case True
    then show ?thesis using v r by (simp add: elf32_user_ranges_def)
  next
    case False
    then obtain q where q: "q \<in> set ?ps" "loads q" by (auto simp: filter_empty_conv)
    have ne: "p_vaddr ` set (filter loads ?ps) \<noteq> {}" "?top ` set (filter loads ?ps) \<noteq> {}" using q by auto
    have m: "Min (insert 0xFFFFFFFF (p_vaddr ` set (filter loads ?ps))) = Min (p_vaddr ` set (filter loads ?ps))"
    proof -
      have "x \<le> 0xFFFFFFFF" for x :: u32 using unat_lt32 [of x] by (simp add: word_le_nat_alt)
      then show ?thesis by (simp only: Min_insert [OF finite_imageI [OF finite_set] ne(1)] min.absorb2)
    qed
    have M: "Max (insert 0 (?top ` set (filter loads ?ps))) = Max (?top ` set (filter loads ?ps))"
      using ne(2) by (simp add: max_def)
    have "0 < ?top q" using ok [OF q] by (metis le_less_trans word_zero_le)
    moreover have "?top q \<le> Max (?top ` set (filter loads ?ps))" using q by (intro Max_ge) auto
    ultimately have "Max (?top ` set (filter loads ?ps)) \<noteq> 0" by auto
    then show ?thesis using v r [unfolded m M] False by (simp add: elf32_user_ranges_def Let_def)
  qed
qed

section \<open>Reads of the image\<close>

text \<open>The headers the loader reads lie in the image, whatever the size of a header in it.\<close>

lemma phdrs_inside:
  assumes v: "elf32_validate (Some img) = 0" and len: "length img < 2 ^ 32" and i: "i < unat (e_phnum (ehdr_at img))"
  shows "unat (e_phoff (ehdr_at img)) + PHDR_SIZE * i + PHDR_SIZE \<le> length img"
proof -
  let ?h = "ehdr_at img" let ?s = "ucast (e_phentsize ?h) * ucast (e_phnum ?h) :: u32"
  have g: "32 \<le> e_phentsize ?h" "elf32_bounds_ok (of_nat (length img)) (e_phoff ?h) ?s"
    using v by (auto simp: elf32_validate_def Let_def not_less split: if_splits)
  have b: "unat (e_phentsize ?h) < 2 ^ 16" "unat (e_phnum ?h) < 2 ^ 16"
    using unsigned_less [of "e_phentsize ?h"] unsigned_less [of "e_phnum ?h"] by simp_all
  have "unat (e_phentsize ?h) * unat (e_phnum ?h) \<le> (2 ^ 16 - 1) * (2 ^ 16 - 1)"
    using b by (intro mult_le_mono) linarith+
  then have s: "unat ?s = unat (e_phentsize ?h) * unat (e_phnum ?h)"
    using b by (subst unat_mult) (simp_all add: unat_ucast)
  have l: "unat (of_nat (length img) :: u32) = length img" using len by (rule unat_of_nat32)
  have o: "unat (e_phoff ?h) \<le> length img" "unat ?s \<le> length img - unat (e_phoff ?h)"
    using g(2) l by (auto simp: elf32_bounds_ok_def word_le_nat_alt unat_sub)
  have "32 \<le> unat (e_phentsize ?h)" using g(1) by (simp add: word_le_nat_alt)
  then have "PHDR_SIZE * (i + 1) \<le> unat (e_phentsize ?h) * unat (e_phnum ?h)" using i by (intro mult_le_mono) simp_all
  then show ?thesis using o unfolding s by simp
qed

section \<open>A program of one byte\<close>

definition one_byte_program :: "u32 \<Rightarrow> u8 \<Rightarrow> u8 list" where
  "one_byte_program a b =
     [0x7F, 0x45, 0x4C, 0x46, 1, 1, 0, 0, 0, 0, 0, 0, 0, 0, 0, 0] @ le16 2 @ le16 3 @ le32 1 @ le32 a @ le32 52 @ le32 0 @ le32 0 @
     le16 52 @ le16 32 @ le16 1 @ le16 0 @ le16 0 @ le16 0 @
     le32 1 @ le32 84 @ le32 a @ le32 a @ le32 1 @ le32 1 @ le32 5 @ le32 4096 @ [b]"

lemma one_byte_headers:
  "ehdr_at (one_byte_program a b) =
     \<lparr>e_ident = [0x7F, 0x45, 0x4C, 0x46, 1, 1, 0, 0, 0, 0, 0, 0, 0, 0, 0, 0], e_type = 2, e_machine = 3, e_version = 1, e_entry = a,
      e_phoff = 52, e_shoff = 0, e_flags = 0, e_ehsize = 52, e_phentsize = 32, e_phnum = 1, e_shentsize = 0, e_shnum = 0, e_shstrndx = 0\<rparr>"
  "phdr_at (one_byte_program a b) 52 =
     \<lparr>p_type = 1, p_offset = 84, p_vaddr = a, p_paddr = a, p_filesz = 1, p_memsz = 1, p_flags = 5, p_align = 4096\<rparr>"
  "length (one_byte_program a b) = 85" "one_byte_program a b ! 84 = b"
  unfolding ehdr_at_def phdr_at_def
  by (simp_all add: one_byte_program_def le16_def le32_def get16_def get32_def join16 join32)

lemma one_byte_phdrs: "phdrs (one_byte_program a b) = [phdr_at (one_byte_program a b) 52]"
  by (simp add: phdrs_def one_byte_headers(1))

lemma one_byte_valid: "elf32_validate (Some (one_byte_program a b)) = 0"
  by (simp add: elf32_validate_def one_byte_headers elf32_bounds_ok_def)

lemma one_byte_load:
  assumes "ELF_USER_VA_MIN \<le> a" "a < ELF_USER_VA_MAX"
  shows "elf32_load tr (Some (one_byte_program a b)) m = (0, Some a, m(tr a := b))"
proof -
  have "unat (a + 1) = unat a + 1" using assms(2) by (simp add: unat_inc word_less_nat_alt)
  then have "a < a + 1" "a + 1 \<le> ELF_USER_VA_MAX" using assms(2) by (simp_all add: word_less_nat_alt word_le_nat_alt)
  then have e: "segment_error 85 (phdr_at (one_byte_program a b) 52) = 0"
    by (simp add: segment_error_def one_byte_headers elf32_bounds_ok_def not_le not_less)
  have "take 1 (drop 84 (one_byte_program a b)) = [b]"
    using one_byte_headers(3,4) [of a b] Cons_nth_drop_Suc [of 84 "one_byte_program a b"] by simp
  then have "copy_segment tr (one_byte_program a b) (phdr_at (one_byte_program a b) 52) m = m(tr a := b)"
    by (simp add: copy_segment_def one_byte_headers(2))
  then show ?thesis using assms e by (simp add: elf32_load_def one_byte_valid one_byte_phdrs one_byte_headers not_less)
qed

theorem elf32_load_memory_witness:
  "((\<lambda>_. 0)(0x900000 := 7)) 0x900000 = spec_memory (one_byte_program 0x900000 7) (phdrs (one_byte_program 0x900000 7)) ((\<lambda>_. 0) \<circ> id) 0x900000"
  using elf32_load_memory [OF one_byte_load [of "0x900000" id 7 "\<lambda>_. 0"], of "0x900000"] by (simp add: one_byte_headers user_range_def)

theorem elf32_load_confined_witness: "snd (snd (elf32_load id (Some (one_byte_program 0x900000 7)) (\<lambda>_. 0))) 0x100000 = 0"
  using elf32_load_confined [of "one_byte_program 0x900000 7" "0x100000" id "\<lambda>_. 0"] by (simp add: one_byte_headers user_range_def)

theorem elf32_user_ranges_correct_witness: "elf32_user_ranges (Some (one_byte_program 0x900000 7)) = (0, Some (0x900000, 0x900001))"
  using elf32_user_ranges_correct [of id "one_byte_program 0x900000 7" "\<lambda>_. 0"] one_byte_load [of "0x900000" id 7 "\<lambda>_. 0"]
  by (simp add: one_byte_phdrs one_byte_headers loads_def)

end
