(* ===== verification/KPaging.thy ===== *)
theory KPaging
  imports KElf
begin

text \<open>
  Address spaces of \<^verbatim>\<open>kernel/mm/paging.cpp\<close>: page directories of 4 MB pages, the pool of frames that hold
  the private pages of programs, and the handler of page faults. Physical memory is a function from
  addresses to bytes; the accesses of the kernel go through the directory in the register CR3.
\<close>

section \<open>State\<close>

abbreviation PDE_PRESENT :: u32 where "PDE_PRESENT \<equiv> 0x001"
abbreviation PDE_RW :: u32 where "PDE_RW \<equiv> 0x002"
abbreviation PDE_USER :: u32 where "PDE_USER \<equiv> 0x004"
abbreviation PDE_PSE :: u32 where "PDE_PSE \<equiv> 0x080"
abbreviation PAGE_DIR_ENTRIES :: nat where "PAGE_DIR_ENTRIES \<equiv> 1024"
abbreviation IDENTITY_PDES :: nat where "IDENTITY_PDES \<equiv> 32"
abbreviation FAULT_PDE :: nat where "FAULT_PDE \<equiv> 15"
abbreviation PAGING_ASDIR_MAX :: nat where "PAGING_ASDIR_MAX \<equiv> 16"
abbreviation FORK_FRAME_BASE :: u32 where "FORK_FRAME_BASE \<equiv> 0x05000000"
abbreviation FORK_FRAME_END :: u32 where "FORK_FRAME_END \<equiv> 0x08000000"
abbreviation FORK_FRAME_COUNT :: nat where "FORK_FRAME_COUNT \<equiv> 12"

text \<open>A value of CR3 is the address of one of the arrays that hold a directory, or zero. Directories are
  never aliased, so the array stands for its address.\<close>

datatype dirref = NoDir | KernelDir | AsDir nat

record paging =
  page_dir :: "u32 list"
  kernel_cr3 :: dirref
  paging_on :: bool
  pf_count :: u32
  asdirs :: "u32 list list"
  asdir_used :: "bool list"
  fork_frames :: "bool list"
  fork_frame_next :: nat
  cr3 :: dirref
  pmem :: memory

definition pde_flags :: u32 where
  "pde_flags = PDE_PRESENT OR PDE_RW OR PDE_PSE"

definition paging_fill_identity :: "bool \<Rightarrow> u32 list" where
  "paging_fill_identity skip_fault_pde =
     map (\<lambda>i. if i < IDENTITY_PDES \<and> \<not> (skip_fault_pde \<and> i = FAULT_PDE) then of_nat i * 0x400000 OR pde_flags OR PDE_USER else 0)
       [0..<PAGE_DIR_ENTRIES]"

definition paging_dir_ptr :: "dirref \<Rightarrow> paging \<Rightarrow> dirref" where
  "paging_dir_ptr c s = (if c = NoDir then kernel_cr3 s else c)"

definition dir_of :: "dirref \<Rightarrow> paging \<Rightarrow> u32 list" where
  "dir_of d s = (case d of NoDir \<Rightarrow> [] | KernelDir \<Rightarrow> page_dir s | AsDir i \<Rightarrow> asdirs s ! i)"

definition set_dir :: "dirref \<Rightarrow> u32 list \<Rightarrow> paging \<Rightarrow> paging" where
  "set_dir d es s =
     (case d of NoDir \<Rightarrow> s | KernelDir \<Rightarrow> s\<lparr>page_dir := es\<rparr> | AsDir i \<Rightarrow> s\<lparr>asdirs := (asdirs s)[i := es]\<rparr>)"

definition set_pde :: "dirref \<Rightarrow> nat \<Rightarrow> u32 \<Rightarrow> paging \<Rightarrow> paging" where
  "set_pde d i e s = set_dir d ((dir_of d s)[i := e]) s"

text \<open>The frame an entry points to, as the number of the 4 MB page, and the tests of its bits.\<close>

definition frame_of :: "u32 \<Rightarrow> nat" where
  "frame_of e = unat (drop_bit 22 e)"

definition present :: "u32 \<Rightarrow> bool" where "present e \<longleftrightarrow> e AND PDE_PRESENT \<noteq> 0"

definition user :: "u32 \<Rightarrow> bool" where "user e \<longleftrightarrow> e AND PDE_USER \<noteq> 0"

definition pse :: "u32 \<Rightarrow> bool" where "pse e \<longleftrightarrow> e AND PDE_PSE \<noteq> 0"

section \<open>Operations\<close>

definition paging_load_cr3 :: "dirref \<Rightarrow> paging \<Rightarrow> paging" where
  "paging_load_cr3 c s = (let c = paging_dir_ptr c s in if c = NoDir then s else s\<lparr>cr3 := c\<rparr>)"

definition paging_init :: "paging \<Rightarrow> paging" where
  "paging_init s =
     (if paging_on s then s
      else s\<lparr>asdir_used := replicate PAGING_ASDIR_MAX False, page_dir := paging_fill_identity True, kernel_cr3 := KernelDir,
            cr3 := KernelDir, paging_on := True\<rparr>)"

definition map_one :: "nat \<Rightarrow> paging \<Rightarrow> paging" where
  "map_one pde s =
     s\<lparr>page_dir := (page_dir s)[pde := of_nat pde * 0x400000 OR pde_flags OR PDE_USER],
       asdirs := map (\<lambda>(u, es). if u then es[pde := of_nat pde * 0x400000 OR pde_flags] else es) (zip (asdir_used s) (asdirs s))\<rparr>"

definition paging_map_physical :: "u32 \<Rightarrow> u32 \<Rightarrow> paging \<Rightarrow> paging" where
  "paging_map_physical phys bytes s =
     (if \<not> paging_on s \<or> bytes = 0 then s
      else let start = phys AND NOT 0x3FFFFF;
               fin = (phys + bytes + 0x3FFFFF) AND NOT 0x3FFFFF
           in (fold map_one [frame_of start..<frame_of fin] s)\<lparr>cr3 := kernel_cr3 s\<rparr>)"

definition paging_mark_user_pde :: "dirref \<Rightarrow> nat \<Rightarrow> paging \<Rightarrow> paging" where
  "paging_mark_user_pde c i s =
     (let d = paging_dir_ptr c s
      in if d = NoDir \<or> PAGE_DIR_ENTRIES \<le> i then s else set_pde d i (dir_of d s ! i OR PDE_USER) s)"

definition paging_clear_user_pde :: "dirref \<Rightarrow> nat \<Rightarrow> paging \<Rightarrow> paging" where
  "paging_clear_user_pde c i s =
     (let d = paging_dir_ptr c s
      in if d = NoDir \<or> PAGE_DIR_ENTRIES \<le> i then s else set_pde d i (dir_of d s ! i AND NOT PDE_USER) s)"

definition paging_fill_supervisor :: "u32 list" where
  "paging_fill_supervisor = map (\<lambda>i. if i < IDENTITY_PDES then of_nat i * 0x400000 OR pde_flags else 0) [0..<PAGE_DIR_ENTRIES]"

definition paging_create_identity_dir :: "paging \<Rightarrow> dirref \<times> paging" where
  "paging_create_identity_dir s =
     (let s = (if paging_on s then s else paging_init s)
      in case find_slot Not (asdir_used s) of
           None \<Rightarrow> (NoDir, s)
         | Some i \<Rightarrow>
             (AsDir i, s\<lparr>asdir_used := (asdir_used s)[i := True],
                asdirs := (asdirs s)[i := take IDENTITY_PDES paging_fill_supervisor @
                  map (\<lambda>e. e AND NOT PDE_USER) (drop IDENTITY_PDES (page_dir s))]\<rparr>))"

definition paging_clone_dir :: "dirref \<Rightarrow> paging \<Rightarrow> dirref \<times> paging" where
  "paging_clone_dir src s =
     (let src = paging_dir_ptr src s
      in if src = NoDir then (NoDir, s)
         else case paging_create_identity_dir s of
                (NoDir, s) \<Rightarrow> (NoDir, s)
              | (dst, s) \<Rightarrow> (dst, set_dir dst (dir_of src s) s))"

text \<open>The pool of frames from 80 MB to 128 MB; the result of the allocation is the address of a frame
  or zero.\<close>

definition frame_order :: "nat \<Rightarrow> nat list" where
  "frame_order next = map (\<lambda>i. (next + i) mod FORK_FRAME_COUNT) [0..<FORK_FRAME_COUNT]"

definition fork_frame_alloc :: "paging \<Rightarrow> u32 \<times> paging" where
  "fork_frame_alloc s =
     (case find (\<lambda>idx. \<not> fork_frames s ! idx) (frame_order (fork_frame_next s)) of
        None \<Rightarrow> (0, s)
      | Some idx \<Rightarrow>
          (FORK_FRAME_BASE + of_nat idx * 0x400000,
           s\<lparr>fork_frames := (fork_frames s)[idx := True], fork_frame_next := (idx + 1) mod FORK_FRAME_COUNT\<rparr>))"

definition fork_frame_is_pool :: "u32 \<Rightarrow> bool" where
  "fork_frame_is_pool phys \<longleftrightarrow> FORK_FRAME_BASE \<le> phys \<and> phys < FORK_FRAME_END"

definition fork_frame_free :: "u32 \<Rightarrow> paging \<Rightarrow> paging" where
  "fork_frame_free phys s =
     (if \<not> fork_frame_is_pool phys then s
      else s\<lparr>fork_frames := (fork_frames s)[unat (phys - FORK_FRAME_BASE) div 0x400000 := False]\<rparr>)"

text \<open>The page of an entry that is freed with its directory.\<close>

definition free_entry :: "u32 \<Rightarrow> paging \<Rightarrow> paging" where
  "free_entry e s = (if present e \<and> user e \<and> pse e then fork_frame_free (e AND 0xFFC00000) s else s)"

definition paging_free_dir :: "dirref \<Rightarrow> paging \<Rightarrow> paging" where
  "paging_free_dir c s =
     (if c = NoDir \<or> c = kernel_cr3 s then s
      else let s = fold free_entry (dir_of c s) s
           in case c of AsDir i \<Rightarrow> s\<lparr>asdir_used := (asdir_used s)[i := False]\<rparr> | _ \<Rightarrow> s)"

definition paging_free_user_frames :: "dirref \<Rightarrow> paging \<Rightarrow> paging" where
  "paging_free_user_frames c s =
     (let d = paging_dir_ptr c s in if d = NoDir then s else fold free_entry (dir_of d s) s)"

text \<open>The handler of page faults: the access is repeated with the page mapped, the task of the program is
  ended, or the processor is halted.\<close>

datatype fault_outcome = Retry | EndTask | Halt

definition page_fault :: "u32 \<Rightarrow> u32 \<Rightarrow> bool \<Rightarrow> paging \<Rightarrow> fault_outcome \<times> paging" where
  "page_fault error_code fault_addr in_user_task s =
     (let s = s\<lparr>pf_count := pf_count s + 1\<rparr>; pde_i = frame_of fault_addr
      in if error_code AND 1 \<noteq> 0 then (if error_code AND 4 \<noteq> 0 \<and> in_user_task then EndTask else Halt, s)
         else if 0xFFE00000 \<le> fault_addr \<and> error_code AND 4 = 0 then (Halt, s)
         else if PAGE_DIR_ENTRIES \<le> pde_i then (Halt, s)
         else if \<not> present (dir_of (cr3 s) s ! pde_i)
         then (Retry, set_pde (cr3 s) pde_i (of_nat pde_i * 0x400000 OR (if error_code AND 4 \<noteq> 0 then pde_flags OR PDE_USER else pde_flags)) s)
         else (Halt, s))"

text \<open>The physical address of an address under the directory in CR3; a page that is not mapped yet is
  mapped by the handler at its own address.\<close>

definition translate :: "paging \<Rightarrow> u32 \<Rightarrow> u32" where
  "translate s va =
     (let e = dir_of (cr3 s) s ! frame_of va in if present e then of_nat (frame_of e) * 0x400000 OR (va AND 0x3FFFFF) else va)"

text \<open>An access of the kernel to a page: through the directory in CR3, which the handler completes.\<close>

definition kernel_touch :: "nat \<Rightarrow> paging \<Rightarrow> paging" where
  "kernel_touch i s = (if present (dir_of (cr3 s) s ! i) then s else snd (page_fault 0 (of_nat i * 0x400000) False s))"

text \<open>The loop that copies a page byte by byte, from one page of the address space to another.\<close>

definition copy_page :: "nat \<Rightarrow> nat \<Rightarrow> paging \<Rightarrow> paging" where
  "copy_page src dst s =
     (let s = kernel_touch dst (kernel_touch src s);
          fs = frame_of (dir_of (cr3 s) s ! src);
          fd = frame_of (dir_of (cr3 s) s ! dst)
      in s\<lparr>pmem := (\<lambda>a. if frame_of a = fd then pmem s (of_nat fs * 0x400000 OR (a AND 0x3FFFFF)) else pmem s a)\<rparr>)"

fun clone_entries :: "dirref \<Rightarrow> dirref \<Rightarrow> nat list \<Rightarrow> paging \<Rightarrow> bool \<times> paging" where
  "clone_entries src dst [] s = (True, s)"
| "clone_entries src dst (i # is) s =
     (let e = dir_of src s ! i
      in if \<not> present e \<or> \<not> user e \<or> \<not> pse e then clone_entries src dst is (set_pde dst i e s)
         else case fork_frame_alloc s of
                (phys, s) \<Rightarrow>
                  if phys = 0 then (False, paging_free_dir dst s)
                  else clone_entries src dst is
                         (set_pde dst i (phys OR (e AND 0xFFF)) (copy_page (frame_of e) (frame_of phys) s)))"

definition paging_clone_dir_deep :: "dirref \<Rightarrow> paging \<Rightarrow> dirref \<times> paging" where
  "paging_clone_dir_deep src s =
     (let src = paging_dir_ptr src s
      in if src = NoDir then (NoDir, s)
         else case paging_create_identity_dir s of
                (NoDir, s) \<Rightarrow> (NoDir, s)
              | (dst, s) \<Rightarrow> (case clone_entries src dst [0..<PAGE_DIR_ENTRIES] s of (ok, s) \<Rightarrow> (if ok then dst else NoDir, s)))"

definition paging_privatize_user_pde :: "dirref \<Rightarrow> nat \<Rightarrow> paging \<Rightarrow> bool \<times> paging" where
  "paging_privatize_user_pde c i s =
     (let d = paging_dir_ptr c s
      in if d = NoDir \<or> PAGE_DIR_ENTRIES \<le> i then (False, s)
         else let e = dir_of d s ! i
              in if \<not> present e \<or> \<not> pse e then (False, s)
                 else if fork_frame_is_pool (e AND 0xFFC00000) then (True, s)
                 else case fork_frame_alloc s of
                        (phys, s) \<Rightarrow>
                          if phys = 0 then (False, s)
                          else (True, set_pde d i (phys OR (e AND 0xFFF) OR PDE_USER) (copy_page i (frame_of phys) s)))"

definition paging_free_pde_frame :: "dirref \<Rightarrow> nat \<Rightarrow> paging \<Rightarrow> paging" where
  "paging_free_pde_frame c i s =
     (let d = paging_dir_ptr c s
      in if d = NoDir \<or> PAGE_DIR_ENTRIES \<le> i then s
         else let e = dir_of d s ! i;
                  s = (if present e \<and> pse e then fork_frame_free (e AND 0xFFC00000) s else s)
              in set_pde d i (page_dir s ! i AND NOT PDE_USER) s)"

definition paging_unmap_pde :: "dirref \<Rightarrow> nat \<Rightarrow> paging \<Rightarrow> paging" where
  "paging_unmap_pde c i s =
     (let d = paging_dir_ptr c s in if d = NoDir \<or> PAGE_DIR_ENTRIES \<le> i then s else set_pde d i 0 s)"

definition paging_pde_present :: "dirref \<Rightarrow> nat \<Rightarrow> paging \<Rightarrow> bool" where
  "paging_pde_present c i s =
     (let d = paging_dir_ptr c s in if d = NoDir \<or> PAGE_DIR_ENTRIES \<le> i then False else present (dir_of d s ! i))"

definition paging_get_stats :: "paging \<Rightarrow> nat \<times> nat \<times> nat \<times> nat \<times> u32" where
  "paging_get_stats s =
     (length (filter id (asdir_used s)), PAGING_ASDIR_MAX, length (filter id (fork_frames s)), FORK_FRAME_COUNT, pf_count s)"

end
