(* ===== verification/KTask.thy ===== *)
theory KTask
  imports KPaging KHeap KPipe KPty KSocket
begin

text \<open>
  Tasks of \<^verbatim>\<open>kernel/sched/task.cpp\<close>: the table of tasks with their descriptors, the stacks of user
  programs, and the operations that create, copy and clear tasks. The kernel state holds the parts the
  tasks use: the heap, the address spaces, pipes, terminals, open files and sockets. The contents of
  kernel stacks and the values of registers are not part of the state.
\<close>

section \<open>State\<close>

abbreviation TASK_MAX :: nat where "TASK_MAX \<equiv> 32"
abbreviation TASK_STACK_SIZE :: nat where "TASK_STACK_SIZE \<equiv> 16384"
abbreviation TASK_NAME_MAX :: nat where "TASK_NAME_MAX \<equiv> 16"
abbreviation TASK_SLICE_TICKS :: nat where "TASK_SLICE_TICKS \<equiv> 4"
abbreviation TASK_CWD_MAX :: nat where "TASK_CWD_MAX \<equiv> 128"
abbreviation TASK_FD_MAX :: nat where "TASK_FD_MAX \<equiv> 16"
abbreviation FS_OPEN_MAX :: nat where "FS_OPEN_MAX \<equiv> 64"
abbreviation USER_STACK_SLOT_START :: u32 where "USER_STACK_SLOT_START \<equiv> 0x01000000"
abbreviation USER_STACK_SLOT_STEP :: u32 where "USER_STACK_SLOT_STEP \<equiv> 0x00400000"
abbreviation USER_STACK_SLOT_COUNT :: nat where "USER_STACK_SLOT_COUNT \<equiv> 16"

datatype task_state = TASK_UNUSED | TASK_READY | TASK_RUNNING | TASK_BLOCKED | TASK_ZOMBIE

datatype task_wait_reason = WAIT_NONE | WAIT_SLEEP | WAIT_NET

datatype fd_type = FD_NONE | FD_SOCK | FD_FILE | FD_PIPE_R | FD_PIPE_W | FD_PTY_M | FD_PTY_S

record task_fd =
  fd_type :: fd_type
  fd_handle :: int
  fd_path :: string

text \<open>Entry points and arguments are addresses; \<open>t_stack\<close> is the block of the heap that holds the
  kernel stack.\<close>

record task =
  t_id :: int
  t_state :: task_state
  t_stack :: "nat option"
  t_esp :: nat
  t_entry :: u32
  t_arg :: u32
  t_name :: string
  t_runs :: u32
  t_cpu_ticks :: u32
  t_wake_ms :: u32
  t_wait :: task_wait_reason
  t_idle :: bool
  t_parent :: int
  t_cwd :: string
  t_fds :: "task_fd list"
  t_cr3 :: dirref
  t_user :: bool
  t_user_entry :: u32
  t_user_stack :: u32
  t_slot :: int
  t_kstack_top :: nat
  t_uid :: u16
  t_gid :: u16

record open_file =
  of_used :: bool
  of_index :: int
  of_offset :: u32
  of_flags :: u32
  of_fs_type :: u8
  of_is_dir :: bool
  of_path :: string

record 'n kernel =
  k_tasks :: "task list"
  k_cur :: "nat option"
  k_ready :: bool
  k_next_id :: int
  k_yields :: u32
  k_need_resched :: bool
  k_slice :: nat
  k_wakes :: u32
  k_net_wakes :: u32
  k_slot_ref :: "u8 list"
  k_slot_next :: nat
  k_esp0 :: nat
  k_heap :: heap
  k_paging :: paging
  k_pipes :: "kpipe list"
  k_ptys :: "kpty list"
  k_ofiles :: "open_file list"
  k_net :: "'n snet_scheme"

definition upd_task :: "nat \<Rightarrow> (task \<Rightarrow> task) \<Rightarrow> ('n, 'z) kernel_scheme \<Rightarrow> ('n, 'z) kernel_scheme" where
  "upd_task i f k = k\<lparr>k_tasks := (k_tasks k)[i := f (k_tasks k ! i)]\<rparr>"

definition find_task :: "int \<Rightarrow> ('n, 'z) kernel_scheme \<Rightarrow> nat option" where
  "find_task pid k = find_slot (\<lambda>t. t_state t \<noteq> TASK_UNUSED \<and> t_id t = pid) (k_tasks k)"

definition task_find_by_id :: "int \<Rightarrow> ('n, 'z) kernel_scheme \<Rightarrow> nat option" where
  "task_find_by_id pid k = (if pid < 0 then None else find_task pid k)"

text \<open>The field of the running task, or a default when there is none.\<close>

definition sched_current_id :: "('n, 'z) kernel_scheme \<Rightarrow> int" where
  "sched_current_id k =
     (if \<not> k_ready k then -1 else case k_cur k of None \<Rightarrow> -1 | Some c \<Rightarrow> t_id (k_tasks k ! c))"

definition sched_task_count :: "('n, 'z) kernel_scheme \<Rightarrow> nat" where
  "sched_task_count k = length (filter (\<lambda>t. t_state t \<noteq> TASK_UNUSED) (k_tasks k))"

section \<open>Descriptors\<close>

definition no_fd :: task_fd where
  "no_fd = \<lparr>fd_type = FD_NONE, fd_handle = -1, fd_path = []\<rparr>"

definition task_fds_clear :: "task \<Rightarrow> task" where
  "task_fds_clear t = t\<lparr>t_fds := replicate TASK_FD_MAX no_fd\<rparr>"

definition fs_ofile_release :: "int \<Rightarrow> ('n, 'z) kernel_scheme \<Rightarrow> ('n, 'z) kernel_scheme" where
  "fs_ofile_release h k =
     (if 0 \<le> h \<and> h < int FS_OPEN_MAX then k\<lparr>k_ofiles := (k_ofiles k)[nat h := (k_ofiles k ! nat h)\<lparr>of_used := False\<rparr>]\<rparr> else k)"

text \<open>A call into the sockets sees the identity of the running task.\<close>

definition on_net :: "('n snet_scheme \<Rightarrow> 'n snet_scheme) \<Rightarrow> ('n, 'z) kernel_scheme \<Rightarrow> ('n, 'z) kernel_scheme" where
  "on_net f k = k\<lparr>k_net := f ((k_net k)\<lparr>current_id := sched_current_id k\<rparr>)\<rparr>"

definition task_fd_alloc :: "fd_type \<Rightarrow> int \<Rightarrow> string \<Rightarrow> ('n, 'z) kernel_scheme \<Rightarrow> int \<times> ('n, 'z) kernel_scheme" where
  "task_fd_alloc ty handle path k =
     (case k_cur k of
        None \<Rightarrow> (-1, k)
      | Some c \<Rightarrow>
          (case find_slot (\<lambda>e. fd_type e = FD_NONE) (t_fds (k_tasks k ! c)) of
             None \<Rightarrow> (-1, k)
           | Some i \<Rightarrow>
               (int i, upd_task c (\<lambda>t. t\<lparr>t_fds := (t_fds t)[i := \<lparr>fd_type = ty, fd_handle = handle, fd_path = cstr_copy 64 path\<rparr>]\<rparr>) k)))"

text \<open>What closing a pipe, a terminal or a file does, by the type of the descriptor.\<close>

definition drop_ref :: "task_fd \<Rightarrow> ('n, 'z) kernel_scheme \<Rightarrow> ('n, 'z) kernel_scheme" where
  "drop_ref e k =
     (case fd_type e of
        FD_FILE \<Rightarrow> if fd_handle e \<ge> 0 then fs_ofile_release (fd_handle e) k else k
      | FD_PIPE_R \<Rightarrow> k\<lparr>k_pipes := pipe_close (k_pipes k) (fd_handle e) False\<rparr>
      | FD_PIPE_W \<Rightarrow> k\<lparr>k_pipes := pipe_close (k_pipes k) (fd_handle e) True\<rparr>
      | FD_PTY_M \<Rightarrow> k\<lparr>k_ptys := pty_unref (k_ptys k) (fd_handle e) True\<rparr>
      | FD_PTY_S \<Rightarrow> k\<lparr>k_ptys := pty_unref (k_ptys k) (fd_handle e) False\<rparr>
      | _ \<Rightarrow> k)"

definition take_ref :: "task_fd \<Rightarrow> ('n, 'z) kernel_scheme \<Rightarrow> ('n, 'z) kernel_scheme" where
  "take_ref e k =
     (case fd_type e of
        FD_PIPE_R \<Rightarrow> k\<lparr>k_pipes := pipe_ref (k_pipes k) (fd_handle e) False\<rparr>
      | FD_PIPE_W \<Rightarrow> k\<lparr>k_pipes := pipe_ref (k_pipes k) (fd_handle e) True\<rparr>
      | FD_PTY_M \<Rightarrow> k\<lparr>k_ptys := pty_ref (k_ptys k) (fd_handle e) True\<rparr>
      | FD_PTY_S \<Rightarrow> k\<lparr>k_ptys := pty_ref (k_ptys k) (fd_handle e) False\<rparr>
      | _ \<Rightarrow> k)"

definition set_fd :: "nat \<Rightarrow> nat \<Rightarrow> task_fd \<Rightarrow> ('n, 'z) kernel_scheme \<Rightarrow> ('n, 'z) kernel_scheme" where
  "set_fd c fd e k = upd_task c (\<lambda>t. t\<lparr>t_fds := (t_fds t)[fd := e]\<rparr>) k"

definition task_fd_close :: "('n snet_scheme \<Rightarrow> 'n snet_scheme) \<Rightarrow> int \<Rightarrow> ('n, 'z) kernel_scheme \<Rightarrow> int \<times> ('n, 'z) kernel_scheme" where
  "task_fd_close poll fd k =
     (case k_cur k of
        None \<Rightarrow> (-1, k)
      | Some c \<Rightarrow>
          if fd < 0 \<or> int TASK_FD_MAX \<le> fd then (-1, k)
          else let e = t_fds (k_tasks k ! c) ! nat fd
               in if fd_type e = FD_NONE then (-1, k)
                  else let k = (if fd_type e = FD_SOCK \<and> fd_handle e \<ge> 0 then on_net (\<lambda>n. snd (socket_close poll (fd_handle e) n)) k
                                else drop_ref e k)
                       in (0, set_fd c (nat fd) no_fd k))"

text \<open>Sockets are only forgotten here; they are closed by their owner.\<close>

definition task_fd_close_all :: "nat \<Rightarrow> ('n, 'z) kernel_scheme \<Rightarrow> ('n, 'z) kernel_scheme" where
  "task_fd_close_all i k =
     fold (\<lambda>fd k. let e = t_fds (k_tasks k ! i) ! fd; k = drop_ref e k;
                     h = (if (fd_type e = FD_SOCK \<or> fd_type e = FD_FILE) \<and> fd_handle e \<ge> 0 then -1 else fd_handle e)
                 in set_fd i fd \<lparr>fd_type = FD_NONE, fd_handle = h, fd_path = []\<rparr> k) [0..<TASK_FD_MAX] k"

definition task_fd_get :: "int \<Rightarrow> ('n, 'z) kernel_scheme \<Rightarrow> (fd_type \<times> int) option" where
  "task_fd_get fd k =
     (case k_cur k of
        None \<Rightarrow> None
      | Some c \<Rightarrow>
          if fd < 0 \<or> int TASK_FD_MAX \<le> fd then None
          else let e = t_fds (k_tasks k ! c) ! nat fd in if fd_type e = FD_NONE then None else Some (fd_type e, fd_handle e))"

definition task_attach_pty_slave :: "int \<Rightarrow> int \<Rightarrow> ('n, 'z) kernel_scheme \<Rightarrow> int \<times> ('n, 'z) kernel_scheme" where
  "task_attach_pty_slave pid pty k =
     (case find_task pid k of
        None \<Rightarrow> (-1, k)
      | Some i \<Rightarrow>
          (0, fold (\<lambda>f k. let k = set_fd i f \<lparr>fd_type = FD_PTY_S, fd_handle = pty, fd_path = []\<rparr> k
                         in k\<lparr>k_ptys := pty_ref (k_ptys k) pty False\<rparr>) [0, 1, 2] k))"

definition task_alive :: "int \<Rightarrow> ('n, 'z) kernel_scheme \<Rightarrow> bool" where
  "task_alive pid k =
     (if pid < 0 then False
      else case find_task pid k of None \<Rightarrow> False | Some i \<Rightarrow> t_state (k_tasks k ! i) \<noteq> TASK_ZOMBIE)"

definition counted :: "fd_type \<Rightarrow> bool" where
  "counted ty \<longleftrightarrow> ty = FD_PIPE_R \<or> ty = FD_PIPE_W \<or> ty = FD_PTY_M \<or> ty = FD_PTY_S"

definition task_fd_dup2 :: "('n snet_scheme \<Rightarrow> 'n snet_scheme) \<Rightarrow> int \<Rightarrow> int \<Rightarrow> ('n, 'z) kernel_scheme \<Rightarrow> int \<times> ('n, 'z) kernel_scheme" where
  "task_fd_dup2 poll oldfd newfd k =
     (case k_cur k of
        None \<Rightarrow> (-1, k)
      | Some c \<Rightarrow>
          if oldfd < 0 \<or> int TASK_FD_MAX \<le> oldfd \<or> newfd < 0 \<or> int TASK_FD_MAX \<le> newfd then (-1, k)
          else if oldfd = newfd then (newfd, k)
          else let src = t_fds (k_tasks k ! c) ! nat oldfd
               in if \<not> counted (fd_type src) then (-1, k)
                  else let k = take_ref src k;
                           k = (if fd_type (t_fds (k_tasks k ! c) ! nat newfd) = FD_SOCK then set_fd c (nat newfd) no_fd k
                                else snd (task_fd_close poll newfd k))
                       in (newfd, set_fd c (nat newfd) (t_fds (k_tasks k ! c) ! nat oldfd) k))"

section \<open>Stacks of user programs\<close>

definition slot_order :: "nat \<Rightarrow> nat list" where
  "slot_order next = map (\<lambda>i. (next + i) mod USER_STACK_SLOT_COUNT) [0..<USER_STACK_SLOT_COUNT]"

definition user_stack_slot_alloc :: "('n, 'z) kernel_scheme \<Rightarrow> int \<times> ('n, 'z) kernel_scheme" where
  "user_stack_slot_alloc k =
     (case find (\<lambda>idx. k_slot_ref k ! idx = 0) (slot_order (k_slot_next k)) of
        None \<Rightarrow> (-1, k)
      | Some idx \<Rightarrow> (int idx, k\<lparr>k_slot_ref := (k_slot_ref k)[idx := 1], k_slot_next := (idx + 1) mod USER_STACK_SLOT_COUNT\<rparr>))"

definition user_stack_slot_va :: "int \<Rightarrow> u32" where
  "user_stack_slot_va idx = USER_STACK_SLOT_START + of_int idx * USER_STACK_SLOT_STEP"

definition user_stack_slot_top :: "int \<Rightarrow> u32" where
  "user_stack_slot_top idx = user_stack_slot_va idx + USER_STACK_SLOT_STEP"

definition user_stack_slot_pde :: "int \<Rightarrow> nat" where
  "user_stack_slot_pde idx = unat (drop_bit 22 (user_stack_slot_va idx))"

definition user_stack_slot_ref :: "int \<Rightarrow> ('n, 'z) kernel_scheme \<Rightarrow> ('n, 'z) kernel_scheme" where
  "user_stack_slot_ref idx k =
     (if 0 \<le> idx \<and> idx < int USER_STACK_SLOT_COUNT
      then k\<lparr>k_slot_ref := (k_slot_ref k)[nat idx := k_slot_ref k ! nat idx + 1]\<rparr> else k)"

definition user_stack_slot_release :: "int \<Rightarrow> ('n, 'z) kernel_scheme \<Rightarrow> ('n, 'z) kernel_scheme" where
  "user_stack_slot_release idx k =
     (if 0 \<le> idx \<and> idx < int USER_STACK_SLOT_COUNT \<and> k_slot_ref k ! nat idx > 0
      then k\<lparr>k_slot_ref := (k_slot_ref k)[nat idx := k_slot_ref k ! nat idx - 1]\<rparr> else k)"

section \<open>Slots of the table\<close>

definition task_resources_cleanup :: "('n snet_scheme \<Rightarrow> 'n snet_scheme) \<Rightarrow> int \<Rightarrow> ('n, 'z) kernel_scheme \<Rightarrow> ('n, 'z) kernel_scheme" where
  "task_resources_cleanup poll pid k =
     (if pid < 0 then k
      else let k = on_net (\<lambda>n. snd (socket_close_by_pid poll pid n)) k
           in case find_task pid k of
                None \<Rightarrow> k
              | Some i \<Rightarrow>
                  let k = task_fd_close_all i k;
                      k = (if t_cr3 (k_tasks k ! i) \<noteq> NoDir
                           then upd_task i (\<lambda>t. t\<lparr>t_cr3 := NoDir\<rparr>) (k\<lparr>k_paging := paging_free_dir (t_cr3 (k_tasks k ! i)) (k_paging k)\<rparr>)
                           else k)
                  in if t_slot (k_tasks k ! i) \<ge> 0
                     then upd_task i (\<lambda>t. t\<lparr>t_slot := -1\<rparr>) (user_stack_slot_release (t_slot (k_tasks k ! i)) k)
                     else k)"

definition task_enable_aspace :: "int \<Rightarrow> ('n, 'z) kernel_scheme \<Rightarrow> int \<times> ('n, 'z) kernel_scheme" where
  "task_enable_aspace pid k =
     (if \<not> k_ready k \<or> pid < 0 then (-1, k)
      else case find_task pid k of
        None \<Rightarrow> (-1, k)
      | Some i \<Rightarrow>
          if t_cr3 (k_tasks k ! i) \<noteq> NoDir then (-1, k)
          else case paging_create_identity_dir (k_paging k) of
                 (dir, pg) \<Rightarrow>
                   if dir = NoDir then (-1, k\<lparr>k_paging := pg\<rparr>)
                   else (0, upd_task i (\<lambda>t. t\<lparr>t_cr3 := dir\<rparr>)
                              (k\<lparr>k_paging := (if k_cur k = Some i then paging_load_cr3 dir pg else pg)\<rparr>)))"

definition kfree :: "nat option \<Rightarrow> ('n, 'z) kernel_scheme \<Rightarrow> ('n, 'z) kernel_scheme" where
  "kfree p k = (case free (map_option int p) (k_heap k) of Some h \<Rightarrow> k\<lparr>k_heap := h\<rparr> | None \<Rightarrow> k)"

definition task_slot_clear :: "('n snet_scheme \<Rightarrow> 'n snet_scheme) \<Rightarrow> nat \<Rightarrow> ('n, 'z) kernel_scheme \<Rightarrow> ('n, 'z) kernel_scheme" where
  "task_slot_clear poll i k =
     (let t = k_tasks k ! i;
          k = (if t_state t \<noteq> TASK_UNUSED \<and> t_id t \<noteq> 0 then task_resources_cleanup poll (t_id t) k else k);
          k = kfree (t_stack (k_tasks k ! i)) k
      in upd_task i (\<lambda>t. task_fds_clear (t\<lparr>t_stack := None, t_state := TASK_UNUSED, t_id := 0, t_esp := 0, t_entry := 0, t_arg := 0,
           t_name := [], t_runs := 0, t_cpu_ticks := 0, t_wake_ms := 0, t_wait := WAIT_NONE, t_idle := False, t_parent := -1,
           t_cwd := ''/'', t_cr3 := NoDir, t_user := False, t_uid := 0, t_slot := -1\<rparr>)) k)"

fun alloc_scan :: "('n snet_scheme \<Rightarrow> 'n snet_scheme) \<Rightarrow> nat list \<Rightarrow> ('n, 'z) kernel_scheme \<Rightarrow> nat option \<times> ('n, 'z) kernel_scheme" where
  "alloc_scan poll [] k = (None, k)"
| "alloc_scan poll (i # is) k =
     (let k = (if t_state (k_tasks k ! i) = TASK_ZOMBIE then task_slot_clear poll i k else k)
      in if t_state (k_tasks k ! i) = TASK_UNUSED then (Some i, k) else alloc_scan poll is k)"

definition task_alloc_slot :: "('n snet_scheme \<Rightarrow> 'n snet_scheme) \<Rightarrow> ('n, 'z) kernel_scheme \<Rightarrow> nat option \<times> ('n, 'z) kernel_scheme" where
  "task_alloc_slot poll k = alloc_scan poll [0..<TASK_MAX] k"

definition task_setup_stack :: "task \<Rightarrow> task" where
  "task_setup_stack t = (case t_stack t of None \<Rightarrow> t | Some p \<Rightarrow> t\<lparr>t_esp := p + TASK_STACK_SIZE - 20\<rparr>)"

section \<open>Creating tasks\<close>

abbreviation task_trampoline :: u32 where "task_trampoline \<equiv> 1"
abbreviation user_task_trampoline :: u32 where "user_task_trampoline \<equiv> 2"
abbreviation user_fork_trampoline :: u32 where "user_fork_trampoline \<equiv> 3"

definition cur_field :: "(task \<Rightarrow> 'a) \<Rightarrow> 'a \<Rightarrow> ('n, 'z) kernel_scheme \<Rightarrow> 'a" where
  "cur_field f d k = (case k_cur k of None \<Rightarrow> d | Some c \<Rightarrow> f (k_tasks k ! c))"

definition kmalloc_stack :: "('n, 'z) kernel_scheme \<Rightarrow> nat option \<times> ('n, 'z) kernel_scheme" where
  "kmalloc_stack k = (case malloc TASK_STACK_SIZE (k_heap k) of (p, h) \<Rightarrow> (p, k\<lparr>k_heap := h\<rparr>))"

text \<open>The fields every new task gets.\<close>

definition start_task :: "int \<Rightarrow> nat \<Rightarrow> u32 \<Rightarrow> u32 \<Rightarrow> int \<Rightarrow> task \<Rightarrow> task" where
  "start_task pid stack entry arg parent t =
     t\<lparr>t_id := pid, t_state := TASK_READY, t_stack := Some stack, t_entry := entry, t_arg := arg, t_runs := 0, t_wake_ms := 0,
       t_wait := WAIT_NONE, t_idle := False, t_parent := parent\<rparr>"

definition task_create :: "('n snet_scheme \<Rightarrow> 'n snet_scheme) \<Rightarrow> u32 \<Rightarrow> u32 \<Rightarrow> string option \<Rightarrow> ('n, 'z) kernel_scheme \<Rightarrow> int \<times> ('n, 'z) kernel_scheme" where
  "task_create poll entry arg name k =
     (if \<not> k_ready k \<or> entry = 0 then (-1, k)
      else case task_alloc_slot poll k of
        (None, k) \<Rightarrow> (-1, k)
      | (Some i, k) \<Rightarrow>
          (case kmalloc_stack k of
             (None, k) \<Rightarrow> (-1, k)
           | (Some p, k) \<Rightarrow>
               let pid = k_next_id k;
                   k = k\<lparr>k_next_id := pid + 1\<rparr>;
                   uid = cur_field t_uid 0 k; cwd = cur_field t_cwd ''/'' k; parent = cur_field t_id (-1) k
               in (pid, upd_task i (\<lambda>t. task_setup_stack (task_fds_clear ((start_task pid p entry arg parent t)\<lparr>t_cr3 := NoDir, t_user := False,
                          t_uid := uid, t_name := cstr_copy TASK_NAME_MAX (case name of Some n \<Rightarrow> n | None \<Rightarrow> ''kthread''),
                          t_cwd := cstr_copy TASK_CWD_MAX cwd\<rparr>))) k)))"

definition task_fork :: "('n snet_scheme \<Rightarrow> 'n snet_scheme) \<Rightarrow> u32 \<Rightarrow> u32 \<Rightarrow> string option \<Rightarrow> ('n, 'z) kernel_scheme \<Rightarrow> int \<times> ('n, 'z) kernel_scheme" where
  "task_fork poll entry arg name k =
     (case k_cur k of
        None \<Rightarrow> (-1, k)
      | Some c \<Rightarrow>
          if \<not> k_ready k \<or> entry = 0 then (-1, k)
          else case task_alloc_slot poll k of
            (None, k) \<Rightarrow> (-1, k)
          | (Some i, k) \<Rightarrow>
              (case kmalloc_stack k of
                 (None, k) \<Rightarrow> (-1, k)
               | (Some p, k) \<Rightarrow>
                   let pid = k_next_id k;
                       k = k\<lparr>k_next_id := pid + 1\<rparr>;
                       cur = k_tasks k ! c;
                       (dir, pg) = (if t_cr3 cur \<noteq> NoDir then paging_clone_dir (t_cr3 cur) (k_paging k) else (NoDir, k_paging k))
                   in (pid, upd_task i (\<lambda>t. task_setup_stack ((start_task pid p entry arg (t_id cur) t)\<lparr>t_cr3 := dir, t_user := t_user cur,
                              t_uid := t_uid cur, t_name := cstr_copy TASK_NAME_MAX (case name of Some n \<Rightarrow> n | None \<Rightarrow> ''child''),
                              t_cwd := cstr_copy TASK_CWD_MAX (t_cwd cur), t_fds := t_fds cur\<rparr>)) (k\<lparr>k_paging := pg\<rparr>))))"

text \<open>The pages a range of addresses takes.\<close>

definition range_pages :: "u32 \<Rightarrow> u32 \<Rightarrow> nat list" where
  "range_pages lo hi = (if lo < hi then [frame_of lo..<frame_of (hi - 1) + 1] else [])"

definition open_pages :: "dirref \<Rightarrow> nat list \<Rightarrow> paging \<Rightarrow> paging" where
  "open_pages dir ps pg = fold (\<lambda>p pg. snd (paging_privatize_user_pde dir p (paging_mark_user_pde dir p pg))) ps pg"

definition load_image :: "u8 list \<Rightarrow> ('n, 'z) kernel_scheme \<Rightarrow> int \<times> u32 option \<times> ('n, 'z) kernel_scheme" where
  "load_image img k =
     (case elf32_load (translate (k_paging k)) (Some img) (pmem (k_paging k)) of
        (e, entry, m) \<Rightarrow> (e, entry, k\<lparr>k_paging := (k_paging k)\<lparr>pmem := m\<rparr>\<rparr>))"

definition spawn_pages :: "('n snet_scheme \<Rightarrow> 'n snet_scheme) \<Rightarrow> u8 list \<Rightarrow> nat \<Rightarrow> int \<Rightarrow> dirref \<Rightarrow> int \<Rightarrow> ('n, 'z) kernel_scheme \<Rightarrow> int \<times> ('n, 'z) kernel_scheme" where
  "spawn_pages poll img i pid dir slot k =
     (case elf32_user_ranges (Some img) of
        (rc, r) \<Rightarrow>
          if rc \<noteq> 0 then (-6, upd_task i (\<lambda>t. t\<lparr>t_state := TASK_UNUSED\<rparr>) (task_resources_cleanup poll pid k))
          else case the r of
                 (lo, hi) \<Rightarrow>
                   (pid, k\<lparr>k_paging := paging_mark_user_pde dir (frame_of (user_stack_slot_top slot - USER_STACK_SLOT_STEP))
                             (open_pages dir (range_pages lo hi) (k_paging k))\<rparr>))"

definition spawn_stack :: "('n snet_scheme \<Rightarrow> 'n snet_scheme) \<Rightarrow> u8 list \<Rightarrow> string option \<Rightarrow> u16 \<Rightarrow> nat \<Rightarrow> int \<Rightarrow> nat \<Rightarrow> dirref \<Rightarrow> ('n, 'z) kernel_scheme \<Rightarrow> int \<times> ('n, 'z) kernel_scheme" where
  "spawn_stack poll img name uid i pid kstack dir k =
     (case user_stack_slot_alloc k of
        (slot, k) \<Rightarrow>
          if slot < 0
          then (-5, upd_task i (\<lambda>t. t\<lparr>t_cr3 := NoDir, t_state := TASK_UNUSED\<rparr>)
                      (kfree (Some kstack) (k\<lparr>k_paging := paging_free_dir dir (k_paging k)\<rparr>)))
          else let cwd = cur_field t_cwd ''/'' k
               in spawn_pages poll img i pid dir slot
                    (upd_task i (\<lambda>t. task_setup_stack (task_fds_clear (t\<lparr>t_slot := slot, t_user_stack := user_stack_slot_top slot,
                       t_kstack_top := kstack + TASK_STACK_SIZE, t_uid := uid, t_gid := uid,
                       t_name := cstr_copy TASK_NAME_MAX (case name of Some n \<Rightarrow> n | None \<Rightarrow> ''user''),
                       t_cwd := cstr_copy TASK_CWD_MAX cwd\<rparr>))) k))"

definition task_spawn_user_uid :: "('n snet_scheme \<Rightarrow> 'n snet_scheme) \<Rightarrow> u8 list \<Rightarrow> string option \<Rightarrow> u16 \<Rightarrow> ('n, 'z) kernel_scheme \<Rightarrow> int \<times> ('n, 'z) kernel_scheme" where
  "task_spawn_user_uid poll img name uid k =
     (if \<not> k_ready k \<or> length img < 16 then (-1, k)
      else case load_image img k of
        (e, entry, k) \<Rightarrow>
          if e \<noteq> 0 then (-2, k)
          else if entry = Some 0 then (-3, k)
          else case task_alloc_slot poll k of
            (None, k) \<Rightarrow> (-4, k)
          | (Some i, k) \<Rightarrow>
              (case kmalloc_stack k of
                 (kstack, k) \<Rightarrow>
                   (case paging_create_identity_dir (k_paging k) of
                      (dir, pg) \<Rightarrow>
                        let k = k\<lparr>k_paging := pg\<rparr>
                        in if kstack = None \<or> dir = NoDir then (-5, upd_task i (\<lambda>t. t\<lparr>t_state := TASK_UNUSED\<rparr>) (kfree kstack k))
                           else let pid = k_next_id k;
                                    k = k\<lparr>k_next_id := pid + 1\<rparr>;
                                    parent = cur_field t_id (-1) k
                                in spawn_stack poll img name uid i pid (the kstack) dir
                                     (upd_task i (\<lambda>t. (start_task pid (the kstack) user_task_trampoline 0 parent t)
                                        \<lparr>t_cr3 := dir, t_user := True, t_user_entry := the entry\<rparr>) k))))"

definition task_spawn_user :: "('n snet_scheme \<Rightarrow> 'n snet_scheme) \<Rightarrow> u8 list \<Rightarrow> string option \<Rightarrow> ('n, 'z) kernel_scheme \<Rightarrow> int \<times> ('n, 'z) kernel_scheme" where
  "task_spawn_user poll img name k = task_spawn_user_uid poll img name 1000 k"

text \<open>The fork of a user program; \<open>frame\<close> holds the instruction and stack pointers the system call saved.\<close>

definition task_fork_user :: "('n snet_scheme \<Rightarrow> 'n snet_scheme) \<Rightarrow> (u32 \<times> u32) option \<Rightarrow> ('n, 'z) kernel_scheme \<Rightarrow> int \<times> ('n, 'z) kernel_scheme" where
  "task_fork_user poll frame k =
     (case k_cur k of
        None \<Rightarrow> (-1, k)
      | Some c \<Rightarrow>
          if \<not> k_ready k \<or> \<not> t_user (k_tasks k ! c) then (-1, k)
          else case frame of
            None \<Rightarrow> (-2, k)
          | Some (eip, esp) \<Rightarrow>
              if eip = 0 \<or> esp = 0 then (-3, k)
              else case task_alloc_slot poll k of
                (None, k) \<Rightarrow> (-4, k)
              | (Some i, k) \<Rightarrow>
                  (case kmalloc_stack k of
                     (kstack, k) \<Rightarrow>
                       (case paging_clone_dir_deep (t_cr3 (k_tasks k ! c)) (k_paging k) of
                          (dir, pg) \<Rightarrow>
                            let k = k\<lparr>k_paging := pg\<rparr>
                            in if kstack = None \<or> dir = NoDir
                               then (-5, upd_task i (\<lambda>t. t\<lparr>t_state := TASK_UNUSED\<rparr>)
                                           (let k = kfree kstack k in if dir \<noteq> NoDir then k\<lparr>k_paging := paging_free_dir dir (k_paging k)\<rparr> else k))
                               else let pid = k_next_id k;
                                        k = k\<lparr>k_next_id := pid + 1\<rparr>;
                                        parent = k_tasks k ! c;
                                        k = user_stack_slot_ref (t_slot parent) k;
                                        k = upd_task i (\<lambda>t. task_setup_stack ((start_task pid (the kstack) user_fork_trampoline 0 (t_id parent) t)
                                              \<lparr>t_cr3 := dir, t_user := True, t_user_entry := eip, t_user_stack := esp, t_slot := t_slot parent,
                                               t_kstack_top := the kstack + TASK_STACK_SIZE, t_uid := t_uid parent, t_gid := t_gid parent,
                                               t_name := cstr_copy TASK_NAME_MAX (t_name parent), t_cwd := cstr_copy TASK_CWD_MAX (t_cwd parent), t_fds := t_fds parent\<rparr>)) k
                                    in (pid, fold take_ref (t_fds parent) k))))"

section \<open>Identity of tasks\<close>

definition task_set_idle :: "int \<Rightarrow> ('n, 'z) kernel_scheme \<Rightarrow> int \<times> ('n, 'z) kernel_scheme" where
  "task_set_idle pid k =
     (if \<not> k_ready k \<or> pid < 0 then (-1, k)
      else case find_task pid k of None \<Rightarrow> (-1, k) | Some i \<Rightarrow> (0, upd_task i (\<lambda>t. t\<lparr>t_idle := True\<rparr>) k))"

definition task_getcwd :: "('n, 'z) kernel_scheme \<Rightarrow> string" where
  "task_getcwd k = cur_field t_cwd ''/'' k"

definition task_getcwd_pid :: "int \<Rightarrow> nat \<Rightarrow> ('n, 'z) kernel_scheme \<Rightarrow> string option" where
  "task_getcwd_pid pid cap k =
     (if cap < 2 then None else map_option (\<lambda>i. cstr_copy cap (t_cwd (k_tasks k ! i))) (find_task pid k))"

definition task_getuid :: "('n, 'z) kernel_scheme \<Rightarrow> u16" where "task_getuid k = cur_field t_uid 0 k"

definition task_getgid :: "('n, 'z) kernel_scheme \<Rightarrow> u16" where "task_getgid k = cur_field t_gid 0 k"

definition task_setuid :: "u16 \<Rightarrow> ('n, 'z) kernel_scheme \<Rightarrow> int \<times> ('n, 'z) kernel_scheme" where
  "task_setuid uid k =
     (case k_cur k of
        None \<Rightarrow> (-1, k)
      | Some c \<Rightarrow> if t_uid (k_tasks k ! c) \<noteq> 0 \<and> t_uid (k_tasks k ! c) \<noteq> uid then (-1, k) else (0, upd_task c (\<lambda>t. t\<lparr>t_uid := uid\<rparr>) k))"

definition task_setgid :: "u16 \<Rightarrow> ('n, 'z) kernel_scheme \<Rightarrow> int \<times> ('n, 'z) kernel_scheme" where
  "task_setgid gid k =
     (case k_cur k of
        None \<Rightarrow> (-1, k)
      | Some c \<Rightarrow> if t_uid (k_tasks k ! c) \<noteq> 0 \<and> t_gid (k_tasks k ! c) \<noteq> gid then (-1, k) else (0, upd_task c (\<lambda>t. t\<lparr>t_gid := gid\<rparr>) k))"

definition task_setuid_force :: "u16 \<Rightarrow> ('n, 'z) kernel_scheme \<Rightarrow> int \<times> ('n, 'z) kernel_scheme" where
  "task_setuid_force uid k = (case k_cur k of None \<Rightarrow> (-1, k) | Some c \<Rightarrow> (0, upd_task c (\<lambda>t. t\<lparr>t_uid := uid\<rparr>) k))"

definition task_setgid_force :: "u16 \<Rightarrow> ('n, 'z) kernel_scheme \<Rightarrow> int \<times> ('n, 'z) kernel_scheme" where
  "task_setgid_force gid k = (case k_cur k of None \<Rightarrow> (-1, k) | Some c \<Rightarrow> (0, upd_task c (\<lambda>t. t\<lparr>t_gid := gid\<rparr>) k))"

definition task_setuid_pid :: "int \<Rightarrow> u16 \<Rightarrow> ('n, 'z) kernel_scheme \<Rightarrow> int \<times> ('n, 'z) kernel_scheme" where
  "task_setuid_pid pid uid k =
     (case k_cur k of
        None \<Rightarrow> (-1, k)
      | Some c \<Rightarrow>
          if t_uid (k_tasks k ! c) \<noteq> 0 then (-1, k)
          else case task_find_by_id pid k of None \<Rightarrow> (-1, k) | Some i \<Rightarrow> (0, upd_task i (\<lambda>t. t\<lparr>t_uid := uid\<rparr>) k))"

section \<open>The arguments of a program\<close>

text \<open>The strings, the pointers to them and their number, written below the top of the stack; the result is
  the stack pointer. A missing argument is an empty string.\<close>

fun put_strings :: "(u32 \<Rightarrow> u32) \<Rightarrow> u8 list list \<Rightarrow> u32 \<Rightarrow> memory \<Rightarrow> u32 list \<times> u32 \<times> memory" where
  "put_strings tr [] sp m = ([], sp, m)"
| "put_strings tr (s # ss) sp m =
     (case put_strings tr ss sp m of
        (ptrs, sp, m) \<Rightarrow>
          (let sp = sp - of_nat (length s + 1) in (sp # ptrs, sp, write_bytes tr sp (s @ [0]) m)))"

fun push_words :: "(u32 \<Rightarrow> u32) \<Rightarrow> u32 list \<Rightarrow> u32 \<Rightarrow> memory \<Rightarrow> u32 \<times> memory" where
  "push_words tr [] sp m = (sp, m)"
| "push_words tr (w # ws) sp m =
     (case push_words tr ws sp m of (sp, m) \<Rightarrow> (let sp = sp - 4 in (sp, write_bytes tr sp (le32 w) m)))"

definition user_prepare_args :: "(u32 \<Rightarrow> u32) \<Rightarrow> u32 \<Rightarrow> u8 list list \<Rightarrow> memory \<Rightarrow> u32 \<times> memory" where
  "user_prepare_args tr stack_top argv m =
     (let argv = take 8 argv
      in case put_strings tr argv (stack_top AND NOT 3) m of
           (ptrs, sp, m) \<Rightarrow> push_words tr (of_nat (length argv) # ptrs @ [0, 0]) sp m)"

end
