(* ===== verification/KSched.thy ===== *)
theory KSched
  imports KTask
begin

text \<open>
  The scheduler of \<^verbatim>\<open>kernel/sched/task.cpp\<close>: the choice of the next task, switching, time slices, waking,
  blocking, and the end of tasks. A switch of stacks is the change of the running task; what a task
  does when it runs again is the operation it continues with.
\<close>

section \<open>Choosing and switching\<close>

definition sched_init :: "('n, 'z) kernel_scheme \<Rightarrow> ('n, 'z) kernel_scheme" where
  "sched_init k =
     k\<lparr>k_tasks := (map (\<lambda>t. (task_fds_clear (t\<lparr>t_state := TASK_UNUSED, t_stack := None, t_slot := -1\<rparr>))
            \<lparr>t_cwd := ''/'', t_parent := -1, t_cr3 := NoDir, t_user := False, t_idle := False\<rparr>) (k_tasks k))
          [0 := (task_fds_clear (k_tasks k ! 0))\<lparr>t_id := 0, t_state := TASK_RUNNING, t_esp := 0, t_stack := None, t_entry := 0, t_arg := 0, t_name := ''systemd'',
             t_runs := 0, t_wake_ms := 0, t_wait := WAIT_NONE, t_idle := False, t_parent := -1, t_cwd := ''/'', t_cr3 := NoDir, t_user := False, t_uid := 0, t_slot := -1\<rparr>],
       k_cur := Some 0, k_next_id := 1, k_yields := 0, k_wakes := 0, k_net_wakes := 0, k_need_resched := False, k_slice := TASK_SLICE_TICKS, k_ready := True\<rparr>"

text \<open>The indices in the order of the search, from the one behind the running task.\<close>

definition ring_order :: "nat \<Rightarrow> nat list" where
  "ring_order c = map (\<lambda>n. (c + n) mod TASK_MAX) [1..<TASK_MAX + 1]"

definition sched_pick_next :: "('n, 'z) kernel_scheme \<Rightarrow> nat option" where
  "sched_pick_next k =
     (case k_cur k of
        None \<Rightarrow> None
      | Some c \<Rightarrow>
          (case find (\<lambda>i. t_state (k_tasks k ! i) = TASK_READY \<and> \<not> t_idle (k_tasks k ! i)) (ring_order c) of
             Some i \<Rightarrow> Some i
           | None \<Rightarrow> find (\<lambda>i. t_state (k_tasks k ! i) = TASK_READY) (ring_order c)))"

definition dir_or_kernel :: "dirref \<Rightarrow> paging \<Rightarrow> dirref" where
  "dir_or_kernel d pg = (if d \<noteq> NoDir then d else kernel_cr3 pg)"

text \<open>The running task is entered: its state, its directory, its kernel stack.\<close>

definition enter_task :: "nat \<Rightarrow> ('n, 'z) kernel_scheme \<Rightarrow> ('n, 'z) kernel_scheme" where
  "enter_task i k =
     (let k = (upd_task i (\<lambda>t. t\<lparr>t_state := TASK_RUNNING, t_runs := t_runs t + 1\<rparr>) k)\<lparr>k_cur := Some i, k_slice := TASK_SLICE_TICKS\<rparr>
      in if t_user (k_tasks k ! i) \<and> t_kstack_top (k_tasks k ! i) \<noteq> 0 then k\<lparr>k_esp0 := t_kstack_top (k_tasks k ! i)\<rparr> else k)"

definition sched_switch_to :: "nat option \<Rightarrow> ('n, 'z) kernel_scheme \<Rightarrow> ('n, 'z) kernel_scheme" where
  "sched_switch_to next k =
     (case (next, k_cur k) of
        (Some i, Some c) \<Rightarrow>
          if i = c then k
          else let n = dir_or_kernel (t_cr3 (k_tasks k ! i)) (k_paging k);
                   p = dir_or_kernel (t_cr3 (k_tasks k ! c)) (k_paging k);
                   k = (if n \<noteq> p then k\<lparr>k_paging := paging_load_cr3 n (k_paging k)\<rparr> else k)
               in (enter_task i k)\<lparr>k_yields := k_yields k + 1, k_need_resched := False\<rparr>
      | _ \<Rightarrow> k)"

text \<open>A blocked task with a deadline becomes ready when the time has reached it; times wrap around.\<close>

definition reached :: "u32 \<Rightarrow> u32 \<Rightarrow> bool" where
  "reached now deadline \<longleftrightarrow> 0 \<le> sint (now - deadline)"

definition wakes :: "u32 \<Rightarrow> task \<Rightarrow> bool" where
  "wakes now t \<longleftrightarrow> t_state t = TASK_BLOCKED \<and> t_wake_ms t \<noteq> 0 \<and> reached now (t_wake_ms t)"

definition wake :: "task \<Rightarrow> task" where
  "wake t = t\<lparr>t_wake_ms := 0, t_wait := WAIT_NONE, t_state := TASK_READY\<rparr>"

definition sched_wake_sleepers :: "u32 \<Rightarrow> ('n, 'z) kernel_scheme \<Rightarrow> ('n, 'z) kernel_scheme" where
  "sched_wake_sleepers now k =
     k\<lparr>k_tasks := map (\<lambda>t. if wakes now t then wake t else t) (k_tasks k),
       k_wakes := k_wakes k + of_nat (length (filter (wakes now) (k_tasks k)))\<rparr>"

definition sched_yield :: "u32 \<Rightarrow> ('n, 'z) kernel_scheme \<Rightarrow> ('n, 'z) kernel_scheme" where
  "sched_yield now k =
     (case k_cur k of
        None \<Rightarrow> k
      | Some c \<Rightarrow>
          if \<not> k_ready k then k
          else let k = sched_wake_sleepers now k;
                   k = (if t_state (k_tasks k ! c) = TASK_RUNNING then upd_task c (\<lambda>t. t\<lparr>t_state := TASK_READY\<rparr>) k else k);
                   next = sched_pick_next k
               in if next = None \<or> next = Some c
                  then (if t_state (k_tasks k ! c) = TASK_READY then upd_task c (\<lambda>t. t\<lparr>t_state := TASK_RUNNING\<rparr>) k else k)\<lparr>k_need_resched := False\<rparr>
                  else sched_switch_to next k)"

definition sched_on_tick :: "u32 \<Rightarrow> ('n, 'z) kernel_scheme \<Rightarrow> ('n, 'z) kernel_scheme" where
  "sched_on_tick now k =
     (if \<not> k_ready k then k
      else let k = (case k_cur k of
                      None \<Rightarrow> k
                    | Some c \<Rightarrow> if t_state (k_tasks k ! c) = TASK_RUNNING then upd_task c (\<lambda>t. t\<lparr>t_cpu_ticks := t_cpu_ticks t + 1\<rparr>) k else k);
               k = sched_wake_sleepers now k;
               left = (if k_slice k > 0 then k_slice k - 1 else k_slice k)
           in if left = 0 then k\<lparr>k_need_resched := True, k_slice := TASK_SLICE_TICKS\<rparr> else k\<lparr>k_slice := left\<rparr>)"

definition sched_maybe_preempt :: "u32 \<Rightarrow> ('n, 'z) kernel_scheme \<Rightarrow> ('n, 'z) kernel_scheme" where
  "sched_maybe_preempt now k =
     (if \<not> k_ready k \<or> \<not> k_need_resched k then k
      else case k_cur k of
        None \<Rightarrow> k
      | Some c \<Rightarrow> if t_state (k_tasks k ! c) \<noteq> TASK_RUNNING then k else sched_yield now k)"

definition waits_net :: "task \<Rightarrow> bool" where
  "waits_net t \<longleftrightarrow> t_state t = TASK_BLOCKED \<and> t_wait t = WAIT_NET"

definition sched_wake_net :: "('n, 'z) kernel_scheme \<Rightarrow> ('n, 'z) kernel_scheme" where
  "sched_wake_net k =
     (if \<not> k_ready k then k
      else let n = of_nat (length (filter waits_net (k_tasks k)))
           in k\<lparr>k_tasks := map (\<lambda>t. if waits_net t then wake t else t) (k_tasks k), k_net_wakes := k_net_wakes k + n, k_wakes := k_wakes k + n\<rparr>)"

text \<open>Blocking: the running task is marked, then the loop gives the processor away as long as the task is
  blocked, and waits for an interrupt when no task is ready. The task that runs again leaves the loop.\<close>

definition block_start :: "task_wait_reason \<Rightarrow> u32 \<Rightarrow> u32 \<Rightarrow> ('n, 'z) kernel_scheme \<Rightarrow> bool \<times> ('n, 'z) kernel_scheme" where
  "block_start reason deadline now k =
     (case k_cur k of
        None \<Rightarrow> (False, k)
      | Some c \<Rightarrow>
          if \<not> k_ready k then (False, k)
          else if deadline \<noteq> 0 \<and> reached now deadline then (False, k)
          else (True, upd_task c (\<lambda>t. t\<lparr>t_wait := (if reason = WAIT_NONE then WAIT_SLEEP else reason),
                         t_wake_ms := (if deadline \<noteq> 0 then deadline else 1), t_state := TASK_BLOCKED\<rparr>) k))"

definition block_turn :: "u32 \<Rightarrow> ('n, 'z) kernel_scheme \<Rightarrow> ('n, 'z) kernel_scheme" where
  "block_turn now k =
     (case sched_pick_next k of None \<Rightarrow> sched_wake_sleepers now k | Some i \<Rightarrow> sched_switch_to (Some i) k)"

definition block_end :: "('n, 'z) kernel_scheme \<Rightarrow> ('n, 'z) kernel_scheme" where
  "block_end k =
     (case k_cur k of
        None \<Rightarrow> k
      | Some c \<Rightarrow>
          (upd_task c (\<lambda>t. t\<lparr>t_state := (if t_state t = TASK_READY then TASK_RUNNING else t_state t), t_wait := WAIT_NONE\<rparr>) k)
          \<lparr>k_slice := TASK_SLICE_TICKS, k_need_resched := False\<rparr>)"

definition task_sleep_start :: "u32 \<Rightarrow> u32 \<Rightarrow> ('n, 'z) kernel_scheme \<Rightarrow> ('n, 'z) kernel_scheme" where
  "task_sleep_start ms now k =
     (if ms = 0 then sched_yield now k else snd (block_start WAIT_SLEEP (now + ms) now k))"

section \<open>The end of tasks\<close>

definition task_get_state :: "int \<Rightarrow> ('n, 'z) kernel_scheme \<Rightarrow> task_state" where
  "task_get_state pid k = (case task_find_by_id pid k of None \<Rightarrow> TASK_UNUSED | Some i \<Rightarrow> t_state (k_tasks k ! i))"

definition bury :: "task \<Rightarrow> task" where
  "bury t = t\<lparr>t_state := TASK_ZOMBIE, t_entry := 0, t_wake_ms := 0, t_wait := WAIT_NONE\<rparr>"

definition live_child :: "int \<Rightarrow> task \<Rightarrow> bool" where
  "live_child pid t \<longleftrightarrow> t_state t \<noteq> TASK_UNUSED \<and> t_state t \<noteq> TASK_ZOMBIE \<and> t_parent t = pid"

text \<open>The recursion through the descendants of a task, with the place of the loop in the table; it does not
  return if the parents form a circle.\<close>

partial_function (option) kill_loop :: "('n snet_scheme \<Rightarrow> 'n snet_scheme) \<Rightarrow> int \<Rightarrow> nat \<Rightarrow> ('n, 'z) kernel_scheme \<Rightarrow> ('n, 'z) kernel_scheme option" where
  "kill_loop poll pid i k =
     (if TASK_MAX \<le> i then Some k
      else if \<not> live_child pid (k_tasks k ! i) then kill_loop poll pid (i + 1) k
      else Option.bind (kill_loop poll (t_id (k_tasks k ! i)) 0 k)
             (\<lambda>k. kill_loop poll pid (i + 1)
                (if k_cur k = Some i then k else upd_task i bury (task_resources_cleanup poll (t_id (k_tasks k ! i)) k))))"

definition task_kill_children :: "('n snet_scheme \<Rightarrow> 'n snet_scheme) \<Rightarrow> int \<Rightarrow> ('n, 'z) kernel_scheme \<Rightarrow> ('n, 'z) kernel_scheme option" where
  "task_kill_children poll pid k = kill_loop poll pid 0 k"

definition task_exit :: "('n snet_scheme \<Rightarrow> 'n snet_scheme) \<Rightarrow> ('n, 'z) kernel_scheme \<Rightarrow> ('n, 'z) kernel_scheme" where
  "task_exit poll k =
     (case k_cur k of
        None \<Rightarrow> k
      | Some c \<Rightarrow>
          let k = (if t_id (k_tasks k ! c) \<noteq> 0 then task_resources_cleanup poll (t_id (k_tasks k ! c)) k else k);
              k = upd_task c bury k;
              (next, k) = (case sched_pick_next k of
                             Some i \<Rightarrow> (i, k)
                           | None \<Rightarrow> (0, if t_state (k_tasks k ! 0) = TASK_ZOMBIE \<or> t_state (k_tasks k ! 0) = TASK_UNUSED
                                        then upd_task 0 (\<lambda>t. t\<lparr>t_state := TASK_READY\<rparr>) k else k))
          in enter_task next (k\<lparr>k_paging := paging_load_cr3 (dir_or_kernel (t_cr3 (k_tasks k ! next)) (k_paging k)) (k_paging k)\<rparr>))"

definition task_kill :: "('n snet_scheme \<Rightarrow> 'n snet_scheme) \<Rightarrow> int \<Rightarrow> ('n, 'z) kernel_scheme \<Rightarrow> (int \<times> ('n, 'z) kernel_scheme) option" where
  "task_kill poll pid k =
     (if \<not> k_ready k then Some (-1, k)
      else case task_find_by_id pid k of
        None \<Rightarrow> Some (-1, k)
      | Some i \<Rightarrow>
          if t_id (k_tasks k ! i) = 0 \<or> t_idle (k_tasks k ! i) then Some (-2, k)
          else if t_state (k_tasks k ! i) = TASK_ZOMBIE then Some (0, k)
          else case task_kill_children poll pid k of
                 None \<Rightarrow> None
               | Some k \<Rightarrow>
                   let k = task_resources_cleanup poll pid k
                   in if k_cur k = Some i then Some (0, task_exit poll k) else Some (0, upd_task i bury k))"

text \<open>One turn of the loop that waits for a child: the child is reaped, there is none, or the caller
  blocks and looks again.\<close>

datatype wait_outcome = Reaped int | NoChild | WaitMore

definition wait_scan :: "('n snet_scheme \<Rightarrow> 'n snet_scheme) \<Rightarrow> int \<Rightarrow> ('n, 'z) kernel_scheme \<Rightarrow> wait_outcome \<times> ('n, 'z) kernel_scheme" where
  "wait_scan poll pid k =
     (case k_cur k of
        None \<Rightarrow> (NoChild, k)
      | Some c \<Rightarrow>
          if \<not> k_ready k then (NoChild, k)
          else let mine = (\<lambda>t. t_state t \<noteq> TASK_UNUSED \<and> t_parent t = t_id (k_tasks k ! c) \<and> (pid \<ge> 0 \<longrightarrow> t_id t = pid))
               in case find_slot (\<lambda>t. mine t \<and> t_state t = TASK_ZOMBIE) (k_tasks k) of
                    Some i \<Rightarrow> (Reaped (t_id (k_tasks k ! i)), task_slot_clear poll i k)
                  | None \<Rightarrow> if pid \<ge> 0 \<and> \<not> (\<exists>t \<in> set (k_tasks k). mine t) then (NoChild, k) else (WaitMore, k))"

end
