(* ===== verification/KSchedInv.thy ===== *)
theory KSchedInv
  imports KSched
begin

text \<open>
  Correctness of the scheduler: at most one task runs and it is the current one, identities are unique
  and grow from parent to child, every ready task is run in turn, and killing a task ends all its
  descendants.
\<close>

section \<open>The part of the state the scheduler reads\<close>

abbreviation st :: "('n, 'z) kernel_scheme \<Rightarrow> nat \<Rightarrow> task_state" where "st k i \<equiv> t_state (k_tasks k ! i)"
abbreviation pid_of :: "('n, 'z) kernel_scheme \<Rightarrow> nat \<Rightarrow> int" where "pid_of k i \<equiv> t_id (k_tasks k ! i)"
abbreviation parent_of :: "('n, 'z) kernel_scheme \<Rightarrow> nat \<Rightarrow> int" where "parent_of k i \<equiv> t_parent (k_tasks k ! i)"
abbreviation idle :: "('n, 'z) kernel_scheme \<Rightarrow> nat \<Rightarrow> bool" where "idle k i \<equiv> t_idle (k_tasks k ! i)"

definition pub :: "task \<Rightarrow> task_state \<times> int \<times> int \<times> bool" where
  "pub t = (t_state t, t_id t, t_parent t, t_idle t)"

definition same_sched :: "('n, 'z) kernel_scheme \<Rightarrow> ('n, 'z) kernel_scheme \<Rightarrow> bool" where
  "same_sched k k' \<longleftrightarrow> map pub (k_tasks k') = map pub (k_tasks k) \<and> k_cur k' = k_cur k \<and> k_next_id k' = k_next_id k \<and> k_ready k' = k_ready k"

lemma same_refl [simp]: "same_sched k k"
  by (simp add: same_sched_def)

lemma same_trans: "same_sched a b \<Longrightarrow> same_sched b c \<Longrightarrow> same_sched a c"
  by (simp add: same_sched_def)

lemma same_upd: "(\<And>t. pub (f t) = pub t) \<Longrightarrow> same_sched k (upd_task i f k)"
  by (simp add: same_sched_def upd_task_def map_update) (metis list_update_id length_map list_update_beyond map_update not_less nth_map)

lemma same_len: "same_sched k k' \<Longrightarrow> length (k_tasks k') = length (k_tasks k)"
  unfolding same_sched_def by (metis length_map)

lemma same_nth: "same_sched k k' \<Longrightarrow> i < length (k_tasks k) \<Longrightarrow> st k' i = st k i \<and> pid_of k' i = pid_of k i \<and> parent_of k' i = parent_of k i \<and> idle k' i = idle k i"
proof -
  assume s: "same_sched k k'" and i: "i < length (k_tasks k)"
  have "map pub (k_tasks k') ! i = map pub (k_tasks k) ! i" using s by (simp add: same_sched_def)
  then have "pub (k_tasks k' ! i) = pub (k_tasks k ! i)" using i same_len [OF s] by simp
  then show ?thesis by (simp add: pub_def)
qed

text \<open>Giving back what a task holds changes none of it.\<close>

lemma same_fields:
  "same_sched k (k\<lparr>k_net := n\<rparr>)" "same_sched k (k\<lparr>k_pipes := p\<rparr>)" "same_sched k (k\<lparr>k_ptys := y\<rparr>)" "same_sched k (k\<lparr>k_ofiles := o'\<rparr>)"
  "same_sched k (k\<lparr>k_paging := g\<rparr>)" "same_sched k (k\<lparr>k_heap := h\<rparr>)" "same_sched k (k\<lparr>k_slot_ref := r\<rparr>)" "same_sched k (k\<lparr>k_slot_next := x\<rparr>)"
  "same_sched k (k\<lparr>k_slice := l\<rparr>)" "same_sched k (k\<lparr>k_need_resched := b\<rparr>)" "same_sched k (k\<lparr>k_wakes := w\<rparr>)" "same_sched k (k\<lparr>k_esp0 := e\<rparr>)"
  by (simp_all add: same_sched_def)

lemma same_set_fd: "same_sched k (set_fd c fd e k)"
  unfolding set_fd_def by (rule same_upd) (simp add: pub_def)

lemma same_drop_ref: "same_sched k (drop_ref e k)"
  by (simp add: drop_ref_def fs_ofile_release_def same_fields split: fd_type.split)

lemma same_take_ref: "same_sched k (take_ref e k)"
  by (simp add: take_ref_def same_fields split: fd_type.split)

lemma same_fold: "(\<And>x k. same_sched k (f x k)) \<Longrightarrow> same_sched k (fold f xs k)"
proof (induction xs arbitrary: k)
  case (Cons x xs)
  then show ?case using same_trans [of k "f x k" "fold f xs (f x k)"] by simp
qed simp

lemma same_close_all: "same_sched k (task_fd_close_all i k)"
  unfolding task_fd_close_all_def unfolding Let_def by (rule same_fold) (rule same_trans [OF same_drop_ref same_set_fd])

lemma same_on_net: "same_sched k (on_net f k)"
  by (simp add: on_net_def same_fields)

lemma same_slot_release: "same_sched k (user_stack_slot_release x k)"
  by (simp add: user_stack_slot_release_def same_fields)

lemma same_kfree: "same_sched k (kfree p k)"
  by (simp add: kfree_def same_fields split: option.split)

lemma same_cleanup: "same_sched k (task_resources_cleanup poll pid k)"
proof (cases "pid < 0")
  case False
  define k1 where "k1 = on_net (\<lambda>n. snd (socket_close_by_pid poll pid n)) k"
  have s1: "same_sched k k1" unfolding k1_def by (rule same_on_net)
  show ?thesis
  proof (cases "find_task pid k1")
    case None
    then show ?thesis using False s1 by (simp add: task_resources_cleanup_def Let_def k1_def)
  next
    case (Some i)
    define k2 where "k2 = task_fd_close_all i k1"
    define k3 where "k3 = (if t_cr3 (k_tasks k2 ! i) \<noteq> NoDir
      then upd_task i (\<lambda>t. t\<lparr>t_cr3 := NoDir\<rparr>) (k2\<lparr>k_paging := paging_free_dir (t_cr3 (k_tasks k2 ! i)) (k_paging k2)\<rparr>) else k2)"
    define k4 where "k4 = (if t_slot (k_tasks k3 ! i) \<ge> 0 then upd_task i (\<lambda>t. t\<lparr>t_slot := -1\<rparr>) (user_stack_slot_release (t_slot (k_tasks k3 ! i)) k3) else k3)"
    have "same_sched k1 k2" unfolding k2_def by (rule same_close_all)
    moreover have "same_sched k2 k3" unfolding k3_def by (auto intro!: same_trans [OF same_fields(5) same_upd] simp: pub_def)
    moreover have "same_sched k3 k4" unfolding k4_def by (auto intro!: same_trans [OF same_slot_release same_upd] simp: pub_def)
    ultimately have "same_sched k k4" using s1 same_trans by blast
    moreover have "task_resources_cleanup poll pid k = k4" using False Some by (simp add: task_resources_cleanup_def Let_def k1_def k2_def k3_def k4_def)
    ultimately show ?thesis by simp
  qed
qed (simp add: task_resources_cleanup_def)

section \<open>The invariant\<close>

text \<open>The table has its size, a task is current and neither unused nor ended, no other task is running;
  the identities of the tasks are different, below the next one to give, and above those of their
  parents. The first slot counts among them even when it is unused, because the end of the last task
  brings it back.\<close>

definition alive :: "('n, 'z) kernel_scheme \<Rightarrow> nat \<Rightarrow> bool" where
  "alive k i \<longleftrightarrow> i < TASK_MAX \<and> st k i \<noteq> TASK_UNUSED \<and> st k i \<noteq> TASK_ZOMBIE"

definition named :: "('n, 'z) kernel_scheme \<Rightarrow> nat \<Rightarrow> bool" where
  "named k i \<longleftrightarrow> i < TASK_MAX \<and> (i = 0 \<or> st k i \<noteq> TASK_UNUSED)"

definition id_ok :: "('n, 'z) kernel_scheme \<Rightarrow> nat \<Rightarrow> bool" where
  "id_ok k i \<longleftrightarrow> 0 \<le> pid_of k i \<and> pid_of k i < k_next_id k \<and> parent_of k i < pid_of k i \<and> (i \<noteq> 0 \<longrightarrow> 0 < pid_of k i)"

definition ids_ok :: "('n, 'z) kernel_scheme \<Rightarrow> bool" where
  "ids_ok k \<longleftrightarrow> length (k_tasks k) = TASK_MAX \<and> 0 < k_next_id k \<and> (\<forall>i. named k i \<longrightarrow> id_ok k i) \<and>
     (\<forall>i j. named k i \<longrightarrow> named k j \<longrightarrow> pid_of k i = pid_of k j \<longrightarrow> i = j)"

definition sched_inv :: "('n, 'z) kernel_scheme \<Rightarrow> bool" where
  "sched_inv k \<longleftrightarrow> k_ready k \<and> ids_ok k \<and> (\<exists>c. k_cur k = Some c \<and> alive k c \<and> (\<forall>i < TASK_MAX. i \<noteq> c \<longrightarrow> st k i \<noteq> TASK_RUNNING))"

lemma same_props:
  assumes "same_sched k k'" "length (k_tasks k) = TASK_MAX"
  shows "named k' i = named k i" "alive k' i = alive k i" "ids_ok k' = ids_ok k" "sched_inv k' = sched_inv k"
proof -
  have n: "st k' i = st k i" "pid_of k' i = pid_of k i" "parent_of k' i = parent_of k i" if "i < TASK_MAX" for i
    using same_nth [OF assms(1), of i] that assms(2) by simp_all
  have c: "k_cur k' = k_cur k" "k_next_id k' = k_next_id k" "k_ready k' = k_ready k" using assms(1) by (simp_all add: same_sched_def)
  show u: "named k' i = named k i" for i using n by (auto simp: named_def)
  show l: "alive k' i = alive k i" for i using n by (auto simp: alive_def)
  have p: "pid_of k' i = pid_of k i" "parent_of k' i = parent_of k i" if "named k i" for i using n that by (simp_all add: named_def)
  show i: "ids_ok k' = ids_ok k" unfolding ids_ok_def id_ok_def u c same_len [OF assms(1)] by (auto simp: p)
  show "sched_inv k' = sched_inv k" unfolding sched_inv_def i l c by (auto simp: n)
qed

lemma upd_nth: "length (k_tasks k) = TASK_MAX \<Longrightarrow> j < TASK_MAX \<Longrightarrow> k_tasks (upd_task i f k) ! j = (if j = i then f (k_tasks k ! j) else k_tasks k ! j)"
  by (auto simp: upd_task_def nth_list_update)

lemma upd_sel [simp]: "k_cur (upd_task i f k) = k_cur k" "k_next_id (upd_task i f k) = k_next_id k" "k_ready (upd_task i f k) = k_ready k"
  "length (k_tasks (upd_task i f k)) = length (k_tasks k)" "k_slice (upd_task i f k) = k_slice k" "k_paging (upd_task i f k) = k_paging k"
  by (simp_all add: upd_task_def)

text \<open>A change of the state of one task that keeps who it is.\<close>

lemma ids_upd_state:
  assumes "ids_ok k" "i < TASK_MAX" "\<And>t. t_id (f t) = t_id t \<and> t_parent (f t) = t_parent t" "t_state (f (k_tasks k ! i)) = TASK_UNUSED \<or> named k i"
  shows "ids_ok (upd_task i f k)"
proof -
  have l: "length (k_tasks k) = TASK_MAX" using assms(1) by (simp add: ids_ok_def)
  have p: "pid_of (upd_task i f k) j = pid_of k j" "parent_of (upd_task i f k) j = parent_of k j" if "j < TASK_MAX" for j
    using that l assms(3) by (simp_all add: upd_nth)
  have u: "named k j" if "named (upd_task i f k) j" for j using that l assms(4) by (auto simp: named_def upd_nth split: if_splits)
  have q: "j < TASK_MAX" if "named (upd_task i f k) j" for j using that by (simp add: named_def)
  have o: "id_ok (upd_task i f k) j" if "named (upd_task i f k) j" for j
  proof -
    have "id_ok k j" using u [OF that] assms(1) by (simp add: ids_ok_def)
    then show ?thesis using p [OF q [OF that]] by (simp add: id_ok_def)
  qed
  have "j = j'" if "named (upd_task i f k) j" "named (upd_task i f k) j'" "pid_of (upd_task i f k) j = pid_of (upd_task i f k) j'" for j j'
    using u [OF that(1)] u [OF that(2)] that(3) p(1) [OF q [OF that(1)]] p(1) [OF q [OF that(2)]] assms(1) by (simp add: ids_ok_def)
  then show ?thesis using assms(1) o by (simp add: ids_ok_def)
qed

text \<open>A slot with the identity \<open>n\<close>, which no other task has.\<close>

lemma ids_put:
  assumes "ids_ok k" "i < TASK_MAX" "\<And>j. named k j \<Longrightarrow> j \<noteq> i \<Longrightarrow> pid_of k j \<noteq> t_id (f (k_tasks k ! i))" "k_next_id k \<le> n"
    "t_parent (f (k_tasks k ! i)) < t_id (f (k_tasks k ! i))" "0 \<le> t_id (f (k_tasks k ! i))" "t_id (f (k_tasks k ! i)) < n"
    "i \<noteq> 0 \<Longrightarrow> t_state (f (k_tasks k ! i)) \<noteq> TASK_UNUSED \<Longrightarrow> 0 < t_id (f (k_tasks k ! i))"
  shows "ids_ok (upd_task i f (k\<lparr>k_next_id := n\<rparr>))" (is "ids_ok ?k")
proof -
  have l: "length (k_tasks k) = TASK_MAX" and n: "0 < k_next_id k" using assms(1) by (simp_all add: ids_ok_def)
  have t: "k_tasks ?k ! j = (if j = i then f (k_tasks k ! i) else k_tasks k ! j)" if "j < TASK_MAX" for j
    using that l upd_nth [of "k\<lparr>k_next_id := n\<rparr>" j i f] by simp
  have u: "named k j" if "named ?k j" "j \<noteq> i" for j using that by (auto simp: named_def t)
  have b: "id_ok ?k j" if "named ?k j" for j
  proof (cases "j = i")
    case False
    then show ?thesis using u [OF that] assms(1,4) that by (auto simp: ids_ok_def id_ok_def named_def t)
  qed (use assms(5-8) that in \<open>auto simp: id_ok_def named_def t\<close>)
  have e: "j = j'" if "named k j" "named k j'" "pid_of k j = pid_of k j'" for j j' using assms(1) that by (simp add: ids_ok_def)
  have "j = j'" if j: "named ?k j" "named ?k j'" "pid_of ?k j = pid_of ?k j'" for j j'
    using e [OF u u, of j j'] assms(3) [OF u, of j] assms(3) [OF u, of j'] j by (cases "j = i"; cases "j' = i") (auto simp: t named_def)
  then show ?thesis using l n b assms(4) by (simp add: ids_ok_def)
qed

text \<open>A new identity, and a slot that is cleared.\<close>

lemma ids_new:
  assumes "ids_ok k" "i < TASK_MAX" "t_id (f (k_tasks k ! i)) = k_next_id k" "t_parent (f (k_tasks k ! i)) < k_next_id k"
  shows "ids_ok (upd_task i f (k\<lparr>k_next_id := k_next_id k + 1\<rparr>))"
proof -
  have "pid_of k j \<noteq> k_next_id k" if "named k j" for j using assms(1) that by (auto simp: ids_ok_def id_ok_def)
  moreover have "0 < k_next_id k" using assms(1) by (simp add: ids_ok_def)
  ultimately show ?thesis using assms by (intro ids_put) auto
qed

lemma ids_clear:
  assumes "ids_ok k" "i < TASK_MAX" "t_id (f (k_tasks k ! i)) = 0" "t_parent (f (k_tasks k ! i)) = -1" "t_state (f (k_tasks k ! i)) = TASK_UNUSED"
  shows "ids_ok (upd_task i f k)"
proof (cases "i = 0")
  case True
  have "pid_of k j \<noteq> 0" if "named k j" "j \<noteq> 0" for j using assms(1) that by (auto simp: ids_ok_def id_ok_def)
  moreover have "0 < k_next_id k" using assms(1) by (simp add: ids_ok_def)
  ultimately have "ids_ok (upd_task i f (k\<lparr>k_next_id := k_next_id k\<rparr>))" using assms True by (intro ids_put) auto
  then show ?thesis by simp
next
  case False
  have t: "k_tasks (upd_task i f k) ! j = (if j = i then f (k_tasks k ! j) else k_tasks k ! j)" if "j < TASK_MAX" for j
    using assms(1) that by (simp add: upd_nth ids_ok_def)
  have n: "named k j \<and> j \<noteq> i" if "named (upd_task i f k) j" for j using that False assms(5) by (cases "j = i") (auto simp: named_def t)
  then have q: "k_tasks (upd_task i f k) ! j = k_tasks k ! j" if "named (upd_task i f k) j" for j using t [of j] that by (auto simp: named_def)
  have "id_ok (upd_task i f k) j" if "named (upd_task i f k) j" for j
    using n [OF that] assms(1) unfolding id_ok_def q [OF that] upd_sel by (simp add: ids_ok_def id_ok_def)
  moreover have "j = j'" if "named (upd_task i f k) j" "named (upd_task i f k) j'" "pid_of (upd_task i f k) j = pid_of (upd_task i f k) j'" for j j'
    using n [OF that(1)] n [OF that(2)] that(3) assms(1) unfolding q [OF that(1)] q [OF that(2)] by (simp add: ids_ok_def)
  ultimately show ?thesis using assms(1) by (simp add: ids_ok_def)
qed

section \<open>Switching keeps the invariant\<close>

lemma inv_len: "ids_ok k \<Longrightarrow> length (k_tasks k) = TASK_MAX" "sched_inv k \<Longrightarrow> length (k_tasks k) = TASK_MAX" "sched_inv k \<Longrightarrow> ids_ok k" "sched_inv k \<Longrightarrow> k_ready k"
  by (simp_all add: ids_ok_def sched_inv_def)

lemma inv_curE:
  assumes "sched_inv k"
  obtains c where "k_cur k = Some c" "c < TASK_MAX" "alive k c" "named k c" "\<And>i. i < TASK_MAX \<Longrightarrow> i \<noteq> c \<Longrightarrow> st k i \<noteq> TASK_RUNNING"
  using assms by (auto simp: sched_inv_def alive_def named_def)

lemma ring_order_less: "i \<in> set (ring_order c) \<Longrightarrow> i < TASK_MAX"
  by (auto simp: ring_order_def)

lemma find_SomeD: "find P xs = Some x \<Longrightarrow> x \<in> set xs \<and> P x"
  by (induction xs) (auto split: if_splits)

lemma pick_ready: "sched_pick_next k = Some i \<Longrightarrow> i < TASK_MAX \<and> st k i = TASK_READY"
  by (auto simp: sched_pick_next_def split: option.splits dest!: find_SomeD ring_order_less)

lemma same_paging_load: "same_sched k (k\<lparr>k_paging := g\<rparr>)"
  by (rule same_fields)

lemma enter_nth: "length (k_tasks k) = TASK_MAX \<Longrightarrow> j < TASK_MAX \<Longrightarrow>
    k_tasks (enter_task i k) ! j = (if j = i then (k_tasks k ! i)\<lparr>t_state := TASK_RUNNING, t_runs := t_runs (k_tasks k ! i) + 1\<rparr> else k_tasks k ! j)"
  by (simp add: enter_task_def Let_def upd_nth)

lemma enter_sel [simp]: "k_cur (enter_task i k) = Some i" "k_next_id (enter_task i k) = k_next_id k" "k_ready (enter_task i k) = k_ready k"
  "length (k_tasks (enter_task i k)) = length (k_tasks k)"
  by (simp_all add: enter_task_def Let_def)

lemma inv_enter:
  assumes "ids_ok k" "k_ready k" "named k i" "\<And>j. j < TASK_MAX \<Longrightarrow> j \<noteq> i \<Longrightarrow> st k j \<noteq> TASK_RUNNING"
  shows "sched_inv (enter_task i k)"
proof -
  have l: "length (k_tasks k) = TASK_MAX" and i: "i < TASK_MAX" using assms(1,3) by (simp_all add: inv_len named_def)
  let ?f = "\<lambda>t. t\<lparr>t_state := TASK_RUNNING, t_runs := t_runs t + 1\<rparr>"
  have "ids_ok (upd_task i ?f k)" using assms(1,3) i by (intro ids_upd_state) simp_all
  moreover have "same_sched ((upd_task i ?f k)\<lparr>k_cur := Some i\<rparr>) (enter_task i k)" by (simp add: enter_task_def Let_def same_sched_def)
  moreover have "ids_ok (k'\<lparr>k_cur := x\<rparr>) = ids_ok k'" for k' :: "('a, 'b) kernel_scheme" and x by (simp add: ids_ok_def id_ok_def named_def)
  ultimately have "ids_ok (enter_task i k)" using same_props(3) [of "(upd_task i ?f k)\<lparr>k_cur := Some i\<rparr>" "enter_task i k"] l by simp
  then show ?thesis using assms(2,4) i l by (simp add: sched_inv_def alive_def enter_nth)
qed

lemma inv_switch:
  assumes "sched_inv k" "k_cur k = Some c" "st k c \<noteq> TASK_RUNNING" "i < TASK_MAX" "st k i = TASK_READY"
  shows "sched_inv (sched_switch_to (Some i) k)"
proof (cases "i = c")
  case False
  obtain c' where c': "k_cur k = Some c'" "\<And>j. j < TASK_MAX \<Longrightarrow> j \<noteq> c' \<Longrightarrow> st k j \<noteq> TASK_RUNNING" using assms(1) by (rule inv_curE) blast
  have o: "st k j \<noteq> TASK_RUNNING" if "j < TASK_MAX" for j using c' assms(2,3) that by (cases "j = c") auto
  define k1 where "k1 = (if dir_or_kernel (t_cr3 (k_tasks k ! i)) (k_paging k) \<noteq> dir_or_kernel (t_cr3 (k_tasks k ! c)) (k_paging k)
    then k\<lparr>k_paging := paging_load_cr3 (dir_or_kernel (t_cr3 (k_tasks k ! i)) (k_paging k)) (k_paging k)\<rparr> else k)"
  have t: "k_tasks k1 = k_tasks k" and s: "same_sched k k1" by (simp_all add: k1_def same_fields)
  have "sched_inv (enter_task i k1)"
  proof (rule inv_enter)
    show "ids_ok k1" "k_ready k1" using same_props(3,4) [OF s inv_len(2) [OF assms(1)]] assms(1) by (simp_all add: inv_len)
    show "named k1 i" using assms(4,5) by (simp add: named_def t)
    show "st k1 j \<noteq> TASK_RUNNING" if "j < TASK_MAX" "j \<noteq> i" for j using o that by (simp add: t)
  qed
  moreover have "same_sched (enter_task i k1) (sched_switch_to (Some i) k)"
    using False assms(2) by (simp add: sched_switch_to_def Let_def same_sched_def k1_def)
  ultimately show ?thesis using same_props(4) inv_len(2) by blast
qed (use assms(1,2) in \<open>simp add: sched_switch_to_def\<close>)

text \<open>A change of the states of some tasks from blocked to ready.\<close>

lemma inv_waking:
  assumes "sched_inv k" "length (k_tasks k') = TASK_MAX" "k_cur k' = k_cur k" "k_next_id k' = k_next_id k" "k_ready k' = k_ready k"
    "\<And>i. i < TASK_MAX \<Longrightarrow> pid_of k' i = pid_of k i \<and> parent_of k' i = parent_of k i \<and> (st k' i = st k i \<or> st k i = TASK_BLOCKED \<and> st k' i = TASK_READY)"
  shows "sched_inv k'"
proof -
  have u: "named k' i = named k i" "alive k i \<Longrightarrow> alive k' i" for i using assms(6) [of i] by (auto simp: named_def alive_def)
  have p: "pid_of k' i = pid_of k i" "parent_of k' i = parent_of k i" if "named k i" for i using assms(6) that by (simp_all add: named_def)
  have "ids_ok k'" using inv_len(3) [OF assms(1)] unfolding ids_ok_def id_ok_def u(1) assms(2,4) by (auto simp: p)
  moreover have "st k' i \<noteq> TASK_RUNNING" if "i < TASK_MAX" "st k i \<noteq> TASK_RUNNING" for i using assms(6) [OF that(1)] that(2) by auto
  ultimately show ?thesis using assms(1) u(2) unfolding sched_inv_def assms(3,5) by blast
qed

lemma inv_wake_sleepers: "sched_inv k \<Longrightarrow> sched_inv (sched_wake_sleepers now k)"
  by (rule inv_waking) (auto simp: inv_len sched_wake_sleepers_def wake_def wakes_def)

lemma inv_wake_net: "sched_inv k \<Longrightarrow> sched_inv (sched_wake_net k)"
  by (rule inv_waking) (auto simp: inv_len sched_wake_net_def wake_def waits_net_def Let_def)

lemma wake_sleepers_sel [simp]: "k_cur (sched_wake_sleepers now k) = k_cur k" "k_ready (sched_wake_sleepers now k) = k_ready k"
  by (simp_all add: sched_wake_sleepers_def)

lemma inv_set_cur:
  assumes "sched_inv k" "k_cur k = Some c" "\<And>t. t_id (f t) = t_id t \<and> t_parent (f t) = t_parent t" "t_state (f (k_tasks k ! c)) \<notin> {TASK_UNUSED, TASK_ZOMBIE}"
  shows "sched_inv (upd_task c f k)"
proof -
  obtain c' where "k_cur k = Some c'" "c' < TASK_MAX" "named k c'" "\<And>j. j < TASK_MAX \<Longrightarrow> j \<noteq> c' \<Longrightarrow> st k j \<noteq> TASK_RUNNING" using assms(1) by (rule inv_curE) blast
  then have c: "c < TASK_MAX" "named k c" "\<And>j. j < TASK_MAX \<Longrightarrow> j \<noteq> c \<Longrightarrow> st k j \<noteq> TASK_RUNNING" using assms(2) by auto
  have l: "length (k_tasks k) = TASK_MAX" using assms(1) by (rule inv_len)
  have i: "ids_ok (upd_task c f k)" by (rule ids_upd_state [OF inv_len(3) [OF assms(1)] c(1) assms(3)]) (use c(2) in simp)
  have "alive (upd_task c f k) c" using assms(4) c(1) l by (simp add: alive_def upd_nth)
  moreover have "st (upd_task c f k) j \<noteq> TASK_RUNNING" if "j < TASK_MAX" "j \<noteq> c" for j using c(3) that l by (simp add: upd_nth)
  ultimately show ?thesis using i assms(2) inv_len(4) [OF assms(1)] unfolding sched_inv_def upd_sel by blast
qed

lemma inv_yield: "sched_inv k \<Longrightarrow> sched_inv (sched_yield now k)"
proof -
  assume inv: "sched_inv k"
  then obtain c where c: "k_cur k = Some c" by (rule inv_curE) blast
  define k1 where "k1 = sched_wake_sleepers now k"
  define k2 where "k2 = (if st k1 c = TASK_RUNNING then upd_task c (\<lambda>t. t\<lparr>t_state := TASK_READY\<rparr>) k1 else k1)"
  have k1: "sched_inv k1" "k_cur k1 = Some c" using inv_wake_sleepers [OF inv] c by (simp_all add: k1_def)
  have l: "length (k_tasks k1) = TASK_MAX" using k1(1) by (rule inv_len)
  have cl: "c < TASK_MAX" using k1 by (auto elim: inv_curE)
  have k2: "sched_inv k2" "k_cur k2 = Some c" using inv_set_cur [OF k1] k1 by (simp_all add: k2_def)
  have r: "st k2 c \<noteq> TASK_RUNNING" using l cl by (simp add: k2_def upd_nth)
  have y: "sched_yield now k = (if sched_pick_next k2 = None \<or> sched_pick_next k2 = Some c
      then (if st k2 c = TASK_READY then upd_task c (\<lambda>t. t\<lparr>t_state := TASK_RUNNING\<rparr>) k2 else k2)\<lparr>k_need_resched := False\<rparr>
      else sched_switch_to (sched_pick_next k2) k2)"
    using c inv_len(4) [OF inv] unfolding sched_yield_def k2_def k1_def Let_def by (simp only: option.case not_True_eq_False if_False)
  show ?thesis
  proof (cases "sched_pick_next k2 = None \<or> sched_pick_next k2 = Some c")
    case True
    have "sched_inv (if st k2 c = TASK_READY then upd_task c (\<lambda>t. t\<lparr>t_state := TASK_RUNNING\<rparr>) k2 else k2)" (is "sched_inv ?k3")
      using inv_set_cur [OF k2] k2(1) by simp
    then show ?thesis using True y same_props(4) [OF same_fields(10) inv_len(2), of ?k3 False] by simp
  next
    case False
    then obtain i where i: "sched_pick_next k2 = Some i" by auto
    then show ?thesis using inv_switch [OF k2 r] pick_ready [OF i] False y by simp
  qed
qed

end
