(* ===== verification/KFair.thy ===== *)
theory KFair
  imports KSchedInv
begin

text \<open>
  Fairness of the scheduler of \<^verbatim>\<open>kernel/sched/task.cpp\<close>: whatever the tasks do, a task that is ready and not
  idle runs before the processor has been given away 31 times. The distance of the task in the ring
  from the running one is the measure.
\<close>

section \<open>Events\<close>

text \<open>A blocking call up to the point where the caller has given the processor away.\<close>

definition block_switch :: "task_wait_reason \<Rightarrow> u32 \<Rightarrow> u32 \<Rightarrow> ('n, 'z) kernel_scheme \<Rightarrow> ('n, 'z) kernel_scheme" where
  "block_switch reason deadline now k =
     (case block_start reason deadline now k of (b, k') \<Rightarrow> if b then block_turn now k' else k')"

datatype sched_event = Yield u32 | Block task_wait_reason u32 u32 | Resume | Tick u32 | Preempt u32 | WakeNet

fun sched_handle :: "sched_event \<Rightarrow> ('n, 'z) kernel_scheme \<Rightarrow> ('n, 'z) kernel_scheme" where
  "sched_handle (Yield now) k = sched_yield now k"
| "sched_handle (Block reason deadline now) k = block_switch reason deadline now k"
| "sched_handle Resume k = block_end k"
| "sched_handle (Tick now) k = sched_on_tick now k"
| "sched_handle (Preempt now) k = sched_maybe_preempt now k"
| "sched_handle WakeNet k = sched_wake_net k"

text \<open>The events that give the processor away: a call of yield, and a blocking call whose deadline is not
  over.\<close>

fun gives :: "sched_event \<Rightarrow> bool" where
  "gives (Yield _) = True"
| "gives (Block _ deadline now) = (deadline = 0 \<or> \<not> reached now deadline)"
| "gives _ = False"

section \<open>The ring\<close>

definition ring_dist :: "nat \<Rightarrow> nat \<Rightarrow> nat" where
  "ring_dist c j = (j + TASK_MAX - c) mod TASK_MAX"

lemma ring_dist_less: "ring_dist c j < TASK_MAX"
  by (simp add: ring_dist_def)

lemma ring_dist_pos: "c < TASK_MAX \<Longrightarrow> j < TASK_MAX \<Longrightarrow> c \<noteq> j \<Longrightarrow> 0 < ring_dist c j"
  by (auto simp: ring_dist_def mod_if)

lemma ring_dist_reach: "c < TASK_MAX \<Longrightarrow> j < TASK_MAX \<Longrightarrow> (c + ring_dist c j) mod TASK_MAX = j"
  by (auto simp: ring_dist_def mod_if)

lemma ring_dist_step:
  assumes "c < TASK_MAX" "j < TASK_MAX" "n < ring_dist c j"
  shows "ring_dist ((c + n) mod TASK_MAX) j = ring_dist c j - n"
proof -
  have d: "ring_dist c j = (if c \<le> j then j - c else j + TASK_MAX - c)" if "c < TASK_MAX" for c
    using assms(2) that by (auto simp: ring_dist_def mod_if)
  show ?thesis
  proof (cases "c + n < TASK_MAX")
    case True
    then show ?thesis using assms d [of c] d [of "c + n"] by (simp split: if_splits)
  next
    case False
    then have "(c + n) mod TASK_MAX = c + n - TASK_MAX" using assms ring_dist_less [of c j] by (simp add: mod_if)
    then show ?thesis using False assms ring_dist_less [of c j] d [of c] d [of "c + n - TASK_MAX"] by (simp split: if_splits)
  qed
qed

lemma find_upto:
  assumes "P (f m)" "a \<le> m" "m < b"
  obtains n where "a \<le> n" "n \<le> m" "P (f n)" "find P (map f [a..<b]) = Some (f n)"
proof -
  obtain x where x: "find P (map f [a..<b]) = Some x" using assms by (cases "find P (map f [a..<b])") (auto simp: find_None_iff)
  then obtain i where i: "i < b - a" "P (f (a + i))" "x = f (a + i)" "\<forall>l<i. \<not> P (f (a + l))" by (auto simp: find_Some_iff)
  have "i \<le> m - a" using i(4) assms by (metis le_add_diff_inverse not_less)
  then show thesis using that [of "a + i"] i x assms(2) by auto
qed

text \<open>The search finds a task not behind the one that waits.\<close>

lemma pick_before:
  assumes "k_cur k = Some c" "c < TASK_MAX" "j < TASK_MAX" "c \<noteq> j" "st k j = TASK_READY" "\<not> idle k j"
  obtains n where "0 < n" "n \<le> ring_dist c j" "sched_pick_next k = Some ((c + n) mod TASK_MAX)"
proof -
  define P where "P = (\<lambda>i. st k i = TASK_READY \<and> \<not> idle k i)"
  have "P ((c + ring_dist c j) mod TASK_MAX)" using assms unfolding ring_dist_reach [OF assms(2,3)] by (simp add: P_def)
  then obtain n where n: "1 \<le> n" "n \<le> ring_dist c j" "find P (ring_order c) = Some ((c + n) mod TASK_MAX)"
    using ring_dist_pos [OF assms(2-4)] ring_dist_less [of c j] unfolding ring_order_def
    by (elim find_upto [of P "\<lambda>n. (c + n) mod TASK_MAX" "ring_dist c j" 1 "TASK_MAX + 1"]) auto
  then have "sched_pick_next k = Some ((c + n) mod TASK_MAX)" using assms(1) unfolding sched_pick_next_def P_def by simp
  then show thesis using that [of n] n by simp
qed

section \<open>One event\<close>

definition waits_at :: "nat \<Rightarrow> nat \<Rightarrow> ('n, 'z) kernel_scheme \<Rightarrow> bool" where
  "waits_at d j k \<longleftrightarrow> sched_inv k \<and> st k j = TASK_READY \<and> \<not> idle k j \<and> (\<exists>c. k_cur k = Some c \<and> c \<noteq> j \<and> ring_dist c j \<le> d)"

lemma waits_mono: "waits_at d j k \<Longrightarrow> d \<le> d' \<Longrightarrow> waits_at d' j k"
  by (auto simp: waits_at_def)

lemma waits_kept: "waits_at d j k \<Longrightarrow> sched_inv k' \<Longrightarrow> k_cur k' = k_cur k \<Longrightarrow> st k' j = TASK_READY \<Longrightarrow> idle k' j = idle k j \<Longrightarrow> waits_at d j k'"
  by (simp add: waits_at_def)

lemma waits_cur:
  assumes "waits_at d j k"
  obtains c where "k_cur k = Some c" "c < TASK_MAX" "alive k c" "c \<noteq> j" "ring_dist c j \<le> d" "length (k_tasks k) = TASK_MAX" "sched_inv k"
  using assms by (auto simp: waits_at_def inv_len elim: inv_curE)

lemma switch_nth:
  assumes "length (k_tasks k) = TASK_MAX" "j < TASK_MAX" "k_cur k = Some c" "i \<noteq> c" "j \<noteq> i"
  shows "k_tasks (sched_switch_to (Some i) k) ! j = k_tasks k ! j"
  using assms by (auto simp: sched_switch_to_def Let_def enter_nth)

lemma switch_cur: "k_cur k = Some c \<Longrightarrow> i \<noteq> c \<Longrightarrow> k_cur (sched_switch_to (Some i) k) = Some i"
  by (simp add: sched_switch_to_def Let_def)

text \<open>Giving the processor away brings it to the waiting task or nearer to it.\<close>

lemma switch_closer:
  assumes w: "waits_at d j k" and j: "j < TASK_MAX" and c: "k_cur k = Some c" "st k c \<noteq> TASK_RUNNING"
  shows "\<exists>i. sched_pick_next k = Some i \<and> i \<noteq> c \<and> (k_cur (sched_switch_to (Some i) k) = Some j \<or> waits_at (d - 1) j (sched_switch_to (Some i) k))"
proof -
  obtain c' where c': "k_cur k = Some c'" "c' < TASK_MAX" "c' \<noteq> j" "ring_dist c' j \<le> d" "length (k_tasks k) = TASK_MAX" "sched_inv k"
    using w by (rule waits_cur)
  have r: "st k j = TASK_READY" "\<not> idle k j" using w by (simp_all add: waits_at_def)
  have cc: "c' = c" using c' c by simp
  obtain n where n: "0 < n" "n \<le> ring_dist c j" "sched_pick_next k = Some ((c + n) mod TASK_MAX)"
    using pick_before [OF c(1) _ j _ r] c' cc by blast
  define i where "i = (c + n) mod TASK_MAX"
  have i: "i \<noteq> c" "i < TASK_MAX" using n ring_dist_less [of c j] c' cc by (auto simp: i_def mod_if)
  show ?thesis
  proof (cases "i = j")
    case True
    then show ?thesis using n i c switch_cur by (auto simp: i_def)
  next
    case False
    then have "n < ring_dist c j" using n ring_dist_reach [of c j] c' cc j by (cases "n = ring_dist c j") (auto simp: i_def)
    then have "ring_dist i j = ring_dist c j - n" using ring_dist_step c' cc j by (simp add: i_def)
    moreover have "sched_inv (sched_switch_to (Some i) k)" using inv_switch [OF c'(6) c(1,2)] pick_ready [OF n(3)] by (simp add: i_def)
    ultimately have "waits_at (d - 1) j (sched_switch_to (Some i) k)"
      using switch_nth [OF c'(5) j c(1) i(1)] switch_cur [OF c(1) i(1)] False r n c' cc by (auto simp: waits_at_def)
    then show ?thesis using n i by (auto simp: i_def)
  qed
qed

text \<open>The events other than a switch leave the running and the waiting task as they are.\<close>

lemma waits_wake_sleepers:
  assumes "waits_at d j k" "j < TASK_MAX"
  shows "waits_at d j (sched_wake_sleepers now k)"
proof -
  have i: "sched_inv k" "st k j = TASK_READY" using assms(1) by (simp_all add: waits_at_def)
  then have "k_tasks (sched_wake_sleepers now k) ! j = k_tasks k ! j" using assms(2) by (simp add: inv_len sched_wake_sleepers_def wakes_def)
  then show ?thesis using waits_kept [OF assms(1) inv_wake_sleepers [OF i(1)]] i(2) by simp
qed

lemma waits_wake_net:
  assumes "waits_at d j k" "j < TASK_MAX"
  shows "waits_at d j (sched_wake_net k)"
proof -
  have i: "sched_inv k" "st k j = TASK_READY" using assms(1) by (simp_all add: waits_at_def)
  then have "k_tasks (sched_wake_net k) ! j = k_tasks k ! j" "k_cur (sched_wake_net k) = k_cur k"
    using assms(2) by (simp_all add: inv_len sched_wake_net_def waits_net_def Let_def)
  then show ?thesis using waits_kept [OF assms(1) inv_wake_net [OF i(1)]] i(2) by simp
qed

lemma waits_upd:
  assumes "waits_at d j k" "j < TASK_MAX" "k_cur k = Some c" "\<And>t. t_id (f t) = t_id t \<and> t_parent (f t) = t_parent t" "t_state (f (k_tasks k ! c)) \<notin> {TASK_UNUSED, TASK_ZOMBIE}"
  shows "waits_at d j (upd_task c f k)"
proof -
  obtain c' where c: "k_cur k = Some c'" "c' \<noteq> j" "length (k_tasks k) = TASK_MAX" "sched_inv k" using assms(1) by (rule waits_cur)
  then have "k_tasks (upd_task c f k) ! j = k_tasks k ! j" using assms(2,3) by (auto simp: upd_nth)
  then show ?thesis using waits_kept [OF assms(1) inv_set_cur [OF c(4) assms(3-5)]] assms(1) by (simp add: waits_at_def)
qed

lemma waits_same: "same_sched k k' \<Longrightarrow> waits_at d j k \<Longrightarrow> j < TASK_MAX \<Longrightarrow> waits_at d j k'"
  using same_props(4) [of k k'] same_nth [of k k' j] by (auto simp: waits_at_def inv_len same_sched_def)

lemma waits_tick:
  assumes "waits_at d j k" "j < TASK_MAX"
  shows "waits_at d j (sched_on_tick now k)"
proof -
  obtain c where c: "k_cur k = Some c" "sched_inv k" using assms(1) by (rule waits_cur)
  define k1 where "k1 = (if st k c = TASK_RUNNING then upd_task c (\<lambda>t. t\<lparr>t_cpu_ticks := t_cpu_ticks t + 1\<rparr>) k else k)"
  have "same_sched k k1" unfolding k1_def by (auto intro!: same_upd simp: pub_def)
  then have w: "waits_at d j (sched_wake_sleepers now k1)" using assms waits_same waits_wake_sleepers by blast
  have "same_sched (sched_wake_sleepers now k1) (sched_on_tick now k)"
    using c inv_len(4) [OF c(2)] by (simp add: sched_on_tick_def Let_def k1_def same_sched_def)
  then show ?thesis using w assms(2) waits_same by blast
qed

lemma waits_resume:
  assumes "waits_at d j k" "j < TASK_MAX"
  shows "waits_at d j (block_end k)"
proof -
  obtain c where c: "k_cur k = Some c" "alive k c" using assms(1) by (rule waits_cur)
  let ?f = "\<lambda>t. t\<lparr>t_state := (if t_state t = TASK_READY then TASK_RUNNING else t_state t), t_wait := WAIT_NONE\<rparr>"
  have "waits_at d j (upd_task c ?f k)" using c(2) by (intro waits_upd [OF assms c(1)]) (auto simp: alive_def)
  moreover have "same_sched (upd_task c ?f k) (block_end k)" using c by (simp add: block_end_def same_sched_def)
  ultimately show ?thesis using waits_same assms(2) by blast
qed

lemma yield_closer:
  assumes "waits_at d j k" "j < TASK_MAX"
  shows "k_cur (sched_yield now k) = Some j \<or> waits_at (d - 1) j (sched_yield now k)"
proof -
  obtain c where c: "k_cur k = Some c" "c < TASK_MAX" "length (k_tasks k) = TASK_MAX" "sched_inv k" using assms(1) by (rule waits_cur)
  define k1 where "k1 = sched_wake_sleepers now k"
  define k2 where "k2 = (if st k1 c = TASK_RUNNING then upd_task c (\<lambda>t. t\<lparr>t_state := TASK_READY\<rparr>) k1 else k1)"
  have w1: "waits_at d j k1" "k_cur k1 = Some c" using waits_wake_sleepers [OF assms] c by (simp_all add: k1_def)
  have w2: "waits_at d j k2" "k_cur k2 = Some c" using waits_upd [OF w1(1) assms(2) w1(2)] w1 by (simp_all add: k2_def)
  have "length (k_tasks k1) = TASK_MAX" using c by (simp add: k1_def sched_wake_sleepers_def)
  then have r: "st k2 c \<noteq> TASK_RUNNING" using c(2) by (simp add: k2_def upd_nth)
  obtain i where i: "sched_pick_next k2 = Some i" "i \<noteq> c" "k_cur (sched_switch_to (Some i) k2) = Some j \<or> waits_at (d - 1) j (sched_switch_to (Some i) k2)"
    using switch_closer [OF w2(1) assms(2) w2(2) r] by blast
  then have "sched_yield now k = sched_switch_to (Some i) k2"
    using c(1) inv_len(4) [OF c(4)] unfolding sched_yield_def Let_def k1_def [symmetric] k2_def [symmetric] by (simp add: k2_def [symmetric] k1_def [symmetric])
  then show ?thesis using i(3) by simp
qed

lemma block_closer:
  assumes "waits_at d j k" "j < TASK_MAX" "deadline = 0 \<or> \<not> reached now deadline"
  shows "k_cur (block_switch reason deadline now k) = Some j \<or> waits_at (d - 1) j (block_switch reason deadline now k)"
proof -
  obtain c where c: "k_cur k = Some c" "c < TASK_MAX" "length (k_tasks k) = TASK_MAX" "sched_inv k" using assms(1) by (rule waits_cur)
  define k1 where "k1 = upd_task c (\<lambda>t. t\<lparr>t_wait := (if reason = WAIT_NONE then WAIT_SLEEP else reason), t_wake_ms := (if deadline \<noteq> 0 then deadline else 1), t_state := TASK_BLOCKED\<rparr>) k"
  have w: "waits_at d j k1" unfolding k1_def by (rule waits_upd [OF assms(1,2) c(1)]) simp_all
  have k1: "k_cur k1 = Some c" "st k1 c \<noteq> TASK_RUNNING" using c by (simp_all add: k1_def upd_nth)
  obtain i where i: "sched_pick_next k1 = Some i" "k_cur (sched_switch_to (Some i) k1) = Some j \<or> waits_at (d - 1) j (sched_switch_to (Some i) k1)"
    using switch_closer [OF w assms(2) k1] by blast
  have "block_start reason deadline now k = (True, k1)" using c(1) inv_len(4) [OF c(4)] assms(3) by (auto simp: block_start_def k1_def)
  then show ?thesis using i by (simp add: block_switch_def block_turn_def)
qed

lemma block_refused:
  assumes "waits_at d j k" "\<not> (deadline = 0 \<or> \<not> reached now deadline)"
  shows "block_switch reason deadline now k = k"
  using assms by (auto simp: block_switch_def block_start_def elim!: waits_cur)

lemma preempt_closer:
  assumes "waits_at d j k" "j < TASK_MAX"
  shows "k_cur (sched_maybe_preempt now k) = Some j \<or> waits_at d j (sched_maybe_preempt now k)"
  using yield_closer [OF assms, of now] assms(1) waits_mono [of "d - 1" j _ d] by (auto simp: sched_maybe_preempt_def split: option.split)

lemma event_closer:
  assumes "waits_at d j k" "j < TASK_MAX"
  shows "k_cur (sched_handle e k) = Some j \<or> waits_at (if gives e then d - 1 else d) j (sched_handle e k)"
proof (cases e)
  case (Block reason deadline now)
  then show ?thesis using block_closer [OF assms, of deadline now reason] block_refused [OF assms(1), of deadline now reason] assms(1)
    by (cases "deadline = 0 \<or> \<not> reached now deadline") auto
qed (use yield_closer [OF assms] preempt_closer [OF assms] waits_tick [OF assms] waits_resume [OF assms] waits_wake_net [OF assms] in simp_all)

section \<open>Runs\<close>

lemma run_closer:
  assumes "waits_at d j k" "j < TASK_MAX"
  shows "(\<exists>n \<le> length es. k_cur (fold sched_handle (take n es) k) = Some j) \<or> waits_at (d - length (filter gives es)) j (fold sched_handle es k)"
  using assms
proof (induction es arbitrary: d k)
  case (Cons e es)
  let ?d = "if gives e then d - 1 else d"
  have "waits_at d j k" by fact
  show ?case
  proof (cases "k_cur (sched_handle e k) = Some j")
    case True
    then have "k_cur (fold sched_handle (take 1 (e # es)) k) = Some j" by simp
    then show ?thesis by (intro disjI1 exI [of _ 1]) simp
  next
    case False
    then have "waits_at ?d j (sched_handle e k)" using event_closer [OF Cons.prems, of e] by blast
    then consider n where "n \<le> length es" "k_cur (fold sched_handle (take n es) (sched_handle e k)) = Some j"
      | "waits_at (?d - length (filter gives es)) j (fold sched_handle es (sched_handle e k))"
      using Cons.IH [OF _ Cons.prems(2)] by blast
    then show ?thesis
    proof cases
      case (1 n)
      then show ?thesis by (intro disjI1 exI [of _ "Suc n"]) simp
    next
      case 2
      then show ?thesis by (intro disjI2) (auto elim: waits_mono)
    qed
  qed
qed simp


end
