(* ===== verification/KKill.thy ===== *)
theory KKill
  imports KSchedInv
begin

text \<open>
  Killing tasks in \<^verbatim>\<open>kernel/sched/task.cpp\<close>: the recursion through the children of a task returns, because
  identities grow from parent to child, and ends exactly the descendants that live.
\<close>

section \<open>Descendants\<close>

inductive descendant :: "('n, 'z) kernel_scheme \<Rightarrow> int \<Rightarrow> nat \<Rightarrow> bool" for k pid where
  child: "alive k i \<Longrightarrow> parent_of k i = pid \<Longrightarrow> descendant k pid i"
| below: "descendant k pid m \<Longrightarrow> alive k i \<Longrightarrow> parent_of k i = pid_of k m \<Longrightarrow> descendant k pid i"

inductive_cases descendantE: "descendant k pid i"

lemma descendant_alive: "descendant k pid i \<Longrightarrow> alive k i"
  by (erule descendantE)

lemma alive_named: "alive k i \<Longrightarrow> named k i"
  by (simp add: alive_def named_def)

lemma alive_ids:
  assumes "ids_ok k" "alive k i"
  shows "parent_of k i < pid_of k i" "pid_of k i < k_next_id k" "i < TASK_MAX"
  using assms alive_named [OF assms(2)] by (simp_all add: ids_ok_def id_ok_def alive_def)

lemma alive_unique: "ids_ok k \<Longrightarrow> alive k i \<Longrightarrow> alive k j \<Longrightarrow> pid_of k i = pid_of k j \<Longrightarrow> i = j"
  by (simp add: ids_ok_def alive_named)

lemma descendant_above:
  assumes "ids_ok k" "descendant k pid i"
  shows "pid \<le> parent_of k i"
  using assms(2)
proof induction
  case (below m i)
  then show ?case using alive_ids(1) [OF assms(1) descendant_alive [OF below.hyps(1)]] by simp
qed simp

text \<open>The descendants through the children from a place of the table on.\<close>

definition from_child :: "('n, 'z) kernel_scheme \<Rightarrow> int \<Rightarrow> nat \<Rightarrow> nat set" where
  "from_child k pid i = {j. \<exists>m \<ge> i. alive k m \<and> parent_of k m = pid \<and> (j = m \<or> descendant k (pid_of k m) j)}"

lemma from_child_all: "from_child k pid 0 = {j. descendant k pid j}"
proof -
  have "\<exists>m. alive k m \<and> parent_of k m = pid \<and> (j = m \<or> descendant k (pid_of k m) j)" if "descendant k pid j" for j
    using that by induction (blast intro: descendant.intros)+
  moreover have "descendant k pid j" if m: "alive k m" "parent_of k m = pid" and "descendant k (pid_of k m) j" for j m
    using that(3) by induction (blast intro: descendant.intros m)+
  ultimately show ?thesis unfolding from_child_def by (auto intro: descendant.child)
qed

lemma from_child_split:
  "from_child k pid i = (if alive k i \<and> parent_of k i = pid then insert i {j. descendant k (pid_of k i) j} else {}) \<union> from_child k pid (i + 1)"
proof -
  have "i \<le> m \<longleftrightarrow> m = i \<or> i + 1 \<le> m" for m by auto
  then show ?thesis unfolding from_child_def by auto
qed

lemma from_child_end: "TASK_MAX \<le> i \<Longrightarrow> from_child k pid i = {}"
  by (auto simp: from_child_def alive_def)

text \<open>The descendants of two children have nothing in common.\<close>

lemma descendants_disjoint:
  assumes k: "ids_ok k" and i: "alive k i" "parent_of k i = pid" and m: "alive k m" "parent_of k m = pid" "m \<noteq> i"
    and j: "descendant k (pid_of k m) j"
  shows "j \<noteq> i \<and> \<not> descendant k (pid_of k i) j"
  using j
proof induction
  case (child j)
  have "\<not> descendant k (pid_of k i) j"
  proof
    assume "descendant k (pid_of k i) j"
    then consider "parent_of k j = pid_of k i" | x where "descendant k (pid_of k i) x" "parent_of k j = pid_of k x" by (blast elim: descendantE)
    then show False
    proof cases
      case 1
      then show False using alive_unique [OF k i(1) m(1)] child m(3) by simp
    next
      case (2 x)
      then have "x = m" using alive_unique [OF k descendant_alive m(1)] child by simp
      then show False using descendant_above [OF k 2(1)] alive_ids(1) [OF k i(1)] i(2) m(2) by simp
    qed
  qed
  then show ?case using child alive_ids(1) [OF k m(1)] m(2) i(2) by auto
next
  case (below x j)
  have "pid < pid_of k x"
    using descendant_above [OF k below.hyps(1)] alive_ids(1) [OF k m(1)] alive_ids(1) [OF k descendant_alive [OF below.hyps(1)]] m(2) by simp
  then have "j \<noteq> i" using below.hyps(3) i(2) by auto
  moreover have "\<not> descendant k (pid_of k i) j"
  proof
    assume "descendant k (pid_of k i) j"
    then consider "parent_of k j = pid_of k i" | y where "descendant k (pid_of k i) y" "parent_of k j = pid_of k y" by (blast elim: descendantE)
    then show False
    proof cases
      case 1
      then show False using alive_unique [OF k i(1) descendant_alive [OF below.hyps(1)]] below by simp
    next
      case (2 y)
      have "pid_of k y = pid_of k x" using 2(2) below.hyps(3) by (rule trans [OF sym])
      then have "y = x" by (rule alive_unique [OF k descendant_alive [OF 2(1)] descendant_alive [OF below.hyps(1)]])
      then show False using 2(1) below.IH by blast
    qed
  qed
  ultimately show ?case by simp
qed

section \<open>What killing changes\<close>

definition kills :: "nat set \<Rightarrow> ('n, 'z) kernel_scheme \<Rightarrow> ('n, 'z) kernel_scheme \<Rightarrow> bool" where
  "kills S k k' \<longleftrightarrow> k_cur k' = k_cur k \<and> k_next_id k' = k_next_id k \<and> k_ready k' = k_ready k \<and> length (k_tasks k') = length (k_tasks k) \<and>
     (\<forall>j < TASK_MAX. pid_of k' j = pid_of k j \<and> parent_of k' j = parent_of k j \<and> idle k' j = idle k j \<and>
        st k' j = (if j \<in> S \<and> k_cur k \<noteq> Some j then TASK_ZOMBIE else st k j))"

lemma kills_sel: "kills S k k' \<Longrightarrow> j < TASK_MAX \<Longrightarrow> st k' j = (if j \<in> S \<and> k_cur k \<noteq> Some j then TASK_ZOMBIE else st k j)"
  by (simp add: kills_def)

lemma kills_none: "kills {} k k"
  by (simp add: kills_def)

lemma kills_trans: "kills S k k1 \<Longrightarrow> kills T k1 k2 \<Longrightarrow> kills (S \<union> T) k k2"
  by (auto simp: kills_def)

lemma kills_one:
  assumes "length (k_tasks k) = TASK_MAX"
  shows "kills {i} k (if k_cur k = Some i then k else upd_task i bury (task_resources_cleanup poll pid k))"
proof -
  define k1 where "k1 = task_resources_cleanup poll pid k"
  have s: "same_sched k k1" unfolding k1_def by (rule same_cleanup)
  have l: "length (k_tasks k1) = TASK_MAX" using same_len [OF s] assms by simp
  show ?thesis using s same_nth [OF s] l assms unfolding k1_def [symmetric] by (auto simp: kills_def upd_nth bury_def same_sched_def)
qed

lemma kills_named: "kills S k k' \<Longrightarrow> \<forall>j \<in> S. alive k j \<Longrightarrow> named k' i = named k i"
  by (cases "i < TASK_MAX") (auto simp: kills_sel named_def alive_def split: if_splits)

lemma kills_ids:
  assumes "kills S k k'" "\<forall>j \<in> S. alive k j" "ids_ok k"
  shows "ids_ok k'"
proof -
  have "id_ok k' i = id_ok k i" "pid_of k' i = pid_of k i" if "named k i" for i
    using assms(1) that by (auto simp: kills_def id_ok_def named_def)
  moreover have "length (k_tasks k') = length (k_tasks k)" "k_next_id k' = k_next_id k" using assms(1) by (simp_all add: kills_def)
  ultimately show ?thesis using assms(3) unfolding ids_ok_def kills_named [OF assms(1,2)] by metis
qed

lemma kills_alive: "kills S k k' \<Longrightarrow> alive k' i \<longleftrightarrow> alive k i \<and> (i \<notin> S \<or> k_cur k = Some i)"
  by (cases "i < TASK_MAX") (auto simp: kills_sel alive_def split: if_splits)

lemma kills_fields: "kills S k k' \<Longrightarrow> alive k i \<Longrightarrow> pid_of k' i = pid_of k i \<and> parent_of k' i = parent_of k i"
  by (simp add: kills_def alive_def)

lemma kills_descendant:
  assumes "kills S k k'" "\<And>j. descendant k pid j \<Longrightarrow> j \<notin> S"
  shows "descendant k' pid j \<longleftrightarrow> descendant k pid j"
proof
  show "descendant k pid j" if "descendant k' pid j"
    using that
  proof induction
    case (child i)
    then have "alive k i" using kills_alive [OF assms(1)] by simp
    then show ?case using child kills_fields [OF assms(1)] by (simp add: descendant.child)
  next
    case (below m i)
    then have "alive k i" "alive k m" using kills_alive [OF assms(1)] descendant_alive by blast+
    then show ?case using below descendant.below [OF below.IH] kills_fields [OF assms(1)] by simp
  qed
  show "descendant k' pid j" if "descendant k pid j"
    using that
  proof induction
    case (child i)
    then show ?case using assms(2) [of i] kills_alive [OF assms(1)] kills_fields [OF assms(1)] by (auto intro: descendant.intros)
  next
    case (below m i)
    have "alive k' i" using below assms(2) [OF descendant.below [OF below.hyps]] kills_alive [OF assms(1)] by simp
    then show ?case using descendant.below [OF below.IH] below.hyps kills_fields [OF assms(1)] descendant_alive [OF below.hyps(1)] by simp
  qed
qed

text \<open>After one child is dealt with, the others and their descendants are as before.\<close>

lemma kills_rest:
  assumes k: "ids_ok k" and i: "alive k i" "parent_of k i = pid" and s: "kills (insert i {j. descendant k (pid_of k i) j}) k k'"
  shows "from_child k' pid (i + 1) = from_child k pid (i + 1)"
proof -
  have d: "descendant k' (pid_of k m) j \<longleftrightarrow> descendant k (pid_of k m) j" if "alive k m" "parent_of k m = pid" "m \<noteq> i" for m j
    by (rule kills_descendant [OF s]) (use descendants_disjoint [OF k i that] in auto)
  have a: "alive k' m \<longleftrightarrow> alive k m" if "alive k m \<longrightarrow> parent_of k m = pid" "m \<noteq> i" for m
  proof -
    have "\<not> descendant k (pid_of k i) m" if "parent_of k m = pid" using descendant_above [OF k, of "pid_of k i" m] alive_ids(1) [OF k i(1)] i(2) that by auto
    then show ?thesis using kills_alive [OF s, of m] that by auto
  qed
  have f: "pid_of k' m = pid_of k m" "parent_of k' m = parent_of k m" if "alive k m" for m using kills_fields [OF s that] by simp_all
  have "alive k' m \<and> parent_of k' m = pid \<longleftrightarrow> alive k m \<and> parent_of k m = pid" if "m \<noteq> i" for m
    using a [of m] f [of m] that kills_alive [OF s, of m] by auto
  note c = this
  have e: "alive k' m \<and> parent_of k' m = pid \<and> (j = m \<or> descendant k' (pid_of k' m) j) \<longleftrightarrow>
      alive k m \<and> parent_of k m = pid \<and> (j = m \<or> descendant k (pid_of k m) j)" if "m \<noteq> i" for m j
    using d [of m j] f [of m] c [OF that] that by metis
  show ?thesis unfolding from_child_def by (rule Collect_cong, rule ex_cong1, rule conj_cong [OF HOL.refl]) (rule e, simp)
qed

section \<open>The recursion\<close>

lemma live_child_iff: "i < TASK_MAX \<Longrightarrow> live_child pid (k_tasks k ! i) \<longleftrightarrow> alive k i \<and> parent_of k i = pid"
  by (auto simp: live_child_def alive_def)

lemma from_child_alive: "j \<in> from_child k pid i \<Longrightarrow> alive k j"
  by (auto simp: from_child_def dest: descendant_alive)

text \<open>One place of the table.\<close>

lemma kill_turn:
  assumes k: "ids_ok k" and i: "alive k i" "parent_of k i = pid"
    and rec: "kill_loop poll (pid_of k i) 0 k = Some k1" "kills (from_child k (pid_of k i) 0) k k1"
  shows "\<exists>k2. kill_loop poll pid i k = kill_loop poll pid (i + 1) k2 \<and> kills (insert i {j. descendant k (pid_of k i) j}) k k2 \<and> ids_ok k2 \<and> k_next_id k2 = k_next_id k"
proof -
  define k2 where "k2 = (if k_cur k1 = Some i then k1 else upd_task i bury (task_resources_cleanup poll (t_id (k_tasks k1 ! i)) k1))"
  have t: "i < TASK_MAX" using i by (simp add: alive_def)
  have "length (k_tasks k1) = TASK_MAX" using rec(2) inv_len(1) [OF k] by (simp add: kills_def)
  then have "kills {i} k1 k2" unfolding k2_def by (rule kills_one)
  then have s: "kills (insert i {j. descendant k (pid_of k i) j}) k k2" using kills_trans [OF rec(2), of "{i}" k2] by (simp add: from_child_all)
  moreover have "kill_loop poll pid i k = kill_loop poll pid (i + 1) k2"
    using t i rec(1) live_child_iff [OF t, of pid k] by (subst kill_loop.simps) (simp add: k2_def)
  moreover have "ids_ok k2" using kills_ids [OF s _ k] i(1) by (auto dest: descendant_alive)
  ultimately show ?thesis using s by (auto simp: kills_def)
qed

lemma kill_skip: "i < TASK_MAX \<Longrightarrow> \<not> (alive k i \<and> parent_of k i = pid) \<Longrightarrow> kill_loop poll pid i k = kill_loop poll pid (i + 1) k"
  by (subst kill_loop.simps) (simp add: live_child_iff)

lemma kill_loop_spec:
  assumes "ids_ok k" "n = nat (k_next_id k - pid)"
  shows "\<exists>k'. kill_loop poll pid i k = Some k' \<and> kills (from_child k pid i) k k'"
  using assms
proof (induction n arbitrary: pid i k rule: less_induct)
  case (less n)
  show ?case using less.prems
  proof (induction "TASK_MAX - i" arbitrary: i k)
    case 0
    then show ?case by (subst kill_loop.simps) (simp add: from_child_end kills_none)
  next
    case (Suc l)
    then have i: "i < TASK_MAX" "l = TASK_MAX - (i + 1)" by simp_all
    show ?case
    proof (cases "alive k i \<and> parent_of k i = pid")
      case False
      then show ?thesis using kill_skip [OF i(1) False, of poll] Suc.hyps(1) [OF i(2) Suc.prems] from_child_split [of k pid i] by auto
    next
      case True
      then have "nat (k_next_id k - pid_of k i) < n" using alive_ids [OF Suc.prems(1), of i] Suc.prems(2) by simp
      then obtain k1 where "kill_loop poll (pid_of k i) 0 k = Some k1" "kills (from_child k (pid_of k i) 0) k k1"
        using less.IH [OF _ Suc.prems(1)] by blast
      then obtain k2 where k2: "kill_loop poll pid i k = kill_loop poll pid (i + 1) k2" "kills (insert i {j. descendant k (pid_of k i) j}) k k2"
          "ids_ok k2" "k_next_id k2 = k_next_id k"
        using kill_turn [OF Suc.prems(1)] True by blast
      then obtain k3 where "kill_loop poll pid (i + 1) k2 = Some k3" "kills (from_child k2 pid (i + 1)) k2 k3"
        using Suc.hyps(1) [OF i(2) k2(3)] Suc.prems(2) by auto
      then show ?thesis using k2 True kills_trans [OF k2(2)] kills_rest [OF Suc.prems(1) _ _ k2(2)] from_child_split [of k pid i] by auto
    qed
  qed
qed

lemma kill_children_spec:
  assumes "ids_ok k"
  shows "\<exists>k'. task_kill_children poll pid k = Some k' \<and> kills {j. descendant k pid j} k k'"
  using kill_loop_spec [OF assms HOL.refl, of poll pid 0] by (simp add: task_kill_children_def from_child_all)

section \<open>The end of a task\<close>

lemma kills_inv:
  assumes "kills S k k'" "\<forall>j \<in> S. alive k j" "sched_inv k"
  shows "sched_inv k'"
proof -
  obtain c where c: "k_cur k = Some c" "alive k c" "\<And>i. i < TASK_MAX \<Longrightarrow> i \<noteq> c \<Longrightarrow> st k i \<noteq> TASK_RUNNING" using assms(3) by (rule inv_curE) blast
  have "st k' i \<noteq> TASK_RUNNING" if "i < TASK_MAX" "i \<noteq> c" for i using kills_sel [OF assms(1) that(1)] c(3) [OF that] by simp
  moreover have "alive k' c" using kills_alive [OF assms(1)] c by simp
  moreover have "ids_ok k'" using kills_ids [OF assms(1,2)] inv_len(3) [OF assms(3)] by simp
  moreover have "k_cur k' = Some c" "k_ready k'" using assms(1) c inv_len(4) [OF assms(3)] by (simp_all add: kills_def)
  ultimately show ?thesis by (auto simp: sched_inv_def)
qed

lemma find_by_idD:
  assumes "task_find_by_id pid k = Some i" "length (k_tasks k) = TASK_MAX"
  shows "i < TASK_MAX" "st k i \<noteq> TASK_UNUSED" "pid_of k i = pid"
  using assms find_slot_SomeD(1,2) [of _ "k_tasks k" i] by (auto simp: task_find_by_id_def find_task_def split: if_splits)

lemma kill_other:
  assumes "sched_inv k" "task_find_by_id pid k = Some i" "pid \<noteq> 0" "\<not> idle k i" "st k i \<noteq> TASK_ZOMBIE" "k_cur k \<noteq> Some i"
  shows "\<exists>k'. task_kill poll pid k = Some (0, k') \<and> kills (insert i {j. descendant k pid j}) k k'"
proof -
  have k: "ids_ok k" "length (k_tasks k) = TASK_MAX" "k_ready k" using assms(1) by (simp_all add: inv_len)
  have i: "i < TASK_MAX" "st k i \<noteq> TASK_UNUSED" "pid_of k i = pid" using find_by_idD [OF assms(2) k(2)] by simp_all
  obtain k1 where k1: "task_kill_children poll pid k = Some k1" "kills {j. descendant k pid j} k k1" using kill_children_spec [OF k(1)] by blast
  have c: "k_cur k1 = k_cur k" "length (k_tasks k1) = TASK_MAX" using k1(2) k(2) by (simp_all add: kills_def)
  have r: "k_cur (task_resources_cleanup poll pid k1) = k_cur k1" using same_cleanup [of k1 poll pid] by (simp add: same_sched_def)
  have "kills {i} k1 (upd_task i bury (task_resources_cleanup poll pid k1))" using kills_one [OF c(2), of i poll pid] assms(6) c(1) by simp
  then have "kills ({j. descendant k pid j} \<union> {i}) k (upd_task i bury (task_resources_cleanup poll pid k1))" by (rule kills_trans [OF k1(2)])
  moreover have "task_kill poll pid k = Some (0, upd_task i bury (task_resources_cleanup poll pid k1))"
    using assms k k1(1) i c r by (simp add: task_kill_def Let_def)
  ultimately show ?thesis by simp
qed


lemma inv_exit:
  assumes "sched_inv k"
  shows "sched_inv (task_exit poll k)"
proof -
  obtain c where c: "k_cur k = Some c" "c < TASK_MAX" "named k c" "\<And>i. i < TASK_MAX \<Longrightarrow> i \<noteq> c \<Longrightarrow> st k i \<noteq> TASK_RUNNING" using assms by (rule inv_curE) blast
  define k1 where "k1 = (if pid_of k c \<noteq> 0 then task_resources_cleanup poll (pid_of k c) k else k)"
  define k2 where "k2 = upd_task c bury k1"
  define n where "n = (case sched_pick_next k2 of Some i \<Rightarrow> i | None \<Rightarrow> 0)"
  define k3 where "k3 = (if sched_pick_next k2 = None \<and> (st k2 0 = TASK_ZOMBIE \<or> st k2 0 = TASK_UNUSED) then upd_task 0 (\<lambda>t. t\<lparr>t_state := TASK_READY\<rparr>) k2 else k2)"
  have s: "same_sched k k1" by (simp add: k1_def same_cleanup)
  have l: "length (k_tasks k1) = TASK_MAX" using same_len [OF s] inv_len(2) [OF assms] by simp
  have i1: "ids_ok k1" "named k1 c" "k_ready k1" using same_props [OF s inv_len(2) [OF assms]] inv_len [of k] assms c(3) s by (simp_all add: same_sched_def)
  have i2: "ids_ok k2" unfolding k2_def by (rule ids_upd_state [OF i1(1) c(2)]) (simp_all add: bury_def i1(2))
  have r2: "st k2 j \<noteq> TASK_RUNNING" if "j < TASK_MAX" for j
    using c(4) [OF that] same_nth [OF s, of j] that l same_len [OF s] by (cases "j = c") (simp_all add: k2_def upd_nth bury_def)
  have l2: "length (k_tasks k2) = TASK_MAX" using l by (simp add: k2_def)
  have i3: "ids_ok k3" unfolding k3_def by (auto intro!: ids_upd_state i2 simp: named_def)
  have r3: "st k3 j \<noteq> TASK_RUNNING" if "j < TASK_MAX" for j using r2 [OF that] that l2 by (simp add: k3_def upd_nth)
  have "named k3 n" using pick_ready [of k2] by (auto simp: n_def k3_def named_def split: option.splits)
  then have "sched_inv (enter_task n (k3\<lparr>k_paging := g\<rparr>))" for g
    using i3 r3 i1(3) inv_enter [of "k3\<lparr>k_paging := g\<rparr>" n] same_props(1,3) [OF same_fields(5), of k3] inv_len(1) [OF i3] by (simp add: k3_def k2_def)
  moreover have "task_exit poll k = (case (case sched_pick_next k2 of
        Some i \<Rightarrow> (i, k2)
      | None \<Rightarrow> (0, if st k2 0 = TASK_ZOMBIE \<or> st k2 0 = TASK_UNUSED then upd_task 0 (\<lambda>t. t\<lparr>t_state := TASK_READY\<rparr>) k2 else k2)) of
      (i, k) \<Rightarrow> enter_task i (k\<lparr>k_paging := paging_load_cr3 (dir_or_kernel (t_cr3 (k_tasks k ! i)) (k_paging k)) (k_paging k)\<rparr>))"
    using c(1) unfolding task_exit_def Let_def k1_def k2_def by (simp only: option.case)
  ultimately show ?thesis by (cases "sched_pick_next k2") (simp_all add: n_def k3_def)
qed

lemma inv_kill:
  assumes "sched_inv k" "task_kill poll pid k = Some (e, k')"
  shows "sched_inv k'"
proof (cases "task_find_by_id pid k")
  case None
  then show ?thesis using assms by (simp add: task_kill_def split: if_splits)
next
  case (Some i)
  have i: "i < TASK_MAX" "st k i \<noteq> TASK_UNUSED" "pid_of k i = pid" using find_by_idD [OF Some inv_len(2) [OF assms(1)]] by simp_all
  show ?thesis
  proof (cases "pid = 0 \<or> idle k i \<or> st k i = TASK_ZOMBIE")
    case True
    then show ?thesis using assms Some i inv_len(4) [OF assms(1)] by (auto simp: task_kill_def split: if_splits)
  next
    case False
    show ?thesis
    proof (cases "k_cur k = Some i")
      case True
      obtain k1 where k1: "task_kill_children poll pid k = Some k1" "kills {j. descendant k pid j} k k1" using kill_children_spec [OF inv_len(3) [OF assms(1)]] by blast
      have "sched_inv k1" using kills_inv [OF k1(2) _ assms(1)] by (auto dest: descendant_alive)
      then have "sched_inv (task_resources_cleanup poll pid k1)" using same_props(4) [OF same_cleanup inv_len(2)] by blast
      moreover have "k' = task_exit poll (task_resources_cleanup poll pid k1)"
        using assms Some False True i k1 inv_len(4) [OF assms(1)] same_cleanup [of k1 poll pid] by (simp add: task_kill_def Let_def same_sched_def kills_def)
      ultimately show ?thesis using inv_exit by simp
    next
      case ne: False
      have "alive k i" using False i by (simp add: alive_def)
      then have "\<forall>j \<in> insert i {j. descendant k pid j}. alive k j" by (auto dest: descendant_alive)
      then show ?thesis using kill_other [OF assms(1) Some _ _ _ ne, of poll] False assms(2) kills_inv [OF _ _ assms(1)] by auto
    qed
  qed
qed

end
