(* ===== verification/KTaskRun.thy ===== *)
theory KTaskRun
  imports KFair KKill
begin

text \<open>
  The operations of \<^verbatim>\<open>kernel/sched/task.cpp\<close> as steps of one system: events of the scheduler, creating,
  copying and starting tasks, killing, exiting, waiting, and the operations on descriptors and
  identities. The invariant of the scheduler holds in every state they reach.
\<close>

section \<open>Slots\<close>

lemma inv_same: "same_sched k k' \<Longrightarrow> sched_inv k \<Longrightarrow> sched_inv k'"
  using same_props(4) [of k k'] by (simp add: inv_len)

lemma inv_other:
  assumes "sched_inv k" "k_cur k = Some c" "i \<noteq> c" "ids_ok (upd_task i f (k\<lparr>k_next_id := n\<rparr>))" "t_state (f (k_tasks k ! i)) \<noteq> TASK_RUNNING"
  shows "sched_inv (upd_task i f (k\<lparr>k_next_id := n\<rparr>))" (is "sched_inv ?k")
proof -
  obtain c' where c: "k_cur k = Some c'" "c' < TASK_MAX" "alive k c'" "\<And>j. j < TASK_MAX \<Longrightarrow> j \<noteq> c' \<Longrightarrow> st k j \<noteq> TASK_RUNNING" using assms(1) by (rule inv_curE) blast
  have t: "k_tasks ?k ! j = (if j = i then f (k_tasks k ! i) else k_tasks k ! j)" if "j < TASK_MAX" for j
    using upd_nth [of "k\<lparr>k_next_id := n\<rparr>" j i f] inv_len(2) [OF assms(1)] that by simp
  have "alive ?k c" using c assms(2,3) by (simp add: alive_def t)
  moreover have "st ?k j \<noteq> TASK_RUNNING" if "j < TASK_MAX" "j \<noteq> c" for j using c(4) [OF that(1)] c(1) assms(2,5) that by (simp add: t)
  ultimately show ?thesis using assms(2,4) inv_len(4) [OF assms(1)] by (simp add: sched_inv_def)
qed

lemma cur_not_unused: "sched_inv k \<Longrightarrow> k_cur k = Some c \<Longrightarrow> st k c \<noteq> TASK_UNUSED \<and> st k c \<noteq> TASK_ZOMBIE"
  by (auto simp: sched_inv_def alive_def)

text \<open>A slot is given up, and a new task is put in one.\<close>

lemma inv_unuse:
  assumes "sched_inv k" "k_cur k \<noteq> Some i" "i < TASK_MAX" "\<And>t. t_id (f t) = t_id t \<and> t_parent (f t) = t_parent t \<and> t_state (f t) = TASK_UNUSED"
  shows "sched_inv (upd_task i f k)"
proof -
  obtain c where c: "k_cur k = Some c" using assms(1) by (rule inv_curE) blast
  have "ids_ok (upd_task i f k)" using assms(3,4) by (intro ids_upd_state inv_len(3) [OF assms(1)]) simp_all
  then show ?thesis using inv_other [OF assms(1) c, of i f "k_next_id k"] assms(2,4) c by simp
qed

lemma inv_new_task:
  assumes "sched_inv k" "i < TASK_MAX" "st k i = TASK_UNUSED" "t_id (f (k_tasks k ! i)) = k_next_id k" "t_parent (f (k_tasks k ! i)) < k_next_id k"
    "t_state (f (k_tasks k ! i)) \<noteq> TASK_RUNNING"
  shows "sched_inv (upd_task i f (k\<lparr>k_next_id := k_next_id k + 1\<rparr>))"
proof -
  obtain c where c: "k_cur k = Some c" using assms(1) by (rule inv_curE) blast
  then have "i \<noteq> c" using cur_not_unused [OF assms(1)] assms(3) by auto
  then show ?thesis using inv_other [of k c i f, OF assms(1) c _ _ assms(6)] ids_new [of k i f, OF inv_len(3) [OF assms(1)] assms(2,4,5)] by blast
qed

lemma inv_slot_clear:
  assumes "sched_inv k" "k_cur k \<noteq> Some i" "i < TASK_MAX"
  shows "sched_inv (task_slot_clear poll i k) \<and> k_cur (task_slot_clear poll i k) = k_cur k \<and> st (task_slot_clear poll i k) i = TASK_UNUSED"
proof -
  define k1 where "k1 = (if st k i \<noteq> TASK_UNUSED \<and> pid_of k i \<noteq> 0 then task_resources_cleanup poll (pid_of k i) k else k)"
  define k2 where "k2 = kfree (t_stack (k_tasks k1 ! i)) k1"
  define f where "f = (\<lambda>t. task_fds_clear (t\<lparr>t_stack := None, t_state := TASK_UNUSED, t_id := 0, t_esp := 0, t_entry := 0, t_arg := 0,
           t_name := [], t_runs := 0, t_cpu_ticks := 0, t_wake_ms := 0, t_wait := WAIT_NONE, t_idle := False, t_parent := -1,
           t_cwd := ''/'', t_cr3 := NoDir, t_user := False, t_uid := 0, t_slot := -1\<rparr>))"
  have s: "same_sched k k2" unfolding k2_def by (rule same_trans [OF _ same_kfree]) (simp add: k1_def same_cleanup)
  have i2: "sched_inv k2" "k_cur k2 = k_cur k" using inv_same [OF s assms(1)] s by (simp_all add: same_sched_def)
  obtain c where c: "k_cur k2 = Some c" using i2(1) by (rule inv_curE) blast
  have "ids_ok (upd_task i f k2)" using assms(3) by (intro ids_clear inv_len(3) [OF i2(1)]) (simp_all add: f_def task_fds_clear_def)
  moreover have "t_state (f t) = TASK_UNUSED" for t by (simp add: f_def task_fds_clear_def)
  moreover have "i \<noteq> c" using assms(2) i2(2) c by auto
  ultimately have "sched_inv (upd_task i f k2)" using inv_other [OF i2(1) c, of i f "k_next_id k2"] by simp
  moreover have "task_slot_clear poll i k = upd_task i f k2" unfolding task_slot_clear_def Let_def k1_def k2_def f_def by (rule HOL.refl)
  ultimately show ?thesis using i2 inv_len(2) [OF i2(1)] assms(3) by (simp add: upd_nth f_def task_fds_clear_def)
qed

lemma alloc_scan_inv:
  assumes "sched_inv k" "set is \<subseteq> {..<TASK_MAX}" "alloc_scan poll is k = (r, k')"
  shows "sched_inv k' \<and> k_cur k' = k_cur k \<and> (\<forall>i. r = Some i \<longrightarrow> i < TASK_MAX \<and> st k' i = TASK_UNUSED)"
  using assms
proof (induction "is" arbitrary: k)
  case (Cons i "is")
  define k1 where "k1 = (if st k i = TASK_ZOMBIE then task_slot_clear poll i k else k)"
  have "k_cur k \<noteq> Some i" if "st k i = TASK_ZOMBIE" using cur_not_unused [OF Cons.prems(1)] that by auto
  then have k1: "sched_inv k1" "k_cur k1 = k_cur k" using inv_slot_clear [OF Cons.prems(1), of i poll] Cons.prems by (auto simp: k1_def)
  show ?case
  proof (cases "st k1 i = TASK_UNUSED")
    case True
    then have "r = Some i" "k' = k1" using Cons.prems(3) by (simp_all add: k1_def [symmetric] Let_def)
    then show ?thesis using k1 True Cons.prems(2) by simp
  next
    case False
    then have "alloc_scan poll is k1 = (r, k')" using Cons.prems(3) by (simp add: k1_def [symmetric] Let_def)
    then show ?thesis using Cons.IH [OF k1(1)] Cons.prems(2) k1(2) by simp
  qed
qed simp

lemma alloc_slot_inv:
  assumes "sched_inv k" "task_alloc_slot poll k = (r, k')"
  shows "sched_inv k'" "k_cur k' = k_cur k" "r = Some i \<Longrightarrow> i < TASK_MAX \<and> st k' i = TASK_UNUSED"
  using alloc_scan_inv [OF assms(1) _ assms(2) [unfolded task_alloc_slot_def]] by (auto simp: atLeast0LessThan)

section \<open>New tasks\<close>

lemma setup_stack_sel [simp]: "t_id (task_setup_stack t) = t_id t" "t_parent (task_setup_stack t) = t_parent t" "t_state (task_setup_stack t) = t_state t"
  by (simp_all add: task_setup_stack_def split: option.split)

lemma fds_clear_sel [simp]: "t_id (task_fds_clear t) = t_id t" "t_parent (task_fds_clear t) = t_parent t" "t_state (task_fds_clear t) = t_state t"
  by (simp_all add: task_fds_clear_def)

lemma start_task_sel [simp]: "t_id (start_task pid s e a p t) = pid" "t_parent (start_task pid s e a p t) = p" "t_state (start_task pid s e a p t) = TASK_READY"
  by (simp_all add: start_task_def)

lemma cur_id_less: "sched_inv k \<Longrightarrow> k_cur k = Some c \<Longrightarrow> pid_of k c < k_next_id k"
  by (auto simp: sched_inv_def ids_ok_def id_ok_def named_def alive_def)

lemma cur_parent_less: "sched_inv k \<Longrightarrow> cur_field t_id (-1) k < k_next_id k"
  using cur_id_less [of k] by (auto simp: cur_field_def sched_inv_def)

lemma cur_field_next [simp]: "cur_field f d (k\<lparr>k_next_id := n\<rparr>) = cur_field f d k"
  by (simp add: cur_field_def split: option.split)

lemma kmalloc_same: "kmalloc_stack k = (p, k') \<Longrightarrow> same_sched k k'"
  by (auto simp: kmalloc_stack_def same_fields split: prod.splits)

lemma slot_alloc_same: "user_stack_slot_alloc k = (s, k') \<Longrightarrow> same_sched k k'"
  by (auto simp: user_stack_slot_alloc_def same_sched_def split: option.splits)

lemma same_unused: "same_sched k k' \<Longrightarrow> sched_inv k \<Longrightarrow> i < TASK_MAX \<Longrightarrow> st k' i = st k i"
  using same_nth [of k k' i] by (simp add: inv_len)

lemma upd_paging: "upd_task i f (k\<lparr>k_paging := g\<rparr>) = (upd_task i f k)\<lparr>k_paging := g\<rparr>"
  by (simp add: upd_task_def)

lemma inv_create: "sched_inv k \<Longrightarrow> sched_inv (snd (task_create poll entry arg name k))"
proof -
  assume inv: "sched_inv k"
  obtain r k1 where a: "task_alloc_slot poll k = (r, k1)" by fastforce
  obtain p k2 where m: "kmalloc_stack k1 = (p, k2)" by fastforce
  note k1 = alloc_slot_inv [OF inv a]
  have i2: "sched_inv k2" using inv_same [OF kmalloc_same [OF m] k1(1)] .
  show ?thesis
  proof (cases "k_ready k \<and> entry \<noteq> 0 \<and> r \<noteq> None \<and> p \<noteq> None")
    case True
    then obtain i q where iq: "r = Some i" "p = Some q" by auto
    then have u: "i < TASK_MAX" "st k2 i = TASK_UNUSED" using k1(3) same_unused [OF kmalloc_same [OF m] k1(1)] by auto
    show ?thesis using True by (simp add: task_create_def Let_def a m iq) (rule inv_new_task [OF i2 u]; simp add: cur_parent_less [OF i2])
  qed (use inv k1(1) i2 a m in \<open>auto simp: task_create_def split: option.split\<close>)
qed

lemma inv_fork: "sched_inv k \<Longrightarrow> sched_inv (snd (task_fork poll entry arg name k))"
proof -
  assume inv: "sched_inv k"
  obtain c where c: "k_cur k = Some c" using inv by (rule inv_curE) blast
  obtain r k1 where a: "task_alloc_slot poll k = (r, k1)" by fastforce
  obtain p k2 where m: "kmalloc_stack k1 = (p, k2)" by fastforce
  note k1 = alloc_slot_inv [OF inv a]
  have i2: "sched_inv k2" using inv_same [OF kmalloc_same [OF m] k1(1)] .
  have c2: "k_cur k2 = Some c" using c k1(2) kmalloc_same [OF m] by (simp add: same_sched_def)
  show ?thesis
  proof (cases "k_ready k \<and> entry \<noteq> 0 \<and> r \<noteq> None \<and> p \<noteq> None")
    case True
    then obtain i q where iq: "r = Some i" "p = Some q" by auto
    then have u: "i < TASK_MAX" "st k2 i = TASK_UNUSED" using k1(3) same_unused [OF kmalloc_same [OF m] k1(1)] by auto
    show ?thesis using True
      by (simp add: task_fork_def Let_def a m iq c upd_paging split: prod.split)
        (auto intro!: inv_same [OF same_fields(5)] inv_new_task [OF i2 u] simp: cur_id_less [OF i2 c2])
  qed (use inv k1(1) i2 a m c in \<open>auto simp: task_fork_def split: option.split\<close>)
qed

lemma inv_spawn_pages:
  assumes "sched_inv k" "k_cur k \<noteq> Some i" "i < TASK_MAX"
  shows "sched_inv (snd (spawn_pages poll img i pid dir slot k))"
proof -
  have s: "same_sched k (task_resources_cleanup poll pid k)" by (rule same_cleanup)
  then have "sched_inv (upd_task i (\<lambda>t. t\<lparr>t_state := TASK_UNUSED\<rparr>) (task_resources_cleanup poll pid k))"
    using assms inv_same [OF s] by (intro inv_unuse) (simp_all add: same_sched_def)
  then show ?thesis using inv_same [OF same_fields(5) assms(1)] by (simp add: spawn_pages_def split: prod.split)
qed

lemma inv_spawn_stack:
  assumes "sched_inv k" "k_cur k \<noteq> Some i" "i < TASK_MAX"
  shows "sched_inv (snd (spawn_stack poll img name uid i pid kstack dir k))"
proof -
  obtain slot k1 where a: "user_stack_slot_alloc k = (slot, k1)" by fastforce
  have s: "same_sched k k1" using slot_alloc_same [OF a] .
  have k1: "sched_inv k1" "k_cur k1 \<noteq> Some i" using inv_same [OF s] s assms by (simp_all add: same_sched_def)
  show ?thesis
  proof (cases "slot < 0")
    case True
    have t: "same_sched k1 (kfree (Some kstack) (k1\<lparr>k_paging := paging_free_dir dir (k_paging k1)\<rparr>))" (is "same_sched k1 ?k")
      by (rule same_trans [OF same_fields(5) same_kfree])
    have "sched_inv (upd_task i (\<lambda>t. t\<lparr>t_cr3 := NoDir, t_state := TASK_UNUSED\<rparr>) ?k)"
      using inv_same [OF t k1(1)] t k1(2) assms(3) by (intro inv_unuse) (simp_all add: same_sched_def)
    then show ?thesis using True a by (simp add: spawn_stack_def)
  next
    case False
    define f where "f = (\<lambda>t. task_setup_stack (task_fds_clear (t\<lparr>t_slot := slot, t_user_stack := user_stack_slot_top slot,
       t_kstack_top := kstack + TASK_STACK_SIZE, t_uid := uid, t_gid := uid,
       t_name := cstr_copy TASK_NAME_MAX (case name of Some n \<Rightarrow> n | None \<Rightarrow> ''user''),
       t_cwd := cstr_copy TASK_CWD_MAX (cur_field t_cwd ''/'' k1)\<rparr>)))"
    have t: "same_sched k1 (upd_task i f k1)" by (rule same_upd) (simp add: f_def pub_def task_setup_stack_def task_fds_clear_def split: option.split)
    have "sched_inv (snd (spawn_pages poll img i pid dir slot (upd_task i f k1)))" using inv_same [OF t k1(1)] k1(2) assms(3) by (intro inv_spawn_pages) simp_all
    then show ?thesis using False a by (simp add: spawn_stack_def Let_def f_def)
  qed
qed

lemma load_image_same: "load_image img k = (e, entry, k') \<Longrightarrow> same_sched k k'"
  by (auto simp: load_image_def same_fields split: prod.splits)

lemma inv_spawn: "sched_inv k \<Longrightarrow> sched_inv (snd (task_spawn_user_uid poll img name uid k))"
proof -
  assume inv: "sched_inv k"
  obtain e entry k1 where l: "load_image img k = (e, entry, k1)" using prod_cases3 by blast
  obtain r k2 where a: "task_alloc_slot poll k1 = (r, k2)" by fastforce
  obtain ks k3 where m: "kmalloc_stack k2 = (ks, k3)" by fastforce
  obtain dir pg where d: "paging_create_identity_dir (k_paging k3) = (dir, pg)" by fastforce
  have i1: "sched_inv k1" using inv_same [OF load_image_same [OF l] inv] .
  note k2 = alloc_slot_inv [OF i1 a]
  have s: "same_sched k2 (k3\<lparr>k_paging := pg\<rparr>)" by (rule same_trans [OF kmalloc_same [OF m] same_fields(5)])
  have i4: "sched_inv (k3\<lparr>k_paging := pg\<rparr>)" using inv_same [OF s k2(1)] .
  show ?thesis
  proof (cases "k_ready k \<and> 16 \<le> length img \<and> e = 0 \<and> entry \<noteq> Some 0 \<and> r \<noteq> None")
    case True
    then obtain i where i: "r = Some i" by auto
    then have u: "i < TASK_MAX" "st (k3\<lparr>k_paging := pg\<rparr>) i = TASK_UNUSED" using k2(3) same_unused [OF s k2(1)] by simp_all
    then have ne: "k_cur (k3\<lparr>k_paging := pg\<rparr>) \<noteq> Some i" using cur_not_unused [OF i4] by auto
    show ?thesis
    proof (cases "ks = None \<or> dir = NoDir")
      case f: True
      have "sched_inv (upd_task i (\<lambda>t. t\<lparr>t_state := TASK_UNUSED\<rparr>) (kfree ks (k3\<lparr>k_paging := pg\<rparr>)))"
        using inv_same [OF same_kfree i4] ne u(1) same_kfree [of "k3\<lparr>k_paging := pg\<rparr>" ks] by (intro inv_unuse) (simp_all add: same_sched_def)
      then show ?thesis using True f l a m d i by (auto simp: task_spawn_user_uid_def Let_def)
    next
      case False
      let ?f = "\<lambda>t. (start_task (k_next_id k3) (the ks) user_task_trampoline 0 (cur_field t_id (-1) (k3\<lparr>k_paging := pg\<rparr>)) t)\<lparr>t_cr3 := dir, t_user := True, t_user_entry := the entry\<rparr>"
      have "sched_inv (upd_task i ?f (k3\<lparr>k_paging := pg, k_next_id := k_next_id k3 + 1\<rparr>))"
        using inv_new_task [OF i4 u, of ?f] cur_parent_less [OF i4] by simp
      then have "sched_inv (snd (spawn_stack poll img name uid i (k_next_id k3) (the ks) dir (upd_task i ?f (k3\<lparr>k_paging := pg, k_next_id := k_next_id k3 + 1\<rparr>))))"
        using ne u(1) by (intro inv_spawn_stack) simp_all
      moreover have "cur_field t_id (-1) (k3\<lparr>k_paging := pg, k_next_id := n\<rparr>) = cur_field t_id (-1) (k3\<lparr>k_paging := pg\<rparr>)" for n by (rule cur_field_next)
      ultimately show ?thesis using True False l a m d i by (auto simp: task_spawn_user_uid_def Let_def)
    qed
  qed (use inv i1 k2(1) l a in \<open>auto simp: task_spawn_user_uid_def\<close>)
qed

lemma take_refs_same: "same_sched k (fold take_ref es k)"
  by (rule same_fold) (rule same_take_ref)

lemma upd_slot_ref: "same_sched (upd_task i f k) (upd_task i f (user_stack_slot_ref s k))"
  by (simp add: user_stack_slot_ref_def same_sched_def upd_task_def)

lemma inv_fork_user: "sched_inv k \<Longrightarrow> sched_inv (snd (task_fork_user poll frame k))"
proof -
  assume inv: "sched_inv k"
  obtain c where c: "k_cur k = Some c" using inv by (rule inv_curE) blast
  obtain r k1 where a: "task_alloc_slot poll k = (r, k1)" by fastforce
  obtain ks k2 where m: "kmalloc_stack k1 = (ks, k2)" by fastforce
  obtain dir pg where d: "paging_clone_dir_deep (t_cr3 (k_tasks k2 ! c)) (k_paging k2) = (dir, pg)" by fastforce
  note k1 = alloc_slot_inv [OF inv a]
  define k3 where "k3 = k2\<lparr>k_paging := pg\<rparr>"
  have s: "same_sched k1 k3" unfolding k3_def by (rule same_trans [OF kmalloc_same [OF m] same_fields(5)])
  have i3: "sched_inv k3" "k_cur k3 = Some c" using inv_same [OF s k1(1)] s k1(2) c by (simp_all add: same_sched_def)
  show ?thesis
  proof (cases "k_ready k \<and> t_user (k_tasks k ! c) \<and> (\<exists>eip esp. frame = Some (eip, esp) \<and> eip \<noteq> 0 \<and> esp \<noteq> 0) \<and> r \<noteq> None")
    case True
    then obtain i eip esp where i: "r = Some i" "frame = Some (eip, esp)" "eip \<noteq> 0" "esp \<noteq> 0" by auto
    have u: "i < TASK_MAX" "st k3 i = TASK_UNUSED" using i k1(3) same_unused [OF s k1(1)] by simp_all
    then have ne: "k_cur k3 \<noteq> Some i" using cur_not_unused [OF i3(1)] by auto
    show ?thesis
    proof (cases "ks = None \<or> dir = NoDir")
      case f: True
      define k4 where "k4 = (let k = kfree ks k3 in if dir \<noteq> NoDir then k\<lparr>k_paging := paging_free_dir dir (k_paging k)\<rparr> else k)"
      have t: "same_sched k3 k4" unfolding k4_def Let_def by (auto intro: same_kfree same_trans [OF same_kfree same_fields(5)])
      have "sched_inv (upd_task i (\<lambda>t. t\<lparr>t_state := TASK_UNUSED\<rparr>) k4)" using inv_same [OF t i3(1)] ne u(1) t by (intro inv_unuse) (simp_all add: same_sched_def)
      then show ?thesis using True f i a m d c by (auto simp: task_fork_user_def Let_def k4_def k3_def)
    next
      case False
      let ?p = "k_tasks k3 ! c"
      let ?f = "\<lambda>t. task_setup_stack ((start_task (k_next_id k3) (the ks) user_fork_trampoline 0 (t_id ?p) t)
        \<lparr>t_cr3 := dir, t_user := True, t_user_entry := eip, t_user_stack := esp, t_slot := t_slot ?p,
         t_kstack_top := the ks + TASK_STACK_SIZE, t_uid := t_uid ?p, t_gid := t_gid ?p,
         t_name := cstr_copy TASK_NAME_MAX (t_name ?p), t_cwd := cstr_copy TASK_CWD_MAX (t_cwd ?p), t_fds := t_fds ?p\<rparr>)"
      have "sched_inv (upd_task i ?f (k3\<lparr>k_next_id := k_next_id k3 + 1\<rparr>))" using inv_new_task [OF i3(1) u, of ?f] cur_id_less [OF i3] by simp
      then have "sched_inv (fold take_ref (t_fds ?p) (upd_task i ?f (user_stack_slot_ref (t_slot ?p) (k3\<lparr>k_next_id := k_next_id k3 + 1\<rparr>))))"
        by (intro inv_same [OF take_refs_same] inv_same [OF upd_slot_ref])
      then show ?thesis using True False i a m d c by (auto simp: task_fork_user_def Let_def k3_def)
    qed
  qed (use inv k1(1) a c in \<open>auto simp: task_fork_user_def split: option.split\<close>)
qed

section \<open>The other operations\<close>

lemma inv_block_turn:
  assumes "sched_inv k" "k_cur k = Some c" "st k c \<noteq> TASK_RUNNING"
  shows "sched_inv (block_turn now k)"
proof (cases "sched_pick_next k")
  case None
  then show ?thesis using inv_wake_sleepers [OF assms(1)] by (simp add: block_turn_def)
next
  case (Some i)
  then show ?thesis using inv_switch [OF assms] pick_ready [OF Some] by (simp add: block_turn_def)
qed

lemma inv_handle:
  assumes "sched_inv k"
  shows "sched_inv (sched_handle e k)"
proof -
  obtain c where c: "k_cur k = Some c" "c < TASK_MAX" "alive k c" using assms by (rule inv_curE) blast
  show ?thesis
  proof (cases e)
    case (Block reason deadline now)
    show ?thesis
    proof (cases "fst (block_start reason deadline now k)")
      case True
      define k1 where "k1 = upd_task c (\<lambda>t. t\<lparr>t_wait := (if reason = WAIT_NONE then WAIT_SLEEP else reason), t_wake_ms := (if deadline \<noteq> 0 then deadline else 1), t_state := TASK_BLOCKED\<rparr>) k"
      have "sched_inv k1" unfolding k1_def by (rule inv_set_cur [OF assms c(1)]) simp_all
      moreover have "k_cur k1 = Some c" "st k1 c \<noteq> TASK_RUNNING" using c inv_len(2) [OF assms] by (simp_all add: k1_def upd_nth)
      ultimately have "sched_inv (block_turn now k1)" by (rule inv_block_turn)
      then show ?thesis using Block True c by (simp add: block_switch_def block_start_def k1_def split: if_splits)
    qed (use Block assms c in \<open>auto simp: block_switch_def block_start_def\<close>)
  next
    case Resume
    let ?f = "\<lambda>t. t\<lparr>t_state := (if t_state t = TASK_READY then TASK_RUNNING else t_state t), t_wait := WAIT_NONE\<rparr>"
    have "sched_inv (upd_task c ?f k)" using c(3) by (intro inv_set_cur [OF assms c(1)]) (auto simp: alive_def)
    then have "sched_inv (block_end k)" by (rule inv_same [rotated]) (use c in \<open>simp add: block_end_def same_sched_def\<close>)
    then show ?thesis using Resume by simp
  next
    case (Tick now)
    let ?k = "if st k c = TASK_RUNNING then upd_task c (\<lambda>t. t\<lparr>t_cpu_ticks := t_cpu_ticks t + 1\<rparr>) k else k"
    have "same_sched k ?k" by (auto intro!: same_upd simp: pub_def)
    then have "sched_inv (sched_wake_sleepers now ?k)" using inv_same assms inv_wake_sleepers by blast
    then have "sched_inv (sched_on_tick now k)" by (rule inv_same [rotated]) (use c in \<open>simp add: sched_on_tick_def same_sched_def Let_def inv_len(4) [OF assms]\<close>)
    then show ?thesis using Tick by simp
  qed (use assms inv_yield inv_wake_net in \<open>auto simp: sched_maybe_preempt_def split: option.split\<close>)
qed

lemma inv_keep:
  assumes "sched_inv k" "\<And>t. t_id (f t) = t_id t \<and> t_parent (f t) = t_parent t \<and> t_state (f t) = t_state t"
  shows "sched_inv (upd_task i f k)"
  by (rule inv_waking [OF assms(1)]) (use inv_len(2) [OF assms(1)] assms(2) in \<open>simp_all add: upd_nth\<close>)

lemma inv_set_idle: "sched_inv k \<Longrightarrow> sched_inv (snd (task_set_idle pid k))"
  by (auto simp: task_set_idle_def intro!: inv_keep split: option.split)

lemma inv_wait:
  assumes "sched_inv k"
  shows "sched_inv (snd (wait_scan poll pid k))"
proof -
  have clear: "sched_inv (task_slot_clear poll i k)" if "find_slot P (k_tasks k) = Some i" "\<And>t. P t \<Longrightarrow> t_state t = TASK_ZOMBIE" for i P
  proof -
    have "i < TASK_MAX" "st k i = TASK_ZOMBIE" using find_slot_SomeD(1,2) [OF that(1)] that(2) inv_len(2) [OF assms] by simp_all
    then show ?thesis using inv_slot_clear [OF assms] cur_not_unused [OF assms, of i] by auto
  qed
  show ?thesis using assms by (auto simp: wait_scan_def Let_def split: option.split intro!: clear)
qed

lemma same_enable_aspace: "same_sched k (snd (task_enable_aspace pid k))"
  by (auto simp: task_enable_aspace_def upd_paging pub_def same_fields split: option.split prod.split intro!: same_trans [OF same_upd same_fields(5)])

lemma same_fd_close: "same_sched k (snd (task_fd_close poll fd k))"
  by (auto simp: task_fd_close_def Let_def split: option.split intro!: same_trans [OF _ same_set_fd] same_drop_ref same_on_net)

lemma same_fd_dup2: "same_sched k (snd (task_fd_dup2 poll oldfd newfd k))"
proof -
  have "same_sched k (set_fd c (nat newfd) e' (if b then set_fd c (nat newfd) no_fd (take_ref e k) else snd (task_fd_close poll newfd (take_ref e k))))" for c e e' b
    by (rule same_trans [OF same_take_ref [of k e] same_trans [OF _ same_set_fd]]) (simp add: same_set_fd same_fd_close)
  then show ?thesis by (simp add: task_fd_dup2_def Let_def split: option.split)
qed

lemma same_fd_alloc: "same_sched k (snd (task_fd_alloc ty handle path k))"
  by (auto simp: task_fd_alloc_def pub_def split: option.split intro!: same_upd)

lemma same_attach: "same_sched k (snd (task_attach_pty_slave pid pty k))"
proof -
  have "same_sched k (fold (\<lambda>f k. (set_fd i f e k)\<lparr>k_ptys := pty_ref (k_ptys (set_fd i f e k)) pty False\<rparr>) fs k)" for i e fs
    by (rule same_fold) (rule same_trans [OF same_set_fd same_fields(3)])
  then show ?thesis unfolding task_attach_pty_slave_def Let_def by (cases "find_task pid k") (simp_all only: option.case snd_conv same_refl)
qed

lemma same_identity:
  "same_sched k (snd (task_setuid uid k))" "same_sched k (snd (task_setgid gid k))" "same_sched k (snd (task_setuid_force uid k))"
  "same_sched k (snd (task_setgid_force gid k))" "same_sched k (snd (task_setuid_pid pid uid k))"
  by (auto simp: task_setuid_def task_setgid_def task_setuid_force_def task_setgid_force_def task_setuid_pid_def pub_def split: option.split intro!: same_upd)

section \<open>The system\<close>

inductive task_step :: "('n snet_scheme \<Rightarrow> 'n snet_scheme) \<Rightarrow> ('n, 'z) kernel_scheme \<Rightarrow> ('n, 'z) kernel_scheme \<Rightarrow> bool" for poll k where
  event: "task_step poll k (sched_handle e k)"
| turn: "k_cur k = Some c \<Longrightarrow> t_state (k_tasks k ! c) = TASK_BLOCKED \<Longrightarrow> task_step poll k (block_turn now k)"
| create: "task_step poll k (snd (task_create poll entry arg name k))"
| fork: "task_step poll k (snd (task_fork poll entry arg name k))"
| spawn: "task_step poll k (snd (task_spawn_user_uid poll img name uid k))"
| fork_user: "task_step poll k (snd (task_fork_user poll frame k))"
| set_idle: "task_step poll k (snd (task_set_idle pid k))"
| enable_aspace: "task_step poll k (snd (task_enable_aspace pid k))"
| exit: "task_step poll k (task_exit poll k)"
| kill: "task_kill poll pid k = Some (e', k') \<Longrightarrow> task_step poll k k'"
| wait: "task_step poll k (snd (wait_scan poll pid k))"
| fd_alloc: "task_step poll k (snd (task_fd_alloc ty handle path k))"
| fd_close: "task_step poll k (snd (task_fd_close poll fd k))"
| fd_dup2: "task_step poll k (snd (task_fd_dup2 poll oldfd newfd k))"
| attach: "task_step poll k (snd (task_attach_pty_slave pid pty k))"
| setuid: "task_step poll k (snd (task_setuid uid k))"
| setgid: "task_step poll k (snd (task_setgid gid k))"
| setuid_force: "task_step poll k (snd (task_setuid_force uid k))"
| setgid_force: "task_step poll k (snd (task_setgid_force gid k))"
| setuid_pid: "task_step poll k (snd (task_setuid_pid pid uid k))"

definition task_reachable :: "('n snet_scheme \<Rightarrow> 'n snet_scheme) \<Rightarrow> ('n, 'z) kernel_scheme \<Rightarrow> bool" where
  "task_reachable poll k \<longleftrightarrow> (\<exists>k0. length (k_tasks k0) = TASK_MAX \<and> (task_step poll)\<^sup>*\<^sup>* (sched_init k0) k)"

lemmas inv_ops = inv_handle inv_create inv_fork inv_spawn inv_fork_user inv_set_idle inv_exit inv_kill inv_wait
  inv_same [OF same_enable_aspace] inv_same [OF same_fd_alloc] inv_same [OF same_fd_close] inv_same [OF same_fd_dup2] inv_same [OF same_attach]
  same_identity [THEN inv_same]

lemma task_step_inv: "task_step poll k k' \<Longrightarrow> sched_inv k \<Longrightarrow> sched_inv k'"
  by (induction rule: task_step.induct) (auto intro: inv_ops inv_block_turn)

lemma sched_init_inv:
  assumes "length (k_tasks k) = TASK_MAX"
  shows "sched_inv (sched_init k)"
proof -
  have t: "st (sched_init k) i = (if i = 0 then TASK_RUNNING else TASK_UNUSED)" if "i < TASK_MAX" for i
    using assms that by (simp add: sched_init_def nth_list_update task_fds_clear_def)
  have z: "pid_of (sched_init k) 0 = 0" "parent_of (sched_init k) 0 = -1" using assms by (simp_all add: sched_init_def task_fds_clear_def)
  have n: "named (sched_init k) i \<longleftrightarrow> i = 0" for i using t [of i] by (auto simp: named_def split: if_splits)
  have c: "k_cur (sched_init k) = Some 0" "k_next_id (sched_init k) = 1" "k_ready (sched_init k)" "length (k_tasks (sched_init k)) = TASK_MAX"
    using assms by (simp_all add: sched_init_def)
  have "ids_ok (sched_init k)" using z c by (simp add: ids_ok_def id_ok_def n)
  then show ?thesis using c t by (simp add: sched_inv_def alive_def)
qed

lemma reachable_inv: "task_reachable poll k \<Longrightarrow> sched_inv k"
proof -
  assume "task_reachable poll k"
  then obtain k0 where "length (k_tasks k0) = TASK_MAX" "(task_step poll)\<^sup>*\<^sup>* (sched_init k0) k" by (auto simp: task_reachable_def)
  from this(2,1) show ?thesis by (induction rule: rtranclp_induct) (auto intro: sched_init_inv task_step_inv)
qed


end
