(* ===== verification/KAspace.thy ===== *)
theory KAspace
  imports KPaging
begin

text \<open>
  Isolation of address spaces: the invariant of the directories and the frame pool, which every
  operation the tasks use keeps, and the deep copy of an address space at a fork.
\<close>

section \<open>Entries\<close>

lemma entry_bits: "present e \<longleftrightarrow> bit e 0" "user e \<longleftrightarrow> bit e 2" "pse e \<longleftrightarrow> bit e 7"
proof -
  have "e AND 2 ^ 0 = 0 \<longleftrightarrow> \<not> bit e 0" "e AND 2 ^ 2 = 0 \<longleftrightarrow> \<not> bit e 2" "e AND 2 ^ 7 = 0 \<longleftrightarrow> \<not> bit e 7"
    by (simp_all only: and_exp_eq_0_iff_not_bit)
  then show "present e \<longleftrightarrow> bit e 0" "user e \<longleftrightarrow> bit e 2" "pse e \<longleftrightarrow> bit e 7"
    by (simp_all add: present_def user_def pse_def)
qed

lemma page_number: "(of_nat i * 0x400000 :: u32) = push_bit 22 (of_nat i)"
  by (simp add: push_bit_eq_mult)

lemma flag_numerals: "bit (1 :: u32) n \<longleftrightarrow> n = 0" "bit (2 :: u32) n \<longleftrightarrow> n = 1" "bit (4 :: u32) n \<longleftrightarrow> n = 2" "bit (0x80 :: u32) n \<longleftrightarrow> n = 7"
proof -
  have "bit (2 ^ k :: u32) n \<longleftrightarrow> n = k" if "k < 32" for k using that by (simp only: bit_exp_iff possible_bit_word) auto
  note b = this [of 0] this [of 1] this [of 2] this [of 7]
  show "bit (1 :: u32) n \<longleftrightarrow> n = 0" "bit (2 :: u32) n \<longleftrightarrow> n = 1" "bit (4 :: u32) n \<longleftrightarrow> n = 2" "bit (0x80 :: u32) n \<longleftrightarrow> n = 7"
    using b by simp_all
qed

lemma low_mask_bit: "bit (0xFFF :: u32) n \<longleftrightarrow> n < 12" "bit (0x3FFFFF :: u32) n \<longleftrightarrow> n < 22"
proof -
  have "(0xFFF :: u32) = Bit_Operations.mask 12" "(0x3FFFFF :: u32) = Bit_Operations.mask 22" by (simp_all add: mask_eq_exp_minus_1)
  then show "bit (0xFFF :: u32) n \<longleftrightarrow> n < 12" "bit (0x3FFFFF :: u32) n \<longleftrightarrow> n < 22"
    by (simp_all only: bit_mask_iff) (auto simp: possible_bit_word)
qed

lemma of_nat_low: "i < 1024 \<Longrightarrow> bit (of_nat i :: u32) n \<Longrightarrow> n < 10"
proof -
  assume "i < 1024" and b: "bit (of_nat i :: u32) n"
  then have "take_bit 10 i = i" by (simp add: take_bit_nat_eq_self)
  moreover have "bit i n" using b by (simp add: bit_simps)
  ultimately have "bit (take_bit 10 i) n" by simp
  then show "n < 10" by (simp add: bit_take_bit_iff)
qed

lemma frame_of_mk: "i < 1024 \<Longrightarrow> drop_bit 22 fl = 0 \<Longrightarrow> frame_of (of_nat i * 0x400000 OR fl) = i"
proof -
  assume i: "i < 1024" and fl: "drop_bit 22 fl = 0"
  have "drop_bit 22 (push_bit 22 (of_nat i)) = (of_nat i :: u32)"
    using of_nat_low [OF i] by (intro bit_word_eqI) (auto simp: bit_simps)
  then have "drop_bit 22 (of_nat i * 0x400000 OR fl) = of_nat i" using fl by (simp only: page_number drop_bit_or or.right_neutral)
  then show ?thesis using i by (simp add: frame_of_def unat_of_nat32)
qed

lemma flags_mk: "n < 22 \<Longrightarrow> bit (of_nat i * 0x400000 OR fl :: u32) n \<longleftrightarrow> bit fl n"
  by (simp only: page_number) (simp add: bit_simps)

lemma page_bits: "n < 22 \<Longrightarrow> \<not> bit (of_nat i * 0x400000 :: u32) n"
  by (simp only: page_number) (simp add: bit_simps)

lemma drop_flags: "drop_bit 22 pde_flags = 0" "drop_bit 22 (pde_flags OR PDE_USER) = 0" "drop_bit 22 (e AND 0xFFF :: u32) = 0" "drop_bit 22 (e AND 0xFFF OR PDE_USER :: u32) = 0"
proof -
  show "drop_bit 22 pde_flags = 0" "drop_bit 22 (pde_flags OR PDE_USER) = 0" by (simp_all add: pde_flags_def)
  show a: "drop_bit 22 (e AND 0xFFF :: u32) = 0" by (rule bit_word_eqI) (simp add: bit_simps low_mask_bit)
  show "drop_bit 22 (e AND 0xFFF OR PDE_USER :: u32) = 0" by (simp add: drop_bit_or a)
qed

lemma flags_bits: "bit pde_flags 0" "bit pde_flags 7" "\<not> bit pde_flags 2"
  by (simp_all add: pde_flags_def bit_or_iff flag_numerals)

lemmas entry_simps = entry_bits page_bits flags_mk flags_bits frame_of_mk drop_flags bit_or_iff bit_and_iff flag_numerals low_mask_bit

lemma frame_unat: "frame_of e = unat e div 2 ^ 22"
  by (simp only: frame_of_def unat_shr)

lemma frame_less: "frame_of e < 1024"
  using unat_lt32 [of e] by (simp add: frame_unat)

lemma frame_flags [simp]: "frame_of (e OR PDE_USER) = frame_of e" "frame_of (e AND NOT PDE_USER) = frame_of e"
proof -
  show "frame_of (e OR PDE_USER) = frame_of e" by (simp add: frame_of_def drop_bit_or)
  have "drop_bit 22 (e AND NOT w) = drop_bit 22 e" if "drop_bit 22 w = 0" for w :: u32
  proof (rule bit_word_eqI)
    fix n :: nat assume "n < LENGTH(32)"
    have "bit (drop_bit 22 w) n = bit (0 :: u32) n" using that by (rule arg_cong)
    then show "bit (drop_bit 22 (e AND NOT w)) n \<longleftrightarrow> bit (drop_bit 22 e) n" by (auto simp: bit_simps dest: bit_imp_le_length)
  qed
  from this [of 4] have "drop_bit 22 (e AND NOT 4) = drop_bit 22 e" by simp
  then show "frame_of (e AND NOT PDE_USER) = frame_of e" by (simp add: frame_of_def)
qed

lemma high_mask: "unat (e AND 0xFFC00000 :: u32) = frame_of e * 2 ^ 22"
proof -
  have "e AND 0xFFC00000 = push_bit 22 (drop_bit 22 e)"
  proof (rule bit_word_eqI)
    fix n :: nat assume n: "n < LENGTH(32)"
    have "(0xFFC00000 :: u32) = NOT (Bit_Operations.mask 22)" by (simp add: mask_eq_exp_minus_1)
    then show "bit (e AND 0xFFC00000) n \<longleftrightarrow> bit (push_bit 22 (drop_bit 22 e)) n"
      using n by (simp only: bit_and_iff bit_not_iff bit_mask_iff) (auto simp: bit_simps possible_bit_word)
  qed
  moreover have "frame_of e * 2 ^ 22 < 2 ^ 32" using frame_less [of e] by simp
  ultimately show ?thesis by (simp add: unat_shl flip: frame_of_def)
qed

definition pooled :: "nat \<Rightarrow> bool" where
  "pooled f \<longleftrightarrow> 20 \<le> f \<and> f < 32"

lemma is_pool: "fork_frame_is_pool (e AND 0xFFC00000) \<longleftrightarrow> pooled (frame_of e)"
  by (simp add: fork_frame_is_pool_def word_le_nat_alt word_less_nat_alt high_mask pooled_def)

lemma frame_free: "fork_frame_free (e AND 0xFFC00000) s =
  (if pooled (frame_of e) then s\<lparr>fork_frames := (fork_frames s)[frame_of e - 20 := False]\<rparr> else s)"
proof -
  have "unat ((e AND 0xFFC00000) - FORK_FRAME_BASE) div 0x400000 = frame_of e - 20" if p: "pooled (frame_of e)"
  proof -
    have "FORK_FRAME_BASE \<le> e AND 0xFFC00000" using p is_pool [of e] by (simp add: fork_frame_is_pool_def)
    then have "unat ((e AND 0xFFC00000) - FORK_FRAME_BASE) = unat (e AND 0xFFC00000) - unat FORK_FRAME_BASE" by (rule unat_sub)
    also have "\<dots> = (frame_of e - 20) * 0x400000" by (simp add: high_mask diff_mult_distrib)
    finally show ?thesis by simp
  qed
  then show ?thesis by (simp add: fork_frame_free_def is_pool)
qed

section \<open>The invariant\<close>

text \<open>An entry whose page lies in the pool, and the places of the directories in use that hold a page of
  the pool for a program. The pages of the pool itself are mapped at their own addresses for the
  kernel only.\<close>

definition window :: "nat \<Rightarrow> bool" where
  "window j \<longleftrightarrow> 20 \<le> j \<and> j < 32"

definition pool_page :: "u32 \<Rightarrow> bool" where
  "pool_page e \<longleftrightarrow> present e \<and> pooled (frame_of e)"

definition entry_ok :: "nat \<Rightarrow> u32 \<Rightarrow> bool" where
  "entry_ok j e \<longleftrightarrow>
     (if window j then present e \<and> \<not> user e else True) \<and>
     (present e \<longrightarrow> pse e \<and> (if \<not> window j \<and> pool_page e then user e else frame_of e = j))"

definition kernel_entry_ok :: "nat \<Rightarrow> u32 \<Rightarrow> bool" where
  "kernel_entry_ok j e \<longleftrightarrow> (present e \<longrightarrow> pse e \<and> frame_of e = j)"

definition holders :: "paging \<Rightarrow> nat \<Rightarrow> (nat \<times> nat) set" where
  "holders s f =
     {(i, j). i < PAGING_ASDIR_MAX \<and> asdir_used s ! i \<and> j < PAGE_DIR_ENTRIES \<and> \<not> window j \<and>
        pool_page (asdirs s ! i ! j) \<and> frame_of (asdirs s ! i ! j) = f}"

definition shape :: "paging \<Rightarrow> bool" where
  "shape s \<longleftrightarrow> length (page_dir s) = PAGE_DIR_ENTRIES \<and> length (asdirs s) = PAGING_ASDIR_MAX \<and>
     (\<forall>i < PAGING_ASDIR_MAX. length (asdirs s ! i) = PAGE_DIR_ENTRIES) \<and>
     length (asdir_used s) = PAGING_ASDIR_MAX \<and> length (fork_frames s) = FORK_FRAME_COUNT \<and>
     paging_on s \<and> kernel_cr3 s = KernelDir"

definition entries_ok :: "paging \<Rightarrow> bool" where
  "entries_ok s \<longleftrightarrow> (\<forall>j < PAGE_DIR_ENTRIES. kernel_entry_ok j (page_dir s ! j)) \<and>
     (\<forall>i < PAGING_ASDIR_MAX. asdir_used s ! i \<longrightarrow> (\<forall>j < PAGE_DIR_ENTRIES. entry_ok j (asdirs s ! i ! j)))"

text \<open>The invariant with a set of frames that are taken from the pool and not yet entered.\<close>

definition paging_inv_but :: "nat set \<Rightarrow> paging \<Rightarrow> bool" where
  "paging_inv_but F s \<longleftrightarrow> shape s \<and> entries_ok s \<and>
     (\<forall>f. pooled f \<longrightarrow> (if f \<in> F then fork_frames s ! (f - 20) \<and> holders s f = {}
                     else if fork_frames s ! (f - 20) then \<exists>i j. holders s f = {(i, j)} else holders s f = {}))"

abbreviation paging_inv :: "paging \<Rightarrow> bool" where "paging_inv \<equiv> paging_inv_but {}"

definition cur_ok :: "paging \<Rightarrow> bool" where
  "cur_ok s \<longleftrightarrow> cr3 s = KernelDir \<or> (\<exists>i < PAGING_ASDIR_MAX. cr3 s = AsDir i)"

definition in_use :: "paging \<Rightarrow> nat \<Rightarrow> bool" where
  "in_use s i \<longleftrightarrow> i < PAGING_ASDIR_MAX \<and> asdir_used s ! i"

lemma pinv_cong:
  assumes "page_dir s = page_dir t" "asdirs s = asdirs t" "asdir_used s = asdir_used t" "fork_frames s = fork_frames t"
    "paging_on s = paging_on t" "kernel_cr3 s = kernel_cr3 t"
  shows "paging_inv_but F s = paging_inv_but F t"
  using assms by (simp add: paging_inv_but_def shape_def entries_ok_def holders_def)

section \<open>Setting an entry\<close>

lemma set_as_sel [simp]:
  "page_dir (set_pde (AsDir i) j e s) = page_dir s" "asdir_used (set_pde d j e s) = asdir_used s"
  "fork_frames (set_pde d j e s) = fork_frames s" "cr3 (set_pde d j e s) = cr3 s" "pmem (set_pde d j e s) = pmem s"
  "kernel_cr3 (set_pde d j e s) = kernel_cr3 s" "paging_on (set_pde d j e s) = paging_on s"
  "asdirs (set_pde KernelDir j e s) = asdirs s" "fork_frame_next (set_pde d j e s) = fork_frame_next s"
  by (simp_all add: set_pde_def set_dir_def split: dirref.split)

lemma asdirs_set_pde: "shape s \<Longrightarrow> i < PAGING_ASDIR_MAX \<Longrightarrow> j < PAGE_DIR_ENTRIES \<Longrightarrow> i' < PAGING_ASDIR_MAX \<Longrightarrow>
    asdirs (set_pde (AsDir i) j e s) ! i' ! j' = (if i' = i \<and> j' = j then e else asdirs s ! i' ! j')"
  by (auto simp: set_pde_def set_dir_def dir_of_def shape_def nth_list_update)

lemma shape_set_pde: "shape s \<Longrightarrow> shape (set_pde d j e s)"
proof -
  assume s: "shape s"
  have "length ((asdirs s)[k := (asdirs s ! k)[j := e]] ! i) = PAGE_DIR_ENTRIES" if "i < PAGING_ASDIR_MAX" for i k
    using s that by (cases "i = k") (simp_all add: shape_def)
  then show ?thesis using s by (auto simp: shape_def set_pde_def set_dir_def dir_of_def split: dirref.split)
qed

lemma holders_set_pde:
  assumes "shape s" "in_use s i" "j < PAGE_DIR_ENTRIES" "\<not> window j"
  shows "holders (set_pde (AsDir i) j e s) f = (holders s f - {(i, j)}) \<union> (if pool_page e \<and> frame_of e = f then {(i, j)} else {})"
  using assms by (auto simp: holders_def asdirs_set_pde in_use_def split: if_splits)

lemma entries_set_pde:
  assumes "shape s" "entries_ok s" "in_use s i" "j < PAGE_DIR_ENTRIES" "entry_ok j e"
  shows "entries_ok (set_pde (AsDir i) j e s)"
  using assms by (auto simp: entries_ok_def asdirs_set_pde in_use_def)

text \<open>An entry that holds the same page of the pool as before, or none before and after.\<close>

lemma pinv_set_same:
  assumes "paging_inv_but F s" "in_use s i" "j < PAGE_DIR_ENTRIES" "\<not> window j" "entry_ok j e"
    "pool_page e \<longleftrightarrow> pool_page (asdirs s ! i ! j)" "pool_page e \<Longrightarrow> frame_of e = frame_of (asdirs s ! i ! j)"
  shows "paging_inv_but F (set_pde (AsDir i) j e s)"
proof -
  have s: "shape s" "entries_ok s" using assms(1) by (simp_all add: paging_inv_but_def)
  have "holders (set_pde (AsDir i) j e s) f = holders s f" for f
    unfolding holders_set_pde [OF s(1) assms(2-4)] using assms(2-4,6,7) by (auto simp: holders_def in_use_def)
  then show ?thesis using assms(1) shape_set_pde [OF s(1)] entries_set_pde [OF s assms(2,3,5)] by (simp add: paging_inv_but_def)
qed

text \<open>A frame that was taken is entered, and a frame that is given back is removed from its place.\<close>

lemma pinv_enter:
  assumes "paging_inv_but {f} s" "pooled f" "in_use s i" "j < PAGE_DIR_ENTRIES" "\<not> window j" "entry_ok j e"
    "pool_page e" "frame_of e = f" "\<not> pool_page (asdirs s ! i ! j)"
  shows "paging_inv (set_pde (AsDir i) j e s)"
proof -
  have s: "shape s" "entries_ok s" using assms(1) by (simp_all add: paging_inv_but_def)
  have n: "(i, j) \<notin> holders s g" for g using assms(9) by (simp add: holders_def)
  have h: "holders (set_pde (AsDir i) j e s) g = (if g = f then {(i, j)} else holders s g)" if "pooled g" for g
    using holders_set_pde [OF s(1) assms(3-5), of e g] assms(1,7,8) that n [of g] by (auto simp: paging_inv_but_def)
  show ?thesis using assms(1) shape_set_pde [OF s(1)] entries_set_pde [OF s assms(3,4,6)] h by (auto simp: paging_inv_but_def)
qed

lemma pinv_drop:
  assumes "paging_inv s" "in_use s i" "j < PAGE_DIR_ENTRIES" "\<not> window j" "entry_ok j e" "\<not> pool_page e"
    "pool_page (asdirs s ! i ! j)" "f = frame_of (asdirs s ! i ! j)"
  shows "paging_inv (set_pde (AsDir i) j e (s\<lparr>fork_frames := (fork_frames s)[f - 20 := False]\<rparr>))" (is "paging_inv (set_pde _ _ _ ?s)")
proof -
  have s: "shape s" "entries_ok s" using assms(1) by (simp_all add: paging_inv_but_def)
  have p: "pooled f" and m: "(i, j) \<in> holders s f" using assms(2-4,7,8) by (auto simp: pool_page_def holders_def in_use_def)
  have s': "shape ?s" "entries_ok ?s" "in_use ?s i" using s assms(2) by (auto simp: shape_def entries_ok_def in_use_def)
  have u: "holders s f = {(i, j)}" using assms(1) p m by (auto simp: paging_inv_but_def split: if_splits)
  have hs: "holders ?s g = holders s g" for g by (simp add: holders_def)
  have o: "(i, j) \<notin> holders s g" if "g \<noteq> f" for g using that assms(8) by (auto simp: holders_def)
  have h: "holders (set_pde (AsDir i) j e ?s) g = (if g = f then {} else holders s g)" for g
    unfolding holders_set_pde [OF s'(1,3) assms(3,4)] hs using assms(6) u o [of g] by auto
  have l: "length (fork_frames s) = 12" using s(1) by (simp add: shape_def)
  have fr: "(fork_frames s)[f - 20 := False] ! (g - 20) \<longleftrightarrow> g \<noteq> f \<and> fork_frames s ! (g - 20)" if "pooled g" for g
    using that p l by (auto simp: pooled_def nth_list_update split: if_splits)
  show ?thesis using assms(1) shape_set_pde [OF s'(1)] entries_set_pde [OF s' assms(3,5)] by (simp add: paging_inv_but_def h fr)
qed

section \<open>The operations keep the invariant\<close>

lemma frame_order_less: "idx \<in> set (frame_order next) \<Longrightarrow> idx < 12"
  by (auto simp: frame_order_def)

lemma frame_order_all: "idx < 12 \<Longrightarrow> idx \<in> set (frame_order next)"
proof -
  assume i: "idx < 12"
  define k where "k = (idx + (12 - next mod 12)) mod 12"
  have "(next + k) mod 12 = (next mod 12 + (idx + (12 - next mod 12))) mod 12" unfolding k_def by (simp only: mod_add_right_eq mod_add_left_eq)
  also have "next mod 12 + (idx + (12 - next mod 12)) = idx + 12" using mod_less_divisor [of 12 "next"] by simp
  finally have "(next + k) mod 12 = idx" using i by simp
  moreover have "k < 12" by (simp add: k_def)
  ultimately show ?thesis by (auto simp: frame_order_def intro!: image_eqI [where x = k])
qed

lemma find_Some: "find P xs = Some x \<Longrightarrow> x \<in> set xs \<and> P x"
  by (induction xs) (auto split: if_splits)

text \<open>A frame is found exactly as long as one is free; it is taken and no directory holds it.\<close>

lemma frame_alloc:
  assumes "paging_inv s" "fork_frame_alloc s = (phys, s')"
  shows "if \<forall>k < 12. fork_frames s ! k then phys = 0 \<and> s' = s
    else \<exists>f next. pooled f \<and> \<not> fork_frames s ! (f - 20) \<and> phys = of_nat f * 0x400000 \<and> phys \<noteq> 0 \<and>
      s' = s\<lparr>fork_frames := (fork_frames s)[f - 20 := True], fork_frame_next := next\<rparr> \<and> paging_inv_but {f} s'"
proof (cases "find (\<lambda>idx. \<not> fork_frames s ! idx) (frame_order (fork_frame_next s))")
  case None
  then have "\<forall>k < 12. fork_frames s ! k" using frame_order_all by (auto simp: find_None_iff)
  then show ?thesis using assms(2) None by (simp add: fork_frame_alloc_def)
next
  case (Some idx)
  then have i: "idx < 12" "\<not> fork_frames s ! idx" using find_Some [OF Some] frame_order_less by auto
  define f where "f = idx + 20"
  have f: "pooled f" "f - 20 = idx" using i(1) by (auto simp: f_def pooled_def)
  have ph: "FORK_FRAME_BASE + of_nat idx * 0x400000 = of_nat f * 0x400000" by (simp add: f_def algebra_simps)
  have "frame_of (of_nat f * 0x400000 OR 0) = f" using f(1) by (intro frame_of_mk) (simp_all add: pooled_def)
  then have nz: "of_nat f * 0x400000 \<noteq> (0 :: u32)" using f(1) by (auto simp: frame_unat pooled_def)
  define t where "t = s\<lparr>fork_frames := (fork_frames s)[idx := True], fork_frame_next := (idx + 1) mod FORK_FRAME_COUNT\<rparr>"
  have r: "phys = of_nat f * 0x400000" "s' = t" using assms(2) Some by (simp_all add: fork_frame_alloc_def t_def ph)
  have l: "length (fork_frames s) = 12" and sh: "shape s" "entries_ok s" using assms(1) by (simp_all add: paging_inv_but_def shape_def)
  have h: "holders t g = holders s g" for g by (simp add: t_def holders_def)
  have fr: "fork_frames t ! (g - 20) \<longleftrightarrow> g = f \<or> fork_frames s ! (g - 20)" if "pooled g" for g
    using that i(1) l by (auto simp: t_def f_def pooled_def nth_list_update)
  have e: "holders s f = {}" using assms(1) f i(2) by (auto simp: paging_inv_but_def)
  have "shape t" "entries_ok t" using sh by (auto simp: t_def shape_def entries_ok_def)
  then have "paging_inv_but {f} t" using assms(1) e by (simp add: paging_inv_but_def h fr)
  then show ?thesis using i f nz r by (auto simp: t_def)
qed

lemma pinv_sel: "paging_inv_but F s \<Longrightarrow> shape s" "paging_inv_but F s \<Longrightarrow> entries_ok s"
  by (simp_all add: paging_inv_but_def)

lemma pinv_frame: "paging_inv s \<Longrightarrow> pooled f \<Longrightarrow> if fork_frames s ! (f - 20) then \<exists>i j. holders s f = {(i, j)} else holders s f = {}"
  by (simp add: paging_inv_but_def)

lemma pinv_entry: "paging_inv_but F s \<Longrightarrow> in_use s i \<Longrightarrow> j < PAGE_DIR_ENTRIES \<Longrightarrow> entry_ok j (asdirs s ! i ! j)"
  by (simp add: paging_inv_but_def entries_ok_def in_use_def)

lemma dir_ptr_As [simp]: "paging_dir_ptr (AsDir i) s = AsDir i"
  by (simp add: paging_dir_ptr_def)

lemma dir_of_As [simp]: "dir_of (AsDir i) s = asdirs s ! i" "dir_of KernelDir s = page_dir s"
  by (simp_all add: dir_of_def)

lemma dir_of_pf [simp]: "dir_of d (s\<lparr>pf_count := n\<rparr>) = dir_of d s"
  by (simp add: dir_of_def split: dirref.split)

text \<open>An entry made accessible to the program.\<close>

lemma pinv_mark:
  assumes "paging_inv s" "in_use s i" "j < PAGE_DIR_ENTRIES" "\<not> window j"
  shows "paging_inv (paging_mark_user_pde (AsDir i) j s)"
proof -
  let ?e = "asdirs s ! i ! j"
  have p: "pool_page (?e OR PDE_USER) \<longleftrightarrow> pool_page ?e" by (simp add: pool_page_def entry_bits bit_or_iff flag_numerals)
  have "entry_ok j (?e OR PDE_USER)" using pinv_entry [OF assms(1-3)] assms(4) p
    by (auto simp: entry_ok_def entry_bits bit_or_iff flag_numerals)
  then have "paging_inv (set_pde (AsDir i) j (?e OR PDE_USER) s)" using p by (intro pinv_set_same [OF assms]) simp_all
  then show ?thesis using assms(3) by (simp add: paging_mark_user_pde_def)
qed

text \<open>A directory is created without any entry for programs.\<close>

lemma fresh_entry:
  assumes "shape s" "entries_ok s" "j < PAGE_DIR_ENTRIES"
  shows "entry_ok j ((take IDENTITY_PDES paging_fill_supervisor @ map (\<lambda>e. e AND NOT PDE_USER) (drop IDENTITY_PDES (page_dir s))) ! j)"
    "\<not> pool_page ((take IDENTITY_PDES paging_fill_supervisor @ map (\<lambda>e. e AND NOT PDE_USER) (drop IDENTITY_PDES (page_dir s))) ! j) \<or> window j"
proof -
  let ?e = "(take IDENTITY_PDES paging_fill_supervisor @ map (\<lambda>e. e AND NOT PDE_USER) (drop IDENTITY_PDES (page_dir s))) ! j"
  have l: "length paging_fill_supervisor = 1024" "length (page_dir s) = 1024" using assms(1) by (simp_all add: paging_fill_supervisor_def shape_def)
  have "entry_ok j ?e \<and> (\<not> pool_page ?e \<or> window j)"
  proof (cases "j < 32")
    case True
    then have "?e = of_nat j * 0x400000 OR pde_flags" using l by (simp add: nth_append paging_fill_supervisor_def)
    then show ?thesis using assms(3) by (auto simp: entry_ok_def pool_page_def window_def pooled_def entry_simps)
  next
    case False
    then obtain k where "j = 32 + k" by (metis not_less le_Suc_ex)
    then have e: "?e = page_dir s ! j AND NOT PDE_USER" using l assms(3) by (simp add: nth_append)
    have "kernel_entry_ok j (page_dir s ! j)" using assms(2,3) by (simp add: entries_ok_def)
    then have "frame_of ?e = j \<and> pse ?e" if "present ?e" using that unfolding e frame_flags
      by (auto simp: kernel_entry_ok_def entry_bits bit_and_iff bit_not_iff flag_numerals)
    then show ?thesis using False by (auto simp: entry_ok_def pool_page_def window_def pooled_def)
  qed
  then show "entry_ok j ?e" "\<not> pool_page ?e \<or> window j" by blast+
qed

lemma create_dir:
  assumes "paging_inv s" "paging_create_identity_dir s = (d, s')"
  shows "d = NoDir \<and> s' = s \<or>
    (\<exists>i. d = AsDir i \<and> i < PAGING_ASDIR_MAX \<and> \<not> asdir_used s ! i \<and> paging_inv s' \<and> in_use s' i \<and>
      asdir_used s' = (asdir_used s)[i := True] \<and> (\<forall>k < PAGING_ASDIR_MAX. k \<noteq> i \<longrightarrow> asdirs s' ! k = asdirs s ! k) \<and>
      fork_frames s' = fork_frames s \<and> pmem s' = pmem s \<and> cr3 s' = cr3 s \<and> page_dir s' = page_dir s \<and>
      (\<forall>j < PAGE_DIR_ENTRIES. \<not> window j \<longrightarrow> \<not> pool_page (asdirs s' ! i ! j)))"
proof (cases "find_slot Not (asdir_used s)")
  case None
  then show ?thesis using assms by (auto simp: paging_create_identity_dir_def paging_inv_but_def shape_def)
next
  case (Some i)
  let ?new = "take IDENTITY_PDES paging_fill_supervisor @ map (\<lambda>e. e AND NOT PDE_USER) (drop IDENTITY_PDES (page_dir s))"
  have sh: "shape s" "entries_ok s" using assms(1) by (simp_all add: paging_inv_but_def)
  have i: "i < 16" "\<not> asdir_used s ! i" using find_slot_SomeD [OF Some] sh(1) by (auto simp: shape_def)
  have r: "d = AsDir i" "s' = s\<lparr>asdir_used := (asdir_used s)[i := True], asdirs := (asdirs s)[i := ?new]\<rparr>"
    using assms(2) Some sh(1) by (simp_all add: paging_create_identity_dir_def shape_def)
  have ln: "length ?new = 1024" using sh(1) by (simp add: paging_fill_supervisor_def shape_def)
  have at: "asdirs s' ! k = (if k = i then ?new else asdirs s ! k)" "asdir_used s' ! k \<longleftrightarrow> k = i \<or> asdir_used s ! k" if "k < 16" for k
    using that i(1) sh(1) by (auto simp: r(2) shape_def nth_list_update)
  have f: "entry_ok j (?new ! j)" "\<not> window j \<Longrightarrow> \<not> pool_page (?new ! j)" if "j < 1024" for j using fresh_entry [OF sh that] by blast+
  have h: "holders s' g = holders s g" for g using f i(2) by (auto simp: holders_def at split: if_splits)
  have "shape s'" using sh(1) ln at(1) by (auto simp: shape_def r(2))
  moreover have "entries_ok s'" using sh(2) f(1) at by (auto simp: entries_ok_def r(2))
  ultimately have "paging_inv s'" using assms(1) by (simp add: paging_inv_but_def h) (simp add: r(2))
  then show ?thesis using i r f(2) at by (auto simp: in_use_def)
qed

lemma identity_entry:
  assumes "j < PAGE_DIR_ENTRIES" "\<not> window j" "fl = pde_flags \<or> fl = pde_flags OR PDE_USER"
  shows "entry_ok j (of_nat j * 0x400000 OR fl)" "\<not> pool_page (of_nat j * 0x400000 OR fl)" "kernel_entry_ok j (of_nat j * 0x400000 OR fl)"
proof -
  have f: "frame_of (of_nat j * 0x400000 OR fl) = j" using assms(1,3) by (auto simp: frame_of_mk drop_flags)
  show "\<not> pool_page (of_nat j * 0x400000 OR fl)" using assms(2) f by (auto simp: pool_page_def pooled_def window_def)
  then show "entry_ok j (of_nat j * 0x400000 OR fl)" "kernel_entry_ok j (of_nat j * 0x400000 OR fl)"
    using assms(2,3) f by (auto simp: entry_ok_def kernel_entry_ok_def pool_page_def entry_simps)
qed

lemma pinv_set_kernel:
  assumes "paging_inv_but F s" "j < PAGE_DIR_ENTRIES" "kernel_entry_ok j e"
  shows "paging_inv_but F (set_pde KernelDir j e s)"
proof -
  have "holders (set_pde KernelDir j e s) f = holders s f" for f by (simp add: holders_def)
  moreover have "page_dir (set_pde KernelDir j e s) = (page_dir s)[j := e]" by (simp add: set_pde_def set_dir_def)
  moreover have "shape (set_pde KernelDir j e s)" using assms(1) by (simp add: paging_inv_but_def shape_set_pde)
  ultimately show ?thesis using assms by (auto simp: paging_inv_but_def entries_ok_def shape_def nth_list_update)
qed

lemma pinv_set_unused:
  assumes "paging_inv_but F s" "i < PAGING_ASDIR_MAX" "\<not> asdir_used s ! i" "j < PAGE_DIR_ENTRIES"
  shows "paging_inv_but F (set_pde (AsDir i) j e s)"
proof -
  have s: "shape s" "entries_ok s" using assms(1) by (simp_all add: paging_inv_but_def)
  have e: "asdirs (set_pde (AsDir i) j e s) ! k ! l = asdirs s ! k ! l" if "k < 16" "asdir_used s ! k" for k l
    using asdirs_set_pde [OF s(1) assms(2,4) that(1)] that(2) assms(3) by auto
  then have "holders (set_pde (AsDir i) j e s) f = holders s f" for f by (auto simp: holders_def)
  moreover have "entries_ok (set_pde (AsDir i) j e s)" using s(2) e by (auto simp: entries_ok_def)
  ultimately show ?thesis using assms(1) shape_set_pde [OF s(1)] by (simp add: paging_inv_but_def)
qed

lemma pinv_page_fault:
  assumes "paging_inv_but F s" "cur_ok s"
  shows "paging_inv_but F (snd (page_fault ec a u s))" "cur_ok (snd (page_fault ec a u s))"
proof -
  have c: "paging_inv_but F (s\<lparr>pf_count := n\<rparr>)" for n using assms(1) pinv_cong [of "s\<lparr>pf_count := n\<rparr>" s] by simp
  have k: "cur_ok (set_pde d j e (s\<lparr>pf_count := n\<rparr>))" for d j e n using assms(2) by (simp add: cur_ok_def)
  have i: "in_use (s\<lparr>pf_count := n\<rparr>) i \<longleftrightarrow> in_use s i" for i n by (simp add: in_use_def)
  have s: "paging_inv_but F (set_pde (cr3 s) j (of_nat j * 0x400000 OR (if b then pde_flags OR PDE_USER else pde_flags)) (s\<lparr>pf_count := n\<rparr>))"
    if j: "j < PAGE_DIR_ENTRIES" and ab: "\<not> present (dir_of (cr3 s) s ! j)" for j b n
    using assms(2) unfolding cur_ok_def
  proof (elim disjE exE conjE)
    assume cr: "cr3 s = KernelDir"
    have "kernel_entry_ok j (of_nat j * 0x400000 OR (if b then pde_flags OR PDE_USER else pde_flags))"
      using j by (auto simp: kernel_entry_ok_def entry_simps)
    then show ?thesis unfolding cr by (rule pinv_set_kernel [OF c j])
  next
    fix i assume cr: "i < PAGING_ASDIR_MAX" "cr3 s = AsDir i"
    show ?thesis
    proof (cases "asdir_used s ! i")
      case True
      then have u: "in_use (s\<lparr>pf_count := n\<rparr>) i" using cr(1) by (simp add: in_use_def)
      have w: "\<not> window j" using pinv_entry [OF c u j] ab cr(2) by (auto simp: entry_ok_def)
      have "(if b then pde_flags OR PDE_USER else pde_flags) = pde_flags \<or> (if b then pde_flags OR PDE_USER else pde_flags) = pde_flags OR PDE_USER" by simp
      note e = identity_entry [OF j w this]
      have "\<not> pool_page (asdirs s ! i ! j)" using ab cr(2) by (simp add: pool_page_def)
      then show ?thesis unfolding cr(2) using e by (intro pinv_set_same [OF c u j w]) simp_all
    next
      case False
      then show ?thesis unfolding cr(2) using cr(1) by (intro pinv_set_unused [OF c _ _ j]) simp_all
    qed
  qed
  show "paging_inv_but F (snd (page_fault ec a u s))" 
    using c s [OF frame_less, where b = True] s [OF frame_less, where b = False] by (auto simp: page_fault_def Let_def)
  show "cur_ok (snd (page_fault ec a u s))" using assms(2) k by (auto simp: page_fault_def Let_def) (auto simp: cur_ok_def)
qed

lemma page_fault_keeps: "asdir_used (snd (page_fault ec a u s)) = asdir_used s" "fork_frames (snd (page_fault ec a u s)) = fork_frames s"
  "pmem (snd (page_fault ec a u s)) = pmem s" "cr3 (snd (page_fault ec a u s)) = cr3 s"
  by (simp_all add: page_fault_def Let_def)

lemma pinv_pmem [simp]: "paging_inv_but F (s\<lparr>pmem := m\<rparr>) = paging_inv_but F s" "cur_ok (s\<lparr>pmem := m\<rparr>) = cur_ok s" "in_use (s\<lparr>pmem := m\<rparr>) i = in_use s i"
  by (rule pinv_cong) (simp_all add: cur_ok_def in_use_def)

lemma pinv_touch: "paging_inv_but F s \<Longrightarrow> cur_ok s \<Longrightarrow> paging_inv_but F (kernel_touch i s)" "paging_inv_but F s \<Longrightarrow> cur_ok s \<Longrightarrow> cur_ok (kernel_touch i s)"
  using pinv_page_fault by (simp_all add: kernel_touch_def)

lemma pinv_copy_page: "paging_inv_but F s \<Longrightarrow> cur_ok s \<Longrightarrow> paging_inv_but F (copy_page i j s)" "paging_inv_but F s \<Longrightarrow> cur_ok s \<Longrightarrow> cur_ok (copy_page i j s)"
  using pinv_touch [OF pinv_touch] by (simp_all add: copy_page_def Let_def)

lemma copy_page_keeps: "asdir_used (copy_page i j s) = asdir_used s" "fork_frames (copy_page i j s) = fork_frames s" "cr3 (copy_page i j s) = cr3 s"
  by (simp_all add: copy_page_def kernel_touch_def Let_def page_fault_keeps)

text \<open>A present entry stays as it is when the kernel accesses other pages.\<close>

lemma page_fault_present:
  assumes "shape s" "i < PAGING_ASDIR_MAX" "present (asdirs s ! i ! j)"
  shows "asdirs (snd (page_fault ec a u s)) ! i ! j = asdirs s ! i ! j"
proof -
  let ?t = "s\<lparr>pf_count := pf_count s + 1\<rparr>"
  have "(asdirs s)[x := (asdirs s ! x)[k := e]] ! i ! j = asdirs s ! i ! j" if "\<not> present (asdirs s ! x ! k)" for x k e
  proof (cases "x = i \<and> k = j")
    case False
    then show ?thesis using assms(1,2) by (cases "x = i") (simp_all add: shape_def)
  qed (use that assms(3) in simp)
  then have "asdirs (set_pde d k e ?t) ! i ! j = asdirs s ! i ! j" if "\<not> present (dir_of d ?t ! k)" for d k e
    using that by (cases d) (simp_all add: set_pde_def set_dir_def dir_of_def)
  then show ?thesis by (auto simp: page_fault_def Let_def)
qed

text \<open>The entry of a page taken from the pool.\<close>

lemma taken_entry:
  assumes "pooled f" "\<not> window j" "present e" "pse e" "user e \<or> fl = PDE_USER" "fl = 0 \<or> fl = PDE_USER"
  shows "entry_ok j (of_nat f * 0x400000 OR (e AND 0xFFF OR fl))" "pool_page (of_nat f * 0x400000 OR (e AND 0xFFF OR fl))"
    "frame_of (of_nat f * 0x400000 OR (e AND 0xFFF OR fl)) = f"
proof -
  have d: "drop_bit 22 (e AND 0xFFF OR fl) = 0" using assms(6) drop_flags(3,4) [of e] by (elim disjE) simp_all
  show f: "frame_of (of_nat f * 0x400000 OR (e AND 0xFFF OR fl)) = f" using assms(1) d by (intro frame_of_mk) (simp_all add: pooled_def)
  show p: "pool_page (of_nat f * 0x400000 OR (e AND 0xFFF OR fl))"
    using assms(1,3) f by (simp add: pool_page_def entry_bits flags_mk bit_or_iff bit_and_iff low_mask_bit)
  show "entry_ok j (of_nat f * 0x400000 OR (e AND 0xFFF OR fl))"
    using assms(2-5) p by (auto simp: entry_ok_def entry_bits flags_mk bit_or_iff bit_and_iff low_mask_bit flag_numerals)
qed

lemma frame_of_page: "pooled f \<Longrightarrow> frame_of (of_nat f * 0x400000) = f"
  using frame_of_mk [of f 0] by (simp add: pooled_def)

text \<open>A page of a program becomes private; when the pool is empty nothing changes.\<close>

lemma pinv_privatize:
  assumes "paging_inv s" "cur_ok s" "in_use s i" "j < PAGE_DIR_ENTRIES" "\<not> window j"
  shows "paging_inv (snd (paging_privatize_user_pde (AsDir i) j s))"
proof -
  let ?e = "asdirs s ! i ! j"
  obtain phys s1 where al: "fork_frame_alloc s = (phys, s1)" by (cases "fork_frame_alloc s")
  note fa = frame_alloc [OF assms(1) al]
  show ?thesis
  proof (cases "present ?e \<and> pse ?e \<and> \<not> pooled (frame_of ?e) \<and> phys \<noteq> 0")
    case True
    then obtain f n where f: "pooled f" "phys = of_nat f * 0x400000" "paging_inv_but {f} s1"
      and s1: "s1 = s\<lparr>fork_frames := (fork_frames s)[f - 20 := True], fork_frame_next := n\<rparr>" using fa by (auto split: if_splits)
    define t where "t = copy_page j (frame_of phys) s1"
    have c: "cur_ok s1" using assms(2) by (simp add: s1 cur_ok_def)
    have t: "paging_inv_but {f} t" "in_use t i" using pinv_copy_page(1) [OF f(3) c] assms(3) by (simp_all add: t_def in_use_def copy_page_keeps) (simp add: s1)
    have "\<not> pool_page (asdirs t ! i ! j)"
    proof -
      have sh: "shape s1" using f(3) by (rule pinv_sel)
      have i: "i < 16" using assms(3) by (simp add: in_use_def)
      have p: "present (asdirs s1 ! i ! j)" using True by (simp add: s1)
      have k: "asdirs (kernel_touch x u) ! i ! j = asdirs u ! i ! j" if "shape u" "present (asdirs u ! i ! j)" for x u
        using page_fault_present [OF that(1) i that(2)] by (simp add: kernel_touch_def)
      have "shape (kernel_touch x s1)" for x using pinv_touch(1) [OF f(3) c] by (rule pinv_sel)
      then have "asdirs t ! i ! j = ?e" using k [OF sh p] k p by (simp add: t_def copy_page_def Let_def) (simp add: s1)
      then show ?thesis using True by (simp add: pool_page_def)
    qed
    then have "paging_inv (set_pde (AsDir i) j (of_nat f * 0x400000 OR (?e AND 0xFFF OR PDE_USER)) t)"
      using taken_entry [OF f(1) assms(5), of ?e PDE_USER] True by (intro pinv_enter [OF t(1) f(1) t(2) assms(4,5)]) simp_all
    then show ?thesis using True assms(4) al f(2) by (simp add: paging_privatize_user_pde_def Let_def is_pool t_def or.assoc)
  next
    case False
    have "s1 = s" if "phys = 0" using fa that by (auto split: if_splits)
    then show ?thesis using False assms(1,4) al by (auto simp: paging_privatize_user_pde_def Let_def is_pool)
  qed
qed

lemma kernel_supervisor:
  assumes "paging_inv s" "j < PAGE_DIR_ENTRIES" "\<not> window j"
  shows "entry_ok j (page_dir s ! j AND NOT PDE_USER)" "\<not> pool_page (page_dir s ! j AND NOT PDE_USER)"
proof -
  let ?e = "page_dir s ! j AND NOT PDE_USER"
  have "kernel_entry_ok j (page_dir s ! j)" using assms(1,2) by (simp add: paging_inv_but_def entries_ok_def)
  then have "frame_of ?e = j \<and> pse ?e" if "present ?e" using that unfolding frame_flags
    by (auto simp: kernel_entry_ok_def entry_bits bit_and_iff bit_not_iff flag_numerals)
  then show "entry_ok j ?e" "\<not> pool_page ?e" using assms(3) by (auto simp: entry_ok_def pool_page_def window_def pooled_def)
qed

text \<open>The page of an entry is given back.\<close>

lemma pinv_free_pde:
  assumes "paging_inv s" "in_use s i" "j < PAGE_DIR_ENTRIES" "\<not> window j"
  shows "paging_inv (paging_free_pde_frame (AsDir i) j s)"
proof -
  let ?e = "asdirs s ! i ! j"
  note k = kernel_supervisor [OF assms(1,3,4)]
  have q: "pse ?e" if "present ?e" using pinv_entry [OF assms(1-3)] that by (simp add: entry_ok_def)
  show ?thesis
  proof (cases "pool_page ?e")
    case True
    then have "paging_free_pde_frame (AsDir i) j s =
      set_pde (AsDir i) j (page_dir s ! j AND NOT PDE_USER) (s\<lparr>fork_frames := (fork_frames s)[frame_of ?e - 20 := False]\<rparr>)"
      using q assms(3) by (simp add: paging_free_pde_frame_def Let_def frame_free pool_page_def)
    then show ?thesis using pinv_drop [OF assms k True HOL.refl] by simp
  next
    case False
    then have "paging_free_pde_frame (AsDir i) j s = set_pde (AsDir i) j (page_dir s ! j AND NOT PDE_USER) s"
      using assms(3) by (auto simp: paging_free_pde_frame_def Let_def frame_free pool_page_def)
    then show ?thesis using False k by (simp only:) (rule pinv_set_same [OF assms k(1)]; simp)
  qed
qed

text \<open>Freeing a directory gives back all its pages.\<close>

definition freed :: "u32 \<Rightarrow> bool" where
  "freed e \<longleftrightarrow> present e \<and> user e \<and> pse e"

lemma fold_free_entry:
  "length (fork_frames s) = 12 \<Longrightarrow>
   fold free_entry es s = s\<lparr>fork_frames := map (\<lambda>k. fork_frames s ! k \<and> \<not> (\<exists>e \<in> set es. freed e \<and> frame_of e = k + 20)) [0..<12]\<rparr>"
proof (induction es arbitrary: s)
  case Nil
  have "map (\<lambda>k. fork_frames s ! k) [0..<length (fork_frames s)] = fork_frames s" by (rule map_nth)
  then show ?case using Nil by simp
next
  case (Cons e es)
  have fe: "free_entry e s = s\<lparr>fork_frames := map (\<lambda>k. fork_frames s ! k \<and> \<not> (freed e \<and> frame_of e = k + 20)) [0..<12]\<rparr>"
  proof (cases "freed e \<and> pooled (frame_of e)")
    case True
    have "(fork_frames s)[frame_of e - 20 := False] = map (\<lambda>k. fork_frames s ! k \<and> \<not> (freed e \<and> frame_of e = k + 20)) [0..<12]"
      using True Cons.prems by (intro nth_equalityI) (auto simp: nth_list_update pooled_def split: if_splits)
    then show ?thesis using True by (simp add: free_entry_def freed_def frame_free)
  next
    case False
    have "map (\<lambda>k. fork_frames s ! k \<and> \<not> (freed e \<and> frame_of e = k + 20)) [0..<12] = fork_frames s"
      using False Cons.prems by (intro nth_equalityI) (auto simp: pooled_def)
    then show ?thesis using False by (simp add: free_entry_def freed_def frame_free)
  qed
  have l: "length (fork_frames (free_entry e s)) = 12" by (simp add: fe)
  have "map (\<lambda>k. fork_frames (free_entry e s) ! k \<and> \<not> (\<exists>e \<in> set es. freed e \<and> frame_of e = k + 20)) [0..<12] =
    map (\<lambda>k. fork_frames s ! k \<and> \<not> (\<exists>e \<in> set (e # es). freed e \<and> frame_of e = k + 20)) [0..<12]"
    by (rule map_cong) (auto simp: fe)
  then show ?case unfolding fold_Cons comp_apply Cons.IH [OF l] by (simp only:) (simp add: fe)
qed

lemma pinv_free_dir:
  assumes "paging_inv s" "in_use s i" "s' = paging_free_dir (AsDir i) s"
  shows "paging_inv s'" "asdir_used s' = (asdir_used s)[i := False]" "asdirs s' = asdirs s" "cr3 s' = cr3 s" "pmem s' = pmem s" "page_dir s' = page_dir s"
proof -
  let ?es = "asdirs s ! i"
  have sh: "shape s" using assms(1) by (rule pinv_sel)
  have l: "length (fork_frames s) = 12" "length ?es = 1024" "kernel_cr3 s = KernelDir" and i: "i < 16" "length (asdir_used s) = 16"
    using sh assms(2) by (simp_all add: shape_def in_use_def)
  have r: "s' = s\<lparr>fork_frames := map (\<lambda>k. fork_frames s ! k \<and> \<not> (\<exists>e \<in> set ?es. freed e \<and> frame_of e = k + 20)) [0..<12],
      asdir_used := (asdir_used s)[i := False]\<rparr>"
    using l by (simp add: assms(3) paging_free_dir_def fold_free_entry)
  then show "asdir_used s' = (asdir_used s)[i := False]" "asdirs s' = asdirs s" "cr3 s' = cr3 s" "pmem s' = pmem s" "page_dir s' = page_dir s"
    by simp_all
  have ok: "entry_ok j (?es ! j)" if "j < 1024" for j using pinv_entry [OF assms(1,2) that] .
  have us: "asdir_used s' ! k \<longleftrightarrow> k \<noteq> i \<and> asdir_used s ! k" if "k < 16" for k using that i by (simp add: r nth_list_update)
  have h: "holders s' f = {p \<in> holders s f. fst p \<noteq> i}" for f by (auto simp: holders_def us) (simp_all add: r)
  have gone: "(\<exists>e \<in> set ?es. freed e \<and> frame_of e = f) \<longleftrightarrow> (\<exists>j. (i, j) \<in> holders s f)" if "pooled f" for f
  proof
    assume "\<exists>e \<in> set ?es. freed e \<and> frame_of e = f"
    then obtain j where j: "j < 1024" "freed (?es ! j)" "frame_of (?es ! j) = f" using l(2) by (auto simp: in_set_conv_nth)
    then have "\<not> window j" using ok [OF j(1)] by (auto simp: entry_ok_def freed_def)
    then have "(i, j) \<in> holders s f" using j that assms(2) by (simp add: holders_def in_use_def pool_page_def freed_def)
    then show "\<exists>j. (i, j) \<in> holders s f" ..
  next
    assume "\<exists>j. (i, j) \<in> holders s f"
    then obtain j where j: "j < 1024" "\<not> window j" "pool_page (?es ! j)" "frame_of (?es ! j) = f" by (auto simp: holders_def)
    then have "freed (?es ! j)" using ok [OF j(1)] by (auto simp: entry_ok_def freed_def pool_page_def)
    then show "\<exists>e \<in> set ?es. freed e \<and> frame_of e = f" using j l(2) by auto
  qed
  have fr: "fork_frames s' ! (f - 20) \<longleftrightarrow> fork_frames s ! (f - 20) \<and> \<not> (\<exists>j. (i, j) \<in> holders s f)" if "pooled f" for f
  proof -
    have "f = (f - 20) + 20" "f - 20 < 12" using that by (auto simp: pooled_def)
    then obtain k where "f = k + 20" "k < 12" by blast
    then show ?thesis unfolding gone [OF that, symmetric] by (simp add: r)
  qed
  have a: "if fork_frames s' ! (f - 20) then \<exists>x y. holders s' f = {(x, y)} else holders s' f = {}" if pf: "pooled f" for f
  proof (cases "fork_frames s ! (f - 20)")
    case True
    then obtain x y where "holders s f = {(x, y)}" using pinv_frame [OF assms(1) pf] by auto
    then have "holders s' f = (if x = i then {} else {(x, y)})" by (auto simp: h)
    then show ?thesis using True \<open>holders s f = {(x, y)}\<close> by (auto simp: fr [OF pf])
  next
    case False
    then show ?thesis using pinv_frame [OF assms(1) pf] by (auto simp: fr [OF pf] h)
  qed
  have "shape s'" using sh by (simp add: r shape_def)
  moreover have "entries_ok s'" using pinv_sel(2) [OF assms(1)] us by (auto simp: entries_ok_def) (simp_all add: r)
  ultimately show "paging_inv s'" using a by (simp add: paging_inv_but_def)
qed

text \<open>Mapping device memory.\<close>

definition not_user :: "paging \<Rightarrow> nat \<Rightarrow> bool" where
  "not_user s p \<longleftrightarrow> (\<forall>i. in_use s i \<longrightarrow> \<not> user (asdirs s ! i ! p))"

lemma pinv_map_one:
  assumes "paging_inv s" "32 \<le> p" "p < PAGE_DIR_ENTRIES" "not_user s p"
  shows "paging_inv (map_one p s)" "not_user s q \<Longrightarrow> not_user (map_one p s) q"
proof -
  let ?e = "of_nat p * 0x400000 OR pde_flags"
  have w: "\<not> window p" using assms(2) by (simp add: window_def)
  have sh: "shape s" using assms(1) by (rule pinv_sel)
  have u: "asdir_used (map_one p s) = asdir_used s" by (simp add: map_one_def)
  have at: "asdirs (map_one p s) ! i = (if asdir_used s ! i then (asdirs s ! i)[p := ?e] else asdirs s ! i)" if "i < 16" for i
    using that sh by (simp add: map_one_def shape_def)
  have e: "asdirs (map_one p s) ! i ! j = (if j = p then ?e else asdirs s ! i ! j)" if "in_use s i" for i j
    using that sh assms(3) by (auto simp: at in_use_def shape_def)
  have np: "\<not> pool_page (asdirs s ! i ! p)" if "in_use s i" for i
    using pinv_entry [OF assms(1) that assms(3)] assms(4) that w by (auto simp: entry_ok_def not_user_def pool_page_def split: if_splits)
  note k = identity_entry [OF assms(3) w, of pde_flags] identity_entry [OF assms(3) w, of "pde_flags OR PDE_USER"]
  have h: "holders (map_one p s) f = holders s f" for f
    using np k by (auto simp: holders_def u e in_use_def split: if_splits)
  have "shape (map_one p s)" using sh at by (auto simp: shape_def map_one_def)
  moreover have "entries_ok (map_one p s)" using pinv_sel(2) [OF assms(1)] sh k assms(3)
    by (auto simp: entries_ok_def u e in_use_def) (auto simp: map_one_def shape_def nth_list_update or.assoc)
  ultimately show "paging_inv (map_one p s)" using assms(1) by (simp add: paging_inv_but_def h) (simp add: map_one_def)
  have "\<not> user ?e" by (simp add: entry_simps)
  then show "not_user (map_one p s) q" if "not_user s q" using that by (auto simp: not_user_def in_use_def u e)
qed

lemma pinv_map_physical:
  assumes "paging_inv s" "\<And>p. frame_of (phys AND NOT 0x3FFFFF) \<le> p \<Longrightarrow> p < frame_of ((phys + bytes + 0x3FFFFF) AND NOT 0x3FFFFF) \<Longrightarrow> 32 \<le> p \<and> not_user s p"
  shows "paging_inv (paging_map_physical phys bytes s)"
proof -
  have "paging_inv (fold map_one ps s)" if "\<forall>p \<in> set ps. 32 \<le> p \<and> p < PAGE_DIR_ENTRIES \<and> not_user s p" for ps
    using that assms(1)
  proof (induction ps arbitrary: s)
    case (Cons p ps)
    have "paging_inv (map_one p s)" "\<forall>q \<in> set ps. 32 \<le> q \<and> q < PAGE_DIR_ENTRIES \<and> not_user (map_one p s) q"
      using pinv_map_one [of s p] Cons.prems by auto
    then show ?case using Cons.IH by simp
  qed simp
  moreover have "\<forall>p \<in> set [frame_of (phys AND NOT 0x3FFFFF)..<frame_of ((phys + bytes + 0x3FFFFF) AND NOT 0x3FFFFF)]. 32 \<le> p \<and> p < PAGE_DIR_ENTRIES \<and> not_user s p"
    using assms(2) frame_less by (auto intro: less_trans)
  moreover have "paging_inv (t\<lparr>cr3 := c\<rparr>) = paging_inv t" for t c by (rule pinv_cong) simp_all
  ultimately show ?thesis using assms(1) by (simp add: paging_map_physical_def Let_def)
qed

section \<open>The deep copy of an address space\<close>

definition page_addr :: "nat \<Rightarrow> u32 \<Rightarrow> u32" where
  "page_addr f a = of_nat f * 0x400000 OR (a AND 0x3FFFFF)"

text \<open>What a program reads at an address.\<close>

definition view :: "paging \<Rightarrow> dirref \<Rightarrow> u32 \<Rightarrow> u8" where
  "view s d va = pmem s (page_addr (frame_of (dir_of d s ! frame_of va)) va)"

definition accessible :: "paging \<Rightarrow> dirref \<Rightarrow> nat \<Rightarrow> bool" where
  "accessible s d j \<longleftrightarrow> freed (dir_of d s ! j)"

lemma frame_page_addr: "f < 1024 \<Longrightarrow> frame_of (page_addr f a) = f"
  unfolding page_addr_def by (rule frame_of_mk) (auto intro!: bit_word_eqI simp: bit_simps low_mask_bit)

lemma page_addr_idem: "page_addr g (page_addr f a) = page_addr g a"
proof -
  have "page_addr f a AND 0x3FFFFF = a AND 0x3FFFFF"
    unfolding page_addr_def by (rule bit_word_eqI, simp only: bit_and_iff bit_or_iff low_mask_bit) (use page_bits in blast)
  then show ?thesis by (simp add: page_addr_def)
qed

definition taken_in :: "paging \<Rightarrow> nat \<Rightarrow> bool" where
  "taken_in s f \<longleftrightarrow> pooled f \<longrightarrow> fork_frames s ! (f - 20)"

text \<open>The copy of a page in the address space it belongs to.\<close>

lemma copy_user_page:
  assumes "paging_inv_but F s" "in_use s a" "cr3 s = AsDir a" "j < PAGE_DIR_ENTRIES" "present (asdirs s ! a ! j)" "pooled f"
  shows "copy_page (frame_of (asdirs s ! a ! j)) f s =
    s\<lparr>pmem := (\<lambda>x. if frame_of x = f then pmem s (page_addr (frame_of (asdirs s ! a ! j)) x) else pmem s x)\<rparr>"
proof -
  let ?g = "frame_of (asdirs s ! a ! j)"
  have win: "present (asdirs s ! a ! k) \<and> frame_of (asdirs s ! a ! k) = k" if "pooled k" for k
    using pinv_entry [OF assms(1,2), of k] that by (auto simp: entry_ok_def window_def pooled_def)
  have g: "present (asdirs s ! a ! ?g) \<and> frame_of (asdirs s ! a ! ?g) = ?g"
  proof (cases "pooled ?g")
    case False
    then have "?g = j" using pinv_entry [OF assms(1,2,4)] assms(5) by (auto simp: entry_ok_def pool_page_def split: if_splits)
    then show ?thesis using assms(5) by simp
  qed (rule win)
  have "kernel_touch ?g s = s" "kernel_touch f s = s" using g win [OF assms(6)] assms(3) by (simp_all add: kernel_touch_def)
  then show ?thesis using g win [OF assms(6)] assms(3) by (simp add: copy_page_def Let_def page_addr_def cong: if_cong)
qed

text \<open>One page copied into the new directory: the frame was free, and no other memory changes.\<close>

lemma clone_page:
  assumes s: "paging_inv s" "in_use s a" "in_use s b" "a \<noteq> b" "cr3 s = AsDir a" and i: "i < PAGE_DIR_ENTRIES" "\<not> pool_page (asdirs s ! b ! i)"
    and e: "freed (asdirs s ! a ! i)" and al: "fork_frame_alloc s = (phys, s1)" "phys \<noteq> 0"
    and t: "t = set_pde (AsDir b) i (phys OR (asdirs s ! a ! i AND 0xFFF)) (copy_page (frame_of (asdirs s ! a ! i)) (frame_of phys) s1)"
  shows "paging_inv t" "asdir_used t = asdir_used s" "cr3 t = cr3 s"
    "\<And>k j. k < PAGING_ASDIR_MAX \<Longrightarrow> (k, j) \<noteq> (b, i) \<Longrightarrow> asdirs t ! k ! j = asdirs s ! k ! j"
    "freed (asdirs t ! b ! i)" "\<And>f. taken_in s f \<Longrightarrow> taken_in t f" "taken_in t (frame_of (asdirs t ! b ! i))"
    "\<And>x. taken_in s (frame_of x) \<Longrightarrow> pmem t x = pmem s x"
    "\<And>x. pmem t (page_addr (frame_of (asdirs t ! b ! i)) x) = pmem s (page_addr (frame_of (asdirs s ! a ! i)) x)"
proof -
  let ?e = "asdirs s ! a ! i"
  obtain f n where f: "pooled f" "\<not> fork_frames s ! (f - 20)" "phys = of_nat f * 0x400000" "paging_inv_but {f} s1"
    and s1: "s1 = s\<lparr>fork_frames := (fork_frames s)[f - 20 := True], fork_frame_next := n\<rparr>"
    using frame_alloc [OF s(1) al(1)] al(2) by (auto split: if_splits)
  have w: "\<not> window i" using pinv_entry [OF s(1,2) i(1)] e by (auto simp: entry_ok_def freed_def)
  have u: "in_use s1 a" "in_use s1 b" "cr3 s1 = AsDir a" "asdirs s1 = asdirs s" using s by (simp_all add: s1 in_use_def)
  have "copy_page (frame_of ?e) f s1 = s1\<lparr>pmem := (\<lambda>x. if frame_of x = f then pmem s (page_addr (frame_of ?e) x) else pmem s x)\<rparr>" (is "_ = ?c")
    using copy_user_page [OF f(4) u(1,3) i(1) _ f(1)] e by (simp add: u(4) freed_def) (simp add: s1 cong: if_cong)
  then have t': "t = set_pde (AsDir b) i (of_nat f * 0x400000 OR (?e AND 0xFFF OR 0)) ?c" by (simp add: t f(3) frame_of_page [OF f(1)])
  have fe: "present ?e" "pse ?e" "user ?e" using e by (simp_all add: freed_def)
  note te = taken_entry [OF f(1) w fe(1,2), of 0, OF disjI1 [OF fe(3)] disjI1 [OF HOL.refl]]
  have sh: "shape ?c" using f(4) by (simp add: pinv_sel)
  have b: "b < 16" using s(3) by (simp add: in_use_def)
  show "paging_inv t" unfolding t' using te i(2) f(4) u(2,4) by (intro pinv_enter [OF _ f(1) _ i(1) w]) simp_all
  show "asdir_used t = asdir_used s" "cr3 t = cr3 s" by (simp_all add: t') (simp_all add: s1)
  show "asdirs t ! k ! j = asdirs s ! k ! j" if "k < PAGING_ASDIR_MAX" "(k, j) \<noteq> (b, i)" for k j
    unfolding t' asdirs_set_pde [OF sh b i(1) that(1)] using that by (auto simp: u(4))
  have at: "asdirs t ! b ! i = of_nat f * 0x400000 OR (?e AND 0xFFF OR 0)" unfolding t' asdirs_set_pde [OF sh b i(1) b] by simp
  show "freed (asdirs t ! b ! i)" using fe by (simp add: at freed_def entry_bits flags_mk bit_and_iff low_mask_bit)
  have l: "length (fork_frames s) = 12" using pinv_sel(1) [OF s(1)] by (simp add: shape_def)
  have fr: "fork_frames t = (fork_frames s)[f - 20 := True]" by (simp add: t') (simp add: s1)
  show "taken_in t g" if "taken_in s g" for g using that l f(1) by (auto simp: taken_in_def fr nth_list_update pooled_def)
  show "taken_in t (frame_of (asdirs t ! b ! i))" using f(1) l by (simp only: at te(3)) (auto simp: taken_in_def fr pooled_def)
  have pm: "pmem t x = (if frame_of x = f then pmem s (page_addr (frame_of ?e) x) else pmem s x)" for x by (simp add: t')
  show "pmem t x = pmem s x" if "taken_in s (frame_of x)" for x using that f(1,2) by (auto simp: pm taken_in_def)
  show "pmem t (page_addr (frame_of (asdirs t ! b ! i)) x) = pmem s (page_addr (frame_of ?e) x)" for x
    unfolding at te(3) using f(1) by (simp add: pm frame_page_addr page_addr_idem pooled_def)
qed

lemma freed_taken: "paging_inv s \<Longrightarrow> in_use s a \<Longrightarrow> i < PAGE_DIR_ENTRIES \<Longrightarrow> freed (asdirs s ! a ! i) \<Longrightarrow> taken_in s (frame_of (asdirs s ! a ! i))"
proof -
  assume s: "paging_inv s" "in_use s a" "i < PAGE_DIR_ENTRIES" "freed (asdirs s ! a ! i)"
  let ?f = "frame_of (asdirs s ! a ! i)"
  have "(a, i) \<in> holders s ?f" if "pooled ?f"
    using pinv_entry [OF s(1-3)] s that by (auto simp: holders_def in_use_def pool_page_def entry_ok_def freed_def)
  then show ?thesis using pinv_frame [OF s(1), of ?f] by (auto simp: taken_in_def split: if_splits)
qed

text \<open>The pages of a set of places are copied from one directory to another.\<close>

definition page_cloned :: "nat \<Rightarrow> nat \<Rightarrow> paging \<Rightarrow> paging \<Rightarrow> nat \<Rightarrow> bool" where
  "page_cloned a b s t i \<longleftrightarrow>
     (if freed (asdirs s ! a ! i)
      then freed (asdirs t ! b ! i) \<and> taken_in t (frame_of (asdirs t ! b ! i)) \<and>
        (\<forall>x. pmem t (page_addr (frame_of (asdirs t ! b ! i)) x) = pmem s (page_addr (frame_of (asdirs s ! a ! i)) x))
      else asdirs t ! b ! i = asdirs s ! a ! i)"

definition cloned :: "nat \<Rightarrow> nat \<Rightarrow> nat set \<Rightarrow> paging \<Rightarrow> bool \<Rightarrow> paging \<Rightarrow> bool" where
  "cloned a b I s ok t \<longleftrightarrow> paging_inv t \<and> asdir_used t = (if ok then asdir_used s else (asdir_used s)[b := False]) \<and> cr3 t = cr3 s \<and>
     (\<forall>k < PAGING_ASDIR_MAX. k \<noteq> b \<longrightarrow> (\<forall>j. asdirs t ! k ! j = asdirs s ! k ! j)) \<and>
     (\<forall>x. taken_in s (frame_of x) \<longrightarrow> pmem t x = pmem s x) \<and>
     (ok \<longrightarrow> (\<forall>i. i \<notin> I \<longrightarrow> asdirs t ! b ! i = asdirs s ! b ! i) \<and> (\<forall>f. taken_in s f \<longrightarrow> taken_in t f) \<and> (\<forall>i \<in> I. page_cloned a b s t i))"

lemma cloned_trans:
  assumes s: "paging_inv s" "in_use s a" "a \<noteq> b" and c: "cloned a b I s True u" "cloned a b J u ok t" and d: "I \<inter> J = {}" "\<forall>i \<in> J. i < PAGE_DIR_ENTRIES"
  shows "cloned a b (I \<union> J) s ok t"
proof -
  have u: "asdir_used u = asdir_used s" "cr3 u = cr3 s" "\<And>k j. k < 16 \<Longrightarrow> k \<noteq> b \<Longrightarrow> asdirs u ! k ! j = asdirs s ! k ! j"
    "\<And>x. taken_in s (frame_of x) \<Longrightarrow> pmem u x = pmem s x" "\<And>i. i \<notin> I \<Longrightarrow> asdirs u ! b ! i = asdirs s ! b ! i"
    "\<And>f. taken_in s f \<Longrightarrow> taken_in u f" "\<And>i. i \<in> I \<Longrightarrow> page_cloned a b s u i" using c(1) by (simp_all add: cloned_def)
  have t: "paging_inv t" "asdir_used t = (if ok then asdir_used u else (asdir_used u)[b := False])" "cr3 t = cr3 u"
    "\<And>k j. k < 16 \<Longrightarrow> k \<noteq> b \<Longrightarrow> asdirs t ! k ! j = asdirs u ! k ! j" "\<And>x. taken_in u (frame_of x) \<Longrightarrow> pmem t x = pmem u x" using c(2) by (simp_all add: cloned_def)
  have tk: "\<And>i. i \<notin> J \<Longrightarrow> asdirs t ! b ! i = asdirs u ! b ! i" "\<And>f. taken_in u f \<Longrightarrow> taken_in t f" "\<And>i. i \<in> J \<Longrightarrow> page_cloned a b u t i" if ok
    using c(2) that by (simp_all add: cloned_def)
  have a: "a < 16" using s(2) by (simp add: in_use_def)
  have "page_cloned a b s t i" if "i \<in> I" ok for i
  proof -
    have i: "asdirs t ! b ! i = asdirs u ! b ! i" using tk(1) [OF that(2)] that(1) d(1) by blast
    have "pmem t (page_addr (frame_of (asdirs u ! b ! i)) x) = pmem u (page_addr (frame_of (asdirs u ! b ! i)) x)" if "taken_in u (frame_of (asdirs u ! b ! i))" for x
      using that by (intro t(5)) (simp add: frame_page_addr frame_less)
    then show ?thesis using u(7) [OF that(1)] tk(2) [OF that(2)] by (simp add: page_cloned_def i split: if_splits)
  qed
  moreover have "page_cloned a b s t i" if "i \<in> J" ok for i
  proof -
    have "pmem u (page_addr (frame_of (asdirs s ! a ! i)) x) = pmem s (page_addr (frame_of (asdirs s ! a ! i)) x)" if "freed (asdirs s ! a ! i)" for x
      using freed_taken [OF s(1,2) _ that] d(2) \<open>i \<in> J\<close> by (intro u(4)) (simp add: frame_page_addr frame_less)
    then show ?thesis using tk(3) [OF that(2,1)] u(3) [OF a s(3)] by (simp add: page_cloned_def split: if_splits)
  qed
  ultimately show ?thesis using u t tk unfolding cloned_def by auto
qed

lemma pinv_set_window:
  assumes "paging_inv s" "in_use s i" "j < PAGE_DIR_ENTRIES" "window j" "entry_ok j e"
  shows "paging_inv (set_pde (AsDir i) j e s)"
proof -
  have s: "shape s" "entries_ok s" using assms(1) by (simp_all add: paging_inv_but_def)
  have "holders (set_pde (AsDir i) j e s) f = holders s f" for f
    using assms(2-4) s(1) by (auto simp: holders_def in_use_def asdirs_set_pde split: if_splits)
  then show ?thesis using assms(1) shape_set_pde [OF s(1)] entries_set_pde [OF s assms(2,3,5)] by (simp add: paging_inv_but_def)
qed

lemma clone_plain:
  assumes s: "paging_inv s" "in_use s a" "in_use s b" "a \<noteq> b" and i: "i < PAGE_DIR_ENTRIES" "\<not> window i \<longrightarrow> \<not> pool_page (asdirs s ! b ! i)"
    and e: "\<not> freed (asdirs s ! a ! i)"
  shows "cloned a b {i} s True (set_pde (AsDir b) i (asdirs s ! a ! i) s)" (is "cloned a b {i} s True ?t")
proof -
  let ?e = "asdirs s ! a ! i"
  have ok: "entry_ok i ?e" using pinv_entry [OF s(1,2) i(1)] .
  have "paging_inv ?t"
  proof (cases "window i")
    case True
    then show ?thesis by (rule pinv_set_window [OF s(1,3) i(1) _ ok])
  next
    case False
    then have "\<not> pool_page ?e" using ok e by (auto simp: entry_ok_def freed_def pool_page_def)
    then show ?thesis using i(2) False by (intro pinv_set_same [OF s(1,3) i(1) False ok]) simp_all
  qed
  moreover have "asdirs ?t ! k ! j = (if k = b \<and> j = i then ?e else asdirs s ! k ! j)" if "k < 16" for k j
    using asdirs_set_pde [OF pinv_sel(1) [OF s(1)] _ i(1) that] s(3) by (simp add: in_use_def)
  ultimately show ?thesis using s(3,4) e by (auto simp: cloned_def page_cloned_def in_use_def taken_in_def)
qed

lemma clone_loop:
  assumes "paging_inv s" "in_use s a" "in_use s b" "a \<noteq> b" "cr3 s = AsDir a" "distinct is"
    "\<forall>i \<in> set is. i < PAGE_DIR_ENTRIES \<and> (\<not> window i \<longrightarrow> \<not> pool_page (asdirs s ! b ! i))"
    "clone_entries (AsDir a) (AsDir b) is s = (ok, t)"
  shows "cloned a b (set is) s ok t"
  using assms
proof (induction "is" arbitrary: s)
  case Nil
  then show ?case by (simp add: cloned_def)
next
  case (Cons i "is")
  let ?e = "asdirs s ! a ! i"
  note s = Cons.prems(1-4)
  have i: "i < PAGE_DIR_ENTRIES" "\<not> window i \<longrightarrow> \<not> pool_page (asdirs s ! b ! i)" using Cons.prems(7) by simp_all
  obtain phys s1 where al: "fork_frame_alloc s = (phys, s1)" by (cases "fork_frame_alloc s")
  have step: "cloned a b (set (i # is)) s ok t" if c: "cloned a b {i} s True u" and r: "clone_entries (AsDir a) (AsDir b) is u = (ok, t)" for u
  proof -
    have u: "paging_inv u" "in_use u a" "in_use u b" "cr3 u = AsDir a" "\<And>j. j \<noteq> i \<Longrightarrow> asdirs u ! b ! j = asdirs s ! b ! j"
      using c s Cons.prems(5) by (simp_all add: cloned_def in_use_def)
    have "\<forall>j \<in> set is. j < PAGE_DIR_ENTRIES \<and> (\<not> window j \<longrightarrow> \<not> pool_page (asdirs u ! b ! j))"
      using Cons.prems(6,7) u(5) by (metis distinct.simps(2) list.set_intros(2))
    then have "cloned a b (set is) u ok t" using Cons.IH [OF u(1-3) s(4) u(4) _ _ r] Cons.prems(6) by simp
    then show ?thesis using cloned_trans [OF s(1,2,4) c] Cons.prems(6,7) by simp
  qed
  show ?case
  proof (cases "freed ?e")
    case False
    then have "clone_entries (AsDir a) (AsDir b) is (set_pde (AsDir b) i ?e s) = (ok, t)" using Cons.prems(8) by (auto simp: freed_def Let_def)
    then show ?thesis using clone_plain [OF s i False] by (intro step)
  next
    case True
    then have f: "\<not> pool_page (asdirs s ! b ! i)" using i pinv_entry [OF s(1,2) i(1)] by (auto simp: entry_ok_def freed_def)
    show ?thesis
    proof (cases "phys = 0")
      case True
      then have "s1 = s" using frame_alloc [OF s(1) al] by (auto split: if_splits)
      then have r: "ok = False" "t = paging_free_dir (AsDir b) s" using Cons.prems(8) \<open>freed ?e\<close> al True by (auto simp: freed_def Let_def)
      show ?thesis using pinv_free_dir [OF s(1,3) r(2)] by (simp add: cloned_def r(1))
    next
      case False
      define u where "u = set_pde (AsDir b) i (phys OR (?e AND 0xFFF)) (copy_page (frame_of ?e) (frame_of phys) s1)"
      have "clone_entries (AsDir a) (AsDir b) is u = (ok, t)" using Cons.prems(8) True al False by (auto simp: freed_def Let_def u_def)
      moreover have "cloned a b {i} s True u"
        using clone_page [OF s Cons.prems(5) i(1) f True al False u_def] True s(3,4) by (auto simp: cloned_def page_cloned_def in_use_def)
      ultimately show ?thesis by (intro step)
    qed
  qed
qed

text \<open>Equal holdings of pages mean equal tables of the pool.\<close>

lemma frames_by_holders:
  assumes "paging_inv s" "paging_inv t" "\<And>f. holders s f = holders t f"
  shows "fork_frames s = fork_frames t"
proof (rule nth_equalityI)
  show "length (fork_frames s) = length (fork_frames t)" using pinv_sel(1) [OF assms(1)] pinv_sel(1) [OF assms(2)] by (simp add: shape_def)
  fix k assume "k < length (fork_frames s)"
  then have p: "pooled (k + 20)" using pinv_sel(1) [OF assms(1)] by (simp add: shape_def pooled_def)
  show "fork_frames s ! k = fork_frames t ! k"
    using pinv_frame [OF assms(1) p] pinv_frame [OF assms(2) p] assms(3) [of "k + 20"] by (auto split: if_splits)
qed

lemma clone_deep_cases:
  assumes s: "paging_inv s" "in_use s a" "cr3 s = AsDir a" and r: "paging_clone_dir_deep (AsDir a) s = (d, t)"
  obtains "d = NoDir" "t = s"
  | b u ok where "d = (if ok then AsDir b else NoDir)" "a \<noteq> b" "b < PAGING_ASDIR_MAX" "\<not> asdir_used s ! b" "cloned a b {..<PAGE_DIR_ENTRIES} u ok t"
    "asdir_used u = (asdir_used s)[b := True]" "\<And>k. k < PAGING_ASDIR_MAX \<Longrightarrow> k \<noteq> b \<Longrightarrow> asdirs u ! k = asdirs s ! k" "fork_frames u = fork_frames s" "pmem u = pmem s" "cr3 u = cr3 s"
proof -
  obtain c u where c: "paging_create_identity_dir s = (c, u)" by (cases "paging_create_identity_dir s")
  show thesis
  proof (cases "c = NoDir")
    case True
    then have "u = s" using create_dir [OF s(1) c] by auto
    then show thesis using r c True by (intro that(1)) (auto simp: paging_clone_dir_deep_def)
  next
    case False
    obtain b where b: "c = AsDir b" "b < 16" "\<not> asdir_used s ! b" and u: "paging_inv u" "in_use u b" "asdir_used u = (asdir_used s)[b := True]"
      "\<And>k. k < 16 \<Longrightarrow> k \<noteq> b \<Longrightarrow> asdirs u ! k = asdirs s ! k" "fork_frames u = fork_frames s" "pmem u = pmem s" "cr3 u = cr3 s"
      "\<And>j. j < 1024 \<Longrightarrow> \<not> window j \<Longrightarrow> \<not> pool_page (asdirs u ! b ! j)"
      using create_dir [OF s(1) c] False by auto
    have ab: "a \<noteq> b" using s(2) b(3) by (auto simp: in_use_def)
    then have ua: "in_use u a" using s(2) by (simp add: in_use_def u(3))
    obtain ok where ok: "clone_entries (AsDir a) (AsDir b) [0..<PAGE_DIR_ENTRIES] u = (ok, t)" and d: "d = (if ok then AsDir b else NoDir)"
      using r c b(1) by (auto simp: paging_clone_dir_deep_def split: prod.splits)
    have "cloned a b (set [0..<PAGE_DIR_ENTRIES]) u ok t" using u(7,8) s(3) by (intro clone_loop [OF u(1) ua u(2) ab _ _ _ ok]) simp_all
    then show thesis using d ab b u by (intro that(2) [where b = b and u = u and ok = ok]) (simp_all add: lessThan_atLeast0)
  qed
qed

text \<open>C18: the address space of a program is copied at a fork into a fresh directory: the child reads
  at every address of the program what the parent reads, and the pages of the parent stay as they
  are. The invariant holds afterwards, so the child shares no page with another directory. When the
  directories or the pages do not suffice nothing is left allocated.\<close>

theorem paging_fork_copies:
  assumes "paging_inv s" "in_use s a" "cr3 s = AsDir a" "paging_clone_dir_deep (AsDir a) s = (d, t)"
  shows "paging_inv t \<and> (\<forall>va. accessible s (AsDir a) (frame_of va) \<longrightarrow> view t (AsDir a) va = view s (AsDir a) va) \<and>
    (case d of
       AsDir b \<Rightarrow> b \<noteq> a \<and> \<not> in_use s b \<and> in_use t b \<and>
         (\<forall>va. accessible t (AsDir b) (frame_of va) = accessible s (AsDir a) (frame_of va)) \<and>
         (\<forall>va. accessible s (AsDir a) (frame_of va) \<longrightarrow> view t (AsDir b) va = view s (AsDir a) va)
     | _ \<Rightarrow> fork_frames t = fork_frames s \<and> asdir_used t = asdir_used s)"
  using assms
proof (cases rule: clone_deep_cases)
  case 1
  then show ?thesis using assms(1) by simp
next
  case (2 b u ok)
  have a: "a < 16" using assms(2) by (simp add: in_use_def)
  have ta: "taken_in u f = taken_in s f" for f by (simp add: taken_in_def 2)
  have ea: "asdirs t ! a ! j = asdirs s ! a ! j" "asdirs u ! a = asdirs s ! a" for j using 2 a by (simp_all add: cloned_def)
  have parent: "view t (AsDir a) va = view s (AsDir a) va" if "accessible s (AsDir a) (frame_of va)" for va
    using freed_taken [OF assms(1,2) frame_less, of va] that 2 by (simp add: view_def ea accessible_def cloned_def ta frame_page_addr frame_less)
  have pt: "paging_inv t" using 2 by (simp add: cloned_def)
  show ?thesis
  proof (cases ok)
    case True
    have pc: "page_cloned a b u t (frame_of va)" for va using 2 True frame_less by (auto simp: cloned_def)
    have "accessible t (AsDir b) (frame_of va) = accessible s (AsDir a) (frame_of va)" for va
      using pc [of va] by (auto simp: accessible_def page_cloned_def ea split: if_splits)
    moreover have "view t (AsDir b) va = view s (AsDir a) va" if "accessible s (AsDir a) (frame_of va)" for va
      using pc [of va] that by (simp add: view_def accessible_def page_cloned_def ea 2)
    moreover have "\<not> in_use s b" "in_use t b" using 2 True pinv_sel(1) [OF assms(1)] by (simp_all add: in_use_def cloned_def shape_def)
    ultimately show ?thesis using parent pt 2 True by simp
  next
    case False
    have ut: "asdir_used t = asdir_used s" using 2 False by (simp add: cloned_def) (metis list_update_id list_update_overwrite)
    have "holders t f = holders s f" for f using 2 by (auto simp: holders_def ut cloned_def)
    then have "fork_frames t = fork_frames s" by (rule frames_by_holders [OF pt assms(1)])
    then show ?thesis using parent pt ut False 2 by simp
  qed
qed

section \<open>Reachable states\<close>

text \<open>The state at boot, and the operations the kernel runs on it: directories are created, copied and
  freed, pages are made accessible, made private and given back, device memory above the identity
  mapping is mapped, page faults are handled and directories are loaded.\<close>

definition paging_boot :: "memory \<Rightarrow> paging" where
  "paging_boot m =
     \<lparr>page_dir = replicate PAGE_DIR_ENTRIES 0, kernel_cr3 = NoDir, paging_on = False, pf_count = 0,
      asdirs = replicate PAGING_ASDIR_MAX (replicate PAGE_DIR_ENTRIES 0), asdir_used = replicate PAGING_ASDIR_MAX False,
      fork_frames = replicate FORK_FRAME_COUNT False, fork_frame_next = 0, cr3 = NoDir, pmem = m\<rparr>"

inductive paging_step :: "paging \<Rightarrow> paging \<Rightarrow> bool" where
  create: "paging_create_identity_dir s = (d, t) \<Longrightarrow> paging_step s t"
| fork: "in_use s a \<Longrightarrow> cr3 s = AsDir a \<Longrightarrow> paging_clone_dir_deep (AsDir a) s = (d, t) \<Longrightarrow> paging_step s t"
| destroy: "in_use s i \<Longrightarrow> paging_step s (paging_free_dir (AsDir i) s)"
| mark: "in_use s i \<Longrightarrow> j < PAGE_DIR_ENTRIES \<Longrightarrow> \<not> window j \<Longrightarrow> paging_step s (paging_mark_user_pde (AsDir i) j s)"
| privatize: "in_use s i \<Longrightarrow> j < PAGE_DIR_ENTRIES \<Longrightarrow> \<not> window j \<Longrightarrow> paging_privatize_user_pde (AsDir i) j s = (ok, t) \<Longrightarrow> paging_step s t"
| give_back: "in_use s i \<Longrightarrow> j < PAGE_DIR_ENTRIES \<Longrightarrow> \<not> window j \<Longrightarrow> paging_step s (paging_free_pde_frame (AsDir i) j s)"
| map_device: "(\<And>p. frame_of (phys AND NOT 0x3FFFFF) \<le> p \<Longrightarrow> p < frame_of ((phys + bytes + 0x3FFFFF) AND NOT 0x3FFFFF) \<Longrightarrow> 32 \<le> p \<and> not_user s p) \<Longrightarrow>
    paging_step s (paging_map_physical phys bytes s)"
| fault: "page_fault ec addr u s = (r, t) \<Longrightarrow> paging_step s t"
| load: "c \<in> {NoDir, KernelDir} \<union> AsDir ` {..<PAGING_ASDIR_MAX} \<Longrightarrow> paging_step s (paging_load_cr3 c s)"

definition paging_reachable :: "paging \<Rightarrow> bool" where
  "paging_reachable s \<longleftrightarrow> (\<exists>m. paging_step\<^sup>*\<^sup>* (paging_init (paging_boot m)) s)"

lemma pinv_boot: "paging_inv (paging_init (paging_boot m))" "cur_ok (paging_init (paging_boot m))"
proof -
  let ?s = "paging_init (paging_boot m)"
  have f: "page_dir ?s = paging_fill_identity True" "asdir_used ?s = replicate 16 False" "fork_frames ?s = replicate 12 False"
    "asdirs ?s = replicate 16 (replicate 1024 0)" "kernel_cr3 ?s = KernelDir" "paging_on ?s"
    by (simp_all add: paging_init_def paging_boot_def)
  have "shape ?s" unfolding shape_def f by (simp add: paging_fill_identity_def f)
  moreover have "entries_ok ?s" unfolding entries_ok_def f
    by (auto simp: paging_fill_identity_def kernel_entry_ok_def entry_simps or.assoc)
  moreover have "holders ?s g = {}" for g unfolding holders_def f by auto
  moreover have "\<not> fork_frames ?s ! (g - 20)" if "pooled g" for g unfolding f using that by (auto simp: pooled_def)
  ultimately show "paging_inv ?s" by (simp add: paging_inv_but_def)
  show "cur_ok ?s" by (simp add: cur_ok_def paging_init_def paging_boot_def)
qed

lemma cur_ok_cr3: "cur_ok s \<Longrightarrow> cr3 t = cr3 s \<Longrightarrow> cur_ok t"
  by (simp add: cur_ok_def)

lemma cr3_privatize: "cr3 (snd (paging_privatize_user_pde c i s)) = cr3 s"
proof -
  have "cr3 (snd (fork_frame_alloc s)) = cr3 s" by (simp add: fork_frame_alloc_def split: option.split)
  then show ?thesis by (auto simp: paging_privatize_user_pde_def Let_def copy_page_keeps split: prod.split)
qed

lemma cr3_free_pde: "cr3 (paging_free_pde_frame c i s) = cr3 s"
  by (simp add: paging_free_pde_frame_def Let_def fork_frame_free_def)

lemma paging_step_inv: "paging_step s t \<Longrightarrow> paging_inv s \<and> cur_ok s \<Longrightarrow> paging_inv t \<and> cur_ok t"
proof (induction rule: paging_step.induct)
  case (create s d t)
  then have "paging_inv t \<and> cr3 t = cr3 s" using create_dir [OF conjunct1 [OF create.prems] create.hyps] by (elim disjE exE conjE) simp_all
  then show ?case using create.prems by (auto intro: cur_ok_cr3 [of s])
next
  case (fork s a d t)
  have "paging_inv t \<and> cr3 t = cr3 s"
    using conjunct1 [OF fork.prems] fork.hyps by (rule clone_deep_cases) (use fork.prems in \<open>auto simp: cloned_def\<close>)
  then show ?case using fork.prems by (auto intro: cur_ok_cr3 [of s])
next
  case (destroy s i)
  then show ?case using pinv_free_dir(1,4) [of s i, OF _ _ HOL.refl] by (auto intro: cur_ok_cr3 [of s])
next
  case (mark s i j)
  moreover have "cr3 (paging_mark_user_pde (AsDir i) j s) = cr3 s" by (simp add: paging_mark_user_pde_def Let_def)
  ultimately show ?case using pinv_mark by (auto intro: cur_ok_cr3 [of s])
next
  case (privatize s i j ok t)
  then show ?case using pinv_privatize [of s i j] cr3_privatize [of "AsDir i" j s] by (auto intro: cur_ok_cr3 [of s])
next
  case (give_back s i j)
  then show ?case using pinv_free_pde cr3_free_pde by (auto intro: cur_ok_cr3 [of s])
next
  case (map_device phys bytes s)
  then have "paging_inv (paging_map_physical phys bytes s)" using pinv_map_physical by blast
  moreover have "cur_ok (paging_map_physical phys bytes s)"
    using map_device.prems pinv_sel(1) [of "{}" s] by (auto simp: paging_map_physical_def Let_def shape_def cur_ok_def)
  ultimately show ?case by blast
next
  case (fault ec addr u s r t)
  then show ?case using pinv_page_fault [of "{}" s ec addr u] by simp
next
  case (load c s)
  moreover have "paging_inv (s\<lparr>cr3 := c\<rparr>) = paging_inv s" for c by (rule pinv_cong) simp_all
  ultimately show ?case using pinv_sel(1) [of "{}" s] by (auto simp: paging_load_cr3_def Let_def paging_dir_ptr_def cur_ok_def shape_def)
qed

lemma paging_reachable_inv: "paging_reachable s \<Longrightarrow> paging_inv s \<and> cur_ok s"
proof -
  assume "paging_reachable s"
  then obtain m where "paging_step\<^sup>*\<^sup>* (paging_init (paging_boot m)) s" by (auto simp: paging_reachable_def)
  then show ?thesis by (induction rule: rtranclp_induct) (use pinv_boot paging_step_inv in auto)
qed


section \<open>What the isolation does not cover\<close>

text \<open>C20: a program that touches an address whose page is not mapped in its directory is given access
  to the physical memory at that address, whatever lies there. Every page above the 128 MB of the
  identity mapping that no driver has mapped is such a page.\<close>

theorem page_fault_grants_physical:
  assumes "paging_reachable s" "in_use s i" "cr3 s = AsDir i" "\<not> paging_pde_present (AsDir i) (frame_of a) s" "ec AND 1 = 0" "ec AND 4 \<noteq> 0"
  shows "case page_fault ec a u s of (r, t) \<Rightarrow>
    r = Retry \<and> accessible t (AsDir i) (frame_of a) \<and> view t (AsDir i) a = pmem s a"
proof -
  let ?j = "frame_of a" let ?e = "of_nat ?j * 0x400000 OR (pde_flags OR PDE_USER)"
  have j: "?j < 1024" by (rule frame_less)
  have sh: "shape s" and i: "i < 16" using paging_reachable_inv [OF assms(1)] assms(2) by (auto simp: paging_inv_but_def in_use_def)
  have ab: "\<not> present (asdirs s ! i ! ?j)" using assms(4) j by (simp add: paging_pde_present_def Let_def)
  have r: "page_fault ec a u s = (Retry, set_pde (AsDir i) ?j ?e (s\<lparr>pf_count := pf_count s + 1\<rparr>))"
    using assms(3,5,6) ab j by (simp add: page_fault_def Let_def)
  have "shape (s\<lparr>pf_count := pf_count s + 1\<rparr>)" using sh by (simp add: shape_def)
  from asdirs_set_pde [OF this i j i, of ?e ?j] have e: "asdirs (set_pde (AsDir i) ?j ?e (s\<lparr>pf_count := pf_count s + 1\<rparr>)) ! i ! ?j = ?e" by simp
  have f: "frame_of ?e = ?j" using j by (simp add: entry_simps)
  have "page_addr ?j a = a"
  proof (rule bit_word_eqI)
    fix n :: nat assume n: "n < LENGTH(32)"
    have "of_nat ?j * 0x400000 = push_bit 22 (drop_bit 22 a)" unfolding page_number frame_of_def by simp
    then show "bit (page_addr ?j a) n \<longleftrightarrow> bit a n" using n
      by (simp only: page_addr_def bit_or_iff bit_and_iff low_mask_bit) (auto simp: bit_simps)
  qed
  then show ?thesis unfolding r prod.case by (simp add: view_def accessible_def e f) (simp add: freed_def entry_simps)
qed

text \<open>When the pool is empty a page cannot be made private. The directories of two programs that were
  given access to the page then map the same memory.\<close>

lemma privatize_exhausted:
  assumes "paging_inv s" "in_use s i" "j < PAGE_DIR_ENTRIES" "\<not> window j" "present (asdirs s ! i ! j)" "\<not> pool_page (asdirs s ! i ! j)" "\<forall>k < FORK_FRAME_COUNT. fork_frames s ! k"
  shows "paging_privatize_user_pde (AsDir i) j s = (False, s)"
proof -
  obtain phys s1 where al: "fork_frame_alloc s = (phys, s1)" by (cases "fork_frame_alloc s")
  have "phys = 0" "s1 = s" using frame_alloc [OF assms(1) al] assms(7) by auto
  then show ?thesis using al assms(3-6) pinv_entry [OF assms(1-3)] by (simp add: paging_privatize_user_pde_def Let_def is_pool pool_page_def entry_ok_def)
qed

lemma marked_pages_shared:
  assumes "paging_inv s" "in_use s i" "in_use s k" "i \<noteq> k" "j < PAGE_DIR_ENTRIES" "\<not> window j"
    "present (asdirs s ! i ! j)" "\<not> pool_page (asdirs s ! i ! j)" "present (asdirs s ! k ! j)" "\<not> pool_page (asdirs s ! k ! j)" "frame_of va = j"
  shows "case paging_mark_user_pde (AsDir k) j (paging_mark_user_pde (AsDir i) j s) of t \<Rightarrow>
    accessible t (AsDir i) j \<and> accessible t (AsDir k) j \<and> view t (AsDir i) va = pmem s (page_addr j va) \<and> view t (AsDir k) va = pmem s (page_addr j va)"
proof -
  have sh: "shape s" and ik: "i < 16" "k < 16" using assms(1-3) by (auto simp: paging_inv_but_def in_use_def)
  have e: "pse (asdirs s ! i ! j) \<and> frame_of (asdirs s ! i ! j) = j" "pse (asdirs s ! k ! j) \<and> frame_of (asdirs s ! k ! j) = j"
    using pinv_entry [OF assms(1,2,5)] pinv_entry [OF assms(1,3,5)] assms(7-10) by (auto simp: entry_ok_def)
  define t where "t = set_pde (AsDir k) j (asdirs s ! k ! j OR PDE_USER) (set_pde (AsDir i) j (asdirs s ! i ! j OR PDE_USER) s)"
  have "asdirs (set_pde (AsDir i) j (asdirs s ! i ! j OR PDE_USER) s) ! k ! j = asdirs s ! k ! j"
    using asdirs_set_pde [OF sh ik(1) assms(5) ik(2)] assms(4) by simp
  then have t: "paging_mark_user_pde (AsDir k) j (paging_mark_user_pde (AsDir i) j s) = t"
    using assms(5) by (simp add: paging_mark_user_pde_def Let_def t_def)
  have "asdirs t ! i ! j = asdirs s ! i ! j OR PDE_USER" "asdirs t ! k ! j = asdirs s ! k ! j OR PDE_USER" "pmem t = pmem s"
    using asdirs_set_pde [OF shape_set_pde [OF sh] ik(2) assms(5)] asdirs_set_pde [OF sh ik(1) assms(5)] ik assms(4) by (simp_all add: t_def)
  then show ?thesis unfolding t using e assms(7,9,11) by (simp add: accessible_def view_def freed_def) (auto simp: entry_bits bit_or_iff flag_numerals)
qed

section \<open>A program with one private page\<close>

definition demo_dir :: paging where
  "demo_dir = paging_load_cr3 (AsDir 0) (snd (paging_create_identity_dir (paging_init (paging_boot (\<lambda>_. 0)))))"

definition demo_space :: paging where
  "demo_space = snd (paging_privatize_user_pde (AsDir 0) 2 demo_dir)"

lemma demo_dir_fields:
  "cr3 demo_dir = AsDir 0" "in_use demo_dir 0" "fork_frames demo_dir = replicate FORK_FRAME_COUNT False"
  "asdirs demo_dir ! 0 = take IDENTITY_PDES paging_fill_supervisor @ map (\<lambda>e. e AND NOT PDE_USER) (drop IDENTITY_PDES (paging_fill_identity True))"
  by (simp_all add: demo_dir_def paging_load_cr3_def paging_dir_ptr_def paging_create_identity_dir_def paging_init_def paging_boot_def in_use_def Let_def)

lemma demo_reachable: "paging_reachable demo_dir" "paging_reachable demo_space"
proof -
  let ?i = "paging_init (paging_boot (\<lambda>_. 0))"
  obtain d t where c: "paging_create_identity_dir ?i = (d, t)" by (cases "paging_create_identity_dir ?i")
  have "paging_step ?i t" by (rule paging_step.create [OF c])
  moreover have "paging_step t demo_dir" unfolding demo_dir_def c snd_conv by (rule paging_step.load) simp
  ultimately have r: "paging_step\<^sup>*\<^sup>* ?i demo_dir" by simp
  then show "paging_reachable demo_dir" unfolding paging_reachable_def by blast
  have "paging_step demo_dir demo_space"
    using paging_step.privatize [OF demo_dir_fields(2), of 2] by (cases "paging_privatize_user_pde (AsDir 0) 2 demo_dir") (simp add: demo_space_def window_def)
  with r show "paging_reachable demo_space" unfolding paging_reachable_def by (meson rtranclp.rtrancl_into_rtrancl)
qed

lemma demo_space_fields: "cr3 demo_space = AsDir 0" "in_use demo_space 0" "accessible demo_space (AsDir 0) 2"
proof -
  have e: "asdirs demo_dir ! 0 ! 2 = of_nat 2 * 0x400000 OR pde_flags" by (simp add: demo_dir_fields paging_fill_supervisor_def nth_append)
  have p: "present (asdirs demo_dir ! 0 ! 2)" "pse (asdirs demo_dir ! 0 ! 2)" "frame_of (asdirs demo_dir ! 0 ! 2) = 2"
    unfolding e by (simp_all only: entry_bits flags_mk flags_bits frame_of_mk drop_flags)
  obtain phys u where al: "fork_frame_alloc demo_dir = (phys, u)" by (cases "fork_frame_alloc demo_dir")
  have pd: "paging_inv demo_dir" using paging_reachable_inv [OF demo_reachable(1)] by blast
  obtain f n where f: "pooled f" "phys = of_nat f * 0x400000" "phys \<noteq> 0" "u = demo_dir\<lparr>fork_frames := (fork_frames demo_dir)[f - 20 := True], fork_frame_next := n\<rparr>" "paging_inv_but {f} u"
    using frame_alloc [OF pd al] by (auto simp: demo_dir_fields split: if_splits dest: spec [of _ 0])
  let ?e = "of_nat f * 0x400000 OR (asdirs demo_dir ! 0 ! 2 AND 0xFFF) OR PDE_USER" let ?c = "copy_page 2 (frame_of phys) u"
  have d: "demo_space = set_pde (AsDir 0) 2 ?e ?c"
    using p al f(2,3) by (simp add: demo_space_def paging_privatize_user_pde_def Let_def is_pool pooled_def)
  show "cr3 demo_space = AsDir 0" "in_use demo_space 0" using demo_dir_fields(1,2) f(4) by (simp_all add: d copy_page_keeps in_use_def)
  have "cur_ok u" using f(4) demo_dir_fields(1) by (simp add: cur_ok_def)
  then have "shape ?c" using pinv_copy_page(1) [OF f(5)] pinv_sel(1) by blast
  from asdirs_set_pde [OF this, of 0 2 0 ?e 2] have "asdirs demo_space ! 0 ! 2 = ?e" by (simp add: d)
  then show "accessible demo_space (AsDir 0) 2" using p by (simp add: accessible_def freed_def entry_bits bit_or_iff bit_and_iff page_bits flag_numerals low_mask_bit)
qed

theorem paging_fork_copies_witness:
  "paging_inv (snd (paging_clone_dir_deep (AsDir 0) demo_space)) \<and>
   view (snd (paging_clone_dir_deep (AsDir 0) demo_space)) (AsDir 0) 0x800000 = view demo_space (AsDir 0) 0x800000"
proof -
  have "frame_of 0x800000 = 2" by (simp add: frame_of_def)
  then show ?thesis
    using paging_fork_copies [OF conjunct1 [OF paging_reachable_inv [OF demo_reachable(2)]] demo_space_fields(2,1), of "fst (paging_clone_dir_deep (AsDir 0) demo_space)" "snd (paging_clone_dir_deep (AsDir 0) demo_space)"]
      demo_space_fields(3) by simp
qed


theorem page_fault_grants_physical_witness:
  "case page_fault 4 0xE0000000 True demo_dir of (r, t) \<Rightarrow> r = Retry \<and> accessible t (AsDir 0) (frame_of 0xE0000000) \<and> view t (AsDir 0) 0xE0000000 = pmem demo_dir 0xE0000000"
proof (rule page_fault_grants_physical [OF demo_reachable(1) demo_dir_fields(2,1)])
  have f: "frame_of 0xE0000000 = 896" by (simp add: frame_of_def)
  have "asdirs demo_dir ! 0 ! 896 = 0" by (simp add: demo_dir_fields paging_fill_supervisor_def paging_fill_identity_def nth_append)
  then show "\<not> paging_pde_present (AsDir 0) (frame_of 0xE0000000) demo_dir" by (simp add: paging_pde_present_def f entry_bits)
qed simp_all

end
