(* ===== verification/KTaskHost.thy ===== *)
theory KTaskHost
  imports KTaskRun KAspace KNetHost
begin

text \<open>
  A concrete kernel for the statements about tasks: the state at boot, and a state with the first task
  running, its child, and a child of that.
\<close>

definition unused_task :: task where
  "unused_task = \<lparr>t_id = 0, t_state = TASK_UNUSED, t_stack = None, t_esp = 0, t_entry = 0, t_arg = 0, t_name = [], t_runs = 0, t_cpu_ticks = 0,
     t_wake_ms = 0, t_wait = WAIT_NONE, t_idle = False, t_parent = 0, t_cwd = [], t_fds = replicate TASK_FD_MAX \<lparr>fd_type = FD_NONE, fd_handle = 0, fd_path = []\<rparr>,
     t_cr3 = NoDir, t_user = False, t_user_entry = 0, t_user_stack = 0, t_slot = 0, t_kstack_top = 0, t_uid = 0, t_gid = 0\<rparr>"

definition kernel_boot where
  "kernel_boot = \<lparr>k_tasks = replicate TASK_MAX unused_task, k_cur = None, k_ready = False, k_next_id = 1, k_yields = 0, k_need_resched = False,
     k_slice = TASK_SLICE_TICKS, k_wakes = 0, k_net_wakes = 0, k_slot_ref = replicate USER_STACK_SLOT_COUNT 0, k_slot_next = 0, k_esp0 = 0,
     k_heap = heap0, k_paging = paging_init (paging_boot (\<lambda>_. 0)), k_pipes = g_pipes, k_ptys = g_ptys,
     k_ofiles = replicate FS_OPEN_MAX \<lparr>of_used = False, of_index = 0, of_offset = 0, of_flags = 0, of_fs_type = 0, of_is_dir = False, of_path = []\<rparr>,
     k_net = net_host\<rparr>"

definition one_child where
  "one_child = upd_task 1 (start_task 1 0 1 0 0) ((sched_init kernel_boot)\<lparr>k_next_id := 2\<rparr>)"

definition two_tasks where
  "two_tasks = upd_task 2 (start_task 2 0 1 0 1) (one_child\<lparr>k_next_id := 3\<rparr>)"

lemma boot_len: "length (k_tasks kernel_boot) = TASK_MAX"
  by (simp add: kernel_boot_def)

lemma init_sel: "k_next_id (sched_init kernel_boot) = 1" "i < TASK_MAX \<Longrightarrow> t_state (k_tasks (sched_init kernel_boot) ! i) = (if i = 0 then TASK_RUNNING else TASK_UNUSED)"
  "k_cur (sched_init kernel_boot) = Some 0" "t_id (k_tasks (sched_init kernel_boot) ! 0) = 0" "length (k_tasks (sched_init kernel_boot)) = TASK_MAX"
  using boot_len by (simp_all add: sched_init_def nth_list_update task_fds_clear_def)

lemma one_child_inv: "sched_inv one_child"
  using inv_new_task [OF sched_init_inv [OF boot_len], of 1 "start_task 1 0 1 0 0"] by (simp add: one_child_def init_sel)

lemma one_child_sel: "k_next_id one_child = 2" "k_cur one_child = Some 0" "length (k_tasks one_child) = TASK_MAX"
  "i < TASK_MAX \<Longrightarrow> k_tasks one_child ! i = (if i = 1 then start_task 1 0 1 0 0 (k_tasks (sched_init kernel_boot) ! 1) else k_tasks (sched_init kernel_boot) ! i)"
  using upd_nth [of "(sched_init kernel_boot)\<lparr>k_next_id := 2\<rparr>" i 1 "start_task 1 0 1 0 0"] by (simp_all add: one_child_def init_sel)

lemma two_tasks_inv: "sched_inv two_tasks"
  using inv_new_task [OF one_child_inv, of 2 "start_task 2 0 1 0 1"] by (simp add: two_tasks_def one_child_sel init_sel)

lemma two_tasks_sel: "k_cur two_tasks = Some 0" "length (k_tasks two_tasks) = TASK_MAX"
  "i < TASK_MAX \<Longrightarrow> k_tasks two_tasks ! i = (if i = 2 then start_task 2 0 1 0 1 (k_tasks one_child ! 2) else k_tasks one_child ! i)"
  using upd_nth [of "one_child\<lparr>k_next_id := 3\<rparr>" i 2 "start_task 2 0 1 0 1"] by (simp_all add: two_tasks_def one_child_sel)

lemma two_tasks_nth:
  "t_state (k_tasks two_tasks ! 0) = TASK_RUNNING" "t_id (k_tasks two_tasks ! 0) = 0"
  "t_state (k_tasks two_tasks ! 1) = TASK_READY" "t_id (k_tasks two_tasks ! 1) = 1" "\<not> t_idle (k_tasks two_tasks ! 1)"
  "t_state (k_tasks two_tasks ! 2) = TASK_READY" "t_parent (k_tasks two_tasks ! 2) = 1" "\<not> t_idle (k_tasks two_tasks ! 2)"
  by (simp_all add: two_tasks_sel one_child_sel init_sel) (simp_all add: start_task_def)




end
