(* ===== verification/Spec2Isabelle.thy ===== *)
theory Spec2Isabelle
  imports KHeap KString KPipe KPty KFsCheck KFsAttr KRamfs KNetHost KAead KX25519 KRng KUserDb KTaskHost
begin

text \<open>
  A verification library for the KnitOS kernel (sources under src/kernel).

  \<^bold>\<open>The program.\<close> The kernel has a C string library and a heap; pipes and pseudo terminals between
  tasks; a file system with a journal over a write-back cache of sectors; a RAM file system, a mount
  table and a registry of drivers and disks; a network stack from packet buffers and interfaces
  through Ethernet, ARP, routing, IP, ICMP, UDP, TCP, sockets, DNS and DHCP; cryptography and the
  accounts of users; and tasks with address spaces, a program loader and a scheduler. The file system
  reaches the disk only through the cache and the transfers of ata.cpp; the protocols reach the device
  only through the interfaces, and are reached from net_process, which takes frames from the queues.
  Accounts use the hash and the file system; tasks use the heap, paging, pipes, terminals and sockets.

  \<^bold>\<open>How the code is modelled.\<close> A structure of the source is a record, an enumeration a datatype, a
  machine integer a word of its width, a table an array of fixed length as a list, a pointer into a
  table an index. An operation is a function from the state to its result and the new state; an
  error return is None, False or the code's negative number. A loop is a recursive function with a
  termination proof; the loop of tcp_send_data, which depends on the segment size of a connection,
  is a partial function, and that it ends is a theorem. Text output and logging are left out.

  \<^bold>\<open>Library.\<close> KPrelude holds what all components share: the search of a slot in a table, copies of
  C strings, tables without duplicates, bounds of words. KBytes reads and writes little-endian
  fields of a block of bytes. KRing has the interface of a bounded first-in first-out buffer as a
  locale; the rings of terminals and the receive queue of the interfaces interpret it. KSectors has the
  interface of a store of sectors, which the cache and the file system's access to it interpret.

  \<^bold>\<open>Strings and memory.\<close> KString: string.cpp over a memory of addresses (memmove for any overlap,
  strtok). KHeap: heap.cpp over the list of blocks of the arena; the invariant (blocks tile the arena,
  no two free neighbours after a free), what malloc returns, and that free undoes it.

  \<^bold>\<open>Pipes and terminals.\<close> KPipe: pipe.cpp, with a blocking call split where it yields; over any
  interleaving the bytes read are a prefix of those written, and all are delivered. KPty: pty.cpp,
  whose line discipline refines a specification over lines and signals.

  \<^bold>\<open>File system.\<close> KFsCache: fs_cache.cpp refines a flat array of sectors, and a sync makes the device
  equal to it. KFsLayout: the structures of fs.h and their bytes. KFsAlloc, KFsJournal: bitmap, journal,
  recovery; a crash at any write of a commit leaves all or nothing of the transaction. KFsExtent,
  KFsInode: extents, growth, reads and writes by inode, permissions. KFsDir, KFsPath: directories as
  bytes and the resolution of paths with symbolic links, which refines the walk over a tree of names.
  KFsOps, KFsCreate, KFsAttr: the operations on paths, creation, ownership, attributes, removal.
  KFsCheck: formatting, mounting and checking. The device is a parameter with the laws of a disk.

  \<^bold>\<open>Drivers, disks, mounts.\<close> KDriver: registration and dispatch of driver_manager.cpp. KDisk:
  disk_manager.cpp. KMount: mount.cpp, where the longest mount point wins. KRamfs: ramfs.cpp.

  \<^bold>\<open>Network.\<close> The state grows by record extension, one extension per file: net (KNetif: skb.cpp,
  net_queue.cpp, netif.cpp, nic.cpp), rnet (KRoute: route.cpp), anet (KArp: arp.cpp, with the waiting
  of net_wait.cpp), ipnet (KIp: ip.cpp), tnet (KTcp: tcp.cpp, tcp_connection.cpp), pnet (KPorts:
  net_ports.cpp), snet (KSocket: udp.cpp, socket.cpp), inet (KIcmp: icmp.cpp), dnet (KDns: dns.cpp) and
  hnet (KDhcp: dhcp.cpp). KEth, KIpPkt and KSegment have frames, packets and segments as bytes. The
  device is part of the state: the frames it holds, its answers, the frames handed to it. Time is a
  field that moves only while the code waits, and the events of a wait are arbitrary.
  A wait serves the network: the function that does so is an argument named poll. Within net_process
  it is the identity, because a flag refuses the inner call; for a task it is net_process. The
  locales of KIpPoll and KTcpInv state what code that waits relies on: what the poll keeps, sending
  and waiting keep. They are interpreted on the identity and, in KNetRx, on net_process itself.
  The lemmas show: no buffer is lost or shared between queues and every queued frame is handled;
  routing by the longest prefix; an ARP exchange teaches both hosts; the checksum is the
  ones-complement sum; fragments arrive in any order; a connection follows the TCP state machine, its
  reader sees a prefix of the peer's stream and all of it when the segments come in order, the
  connections stay well formed and sending ends; the queue of a datagram socket; an answer of the
  name server is read as its address; only an acknowledgement changes the address of the host.
  KPing follows an echo request through the whole stack, from the frame in the device to the frame with
  the answer. KNetHost has a concrete host on which these statements are evaluated.

  \<^bold>\<open>Cryptography and accounts.\<close> KWords has the words of the ciphers. KChaCha, KPoly1305, KAead:
  chacha20poly1305.cpp; the authenticator on 26-bit limbs is the polynomial of the standard, and a
  message is decrypted exactly when its tag is right. KSha256: sha256.cpp, equal to the definition on
  the padded message for every division of the input. KField, KX25519: x25519.cpp on sixteen signed
  limbs refines the ladder modulo 2^255-19. KRng: rng.cpp, whose clock readings are a parameter.
  KUsers: user_auth.cpp, the tables of users and groups and the texts of their databases, which it
  stores through the file system of KFsOps. KUserDb: setting and checking passwords, and the texts
  read back.

  \<^bold>\<open>Programs and tasks.\<close> KElf: elf.cpp over a memory reached through a translation of addresses; the
  memory after a load is the one the image prescribes. KPaging: mm/paging.cpp, directories of 4 MB
  pages over a physical memory; a value of CR3 is the name of a directory. KAspace: no frame of the
  pool is shared between directories in any reachable state, a fork copies the address space, and a
  fault of a program on an unmapped page grants the physical memory there. KTask, KSched:
  sched/task.cpp; the state is the record kernel, with the table of tasks and the heap, paging, pipes,
  terminals, open files and network it uses. A switch of stacks is the change of the current task, and
  a blocking call is split where it switches; the function that serves the network while sockets are
  closed is an argument. KSchedInv, KFair, KKill, KTaskRun: in every reachable state only the current
  task runs and identities are unique; a ready task runs within 31 switches; killing a task returns
  and ends exactly its descendants. KTaskHost has the concrete kernel for these statements.

  \<^bold>\<open>Bounds.\<close> Loops that wait are bounded by their timeout: each round waits a fixed time, so the
  number of rounds is the timeout divided by it, plus one. The decoding of a DNS name is recursive;
  the stack that is free when a frame is handled is a field, and exhausting it is a result.

  The recursion of task_kill_children is a partial function, since it does not return when parents
  form a circle; that it returns is part of the theorem about task_kill.

  \<^bold>\<open>Not modelled.\<close> The contents of kernel stacks, registers, interrupts and multiprocessing; exec of a
  task and the change of its directory, which need the virtual file system; virtual file system and
  system calls; the drivers of network cards, disk controllers, PCI, timers, keyboard and screen (port
  and memory-mapped input and output); Ed25519, which needs the group law of its curve; the
  application servers, the shell, user programs. Tasks interleave in the model only where it says so:
  in pipes and terminals, in the steps of KTaskRun, and in the frames that arrive while code waits.
\<close>

end
